(* ===== verification/H2_Prelude.thy ===== *)
theory H2_Prelude
  imports Main "HOL-Library.Word"
begin

unbundle bit_operations_syntax

text \<open>
  Shared vocabulary of the HAMMER2 development.

  The machine integers of the C sources are words of the same width.  A C
  function that can stop the kernel returns an \<open>outcome\<close>: \<open>Ok\<close> for a normal
  return, \<open>Panic\<close> for a failed \<open>KKASSERT\<close> or a call of \<open>panic()\<close>, \<open>Fault\<close> for an
  access the C abstract machine does not define (a null dereference, a shift by
  at least the width).  The rest of the theory collects facts on words, on lists
  and on outcomes that every component uses.
\<close>

type_synonym u8 = "8 word"
type_synonym u16 = "16 word"
type_synonym u32 = "32 word"
type_synonym u64 = "64 word"
type_synonym bytes = "8 word list"

datatype 'a outcome = Ok 'a | Panic string | Fault string

text \<open>Sequencing: a panic or a fault ends the caller too.\<close>

fun obind :: "'a outcome \<Rightarrow> ('a \<Rightarrow> 'b outcome) \<Rightarrow> 'b outcome" where
  "obind (Ok x) f = f x"
| "obind (Panic s) f = Panic s"
| "obind (Fault s) f = Fault s"

text \<open>\<open>KKASSERT(cond)\<close> followed by the rest of the function.\<close>

definition kkassert :: "bool \<Rightarrow> string \<Rightarrow> 'a outcome \<Rightarrow> 'a outcome" where
  "kkassert b s k = (if b then k else Panic s)"

text \<open>The error codes the modelled functions return; \<open>E_OK\<close> is the C value 0.\<close>

datatype errno = E_OK | ENOSPC | EAGAIN | EBUSY | EINVAL | EALREADY

named_theorems word_nat \<open>reading word operations as arithmetic on natural numbers\<close>
named_theorems outcome_simps \<open>unfolding outcomes\<close>

declare kkassert_def [outcome_simps]

subsection \<open>Outcomes\<close>

lemma obind_eq_Ok [outcome_simps]:
  "obind m f = Ok y \<longleftrightarrow> (\<exists>x. m = Ok x \<and> f x = Ok y)"
  by (cases m) auto

lemma kkassert_eq_Ok [simp]: "kkassert b s k = Ok y \<longleftrightarrow> b \<and> k = Ok y"
  by (simp add: kkassert_def)

lemma kkassert_True [simp]: "kkassert True s k = k"
  by (simp add: kkassert_def)

lemma obind_assoc: "obind (obind m f) g = obind m (\<lambda>x. obind (f x) g)"
  by (cases m) auto

subsection \<open>Words\<close>

lemma word_or_eq_0: "(a :: 'a::len word) OR b = 0 \<longleftrightarrow> a = 0 \<and> b = 0"
  by (auto simp: bit_eq_iff bit_or_iff)

lemma unat_push1 [word_nat]:
  assumes "n < LENGTH('a)"
  shows "unat (push_bit n (1::'a::len word)) = 2 ^ n"
proof -
  from assms have "(2::nat) ^ n < 2 ^ LENGTH('a)" by (rule power_strict_increasing) simp
  then show ?thesis
    by (subst unsigned_push_bit_eq) (simp add: push_bit_eq_mult take_bit_eq_mod)
qed

lemma unat_pow2 [word_nat]: "n < LENGTH('a) \<Longrightarrow> unat (2 ^ n :: 'a::len word) = 2 ^ n"
  using unat_push1 [where 'a = 'a] by (simp add: push_bit_eq_mult)

lemma unat_of_nat_small [word_nat]: "n < 2 ^ LENGTH('a) \<Longrightarrow> unat (of_nat n :: 'a::len word) = n"
  by (simp add: unat_of_nat take_bit_nat_eq_self)

lemma unat_eqI: "unat (x :: 'a::len word) = unat y \<Longrightarrow> x = y"
  by (rule unsigned_word_eqI)

lemma unat_drop_bit [word_nat]: "unat (drop_bit n (w :: 'a::len word)) = unat w div 2 ^ n"
  by (subst unsigned_drop_bit_eq) (simp add: drop_bit_eq_div take_bit_nat_eq_self unsigned_less)

lemma unat_mask_le: "unat (x AND y) \<le> unat (y :: 'a::len word)"
  by (metis word_and_le1 word_le_nat_alt)

lemma and_not_mask_eq: "(x :: 'a::len word) AND NOT (mask n) = push_bit n (drop_bit n x)"
  by (rule bit_word_eqI) (auto simp: bit_simps)

lemma unat_and_mask [word_nat]:
  "unat ((x :: 'a::len word) AND mask n) = unat x mod 2 ^ n"
  unfolding take_bit_eq_mask [symmetric]
  by (subst unsigned_take_bit_eq) (simp add: take_bit_eq_mod)

lemma unat_and_not_mask [word_nat]:
  "unat ((x :: 'a::len word) AND NOT (mask n)) = unat x - unat x mod 2 ^ n"
proof -
  have "x AND NOT (mask n) = push_bit n (drop_bit n x)"
    by (rule and_not_mask_eq)
  also have "\<dots> = x - take_bit n x"
    using bits_ident [of n x] by (simp add: algebra_simps)
  finally have "x AND NOT (mask n) = x - (x AND mask n)"
    by (simp add: take_bit_eq_mask)
  moreover have "x AND mask n \<le> x"
    by (rule word_and_le2)
  ultimately have "unat (x AND NOT (mask n)) = unat x - unat (x AND mask n)"
    by (simp add: unat_sub_if' word_le_nat_alt)
  then show ?thesis by (simp add: unat_and_mask)
qed

lemma or_and_absorb [simp]: "((x :: 'a::len word) OR y) AND y = y"
  by (rule bit_word_eqI) (auto simp: bit_simps)

lemma take_xor_drop: "take_bit n (x :: 'a::len word) XOR push_bit n (drop_bit n x) = x"
proof (rule bit_word_eqI)
  fix m assume "m < LENGTH('a)"
  then show "bit (take_bit n x XOR push_bit n (drop_bit n x)) m = bit x m"
    by (cases "m < n") (auto simp: bit_simps)
qed

lemma word_le_unat: "(x::'a::len word) \<le> y \<longleftrightarrow> unat x \<le> unat y"
  by (rule word_le_nat_alt)

lemma word_less_unat: "(x::'a::len word) < y \<longleftrightarrow> unat x < unat y"
  by (rule word_less_nat_alt)

lemmas word_order_nat = word_le_unat word_less_unat

lemma unat_plus_noverflow [word_nat]:
  "unat (x::u64) + unat y < 2 ^ 64 \<Longrightarrow> unat (x + y) = unat x + unat y"
  by (simp add: unat_word_ariths)

lemma unat_minus_le [word_nat]:
  "unat y \<le> unat (x::'a::len word) \<Longrightarrow> unat (x - y) = unat x - unat y"
  by (simp add: unat_sub_if')

lemma u64_bound: "unat (x::u64) < 18446744073709551616"
  using unsigned_less [of x, where ?'a = nat] by simp

lemma u32_bound: "unat (x::u32) < 4294967296"
  using unsigned_less [of x, where ?'a = nat] by simp

subsection \<open>Little-endian bytes of a word\<close>

fun le_join :: "bytes \<Rightarrow> 'a::len word" where
  "le_join [] = 0"
| "le_join (b # bs) = ucast b OR push_bit 8 (le_join bs)"

definition le_split :: "nat \<Rightarrow> 'a::len word \<Rightarrow> bytes" where
  "le_split n w = map (\<lambda>i. ucast (drop_bit (8 * i) w)) [0..<n]"

lemma bit_le_join:
  "bit (le_join bs :: 'a::len word) k \<longleftrightarrow>
   k < LENGTH('a) \<and> k div 8 < length bs \<and> bit (bs ! (k div 8)) (k mod 8)"
proof (induction bs arbitrary: k)
  case (Cons b bs)
  show ?case
  proof (cases "k < 8")
    case True
    then show ?thesis by (auto simp: bit_simps dest: bit_imp_le_length)
  next
    case False
    then have "\<not> bit b k" using bit_imp_le_length [of b k] by auto
    moreover have "k div 8 = Suc ((k - 8) div 8)" "k mod 8 = (k - 8) mod 8"
      using False by (simp_all add: le_div_geq le_mod_geq)
    ultimately show ?thesis using False Cons.IH [of "k - 8"] by (auto simp: bit_simps)
  qed
qed simp

lemma le_split_join:
  assumes "8 * length bs \<le> LENGTH('a::len)"
  shows "le_split (length bs) (le_join bs :: 'a word) = bs"
proof (rule nth_equalityI)
  fix i assume "i < length (le_split (length bs) (le_join bs :: 'a word))"
  then have i: "i < length bs" by (simp add: le_split_def)
  have "ucast (drop_bit (8 * i) (le_join bs :: 'a word)) = bs ! i"
  proof (rule bit_word_eqI)
    fix k assume k: "k < LENGTH(8)"
    then have "(8 * i + k) div 8 = i" "(8 * i + k) mod 8 = k" "8 * i + k < LENGTH('a)"
      using i assms by auto
    with i k show "bit (ucast (drop_bit (8 * i) (le_join bs :: 'a word)) :: u8) k = bit (bs ! i) k"
      by (auto simp: bit_simps bit_le_join)
  qed
  then show "le_split (length bs) (le_join bs :: 'a word) ! i = bs ! i"
    using i by (simp add: le_split_def)
qed (simp add: le_split_def)

lemma le_join_split:
  assumes "LENGTH('a) \<le> 8 * n"
  shows "le_join (le_split n w) = (w :: 'a::len word)"
proof (rule bit_word_eqI)
  fix k assume k: "k < LENGTH('a)"
  with assms have "k div 8 < n" by auto
  moreover have "8 * (k div 8) + k mod 8 = k" by simp
  ultimately show "bit (le_join (le_split n w) :: 'a word) k = bit w k"
    using k by (auto simp: bit_le_join le_split_def bit_simps)
qed

lemma length_le_split [simp]: "length (le_split n w) = n"
  by (simp add: le_split_def)

text \<open>Offset and radix of a \<open>data_off\<close>.\<close>

lemma data_off_decode:
  assumes "1024 dvd unat (off :: u64)" "radix < 64"
  shows "(off OR of_nat radix) AND NOT 63 = off" "(off OR of_nat radix) AND 63 = of_nat radix"
proof -
  have m: "(63 :: u64) = mask 6" by (simp add: mask_numeral)
  have "64 dvd unat off" using assms(1) by (rule dvd_trans [rotated]) simp
  then have z: "unat off mod 64 = 0" by (rule dvd_imp_mod_0)
  have r: "unat (of_nat radix :: u64) = radix" by (rule unat_of_nat_small) (use assms(2) in simp)
  have o: "off AND NOT 63 = off" "off AND 63 = 0"
    by (rule unat_eqI, unfold m unat_and_not_mask unat_and_mask, use z in simp)+
  have q: "(of_nat radix :: u64) AND NOT 63 = 0" "(of_nat radix :: u64) AND 63 = of_nat radix"
    by (rule unat_eqI, unfold m unat_and_not_mask unat_and_mask r, use assms(2) in simp)+
  show "(off OR of_nat radix) AND NOT 63 = off" "(off OR of_nat radix) AND 63 = of_nat radix"
    using o q by (simp_all only: bit.conj_disj_distrib2) simp_all
qed

lemma dvd_less_add_le:
  assumes "d dvd a" "d dvd b" "a < (b::nat)"
  shows "a + d \<le> b"
proof -
  obtain x y where e: "a = d * x" "b = d * y" using assms(1,2) by (auto elim!: dvdE)
  with assms(3) have "Suc x \<le> y" by (simp add: Suc_leI)
  then have "d * Suc x \<le> d * y" by (rule mult_le_mono2)
  with e show ?thesis by simp
qed

subsection \<open>Lists\<close>

lemma sorted_wrt_filter_nth:
  assumes "sorted_wrt R (filter P xs)" "i < j" "j < length xs" "P (xs ! i)" "P (xs ! j)"
  shows "R (xs ! i) (xs ! j)"
proof -
  have split: "xs = take j xs @ xs ! j # drop (Suc j) xs"
    using assms(3) by (rule id_take_nth_drop)
  have "xs ! i \<in> set (filter P (take j xs))"
    using assms(2-4) by (auto simp: in_set_conv_nth intro!: exI [of _ i])
  moreover have "sorted_wrt R (filter P (take j xs) @ xs ! j # filter P (drop (Suc j) xs))"
    using assms(1,5) by (subst (asm) split) simp
  ultimately show ?thesis
    by (auto simp: sorted_wrt_append)
qed

lemma filter_take_drop: "filter P (take n xs) @ filter P (drop n xs) = filter P xs"
  by (metis append_take_drop_id filter_append)

lemma nth_take_drop_split:
  "i < length xs \<Longrightarrow> take i xs @ xs ! i # drop (Suc i) xs = xs"
  by (metis id_take_nth_drop)

lemma find_append:
  "find P (xs @ ys) = (case find P xs of None \<Rightarrow> find P ys | Some x \<Rightarrow> Some x)"
  by (induction xs) auto

end
