(* ===== verification/H2_Disk.thy ===== *)
theory H2_Disk
  imports H2_Prelude
begin

unbundle bit_operations_syntax

text \<open>
  The media structures of \<^verbatim>\<open>hammer2_disk.h\<close> and the in-memory chain of
  \<^verbatim>\<open>hammer2.h\<close>, as far as the modelled code reads or writes them.  Reserved
  fields that no function touches are left out.  The \<open>check\<close> union of a blockref is
  kept as its 24 bytes in the layout of its \<open>freemap\<close> member; the other members are
  views of the same bytes (little endian, as on the ported platforms).
\<close>

subsection \<open>Sizes and radices\<close>

abbreviation (input) HAMMER2_ALLOC_MIN :: nat where "HAMMER2_ALLOC_MIN \<equiv> 1024"
abbreviation (input) HAMMER2_RADIX_MIN :: nat where "HAMMER2_RADIX_MIN \<equiv> 10"
abbreviation (input) HAMMER2_ALLOC_MAX :: nat where "HAMMER2_ALLOC_MAX \<equiv> 65536"
abbreviation (input) HAMMER2_RADIX_MAX :: nat where "HAMMER2_RADIX_MAX \<equiv> 16"
abbreviation (input) HAMMER2_LBUFRADIX :: nat where "HAMMER2_LBUFRADIX \<equiv> 14"
abbreviation (input) HAMMER2_LBUFSIZE :: nat where "HAMMER2_LBUFSIZE \<equiv> 16384"
abbreviation (input) HAMMER2_PBUFRADIX :: nat where "HAMMER2_PBUFRADIX \<equiv> 16"
abbreviation (input) HAMMER2_PBUFSIZE :: nat where "HAMMER2_PBUFSIZE \<equiv> 65536"
abbreviation (input) HAMMER2_MINIORADIX :: nat where "HAMMER2_MINIORADIX \<equiv> 14"
abbreviation (input) HAMMER2_SEGRADIX :: nat where "HAMMER2_SEGRADIX \<equiv> 21"
abbreviation (input) HAMMER2_SEGSIZE :: nat where "HAMMER2_SEGSIZE \<equiv> 2097152"
abbreviation (input) HAMMER2_SET_COUNT :: nat where "HAMMER2_SET_COUNT \<equiv> 8"
abbreviation (input) HAMMER2_FREEMAP_COUNT :: nat where "HAMMER2_FREEMAP_COUNT \<equiv> 1024"
abbreviation (input) HAMMER2_FREEMAP_BLOCK_RADIX :: nat where "HAMMER2_FREEMAP_BLOCK_RADIX \<equiv> 14"
abbreviation (input) HAMMER2_FREEMAP_BLOCK_SIZE :: nat where "HAMMER2_FREEMAP_BLOCK_SIZE \<equiv> 16384"

abbreviation (input) HAMMER2_PBUFMASK64 :: u64 where "HAMMER2_PBUFMASK64 \<equiv> 65535"
abbreviation (input) HAMMER2_SEGMASK64 :: u64 where "HAMMER2_SEGMASK64 \<equiv> 2097151"
abbreviation (input) HAMMER2_VOLUME_ALIGN64 :: u64 where "HAMMER2_VOLUME_ALIGN64 \<equiv> 8388608"
abbreviation (input) HAMMER2_VOLUME_ALIGNMASK64 :: u64 where "HAMMER2_VOLUME_ALIGNMASK64 \<equiv> 8388607"
abbreviation (input) HAMMER2_ZONE_BYTES64 :: u64 where "HAMMER2_ZONE_BYTES64 \<equiv> 2147483648"
abbreviation (input) HAMMER2_ZONE_MASK64 :: u64 where "HAMMER2_ZONE_MASK64 \<equiv> 2147483647"
abbreviation (input) HAMMER2_ZONE_SEG64 :: u64 where "HAMMER2_ZONE_SEG64 \<equiv> 4194304"
abbreviation (input) HAMMER2_OFF_MASK_RADIX :: u64 where "HAMMER2_OFF_MASK_RADIX \<equiv> 63"

subsection \<open>Blockref types and flags\<close>

abbreviation (input) HAMMER2_BREF_TYPE_EMPTY :: u8 where "HAMMER2_BREF_TYPE_EMPTY \<equiv> 0"
abbreviation (input) HAMMER2_BREF_TYPE_INODE :: u8 where "HAMMER2_BREF_TYPE_INODE \<equiv> 1"
abbreviation (input) HAMMER2_BREF_TYPE_INDIRECT :: u8 where "HAMMER2_BREF_TYPE_INDIRECT \<equiv> 2"
abbreviation (input) HAMMER2_BREF_TYPE_DATA :: u8 where "HAMMER2_BREF_TYPE_DATA \<equiv> 3"
abbreviation (input) HAMMER2_BREF_TYPE_FREEMAP_NODE :: u8 where "HAMMER2_BREF_TYPE_FREEMAP_NODE \<equiv> 5"
abbreviation (input) HAMMER2_BREF_TYPE_FREEMAP_LEAF :: u8 where "HAMMER2_BREF_TYPE_FREEMAP_LEAF \<equiv> 6"

abbreviation (input) HAMMER2_BREF_FLAG_PFSROOT :: u8 where "HAMMER2_BREF_FLAG_PFSROOT \<equiv> 1"
abbreviation (input) HAMMER2_BREF_FLAG_ZERO :: u8 where "HAMMER2_BREF_FLAG_ZERO \<equiv> 2"

abbreviation (input) HAMMER2_CORE_COUNTEDBREFS :: u32 where "HAMMER2_CORE_COUNTEDBREFS \<equiv> 2"
abbreviation (input) HAMMER2_CHAIN_BMAPPED :: u32 where "HAMMER2_CHAIN_BMAPPED \<equiv> 0x00040000"
abbreviation (input) HAMMER2_CHAIN_BMAPUPD :: u32 where "HAMMER2_CHAIN_BMAPUPD \<equiv> 0x00080000"

subsection \<open>Structures\<close>

text \<open>The \<open>check\<close> union: \<open>icrc32\<close>, \<open>bigmask\<close>, \<open>avail\<close>, \<open>unused\<close>.\<close>

record check_union =
  ck_icrc32 :: u32
  ck_bigmask :: u32
  ck_avail :: u64
  ck_unused :: u64

record hammer2_blockref =
  br_type :: u8
  br_methods :: u8
  br_copyid :: u8
  br_keybits :: u8
  br_vradix :: u8
  br_flags :: u8
  br_key :: u64
  br_mirror_tid :: u64
  br_modify_tid :: u64
  br_data_off :: u64
  br_check :: check_union

text \<open>\<open>bzero(bref, sizeof *bref)\<close>.\<close>

definition blockref_zero :: hammer2_blockref where
  "blockref_zero =
     \<lparr>br_type = 0, br_methods = 0, br_copyid = 0, br_keybits = 0, br_vradix = 0, br_flags = 0,
      br_key = 0, br_mirror_tid = 0, br_modify_tid = 0, br_data_off = 0,
      br_check = \<lparr>ck_icrc32 = 0, ck_bigmask = 0, ck_avail = 0, ck_unused = 0\<rparr>\<rparr>"

text \<open>
  A chain with the fields of its embedded core: the block reference it was loaded
  from, its flags, its physical size, and for a parent the optimisation state of its
  block table (\<open>live_zero\<close>, \<open>live_count\<close>, \<open>COUNTEDBREFS\<close>), the number of chains in
  memory below it and the generation number of that set.
\<close>

record hammer2_chain =
  ch_bref :: hammer2_blockref
  ch_flags :: u32
  ch_bytes :: nat
  core_live_zero :: nat
  core_flags :: u32
  core_live_count :: u32
  core_chain_count :: u32
  core_generation :: u32

text \<open>
  The key range of a blockref is \<open>key\<close> to \<open>key + (1 << keybits) - 1\<close>.  A shift by 64
  or more is undefined in C; the word shift gives 0 there and \<open>bref_wf\<close> excludes it.
\<close>

definition bref_end :: "hammer2_blockref \<Rightarrow> u64" where
  "bref_end b = br_key b + push_bit (unat (br_keybits b)) 1 - 1"

definition bref_next :: "hammer2_blockref \<Rightarrow> u64" where
  "bref_next b = br_key b + push_bit (unat (br_keybits b)) 1"

definition bref_wf :: "hammer2_blockref \<Rightarrow> bool" where
  "bref_wf b \<longleftrightarrow> unat (br_keybits b) < 64 \<and>
     unat (br_key b) + 2 ^ unat (br_keybits b) \<le> 2 ^ 64"

text \<open>Number-valued bounds of the range, and "wholly to the left of".\<close>

definition bref_hi :: "hammer2_blockref \<Rightarrow> nat" where
  "bref_hi b = unat (br_key b) + 2 ^ unat (br_keybits b)"

definition bref_left :: "hammer2_blockref \<Rightarrow> hammer2_blockref \<Rightarrow> bool" where
  "bref_left a b \<longleftrightarrow> bref_hi a \<le> unat (br_key b)"

definition bref_overlap :: "hammer2_blockref \<Rightarrow> hammer2_blockref \<Rightarrow> bool" where
  "bref_overlap a b \<longleftrightarrow> \<not> bref_left a b \<and> \<not> bref_left b a"

definition bref_covers :: "hammer2_blockref \<Rightarrow> u64 \<Rightarrow> bool" where
  "bref_covers b k \<longleftrightarrow> unat (br_key b) \<le> unat k \<and> unat k < bref_hi b"

subsection \<open>Key ranges as numbers\<close>

lemma bref_hi_pos: "unat (br_key b) < bref_hi b"
  by (simp add: bref_hi_def)

lemma unat_bref_end [word_nat]:
  assumes "bref_wf b"
  shows "unat (bref_end b) = bref_hi b - 1"
proof -
  let ?n = "unat (br_keybits b)"
  from assms have n: "?n < 64" and le: "unat (br_key b) + 2 ^ ?n \<le> 2 ^ 64"
    by (auto simp: bref_wf_def)
  have one: "unat ((2::u64) ^ ?n - 1) = 2 ^ ?n - 1"
    using n by (simp add: unat_minus_le unat_pow2)
  have pos: "(0::nat) < 2 ^ ?n" by simp
  have lt: "unat (br_key b) + unat ((2::u64) ^ ?n - 1) < 2 ^ 64"
    unfolding one using le pos by linarith
  have "bref_end b = br_key b + (2 ^ ?n - 1)"
    by (simp add: bref_end_def)
  also have "unat \<dots> = unat (br_key b) + (2 ^ ?n - 1)"
    using lt by (simp only: unat_plus_noverflow one)
  finally show ?thesis by (simp add: bref_hi_def)
qed

lemma bref_next_nonzero:
  assumes "bref_wf b"
  shows "bref_next b \<noteq> 0 \<Longrightarrow> unat (bref_next b) = bref_hi b"
    and "bref_next b = 0 \<longleftrightarrow> bref_hi b = 2 ^ 64"
proof -
  let ?n = "unat (br_keybits b)"
  from assms have n: "?n < 64" and le: "unat (br_key b) + 2 ^ ?n \<le> 2 ^ 64"
    by (auto simp: bref_wf_def)
  have mod: "unat (bref_next b) = bref_hi b mod 2 ^ 64"
    using n by (simp add: bref_next_def bref_hi_def unat_word_ariths unat_pow2)
  have hi: "bref_hi b \<le> 2 ^ 64" "0 < bref_hi b" using le by (auto simp: bref_hi_def)
  show nz: "bref_next b = 0 \<longleftrightarrow> bref_hi b = 2 ^ 64"
  proof
    assume "bref_next b = 0"
    then have "bref_hi b mod 2 ^ 64 = 0" using mod by (metis unat_0)
    then show "bref_hi b = 2 ^ 64" using hi by (metis le_neq_implies_less mod_less neq0_conv)
  next
    assume "bref_hi b = 2 ^ 64"
    then have "unat (bref_next b) = 0" using mod by (metis mod_self)
    then show "bref_next b = 0" by (simp add: unat_eq_0)
  qed
  show "bref_next b \<noteq> 0 \<Longrightarrow> unat (bref_next b) = bref_hi b"
    using nz mod hi by (metis le_neq_implies_less mod_less)
qed

lemma bref_left_trans: "bref_left a b \<Longrightarrow> bref_left b c \<Longrightarrow> bref_left a c"
  using bref_hi_pos [of b] by (simp add: bref_left_def)

lemma bref_left_irrefl: "\<not> bref_left a a"
  using bref_hi_pos [of a] by (simp add: bref_left_def)

lemma bref_left_not_sym: "bref_left a b \<Longrightarrow> \<not> bref_left b a"
  using bref_left_trans bref_left_irrefl by blast

lemma blockref_zero_type [simp]: "br_type blockref_zero = 0"
  by (simp add: blockref_zero_def)

end
