(* ===== verification/H2_Blocktable.thy ===== *)
theory H2_Blocktable
  imports H2_Disk
begin

unbundle bit_operations_syntax

text \<open>
  The block table of a chain: the array of blockrefs in the volume header, in an inode
  or in an indirect block.  The operations are those of \<^verbatim>\<open>hammer2_chain.c\<close>:
  \<open>hammer2_chain_countbrefs\<close>, \<open>hammer2_base_find\<close>, \<open>hammer2_base_delete\<close> and
  \<open>hammer2_base_insert\<close>.  The array may hold empty slots anywhere; its non-empty
  elements are in key order and their key ranges are disjoint.

  An index is a natural number where the C \<open>int\<close> cannot be negative; the search
  hint \<open>*cache_indexp\<close> and the two cursors of the insertion's search for a free slot
  are integers, since they can.
\<close>

subsection \<open>The operations\<close>

text \<open>\<open>hammer2_chain_countbrefs\<close>: \<open>None\<close> is a null \<open>base\<close> (a chain in the INITIAL state).\<close>

fun count_back :: "hammer2_blockref list \<Rightarrow> nat \<Rightarrow> nat" where
  "count_back base 0 = 0"
| "count_back base (Suc n) = (if br_type (base ! n) \<noteq> 0 then Suc n else count_back base n)"

fun count_live :: "hammer2_blockref list \<Rightarrow> nat \<Rightarrow> u32 \<Rightarrow> u32" where
  "count_live base 0 acc = acc"
| "count_live base (Suc n) acc =
     count_live base n (if br_type (base ! n) \<noteq> 0 then acc + 1 else acc)"

definition hammer2_chain_countbrefs ::
  "hammer2_chain \<Rightarrow> hammer2_blockref list option \<Rightarrow> nat \<Rightarrow> hammer2_chain" where
  "hammer2_chain_countbrefs chain base count =
     (if core_flags chain AND HAMMER2_CORE_COUNTEDBREFS = 0 then
        (let chain' =
           (case base of
              None \<Rightarrow> chain\<lparr>core_live_zero := 0\<rparr>
            | Some bs \<Rightarrow>
                (let z = count_back bs count in
                 chain\<lparr>core_live_zero := z,
                       core_live_count := count_live bs z (core_live_count chain)\<rparr>))
         in chain'\<lparr>core_flags := core_flags chain' OR HAMMER2_CORE_COUNTEDBREFS\<rparr>)
      else chain)"

text \<open>The backward search of \<open>hammer2_base_find\<close>, from slot \<open>i\<close>.\<close>

fun base_find_back :: "hammer2_blockref list \<Rightarrow> u64 \<Rightarrow> nat \<Rightarrow> nat" where
  "base_find_back base key_beg 0 = 0"
| "base_find_back base key_beg (Suc i) =
     (if br_type (base ! Suc i) = 0 \<or> br_key (base ! Suc i) > key_beg
      then base_find_back base key_beg i else Suc i)"

text \<open>
  The forward search; \<open>None\<close> is either of its ways of finding nothing (the early
  \<open>return (count)\<close> at the limit, and running off the array).
\<close>

function base_find_fwd :: "hammer2_blockref list \<Rightarrow> nat \<Rightarrow> nat \<Rightarrow> u64 \<Rightarrow> nat \<Rightarrow> nat option" where
  "base_find_fwd base count limit key_beg i =
     (if i < count then
        (if br_type (base ! i) \<noteq> 0 \<and>
            (br_key (base ! i) > key_beg \<or> bref_end (base ! i) \<ge> key_beg)
         then Some i
         else if i \<ge> limit then None
         else base_find_fwd base count limit key_beg (Suc i))
      else None)"
  by pat_completeness auto
termination
  by (relation "measure (\<lambda>(base, count, limit, key_beg, i). count - i)") auto

declare base_find_fwd.simps [simp del]

text \<open>
  \<open>hammer2_base_find\<close>: the result is the index, the new \<open>*cache_indexp\<close> and the new
  \<open>*key_nextp\<close>.
\<close>

definition hammer2_base_find ::
  "hammer2_chain \<Rightarrow> hammer2_blockref list option \<Rightarrow> nat \<Rightarrow> int \<Rightarrow> u64 \<Rightarrow> u64 \<Rightarrow> u64
   \<Rightarrow> (nat \<times> int \<times> u64) outcome" where
  "hammer2_base_find parent base count cache_index key_next key_beg key_end =
     kkassert (core_flags parent AND HAMMER2_CORE_COUNTEDBREFS \<noteq> 0) ''COUNTEDBREFS''
       (case base of
          None \<Rightarrow> Ok (count, cache_index, key_next)
        | Some bs \<Rightarrow>
            if count = 0 then Ok (count, cache_index, key_next)
            else
              (let limit = core_live_zero parent;
                   i0 = (if cache_index \<ge> int limit then int limit - 1 else cache_index);
                   i1 = (if i0 < 0 then 0 else i0)
               in kkassert (i1 < int count) ''i < count''
                    (let i = base_find_back bs key_beg (nat i1)
                     in case base_find_fwd bs count limit key_beg i of
                          None \<Rightarrow> Ok (count, int i, key_next)
                        | Some j \<Rightarrow>
                            if j \<ge> limit then Ok (count, int j, key_next)
                            else
                              (let scan_end = bref_next (bs ! j)
                               in Ok (j, int j,
                                      if scan_end \<noteq> 0 \<and> (key_next > scan_end \<or> key_next = 0)
                                      then scan_end else key_next)))))"

text \<open>
  \<open>hammer2_base_delete\<close>: the new parent (its \<open>live_zero\<close>), the new array, the new
  \<open>*cache_indexp\<close> and the new chain (its flags).
\<close>

definition hammer2_base_delete ::
  "hammer2_chain \<Rightarrow> hammer2_blockref list \<Rightarrow> nat \<Rightarrow> int \<Rightarrow> hammer2_chain
   \<Rightarrow> (hammer2_chain \<times> hammer2_blockref list \<times> int \<times> hammer2_chain) outcome" where
  "hammer2_base_delete parent base count cache_index chain =
     (let elm = ch_bref chain in
      obind (hammer2_base_find parent (Some base) count cache_index 0 (br_key elm) (br_key elm))
        (\<lambda>(i, cache', _).
           if i = count \<or> br_type (base ! i) = 0 \<or> br_key (base ! i) \<noteq> br_key elm \<or>
              (ch_flags chain AND HAMMER2_CHAIN_BMAPUPD = 0 \<and>
               br_keybits (base ! i) \<noteq> br_keybits elm)
           then Panic ''delete base element not found''
           else
             (let base' = base[i := blockref_zero];
                  parent' = (if core_live_zero parent = i + 1
                             then parent\<lparr>core_live_zero := count_back base' i\<rparr> else parent);
                  chain' = chain\<lparr>ch_flags := ch_flags chain AND
                                   NOT (HAMMER2_CHAIN_BMAPPED OR HAMMER2_CHAIN_BMAPUPD)\<rparr>
              in Ok (parent', base', cache', chain'))))"

text \<open>
  The search of \<open>hammer2_base_insert\<close> for an empty slot, alternately before and after
  the insertion point: \<open>--j\<close> is tested first, then \<open>++k\<close>.
\<close>

datatype slot = SlotBefore nat | SlotAfter nat | NoRoom

function base_find_slot :: "hammer2_blockref list \<Rightarrow> nat \<Rightarrow> int \<Rightarrow> int \<Rightarrow> slot" where
  "base_find_slot base count j k =
     (if j > 0 \<or> k < int count then
        (if j - 1 \<ge> 0 \<and> br_type (base ! nat (j - 1)) = 0 then SlotBefore (nat (j - 1))
         else if k + 1 < int count \<and> br_type (base ! nat (k + 1)) = 0 then SlotAfter (nat (k + 1))
         else base_find_slot base count (j - 1) (k + 1))
      else NoRoom)"
  by pat_completeness auto
termination
  by (relation "measure (\<lambda>(base, count, j, k). nat j + nat (int count - k))") auto

declare base_find_slot.simps [simp del]

text \<open>\<open>bcopy(&base[src], &base[dst], n * sizeof(*base))\<close>: the ranges may overlap.\<close>

definition bcopy_slots :: "'a list \<Rightarrow> nat \<Rightarrow> nat \<Rightarrow> nat \<Rightarrow> 'a list" where
  "bcopy_slots xs src dst n =
     map (\<lambda>x. if dst \<le> x \<and> x < dst + n then xs ! (src + (x - dst)) else xs ! x) [0..<length xs]"

text \<open>The \<open>validate\<close> loop at the end of \<open>hammer2_base_insert\<close>: false is its panic.\<close>

fun base_validate_rest :: "u64 \<Rightarrow> hammer2_blockref list \<Rightarrow> bool" where
  "base_validate_rest key_next [] = True"
| "base_validate_rest key_next (b # bs) =
     (if br_type b \<noteq> 0 then
        (if br_key b \<le> key_next then False else base_validate_rest (bref_end b) bs)
      else base_validate_rest key_next bs)"

fun base_validate :: "hammer2_blockref list \<Rightarrow> bool" where
  "base_validate [] = True"
| "base_validate (b # bs) =
     (if br_type b \<noteq> 0 then base_validate_rest (bref_end b) bs else base_validate bs)"

definition hammer2_base_insert ::
  "hammer2_chain \<Rightarrow> hammer2_blockref list \<Rightarrow> nat \<Rightarrow> int \<Rightarrow> hammer2_chain
   \<Rightarrow> (hammer2_chain \<times> hammer2_blockref list \<times> int \<times> hammer2_chain) outcome" where
  "hammer2_base_insert parent base count cache_index chain =
     (let elm = ch_bref chain in
      obind (hammer2_base_find parent (Some base) count cache_index 0 (br_key elm) (br_key elm))
        (\<lambda>(i, cache', _).
           kkassert (i \<le> count) ''i >= 0 && i <= count''
             (let chain' = chain\<lparr>ch_flags := ch_flags chain OR HAMMER2_CHAIN_BMAPPED\<rparr> in
              if i = count \<and> core_live_zero parent < count then
                Ok (parent\<lparr>core_live_zero := Suc (core_live_zero parent)\<rparr>,
                    base[core_live_zero parent := elm], cache', chain')
              else if i \<noteq> count \<and> (br_key (base ! i) < br_key elm \<or> bref_end elm \<ge> br_key (base ! i))
              then Panic ''insert base overlapping elements''
              else
                (case base_find_slot base count (int i) (int i) of
                   NoRoom \<Rightarrow> Panic ''hammer2_base_insert: no room!''
                 | SlotBefore j \<Rightarrow>
                     (let base' = (if j = i - 1 then base[j := elm]
                                   else (bcopy_slots base (j + 1) j (i - j - 1))[i - 1 := elm])
                      in if base_validate base' then Ok (parent, base', cache', chain')
                         else Panic ''base_insert fail'')
                 | SlotAfter k \<Rightarrow>
                     (let base' = (bcopy_slots base i (i + 1) (k - i))[i := elm];
                          parent' = (if core_live_zero parent \<le> k
                                     then parent\<lparr>core_live_zero := k + 1\<rparr> else parent)
                      in if base_validate base' then Ok (parent', base', cache', chain')
                         else Panic ''base_insert fail'')))))"

subsection \<open>Specification: the elements in key order\<close>

definition elems :: "hammer2_blockref list \<Rightarrow> hammer2_blockref list" where
  "elems base = filter (\<lambda>b. br_type b \<noteq> 0) base"

text \<open>The slot of the first element that ends after a key, or the length of the array.\<close>

definition first_ge :: "hammer2_blockref list \<Rightarrow> u64 \<Rightarrow> nat" where
  "first_ge base k =
     length (takeWhile (\<lambda>b. \<not> (br_type b \<noteq> 0 \<and> unat k < bref_hi b)) base)"

definition bref_insort :: "hammer2_blockref \<Rightarrow> hammer2_blockref list \<Rightarrow> hammer2_blockref list" where
  "bref_insort e xs = filter (\<lambda>b. bref_left b e) xs @ e # filter (\<lambda>b. \<not> bref_left b e) xs"

definition ordered_elems :: "hammer2_blockref list \<Rightarrow> bool" where
  "ordered_elems base \<longleftrightarrow> sorted_wrt bref_left (elems base) \<and> (\<forall>b\<in>set (elems base). bref_wf b)"

definition blocktable_wf :: "hammer2_chain \<Rightarrow> hammer2_blockref list \<Rightarrow> nat \<Rightarrow> bool" where
  "blocktable_wf parent base count \<longleftrightarrow>
     length base = count \<and> core_flags parent AND HAMMER2_CORE_COUNTEDBREFS \<noteq> 0 \<and>
     core_live_zero parent \<le> count \<and>
     (\<forall>i. core_live_zero parent \<le> i \<and> i < count \<longrightarrow> br_type (base ! i) = 0) \<and>
     ordered_elems base"

subsection \<open>Elements\<close>

lemma elems_simps [simp]:
  "elems [] = []"
  "elems (b # bs) = (if br_type b \<noteq> 0 then b # elems bs else elems bs)"
  "elems (xs @ ys) = elems xs @ elems ys"
  by (auto simp: elems_def)

lemma set_elems: "set (elems xs) = {b \<in> set xs. br_type b \<noteq> 0}"
  by (simp add: elems_def)

lemma elems_take_drop: "elems (take n xs) @ elems (drop n xs) = elems xs"
  by (simp add: elems_def filter_take_drop)

lemma elems_split_nth:
  "i < length xs \<Longrightarrow> elems xs = elems (take i xs) @ elems [xs ! i] @ elems (drop (Suc i) xs)"
  using id_take_nth_drop [of i xs] elems_simps(3) [of "take i xs" "[xs ! i] @ drop (Suc i) xs"]
    elems_simps(3) [of "[xs ! i]" "drop (Suc i) xs"] by simp

lemma in_elems_nth:
  "b \<in> set (elems xs) \<longleftrightarrow> (\<exists>i<length xs. xs ! i = b \<and> br_type b \<noteq> 0)"
  by (auto simp: set_elems in_set_conv_nth)

lemma ordered_nth:
  assumes "ordered_elems base" "i < j" "j < length base"
    "br_type (base ! i) \<noteq> 0" "br_type (base ! j) \<noteq> 0"
  shows "bref_left (base ! i) (base ! j)"
proof -
  from assms(1) have "sorted_wrt bref_left (filter (\<lambda>b. br_type b \<noteq> 0) base)"
    by (simp add: ordered_elems_def elems_def)
  then show ?thesis using assms(2-5) by (rule sorted_wrt_filter_nth)
qed

lemma ordered_wf_nth:
  "ordered_elems base \<Longrightarrow> i < length base \<Longrightarrow> br_type (base ! i) \<noteq> 0 \<Longrightarrow> bref_wf (base ! i)"
  by (auto simp: ordered_elems_def set_elems)

lemma elems_empty_drop:
  assumes "\<And>i. n \<le> i \<Longrightarrow> i < length xs \<Longrightarrow> br_type (xs ! i) = 0"
  shows "elems (drop n xs) = []"
proof -
  have "b \<in> set (drop n xs) \<Longrightarrow> br_type b = 0" for b
    using assms by (auto simp: in_set_conv_nth)
  then show ?thesis by (simp add: elems_def)
qed

lemma length_elems_less:
  "i < length xs \<Longrightarrow> br_type (xs ! i) = 0 \<Longrightarrow> length (elems xs) < length xs"
  using length_filter_less [of "xs ! i" xs "\<lambda>b. br_type b \<noteq> 0"] by (simp add: elems_def)

subsection \<open>The search\<close>

lemma find_test_iff:
  assumes "bref_wf b"
  shows "(br_key b > k \<or> bref_end b \<ge> k) \<longleftrightarrow> unat k < bref_hi b"
  using bref_hi_pos [of b] unat_bref_end [OF assms] by (auto simp: word_order_nat)

lemma first_ge_le: "first_ge base k \<le> length base"
  by (simp add: first_ge_def length_takeWhile_le)

lemma first_ge_before:
  "i < first_ge base k \<Longrightarrow> br_type (base ! i) \<noteq> 0 \<Longrightarrow> bref_hi (base ! i) \<le> unat k"
  unfolding first_ge_def by (metis (mono_tags, lifting) not_le nth_mem set_takeWhileD takeWhile_nth)

lemma first_ge_at:
  "first_ge base k < length base \<Longrightarrow>
   br_type (base ! first_ge base k) \<noteq> 0 \<and> unat k < bref_hi (base ! first_ge base k)"
  unfolding first_ge_def using nth_length_takeWhile by fastforce

lemma first_ge_eqI:
  assumes "\<And>t. t < m \<Longrightarrow> t < length base \<Longrightarrow> br_type (base ! t) \<noteq> 0 \<Longrightarrow> bref_hi (base ! t) \<le> unat k"
    and "m < length base \<Longrightarrow> br_type (base ! m) \<noteq> 0 \<and> unat k < bref_hi (base ! m)"
    and "m \<le> length base"
  shows "first_ge base k = m"
proof -
  have "takeWhile (\<lambda>b. \<not> (br_type b \<noteq> 0 \<and> unat k < bref_hi b)) base = take m base"
    using assms(1,2) by (intro takeWhile_eq_take_P_nth) (auto simp: not_less)
  then show ?thesis using assms(3) by (simp add: first_ge_def)
qed

lemma base_find_back_le: "base_find_back base k i \<le> i"
  by (induction i) auto

lemma base_find_back_at:
  "0 < base_find_back base k i \<Longrightarrow>
   br_type (base ! base_find_back base k i) \<noteq> 0 \<and> br_key (base ! base_find_back base k i) \<le> k"
  by (induction i) (auto split: if_splits)

lemma base_find_back_before:
  assumes "ordered_elems base" "i < length base" "t < base_find_back base k i"
    "br_type (base ! t) \<noteq> 0"
  shows "bref_hi (base ! t) \<le> unat k"
proof -
  let ?m = "base_find_back base k i"
  have m: "?m < length base" using base_find_back_le [of base k i] assms(2) by simp
  have at: "br_type (base ! ?m) \<noteq> 0" "br_key (base ! ?m) \<le> k"
    using base_find_back_at [of base k i] assms(3) by auto
  have "bref_left (base ! t) (base ! ?m)"
    using ordered_nth [OF assms(1,3) m assms(4)] at by simp
  with at(2) show ?thesis by (simp add: bref_left_def word_order_nat)
qed

lemma base_find_fwd_eq:
  assumes "ordered_elems base" "length base = count"
    and "\<And>t. limit \<le> t \<Longrightarrow> t < count \<Longrightarrow> br_type (base ! t) = 0"
    and "\<And>t. t < i \<Longrightarrow> t < count \<Longrightarrow> br_type (base ! t) \<noteq> 0 \<Longrightarrow> bref_hi (base ! t) \<le> unat k"
    and "i \<le> count"
  shows "base_find_fwd base count limit k i =
         (if first_ge base k < count then Some (first_ge base k) else None)"
  using assms
proof (induction base count limit k i rule: base_find_fwd.induct)
  case (1 base count limit k i)
  let ?hit = "br_type (base ! i) \<noteq> 0 \<and> (br_key (base ! i) > k \<or> bref_end (base ! i) \<ge> k)"
  show ?case
  proof (cases "i < count")
    case False
    with "1.prems" have "first_ge base k = count" by (intro first_ge_eqI) auto
    with False show ?thesis by (simp add: base_find_fwd.simps [of base count limit k i])
  next
    case lt: True
    have hit: "?hit \<longleftrightarrow> br_type (base ! i) \<noteq> 0 \<and> unat k < bref_hi (base ! i)"
      using find_test_iff [OF ordered_wf_nth [OF "1.prems"(1)]] lt "1.prems"(2) by auto
    show ?thesis
    proof (cases ?hit)
      case True
      with hit "1.prems"(2,4) lt have "first_ge base k = i" by (intro first_ge_eqI) auto
      with True lt show ?thesis by (simp add: base_find_fwd.simps [of base count limit k i])
    next
      case miss: False
      then have step: "t < Suc i \<Longrightarrow> t < count \<Longrightarrow> br_type (base ! t) \<noteq> 0 \<Longrightarrow>
          bref_hi (base ! t) \<le> unat k" for t
        using "1.prems"(4) hit by (metis less_antisym not_less)
      show ?thesis
      proof (cases "i \<ge> limit")
        case True
        have "first_ge base k = count"
        proof (rule first_ge_eqI)
          fix t assume "t < count" "t < length base" "br_type (base ! t) \<noteq> 0"
          then show "bref_hi (base ! t) \<le> unat k"
            using step "1.prems"(3) True by (cases "t < Suc i") auto
        qed (use "1.prems"(2) in auto)
        with True miss lt show ?thesis by (simp add: base_find_fwd.simps [of base count limit k i])
      next
        case False
        then have "base_find_fwd base count limit k i = base_find_fwd base count limit k (Suc i)"
          using lt miss by (subst base_find_fwd.simps) (simp only: if_True if_False)
        also have "\<dots> = (if first_ge base k < count then Some (first_ge base k) else None)"
          using "1.IH" [OF lt miss False "1.prems"(1,2,3) step] lt by simp
        finally show ?thesis .
      qed
    qed
  qed
qed

text \<open>
  The whole of \<open>hammer2_base_find\<close> on a well-formed table: the index is the slot of
  the first element that ends at or after \<open>key_beg\<close>, whatever the hint.
\<close>

definition key_next_after :: "hammer2_blockref list \<Rightarrow> nat \<Rightarrow> u64 \<Rightarrow> u64" where
  "key_next_after base i key_next =
     (if i < length base then
        (let e = bref_next (base ! i)
         in if e \<noteq> 0 \<and> (key_next > e \<or> key_next = 0) then e else key_next)
      else key_next)"

lemma base_find_eq:
  assumes wf: "blocktable_wf parent base count"
  shows "\<exists>cache'. hammer2_base_find parent (Some base) count cache key_next k key_end =
           Ok (first_ge base k, cache', key_next_after base (first_ge base k) key_next)"
proof (cases "count = 0")
  case True
  with wf show ?thesis
    by (simp add: hammer2_base_find_def blocktable_wf_def first_ge_def key_next_after_def)
next
  case False
  let ?limit = "core_live_zero parent"
  let ?i0 = "if cache \<ge> int ?limit then int ?limit - 1 else cache"
  let ?i1 = "if ?i0 < 0 then 0 else ?i0"
  let ?i = "base_find_back base k (nat ?i1)"
  from wf have len: "length base = count" and ord: "ordered_elems base"
    and lim: "\<And>t. ?limit \<le> t \<Longrightarrow> t < count \<Longrightarrow> br_type (base ! t) = 0"
    and counted: "core_flags parent AND 2 \<noteq> 0" and lz: "?limit \<le> count"
    by (auto simp: blocktable_wf_def)
  have i1: "?i1 < int count" using lz False by auto
  then have n: "nat ?i1 < length base" using len by auto
  have fwd: "base_find_fwd base count ?limit k ?i =
      (if first_ge base k < count then Some (first_ge base k) else None)"
    using base_find_back_before [OF ord n] base_find_back_le [of base k "nat ?i1"] n len ord lim
    by (intro base_find_fwd_eq) auto
  have below: "first_ge base k < ?limit" if "first_ge base k < count"
    using first_ge_at [of base k] lim [of "first_ge base k"] that len by (metis not_le)
  show ?thesis
  proof (cases "first_ge base k < count")
    case True
    with i1 counted False fwd below len show ?thesis
      by (simp add: hammer2_base_find_def Let_def key_next_after_def not_le)
  next
    case none: False
    then have "first_ge base k = count" using first_ge_le [of base k] len by simp
    with i1 counted False fwd none len show ?thesis
      by (simp add: hammer2_base_find_def Let_def key_next_after_def)
  qed
qed

subsection \<open>Trimming and counting\<close>

lemma count_back_le: "count_back base n \<le> n"
  by (induction n) auto

lemma count_back_above:
  "count_back base n \<le> i \<Longrightarrow> i < n \<Longrightarrow> br_type (base ! i) = 0"
  by (induction n) (auto simp: less_Suc_eq split: if_splits)

lemma count_live_eq:
  "n \<le> length base \<Longrightarrow> count_live base n acc = acc + of_nat (length (elems (take n base)))"
  by (induction n arbitrary: acc) (auto simp: take_Suc_conv_app_nth)

subsection \<open>The insertion\<close>

lemma base_find_slot_cases:
  assumes "k < int count \<longrightarrow> 0 \<le> k"
  shows "case base_find_slot base count j k of
           SlotBefore m \<Rightarrow> int m < j \<and> br_type (base ! m) = 0
         | SlotAfter m \<Rightarrow> k < int m \<and> m < count \<and> br_type (base ! m) = 0
         | NoRoom \<Rightarrow> (\<forall>m<count. (int m < j \<or> k < int m) \<longrightarrow> br_type (base ! m) \<noteq> 0)"
  using assms
proof (induction base count j k rule: base_find_slot.induct)
  case (1 base count j k)
  show ?case
  proof (cases "j > 0 \<or> k < int count")
    case False
    then show ?thesis by (simp add: base_find_slot.simps [of base count j k])
  next
    case go: True
    let ?b = "j - 1 \<ge> 0 \<and> br_type (base ! nat (j - 1)) = 0"
    let ?a = "k + 1 < int count \<and> br_type (base ! nat (k + 1)) = 0"
    show ?thesis
    proof (cases "?b \<or> ?a")
      case True
      with go "1.prems" show ?thesis by (auto simp: base_find_slot.simps [of base count j k])
    next
      case False
      then have eq: "base_find_slot base count j k = base_find_slot base count (j - 1) (k + 1)"
        using go by (subst base_find_slot.simps) auto
      have here: "br_type (base ! m) \<noteq> 0" if "m < count" "int m = j - 1 \<or> int m = k + 1" for m
      proof -
        have "m = nat (j - 1) \<and> j - 1 \<ge> 0 \<or> m = nat (k + 1) \<and> k + 1 < int count"
          using that by auto
        then show ?thesis using False by auto
      qed
      have "case base_find_slot base count (j - 1) (k + 1) of
           SlotBefore m \<Rightarrow> int m < j - 1 \<and> br_type (base ! m) = 0
         | SlotAfter m \<Rightarrow> k + 1 < int m \<and> m < count \<and> br_type (base ! m) = 0
         | NoRoom \<Rightarrow> (\<forall>m<count. (int m < j - 1 \<or> k + 1 < int m) \<longrightarrow> br_type (base ! m) \<noteq> 0)"
        using "1.IH" go False "1.prems" by auto
      then show ?thesis unfolding eq using here
        by (auto split: slot.splits)
    qed
  qed
qed

lemma bcopy_before:
  assumes "j < i" "i \<le> length xs"
  shows "(bcopy_slots xs (j + 1) j (i - j - 1))[i - 1 := e] =
         take j xs @ drop (Suc j) (take i xs) @ e # drop i xs"
proof (rule nth_equalityI)
  show "length ((bcopy_slots xs (j + 1) j (i - j - 1))[i - 1 := e]) =
        length (take j xs @ drop (Suc j) (take i xs) @ e # drop i xs)"
    using assms by (simp add: bcopy_slots_def)
next
  fix t assume "t < length ((bcopy_slots xs (j + 1) j (i - j - 1))[i - 1 := e])"
  then have t: "t < length xs" by (simp add: bcopy_slots_def)
  consider "t < j" | "j \<le> t" "t < i - 1" | "t = i - 1" | "i \<le> t" using assms(1) by linarith
  then show "(bcopy_slots xs (j + 1) j (i - j - 1))[i - 1 := e] ! t =
             (take j xs @ drop (Suc j) (take i xs) @ e # drop i xs) ! t"
    by cases (use assms t in \<open>auto simp: bcopy_slots_def nth_append nth_Cons'\<close>)
qed

lemma bcopy_after:
  assumes "i < k" "k < length xs"
  shows "(bcopy_slots xs i (i + 1) (k - i))[i := e] =
         take i xs @ e # drop i (take k xs) @ drop (Suc k) xs"
proof (rule nth_equalityI)
  show "length ((bcopy_slots xs i (i + 1) (k - i))[i := e]) =
        length (take i xs @ e # drop i (take k xs) @ drop (Suc k) xs)"
    using assms by (simp add: bcopy_slots_def)
next
  fix t assume "t < length ((bcopy_slots xs i (i + 1) (k - i))[i := e])"
  then have t: "t < length xs" by (simp add: bcopy_slots_def)
  consider "t < i" | "t = i" | "i < t" "t \<le> k" | "k < t" by linarith
  then show "(bcopy_slots xs i (i + 1) (k - i))[i := e] ! t =
             (take i xs @ e # drop i (take k xs) @ drop (Suc k) xs) ! t"
    by cases (use assms t in \<open>auto simp: bcopy_slots_def nth_append nth_Cons'\<close>)
qed

lemma elems_before:
  assumes "j < i" "i \<le> length xs" "br_type (xs ! j) = 0" "br_type e \<noteq> 0"
  shows "elems (take j xs @ drop (Suc j) (take i xs) @ e # drop i xs) =
         elems (take i xs) @ e # elems (drop i xs)"
  using elems_split_nth [of j "take i xs"] assms by simp

lemma elems_after:
  assumes "i < k" "k < length xs" "br_type (xs ! k) = 0" "br_type e \<noteq> 0"
  shows "elems (take i xs @ e # drop i (take k xs) @ drop (Suc k) xs) =
         elems (take i xs) @ e # elems (drop i xs)"
proof -
  have "drop i xs = drop i (take k xs) @ xs ! k # drop (Suc k) xs"
    using assms(1,2) by (metis append_take_drop_id drop_append id_take_nth_drop drop_take
        Cons_nth_drop_Suc less_imp_le_nat drop_drop le_add_diff_inverse2 take_drop)
  then show ?thesis using assms(3,4) by simp
qed

lemma ordered_insert:
  assumes ord: "ordered_elems base" and e: "bref_wf e"
    and left: "\<And>b. b \<in> set (elems (take i base)) \<Longrightarrow> bref_left b e"
    and right: "\<And>b. b \<in> set (elems (drop i base)) \<Longrightarrow> bref_left e b"
    and eq: "elems base' = elems (take i base) @ e # elems (drop i base)"
  shows "ordered_elems base' \<and> elems base' = bref_insort e (elems base)"
proof -
  have split: "elems base = elems (take i base) @ elems (drop i base)"
    by (simp add: elems_take_drop)
  have s: "sorted_wrt bref_left (elems (take i base) @ elems (drop i base))"
    using ord by (simp add: ordered_elems_def split)
  have "sorted_wrt bref_left (elems base')"
    using s left right unfolding eq by (auto simp: sorted_wrt_append)
  moreover have "\<forall>b\<in>set (elems base'). bref_wf b"
    using ord e unfolding ordered_elems_def split eq by auto
  moreover have "bref_insort e (elems base) = elems (take i base) @ e # elems (drop i base)"
  proof -
    have 1: "filter (\<lambda>b. bref_left b e) (elems (take i base)) = elems (take i base)"
      "filter (\<lambda>b. \<not> bref_left b e) (elems (take i base)) = []"
      using left by (auto simp: filter_id_conv filter_empty_conv)
    have 2: "filter (\<lambda>b. bref_left b e) (elems (drop i base)) = []"
      "filter (\<lambda>b. \<not> bref_left b e) (elems (drop i base)) = elems (drop i base)"
      using right bref_left_not_sym by (auto simp: filter_id_conv filter_empty_conv)
    show ?thesis unfolding bref_insort_def split by (simp add: 1 2)
  qed
  ultimately show ?thesis using eq by (simp add: ordered_elems_def)
qed

lemma base_validate_rest_ok:
  assumes "ordered_elems bs" "\<And>b. b \<in> set (elems bs) \<Longrightarrow> unat k < unat (br_key b)"
  shows "base_validate_rest k bs"
  using assms
proof (induction bs arbitrary: k)
  case Nil
  then show ?case by simp
next
  case (Cons b bs)
  have ord: "ordered_elems bs" using Cons.prems(1) by (auto simp: ordered_elems_def split: if_splits)
  show ?case
  proof (cases "br_type b = 0")
    case True
    with Cons.IH [OF ord] Cons.prems(2) show ?thesis by simp
  next
    case False
    have wf: "bref_wf b" using Cons.prems(1) False by (simp add: ordered_elems_def)
    have "unat (bref_end b) < unat (br_key c)" if "c \<in> set (elems bs)" for c
      using Cons.prems(1) False that bref_hi_pos [of b] unat_bref_end [OF wf]
      by (auto simp: ordered_elems_def bref_left_def)
    then have "base_validate_rest (bref_end b) bs" by (rule Cons.IH [OF ord])
    moreover have "\<not> br_key b \<le> k" using Cons.prems(2) [of b] False by (simp add: word_order_nat)
    ultimately show ?thesis using False by simp
  qed
qed

lemma base_validate_ok: "ordered_elems base \<Longrightarrow> base_validate base"
proof (induction base)
  case Nil
  then show ?case by simp
next
  case (Cons b bs)
  have ord: "ordered_elems bs" using Cons.prems by (auto simp: ordered_elems_def split: if_splits)
  show ?case
  proof (cases "br_type b = 0")
    case True
    with Cons.IH [OF ord] show ?thesis by simp
  next
    case False
    have wf: "bref_wf b" using Cons.prems False by (simp add: ordered_elems_def)
    have "unat (bref_end b) < unat (br_key c)" if "c \<in> set (elems bs)" for c
      using Cons.prems False that bref_hi_pos [of b] unat_bref_end [OF wf]
      by (auto simp: ordered_elems_def bref_left_def)
    with base_validate_rest_ok [OF ord] False show ?thesis by simp
  qed
qed

lemma elems_take_first_ge_left:
  assumes "b \<in> set (elems (take (first_ge base (br_key e)) base))"
  shows "bref_left b e"
proof -
  from assms obtain t where "t < first_ge base (br_key e)" "t < length base" "base ! t = b"
    "br_type b \<noteq> 0"
    by (auto simp: in_elems_nth)
  then show ?thesis using first_ge_before [of t base "br_key e"] by (auto simp: bref_left_def)
qed

lemma elems_drop_right:
  assumes ord: "ordered_elems base" and i: "i < length base" "br_type (base ! i) \<noteq> 0"
    and e: "bref_left e (base ! i)" and b: "b \<in> set (elems (drop i base))"
  shows "bref_left e b"
proof -
  from b obtain t where t: "i \<le> t" "t < length base" "base ! t = b" "br_type b \<noteq> 0"
    by (auto simp: in_elems_nth) (metis add.commute le_add2 less_diff_conv)
  show ?thesis
  proof (cases "t = i")
    case True
    with e t show ?thesis by simp
  next
    case False
    with t have "bref_left (base ! i) b" using ordered_nth [OF ord, of i t] i by auto
    with e show ?thesis by (rule bref_left_trans)
  qed
qed

lemma left_test_iff:
  "bref_wf e \<Longrightarrow>
   \<not> (br_key b < br_key e \<or> bref_end e \<ge> br_key b) \<longleftrightarrow> bref_left e b"
  using bref_hi_pos [of e] unat_bref_end [of e] by (auto simp: word_order_nat bref_left_def)

definition insert_ok ::
  "hammer2_chain \<Rightarrow> hammer2_blockref list \<Rightarrow> nat \<Rightarrow> hammer2_chain \<Rightarrow> bool" where
  "insert_ok parent base count chain \<longleftrightarrow>
     br_type (ch_bref chain) \<noteq> 0 \<and> bref_wf (ch_bref chain) \<and>
     (\<forall>b\<in>set (elems base). \<not> bref_overlap b (ch_bref chain)) \<and>
     length (elems base) < count"

lemma base_insert_fast:
  assumes wf: "blocktable_wf parent base count" and e: "br_type e \<noteq> 0" "bref_wf e"
    and i: "first_ge base (br_key e) = count" and lz: "core_live_zero parent < count"
  shows "blocktable_wf (parent\<lparr>core_live_zero := Suc (core_live_zero parent)\<rparr>)
           (base[core_live_zero parent := e]) count \<and>
         elems (base[core_live_zero parent := e]) = bref_insort e (elems base)"
proof -
  let ?z = "core_live_zero parent"
  from wf have len: "length base = count" and ord: "ordered_elems base"
    and above: "\<And>t. ?z \<le> t \<Longrightarrow> t < count \<Longrightarrow> br_type (base ! t) = 0"
    by (auto simp: blocktable_wf_def)
  have none: "elems (drop ?z base) = []" "elems (drop (Suc ?z) base) = []"
    using above len by (auto intro!: elems_empty_drop)
  have eq: "elems (base[?z := e]) = elems (take count base) @ e # elems (drop count base)"
    using lz len e(1) none elems_take_drop [of ?z base]
    by (simp add: upd_conv_take_nth_drop)
  have "ordered_elems (base[?z := e]) \<and> elems (base[?z := e]) = bref_insort e (elems base)"
    using elems_take_first_ge_left [of _ base e] i len
    by (intro ordered_insert [OF ord e(2) _ _ eq]) auto
  moreover have "br_type (base[?z := e] ! t) = 0" if "Suc ?z \<le> t" "t < count" for t
    using above that by (simp add: nth_list_update)
  ultimately show ?thesis using wf lz by (simp add: blocktable_wf_def)
qed

text \<open>The two shifting insertions have the same effect on the elements.\<close>

lemma base_insert_shift:
  assumes wf: "blocktable_wf parent base count" and e: "bref_wf e"
    and i: "i = first_ge base (br_key e)"
    and right: "i < count \<Longrightarrow> bref_left e (base ! i)"
    and len': "length base' = count"
    and eq: "elems base' = elems (take i base) @ e # elems (drop i base)"
    and lz: "core_live_zero parent' \<le> count"
    and above: "\<And>t. core_live_zero parent' \<le> t \<Longrightarrow> t < count \<Longrightarrow> br_type (base' ! t) = 0"
    and flags: "core_flags parent' = core_flags parent"
  shows "blocktable_wf parent' base' count \<and> base_validate base' \<and>
         elems base' = bref_insort e (elems base)"
proof -
  from wf have len: "length base = count" and ord: "ordered_elems base"
    by (auto simp: blocktable_wf_def)
  have r: "bref_left e b" if "b \<in> set (elems (drop i base))" for b
  proof (cases "i < count")
    case True
    with elems_drop_right [OF ord _ _ right that] first_ge_at [of base "br_key e"] i len
    show ?thesis by simp
  next
    case False
    with that len show ?thesis by simp
  qed
  have "ordered_elems base' \<and> elems base' = bref_insort e (elems base)"
    using elems_take_first_ge_left [of _ base e] r i
    by (intro ordered_insert [OF ord e _ _ eq]) auto
  with wf len' lz above flags base_validate_ok show ?thesis
    by (simp add: blocktable_wf_def)
qed

lemma base_insert_before:
  assumes wf: "blocktable_wf parent base count" and e: "br_type e \<noteq> 0" "bref_wf e"
    and i: "i = first_ge base (br_key e)" and right: "i < count \<Longrightarrow> bref_left e (base ! i)"
    and slow: "i = count \<Longrightarrow> core_live_zero parent = count"
    and j: "j < i" "br_type (base ! j) = 0"
  shows "let base' = (if j = i - 1 then base[j := e]
                      else (bcopy_slots base (j + 1) j (i - j - 1))[i - 1 := e])
         in blocktable_wf parent base' count \<and> base_validate base' \<and>
            elems base' = bref_insort e (elems base)"
proof -
  let ?new = "take j base @ drop (Suc j) (take i base) @ e # drop i base"
  from wf have len: "length base = count" and lz: "core_live_zero parent \<le> count"
    and above: "\<And>t. core_live_zero parent \<le> t \<Longrightarrow> t < count \<Longrightarrow> br_type (base ! t) = 0"
    by (auto simp: blocktable_wf_def)
  have ile: "i \<le> count" using i first_ge_le [of base "br_key e"] len by simp
  have new: "(if j = i - 1 then base[j := e]
              else (bcopy_slots base (j + 1) j (i - j - 1))[i - 1 := e]) = ?new"
    using bcopy_before [OF j(1), of base e] ile len j(1)
    by (auto simp: upd_conv_take_nth_drop)
  have past: "br_type (?new ! t) = 0" if "core_live_zero parent \<le> t" "t < count" for t
  proof -
    have "i \<le> t"
    proof (cases "i = count")
      case True
      with slow that show ?thesis by simp
    next
      case False
      then have "br_type (base ! i) \<noteq> 0" using first_ge_at [of base "br_key e"] i len ile by simp
      then have "i < core_live_zero parent" using above [of i] False ile by (meson le_neq_implies_less not_le)
      with that show ?thesis by simp
    qed
    then have "?new ! t = base ! t" using j(1) ile len that by (auto simp: nth_append nth_Cons')
    with above that show ?thesis by simp
  qed
  have "blocktable_wf parent ?new count \<and> base_validate ?new \<and>
        elems ?new = bref_insort e (elems base)"
    using elems_before [OF j(1) _ j(2) e(1)] ile len lz past j(1)
    by (intro base_insert_shift [OF wf e(2) i right]) auto
  then show ?thesis unfolding new Let_def .
qed

lemma base_insert_after:
  assumes wf: "blocktable_wf parent base count" and e: "br_type e \<noteq> 0" "bref_wf e"
    and i: "i = first_ge base (br_key e)" and right: "i < count \<Longrightarrow> bref_left e (base ! i)"
    and k: "i < k" "k < count" "br_type (base ! k) = 0"
  shows "let base' = (bcopy_slots base i (i + 1) (k - i))[i := e];
             parent' = (if core_live_zero parent \<le> k
                        then parent\<lparr>core_live_zero := k + 1\<rparr> else parent)
         in blocktable_wf parent' base' count \<and> base_validate base' \<and>
            elems base' = bref_insort e (elems base)"
proof -
  let ?new = "take i base @ e # drop i (take k base) @ drop (Suc k) base"
  let ?parent = "if core_live_zero parent \<le> k then parent\<lparr>core_live_zero := k + 1\<rparr> else parent"
  from wf have len: "length base = count" and lz: "core_live_zero parent \<le> count"
    and above: "\<And>t. core_live_zero parent \<le> t \<Longrightarrow> t < count \<Longrightarrow> br_type (base ! t) = 0"
    by (auto simp: blocktable_wf_def)
  have new: "(bcopy_slots base i (i + 1) (k - i))[i := e] = ?new"
    using k len by (intro bcopy_after) auto
  have past: "br_type (?new ! t) = 0" if t: "core_live_zero ?parent \<le> t" "t < count" for t
  proof -
    have "k < t" "core_live_zero parent \<le> t" using t by (auto split: if_splits)
    moreover from this have "?new ! t = base ! t"
      using k len t(2) by (auto simp: nth_append nth_Cons')
    ultimately show ?thesis using above t(2) by simp
  qed
  have "blocktable_wf ?parent ?new count \<and> base_validate ?new \<and>
        elems ?new = bref_insort e (elems base)"
  proof (rule base_insert_shift [OF wf e(2) i right])
    show "elems ?new = elems (take i base) @ e # elems (drop i base)"
      using k len e(1) by (intro elems_after) auto
    show "length ?new = count" using k len by simp
    show "core_live_zero ?parent \<le> count" using lz k by simp
  qed (use past in auto)
  then show ?thesis unfolding new Let_def .
qed

lemma base_insert_ok:
  assumes wf: "blocktable_wf parent base count" and ok: "insert_ok parent base count chain"
  shows "\<exists>parent' base' cache'. hammer2_base_insert parent base count cache chain =
           Ok (parent', base', cache', chain\<lparr>ch_flags := ch_flags chain OR HAMMER2_CHAIN_BMAPPED\<rparr>) \<and>
         blocktable_wf parent' base' count \<and>
         elems base' = bref_insort (ch_bref chain) (elems base)"
proof -
  let ?e = "ch_bref chain"
  let ?i = "first_ge base (br_key ?e)"
  from wf have len: "length base = count" and ord: "ordered_elems base" and
    lz: "core_live_zero parent \<le> count" by (auto simp: blocktable_wf_def)
  from ok have e: "br_type ?e \<noteq> 0" "bref_wf ?e" and room: "length (elems base) < count"
    and noov: "\<And>b. b \<in> set (elems base) \<Longrightarrow> \<not> bref_overlap b ?e"
    by (auto simp: insert_ok_def)
  have ile: "?i \<le> count" using first_ge_le [of base "br_key ?e"] len by simp
  obtain cache' kn where find: "hammer2_base_find parent (Some base) count cache 0 (br_key ?e) (br_key ?e) =
      Ok (?i, cache', kn)"
    using base_find_eq [OF wf] by blast
  have at: "br_type (base ! ?i) \<noteq> 0" "\<not> bref_left (base ! ?i) ?e" if "?i < count"
    using first_ge_at [of base "br_key ?e"] that len by (auto simp: bref_left_def)
  have right: "bref_left ?e (base ! ?i)" if lt: "?i < count"
    using noov [of "base ! ?i"] at [OF lt] lt len by (auto simp: bref_overlap_def in_elems_nth)
  have test: "\<not> (?i \<noteq> count \<and> (br_key (base ! ?i) < br_key ?e \<or> bref_end ?e \<ge> br_key (base ! ?i)))"
    using left_test_iff [OF e(2), of "base ! ?i"] right ile by linarith
  show ?thesis
  proof (cases "?i = count \<and> core_live_zero parent < count")
    case True
    with base_insert_fast [OF wf e] show ?thesis
      by (auto simp: hammer2_base_insert_def Let_def find)
  next
    case slow: False
    have slot: "case base_find_slot base count (int ?i) (int ?i) of
           SlotBefore m \<Rightarrow> m < ?i \<and> br_type (base ! m) = 0
         | SlotAfter m \<Rightarrow> ?i < m \<and> m < count \<and> br_type (base ! m) = 0
         | NoRoom \<Rightarrow> (\<forall>m<count. (m < ?i \<or> ?i < m) \<longrightarrow> br_type (base ! m) \<noteq> 0)"
      using base_find_slot_cases [where k = "int ?i" and count = count and base = base and j = "int ?i"] by (auto split: slot.splits)
    have "base_find_slot base count (int ?i) (int ?i) \<noteq> NoRoom"
    proof
      assume "base_find_slot base count (int ?i) (int ?i) = NoRoom"
      with slot have "\<forall>m<count. m \<noteq> ?i \<longrightarrow> br_type (base ! m) \<noteq> 0" by (auto simp: neq_iff)
      with at have "\<forall>b\<in>set base. br_type b \<noteq> 0" using len by (metis in_set_conv_nth)
      then show False using room len by (simp add: elems_def)
    qed
    then consider (before) j where "base_find_slot base count (int ?i) (int ?i) = SlotBefore j"
      "j < ?i" "br_type (base ! j) = 0"
      | (after) k where "base_find_slot base count (int ?i) (int ?i) = SlotAfter k"
      "?i < k" "k < count" "br_type (base ! k) = 0"
      using slot by (cases "base_find_slot base count (int ?i) (int ?i)") auto
    then show ?thesis
    proof cases
      case before
      have full: "core_live_zero parent = count" if "?i = count" using slow that lz by simp
      show ?thesis
        using base_insert_before [OF wf e refl right full before(2,3)] before(1) slow test ile
        by (auto simp: hammer2_base_insert_def find Let_def)
    next
      case after
      show ?thesis
        using base_insert_after [OF wf e refl right after(2,3,4)] after(1) slow test ile
        by (auto simp: hammer2_base_insert_def find Let_def)
    qed
  qed
qed

lemma base_insert_overlap:
  assumes wf: "blocktable_wf parent base count" and e: "bref_wf (ch_bref chain)"
    and ov: "b \<in> set (elems base)" "bref_overlap b (ch_bref chain)"
  shows "hammer2_base_insert parent base count cache chain =
         Panic ''insert base overlapping elements''"
proof -
  let ?e = "ch_bref chain"
  let ?i = "first_ge base (br_key ?e)"
  from wf have len: "length base = count" and ord: "ordered_elems base"
    by (auto simp: blocktable_wf_def)
  obtain cache' kn where find: "hammer2_base_find parent (Some base) count cache 0 (br_key ?e) (br_key ?e) =
      Ok (?i, cache', kn)"
    using base_find_eq [OF wf] by blast
  from ov(1) obtain t where t: "t < count" "base ! t = b" "br_type b \<noteq> 0"
    using len by (auto simp: in_elems_nth)
  have "\<not> t < ?i"
    using first_ge_before [of t base "br_key ?e"] t ov(2) by (auto simp: bref_overlap_def bref_left_def)
  then have i: "?i \<le> t" "?i < count" using t by auto
  have "\<not> bref_left ?e (base ! ?i)"
  proof (cases "?i = t")
    case True
    with t ov(2) show ?thesis by (simp add: bref_overlap_def)
  next
    case False
    with i ordered_nth [OF ord, of ?i t] first_ge_at [of base "br_key ?e"] t len
    have "bref_left (base ! ?i) b" by auto
    with ov(2) show ?thesis using bref_left_trans by (auto simp: bref_overlap_def)
  qed
  then have "br_key (base ! ?i) < br_key ?e \<or> bref_end ?e \<ge> br_key (base ! ?i)"
    using left_test_iff [OF e, of "base ! ?i"] by blast
  with i show ?thesis by (simp add: hammer2_base_insert_def Let_def find kkassert_def)
qed

lemma base_insert_full:
  assumes wf: "blocktable_wf parent base count" and e: "bref_wf (ch_bref chain)"
    and noov: "\<And>b. b \<in> set (elems base) \<Longrightarrow> \<not> bref_overlap b (ch_bref chain)"
    and full: "length (elems base) = count"
  shows "hammer2_base_insert parent base count cache chain =
         Panic ''hammer2_base_insert: no room!''"
proof -
  let ?e = "ch_bref chain"
  let ?i = "first_ge base (br_key ?e)"
  from wf have len: "length base = count" and lz: "core_live_zero parent \<le> count"
    and above: "\<And>t. core_live_zero parent \<le> t \<Longrightarrow> t < count \<Longrightarrow> br_type (base ! t) = 0"
    by (auto simp: blocktable_wf_def)
  have all: "br_type (base ! t) \<noteq> 0" if "t < count" for t
    using length_elems_less [of t base] that len full by auto
  have lzc: "\<not> core_live_zero parent < count" using above all by auto
  have ile: "?i \<le> count" using first_ge_le [of base "br_key ?e"] len by simp
  obtain cache' kn where find: "hammer2_base_find parent (Some base) count cache 0 (br_key ?e) (br_key ?e) =
      Ok (?i, cache', kn)"
    using base_find_eq [OF wf] by blast
  have right: "bref_left ?e (base ! ?i)" if lt: "?i < count"
    using noov [of "base ! ?i"] first_ge_at [of base "br_key ?e"] lt len
    by (auto simp: bref_overlap_def in_elems_nth bref_left_def)
  have test: "\<not> (?i \<noteq> count \<and> (br_key (base ! ?i) < br_key ?e \<or> bref_end ?e \<ge> br_key (base ! ?i)))"
    using left_test_iff [OF e, of "base ! ?i"] right ile by linarith
  have "base_find_slot base count (int ?i) (int ?i) = NoRoom"
    using base_find_slot_cases [where k = "int ?i" and count = count and base = base and j = "int ?i"]
      all ile by (auto split: slot.splits)
  with test lzc ile show ?thesis by (simp add: hammer2_base_insert_def Let_def find kkassert_def)
qed

subsection \<open>The deletion\<close>

lemma first_ge_of_elem:
  assumes ord: "ordered_elems base" and b: "t < length base" "br_type (base ! t) \<noteq> 0"
  shows "first_ge base (br_key (base ! t)) = t"
  using b ordered_nth [OF ord _ b(1)] bref_hi_pos
  by (intro first_ge_eqI) (auto simp: bref_left_def)

lemma base_delete_ok:
  assumes wf: "blocktable_wf parent base count"
    and b: "b \<in> set (elems base)" "br_key b = br_key (ch_bref chain)"
    and bits: "br_keybits b = br_keybits (ch_bref chain) \<or> ch_flags chain AND HAMMER2_CHAIN_BMAPUPD \<noteq> 0"
  shows "\<exists>parent' base' cache'. hammer2_base_delete parent base count cache chain =
           Ok (parent', base', cache',
               chain\<lparr>ch_flags := ch_flags chain AND
                       NOT (HAMMER2_CHAIN_BMAPPED OR HAMMER2_CHAIN_BMAPUPD)\<rparr>) \<and>
         blocktable_wf parent' base' count \<and>
         elems base' = filter (\<lambda>c. br_key c \<noteq> br_key (ch_bref chain)) (elems base)"
proof -
  let ?k = "br_key (ch_bref chain)"
  from wf have len: "length base = count" and ord: "ordered_elems base"
    and lz: "core_live_zero parent \<le> count"
    and above: "\<And>t. core_live_zero parent \<le> t \<Longrightarrow> t < count \<Longrightarrow> br_type (base ! t) = 0"
    by (auto simp: blocktable_wf_def)
  from b(1) obtain t where t: "t < count" "base ! t = b" "br_type b \<noteq> 0"
    using len by (auto simp: in_elems_nth)
  have i: "first_ge base ?k = t" using first_ge_of_elem [OF ord, of t] t b(2) len by simp
  obtain cache' kn where find:
    "hammer2_base_find parent (Some base) count cache 0 ?k ?k = Ok (t, cache', kn)"
    using base_find_eq [OF wf] i by metis
  let ?base = "base[t := blockref_zero]"
  let ?parent = "if core_live_zero parent = t + 1
                 then parent\<lparr>core_live_zero := count_back ?base t\<rparr> else parent"
  have res: "hammer2_base_delete parent base count cache chain =
      Ok (?parent, ?base, cache', chain\<lparr>ch_flags := ch_flags chain AND
                       NOT (HAMMER2_CHAIN_BMAPPED OR HAMMER2_CHAIN_BMAPUPD)\<rparr>)"
    using t b(2) bits by (auto simp: hammer2_base_delete_def Let_def find)
  have split: "elems base = elems (take t base) @ b # elems (drop (Suc t) base)"
    using elems_split_nth [of t base] t len by simp
  have new: "elems ?base = elems (take t base) @ elems (drop (Suc t) base)"
    using t len by (simp add: upd_conv_take_nth_drop)
  have sorted: "sorted_wrt bref_left (elems (take t base) @ b # elems (drop (Suc t) base))"
    using ord split by (simp add: ordered_elems_def)
  have other: "br_key c \<noteq> ?k" if "c \<in> set (elems (take t base)) \<union> set (elems (drop (Suc t) base))" for c
    using sorted that b(2) bref_hi_pos [of c] bref_hi_pos [of b]
    by (auto simp: sorted_wrt_append bref_left_def)
  have rest: "elems ?base = filter (\<lambda>c. br_key c \<noteq> ?k) (elems base)"
    unfolding new split using other b(2) by (simp add: filter_id_conv)
  have "ordered_elems ?base"
    using ord sorted unfolding ordered_elems_def new split by (auto simp: sorted_wrt_append)
  moreover have "br_type (?base ! s) = 0" if "core_live_zero ?parent \<le> s" "s < count" for s
  proof -
    have "core_live_zero parent \<le> s" if "core_live_zero parent \<noteq> t + 1 \<or> t < s"
      using \<open>core_live_zero ?parent \<le> s\<close> that by (auto split: if_splits)
    then consider "s = t" | "s < t" "core_live_zero parent = t + 1"
      | "s \<noteq> t" "core_live_zero parent \<le> s"
      by (metis nat_neq_iff)
    then show ?thesis
    proof cases
      case 1
      with t len show ?thesis by simp
    next
      case 2
      with that(1) have "count_back ?base t \<le> s" by simp
      then show ?thesis using 2(1) by (rule count_back_above)
    next
      case 3
      with above that(2) show ?thesis by simp
    qed
  qed
  moreover have "core_live_zero ?parent \<le> count"
    using lz t count_back_le [of ?base t] by auto
  ultimately have "blocktable_wf ?parent ?base count"
    using wf by (simp add: blocktable_wf_def)
  with res rest show ?thesis by blast
qed

lemma base_delete_missing:
  assumes wf: "blocktable_wf parent base count"
    and none: "\<And>b. b \<in> set (elems base) \<Longrightarrow> br_key b \<noteq> br_key (ch_bref chain)"
  shows "hammer2_base_delete parent base count cache chain = Panic ''delete base element not found''"
proof -
  let ?k = "br_key (ch_bref chain)"
  from wf have len: "length base = count" by (simp add: blocktable_wf_def)
  obtain cache' kn where find:
    "hammer2_base_find parent (Some base) count cache 0 ?k ?k = Ok (first_ge base ?k, cache', kn)"
    using base_find_eq [OF wf] by blast
  have "first_ge base ?k = count \<or> br_key (base ! first_ge base ?k) \<noteq> ?k"
    using none [of "base ! first_ge base ?k"] first_ge_at [of base ?k] first_ge_le [of base ?k] len
    by (metis in_elems_nth le_neq_implies_less)
  then show ?thesis by (auto simp: hammer2_base_delete_def Let_def find)
qed

lemma base_delete_wrong_size:
  assumes wf: "blocktable_wf parent base count"
    and b: "b \<in> set (elems base)" "br_key b = br_key (ch_bref chain)"
    and bits: "br_keybits b \<noteq> br_keybits (ch_bref chain)" "ch_flags chain AND HAMMER2_CHAIN_BMAPUPD = 0"
  shows "hammer2_base_delete parent base count cache chain = Panic ''delete base element not found''"
proof -
  let ?k = "br_key (ch_bref chain)"
  from wf have len: "length base = count" and ord: "ordered_elems base"
    by (auto simp: blocktable_wf_def)
  from b(1) obtain t where t: "t < count" "base ! t = b" "br_type b \<noteq> 0"
    using len by (auto simp: in_elems_nth)
  have "first_ge base ?k = t" using first_ge_of_elem [OF ord, of t] t b(2) len by simp
  then obtain cache' kn where
    "hammer2_base_find parent (Some base) count cache 0 ?k ?k = Ok (t, cache', kn)"
    using base_find_eq [OF wf] by metis
  with t bits show ?thesis by (auto simp: hammer2_base_delete_def Let_def)
qed

subsection \<open>Counting\<close>

lemma countbrefs_wf:
  assumes "ordered_elems base" "length base = count"
    "core_flags chain AND HAMMER2_CORE_COUNTEDBREFS = 0"
  shows "blocktable_wf (hammer2_chain_countbrefs chain (Some base) count) base count \<and>
         core_live_count (hammer2_chain_countbrefs chain (Some base) count) =
         core_live_count chain + of_nat (length (elems base))"
proof -
  let ?z = "count_back base count"
  have above: "br_type (base ! t) = 0" if "?z \<le> t" "t < count" for t
    using count_back_above that by blast
  have "elems (drop ?z base) = []"
    using above assms(2) by (intro elems_empty_drop) auto
  then have "elems (take ?z base) = elems base" using elems_take_drop [of ?z base] by simp
  moreover have "(core_flags chain OR 2) AND 2 \<noteq> (0::u32)"
    by simp
  ultimately show ?thesis
    using assms above count_back_le [of base count] count_live_eq [of ?z base "core_live_count chain"]
    by (simp add: hammer2_chain_countbrefs_def blocktable_wf_def Let_def)
qed

end
