(* ===== verification/H2_Table.thy ===== *)
theory H2_Table
  imports H2_Blocktable
begin

unbundle bit_operations_syntax

text \<open>
  The block table as its callers see it: an ordered collection of disjoint key ranges.
  The locale \<open>key_table\<close> states the contract, the interpretation \<open>h2\<close> discharges it for
  the array code of \<^verbatim>\<open>hammer2_chain.c\<close>, and the properties of the component follow.
\<close>

section \<open>The interface of the block table\<close>

text \<open>
  The callers (\<open>hammer2_chain_create\<close>, the flusher, the indirect block code) treat the
  array as an ordered collection of disjoint key ranges: they never look at the empty
  slots, at \<open>live_zero\<close> or at the search hint.  The locale states that contract; a table
  is the parent's state with its array and the array's size.
\<close>

type_synonym table = "hammer2_chain \<times> hammer2_blockref list \<times> nat"

definition table_view :: "table \<Rightarrow> hammer2_blockref list" where
  "table_view t = (case t of (parent, base, count) \<Rightarrow> elems base)"

definition table_inv :: "table \<Rightarrow> bool" where
  "table_inv t = (case t of (parent, base, count) \<Rightarrow> blocktable_wf parent base count)"

definition table_cap :: "table \<Rightarrow> nat" where
  "table_cap t = (case t of (parent, base, count) \<Rightarrow> count)"

definition table_find :: "int \<Rightarrow> u64 \<Rightarrow> table \<Rightarrow> hammer2_blockref option outcome" where
  "table_find hint key t = (case t of (parent, base, count) \<Rightarrow>
     obind (hammer2_base_find parent (Some base) count hint 0 key key)
       (\<lambda>(i, _, _). Ok (if i = count then None else Some (base ! i))))"

definition table_insert :: "int \<Rightarrow> hammer2_chain \<Rightarrow> table \<Rightarrow> table outcome" where
  "table_insert hint chain t = (case t of (parent, base, count) \<Rightarrow>
     obind (hammer2_base_insert parent base count hint chain)
       (\<lambda>(parent', base', _, _). Ok (parent', base', count)))"

definition table_delete :: "int \<Rightarrow> hammer2_chain \<Rightarrow> table \<Rightarrow> table outcome" where
  "table_delete hint chain t = (case t of (parent, base, count) \<Rightarrow>
     obind (hammer2_base_delete parent base count hint chain)
       (\<lambda>(parent', base', _, _). Ok (parent', base', count)))"

datatype table_op = InsertOp hammer2_chain | DeleteOp hammer2_chain

definition fits :: "hammer2_blockref \<Rightarrow> hammer2_blockref list \<Rightarrow> nat \<Rightarrow> bool" where
  "fits e xs cap \<longleftrightarrow> br_type e \<noteq> 0 \<and> bref_wf e \<and> (\<forall>b\<in>set xs. \<not> bref_overlap b e) \<and> length xs < cap"

definition removable :: "hammer2_blockref \<Rightarrow> hammer2_blockref list \<Rightarrow> bool" where
  "removable e xs \<longleftrightarrow> (\<exists>b\<in>set xs. br_key b = br_key e \<and> br_keybits b = br_keybits e)"

text \<open>What a sequence of operations does to the collection; \<open>None\<close> when one is not allowed.\<close>

fun view_ops :: "nat \<Rightarrow> table_op list \<Rightarrow> hammer2_blockref list \<Rightarrow> hammer2_blockref list option" where
  "view_ops cap [] xs = Some xs"
| "view_ops cap (InsertOp c # ops) xs =
     (if fits (ch_bref c) xs cap then view_ops cap ops (bref_insort (ch_bref c) xs) else None)"
| "view_ops cap (DeleteOp c # ops) xs =
     (if removable (ch_bref c) xs
      then view_ops cap ops (filter (\<lambda>b. br_key b \<noteq> br_key (ch_bref c)) xs) else None)"

text \<open>The same operations on a table, each with a search hint of its own.\<close>

fun run_ops :: "(int \<Rightarrow> hammer2_chain \<Rightarrow> 't \<Rightarrow> 't outcome) \<Rightarrow> (int \<Rightarrow> hammer2_chain \<Rightarrow> 't \<Rightarrow> 't outcome)
   \<Rightarrow> (int \<times> table_op) list \<Rightarrow> 't \<Rightarrow> 't outcome" where
  "run_ops ins del [] t = Ok t"
| "run_ops ins del ((h, InsertOp c) # ops) t = obind (ins h c t) (run_ops ins del ops)"
| "run_ops ins del ((h, DeleteOp c) # ops) t = obind (del h c t) (run_ops ins del ops)"

definition table_ops :: "(int \<times> table_op) list \<Rightarrow> table \<Rightarrow> table outcome" where
  "table_ops = run_ops table_insert table_delete"

subsection \<open>Facts on the collection\<close>

lemma find_bref_insort_covered:
  assumes "bref_covers e k"
  shows "find (\<lambda>b. unat k < bref_hi b) (bref_insort e xs) = Some e"
proof -
  have "find (\<lambda>b. unat k < bref_hi b) (filter (\<lambda>b. bref_left b e) xs) = None"
    using assms by (auto simp: find_None_iff bref_left_def bref_covers_def)
  then show ?thesis using assms by (simp add: bref_insort_def find_append bref_covers_def)
qed

lemma filter_bref_insort:
  assumes "fits e xs cap" "sorted_wrt bref_left xs"
  shows "filter (\<lambda>b. br_key b \<noteq> br_key e) (bref_insort e xs) = xs"
proof -
  have ne: "br_key b \<noteq> br_key e" if "b \<in> set xs" for b
    using assms(1) that bref_hi_pos [of b] bref_hi_pos [of e]
    by (auto simp: fits_def bref_overlap_def bref_left_def)
  have "filter (\<lambda>b. br_key b \<noteq> br_key e) (bref_insort e xs) =
        filter (\<lambda>b. bref_left b e) xs @ filter (\<lambda>b. \<not> bref_left b e) xs"
    using ne by (auto simp: bref_insort_def intro!: arg_cong2 [where f = append] filter_cong)
  also have "\<dots> = xs" using assms(2)
  proof (induction xs)
    case (Cons x xs)
    show ?case
    proof (cases "bref_left x e")
      case False
      then have "\<not> bref_left b e" if "b \<in> set xs" for b
        using Cons.prems that bref_left_trans by auto
      with False show ?thesis by (simp add: filter_id_conv filter_empty_conv)
    qed (use Cons in auto)
  qed simp
  finally show ?thesis .
qed

locale key_table =
  fixes view :: "'t \<Rightarrow> hammer2_blockref list"
    and inv :: "'t \<Rightarrow> bool"
    and cap :: "'t \<Rightarrow> nat"
    and tfind :: "int \<Rightarrow> u64 \<Rightarrow> 't \<Rightarrow> hammer2_blockref option outcome"
    and tins :: "int \<Rightarrow> hammer2_chain \<Rightarrow> 't \<Rightarrow> 't outcome"
    and tdel :: "int \<Rightarrow> hammer2_chain \<Rightarrow> 't \<Rightarrow> 't outcome"
  assumes view_ordered: "inv t \<Longrightarrow> sorted_wrt bref_left (view t)"
    and find_law: "inv t \<Longrightarrow> tfind h k t = Ok (find (\<lambda>b. unat k < bref_hi b) (view t))"
    and ins_law: "inv t \<Longrightarrow> fits (ch_bref c) (view t) (cap t) \<Longrightarrow>
      \<exists>t'. tins h c t = Ok t' \<and> inv t' \<and> cap t' = cap t \<and> view t' = bref_insort (ch_bref c) (view t)"
    and del_law: "inv t \<Longrightarrow> removable (ch_bref c) (view t) \<Longrightarrow>
      \<exists>t'. tdel h c t = Ok t' \<and> inv t' \<and> cap t' = cap t \<and>
           view t' = filter (\<lambda>b. br_key b \<noteq> br_key (ch_bref c)) (view t)"
begin

lemma find_inserted:
  assumes "inv t" "fits (ch_bref c) (view t) (cap t)" "bref_covers (ch_bref c) k"
  shows "\<exists>t'. tins h c t = Ok t' \<and> tfind h' k t' = Ok (Some (ch_bref c))"
proof -
  obtain t' where t': "tins h c t = Ok t'" "inv t'" "view t' = bref_insort (ch_bref c) (view t)"
    using ins_law [OF assms(1,2)] by blast
  have "find (\<lambda>b. unat k < bref_hi b) (view t') = Some (ch_bref c)"
    using find_bref_insort_covered [OF assms(3)] by (simp add: t'(3))
  with t' find_law show ?thesis by auto
qed

lemma insert_delete:
  assumes "inv t" "fits (ch_bref c) (view t) (cap t)"
  shows "\<exists>t' t''. tins h c t = Ok t' \<and> tdel h' c t' = Ok t'' \<and> inv t'' \<and> view t'' = view t"
proof -
  obtain t' where t': "tins h c t = Ok t'" "inv t'" "view t' = bref_insort (ch_bref c) (view t)"
    using ins_law [OF assms] by blast
  have "removable (ch_bref c) (view t')" by (auto simp: removable_def t'(3) bref_insort_def)
  then obtain t'' where "tdel h' c t' = Ok t''" "inv t''"
    "view t'' = filter (\<lambda>b. br_key b \<noteq> br_key (ch_bref c)) (view t')"
    using del_law [OF t'(2)] by blast
  with t' filter_bref_insort [OF assms(2) view_ordered [OF assms(1)]] show ?thesis by auto
qed

lemma run_ops_refines:
  assumes "inv t" "view_ops (cap t) (map snd ops) (view t) = Some xs"
  shows "\<exists>t'. run_ops tins tdel ops t = Ok t' \<and> inv t' \<and> view t' = xs"
  using assms
proof (induction ops arbitrary: t)
  case (Cons op ops)
  obtain h o' where op: "op = (h, o')" by (cases op)
  show ?case
  proof (cases o')
    case (InsertOp c)
    with Cons.prems op have "fits (ch_bref c) (view t) (cap t)" by (auto split: if_splits)
    with ins_law [OF Cons.prems(1)] obtain t' where t': "tins h c t = Ok t'" "inv t'" "cap t' = cap t"
      "view t' = bref_insort (ch_bref c) (view t)" by blast
    with Cons.IH [OF t'(2)] Cons.prems op InsertOp show ?thesis by (auto split: if_splits)
  next
    case (DeleteOp c)
    with Cons.prems op have "removable (ch_bref c) (view t)" by (auto split: if_splits)
    with del_law [OF Cons.prems(1)] obtain t' where t': "tdel h c t = Ok t'" "inv t'" "cap t' = cap t"
      "view t' = filter (\<lambda>b. br_key b \<noteq> br_key (ch_bref c)) (view t)" by blast
    with Cons.IH [OF t'(2)] Cons.prems op DeleteOp show ?thesis by (auto split: if_splits)
  qed
qed simp

end

subsection \<open>The array code meets the contract\<close>

lemma find_elems_first_ge:
  "find (\<lambda>b. unat k < bref_hi b) (elems base) =
   (if first_ge base k = length base then None else Some (base ! first_ge base k))"
  by (induction base) (auto simp: first_ge_def)

lemma table_find_ok:
  assumes "table_inv t"
  shows "table_find h k t = Ok (find (\<lambda>b. unat k < bref_hi b) (table_view t))"
proof -
  obtain parent base count where t: "t = (parent, base, count)" by (cases t)
  with assms have wf: "blocktable_wf parent base count" by (simp add: table_inv_def)
  then have "length base = count" by (simp add: blocktable_wf_def)
  with base_find_eq [OF wf, of h 0 k k] t show ?thesis
    by (auto simp: table_find_def table_view_def find_elems_first_ge)
qed

interpretation h2: key_table table_view table_inv table_cap table_find table_insert table_delete
proof unfold_locales
  fix t :: table assume "table_inv t"
  then show "sorted_wrt bref_left (table_view t)"
    by (cases t) (simp add: table_inv_def table_view_def blocktable_wf_def ordered_elems_def)
next
  fix t :: table and h k assume "table_inv t"
  then show "table_find h k t = Ok (find (\<lambda>b. unat k < bref_hi b) (table_view t))"
    by (rule table_find_ok)
next
  fix t :: table and c :: hammer2_chain and h assume a: "table_inv t" "fits (ch_bref c) (table_view t) (table_cap t)"
  obtain parent base count where t: "t = (parent, base, count)" by (cases t)
  from a t have "blocktable_wf parent base count" "insert_ok parent base count c"
    by (auto simp: table_inv_def insert_ok_def fits_def table_view_def table_cap_def)
  from base_insert_ok [OF this, of h] t
  show "\<exists>t'. table_insert h c t = Ok t' \<and> table_inv t' \<and> table_cap t' = table_cap t \<and>
             table_view t' = bref_insort (ch_bref c) (table_view t)"
    by (auto simp: table_inv_def table_view_def table_cap_def table_insert_def)
next
  fix t :: table and c :: hammer2_chain and h assume a: "table_inv t" "removable (ch_bref c) (table_view t)"
  obtain parent base count where t: "t = (parent, base, count)" by (cases t)
  from a t obtain b where "blocktable_wf parent base count" "b \<in> set (elems base)"
    "br_key b = br_key (ch_bref c)" "br_keybits b = br_keybits (ch_bref c)"
    by (auto simp: table_inv_def removable_def table_view_def)
  with base_delete_ok [of parent base count b c h] t
  show "\<exists>t'. table_delete h c t = Ok t' \<and> table_inv t' \<and> table_cap t' = table_cap t \<and>
             table_view t' = filter (\<lambda>b. br_key b \<noteq> br_key (ch_bref c)) (table_view t)"
    by (auto simp: table_inv_def table_view_def table_cap_def table_delete_def)
qed

section \<open>Properties\<close>

text \<open>
  A concrete table for the witnesses: six slots, elements at keys 0 to 255, 512 to 767
  and 4096 to 4351 in slots 0, 2 and 3.
\<close>

definition ex_bref :: "u64 \<Rightarrow> u8 \<Rightarrow> hammer2_blockref" where
  "ex_bref key keybits = blockref_zero\<lparr>br_type := HAMMER2_BREF_TYPE_DATA, br_key := key, br_keybits := keybits\<rparr>"

definition ex_chain :: "u64 \<Rightarrow> u8 \<Rightarrow> hammer2_chain" where
  "ex_chain key keybits =
     \<lparr>ch_bref = ex_bref key keybits, ch_flags = 0, ch_bytes = 1024,
      core_live_zero = 0, core_flags = 0, core_live_count = 0,
      core_chain_count = 0, core_generation = 0\<rparr>"

definition ex_parent :: hammer2_chain where
  "ex_parent = (ex_chain 0 63)\<lparr>core_live_zero := 4, core_flags := HAMMER2_CORE_COUNTEDBREFS\<rparr>"

definition ex_base :: "hammer2_blockref list" where
  "ex_base = [ex_bref 0 8, blockref_zero, ex_bref 512 8, ex_bref 4096 8, blockref_zero, blockref_zero]"

lemma ex_fields [simp]:
  "br_type (ex_bref k n) = 3" "br_key (ex_bref k n) = k" "br_keybits (ex_bref k n) = n"
  "ch_bref (ex_chain k n) = ex_bref k n" "ch_flags (ex_chain k n) = 0"
  "(ex_chain k n)\<lparr>ch_flags := 0\<rparr> = ex_chain k n"
  by (simp_all add: ex_bref_def ex_chain_def)

lemma ex_elems: "elems ex_base = [ex_bref 0 8, ex_bref 512 8, ex_bref 4096 8]"
  by (simp add: ex_base_def)

lemma ex_ordered: "ordered_elems ex_base"
  by (simp add: ordered_elems_def ex_elems bref_left_def bref_hi_def bref_wf_def)

lemma ex_above: "i < 6 \<Longrightarrow> 4 \<le> i \<Longrightarrow> br_type (ex_base ! i) = 0"
  by (cases "i = 4"; cases "i = 5") (auto simp: ex_base_def)

lemma ex_wf: "blocktable_wf ex_parent ex_base 6"
  using ex_ordered ex_above by (simp add: blocktable_wf_def ex_parent_def ex_chain_def ex_base_def)

text \<open>
  C27: on a well-formed table \<open>hammer2_base_find\<close> returns, whatever the search hint, the
  slot of the first element that ends at or after the key searched for (the size of the
  array when there is none), and lowers \<open>*key_nextp\<close> to the key after that element.
\<close>

theorem base_find_correct:
  assumes "blocktable_wf parent base count"
  shows "\<exists>cache'. hammer2_base_find parent (Some base) count cache key_next key_beg key_end =
           Ok (first_ge base key_beg, cache', key_next_after base (first_ge base key_beg) key_next)"
  by (rule base_find_eq [OF assms])

theorem base_find_correct_witness:
  "blocktable_wf ex_parent ex_base 6 \<and>
   (\<exists>cache'. hammer2_base_find ex_parent (Some ex_base) 6 3 0 600 600 = Ok (2, cache', 768))"
proof -
  have "first_ge ex_base 600 = 2" "key_next_after ex_base 2 0 = 768"
    by (simp_all add: first_ge_def ex_base_def ex_bref_def bref_hi_def key_next_after_def bref_next_def)
  then show ?thesis using base_find_correct [OF ex_wf, of 3 0 600 600] ex_wf by simp
qed

text \<open>
  C22: what \<open>hammer2_base_insert\<close> does with a non-empty element on a well-formed table, on
  every branch: it panics when the element overlaps one in the table, else panics when
  every slot is taken, else returns with a well-formed table whose elements are the old
  ones with the new one in its place and with the chain marked mapped.  The consistency
  check at its end never fires.
\<close>

theorem base_insert_correct:
  assumes "blocktable_wf parent base count"
    and "br_type (ch_bref chain) \<noteq> 0" "bref_wf (ch_bref chain)"
  shows "if \<exists>b\<in>set (elems base). bref_overlap b (ch_bref chain)
         then hammer2_base_insert parent base count cache chain =
              Panic ''insert base overlapping elements''
         else if length (elems base) = count
         then hammer2_base_insert parent base count cache chain =
              Panic ''hammer2_base_insert: no room!''
         else \<exists>parent' base' cache'.
              hammer2_base_insert parent base count cache chain =
                Ok (parent', base', cache',
                    chain\<lparr>ch_flags := ch_flags chain OR HAMMER2_CHAIN_BMAPPED\<rparr>) \<and>
              blocktable_wf parent' base' count \<and>
              elems base' = bref_insort (ch_bref chain) (elems base)"
proof -
  from assms(1) have "length (elems base) \<le> count"
    by (simp add: blocktable_wf_def elems_def) (metis length_filter_le)
  then show ?thesis
    using assms base_insert_overlap [OF assms(1,3)] base_insert_full [OF assms(1,3)]
      base_insert_ok [OF assms(1), of chain]
    by (auto simp: insert_ok_def)
qed

theorem base_insert_correct_witness:
  "\<exists>parent' base' cache'.
     hammer2_base_insert ex_parent ex_base 6 0 (ex_chain 1024 8) =
       Ok (parent', base', cache', (ex_chain 1024 8)\<lparr>ch_flags := HAMMER2_CHAIN_BMAPPED\<rparr>) \<and>
     blocktable_wf parent' base' 6 \<and>
     elems base' = [ex_bref 0 8, ex_bref 512 8, ex_bref 1024 8, ex_bref 4096 8]"
proof -
  have "br_type (ch_bref (ex_chain 1024 8)) \<noteq> 0" "bref_wf (ch_bref (ex_chain 1024 8))"
    by (simp_all add: bref_wf_def)
  from base_insert_correct [OF ex_wf this, of 0]
  show ?thesis
    by (simp add: ex_elems bref_overlap_def bref_left_def bref_hi_def bref_insort_def)
qed

text \<open>
  \<open>hammer2_base_delete\<close> on a well-formed table panics when no element has the chain's
  key, panics when the element with that key has another size and the chain is not marked
  for an update, and otherwise returns with a well-formed table from which that element and
  no other is gone and with both mapping flags of the chain cleared.
\<close>

theorem base_delete_correct:
  assumes "blocktable_wf parent base count"
  shows "case find (\<lambda>b. br_key b = br_key (ch_bref chain)) (elems base) of
           None \<Rightarrow> hammer2_base_delete parent base count cache chain =
                   Panic ''delete base element not found''
         | Some b \<Rightarrow>
             if br_keybits b \<noteq> br_keybits (ch_bref chain) \<and> ch_flags chain AND HAMMER2_CHAIN_BMAPUPD = 0
             then hammer2_base_delete parent base count cache chain =
                  Panic ''delete base element not found''
             else \<exists>parent' base' cache'.
                  hammer2_base_delete parent base count cache chain =
                    Ok (parent', base', cache',
                        chain\<lparr>ch_flags := ch_flags chain AND
                                NOT (HAMMER2_CHAIN_BMAPPED OR HAMMER2_CHAIN_BMAPUPD)\<rparr>) \<and>
                  blocktable_wf parent' base' count \<and>
                  elems base' = filter (\<lambda>c. br_key c \<noteq> br_key (ch_bref chain)) (elems base)"
proof (cases "find (\<lambda>b. br_key b = br_key (ch_bref chain)) (elems base)")
  case None
  then have "hammer2_base_delete parent base count cache chain =
      Panic ''delete base element not found''"
    by (intro base_delete_missing [OF assms]) (auto simp: find_None_iff)
  with None show ?thesis by simp
next
  case (Some b)
  then have b: "b \<in> set (elems base)" "br_key b = br_key (ch_bref chain)"
    by (auto simp: find_Some_iff)
  show ?thesis
    using base_delete_ok [OF assms b] base_delete_wrong_size [OF assms b] Some by auto
qed

text \<open>
  C23: refinement of the ordered collection.  Any sequence of insertions and deletions that
  the collection allows runs on the array without a panic, keeps the table well formed and
  leaves exactly the elements the collection has; the search hints given to the operations
  make no difference.
\<close>

theorem table_ops_refine:
  assumes "table_inv t" "view_ops (table_cap t) (map snd ops) (table_view t) = Some xs"
  shows "\<exists>t'. table_ops ops t = Ok t' \<and> table_inv t' \<and> table_view t' = xs"
  unfolding table_ops_def by (rule h2.run_ops_refines [OF assms])

theorem table_ops_refine_witness:
  "\<exists>t'. table_ops [(3, InsertOp (ex_chain 1024 8)), (-1, DeleteOp (ex_chain 512 8))]
          (ex_parent, ex_base, 6) = Ok t' \<and> table_inv t' \<and>
        table_view t' = [ex_bref 0 8, ex_bref 1024 8, ex_bref 4096 8]"
proof (rule table_ops_refine)
  show "table_inv (ex_parent, ex_base, 6)" by (simp add: table_inv_def ex_wf)
  show "view_ops (table_cap (ex_parent, ex_base, 6))
          (map snd [(3::int, InsertOp (ex_chain 1024 8)), (-1, DeleteOp (ex_chain 512 8))])
          (table_view (ex_parent, ex_base, 6)) =
        Some [ex_bref 0 8, ex_bref 1024 8, ex_bref 4096 8]"
    by (simp add: table_cap_def table_view_def ex_elems fits_def removable_def
        bref_overlap_def bref_left_def bref_hi_def bref_wf_def bref_insort_def)
qed

text \<open>
  After an insertion that succeeds, a search for any key of the new element's range
  finds that element, whatever the hints; and deleting it again restores the collection.
\<close>

theorem table_insert_roundtrip:
  assumes "table_inv t" "fits (ch_bref c) (table_view t) (table_cap t)"
    and "bref_covers (ch_bref c) k"
  shows "\<exists>t' t''. table_insert h c t = Ok t' \<and> table_find h' k t' = Ok (Some (ch_bref c)) \<and>
                  table_delete h'' c t' = Ok t'' \<and> table_inv t'' \<and> table_view t'' = table_view t"
  using h2.find_inserted [OF assms, of h h'] h2.insert_delete [OF assms(1,2), of h h''] by auto

text \<open>
  \<open>hammer2_chain_countbrefs\<close> establishes the invariant of the table: for an array whose
  elements are ordered and disjoint, wherever its empty slots are, it sets \<open>live_zero\<close> so
  that no element lies at or above it and adds the number of elements to \<open>live_count\<close>.
\<close>

theorem countbrefs_establishes:
  assumes "ordered_elems base" "length base = count"
    and "core_flags chain AND HAMMER2_CORE_COUNTEDBREFS = 0"
  shows "blocktable_wf (hammer2_chain_countbrefs chain (Some base) count) base count \<and>
         core_live_count (hammer2_chain_countbrefs chain (Some base) count) =
         core_live_count chain + of_nat (length (elems base))"
  by (rule countbrefs_wf [OF assms])

end
