(* ===== verification/H2_Icrc.thy ===== *)
theory H2_Icrc
  imports H2_Prelude
begin

unbundle bit_operations_syntax

text \<open>
  The iSCSI CRC of \<^verbatim>\<open>sbin/newfs_hammer2/icrc32.c\<close>, which the kernel and the tools use
  (as \<open>hammer2_icrc32\<close> and \<open>hammer2_icrc32c\<close>) for every check code: the lookup table as
  it stands in the source and the two table-driven loops.  The table is proved to be the
  one of the bit-serial algorithm for the reflected polynomial 0x1EDC6F41, whose algebra
  (linearity, injectivity) then gives the error detection of the code.
\<close>

definition iscsiCrc32Table :: "u32 list" where
  "iscsiCrc32Table = [
     0x00000000, 0xF26B8303, 0xE13B70F7, 0x1350F3F4,
     0xC79A971F, 0x35F1141C, 0x26A1E7E8, 0xD4CA64EB,
     0x8AD958CF, 0x78B2DBCC, 0x6BE22838, 0x9989AB3B,
     0x4D43CFD0, 0xBF284CD3, 0xAC78BF27, 0x5E133C24,
     0x105EC76F, 0xE235446C, 0xF165B798, 0x030E349B,
     0xD7C45070, 0x25AFD373, 0x36FF2087, 0xC494A384,
     0x9A879FA0, 0x68EC1CA3, 0x7BBCEF57, 0x89D76C54,
     0x5D1D08BF, 0xAF768BBC, 0xBC267848, 0x4E4DFB4B,
     0x20BD8EDE, 0xD2D60DDD, 0xC186FE29, 0x33ED7D2A,
     0xE72719C1, 0x154C9AC2, 0x061C6936, 0xF477EA35,
     0xAA64D611, 0x580F5512, 0x4B5FA6E6, 0xB93425E5,
     0x6DFE410E, 0x9F95C20D, 0x8CC531F9, 0x7EAEB2FA,
     0x30E349B1, 0xC288CAB2, 0xD1D83946, 0x23B3BA45,
     0xF779DEAE, 0x05125DAD, 0x1642AE59, 0xE4292D5A,
     0xBA3A117E, 0x4851927D, 0x5B016189, 0xA96AE28A,
     0x7DA08661, 0x8FCB0562, 0x9C9BF696, 0x6EF07595,
     0x417B1DBC, 0xB3109EBF, 0xA0406D4B, 0x522BEE48,
     0x86E18AA3, 0x748A09A0, 0x67DAFA54, 0x95B17957,
     0xCBA24573, 0x39C9C670, 0x2A993584, 0xD8F2B687,
     0x0C38D26C, 0xFE53516F, 0xED03A29B, 0x1F682198,
     0x5125DAD3, 0xA34E59D0, 0xB01EAA24, 0x42752927,
     0x96BF4DCC, 0x64D4CECF, 0x77843D3B, 0x85EFBE38,
     0xDBFC821C, 0x2997011F, 0x3AC7F2EB, 0xC8AC71E8,
     0x1C661503, 0xEE0D9600, 0xFD5D65F4, 0x0F36E6F7,
     0x61C69362, 0x93AD1061, 0x80FDE395, 0x72966096,
     0xA65C047D, 0x5437877E, 0x4767748A, 0xB50CF789,
     0xEB1FCBAD, 0x197448AE, 0x0A24BB5A, 0xF84F3859,
     0x2C855CB2, 0xDEEEDFB1, 0xCDBE2C45, 0x3FD5AF46,
     0x7198540D, 0x83F3D70E, 0x90A324FA, 0x62C8A7F9,
     0xB602C312, 0x44694011, 0x5739B3E5, 0xA55230E6,
     0xFB410CC2, 0x092A8FC1, 0x1A7A7C35, 0xE811FF36,
     0x3CDB9BDD, 0xCEB018DE, 0xDDE0EB2A, 0x2F8B6829,
     0x82F63B78, 0x709DB87B, 0x63CD4B8F, 0x91A6C88C,
     0x456CAC67, 0xB7072F64, 0xA457DC90, 0x563C5F93,
     0x082F63B7, 0xFA44E0B4, 0xE9141340, 0x1B7F9043,
     0xCFB5F4A8, 0x3DDE77AB, 0x2E8E845F, 0xDCE5075C,
     0x92A8FC17, 0x60C37F14, 0x73938CE0, 0x81F80FE3,
     0x55326B08, 0xA759E80B, 0xB4091BFF, 0x466298FC,
     0x1871A4D8, 0xEA1A27DB, 0xF94AD42F, 0x0B21572C,
     0xDFEB33C7, 0x2D80B0C4, 0x3ED04330, 0xCCBBC033,
     0xA24BB5A6, 0x502036A5, 0x4370C551, 0xB11B4652,
     0x65D122B9, 0x97BAA1BA, 0x84EA524E, 0x7681D14D,
     0x2892ED69, 0xDAF96E6A, 0xC9A99D9E, 0x3BC21E9D,
     0xEF087A76, 0x1D63F975, 0x0E330A81, 0xFC588982,
     0xB21572C9, 0x407EF1CA, 0x532E023E, 0xA145813D,
     0x758FE5D6, 0x87E466D5, 0x94B49521, 0x66DF1622,
     0x38CC2A06, 0xCAA7A905, 0xD9F75AF1, 0x2B9CD9F2,
     0xFF56BD19, 0x0D3D3E1A, 0x1E6DCDEE, 0xEC064EED,
     0xC38D26C4, 0x31E6A5C7, 0x22B65633, 0xD0DDD530,
     0x0417B1DB, 0xF67C32D8, 0xE52CC12C, 0x1747422F,
     0x49547E0B, 0xBB3FFD08, 0xA86F0EFC, 0x5A048DFF,
     0x8ECEE914, 0x7CA56A17, 0x6FF599E3, 0x9D9E1AE0,
     0xD3D3E1AB, 0x21B862A8, 0x32E8915C, 0xC083125F,
     0x144976B4, 0xE622F5B7, 0xF5720643, 0x07198540,
     0x590AB964, 0xAB613A67, 0xB831C993, 0x4A5A4A90,
     0x9E902E7B, 0x6CFBAD78, 0x7FAB5E8C, 0x8DC0DD8F,
     0xE330A81A, 0x115B2B19, 0x020BD8ED, 0xF0605BEE,
     0x24AA3F05, 0xD6C1BC06, 0xC5914FF2, 0x37FACCF1,
     0x69E9F0D5, 0x9B8273D6, 0x88D28022, 0x7AB90321,
     0xAE7367CA, 0x5C18E4C9, 0x4F48173D, 0xBD23943E,
     0xF36E6F75, 0x0105EC76, 0x12551F82, 0xE03E9C81,
     0x34F4F86A, 0xC69F7B69, 0xD5CF889D, 0x27A40B9E,
     0x79B737BA, 0x8BDCB4B9, 0x988C474D, 0x6AE7C44E,
     0xBE2DA0A5, 0x4C4623A6, 0x5F16D052, 0xAD7D5351]"

text \<open>One turn of the loop of both functions.\<close>

definition crc_step :: "u32 \<Rightarrow> u8 \<Rightarrow> u32" where
  "crc_step crc p = iscsiCrc32Table ! unat ((crc XOR ucast p) AND 0xff) XOR drop_bit 8 crc"

definition iscsi_crc32 :: "bytes \<Rightarrow> u32" where
  "iscsi_crc32 buf = foldl crc_step (0 XOR 0xffffffff) buf XOR 0xffffffff"

definition iscsi_crc32_ext :: "bytes \<Rightarrow> u32 \<Rightarrow> u32" where
  "iscsi_crc32_ext buf crc = foldl crc_step (crc XOR 0xffffffff) buf XOR 0xffffffff"

subsection \<open>Reference: one bit at a time\<close>

definition crc_bit :: "u32 \<Rightarrow> u32" where
  "crc_bit c = (if bit c 0 then drop_bit 1 c XOR 0x82F63B78 else drop_bit 1 c)"

definition crc_byte :: "u32 \<Rightarrow> u32" where
  "crc_byte c = (crc_bit ^^ 8) c"

definition crc_ref :: "u32 \<Rightarrow> bytes \<Rightarrow> u32" where
  "crc_ref c buf = foldl (\<lambda>c p. crc_byte (c XOR ucast p)) c buf"

subsection \<open>The bit-serial step is linear and injective\<close>

lemma crc_bit_xor: "crc_bit (a XOR b) = crc_bit a XOR crc_bit b"
  by (rule bit_word_eqI) (auto simp: crc_bit_def bit_simps)

lemma crc_bit_0 [simp]: "crc_bit 0 = 0"
  by (simp add: crc_bit_def)

lemma crc_bit_top: "bit (crc_bit c) 31 \<longleftrightarrow> bit c 0"
  by (auto simp: crc_bit_def bit_simps dest: bit_imp_le_length)

lemma crc_bit_eq_0: "crc_bit c = 0 \<Longrightarrow> c = 0"
proof -
  assume z: "crc_bit c = 0"
  then have "\<not> bit c 0" using crc_bit_top [of c] by simp
  with z have d: "drop_bit 1 c = 0" by (simp add: crc_bit_def)
  show "c = 0"
  proof (rule bit_word_eqI)
    fix n
    have "bit (drop_bit 1 c) (n - 1) = False" using d by simp
    with \<open>\<not> bit c 0\<close> show "bit c n = bit 0 n" by (cases n) (auto simp: bit_drop_bit_eq)
  qed
qed

lemma crc_pow_xor: "(crc_bit ^^ n) (a XOR b) = (crc_bit ^^ n) a XOR (crc_bit ^^ n) b"
  by (induction n) (auto simp: crc_bit_xor)

lemma crc_pow_eq_0: "(crc_bit ^^ n) c = 0 \<Longrightarrow> c = 0"
  by (induction n) (auto dest: crc_bit_eq_0)

lemma xor_eq_0_iff: "(a :: 'a::len word) XOR b = 0 \<longleftrightarrow> a = b"
proof
  assume "a XOR b = 0"
  then have "(a XOR b) XOR b = 0 XOR b" by simp
  then show "a = b" by (simp add: xor.assoc)
qed simp

lemma xor_cancel:
  "(a :: 'a::len word) XOR c = b XOR c \<longleftrightarrow> a = b" "c XOR a = c XOR b \<longleftrightarrow> a = b"
  by (metis xor.assoc xor.right_neutral xor_self_eq) (metis xor.assoc xor.left_neutral xor_self_eq)

lemma crc_pow_inj: "(crc_bit ^^ n) a = (crc_bit ^^ n) b \<longleftrightarrow> a = b"
  using crc_pow_eq_0 [of n "a XOR b"] by (auto simp: crc_pow_xor xor_eq_0_iff)

lemmas crc_byte_xor = crc_pow_xor [where n = 8, folded crc_byte_def]
lemmas crc_byte_inj = crc_pow_inj [where n = 8, folded crc_byte_def]

text \<open>A value whose low bits are zero is only shifted.\<close>

lemma crc_pow_shift: "take_bit n c = 0 \<Longrightarrow> (crc_bit ^^ n) c = drop_bit n c"
proof (induction n arbitrary: c)
  case (Suc n)
  have low: "\<not> bit c m" if "m < Suc n" for m
  proof -
    have "bit (take_bit (Suc n) c) m = False" using Suc.prems by simp
    with that show ?thesis by (simp add: bit_take_bit_iff)
  qed
  then have "crc_bit c = drop_bit 1 c" by (simp add: crc_bit_def)
  moreover have "take_bit n (drop_bit 1 c) = 0"
    by (rule bit_word_eqI) (use low in \<open>auto simp: bit_simps\<close>)
  ultimately have "(crc_bit ^^ n) (crc_bit c) = drop_bit n (drop_bit 1 c)"
    using Suc.IH by simp
  then show ?case by (simp add: funpow_swap1)
qed simp

subsection \<open>The table\<close>

fun crc_tab :: "nat \<Rightarrow> u32 list" where
  "crc_tab 0 = [0]"
| "crc_tab (Suc k) = crc_tab k @ map (\<lambda>x. crc_byte (2 ^ k) XOR x) (crc_tab k)"

lemma crc_tab_eq: "k \<le> 8 \<Longrightarrow> crc_tab k = map (\<lambda>i. crc_byte (of_nat i)) [0..<2 ^ k]"
proof (induction k)
  case 0
  show ?case by (simp add: crc_byte_def crc_pow_shift)
next
  case (Suc k)
  have plus: "crc_byte (of_nat (2 ^ k + i)) = crc_byte (2 ^ k) XOR crc_byte (of_nat i)"
    if "i < 2 ^ k" for i
  proof -
    have lt: "(of_nat i :: u32) = take_bit k (of_nat i)"
      using that by (metis of_nat_take_bit take_bit_nat_eq_self)
    then have "(2 ^ k :: u32) AND of_nat i = 0"
      by (intro bit_word_eqI) (metis bit_and_iff bit_exp_iff bit_take_bit_iff less_irrefl bit_0_eq bot_apply bot_bool_def)
    then have "of_nat (2 ^ k + i) = (2 ^ k :: u32) XOR of_nat i"
      by (simp add: disjunctive_add_eq_xor)
    then show ?thesis by (simp add: crc_byte_xor)
  qed
  have "[0..<2 ^ Suc k] = [0..<2 ^ k] @ map (\<lambda>i. 2 ^ k + i) [0..<2 ^ k]"
    using upt_add_eq_append [of 0 "2 ^ k" "2 ^ k"] map_add_upt [of "2 ^ k" "2 ^ k"]
    by (simp add: add.commute mult_2)
  with Suc plus show ?case by (simp add: Suc_leD)
qed

lemma crc_byte_pow2:
  "crc_byte 1 = 0xF26B8303" "crc_byte 2 = 0xE13B70F7" "crc_byte 4 = 0xC79A971F"
  "crc_byte 8 = 0x8AD958CF" "crc_byte 16 = 0x105EC76F" "crc_byte 32 = 0x20BD8EDE"
  "crc_byte 64 = 0x417B1DBC" "crc_byte 128 = 0x82F63B78"
  by code_simp+

lemma crc_tab_numeral:
  "crc_tab (numeral k) = crc_tab (pred_numeral k) @
     map (\<lambda>x. crc_byte (2 ^ pred_numeral k) XOR x) (crc_tab (pred_numeral k))"
  by (simp add: numeral_eq_Suc)

lemma crc_table: "iscsiCrc32Table = crc_tab 8"
  by (simp add: iscsiCrc32Table_def crc_byte_pow2 crc_tab_numeral)

lemma crc_table_nth: "i < 256 \<Longrightarrow> iscsiCrc32Table ! i = crc_byte (of_nat i)"
  by (simp add: crc_table crc_tab_eq del: crc_tab.simps)

lemma and_0xff: "(x :: u32) AND 0xff = take_bit 8 x"
  by (simp add: take_bit_eq_mask mask_eq_exp_minus_1)

lemma crc_step_eq: "crc_step c p = crc_byte (c XOR ucast p)"
proof -
  let ?x = "c XOR ucast p"
  have "unat (take_bit 8 x) < 256" for x :: u32
    by (simp only: take_bit_eq_mask unat_and_mask) simp
  then have t: "iscsiCrc32Table ! unat (take_bit 8 ?x) = crc_byte (take_bit 8 ?x)"
    by (subst crc_table_nth) (simp_all only: of_nat_unat ucast_id)
  have high: "drop_bit 8 c = drop_bit 8 ?x"
    by (rule bit_word_eqI) (auto simp: bit_simps dest: bit_imp_le_length)
  have "take_bit 8 (push_bit 8 (drop_bit 8 ?x)) = 0" by (simp add: take_bit_push_bit)
  then have "crc_byte (push_bit 8 (drop_bit 8 ?x)) = drop_bit 8 (push_bit 8 (drop_bit 8 ?x))"
    unfolding crc_byte_def by (rule crc_pow_shift)
  also have "\<dots> = drop_bit 8 ?x"
    by (rule bit_word_eqI) (auto simp: bit_simps dest: bit_imp_le_length)
  finally have sh: "crc_byte (push_bit 8 (drop_bit 8 ?x)) = drop_bit 8 ?x" .
  have "crc_step c p = crc_byte (take_bit 8 ?x) XOR drop_bit 8 c"
    unfolding crc_step_def and_0xff t ..
  also have "\<dots> = crc_byte (take_bit 8 ?x XOR push_bit 8 (drop_bit 8 ?x))"
    by (simp only: crc_byte_xor sh high)
  also have "take_bit 8 ?x XOR push_bit 8 (drop_bit 8 ?x) = ?x"
    by (rule take_xor_drop)
  finally show ?thesis .
qed

lemma crc_fold_ref: "foldl crc_step c buf = crc_ref c buf"
  by (simp add: crc_ref_def crc_step_eq [abs_def])

subsection \<open>Error detection\<close>

lemma crc_ref_append: "crc_ref c (xs @ ys) = crc_ref (crc_ref c xs) ys"
  by (simp add: crc_ref_def)

lemma crc_ref_simps [simp]:
  "crc_ref c [] = c" "crc_ref c (p # ps) = crc_ref (crc_byte (c XOR ucast p)) ps"
  by (simp_all add: crc_ref_def)

lemma crc_ref_inj: "crc_ref a buf = crc_ref b buf \<longleftrightarrow> a = b"
  by (induction buf arbitrary: a b) (auto simp: crc_byte_inj xor_cancel)

text \<open>Up to four bytes as the little-endian word they enter the register as.\<close>

fun le_word :: "bytes \<Rightarrow> u32" where
  "le_word [] = 0"
| "le_word (p # ps) = ucast p XOR push_bit 8 (le_word ps)"

lemma crc_pow_push:
  assumes "n + m \<le> 32" "take_bit m w = w"
  shows "(crc_bit ^^ n) (push_bit n (w :: u32)) = w"
proof -
  have "take_bit n (push_bit n w) = 0" by (simp add: take_bit_push_bit)
  then have "(crc_bit ^^ n) (push_bit n w) = drop_bit n (push_bit n w)" by (rule crc_pow_shift)
  also have "\<dots> = w"
  proof (rule bit_word_eqI)
    fix k assume "k < LENGTH(32)"
    have "bit w k \<Longrightarrow> k < m" using assms(2) by (metis bit_take_bit_iff)
    with assms(1) show "bit (drop_bit n (push_bit n w)) k = bit w k"
      by (auto simp: bit_simps)
  qed
  finally show ?thesis .
qed

lemma le_word_small:
  "length xs \<le> 4 \<Longrightarrow> take_bit (8 * length xs) (le_word xs) = le_word xs"
proof (induction xs)
  case (Cons p ps)
  have "bit (ucast p :: u32) k \<Longrightarrow> k < 8" for k by (auto simp: bit_simps dest: bit_imp_le_length)
  moreover have "bit (le_word ps) k \<Longrightarrow> k < 8 * length ps" for k
    using Cons by (metis Suc_leD bit_take_bit_iff length_Cons)
  ultimately show ?case
    by (intro bit_word_eqI) (fastforce simp: bit_simps)
qed simp

lemma crc_ref_le_word:
  "length xs \<le> 4 \<Longrightarrow> crc_ref c xs = (crc_bit ^^ (8 * length xs)) (c XOR le_word xs)"
proof (induction xs arbitrary: c)
  case (Cons p ps)
  have small: "take_bit (8 * length ps) (le_word ps) = le_word ps"
    using Cons.prems by (intro le_word_small) simp
  have "crc_byte (push_bit 8 (le_word ps)) = le_word ps"
    unfolding crc_byte_def using Cons.prems by (intro crc_pow_push [OF _ small]) simp
  then have "crc_byte (c XOR ucast p) XOR le_word ps =
             crc_byte (c XOR ucast p XOR push_bit 8 (le_word ps))"
    by (simp add: crc_byte_xor xor.assoc)
  with Cons show ?case
    by (simp add: crc_byte_def funpow_add [symmetric, THEN fun_cong, simplified] add.commute ac_simps)
qed simp

lemma le_word_inj:
  "length xs = length ys \<Longrightarrow> length xs \<le> 4 \<Longrightarrow> le_word xs = le_word ys \<Longrightarrow> xs = ys"
proof (induction xs ys rule: list_induct2)
  case (Cons x xs y ys)
  have bits: "bit (le_word (p # ps)) k = (if k < 8 then bit p k else bit (le_word ps) (k - 8))"
    if "k < 32" for p ps k
    using that by (auto simp: bit_simps dest: bit_imp_le_length)
  have "x = y"
  proof (rule bit_word_eqI)
    fix k assume "k < LENGTH(8)"
    with bits [of k x xs] bits [of k y ys] Cons.prems show "bit x k = bit y k" by simp
  qed
  moreover have "le_word xs = le_word ys"
  proof (rule bit_word_eqI)
    fix k assume k: "k < LENGTH(32)"
    show "bit (le_word xs) k = bit (le_word ys) k"
    proof (cases "k < 24")
      case True
      with bits [of "k + 8" x xs] bits [of "k + 8" y ys] Cons.prems show ?thesis by simp
    next
      case False
      have "\<not> bit (le_word zs) k" if "length zs \<le> 3" for zs
      proof -
        have "\<not> bit (take_bit (8 * length zs) (le_word zs)) k"
          using that False by (simp add: bit_take_bit_iff)
        with le_word_small [of zs] that show ?thesis by simp
      qed
      with Cons show ?thesis by simp
    qed
  qed
  ultimately show ?case using Cons by simp
qed simp

lemma crc_burst:
  assumes "length xs = length ys" "length xs \<le> 4" "xs \<noteq> ys"
  shows "crc_ref c (pre @ xs @ post) \<noteq> crc_ref c (pre @ ys @ post)"
proof -
  have "le_word xs \<noteq> le_word ys" using le_word_inj assms by blast
  then have "crc_ref d xs \<noteq> crc_ref d ys" for d
    using assms(1,2) by (simp add: crc_ref_le_word crc_pow_inj xor_cancel)
  then show ?thesis by (simp add: crc_ref_append crc_ref_inj)
qed

lemma xor_ones_twice: "(x XOR 0xffffffff) XOR 0xffffffff = (x :: u32)"
  by (simp add: xor.assoc)

lemma iscsi_crc32_eq: "iscsi_crc32 buf = crc_ref 0xffffffff buf XOR 0xffffffff"
  by (simp add: iscsi_crc32_def crc_fold_ref)

section \<open>Properties\<close>

text \<open>
  C35: the table-driven loop computes the CRC-32C of the bit-serial definition (reflected
  polynomial 0x82F63B78, register preset to ones, result complemented) on every input; in
  particular all 256 constants of the table are right.
\<close>

theorem iscsi_crc32_reference:
  "iscsi_crc32 buf =
   foldl (\<lambda>c p. (crc_bit ^^ 8) (c XOR ucast p)) 0xffffffff buf XOR 0xffffffff"
  by (simp add: iscsi_crc32_eq crc_ref_def crc_byte_def)

text \<open>
  The check code of a buffer can be computed in pieces: extending the code of a first
  part by a second part is the code of the concatenation, so any split of a block gives
  the same code.
\<close>

theorem iscsi_crc32_incremental:
  "iscsi_crc32_ext ys (iscsi_crc32 xs) = iscsi_crc32 (xs @ ys) \<and>
   iscsi_crc32_ext (ys @ zs) crc = iscsi_crc32_ext zs (iscsi_crc32_ext ys crc)"
  by (simp add: iscsi_crc32_def iscsi_crc32_ext_def crc_fold_ref crc_ref_append xor_ones_twice)

text \<open>
  C36: any corruption confined to four consecutive bytes of a block, wherever it lies and
  whatever the block's size, changes the check code.
\<close>

theorem iscsi_crc32_detects:
  assumes "length xs = length ys" "length xs \<le> 4" "xs \<noteq> ys"
  shows "iscsi_crc32 (pre @ xs @ post) \<noteq> iscsi_crc32 (pre @ ys @ post)"
  using crc_burst [OF assms] by (simp add: iscsi_crc32_eq xor_cancel)

theorem iscsi_crc32_detects_witness:
  "length [1, 2 :: u8] = length [3, 4 :: u8] \<and>
   iscsi_crc32 ([7] @ [1, 2] @ [9, 9]) \<noteq> iscsi_crc32 ([7] @ [3, 4] @ [9, 9])"
  using iscsi_crc32_detects [of "[1, 2]" "[3, 4]" "[7]" "[9, 9]"] by simp

end
