(* ===== verification/H2_Check.thy ===== *)
theory H2_Check
  imports H2_Disk H2_Icrc
begin

unbundle bit_operations_syntax

text \<open>
  The check codes of a chain: \<open>hammer2_chain_setcheck\<close> and \<open>hammer2_chain_testcheck\<close> of
  \<^verbatim>\<open>hammer2_chain.c\<close>.  The message authentication code of the SHA192 method
  (\<open>HMAC_SHA256_Init\<close>, \<open>_Update\<close>, \<open>_Final\<close>) belongs to the kernel's crypto library and is
  a parameter: a function of the key and of the data.  What the code relies on is that a
  digest has 32 bytes.  The buffer holds at least \<open>chain->bytes\<close> bytes.
\<close>

type_synonym hmac_fn = "bytes \<Rightarrow> bytes \<Rightarrow> bytes"

abbreviation (input) HAMMER2_CHECK_NONE :: u8 where "HAMMER2_CHECK_NONE \<equiv> 0"
abbreviation (input) HAMMER2_CHECK_DISABLED :: u8 where "HAMMER2_CHECK_DISABLED \<equiv> 1"
abbreviation (input) HAMMER2_CHECK_ISCSI32 :: u8 where "HAMMER2_CHECK_ISCSI32 \<equiv> 2"
abbreviation (input) HAMMER2_CHECK_CRC64 :: u8 where "HAMMER2_CHECK_CRC64 \<equiv> 3"
abbreviation (input) HAMMER2_CHECK_SHA192 :: u8 where "HAMMER2_CHECK_SHA192 \<equiv> 4"
abbreviation (input) HAMMER2_CHECK_FREEMAP :: u8 where "HAMMER2_CHECK_FREEMAP \<equiv> 5"

definition HAMMER2_ENC_CHECK :: "u8 \<Rightarrow> u8" where
  "HAMMER2_ENC_CHECK n = push_bit 4 (n AND 15)"

definition HAMMER2_DEC_CHECK :: "u8 \<Rightarrow> u8" where
  "HAMMER2_DEC_CHECK n = drop_bit 4 n AND 15"

subsection \<open>The check union as bytes\<close>

definition check_buf :: "check_union \<Rightarrow> bytes" where
  "check_buf c = le_split 4 (ck_icrc32 c) @ le_split 4 (ck_bigmask c) @
                 le_split 8 (ck_avail c) @ le_split 8 (ck_unused c)"

definition check_of_buf :: "bytes \<Rightarrow> check_union" where
  "check_of_buf bs =
     \<lparr>ck_icrc32 = le_join (take 4 bs), ck_bigmask = le_join (take 4 (drop 4 bs)),
      ck_avail = le_join (take 8 (drop 8 bs)), ck_unused = le_join (take 8 (drop 16 bs))\<rparr>"

text \<open>\<open>check.crc64.value\<close> overlays the first two 32-bit members.\<close>

definition crc64_value :: "check_union \<Rightarrow> u64" where
  "crc64_value c = le_join (take 8 (check_buf c))"

definition set_crc64_value :: "u64 \<Rightarrow> check_union \<Rightarrow> check_union" where
  "set_crc64_value v c = check_of_buf (le_split 8 v @ drop 8 (check_buf c))"

text \<open>
  The 24 bytes kept of the digest: \<open>u.digest64[2] ^= u.digest64[3]\<close>, then the first 24.
\<close>

definition sha192_digest :: "hmac_fn \<Rightarrow> bytes \<Rightarrow> bytes" where
  "sha192_digest hmac bdata =
     (let digest = hmac (replicate 16 0x0b) bdata
      in take 16 digest @ map2 (XOR) (take 8 (drop 16 digest)) (take 8 (drop 24 digest)))"

definition hammer2_chain_setcheck :: "hmac_fn \<Rightarrow> hammer2_chain \<Rightarrow> bytes \<Rightarrow> hammer2_chain" where
  "hammer2_chain_setcheck hmac chain bdata =
     (let data = take (ch_bytes chain) bdata;
          bref = (ch_bref chain)\<lparr>br_flags := br_flags (ch_bref chain) AND NOT HAMMER2_BREF_FLAG_ZERO\<rparr>;
          m = HAMMER2_DEC_CHECK (br_methods bref);
          check = br_check bref;
          check' =
            (if m = HAMMER2_CHECK_NONE then check
             else if m = HAMMER2_CHECK_DISABLED then check
             else if m = HAMMER2_CHECK_ISCSI32 then check\<lparr>ck_icrc32 := iscsi_crc32 data\<rparr>
             else if m = HAMMER2_CHECK_CRC64 then set_crc64_value 0 check
             else if m = HAMMER2_CHECK_SHA192 then check_of_buf (sha192_digest hmac data)
             else if m = HAMMER2_CHECK_FREEMAP then check\<lparr>ck_icrc32 := iscsi_crc32 data\<rparr>
             else check)
      in chain\<lparr>ch_bref := bref\<lparr>br_check := check'\<rparr>\<rparr>)"

definition hammer2_chain_testcheck :: "hmac_fn \<Rightarrow> hammer2_chain \<Rightarrow> bytes \<Rightarrow> bool" where
  "hammer2_chain_testcheck hmac chain bdata =
     (let data = take (ch_bytes chain) bdata;
          bref = ch_bref chain;
          m = HAMMER2_DEC_CHECK (br_methods bref);
          check = br_check bref
      in if br_flags bref AND HAMMER2_BREF_FLAG_ZERO \<noteq> 0 then True
         else if m = HAMMER2_CHECK_NONE then True
         else if m = HAMMER2_CHECK_DISABLED then True
         else if m = HAMMER2_CHECK_ISCSI32 then ck_icrc32 check = iscsi_crc32 data
         else if m = HAMMER2_CHECK_CRC64 then crc64_value check = 0
         else if m = HAMMER2_CHECK_SHA192 then sha192_digest hmac data = check_buf check
         else if m = HAMMER2_CHECK_FREEMAP then ck_icrc32 check = iscsi_crc32 data
         else True)"

subsection \<open>Lemmas\<close>

lemma length_check_buf [simp]: "length (check_buf c) = 24"
  by (simp add: check_buf_def)

lemma check_buf_of_buf:
  assumes "length bs = 24"
  shows "check_buf (check_of_buf bs) = bs"
proof -
  have "le_split 4 (le_join (take 4 bs) :: u32) = take 4 bs"
    "le_split 4 (le_join (take 4 (drop 4 bs)) :: u32) = take 4 (drop 4 bs)"
    "le_split 8 (le_join (take 8 (drop 8 bs)) :: u64) = take 8 (drop 8 bs)"
    "le_split 8 (le_join (take 8 (drop 16 bs)) :: u64) = take 8 (drop 16 bs)"
    using assms le_split_join [where 'a = 32, of "take 4 bs"]
      le_split_join [where 'a = 32, of "take 4 (drop 4 bs)"]
      le_split_join [where 'a = 64, of "take 8 (drop 8 bs)"]
      le_split_join [where 'a = 64, of "take 8 (drop 16 bs)"] by simp_all
  then have "check_buf (check_of_buf bs) =
      take 4 bs @ take 4 (drop 4 bs) @ take 8 (drop 8 bs) @ take 8 (drop 16 bs)"
    by (simp add: check_buf_def check_of_buf_def)
  also have "take 8 (drop 16 bs) = drop 16 bs" using assms by simp
  also have "take 8 (drop 8 bs) @ drop 16 bs = drop 8 bs"
    using append_take_drop_id [of 8 "drop 8 bs"] by simp
  also have "take 4 (drop 4 bs) @ drop 8 bs = drop 4 bs"
    using append_take_drop_id [of 4 "drop 4 bs"] by simp
  also have "take 4 bs @ drop 4 bs = bs" by simp
  finally show ?thesis .
qed

lemma check_of_check_buf: "check_of_buf (check_buf c) = c"
  by (simp add: check_buf_def check_of_buf_def le_join_split)

lemma crc64_value_set: "crc64_value (set_crc64_value v c) = v"
  by (simp add: crc64_value_def set_crc64_value_def check_buf_of_buf le_join_split)

lemma length_sha192:
  "length (hmac (replicate 16 0x0b) d) = 32 \<Longrightarrow> length (sha192_digest hmac d) = 24"
  by (simp add: sha192_digest_def Let_def)

lemma zero_flag_cleared: "((x :: u8) AND - 3) AND 2 = 0"
  by (simp add: and.assoc)

section \<open>Properties\<close>

definition ex_checked :: "u8 \<Rightarrow> hammer2_chain" where
  "ex_checked m =
     \<lparr>ch_bref = blockref_zero\<lparr>br_type := HAMMER2_BREF_TYPE_DATA, br_methods := HAMMER2_ENC_CHECK m,
                             br_flags := HAMMER2_BREF_FLAG_ZERO\<rparr>,
      ch_flags = 0, ch_bytes = 4, core_live_zero = 0, core_flags = 0, core_live_count = 0,
      core_chain_count = 0, core_generation = 0\<rparr>"

lemma setcheck_tests:
  assumes hmac: "\<And>k d. length (hmac k d) = 32"
  shows "hammer2_chain_testcheck hmac (hammer2_chain_setcheck hmac chain bdata) bdata"
  using check_buf_of_buf [OF length_sha192, of hmac "take (ch_bytes chain) bdata"] hmac
  by (simp add: hammer2_chain_testcheck_def hammer2_chain_setcheck_def Let_def crc64_value_set
      zero_flag_cleared)

text \<open>
  C37: a chain whose check code was just set passes the test on the same data, for every
  check method (known or not) and whatever the block was marked as before.
\<close>

theorem testcheck_setcheck:
  assumes hmac: "\<And>k d. length (hmac k d) = 32"
  shows "hammer2_chain_testcheck hmac (hammer2_chain_setcheck hmac chain bdata) bdata"
  by (rule setcheck_tests[OF hmac])

theorem testcheck_setcheck_witness:
  "hammer2_chain_testcheck (\<lambda>k d. replicate 32 7)
     (hammer2_chain_setcheck (\<lambda>k d. replicate 32 7) (ex_checked HAMMER2_CHECK_SHA192) [1, 2, 3, 4])
     [1, 2, 3, 4]"
  by (rule testcheck_setcheck) simp

text \<open>
  C38: with the two CRC methods (ISCSI32 for data and directories, FREEMAP for freemap
  blocks) a block read back with any corruption confined to four consecutive bytes fails
  the test.
\<close>

theorem testcheck_detects:
  assumes "HAMMER2_DEC_CHECK (br_methods (ch_bref chain)) \<in> {HAMMER2_CHECK_ISCSI32, HAMMER2_CHECK_FREEMAP}"
    and "ch_bytes chain = length (pre @ xs @ post)"
    and "length xs = length ys" "length xs \<le> 4" "xs \<noteq> ys"
  shows "\<not> hammer2_chain_testcheck hmac (hammer2_chain_setcheck hmac chain (pre @ xs @ post))
             (pre @ ys @ post)"
proof -
  have "take (ch_bytes chain) (pre @ ys @ post) = pre @ ys @ post" using assms(2,3) by simp
  then show ?thesis
    using assms(1,2) crc_burst [OF assms(3-5), of _ pre post]
    by (auto simp: hammer2_chain_testcheck_def hammer2_chain_setcheck_def Let_def
        zero_flag_cleared iscsi_crc32_eq xor_cancel)
qed

theorem testcheck_detects_witness:
  "\<not> hammer2_chain_testcheck (\<lambda>k d. [])
      (hammer2_chain_setcheck (\<lambda>k d. []) (ex_checked HAMMER2_CHECK_ISCSI32) ([1] @ [2, 3] @ [4]))
      ([1] @ [2, 5] @ [4])"
  by (rule testcheck_detects) (simp_all add: ex_checked_def HAMMER2_DEC_CHECK_def HAMMER2_ENC_CHECK_def)

text \<open>
  The CRC64 method is not implemented: it stores zero and only tests for zero, so a
  block protected by it passes the test with any contents.  The other fields of the
  freemap hints survive the CRC methods: only \<open>icrc32\<close> is written.
\<close>

theorem setcheck_crc64_accepts_anything:
  "(HAMMER2_DEC_CHECK (br_methods (ch_bref chain)) = HAMMER2_CHECK_CRC64 \<longrightarrow>
      hammer2_chain_testcheck hmac (hammer2_chain_setcheck hmac chain bdata) other) \<and>
   (HAMMER2_DEC_CHECK (br_methods (ch_bref chain)) \<in> {HAMMER2_CHECK_ISCSI32, HAMMER2_CHECK_FREEMAP} \<longrightarrow>
      br_check (ch_bref (hammer2_chain_setcheck hmac chain bdata)) =
        (br_check (ch_bref chain))\<lparr>ck_icrc32 := iscsi_crc32 (take (ch_bytes chain) bdata)\<rparr>)"
  by (auto simp: hammer2_chain_testcheck_def hammer2_chain_setcheck_def Let_def crc64_value_set)

end
