(* ===== verification/H2_Subr.thy ===== *)
theory H2_Subr
  imports H2_Disk H2_Icrc
begin

unbundle bit_operations_syntax

text \<open>
  The support routines of \<^verbatim>\<open>hammer2_subr.c\<close>: object types, times, user ids, the
  directory hash, block sizes and radices; with the two device-block routines of
  \<^verbatim>\<open>hammer2.h\<close>.  The routines compiled out by \<^verbatim>\<open>#if 0\<close> are not modelled, and the mount
  locks belong to the lock component.
\<close>

section \<open>Object types\<close>

abbreviation (input) HAMMER2_OBJTYPE_UNKNOWN :: u8 where "HAMMER2_OBJTYPE_UNKNOWN \<equiv> 0"
abbreviation (input) HAMMER2_OBJTYPE_DIRECTORY :: u8 where "HAMMER2_OBJTYPE_DIRECTORY \<equiv> 1"
abbreviation (input) HAMMER2_OBJTYPE_REGFILE :: u8 where "HAMMER2_OBJTYPE_REGFILE \<equiv> 2"
abbreviation (input) HAMMER2_OBJTYPE_FIFO :: u8 where "HAMMER2_OBJTYPE_FIFO \<equiv> 4"
abbreviation (input) HAMMER2_OBJTYPE_CDEV :: u8 where "HAMMER2_OBJTYPE_CDEV \<equiv> 5"
abbreviation (input) HAMMER2_OBJTYPE_BDEV :: u8 where "HAMMER2_OBJTYPE_BDEV \<equiv> 6"
abbreviation (input) HAMMER2_OBJTYPE_SOFTLINK :: u8 where "HAMMER2_OBJTYPE_SOFTLINK \<equiv> 7"
abbreviation (input) HAMMER2_OBJTYPE_HARDLINK :: u8 where "HAMMER2_OBJTYPE_HARDLINK \<equiv> 8"
abbreviation (input) HAMMER2_OBJTYPE_SOCKET :: u8 where "HAMMER2_OBJTYPE_SOCKET \<equiv> 9"
abbreviation (input) HAMMER2_OBJTYPE_WHITEOUT :: u8 where "HAMMER2_OBJTYPE_WHITEOUT \<equiv> 10"

text \<open>The kernel's \<open>enum vtype\<close>; its values are 0 to 8 in this order.\<close>

datatype vtype = VNON | VREG | VDIR | VBLK | VCHR | VLNK | VSOCK | VFIFO | VBAD

fun vtype_int :: "vtype \<Rightarrow> int" where
  "vtype_int VNON = 0" | "vtype_int VREG = 1" | "vtype_int VDIR = 2" | "vtype_int VBLK = 3"
| "vtype_int VCHR = 4" | "vtype_int VLNK = 5" | "vtype_int VSOCK = 6" | "vtype_int VFIFO = 7"
| "vtype_int VBAD = 8"

abbreviation (input) DT_UNKNOWN :: int where "DT_UNKNOWN \<equiv> 0"

text \<open>The fields of \<open>hammer2_inode_data\<close> these routines read.\<close>

record inode_types =
  ip_type :: u8
  ip_target_type :: u8
  ip_size :: u64

definition hammer2_get_dtype :: "inode_types \<Rightarrow> int" where
  "hammer2_get_dtype ipdata =
     (let type = (if ip_type ipdata = HAMMER2_OBJTYPE_HARDLINK then ip_target_type ipdata
                  else ip_type ipdata)
      in if type = HAMMER2_OBJTYPE_UNKNOWN then DT_UNKNOWN
         else if type = HAMMER2_OBJTYPE_DIRECTORY then 4
         else if type = HAMMER2_OBJTYPE_REGFILE then 8
         else if type = HAMMER2_OBJTYPE_FIFO then 1
         else if type = HAMMER2_OBJTYPE_CDEV then 2
         else if type = HAMMER2_OBJTYPE_BDEV then 6
         else if type = HAMMER2_OBJTYPE_SOFTLINK then 10
         else if type = HAMMER2_OBJTYPE_HARDLINK then DT_UNKNOWN
         else if type = HAMMER2_OBJTYPE_SOCKET then 12
         else if type = HAMMER2_OBJTYPE_WHITEOUT then DT_UNKNOWN
         else DT_UNKNOWN)"

text \<open>The result is an \<open>int\<close>: the last two cases return a directory entry type.\<close>

definition hammer2_get_vtype :: "inode_types \<Rightarrow> int" where
  "hammer2_get_vtype ipdata =
     (let type = ip_type ipdata
      in if type = HAMMER2_OBJTYPE_UNKNOWN then vtype_int VBAD
         else if type = HAMMER2_OBJTYPE_DIRECTORY then vtype_int VDIR
         else if type = HAMMER2_OBJTYPE_REGFILE then vtype_int VREG
         else if type = HAMMER2_OBJTYPE_FIFO then vtype_int VFIFO
         else if type = HAMMER2_OBJTYPE_CDEV then vtype_int VCHR
         else if type = HAMMER2_OBJTYPE_BDEV then vtype_int VBLK
         else if type = HAMMER2_OBJTYPE_SOFTLINK then vtype_int VLNK
         else if type = HAMMER2_OBJTYPE_HARDLINK then vtype_int VBAD
         else if type = HAMMER2_OBJTYPE_SOCKET then vtype_int VSOCK
         else if type = HAMMER2_OBJTYPE_WHITEOUT then DT_UNKNOWN
         else DT_UNKNOWN)"

fun hammer2_get_obj_type :: "vtype \<Rightarrow> u8" where
  "hammer2_get_obj_type VDIR = HAMMER2_OBJTYPE_DIRECTORY"
| "hammer2_get_obj_type VREG = HAMMER2_OBJTYPE_REGFILE"
| "hammer2_get_obj_type VFIFO = HAMMER2_OBJTYPE_FIFO"
| "hammer2_get_obj_type VSOCK = HAMMER2_OBJTYPE_SOCKET"
| "hammer2_get_obj_type VCHR = HAMMER2_OBJTYPE_CDEV"
| "hammer2_get_obj_type VBLK = HAMMER2_OBJTYPE_BDEV"
| "hammer2_get_obj_type VLNK = HAMMER2_OBJTYPE_SOFTLINK"
| "hammer2_get_obj_type _ = HAMMER2_OBJTYPE_UNKNOWN"

section \<open>Times and user ids\<close>

record timespec =
  tv_sec :: int
  tv_nsec :: int

definition hammer2_time_to_timespec :: "u64 \<Rightarrow> timespec" where
  "hammer2_time_to_timespec xtime =
     \<lparr>tv_sec = sint (xtime div 1000000), tv_nsec = uint (xtime mod 1000000) * 1000\<rparr>"

text \<open>
  The division truncates towards zero; the first summand is converted to 32 bits, the
  second to 64, and the sum wraps at 64.
\<close>

definition hammer2_timespec_to_time :: "timespec \<Rightarrow> u64" where
  "hammer2_timespec_to_time ts =
     ucast (word_of_int (sgn (tv_nsec ts) * (\<bar>tv_nsec ts\<bar> div 1000)) :: u32) +
     word_of_int (tv_sec ts) * 1000000"

text \<open>\<open>getmicrotime\<close> is the kernel's clock: its reading is the argument.\<close>

definition hammer2_update_time :: "int \<Rightarrow> int \<Rightarrow> u64" where
  "hammer2_update_time sec usec = word_of_int sec * 1000000 + word_of_int usec"

record uuid =
  time_low :: u32
  time_mid :: u16
  time_hi_and_version :: u16
  clock_seq_hi_and_reserved :: u8
  clock_seq_low :: u8
  node :: bytes

definition hammer2_to_unix_xid :: "uuid \<Rightarrow> u32" where
  "hammer2_to_unix_xid u = le_join (take 4 (drop 2 (node u)))"

definition hammer2_guid_to_uuid :: "u32 \<Rightarrow> uuid" where
  "hammer2_guid_to_uuid guid =
     \<lparr>time_low = 0, time_mid = 0, time_hi_and_version = 0, clock_seq_hi_and_reserved = 0,
      clock_seq_low = 0, node = replicate 2 0 @ le_split 4 guid\<rparr>"

section \<open>The directory hash\<close>

definition is_sep :: "u8 \<Rightarrow> bool" where
  "is_sep c \<longleftrightarrow> c = 46 \<or> c = 45 \<or> c = 95 \<or> c = 126"

text \<open>\<open>if (i != j) crcx += hammer2_icrc32(aname + j, i - j)\<close>\<close>

definition add_field :: "bytes \<Rightarrow> nat \<Rightarrow> nat \<Rightarrow> u32 \<Rightarrow> u32" where
  "add_field aname i j crcx =
     (if i \<noteq> j then crcx + iscsi_crc32 (take (i - j) (drop j aname)) else crcx)"

text \<open>The loop over the name: index, start of the field, sum so far.\<close>

function dirhash_loop :: "bytes \<Rightarrow> nat \<Rightarrow> nat \<Rightarrow> u32 \<Rightarrow> nat \<times> nat \<times> u32" where
  "dirhash_loop aname i j crcx =
     (if i < length aname then
        (if is_sep (aname ! i)
         then dirhash_loop aname (Suc i) (i + 1) (add_field aname i j crcx)
         else dirhash_loop aname (Suc i) j crcx)
      else (i, j, crcx))"
  by pat_completeness auto
termination by (relation "measure (\<lambda>(aname, i, j, crcx). length aname - i)") auto

declare dirhash_loop.simps [simp del]

definition hammer2_dirhash :: "bytes \<Rightarrow> u64" where
  "hammer2_dirhash aname =
     (let (i, j, crcx0) = dirhash_loop aname 0 0 0;
          crcx1 = add_field aname i j crcx0;
          crcx2 = crcx1 OR 0x80000000;
          key0 = 0 OR push_bit 32 (ucast crcx2 :: u64);
          crcx3 = iscsi_crc32 aname;
          crcx4 = crcx3 XOR push_bit 16 crcx3;
          key1 = key0 OR ucast (crcx4 AND 0xFFFF0000)
      in key1 OR 0x8000)"

section \<open>Radices and block sizes\<close>

text \<open>
  The loop of \<open>hammer2_getradix\<close>: shifting a 64-bit one by 64 or more is undefined.
\<close>

function getradix_loop :: "u64 \<Rightarrow> nat \<Rightarrow> nat outcome" where
  "getradix_loop bytes radix =
     (if radix \<ge> 64 then Fault ''shift by 64''
      else if push_bit radix 1 < bytes then getradix_loop bytes (Suc radix)
      else Ok radix)"
  by pat_completeness auto
termination by (relation "measure (\<lambda>(bytes, radix). 64 - radix)") auto

declare getradix_loop.simps [simp del]

definition hammer2_getradix :: "u64 \<Rightarrow> nat outcome" where
  "hammer2_getradix bytes =
     getradix_loop bytes
       (if bytes = 65536 then HAMMER2_PBUFRADIX
        else if bytes \<ge> 16384 then HAMMER2_LBUFRADIX
        else if bytes \<ge> 1024 then HAMMER2_RADIX_MIN
        else 0)"

text \<open>
  \<open>hammer2_calc_logical\<close> as compiled: the base of the logical block, the rounded end of
  file and the block size; the first argument is \<open>ip->size\<close>.
\<close>

definition hammer2_calc_logical :: "u64 \<Rightarrow> u64 \<Rightarrow> u64 \<times> u64 \<times> nat" where
  "hammer2_calc_logical isize uoff =
     (uoff AND NOT HAMMER2_PBUFMASK64,
      (isize + HAMMER2_PBUFMASK64) AND NOT HAMMER2_PBUFMASK64,
      HAMMER2_PBUFSIZE)"

function physical_loop :: "nat \<Rightarrow> nat \<Rightarrow> nat" where
  "physical_loop eofbytes pblksize =
     (if pblksize \<ge> eofbytes \<and> pblksize \<ge> HAMMER2_ALLOC_MIN
      then physical_loop eofbytes (pblksize div 2) else pblksize)"
  by pat_completeness auto
termination by (relation "measure (\<lambda>(eofbytes, pblksize). pblksize)") auto

declare physical_loop.simps [simp del]

definition hammer2_calc_physical :: "inode_types \<Rightarrow> u64 \<Rightarrow> nat" where
  "hammer2_calc_physical ipdata lbase =
     (let (_, _, lblksize) = hammer2_calc_logical (ip_size ipdata) lbase
      in if lbase + of_nat lblksize \<le> ip_size ipdata then lblksize
         else if lbase \<ge> ip_size ipdata then 0
         else physical_loop (unat (ip_size ipdata - lbase)) lblksize * 2)"

definition hammer2_devblkradix :: "nat \<Rightarrow> nat" where
  "hammer2_devblkradix radix =
     (if radix \<le> HAMMER2_LBUFRADIX then HAMMER2_LBUFRADIX else HAMMER2_PBUFRADIX)"

definition hammer2_devblksize :: "u64 \<Rightarrow> nat outcome" where
  "hammer2_devblksize bytes =
     (if bytes \<le> 16384 then Ok HAMMER2_LBUFSIZE
      else kkassert (bytes \<le> 65536 \<and> (bytes XOR (bytes - 1)) = push_bit 1 bytes - 1) ''bytes''
             (Ok HAMMER2_PBUFSIZE))"

section \<open>Read counters\<close>

record iod_counters =
  hammer2_iod_file_read :: int
  hammer2_iod_meta_read :: int
  hammer2_iod_indr_read :: int
  hammer2_iod_fmap_read :: int
  hammer2_iod_volu_read :: int

definition hammer2_adjreadcounter :: "hammer2_blockref \<Rightarrow> nat \<Rightarrow> iod_counters \<Rightarrow> iod_counters" where
  "hammer2_adjreadcounter bref bytes s =
     (if br_type bref = HAMMER2_BREF_TYPE_DATA then
        s\<lparr>hammer2_iod_file_read := hammer2_iod_file_read s + int bytes\<rparr>
      else if br_type bref = HAMMER2_BREF_TYPE_INODE then
        s\<lparr>hammer2_iod_meta_read := hammer2_iod_meta_read s + int bytes\<rparr>
      else if br_type bref = HAMMER2_BREF_TYPE_INDIRECT then
        s\<lparr>hammer2_iod_indr_read := hammer2_iod_indr_read s + int bytes\<rparr>
      else if br_type bref = HAMMER2_BREF_TYPE_FREEMAP_NODE \<or> br_type bref = HAMMER2_BREF_TYPE_FREEMAP_LEAF then
        s\<lparr>hammer2_iod_fmap_read := hammer2_iod_fmap_read s + int bytes\<rparr>
      else s\<lparr>hammer2_iod_volu_read := hammer2_iod_volu_read s + int bytes\<rparr>)"

section \<open>Lemmas\<close>

subsection \<open>Radices\<close>

lemma getradix_loop_ok:
  assumes "unat bytes \<le> 2 ^ 63" "r \<le> 63" "\<And>m. m < r \<Longrightarrow> (2::nat) ^ m < unat bytes"
  shows "\<exists>n. getradix_loop bytes r = Ok n \<and> unat bytes \<le> 2 ^ n \<and> n \<le> 63 \<and>
             (\<forall>m<n. 2 ^ m < unat bytes)"
  using assms
proof (induction bytes r rule: getradix_loop.induct)
  case (1 bytes r)
  show ?case
  proof (cases "push_bit r 1 < bytes")
    case True
    then have lt: "(2::nat) ^ r < unat bytes"
      using 1(3) by (simp add: word_less_unat unat_pow2)
    have "r \<noteq> 63" using lt 1(2) by auto
    then have "\<exists>n. getradix_loop bytes (Suc r) = Ok n \<and> unat bytes \<le> 2 ^ n \<and> n \<le> 63 \<and>
             (\<forall>m<n. 2 ^ m < unat bytes)"
      using 1(1) True 1(2,3,4) lt by (auto simp: less_Suc_eq)
    with True 1(3) show ?thesis by (simp add: getradix_loop.simps [of bytes r])
  next
    case False
    then have "unat bytes \<le> 2 ^ r" using 1(3) by (simp add: word_less_unat unat_pow2)
    with False 1(3,4) show ?thesis by (simp add: getradix_loop.simps [of bytes r])
  qed
qed

lemma getradix_loop_fault:
  assumes "2 ^ 63 < unat bytes"
  shows "getradix_loop bytes r = Fault ''shift by 64''"
  using assms
proof (induction bytes r rule: getradix_loop.induct)
  case (1 bytes r)
  have "push_bit r 1 < bytes" if "r < 64"
  proof -
    have "(2::nat) ^ r \<le> 2 ^ 63" using that by (intro power_increasing) auto
    then show ?thesis using 1(2) that by (simp add: word_less_unat unat_pow2)
  qed
  with 1 show ?case by (simp add: getradix_loop.simps [of bytes r])
qed

lemma hammer2_getradix_ok:
  assumes "unat bytes \<le> 2 ^ 63"
  shows "\<exists>n. hammer2_getradix bytes = Ok n \<and> unat bytes \<le> 2 ^ n \<and> n \<le> 63 \<and>
             (\<forall>m<n. 2 ^ m < unat bytes)"
proof -
  have start: "(2::nat) ^ m < unat bytes" if "m < k" "2 ^ k \<le> unat bytes" for m k
    using that power_strict_increasing [of m k "2::nat"] by linarith
  have "(16384::nat) = 2 ^ 14" "(1024::nat) = 2 ^ 10" "(65536::nat) = 2 ^ 16" by simp_all
  then show ?thesis
    unfolding hammer2_getradix_def using assms start
    by (intro getradix_loop_ok) (auto simp: word_le_unat not_le split: if_splits)
qed

subsection \<open>Block sizes\<close>

lemma physical_loop_pow2:
  assumes "9 \<le> k" "0 < eof"
  shows "\<exists>m. 10 \<le> m \<and> m \<le> Suc k \<and> physical_loop eof (2 ^ k) * 2 = 2 ^ m \<and>
             (eof \<le> 2 ^ Suc k \<longrightarrow> eof \<le> 2 ^ m) \<and> (10 < m \<and> m \<le> k \<longrightarrow> 2 ^ (m - 1) < eof) \<and>
             (m = Suc k \<longrightarrow> k = 9 \<or> 2 ^ k < eof)"
  using assms(1)
proof (induction k rule: dec_induct)
  case base
  then show ?case by (intro exI [of _ 10]) (simp add: physical_loop.simps [of eof 512])
next
  case (step k)
  show ?case
  proof (cases "eof \<le> 2 ^ Suc k")
    case True
    have "(2::nat) ^ 10 \<le> 2 ^ Suc k" using step(1) by (intro power_increasing) auto
    then have "physical_loop eof (2 ^ Suc k) = physical_loop eof (2 ^ k)"
      using True by (simp add: physical_loop.simps [of eof "2 * 2 ^ k"])
    moreover obtain m where m: "10 \<le> m" "m \<le> Suc k" "physical_loop eof (2 ^ k) * 2 = 2 ^ m"
      "eof \<le> 2 ^ m" "10 < m \<and> m \<le> k \<longrightarrow> 2 ^ (m - 1) < eof" "m = Suc k \<longrightarrow> k = 9 \<or> 2 ^ k < eof"
      using step.IH True by auto
    moreover have "2 ^ (m - 1) < eof" if "10 < m"
    proof (cases "m = Suc k")
      case True
      with m(6) that show ?thesis by auto
    next
      case False
      with m(2,5) that show ?thesis by auto
    qed
    ultimately show ?thesis by (intro exI [of _ m]) auto
  next
    case False
    then have "physical_loop eof (2 ^ Suc k) = 2 ^ Suc k"
      by (simp add: physical_loop.simps [of eof "2 * 2 ^ k"])
    with False step(1) show ?thesis by (intro exI [of _ "Suc (Suc k)"]) auto
  qed
qed

lemma physical_loop_result:
  assumes "0 < eof" "eof < 65536"
  shows "\<exists>m. 10 \<le> m \<and> m \<le> 16 \<and> physical_loop eof 65536 * 2 = 2 ^ m \<and> eof \<le> 2 ^ m \<and>
             (10 < m \<longrightarrow> 2 ^ (m - 1) < eof)"
proof -
  have p: "physical_loop eof 65536 = physical_loop eof 32768"
    using assms by (simp add: physical_loop.simps [of eof 65536])
  obtain m where "10 \<le> m" "m \<le> 16" "physical_loop eof 32768 * 2 = 2 ^ m" "eof \<le> 2 ^ m"
    "10 < m \<and> m \<le> 15 \<longrightarrow> 2 ^ (m - 1) < eof" "m = 16 \<longrightarrow> 32768 < eof"
    using physical_loop_pow2 [of 15 eof] assms by auto
  then show ?thesis unfolding p
    by (intro exI [of _ m]) (cases "m = 16", auto)
qed

lemma calc_physical_eof:
  assumes "\<not> lbase + 65536 \<le> sz" "lbase < (sz :: u64)"
  shows "0 < unat (sz - lbase) \<and> unat (sz - lbase) < 65536"
proof -
  have d: "unat (sz - lbase) = unat sz - unat lbase"
    using assms(2) by (simp add: word_less_unat unat_minus_le)
  have lt: "unat lbase < unat sz" using assms(2) by (simp add: word_less_unat)
  have "unat sz < unat lbase + 65536"
  proof (rule ccontr)
    assume "\<not> ?thesis"
    then have "unat lbase + unat (65536 :: u64) < 2 ^ 64" using u64_bound [of sz] by simp
    then have "unat (lbase + 65536) = unat lbase + 65536" by (simp add: unat_plus_noverflow)
    with \<open>\<not> ?thesis\<close> assms(1) show False by (simp add: word_le_unat)
  qed
  with d lt show ?thesis by simp
qed

lemma devblksize_pow2:
  assumes "radix \<le> HAMMER2_RADIX_MAX"
  shows "hammer2_devblksize (push_bit radix 1) = Ok (2 ^ hammer2_devblkradix radix) \<and>
         radix \<le> hammer2_devblkradix radix"
proof -
  consider "radix \<le> 14" | "radix = 15" | "radix = 16" using assms by linarith
  then show ?thesis
  proof cases
    case 1
    then have "(2::nat) ^ radix \<le> 2 ^ 14" by (intro power_increasing) auto
    then have "push_bit radix (1::u64) \<le> 16384" using 1 by (simp add: word_le_unat unat_pow2)
    with 1 show ?thesis by (simp add: hammer2_devblksize_def hammer2_devblkradix_def)
  qed (simp_all add: hammer2_devblksize_def hammer2_devblkradix_def)
qed

subsection \<open>The directory hash\<close>

fun split_seps :: "bytes \<Rightarrow> bytes list" where
  "split_seps [] = [[]]"
| "split_seps (c # cs) =
     (if is_sep c then [] # split_seps cs
      else (case split_seps cs of f # fs \<Rightarrow> (c # f) # fs | [] \<Rightarrow> [[c]]))"

lemma split_seps_nonempty: "split_seps cs \<noteq> []"
  by (cases cs) (auto split: list.splits)

lemma split_seps_prefix:
  "(\<And>c. c \<in> set p \<Longrightarrow> \<not> is_sep c) \<Longrightarrow>
   split_seps (p @ cs) = (p @ hd (split_seps cs)) # tl (split_seps cs)"
  using split_seps_nonempty by (induction p) (auto split: list.splits)

lemma iscsi_crc32_Nil [simp]: "iscsi_crc32 [] = 0"
  by (simp add: iscsi_crc32_def)

lemma add_field_eq: "j \<le> i \<Longrightarrow> add_field a i j c = c + iscsi_crc32 (take (i - j) (drop j a))"
  by (auto simp: add_field_def)

lemma dirhash_loop_fields:
  assumes "j \<le> i" "i \<le> length a" "\<And>c. c \<in> set (take (i - j) (drop j a)) \<Longrightarrow> \<not> is_sep c"
    and "dirhash_loop a i j c = (i', j', c')"
  shows "add_field a i' j' c' = c + (\<Sum>f\<leftarrow>split_seps (drop j a). iscsi_crc32 f)"
  using assms
proof (induction a i j c rule: dirhash_loop.induct)
  case (1 a i j c)
  let ?p = "take (i - j) (drop j a)"
  have prefix: "split_seps (?p @ cs) = (?p @ hd (split_seps cs)) # tl (split_seps cs)" for cs
    using "1.prems"(3) by (intro split_seps_prefix)
  have split: "drop j a = ?p @ drop i a"
    using "1.prems"(1) append_take_drop_id [of "i - j" "drop j a"] by simp
  show ?case
  proof (cases "i < length a")
    case False
    then have "dirhash_loop a i j c = (i, j, c)" by (simp add: dirhash_loop.simps [of a i j c])
    with "1.prems" False have "drop i a = []" "i' = i" "j' = j" "c' = c" by auto
    moreover have "split_seps (drop j a) = [?p]"
      using prefix [of "drop i a"] split \<open>drop i a = []\<close> by simp
    ultimately show ?thesis using "1.prems"(1) by (simp add: add_field_eq)
  next
    case lt: True
    then have cons: "drop i a = a ! i # drop (Suc i) a" by (simp add: Cons_nth_drop_Suc)
    show ?thesis
    proof (cases "is_sep (a ! i)")
      case True
      then have "split_seps (drop j a) = ?p # split_seps (drop (Suc i) a)"
        using prefix [of "drop i a"] split cons by simp
      moreover have "add_field a i' j' c' =
          add_field a i j c + (\<Sum>f\<leftarrow>split_seps (drop (Suc i) a). iscsi_crc32 f)"
        using "1.IH"(1) [OF lt True] "1.prems"(4) lt True
        by (simp add: dirhash_loop.simps [of a i j c])
      ultimately show ?thesis using "1.prems"(1) by (simp add: add_field_eq)
    next
      case False
      have "take (Suc i - j) (drop j a) = ?p @ [a ! i]"
        using lt "1.prems"(1) by (simp add: Suc_diff_le take_Suc_conv_app_nth)
      then show ?thesis
        using "1.IH"(2) [OF lt False] "1.prems" lt False
        by (auto simp: dirhash_loop.simps [of a i j c])
    qed
  qed
qed

lemma dirhash_eq:
  "hammer2_dirhash name =
   (push_bit 32 (ucast ((\<Sum>f\<leftarrow>split_seps name. iscsi_crc32 f) OR 0x80000000 :: u32)) OR
    ucast ((iscsi_crc32 name XOR push_bit 16 (iscsi_crc32 name)) AND 0xFFFF0000)) OR 0x8000"
proof -
  obtain i j c where l: "dirhash_loop name 0 0 0 = (i, j, c)" by (cases "dirhash_loop name 0 0 0")
  from dirhash_loop_fields [OF _ _ _ l] have "add_field name i j c = (\<Sum>f\<leftarrow>split_seps name. iscsi_crc32 f)"
    by simp
  with l show ?thesis by (simp add: hammer2_dirhash_def Let_def)
qed

lemma dirhash_bits:
  "bit (hammer2_dirhash name) 63" "bit (hammer2_dirhash name) 15"
  "n < 15 \<Longrightarrow> \<not> bit (hammer2_dirhash name) n"
proof -
  have c: "bit (0x80000000 :: u32) 31" "bit (0x8000 :: u64) 15" "\<not> bit (0x8000 :: u64) 63" by simp_all
  have low: "\<not> bit (0xFFFF0000 :: u32) n" "\<not> bit (0x8000 :: u64) n" if "n < 15" for n
  proof -
    have "(0xFFFF0000 :: u32) = push_bit 16 0xFFFF" "(0x8000 :: u64) = push_bit 15 1" by simp_all
    then show "\<not> bit (0xFFFF0000 :: u32) n" "\<not> bit (0x8000 :: u64) n"
      using that by (simp_all only: bit_push_bit_iff) auto
  qed
  show "bit (hammer2_dirhash name) 63" "bit (hammer2_dirhash name) 15"
    unfolding dirhash_eq using c by (simp_all only: bit_or_iff bit_push_bit_iff bit_unsigned_iff) auto
  show "n < 15 \<Longrightarrow> \<not> bit (hammer2_dirhash name) n"
    unfolding dirhash_eq using low
    by (simp only: bit_or_iff bit_push_bit_iff bit_unsigned_iff bit_and_iff) auto
qed

lemma bit_imp_ge: "bit (w :: 'a::len word) n \<Longrightarrow> 2 ^ n \<le> unat w"
proof -
  assume "bit w n"
  then have "bit (unat w) n" by (simp add: bit_unsigned_iff)
  then show ?thesis by (metis bit_nat_iff div_less even_zero not_le bit_iff_odd)
qed

lemma ucast_word_of_int:
  assumes "0 \<le> r" "r < 2 ^ 32"
  shows "(ucast (word_of_int r :: u32) :: u64) = word_of_int r"
proof -
  have "uint (word_of_int r :: u32) = r" using assms by (simp add: uint_word_of_int)
  then show ?thesis by (metis of_int_uint)
qed

lemma time_split: "(xtime div 1000000) * 1000000 + xtime mod 1000000 = (xtime :: u64)"
  by (rule div_mult_mod_eq)

section \<open>Properties\<close>

text \<open>
  \<open>hammer2_getradix\<close> returns the least radix whose power of two holds the given
  number of bytes, for every size up to 2 to the 63; above it the shift in its loop
  reaches the width of \<open>size_t\<close>, which C leaves undefined.
\<close>

theorem getradix_least:
  "if unat bytes \<le> 2 ^ 63
   then \<exists>n. hammer2_getradix bytes = Ok n \<and> n = (LEAST m. unat bytes \<le> 2 ^ m) \<and> n \<le> 63
   else hammer2_getradix bytes = Fault ''shift by 64''"
proof (cases "unat bytes \<le> 2 ^ 63")
  case True
  then obtain n where n: "hammer2_getradix bytes = Ok n" "unat bytes \<le> 2 ^ n" "n \<le> 63"
    "\<And>m. m < n \<Longrightarrow> 2 ^ m < unat bytes"
    using hammer2_getradix_ok by blast
  have "(LEAST m. unat bytes \<le> 2 ^ m) = n"
    using n(2,4) by (intro Least_equality) (auto simp: not_less [symmetric])
  with True n show ?thesis by auto
next
  case False
  then show ?thesis by (simp add: hammer2_getradix_def getradix_loop_fault)
qed

text \<open>
  The physical size of the block at an offset: the full 64 KB when the file covers the
  block, 0 past the end of the file, and otherwise the smallest power of two of at least
  1 KB that holds the remaining bytes.  It is a valid allocation size and never more than
  the logical size.
\<close>

theorem calc_physical_correct:
  "let n = hammer2_calc_physical ip lbase; rest = unat (ip_size ip) - unat lbase
   in if lbase + 65536 \<le> ip_size ip then n = 65536
      else if ip_size ip \<le> lbase then n = 0
      else \<exists>m\<le>16. 10 \<le> m \<and> n = 2 ^ m \<and> rest \<le> n \<and> (n = 1024 \<or> n < 2 * rest)"
proof -
  consider "lbase + 65536 \<le> ip_size ip" | "\<not> lbase + 65536 \<le> ip_size ip" "ip_size ip \<le> lbase"
    | "\<not> lbase + 65536 \<le> ip_size ip" "lbase < ip_size ip"
    by fastforce
  then show ?thesis
  proof cases
    case 3
    let ?rest = "unat (ip_size ip) - unat lbase"
    have d: "unat (ip_size ip - lbase) = ?rest"
      using 3(2) by (simp add: word_less_unat unat_minus_le)
    obtain m where m: "10 \<le> m" "m \<le> 16" "physical_loop ?rest 65536 * 2 = 2 ^ m" "?rest \<le> 2 ^ m"
      "10 < m \<longrightarrow> 2 ^ (m - 1) < ?rest"
      using physical_loop_result calc_physical_eof [OF 3] unfolding d by blast
    have "hammer2_calc_physical ip lbase = 2 ^ m"
      using 3 d m(3) by (simp add: hammer2_calc_physical_def hammer2_calc_logical_def Let_def leD)
    moreover have "(2::nat) ^ m = 1024 \<or> 2 ^ m < 2 * ?rest"
    proof (cases "m = 10")
      case False
      then have "(2::nat) ^ m = 2 * 2 ^ (m - 1)" using m(1) by (cases m) auto
      with False m show ?thesis by auto
    qed auto
    ultimately show ?thesis using 3 m by (auto simp: Let_def not_le)
  qed (auto simp: hammer2_calc_physical_def hammer2_calc_logical_def Let_def)
qed

text \<open>
  C40: the directory hash is the sum of the CRCs of the fields of the name between the
  separators (dot, dash, underscore, tilde) in its upper 32 bits and a folded CRC of the
  whole name in bits 16 to 31; bit 63 and bit 15 are always set and the low 15 bits are
  always clear, so that no name collides with a hidden hardlink (bit 63 clear) and the key
  without bit 63 stays above the artificial entries.
\<close>

theorem dirhash_correct:
  "hammer2_dirhash name =
     (push_bit 32 (ucast ((\<Sum>f\<leftarrow>split_seps name. iscsi_crc32 f) OR 0x80000000)) OR
      ucast ((iscsi_crc32 name XOR push_bit 16 (iscsi_crc32 name)) AND 0xFFFF0000)) OR 0x8000 \<and>
   unat (hammer2_dirhash name) \<ge> 2 ^ 63 \<and>
   unat (hammer2_dirhash name AND mask 63) \<ge> 0x8000 \<and>
   hammer2_dirhash name AND mask 15 = 0"
proof -
  have "bit (hammer2_dirhash name AND mask 63) 15"
    using dirhash_bits(2) by (simp add: bit_and_iff bit_mask_iff)
  then have "2 ^ 15 \<le> unat (hammer2_dirhash name AND mask 63)" by (rule bit_imp_ge)
  moreover have "hammer2_dirhash name AND mask 15 = 0"
    by (rule bit_word_eqI) (use dirhash_bits(3) in \<open>auto simp: bit_and_iff bit_mask_iff\<close>)
  ultimately show ?thesis using dirhash_eq bit_imp_ge [OF dirhash_bits(1)] by simp
qed

text \<open>
  Conversions.  A 64-bit time survives the way to a timespec and back, a user or group
  id survives the way into a uuid and back, and every object type the file system can
  create is mapped to its vnode type by \<open>hammer2_get_vtype\<close>.
\<close>

theorem conversions_roundtrip:
  "hammer2_timespec_to_time (hammer2_time_to_timespec xtime) = xtime \<and>
   hammer2_to_unix_xid (hammer2_guid_to_uuid guid) = guid \<and>
   (vt \<in> {VDIR, VREG, VFIFO, VSOCK, VCHR, VBLK, VLNK} \<longrightarrow>
    hammer2_get_vtype (ip\<lparr>ip_type := hammer2_get_obj_type vt\<rparr>) = vtype_int vt)"
proof -
  let ?r = "uint (xtime mod 1000000)"
  have r: "0 \<le> ?r" "?r < 1000000" by (simp_all add: uint_mod_distrib)
  have nsec: "sgn (?r * 1000) * (\<bar>?r * 1000\<bar> div 1000) = ?r"
  proof (cases "?r = 0")
    case False
    with r(1) have "0 < ?r" by linarith
    then show ?thesis by (simp add: sgn_if)
  qed simp
  have "(ucast (word_of_int ?r :: u32) :: u64) = word_of_int ?r"
    using r by (intro ucast_word_of_int) auto
  then have "hammer2_timespec_to_time (hammer2_time_to_timespec xtime) =
      xtime mod 1000000 + (xtime div 1000000) * 1000000"
    by (simp only: hammer2_timespec_to_time_def hammer2_time_to_timespec_def timespec.simps nsec) simp
  then have "hammer2_timespec_to_time (hammer2_time_to_timespec xtime) = xtime"
    by (simp only: add.commute [of "xtime mod 1000000"] time_split)
  moreover have "hammer2_to_unix_xid (hammer2_guid_to_uuid guid) = guid"
    by (simp add: hammer2_to_unix_xid_def hammer2_guid_to_uuid_def le_join_split)
  ultimately show ?thesis by (auto simp: hammer2_get_vtype_def)
qed

theorem conversions_roundtrip_witness:
  "hammer2_get_vtype \<lparr>ip_type = 7, ip_target_type = 0, ip_size = 0\<rparr> = vtype_int VLNK"
  using conversions_roundtrip [of 0 0 VLNK "\<lparr>ip_type = 0, ip_target_type = 0, ip_size = 0\<rparr>"] by simp

text \<open>
  The device block of a radix and the device block of a size agree: a block of
  \<open>1 << radix\<close> bytes, up to the 64 KB maximum, is served by a device buffer of
  \<open>1 << hammer2_devblkradix(radix)\<close> bytes without failing the assertion, and that buffer
  is at least as large as the block.
\<close>

theorem devblk_agree:
  assumes "radix \<le> HAMMER2_RADIX_MAX"
  shows "hammer2_devblksize (push_bit radix 1) = Ok (2 ^ hammer2_devblkradix radix) \<and>
         radix \<le> hammer2_devblkradix radix"
  by (rule devblksize_pow2 [OF assms])

theorem devblk_agree_witness:
  "(15::nat) \<le> 16 \<and> hammer2_devblksize (push_bit 15 1) = Ok (2 ^ hammer2_devblkradix 15)"
  using devblk_agree [of 15] by simp

end
