(* ===== verification/H2_Bmap.thy ===== *)
theory H2_Bmap
  imports H2_Subr
begin

unbundle bit_operations_syntax

text \<open>
  One entry of a freemap leaf, which manages 2 MB of storage, and its allocator
  \<open>hammer2_bmap_alloc\<close> of \<^verbatim>\<open>hammer2_freemap.c\<close>.

  The \<open>bitmap\<close> has two bits per 16 KB chunk (eight 32-bit words of sixteen chunks); the
  byte offset \<open>linear\<close> sub-allocates the remainder of a chunk already marked.  The
  proofs keep the set of allocated bytes as a ghost value and show that no allocation
  ever returns a byte of it.
\<close>

record hammer2_bmap_data =
  bm_linear :: int
  bm_class :: u16
  bm_avail :: u32
  bm_bitmap :: "u32 list"

text \<open>
  The fields of the mount the freemap code uses: the volume header's sizes, whether the
  volume header was marked modified, the search heuristics, and the requests issued to
  \<open>hammer2_io_newq\<close> (device offset with its radix, and size), newest first.
\<close>

record hammer2_mount =
  volu_size :: u64
  allocator_beg :: u64
  allocator_free :: u64
  vchain_modified :: bool
  heur_freemap :: "u64 list"
  io_newq_log :: "(u64 \<times> nat) list"

definition hammer2_voldata_modify :: "hammer2_mount \<Rightarrow> hammer2_mount" where
  "hammer2_voldata_modify hmp =
     (if \<not> vchain_modified hmp then hmp\<lparr>vchain_modified := True\<rparr> else hmp)"

section \<open>The allocator\<close>

definition bmap_radix :: "nat \<Rightarrow> nat" where
  "bmap_radix radix =
     (if radix \<le> HAMMER2_FREEMAP_BLOCK_RADIX then 2
      else 2 * 2 ^ (radix - HAMMER2_FREEMAP_BLOCK_RADIX))"

definition bmap_mask :: "nat \<Rightarrow> u32" where
  "bmap_mask bmradix = (if bmradix = 32 then 0xFFFFFFFF else push_bit bmradix 1 - 1)"

text \<open>The inner loop over \<open>j\<close>; \<open>bmradix\<close> is at least 2 in every call.\<close>

function bmap_scan_word :: "u32 \<Rightarrow> nat \<Rightarrow> nat \<Rightarrow> u32 \<Rightarrow> (nat \<times> u32) option" where
  "bmap_scan_word w bmradix j bmmask =
     (if j < 32 \<and> 0 < bmradix then
        (if w AND bmmask = 0 then Some (j, bmmask)
         else bmap_scan_word w bmradix (j + bmradix) (push_bit bmradix bmmask))
      else None)"
  by pat_completeness auto
termination by (relation "measure (\<lambda>(w, bmradix, j, bmmask). 32 - j)") auto

declare bmap_scan_word.simps [simp del]

text \<open>The outer loop over \<open>i\<close>.\<close>

fun bmap_scan :: "u32 list \<Rightarrow> nat \<Rightarrow> nat \<Rightarrow> (nat \<times> nat \<times> u32) option" where
  "bmap_scan [] bmradix i = None"
| "bmap_scan (w # ws) bmradix i =
     (case bmap_scan_word w bmradix 0 (bmap_mask bmradix) of
        Some (j, bmmask) \<Rightarrow> Some (i, j, bmmask)
      | None \<Rightarrow> bmap_scan ws bmradix (Suc i))"

text \<open>
  The loop \<open>while ((pbmmask & bmmask) == 0) pbmmask <<= pbmradix\<close>.  The mask of a 32-bit
  word has no bits left after 32 shifts, so \<open>None\<close> is the loop that never ends.
\<close>

fun newq_mask :: "nat \<Rightarrow> u32 \<Rightarrow> nat \<Rightarrow> u32 \<Rightarrow> u32 option" where
  "newq_mask 0 pbmmask pbmradix bmmask = None"
| "newq_mask (Suc fuel) pbmmask pbmradix bmmask =
     (if pbmmask AND bmmask = 0
      then newq_mask fuel (push_bit pbmradix pbmmask) pbmradix bmmask
      else Some pbmmask)"

text \<open>The buffer cache optimisation: issue \<open>hammer2_io_newq\<close> for an untouched device block.\<close>

definition bmap_newq ::
  "hammer2_mount \<Rightarrow> u32 \<Rightarrow> u32 \<Rightarrow> nat \<Rightarrow> nat \<Rightarrow> u64 \<Rightarrow> hammer2_mount outcome" where
  "bmap_newq hmp word bmmask radix offset base =
     (if word AND bmmask = 0 then
        obind (hammer2_devblksize (push_bit radix 1)) (\<lambda>psize.
          if psize \<noteq> 2 ^ radix then
            (let pmask = of_nat psize - 1 :: u64;
                 pbmradix = 2 * 2 ^ (hammer2_devblkradix radix - HAMMER2_FREEMAP_BLOCK_RADIX)
             in obind (hammer2_getradix (of_nat psize)) (\<lambda>pradix.
                  (case newq_mask 33 (bmap_mask pbmradix) pbmradix bmmask of
                     None \<Rightarrow> Fault ''endless loop''
                   | Some pbmmask \<Rightarrow>
                       if word AND pbmmask = 0 then
                         Ok (hmp\<lparr>io_newq_log :=
                               ((base + (of_nat offset AND NOT pmask)) OR of_nat pradix, psize)
                               # io_newq_log hmp\<rparr>)
                       else Ok hmp)))
          else Ok hmp)
      else Ok hmp)"

text \<open>
  The first half of \<open>hammer2_bmap_alloc\<close>: the choice of the offset, from the linear
  iterator or from the bitmap.  The value is the offset, the word index, the mask and
  the new \<open>linear\<close>; \<open>None\<close> is \<open>ENOSPC\<close>.
\<close>

definition bmap_choose :: "hammer2_bmap_data \<Rightarrow> nat \<Rightarrow> (nat \<times> nat \<times> u32 \<times> int) option outcome" where
  "bmap_choose bmap radix =
     (let sz = (2::nat) ^ radix;
          bmradix = bmap_radix radix;
          linear = bm_linear bmap
      in if (linear AND 16383) + int sz \<le> 16384 \<and> linear AND 16383 \<noteq> 0 \<and> linear < 2097152 then
           kkassert (linear \<ge> 0 \<and> linear + int sz \<le> 2097152 \<and> linear AND 1023 = 0) ''linear''
             (let offset = nat linear;
                  i = offset div 262144;
                  j = (offset div 8192) AND 30
              in Ok (Some (offset, i, push_bit j (bmap_mask bmradix), int offset + int sz)))
         else
           (case bmap_scan (bm_bitmap bmap) bmradix 0 of
              None \<Rightarrow> Ok None
            | Some (i, j, bmmask) \<Rightarrow>
                (let offset = i * 262144 + j * 8192
                 in Ok (Some (offset, i, bmmask,
                       if sz AND 16383 \<noteq> 0 then int offset + int sz else linear)))))"

definition hammer2_bmap_alloc ::
  "hammer2_mount \<Rightarrow> hammer2_bmap_data \<Rightarrow> u16 \<Rightarrow> nat \<Rightarrow> u64
   \<Rightarrow> (errno \<times> hammer2_mount \<times> hammer2_bmap_data \<times> u64) outcome" where
  "hammer2_bmap_alloc hmp bmap cls radix base =
     obind (bmap_choose bmap radix) (\<lambda>choice.
       (case choice of
          None \<Rightarrow> Ok (ENOSPC, hmp, bmap, base)
        | Some (offset, i, bmmask, linear') \<Rightarrow>
            kkassert (i < 8) ''i >= 0 && i < 8''
              (obind (bmap_newq hmp (bm_bitmap bmap ! i) bmmask radix offset base) (\<lambda>hmp'.
                 (let bmap' = bmap\<lparr>bm_linear := linear',
                          bm_bitmap := (bm_bitmap bmap)[i := bm_bitmap bmap ! i OR bmmask],
                          bm_class := cls,
                          bm_avail := bm_avail bmap - push_bit radix 1\<rparr>;
                      hmp'' = hammer2_voldata_modify hmp'
                  in Ok (E_OK, hmp''\<lparr>allocator_free := allocator_free hmp'' - push_bit radix 1\<rparr>,
                         bmap', base + of_nat offset))))))"

section \<open>Specification\<close>

text \<open>Chunk \<open>c\<close> (16 KB, 0 to 127) is marked when a bit of its pair is set.\<close>

definition chunk_marked :: "u32 list \<Rightarrow> nat \<Rightarrow> bool" where
  "chunk_marked bitmap c \<longleftrightarrow>
     bit (bitmap ! (c div 16)) (2 * (c mod 16)) \<or> bit (bitmap ! (c div 16)) (2 * (c mod 16) + 1)"

text \<open>
  The invariant of an entry for the set of bytes handed out: every one lies in a marked
  chunk; when the linear iterator is inside a chunk, that chunk is marked and nothing at
  or above the iterator is handed out of it; \<open>avail\<close> counts the remaining bytes.
\<close>

definition bmap_inv :: "hammer2_bmap_data \<Rightarrow> nat set \<Rightarrow> bool" where
  "bmap_inv bmap used \<longleftrightarrow>
     length (bm_bitmap bmap) = 8 \<and> used \<subseteq> {..<HAMMER2_SEGSIZE} \<and>
     0 \<le> bm_linear bmap \<and> bm_linear bmap \<le> 2097152 \<and> 1024 dvd bm_linear bmap \<and>
     (\<forall>x\<in>used. chunk_marked (bm_bitmap bmap) (x div 16384)) \<and>
     (bm_linear bmap mod 16384 \<noteq> 0 \<longrightarrow>
        chunk_marked (bm_bitmap bmap) (nat (bm_linear bmap) div 16384) \<and>
        (\<forall>x\<in>used. x div 16384 = nat (bm_linear bmap) div 16384 \<longrightarrow> x < nat (bm_linear bmap))) \<and>
     unat (bm_avail bmap) = HAMMER2_SEGSIZE - card used"

text \<open>The bytes of an allocation.\<close>

definition extent :: "nat \<Rightarrow> nat \<Rightarrow> nat set" where
  "extent off radix = {off..<off + 2 ^ radix}"

definition chunks :: "nat \<Rightarrow> nat" where
  "chunks radix = (if radix \<le> 14 then 1 else 2 ^ (radix - 14))"

section \<open>Lemmas\<close>

subsection \<open>Masks\<close>

lemma bmap_mask_eq: "b < 32 \<Longrightarrow> bmap_mask b = mask b"
  by (simp add: bmap_mask_def mask_eq_exp_minus_1)

lemma bmap_radix_eq: "bmap_radix radix = 2 * chunks radix"
  by (simp add: bmap_radix_def chunks_def)

lemma chunks_cases:
  assumes "radix \<le> 16"
  shows "chunks radix = 1 \<and> radix \<le> 14 \<or> chunks radix = 2 \<and> radix = 15 \<or>
         chunks radix = 4 \<and> radix = 16"
proof -
  consider "radix \<le> 14" | "radix = 15" | "radix = 16" using assms by linarith
  then show ?thesis by cases (auto simp: chunks_def)
qed

lemma and_shifted_mask_0:
  "(w :: u32) AND push_bit j (mask b) = 0 \<longleftrightarrow> (\<forall>n. j \<le> n \<and> n < j + b \<longrightarrow> \<not> bit w n)"
proof
  assume z: "w AND push_bit j (mask b) = 0"
  show "\<forall>n. j \<le> n \<and> n < j + b \<longrightarrow> \<not> bit w n"
  proof (intro allI impI notI)
    fix n assume n: "j \<le> n \<and> n < j + b" "bit w n"
    then have "bit (w AND push_bit j (mask b)) n"
      by (auto simp: bit_simps dest: bit_imp_le_length)
    with z show False by simp
  qed
next
  assume "\<forall>n. j \<le> n \<and> n < j + b \<longrightarrow> \<not> bit w n"
  then show "w AND push_bit j (mask b) = 0" by (intro bit_word_eqI) (auto simp: bit_simps)
qed

lemma nat_and_30: "(x :: nat) AND 30 = 2 * ((x div 2) mod 16)"
proof -
  have b30: "bit (30::nat) n \<longleftrightarrow> 1 \<le> n \<and> n < 5" for n
  proof -
    have "(30::nat) = push_bit 1 (mask 4)" by (simp add: mask_numeral)
    then show ?thesis by (simp only: bit_push_bit_iff bit_mask_iff) auto
  qed
  have "x AND 30 = push_bit 1 (take_bit 4 (drop_bit 1 x))"
  proof (rule bit_eqI)
    fix n
    show "bit (x AND 30) n = bit (push_bit 1 (take_bit 4 (drop_bit 1 x))) n"
      by (cases n) (auto simp only: bit_and_iff b30 bit_push_bit_iff bit_take_bit_iff bit_drop_bit_eq, auto)
  qed
  then show ?thesis by (simp add: take_bit_eq_mod push_bit_eq_mult drop_bit_eq_div)
qed

lemma int_and_mask: "(x :: int) AND 16383 = x mod 16384" "x AND 1023 = x mod 1024"
  using take_bit_eq_mask [of 14 x] take_bit_eq_mask [of 10 x]
  by (simp_all add: mask_numeral take_bit_eq_mod)

lemma pow2_and_16383: "radix \<le> 16 \<Longrightarrow> (2::nat) ^ radix AND 16383 \<noteq> 0 \<longleftrightarrow> radix < 14"
proof -
  assume r: "radix \<le> 16"
  have "(2::nat) ^ radix AND 16383 = 2 ^ radix mod 16384"
    using take_bit_eq_mask [of 14 "2 ^ radix :: nat"] by (simp add: mask_numeral take_bit_eq_mod)
  moreover have "(2::nat) ^ radix mod 16384 \<noteq> 0 \<longleftrightarrow> radix < 14"
  proof (cases "radix < 14")
    case True
    then have "(2::nat) ^ radix < 2 ^ 14" by (intro power_strict_increasing) auto
    with True show ?thesis by simp
  next
    case False
    then have "radix = 14 \<or> radix = 15 \<or> radix = 16" using r by auto
    then show ?thesis by auto
  qed
  ultimately show ?thesis by simp
qed

subsection \<open>The scan\<close>

lemma scan_word_Some:
  assumes "bmap_scan_word w b j (push_bit j (mask b)) = Some (j', m)" "b dvd j"
  shows "j' < 32 \<and> b dvd j' \<and> m = push_bit j' (mask b) \<and> w AND m = 0"
  using assms
proof (induction w b j "push_bit j (mask b :: u32)" rule: bmap_scan_word.induct)
  case (1 w b j)
  show ?case
  proof (cases "j < 32 \<and> 0 < b \<and> w AND push_bit j (mask b) \<noteq> 0")
    case True
    have "push_bit b (push_bit j (mask b)) = (push_bit (j + b) (mask b) :: u32)"
      by (simp add: push_bit_push_bit add.commute)
    then have "bmap_scan_word w b (j + b) (push_bit (j + b) (mask b)) = Some (j', m)"
      using 1(2) True by (simp add: bmap_scan_word.simps [of w b j])
    moreover have "push_bit b (push_bit j (mask b)) = (push_bit (j + b) (mask b) :: u32)"
      by (simp add: push_bit_push_bit add.commute)
    ultimately show ?thesis using 1(1,3) True by auto
  next
    case False
    with 1(2,3) show ?thesis by (auto simp: bmap_scan_word.simps [of w b j] split: if_splits)
  qed
qed

lemma scan_word_None:
  assumes "bmap_scan_word w b j (push_bit j (mask b)) = None" "0 < b" "b dvd j"
    "j \<le> n" "n < 32" "b dvd n"
  shows "w AND push_bit n (mask b) \<noteq> 0"
  using assms
proof (induction w b j "push_bit j (mask b :: u32)" rule: bmap_scan_word.induct)
  case (1 w b j)
  have shift: "push_bit b (push_bit j (mask b)) = (push_bit (j + b) (mask b) :: u32)"
    by (simp add: push_bit_push_bit add.commute)
  from 1 have nz: "w AND push_bit j (mask b) \<noteq> 0"
    by (auto simp: bmap_scan_word.simps [of w b j] split: if_splits)
  show ?case
  proof (cases "n = j")
    case False
    have "b dvd n - j" using "1.prems" by (simp add: dvd_diff_nat)
    then have "j + b \<le> n" using False "1.prems"(4) by (auto dest!: dvd_imp_le)
    then show ?thesis using 1 nz shift by (simp add: bmap_scan_word.simps [of w b j])
  qed (use nz in simp)
qed

lemma bmap_scan_Some:
  assumes "bmap_scan ws b i = Some (i', j, m)" "b < 32"
  shows "i \<le> i' \<and> i' < i + length ws \<and> j < 32 \<and> b dvd j \<and> m = push_bit j (mask b) \<and>
         ws ! (i' - i) AND m = 0"
  using assms
proof (induction ws b i rule: bmap_scan.induct)
  case (2 w ws b i)
  show ?case
  proof (cases "bmap_scan_word w b 0 (bmap_mask b)")
    case None
    then have "Suc i \<le> i' \<and> i' < Suc i + length ws \<and> j < 32 \<and> b dvd j \<and>
        m = push_bit j (mask b) \<and> ws ! (i' - Suc i) AND m = 0"
      using 2(1) [OF None] 2(2,3) by auto
    then have "i' - i = Suc (i' - Suc i)" "ws ! (i' - Suc i) AND m = 0" "m = push_bit j (mask b)"
      "i \<le> i'" "i' < i + length (w # ws)" "j < 32" "b dvd j" by auto
    then show ?thesis by (metis nth_Cons_Suc)
  next
    case (Some a)
    with 2(2,3) scan_word_Some [of w b 0 j m] show ?thesis by (auto simp: bmap_mask_eq)
  qed
qed simp

lemma bmap_scan_None:
  assumes "bmap_scan ws b i = None" "0 < b" "b < 32" "k < length ws" "n < 32" "b dvd n"
  shows "ws ! k AND push_bit n (mask b) \<noteq> 0"
  using assms
proof (induction ws b i arbitrary: k rule: bmap_scan.induct)
  case (2 w ws b i)
  then have none: "bmap_scan_word w b 0 (bmap_mask b) = None" by (auto split: option.splits)
  show ?case
  proof (cases k)
    case 0
    with scan_word_None [of w b 0 n] none 2(3-7) show ?thesis by (simp add: bmap_mask_eq)
  next
    case (Suc k')
    with 2 none show ?thesis by simp
  qed
qed simp

lemma newq_mask_ends:
  assumes "bit bm n" "a \<le> n" "n < a + b * fuel"
  shows "newq_mask fuel (push_bit a (mask b)) b bm \<noteq> None"
  using assms
proof (induction fuel arbitrary: a)
  case (Suc fuel)
  show ?case
  proof (cases "push_bit a (mask b) AND bm = 0")
    case True
    then have "bm AND push_bit a (mask b) = 0" by (simp add: and.commute)
    then have "\<not> (a \<le> n \<and> n < a + b)" using Suc.prems(1) by (auto simp: and_shifted_mask_0)
    then have "newq_mask fuel (push_bit (a + b) (mask b)) b bm \<noteq> None"
      using Suc by (intro Suc.IH) auto
    moreover have "push_bit b (push_bit a (mask b)) = (push_bit (a + b) (mask b) :: u32)"
      by (simp add: push_bit_push_bit add.commute)
    ultimately show ?thesis using True by simp
  qed simp
qed simp

subsection \<open>Chunks\<close>

lemma chunk_marked_mono:
  assumes "chunk_marked bm c" "length bm = 8"
  shows "chunk_marked (bm[i := bm ! i OR m]) c"
proof (cases "c div 16 = i")
  case True
  then show ?thesis using assms by (cases "i < 8") (auto simp: chunk_marked_def bit_or_iff list_update_beyond)
next
  case False
  then show ?thesis using assms by (simp add: chunk_marked_def)
qed

lemma chunk_marked_set:
  assumes "length bm = 8" "c div 16 < 8" "j \<le> 2 * (c mod 16)" "2 * (c mod 16) < j + b"
  shows "chunk_marked (bm[c div 16 := bm ! (c div 16) OR push_bit j (mask b)]) c"
proof -
  have "2 * (c mod 16) < 32" by simp
  then have "bit (push_bit j (mask b) :: u32) (2 * (c mod 16))"
    using assms(3,4) by (auto simp: bit_simps)
  then show ?thesis using assms(1,2) by (simp add: chunk_marked_def bit_or_iff)
qed

lemma chunk_unmarked:
  assumes "bm ! (c div 16) AND push_bit j (mask b) = 0"
    "j \<le> 2 * (c mod 16)" "2 * (c mod 16) + 1 < j + b"
  shows "\<not> chunk_marked bm c"
  using assms(2,3) assms(1) [unfolded and_shifted_mask_0, rule_format, of "2 * (c mod 16)"]
    assms(1) [unfolded and_shifted_mask_0, rule_format, of "2 * (c mod 16) + 1"]
  by (auto simp: chunk_marked_def)

lemma chunks_bytes: "radix \<le> 16 \<Longrightarrow> 2 ^ radix \<le> chunks radix * 16384"
proof -
  assume "radix \<le> 16"
  moreover have "radix \<le> 14 \<Longrightarrow> (2::nat) ^ radix \<le> 2 ^ 14" by (rule power_increasing) auto
  ultimately show ?thesis using chunks_cases [of radix] by auto
qed

text \<open>The geometry of a window found by the scan.\<close>

lemma window_chunk:
  assumes r: "radix \<le> 16" and i: "i < 8" and j: "j < 32" "2 * chunks radix dvd j"
    and x: "x \<in> extent (i * 262144 + j * 8192) radix"
  shows "x div 16384 div 16 = i \<and> j \<le> 2 * (x div 16384 mod 16) \<and>
         2 * (x div 16384 mod 16) + 1 < j + 2 * chunks radix \<and> x < 2097152"
proof -
  let ?n = "chunks radix"
  obtain a where a: "j = 2 * ?n * a" using j(2) by (auto elim: dvdE)
  have n: "?n = 1 \<or> ?n = 2 \<or> ?n = 4" using chunks_cases [OF r] by auto
  have top: "?n * a + ?n \<le> 16" using j(1) a n by auto
  let ?c = "16 * i + ?n * a"
  have off: "i * 262144 + j * 8192 = ?c * 16384" using a by (simp add: algebra_simps)
  have "?c * 16384 \<le> x" "x < (?c + ?n) * 16384"
    using x chunks_bytes [OF r] unfolding off extent_def by (auto simp: algebra_simps)
  then have c: "?c \<le> x div 16384" "x div 16384 < ?c + ?n"
    by (auto simp: less_eq_div_iff_mult_less_eq div_less_iff_less_mult)
  obtain k where k: "x div 16384 = ?c + k" "k < ?n"
    using c by (metis add_less_cancel_left le_iff_add)
  have low: "?n * a + k < 16" using k(2) top by simp
  have e: "x div 16384 = 16 * i + (?n * a + k)" using k(1) by simp
  have d: "x div 16384 div 16 = i" unfolding e using low by simp
  have m: "x div 16384 mod 16 = ?n * a + k" unfolding e using low by simp
  have "x < 2097152" using e low i by linarith
  with d m a k(2) show ?thesis by simp
qed

subsection \<open>The choice of an offset\<close>

text \<open>
  Where the allocator puts a block: aligned to its size from 16 KB up, within one 16 KB
  chunk below.
\<close>

definition blk_placed :: "nat \<Rightarrow> nat \<Rightarrow> bool" where
  "blk_placed radix off \<longleftrightarrow>
     (14 \<le> radix \<longrightarrow> 2 ^ radix dvd off) \<and> (radix < 14 \<longrightarrow> off mod 16384 + 2 ^ radix \<le> 16384)"

lemma blk_placed_add:
  assumes "blk_placed radix off" "2097152 dvd b" "radix \<le> 16"
  shows "blk_placed radix (b + off)"
proof -
  have "2 ^ radix dvd (2097152::nat)" using le_imp_power_dvd [of radix 21 "2::nat"] assms(3) by simp
  then have "2 ^ radix dvd b" using assms(2) by (rule dvd_trans)
  moreover obtain q where "b = 16384 * (128 * q)" using assms(2) by (auto elim!: dvdE)
  then have "(b + off) mod 16384 = off mod 16384" by (simp only: mod_mult_self4)
  ultimately show ?thesis using assms(1) by (simp add: blk_placed_def)
qed

definition good_choice ::
  "hammer2_bmap_data \<Rightarrow> nat set \<Rightarrow> nat \<Rightarrow> nat \<Rightarrow> nat \<Rightarrow> u32 \<Rightarrow> int \<Rightarrow> bool" where
  "good_choice bmap used radix off i m lin \<longleftrightarrow>
     i < 8 \<and> (\<exists>n<32. bit m n) \<and>
     extent off radix \<subseteq> {..<HAMMER2_SEGSIZE} \<and> extent off radix \<inter> used = {} \<and>
     1024 dvd off \<and> blk_placed radix off \<and>
     0 \<le> lin \<and> lin \<le> 2097152 \<and> 1024 dvd lin \<and>
     (let bm = (bm_bitmap bmap)[i := bm_bitmap bmap ! i OR m]
      in (\<forall>x\<in>extent off radix. chunk_marked bm (x div 16384)) \<and>
         (lin mod 16384 \<noteq> 0 \<longrightarrow> chunk_marked bm (nat lin div 16384) \<and>
            (\<forall>x\<in>used \<union> extent off radix. x div 16384 = nat lin div 16384 \<longrightarrow> x < nat lin)))"

lemma good_choiceI:
  assumes inv: "bmap_inv bmap used" and i: "i < 8" and m: "\<exists>n<32. bit m n"
    and ext: "\<And>x. x \<in> extent off radix \<Longrightarrow> x < HAMMER2_SEGSIZE \<and> x \<notin> used \<and>
        chunk_marked ((bm_bitmap bmap)[i := bm_bitmap bmap ! i OR m]) (x div 16384)"
    and al: "1024 dvd off" "blk_placed radix off"
    and lin: "lin = bm_linear bmap \<and>
          (\<forall>x\<in>extent off radix. lin mod 16384 \<noteq> 0 \<longrightarrow> x div 16384 \<noteq> nat lin div 16384) \<or>
        lin = int (off + 2 ^ radix) \<and> off + 2 ^ radix \<le> HAMMER2_SEGSIZE \<and> 1024 dvd (2::nat) ^ radix \<and>
          ((off + 2 ^ radix) mod 16384 \<noteq> 0 \<longrightarrow> (off + 2 ^ radix) div 16384 = off div 16384 \<and>
             (\<forall>x\<in>used. x div 16384 = off div 16384 \<longrightarrow> x < off))"
  shows "good_choice bmap used radix off i m lin"
proof -
  let ?bm = "(bm_bitmap bmap)[i := bm_bitmap bmap ! i OR m]"
  have old: "chunk_marked ?bm c" if "chunk_marked (bm_bitmap bmap) c" for c
    using inv that by (intro chunk_marked_mono) (auto simp: bmap_inv_def)
  have off: "off \<in> extent off radix" by (simp add: extent_def)
  have dv: "1024 dvd int (off + 2 ^ radix)" if "1024 dvd (2::nat) ^ radix"
    using dvd_add [OF al(1) that] by (metis int_dvd_int_iff of_nat_numeral)
  have "0 \<le> lin \<and> lin \<le> 2097152 \<and> 1024 dvd lin"
    using lin
  proof (elim disjE conjE)
    assume "lin = bm_linear bmap"
    then show ?thesis using inv by (simp add: bmap_inv_def)
  next
    assume "lin = int (off + 2 ^ radix)" "off + 2 ^ radix \<le> HAMMER2_SEGSIZE" "1024 dvd (2::nat) ^ radix"
    moreover from this(2) have "int (off + 2 ^ radix) \<le> 2097152" by linarith
    ultimately show ?thesis using dv by simp
  qed
  moreover have "chunk_marked ?bm (nat lin div 16384) \<and>
      (\<forall>x\<in>used \<union> extent off radix. x div 16384 = nat lin div 16384 \<longrightarrow> x < nat lin)"
    if nz: "lin mod 16384 \<noteq> 0"
    using lin
  proof (elim disjE conjE)
    assume l: "lin = bm_linear bmap"
      and "\<forall>x\<in>extent off radix. lin mod 16384 \<noteq> 0 \<longrightarrow> x div 16384 \<noteq> nat lin div 16384"
    then show ?thesis using inv nz old by (auto simp: bmap_inv_def)
  next
    assume l: "lin = int (off + 2 ^ radix)"
      and s: "(off + 2 ^ radix) mod 16384 \<noteq> 0 \<longrightarrow> (off + 2 ^ radix) div 16384 = off div 16384 \<and>
             (\<forall>x\<in>used. x div 16384 = off div 16384 \<longrightarrow> x < off)"
    have "(off + 2 ^ radix) mod 16384 \<noteq> 0"
    proof
      assume "(off + 2 ^ radix) mod 16384 = 0"
      then have "int ((off + 2 ^ radix) mod 16384) = 0" by simp
      then have "lin mod 16384 = 0" unfolding l by (simp only: zmod_int of_nat_numeral)
      with nz show False by simp
    qed
    with s have same: "(off + 2 ^ radix) div 16384 = off div 16384"
      and less: "\<And>x. x \<in> used \<Longrightarrow> x div 16384 = off div 16384 \<Longrightarrow> x < off" by auto
    have l': "nat lin = off + 2 ^ radix" unfolding l by (rule nat_int)
    show ?thesis unfolding l' same
      using ext [OF off] less by (fastforce simp: extent_def)
  qed
  ultimately show ?thesis
    unfolding good_choice_def Let_def using i m ext al by auto
qed

text \<open>A window of the bitmap.\<close>

lemma choose_scan:
  assumes inv: "bmap_inv bmap used" and r: "10 \<le> radix" "radix \<le> 16"
    and scan: "bmap_scan (bm_bitmap bmap) (bmap_radix radix) 0 = Some (i, j, m)"
    and off: "off = i * 262144 + j * 8192"
  shows "good_choice bmap used radix off i m
           (if (2::nat) ^ radix AND 16383 \<noteq> 0 then int off + 2 ^ radix else bm_linear bmap)"
proof -
  let ?bm = "bm_bitmap bmap"
  have n: "chunks radix = 1 \<and> radix \<le> 14 \<or> chunks radix = 2 \<and> radix = 15 \<or> chunks radix = 4 \<and> radix = 16"
    using chunks_cases [OF r(2)] .
  from inv have len: "length ?bm = 8" and used: "\<And>x. x \<in> used \<Longrightarrow> chunk_marked ?bm (x div 16384)"
    by (auto simp: bmap_inv_def)
  have "2 * chunks radix < 32" using n by auto
  from bmap_scan_Some [OF scan [unfolded bmap_radix_eq] this] len
  have i: "i < 8" and j: "j < 32" "2 * chunks radix dvd j" and m: "m = push_bit j (mask (2 * chunks radix))"
    and free: "?bm ! i AND push_bit j (mask (2 * chunks radix)) = 0" by auto
  note win = window_chunk [OF r(2) i j, folded off]
  have unmarked: "\<not> chunk_marked ?bm (x div 16384)" if "x \<in> extent off radix" for x
    using win [OF that] free by (intro chunk_unmarked) auto
  have start: "off \<in> extent off radix" by (simp add: extent_def)
  have chunk: "16384 dvd off" using j(2) n unfolding off by (auto elim!: dvdE)
  have a: "1024 dvd off" using chunk by (rule dvd_trans [rotated]) simp
  have "2 ^ radix dvd off" if "14 \<le> radix"
  proof -
    have "radix = 14 \<or> radix = 15 \<or> radix = 16" using that r by auto
    then show ?thesis using j(2) n unfolding off by (auto elim!: dvdE)
  qed
  then have "1024 dvd off \<and> blk_placed radix off" using a chunk power_increasing [of radix 14 "2::nat"]
    by (auto simp: blk_placed_def dvd_eq_mod_eq_0)
  moreover have "\<exists>n<32. bit m n"
    using j(1) n unfolding m by (intro exI [of _ j]) (auto simp: bit_simps)
  moreover have "x < HAMMER2_SEGSIZE \<and> x \<notin> used \<and>
        chunk_marked (?bm[i := ?bm ! i OR m]) (x div 16384)" if "x \<in> extent off radix" for x
    using win [OF that] unmarked [OF that] used len i chunk_marked_set [of ?bm "x div 16384" j "2 * chunks radix"]
    unfolding m by auto
  moreover have "(2::nat) ^ radix AND 16383 \<noteq> 0 \<longleftrightarrow> radix < 14"
    using pow2_and_16383 r(2) by auto
  moreover have "int off + 2 ^ radix = int (off + 2 ^ radix)" by simp
  moreover have "off + 2 ^ radix \<le> 2097152 \<and> 1024 dvd (2::nat) ^ radix \<and>
      (off + 2 ^ radix) div 16384 = off div 16384" if "radix < 14"
  proof -
    have s: "(2::nat) ^ radix < 16384" using power_strict_increasing [of radix 14 "2::nat"] that by simp
    obtain q where q: "off = 16384 * q" using chunk by (auto elim: dvdE)
    with win [OF start] have "q < 128" by auto
    with s q show ?thesis using le_imp_power_dvd [of 10 radix "2::nat"] r by auto
  qed
  moreover have "x div 16384 \<noteq> off div 16384" if "x \<in> used" for x
    using used [OF that] unmarked [OF start] by auto
  moreover have "x div 16384 \<noteq> nat (bm_linear bmap) div 16384"
    if "x \<in> extent off radix" "bm_linear bmap mod 16384 \<noteq> 0" for x
    using inv that unmarked [OF that(1)] by (auto simp: bmap_inv_def)
  ultimately show ?thesis using inv i by (intro good_choiceI) auto
qed

text \<open>The linear iterator.\<close>

lemma choose_linear:
  assumes inv: "bmap_inv bmap used" and r: "10 \<le> radix" "radix \<le> 16"
    and lin: "(bm_linear bmap AND 16383) + 2 ^ radix \<le> 16384" "bm_linear bmap AND 16383 \<noteq> 0"
      "bm_linear bmap < 2097152"
    and off: "off = nat (bm_linear bmap)"
  shows "bm_linear bmap + 2 ^ radix \<le> 2097152 \<and> bm_linear bmap AND 1023 = 0 \<and>
         good_choice bmap used radix off (off div 262144)
           (push_bit ((off div 8192) AND 30) (bmap_mask (bmap_radix radix))) (int off + 2 ^ radix)"
proof -
  let ?bm = "bm_bitmap bmap" and ?c = "off div 16384"
  from inv have len: "length ?bm = 8" and nn: "0 \<le> bm_linear bmap" "1024 dvd bm_linear bmap"
    by (auto simp: bmap_inv_def)
  have int_off: "int off = bm_linear bmap" using off nn(1) by simp
  have m: "off mod 16384 \<noteq> 0" "off mod 16384 + 2 ^ radix \<le> 16384" "off < 2097152"
  proof -
    have e: "bm_linear bmap AND 16383 = int (off mod 16384)"
      by (simp add: int_and_mask zmod_int int_off)
    show "off mod 16384 \<noteq> 0" using lin(2) unfolding e by simp
    have "int (off mod 16384 + 2 ^ radix) \<le> 16384" using lin(1) unfolding e by simp
    then show "off mod 16384 + 2 ^ radix \<le> 16384" by linarith
    show "off < 2097152" using lin(3) int_off by linarith
  qed
  have dv: "1024 dvd off" using nn(2) int_off by (metis int_dvd_int_iff of_nat_numeral)
  have r14: "radix < 14"
  proof (rule ccontr)
    assume "\<not> radix < 14"
    then have "(2::nat) ^ 14 \<le> 2 ^ radix" by (intro power_increasing) auto
    with m show False by simp
  qed
  have c: "?c < 128" using m(3) by simp
  have i: "off div 262144 = ?c div 16" by (simp add: div_mult2_eq [symmetric])
  have j: "(off div 8192) AND 30 = 2 * (?c mod 16)" by (simp add: nat_and_30 div_mult2_eq [symmetric])
  have mask: "bmap_mask (bmap_radix radix) = mask 2"
    using r14 by (simp add: bmap_radix_eq chunks_def bmap_mask_eq)
  have ends: "off + 2 ^ radix \<le> ?c * 16384 + 16384"
    using m(2) div_mult_mod_eq [of off 16384] by linarith
  have chunk: "x div 16384 = ?c" if "x \<in> extent off radix" for x
  proof -
    have "?c * 16384 \<le> off" by simp
    then show ?thesis using that ends by (intro div_nat_eqI) (auto simp: extent_def algebra_simps)
  qed
  have free: "x < off" if "x \<in> used" "x div 16384 = ?c" for x
  proof -
    have "bm_linear bmap mod 16384 \<noteq> 0" using m(1) int_off by (metis of_nat_0_eq_iff of_nat_mod of_nat_numeral)
    with inv that off show ?thesis by (auto simp: bmap_inv_def)
  qed
  have "good_choice bmap used radix off (?c div 16) (push_bit (2 * (?c mod 16)) (mask 2)) (int off + 2 ^ radix)"
  proof (rule good_choiceI [OF inv])
    show "?c div 16 < 8" using c by simp
    show "\<exists>n<32. bit (push_bit (2 * (?c mod 16)) (mask 2) :: u32) n"
      by (intro exI [of _ "2 * (?c mod 16)"]) (simp add: bit_simps)
    show "1024 dvd off" by (rule dv)
    show "blk_placed radix off" using m(2) r14 by (simp add: blk_placed_def)
  next
    fix x assume x: "x \<in> extent off radix"
    have "x < 2097152" using x ends c by (auto simp: extent_def)
    moreover have "x \<notin> used" using free [of x] chunk [OF x] x by (auto simp: extent_def)
    ultimately show "x < HAMMER2_SEGSIZE \<and> x \<notin> used \<and>
        chunk_marked (?bm[?c div 16 := ?bm ! (?c div 16) OR push_bit (2 * (?c mod 16)) (mask 2)]) (x div 16384)"
      using chunk_marked_set [OF len, of ?c "2 * (?c mod 16)" 2] c chunk [OF x] by simp
  next
    have "(off + 2 ^ radix) div 16384 = ?c" if "(off + 2 ^ radix) mod 16384 \<noteq> 0"
    proof -
      have "off + 2 ^ radix \<noteq> ?c * 16384 + 16384"
      proof
        assume "off + 2 ^ radix = ?c * 16384 + 16384"
        then have "(off + 2 ^ radix) mod 16384 = 0" by (simp only:) simp
        with that show False by simp
      qed
      then show ?thesis using ends by (intro div_nat_eqI) (auto simp: algebra_simps)
    qed
    then show "int off + 2 ^ radix = bm_linear bmap \<and>
          (\<forall>x\<in>extent off radix. (int off + 2 ^ radix) mod 16384 \<noteq> 0 \<longrightarrow>
             x div 16384 \<noteq> nat (int off + 2 ^ radix) div 16384) \<or>
        int off + 2 ^ radix = int (off + 2 ^ radix) \<and> off + 2 ^ radix \<le> HAMMER2_SEGSIZE \<and> 1024 dvd (2::nat) ^ radix \<and>
          ((off + 2 ^ radix) mod 16384 \<noteq> 0 \<longrightarrow> (off + 2 ^ radix) div 16384 = off div 16384 \<and>
             (\<forall>x\<in>used. x div 16384 = off div 16384 \<longrightarrow> x < off))"
      using free ends c le_imp_power_dvd [of 10 radix "2::nat"] r by auto
  qed
  moreover have "bm_linear bmap + 2 ^ radix \<le> 2097152"
  proof -
    have "off + 2 ^ radix \<le> 2097152" using ends c by linarith
    then have "int (off + 2 ^ radix) \<le> 2097152" by linarith
    then show ?thesis using int_off by simp
  qed
  ultimately show ?thesis using nn(2) by (simp add: i j mask int_and_mask)
qed

subsection \<open>The whole allocation\<close>

lemma getradix_const: "hammer2_getradix 16384 = Ok 14" "hammer2_getradix 65536 = Ok 16"
  by (simp_all add: hammer2_getradix_def getradix_loop.simps)

text \<open>Everything of the mount but the request log and the modified mark.\<close>

definition same_vol :: "hammer2_mount \<Rightarrow> hammer2_mount \<Rightarrow> bool" where
  "same_vol h h' \<longleftrightarrow> volu_size h' = volu_size h \<and> allocator_beg h' = allocator_beg h \<and>
     allocator_free h' = allocator_free h \<and> heur_freemap h' = heur_freemap h"

lemma bmap_newq_ok:
  assumes "radix \<le> 16" "\<exists>n<32. bit m n"
  shows "\<exists>hmp'. bmap_newq hmp w m radix off base = Ok hmp' \<and> same_vol hmp hmp'"
proof -
  let ?b = "2 * 2 ^ (hammer2_devblkradix radix - 14) :: nat"
  have b: "?b = 2 \<or> ?b = 8" by (auto simp: hammer2_devblkradix_def)
  obtain n where n: "n < 32" "bit m n" using assms(2) by blast
  have "newq_mask 33 (push_bit 0 (mask ?b)) ?b m \<noteq> None"
    using n b by (intro newq_mask_ends [of m n]) auto
  then obtain pm where pm: "newq_mask 33 (bmap_mask ?b) ?b m = Some pm"
    using b by (auto simp: bmap_mask_eq)
  have dev: "hammer2_devblksize (push_bit radix 1) = Ok (2 ^ hammer2_devblkradix radix)"
    using devblksize_pow2 [OF assms(1)] by simp
  have rad: "\<exists>p. hammer2_getradix (of_nat (2 ^ hammer2_devblkradix radix)) = Ok p"
    by (auto simp: hammer2_devblkradix_def getradix_const)
  show ?thesis
    unfolding bmap_newq_def dev Let_def pm using rad by (auto simp: same_vol_def)
qed

text \<open>
  No room: the iterator has no space left in its chunk and no aligned window of free
  chunks is in the bitmap.
\<close>

definition bmap_full :: "hammer2_bmap_data \<Rightarrow> nat \<Rightarrow> bool" where
  "bmap_full bmap radix \<longleftrightarrow>
     \<not> (bm_linear bmap mod 16384 \<noteq> 0 \<and> bm_linear bmap mod 16384 + 2 ^ radix \<le> 16384 \<and>
        bm_linear bmap < 2097152) \<and>
     (\<forall>c<128. chunks radix dvd c \<longrightarrow> (\<exists>k<chunks radix. chunk_marked (bm_bitmap bmap) (c + k)))"

lemma choose_none_full:
  assumes r: "radix \<le> 16" and len: "length (bm_bitmap bmap) = 8"
    and none: "bmap_choose bmap radix = Ok None"
  shows "bmap_full bmap radix"
proof -
  let ?n = "chunks radix" and ?bm = "bm_bitmap bmap"
  have n: "?n = 1 \<or> ?n = 2 \<or> ?n = 4" using chunks_cases [OF r] by auto
  from none have scan: "bmap_scan ?bm (2 * ?n) 0 = None"
    and lin: "\<not> ((bm_linear bmap AND 16383) + int (2 ^ radix) \<le> 16384 \<and>
        bm_linear bmap AND 16383 \<noteq> 0 \<and> bm_linear bmap < 2097152)"
    by (auto simp: bmap_choose_def Let_def kkassert_def bmap_radix_eq split: if_splits option.splits)
  have "\<exists>k<?n. chunk_marked ?bm (c + k)" if c: "c < 128" "?n dvd c" for c
  proof -
    have dv: "2 * ?n dvd 2 * (c mod 16)" and top: "c mod 16 + ?n \<le> 16"
      using c(2) n by (auto elim!: dvdE) presburger+
    have "?bm ! (c div 16) AND push_bit (2 * (c mod 16)) (mask (2 * ?n)) \<noteq> 0"
      using bmap_scan_None [OF scan _ _ _ _ dv] n len c(1) by auto
    then obtain b where b: "2 * (c mod 16) \<le> b" "b < 2 * (c mod 16) + 2 * ?n" "bit (?bm ! (c div 16)) b"
      by (auto simp: and_shifted_mask_0)
    let ?k = "b div 2 - c mod 16"
    have k: "?k < ?n" "c mod 16 + ?k = b div 2" "c mod 16 + ?k < 16" using b top by auto
    have e: "c + ?k = 16 * (c div 16) + b div 2" using k(2) by (metis add.assoc mult.commute div_mult_mod_eq)
    have "(c + ?k) div 16 = c div 16" "(c + ?k) mod 16 = b div 2" using k(2,3) unfolding e by simp_all
    then have "chunk_marked ?bm (c + ?k)"
      using b(3) by (cases "even b") (auto simp: chunk_marked_def elim!: evenE oddE)
    with k(1) show ?thesis by blast
  qed
  with lin show ?thesis by (auto simp: bmap_full_def int_and_mask)
qed

lemma bmap_choose_cases:
  assumes inv: "bmap_inv bmap used" and r: "10 \<le> radix" "radix \<le> 16"
  shows "bmap_choose bmap radix = Ok None \<and> bmap_full bmap radix \<or>
    (\<exists>off i m lin. bmap_choose bmap radix = Ok (Some (off, i, m, lin)) \<and>
                   good_choice bmap used radix off i m lin)"
proof (cases "(bm_linear bmap AND 16383) + 2 ^ radix \<le> 16384 \<and> bm_linear bmap AND 16383 \<noteq> 0 \<and>
    bm_linear bmap < 2097152")
  case True
  with choose_linear [OF inv r, of "nat (bm_linear bmap)"] inv show ?thesis
    by (auto simp: bmap_choose_def Let_def bmap_inv_def)
next
  case False
  from inv have len: "length (bm_bitmap bmap) = 8" by (simp add: bmap_inv_def)
  show ?thesis
  proof (cases "bmap_scan (bm_bitmap bmap) (bmap_radix radix) 0")
    case None
    with False have "bmap_choose bmap radix = Ok None" by (auto simp: bmap_choose_def Let_def)
    with choose_none_full [OF r(2) len] show ?thesis by simp
  next
    case (Some t)
    obtain i j m where t: "t = (i, j, m)" by (cases t)
    have "bmap_choose bmap radix = Ok (Some (i * 262144 + j * 8192, i, m,
        if (2::nat) ^ radix AND 16383 \<noteq> 0 then int (i * 262144 + j * 8192) + 2 ^ radix
        else bm_linear bmap))"
      using False Some t by (auto simp: bmap_choose_def Let_def)
    with choose_scan [OF inv r Some [unfolded t] refl] show ?thesis by blast
  qed
qed

lemma good_choice_inv:
  assumes inv: "bmap_inv bmap used" and good: "good_choice bmap used radix off i m lin"
    and r: "radix \<le> 16"
  shows "bmap_inv (bmap\<lparr>bm_linear := lin,
            bm_bitmap := (bm_bitmap bmap)[i := bm_bitmap bmap ! i OR m],
            bm_class := cls, bm_avail := bm_avail bmap - push_bit radix 1\<rparr>) (used \<union> extent off radix)"
proof -
  have fin: "finite used" using inv by (auto simp: bmap_inv_def intro: finite_subset)
  have card: "card (used \<union> extent off radix) = card used + 2 ^ radix"
    using good fin by (subst card_Un_disjoint) (auto simp: good_choice_def extent_def)
  have "card (used \<union> extent off radix) \<le> card {..<2097152::nat}"
    using inv good by (intro card_mono) (auto simp: bmap_inv_def good_choice_def)
  then have le: "card used + 2 ^ radix \<le> 2097152" using card by simp
  have p: "unat (push_bit radix (1::u32)) = 2 ^ radix"
  proof -
    have "(2::nat) ^ radix \<le> 2 ^ 16" using r by (intro power_increasing) auto
    then show ?thesis using r by (subst unat_push1) auto
  qed
  have "unat (bm_avail bmap - push_bit radix 1) = 2097152 - (card used + 2 ^ radix)"
    using inv le by (subst unat_minus_le) (auto simp: bmap_inv_def p simp del: push_bit_of_1)
  moreover have "chunk_marked ((bm_bitmap bmap)[i := bm_bitmap bmap ! i OR m]) (x div 16384)" if "x \<in> used" for x
    using inv that by (intro chunk_marked_mono) (auto simp: bmap_inv_def)
  ultimately show ?thesis
    using inv good card by (auto simp: bmap_inv_def good_choice_def Let_def)
qed

lemma bmap_alloc_step:
  assumes inv: "bmap_inv bmap used" and r: "10 \<le> radix" "radix \<le> 16"
  shows "hammer2_bmap_alloc hmp bmap cls radix base = Ok (ENOSPC, hmp, bmap, base) \<and> bmap_full bmap radix \<or>
    (\<exists>off hmp' bmap'.
       hammer2_bmap_alloc hmp bmap cls radix base = Ok (E_OK, hmp', bmap', base + of_nat off) \<and>
       extent off radix \<subseteq> {..<HAMMER2_SEGSIZE} \<and> extent off radix \<inter> used = {} \<and>
       1024 dvd off \<and> blk_placed radix off \<and>
       bmap_inv bmap' (used \<union> extent off radix) \<and> bm_class bmap' = cls \<and>
       same_vol (hmp\<lparr>allocator_free := allocator_free hmp - push_bit radix 1\<rparr>) hmp')"
  using bmap_choose_cases [OF inv r]
proof (elim disjE exE conjE)
  assume "bmap_choose bmap radix = Ok None" "bmap_full bmap radix"
  then show ?thesis by (simp add: hammer2_bmap_alloc_def)
next
  fix off i m lin
  assume c: "bmap_choose bmap radix = Ok (Some (off, i, m, lin))"
    and good: "good_choice bmap used radix off i m lin"
  then have gi: "i < 8" "\<exists>n<32. bit m n" by (auto simp: good_choice_def)
  obtain hmp' where h: "bmap_newq hmp (bm_bitmap bmap ! i) m radix off base = Ok hmp'" "same_vol hmp hmp'"
    using bmap_newq_ok [OF r(2) gi(2)] by blast
  let ?bmap = "bmap\<lparr>bm_linear := lin,
            bm_bitmap := (bm_bitmap bmap)[i := bm_bitmap bmap ! i OR m],
            bm_class := cls, bm_avail := bm_avail bmap - push_bit radix 1\<rparr>"
  let ?h = "hammer2_voldata_modify hmp'"
  have "hammer2_bmap_alloc hmp bmap cls radix base =
      Ok (E_OK, ?h\<lparr>allocator_free := allocator_free ?h - push_bit radix 1\<rparr>, ?bmap, base + of_nat off)"
    using c gi(1) h(1) by (simp add: hammer2_bmap_alloc_def Let_def)
  moreover have "same_vol (hmp\<lparr>allocator_free := allocator_free hmp - push_bit radix 1\<rparr>)
      (?h\<lparr>allocator_free := allocator_free ?h - push_bit radix 1\<rparr>)"
    using h(2) by (simp add: same_vol_def hammer2_voldata_modify_def)
  moreover have "bmap_inv ?bmap (used \<union> extent off radix)"
    by (rule good_choice_inv [OF inv good r(2)])
  ultimately show ?thesis using good by (auto simp: good_choice_def)
qed

section \<open>Properties\<close>

definition bmap_fresh :: hammer2_bmap_data where
  "bmap_fresh = \<lparr>bm_linear = 0, bm_class = 0, bm_avail = 2097152, bm_bitmap = replicate 8 0\<rparr>"

lemma bmap_inv_fresh: "bmap_inv bmap_fresh {}"
  by (simp add: bmap_inv_def bmap_fresh_def)

definition ex_mount :: hammer2_mount where
  "ex_mount = \<lparr>volu_size = 0x100000000, allocator_beg = 0x400000, allocator_free = 0xF0000000,
     vchain_modified = False, heur_freemap = replicate 32 0, io_newq_log = []\<rparr>"

text \<open>
  C21: the allocator of a 2 MB segment.  For any allocation size from 1 KB to 64 KB it
  always returns; it reports no space only when the linear iterator has no room and no
  aligned window of free chunks exists; otherwise the extent it returns lies in the
  segment, shares no byte with anything allocated before, is 1 KB aligned (size aligned
  from 16 KB up, within one 16 KB chunk below), and the segment's bookkeeping stays exact: \<open>avail\<close> (which cannot wrap)
  counts the bytes left, the linear iterator still points at free bytes only, and the
  volume's free count drops by the size.
\<close>

theorem bmap_alloc_sound:
  assumes "bmap_inv bmap used" "HAMMER2_RADIX_MIN \<le> radix" "radix \<le> HAMMER2_RADIX_MAX"
  shows "hammer2_bmap_alloc hmp bmap cls radix base = Ok (ENOSPC, hmp, bmap, base) \<and> bmap_full bmap radix \<or>
    (\<exists>off hmp' bmap'.
       hammer2_bmap_alloc hmp bmap cls radix base = Ok (E_OK, hmp', bmap', base + of_nat off) \<and>
       extent off radix \<subseteq> {..<HAMMER2_SEGSIZE} \<and> extent off radix \<inter> used = {} \<and>
       1024 dvd off \<and> blk_placed radix off \<and>
       bmap_inv bmap' (used \<union> extent off radix) \<and> bm_class bmap' = cls \<and>
       same_vol (hmp\<lparr>allocator_free := allocator_free hmp - push_bit radix 1\<rparr>) hmp')"
  by (rule bmap_alloc_step [OF assms])

theorem bmap_alloc_sound_witness:
  "\<exists>off hmp' bmap'.
     hammer2_bmap_alloc ex_mount bmap_fresh 0x10A 10 0x400000 = Ok (E_OK, hmp', bmap', 0x400000 + of_nat off) \<and>
     extent off 10 \<subseteq> {..<HAMMER2_SEGSIZE} \<and> bmap_inv bmap' (extent off 10)"
proof -
  have "\<not> bmap_full bmap_fresh 10"
    by (auto simp: bmap_full_def bmap_fresh_def chunks_def chunk_marked_def intro!: exI [of _ 0])
  then show ?thesis
    using bmap_alloc_sound [OF bmap_inv_fresh, of 10 ex_mount "0x10A" "0x400000"] by auto
qed

end
