(* ===== verification/H2_Freemap.thy ===== *)
theory H2_Freemap
  imports H2_Bmap
begin

unbundle bit_operations_syntax

text \<open>
  The block allocator of \<^verbatim>\<open>hammer2_freemap.c\<close>.  A freemap leaf describes a 2 GB zone by
  1024 entries of 2 MB each (\<^verbatim>\<open>H2_Bmap\<close>).  The leaves are kept as a finite map from the
  zone's base to the leaf: this is what \<open>hammer2_chain_lookup\<close> and \<open>hammer2_chain_create\<close>
  provide for the freemap topology, whose intermediate nodes carry no allocation state.
  The blocks of the freemap itself rotate through fixed places of the first 4 MB of each
  zone (\<open>hammer2_freemap_reserve\<close>).  Locks and buffers are not represented; a leaf's
  contents are a value, so the copy of \<open>hammer2_chain_modify\<close> to a new buffer is implicit,
  while the new place it is given is not.
\<close>

abbreviation (input) HAMMER2_TRANS_ISFLUSH :: u32 where "HAMMER2_TRANS_ISFLUSH \<equiv> 0x0001"
abbreviation (input) HAMMER2_TRANS_FREEBATCH :: u32 where "HAMMER2_TRANS_FREEBATCH \<equiv> 0x0010"
abbreviation (input) HAMMER2_TRANS_PREFLUSH :: u32 where "HAMMER2_TRANS_PREFLUSH \<equiv> 0x0020"
abbreviation (input) HAMMER2_ZONE_FREEMAP_00 :: nat where "HAMMER2_ZONE_FREEMAP_00 \<equiv> 1"
abbreviation (input) HAMMER2_ZONE_FREEMAP_06 :: nat where "HAMMER2_ZONE_FREEMAP_06 \<equiv> 25"
abbreviation (input) HAMMER2_ZONE_FREEMAP_08 :: nat where "HAMMER2_ZONE_FREEMAP_08 \<equiv> 33"
abbreviation (input) HAMMER2_FREEMAP_LEVEL0_RADIX :: nat where "HAMMER2_FREEMAP_LEVEL0_RADIX \<equiv> 21"
abbreviation (input) HAMMER2_FREEMAP_LEVEL1_RADIX :: nat where "HAMMER2_FREEMAP_LEVEL1_RADIX \<equiv> 31"
abbreviation (input) HAMMER2_FREEMAP_LEVEL2_RADIX :: nat where "HAMMER2_FREEMAP_LEVEL2_RADIX \<equiv> 41"
abbreviation (input) HAMMER2_FREEMAP_LEVEL3_RADIX :: nat where "HAMMER2_FREEMAP_LEVEL3_RADIX \<equiv> 51"
abbreviation (input) HAMMER2_FREEMAP_LEVEL4_RADIX :: nat where "HAMMER2_FREEMAP_LEVEL4_RADIX \<equiv> 61"
abbreviation (input) HAMMER2_FREEMAP_LEVELN_PSIZE :: nat where "HAMMER2_FREEMAP_LEVELN_PSIZE \<equiv> 65536"

definition H2FMSHIFT :: "nat \<Rightarrow> u64" where
  "H2FMSHIFT radix = push_bit radix 1"

definition H2FMBASE :: "u64 \<Rightarrow> nat \<Rightarrow> u64" where
  "H2FMBASE key radix = key AND NOT (push_bit radix 1 - 1)"

record hammer2_trans =
  tr_flags :: u32
  tr_sync_xid :: u32

record hammer2_fiterate =
  it_bpref :: u64
  it_bnext :: u64
  it_loops :: nat

section \<open>Places of freemap blocks\<close>

text \<open>
  The selection index of \<open>hammer2_freemap_reserve\<close>: where the block is now, and the next
  place of its rotation.
\<close>

definition reserve_next :: "nat \<Rightarrow> nat \<Rightarrow> nat \<Rightarrow> nat \<Rightarrow> nat \<Rightarrow> nat outcome" where
  "reserve_next lo hi first limit off =
     kkassert (off \<ge> lo \<and> off < hi) ''off''
       (let index = (off - HAMMER2_ZONE_FREEMAP_00) div 4
        in kkassert (index \<ge> first \<and> index < limit) ''index''
             (Ok (if index + 1 = limit then first else index + 1)))"

definition reserve_index :: "u32 \<Rightarrow> u64 \<Rightarrow> nat outcome" where
  "reserve_index flags data_off =
     (let fresh = (data_off AND NOT HAMMER2_OFF_MASK_RADIX = 0);
          off = unat ((data_off AND NOT HAMMER2_OFF_MASK_RADIX) AND
                      (push_bit HAMMER2_FREEMAP_LEVEL1_RADIX 1 - 1)) div HAMMER2_PBUFSIZE
      in if flags AND HAMMER2_TRANS_FREEBATCH \<noteq> 0 then
           (if fresh then Ok ((HAMMER2_ZONE_FREEMAP_06 - HAMMER2_ZONE_FREEMAP_00) div 4)
            else reserve_next HAMMER2_ZONE_FREEMAP_06 HAMMER2_ZONE_FREEMAP_08 6 8 off)
         else
           (if fresh then Ok 0
            else reserve_next HAMMER2_ZONE_FREEMAP_00 HAMMER2_ZONE_FREEMAP_06 0 6 off))"

text \<open>The level of a freemap block, from its \<open>keybits\<close>, with the assertions of the switch.\<close>

definition reserve_level :: "hammer2_blockref \<Rightarrow> nat \<Rightarrow> nat outcome" where
  "reserve_level bref bytes =
     (if br_keybits bref = of_nat HAMMER2_FREEMAP_LEVEL4_RADIX then
        kkassert (br_type bref = HAMMER2_BREF_TYPE_FREEMAP_NODE \<and> bytes = HAMMER2_FREEMAP_LEVELN_PSIZE) ''node'' (Ok 3)
      else if br_keybits bref = of_nat HAMMER2_FREEMAP_LEVEL3_RADIX then
        kkassert (br_type bref = HAMMER2_BREF_TYPE_FREEMAP_NODE \<and> bytes = HAMMER2_FREEMAP_LEVELN_PSIZE) ''node'' (Ok 2)
      else if br_keybits bref = of_nat HAMMER2_FREEMAP_LEVEL2_RADIX then
        kkassert (br_type bref = HAMMER2_BREF_TYPE_FREEMAP_NODE \<and> bytes = HAMMER2_FREEMAP_LEVELN_PSIZE) ''node'' (Ok 1)
      else if br_keybits bref = of_nat HAMMER2_FREEMAP_LEVEL1_RADIX then
        kkassert (br_type bref = HAMMER2_BREF_TYPE_FREEMAP_LEAF \<and> bytes = HAMMER2_FREEMAP_LEVELN_PSIZE) ''leaf'' (Ok 0)
      else Panic ''freemap: bad radix(2)'')"

definition hammer2_freemap_reserve :: "u32 \<Rightarrow> hammer2_blockref \<Rightarrow> nat \<Rightarrow> hammer2_blockref outcome" where
  "hammer2_freemap_reserve flags bref radix =
     obind (reserve_index flags (br_data_off bref)) (\<lambda>index.
       obind (reserve_level bref (2 ^ radix)) (\<lambda>level.
         (let off = H2FMBASE (br_key bref) (unat (br_keybits bref)) +
                    of_nat ((index * 4 + HAMMER2_ZONE_FREEMAP_00 + level) * HAMMER2_PBUFSIZE)
          in Ok (bref\<lparr>br_data_off := off OR of_nat radix\<rparr>))))"

section \<open>Leaves\<close>

record freemap_leaf =
  lf_bref :: hammer2_blockref
  lf_modified :: bool
  lf_bmdata :: "hammer2_bmap_data list"

type_synonym leaves = "u64 \<Rightarrow> freemap_leaf option"

text \<open>
  \<open>hammer2_chain_modify(trans, chain, 0)\<close> on a leaf: a block not yet placed, or not yet
  modified since the last flush, gets its next place through \<open>hammer2_freemap_alloc\<close>,
  which sends freemap blocks to \<open>hammer2_freemap_reserve\<close>.
\<close>

definition leaf_modify :: "u32 \<Rightarrow> freemap_leaf \<Rightarrow> freemap_leaf outcome" where
  "leaf_modify flags leaf =
     (if br_data_off (lf_bref leaf) AND NOT HAMMER2_OFF_MASK_RADIX = 0 \<or> \<not> lf_modified leaf then
        obind (hammer2_getradix (of_nat HAMMER2_FREEMAP_LEVELN_PSIZE)) (\<lambda>radix.
          kkassert (2 ^ radix = HAMMER2_FREEMAP_LEVELN_PSIZE) ''radix''
            (obind (hammer2_freemap_reserve flags (lf_bref leaf) radix) (\<lambda>bref.
               Ok (leaf\<lparr>lf_bref := bref, lf_modified := True\<rparr>))))
      else Ok leaf)"

definition bmap_zero :: hammer2_bmap_data where
  "bmap_zero = \<lparr>bm_linear = 0, bm_class = 0, bm_avail = 0, bm_bitmap = replicate 8 0\<rparr>"

text \<open>
  \<open>hammer2_chain_create\<close> of a leaf: a fresh blockref with only its radix in \<open>data_off\<close>,
  placed by the modification it ends with.
\<close>

definition leaf_create :: "u32 \<Rightarrow> u8 \<Rightarrow> u64 \<Rightarrow> freemap_leaf outcome" where
  "leaf_create flags methods key =
     obind (hammer2_getradix (of_nat HAMMER2_FREEMAP_LEVELN_PSIZE)) (\<lambda>radix.
       leaf_modify flags
         \<lparr>lf_bref = blockref_zero\<lparr>br_type := HAMMER2_BREF_TYPE_FREEMAP_LEAF, br_key := key,
                      br_keybits := of_nat HAMMER2_FREEMAP_LEVEL1_RADIX,
                      br_data_off := of_nat radix, br_methods := methods\<rparr>,
          lf_modified = False, lf_bmdata = replicate HAMMER2_FREEMAP_COUNT bmap_zero\<rparr>)"

text \<open>The bounds \<open>lokey\<close> and \<open>hikey\<close> of the usable part of a zone.\<close>

definition init_lokey :: "hammer2_mount \<Rightarrow> u64 \<Rightarrow> u64" where
  "init_lokey hmp key =
     (let lokey = (allocator_beg hmp + HAMMER2_SEGMASK64) AND NOT HAMMER2_SEGMASK64;
          zone = H2FMBASE key HAMMER2_FREEMAP_LEVEL1_RADIX + HAMMER2_ZONE_SEG64
      in if lokey < zone then zone else lokey)"

definition init_hikey :: "hammer2_mount \<Rightarrow> u64 \<Rightarrow> u64" where
  "init_hikey hmp key =
     (let hikey = key + H2FMSHIFT HAMMER2_FREEMAP_LEVEL1_RADIX
      in if hikey > volu_size hmp then volu_size hmp AND NOT HAMMER2_SEGMASK64 else hikey)"

text \<open>The loop over the entries: the new entries and the leaf's \<open>avail\<close>.\<close>

fun init_loop :: "u64 \<Rightarrow> u64 \<Rightarrow> u64 \<Rightarrow> hammer2_bmap_data list \<Rightarrow> u64 \<Rightarrow> hammer2_bmap_data list \<times> u64" where
  "init_loop lokey hikey key [] avail = ([], avail)"
| "init_loop lokey hikey key (b # bs) avail =
     (let (b', avail') =
        (if key < lokey \<or> key \<ge> hikey then
           (b\<lparr>bm_bitmap := replicate 8 0xFFFFFFFF, bm_avail := 0, bm_linear := 2097152\<rparr>,
            avail - H2FMSHIFT HAMMER2_FREEMAP_LEVEL0_RADIX)
         else (b\<lparr>bm_avail := 2097152\<rparr>, avail));
          (bs', avail'') = init_loop lokey hikey (key + H2FMSHIFT HAMMER2_FREEMAP_LEVEL0_RADIX) bs avail'
      in (b' # bs', avail''))"

definition hammer2_freemap_init :: "hammer2_mount \<Rightarrow> u64 \<Rightarrow> freemap_leaf \<Rightarrow> freemap_leaf" where
  "hammer2_freemap_init hmp key leaf =
     (let (bs, avail) = init_loop (init_lokey hmp key) (init_hikey hmp key) key (lf_bmdata leaf)
                          (H2FMSHIFT HAMMER2_FREEMAP_LEVEL1_RADIX);
          bref = lf_bref leaf
      in leaf\<lparr>lf_bmdata := bs,
              lf_bref := bref\<lparr>br_check := (br_check bref)\<lparr>ck_avail := avail\<rparr>\<rparr>\<rparr>)"

text \<open>The branch of \<open>hammer2_freemap_try_alloc\<close> for a missing leaf.\<close>

definition new_leaf :: "u32 \<Rightarrow> u8 \<Rightarrow> hammer2_mount \<Rightarrow> u64 \<Rightarrow> freemap_leaf outcome" where
  "new_leaf flags methods hmp key =
     obind (leaf_create flags methods key) (\<lambda>leaf.
       obind (leaf_modify flags leaf) (\<lambda>leaf.
         (let bref = lf_bref leaf;
              leaf' = leaf\<lparr>lf_bmdata := replicate HAMMER2_FREEMAP_COUNT bmap_zero,
                           lf_bref := bref\<lparr>br_check := (br_check bref)
                             \<lparr>ck_bigmask := 0xFFFFFFFF,
                              ck_avail := H2FMSHIFT HAMMER2_FREEMAP_LEVEL1_RADIX\<rparr>\<rparr>\<rparr>
          in Ok (hammer2_freemap_init hmp key leaf'))))"

section \<open>The search\<close>

text \<open>
  One probe of the scan over the 2 MB entries: \<open>None\<close> when the entry is out of range,
  exhausted, of another class, or has no space of this size.
\<close>

definition fm_probe ::
  "hammer2_mount \<Rightarrow> hammer2_bmap_data list \<Rightarrow> u16 \<Rightarrow> nat \<Rightarrow> u64 \<Rightarrow> int
   \<Rightarrow> (hammer2_mount \<times> hammer2_bmap_data list \<times> u64) option outcome" where
  "fm_probe hmp bmdata cls radix key n =
     (if 0 \<le> n \<and> n < int HAMMER2_FREEMAP_COUNT \<and> bm_avail (bmdata ! nat n) \<noteq> 0 \<and>
         (bm_class (bmdata ! nat n) = 0 \<or> bm_class (bmdata ! nat n) = cls) then
        obind (hammer2_bmap_alloc hmp (bmdata ! nat n) cls radix
                 (key + of_nat (nat n) * H2FMSHIFT HAMMER2_FREEMAP_LEVEL0_RADIX))
          (\<lambda>(error, hmp', bmap', base_key).
             Ok (if error \<noteq> ENOSPC then Some (hmp', bmdata[nat n := bmap'], base_key) else None))
      else Ok None)"

text \<open>The scan outwards from \<open>start\<close>.\<close>

function fm_scan ::
  "hammer2_mount \<Rightarrow> hammer2_bmap_data list \<Rightarrow> u16 \<Rightarrow> nat \<Rightarrow> u64 \<Rightarrow> int \<Rightarrow> int
   \<Rightarrow> (hammer2_mount \<times> hammer2_bmap_data list \<times> u64) option outcome" where
  "fm_scan hmp bmdata cls radix key start count =
     (if count < int HAMMER2_FREEMAP_COUNT then
        (if start + count \<ge> int HAMMER2_FREEMAP_COUNT \<and> start - count < 0 then Ok None
         else
           obind (fm_probe hmp bmdata cls radix key (start + count)) (\<lambda>r.
             (case r of
                Some x \<Rightarrow> Ok (Some x)
              | None \<Rightarrow>
                  obind (fm_probe hmp bmdata cls radix key (start - count)) (\<lambda>r.
                    (case r of
                       Some x \<Rightarrow> Ok (Some x)
                     | None \<Rightarrow> fm_scan hmp bmdata cls radix key start (count + 1))))))
      else Ok None)"
  by pat_completeness auto
termination
  by (relation "measure (\<lambda>(hmp, bmdata, cls, radix, key, start, count). nat (1024 - count))") auto

declare fm_scan.simps [simp del]

definition hammer2_freemap_iterate :: "hammer2_mount \<Rightarrow> hammer2_fiterate \<Rightarrow> errno \<times> hammer2_fiterate" where
  "hammer2_freemap_iterate hmp iter =
     (let bnext = (it_bnext iter AND NOT (H2FMSHIFT HAMMER2_FREEMAP_LEVEL1_RADIX - 1)) +
                  H2FMSHIFT HAMMER2_FREEMAP_LEVEL1_RADIX
      in if bnext \<ge> volu_size hmp then
           (let iter' = iter\<lparr>it_bnext := 0, it_loops := Suc (it_loops iter)\<rparr>
            in if it_loops iter' = 2 then (ENOSPC, iter') else (EAGAIN, iter'))
         else (EAGAIN, iter\<lparr>it_bnext := bnext\<rparr>))"

type_synonym try_result = "errno \<times> hammer2_mount \<times> leaves \<times> hammer2_blockref \<times> hammer2_fiterate"

text \<open>
  The leaf to scan: \<open>Inr\<close> the leaf, with \<open>True\<close> when it is to be scanned and \<open>False\<close> when
  its \<open>bigmask\<close> says that it has no space of this size.
\<close>

definition try_leaf ::
  "u32 \<Rightarrow> u8 \<Rightarrow> hammer2_mount \<Rightarrow> leaves \<Rightarrow> u64 \<Rightarrow> nat \<Rightarrow> (bool \<times> freemap_leaf) outcome" where
  "try_leaf flags methods hmp lvs key radix =
     (case lvs key of
        None \<Rightarrow> obind (new_leaf flags methods hmp key) (\<lambda>leaf. Ok (True, leaf))
      | Some leaf \<Rightarrow>
          if ck_bigmask (br_check (lf_bref leaf)) AND push_bit radix 1 = 0 then Ok (False, leaf)
          else obind (leaf_modify flags leaf) (\<lambda>leaf. Ok (True, leaf)))"

definition hammer2_freemap_try_alloc ::
  "u32 \<Rightarrow> u8 \<Rightarrow> hammer2_mount \<Rightarrow> leaves \<Rightarrow> hammer2_blockref \<Rightarrow> nat \<Rightarrow> hammer2_fiterate
   \<Rightarrow> try_result outcome" where
  "hammer2_freemap_try_alloc flags methods hmp lvs bref radix iter =
     (let cls = push_bit 8 (ucast (br_type bref)) OR of_nat (hammer2_devblkradix radix) :: u16;
          key = H2FMBASE (it_bnext iter) HAMMER2_FREEMAP_LEVEL1_RADIX
      in obind (try_leaf flags methods hmp lvs key radix) (\<lambda>(scan, leaf).
           if scan then
             (let start = int (unat (drop_bit HAMMER2_FREEMAP_LEVEL0_RADIX (it_bnext iter - key)))
              in kkassert (br_type (lf_bref leaf) = HAMMER2_BREF_TYPE_FREEMAP_LEAF \<and> start \<ge> 0 \<and>
                           start < int HAMMER2_FREEMAP_COUNT) ''start''
                   (obind (leaf_modify flags leaf) (\<lambda>leaf.
                      obind (fm_scan hmp (lf_bmdata leaf) cls radix key start 0) (\<lambda>r.
                        (case r of
                           Some (hmp', bmdata', key') \<Rightarrow>
                             kkassert (key' \<ge> allocator_beg hmp' \<and>
                                       key' + push_bit radix 1 \<le> volu_size hmp' \<and>
                                       key' AND HAMMER2_ZONE_MASK64 \<ge> HAMMER2_ZONE_SEG64) ''validity''
                               (Ok (E_OK, hmp', lvs(key \<mapsto> leaf\<lparr>lf_bmdata := bmdata'\<rparr>),
                                    bref\<lparr>br_data_off := key' OR of_nat radix\<rparr>, iter))
                         | None \<Rightarrow>
                             (let lb = lf_bref leaf;
                                  leaf' = leaf\<lparr>lf_bref := lb\<lparr>br_check := (br_check lb)
                                    \<lparr>ck_bigmask := ck_bigmask (br_check lb) AND NOT (push_bit radix 1)\<rparr>\<rparr>\<rparr>;
                                  (error, iter') = hammer2_freemap_iterate hmp iter
                              in Ok (error, hmp, lvs(key \<mapsto> leaf'), bref, iter')))))))
           else
             (let (error, iter') = hammer2_freemap_iterate hmp iter
              in Ok (error, hmp, lvs(key \<mapsto> leaf), bref, iter'))))"

text \<open>
  The loop of \<open>hammer2_freemap_alloc\<close>.  It visits each zone of the volume at most twice;
  the fuel counts the visits.
\<close>

fun alloc_loop ::
  "nat \<Rightarrow> u32 \<Rightarrow> u8 \<Rightarrow> hammer2_mount \<Rightarrow> leaves \<Rightarrow> hammer2_blockref \<Rightarrow> nat \<Rightarrow> hammer2_fiterate
   \<Rightarrow> try_result outcome" where
  "alloc_loop 0 flags methods hmp lvs bref radix iter = Fault ''endless loop''"
| "alloc_loop (Suc fuel) flags methods hmp lvs bref radix iter =
     obind (hammer2_freemap_try_alloc flags methods hmp lvs bref radix iter)
       (\<lambda>(error, hmp', lvs', bref', iter').
          if error = EAGAIN then alloc_loop fuel flags methods hmp' lvs' bref' radix iter'
          else Ok (error, hmp', lvs', bref', iter'))"

definition alloc_fuel :: "hammer2_mount \<Rightarrow> nat" where
  "alloc_fuel hmp = 2 * (unat (volu_size hmp) div 2 ^ HAMMER2_FREEMAP_LEVEL1_RADIX + 2) + 1"

definition heur_index :: "nat \<Rightarrow> u8 \<Rightarrow> nat outcome" where
  "heur_index radix type =
     (let h0 = hammer2_devblkradix radix - HAMMER2_MINIORADIX
      in kkassert (h0 < 4) ''hindex < HEUR_NRADIX''
           (let h1 = (h0 + unat type * 4) AND (8 * 4 - 1)
            in kkassert (h1 < 32) ''hindex < HEUR'' (Ok h1)))"

definition hammer2_freemap_alloc ::
  "hammer2_trans \<Rightarrow> u8 \<Rightarrow> hammer2_mount \<Rightarrow> leaves \<Rightarrow> hammer2_blockref \<Rightarrow> u64
   \<Rightarrow> (errno \<times> hammer2_trans \<times> hammer2_mount \<times> leaves \<times> hammer2_blockref) outcome" where
  "hammer2_freemap_alloc tr methods hmp lvs bref bytes =
     obind (hammer2_getradix bytes) (\<lambda>radix.
       kkassert (push_bit radix 1 = bytes) ''radix''
         (if br_type bref = HAMMER2_BREF_TYPE_FREEMAP_NODE \<or> br_type bref = HAMMER2_BREF_TYPE_FREEMAP_LEAF then
            obind (hammer2_freemap_reserve (tr_flags tr) bref radix) (\<lambda>bref'.
              Ok (E_OK, tr, hmp, lvs, bref'))
          else kkassert (bytes \<ge> 1024 \<and> bytes \<le> 65536) ''bytes''
            (let flush = (tr_flags tr AND (HAMMER2_TRANS_ISFLUSH OR HAMMER2_TRANS_PREFLUSH) \<noteq> 0);
                 tr1 = (if flush then tr\<lparr>tr_sync_xid := tr_sync_xid tr + 1\<rparr> else tr)
             in obind (heur_index radix (br_type bref)) (\<lambda>hindex.
                  (let bpref0 = heur_freemap hmp ! hindex;
                       bpref = (if bpref0 > volu_size hmp then volu_size hmp - 1 else bpref0);
                       iter = \<lparr>it_bpref = bpref, it_bnext = bpref, it_loops = 0\<rparr>
                   in obind (alloc_loop (alloc_fuel hmp) (tr_flags tr1) methods hmp lvs bref radix iter)
                        (\<lambda>(error, hmp', lvs', bref', iter').
                           (let hmp'' = hmp'\<lparr>heur_freemap := (heur_freemap hmp')[hindex := it_bnext iter']\<rparr>;
                                tr2 = (if flush then tr1\<lparr>tr_sync_xid := tr_sync_xid tr1 - 1\<rparr>
                                          else tr1)
                            in Ok (error, tr2, hmp'', lvs', bref'))))))))"

section \<open>Adjustment\<close>

text \<open>
  \<open>hammer2_freemap_adjust\<close>: recovery after a crash marks blocks as allocated; the bulk
  free scan stages and performs frees.
\<close>

datatype adjust_how = DORECOVER | DOMAYFREE | DOREALFREE

text \<open>
  One turn of the loop over the 2-bit pairs.  The first turn that changes anything
  modifies the leaf and resets the linear iterator (the \<open>goto again\<close>), then repeats.
\<close>

definition adjust_begin ::
  "u32 \<Rightarrow> nat \<Rightarrow> bool \<Rightarrow> freemap_leaf \<Rightarrow> freemap_leaf outcome" where
  "adjust_begin flags n modified leaf =
     (if modified then Ok leaf
      else obind (leaf_modify flags leaf) (\<lambda>leaf.
             Ok (leaf\<lparr>lf_bmdata := (lf_bmdata leaf)[n := (lf_bmdata leaf ! n)\<lparr>bm_linear := 0\<rparr>]\<rparr>)))"

definition adjust_set :: "nat \<Rightarrow> nat \<Rightarrow> u32 \<Rightarrow> freemap_leaf \<Rightarrow> freemap_leaf" where
  "adjust_set n i w leaf =
     (let b = lf_bmdata leaf ! n
      in leaf\<lparr>lf_bmdata := (lf_bmdata leaf)[n := b\<lparr>bm_bitmap := (bm_bitmap b)[i := w]\<rparr>]\<rparr>)"

definition adjust_one ::
  "u32 \<Rightarrow> adjust_how \<Rightarrow> u16 \<Rightarrow> nat \<Rightarrow> nat \<Rightarrow> nat \<Rightarrow> u32 \<Rightarrow> u32 \<Rightarrow> bool \<Rightarrow> freemap_leaf
   \<Rightarrow> (bool \<times> freemap_leaf) outcome" where
  "adjust_one flags how cls radix n i m10 m11 modified leaf =
     kkassert (m11 \<noteq> 0) ''bmmask11''
       (let w = bm_bitmap (lf_bmdata leaf ! n) ! i
        in if how = DORECOVER then
             (if w AND m11 \<noteq> m11 then
                obind (adjust_begin flags n modified leaf) (\<lambda>leaf.
                  (let b = lf_bmdata leaf ! n;
                       b1 = (if w AND m11 = 0 then b\<lparr>bm_avail := bm_avail b - push_bit radix 1\<rparr> else b);
                       b2 = (if bm_class b1 = 0 then b1\<lparr>bm_class := cls\<rparr> else b1);
                       leaf' = leaf\<lparr>lf_bmdata := (lf_bmdata leaf)[n := b2]\<rparr>
                   in Ok (True, adjust_set n i (w OR m11) leaf')))
              else Ok (modified, leaf))
           else if w AND m11 = m11 then
             obind (adjust_begin flags n modified leaf) (\<lambda>leaf.
               Ok (True, adjust_set n i
                 (if how = DOREALFREE then w AND NOT m11 else (w AND NOT m11) OR m10) leaf))
           else if w AND m11 = m10 then
             (if how = DOREALFREE then
                obind (adjust_begin flags n modified leaf) (\<lambda>leaf.
                  Ok (True, adjust_set n i (w AND NOT m11) leaf))
              else Ok (modified, leaf))
           else Panic ''hammer2_freemap_adjust: Illegal state'')"

fun adjust_loop ::
  "nat \<Rightarrow> u32 \<Rightarrow> adjust_how \<Rightarrow> u16 \<Rightarrow> nat \<Rightarrow> nat \<Rightarrow> nat \<Rightarrow> u32 \<Rightarrow> u32 \<Rightarrow> bool \<Rightarrow> freemap_leaf
   \<Rightarrow> (bool \<times> freemap_leaf) outcome" where
  "adjust_loop 0 flags how cls radix n i m10 m11 modified leaf = Ok (modified, leaf)"
| "adjust_loop (Suc count) flags how cls radix n i m10 m11 modified leaf =
     obind (adjust_one flags how cls radix n i m10 m11 modified leaf) (\<lambda>(modified', leaf').
       adjust_loop count flags how cls radix n i (push_bit 2 m10) (push_bit 2 m11) modified' leaf')"

text \<open>The end of a real free: the available bytes, and the class of an empty segment.\<close>

definition adjust_freed :: "nat \<Rightarrow> nat \<Rightarrow> freemap_leaf \<Rightarrow> freemap_leaf outcome" where
  "adjust_freed radix n leaf =
     (let b = (lf_bmdata leaf ! n)\<lparr>bm_avail := bm_avail (lf_bmdata leaf ! n) + push_bit radix 1\<rparr>
      in kkassert (bm_avail b \<le> 2097152) ''avail''
           (let b' = (if bm_avail b = 2097152 \<and> bm_bitmap b = replicate 8 0 then b\<lparr>bm_class := 0\<rparr> else b)
            in Ok (leaf\<lparr>lf_bmdata := (lf_bmdata leaf)[n := b']\<rparr>)))"

definition hammer2_freemap_adjust ::
  "u32 \<Rightarrow> u8 \<Rightarrow> hammer2_mount \<Rightarrow> leaves \<Rightarrow> hammer2_blockref \<Rightarrow> adjust_how \<Rightarrow> leaves outcome" where
  "hammer2_freemap_adjust flags methods hmp lvs bref how =
     (let radix = unat (br_data_off bref AND HAMMER2_OFF_MASK_RADIX);
          data_off = br_data_off bref AND NOT HAMMER2_OFF_MASK_RADIX
      in kkassert (radix \<le> HAMMER2_RADIX_MAX) ''radix''
           (let cls = push_bit 8 (ucast (br_type bref)) OR of_nat (hammer2_devblkradix radix) :: u16
            in if data_off < allocator_beg hmp then Ok lvs
               else kkassert (data_off AND HAMMER2_ZONE_MASK64 \<ge> HAMMER2_ZONE_SEG64) ''zone''
                 (let key = H2FMBASE data_off HAMMER2_FREEMAP_LEVEL1_RADIX;
                      start = (unat (drop_bit HAMMER2_FREEMAP_BLOCK_RADIX data_off) mod 16) * 2;
                      n = unat (drop_bit HAMMER2_SEGRADIX data_off) mod HAMMER2_FREEMAP_COUNT;
                      i = unat (drop_bit (HAMMER2_SEGRADIX - 3) data_off) mod 8;
                      how' = (if radix < HAMMER2_FREEMAP_BLOCK_RADIX \<and> how = DOREALFREE
                              then DOMAYFREE else how);
                      count = (if radix < HAMMER2_FREEMAP_BLOCK_RADIX then 1
                               else 2 ^ (radix - HAMMER2_FREEMAP_BLOCK_RADIX));
                      go = (\<lambda>leaf.
                        obind (adjust_loop count flags how' cls radix n i
                                 (push_bit start 2) (push_bit start 3) False leaf)
                          (\<lambda>(modified, leaf).
                             obind (if how' = DOREALFREE \<and> modified then adjust_freed radix n leaf else Ok leaf)
                               (\<lambda>leaf.
                                  (let lb = lf_bref leaf;
                                       leaf' = (if modified
                                         then leaf\<lparr>lf_bref := lb\<lparr>br_check := (br_check lb)
                                           \<lparr>ck_bigmask := ck_bigmask (br_check lb) OR push_bit radix 1\<rparr>\<rparr>\<rparr>
                                         else leaf)
                                   in Ok (lvs(key \<mapsto> leaf'))))))
                  in case lvs key of
                       Some leaf \<Rightarrow> go leaf
                     | None \<Rightarrow>
                         if how = DORECOVER then obind (new_leaf flags methods hmp key) go
                         else Ok lvs)))"

section \<open>Lemmas on places\<close>

definition reserve_off :: "u64 \<Rightarrow> nat \<Rightarrow> nat \<Rightarrow> u64" where
  "reserve_off key kb slot = H2FMBASE key kb + of_nat (slot * HAMMER2_PBUFSIZE)"

lemma shift_minus_1: "push_bit r 1 - 1 = (mask r :: 'a::len word)"
  by (simp add: mask_eq_exp_minus_1)

lemma unat_H2FMBASE: "unat (H2FMBASE key r) = unat key - unat key mod 2 ^ r"
  unfolding H2FMBASE_def shift_minus_1 by (rule unat_and_not_mask)

lemma H2FMBASE_dvd: "2 ^ r dvd unat (H2FMBASE key r)"
  by (simp add: unat_H2FMBASE minus_mod_eq_mult_div)

lemma H2FMBASE_dvd31: "31 \<le> kb \<Longrightarrow> 2 ^ 31 dvd unat (H2FMBASE key kb)"
  using H2FMBASE_dvd [of kb key] le_imp_power_dvd dvd_trans by blast

lemma zone_room:
  assumes "2 ^ 31 dvd unat (b :: u64)"
  shows "unat b + 2 ^ 31 \<le> 2 ^ 64"
proof -
  obtain q where q: "unat b = 2147483648 * q" using assms by (auto elim!: dvdE)
  with u64_bound [of b] have "q < 8589934592" by simp
  with q show ?thesis by simp
qed

lemma unat_reserve_off:
  assumes "31 \<le> kb" "slot < 64"
  shows "unat (reserve_off key kb slot) = unat (H2FMBASE key kb) + slot * 65536"
proof -
  have s: "slot * 65536 < 2 ^ 31" using assms(2) by simp
  have "unat (of_nat (slot * 65536) :: u64) = slot * 65536"
    by (rule unat_of_nat_small) (use s in simp)
  then show ?thesis
    using zone_room [OF H2FMBASE_dvd31 [OF assms(1), of key]] s
    by (simp add: reserve_off_def unat_plus_noverflow)
qed

lemma reserve_off_mod:
  assumes "31 \<le> kb" "slot < 64"
  shows "unat (reserve_off key kb slot) mod 65536 = 0"
    and "unat (reserve_off key kb slot) mod 2 ^ 31 = slot * 65536"
proof -
  obtain q where q: "unat (H2FMBASE key kb) = 2147483648 * q"
    using H2FMBASE_dvd31 [OF assms(1), of key] by (auto elim!: dvdE)
  have u: "unat (reserve_off key kb slot) = 2147483648 * q + slot * 65536"
    using unat_reserve_off [OF assms] q by simp
  have "unat (reserve_off key kb slot) = (32768 * q + slot) * 65536" using u by simp
  then show "unat (reserve_off key kb slot) mod 65536 = 0" by (simp only: mod_mult_self2_is_0)
  show "unat (reserve_off key kb slot) mod 2 ^ 31 = slot * 65536" unfolding u using assms(2) by simp
qed

lemma or_16_and_not_63:
  assumes "unat (x :: u64) mod 64 = 0"
  shows "(x OR 16) AND NOT 63 = x"
proof -
  have m: "(63 :: u64) = mask 6" by (simp add: mask_numeral)
  have "unat (x AND NOT 63) = unat x" unfolding m unat_and_not_mask using assms by simp
  then have "x AND NOT 63 = x" by (rule unat_eqI)
  moreover have "(16 :: u64) AND NOT 63 = 0" by simp
  ultimately show ?thesis by (simp only: bit.conj_disj_distrib2) simp
qed

lemma reserve_off_masked:
  assumes "31 \<le> kb" "slot < 64"
  shows "(reserve_off key kb slot OR 16) AND NOT 63 = reserve_off key kb slot"
    and "unat (reserve_off key kb slot AND (push_bit 31 1 - 1)) div 65536 = slot"
    and "0 < slot \<Longrightarrow> reserve_off key kb slot \<noteq> 0"
proof -
  have "65536 dvd unat (reserve_off key kb slot)"
    using reserve_off_mod(1) [OF assms, of key] by (rule mod_0_imp_dvd)
  then have "64 dvd unat (reserve_off key kb slot)" by (rule dvd_trans [rotated]) simp
  then have "unat (reserve_off key kb slot) mod 64 = 0" by (rule dvd_imp_mod_0)
  then show "(reserve_off key kb slot OR 16) AND NOT 63 = reserve_off key kb slot"
    by (rule or_16_and_not_63)
  show "unat (reserve_off key kb slot AND (push_bit 31 1 - 1)) div 65536 = slot"
    unfolding shift_minus_1 unat_and_mask reserve_off_mod(2) [OF assms] by simp
  show "reserve_off key kb slot \<noteq> 0" if "0 < slot"
    using unat_reserve_off [OF assms, of key] that by auto
qed

text \<open>The sections of a kind of transaction: first one and number.\<close>

definition section_first :: "u32 \<Rightarrow> nat" where
  "section_first flags = (if flags AND HAMMER2_TRANS_FREEBATCH \<noteq> 0 then 6 else 0)"

definition section_count :: "u32 \<Rightarrow> nat" where
  "section_count flags = (if flags AND HAMMER2_TRANS_FREEBATCH \<noteq> 0 then 2 else 6)"

lemma reserve_index_fresh:
  "data_off AND NOT 63 = 0 \<Longrightarrow> reserve_index flags data_off = Ok (section_first flags)"
  by (simp add: reserve_index_def section_first_def Let_def)

lemma reserve_nextD:
  "reserve_next lo hi first limit off = Ok i \<Longrightarrow> first \<le> i \<and> i < limit"
  by (auto simp: reserve_next_def Let_def split: if_splits)

lemma reserve_indexD:
  assumes "reserve_index flags data_off = Ok i"
  shows "section_first flags \<le> i \<and> i < section_first flags + section_count flags"
proof -
  let ?off = "unat ((data_off AND NOT HAMMER2_OFF_MASK_RADIX) AND
                      (push_bit HAMMER2_FREEMAP_LEVEL1_RADIX 1 - 1)) div HAMMER2_PBUFSIZE"
  show ?thesis
    using assms reserve_nextD [of 25 33 6 8 ?off i] reserve_nextD [of 1 25 0 6 ?off i]
    unfolding reserve_index_def Let_def section_first_def section_count_def
    by (simp split: if_splits)
qed

lemma reserve_index_next:
  assumes "31 \<le> kb" "level < 4" "k < section_count flags"
  shows "reserve_index flags (reserve_off key kb ((section_first flags + k) * 4 + 1 + level) OR 16) =
         Ok (section_first flags + (if Suc k = section_count flags then 0 else Suc k))"
proof -
  define slot where "slot = (section_first flags + k) * 4 + 1 + level"
  have s: "slot < 64" and pos: "0 < slot"
    using assms by (auto simp: slot_def section_first_def section_count_def split: if_splits)
  have d: "(slot - 1) div 4 = section_first flags + k" using assms(2) by (simp add: slot_def)
  define x where "x = reserve_off key kb slot"
  have x: "(x OR 16) AND NOT 63 = x" "unat (x AND (push_bit 31 1 - 1)) div 65536 = slot" "x \<noteq> 0"
    unfolding x_def using reserve_off_masked [OF assms(1) s, of key] pos by blast+
  have eq: "reserve_index flags (x OR 16) =
      (if flags AND 16 \<noteq> 0 then reserve_next 25 33 6 8 slot else reserve_next 1 25 0 6 slot)"
    unfolding reserve_index_def Let_def x(1,2) using x(3) by simp
  show ?thesis
  proof (cases "flags AND 16 = 0")
    case True
    then have f: "section_first flags = 0" "section_count flags = 6"
      by (simp_all add: section_first_def section_count_def)
    have "1 \<le> slot" "slot < 25" "k < 6" using f assms(2,3) by (auto simp: slot_def)
    then have "reserve_next 1 25 0 6 slot = Ok (if Suc k = 6 then 0 else Suc k)"
      using d f by (simp add: reserve_next_def)
    with True f show ?thesis unfolding slot_def [symmetric] x_def [symmetric] eq by simp
  next
    case False
    then have f: "section_first flags = 6" "section_count flags = 2"
      by (simp_all add: section_first_def section_count_def)
    have "25 \<le> slot" "slot < 33" "k < 2" using f assms(2,3) by (auto simp: slot_def)
    then have "reserve_next 25 33 6 8 slot = Ok (6 + (if Suc k = 2 then 0 else Suc k))"
      using d f by (simp add: reserve_next_def)
    with False f show ?thesis unfolding slot_def [symmetric] x_def [symmetric] eq by simp
  qed
qed

end
