(* ===== verification/H2_Reserve.thy ===== *)
theory H2_Reserve
  imports H2_Freemap
begin

unbundle bit_operations_syntax

text \<open>
  The rotation of the freemap's own blocks through the reserved area of each zone, and
  the adjustment of the bitmap by recovery and by the bulk free scan.
\<close>

section \<open>Rotation\<close>

fun reserve_times :: "u32 \<Rightarrow> nat \<Rightarrow> hammer2_blockref \<Rightarrow> hammer2_blockref outcome" where
  "reserve_times flags 0 bref = Ok bref"
| "reserve_times flags (Suc k) bref =
     obind (reserve_times flags k bref) (\<lambda>bref'. hammer2_freemap_reserve flags bref' HAMMER2_PBUFRADIX)"

lemma reserve_levelD:
  assumes "reserve_level bref 65536 = Ok level"
  shows "level < 4 \<and> unat (br_keybits bref) = 31 + 10 * level"
  using assms by (auto simp: reserve_level_def split: if_splits)

lemma reserve_at:
  assumes "reserve_level bref 65536 = Ok level" "reserve_index flags (br_data_off bref) = Ok index"
  shows "hammer2_freemap_reserve flags bref 16 =
    Ok (bref\<lparr>br_data_off := reserve_off (br_key bref) (31 + 10 * level) (index * 4 + 1 + level) OR 16\<rparr>)"
  using assms reserve_levelD [OF assms(1)]
  by (simp add: hammer2_freemap_reserve_def reserve_off_def Let_def)

lemma reserve_level_data_off [simp]:
  "reserve_level (bref\<lparr>br_data_off := x\<rparr>) bytes = reserve_level bref bytes"
  by (simp add: reserve_level_def)

lemma reserve_times_eq:
  assumes level: "reserve_level bref 65536 = Ok level" and fresh: "br_data_off bref AND NOT 63 = 0"
  shows "reserve_times flags (Suc k) bref =
    Ok (bref\<lparr>br_data_off := reserve_off (br_key bref) (31 + 10 * level)
          ((section_first flags + k mod section_count flags) * 4 + 1 + level) OR 16\<rparr>)"
proof (induction k)
  case 0
  show ?case using reserve_at [OF level reserve_index_fresh [OF fresh, of flags]] by simp
next
  case (Suc k)
  let ?k = "k mod section_count flags"
  let ?b = "bref\<lparr>br_data_off := reserve_off (br_key bref) (31 + 10 * level)
          ((section_first flags + ?k) * 4 + 1 + level) OR 16\<rparr>"
  have pos: "?k < section_count flags" by (simp add: section_count_def)
  have "reserve_index flags (br_data_off ?b) =
      Ok (section_first flags + (if Suc ?k = section_count flags then 0 else Suc ?k))"
    using reserve_index_next [of "31 + 10 * level" level ?k flags "br_key bref"]
      reserve_levelD [OF level] pos by simp
  moreover have "(if Suc ?k = section_count flags then 0 else Suc ?k) = Suc k mod section_count flags"
    by (simp add: mod_Suc)
  ultimately have "hammer2_freemap_reserve flags ?b 16 =
     Ok (?b\<lparr>br_data_off := reserve_off (br_key bref) (31 + 10 * level)
          ((section_first flags + Suc k mod section_count flags) * 4 + 1 + level) OR 16\<rparr>)"
    using reserve_at [of ?b level flags] level by simp
  then show ?case using Suc.IH by simp
qed

lemma reserve_off_inj:
  assumes "31 \<le> kb1" "31 \<le> kb2" "s1 < 64" "s2 < 64"
    and "reserve_off key1 kb1 s1 = reserve_off key2 kb2 s2"
  shows "H2FMBASE key1 kb1 = H2FMBASE key2 kb2 \<and> s1 = s2"
proof -
  have "s1 = s2"
    using reserve_off_mod(2) [OF assms(1,3), of key1] reserve_off_mod(2) [OF assms(2,4), of key2] assms(5)
    by simp
  moreover have "unat (H2FMBASE key1 kb1) + s1 * 65536 = unat (H2FMBASE key2 kb2) + s2 * 65536"
    using unat_reserve_off [OF assms(1,3), of key1] unat_reserve_off [OF assms(2,4), of key2] assms(5)
    by simp
  ultimately show ?thesis by (auto intro: unat_eqI)
qed

section \<open>Properties of the rotation\<close>

definition ex_leaf_bref :: hammer2_blockref where
  "ex_leaf_bref = blockref_zero\<lparr>br_type := HAMMER2_BREF_TYPE_FREEMAP_LEAF, br_key := 0x80000000,
     br_keybits := 31, br_data_off := 16\<rparr>"

text \<open>
  A freemap block that starts unplaced and is rewritten any number of times never
  fails an assertion and cycles through its places: six for normal transactions and two
  others for batch-free transactions, so that rewriting a block never overwrites the
  copies of the previous five (one) flushes.
\<close>

theorem reserve_rotation:
  assumes "reserve_level bref HAMMER2_FREEMAP_LEVELN_PSIZE = Ok level"
    and "br_data_off bref AND NOT HAMMER2_OFF_MASK_RADIX = 0"
  shows "reserve_times flags (Suc k) bref =
    Ok (bref\<lparr>br_data_off := reserve_off (br_key bref) (31 + 10 * level)
          ((section_first flags + k mod section_count flags) * 4 + 1 + level) OR 16\<rparr>)"
  by (rule reserve_times_eq [OF assms])

text \<open>
  C34: places of freemap blocks lie between 64 KB and 4 MB of a 2 GB zone, which the block
  allocator never hands out, are 64 KB aligned, and two blocks share a place only when
  they are the same block (same base key, same level) in the same section; blocks of
  normal and of batch-free transactions never share one.
\<close>

theorem reserve_disjoint:
  assumes "hammer2_freemap_reserve f1 b1 HAMMER2_PBUFRADIX = Ok b1'"
    and "hammer2_freemap_reserve f2 b2 HAMMER2_PBUFRADIX = Ok b2'"
  shows "let o1 = unat (br_data_off b1' AND NOT HAMMER2_OFF_MASK_RADIX);
             o2 = unat (br_data_off b2' AND NOT HAMMER2_OFF_MASK_RADIX)
         in 65536 \<le> o1 mod 2 ^ 31 \<and> o1 mod 2 ^ 31 + 65536 \<le> 4 * 1024 * 1024 \<and> 65536 dvd o1 \<and>
            ({o1..<o1 + 65536} \<inter> {o2..<o2 + 65536} \<noteq> {} \<longrightarrow>
               br_keybits b1 = br_keybits b2 \<and>
               H2FMBASE (br_key b1) (unat (br_keybits b1)) = H2FMBASE (br_key b2) (unat (br_keybits b2)) \<and>
               section_first f1 = section_first f2)"
proof -
  obtain i1 l1 where 1: "reserve_index f1 (br_data_off b1) = Ok i1" "reserve_level b1 65536 = Ok l1"
    using assms(1) by (auto simp: hammer2_freemap_reserve_def obind_eq_Ok)
  obtain i2 l2 where 2: "reserve_index f2 (br_data_off b2) = Ok i2" "reserve_level b2 65536 = Ok l2"
    using assms(2) by (auto simp: hammer2_freemap_reserve_def obind_eq_Ok)
  note l = reserve_levelD [OF 1(2)] reserve_levelD [OF 2(2)]
  have i: "i1 < 8 \<and> (i1 \<ge> 6 \<longleftrightarrow> section_first f1 = 6)" "i2 < 8 \<and> (i2 \<ge> 6 \<longleftrightarrow> section_first f2 = 6)"
    using reserve_indexD [OF 1(1)] reserve_indexD [OF 2(1)]
    by (auto simp: section_first_def section_count_def split: if_splits)
  let ?s1 = "i1 * 4 + 1 + l1" and ?s2 = "i2 * 4 + 1 + l2"
  let ?o1 = "reserve_off (br_key b1) (31 + 10 * l1) ?s1" and ?o2 = "reserve_off (br_key b2) (31 + 10 * l2) ?s2"
  have s: "?s1 < 64" "?s2 < 64" "?s1 \<le> 32" using l i by auto
  have kb: "31 \<le> 31 + 10 * l1" "31 \<le> 31 + 10 * l2" by auto
  have b': "br_data_off b1' AND NOT 63 = ?o1" "br_data_off b2' AND NOT 63 = ?o2"
    using assms reserve_at [OF 1(2,1)] reserve_at [OF 2(2,1)]
      reserve_off_masked(1) [OF kb(1) s(1), of "br_key b1"] reserve_off_masked(1) [OF kb(2) s(2), of "br_key b2"]
    by auto
  note m = reserve_off_mod [OF kb(1) s(1), of "br_key b1"] reserve_off_mod(1) [OF kb(2) s(2), of "br_key b2"]
  have d: "65536 dvd unat ?o1" "65536 dvd unat ?o2" using m(1,3) by (auto intro: mod_0_imp_dvd)
  have same: "br_keybits b1 = br_keybits b2 \<and>
      H2FMBASE (br_key b1) (unat (br_keybits b1)) = H2FMBASE (br_key b2) (unat (br_keybits b2)) \<and>
      section_first f1 = section_first f2"
    if "{unat ?o1..<unat ?o1 + 65536} \<inter> {unat ?o2..<unat ?o2 + 65536} \<noteq> {}"
  proof -
    have "unat ?o1 < unat ?o2 + 65536" "unat ?o2 < unat ?o1 + 65536" using that by auto
    with d have "unat ?o1 = unat ?o2" by (auto elim!: dvdE)
    then have eq: "?o1 = ?o2" by (rule unat_eqI)
    from reserve_off_inj [OF kb s(1,2) eq]
    have base: "H2FMBASE (br_key b1) (31 + 10 * l1) = H2FMBASE (br_key b2) (31 + 10 * l2)"
      and s12: "?s1 = ?s2" by auto
    have "i1 = (?s1 - 1) div 4" "i2 = (?s2 - 1) div 4" using l by simp_all
    then have "i1 = i2" using s12 by simp
    with s12 have "i1 = i2 \<and> l1 = l2" by simp
    then show ?thesis using base l i
      by (auto simp: section_first_def split: if_splits intro: unat_eqI)
  qed
  have "65536 \<le> unat ?o1 mod 2 ^ 31" "unat ?o1 mod 2 ^ 31 + 65536 \<le> 4 * 1024 * 1024"
    using m(2) s(3) by auto
  then show ?thesis unfolding Let_def b' using d same by blast
qed

theorem reserve_disjoint_witness:
  "let b = ex_leaf_bref\<lparr>br_data_off := 0x80010010\<rparr>
   in hammer2_freemap_reserve 0 ex_leaf_bref 16 = Ok b \<and>
      65536 \<le> unat (br_data_off b AND NOT 63) mod 2 ^ 31"
proof -
  have r: "hammer2_freemap_reserve 0 ex_leaf_bref 16 = Ok (ex_leaf_bref\<lparr>br_data_off := 0x80010010\<rparr>)"
    by (simp add: hammer2_freemap_reserve_def reserve_index_def reserve_level_def ex_leaf_bref_def
        H2FMBASE_def Let_def)
  show ?thesis using reserve_disjoint [OF r r] r by (simp add: Let_def)
qed

end
