(* ===== verification/H2_Alloc.thy ===== *)
theory H2_Alloc
  imports H2_Freemap
begin

unbundle bit_operations_syntax

text \<open>
  Correctness of the block allocator over the whole volume.  The ghost value is the set
  of media bytes handed out; the invariant says that every leaf of the freemap describes
  exactly that set together with the bytes of its zone that are reserved (the static area
  of \<^verbatim>\<open>newfs_hammer2\<close>, the first 4 MB of the zone, the space past the end of the volume).
\<close>

section \<open>The invariant\<close>

text \<open>A 2 MB segment, given by its base, that \<open>hammer2_freemap_init\<close> marks as allocated.\<close>

definition seg_reserved :: "hammer2_mount \<Rightarrow> nat \<Rightarrow> bool" where
  "seg_reserved hmp base \<longleftrightarrow>
     (let key = of_nat (base - base mod 2 ^ 31)
      in base < unat (init_lokey hmp key) \<or> unat (init_hikey hmp key) \<le> base)"

definition seg_used :: "hammer2_mount \<Rightarrow> nat set \<Rightarrow> nat \<Rightarrow> nat set" where
  "seg_used hmp allocs base = {x. x < HAMMER2_SEGSIZE \<and> (base + x \<in> allocs \<or> seg_reserved hmp base)}"

definition leaf_ok :: "hammer2_mount \<Rightarrow> nat set \<Rightarrow> u64 \<Rightarrow> freemap_leaf \<Rightarrow> bool" where
  "leaf_ok hmp allocs key leaf \<longleftrightarrow>
     unat key mod 2 ^ 31 = 0 \<and> length (lf_bmdata leaf) = HAMMER2_FREEMAP_COUNT \<and>
     (\<forall>n<HAMMER2_FREEMAP_COUNT.
        bmap_inv (lf_bmdata leaf ! n) (seg_used hmp allocs (unat key + n * HAMMER2_SEGSIZE))) \<and>
     br_type (lf_bref leaf) = HAMMER2_BREF_TYPE_FREEMAP_LEAF \<and>
     unat (br_keybits (lf_bref leaf)) = 31 \<and> br_key (lf_bref leaf) = key \<and>
     (br_data_off (lf_bref leaf) AND NOT 63 = 0 \<or>
      (\<exists>k<6. br_data_off (lf_bref leaf) = reserve_off key 31 (k * 4 + 1) OR 16))"

definition zone_key :: "nat \<Rightarrow> u64" where
  "zone_key x = of_nat (x - x mod 2 ^ 31)"

definition freemap_inv :: "hammer2_mount \<Rightarrow> leaves \<Rightarrow> nat set \<Rightarrow> bool" where
  "freemap_inv hmp lvs allocs \<longleftrightarrow>
     (\<forall>key leaf. lvs key = Some leaf \<longrightarrow> leaf_ok hmp allocs key leaf) \<and>
     (\<forall>x\<in>allocs. x < 2 ^ 64 \<and> lvs (zone_key x) \<noteq> None)"

definition vol_ok :: "hammer2_mount \<Rightarrow> bool" where
  "vol_ok hmp \<longleftrightarrow> 0 < unat (volu_size hmp) \<and> unat (volu_size hmp) \<le> 2 ^ 63 \<and>
     unat (allocator_beg hmp) \<le> unat (volu_size hmp) \<and> length (heur_freemap hmp) = 32"

section \<open>Reserved segments\<close>

lemma segmask: "(2097151 :: u64) = mask 21"
  by (simp add: mask_numeral)

lemma zone_key_add:
  assumes "unat key mod 2 ^ 31 = 0" "d < 2 ^ 31"
  shows "zone_key (unat key + d) = key" and "(unat key + d) - (unat key + d) mod 2 ^ 31 = unat key"
proof -
  obtain q where q: "unat key = 2147483648 * q" using assms(1) by (auto elim!: dvdE simp: mod_eq_0_iff_dvd)
  have "(unat key + d) mod 2 ^ 31 = d" unfolding q using assms(2) by simp
  then show e: "(unat key + d) - (unat key + d) mod 2 ^ 31 = unat key" by simp
  show "zone_key (unat key + d) = key" unfolding zone_key_def e by simp
qed

lemma unat_init_lokey:
  assumes "unat key mod 2 ^ 31 = 0" "unat (allocator_beg hmp) \<le> 2 ^ 63"
  shows "unat (allocator_beg hmp) \<le> unat (init_lokey hmp key) \<and>
         unat key + 4194304 \<le> unat (init_lokey hmp key)"
proof -
  have b: "H2FMBASE key 31 = key" using assms(1) by (intro unat_eqI) (simp add: unat_H2FMBASE)
  have "2 ^ 31 dvd unat key" using assms(1) by (rule mod_0_imp_dvd)
  then have zr: "unat key + 2 ^ 31 \<le> 2 ^ 64" by (rule zone_room)
  have z: "unat (key + 4194304) = unat key + 4194304"
    using zr by (subst unat_plus_noverflow) auto
  let ?a = "allocator_beg hmp + 2097151"
  have a: "unat ?a = unat (allocator_beg hmp) + 2097151"
    using assms(2) by (subst unat_plus_noverflow) auto
  have "unat (?a AND NOT 2097151) = unat ?a - unat ?a mod 2097152"
    unfolding segmask unat_and_not_mask by simp
  moreover have "unat ?a mod 2097152 \<le> 2097151" by (simp add: less_Suc_eq_le [symmetric])
  ultimately have "unat (allocator_beg hmp) \<le> unat (?a AND NOT 2097151)" using a by linarith
  then show ?thesis
    using z by (simp add: init_lokey_def Let_def b word_less_unat)
qed

lemma unat_init_hikey:
  assumes "unat key mod 2 ^ 31 = 0" "unat key \<le> 2 ^ 63"
  shows "unat (init_hikey hmp key) \<le> unat (volu_size hmp) \<and> 2097152 dvd unat (init_hikey hmp key)"
proof -
  have h: "unat (key + H2FMSHIFT 31) = unat key + 2147483648"
    unfolding H2FMSHIFT_def using assms(2) by (subst unat_plus_noverflow) (auto simp: unat_pow2)
  have "2097152 dvd unat (volu_size hmp AND NOT 2097151)"
    unfolding segmask unat_and_not_mask by (simp add: minus_mod_eq_mult_div)
  moreover have "unat (volu_size hmp AND NOT 2097151) \<le> unat (volu_size hmp)"
    unfolding segmask unat_and_not_mask by simp
  moreover have "2097152 dvd unat key + 2147483648"
  proof -
    have "2147483648 dvd unat key" using assms(1) by (simp add: mod_eq_0_iff_dvd)
    then have "2097152 dvd unat key" by (rule dvd_trans [rotated]) simp
    then show ?thesis by simp
  qed
  ultimately show ?thesis using h by (simp add: init_hikey_def Let_def word_less_unat not_less)
qed

text \<open>A segment that is not reserved is usable: the conditions the allocator asserts.\<close>

lemma usable_segment:
  assumes vol: "vol_ok hmp" and key: "unat (key :: u64) mod 2 ^ 31 = 0" "unat key \<le> 2 ^ 63"
    and n: "n < 1024" and ok: "\<not> seg_reserved hmp (unat key + n * 2097152)"
  shows "unat (allocator_beg hmp) \<le> unat key + n * 2097152 \<and>
         unat key + n * 2097152 + 2097152 \<le> unat (volu_size hmp) \<and> 2 \<le> n"
proof -
  let ?base = "unat key + n * 2097152"
  have d: "n * 2097152 < 2 ^ 31" using n by simp
  note z = zone_key_add [OF key(1) d]
  have lo: "unat (init_lokey hmp key) \<le> ?base" and hi: "?base < unat (init_hikey hmp key)"
    using ok z by (auto simp: seg_reserved_def zone_key_def)
  have "unat (allocator_beg hmp) \<le> 2 ^ 63" using vol by (auto simp: vol_ok_def)
  note l = unat_init_lokey [OF key(1) this] and h = unat_init_hikey [OF key, of hmp]
  have "2097152 dvd ?base"
  proof -
    have "2147483648 dvd unat key" using key(1) by (simp add: mod_eq_0_iff_dvd)
    then have "2097152 dvd unat key" by (rule dvd_trans [rotated]) simp
    then show ?thesis by simp
  qed
  then have "?base + 2097152 \<le> unat (init_hikey hmp key)" using dvd_less_add_le hi h by blast
  with l h lo show ?thesis by auto
qed

section \<open>Segments and extents\<close>

lemma extent_top: "extent off radix \<subseteq> {..<n} \<Longrightarrow> off + 2 ^ radix \<le> n"
proof -
  assume a: "extent off radix \<subseteq> {..<n}"
  have "(1::nat) \<le> 2 ^ radix" by simp
  then have "off \<le> off + 2 ^ radix - 1" "off + 2 ^ radix - 1 < off + 2 ^ radix" by linarith+
  then have "off + 2 ^ radix - 1 \<in> extent off radix" by (simp add: extent_def)
  with a have "off + 2 ^ radix - 1 < n" by auto
  with \<open>1 \<le> 2 ^ radix\<close> show ?thesis by linarith
qed

lemma seg_used_other:
  assumes "2097152 dvd base" "2097152 dvd base0" "base \<noteq> base0" "extent off radix \<subseteq> {..<2097152}"
  shows "seg_used hmp (allocs \<union> extent (base0 + off) radix) base = seg_used hmp allocs base"
proof -
  have "base + x \<notin> extent (base0 + off) radix" if x: "x < 2097152" for x
  proof
    assume "base + x \<in> extent (base0 + off) radix"
    then have y: "base0 + off \<le> base + x" "base + x < base0 + off + 2 ^ radix" by (auto simp: extent_def)
    then have "off + (2 ^ radix - 1) \<in> extent off radix" by (simp add: extent_def)
    then have "off + (2 ^ radix - 1) < 2097152" using assms(4) by auto
    then have "base0 \<le> base + x" "base + x < base0 + 2097152" using y by auto
    then show False using assms(1-3) x by (auto elim!: dvdE)
  qed
  then show ?thesis by (auto simp: seg_used_def)
qed

lemma seg_used_same:
  assumes "extent off radix \<subseteq> {..<2097152}"
  shows "seg_used hmp (allocs \<union> extent (base + off) radix) base = seg_used hmp allocs base \<union> extent off radix"
  using assms by (auto simp: seg_used_def extent_def)

section \<open>Leaves\<close>

lemma getradix_leaf: "hammer2_getradix (of_nat HAMMER2_FREEMAP_LEVELN_PSIZE) = Ok 16"
  using getradix_const by simp

lemma reserve_level_leaf:
  "br_type bref = HAMMER2_BREF_TYPE_FREEMAP_LEAF \<Longrightarrow> unat (br_keybits bref) = 31 \<Longrightarrow>
   reserve_level bref 65536 = Ok 0"
proof -
  assume t: "br_type bref = HAMMER2_BREF_TYPE_FREEMAP_LEAF" and k: "unat (br_keybits bref) = 31"
  have "br_keybits bref = 31" by (rule unat_eqI) (use k in simp)
  with t show ?thesis by (simp add: reserve_level_def)
qed

lemma leaf_reserve:
  assumes normal: "flags AND HAMMER2_TRANS_FREEBATCH = 0"
    and bref: "br_type bref = HAMMER2_BREF_TYPE_FREEMAP_LEAF" "unat (br_keybits bref) = 31"
    and off: "br_data_off bref AND NOT 63 = 0 \<or>
              (\<exists>k<6. br_data_off bref = reserve_off (br_key bref) 31 (k * 4 + 1) OR 16)"
  shows "\<exists>k<6. hammer2_freemap_reserve flags bref 16 =
           Ok (bref\<lparr>br_data_off := reserve_off (br_key bref) 31 (k * 4 + 1) OR 16\<rparr>)"
proof -
  have sec: "section_first flags = 0" "section_count flags = 6"
    using normal by (simp_all add: section_first_def section_count_def)
  have "\<exists>i<6. reserve_index flags (br_data_off bref) = Ok i"
    using off
  proof
    assume "br_data_off bref AND NOT 63 = 0"
    then show ?thesis using reserve_index_fresh [of "br_data_off bref" flags] sec by auto
  next
    assume "\<exists>k<6. br_data_off bref = reserve_off (br_key bref) 31 (k * 4 + 1) OR 16"
    then obtain k where k: "k < 6" "br_data_off bref = reserve_off (br_key bref) 31 (k * 4 + 1) OR 16"
      by blast
    then have "reserve_index flags (br_data_off bref) = Ok (if Suc k = 6 then 0 else Suc k)"
      using reserve_index_next [of 31 0 k flags "br_key bref"] sec by simp
    then show ?thesis using k(1) by auto
  qed
  then obtain i where i: "i < 6" "reserve_index flags (br_data_off bref) = Ok i" by blast
  have "hammer2_freemap_reserve flags bref 16 =
      Ok (bref\<lparr>br_data_off := reserve_off (br_key bref) 31 (i * 4 + 1) OR 16\<rparr>)"
    using i(2) reserve_level_leaf [OF bref] bref(2)
    by (simp add: hammer2_freemap_reserve_def Let_def reserve_off_def)
  with i(1) show ?thesis by blast
qed

lemma leaf_modify_ok:
  assumes "flags AND HAMMER2_TRANS_FREEBATCH = 0" "leaf_ok hmp allocs key leaf"
  shows "\<exists>leaf'. leaf_modify flags leaf = Ok leaf' \<and> leaf_ok hmp allocs key leaf'"
proof (cases "br_data_off (lf_bref leaf) AND NOT 63 = 0 \<or> \<not> lf_modified leaf")
  case False
  then show ?thesis using assms by (simp add: leaf_modify_def)
next
  case True
  obtain k where k: "k < 6" "hammer2_freemap_reserve flags (lf_bref leaf) 16 =
      Ok ((lf_bref leaf)\<lparr>br_data_off := reserve_off key 31 (k * 4 + 1) OR 16\<rparr>)"
    using leaf_reserve [OF assms(1), of "lf_bref leaf"] assms(2) by (auto simp: leaf_ok_def)
  then show ?thesis
    using True assms(2) unfolding leaf_modify_def getradix_leaf by (auto simp: leaf_ok_def)
qed

subsection \<open>A new leaf\<close>

definition init_entry :: "bool \<Rightarrow> hammer2_bmap_data \<Rightarrow> hammer2_bmap_data" where
  "init_entry reserved b =
     (if reserved then b\<lparr>bm_bitmap := replicate 8 0xFFFFFFFF, bm_avail := 0, bm_linear := 2097152\<rparr>
      else b\<lparr>bm_avail := 2097152\<rparr>)"

lemma init_loop_fst:
  "fst (init_loop lokey hikey key bs avail) =
   map (\<lambda>n. init_entry (key + of_nat n * H2FMSHIFT 21 < lokey \<or> key + of_nat n * H2FMSHIFT 21 \<ge> hikey) (bs ! n))
     [0..<length bs]"
proof (induction bs arbitrary: key avail)
  case (Cons b bs)
  have "[0..<length (b # bs)] = 0 # map Suc [0..<length bs]" by (simp add: upt_conv_Cons map_Suc_upt del: upt_Suc)
  then show ?case
    by (simp add: Cons.IH init_entry_def Let_def split_beta algebra_simps)
qed simp

lemma bmap_inv_init:
  "bmap_inv (init_entry r bmap_zero) (if r then {..<HAMMER2_SEGSIZE} else {})"
proof (cases r)
  case True
  have "chunk_marked (replicate 8 0xFFFFFFFF) (x div 16384)" if "x < 2097152" for x
  proof -
    have "x div 16384 div 16 < 8" using that by simp
    then have w: "replicate 8 (0xFFFFFFFF::u32) ! (x div 16384 div 16) = - 1" by simp
    have "2 * (x div 16384 mod 16) < 32" by simp
    then have "bit (- 1 :: u32) (2 * (x div 16384 mod 16))" by (simp only: bit_minus_1_iff possible_bit_word) simp
    then show ?thesis unfolding chunk_marked_def w by blast
  qed
  with True show ?thesis by (simp add: bmap_inv_def init_entry_def bmap_zero_def)
next
  case False
  then show ?thesis by (simp add: bmap_inv_def init_entry_def bmap_zero_def)
qed

lemma segment_key:
  assumes "unat key mod 2 ^ 31 = 0" "n < 1024"
  shows "unat (key + of_nat n * H2FMSHIFT 21) = unat key + n * 2097152"
proof -
  have "2 ^ 31 dvd unat key" using assms(1) by (rule mod_0_imp_dvd)
  then have room: "unat key + 2 ^ 31 \<le> 2 ^ 64" by (rule zone_room)
  have "of_nat n * H2FMSHIFT 21 = (of_nat (n * 2097152) :: u64)" by (simp add: H2FMSHIFT_def)
  moreover have "unat (of_nat (n * 2097152) :: u64) = n * 2097152"
    by (rule unat_of_nat_small) (use assms(2) in simp)
  ultimately show ?thesis using room assms(2) by (simp add: unat_plus_noverflow)
qed

lemma seg_reserved_key:
  assumes "unat key mod 2 ^ 31 = 0" "n < 1024"
  shows "seg_reserved hmp (unat key + n * 2097152) \<longleftrightarrow>
         key + of_nat n * H2FMSHIFT 21 < init_lokey hmp key \<or> key + of_nat n * H2FMSHIFT 21 \<ge> init_hikey hmp key"
proof -
  have d: "n * 2097152 < 2 ^ 31" using assms(2) by simp
  show ?thesis
    using zone_key_add [OF assms(1) d]
    by (simp add: seg_reserved_def zone_key_def word_order_nat segment_key [OF assms])
qed

lemma leaf_create_ok:
  assumes "flags AND HAMMER2_TRANS_FREEBATCH = 0"
  shows "\<exists>leaf k. leaf_create flags methods key = Ok leaf \<and> lf_modified leaf \<and> k < 6 \<and>
    br_type (lf_bref leaf) = HAMMER2_BREF_TYPE_FREEMAP_LEAF \<and> unat (br_keybits (lf_bref leaf)) = 31 \<and>
    br_key (lf_bref leaf) = key \<and> br_data_off (lf_bref leaf) = reserve_off key 31 (k * 4 + 1) OR 16"
proof -
  let ?b = "blockref_zero\<lparr>br_type := HAMMER2_BREF_TYPE_FREEMAP_LEAF, br_key := key,
                      br_keybits := of_nat HAMMER2_FREEMAP_LEVEL1_RADIX,
                      br_data_off := of_nat 16, br_methods := methods\<rparr>"
  obtain k where "k < 6" "hammer2_freemap_reserve flags ?b 16 =
           Ok (?b\<lparr>br_data_off := reserve_off (br_key ?b) 31 (k * 4 + 1) OR 16\<rparr>)"
    using leaf_reserve [OF assms, of ?b] by auto
  then show ?thesis unfolding leaf_create_def leaf_modify_def getradix_leaf by auto
qed

lemma new_leaf_ok:
  assumes flags: "flags AND HAMMER2_TRANS_FREEBATCH = 0" and key: "unat key mod 2 ^ 31 = 0"
    and none: "\<And>x. x < 2 ^ 31 \<Longrightarrow> unat key + x \<notin> allocs"
  shows "\<exists>leaf. new_leaf flags methods hmp key = Ok leaf \<and> leaf_ok hmp allocs key leaf"
proof -
  obtain leaf k where l: "leaf_create flags methods key = Ok leaf" "lf_modified leaf" "k < 6"
    "br_type (lf_bref leaf) = HAMMER2_BREF_TYPE_FREEMAP_LEAF" "unat (br_keybits (lf_bref leaf)) = 31"
    "br_key (lf_bref leaf) = key" "br_data_off (lf_bref leaf) = reserve_off key 31 (k * 4 + 1) OR 16"
    using leaf_create_ok [OF flags] by blast
  have placed: "br_data_off (lf_bref leaf) AND NOT 63 \<noteq> 0"
    using reserve_off_masked(1,3) [of 31 "k * 4 + 1" key] l(3,7) by auto
  then have m: "leaf_modify flags leaf = Ok leaf" using l(2) by (simp add: leaf_modify_def)
  have used: "seg_used hmp allocs (unat key + n * 2097152) =
      (if seg_reserved hmp (unat key + n * 2097152) then {..<HAMMER2_SEGSIZE} else {})" if "n < 1024" for n
    using that none by (auto simp: seg_used_def add.assoc)
  have entry: "bmap_inv (init_entry (key + of_nat n * H2FMSHIFT 21 < init_lokey hmp key \<or>
        key + of_nat n * H2FMSHIFT 21 \<ge> init_hikey hmp key) bmap_zero)
      (seg_used hmp allocs (unat key + n * 2097152))" if "n < 1024" for n
    unfolding used [OF that] seg_reserved_key [OF key that] by (rule bmap_inv_init)
  show ?thesis
    unfolding new_leaf_def l(1) obind.simps m Let_def
    using l(3-7) key entry
    by (auto simp: leaf_ok_def hammer2_freemap_init_def split_beta init_loop_fst)
qed

section \<open>The scan of a leaf\<close>

text \<open>What a successful probe or scan delivers.\<close>

definition found ::
  "hammer2_mount \<Rightarrow> nat set \<Rightarrow> u64 \<Rightarrow> nat \<Rightarrow> hammer2_bmap_data list
   \<Rightarrow> hammer2_mount \<times> hammer2_bmap_data list \<times> u64 \<Rightarrow> bool" where
  "found hmp allocs key radix bmdata r \<longleftrightarrow>
     (case r of (hmp', bmdata', key') \<Rightarrow>
        \<exists>n off. n < 1024 \<and> unat key' = unat key + n * HAMMER2_SEGSIZE + off \<and>
          extent off radix \<subseteq> {..<HAMMER2_SEGSIZE} \<and> 1024 dvd off \<and> blk_placed radix off \<and>
          extent off radix \<inter> seg_used hmp allocs (unat key + n * HAMMER2_SEGSIZE) = {} \<and>
          \<not> seg_reserved hmp (unat key + n * HAMMER2_SEGSIZE) \<and>
          (\<exists>b'. bmdata' = bmdata[n := b'] \<and>
             bmap_inv b' (seg_used hmp allocs (unat key + n * HAMMER2_SEGSIZE) \<union> extent off radix)) \<and>
          same_vol (hmp\<lparr>allocator_free := allocator_free hmp - push_bit radix 1\<rparr>) hmp')"

lemma fm_probe_ok:
  assumes leaf: "leaf_ok hmp allocs key leaf" and r: "10 \<le> radix" "radix \<le> 16"
  shows "fm_probe hmp (lf_bmdata leaf) cls radix key n = Ok None \<or>
    (\<exists>x. fm_probe hmp (lf_bmdata leaf) cls radix key n = Ok (Some x) \<and>
         found hmp allocs key radix (lf_bmdata leaf) x)"
proof (cases "0 \<le> n \<and> n < 1024 \<and> bm_avail (lf_bmdata leaf ! nat n) \<noteq> 0 \<and>
         (bm_class (lf_bmdata leaf ! nat n) = 0 \<or> bm_class (lf_bmdata leaf ! nat n) = cls)")
  case False
  then show ?thesis by (auto simp: fm_probe_def)
next
  case True
  let ?m = "nat n" and ?b = "lf_bmdata leaf ! nat n"
  let ?base = "unat key + nat n * 2097152" and ?k = "key + of_nat (nat n) * H2FMSHIFT 21"
  have m: "?m < 1024" using True by auto
  from leaf have key: "unat key mod 2 ^ 31 = 0" and inv: "bmap_inv ?b (seg_used hmp allocs ?base)"
    using m by (auto simp: leaf_ok_def)
  have res: "\<not> seg_reserved hmp ?base"
  proof
    assume "seg_reserved hmp ?base"
    then have "seg_used hmp allocs ?base = {..<2097152}" by (auto simp: seg_used_def)
    then have "unat (bm_avail ?b) = 0" using inv by (simp add: bmap_inv_def)
    then show False using True by (simp add: unat_eq_0)
  qed
  from bmap_alloc_step [OF inv r, of hmp cls ?k]
  show ?thesis
  proof (elim disjE exE conjE)
    assume "hammer2_bmap_alloc hmp ?b cls radix ?k = Ok (ENOSPC, hmp, ?b, ?k)"
    then show ?thesis using True by (simp add: fm_probe_def)
  next
    fix off hmp' b'
    assume a: "hammer2_bmap_alloc hmp ?b cls radix ?k = Ok (E_OK, hmp', b', ?k + of_nat off)"
      and ext: "extent off radix \<subseteq> {..<HAMMER2_SEGSIZE}"
      and rest: "extent off radix \<inter> seg_used hmp allocs ?base = {}" "1024 dvd off"
        "blk_placed radix off" "bmap_inv b' (seg_used hmp allocs ?base \<union> extent off radix)"
        "same_vol (hmp\<lparr>allocator_free := allocator_free hmp - push_bit radix 1\<rparr>) hmp'"
    have "off \<in> extent off radix" by (simp add: extent_def)
    then have o: "off < 2097152" using ext by auto
    have "2 ^ 31 dvd unat key" using key by (rule mod_0_imp_dvd)
    then have room: "unat key + 2 ^ 31 \<le> 2 ^ 64" by (rule zone_room)
    have "unat (of_nat off :: u64) = off" by (rule unat_of_nat_small) (use o in simp)
    then have "unat (?k + of_nat off) = ?base + off"
      using room m o by (subst unat_plus_noverflow) (simp_all add: segment_key [OF key m])
    then have "found hmp allocs key radix (lf_bmdata leaf) (hmp', (lf_bmdata leaf)[?m := b'], ?k + of_nat off)"
      unfolding found_def using m ext rest res by blast
    then show ?thesis using True a by (simp add: fm_probe_def)
  qed
qed

lemma fm_scan_ok:
  assumes "leaf_ok hmp allocs key leaf" "10 \<le> radix" "radix \<le> 16"
  shows "fm_scan hmp (lf_bmdata leaf) cls radix key start count = Ok None \<or>
    (\<exists>x. fm_scan hmp (lf_bmdata leaf) cls radix key start count = Ok (Some x) \<and>
         found hmp allocs key radix (lf_bmdata leaf) x)"
proof (induction "nat (1024 - count)" arbitrary: count)
  case 0
  then show ?case by (simp add: fm_scan.simps [of hmp _ cls radix key start count])
next
  case (Suc m)
  then have lt: "count < 1024" by simp
  note p = fm_probe_ok [OF assms, of cls "start + count"] fm_probe_ok [OF assms, of cls "start - count"]
  have "m = nat (1024 - (count + 1))" using Suc.hyps(2) by simp
  note ih = Suc.hyps(1) [OF this]
  show ?case
    using p ih lt by (auto simp: fm_scan.simps [of hmp _ cls radix key start count])
qed

section \<open>Effect on the invariant\<close>

lemma seg_used_cong:
  assumes "allocator_beg h' = allocator_beg h" "volu_size h' = volu_size h"
  shows "seg_used h' = seg_used h" and "seg_reserved h' = seg_reserved h"
proof -
  have "init_lokey h' = init_lokey h" "init_hikey h' = init_hikey h"
    using assms by (auto simp: init_lokey_def init_hikey_def fun_eq_iff Let_def)
  then show r: "seg_reserved h' = seg_reserved h" by (auto simp: seg_reserved_def fun_eq_iff)
  show "seg_used h' = seg_used h" by (simp add: seg_used_def fun_eq_iff r)
qed

lemma segment_dvd:
  assumes "unat (key :: u64) mod 2 ^ 31 = 0"
  shows "2097152 dvd unat key + n * 2097152"
proof -
  have "2147483648 dvd unat key" using assms by (simp add: mod_eq_0_iff_dvd)
  then have "2097152 dvd unat key" by (rule dvd_trans [rotated]) simp
  then show ?thesis by simp
qed

lemma found_extent:
  assumes "unat key mod 2 ^ 31 = 0" "found hmp allocs key radix bmdata (hmp', bmdata', key')"
    and "x \<in> extent (unat key') radix"
  shows "zone_key x = key \<and> x < 2 ^ 64 \<and> x \<notin> allocs"
proof -
  from assms(2) obtain n off where n: "n < 1024" "unat key' = unat key + n * 2097152 + off"
    "extent off radix \<subseteq> {..<2097152}"
    "extent off radix \<inter> seg_used hmp allocs (unat key + n * 2097152) = {}"
    by (auto simp: found_def)
  obtain y where y: "x = unat key + n * 2097152 + y" "y \<in> extent off radix"
    using assms(3) unfolding n(2) extent_def by (auto simp: nat_le_iff_add)
  then have yl: "y < 2097152" using n(3) by auto
  then have d: "n * 2097152 + y < 2 ^ 31" using n(1) by simp
  have x: "x = unat key + (n * 2097152 + y)" using y(1) by simp
  have "2 ^ 31 dvd unat key" using assms(1) by (rule mod_0_imp_dvd)
  then have "unat key + 2 ^ 31 \<le> 2 ^ 64" by (rule zone_room)
  then have "x < 2 ^ 64" using x d by linarith
  moreover have "zone_key x = key" unfolding x by (rule zone_key_add(1) [OF assms(1) d])
  moreover have "x \<notin> allocs" using n(4) y yl by (auto simp: seg_used_def)
  ultimately show ?thesis by blast
qed

lemma found_leaf:
  assumes leaf: "leaf_ok hmp allocs key leaf"
    and found: "found hmp allocs key radix (lf_bmdata leaf) (hmp', bmdata', key')"
  shows "leaf_ok hmp' (allocs \<union> extent (unat key') radix) key (leaf\<lparr>lf_bmdata := bmdata'\<rparr>)"
proof -
  from found obtain n off b' where n: "n < 1024" "unat key' = unat key + n * 2097152 + off"
    "extent off radix \<subseteq> {..<2097152}" "bmdata' = (lf_bmdata leaf)[n := b']"
    "bmap_inv b' (seg_used hmp allocs (unat key + n * 2097152) \<union> extent off radix)"
    "same_vol (hmp\<lparr>allocator_free := allocator_free hmp - push_bit radix 1\<rparr>) hmp'"
    unfolding found_def by auto
  from leaf have key: "unat key mod 2 ^ 31 = 0" and len: "length (lf_bmdata leaf) = 1024" by (auto simp: leaf_ok_def)
  have su: "seg_used hmp' = seg_used hmp" using n(6) by (intro seg_used_cong) (auto simp: same_vol_def)
  have "bmap_inv (bmdata' ! m) (seg_used hmp (allocs \<union> extent (unat key') radix) (unat key + m * 2097152))"
    if m: "m < 1024" for m
  proof (cases "m = n")
    case True
    then show ?thesis using n m len seg_used_same [OF n(3), of hmp allocs "unat key + n * 2097152"]
      by (simp add: add.assoc)
  next
    case False
    then have "seg_used hmp (allocs \<union> extent (unat key') radix) (unat key + m * 2097152) =
        seg_used hmp allocs (unat key + m * 2097152)"
      unfolding n(2) using segment_dvd [OF key] n(3) by (intro seg_used_other) auto
    then show ?thesis using leaf m False n(4) by (simp add: leaf_ok_def)
  qed
  then show ?thesis using leaf n(4) unfolding leaf_ok_def su by auto
qed

lemma found_other:
  assumes leaf: "leaf_ok hmp allocs key2 leaf2" and key: "unat key mod 2 ^ 31 = 0" "key2 \<noteq> key"
    and found: "found hmp allocs key radix bmdata (hmp', bmdata', key')"
  shows "leaf_ok hmp' (allocs \<union> extent (unat key') radix) key2 leaf2"
proof -
  have su: "seg_used hmp' = seg_used hmp"
    using found by (intro seg_used_cong) (auto simp: found_def same_vol_def)
  have k2: "unat key2 mod 2 ^ 31 = 0" using leaf by (simp add: leaf_ok_def)
  have "seg_used hmp (allocs \<union> extent (unat key') radix) (unat key2 + m * 2097152) =
      seg_used hmp allocs (unat key2 + m * 2097152)" if "m < 1024" for m
  proof -
    have "unat key2 + m * 2097152 + x \<notin> extent (unat key') radix" if "x < 2097152" for x
    proof
      assume "unat key2 + m * 2097152 + x \<in> extent (unat key') radix"
      then have "zone_key (unat key2 + (m * 2097152 + x)) = key"
        using found_extent [OF key(1) found] by (simp add: add.assoc)
      moreover have "m * 2097152 + x < 2 ^ 31" using that \<open>m < 1024\<close> by simp
      ultimately show False using zone_key_add(1) [OF k2] key(2) by simp
    qed
    then show ?thesis by (auto simp: seg_used_def)
  qed
  with leaf show ?thesis unfolding leaf_ok_def su by auto
qed

lemma found_inv:
  assumes inv: "freemap_inv hmp lvs allocs" and leaf: "leaf_ok hmp allocs key leaf"
    and found: "found hmp allocs key radix (lf_bmdata leaf) (hmp', bmdata', key')"
  shows "freemap_inv hmp' (lvs(key \<mapsto> leaf\<lparr>lf_bmdata := bmdata'\<rparr>)) (allocs \<union> extent (unat key') radix)"
proof -
  have key: "unat key mod 2 ^ 31 = 0" using leaf by (simp add: leaf_ok_def)
  have "leaf_ok hmp' (allocs \<union> extent (unat key') radix) key2 leaf2"
    if "(lvs(key \<mapsto> leaf\<lparr>lf_bmdata := bmdata'\<rparr>)) key2 = Some leaf2" for key2 leaf2
  proof (cases "key2 = key")
    case True
    then show ?thesis using that found_leaf [OF leaf found] by simp
  next
    case False
    then show ?thesis using that inv found_other [OF _ key False found] by (simp add: freemap_inv_def)
  qed
  moreover have "x < 2 ^ 64 \<and> (lvs(key \<mapsto> leaf\<lparr>lf_bmdata := bmdata'\<rparr>)) (zone_key x) \<noteq> None"
    if "x \<in> allocs \<union> extent (unat key') radix" for x
    using that inv found_extent [OF key found, of x] by (auto simp: freemap_inv_def)
  ultimately show ?thesis unfolding freemap_inv_def by blast
qed

lemma leaf_inv:
  assumes "freemap_inv hmp lvs allocs" "leaf_ok hmp allocs key leaf"
  shows "freemap_inv hmp (lvs(key \<mapsto> leaf)) allocs"
  using assms by (auto simp: freemap_inv_def)

lemma leaf_ok_bigmask:
  "leaf_ok hmp allocs key leaf \<Longrightarrow>
   leaf_ok hmp allocs key (leaf\<lparr>lf_bref := (lf_bref leaf)\<lparr>br_check := c\<rparr>\<rparr>)"
  by (simp add: leaf_ok_def)

text \<open>The extent of a find satisfies the assertions of the allocator.\<close>

lemma found_valid:
  assumes vol: "vol_ok hmp" and key: "unat key mod 2 ^ 31 = 0" "unat key \<le> 2 ^ 63"
    and r: "10 \<le> radix" "radix \<le> 16"
    and found: "found hmp allocs key radix bmdata (hmp', bmdata', key')"
  shows "unat (allocator_beg hmp) \<le> unat key' \<and> unat key' + 2 ^ radix \<le> unat (volu_size hmp) \<and>
         4194304 \<le> unat key' mod 2 ^ 31 \<and> 1024 dvd unat key' \<and> blk_placed radix (unat key') \<and>
         allocator_beg hmp' = allocator_beg hmp \<and> volu_size hmp' = volu_size hmp \<and>
         heur_freemap hmp' = heur_freemap hmp"
proof -
  from found obtain n off where n: "n < 1024" "unat key' = unat key + n * 2097152 + off"
    "extent off radix \<subseteq> {..<2097152}" "1024 dvd off" "blk_placed radix off"
    "\<not> seg_reserved hmp (unat key + n * 2097152)"
    "same_vol (hmp\<lparr>allocator_free := allocator_free hmp - push_bit radix 1\<rparr>) hmp'"
    by (auto simp: found_def)
  note u = usable_segment [OF vol key n(1,6)]
  have top: "off + 2 ^ radix \<le> 2097152" using n(3) by (rule extent_top)
  obtain q where q: "unat key = 2147483648 * q" using key(1) by (auto elim!: dvdE simp: mod_eq_0_iff_dvd)
  have m: "unat key' mod 2 ^ 31 = n * 2097152 + off"
  proof -
    have "(0::nat) < 2 ^ radix" by simp
    with top have "off < 2097152" by linarith
    then show ?thesis unfolding n(2) q add.assoc using n(1) by simp
  qed
  have big: "2097152 dvd unat key + n * 2097152" by (rule segment_dvd [OF key(1)])
  have "blk_placed radix (unat key')" unfolding n(2) by (rule blk_placed_add [OF n(5) big r(2)])
  moreover have "1024 dvd unat key + n * 2097152" using big by (rule dvd_trans [rotated]) simp
  ultimately show ?thesis using n u top m by (auto simp: same_vol_def)
qed

section \<open>The search over zones\<close>

lemma zone_base:
  "unat (H2FMBASE x 31) mod 2 ^ 31 = 0" "unat (H2FMBASE x 31) \<le> unat x"
  "unat (drop_bit 21 (x - H2FMBASE x 31)) < 1024"
proof -
  show "unat (H2FMBASE x 31) mod 2 ^ 31 = 0" using H2FMBASE_dvd [of 31 x] by (rule dvd_imp_mod_0)
  show le: "unat (H2FMBASE x 31) \<le> unat x" by (simp add: unat_H2FMBASE)
  have "unat (x - H2FMBASE x 31) = unat x mod 2 ^ 31"
    using le by (subst unat_minus_le) (simp_all add: unat_H2FMBASE)
  then have "unat (x - H2FMBASE x 31) < 2147483648" by simp
  moreover have "unat (drop_bit 21 (x - H2FMBASE x 31)) = unat (x - H2FMBASE x 31) div 2097152"
    by (simp only: unat_drop_bit) simp
  ultimately show "unat (drop_bit 21 (x - H2FMBASE x 31)) < 1024" by (simp add: less_mult_imp_div_less)
qed

lemma no_leaf_no_allocs:
  assumes "freemap_inv hmp lvs allocs" "lvs key = None" "unat key mod 2 ^ 31 = 0" "x < 2 ^ 31"
  shows "unat key + x \<notin> allocs"
  using assms zone_key_add(1) [OF assms(3,4)] by (auto simp: freemap_inv_def)

lemma try_leaf_ok:
  assumes inv: "freemap_inv hmp lvs allocs" and flags: "flags AND HAMMER2_TRANS_FREEBATCH = 0"
    and key: "unat key mod 2 ^ 31 = 0"
  shows "\<exists>scan leaf. try_leaf flags methods hmp lvs key radix = Ok (scan, leaf) \<and> leaf_ok hmp allocs key leaf"
proof (cases "lvs key")
  case None
  then show ?thesis
    using new_leaf_ok [OF flags key no_leaf_no_allocs [OF inv None key], of methods hmp]
    by (auto simp: try_leaf_def)
next
  case (Some leaf)
  then have "leaf_ok hmp allocs key leaf" using inv by (simp add: freemap_inv_def)
  then show ?thesis using Some leaf_modify_ok [OF flags] by (fastforce simp: try_leaf_def)
qed

text \<open>
  The outcome of one attempt: the extent found, or the iterator advanced with the set of
  allocated bytes unchanged.
\<close>

definition alloc_success ::
  "hammer2_mount \<Rightarrow> nat set \<Rightarrow> hammer2_blockref \<Rightarrow> nat \<Rightarrow> hammer2_mount \<Rightarrow> leaves \<Rightarrow> hammer2_blockref \<Rightarrow> bool" where
  "alloc_success hmp allocs bref radix hmp' lvs' bref' \<longleftrightarrow>
     (\<exists>off. bref' = bref\<lparr>br_data_off := off OR of_nat radix\<rparr> \<and>
        extent (unat off) radix \<inter> allocs = {} \<and>
        unat (allocator_beg hmp) \<le> unat off \<and> unat off + 2 ^ radix \<le> unat (volu_size hmp) \<and>
        4194304 \<le> unat off mod 2 ^ 31 \<and> 1024 dvd unat off \<and> blk_placed radix (unat off) \<and>
        freemap_inv hmp' lvs' (allocs \<union> extent (unat off) radix) \<and>
        allocator_beg hmp' = allocator_beg hmp \<and> volu_size hmp' = volu_size hmp)"

lemma try_alloc_ok:
  assumes inv: "freemap_inv hmp lvs allocs" and vol: "vol_ok hmp"
    and flags: "flags AND HAMMER2_TRANS_FREEBATCH = 0"
    and r: "10 \<le> radix" "radix \<le> 16" and bn: "unat (it_bnext iter) \<le> 2 ^ 63"
  shows "(\<exists>hmp' lvs' bref'. hammer2_freemap_try_alloc flags methods hmp lvs bref radix iter =
            Ok (E_OK, hmp', lvs', bref', iter) \<and> alloc_success hmp allocs bref radix hmp' lvs' bref' \<and>
            heur_freemap hmp' = heur_freemap hmp) \<or>
         (\<exists>lvs'. hammer2_freemap_try_alloc flags methods hmp lvs bref radix iter =
            Ok (fst (hammer2_freemap_iterate hmp iter), hmp, lvs', bref, snd (hammer2_freemap_iterate hmp iter)) \<and>
            freemap_inv hmp lvs' allocs)"
proof -
  let ?key = "H2FMBASE (it_bnext iter) 31"
  let ?cls = "push_bit 8 (ucast (br_type bref)) OR of_nat (hammer2_devblkradix radix) :: u16"
  let ?start = "int (unat (drop_bit 21 (it_bnext iter - ?key)))"
  note z = zone_base [of "it_bnext iter"]
  have k63: "unat ?key \<le> 2 ^ 63" using z(2) bn by simp
  obtain scan leaf where l: "try_leaf flags methods hmp lvs ?key radix = Ok (scan, leaf)"
    "leaf_ok hmp allocs ?key leaf" using try_leaf_ok [OF inv flags z(1)] by blast
  show ?thesis
  proof (cases scan)
    case False
    with l(1) leaf_inv [OF inv l(2)] show ?thesis
      by (auto simp: hammer2_freemap_try_alloc_def split_beta Let_def)
  next
    case True
    obtain leaf' where l': "leaf_modify flags leaf = Ok leaf'" "leaf_ok hmp allocs ?key leaf'"
      using leaf_modify_ok [OF flags l(2)] by blast
    have "?start \<ge> 0" "?start < 1024" using z(3) by linarith+
    then have assert: "br_type (lf_bref leaf) = 6 \<and> ?start \<ge> 0 \<and> ?start < 1024"
      using l(2) by (simp add: leaf_ok_def)
    from fm_scan_ok [OF l'(2) r, of ?cls ?start 0] show ?thesis
    proof (elim disjE exE conjE)
      assume "fm_scan hmp (lf_bmdata leaf') ?cls radix ?key ?start 0 = Ok None"
      moreover have "freemap_inv hmp (lvs(?key \<mapsto> leaf'\<lparr>lf_bref := (lf_bref leaf')\<lparr>br_check := c\<rparr>\<rparr>)) allocs" for c
        by (rule leaf_inv [OF inv leaf_ok_bigmask [OF l'(2)]])
      ultimately show ?thesis using True l(1) l'(1) assert
        by (auto simp: hammer2_freemap_try_alloc_def split_beta Let_def)
    next
      fix x assume s: "fm_scan hmp (lf_bmdata leaf') ?cls radix ?key ?start 0 = Ok (Some x)"
        and f: "found hmp allocs ?key radix (lf_bmdata leaf') x"
      obtain hmp' bmdata' key' where x: "x = (hmp', bmdata', key')" by (cases x)
      note f' = f [unfolded x]
      note v = found_valid [OF vol z(1) k63 r f']
      have "unat (push_bit radix (1::u64)) = 2 ^ radix" using r by (subst unat_push1) auto
      then have sum: "unat (key' + push_bit radix 1) = unat key' + 2 ^ radix"
        using v u64_bound [of "volu_size hmp"] by (subst unat_plus_noverflow) auto
      have zm: "unat (key' AND 2147483647) = unat key' mod 2 ^ 31"
        using unat_and_mask [of key' 31] by (simp add: mask_numeral)
      have kk: "key' \<ge> allocator_beg hmp' \<and> key' + push_bit radix 1 \<le> volu_size hmp' \<and>
          key' AND 2147483647 \<ge> 4194304"
        using v sum zm by (simp add: word_le_unat del: push_bit_of_1)
      have "alloc_success hmp allocs bref radix hmp' (lvs(?key \<mapsto> leaf'\<lparr>lf_bmdata := bmdata'\<rparr>))
          (bref\<lparr>br_data_off := key' OR of_nat radix\<rparr>)"
        unfolding alloc_success_def
        using found_inv [OF inv l'(2) f'] found_extent [OF z(1) f'] v by blast
      moreover have "hammer2_freemap_try_alloc flags methods hmp lvs bref radix iter =
          Ok (E_OK, hmp', lvs(?key \<mapsto> leaf'\<lparr>lf_bmdata := bmdata'\<rparr>),
              bref\<lparr>br_data_off := key' OR of_nat radix\<rparr>, iter)"
        using True l(1) l'(1) assert s x kk
        by (simp add: hammer2_freemap_try_alloc_def Let_def)
      ultimately show ?thesis using v by blast
    qed
  qed
qed

section \<open>The loop ends\<close>

text \<open>The number of attempts left: zones above the current one, twice around.\<close>

definition attempts :: "hammer2_mount \<Rightarrow> hammer2_fiterate \<Rightarrow> nat" where
  "attempts hmp iter =
     (2 - it_loops iter) * (unat (volu_size hmp) div 2 ^ 31 + 2) - unat (it_bnext iter) div 2 ^ 31"

lemma iterate_cases:
  assumes vol: "vol_ok hmp" and bn: "unat (it_bnext iter) \<le> unat (volu_size hmp)" and lp: "it_loops iter < 2"
  shows "fst (hammer2_freemap_iterate hmp iter) = ENOSPC \<or>
    fst (hammer2_freemap_iterate hmp iter) = EAGAIN \<and>
    attempts hmp (snd (hammer2_freemap_iterate hmp iter)) < attempts hmp iter \<and>
    unat (it_bnext (snd (hammer2_freemap_iterate hmp iter))) \<le> unat (volu_size hmp) \<and>
    it_loops (snd (hammer2_freemap_iterate hmp iter)) < 2"
proof -
  let ?b = "unat (it_bnext iter)" and ?z = "unat (volu_size hmp) div 2 ^ 31"
  let ?next = "(it_bnext iter AND NOT (H2FMSHIFT 31 - 1)) + H2FMSHIFT 31"
  have v: "unat (volu_size hmp) \<le> 2 ^ 63" using vol by (simp add: vol_ok_def)
  have base: "unat (it_bnext iter AND NOT (H2FMSHIFT 31 - 1)) = ?b div 2 ^ 31 * 2 ^ 31"
    unfolding H2FMSHIFT_def shift_minus_1 unat_and_not_mask by (simp add: minus_mod_eq_div_mult)
  have sh: "unat (H2FMSHIFT 31) = 2 ^ 31" by (simp add: H2FMSHIFT_def)
  have "?b div 2 ^ 31 * 2 ^ 31 \<le> ?b" by (rule div_times_less_eq_dividend)
  then have "?b div 2 ^ 31 * 2 ^ 31 \<le> 2 ^ 63" using bn v by (meson le_trans)
  moreover have "(2::nat) ^ 63 + 2 ^ 31 < 2 ^ 64" by simp
  ultimately have "?b div 2 ^ 31 * 2 ^ 31 + 2 ^ 31 < 2 ^ 64" by linarith
  then have next': "unat ?next = (?b div 2 ^ 31 + 1) * 2 ^ 31"
    using unat_plus_noverflow [of "it_bnext iter AND NOT (H2FMSHIFT 31 - 1)" "H2FMSHIFT 31"]
    unfolding base sh by (simp only: add_mult_distrib mult_1)
  have zb: "?b div 2 ^ 31 \<le> ?z" using bn by (rule div_le_mono)
  show ?thesis
  proof (cases "?next \<ge> volu_size hmp")
    case True
    have "attempts hmp (iter\<lparr>it_bnext := 0, it_loops := Suc (it_loops iter)\<rparr>) < attempts hmp iter"
      if "Suc (it_loops iter) \<noteq> 2"
    proof -
      have "it_loops iter = 0" using that lp by simp
      then show ?thesis using zb by (simp add: attempts_def)
    qed
    with True lp show ?thesis by (auto simp: hammer2_freemap_iterate_def Let_def)
  next
    case False
    then have lt: "unat ?next < unat (volu_size hmp)" by (simp add: word_le_unat)
    have "unat ?next div 2 ^ 31 = ?b div 2 ^ 31 + 1" using next' by simp
    moreover have "unat ?next div 2 ^ 31 \<le> ?z" using lt by (intro div_le_mono) simp
    moreover have "?z + 2 \<le> (2 - it_loops iter) * (?z + 2)" using lp by (cases "2 - it_loops iter") auto
    moreover define k where "k = (2 - it_loops iter) * (?z + 2)"
    moreover have "attempts hmp iter = k - ?b div 2 ^ 31" by (simp only: attempts_def k_def)
    moreover have "attempts hmp (iter\<lparr>it_bnext := ?next\<rparr>) = k - unat ?next div 2 ^ 31"
      by (simp add: attempts_def k_def)
    ultimately have "attempts hmp (iter\<lparr>it_bnext := ?next\<rparr>) < attempts hmp iter" by linarith
    with False lt lp show ?thesis by (simp add: hammer2_freemap_iterate_def Let_def)
  qed
qed

lemma alloc_loop_ok:
  assumes "freemap_inv hmp lvs allocs" and vol: "vol_ok hmp"
    and flags: "flags AND HAMMER2_TRANS_FREEBATCH = 0"
    and r: "10 \<le> radix" "radix \<le> 16"
    and "unat (it_bnext iter) \<le> unat (volu_size hmp)" "it_loops iter < 2" "attempts hmp iter < fuel"
  shows "(\<exists>hmp' lvs' bref' iter'. alloc_loop fuel flags methods hmp lvs bref radix iter =
            Ok (E_OK, hmp', lvs', bref', iter') \<and> alloc_success hmp allocs bref radix hmp' lvs' bref' \<and>
            heur_freemap hmp' = heur_freemap hmp) \<or>
         (\<exists>lvs' iter'. alloc_loop fuel flags methods hmp lvs bref radix iter =
            Ok (ENOSPC, hmp, lvs', bref, iter') \<and> freemap_inv hmp lvs' allocs)"
  using assms(1,6-)
proof (induction fuel arbitrary: lvs iter)
  case (Suc fuel)
  have b63: "unat (it_bnext iter) \<le> 2 ^ 63" using Suc.prems(2) vol by (simp add: vol_ok_def)
  from try_alloc_ok [OF Suc.prems(1) vol flags r b63, of methods bref]
  show ?case
  proof (elim disjE exE conjE)
    fix hmp' lvs' bref'
    assume "hammer2_freemap_try_alloc flags methods hmp lvs bref radix iter = Ok (E_OK, hmp', lvs', bref', iter)"
      "alloc_success hmp allocs bref radix hmp' lvs' bref'" "heur_freemap hmp' = heur_freemap hmp"
    then show ?thesis by simp
  next
    fix lvs'
    assume t: "hammer2_freemap_try_alloc flags methods hmp lvs bref radix iter =
        Ok (fst (hammer2_freemap_iterate hmp iter), hmp, lvs', bref, snd (hammer2_freemap_iterate hmp iter))"
      and inv: "freemap_inv hmp lvs' allocs"
    from iterate_cases [OF vol Suc.prems(2,3)] show ?thesis
    proof (elim disjE conjE)
      assume "fst (hammer2_freemap_iterate hmp iter) = ENOSPC"
      then show ?thesis using t inv by simp
    next
      assume again: "fst (hammer2_freemap_iterate hmp iter) = EAGAIN"
        and *: "attempts hmp (snd (hammer2_freemap_iterate hmp iter)) < attempts hmp iter"
          "unat (it_bnext (snd (hammer2_freemap_iterate hmp iter))) \<le> unat (volu_size hmp)"
          "it_loops (snd (hammer2_freemap_iterate hmp iter)) < 2"
      have "attempts hmp (snd (hammer2_freemap_iterate hmp iter)) < fuel" using *(1) Suc.prems(4) by simp
      from Suc.IH [OF inv *(2,3) this] show ?thesis using t again by simp
    qed
  qed
qed simp

section \<open>The whole allocation\<close>

lemma getradix_pow2:
  assumes "radix \<le> 63"
  shows "hammer2_getradix (push_bit radix 1) = Ok radix"
proof -
  have u: "unat (push_bit radix (1::u64)) = 2 ^ radix" using assms by (subst unat_push1) auto
  have "(2::nat) ^ radix \<le> 2 ^ 63" using assms by (intro power_increasing) auto
  then obtain n where n: "hammer2_getradix (push_bit radix 1) = Ok n" "2 ^ radix \<le> (2::nat) ^ n"
    "\<forall>m<n. (2::nat) ^ m < 2 ^ radix"
    using hammer2_getradix_ok [of "push_bit radix 1"] unfolding u by auto
  have "radix \<le> n" using n(2) by (rule power_le_imp_le_exp [rotated]) simp
  moreover have "\<not> radix < n" using n(3) by auto
  ultimately show ?thesis using n(1) by simp
qed

lemma heur_index_ok: "\<exists>h<32. heur_index radix t = Ok h"
proof -
  have d: "hammer2_devblkradix radix - 14 < 4" by (simp add: hammer2_devblkradix_def)
  have "(x :: nat) AND 31 < 32" for x
    using take_bit_nat_less_exp [of 5 x] by (simp add: take_bit_eq_mask mask_numeral)
  then show ?thesis using d by (simp add: heur_index_def Let_def)
qed

lemma freemap_inv_heur:
  "freemap_inv (hmp\<lparr>heur_freemap := h\<rparr>) lvs allocs = freemap_inv hmp lvs allocs"
  using seg_used_cong [of "hmp\<lparr>heur_freemap := h\<rparr>" hmp] by (simp add: freemap_inv_def leaf_ok_def)

lemma freemap_alloc_ok:
  assumes inv: "freemap_inv hmp lvs allocs" and vol: "vol_ok hmp"
    and flags: "tr_flags tr AND HAMMER2_TRANS_FREEBATCH = 0"
    and type: "br_type bref \<noteq> HAMMER2_BREF_TYPE_FREEMAP_NODE" "br_type bref \<noteq> HAMMER2_BREF_TYPE_FREEMAP_LEAF"
    and r: "10 \<le> radix" "radix \<le> 16"
  shows "\<exists>e hmp' lvs' bref'. hammer2_freemap_alloc tr methods hmp lvs bref (push_bit radix 1) =
      Ok (e, tr, hmp', lvs', bref') \<and> vol_ok hmp' \<and>
      allocator_beg hmp' = allocator_beg hmp \<and> volu_size hmp' = volu_size hmp \<and>
      (e = E_OK \<and> alloc_success hmp allocs bref radix hmp' lvs' bref' \<or>
       e = ENOSPC \<and> bref' = bref \<and> freemap_inv hmp' lvs' allocs)"
proof -
  obtain h where h: "h < 32" "heur_index radix (br_type bref) = Ok h" using heur_index_ok by blast
  let ?bp = "if heur_freemap hmp ! h > volu_size hmp then volu_size hmp - 1 else heur_freemap hmp ! h"
  let ?iter = "\<lparr>it_bpref = ?bp, it_bnext = ?bp, it_loops = 0\<rparr>"
  define tr1 where "tr1 = (if tr_flags tr AND (1 OR 32) \<noteq> 0 then tr\<lparr>tr_sync_xid := tr_sync_xid tr + 1\<rparr> else tr)"
  have fl: "tr_flags tr1 = tr_flags tr" by (simp add: tr1_def)
  have bp: "unat ?bp \<le> unat (volu_size hmp)"
    using vol by (auto simp: vol_ok_def word_less_unat not_less unat_minus_le)
  have u: "unat (push_bit radix (1::u64)) = 2 ^ radix" using r by (subst unat_push1) auto
  have "(2::nat) ^ 10 \<le> 2 ^ radix" "(2::nat) ^ radix \<le> 2 ^ 16" 
    using r power_increasing [of 10 radix "2::nat"] power_increasing [of radix 16 "2::nat"] by simp_all
  then have bytes: "push_bit radix (1::u64) \<ge> 1024 \<and> push_bit radix (1::u64) \<le> 65536"
    using u by (simp add: word_le_unat del: push_bit_of_1)
  have fuel: "attempts hmp ?iter < alloc_fuel hmp" by (simp add: attempts_def alloc_fuel_def)
  have res: "hammer2_freemap_alloc tr methods hmp lvs bref (push_bit radix 1) =
      obind (alloc_loop (alloc_fuel hmp) (tr_flags tr) methods hmp lvs bref radix ?iter)
        (\<lambda>(error, hmp', lvs', bref', iter').
           Ok (error, tr, hmp'\<lparr>heur_freemap := (heur_freemap hmp')[h := it_bnext iter']\<rparr>, lvs', bref'))"
    using getradix_pow2 [of radix] r type bytes h
    by (simp add: hammer2_freemap_alloc_def Let_def split_beta)
  have it: "unat (it_bnext ?iter) \<le> unat (volu_size hmp)" "it_loops ?iter < 2" using bp by simp_all
  from alloc_loop_ok [OF inv vol flags r it fuel, of methods bref]
  show ?thesis
  proof (elim disjE exE conjE)
    fix hmp' lvs' bref' iter'
    assume l: "alloc_loop (alloc_fuel hmp) (tr_flags tr) methods hmp lvs bref radix ?iter =
        Ok (E_OK, hmp', lvs', bref', iter')"
      and s: "alloc_success hmp allocs bref radix hmp' lvs' bref'" "heur_freemap hmp' = heur_freemap hmp"
    let ?h = "hmp'\<lparr>heur_freemap := (heur_freemap hmp')[h := it_bnext iter']\<rparr>"
    have "alloc_success hmp allocs bref radix ?h lvs' bref'"
      using s(1) by (simp add: alloc_success_def freemap_inv_heur)
    moreover have "vol_ok ?h" using vol s by (auto simp: vol_ok_def alloc_success_def)
    ultimately show ?thesis using res l s by (auto simp: alloc_success_def)
  next
    fix lvs' iter'
    assume l: "alloc_loop (alloc_fuel hmp) (tr_flags tr) methods hmp lvs bref radix ?iter =
        Ok (ENOSPC, hmp, lvs', bref, iter')" and i: "freemap_inv hmp lvs' allocs"
    have "vol_ok (hmp\<lparr>heur_freemap := (heur_freemap hmp)[h := it_bnext iter']\<rparr>)"
      using vol by (simp add: vol_ok_def)
    then show ?thesis using res l i by (auto simp: freemap_inv_heur)
  qed
qed

section \<open>Sequences of allocations\<close>

text \<open>The extent a blockref describes: offset and radix of its \<open>data_off\<close>.\<close>

definition bref_extent :: "hammer2_blockref \<Rightarrow> nat set" where
  "bref_extent bref = extent (unat (br_data_off bref AND NOT HAMMER2_OFF_MASK_RADIX))
                             (unat (br_data_off bref AND HAMMER2_OFF_MASK_RADIX))"

lemma bref_extent_decode:
  assumes "1024 dvd unat (off :: u64)" "radix < 64"
  shows "bref_extent (bref\<lparr>br_data_off := off OR of_nat radix\<rparr>) = extent (unat off) radix"
proof -
  have "unat (of_nat radix :: u64) = radix" by (rule unat_of_nat_small) (use assms(2) in simp)
  moreover have "br_data_off (bref\<lparr>br_data_off := off OR of_nat radix\<rparr>) = off OR of_nat radix" by simp
  ultimately show ?thesis by (simp only: bref_extent_def data_off_decode [OF assms])
qed

text \<open>A sequence of requests (blockref and radix); the results that succeeded.\<close>

fun alloc_many ::
  "hammer2_trans \<Rightarrow> u8 \<Rightarrow> hammer2_mount \<Rightarrow> leaves \<Rightarrow> (hammer2_blockref \<times> nat) list
   \<Rightarrow> (hammer2_mount \<times> leaves \<times> hammer2_blockref list) outcome" where
  "alloc_many tr methods hmp lvs [] = Ok (hmp, lvs, [])"
| "alloc_many tr methods hmp lvs ((bref, radix) # reqs) =
     obind (hammer2_freemap_alloc tr methods hmp lvs bref (push_bit radix 1))
       (\<lambda>(e, tr', hmp', lvs', bref').
          obind (alloc_many tr' methods hmp' lvs' reqs) (\<lambda>(hmp'', lvs'', brefs).
            Ok (hmp'', lvs'', if e = E_OK then bref' # brefs else brefs)))"

definition request_ok :: "hammer2_blockref \<times> nat \<Rightarrow> bool" where
  "request_ok = (\<lambda>(bref, radix). br_type bref \<noteq> HAMMER2_BREF_TYPE_FREEMAP_NODE \<and>
     br_type bref \<noteq> HAMMER2_BREF_TYPE_FREEMAP_LEAF \<and> HAMMER2_RADIX_MIN \<le> radix \<and> radix \<le> HAMMER2_RADIX_MAX)"

lemma alloc_many_ok:
  assumes "freemap_inv hmp lvs allocs" "vol_ok hmp" "tr_flags tr AND HAMMER2_TRANS_FREEBATCH = 0"
    and "\<forall>q\<in>set reqs. request_ok q"
  shows "\<exists>hmp' lvs' brefs. alloc_many tr methods hmp lvs reqs = Ok (hmp', lvs', brefs) \<and>
    allocator_beg hmp' = allocator_beg hmp \<and> volu_size hmp' = volu_size hmp \<and>
    freemap_inv hmp' lvs' (allocs \<union> (\<Union>b\<in>set brefs. bref_extent b)) \<and>
    (\<forall>b\<in>set brefs. bref_extent b \<inter> allocs = {} \<and> bref_extent b \<subseteq> {unat (allocator_beg hmp)..<unat (volu_size hmp)}) \<and>
    sorted_wrt (\<lambda>b c. bref_extent b \<inter> bref_extent c = {}) brefs"
  using assms
proof (induction reqs arbitrary: hmp lvs allocs)
  case (Cons q reqs)
  obtain bref radix where q: "q = (bref, radix)" by (cases q)
  have ok: "br_type bref \<noteq> 5" "br_type bref \<noteq> 6" "10 \<le> radix" "radix \<le> 16"
    using Cons.prems(4) q by (auto simp: request_ok_def)
  obtain e hmp' lvs' bref' where a:
    "hammer2_freemap_alloc tr methods hmp lvs bref (push_bit radix 1) = Ok (e, tr, hmp', lvs', bref')"
    "vol_ok hmp'" and v: "allocator_beg hmp' = allocator_beg hmp \<and> volu_size hmp' = volu_size hmp"
    and r: "e = E_OK \<and> alloc_success hmp allocs bref radix hmp' lvs' bref' \<or>
       e = ENOSPC \<and> bref' = bref \<and> freemap_inv hmp' lvs' allocs"
    using freemap_alloc_ok [OF Cons.prems(1-3) ok] by blast
  show ?case
  proof (cases "e = E_OK")
    case True
    with r obtain off where off: "bref' = bref\<lparr>br_data_off := off OR of_nat radix\<rparr>"
      "extent (unat off) radix \<inter> allocs = {}" "unat (allocator_beg hmp) \<le> unat off"
      "unat off + 2 ^ radix \<le> unat (volu_size hmp)" "1024 dvd unat off"
      "freemap_inv hmp' lvs' (allocs \<union> extent (unat off) radix)"
      "allocator_beg hmp' = allocator_beg hmp" "volu_size hmp' = volu_size hmp"
      by (auto simp: alloc_success_def)
    have be: "bref_extent bref' = extent (unat off) radix"
      using bref_extent_decode [OF off(5), of radix bref] ok off(1) by simp
    have rng: "bref_extent bref' \<subseteq> {unat (allocator_beg hmp)..<unat (volu_size hmp)}"
      unfolding be extent_def using off(3,4) by auto
    from Cons.IH [OF off(6) a(2) Cons.prems(3)] Cons.prems(4) off(7,8)
    obtain hmp2 lvs2 brefs where ih: "alloc_many tr methods hmp' lvs' reqs = Ok (hmp2, lvs2, brefs)"
      "allocator_beg hmp2 = allocator_beg hmp" "volu_size hmp2 = volu_size hmp"
      "freemap_inv hmp2 lvs2 (allocs \<union> extent (unat off) radix \<union> (\<Union>b\<in>set brefs. bref_extent b))"
      "\<forall>b\<in>set brefs. bref_extent b \<inter> (allocs \<union> extent (unat off) radix) = {} \<and>
         bref_extent b \<subseteq> {unat (allocator_beg hmp)..<unat (volu_size hmp)}"
      "sorted_wrt (\<lambda>b c. bref_extent b \<inter> bref_extent c = {}) brefs" by auto
    have "alloc_many tr methods hmp lvs (q # reqs) = Ok (hmp2, lvs2, bref' # brefs)"
      using a(1) ih(1) True q by simp
    moreover have "freemap_inv hmp2 lvs2 (allocs \<union> (\<Union>b\<in>set (bref' # brefs). bref_extent b))"
      using ih(4) be by (simp add: Un_assoc)
    moreover have "sorted_wrt (\<lambda>b c. bref_extent b \<inter> bref_extent c = {}) (bref' # brefs)"
      using ih(5,6) be by (auto simp: Int_commute)
    ultimately show ?thesis using ih off(2) be rng by fastforce
  next
    case False
    with r have i: "freemap_inv hmp' lvs' allocs" "e = ENOSPC" by auto
    from Cons.IH [OF i(1) a(2) Cons.prems(3)] Cons.prems(4) v
    show ?thesis using a(1) False q by auto
  qed
qed simp

section \<open>Properties\<close>

definition ex_trans :: hammer2_trans where
  "ex_trans = \<lparr>tr_flags = 0, tr_sync_xid = 0\<rparr>"

definition ex_data :: hammer2_blockref where
  "ex_data = blockref_zero\<lparr>br_type := HAMMER2_BREF_TYPE_DATA\<rparr>"

lemma ex_freemap: "freemap_inv ex_mount Map.empty {}" "vol_ok ex_mount"
  by (simp_all add: freemap_inv_def vol_ok_def ex_mount_def)

text \<open>
  C2: \<open>hammer2_freemap_alloc\<close> for a block that is not part of the freemap, of any size
  from 1 KB to 64 KB, on any consistent freemap (leaves may be missing: they are created).
  It always returns: no assertion fails and the search over the zones ends.  Either it
  reports no space and leaves the allocated bytes as they were, or it returns an extent
  that shares no byte with any earlier allocation, lies between the static area and the
  end of the volume and outside every zone's reserved 4 MB, is aligned, and is recorded
  in the freemap.  The transaction is left as it was.
\<close>

theorem freemap_alloc_correct:
  assumes "freemap_inv hmp lvs allocs" "vol_ok hmp" "tr_flags tr AND HAMMER2_TRANS_FREEBATCH = 0"
    and "br_type bref \<noteq> HAMMER2_BREF_TYPE_FREEMAP_NODE" "br_type bref \<noteq> HAMMER2_BREF_TYPE_FREEMAP_LEAF"
    and "HAMMER2_RADIX_MIN \<le> radix" "radix \<le> HAMMER2_RADIX_MAX"
  shows "\<exists>e hmp' lvs' bref'. hammer2_freemap_alloc tr methods hmp lvs bref (push_bit radix 1) =
      Ok (e, tr, hmp', lvs', bref') \<and> vol_ok hmp' \<and>
      allocator_beg hmp' = allocator_beg hmp \<and> volu_size hmp' = volu_size hmp \<and>
      (e = E_OK \<and> alloc_success hmp allocs bref radix hmp' lvs' bref' \<or>
       e = ENOSPC \<and> bref' = bref \<and> freemap_inv hmp' lvs' allocs)"
  by (rule freemap_alloc_ok [OF assms])

theorem freemap_alloc_correct_witness:
  "\<exists>e hmp' lvs' bref'. hammer2_freemap_alloc ex_trans 0 ex_mount Map.empty ex_data (push_bit 14 1) =
      Ok (e, ex_trans, hmp', lvs', bref') \<and> vol_ok hmp' \<and>
      (e = E_OK \<and> alloc_success ex_mount {} ex_data 14 hmp' lvs' bref' \<or>
       e = ENOSPC \<and> bref' = ex_data \<and> freemap_inv hmp' lvs' {})"
  using freemap_alloc_correct [OF ex_freemap, of ex_trans ex_data 14 0]
  by (auto simp: ex_trans_def ex_data_def)

text \<open>
  C1: any sequence of allocations on a consistent freemap runs to its end, and the
  extents of the blockrefs it filled in are pairwise disjoint, disjoint from everything
  allocated before, and inside the usable part of the volume; the freemap describes
  exactly their union.
\<close>

theorem freemap_alloc_sequence:
  assumes "freemap_inv hmp lvs allocs" "vol_ok hmp" "tr_flags tr AND HAMMER2_TRANS_FREEBATCH = 0"
    and "\<forall>q\<in>set reqs. request_ok q"
  shows "\<exists>hmp' lvs' brefs. alloc_many tr methods hmp lvs reqs = Ok (hmp', lvs', brefs) \<and>
    allocator_beg hmp' = allocator_beg hmp \<and> volu_size hmp' = volu_size hmp \<and>
    freemap_inv hmp' lvs' (allocs \<union> (\<Union>b\<in>set brefs. bref_extent b)) \<and>
    (\<forall>b\<in>set brefs. bref_extent b \<inter> allocs = {} \<and> bref_extent b \<subseteq> {unat (allocator_beg hmp)..<unat (volu_size hmp)}) \<and>
    sorted_wrt (\<lambda>b c. bref_extent b \<inter> bref_extent c = {}) brefs"
  by (rule alloc_many_ok [OF assms])

theorem freemap_alloc_sequence_witness:
  "\<exists>hmp' lvs' brefs. alloc_many ex_trans 0 ex_mount Map.empty [(ex_data, 10), (ex_data, 16), (ex_data, 12)] =
      Ok (hmp', lvs', brefs) \<and> sorted_wrt (\<lambda>b c. bref_extent b \<inter> bref_extent c = {}) brefs"
proof -
  have "\<forall>q\<in>set [(ex_data, 10), (ex_data, 16), (ex_data, 12)]. request_ok q"
    by (simp add: request_ok_def ex_data_def)
  from freemap_alloc_sequence [OF ex_freemap _ this, of ex_trans 0] show ?thesis
    by (auto simp: ex_trans_def)
qed

text \<open>
  A new leaf.  \<open>hammer2_freemap_init\<close> leaves the segments of the zone exactly as the
  volume's layout demands: a segment below the end of the static area, in the first 4 MB
  of the zone or not wholly inside the volume is marked allocated with nothing available;
  every other one is entirely free.
\<close>

theorem freemap_init_correct:
  assumes "unat key mod 2 ^ 31 = 0" "n < HAMMER2_FREEMAP_COUNT"
    and "lf_bmdata leaf = replicate HAMMER2_FREEMAP_COUNT bmap_zero"
  shows "let b = lf_bmdata (hammer2_freemap_init hmp key leaf) ! n;
             base = unat key + n * HAMMER2_SEGSIZE
         in if base < unat (init_lokey hmp key) \<or> unat (init_hikey hmp key) \<le> base
            then bm_avail b = 0 \<and> bm_bitmap b = replicate 8 0xFFFFFFFF \<and> bmap_inv b {..<HAMMER2_SEGSIZE}
            else b = bmap_fresh \<and> bmap_inv b {}"
proof -
  let ?r = "key + of_nat n * H2FMSHIFT 21 < init_lokey hmp key \<or> key + of_nat n * H2FMSHIFT 21 \<ge> init_hikey hmp key"
  have b: "lf_bmdata (hammer2_freemap_init hmp key leaf) ! n = init_entry ?r bmap_zero"
    using assms(2,3) by (simp add: hammer2_freemap_init_def split_beta init_loop_fst Let_def)
  have r: "?r \<longleftrightarrow> unat key + n * 2097152 < unat (init_lokey hmp key) \<or>
                 unat (init_hikey hmp key) \<le> unat key + n * 2097152"
    using segment_key [OF assms(1,2)] by (simp add: word_order_nat)
  show ?thesis
    unfolding Let_def b r using bmap_inv_init [of True] bmap_inv_init [of False]
    by (simp add: init_entry_def bmap_zero_def bmap_fresh_def)
qed

end
