(* ===== verification/H2_System.thy ===== *)
theory H2_System
  imports Main
begin

text \<open>
  Systems of threads that run in steps.  The components whose operations interleave (the transaction
  manager, the locks, the device buffers, the volume header, the cluster messages) are step relations on
  the state they share; what holds in every reachable state is shown with an invariant.  The
  locale is the contract of such a component: each of them interprets it with its own steps.
\<close>

inductive reachable :: "('s \<Rightarrow> bool) \<Rightarrow> ('s \<Rightarrow> 's \<Rightarrow> bool) \<Rightarrow> 's \<Rightarrow> bool" for init :: "'s \<Rightarrow> bool" and step :: "'s \<Rightarrow> 's \<Rightarrow> bool" where
  reachable_init: "init s \<Longrightarrow> reachable init step s"
| reachable_step: "reachable init step s \<Longrightarrow> step s s' \<Longrightarrow> reachable init step s'"

lemma reachable_start: "reachable (\<lambda>s. s = s0) step s0"
  by (rule reachable_init) (rule refl)

lemma reachable_steps: "reachable init step s \<Longrightarrow> step\<^sup>*\<^sup>* s s' \<Longrightarrow> reachable init step s'"
  by (erule rtranclp_induct[rotated]) (auto intro: reachable_step)

lemma reachable_run: "reachable init step s \<longleftrightarrow> (\<exists>s0. init s0 \<and> step\<^sup>*\<^sup>* s0 s)"
proof
  show "reachable init step s \<Longrightarrow> \<exists>s0. init s0 \<and> step\<^sup>*\<^sup>* s0 s"
    by (induction rule: reachable.induct) (auto intro: rtranclp.rtrancl_into_rtrancl)
  show "\<exists>s0. init s0 \<and> step\<^sup>*\<^sup>* s0 s \<Longrightarrow> reachable init step s"
    using reachable_steps reachable_init by metis
qed

locale invariant_system =
  fixes init :: "'s \<Rightarrow> bool" and step :: "'s \<Rightarrow> 's \<Rightarrow> bool" and inv :: "'s \<Rightarrow> bool"
  assumes init_inv: "init s \<Longrightarrow> inv s"
    and step_inv: "step s s' \<Longrightarrow> inv s \<Longrightarrow> inv s'"
begin

lemma reachable_inv: "reachable init step s \<Longrightarrow> inv s"
  by (induction rule: reachable.induct) (auto intro: init_inv step_inv)

lemma steps_inv: "step\<^sup>*\<^sup>* s s' \<Longrightarrow> inv s \<Longrightarrow> inv s'"
  by (induction rule: rtranclp_induct) (auto intro: step_inv)

end

end
