(* ===== verification/H2_Trans.thy ===== *)
theory H2_Trans
  imports H2_Prelude H2_System "HOL-Library.Sublist"
begin

unbundle bit_operations_syntax

text \<open>
  The transaction manager of \<^verbatim>\<open>hammer2_flush.c\<close>: \<open>hammer2_trans_manage_init\<close>,
  \<open>hammer2_trans_newxid\<close>, \<open>hammer2_trans_init\<close>, \<open>hammer2_trans_spmp\<close> and
  \<open>hammer2_trans_done\<close>.  All of them run under the manager's lock, which
  \<open>lksleep\<close> releases while a transaction waits; a run of the system is therefore a
  sequence of steps of three kinds: entering \<open>hammer2_trans_init\<close> up to its end or to
  the point where it waits, leaving it once it is not blocked, and
  \<open>hammer2_trans_done\<close>.  The queue is a list; a transaction is named by a number that
  stands for its address.
\<close>

abbreviation (input) TRANS_ISFLUSH :: u32 where "TRANS_ISFLUSH \<equiv> 0x0001"
abbreviation (input) TRANS_CONCURRENT :: u32 where "TRANS_CONCURRENT \<equiv> 0x0002"
abbreviation (input) TRANS_BUFCACHE :: u32 where "TRANS_BUFCACHE \<equiv> 0x0004"
abbreviation (input) TRANS_NEWINODE :: u32 where "TRANS_NEWINODE \<equiv> 0x0008"
abbreviation (input) TRANS_PREFLUSH :: u32 where "TRANS_PREFLUSH \<equiv> 0x0020"
abbreviation (input) HAMMER2_INODE_START :: u64 where "HAMMER2_INODE_START \<equiv> 1024"

record h2_trans =
  t_id :: nat
  t_pmp :: nat
  t_sync_xid :: u32
  t_inode_tid :: u64
  t_flags :: u32
  t_blocked :: bool

record h2_pmp =
  pmp_alloc_tid :: u64
  pmp_flush_tid :: u64
  pmp_inode_tid :: u64
  pmp_is_spmp :: bool

record tmanage =
  tm_flush_xid :: u32
  tm_alloc_xid :: u32
  tm_transq :: "h2_trans list"
  tm_flushcnt :: int
  tm_pmps :: "nat \<Rightarrow> h2_pmp"

definition isflush :: "h2_trans \<Rightarrow> bool" where
  "isflush t \<longleftrightarrow> t_flags t AND TRANS_ISFLUSH \<noteq> 0"

definition isbufcache :: "h2_trans \<Rightarrow> bool" where
  "isbufcache t \<longleftrightarrow> t_flags t AND TRANS_BUFCACHE \<noteq> 0"

section \<open>The operations\<close>

definition hammer2_trans_manage_init :: "(nat \<Rightarrow> h2_pmp) \<Rightarrow> tmanage" where
  "hammer2_trans_manage_init pmps =
     \<lparr>tm_flush_xid = 1, tm_alloc_xid = 1 + 1, tm_transq = [], tm_flushcnt = 0, tm_pmps = pmps\<rparr>"

text \<open>The loop that skips the value 0.\<close>

function newxid_loop :: "u32 \<Rightarrow> u32 \<times> u32" where
  "newxid_loop alloc_xid = (if alloc_xid \<noteq> 0 then (alloc_xid, alloc_xid + 1) else newxid_loop (alloc_xid + 1))"
  by pat_completeness auto
termination by (relation "measure (\<lambda>a. if a = 0 then 1 else 0)") auto

declare newxid_loop.simps [simp del]

definition hammer2_trans_newxid :: "tmanage \<Rightarrow> u32 \<times> tmanage" where
  "hammer2_trans_newxid tm =
     (let (xid, next) = newxid_loop (tm_alloc_xid tm) in (xid, tm\<lparr>tm_alloc_xid := next\<rparr>))"

text \<open>\<open>TAILQ_INSERT_AFTER(head, trans)\<close> for the first flush of the queue.\<close>

fun insert_after_flush :: "h2_trans \<Rightarrow> h2_trans list \<Rightarrow> h2_trans list" where
  "insert_after_flush t [] = [t]"
| "insert_after_flush t (x # xs) = (if isflush x then x # t # xs else x # insert_after_flush t xs)"

text \<open>The flush branch.\<close>

definition init_flush :: "tmanage \<Rightarrow> h2_trans \<Rightarrow> tmanage" where
  "init_flush tm t =
     (let p = tm_pmps tm (t_pmp t);
          p1 = p\<lparr>pmp_alloc_tid := pmp_alloc_tid p + 1\<rparr>;
          p2 = p1\<lparr>pmp_flush_tid := pmp_alloc_tid p1\<rparr>;
          (xid, tm1) = hammer2_trans_newxid (tm\<lparr>tm_flushcnt := tm_flushcnt tm + 1\<rparr>);
          p3 = p2\<lparr>pmp_alloc_tid := pmp_alloc_tid p2 + 1\<rparr>;
          t1 = t\<lparr>t_sync_xid := xid, t_blocked := tm_transq tm \<noteq> []\<rparr>
      in tm1\<lparr>tm_flush_xid := xid, tm_pmps := (tm_pmps tm1)(t_pmp t := p3),
             tm_transq := tm_transq tm1 @ [t1]\<rparr>)"

text \<open>The two branches taken while a flush is pending; \<open>head\<close> is the first flush.\<close>

definition init_bufcache :: "tmanage \<Rightarrow> h2_trans \<Rightarrow> tmanage outcome" where
  "init_bufcache tm t =
     (case find isflush (tm_transq tm) of
        None \<Rightarrow> Panic ''head''
      | Some head \<Rightarrow>
          kkassert (t_flags head AND TRANS_PREFLUSH \<noteq> 0) ''head->flags & PREFLUSH''
            (let t1 = t\<lparr>t_flags := t_flags t OR TRANS_PREFLUSH OR TRANS_CONCURRENT,
                        t_sync_xid := t_sync_xid head\<rparr>
             in Ok (tm\<lparr>tm_transq := insert_after_flush t1 (tm_transq tm)\<rparr>)))"

definition init_normal :: "int \<Rightarrow> tmanage \<Rightarrow> h2_trans \<Rightarrow> tmanage outcome" where
  "init_normal synchronous_flush tm t =
     (case find isflush (tm_transq tm) of
        None \<Rightarrow> Panic ''head''
      | Some head \<Rightarrow>
          (let t1 = t\<lparr>t_flags := t_flags t OR TRANS_CONCURRENT,
                      t_sync_xid := t_sync_xid head + 1,
                      t_blocked := (synchronous_flush > 0 \<or> \<not> isflush (hd (tm_transq tm)))\<rparr>
           in Ok (tm\<lparr>tm_transq := insert_after_flush t1 (tm_transq tm)\<rparr>)))"

text \<open>\<open>hammer2_trans_init\<close> up to the release of the lock: at its end, or in \<open>lksleep\<close>.\<close>

definition trans_init_enter :: "int \<Rightarrow> tmanage \<Rightarrow> nat \<Rightarrow> nat \<Rightarrow> u32 \<Rightarrow> tmanage outcome" where
  "trans_init_enter synchronous_flush tm i pmp flags =
     (let t = \<lparr>t_id = i, t_pmp = pmp, t_sync_xid = 0, t_inode_tid = 0, t_flags = flags, t_blocked = False\<rparr>
      in if flags AND TRANS_ISFLUSH \<noteq> 0 then Ok (init_flush tm t)
         else if tm_flushcnt tm = 0 then
           Ok (tm\<lparr>tm_transq := tm_transq tm @ [t\<lparr>t_sync_xid := tm_flush_xid tm + 1\<rparr>]\<rparr>)
         else if flags AND TRANS_BUFCACHE \<noteq> 0 then init_bufcache tm t
         else init_normal synchronous_flush tm t)"

text \<open>The rest of \<open>hammer2_trans_init\<close>, for a transaction that is not blocked (any more).\<close>

definition trans_init_leave :: "tmanage \<Rightarrow> h2_trans \<Rightarrow> tmanage" where
  "trans_init_leave tm t =
     (if t_flags t AND TRANS_NEWINODE \<noteq> 0 then
        (let p = tm_pmps tm (t_pmp t)
         in if pmp_is_spmp p then
              tm\<lparr>tm_transq := map (\<lambda>x. if t_id x = t_id t then x\<lparr>t_inode_tid := 1\<rparr> else x) (tm_transq tm)\<rparr>
            else
              (let p1 = (if pmp_inode_tid p < HAMMER2_INODE_START
                         then p\<lparr>pmp_inode_tid := HAMMER2_INODE_START\<rparr> else p)
               in tm\<lparr>tm_transq := map (\<lambda>x. if t_id x = t_id t
                                          then x\<lparr>t_inode_tid := pmp_inode_tid p1\<rparr> else x) (tm_transq tm),
                     tm_pmps := (tm_pmps tm)(t_pmp t := p1\<lparr>pmp_inode_tid := pmp_inode_tid p1 + 1\<rparr>)\<rparr>))
      else tm)"

definition hammer2_trans_spmp :: "tmanage \<Rightarrow> nat \<Rightarrow> nat \<Rightarrow> tmanage" where
  "hammer2_trans_spmp tm i spmp =
     (let p = tm_pmps tm spmp;
          p1 = p\<lparr>pmp_alloc_tid := pmp_alloc_tid p + 1\<rparr>;
          p2 = p1\<lparr>pmp_flush_tid := pmp_alloc_tid p1\<rparr>;
          p3 = p2\<lparr>pmp_alloc_tid := pmp_alloc_tid p2 + 1\<rparr>
      in tm\<lparr>tm_pmps := (tm_pmps tm)(spmp := p3),
            tm_transq := map (\<lambda>x. if t_id x = i then x\<lparr>t_pmp := spmp\<rparr> else x) (tm_transq tm)\<rparr>)"

text \<open>The two scans of \<open>hammer2_trans_done\<close>, each up to the next flush.\<close>

fun clear_concurrent :: "h2_trans list \<Rightarrow> h2_trans list" where
  "clear_concurrent [] = []"
| "clear_concurrent (x # xs) =
     (if isflush x then x # xs
      else x\<lparr>t_flags := t_flags x AND NOT TRANS_CONCURRENT\<rparr> # clear_concurrent xs)"

fun unblock_scan :: "h2_trans list \<Rightarrow> h2_trans list" where
  "unblock_scan [] = []"
| "unblock_scan (x # xs) = (if isflush x then x # xs else x\<lparr>t_blocked := False\<rparr> # unblock_scan xs)"

definition unblock_head :: "int \<Rightarrow> h2_trans list \<Rightarrow> h2_trans list" where
  "unblock_head synchronous_flush q =
     (case q of
        [] \<Rightarrow> []
      | head # rest \<Rightarrow>
          if t_blocked head then
            (let head' = head\<lparr>t_blocked := False\<rparr>
             in if synchronous_flush > 0 then unblock_scan (head' # rest) else head' # unblock_scan rest)
          else q)"

definition hammer2_trans_done :: "int \<Rightarrow> tmanage \<Rightarrow> h2_trans \<Rightarrow> tmanage" where
  "hammer2_trans_done synchronous_flush tm t =
     (let q = filter (\<lambda>x. t_id x \<noteq> t_id t) (tm_transq tm);
          (q1, cnt) = (if isflush t then (clear_concurrent q, tm_flushcnt tm - 1) else (q, tm_flushcnt tm))
      in tm\<lparr>tm_transq := unblock_head synchronous_flush q1, tm_flushcnt := cnt\<rparr>)"

section \<open>Runs\<close>

text \<open>
  A step of the system.  \<open>PreflushDone\<close> is the flusher clearing its \<open>PREFLUSH\<close> flag
  (\<^verbatim>\<open>hammer2_vfsops.c\<close>, \<open>hammer2_vfs_sync\<close>).
\<close>

inductive tstep :: "int \<Rightarrow> tmanage \<Rightarrow> tmanage \<Rightarrow> bool" for sync :: int where
  Enter: "i \<notin> t_id ` set (tm_transq tm) \<Longrightarrow> trans_init_enter sync tm i pmp flags = Ok tm' \<Longrightarrow> tstep sync tm tm'"
| Leave: "t \<in> set (tm_transq tm) \<Longrightarrow> \<not> t_blocked t \<Longrightarrow> tstep sync tm (trans_init_leave tm t)"
| Spmp: "t \<in> set (tm_transq tm) \<Longrightarrow> \<not> t_blocked t \<Longrightarrow> isflush t \<Longrightarrow> tstep sync tm (hammer2_trans_spmp tm (t_id t) spmp)"
| PreflushDone: "t \<in> set (tm_transq tm) \<Longrightarrow> \<not> t_blocked t \<Longrightarrow> isflush t \<Longrightarrow>
    tstep sync tm (tm\<lparr>tm_transq := map (\<lambda>x. if t_id x = t_id t
      then x\<lparr>t_flags := t_flags x AND NOT TRANS_PREFLUSH\<rparr> else x) (tm_transq tm)\<rparr>)"
| Done: "t \<in> set (tm_transq tm) \<Longrightarrow> \<not> t_blocked t \<Longrightarrow> tstep sync tm (hammer2_trans_done sync tm t)"

abbreviation treach :: "int \<Rightarrow> (nat \<Rightarrow> h2_pmp) \<Rightarrow> tmanage \<Rightarrow> bool" where
  "treach sync pmps \<equiv> reachable (\<lambda>tm. tm = hammer2_trans_manage_init pmps) (tstep sync)"

section \<open>The invariant of the queue\<close>

text \<open>
  The first transaction of the queue runs; a flush that is not first waits.  With
  synchronous flushes, what comes after a flush waits, except buffer cache transactions.
\<close>

definition q_ok :: "int \<Rightarrow> h2_trans list \<Rightarrow> bool" where
  "q_ok sync q \<longleftrightarrow> distinct (map t_id q) \<and>
     (case q of
        [] \<Rightarrow> True
      | x # xs \<Rightarrow> \<not> t_blocked x \<and> (\<forall>y\<in>set xs. isflush y \<longrightarrow> t_blocked y)) \<and>
     (sync > 0 \<longrightarrow>
        sorted_wrt (\<lambda>x y. isflush x \<and> \<not> isflush y \<and> \<not> isbufcache y \<longrightarrow> t_blocked y) q)"

definition tm_inv :: "int \<Rightarrow> tmanage \<Rightarrow> bool" where
  "tm_inv sync tm \<longleftrightarrow> q_ok sync (tm_transq tm) \<and>
     tm_flushcnt tm = int (length (filter isflush (tm_transq tm)))"


section \<open>Flags\<close>

lemma isflush_simps [simp]:
  "isflush (t\<lparr>t_sync_xid := x\<rparr>) = isflush t" "isflush (t\<lparr>t_blocked := b\<rparr>) = isflush t"
  "isflush (t\<lparr>t_inode_tid := i\<rparr>) = isflush t" "isflush (t\<lparr>t_pmp := p\<rparr>) = isflush t"
  "isbufcache (t\<lparr>t_sync_xid := x\<rparr>) = isbufcache t" "isbufcache (t\<lparr>t_blocked := b\<rparr>) = isbufcache t"
  "isbufcache (t\<lparr>t_inode_tid := i\<rparr>) = isbufcache t" "isbufcache (t\<lparr>t_pmp := p\<rparr>) = isbufcache t"
  by (simp_all add: isflush_def isbufcache_def)

lemma flag_bit: "f AND 1 \<noteq> 0 \<longleftrightarrow> bit f 0" "f AND 4 \<noteq> 0 \<longleftrightarrow> bit f 2" for f :: u32
  using and_exp_eq_0_iff_not_bit[of f 0] and_exp_eq_0_iff_not_bit[of f 2] by simp_all

lemma flag_consts:
  "\<not> bit (2::u32) 0" "\<not> bit (2::u32) 2" "\<not> bit (32::u32) 0" "\<not> bit (32::u32) 2"
  using bit_exp_iff[where 'a=u32, of 1 0] bit_exp_iff[where 'a=u32, of 1 2]
    bit_exp_iff[where 'a=u32, of 5 0] bit_exp_iff[where 'a=u32, of 5 2]
  by simp_all

lemma u32_bit_not: "bit (NOT a) 0 \<longleftrightarrow> \<not> bit a 0" "bit (NOT a) 2 \<longleftrightarrow> \<not> bit a 2" for a :: u32
  by (simp_all add: bit_not_iff)

lemma isflush_set [simp]:
  "bit c 0 \<Longrightarrow> isflush (t\<lparr>t_flags := f AND c\<rparr>) = isflush (t\<lparr>t_flags := f\<rparr>)"
  "bit c 2 \<Longrightarrow> isbufcache (t\<lparr>t_flags := f AND c\<rparr>) = isbufcache (t\<lparr>t_flags := f\<rparr>)"
  "\<not> bit c 0 \<Longrightarrow> isflush (t\<lparr>t_flags := f OR c\<rparr>) = isflush (t\<lparr>t_flags := f\<rparr>)"
  "\<not> bit c 2 \<Longrightarrow> isbufcache (t\<lparr>t_flags := f OR c\<rparr>) = isbufcache (t\<lparr>t_flags := f\<rparr>)"
  by (simp_all add: isflush_def isbufcache_def flag_bit bit_and_iff bit_or_iff)

lemma flag_masks [simp]:
  "bit (-3 :: u32) 0" "bit (-3 :: u32) 2" "bit (-33 :: u32) 0" "bit (-33 :: u32) 2"
  "\<not> bit (2 :: u32) 0" "\<not> bit (2 :: u32) 2" "\<not> bit (34 :: u32) 0" "\<not> bit (34 :: u32) 2"
proof -
  have "bit (NOT 2 :: u32) 0" "bit (NOT 2 :: u32) 2" "bit (NOT 32 :: u32) 0" "bit (NOT 32 :: u32) 2"
    by (simp_all only: u32_bit_not flag_consts simp_thms)
  then show "bit (-3 :: u32) 0" "bit (-3 :: u32) 2" "bit (-33 :: u32) 0" "bit (-33 :: u32) 2"
    by simp_all
  have "(34::u32) = 32 OR 2" by simp
  then show "\<not> bit (2 :: u32) 0" "\<not> bit (2 :: u32) 2" "\<not> bit (34 :: u32) 0" "\<not> bit (34 :: u32) 2"
    by (simp_all only: bit_or_iff flag_consts simp_thms)
qed

lemma flags_idem [simp]: "t\<lparr>t_flags := t_flags t\<rparr> = t"
  by simp


section \<open>What the invariant reads of a transaction\<close>

definition tview :: "h2_trans \<Rightarrow> nat \<times> bool \<times> bool \<times> bool" where
  "tview t = (t_id t, isflush t, isbufcache t, t_blocked t)"

lemma tview_eq_iff:
  "tview x = tview y \<longleftrightarrow> t_id x = t_id y \<and> isflush x = isflush y \<and> isbufcache x = isbufcache y \<and>
     t_blocked x = t_blocked y"
  by (auto simp: tview_def)

definition v_ok :: "int \<Rightarrow> (nat \<times> bool \<times> bool \<times> bool) list \<Rightarrow> bool" where
  "v_ok sync vs \<longleftrightarrow> distinct (map fst vs) \<and>
     (case vs of [] \<Rightarrow> True
      | (_, _, _, b) # xs \<Rightarrow> \<not> b \<and> (\<forall>(_, f, _, b)\<in>set xs. f \<longrightarrow> b)) \<and>
     (sync > 0 \<longrightarrow> sorted_wrt (\<lambda>(_, f, _, _) (_, f', c', b'). f \<and> \<not> f' \<and> \<not> c' \<longrightarrow> b') vs)"

lemma q_ok_view: "q_ok sync q \<longleftrightarrow> v_ok sync (map tview q)"
  by (cases q) (auto simp: q_ok_def v_ok_def tview_def sorted_wrt_map comp_def)

lemma map_isflush_filter: "length (filter isflush q) = length (filter id (map isflush q))"
  by (simp add: filter_map comp_def)

lemma length_filter_view:
  "map tview q = map tview q' \<Longrightarrow> length (filter isflush q) = length (filter isflush q')"
proof -
  assume "map tview q = map tview q'"
  from arg_cong[OF this, of "map (\<lambda>(_, f, _). f)"] have "map isflush q = map isflush q'"
    by (simp add: comp_def tview_def)
  then show ?thesis by (simp only: map_isflush_filter)
qed

lemma tm_inv_view:
  assumes "map tview (tm_transq tm') = map tview (tm_transq tm)" "tm_flushcnt tm' = tm_flushcnt tm"
  shows "tm_inv sync tm' = tm_inv sync tm"
  using assms length_filter_view[OF assms(1)] by (simp add: tm_inv_def q_ok_view)

lemma map_tview_update:
  "(\<And>x. tview (g x) = tview x) \<Longrightarrow> map tview (map (\<lambda>x. if P x then g x else x) q) = map tview q"
  by simp

lemma tview_clear_concurrent: "map tview (clear_concurrent q) = map tview q"
  by (induction q) (auto simp: tview_eq_iff)

lemma unblock_scan_simps [simp]:
  "map t_id (unblock_scan q) = map t_id q" "map isflush (unblock_scan q) = map isflush q"
  "map isbufcache (unblock_scan q) = map isbufcache q" "length (unblock_scan q) = length q"
  by (induction q) auto

lemma unblock_head_map [simp]:
  "map t_id (unblock_head s q) = map t_id q" "map isflush (unblock_head s q) = map isflush q"
  by (auto simp: unblock_head_def Let_def split: list.splits)

text \<open>The order condition of synchronous mode.\<close>

abbreviation (input) waits_after :: "h2_trans \<Rightarrow> h2_trans \<Rightarrow> bool" where
  "waits_after \<equiv> \<lambda>x y. isflush x \<and> \<not> isflush y \<and> \<not> isbufcache y \<longrightarrow> t_blocked y"

lemma waits_unblock_scan: "sorted_wrt waits_after q \<Longrightarrow> sorted_wrt waits_after (unblock_scan q)"
  by (induction q) auto

lemma unblock_scan_flush: "y \<in> set (unblock_scan q) \<Longrightarrow> isflush y \<Longrightarrow> y \<in> set q"
  by (induction q) (auto split: if_splits)


section \<open>Every operation keeps the invariant\<close>

lemma q_ok_Nil [simp]: "q_ok sync []"
  by (simp add: q_ok_def)

lemma q_ok_unblock_head:
  assumes dist: "distinct (map t_id q)"
    and flush: "\<forall>y\<in>set (tl q). isflush y \<longrightarrow> t_blocked y"
    and waits: "sync > 0 \<Longrightarrow> sorted_wrt waits_after q"
  shows "q_ok sync (unblock_head sync q)"
proof (cases q)
  case Nil
  then show ?thesis by (simp add: unblock_head_def)
next
  case (Cons h r)
  show ?thesis
  proof (cases "t_blocked h")
    case False
    then show ?thesis using assms Cons by (auto simp: q_ok_def unblock_head_def)
  next
    case True
    define h' where "h' = h\<lparr>t_blocked := False\<rparr>"
    have eq: "unblock_head sync q = (if sync > 0 \<and> isflush h then h' # r else h' # unblock_scan r)"
      using Cons True by (simp add: unblock_head_def Let_def h'_def)
    have d: "distinct (map t_id (unblock_head sync q))" using dist by simp
    have f: "\<forall>y\<in>set (unblock_scan r). isflush y \<longrightarrow> t_blocked y"
      using flush Cons by (auto dest: unblock_scan_flush)
    have w: "sorted_wrt waits_after (unblock_head sync q)" if "sync > 0"
      using waits[OF that] that Cons eq waits_unblock_scan[of r] by (auto simp: h'_def)
    show ?thesis using d f w flush Cons eq by (auto simp: q_ok_def h'_def)
  qed
qed

lemma q_ok_done:
  assumes "q_ok sync q"
  shows "q_ok sync (unblock_head sync (filter P q))"
proof (rule q_ok_unblock_head)
  show "distinct (map t_id (filter P q))" using assms by (auto simp: q_ok_def distinct_map_filter)
  show "\<forall>y\<in>set (tl (filter P q)). isflush y \<longrightarrow> t_blocked y"
  proof (cases q)
    case (Cons x xs)
    have "set (tl (filter P q)) \<subseteq> set xs" 
      using Cons set_mp[OF set_mono_suffix[OF suffix_tl]] by (cases "P x") fastforce+
    then show ?thesis using assms Cons by (auto simp: q_ok_def)
  qed simp
  show "sorted_wrt waits_after (filter P q)" if "sync > 0"
    using assms that by (auto simp: q_ok_def sorted_wrt_filter)
qed

lemma v_ok_unblock_head:
  "map tview q = map tview q' \<Longrightarrow> map tview (unblock_head sync q) = map tview (unblock_head sync q')"
proof -
  have scan: "map tview q = map tview q' \<Longrightarrow> map tview (unblock_scan q) = map tview (unblock_scan q')" for q q'
  proof (induction q arbitrary: q')
    case (Cons x xs)
    then obtain y ys where "q' = y # ys" "tview x = tview y" "map tview xs = map tview ys" by (cases q') auto
    then show ?case using Cons.IH[of ys] by (auto simp: tview_eq_iff)
  qed simp
  assume *: "map tview q = map tview q'"
  show ?thesis
  proof (cases q)
    case Nil then show ?thesis using * by (simp add: unblock_head_def)
  next
    case (Cons x xs)
    then obtain y ys where "q' = y # ys" "tview x = tview y" "map tview xs = map tview ys" using * by (cases q') auto
    then show ?thesis using scan[of xs ys] Cons by (auto simp: unblock_head_def Let_def tview_eq_iff)
  qed
qed

lemma filter_unlink:
  "distinct (map t_id (a @ t # b)) \<Longrightarrow> filter (\<lambda>x. t_id x \<noteq> t_id t) (a @ t # b) = a @ b"
proof -
  assume d: "distinct (map t_id (a @ t # b))"
  have "filter (\<lambda>x. t_id x \<noteq> t_id t) a = a" "filter (\<lambda>x. t_id x \<noteq> t_id t) b = b"
    using d by (auto simp: filter_id_conv image_iff)
  then show ?thesis by simp
qed

lemma tm_inv_done:
  assumes inv: "tm_inv sync tm" and t: "t \<in> set (tm_transq tm)"
  shows "tm_inv sync (hammer2_trans_done sync tm t)"
proof -
  let ?P = "\<lambda>x. t_id x \<noteq> t_id t"
  obtain a b where q: "tm_transq tm = a @ t # b" using t by (auto dest: split_list)
  have d: "distinct (map t_id (tm_transq tm))" using inv by (simp add: tm_inv_def q_ok_def)
  have f: "filter ?P (tm_transq tm) = a @ b" using d filter_unlink by (simp only: q)
  have ok: "q_ok sync (unblock_head sync (a @ b))"
    using q_ok_done[of sync "tm_transq tm" ?P] inv f by (simp add: tm_inv_def)
  have cc: "map tview (unblock_head sync (clear_concurrent (a @ b))) = map tview (unblock_head sync (a @ b))"
    by (rule v_ok_unblock_head) (rule tview_clear_concurrent)
  have ok': "q_ok sync (unblock_head sync (clear_concurrent (a @ b)))" using ok cc by (simp add: q_ok_view)
  have len: "length (filter isflush (unblock_head sync r)) = length (filter isflush r)" for r
    by (simp only: map_isflush_filter unblock_head_map)
  have len': "length (filter isflush (clear_concurrent r)) = length (filter isflush r)" for r
    by (rule length_filter_view[OF tview_clear_concurrent])
  show ?thesis
    using inv ok ok' unfolding tm_inv_def hammer2_trans_done_def f Let_def
    by (cases "isflush t") (simp_all add: len len' q)
qed

lemma tm_inv_leave: "tm_inv sync tm \<Longrightarrow> tm_inv sync (trans_init_leave tm t)"
proof -
  have v: "map tview (map (\<lambda>x. if t_id x = i then x\<lparr>t_inode_tid := j\<rparr> else x) q) = map tview q" for i j q
    by (rule map_tview_update) (simp add: tview_def)
  have "tm_inv sync (trans_init_leave tm t) = tm_inv sync tm"
    by (rule tm_inv_view) (simp_all add: trans_init_leave_def Let_def v del: map_map)
  then show "tm_inv sync tm \<Longrightarrow> tm_inv sync (trans_init_leave tm t)" by simp
qed

lemma tm_inv_spmp: "tm_inv sync tm \<Longrightarrow> tm_inv sync (hammer2_trans_spmp tm i spmp)"
proof -
  have "tm_inv sync (hammer2_trans_spmp tm i spmp) = tm_inv sync tm"
    by (rule tm_inv_view) (simp_all add: hammer2_trans_spmp_def Let_def tview_def comp_def)
  then show "tm_inv sync tm \<Longrightarrow> tm_inv sync (hammer2_trans_spmp tm i spmp)" by simp
qed

lemma tm_inv_preflush:
  "tm_inv sync tm \<Longrightarrow> tm_inv sync (tm\<lparr>tm_transq := map (\<lambda>x. if t_id x = i
      then x\<lparr>t_flags := t_flags x AND NOT TRANS_PREFLUSH\<rparr> else x) (tm_transq tm)\<rparr>)"
proof -
  assume *: "tm_inv sync tm"
  have "map tview (map (\<lambda>x. if t_id x = i then x\<lparr>t_flags := t_flags x AND NOT TRANS_PREFLUSH\<rparr> else x) q)
     = map tview q" for q
    by (rule map_tview_update) (simp add: tview_def)
  then show ?thesis using * by (subst tm_inv_view[of _ tm]) simp_all
qed

lemma newxid_only: "snd (hammer2_trans_newxid tm) = tm\<lparr>tm_alloc_xid := tm_alloc_xid (snd (hammer2_trans_newxid tm))\<rparr>"
  by (simp add: hammer2_trans_newxid_def Let_def split: prod.splits)

lemma q_ok_append_flush:
  "q_ok sync q \<Longrightarrow> t_id t \<notin> t_id ` set q \<Longrightarrow> isflush t \<Longrightarrow> t_blocked t = (q \<noteq> []) \<Longrightarrow> q_ok sync (q @ [t])"
  by (cases q) (auto simp: q_ok_def sorted_wrt_append)

lemma q_ok_append_normal:
  "q_ok sync q \<Longrightarrow> t_id t \<notin> t_id ` set q \<Longrightarrow> \<not> isflush t \<Longrightarrow> \<not> t_blocked t \<Longrightarrow>
   filter isflush q = [] \<Longrightarrow> q_ok sync (q @ [t])"
  by (cases q) (auto simp: q_ok_def sorted_wrt_append filter_empty_conv split: if_splits)

lemma set_insert_after_flush: "set (insert_after_flush t q) = insert t (set q)"
  by (induction q) auto

lemma distinct_insert_after_flush:
  "distinct (map t_id (insert_after_flush t q)) \<longleftrightarrow> t_id t \<notin> t_id ` set q \<and> distinct (map t_id q)"
  by (induction q) (auto simp: set_insert_after_flush)

lemma waits_insert_after_flush:
  "sorted_wrt waits_after q \<Longrightarrow> \<not> isflush t \<Longrightarrow> isbufcache t \<or> t_blocked t \<Longrightarrow>
   sorted_wrt waits_after (insert_after_flush t q)"
  by (induction q) (auto simp: set_insert_after_flush)

lemma q_ok_insert_after:
  assumes "q_ok sync q" "t_id t \<notin> t_id ` set q" "\<not> isflush t" "sync > 0 \<Longrightarrow> isbufcache t \<or> t_blocked t"
    "filter isflush q \<noteq> []"
  shows "q_ok sync (insert_after_flush t q)"
proof -
  obtain x xs where q: "q = x # xs" using assms(5) by (cases q) auto
  have w: "sync > 0 \<Longrightarrow> sorted_wrt waits_after (insert_after_flush t q)"
    using assms waits_insert_after_flush[of q t] by (simp add: q_ok_def)
  have "distinct (map t_id (insert_after_flush t q))"
    using assms by (simp add: distinct_insert_after_flush q_ok_def)
  then show ?thesis using assms w unfolding q_ok_def q by (auto simp: set_insert_after_flush)
qed

lemma length_insert_after_flush:
  "\<not> isflush t \<Longrightarrow> length (filter isflush (insert_after_flush t q)) = length (filter isflush q)"
  by (induction q) auto


lemma find_isflush: "find isflush q = Some h \<Longrightarrow> h \<in> set q \<and> isflush h \<and> filter isflush q \<noteq> []"
  by (auto simp: find_Some_iff filter_empty_conv)

lemma find_isflush_None: "find isflush q = None \<longleftrightarrow> filter isflush q = []"
  by (auto simp: find_None_iff filter_empty_conv)

lemma tm_inv_init_flush:
  assumes inv: "tm_inv sync tm" and fresh: "t_id t \<notin> t_id ` set (tm_transq tm)" and fl: "isflush t"
  shows "tm_inv sync (init_flush tm t)"
proof -
  obtain xid tm1 where n: "hammer2_trans_newxid (tm\<lparr>tm_flushcnt := tm_flushcnt tm + 1\<rparr>) = (xid, tm1)"
    by (cases "hammer2_trans_newxid (tm\<lparr>tm_flushcnt := tm_flushcnt tm + 1\<rparr>)")
  have tm1: "tm_transq tm1 = tm_transq tm" "tm_flushcnt tm1 = tm_flushcnt tm + 1"
    using n by (auto simp: hammer2_trans_newxid_def Let_def split: prod.splits)
  have "q_ok sync (tm_transq tm @ [t\<lparr>t_sync_xid := xid, t_blocked := tm_transq tm \<noteq> []\<rparr>])"
    using inv fresh fl by (intro q_ok_append_flush) (auto simp: tm_inv_def)
  moreover have "isflush (t\<lparr>t_sync_xid := xid, t_blocked := b\<rparr>)" for b using fl by simp
  ultimately show ?thesis using inv unfolding tm_inv_def init_flush_def Let_def n by (simp add: tm1)
qed

lemma tm_inv_init_bufcache:
  assumes "tm_inv sync tm" "t_id t \<notin> t_id ` set (tm_transq tm)" "\<not> isflush t" "isbufcache t"
    and ok: "init_bufcache tm t = Ok tm'"
  shows "tm_inv sync tm'"
proof -
  obtain h where h: "find isflush (tm_transq tm) = Some h" using ok by (auto simp: init_bufcache_def split: option.splits)
  let ?t = "t\<lparr>t_flags := t_flags t OR TRANS_PREFLUSH OR TRANS_CONCURRENT, t_sync_xid := t_sync_xid h\<rparr>"
  have tm': "tm' = tm\<lparr>tm_transq := insert_after_flush ?t (tm_transq tm)\<rparr>"
    using ok h by (auto simp: init_bufcache_def kkassert_def Let_def split: if_splits)
  have nf: "\<not> isflush ?t" "isbufcache ?t" using assms(3,4) by simp_all
  have "q_ok sync (insert_after_flush ?t (tm_transq tm))"
    using assms nf find_isflush[OF h] by (intro q_ok_insert_after) (auto simp: tm_inv_def)
  then show ?thesis using assms(1) nf by (simp add: tm_inv_def tm' length_insert_after_flush)
qed

lemma tm_inv_init_normal:
  assumes "tm_inv sync tm" "t_id t \<notin> t_id ` set (tm_transq tm)" "\<not> isflush t"
    and ok: "init_normal sync tm t = Ok tm'"
  shows "tm_inv sync tm'"
proof -
  obtain h where h: "find isflush (tm_transq tm) = Some h" using ok by (auto simp: init_normal_def split: option.splits)
  let ?t = "t\<lparr>t_flags := t_flags t OR TRANS_CONCURRENT, t_sync_xid := t_sync_xid h + 1,
              t_blocked := (sync > 0 \<or> \<not> isflush (hd (tm_transq tm)))\<rparr>"
  have tm': "tm' = tm\<lparr>tm_transq := insert_after_flush ?t (tm_transq tm)\<rparr>"
    using ok h by (auto simp: init_normal_def Let_def)
  have nf: "\<not> isflush ?t" using assms(3) by simp
  have "q_ok sync (insert_after_flush ?t (tm_transq tm))"
    using assms nf find_isflush[OF h] by (intro q_ok_insert_after) (auto simp: tm_inv_def)
  then show ?thesis using assms(1) nf by (simp add: tm_inv_def tm' length_insert_after_flush)
qed

lemma tm_inv_enter:
  assumes inv: "tm_inv sync tm" and fresh: "i \<notin> t_id ` set (tm_transq tm)"
    and ok: "trans_init_enter sync tm i pmp flags = Ok tm'"
  shows "tm_inv sync tm'"
proof -
  define t where "t = \<lparr>t_id = i, t_pmp = pmp, t_sync_xid = 0, t_inode_tid = 0, t_flags = flags, t_blocked = False\<rparr>"
  have fr: "t_id t \<notin> t_id ` set (tm_transq tm)" using fresh by (simp add: t_def)
  have nb: "\<not> t_blocked t" by (simp add: t_def)
  have fl: "isflush t \<longleftrightarrow> flags AND TRANS_ISFLUSH \<noteq> 0" "isbufcache t \<longleftrightarrow> flags AND TRANS_BUFCACHE \<noteq> 0"
    by (simp_all add: t_def isflush_def isbufcache_def)
  have eq: "Ok tm' = (if isflush t then Ok (init_flush tm t)
         else if tm_flushcnt tm = 0 then
           Ok (tm\<lparr>tm_transq := tm_transq tm @ [t\<lparr>t_sync_xid := tm_flush_xid tm + 1\<rparr>]\<rparr>)
         else if isbufcache t then init_bufcache tm t
         else init_normal sync tm t)"
    by (simp only: ok[symmetric] fl trans_init_enter_def Let_def t_def[symmetric])
  show ?thesis
  proof (cases "isflush t")
    case True then show ?thesis using eq tm_inv_init_flush[OF inv fr] by simp
  next
    case nf: False
    show ?thesis
    proof (cases "tm_flushcnt tm = 0")
      case True
      let ?t = "t\<lparr>t_sync_xid := tm_flush_xid tm + 1\<rparr>"
      have "q_ok sync (tm_transq tm @ [?t])"
        using inv fr nf True by (intro q_ok_append_normal) (auto simp: tm_inv_def nb)
      then show ?thesis using eq nf True inv by (simp add: tm_inv_def)
    next
      case False
      then show ?thesis
        using eq nf tm_inv_init_bufcache[OF inv fr nf, of tm'] tm_inv_init_normal[OF inv fr nf, of tm']
        by (auto split: if_splits)
    qed
  qed
qed

lemma tm_inv_step: "tstep sync tm tm' \<Longrightarrow> tm_inv sync tm \<Longrightarrow> tm_inv sync tm'"
  by (induction rule: tstep.induct)
    (blast intro: tm_inv_enter tm_inv_leave tm_inv_spmp tm_inv_preflush tm_inv_done)+

interpretation trans: invariant_system "\<lambda>tm. tm = hammer2_trans_manage_init pmps" "tstep sync" "tm_inv sync" for pmps sync
  by unfold_locales (simp add: hammer2_trans_manage_init_def tm_inv_def, rule tm_inv_step)

lemmas treach_inv = trans.reachable_inv

section \<open>Progress\<close>

text \<open>The run in which \<open>k\<close> times the first transaction of the queue finishes.\<close>

primrec drain :: "int \<Rightarrow> nat \<Rightarrow> tmanage \<Rightarrow> tmanage" where
  "drain sync 0 tm = tm"
| "drain sync (Suc k) tm = drain sync k (hammer2_trans_done sync tm (hd (tm_transq tm)))"

lemma clear_concurrent_ids [simp]: "map t_id (clear_concurrent q) = map t_id q"
  by (induction q) auto

lemma done_head_ids:
  assumes "distinct (map t_id (tm_transq tm))"
  shows "map t_id (tm_transq (hammer2_trans_done sync tm (hd (tm_transq tm)))) = tl (map t_id (tm_transq tm))"
proof (cases "tm_transq tm")
  case Nil then show ?thesis by (simp add: hammer2_trans_done_def Let_def unblock_head_def)
next
  case (Cons h r)
  then have "filter (\<lambda>x. t_id x \<noteq> t_id h) (tm_transq tm) = r" using assms filter_unlink[of "[]" h r] by simp
  then show ?thesis using Cons by (simp add: hammer2_trans_done_def Let_def)
qed

lemma drain_reach:
  "treach sync pmps tm \<Longrightarrow> k \<le> length (tm_transq tm) \<Longrightarrow>
   treach sync pmps (drain sync k tm) \<and> map t_id (tm_transq (drain sync k tm)) = drop k (map t_id (tm_transq tm))"
proof (induction k arbitrary: tm)
  case (Suc k)
  let ?tm = "hammer2_trans_done sync tm (hd (tm_transq tm))"
  have inv: "tm_inv sync tm" using Suc.prems treach_inv by blast
  obtain h r where q: "tm_transq tm = h # r" using Suc.prems(2) by (cases "tm_transq tm") auto
  have "\<not> t_blocked h" "distinct (map t_id (tm_transq tm))" using inv q by (auto simp: tm_inv_def q_ok_def)
  then have ids: "map t_id (tm_transq ?tm) = map t_id r" and st: "tstep sync tm ?tm"
    using done_head_ids[of tm sync] q by (auto intro: tstep.Done)
  have "k \<le> length (tm_transq ?tm)" using arg_cong[OF ids, of length] Suc.prems(2) q by simp
  then show ?case using Suc.IH[of ?tm] reachable_step[OF Suc.prems(1) st] ids q by simp
qed simp

section \<open>Properties\<close>

text \<open>
  C28: transactions are isolated the way \<open>hammer2_trans_init\<close> says.  In every state that
  entering, leaving and finishing transactions can reach, whatever their order and flags:
  the first transaction of the queue is not blocked; flushes are serialized, at most one
  runs and it runs only when every transaction queued before it is done; in synchronous
  mode nothing but buffer cache transactions runs beside a running flush; and
  \<open>flushcnt\<close> counts the flushes of the queue.
\<close>

theorem trans_isolation:
  assumes "treach sync pmps tm"
  shows "(tm_transq tm \<noteq> [] \<longrightarrow> \<not> t_blocked (hd (tm_transq tm))) \<and>
    (\<forall>x\<in>set (tm_transq tm). isflush x \<and> \<not> t_blocked x \<longrightarrow> x = hd (tm_transq tm)) \<and>
    (sync > 0 \<longrightarrow> (\<forall>x\<in>set (tm_transq tm). \<forall>y\<in>set (tm_transq tm).
        isflush x \<and> \<not> t_blocked x \<and> y \<noteq> x \<and> \<not> t_blocked y \<longrightarrow> isbufcache y)) \<and>
    distinct (map t_id (tm_transq tm)) \<and>
    tm_flushcnt tm = int (length (filter isflush (tm_transq tm)))"
proof (cases "tm_transq tm")
  case Nil
  then show ?thesis using treach_inv[OF assms] by (simp add: tm_inv_def)
next
  case (Cons h r)
  note inv = treach_inv[OF assms, unfolded tm_inv_def q_ok_def Cons]
  have head: "\<not> t_blocked h" "\<forall>y\<in>set r. isflush y \<longrightarrow> t_blocked y" using inv by auto
  have "sync > 0 \<Longrightarrow> isflush h \<Longrightarrow> \<forall>y\<in>set r. \<not> t_blocked y \<longrightarrow> isbufcache y"
    using inv head by auto
  then show ?thesis using inv head unfolding Cons by auto
qed

text \<open>
  The assertions of \<open>hammer2_trans_init\<close>.  In a reachable state the search for the
  pending flush always finds one, and the only entry that can panic is a buffer cache
  transaction that arrives while the first flush of the queue has left its preflush
  stage.  Flushes and ordinary transactions never panic.
\<close>

theorem trans_init_assertions:
  assumes "treach sync pmps tm"
  shows "trans_init_enter sync tm i pmp flags = Panic m \<longleftrightarrow>
    m = ''head->flags & PREFLUSH'' \<and> flags AND TRANS_ISFLUSH = 0 \<and> flags AND TRANS_BUFCACHE \<noteq> 0 \<and>
    (\<exists>h. find isflush (tm_transq tm) = Some h \<and> t_flags h AND TRANS_PREFLUSH = 0)"
proof -
  have cnt: "tm_flushcnt tm = 0 \<longleftrightarrow> find isflush (tm_transq tm) = None"
    using treach_inv[OF assms] by (auto simp: tm_inv_def find_isflush_None)
  show ?thesis
    by (cases "find isflush (tm_transq tm)")
      (use cnt in \<open>auto simp: trans_init_enter_def Let_def init_bufcache_def init_normal_def kkassert_def\<close>)
qed


text \<open>
  C29: no transaction waits for ever.  Whatever was queued, if the transactions that run
  finish, then the transaction at position \<open>k\<close> of the queue is woken: after the \<open>k\<close>
  transactions before it are done it is the first of the queue and is not blocked.
\<close>

theorem trans_progress:
  assumes "treach sync pmps tm" "k < length (tm_transq tm)"
  shows "treach sync pmps (drain sync k tm) \<and>
    t_id (hd (tm_transq (drain sync k tm))) = t_id (tm_transq tm ! k) \<and>
    \<not> t_blocked (hd (tm_transq (drain sync k tm)))"
proof -
  let ?q = "tm_transq (drain sync k tm)"
  have r: "treach sync pmps (drain sync k tm)" "map t_id ?q = drop k (map t_id (tm_transq tm))"
    using drain_reach[OF assms(1), of k] assms(2) by simp_all
  have ne: "?q \<noteq> []" using r(2) assms(2) by (cases ?q) auto
  have "t_id (hd ?q) = t_id (tm_transq tm ! k)"
    using arg_cong[OF r(2), of hd] ne assms(2) by (simp add: hd_map hd_drop_conv_nth)
  moreover have "\<not> t_blocked (hd ?q)"
    using treach_inv[OF r(1)] ne by (cases ?q) (auto simp: tm_inv_def q_ok_def)
  ultimately show ?thesis using r(1) by blast
qed

text \<open>
  A concrete run: an ordinary transaction, a flush that waits for it, another ordinary
  transaction that waits for the flush, then the first one finishes.
\<close>

definition pmp0 :: "nat \<Rightarrow> h2_pmp" where
  "pmp0 = (\<lambda>_. \<lparr>pmp_alloc_tid = 0, pmp_flush_tid = 0, pmp_inode_tid = 0, pmp_is_spmp = False\<rparr>)"

definition run1 :: tmanage where
  "run1 = (let tm0 = hammer2_trans_manage_init pmp0;
               tm1 = (case trans_init_enter 1 tm0 1 0 TRANS_NEWINODE of Ok tm \<Rightarrow> tm | _ \<Rightarrow> tm0);
               tm2 = (case trans_init_enter 1 tm1 2 0 (TRANS_ISFLUSH OR TRANS_PREFLUSH) of Ok tm \<Rightarrow> tm | _ \<Rightarrow> tm0)
           in case trans_init_enter 1 tm2 3 0 0 of Ok tm \<Rightarrow> tm | _ \<Rightarrow> tm0)"

lemmas run1_defs = trans_init_enter_def init_flush_def init_normal_def init_bufcache_def
  hammer2_trans_manage_init_def hammer2_trans_newxid_def newxid_loop.simps Let_def pmp0_def isflush_def

lemma run1_queue:
  "map (\<lambda>t. (t_id t, t_sync_xid t, t_flags t, t_blocked t)) (tm_transq run1) =
     [(1, 2, 8, False), (2, 2, 33, True), (3, 3, 2, True)]"
  by (simp add: run1_def run1_defs)

lemma run1_reach: "treach 1 pmp0 run1"
proof -
  let ?tm0 = "hammer2_trans_manage_init pmp0"
  obtain tm1 where 1: "trans_init_enter 1 ?tm0 1 0 TRANS_NEWINODE = Ok tm1" "map t_id (tm_transq tm1) = [1]"
    by (simp add: run1_defs)
  have r1: "treach 1 pmp0 tm1"
    by (rule reachable_step[OF reachable_start[where step = "tstep 1"] tstep.Enter[OF _ 1(1)]]) (simp add: hammer2_trans_manage_init_def)
  obtain tm2 where 2: "trans_init_enter 1 tm1 2 0 (TRANS_ISFLUSH OR TRANS_PREFLUSH) = Ok tm2" "map t_id (tm_transq tm2) = [1, 2]"
    using 1 by (auto simp: trans_init_enter_def init_flush_def Let_def hammer2_trans_newxid_def split: prod.splits)
  have r2: "treach 1 pmp0 tm2"
    by (rule reachable_step[OF r1 tstep.Enter[OF _ 2(1)]]) (use 1(2) in \<open>auto simp: map_eq_Cons_conv\<close>)
  have f: "tm_flushcnt tm2 = int (length (filter isflush (tm_transq tm2)))" "find isflush (tm_transq tm2) \<noteq> None"
    using treach_inv[OF r2] 2(1) by (auto simp: tm_inv_def trans_init_enter_def init_flush_def Let_def
        hammer2_trans_newxid_def find_None_iff isflush_def split: prod.splits)
  then obtain h where h: "find isflush (tm_transq tm2) = Some h" by blast
  moreover have "tm_flushcnt tm2 \<noteq> 0" using f find_isflush[OF h] by simp
  ultimately obtain tm3 where 3: "trans_init_enter 1 tm2 3 0 0 = Ok tm3"
    by (simp add: trans_init_enter_def init_normal_def Let_def)
  have "treach 1 pmp0 tm3"
    by (rule reachable_step[OF r2 tstep.Enter[OF _ 3(1)]]) (use 2(2) in \<open>auto simp: map_eq_Cons_conv\<close>)
  then show ?thesis using 1 2 3 by (simp add: run1_def)
qed

theorem trans_isolation_witness:
  "tm_flushcnt run1 = 1 \<and> \<not> t_blocked (hd (tm_transq run1)) \<and> isflush (tm_transq run1 ! 1) \<and>
   t_blocked (tm_transq run1 ! 1)"
  using trans_isolation[OF run1_reach] run1_queue by (auto simp: map_eq_Cons_conv isflush_def)

theorem trans_progress_witness:
  "t_id (hd (tm_transq (drain 1 2 run1))) = 3 \<and> \<not> t_blocked (hd (tm_transq (drain 1 2 run1)))"
proof -
  have "length (tm_transq run1) = 3" "t_id (tm_transq run1 ! 2) = 3"
    using run1_queue by (auto simp: map_eq_Cons_conv)
  then show ?thesis using trans_progress[OF run1_reach, of 2] by simp
qed

end
