(* ===== verification/H2_Ccms.thy ===== *)
theory H2_Ccms
  imports H2_Prelude H2_System "HOL-Library.Multiset"
begin

text \<open>
  The lock of \<^verbatim>\<open>hammer2_ccms.c\<close>, which protects every chain and inode
  (\<open>ccms_thread_lock\<close>, \<open>ccms_thread_lock_nonblock\<close>, \<open>ccms_thread_lock_upgrade\<close>,
  \<open>ccms_thread_lock_downgrade\<close>, \<open>ccms_thread_unlock\<close> and the others), the mount locks of
  \<^verbatim>\<open>hammer2_subr.c\<close> and the inode wrappers of \<^verbatim>\<open>hammer2_inode.c\<close> that call it.  Each
  operation is one atomic step.  For most of the code that is what \<open>cst->spin\<close> gives; the branches for a thread that
  holds the lock exclusively (\<^verbatim>\<open>hammer2_ccms.c\<close>:241 and 279), which in this port every thread takes because \<open>cst->td\<close> and the global \<open>curthread2\<close> stay null or are not compared, change
  \<open>count\<close> without the spinlock.  Two such changes at the same time can lose one of them, which is not part of the model: what is proved
  of the count holds only while these changes do not overlap.  A thread that has to wait gives the spinlock up in \<open>ssleep\<close>
  as its comment says and tests its loop condition again when it wakes, which \<open>hz\<close> makes
  it do at any time.  The state of the system is the lock together with the list of what
  each thread holds, which the program does not store.
  The thread accounting of \<open>LOCKENTER\<close> and \<open>LOCKEXIT\<close> is not part of it.
\<close>

type_synonym ccms_state_t = u8

abbreviation (input) CCMS_STATE_INVALID :: ccms_state_t where "CCMS_STATE_INVALID \<equiv> 0"
abbreviation (input) CCMS_STATE_SHARED :: ccms_state_t where "CCMS_STATE_SHARED \<equiv> 2"
abbreviation (input) CCMS_STATE_EXCLUSIVE :: ccms_state_t where "CCMS_STATE_EXCLUSIVE \<equiv> 3"

text \<open>A pointer to a thread: \<open>None\<close> is \<open>NULL\<close>.\<close>

type_synonym thread = "nat option"

record ccms_cst =
  cst_handle :: thread
  cst_state :: ccms_state_t
  cst_upgrade :: int
  cst_count :: int
  cst_blocked :: bool
  cst_td :: thread

section \<open>The operations\<close>

definition ccms_cst_init :: "thread \<Rightarrow> ccms_cst" where
  "ccms_cst_init handle =
     \<lparr>cst_handle = handle, cst_state = CCMS_STATE_INVALID, cst_upgrade = 0, cst_count = 0,
      cst_blocked = False, cst_td = None\<rparr>"

definition ccms_cst_uninit :: "ccms_cst \<Rightarrow> ccms_cst outcome" where
  "ccms_cst_uninit cst = kkassert (cst_count cst = 0) ''cst->count == 0'' (Ok (cst\<lparr>cst_handle := None\<rparr>))"

text \<open>
  What one attempt of a waiting loop does: the lock is taken, or \<open>blocked\<close> is set and
  the thread sleeps.
\<close>

datatype attempt = Granted ccms_cst | Waits ccms_cst

definition try_shared :: "ccms_cst \<Rightarrow> attempt outcome" where
  "try_shared cst =
     (if cst_count cst < 0 \<or> cst_upgrade cst \<noteq> 0 then Ok (Waits (cst\<lparr>cst_blocked := True\<rparr>))
      else kkassert (cst_td cst = None) ''cst->td == NULL''
        (Ok (Granted (cst\<lparr>cst_count := cst_count cst + 1\<rparr>))))"

definition try_exclusive :: "ccms_cst \<Rightarrow> attempt outcome" where
  "try_exclusive cst =
     (if cst_count cst \<noteq> 0 \<or> cst_upgrade cst \<noteq> 0 then Ok (Waits (cst\<lparr>cst_blocked := True\<rparr>))
      else Ok (Granted (cst\<lparr>cst_count := -1\<rparr>)))"

text \<open>The loop a thread that asked for \<open>st\<close> is in.\<close>

definition lock_try :: "ccms_state_t \<Rightarrow> ccms_cst \<Rightarrow> attempt outcome" where
  "lock_try st cst =
     (if st = CCMS_STATE_SHARED then try_shared cst
      else if st = CCMS_STATE_EXCLUSIVE then try_exclusive cst
      else Panic ''ccms_thread_lock: bad state'')"

text \<open>
  \<open>ccms_thread_lock\<close> up to the first sleep.  \<open>curthread2\<close> is the global of that name; the
  assignment of \<open>cst->td\<close> in the exclusive branch is commented out in the source.
\<close>

definition ccms_thread_lock :: "thread \<Rightarrow> ccms_state_t \<Rightarrow> ccms_cst \<Rightarrow> attempt outcome" where
  "ccms_thread_lock curthread2 st cst =
     (if cst_count cst < 0 \<and> cst_td cst = curthread2
      then Ok (Granted (cst\<lparr>cst_count := cst_count cst - 1\<rparr>))
      else lock_try st cst)"

definition ccms_thread_lock_nonblock :: "ccms_state_t \<Rightarrow> ccms_cst \<Rightarrow> (errno \<times> ccms_cst) outcome" where
  "ccms_thread_lock_nonblock st cst =
     (if cst_count cst < 0 then Ok (E_OK, cst\<lparr>cst_count := cst_count cst - 1\<rparr>)
      else if st = CCMS_STATE_SHARED then
        (if cst_count cst < 0 \<or> cst_upgrade cst \<noteq> 0 then Ok (EBUSY, cst)
         else kkassert (cst_td cst = None) ''cst->td == NULL''
           (Ok (E_OK, cst\<lparr>cst_count := cst_count cst + 1\<rparr>)))
      else if st = CCMS_STATE_EXCLUSIVE then
        (if cst_count cst \<noteq> 0 \<or> cst_upgrade cst \<noteq> 0 then Ok (EBUSY, cst)
         else Ok (E_OK, cst\<lparr>cst_count := -1\<rparr>))
      else Panic ''ccms_thread_lock_nonblock: bad state'')"

definition ccms_thread_unlock :: "ccms_cst \<Rightarrow> ccms_cst outcome" where
  "ccms_thread_unlock cst =
     (if cst_count cst < 0 then
        (if cst_count cst < -1 then Ok (cst\<lparr>cst_count := cst_count cst + 1\<rparr>)
         else kkassert (cst_count cst = -1) ''cst->count == -1''
           (Ok (cst\<lparr>cst_count := 0, cst_td := None, cst_blocked := False\<rparr>)))
      else if cst_count cst > 0 then
        (let c = cst_count cst - 1
         in Ok (cst\<lparr>cst_count := c, cst_blocked := (if c = 0 then False else cst_blocked cst)\<rparr>))
      else Panic ''ccms_thread_unlock: bad zero count'')"

definition ccms_thread_lock_temp_release :: "ccms_cst \<Rightarrow> (ccms_state_t \<times> ccms_cst) outcome" where
  "ccms_thread_lock_temp_release cst =
     (if cst_count cst < 0 then obind (ccms_thread_unlock cst) (\<lambda>c. Ok (CCMS_STATE_EXCLUSIVE, c))
      else if cst_count cst > 0 then obind (ccms_thread_unlock cst) (\<lambda>c. Ok (CCMS_STATE_SHARED, c))
      else Ok (CCMS_STATE_INVALID, cst))"

definition ccms_thread_lock_temp_restore :: "thread \<Rightarrow> ccms_state_t \<Rightarrow> ccms_cst \<Rightarrow> attempt outcome" where
  "ccms_thread_lock_temp_restore curthread2 ostate cst = ccms_thread_lock curthread2 ostate cst"

text \<open>
  \<open>ccms_thread_lock_upgrade\<close> up to its loop: \<open>None\<close> means the loop was entered.  The loop
  itself is \<open>upgrade_try\<close>.
\<close>

definition upgrade_try :: "ccms_cst \<Rightarrow> attempt" where
  "upgrade_try cst =
     (if cst_count cst \<noteq> 0 then Waits (cst\<lparr>cst_blocked := True\<rparr>) else Granted (cst\<lparr>cst_count := -1\<rparr>))"

definition ccms_thread_lock_upgrade :: "ccms_cst \<Rightarrow> (ccms_state_t \<times> attempt) outcome" where
  "ccms_thread_lock_upgrade cst =
     (if cst_count cst < 0 then Ok (CCMS_STATE_EXCLUSIVE, Granted cst)
      else if cst_count cst > 0 then
        Ok (CCMS_STATE_SHARED,
            upgrade_try (cst\<lparr>cst_upgrade := cst_upgrade cst + 1, cst_count := cst_count cst - 1\<rparr>))
      else Panic ''ccms_thread_lock_upgrade: not locked'')"

definition ccms_thread_lock_downgrade :: "ccms_state_t \<Rightarrow> ccms_cst \<Rightarrow> ccms_cst outcome" where
  "ccms_thread_lock_downgrade ostate cst =
     (if ostate = CCMS_STATE_SHARED then
        kkassert (cst_count cst = -1) ''cst->count == -1''
          (Ok (cst\<lparr>cst_upgrade := cst_upgrade cst - 1, cst_count := 1, cst_td := None, cst_blocked := False\<rparr>))
      else Ok cst)"

definition ccms_thread_lock_setown :: "ccms_cst \<Rightarrow> ccms_cst outcome" where
  "ccms_thread_lock_setown cst = kkassert (cst_count cst < 0) ''cst->count < 0'' (Ok cst)"

definition ccms_thread_unlock_upgraded :: "ccms_state_t \<Rightarrow> ccms_cst \<Rightarrow> ccms_cst outcome" where
  "ccms_thread_unlock_upgraded ostate cst =
     (if ostate = CCMS_STATE_SHARED then
        kkassert (cst_count cst = -1) ''cst->count == -1''
          (Ok (cst\<lparr>cst_upgrade := cst_upgrade cst - 1, cst_count := 0, cst_td := None, cst_blocked := False\<rparr>))
      else ccms_thread_unlock cst)"

definition ccms_thread_lock_owned :: "ccms_cst \<Rightarrow> bool" where
  "ccms_thread_lock_owned cst \<longleftrightarrow> cst_count cst < 0"

text \<open>The mount locks.\<close>

definition hammer2_mount_exlock :: "thread \<Rightarrow> ccms_cst \<Rightarrow> attempt outcome" where
  "hammer2_mount_exlock curthread2 cst = ccms_thread_lock curthread2 CCMS_STATE_EXCLUSIVE cst"

definition hammer2_mount_shlock :: "thread \<Rightarrow> ccms_cst \<Rightarrow> attempt outcome" where
  "hammer2_mount_shlock curthread2 cst = ccms_thread_lock curthread2 CCMS_STATE_SHARED cst"

definition hammer2_mount_unlock :: "ccms_cst \<Rightarrow> ccms_cst outcome" where
  "hammer2_mount_unlock cst = ccms_thread_unlock cst"

text \<open>The wrappers for the lock of an inode.\<close>

definition hammer2_inode_lock_temp_release :: "ccms_cst \<Rightarrow> (ccms_state_t \<times> ccms_cst) outcome" where
  "hammer2_inode_lock_temp_release topo_cst = ccms_thread_lock_temp_release topo_cst"

definition hammer2_inode_lock_temp_restore :: "thread \<Rightarrow> ccms_state_t \<Rightarrow> ccms_cst \<Rightarrow> attempt outcome" where
  "hammer2_inode_lock_temp_restore curthread2 ostate topo_cst = ccms_thread_lock_temp_restore curthread2 ostate topo_cst"

definition hammer2_inode_lock_upgrade :: "ccms_cst \<Rightarrow> (ccms_state_t \<times> attempt) outcome" where
  "hammer2_inode_lock_upgrade topo_cst = ccms_thread_lock_upgrade topo_cst"

definition hammer2_inode_lock_downgrade :: "ccms_state_t \<Rightarrow> ccms_cst \<Rightarrow> ccms_cst outcome" where
  "hammer2_inode_lock_downgrade ostate topo_cst = ccms_thread_lock_downgrade ostate topo_cst"

section \<open>Runs\<close>

text \<open>
  What a thread holds: a lock it asked for shared or exclusive, or a shared lock it
  upgraded (\<open>ccms_thread_lock_upgrade\<close> returned \<open>SHARED\<close> to it).
\<close>

datatype hold = HShared | HExcl | HUpgraded

definition hold_of :: "ccms_state_t \<Rightarrow> hold" where
  "hold_of st = (if st = CCMS_STATE_SHARED then HShared else HExcl)"

record lsys =
  l_cst :: ccms_cst
  l_holds :: "(nat \<times> hold) multiset"
  l_waiting :: "(nat \<times> ccms_state_t) multiset"
  l_upgrading :: "nat multiset"

definition lsys_init :: "thread \<Rightarrow> lsys" where
  "lsys_init handle = \<lparr>l_cst = ccms_cst_init handle, l_holds = {#}, l_waiting = {#}, l_upgrading = {#}\<rparr>"

text \<open>
  The steps: every call is made by some thread; a release is made by a thread that holds
  the lock.  No assignment to the global \<open>curthread2\<close> exists in the source, so it keeps
  the \<open>NULL\<close> of its static initialisation.
\<close>

inductive lstep :: "lsys \<Rightarrow> lsys \<Rightarrow> bool" where
  LockGrant: "ccms_thread_lock None st (l_cst s) = Ok (Granted c) \<Longrightarrow>
    lstep s (s\<lparr>l_cst := c, l_holds := add_mset (t, hold_of st) (l_holds s)\<rparr>)"
| LockWait: "ccms_thread_lock None st (l_cst s) = Ok (Waits c) \<Longrightarrow>
    lstep s (s\<lparr>l_cst := c, l_waiting := add_mset (t, st) (l_waiting s)\<rparr>)"
| RetryGrant: "(t, st) \<in># l_waiting s \<Longrightarrow> lock_try st (l_cst s) = Ok (Granted c) \<Longrightarrow>
    lstep s (s\<lparr>l_cst := c, l_waiting := l_waiting s - {#(t, st)#},
               l_holds := add_mset (t, hold_of st) (l_holds s)\<rparr>)"
| RetryWait: "(t, st) \<in># l_waiting s \<Longrightarrow> lock_try st (l_cst s) = Ok (Waits c) \<Longrightarrow> lstep s (s\<lparr>l_cst := c\<rparr>)"
| NonBlock: "ccms_thread_lock_nonblock st (l_cst s) = Ok (e, c) \<Longrightarrow>
    lstep s (s\<lparr>l_cst := c, l_holds := (if e = E_OK then add_mset (t, hold_of st) (l_holds s) else l_holds s)\<rparr>)"
| Unlock: "(t, h) \<in># l_holds s \<Longrightarrow> h \<noteq> HUpgraded \<Longrightarrow> ccms_thread_unlock (l_cst s) = Ok c \<Longrightarrow>
    lstep s (s\<lparr>l_cst := c, l_holds := l_holds s - {#(t, h)#}\<rparr>)"
| UpgradeExcl: "(t, h) \<in># l_holds s \<Longrightarrow> h \<noteq> HUpgraded \<Longrightarrow>
    ccms_thread_lock_upgrade (l_cst s) = Ok (CCMS_STATE_EXCLUSIVE, Granted c) \<Longrightarrow> lstep s (s\<lparr>l_cst := c\<rparr>)"
| UpgradeGrant: "(t, h) \<in># l_holds s \<Longrightarrow> h \<noteq> HUpgraded \<Longrightarrow>
    ccms_thread_lock_upgrade (l_cst s) = Ok (CCMS_STATE_SHARED, Granted c) \<Longrightarrow>
    lstep s (s\<lparr>l_cst := c, l_holds := add_mset (t, HUpgraded) (l_holds s - {#(t, h)#})\<rparr>)"
| UpgradeWait: "(t, h) \<in># l_holds s \<Longrightarrow> h \<noteq> HUpgraded \<Longrightarrow>
    ccms_thread_lock_upgrade (l_cst s) = Ok (CCMS_STATE_SHARED, Waits c) \<Longrightarrow>
    lstep s (s\<lparr>l_cst := c, l_holds := l_holds s - {#(t, h)#}, l_upgrading := add_mset t (l_upgrading s)\<rparr>)"
| UpgradeRetryGrant: "t \<in># l_upgrading s \<Longrightarrow> upgrade_try (l_cst s) = Granted c \<Longrightarrow>
    lstep s (s\<lparr>l_cst := c, l_upgrading := l_upgrading s - {#t#}, l_holds := add_mset (t, HUpgraded) (l_holds s)\<rparr>)"
| UpgradeRetryWait: "t \<in># l_upgrading s \<Longrightarrow> upgrade_try (l_cst s) = Waits c \<Longrightarrow> lstep s (s\<lparr>l_cst := c\<rparr>)"
| Downgrade: "(t, HUpgraded) \<in># l_holds s \<Longrightarrow> ccms_thread_lock_downgrade CCMS_STATE_SHARED (l_cst s) = Ok c \<Longrightarrow>
    lstep s (s\<lparr>l_cst := c, l_holds := add_mset (t, HShared) (l_holds s - {#(t, HUpgraded)#})\<rparr>)"
| UnlockUpgraded: "(t, HUpgraded) \<in># l_holds s \<Longrightarrow>
    ccms_thread_unlock_upgraded CCMS_STATE_SHARED (l_cst s) = Ok c \<Longrightarrow>
    lstep s (s\<lparr>l_cst := c, l_holds := l_holds s - {#(t, HUpgraded)#}\<rparr>)"

abbreviation lreach :: "thread \<Rightarrow> lsys \<Rightarrow> bool" where
  "lreach handle \<equiv> reachable (\<lambda>s. s = lsys_init handle) lstep"

section \<open>The accounting invariant\<close>

definition upgraded :: "(nat \<times> hold) multiset \<Rightarrow> nat" where
  "upgraded hs = size (filter_mset (\<lambda>(_, h). h = HUpgraded) hs)"

definition lock_inv :: "lsys \<Rightarrow> bool" where
  "lock_inv s \<longleftrightarrow> cst_td (l_cst s) = None \<and>
     \<bar>cst_count (l_cst s)\<bar> = int (size (l_holds s)) \<and>
     (cst_count (l_cst s) > 0 \<longrightarrow> (\<forall>x\<in>#l_holds s. snd x = HShared)) \<and>
     cst_upgrade (l_cst s) = int (upgraded (l_holds s) + size (l_upgrading s)) \<and>
     upgraded (l_holds s) \<le> 1"


lemma upgraded_simps [simp]:
  "upgraded {#} = 0" "upgraded (add_mset (t, h) m) = (if h = HUpgraded then Suc (upgraded m) else upgraded m)"
  by (simp_all add: upgraded_def)

lemma upgraded_le: "upgraded m \<le> size m"
  by (simp add: upgraded_def size_filter_mset_lesseq)

lemma hold_split:
  assumes "(t, h) \<in># m"
  obtains m' where "m = add_mset (t, h) m'"
  using assms by (auto dest: multi_member_split)

lemma hold_of_upgraded [simp]: "hold_of st \<noteq> HUpgraded"
  by (simp add: hold_of_def)

named_theorems ccms_ops

lemmas [ccms_ops] = ccms_thread_lock_def lock_try_def try_shared_def try_exclusive_def
  ccms_thread_lock_nonblock_def ccms_thread_unlock_def upgrade_try_def ccms_thread_lock_upgrade_def
  ccms_thread_lock_downgrade_def ccms_thread_unlock_upgraded_def kkassert_def

lemma inv_waits: "lock_inv s \<Longrightarrow> lock_inv (s\<lparr>l_cst := (l_cst s)\<lparr>cst_blocked := b\<rparr>, l_waiting := w\<rparr>)"
  by (simp add: lock_inv_def)

lemma lock_try_cases:
  assumes "lock_try st c = Ok a"
  obtains (wait) "a = Waits (c\<lparr>cst_blocked := True\<rparr>)"
  | (shared) "st = CCMS_STATE_SHARED" "cst_count c \<ge> 0" "cst_upgrade c = 0" "a = Granted (c\<lparr>cst_count := cst_count c + 1\<rparr>)"
  | (excl) "st = CCMS_STATE_EXCLUSIVE" "cst_count c = 0" "cst_upgrade c = 0" "a = Granted (c\<lparr>cst_count := -1\<rparr>)"
  using assms by (auto simp: ccms_ops split: if_splits)

lemma lock_inv_grant:
  assumes inv: "lock_inv s" and g: "lock_try st (l_cst s) = Ok (Granted c)"
  shows "lock_inv (s\<lparr>l_cst := c, l_waiting := w, l_holds := add_mset (t, hold_of st) (l_holds s)\<rparr>)"
  using g by (cases rule: lock_try_cases) (use inv in \<open>auto simp: lock_inv_def hold_of_def\<close>)

lemma lock_inv_lock:
  assumes inv: "lock_inv s" and g: "ccms_thread_lock None st (l_cst s) = Ok (Granted c)"
  shows "lock_inv (s\<lparr>l_cst := c, l_holds := add_mset (t, hold_of st) (l_holds s)\<rparr>)"
proof (cases "cst_count (l_cst s) < 0")
  case True
  then show ?thesis using g inv by (auto simp: ccms_thread_lock_def lock_inv_def)
next
  case False
  then have "lock_try st (l_cst s) = Ok (Granted c)" using g by (simp add: ccms_thread_lock_def)
  from lock_inv_grant[OF inv this, where w = "l_waiting s" and t = t] show ?thesis by (simp add: lock_inv_def)
qed

lemma lock_inv_nonblock:
  assumes inv: "lock_inv s" and g: "ccms_thread_lock_nonblock st (l_cst s) = Ok (e, c)"
  shows "lock_inv (s\<lparr>l_cst := c, l_holds := (if e = E_OK then add_mset (t, hold_of st) (l_holds s) else l_holds s)\<rparr>)"
  using assms by (auto simp: lock_inv_def ccms_thread_lock_nonblock_def kkassert_def hold_of_def split: if_splits)

lemma lock_inv_unlock:
  assumes inv: "lock_inv s" and h: "(t, h) \<in># l_holds s" "h \<noteq> HUpgraded"
    and g: "ccms_thread_unlock (l_cst s) = Ok c"
  shows "lock_inv (s\<lparr>l_cst := c, l_holds := l_holds s - {#(t, h)#}\<rparr>)"
proof -
  obtain m where m: "l_holds s = add_mset (t, h) m" using h(1) by (rule hold_split)
  show ?thesis using inv g h(2)
    by (auto simp: lock_inv_def m ccms_thread_unlock_def kkassert_def Let_def
        simp del: size_eq_0_iff_empty split: if_splits)
qed

lemma lock_inv_upgrade:
  assumes inv: "lock_inv s" and h: "(t, h) \<in># l_holds s" "h \<noteq> HUpgraded"
  shows "ccms_thread_lock_upgrade (l_cst s) = Ok (CCMS_STATE_SHARED, Granted c) \<Longrightarrow>
      lock_inv (s\<lparr>l_cst := c, l_holds := add_mset (t, HUpgraded) (l_holds s - {#(t, h)#})\<rparr>)"
    and "ccms_thread_lock_upgrade (l_cst s) = Ok (CCMS_STATE_SHARED, Waits c) \<Longrightarrow>
      lock_inv (s\<lparr>l_cst := c, l_holds := l_holds s - {#(t, h)#}, l_upgrading := add_mset t (l_upgrading s)\<rparr>)"
    and "ccms_thread_lock_upgrade (l_cst s) = Ok (CCMS_STATE_EXCLUSIVE, Granted c) \<Longrightarrow> lock_inv (s\<lparr>l_cst := c\<rparr>)"
proof -
  obtain m where m: "l_holds s = add_mset (t, h) m" using h(1) by (rule hold_split)
  show "ccms_thread_lock_upgrade (l_cst s) = Ok (CCMS_STATE_SHARED, Granted c) \<Longrightarrow>
      lock_inv (s\<lparr>l_cst := c, l_holds := add_mset (t, HUpgraded) (l_holds s - {#(t, h)#})\<rparr>)"
    using inv h(2) by (auto simp: lock_inv_def m ccms_thread_lock_upgrade_def upgrade_try_def split: if_splits)
  show "ccms_thread_lock_upgrade (l_cst s) = Ok (CCMS_STATE_SHARED, Waits c) \<Longrightarrow>
      lock_inv (s\<lparr>l_cst := c, l_holds := l_holds s - {#(t, h)#}, l_upgrading := add_mset t (l_upgrading s)\<rparr>)"
    using inv h(2) by (auto simp: lock_inv_def m ccms_thread_lock_upgrade_def upgrade_try_def split: if_splits)
  show "ccms_thread_lock_upgrade (l_cst s) = Ok (CCMS_STATE_EXCLUSIVE, Granted c) \<Longrightarrow> lock_inv (s\<lparr>l_cst := c\<rparr>)"
    using inv by (auto simp: lock_inv_def ccms_thread_lock_upgrade_def split: if_splits)
qed

lemma lock_inv_upgrade_retry:
  assumes inv: "lock_inv s" and t: "t \<in># l_upgrading s"
  shows "upgrade_try (l_cst s) = Granted c \<Longrightarrow>
      lock_inv (s\<lparr>l_cst := c, l_upgrading := l_upgrading s - {#t#}, l_holds := add_mset (t, HUpgraded) (l_holds s)\<rparr>)"
    and "upgrade_try (l_cst s) = Waits c \<Longrightarrow> lock_inv (s\<lparr>l_cst := c\<rparr>)"
proof -
  obtain m where m: "l_upgrading s = add_mset t m" using t by (auto dest: multi_member_split)
  show "upgrade_try (l_cst s) = Granted c \<Longrightarrow>
      lock_inv (s\<lparr>l_cst := c, l_upgrading := l_upgrading s - {#t#}, l_holds := add_mset (t, HUpgraded) (l_holds s)\<rparr>)"
    using inv upgraded_le[of "l_holds s"] by (auto simp: lock_inv_def m upgrade_try_def split: if_splits)
  show "upgrade_try (l_cst s) = Waits c \<Longrightarrow> lock_inv (s\<lparr>l_cst := c\<rparr>)"
    using inv by (auto simp: lock_inv_def upgrade_try_def split: if_splits)
qed

lemma lock_inv_downgrade:
  assumes inv: "lock_inv s" and h: "(t, HUpgraded) \<in># l_holds s"
  shows "ccms_thread_lock_downgrade CCMS_STATE_SHARED (l_cst s) = Ok c \<Longrightarrow>
      lock_inv (s\<lparr>l_cst := c, l_holds := add_mset (t, HShared) (l_holds s - {#(t, HUpgraded)#})\<rparr>)"
    and "ccms_thread_unlock_upgraded CCMS_STATE_SHARED (l_cst s) = Ok c \<Longrightarrow>
      lock_inv (s\<lparr>l_cst := c, l_holds := l_holds s - {#(t, HUpgraded)#}\<rparr>)"
proof -
  obtain m where m: "l_holds s = add_mset (t, HUpgraded) m" using h by (rule hold_split)
  show "ccms_thread_lock_downgrade CCMS_STATE_SHARED (l_cst s) = Ok c \<Longrightarrow>
      lock_inv (s\<lparr>l_cst := c, l_holds := add_mset (t, HShared) (l_holds s - {#(t, HUpgraded)#})\<rparr>)"
    using inv by (auto simp: lock_inv_def m ccms_thread_lock_downgrade_def kkassert_def split: if_splits)
  show "ccms_thread_unlock_upgraded CCMS_STATE_SHARED (l_cst s) = Ok c \<Longrightarrow>
      lock_inv (s\<lparr>l_cst := c, l_holds := l_holds s - {#(t, HUpgraded)#}\<rparr>)"
    using inv by (auto simp: lock_inv_def m ccms_thread_unlock_upgraded_def kkassert_def split: if_splits)
qed

lemma wait_is_blocked:
  "ccms_thread_lock None st c = Ok (Waits c') \<Longrightarrow> c' = c\<lparr>cst_blocked := True\<rparr>"
  "lock_try st c = Ok (Waits c') \<Longrightarrow> c' = c\<lparr>cst_blocked := True\<rparr>"
  by (auto simp: ccms_ops split: if_splits)

lemma lock_inv_step: "lstep s s' \<Longrightarrow> lock_inv s \<Longrightarrow> lock_inv s'"
proof (induction rule: lstep.induct)
  case (LockWait st s c t)
  then show ?case using wait_is_blocked(1)[OF LockWait.hyps(1)] by (simp add: lock_inv_def)
next
  case (RetryWait t st s c)
  then show ?case using wait_is_blocked(2)[OF RetryWait.hyps(2)] by (simp add: lock_inv_def)
qed (blast intro: lock_inv_lock lock_inv_grant lock_inv_nonblock lock_inv_unlock lock_inv_upgrade
      lock_inv_upgrade_retry lock_inv_downgrade)+

interpretation ccms: invariant_system "\<lambda>s. s = lsys_init handle" lstep lock_inv for handle
  by unfold_locales (simp add: lsys_init_def ccms_cst_init_def lock_inv_def, rule lock_inv_step)

lemmas lreach_inv = ccms.reachable_inv


text \<open>Two threads that both hold the lock exclusively.\<close>

definition lsys_excl2 :: "thread \<Rightarrow> lsys" where
  "lsys_excl2 handle = (lsys_init handle)\<lparr>l_cst := (ccms_cst_init handle)\<lparr>cst_count := -2\<rparr>,
     l_holds := {#(1, HExcl), (2, HExcl)#}\<rparr>"

lemma excl_twice: "lreach handle (lsys_excl2 handle)"
proof -
  let ?s0 = "lsys_init handle" and ?c0 = "ccms_cst_init handle"
  let ?s1 = "?s0\<lparr>l_cst := ?c0\<lparr>cst_count := -1\<rparr>, l_holds := {#(2, HExcl)#}\<rparr>"
  have 1: "lstep ?s0 ?s1"
    using LockGrant[of CCMS_STATE_EXCLUSIVE ?s0 "?c0\<lparr>cst_count := -1\<rparr>" 2]
    by (simp add: ccms_ops lsys_init_def ccms_cst_init_def hold_of_def)
  have 2: "lstep ?s1 (lsys_excl2 handle)"
    using LockGrant[of CCMS_STATE_EXCLUSIVE ?s1 "?c0\<lparr>cst_count := -2\<rparr>" 1]
    by (simp add: ccms_ops lsys_init_def ccms_cst_init_def hold_of_def lsys_excl2_def)
  show ?thesis by (rule reachable_step[OF reachable_step[OF reachable_start[where step = lstep] 1] 2])
qed

section \<open>Properties\<close>

text \<open>
  The count of the lock is exact in every state reachable by such atomic steps: it is the number of shared
  holders when positive, all holders being shared then, minus the number of holders when
  negative, and zero exactly when nobody holds the lock; \<open>upgrade\<close> counts the threads
  that upgraded or wait to, at most one having succeeded.  So neither \<open>ccms_thread_unlock\<close> nor \<open>ccms_thread_lock_upgrade\<close> finds
  a count of zero while the lock is held; \<open>ccms_thread_unlock_upgraded\<close> is not covered.
\<close>

theorem ccms_accounting:
  assumes "lreach handle s"
  shows "(cst_count (l_cst s) > 0 \<longrightarrow> cst_count (l_cst s) = int (size (l_holds s)) \<and>
            (\<forall>x\<in>#l_holds s. snd x = HShared)) \<and>
    (cst_count (l_cst s) \<le> 0 \<longrightarrow> - cst_count (l_cst s) = int (size (l_holds s))) \<and>
    cst_upgrade (l_cst s) = int (upgraded (l_holds s) + size (l_upgrading s)) \<and> upgraded (l_holds s) \<le> 1 \<and>
    (l_holds s \<noteq> {#} \<longrightarrow> (\<exists>c. ccms_thread_unlock (l_cst s) = Ok c) \<and>
                       (\<exists>r. ccms_thread_lock_upgrade (l_cst s) = Ok r))"
proof -
  have inv: "lock_inv s" using assms by (rule lreach_inv)
  have "l_holds s \<noteq> {#} \<Longrightarrow> cst_count (l_cst s) \<noteq> 0" using inv by (auto simp: lock_inv_def)
  then have "l_holds s \<noteq> {#} \<Longrightarrow> (\<exists>c. ccms_thread_unlock (l_cst s) = Ok c) \<and> (\<exists>r. ccms_thread_lock_upgrade (l_cst s) = Ok r)"
    by (auto simp: ccms_thread_unlock_def ccms_thread_lock_upgrade_def kkassert_def Let_def)
  then show ?thesis using inv by (auto simp: lock_inv_def)
qed

text \<open>
  When the lock is granted.  A thread that finds the lock free or shared gets a shared
  lock at once unless an upgrade is pending, and an exclusive lock only when nobody holds
  it; otherwise it waits, and waiting changes nothing but the \<open>blocked\<close> mark.  The
  non-blocking variant grants in the same cases and returns \<open>EBUSY\<close> in the others.
\<close>

theorem ccms_lock_grants:
  assumes "lreach handle s" "cst_count (l_cst s) \<ge> 0" "st = CCMS_STATE_SHARED \<or> st = CCMS_STATE_EXCLUSIVE"
  shows "ccms_thread_lock None st (l_cst s) =
      (if (st = CCMS_STATE_SHARED \<or> l_holds s = {#}) \<and> cst_upgrade (l_cst s) = 0
       then Ok (Granted ((l_cst s)\<lparr>cst_count := (if st = CCMS_STATE_SHARED then int (size (l_holds s)) + 1 else -1)\<rparr>))
       else Ok (Waits ((l_cst s)\<lparr>cst_blocked := True\<rparr>))) \<and>
    ccms_thread_lock_nonblock st (l_cst s) =
      (case ccms_thread_lock None st (l_cst s) of
         Ok (Granted c) \<Rightarrow> Ok (E_OK, c) | Ok (Waits c) \<Rightarrow> Ok (EBUSY, l_cst s) | Panic m \<Rightarrow> Panic m | Fault m \<Rightarrow> Fault m)"
proof -
  have inv: "lock_inv s" using assms(1) by (rule lreach_inv)
  then have h: "cst_count (l_cst s) = int (size (l_holds s))" "cst_td (l_cst s) = None"
    using assms(2) by (auto simp: lock_inv_def)
  show ?thesis using h assms(3) by (auto simp: ccms_ops)
qed

text \<open>
  C31: the exclusive lock does not exclude.  As \<open>cst->td\<close> is never set and the global
  \<open>curthread2\<close> never assigned, the test for a recursive lock holds for every thread: in
  every reachable state in which the lock is held exclusively, any thread that asks for
  it, in any mode, is granted it without waiting, and there is a reachable state in which
  two threads hold the lock exclusively.  The intended exclusion would also make the
  assertion of \<open>ccms_thread_lock_downgrade\<close> true; it fails as soon as a second thread has
  entered.
\<close>

theorem ccms_exclusive_shared:
  "(\<forall>s st. lreach handle s \<and> cst_count (l_cst s) < 0 \<longrightarrow>
      ccms_thread_lock None st (l_cst s) = Ok (Granted ((l_cst s)\<lparr>cst_count := cst_count (l_cst s) - 1\<rparr>))) \<and>
   (\<exists>s. lreach handle s \<and> l_holds s = {#(1, HExcl), (2, HExcl)#}) \<and>
   (\<exists>s. lreach handle s \<and> (1, HUpgraded) \<in># l_holds s \<and>
      ccms_thread_lock_downgrade CCMS_STATE_SHARED (l_cst s) = Panic ''cst->count == -1'')"
proof (intro conjI allI impI)
  fix s st assume "lreach handle s \<and> cst_count (l_cst s) < 0"
  then show "ccms_thread_lock None st (l_cst s) = Ok (Granted ((l_cst s)\<lparr>cst_count := cst_count (l_cst s) - 1\<rparr>))"
    by (auto dest: lreach_inv simp: lock_inv_def ccms_thread_lock_def)
next
  show "\<exists>s. lreach handle s \<and> l_holds s = {#(1, HExcl), (2, HExcl)#}"
    using excl_twice by (intro exI[of _ "lsys_excl2 handle"]) (simp add: lsys_excl2_def)
next
  let ?s0 = "lsys_init handle" and ?c0 = "ccms_cst_init handle"
  let ?s1 = "?s0\<lparr>l_cst := ?c0\<lparr>cst_count := 1\<rparr>, l_holds := {#(1, HShared)#}\<rparr>"
  let ?s2 = "?s0\<lparr>l_cst := ?c0\<lparr>cst_count := -1, cst_upgrade := 1\<rparr>, l_holds := {#(1, HUpgraded)#}\<rparr>"
  let ?s3 = "?s0\<lparr>l_cst := ?c0\<lparr>cst_count := -2, cst_upgrade := 1\<rparr>, l_holds := {#(2, HShared), (1, HUpgraded)#}\<rparr>"
  have 1: "lstep ?s0 ?s1"
    using LockGrant[of CCMS_STATE_SHARED ?s0 "?c0\<lparr>cst_count := 1\<rparr>" 1]
    by (simp add: ccms_ops lsys_init_def ccms_cst_init_def hold_of_def)
  have 2: "lstep ?s1 ?s2"
    using UpgradeGrant[of 1 HShared ?s1 "?c0\<lparr>cst_count := -1, cst_upgrade := 1\<rparr>"]
    by (simp add: ccms_ops lsys_init_def ccms_cst_init_def)
  have 3: "lstep ?s2 ?s3"
    using LockGrant[of CCMS_STATE_SHARED ?s2 "?c0\<lparr>cst_count := -2, cst_upgrade := 1\<rparr>" 2]
    by (simp add: ccms_ops lsys_init_def ccms_cst_init_def hold_of_def)
  have "lreach handle ?s3" using reachable_step[OF reachable_step[OF reachable_step[OF reachable_start[where step = lstep] 1] 2] 3] .
  then show "\<exists>s. lreach handle s \<and> (1, HUpgraded) \<in># l_holds s \<and>
           ccms_thread_lock_downgrade CCMS_STATE_SHARED (l_cst s) = Panic ''cst->count == -1''"
    by (intro exI[of _ ?s3]) (simp add: ccms_ops)
qed

section \<open>Concrete runs\<close>

theorem ccms_exclusive_shared_witness:
  "ccms_thread_lock None CCMS_STATE_SHARED ((ccms_cst_init None)\<lparr>cst_count := -2\<rparr>) =
     Ok (Granted ((ccms_cst_init None)\<lparr>cst_count := -3\<rparr>))"
  using ccms_exclusive_shared[of None] excl_twice[of None]
  by (auto simp: lsys_excl2_def dest!: spec[of _ "lsys_excl2 None"])

end
