(* ===== verification/H2_Io.thy ===== *)
theory H2_Io
  imports H2_Subr H2_System "HOL-Library.Tree" "HOL-Library.Multiset"
begin

unbundle bit_operations_syntax

text \<open>
  The device buffers of \<^verbatim>\<open>hammer2_io.c\<close>: \<open>hammer2_io_getblk\<close>, \<open>hammer2_io_complete\<close>,
  \<open>hammer2_io_putblk\<close> and the functions around them.  A \<open>hammer2_io\<close> (dio) is shared by every
  chain stored in the same device buffer; its \<open>refs\<close> word holds a reference count of 28
  bits and four flags, and threads change it with compare-and-set only.  A run is a sequence of
  such atomic steps.  A device read is an argument: the buffer it delivers, or none on error.
  The set of dios of a mount, a red-black tree in the source, is a map from the device
  offset; what the tree functions do with the comparison function of the source is treated
  in the section on the tree.
\<close>

abbreviation (input) HAMMER2_DIO_INPROG :: u32 where "HAMMER2_DIO_INPROG \<equiv> 0x80000000"
abbreviation (input) HAMMER2_DIO_GOOD :: u32 where "HAMMER2_DIO_GOOD \<equiv> 0x40000000"
abbreviation (input) HAMMER2_DIO_WAITING :: u32 where "HAMMER2_DIO_WAITING \<equiv> 0x20000000"
abbreviation (input) HAMMER2_DIO_DIRTY :: u32 where "HAMMER2_DIO_DIRTY \<equiv> 0x10000000"
abbreviation (input) HAMMER2_DIO_MASK :: u32 where "HAMMER2_DIO_MASK \<equiv> 0x0FFFFFFF"

record hammer2_io =
  dio_pbase :: u64
  dio_psize :: nat
  dio_refs :: u32
  dio_act :: int
  dio_bp :: "nat option"

type_synonym io_map = "u64 \<Rightarrow> hammer2_io option"

section \<open>The operations\<close>

text \<open>The device buffer of a media block: the first lines of \<open>hammer2_io_getblk\<close>.\<close>

definition io_pbase :: "u64 \<Rightarrow> u64 \<Rightarrow> (u64 \<times> u64 \<times> nat) outcome" where
  "io_pbase lbase lsize =
     obind (hammer2_devblksize lsize) (\<lambda>psize.
       let pmask = NOT (of_nat psize - 1);
           r = unat (lbase AND 0x3F);
           lb = lbase AND NOT 0x3F;
           pb = lb AND pmask
       in if r \<ge> 32 then Fault ''1 << radix''
          else kkassert (push_bit r 1 = lsize) ''(1 << (lbase & RADIX)) == lsize''
            (kkassert (pb \<noteq> 0 \<and> (lb + lsize - 1) AND pmask = pb) ''pbase''
              (Ok (lb, pb, psize))))"

text \<open>
  The reference: a dio that \<open>RB_LOOKUP\<close> finds, or a new one, or the one \<open>RB_INSERT\<close>
  reports to be there already.  \<open>hit\<close> says whether \<open>RB_LOOKUP\<close> found an existing dio.
\<close>

definition dio_reref :: "hammer2_io \<Rightarrow> int \<Rightarrow> hammer2_io \<times> int" where
  "dio_reref dio iofree =
     (dio\<lparr>dio_refs := dio_refs dio + 1\<rparr>, if dio_refs dio AND HAMMER2_DIO_MASK = 0 then iofree - 1 else iofree)"

definition getblk_ref :: "bool \<Rightarrow> u64 \<Rightarrow> nat \<Rightarrow> io_map \<Rightarrow> int \<Rightarrow> io_map \<times> int" where
  "getblk_ref hit pbase psize tree iofree =
     (case (if hit then tree pbase else None) of
        Some dio \<Rightarrow> (let (d, n) = dio_reref dio iofree in (tree(pbase \<mapsto> d), n))
      | None \<Rightarrow>
          (let dio = \<lparr>dio_pbase = pbase, dio_psize = psize, dio_refs = 1, dio_act = 0, dio_bp = None\<rparr>
           in case tree pbase of
                None \<Rightarrow> (tree(pbase \<mapsto> dio), iofree)
              | Some xio \<Rightarrow> (let (d, n) = dio_reref xio iofree in (tree(pbase \<mapsto> d), n))))"

text \<open>One iteration of the loop of \<open>hammer2_io_getblk\<close> whose compare-and-set succeeds.\<close>

datatype getblk_result = GGood hammer2_io | GWait hammer2_io | GOwner hammer2_io

definition bump_act :: "hammer2_io \<Rightarrow> hammer2_io" where
  "bump_act dio = (if dio_act dio < 5 then dio\<lparr>dio_act := dio_act dio + 1\<rparr> else dio)"

definition getblk_try :: "hammer2_io \<Rightarrow> getblk_result" where
  "getblk_try dio =
     (if dio_refs dio AND HAMMER2_DIO_GOOD \<noteq> 0 then GGood (bump_act dio)
      else if dio_refs dio AND HAMMER2_DIO_INPROG \<noteq> 0
      then GWait (dio\<lparr>dio_refs := dio_refs dio OR HAMMER2_DIO_WAITING\<rparr>)
      else GOwner (bump_act (dio\<lparr>dio_refs := dio_refs dio OR HAMMER2_DIO_INPROG\<rparr>)))"

definition hammer2_io_complete :: "hammer2_io \<Rightarrow> u32 \<Rightarrow> hammer2_io" where
  "hammer2_io_complete dio owner =
     (if owner AND HAMMER2_DIO_INPROG \<noteq> 0
      then dio\<lparr>dio_refs := (dio_refs dio AND NOT (HAMMER2_DIO_WAITING OR HAMMER2_DIO_INPROG)) OR
                 (if dio_bp dio \<noteq> None then HAMMER2_DIO_GOOD else 0)\<rparr>
      else dio)"

text \<open>
  \<open>hammer2_io_cleanup_callback(dio, info)\<close>: \<open>None\<close> for a null \<open>info\<close>, otherwise the dios
  already collected and the count.  The result says whether the dio was removed from the
  tree of the mount.
\<close>

definition hammer2_io_cleanup_callback ::
  "hammer2_io \<Rightarrow> (hammer2_io list \<times> int) option \<Rightarrow> (int \<times> bool \<times> hammer2_io \<times> (hammer2_io list \<times> int) option) outcome" where
  "hammer2_io_cleanup_callback dio info =
     (if dio_refs dio AND (HAMMER2_DIO_MASK OR HAMMER2_DIO_INPROG) = 0 then
        if dio_act dio > 0 then Ok (0, False, dio\<lparr>dio_act := dio_act dio - 1\<rparr>, info)
        else kkassert (dio_bp dio = None) ''dio->bp == NULL''
          (case info of
             None \<Rightarrow> Fault ''info->tmptree''
           | Some (tmp, cnt) \<Rightarrow>
               kkassert (dio_pbase dio \<notin> dio_pbase ` set tmp) ''xio == NULL''
                 (Ok (if cnt - 1 \<le> 0 then -1 else 0, True, dio, Some (tmp @ [dio], cnt - 1))))
      else Ok (0, False, dio, info))"

text \<open>The first part of \<open>hammer2_io_putblk\<close>, up to the compare-and-set that succeeds.\<close>

datatype putblk_result = PDec hammer2_io | PLast hammer2_io

definition putblk_try :: "hammer2_io \<Rightarrow> putblk_result outcome" where
  "putblk_try dio0 =
     obind (hammer2_io_cleanup_callback dio0 None) (\<lambda>(_, _, dio, _).
       let refs = dio_refs dio
       in if refs AND HAMMER2_DIO_MASK = 1 then
            kkassert (refs AND HAMMER2_DIO_INPROG = 0) ''(refs & INPROG) == 0''
              (Ok (PLast (dio\<lparr>dio_refs := ((refs - 1) AND NOT (HAMMER2_DIO_GOOD OR HAMMER2_DIO_DIRTY)) OR
                                  HAMMER2_DIO_INPROG\<rparr>)))
          else Ok (PDec (dio\<lparr>dio_refs := refs - 1\<rparr>)))"

text \<open>The middle part: the buffer is taken out of the dio, which becomes free.\<close>

definition putblk_dispose :: "hammer2_io \<Rightarrow> int \<Rightarrow> nat option \<times> hammer2_io \<times> int" where
  "putblk_dispose dio iofree =
     (dio_bp dio, hammer2_io_complete (dio\<lparr>dio_bp := None\<rparr>) HAMMER2_DIO_INPROG, iofree + 1)"

text \<open>What happens to the buffer; \<open>refs\<close> is the word before the compare-and-set.\<close>

datatype bufop = ClusterWrite nat u64 nat | DelayedWrite nat | Release nat

definition putblk_buffer :: "bool \<Rightarrow> u32 \<Rightarrow> u64 \<Rightarrow> nat \<Rightarrow> nat option \<Rightarrow> bufop list outcome" where
  "putblk_buffer cluster_enable refs pbase psize bp =
     (if refs AND HAMMER2_DIO_GOOD \<noteq> 0 then
        (case bp of
           None \<Rightarrow> Panic ''bp != NULL''
         | Some b \<Rightarrow>
             if refs AND HAMMER2_DIO_DIRTY \<noteq> 0 then
               (if cluster_enable then Ok [ClusterWrite b ((pbase + HAMMER2_SEGMASK64) AND NOT HAMMER2_SEGMASK64) psize]
                else Ok [DelayedWrite b])
             else Ok [Release b])
      else Ok [])"

text \<open>\<open>hammer2_io_cleanup\<close> on the dios of a tree, in the order the roots come up.\<close>

fun hammer2_io_cleanup :: "hammer2_io list \<Rightarrow> int \<Rightarrow> int outcome" where
  "hammer2_io_cleanup [] iofree = Ok iofree"
| "hammer2_io_cleanup (dio # rest) iofree =
     kkassert (dio_bp dio = None \<and> dio_refs dio AND (HAMMER2_DIO_MASK OR HAMMER2_DIO_INPROG) = 0) ''dio''
       (hammer2_io_cleanup rest (iofree - 1))"

text \<open>
  The last part of \<open>hammer2_io_putblk\<close>: with \<open>RB_SCAN\<close> defined as an empty macro the
  temporary tree stays empty.
\<close>

definition putblk_trim :: "int \<Rightarrow> int outcome" where
  "putblk_trim iofree = (if iofree > 1000 then hammer2_io_cleanup [] iofree else Ok iofree)"

definition hammer2_io_setdirty :: "hammer2_io \<Rightarrow> hammer2_io" where
  "hammer2_io_setdirty dio = dio\<lparr>dio_refs := dio_refs dio OR HAMMER2_DIO_DIRTY\<rparr>"

definition hammer2_io_isdirty :: "hammer2_io \<Rightarrow> bool" where
  "hammer2_io_isdirty dio \<longleftrightarrow> dio_refs dio AND HAMMER2_DIO_DIRTY \<noteq> 0"

text \<open>\<open>hammer2_io_data\<close>: the offset of a block in the buffer of its dio.\<close>

definition hammer2_io_data :: "hammer2_io \<Rightarrow> u64 \<Rightarrow> nat outcome" where
  "hammer2_io_data dio lbase =
     kkassert (dio_bp dio \<noteq> None) ''bp != NULL''
       (let off = (lbase AND NOT 0x3F) - dio_pbase dio
        in kkassert (dio_pbase dio \<le> (lbase AND NOT 0x3F) \<and> unat off < dio_psize dio) ''off'' (Ok (unat off)))"

text \<open>
  What the owner does in \<open>_hammer2_io_new\<close> and \<open>hammer2_io_bread\<close> before it completes the
  dio: \<open>getblk_bp\<close> is the buffer \<open>getblk\<close> delivers, \<open>bread\<close> the error and the buffer of a
  read.  The list names the buffers released, in order (\<open>vfs_bio_clrbuf\<close> is \<open>brelse\<close>).
\<close>

definition io_new_owner ::
  "nat option \<Rightarrow> int \<times> nat option \<Rightarrow> u64 \<Rightarrow> bool \<Rightarrow> hammer2_io \<Rightarrow> int \<times> nat option list \<times> hammer2_io" where
  "io_new_owner getblk_bp bread lsize quick dio =
     (let (error, rel, bp) =
        (if unat lsize = dio_psize dio then
           (case getblk_bp of
              None \<Rightarrow> (0, [], None)
            | Some b \<Rightarrow> if quick then (0, [Some b, Some b], None) else (0, [Some b], Some b))
         else if quick then (0, [], dio_bp dio)
         else (fst bread, [], snd bread));
        (rel', bp') = (if error \<noteq> 0 then (rel @ [bp], None) else (rel, bp))
      in (error, rel', hammer2_io_complete (dio\<lparr>dio_bp := bp'\<rparr>) HAMMER2_DIO_INPROG))"

definition io_bread_owner :: "int \<times> nat option \<Rightarrow> hammer2_io \<Rightarrow> int \<times> hammer2_io" where
  "io_bread_owner bread dio =
     (let (error, bp) = bread
      in (error, hammer2_io_complete (dio\<lparr>dio_bp := (if error \<noteq> 0 then None else bp)\<rparr>) HAMMER2_DIO_INPROG))"

section \<open>Runs\<close>

text \<open>
  The steps of the threads that use the dio of one device offset.  A thread is in the
  loop of \<open>hammer2_io_getblk\<close>, owns the in-progress flag, holds the dio (having found it
  good, or having completed it), or disposes of the buffer with the word it replaced.
\<close>

datatype phase = InLoop | Owner | Holder | Dispose u32

record iosys =
  io_tree :: io_map
  io_free :: int
  io_ph :: "u64 \<Rightarrow> phase multiset"

definition io_update :: "iosys \<Rightarrow> u64 \<Rightarrow> hammer2_io \<Rightarrow> phase multiset \<Rightarrow> iosys" where
  "io_update s p d ph = s\<lparr>io_tree := (io_tree s)(p \<mapsto> d), io_ph := (io_ph s)(p := ph)\<rparr>"

text \<open>\<open>Get\<close> has the bound of the count: at most \<open>2 ^ 28 - 1\<close> references to a dio.\<close>

inductive iostep :: "iosys \<Rightarrow> iosys \<Rightarrow> bool" where
  Get: "p \<noteq> 0 \<Longrightarrow> size (io_ph s p) < 2 ^ 28 - 1 \<Longrightarrow> getblk_ref hit p psize (io_tree s) (io_free s) = (tree', n) \<Longrightarrow>
    iostep s (s\<lparr>io_tree := tree', io_free := n, io_ph := (io_ph s)(p := add_mset InLoop (io_ph s p))\<rparr>)"
| LoopGood: "InLoop \<in># io_ph s p \<Longrightarrow> io_tree s p = Some d \<Longrightarrow> getblk_try d = GGood d' \<Longrightarrow>
    iostep s (io_update s p d' (add_mset Holder (io_ph s p - {#InLoop#})))"
| LoopWait: "InLoop \<in># io_ph s p \<Longrightarrow> io_tree s p = Some d \<Longrightarrow> getblk_try d = GWait d' \<Longrightarrow>
    iostep s (io_update s p d' (io_ph s p))"
| LoopOwner: "InLoop \<in># io_ph s p \<Longrightarrow> io_tree s p = Some d \<Longrightarrow> getblk_try d = GOwner d' \<Longrightarrow>
    iostep s (io_update s p d' (add_mset Owner (io_ph s p - {#InLoop#})))"
| Resolve: "Owner \<in># io_ph s p \<Longrightarrow> io_tree s p = Some d \<Longrightarrow>
    d' = hammer2_io_complete (d\<lparr>dio_bp := bp\<rparr>) HAMMER2_DIO_INPROG \<Longrightarrow>
    iostep s (io_update s p d' (add_mset Holder (io_ph s p - {#Owner#})))"
| Dirty: "Holder \<in># io_ph s p \<Longrightarrow> io_tree s p = Some d \<Longrightarrow>
    iostep s (io_update s p (hammer2_io_setdirty d) (io_ph s p))"
| PutDec: "Holder \<in># io_ph s p \<Longrightarrow> io_tree s p = Some d \<Longrightarrow> putblk_try d = Ok (PDec d') \<Longrightarrow>
    iostep s (io_update s p d' (io_ph s p - {#Holder#}))"
| PutLast: "Holder \<in># io_ph s p \<Longrightarrow> io_tree s p = Some d \<Longrightarrow> putblk_try d = Ok (PLast d') \<Longrightarrow>
    iostep s (io_update s p d' (add_mset (Dispose (dio_refs d)) (io_ph s p - {#Holder#})))"
| Disposed: "Dispose refs \<in># io_ph s p \<Longrightarrow> io_tree s p = Some d \<Longrightarrow> putblk_dispose d (io_free s) = (bp, d', n) \<Longrightarrow>
    iostep s ((io_update s p d' (io_ph s p - {#Dispose refs#}))\<lparr>io_free := n\<rparr>)"

definition io_init :: iosys where
  "io_init = \<lparr>io_tree = Map.empty, io_free = 0, io_ph = (\<lambda>_. {#})\<rparr>"

abbreviation ioreach :: "iosys \<Rightarrow> bool" where
  "ioreach \<equiv> reachable (\<lambda>s. s = io_init) iostep"

section \<open>The reference word\<close>

definition cnt :: "u32 \<Rightarrow> nat" where
  "cnt r = unat (r AND 0x0FFFFFFF)"

lemma mask28: "(0x0FFFFFFF :: u32) = mask 28"
  by (simp add: mask_eq_exp_minus_1)

lemma cnt_mod: "cnt r = unat r mod 2 ^ 28"
  unfolding cnt_def mask28 by (rule unat_and_mask)

lemma refs_flags:
  "r AND 0x80000000 \<noteq> 0 \<longleftrightarrow> bit r 31" "r AND 0x40000000 \<noteq> 0 \<longleftrightarrow> bit r 30"
  "r AND 0x20000000 \<noteq> 0 \<longleftrightarrow> bit r 29" "r AND 0x10000000 \<noteq> 0 \<longleftrightarrow> bit r 28"
  "r AND 0x80000000 = 0 \<longleftrightarrow> \<not> bit r 31" "r AND 0x40000000 = 0 \<longleftrightarrow> \<not> bit r 30" for r :: u32
  using and_exp_eq_0_iff_not_bit[of r 31] and_exp_eq_0_iff_not_bit[of r 30]
    and_exp_eq_0_iff_not_bit[of r 29] and_exp_eq_0_iff_not_bit[of r 28] by simp_all

lemma refs_mask: "r AND 0x0FFFFFFF = 0 \<longleftrightarrow> cnt r = 0" "r AND 0x0FFFFFFF = 1 \<longleftrightarrow> cnt r = 1" for r :: u32
proof -
  have "cnt r = 0 \<longleftrightarrow> unat (r AND 0x0FFFFFFF) = unat (0::u32)" by (simp add: cnt_def)
  then show "r AND 0x0FFFFFFF = 0 \<longleftrightarrow> cnt r = 0" using unat_eqI by metis
  have "cnt r = 1 \<longleftrightarrow> unat (r AND 0x0FFFFFFF) = unat (1::u32)" by (simp add: cnt_def)
  then show "r AND 0x0FFFFFFF = 1 \<longleftrightarrow> cnt r = 1" using unat_eqI by metis
qed

lemma high_bit: "bit r (28 + k) = bit (drop_bit 28 r) k" for r :: u32
  by (simp add: bit_simps)

lemma high_bits_eqI:
  fixes a b :: u32
  assumes "unat a div 2 ^ 28 = unat b div 2 ^ 28" "28 \<le> k"
  shows "bit a k = bit b k"
proof -
  have "drop_bit 28 a = drop_bit 28 b" using assms by (intro unat_eqI) (simp add: unat_drop_bit)
  then show ?thesis using high_bit[of a "k - 28"] high_bit[of b "k - 28"] assms(2) by simp
qed

lemma refs_incr:
  fixes r :: u32
  assumes "cnt r < 2 ^ 28 - 1"
  shows "cnt (r + 1) = cnt r + 1" "28 \<le> k \<Longrightarrow> bit (r + 1) k = bit r k"
proof -
  have m: "unat r mod 268435456 < 268435455" using assms by (simp add: cnt_mod)
  have lt: "unat r + 1 < 4294967296"
  proof (rule ccontr)
    assume "\<not> unat r + 1 < 4294967296"
    then have "unat r = 4294967295" using u32_bound[of r] by simp
    then show False using m by simp
  qed
  then have u: "unat (r + 1) = unat r + 1" by (simp add: unat_word_ariths)
  show "cnt (r + 1) = cnt r + 1" using m unfolding cnt_mod u by (simp add: mod_Suc)
  show "28 \<le> k \<Longrightarrow> bit (r + 1) k = bit r k"
    by (rule high_bits_eqI) (use m in \<open>simp_all add: u div_Suc mod_Suc\<close>)
qed

lemma refs_decr:
  fixes r :: u32
  assumes "0 < cnt r"
  shows "cnt (r - 1) = cnt r - 1" "28 \<le> k \<Longrightarrow> bit (r - 1) k = bit r k"
proof -
  have lt: "unat (r - 1) mod 2 ^ 28 < 2 ^ 28 - 1"
  proof -
    have "r \<noteq> 0" using assms by (auto simp: cnt_def)
    then have "0 < unat r" using unat_eqI[of r 0] by (cases "unat r") auto
    then have u: "unat r = Suc (unat (r - 1))" using unat_minus_le[of 1 r] by simp
    show ?thesis
    proof (rule ccontr)
      assume "\<not> unat (r - 1) mod 2 ^ 28 < 2 ^ 28 - 1"
      moreover have "unat (r - 1) mod 2 ^ 28 < 2 ^ 28" by simp
      ultimately have "Suc (unat (r - 1) mod 2 ^ 28) = 2 ^ 28" by simp
      then show False using assms by (simp add: cnt_mod u mod_Suc)
    qed
  qed
  then show "cnt (r - 1) = cnt r - 1" "28 \<le> k \<Longrightarrow> bit (r - 1) k = bit r k"
    using refs_incr[of "r - 1"] by (simp_all add: cnt_mod)
qed

lemma cnt_cong: "(\<And>k. k < 28 \<Longrightarrow> bit a k = bit b k) \<Longrightarrow> cnt a = cnt b"
  unfolding cnt_def mask28 by (rule arg_cong[where f = unat]) (rule bit_word_eqI, auto simp: bit_simps)

lemma flag_bits:
  "bit (0x80000000 :: u32) k \<longleftrightarrow> k = 31" "bit (0x40000000 :: u32) k \<longleftrightarrow> k = 30"
  "bit (0x20000000 :: u32) k \<longleftrightarrow> k = 29" "bit (0x10000000 :: u32) k \<longleftrightarrow> k = 28"
proof -
  have e: "(0x80000000 :: u32) = 2 ^ 31" "(0x40000000 :: u32) = 2 ^ 30"
    "(0x20000000 :: u32) = 2 ^ 29" "(0x10000000 :: u32) = 2 ^ 28" by simp_all
  have b: "n < 32 \<Longrightarrow> bit (2 ^ n :: u32) k \<longleftrightarrow> k = n" for n
    by (auto simp: bit_exp_iff)
  show "bit (0x80000000 :: u32) k \<longleftrightarrow> k = 31" unfolding e(1) by (rule b) simp
  show "bit (0x40000000 :: u32) k \<longleftrightarrow> k = 30" unfolding e(2) by (rule b) simp
  show "bit (0x20000000 :: u32) k \<longleftrightarrow> k = 29" unfolding e(3) by (rule b) simp
  show "bit (0x10000000 :: u32) k \<longleftrightarrow> k = 28" unfolding e(4) by (rule b) simp
qed

lemma bit_clear: "bit (r AND NOT m) k \<longleftrightarrow> bit r k \<and> \<not> bit m k" for r m :: u32
  using bit_imp_le_length[of r k] by (auto simp: bit_simps)

lemma cnt_or: "(\<And>k. k < 28 \<Longrightarrow> \<not> bit f k) \<Longrightarrow> cnt (r OR f) = cnt r"
  by (rule cnt_cong) (simp add: bit_or_iff)

lemma cnt_clear: "(\<And>k. k < 28 \<Longrightarrow> \<not> bit f k) \<Longrightarrow> cnt (r AND NOT f) = cnt r"
  by (rule cnt_cong) (simp add: bit_clear)

lemma refs_idle: "r AND (0x0FFFFFFF OR 0x80000000) = 0 \<longleftrightarrow> cnt r = 0 \<and> \<not> bit r 31" for r :: u32
proof -
  have "r AND (0x0FFFFFFF OR 0x80000000) = (r AND 0x0FFFFFFF) OR (r AND 0x80000000)"
    by (rule bit.conj_disj_distrib)
  then show ?thesis using refs_mask(1)[of r] refs_flags(5)[of r] by (simp only: or_eq_0_iff)
qed


section \<open>The invariant of a dio\<close>

fun is_dispose :: "phase \<Rightarrow> bool" where
  "is_dispose (Dispose _) = True"
| "is_dispose _ = False"

definition nref :: "phase multiset \<Rightarrow> nat" where
  "nref ph = size (filter_mset (\<lambda>x. \<not> is_dispose x) ph)"

definition ndis :: "phase multiset \<Rightarrow> nat" where
  "ndis ph = size (filter_mset is_dispose ph)"

lemma n_simps [simp]:
  "nref {#} = 0" "nref (add_mset x m) = (if is_dispose x then nref m else Suc (nref m))"
  "ndis {#} = 0" "ndis (add_mset x m) = (if is_dispose x then Suc (ndis m) else ndis m)"
  by (simp_all add: nref_def ndis_def)

lemma nref_size: "nref m + ndis m = size m"
  by (induction m) auto

lemma ndis_pos: "Dispose r \<in># m \<Longrightarrow> 0 < ndis m"
  by (auto dest: multi_member_split)

lemma count_owner_le: "count m Owner \<le> nref m"
  by (induction m) (auto split: if_splits)

text \<open>
  The count is the number of threads that refer to the dio, the in-progress flag is set
  exactly while one thread owns or disposes of it, the good flag means that there is a
  buffer, and a dio that nobody resolves has a buffer only when it is good.
\<close>

definition dio_ok :: "hammer2_io \<Rightarrow> phase multiset \<Rightarrow> bool" where
  "dio_ok d ph \<longleftrightarrow> cnt (dio_refs d) = nref ph \<and> size ph < 2 ^ 28 \<and>
     count ph Owner + ndis ph = (if bit (dio_refs d) 31 then 1 else 0) \<and>
     (bit (dio_refs d) 30 \<longrightarrow> dio_bp d \<noteq> None \<and> \<not> bit (dio_refs d) 31 \<and> nref ph > 0) \<and>
     (\<not> bit (dio_refs d) 30 \<and> ndis ph = 0 \<longrightarrow> dio_bp d = None) \<and>
     (ndis ph > 0 \<longrightarrow> count ph Holder = 0) \<and>
     (\<forall>r. Dispose r \<in># ph \<longrightarrow> cnt r = 1 \<and> (bit r 30 \<longleftrightarrow> dio_bp d \<noteq> None))"

definition contrib :: "hammer2_io \<Rightarrow> phase multiset \<Rightarrow> int" where
  "contrib d ph = (if cnt (dio_refs d) = 0 then 1 else 0) - int (ndis ph)"

definition dio_state :: "iosys \<Rightarrow> u64 \<Rightarrow> int" where
  "dio_state s p = (case io_tree s p of None \<Rightarrow> 0 | Some d \<Rightarrow> contrib d (io_ph s p))"

definition dio_at :: "iosys \<Rightarrow> u64 \<Rightarrow> bool" where
  "dio_at s p \<longleftrightarrow>
     (case io_tree s p of None \<Rightarrow> io_ph s p = {#} | Some d \<Rightarrow> dio_pbase d = p \<and> dio_ok d (io_ph s p))"

lemma dio_at_cong:
  assumes "io_tree s' q = io_tree s q" "io_ph s' q = io_ph s q"
  shows "dio_at s' q = dio_at s q" "dio_state s' q = dio_state s q"
  by (simp_all add: dio_at_def dio_state_def assms split: option.split)

definition io_inv :: "iosys \<Rightarrow> bool" where
  "io_inv s \<longleftrightarrow> finite (dom (io_tree s)) \<and> (\<forall>p. dio_at s p) \<and>
     io_free s = (\<Sum>p\<in>dom (io_tree s). dio_state s p)"

subsection \<open>The operations on the reference word\<close>

lemma complete_refs:
  "cnt (dio_refs (hammer2_io_complete d HAMMER2_DIO_INPROG)) = cnt (dio_refs d)"
  "\<not> bit (dio_refs (hammer2_io_complete d HAMMER2_DIO_INPROG)) 31"
  "bit (dio_refs (hammer2_io_complete d HAMMER2_DIO_INPROG)) 30 \<longleftrightarrow> bit (dio_refs d) 30 \<or> dio_bp d \<noteq> None"
  "dio_bp (hammer2_io_complete d HAMMER2_DIO_INPROG) = dio_bp d"
  "dio_pbase (hammer2_io_complete d HAMMER2_DIO_INPROG) = dio_pbase d"
proof -
  define f :: u32 where "f = HAMMER2_DIO_WAITING OR HAMMER2_DIO_INPROG"
  have f: "bit f k \<longleftrightarrow> k = 29 \<or> k = 31" for k by (simp only: f_def bit_or_iff flag_bits)
  define g :: u32 where "g = (if dio_bp d \<noteq> None then HAMMER2_DIO_GOOD else 0)"
  have g: "bit g k \<longleftrightarrow> k = 30 \<and> dio_bp d \<noteq> None" for k
    by (simp add: g_def flag_bits del: bit_numeral_word_iff)
  have r: "dio_refs (hammer2_io_complete d HAMMER2_DIO_INPROG) = (dio_refs d AND NOT f) OR g"
    by (simp add: hammer2_io_complete_def f_def g_def)
  show "cnt (dio_refs (hammer2_io_complete d HAMMER2_DIO_INPROG)) = cnt (dio_refs d)"
    unfolding r by (rule cnt_cong) (simp add: bit_or_iff bit_clear f g)
  show "\<not> bit (dio_refs (hammer2_io_complete d HAMMER2_DIO_INPROG)) 31"
    unfolding r by (simp add: bit_or_iff bit_clear f g)
  show "bit (dio_refs (hammer2_io_complete d HAMMER2_DIO_INPROG)) 30 \<longleftrightarrow> bit (dio_refs d) 30 \<or> dio_bp d \<noteq> None"
    unfolding r by (simp add: bit_or_iff bit_clear f g)
qed (simp_all add: hammer2_io_complete_def)

lemma last_refs:
  assumes "cnt r = 1"
  shows "cnt (((r - 1) AND NOT (HAMMER2_DIO_GOOD OR HAMMER2_DIO_DIRTY)) OR HAMMER2_DIO_INPROG) = 0"
    "bit (((r - 1) AND NOT (HAMMER2_DIO_GOOD OR HAMMER2_DIO_DIRTY)) OR HAMMER2_DIO_INPROG) 31"
    "\<not> bit (((r - 1) AND NOT (HAMMER2_DIO_GOOD OR HAMMER2_DIO_DIRTY)) OR HAMMER2_DIO_INPROG) 30"
proof -
  define f :: u32 where "f = HAMMER2_DIO_GOOD OR HAMMER2_DIO_DIRTY"
  have f: "bit f k \<longleftrightarrow> k = 30 \<or> k = 28" for k by (simp only: f_def bit_or_iff flag_bits)
  have c: "cnt (r - 1) = 0" using refs_decr(1)[of r] assms by simp
  have "cnt (((r - 1) AND NOT f) OR HAMMER2_DIO_INPROG) = cnt (r - 1)"
    by (rule cnt_cong) (simp add: bit_or_iff bit_clear f flag_bits del: bit_numeral_word_iff)
  then show "cnt (((r - 1) AND NOT (HAMMER2_DIO_GOOD OR HAMMER2_DIO_DIRTY)) OR HAMMER2_DIO_INPROG) = 0"
    unfolding f_def[symmetric] using c by simp
  show "bit (((r - 1) AND NOT (HAMMER2_DIO_GOOD OR HAMMER2_DIO_DIRTY)) OR HAMMER2_DIO_INPROG) 31"
    "\<not> bit (((r - 1) AND NOT (HAMMER2_DIO_GOOD OR HAMMER2_DIO_DIRTY)) OR HAMMER2_DIO_INPROG) 30"
    unfolding f_def[symmetric] by (simp_all add: bit_or_iff bit_clear f flag_bits del: bit_numeral_word_iff)
qed

lemma bump_act_simps [simp]:
  "dio_refs (bump_act d) = dio_refs d" "dio_bp (bump_act d) = dio_bp d" "dio_pbase (bump_act d) = dio_pbase d"
  by (simp_all add: bump_act_def)

lemma flag_or_refs [simp]:
  "cnt (r OR HAMMER2_DIO_WAITING) = cnt r" "cnt (r OR HAMMER2_DIO_INPROG) = cnt r" "cnt (r OR HAMMER2_DIO_DIRTY) = cnt r"
  "bit (r OR HAMMER2_DIO_WAITING) 31 = bit r 31" "bit (r OR HAMMER2_DIO_WAITING) 30 = bit r 30"
  "bit (r OR HAMMER2_DIO_DIRTY) 31 = bit r 31" "bit (r OR HAMMER2_DIO_DIRTY) 30 = bit r 30"
  "bit (r OR HAMMER2_DIO_INPROG) 31" "bit (r OR HAMMER2_DIO_INPROG) 30 = bit r 30"
  by (simp_all add: cnt_or bit_or_iff flag_bits del: bit_numeral_word_iff)

lemma holder_busy:
  assumes "dio_ok d ph" "Holder \<in># ph"
  shows "putblk_try d = (if cnt (dio_refs d) = 1
    then Ok (PLast (d\<lparr>dio_refs := ((dio_refs d - 1) AND NOT (HAMMER2_DIO_GOOD OR HAMMER2_DIO_DIRTY)) OR HAMMER2_DIO_INPROG\<rparr>))
    else Ok (PDec (d\<lparr>dio_refs := dio_refs d - 1\<rparr>)))" (is ?A)
    and "cnt (dio_refs d) = 1 \<Longrightarrow> \<not> bit (dio_refs d) 31 \<and> ph = {#Holder#}"
proof -
  obtain m where m: "ph = add_mset Holder m" using assms(2) by (auto dest: multi_member_split)
  have c: "cnt (dio_refs d) \<noteq> 0" using assms m by (simp add: dio_ok_def)
  show 1: "\<not> bit (dio_refs d) 31 \<and> ph = {#Holder#}" if "cnt (dio_refs d) = 1"
  proof -
    have "nref m = 0" "ndis m = 0" using assms(1) that m by (auto simp: dio_ok_def)
    then have "size m = 0" using nref_size[of m] by simp
    then show ?thesis using assms(1) m by (auto simp: dio_ok_def split: if_splits)
  qed
  have "hammer2_io_cleanup_callback d None = Ok (0, False, d, None)"
    unfolding hammer2_io_cleanup_callback_def refs_idle using c by simp
  then show ?A using 1 unfolding putblk_try_def Let_def refs_mask refs_flags by simp
qed


subsection \<open>Every step keeps the invariant of the dio\<close>

lemma ok_new:
  "dio_ok \<lparr>dio_pbase = p, dio_psize = n, dio_refs = 1, dio_act = 0, dio_bp = None\<rparr> {#InLoop#}"
  "contrib \<lparr>dio_pbase = p, dio_psize = n, dio_refs = 1, dio_act = 0, dio_bp = None\<rparr> {#InLoop#} = 0"
proof -
  have "cnt 1 = 1" "\<not> bit (1::u32) 31" "\<not> bit (1::u32) 30"
    by (simp_all add: cnt_def)
  then show "dio_ok \<lparr>dio_pbase = p, dio_psize = n, dio_refs = 1, dio_act = 0, dio_bp = None\<rparr> {#InLoop#}"
    "contrib \<lparr>dio_pbase = p, dio_psize = n, dio_refs = 1, dio_act = 0, dio_bp = None\<rparr> {#InLoop#} = 0"
    by (simp_all add: dio_ok_def contrib_def)
qed

lemma ok_reref:
  assumes "dio_ok d ph" "size ph < 2 ^ 28 - 1" "dio_reref d n = (d', n')"
  shows "dio_ok d' (add_mset InLoop ph)" "dio_pbase d' = dio_pbase d"
    "n' - n = contrib d' (add_mset InLoop ph) - contrib d ph"
proof -
  have le: "cnt (dio_refs d) < 2 ^ 28 - 1" using assms nref_size[of ph] by (simp add: dio_ok_def)
  note inc = refs_incr(1)[OF le] refs_incr(2)[OF le, of 31] refs_incr(2)[OF le, of 30]
  have d': "d' = d\<lparr>dio_refs := dio_refs d + 1\<rparr>" "n' = (if cnt (dio_refs d) = 0 then n - 1 else n)"
    using assms(3) by (auto simp: dio_reref_def refs_mask)
  show "dio_ok d' (add_mset InLoop ph)"
    using assms(1,2) inc unfolding dio_ok_def by (auto simp: d' split: if_splits)
  show "dio_pbase d' = dio_pbase d" by (simp add: d')
  show "n' - n = contrib d' (add_mset InLoop ph) - contrib d ph"
    using inc(1) by (simp add: contrib_def d')
qed

lemma ok_loop:
  assumes ok: "dio_ok d (add_mset InLoop ph)"
  shows "getblk_try d = GGood d' \<Longrightarrow> dio_ok d' (add_mset Holder ph) \<and> dio_pbase d' = dio_pbase d \<and>
      contrib d' (add_mset Holder ph) = contrib d (add_mset InLoop ph)"
    and "getblk_try d = GWait d' \<Longrightarrow> dio_ok d' (add_mset InLoop ph) \<and> dio_pbase d' = dio_pbase d \<and>
      contrib d' (add_mset InLoop ph) = contrib d (add_mset InLoop ph)"
    and "getblk_try d = GOwner d' \<Longrightarrow> dio_ok d' (add_mset Owner ph) \<and> dio_pbase d' = dio_pbase d \<and>
      contrib d' (add_mset Owner ph) = contrib d (add_mset InLoop ph)"
proof -
  have t: "getblk_try d =
     (if bit (dio_refs d) 30 then GGood (bump_act d)
      else if bit (dio_refs d) 31 then GWait (d\<lparr>dio_refs := dio_refs d OR HAMMER2_DIO_WAITING\<rparr>)
      else GOwner (bump_act (d\<lparr>dio_refs := dio_refs d OR HAMMER2_DIO_INPROG\<rparr>)))"
    unfolding getblk_try_def refs_flags not_not ..
  show "getblk_try d = GGood d' \<Longrightarrow> dio_ok d' (add_mset Holder ph) \<and> dio_pbase d' = dio_pbase d \<and>
      contrib d' (add_mset Holder ph) = contrib d (add_mset InLoop ph)"
    using ok unfolding t by (auto simp: dio_ok_def contrib_def split: if_splits)
  show "getblk_try d = GWait d' \<Longrightarrow> dio_ok d' (add_mset InLoop ph) \<and> dio_pbase d' = dio_pbase d \<and>
      contrib d' (add_mset InLoop ph) = contrib d (add_mset InLoop ph)"
    using ok unfolding t by (auto simp: dio_ok_def contrib_def split: if_splits)
  show "getblk_try d = GOwner d' \<Longrightarrow> dio_ok d' (add_mset Owner ph) \<and> dio_pbase d' = dio_pbase d \<and>
      contrib d' (add_mset Owner ph) = contrib d (add_mset InLoop ph)"
    using ok unfolding t by (auto simp: dio_ok_def contrib_def split: if_splits)
qed

lemma ok_resolve:
  assumes ok: "dio_ok d (add_mset Owner ph)" and d': "d' = hammer2_io_complete (d\<lparr>dio_bp := bp\<rparr>) HAMMER2_DIO_INPROG"
  shows "dio_ok d' (add_mset Holder ph) \<and> dio_pbase d' = dio_pbase d \<and>
      contrib d' (add_mset Holder ph) = contrib d (add_mset Owner ph)"
proof -
  have "bit (dio_refs d) 31" "count ph Owner = 0" "ndis ph = 0" "\<not> bit (dio_refs d) 30"
    using ok by (auto simp: dio_ok_def split: if_splits)
  then show ?thesis
    using ok complete_refs[of "d\<lparr>dio_bp := bp\<rparr>"] by (auto simp: d' dio_ok_def contrib_def dest: ndis_pos)
qed

lemma ok_dirty:
  assumes "dio_ok d ph"
  shows "dio_ok (hammer2_io_setdirty d) ph \<and> dio_pbase (hammer2_io_setdirty d) = dio_pbase d \<and>
    contrib (hammer2_io_setdirty d) ph = contrib d ph"
  using assms by (simp add: dio_ok_def contrib_def hammer2_io_setdirty_def)

lemma ok_put_dec:
  assumes ok: "dio_ok d (add_mset Holder ph)" and t: "putblk_try d = Ok (PDec d')"
  shows "dio_ok d' ph \<and> dio_pbase d' = dio_pbase d \<and> contrib d' ph = contrib d (add_mset Holder ph)"
proof -
  have d': "d' = d\<lparr>dio_refs := dio_refs d - 1\<rparr>" "cnt (dio_refs d) \<noteq> 1"
    using t holder_busy(1)[OF ok] by (auto split: if_splits)
  have c: "cnt (dio_refs d) > 1" using ok d'(2) by (simp add: dio_ok_def)
  then have pos: "0 < cnt (dio_refs d)" by simp
  note dec = refs_decr(1)[OF pos] refs_decr(2)[OF pos, of 31] refs_decr(2)[OF pos, of 30]
  have "cnt (dio_refs d) = Suc (nref ph)" using ok by (simp add: dio_ok_def)
  then show ?thesis
    using ok dec c by (auto simp: d'(1) dio_ok_def contrib_def split: if_splits)
qed

lemma ok_put_last:
  assumes ok: "dio_ok d (add_mset Holder ph)" and t: "putblk_try d = Ok (PLast d')"
  shows "dio_ok d' (add_mset (Dispose (dio_refs d)) ph) \<and> dio_pbase d' = dio_pbase d \<and>
    contrib d' (add_mset (Dispose (dio_refs d)) ph) = contrib d (add_mset Holder ph)"
proof -
  have one: "cnt (dio_refs d) = 1" and
    d': "d' = d\<lparr>dio_refs := ((dio_refs d - 1) AND NOT (HAMMER2_DIO_GOOD OR HAMMER2_DIO_DIRTY)) OR HAMMER2_DIO_INPROG\<rparr>"
    using t holder_busy(1)[OF ok] by (auto split: if_splits)
  have ph: "ph = {#}" "\<not> bit (dio_refs d) 31" using holder_busy(2)[OF ok _ one] by simp_all
  have bp: "bit (dio_refs d) 30 \<longleftrightarrow> dio_bp d \<noteq> None" using ok ph by (auto simp: dio_ok_def)
  define r where "r = ((dio_refs d - 1) AND NOT (HAMMER2_DIO_GOOD OR HAMMER2_DIO_DIRTY)) OR HAMMER2_DIO_INPROG"
  have r: "cnt r = 0" "bit r 31" "\<not> bit r 30" unfolding r_def by (rule last_refs[OF one])+
  show ?thesis using one bp unfolding d' r_def[symmetric] by (auto simp: dio_ok_def contrib_def ph r)
qed

lemma ok_disposed:
  assumes ok: "dio_ok d (add_mset (Dispose refs) ph)" and t: "putblk_dispose d n = (bp, d', n')"
  shows "dio_ok d' ph \<and> dio_pbase d' = dio_pbase d \<and> n' - n = contrib d' ph - contrib d (add_mset (Dispose refs) ph)"
    and "bp = dio_bp d \<and> (bit refs 30 \<longleftrightarrow> bp \<noteq> None)"
proof -
  have b: "bit (dio_refs d) 31" "count ph Owner = 0" "ndis ph = 0" "\<not> bit (dio_refs d) 30"
    using ok by (auto simp: dio_ok_def split: if_splits)
  have d': "d' = hammer2_io_complete (d\<lparr>dio_bp := None\<rparr>) HAMMER2_DIO_INPROG" "n' = n + 1" "bp = dio_bp d"
    using t by (auto simp: putblk_dispose_def)
  have nd: "Dispose r \<notin># ph" for r using b(3) ndis_pos by fastforce
  show "dio_ok d' ph \<and> dio_pbase d' = dio_pbase d \<and> n' - n = contrib d' ph - contrib d (add_mset (Dispose refs) ph)"
    using ok b nd complete_refs[of "d\<lparr>dio_bp := None\<rparr>"] by (auto simp: d' dio_ok_def contrib_def)
  show "bp = dio_bp d \<and> (bit refs 30 \<longleftrightarrow> bp \<noteq> None)" using ok by (auto simp: d'(3) dio_ok_def)
qed


subsection \<open>The invariant of the mount\<close>

lemma io_inv_dio: "io_inv s \<Longrightarrow> io_tree s p = Some d \<Longrightarrow> dio_ok d (io_ph s p) \<and> dio_pbase d = p"
  unfolding io_inv_def dio_at_def by (metis (mono_tags, lifting) option.simps(5))

lemma io_inv_update:
  assumes inv: "io_inv s" and d: "io_tree s p = Some d"
    and ok: "dio_ok d' ph' \<and> dio_pbase d' = dio_pbase d \<and> n - io_free s = contrib d' ph' - contrib d (io_ph s p)"
  shows "io_inv ((io_update s p d' ph')\<lparr>io_free := n\<rparr>)"
proof -
  let ?s = "(io_update s p d' ph')\<lparr>io_free := n\<rparr>"
  have fin: "finite (dom (io_tree s))" and p: "p \<in> dom (io_tree s)" using inv d by (auto simp: io_inv_def)
  have dom: "dom (io_tree ?s) = dom (io_tree s)" using p by (auto simp: io_update_def)
  have same: "dio_state ?s q = dio_state s q" if "q \<noteq> p" for q
    using that by (intro dio_at_cong) (simp_all add: io_update_def)
  have "(\<Sum>q\<in>dom (io_tree s). dio_state ?s q) = dio_state ?s p + (\<Sum>q\<in>dom (io_tree s) - {p}. dio_state s q)"
    using fin p same by (simp add: sum.remove[of _ p])
  also have "\<dots> = dio_state ?s p - dio_state s p + io_free s"
    using fin p inv by (simp add: io_inv_def sum.remove[of _ p])
  also have "\<dots> = n" using ok d by (simp add: dio_state_def io_update_def)
  finally have sum: "n = (\<Sum>q\<in>dom (io_tree ?s). dio_state ?s q)" unfolding dom ..
  have "dio_at ?s q" for q
  proof (cases "q = p")
    case True
    then show ?thesis using ok io_inv_dio[OF inv d] by (simp add: dio_at_def io_update_def)
  next
    case False
    then have "dio_at ?s q = dio_at s q" by (intro dio_at_cong) (simp_all add: io_update_def)
    then show ?thesis using inv by (simp add: io_inv_def)
  qed
  then show ?thesis using fin sum unfolding io_inv_def dom by auto
qed

lemma io_inv_update':
  assumes "io_inv s" "io_tree s p = Some d"
    "dio_ok d' ph' \<and> dio_pbase d' = dio_pbase d \<and> contrib d' ph' = contrib d (io_ph s p)"
  shows "io_inv (io_update s p d' ph')"
  using io_inv_update[OF assms(1,2), of d' ph' "io_free s"] assms(3)
  by (simp add: io_update_def)

lemma io_inv_get:
  assumes inv: "io_inv s" and sz: "size (io_ph s p) < 2 ^ 28 - 1"
    and g: "getblk_ref hit p psize (io_tree s) (io_free s) = (tree', n)"
  shows "io_inv (s\<lparr>io_tree := tree', io_free := n, io_ph := (io_ph s)(p := add_mset InLoop (io_ph s p))\<rparr>)"
proof (cases "io_tree s p")
  case (Some d)
  obtain d' where r: "dio_reref d (io_free s) = (d', n)" and t: "tree' = (io_tree s)(p \<mapsto> d')"
    using g Some by (cases "dio_reref d (io_free s)") (auto simp: getblk_ref_def split: if_splits)
  have "dio_ok d (io_ph s p)" using io_inv_dio[OF inv Some] by simp
  from io_inv_update[OF inv Some, of d' "add_mset InLoop (io_ph s p)" n] ok_reref[OF this sz r]
  show ?thesis by (cases s) (simp add: io_update_def t)
next
  case None
  let ?d = "\<lparr>dio_pbase = p, dio_psize = psize, dio_refs = 1, dio_act = 0, dio_bp = None\<rparr>"
  have t: "tree' = (io_tree s)(p \<mapsto> ?d)" "n = io_free s" 
    using g None by (cases hit; auto simp: getblk_ref_def Let_def)+
  have ph: "io_ph s p = {#}" using inv None unfolding io_inv_def dio_at_def by (metis (mono_tags, lifting) option.simps(4))
  define s' where "s' = s\<lparr>io_tree := tree', io_free := n, io_ph := (io_ph s)(p := add_mset InLoop (io_ph s p))\<rparr>"
  have s': "io_tree s' = tree'" "io_free s' = n" "io_ph s' = (io_ph s)(p := add_mset InLoop (io_ph s p))"
    by (simp_all add: s'_def)
  have new: "p \<notin> dom (io_tree s)" "finite (dom (io_tree s))" using None inv by (auto simp: io_inv_def)
  have same: "dio_state s' q = dio_state s q" if "q \<noteq> p" for q
    using that by (intro dio_at_cong) (simp_all add: s' t)
  have "(\<Sum>q\<in>dom (io_tree s'). dio_state s' q) = dio_state s' p + (\<Sum>q\<in>dom (io_tree s). dio_state s' q)"
    using new by (simp add: s' t)
  also have "(\<Sum>q\<in>dom (io_tree s). dio_state s' q) = (\<Sum>q\<in>dom (io_tree s). dio_state s q)"
    by (rule sum.cong[OF refl], rule same) (use new(1) in blast)
  also have "dio_state s' p = 0" by (simp add: dio_state_def s' t ph ok_new)
  finally have sum: "io_free s' = (\<Sum>q\<in>dom (io_tree s'). dio_state s' q)" using inv unfolding io_inv_def s'(2) t(2) by simp
  have "dio_at s' q" for q
  proof (cases "q = p")
    case True
    then show ?thesis by (simp add: dio_at_def s' t ph ok_new)
  next
    case False
    then have "dio_at s' q = dio_at s q" by (intro dio_at_cong) (simp_all add: s' t)
    then show ?thesis using inv by (simp add: io_inv_def)
  qed
  moreover have "finite (dom (io_tree s'))" using new by (simp add: s' t)
  ultimately have "io_inv s'" using sum unfolding io_inv_def by blast
  then show ?thesis by (simp add: s'_def)
qed

lemma io_inv_step: "iostep s s' \<Longrightarrow> io_inv s \<Longrightarrow> io_inv s'"
proof (induction rule: iostep.induct)
  case (Get p s hit psize tree' n)
  then show ?case by (blast intro: io_inv_get)
next
  case (LoopGood s p d d')
  obtain m where m: "io_ph s p = add_mset InLoop m" using LoopGood by (auto dest: multi_member_split)
  show ?case using io_inv_dio[OF LoopGood(4,2)] ok_loop(1)[of d m d'] LoopGood m
    by (intro io_inv_update') auto
next
  case (LoopWait s p d d')
  obtain m where m: "io_ph s p = add_mset InLoop m" using LoopWait by (auto dest: multi_member_split)
  show ?case using io_inv_dio[OF LoopWait(4,2)] ok_loop(2)[of d m d'] LoopWait m
    by (intro io_inv_update') auto
next
  case (LoopOwner s p d d')
  obtain m where m: "io_ph s p = add_mset InLoop m" using LoopOwner by (auto dest: multi_member_split)
  show ?case using io_inv_dio[OF LoopOwner(4,2)] ok_loop(3)[of d m d'] LoopOwner m
    by (intro io_inv_update') auto
next
  case (Resolve s p d d' bp)
  obtain m where m: "io_ph s p = add_mset Owner m" using Resolve by (auto dest: multi_member_split)
  show ?case using io_inv_dio[OF Resolve(4,2)] ok_resolve[of d m d' bp] Resolve m
    by (intro io_inv_update') auto
next
  case (Dirty s p d)
  then show ?case using io_inv_dio[OF Dirty(3,2)] ok_dirty[of d "io_ph s p"]
    by (intro io_inv_update') auto
next
  case (PutDec s p d d')
  obtain m where m: "io_ph s p = add_mset Holder m" using PutDec by (auto dest: multi_member_split)
  show ?case using io_inv_dio[OF PutDec(4,2)] ok_put_dec[of d m d'] PutDec m
    by (intro io_inv_update') auto
next
  case (PutLast s p d d')
  obtain m where m: "io_ph s p = add_mset Holder m" using PutLast by (auto dest: multi_member_split)
  show ?case using io_inv_dio[OF PutLast(4,2)] ok_put_last[of d m d'] PutLast m
    by (intro io_inv_update') auto
next
  case (Disposed refs s p d bp d' n)
  obtain m where m: "io_ph s p = add_mset (Dispose refs) m" using Disposed by (auto dest: multi_member_split)
  show ?case using io_inv_dio[OF Disposed(4,2)] ok_disposed(1)[of d refs m "io_free s" bp d' n] Disposed m
    by (intro io_inv_update) auto
qed

interpretation dio: invariant_system "\<lambda>s. s = io_init" iostep io_inv
  by unfold_locales (simp add: io_init_def io_inv_def dio_at_def, rule io_inv_step)

lemmas ioreach_inv = dio.reachable_inv


section \<open>The tree of the dios\<close>

text \<open>
  \<open>hammer2_io_cmp\<close>, the lookup that \<open>RB_GENERATE2\<close> of \<^verbatim>\<open>hammer2.h\<close> defines, and the descent of
  \<open>RB_INSERT\<close> (\<^verbatim>\<open>sys/tree.h\<close>) that finds an element comparing equal.
  The offsets are of the signed type \<open>off_t\<close>; those of a device are below \<open>2 ^ 63\<close>, where the order of the words is the same.
\<close>

definition hammer2_io_cmp :: "hammer2_io \<Rightarrow> hammer2_io \<Rightarrow> int" where
  "hammer2_io_cmp io1 io2 =
     (if dio_pbase io2 < dio_pbase io1 then -1 else if dio_pbase io2 > dio_pbase io1 then 1 else 0)"

fun rb_lookup :: "hammer2_io tree \<Rightarrow> u64 \<Rightarrow> hammer2_io option" where
  "rb_lookup Leaf v = None"
| "rb_lookup (Node l tmp r) v =
     (if v > dio_pbase tmp then rb_lookup r v
      else if v < dio_pbase tmp then rb_lookup l v
      else Some tmp)"

fun rb_insert_find :: "hammer2_io tree \<Rightarrow> hammer2_io \<Rightarrow> hammer2_io option" where
  "rb_insert_find Leaf elm = None"
| "rb_insert_find (Node l tmp r) elm =
     (let comp = hammer2_io_cmp elm tmp
      in if comp < 0 then rb_insert_find l elm
         else if comp > 0 then rb_insert_find r elm
         else Some tmp)"

text \<open>The order \<open>RB_INSERT\<close> builds.\<close>

fun cmp_ordered :: "hammer2_io tree \<Rightarrow> bool" where
  "cmp_ordered Leaf = True"
| "cmp_ordered (Node l d r) \<longleftrightarrow> cmp_ordered l \<and> cmp_ordered r \<and>
     (\<forall>x\<in>set_tree l. hammer2_io_cmp x d < 0) \<and> (\<forall>x\<in>set_tree r. hammer2_io_cmp x d > 0)"

lemma cmp_sign:
  "hammer2_io_cmp x y < 0 \<longleftrightarrow> dio_pbase x > dio_pbase y" "hammer2_io_cmp x y > 0 \<longleftrightarrow> dio_pbase x < dio_pbase y"
  by (auto simp: hammer2_io_cmp_def)

lemma rb_lookup_found: "rb_lookup t v = Some d \<Longrightarrow> d \<in> set_tree t \<and> dio_pbase d = v"
  by (induction t) (auto split: if_splits)

lemma rb_insert_find_correct:
  "cmp_ordered t \<Longrightarrow> rb_insert_find t e = Some d \<longleftrightarrow> d \<in> set_tree t \<and> dio_pbase d = dio_pbase e"
proof (induction t)
  case (Node l x r)
  show ?case
  proof (cases "dio_pbase e" "dio_pbase x" rule: linorder_cases)
    case less then show ?thesis using Node by (auto simp: Let_def cmp_sign)
  next
    case equal then show ?thesis using Node by (auto simp: Let_def cmp_sign)
  next
    case greater then show ?thesis using Node by (auto simp: Let_def cmp_sign)
  qed
qed simp

section \<open>Properties\<close>

text \<open>
  C32: the reference protocol of the dios is safe.  In every state that any interleaving of
  \<open>hammer2_io_getblk\<close>, device reads, \<open>hammer2_io_setdirty\<close> and \<open>hammer2_io_putblk\<close> can
  reach: the count in \<open>refs\<close> is the number of references, at most one thread resolves or
  disposes of the buffer of a dio at a time, a thread that releases the dio never fails an
  assertion nor reaches the null \<open>info\<close> of the cleanup callback, a good dio has a buffer,
  and when the last reference goes the buffer that was good is there to be written or
  released.
\<close>

theorem dio_protocol:
  assumes "ioreach s" "io_tree s p = Some d"
  shows "cnt (dio_refs d) = nref (io_ph s p) \<and> count (io_ph s p) Owner + ndis (io_ph s p) \<le> 1 \<and>
    (dio_refs d AND HAMMER2_DIO_GOOD \<noteq> 0 \<longrightarrow> dio_bp d \<noteq> None) \<and>
    (Holder \<in># io_ph s p \<longrightarrow> (\<exists>r. putblk_try d = Ok r)) \<and>
    (\<forall>refs bp d' n clust. Dispose refs \<in># io_ph s p \<and> putblk_dispose d (io_free s) = (bp, d', n) \<longrightarrow>
       (\<exists>ops. putblk_buffer clust refs p (dio_psize d) bp = Ok ops \<and>
          (case bp of None \<Rightarrow> ops = []
           | Some b \<Rightarrow> ops = [if refs AND HAMMER2_DIO_DIRTY = 0 then Release b
                            else if clust then ClusterWrite b ((p + HAMMER2_SEGMASK64) AND NOT HAMMER2_SEGMASK64) (dio_psize d)
                            else DelayedWrite b])))"
proof -
  have ok: "dio_ok d (io_ph s p)" using io_inv_dio[OF ioreach_inv[OF assms(1)] assms(2)] by simp
  have 1: "Holder \<in># io_ph s p \<Longrightarrow> \<exists>r. putblk_try d = Ok r" using holder_busy(1)[OF ok] by auto
  have 2: "\<exists>ops. putblk_buffer clust refs p (dio_psize d) bp = Ok ops \<and>
          (case bp of None \<Rightarrow> ops = []
           | Some b \<Rightarrow> ops = [if refs AND HAMMER2_DIO_DIRTY = 0 then Release b
                            else if clust then ClusterWrite b ((p + HAMMER2_SEGMASK64) AND NOT HAMMER2_SEGMASK64) (dio_psize d)
                            else DelayedWrite b])"
    if "Dispose refs \<in># io_ph s p" "putblk_dispose d (io_free s) = (bp, d', n)" for refs bp d' n clust
  proof -
    note disp = that
    obtain m where m: "io_ph s p = add_mset (Dispose refs) m" using disp(1) by (auto dest: multi_member_split)
    have "bit refs 30 \<longleftrightarrow> bp \<noteq> None" using ok_disposed(2)[OF ok[unfolded m] disp(2)] by simp
    then show ?thesis unfolding putblk_buffer_def refs_flags(2) by (cases bp) auto
  qed
  have 3: "cnt (dio_refs d) = nref (io_ph s p)" "count (io_ph s p) Owner + ndis (io_ph s p) \<le> 1"
    "bit (dio_refs d) 30 \<longrightarrow> dio_bp d \<noteq> None" using ok by (auto simp: dio_ok_def)
  show ?thesis unfolding refs_flags(2) using 1 2 3 by blast
qed

text \<open>
  The number of free dios.  When no thread uses a dio any more, \<open>iofree_count\<close> is the
  number of dios in the tree, all of them pass the assertion of \<open>hammer2_io_cleanup\<close>, and
  the cleanup of the whole tree at unmount leaves a count of zero.
\<close>

theorem dio_cleanup:
  assumes "ioreach s" "\<forall>p. io_ph s p = {#}"
    "distinct dios" "set dios = {d. \<exists>p. io_tree s p = Some d}"
  shows "io_free s = int (card (dom (io_tree s))) \<and> hammer2_io_cleanup dios (io_free s) = Ok 0"
proof -
  have inv: "io_inv s" by (rule ioreach_inv[OF assms(1)])
  have idle: "cnt (dio_refs d) = 0 \<and> \<not> bit (dio_refs d) 31 \<and> dio_bp d = None \<and> dio_pbase d = p \<and> contrib d {#} = 1"
    if "io_tree s p = Some d" for p d
    using io_inv_dio[OF inv that] assms(2) by (auto simp: dio_ok_def contrib_def split: if_splits)
  have "dio_state s p = 1" if "p \<in> dom (io_tree s)" for p
    using that idle assms(2) by (auto simp: dio_state_def)
  then have free: "io_free s = int (card (dom (io_tree s)))" using inv by (simp add: io_inv_def)
  have "bij_betw dio_pbase (set dios) (dom (io_tree s))"
    unfolding bij_betw_def assms(4) inj_on_def using idle by (force simp: image_iff)
  then have len: "card (dom (io_tree s)) = length dios"
    using assms(3) by (simp add: bij_betw_same_card[symmetric] distinct_card)
  have clean: "hammer2_io_cleanup ds n = Ok (n - int (length ds))"
    if "\<forall>d\<in>set ds. cnt (dio_refs d) = 0 \<and> \<not> bit (dio_refs d) 31 \<and> dio_bp d = None" for ds n
    using that
  proof (induction ds arbitrary: n)
    case (Cons d ds)
    then have "dio_refs d AND (HAMMER2_DIO_MASK OR HAMMER2_DIO_INPROG) = 0" unfolding refs_idle by simp
    then show ?case using Cons by (simp only: hammer2_io_cleanup.simps) simp
  qed simp
  have "\<forall>d\<in>set dios. cnt (dio_refs d) = 0 \<and> \<not> bit (dio_refs d) 31 \<and> dio_bp d = None"
    using idle assms(4) by blast
  from clean[OF this, of "io_free s"] show ?thesis using free len by simp
qed

text \<open>
  C33: the comparison function of the tree of dios is the reverse of the order its lookup
  follows.  In a tree built by \<open>RB_INSERT\<close> with \<open>hammer2_io_cmp\<close>, \<open>RB_LOOKUP\<close> finds the
  root and nothing else; \<open>RB_INSERT\<close> reports every element that is there.  So
  \<open>hammer2_io_getblk\<close>, which tries both, still refers to the right dio.
\<close>

theorem io_lookup_only_root:
  assumes "cmp_ordered (Node l d r)"
  shows "rb_lookup (Node l d r) v = (if v = dio_pbase d then Some d else None) \<and>
    (rb_insert_find (Node l d r) e = Some x \<longleftrightarrow> x \<in> set_tree (Node l d r) \<and> dio_pbase x = dio_pbase e) \<and>
    getblk_ref True p psize m n = getblk_ref False p psize m n"
proof -
  have "rb_lookup r v = None" if "v > dio_pbase d"
    using rb_lookup_found[of r v] assms that by (cases "rb_lookup r v") (force simp: cmp_sign)+
  moreover have "rb_lookup l v = None" if "v < dio_pbase d"
    using rb_lookup_found[of l v] assms that by (cases "rb_lookup l v") (force simp: cmp_sign)+
  ultimately have "rb_lookup (Node l d r) v = (if v = dio_pbase d then Some d else None)" by auto
  moreover have "getblk_ref True p psize m n = getblk_ref False p psize m n"
    by (simp add: getblk_ref_def split: option.split)
  ultimately show ?thesis using rb_insert_find_correct[OF assms] by blast
qed


section \<open>Blocks in their device buffer\<close>

lemma pow2_mask: "NOT (of_nat (2 ^ k) - 1 :: u64) = NOT (mask k)"
  by (simp add: mask_eq_exp_minus_1)

lemma unat_clear_low: "unat (x AND NOT (mask k) :: u64) = unat x div 2 ^ k * 2 ^ k"
  by (simp add: unat_and_not_mask minus_mod_eq_div_mult)

lemma block_end_same_buffer:
  fixes lb :: u64
  assumes in_buf: "unat lb mod 2 ^ k + n \<le> 2 ^ k" "0 < n" "k < 64" "unat lsize = n"
  shows "(lb + lsize - 1) AND NOT (mask k) = lb AND NOT (mask k)"
    "unat (lb AND NOT (mask k)) \<le> unat lb" "unat lb + n \<le> unat (lb AND NOT (mask k)) + 2 ^ k"
proof -
  have split: "unat lb = unat lb div 2 ^ k * 2 ^ k + unat lb mod 2 ^ k" by (rule div_mult_mod_eq[symmetric])
  have pb: "unat (lb AND NOT (mask k)) = unat lb div 2 ^ k * 2 ^ k" by (rule unat_clear_low)
  show "unat (lb AND NOT (mask k)) \<le> unat lb" unfolding pb by simp
  show ends: "unat lb + n \<le> unat (lb AND NOT (mask k)) + 2 ^ k" unfolding pb using split in_buf(1) by linarith
  have "unat lb div 2 ^ k * 2 ^ k + 2 ^ k \<le> 2 ^ 64"
  proof (rule dvd_less_add_le)
    show "2 ^ k dvd unat lb div 2 ^ k * 2 ^ k" by simp
    show "(2::nat) ^ k dvd 2 ^ 64" using in_buf(3) by (intro le_imp_power_dvd) simp
    show "unat lb div 2 ^ k * 2 ^ k < 2 ^ 64"
      using u64_bound[of "lb AND NOT (mask k)"] unfolding pb by simp
  qed
  then have lt: "unat lb + (n - 1) < 2 ^ 64" using ends in_buf(2) unfolding pb by linarith
  have "lsize \<ge> 1" using in_buf(2,4) by (simp add: word_le_unat)
  then have l1: "unat (lsize - 1) = n - 1" using in_buf(2,4) by (subst unat_minus_le) (simp_all add: word_le_unat)
  have e: "lb + lsize - 1 = lb + (lsize - 1)" by simp
  have u: "unat (lb + lsize - 1) = unat lb + (n - 1)"
    unfolding e using lt l1 unat_plus_noverflow[of lb "lsize - 1"] by simp
  have "(unat lb + (n - 1)) div 2 ^ k = unat lb div 2 ^ k"
  proof (rule div_nat_eqI)
    show "2 ^ k * (unat lb div 2 ^ k) \<le> unat lb + (n - 1)" 
      unfolding mult.commute[of "2 ^ k"] using split by linarith
    show "unat lb + (n - 1) < 2 ^ k * Suc (unat lb div 2 ^ k)"
      unfolding mult.commute[of "2 ^ k"] mult_Suc using split in_buf(1,2) by linarith
  qed
  then show "(lb + lsize - 1) AND NOT (mask k) = lb AND NOT (mask k)"
    by (intro unat_eqI) (simp only: unat_clear_low u)
qed

lemma io_pbase_ok:
  fixes lb :: u64
  defines "pb \<equiv> \<lambda>radix. lb AND NOT (mask (hammer2_devblkradix radix))"
  assumes r: "radix \<le> 16" and al: "1024 dvd unat lb" "2 ^ 16 \<le> unat lb"
    and fits: "unat lb mod 2 ^ hammer2_devblkradix radix + 2 ^ radix \<le> 2 ^ hammer2_devblkradix radix"
  shows "io_pbase (lb OR of_nat radix) (push_bit radix 1) = Ok (lb, pb radix, 2 ^ hammer2_devblkradix radix)"
proof -
  let ?k = "hammer2_devblkradix radix"
  have k: "?k < 64" "?k \<le> 16" by (simp_all add: hammer2_devblkradix_def)
  have dev: "hammer2_devblksize (push_bit radix 1) = Ok (2 ^ ?k)" using devblksize_pow2[OF r] by simp
  have dec: "(lb OR of_nat radix) AND NOT 63 = lb" "unat ((lb OR of_nat radix) AND 63) = radix"
    using data_off_decode[OF al(1), of radix] r unat_of_nat_small[of radix, where 'a = 64] by simp_all
  have sz: "unat (push_bit radix 1 :: u64) = 2 ^ radix" using r by (intro unat_push1) simp
  have nz: "pb radix \<noteq> 0"
  proof -
    have "2 ^ ?k \<le> unat lb" using al(2) power_increasing[OF k(2), of "2::nat"] by linarith
    then have "unat lb div 2 ^ ?k \<noteq> 0" by (simp add: div_greater_zero_iff)
    then have "unat (pb radix) \<noteq> 0" unfolding pb_def unat_clear_low by simp
    then show ?thesis by auto
  qed
  have same: "(lb + push_bit radix 1 - 1) AND NOT (mask ?k) = pb radix"
    unfolding pb_def by (rule block_end_same_buffer[OF fits]) (use k sz in auto)
  have "\<not> 32 \<le> radix" using r by simp
  then show ?thesis
    unfolding io_pbase_def dev Let_def obind.simps pow2_mask dec same
    using nz by (simp add: pb_def)
qed

lemma block_buffer:
  fixes lb :: u64
  assumes "radix \<le> 16" "1024 dvd unat lb" "2 ^ 16 \<le> unat lb"
    and fits: "unat lb mod 2 ^ hammer2_devblkradix radix + 2 ^ radix \<le> 2 ^ hammer2_devblkradix radix"
  shows "\<exists>pb psize. io_pbase (lb OR of_nat radix) (push_bit radix 1) = Ok (lb, pb, psize) \<and>
    (psize = 16384 \<or> psize = 65536) \<and> psize dvd unat pb \<and> unat pb \<le> unat lb \<and>
    unat lb + 2 ^ radix \<le> unat pb + psize \<and>
    (\<forall>d. dio_bp d \<noteq> None \<and> dio_pbase d = pb \<and> dio_psize d = psize \<longrightarrow>
       hammer2_io_data d (lb OR of_nat radix) = Ok (unat lb - unat pb))"
proof -
  let ?k = "hammer2_devblkradix radix"
  let ?pb = "lb AND NOT (mask ?k)"
  have r: "radix \<le> 16" using assms(1) by simp
  have k: "?k < 64" by (simp add: hammer2_devblkradix_def)
  note io = io_pbase_ok[OF r assms(2,3) fits]
  have sz: "unat (push_bit radix 1 :: u64) = 2 ^ radix" using r by (intro unat_push1) simp
  have b: "unat ?pb \<le> unat lb" "unat lb + 2 ^ radix \<le> unat ?pb + 2 ^ ?k"
    by (rule block_end_same_buffer[OF fits _ k sz], simp)+
  have dec: "(lb OR of_nat radix) AND NOT 63 = lb" using data_off_decode[OF assms(2), of radix] r by simp
  have "(0::nat) < 2 ^ radix" by simp
  then have "unat lb - unat ?pb < 2 ^ ?k" using b by linarith
  then have data: "hammer2_io_data d (lb OR of_nat radix) = Ok (unat lb - unat ?pb)"
    if "dio_bp d \<noteq> None \<and> dio_pbase d = ?pb \<and> dio_psize d = 2 ^ ?k" for d
    using that b(1) unfolding hammer2_io_data_def dec
    by (simp add: Let_def word_le_unat unat_minus_le)
  have "2 ^ ?k = (16384::nat) \<or> 2 ^ ?k = (65536::nat)" by (simp add: hammer2_devblkradix_def)
  moreover have "2 ^ ?k dvd unat ?pb" unfolding unat_clear_low by simp
  ultimately show ?thesis using io b data by blast
qed


text \<open>
  \<open>hammer2_io_getblk\<close> accepts every block of at most 64 KB that lies in one device
  buffer and not in the first 64 KB of the device: its assertions hold, the device buffer it
  chooses has 16 KB or 64 KB, is aligned to its size and contains the whole block, and
  \<open>hammer2_io_data\<close> on a dio with that buffer returns the block's position in it.
\<close>

theorem io_block_in_buffer:
  fixes lb :: u64
  assumes "radix \<le> HAMMER2_RADIX_MAX" "1024 dvd unat lb" "2 ^ 16 \<le> unat lb"
    and fits: "unat lb mod 2 ^ hammer2_devblkradix radix + 2 ^ radix \<le> 2 ^ hammer2_devblkradix radix"
  shows "\<exists>pb psize. io_pbase (lb OR of_nat radix) (push_bit radix 1) = Ok (lb, pb, psize) \<and>
    (psize = 16384 \<or> psize = 65536) \<and> psize dvd unat pb \<and> unat pb \<le> unat lb \<and>
    unat lb + 2 ^ radix \<le> unat pb + psize \<and>
    (\<forall>d. dio_bp d \<noteq> None \<and> dio_pbase d = pb \<and> dio_psize d = psize \<longrightarrow>
       hammer2_io_data d (lb OR of_nat radix) = Ok (unat lb - unat pb))"
  using block_buffer[OF _ assms(2-4)] assms(1) by simp

section \<open>Concrete runs\<close>

text \<open>One thread takes a new dio, reads the buffer 7 and gives it back.\<close>

definition dio0 :: "u32 \<Rightarrow> int \<Rightarrow> nat option \<Rightarrow> hammer2_io" where
  "dio0 refs act bp = \<lparr>dio_pbase = 0x10000, dio_psize = 16384, dio_refs = refs, dio_act = act, dio_bp = bp\<rparr>"

definition io0 :: "hammer2_io \<Rightarrow> int \<Rightarrow> phase multiset \<Rightarrow> iosys" where
  "io0 d n ph = \<lparr>io_tree = [0x10000 \<mapsto> d], io_free = n, io_ph = (\<lambda>_. {#})(0x10000 := ph)\<rparr>"

lemma io_run:
  "ioreach (io0 (dio0 0x40000001 1 (Some 7)) 0 {#Holder#})"
  "ioreach (io0 (dio0 0x80000000 1 (Some 7)) 0 {#Dispose 0x40000001#})"
  "ioreach (io0 (dio0 0 1 None) 1 {#})"
proof -
  have 1: "iostep io_init (io0 (dio0 1 0 None) 0 {#InLoop#})"
    using iostep.Get[of "0x10000" io_init False 16384 "[0x10000 \<mapsto> dio0 1 0 None]" 0]
    by (simp add: io_init_def io0_def dio0_def getblk_ref_def Let_def)
  have 2: "iostep (io0 (dio0 1 0 None) 0 {#InLoop#}) (io0 (dio0 0x80000001 1 None) 0 {#Owner#})"
    using iostep.LoopOwner[of "io0 (dio0 1 0 None) 0 {#InLoop#}" "0x10000" "dio0 1 0 None" "dio0 0x80000001 1 None"]
    by (simp add: io0_def dio0_def getblk_try_def bump_act_def io_update_def)
  have 3: "iostep (io0 (dio0 0x80000001 1 None) 0 {#Owner#}) (io0 (dio0 0x40000001 1 (Some 7)) 0 {#Holder#})"
    using iostep.Resolve[of "io0 (dio0 0x80000001 1 None) 0 {#Owner#}" "0x10000" "dio0 0x80000001 1 None"
        "dio0 0x40000001 1 (Some 7)" "Some 7"]
    by (simp add: io0_def dio0_def hammer2_io_complete_def io_update_def)
  have 4: "iostep (io0 (dio0 0x40000001 1 (Some 7)) 0 {#Holder#}) (io0 (dio0 0x80000000 1 (Some 7)) 0 {#Dispose 0x40000001#})"
    using iostep.PutLast[of "io0 (dio0 0x40000001 1 (Some 7)) 0 {#Holder#}" "0x10000" "dio0 0x40000001 1 (Some 7)"
        "dio0 0x80000000 1 (Some 7)"]
    by (simp add: io0_def dio0_def putblk_try_def hammer2_io_cleanup_callback_def Let_def io_update_def)
  have 5: "iostep (io0 (dio0 0x80000000 1 (Some 7)) 0 {#Dispose 0x40000001#}) (io0 (dio0 0 1 None) 1 {#})"
    using iostep.Disposed[of "0x40000001" "io0 (dio0 0x80000000 1 (Some 7)) 0 {#Dispose 0x40000001#}" "0x10000"
        "dio0 0x80000000 1 (Some 7)" "Some 7" "dio0 0 1 None" 1]
    by (simp add: io0_def dio0_def putblk_dispose_def hammer2_io_complete_def io_update_def)
  show r3: "ioreach (io0 (dio0 0x40000001 1 (Some 7)) 0 {#Holder#})"
    by (rule reachable_step[OF reachable_step[OF reachable_step[OF reachable_start[where step = iostep] 1] 2] 3])
  show r4: "ioreach (io0 (dio0 0x80000000 1 (Some 7)) 0 {#Dispose 0x40000001#})" by (rule reachable_step[OF r3 4])
  show "ioreach (io0 (dio0 0 1 None) 1 {#})" by (rule reachable_step[OF r4 5])
qed

theorem dio_protocol_witness:
  "cnt 0x40000001 = 1 \<and> (\<exists>r. putblk_try (dio0 0x40000001 1 (Some 7)) = Ok r)"
  using dio_protocol[OF io_run(1), of "0x10000" "dio0 0x40000001 1 (Some 7)"]
  by (simp add: io0_def dio0_def)

theorem io_lookup_only_root_witness:
  "rb_lookup (Node Leaf (dio0 0 0 None) (Node Leaf ((dio0 0 0 None)\<lparr>dio_pbase := 0x8000\<rparr>) Leaf)) 0x8000 = None"
  using io_lookup_only_root[of Leaf "dio0 0 0 None" "Node Leaf ((dio0 0 0 None)\<lparr>dio_pbase := 0x8000\<rparr>) Leaf" "0x8000"]
  by (simp add: hammer2_io_cmp_def dio0_def)

theorem io_block_in_buffer_witness:
  "\<exists>pb psize. io_pbase (0x401400 OR of_nat 10) (push_bit 10 1) = Ok (0x401400, pb, psize) \<and> unat pb \<le> unat (0x401400 :: u64)"
proof -
  have "unat (0x401400 :: u64) = 4199424" by simp
  then show ?thesis using io_block_in_buffer[of 10 "0x401400"] by (auto simp: hammer2_devblkradix_def)
qed

end
