(* ===== verification/H2_Buffer.thy ===== *)
theory H2_Buffer
  imports H2_Prelude
begin

text \<open>
  Memory and media buffers as byte lists: a store overwrites the bytes at an offset, a fetch
  reads them.  Used for the volume header and the inodes, and for the buffers of the
  compression code.
\<close>

section \<open>Stores and fetches\<close>

definition store :: "nat \<Rightarrow> bytes \<Rightarrow> bytes \<Rightarrow> bytes" where
  "store off bs buf = take off buf @ bs @ drop (off + length bs) buf"

definition fetch :: "nat \<Rightarrow> nat \<Rightarrow> bytes \<Rightarrow> bytes" where
  "fetch off n buf = take n (drop off buf)"

lemma length_store: "off + length bs \<le> length buf \<Longrightarrow> length (store off bs buf) = length buf"
  by (simp add: store_def)

lemma length_fetch: "off + n \<le> length buf \<Longrightarrow> length (fetch off n buf) = n"
  by (simp add: fetch_def)

lemma fetch_store_same: "off + length bs \<le> length buf \<Longrightarrow> fetch off (length bs) (store off bs buf) = bs"
  by (simp add: fetch_def store_def)

lemma fetch_store_left:
  assumes "o' + n \<le> off" "off + length bs \<le> length buf"
  shows "fetch o' n (store off bs buf) = fetch o' n buf"
proof -
  have "take n (drop o' (take off buf)) = take n (drop o' buf)" using assms by (simp add: drop_take)
  moreover have "length (drop o' (take off buf)) \<ge> n" using assms by simp
  ultimately show ?thesis using assms by (simp add: fetch_def store_def)
qed

lemma fetch_store_right:
  assumes "off + length bs \<le> o'" "off + length bs \<le> length buf"
  shows "fetch o' n (store off bs buf) = fetch o' n buf"
proof -
  have e: "take off buf @ bs @ drop (off + length bs) buf = (take off buf @ bs) @ drop (off + length bs) buf" by simp
  have l: "length (take off buf @ bs) = off + length bs" using assms by simp
  have "drop o' (store off bs buf) = drop (o' - (off + length bs)) (drop (off + length bs) buf)"
    unfolding store_def e drop_append l using assms l by simp
  then show ?thesis using assms by (simp add: fetch_def)
qed

lemma fetch_store_disjoint:
  assumes "o' + n \<le> off \<or> off + length bs \<le> o'" "off + length bs \<le> length buf"
  shows "fetch o' n (store off bs buf) = fetch o' n buf"
  using assms fetch_store_left fetch_store_right by blast

text \<open>A list of stores, in order.\<close>

fun stores :: "(nat \<times> bytes) list \<Rightarrow> bytes \<Rightarrow> bytes" where
  "stores [] buf = buf"
| "stores ((off, bs) # rest) buf = stores rest (store off bs buf)"

lemma length_stores:
  "\<forall>(off, bs)\<in>set ws. off + length bs \<le> length buf \<Longrightarrow> length (stores ws buf) = length buf"
  by (induction ws buf rule: stores.induct) (auto simp: length_store)

lemma fetch_stores_other:
  "\<forall>(off, bs)\<in>set ws. off + length bs \<le> length buf \<and> (o' + n \<le> off \<or> off + length bs \<le> o') \<Longrightarrow>
   fetch o' n (stores ws buf) = fetch o' n buf"
proof (induction ws buf rule: stores.induct)
  case (2 off bs rest buf)
  then have "off + length bs \<le> length buf" by auto
  then show ?case using 2 fetch_store_disjoint[of o' n off bs buf] by (auto simp: length_store)
qed simp

lemma stores_append: "stores (a @ b) buf = stores b (stores a buf)"
  by (induction a buf rule: stores.induct) auto

lemma fetch_stores:
  assumes "ws = pre @ (off, bs) # post" "\<forall>(o', b)\<in>set ws. o' + length b \<le> length buf"
    "\<forall>(o', b)\<in>set post. off + length bs \<le> o' \<or> o' + length b \<le> off"
  shows "fetch off (length bs) (stores ws buf) = bs"
proof -
  have l: "length (stores pre buf) = length buf" using assms(1,2) by (intro length_stores) auto
  have le: "off + length bs \<le> length buf" using assms(1,2) by auto
  have "fetch off (length bs) (stores post (store off bs (stores pre buf))) = fetch off (length bs) (store off bs (stores pre buf))"
    using assms by (intro fetch_stores_other) (auto simp: length_store l le)
  also have "\<dots> = bs" using le l by (simp add: fetch_store_same)
  finally show ?thesis by (simp add: assms(1) stores_append)
qed

lemma stores_field:
  assumes "k < length ws" "ws ! k = (off, bs)" "n = length bs"
    "\<forall>(o', b)\<in>set ws. o' + length b \<le> length buf"
    "\<forall>(o', b)\<in>set (drop (Suc k) ws). off + length bs \<le> o' \<or> o' + length b \<le> off"
  shows "fetch off n (stores ws buf) = bs"
  using fetch_stores[of ws "take k ws" off bs "drop (Suc k) ws" buf] assms id_take_nth_drop[of k ws] by simp

section \<open>Single bytes\<close>

lemma nth_store:
  assumes "off + length bs \<le> length buf" "p < length buf"
  shows "store off bs buf ! p = (if off \<le> p \<and> p < off + length bs then bs ! (p - off) else buf ! p)"
  using assms by (auto simp: store_def nth_append min_def)

lemma nth_fetch: "off + n \<le> length buf \<Longrightarrow> i < n \<Longrightarrow> fetch off n buf ! i = buf ! (off + i)"
  by (simp add: fetch_def)

lemma take_store_before: "off + length bs \<le> length buf \<Longrightarrow> n \<le> off \<Longrightarrow> take n (store off bs buf) = take n buf"
  by (auto simp: store_def min_def)

lemma take_store_after:
  assumes "off + length bs \<le> length buf"
  shows "take (off + length bs) (store off bs buf) = take off buf @ bs"
proof -
  have l: "length (take off buf @ bs) = off + length bs" using assms by simp
  have "store off bs buf = (take off buf @ bs) @ drop (off + length bs) buf" by (simp add: store_def)
  then show ?thesis using l by (metis append_eq_conv_conj)
qed

end
