(* ===== verification/H2_Volume.thy ===== *)
theory H2_Volume
  imports H2_Check H2_Buffer
begin

unbundle bit_operations_syntax

text \<open>
  Media images as byte lists: the bytes of a blockref, the layout of \<open>struct hammer2_volume_data\<close>, and \<open>hammer2_install_volume_header\<close> of
  \<^verbatim>\<open>hammer2_vfsops.c\<close>, which chooses among the four copies of the volume header.
\<close>

text \<open>Numbers in a buffer.\<close>

definition get32 :: "nat \<Rightarrow> bytes \<Rightarrow> u32" where
  "get32 off buf = le_join (fetch off 4 buf)"

definition get64 :: "nat \<Rightarrow> bytes \<Rightarrow> u64" where
  "get64 off buf = le_join (fetch off 8 buf)"

text \<open>A blockref on the media.\<close>

definition bref_bytes :: "hammer2_blockref \<Rightarrow> bytes" where
  "bref_bytes b =
     [br_type b, br_methods b, br_copyid b, br_keybits b, br_vradix b, br_flags b, 0, 0] @
     le_split 8 (br_key b) @ le_split 8 (br_mirror_tid b) @ le_split 8 (br_modify_tid b) @
     le_split 8 (br_data_off b) @ check_buf (br_check b)"

lemma length_bref_bytes [simp]: "length (bref_bytes b) = 64"
  by (simp add: bref_bytes_def)

section \<open>The volume header\<close>

abbreviation (input) HAMMER2_VOLUME_ID_HBO :: u64 where "HAMMER2_VOLUME_ID_HBO \<equiv> 0x48414d3205172011"
abbreviation (input) HAMMER2_VOLUME_ID_ABO :: u64 where "HAMMER2_VOLUME_ID_ABO \<equiv> 0x11201705324d4148"
abbreviation (input) HAMMER2_VOLUME_BYTES :: nat where "HAMMER2_VOLUME_BYTES \<equiv> 65536"
abbreviation (input) HAMMER2_NUM_VOLHDRS :: nat where "HAMMER2_NUM_VOLHDRS \<equiv> 4"

text \<open>The fields of \<open>struct hammer2_volume_data\<close> that the code reads, at their offsets.\<close>

definition vd_magic :: "bytes \<Rightarrow> u64" where "vd_magic vd = get64 0x00 vd"
definition vd_volu_size :: "bytes \<Rightarrow> u64" where "vd_volu_size vd = get64 0x28 vd"
definition vd_allocator_size :: "bytes \<Rightarrow> u64" where "vd_allocator_size vd = get64 0x60 vd"
definition vd_allocator_free :: "bytes \<Rightarrow> u64" where "vd_allocator_free vd = get64 0x68 vd"
definition vd_allocator_beg :: "bytes \<Rightarrow> u64" where "vd_allocator_beg vd = get64 0x70 vd"
definition vd_mirror_tid :: "bytes \<Rightarrow> u64" where "vd_mirror_tid vd = get64 0x78 vd"
definition vd_icrc_sect1 :: "bytes \<Rightarrow> u32" where "vd_icrc_sect1 vd = get32 0x1F8 vd"
definition vd_icrc_sect0 :: "bytes \<Rightarrow> u32" where "vd_icrc_sect0 vd = get32 0x1FC vd"
definition vd_sroot_bref :: "bytes \<Rightarrow> bytes" where "vd_sroot_bref vd = fetch 0x200 64 vd"

text \<open>The tests of one copy: the magic number, then the check codes of sectors 0 and 1.\<close>

definition volhdr_valid :: "bytes \<Rightarrow> bool" where
  "volhdr_valid vd \<longleftrightarrow>
     \<not> (vd_magic vd \<noteq> HAMMER2_VOLUME_ID_HBO \<and> vd_magic vd \<noteq> HAMMER2_VOLUME_ID_ABO) \<and>
     vd_magic vd \<noteq> HAMMER2_VOLUME_ID_ABO \<and>
     iscsi_crc32 (fetch 0 508 vd) = vd_icrc_sect0 vd \<and> iscsi_crc32 (fetch 512 512 vd) = vd_icrc_sect1 vd"

text \<open>
  The check codes of a header, in the order in which the code computes them: sector 1, then
  sector 0 (whose bytes include the former), then the whole header.
\<close>

definition seal_header :: "bytes \<Rightarrow> bytes" where
  "seal_header v0 =
     (let v1 = store 0x1F8 (le_split 4 (iscsi_crc32 (fetch 512 512 v0))) v0;
          v2 = store 0x1FC (le_split 4 (iscsi_crc32 (fetch 0 508 v1))) v1
      in store 0xFFFC (le_split 4 (iscsi_crc32 (fetch 0 65532 v2))) v2)"

text \<open>
  The loop: \<open>read i\<close> is the block read for copy \<open>i\<close>, \<open>None\<close> for a read error.  The state is
  the header installed so far with its number.
\<close>

fun volhdr_loop :: "(nat \<Rightarrow> bytes option) \<Rightarrow> nat \<Rightarrow> nat \<Rightarrow> (bytes \<times> nat) option \<Rightarrow> (bytes \<times> nat) option" where
  "volhdr_loop read i 0 cur = cur"
| "volhdr_loop read i (Suc n) cur =
     volhdr_loop read (Suc i) n
       (case read i of
          None \<Rightarrow> cur
        | Some vd \<Rightarrow>
            if \<not> volhdr_valid vd then cur
            else (case cur of
                    None \<Rightarrow> Some (vd, i)
                  | Some (cvd, ci) \<Rightarrow> if vd_mirror_tid cvd < vd_mirror_tid vd then Some (vd, i) else cur))"

definition hammer2_install_volume_header :: "(nat \<Rightarrow> bytes option) \<Rightarrow> errno \<times> (bytes \<times> nat) option" where
  "hammer2_install_volume_header read =
     (case volhdr_loop read 0 HAMMER2_NUM_VOLHDRS None of
        None \<Rightarrow> (EINVAL, None)
      | Some v \<Rightarrow> (E_OK, Some v))"

text \<open>The three check codes do not disturb each other or the fields.\<close>

lemma seal_header_codes:
  fixes v0 :: bytes
  assumes l: "length v0 = 65536"
    and sealed: "v3 = seal_header v0"
  shows "length v3 = 65536"
    "iscsi_crc32 (fetch 0 508 v3) = get32 0x1FC v3" "iscsi_crc32 (fetch 512 512 v3) = get32 0x1F8 v3"
    "iscsi_crc32 (fetch 0 65532 v3) = get32 0xFFFC v3"
    "\<And>off n. off + n \<le> 504 \<or> 512 \<le> off \<and> off + n \<le> 65532 \<Longrightarrow> fetch off n v3 = fetch off n v0"
proof -
  define v1 where v1: "v1 = store 0x1F8 (le_split 4 (iscsi_crc32 (fetch 512 512 v0))) v0"
  define v2 where v2: "v2 = store 0x1FC (le_split 4 (iscsi_crc32 (fetch 0 508 v1))) v1"
  have v3: "v3 = store 0xFFFC (le_split 4 (iscsi_crc32 (fetch 0 65532 v2))) v2"
    unfolding sealed seal_header_def Let_def v2 v1 ..
  note v = v1 v2 v3
  have l1: "length v1 = 65536" unfolding v(1) using l by (simp add: length_store)
  have l2: "length v2 = 65536" unfolding v(2) using l1 by (simp add: length_store)
  show "length v3 = 65536" unfolding v(3) using l2 by (simp add: length_store)
  have k1: "fetch off n v1 = fetch off n v0" if "off + n \<le> 504 \<or> 508 \<le> off" for off n
    unfolding v(1) by (rule fetch_store_disjoint) (use that l in auto)
  have k2: "fetch off n v2 = fetch off n v1" if "off + n \<le> 508 \<or> 512 \<le> off" for off n
    unfolding v(2) by (rule fetch_store_disjoint) (use that l1 in auto)
  have k3: "fetch off n v3 = fetch off n v2" if "off + n \<le> 65532" for off n
    unfolding v(3) by (rule fetch_store_disjoint) (use that l2 in auto)
  have g1: "fetch 0x1F8 4 v1 = le_split 4 (iscsi_crc32 (fetch 512 512 v0))"
    unfolding v(1) using fetch_store_same[of 504 "le_split 4 (iscsi_crc32 (fetch 512 512 v0))" v0] l by simp
  have g2: "fetch 0x1FC 4 v2 = le_split 4 (iscsi_crc32 (fetch 0 508 v1))"
    unfolding v(2) using fetch_store_same[of 508 "le_split 4 (iscsi_crc32 (fetch 0 508 v1))" v1] l1 by simp
  have g3: "fetch 0xFFFC 4 v3 = le_split 4 (iscsi_crc32 (fetch 0 65532 v2))"
    unfolding v(3) using fetch_store_same[of 65532 "le_split 4 (iscsi_crc32 (fetch 0 65532 v2))" v2] l2 by simp
  show "iscsi_crc32 (fetch 0 508 v3) = get32 0x1FC v3"
    using k3[of 0 508] k2[of 0 508] k3[of 508 4] g2 by (simp add: get32_def le_join_split)
  show "iscsi_crc32 (fetch 512 512 v3) = get32 0x1F8 v3"
    using k3[of 512 512] k2[of 512 512] k1[of 512 512] k3[of 504 4] k2[of 504 4] g1 by (simp add: get32_def le_join_split)
  show "iscsi_crc32 (fetch 0 65532 v3) = get32 0xFFFC v3"
    using k3[of 0 65532] g3 by (simp add: get32_def le_join_split)
  show "fetch off n v3 = fetch off n v0" if "off + n \<le> 504 \<or> 512 \<le> off \<and> off + n \<le> 65532" for off n
    using that k1[of off n] k2[of off n] k3[of off n] by auto
qed

text \<open>The copies the loop accepts.\<close>

definition good_copy :: "(nat \<Rightarrow> bytes option) \<Rightarrow> nat \<Rightarrow> bytes \<Rightarrow> bool" where
  "good_copy read i vd \<longleftrightarrow> read i = Some vd \<and> volhdr_valid vd"

definition best_copy :: "(nat \<Rightarrow> bytes option) \<Rightarrow> nat \<Rightarrow> (bytes \<times> nat) option \<Rightarrow> bool" where
  "best_copy read i cur \<longleftrightarrow>
     (case cur of
        None \<Rightarrow> \<forall>j<i. \<forall>vd. \<not> good_copy read j vd
      | Some (vd, k) \<Rightarrow> k < i \<and> good_copy read k vd \<and>
          (\<forall>j<i. \<forall>v. good_copy read j v \<longrightarrow> vd_mirror_tid v \<le> vd_mirror_tid vd \<and>
             (j < k \<longrightarrow> vd_mirror_tid v < vd_mirror_tid vd)))"

lemma best_copy_step:
  assumes "best_copy read i cur"
  shows "best_copy read (Suc i)
       (case read i of
          None \<Rightarrow> cur
        | Some vd \<Rightarrow>
            if \<not> volhdr_valid vd then cur
            else (case cur of
                    None \<Rightarrow> Some (vd, i)
                  | Some (cvd, ci) \<Rightarrow> if vd_mirror_tid cvd < vd_mirror_tid vd then Some (vd, i) else cur))"
proof -
  consider (skip) "\<forall>vd. \<not> good_copy read i vd"
    | (first) vd where "good_copy read i vd" "cur = None"
    | (later) vd cvd ci where "good_copy read i vd" "cur = Some (cvd, ci)"
    by (cases cur) auto
  then show ?thesis
  proof cases
    case skip
    then have "best_copy read (Suc i) cur"
      using assms unfolding best_copy_def by (auto simp: less_Suc_eq split: option.splits)
    then show ?thesis using skip by (auto simp: good_copy_def split: option.splits)
  next
    case first
    then show ?thesis using assms by (auto simp: best_copy_def good_copy_def less_Suc_eq)
  next
    case later
    have old: "\<forall>j<i. \<forall>v. good_copy read j v \<longrightarrow> vd_mirror_tid v \<le> vd_mirror_tid cvd"
      using assms later(2) by (auto simp: best_copy_def)
    have "best_copy read (Suc i) (Some (vd, i))" if "vd_mirror_tid cvd < vd_mirror_tid vd"
      unfolding best_copy_def using that old later(1)
      by (fastforce simp: less_Suc_eq good_copy_def intro: le_less_trans less_imp_le)
    moreover have "best_copy read (Suc i) cur" if "\<not> vd_mirror_tid cvd < vd_mirror_tid vd"
      using assms that later by (auto simp: best_copy_def less_Suc_eq good_copy_def)
    ultimately show ?thesis using later by (auto simp: good_copy_def)
  qed
qed

lemma volhdr_loop_best: "best_copy read i cur \<Longrightarrow> best_copy read (i + n) (volhdr_loop read i n cur)"
proof (induction n arbitrary: i cur)
  case (Suc n)
  from Suc.IH[OF best_copy_step[OF Suc.prems]] show ?case by simp
qed simp

lemma best_copy_unique:
  assumes "best_copy read n (Some (vd, k))" "best_copy read n cur"
  shows "cur = Some (vd, k)"
proof -
  have g: "k < n" "good_copy read k vd" using assms(1) by (auto simp: best_copy_def)
  then obtain v j where c: "cur = Some (v, j)" using assms(2) by (cases cur) (auto simp: best_copy_def)
  then have g': "j < n" "good_copy read j v" using assms(2) by (auto simp: best_copy_def)
  have a: "vd_mirror_tid v \<le> vd_mirror_tid vd \<and> (j < k \<longrightarrow> vd_mirror_tid v < vd_mirror_tid vd)"
    using assms(1) g' by (auto simp: best_copy_def)
  have b: "vd_mirror_tid vd \<le> vd_mirror_tid v \<and> (k < j \<longrightarrow> vd_mirror_tid vd < vd_mirror_tid v)"
    using assms(2) c g by (auto simp: best_copy_def)
  have "j = k" using a b by (metis leD linorder_less_linear)
  with g(2) g'(2) c show ?thesis by (simp add: good_copy_def)
qed

lemma install_eq_best: "hammer2_install_volume_header read = (E_OK, Some (vd, k)) \<longleftrightarrow> best_copy read 4 (Some (vd, k))"
proof -
  have b: "best_copy read (0 + 4) (volhdr_loop read 0 4 None)"
    by (rule volhdr_loop_best) (simp add: best_copy_def)
  show ?thesis using b best_copy_unique[of read 4 vd k "volhdr_loop read 0 4 None"]
    by (auto simp: hammer2_install_volume_header_def split: option.splits)
qed

section \<open>Property\<close>

text \<open>
  \<open>hammer2_install_volume_header\<close> installs the newest intact copy.  Whatever the four
  copies contain and whichever of them cannot be read, it fails with \<open>EINVAL\<close> exactly when
  none is intact (magic number in host byte order, both sector check codes right);
  otherwise it takes an intact copy with the largest \<open>mirror_tid\<close>, the first such.
\<close>

theorem install_newest_header:
  "(case hammer2_install_volume_header read of
      (e, None) \<Rightarrow> e = EINVAL \<and> (\<forall>i<4. \<forall>vd. read i = Some vd \<longrightarrow> \<not> volhdr_valid vd)
    | (e, Some (vd, k)) \<Rightarrow> e = E_OK \<and> k < 4 \<and> read k = Some vd \<and> volhdr_valid vd \<and>
        (\<forall>i<4. \<forall>v. read i = Some v \<and> volhdr_valid v \<longrightarrow> vd_mirror_tid v \<le> vd_mirror_tid vd \<and>
           (i < k \<longrightarrow> vd_mirror_tid v < vd_mirror_tid vd)))"
proof -
  have "best_copy read (0 + 4) (volhdr_loop read 0 4 None)"
    by (rule volhdr_loop_best) (simp add: best_copy_def)
  then have "best_copy read 4 (volhdr_loop read 0 4 None)" by simp
  then show ?thesis
    by (cases "volhdr_loop read 0 4 None")
      (auto simp: hammer2_install_volume_header_def best_copy_def good_copy_def)
qed

end
