(* ===== verification/H2_Sync.thy ===== *)
theory H2_Sync
  imports H2_Volume H2_System
begin

unbundle bit_operations_syntax

text \<open>
  The volume header between two mounts: the part of the flush code that prepares a new
  header (case \<open>HAMMER2_BREF_TYPE_VOLUME\<close> of \<open>hammer2_flush_core\<close> in \<^verbatim>\<open>hammer2_flush.c\<close>) and
  the part of \<open>hammer2_vfs_sync\<close> (\<^verbatim>\<open>hammer2_vfsops.c\<close>) that writes it to the next of the
  four copies.  A crash can leave the copy being written in any state.
\<close>

section \<open>Operations\<close>

text \<open>
  The header fields of \<open>struct hammer2_mount\<close>, the flag \<open>HAMMER2_CHAIN_VOLUMESYNC\<close> of the
  volume chain, and the copies on the device.
\<close>

record volume_state =
  vs_hdrs :: "nat \<Rightarrow> bytes option"
  vs_voldata :: bytes
  vs_volsync :: bytes
  vs_volhdrno :: nat
  vs_flag :: bool

definition flush_volume :: "u64 \<Rightarrow> u64 \<Rightarrow> volume_state \<Rightarrow> volume_state" where
  "flush_volume mirror_tid freemap_tid s =
     (let v0 = store 0x78 (le_split 8 mirror_tid) (vs_voldata s);
          v1 = store 0x90 (le_split 8 freemap_tid) v0;
          v = seal_header v1
      in s\<lparr>vs_voldata := v, vs_volsync := v, vs_flag := True\<rparr>)"

definition next_volhdr :: "nat \<Rightarrow> u64 \<Rightarrow> nat" where
  "next_volhdr volhdrno volu_size =
     (let i = volhdrno + 1;
          i' = (if i \<ge> HAMMER2_NUM_VOLHDRS then 0 else i)
      in if of_nat i' * HAMMER2_ZONE_BYTES64 + of_nat HAMMER2_SEGSIZE > volu_size then 0 else i')"

definition sync_volhdr :: "volume_state \<Rightarrow> volume_state" where
  "sync_volhdr s =
     (if vs_flag s then
        (let i = next_volhdr (vs_volhdrno s) (vd_volu_size (vs_volsync s))
         in s\<lparr>vs_flag := False, vs_hdrs := (vs_hdrs s)(i \<mapsto> vs_volsync s), vs_volhdrno := i\<rparr>)
      else s)"

text \<open>
  Runs from a mount: the header in memory changes (its signature, size and length do not), a
  flush prepares a header with a transaction id above that of the last one written, a sync
  writes it.  The second state component is the last header written.
\<close>

definition header_ok :: "u64 \<Rightarrow> bytes \<Rightarrow> bool" where
  "header_ok vsize vd \<longleftrightarrow> length vd = 65536 \<and> vd_magic vd = HAMMER2_VOLUME_ID_HBO \<and> vd_volu_size vd = vsize"

inductive vmount :: "u64 \<Rightarrow> volume_state \<times> bytes \<Rightarrow> bool" for vsize where
  mount: "hammer2_install_volume_header hdrs = (E_OK, Some (vd, k)) \<Longrightarrow> header_ok vsize vd \<Longrightarrow>
    vmount vsize (\<lparr>vs_hdrs = hdrs, vs_voldata = vd, vs_volsync = vd, vs_volhdrno = k, vs_flag = False\<rparr>, vd)"

inductive vstep :: "u64 \<Rightarrow> volume_state \<times> bytes \<Rightarrow> volume_state \<times> bytes \<Rightarrow> bool" for vsize where
  modify: "header_ok vsize vd \<Longrightarrow> vstep vsize (s, h) (s\<lparr>vs_voldata := vd\<rparr>, h)"
| flush: "vd_mirror_tid h < tid \<Longrightarrow> vstep vsize (s, h) (flush_volume tid ftid s, h)"
| sync: "vstep vsize (s, h) (sync_volhdr s, if vs_flag s then vs_volsync s else h)"

abbreviation vreach :: "u64 \<Rightarrow> volume_state \<Rightarrow> bytes \<Rightarrow> bool" where
  "vreach vsize s h \<equiv> reachable (vmount vsize) (vstep vsize) (s, h)"

section \<open>Lemmas\<close>

text \<open>What a flush leaves is intact and has the transaction id.\<close>

lemma flush_volume_sealed:
  assumes "header_ok vsize (vs_voldata s)"
  shows "header_ok vsize (vs_volsync (flush_volume tid ftid s))" "volhdr_valid (vs_volsync (flush_volume tid ftid s))"
    "vd_mirror_tid (vs_volsync (flush_volume tid ftid s)) = tid"
    "vs_voldata (flush_volume tid ftid s) = vs_volsync (flush_volume tid ftid s)"
proof -
  let ?vd = "vs_voldata s"
  define v0 where "v0 = store 0x78 (le_split 8 tid) ?vd"
  define v1 where "v1 = store 0x90 (le_split 8 ftid) v0"
  have l: "length ?vd = 65536" using assms by (simp add: header_ok_def)
  have l0: "length v0 = 65536" unfolding v0_def using l by (simp add: length_store)
  have l1: "length v1 = 65536" unfolding v1_def using l0 by (simp add: length_store)
  have e: "vs_volsync (flush_volume tid ftid s) = seal_header v1"
    by (simp add: flush_volume_def Let_def v0_def v1_def)
  note c = seal_header_codes[OF l1 refl]
  have keep: "fetch off n (seal_header v1) = fetch off n ?vd" if "off + n \<le> 0x78" for off n
    using that l l0 c(5)[where off = off and n = n] fetch_store_left[of off n 144 "le_split 8 ftid" v0]
      fetch_store_left[of off n 120 "le_split 8 tid" ?vd] by (simp add: v1_def v0_def)
  have "fetch 0x78 8 (seal_header v1) = fetch 0x78 8 v0"
    using c(5)[where off = 120 and n = 8] fetch_store_left[of 120 8 144 "le_split 8 ftid" v0] l0 by (simp add: v1_def)
  also have "\<dots> = le_split 8 tid" unfolding v0_def using fetch_store_same[of 120 "le_split 8 tid" ?vd] l by simp
  finally show "vd_mirror_tid (vs_volsync (flush_volume tid ftid s)) = tid"
    unfolding e by (simp add: vd_mirror_tid_def get64_def le_join_split)
  show ok: "header_ok vsize (vs_volsync (flush_volume tid ftid s))"
    using assms keep[of 0 8] keep[of 40 8] c(1) unfolding e
    by (simp add: header_ok_def vd_magic_def vd_volu_size_def get64_def)
  show "volhdr_valid (vs_volsync (flush_volume tid ftid s))"
    using ok c(2,3) unfolding e by (simp add: volhdr_valid_def header_ok_def vd_icrc_sect0_def vd_icrc_sect1_def)
  show "vs_voldata (flush_volume tid ftid s) = vs_volsync (flush_volume tid ftid s)"
    by (simp add: flush_volume_def Let_def)
qed

lemma next_volhdr_range: "next_volhdr k vsize < 4"
  by (simp add: next_volhdr_def Let_def)

lemma next_volhdr_moves:
  assumes "2 ^ 31 + 2 ^ 21 \<le> unat vsize" "k < 4"
  shows "next_volhdr k vsize \<noteq> k"
proof -
  have "\<not> (of_nat 1 * HAMMER2_ZONE_BYTES64 + of_nat HAMMER2_SEGSIZE > vsize)"
    using assms(1) by (simp add: word_less_unat)
  then show ?thesis using assms(2) by (cases "k = 0") (auto simp: next_volhdr_def Let_def)
qed

lemma next_volhdr_small:
  assumes "unat vsize < 2 ^ 31 + 2 ^ 21"
  shows "next_volhdr k vsize = 0"
proof (cases "k < 3")
  case True
  have u: "unat (of_nat (k + 1) * HAMMER2_ZONE_BYTES64 + of_nat HAMMER2_SEGSIZE) = (k + 1) * 2147483648 + 2097152"
  proof -
    have m: "unat (of_nat (k + 1) * HAMMER2_ZONE_BYTES64) = (k + 1) * 2147483648"
      unfolding unat_word_ariths(2) using True by (subst unat_of_nat_small) auto
    show ?thesis using True m by (subst unat_plus_noverflow) auto
  qed
  have "(k + 1) * 2147483648 + 2097152 > unat vsize" using assms by simp
  then have "of_nat (k + 1) * HAMMER2_ZONE_BYTES64 + of_nat HAMMER2_SEGSIZE > vsize" unfolding word_less_unat u .
  then show ?thesis using True by (simp only: next_volhdr_def Let_def if_True if_False) simp
qed (simp add: next_volhdr_def Let_def)

text \<open>Overwriting a copy by a newer header makes that copy the best one.\<close>

lemma best_copy_newer:
  assumes "best_copy read 4 (Some (h, k))" "i < 4" "volhdr_valid vd" "vd_mirror_tid h < vd_mirror_tid vd"
  shows "best_copy (read(i \<mapsto> vd)) 4 (Some (vd, i))"
proof -
  have "vd_mirror_tid v < vd_mirror_tid vd" if "j < 4" "good_copy read j v" for j v
    using assms(1,4) that by (auto simp: best_copy_def intro: le_less_trans)
  then show ?thesis using assms(2,3) by (auto simp: best_copy_def good_copy_def less_imp_le)
qed

text \<open>Damaging another copy does not change the best one.\<close>

lemma best_copy_damaged:
  assumes "best_copy read 4 (Some (h, k))" "i \<noteq> k" "\<forall>vd. t = Some vd \<longrightarrow> \<not> volhdr_valid vd"
  shows "best_copy (read(i := t)) 4 (Some (h, k))"
  using assms by (auto simp: best_copy_def good_copy_def)

definition vol_inv :: "u64 \<Rightarrow> volume_state \<Rightarrow> bytes \<Rightarrow> bool" where
  "vol_inv vsize s h \<longleftrightarrow> best_copy (vs_hdrs s) 4 (Some (h, vs_volhdrno s)) \<and> header_ok vsize h \<and>
     header_ok vsize (vs_voldata s) \<and> header_ok vsize (vs_volsync s) \<and>
     (vs_flag s \<longrightarrow> volhdr_valid (vs_volsync s) \<and> vd_mirror_tid h < vd_mirror_tid (vs_volsync s))"

lemma vol_inv_step: "vstep vsize sh sh' \<Longrightarrow> vol_inv vsize (fst sh) (snd sh) \<Longrightarrow> vol_inv vsize (fst sh') (snd sh')"
proof (induction rule: vstep.induct)
  case (modify vd s h)
  then show ?case by (simp add: vol_inv_def)
next
  case (flush h tid s ftid)
  then have ok: "header_ok vsize (vs_voldata s)" by (simp add: vol_inv_def)
  have "vs_hdrs (flush_volume tid ftid s) = vs_hdrs s" "vs_volhdrno (flush_volume tid ftid s) = vs_volhdrno s"
    by (simp_all add: flush_volume_def Let_def)
  then show ?case using flush flush_volume_sealed[OF ok, of tid ftid] by (simp add: vol_inv_def)
next
  case (sync s h)
  then have inv: "vol_inv vsize s h" by simp
  show ?case
  proof (cases "vs_flag s")
    case True
    let ?i = "next_volhdr (vs_volhdrno s) (vd_volu_size (vs_volsync s))"
    have "best_copy ((vs_hdrs s)(?i \<mapsto> vs_volsync s)) 4 (Some (vs_volsync s, ?i))"
      using inv True by (intro best_copy_newer[OF _ next_volhdr_range]) (auto simp: vol_inv_def)
    then show ?thesis using inv True by (simp add: vol_inv_def sync_volhdr_def Let_def)
  next
    case False
    then show ?thesis using inv by (simp add: sync_volhdr_def)
  qed
qed

lemma vol_inv_mount: "vmount vsize sh \<Longrightarrow> vol_inv vsize (fst sh) (snd sh)"
  by (erule vmount.cases) (simp add: vol_inv_def install_eq_best)

interpretation volhdr: invariant_system "vmount vsize" "vstep vsize" "\<lambda>sh. vol_inv vsize (fst sh) (snd sh)" for vsize
  by unfold_locales (erule vol_inv_mount, erule vol_inv_step)

lemma vreach_inv: "vreach vsize s h \<Longrightarrow> vol_inv vsize s h"
  using volhdr.reachable_inv by fastforce

text \<open>A write that stops after some bytes leaves the rest of the old copy.\<close>

definition torn :: "nat \<Rightarrow> bytes \<Rightarrow> bytes \<Rightarrow> bytes" where
  "torn n new old = take n new @ drop n old"

lemma fetch_torn: "off + m \<le> n \<Longrightarrow> n \<le> length new \<Longrightarrow> fetch off m (torn n new old) = fetch off m new"
  by (simp add: fetch_def torn_def take_drop min_def)

text \<open>The mount code looks at the first two sectors only.\<close>

lemma torn_valid:
  assumes "1024 \<le> n" "n \<le> length new"
  shows "volhdr_valid (torn n new old) = volhdr_valid new" "vd_mirror_tid (torn n new old) = vd_mirror_tid new"
  using assms by (simp_all add: volhdr_valid_def vd_magic_def vd_icrc_sect0_def vd_icrc_sect1_def vd_mirror_tid_def get64_def get32_def fetch_torn)

section \<open>Property\<close>

text \<open>
  C4: the volume header after a crash.  In every state reached from a mount by
  header changes, flushes with increasing transaction ids and syncs, mounting the device
  finds the last header written, in the copy \<open>volhdrno\<close>, and a completed write installs the new one.  From 2 GB + 2 MB on
  the sync writes another copy than the one in use: whatever a crash leaves there, the previous header is installed if
  it is unreadable or fails the tests of the mount code, and what was left if it passes them with a higher transaction id.
  The tests cover the first two sectors: a write that stops anywhere after the first kilobyte passes
  them, and a mixture of the new and the old header is installed.  On a smaller volume
  copy 0 is written in place, and if it becomes unreadable no header is left.
\<close>

theorem volume_header_recoverable:
  assumes "vreach vsize s h" and i: "i = next_volhdr (vs_volhdrno s) (vd_volu_size (vs_volsync s))"
  shows "hammer2_install_volume_header (vs_hdrs s) = (E_OK, Some (h, vs_volhdrno s)) \<and>
    (vs_flag s \<longrightarrow> hammer2_install_volume_header ((vs_hdrs s)(i \<mapsto> vs_volsync s)) = (E_OK, Some (vs_volsync s, i))) \<and>
    (2 ^ 31 + 2 ^ 21 \<le> unat vsize \<longrightarrow>
       ((\<forall>vd. t = Some vd \<longrightarrow> \<not> volhdr_valid vd) \<longrightarrow>
          hammer2_install_volume_header ((vs_hdrs s)(i := t)) = (E_OK, Some (h, vs_volhdrno s))) \<and>
       (\<forall>vd. t = Some vd \<and> volhdr_valid vd \<and> vd_mirror_tid h < vd_mirror_tid vd \<longrightarrow>
          hammer2_install_volume_header ((vs_hdrs s)(i := t)) = (E_OK, Some (vd, i)))) \<and>
    (vs_flag s \<and> 1024 \<le> n \<and> n \<le> 65536 \<longrightarrow>
       hammer2_install_volume_header ((vs_hdrs s)(i \<mapsto> torn n (vs_volsync s) old)) = (E_OK, Some (torn n (vs_volsync s) old, i))) \<and>
    (unat vsize < 2 ^ 31 + 2 ^ 21 \<longrightarrow> i = 0 \<and>
       ((\<forall>j. 0 < j \<longrightarrow> vs_hdrs s j = None) \<longrightarrow> hammer2_install_volume_header ((vs_hdrs s)(i := None)) = (EINVAL, None)))"
proof -
  have inv: "vol_inv vsize s h" by (rule vreach_inv[OF assms(1)])
  then have b: "best_copy (vs_hdrs s) 4 (Some (h, vs_volhdrno s))" and sz: "vd_volu_size (vs_volsync s) = vsize"
    and k: "vs_volhdrno s < 4" and l: "length (vs_volsync s) = 65536"
    and f: "vs_flag s \<Longrightarrow> volhdr_valid (vs_volsync s) \<and> vd_mirror_tid h < vd_mirror_tid (vs_volsync s)"
    by (auto simp: vol_inv_def header_ok_def best_copy_def)
  have i4: "i < 4" unfolding i by (rule next_volhdr_range)
  have new: "hammer2_install_volume_header ((vs_hdrs s)(i \<mapsto> vd)) = (E_OK, Some (vd, i))"
    if "volhdr_valid vd" "vd_mirror_tid h < vd_mirror_tid vd" for vd
    unfolding install_eq_best using best_copy_newer[OF b i4 that] .
  moreover have "hammer2_install_volume_header ((vs_hdrs s)(i \<mapsto> torn n (vs_volsync s) old)) = (E_OK, Some (torn n (vs_volsync s) old, i))"
    if "vs_flag s" "1024 \<le> n" "n \<le> 65536"
    using new torn_valid[of n "vs_volsync s" old] f[OF that(1)] that l by simp
  moreover have "hammer2_install_volume_header ((vs_hdrs s)(i := t)) = (E_OK, Some (h, vs_volhdrno s))"
    if "2 ^ 31 + 2 ^ 21 \<le> unat vsize" "\<forall>vd. t = Some vd \<longrightarrow> \<not> volhdr_valid vd"
    unfolding install_eq_best
    by (rule best_copy_damaged[OF b _ that(2)]) (use next_volhdr_moves[OF that(1) k] i sz in simp)
  moreover have small: "i = 0" if "unat vsize < 2 ^ 31 + 2 ^ 21" unfolding i sz by (rule next_volhdr_small[OF that])
  moreover have "hammer2_install_volume_header ((vs_hdrs s)(0 := None)) = (EINVAL, None)"
    if "\<forall>j. 0 < j \<longrightarrow> vs_hdrs s j = None"
  proof -
    have "((vs_hdrs s)(0 := None)) j = None" for j using that by (cases j) auto
    then have "(vs_hdrs s)(0 := None) = (\<lambda>_. None)" by blast
    then show ?thesis by (simp add: hammer2_install_volume_header_def eval_nat_numeral)
  qed
  ultimately show ?thesis using b f by (simp add: install_eq_best)
qed

theorem volume_header_recoverable_witness:
  "let vd = seal_header (stores [(0, le_split 8 HAMMER2_VOLUME_ID_HBO), (40, le_split 8 (0x100000000 :: u64))] (replicate 65536 0));
       new = vs_volsync (flush_volume 1 1 \<lparr>vs_hdrs = \<lambda>_. Some vd, vs_voldata = vd, vs_volsync = vd, vs_volhdrno = 0, vs_flag = False\<rparr>)
   in hammer2_install_volume_header ((\<lambda>_. Some vd)(1 := None)) = (E_OK, Some (vd, 0)) \<and>
      hammer2_install_volume_header ((\<lambda>_. Some vd)(1 \<mapsto> torn 4096 new vd)) = (E_OK, Some (torn 4096 new vd, 1))"
proof -
  define z :: bytes where "z = replicate 65536 0"
  define v0 where "v0 = stores [(0, le_split 8 HAMMER2_VOLUME_ID_HBO), (40, le_split 8 (0x100000000 :: u64))] z"
  define vd where "vd = seal_header v0"
  have z: "length z = 65536" unfolding z_def by (rule length_replicate)
  have l: "length v0 = 65536" unfolding v0_def using z by (simp add: length_store)
  note c = seal_header_codes[OF l vd_def]
  have m: "fetch 0 8 v0 = le_split 8 HAMMER2_VOLUME_ID_HBO"
    using fetch_store_left[of 0 8 40 "le_split 8 (0x100000000 :: u64)" "store 0 (le_split 8 HAMMER2_VOLUME_ID_HBO) z"]
      fetch_store_same[of 0 "le_split 8 HAMMER2_VOLUME_ID_HBO" z] z by (simp add: v0_def length_store)
  have q: "fetch 40 8 v0 = le_split 8 (0x100000000 :: u64)"
    using fetch_store_same[of 40 "le_split 8 (0x100000000 :: u64)" "store 0 (le_split 8 HAMMER2_VOLUME_ID_HBO) z"] z
    by (simp add: v0_def length_store)
  have "fetch 120 8 v0 = fetch 120 8 z"
    using fetch_store_disjoint[of 120 8 40 "le_split 8 (0x100000000 :: u64)" "store 0 (le_split 8 HAMMER2_VOLUME_ID_HBO) z"]
      fetch_store_disjoint[of 120 8 0 "le_split 8 HAMMER2_VOLUME_ID_HBO" z] z by (simp add: v0_def length_store)
  also have "\<dots> = replicate 8 0" unfolding z_def fetch_def drop_replicate take_replicate by simp
  finally have q0: "fetch 120 8 v0 = replicate 8 0" .
  have mg: "vd_magic vd = HAMMER2_VOLUME_ID_HBO" "vd_volu_size vd = 0x100000000" "vd_mirror_tid vd = 0"
    using c(5)[of 0 8] m c(5)[of 40 8] q c(5)[of 120 8] q0
    by (simp_all add: vd_magic_def vd_volu_size_def vd_mirror_tid_def get64_def le_join_split) (simp add: eval_nat_numeral)
  then have "volhdr_valid vd" using c(2,3) by (simp add: volhdr_valid_def vd_icrc_sect0_def vd_icrc_sect1_def)
  then have "hammer2_install_volume_header (\<lambda>_. Some vd) = (E_OK, Some (vd, 0))"
    by (simp add: install_eq_best best_copy_def good_copy_def)
  define s where "s = \<lparr>vs_hdrs = \<lambda>_. Some vd, vs_voldata = vd, vs_volsync = vd, vs_volhdrno = 0, vs_flag = False\<rparr>"
  have ok: "header_ok 0x100000000 vd" by (simp add: header_ok_def mg c(1))
  have r: "vreach 0x100000000 s vd" unfolding s_def
    by (intro reachable_init vmount.mount) (fact, rule ok)
  have "vstep 0x100000000 (s, vd) (flush_volume 1 1 s, vd)" by (rule vstep.flush) (simp add: mg)
  from reachable_step[OF r this] have r': "vreach 0x100000000 (flush_volume 1 1 s) vd" .
  have ok': "header_ok 0x100000000 (vs_volsync (flush_volume 1 1 s))" by (rule flush_volume_sealed(1)) (simp add: s_def ok)
  have fl: "vs_hdrs (flush_volume 1 1 s) = (\<lambda>_. Some vd)" "vs_volhdrno (flush_volume 1 1 s) = 0" "vs_flag (flush_volume 1 1 s)"
    by (simp_all add: flush_volume_def Let_def s_def)
  have "next_volhdr 0 (vd_volu_size (vs_volsync (flush_volume 1 1 s))) = 1" using ok' by (simp add: header_ok_def next_volhdr_def)
  with volume_header_recoverable[OF r' refl, of None 4096 vd] fl
  have "hammer2_install_volume_header ((\<lambda>_. Some vd)(1 := None)) = (E_OK, Some (vd, 0)) \<and>
    hammer2_install_volume_header ((\<lambda>_. Some vd)(1 \<mapsto> torn 4096 (vs_volsync (flush_volume 1 1 s)) vd)) =
      (E_OK, Some (torn 4096 (vs_volsync (flush_volume 1 1 s)) vd, 1))" by simp
  then show ?thesis by (simp only: s_def vd_def v0_def z_def Let_def)
qed

end
