(* ===== verification/H2_Newfs.thy ===== *)
theory H2_Newfs
  imports H2_Volume H2_Table H2_Subr
begin

unbundle bit_operations_syntax

text \<open>
  The formatting utility \<^verbatim>\<open>sbin/newfs_hammer2/newfs_hammer2.c\<close>: option handling and the
  sizes computed in \<open>main\<close>, \<open>getsize\<close>, \<open>format_hammer2\<close>, \<open>alloc_direct\<close>, \<open>dirhash\<close> and
  \<open>blkrefary_cmp\<close>.  Ending the process (\<open>errx\<close>, \<open>exit\<close>, a failed \<open>assert\<close>) is a \<open>Panic\<close>.  The
  device is the map of the 64 KB blocks written; which offsets \<open>pwrite\<close> accepts, the
  identifiers of \<open>uuidgen\<close> and the time are arguments.
\<close>

section \<open>Sizes\<close>

abbreviation (input) HAMMER2_BOOT_MIN_BYTES :: u64 where "HAMMER2_BOOT_MIN_BYTES \<equiv> 8388608"
abbreviation (input) HAMMER2_BOOT_NOM_BYTES :: u64 where "HAMMER2_BOOT_NOM_BYTES \<equiv> 67108864"
abbreviation (input) HAMMER2_BOOT_MAX_BYTES :: u64 where "HAMMER2_BOOT_MAX_BYTES \<equiv> 268435456"
abbreviation (input) HAMMER2_REDO_MIN_BYTES :: u64 where "HAMMER2_REDO_MIN_BYTES \<equiv> 8388608"
abbreviation (input) HAMMER2_REDO_NOM_BYTES :: u64 where "HAMMER2_REDO_NOM_BYTES \<equiv> 268435456"
abbreviation (input) HAMMER2_REDO_MAX_BYTES :: u64 where "HAMMER2_REDO_MAX_BYTES \<equiv> 1073741824"

text \<open>\<open>getsize\<close> after \<open>strtoll\<close>, which delivers the value and the rest of the string.\<close>

definition suffix_scale :: "char \<Rightarrow> int option" where
  "suffix_scale c =
     (if c = CHR ''t'' \<or> c = CHR ''T'' then Some (1024 * 1024 * 1024 * 1024)
      else if c = CHR ''g'' \<or> c = CHR ''G'' then Some (1024 * 1024 * 1024)
      else if c = CHR ''m'' \<or> c = CHR ''M'' then Some (1024 * 1024)
      else if c = CHR ''k'' \<or> c = CHR ''K'' then Some 1024
      else None)"

definition getsize :: "(string \<Rightarrow> int \<times> string) \<Rightarrow> string \<Rightarrow> int \<Rightarrow> int \<Rightarrow> nat \<Rightarrow> int outcome" where
  "getsize strtoll str minval maxval powerof2 =
     (let (val0, ptr) = strtoll str
      in case ptr of
           [] \<Rightarrow> Panic ''Unknown suffix''
         | c # rest \<Rightarrow>
             (case suffix_scale c of
                None \<Rightarrow> Panic ''Unknown suffix''
              | Some k \<Rightarrow>
                  (let val = val0 * k
                   in if val < - (2 ^ 63) \<or> val \<ge> 2 ^ 63 then Fault ''signed overflow''
                      else if rest \<noteq> [] then Panic ''Unknown suffix''
                      else if val < minval then Panic ''Value too small''
                      else if val > maxval then Panic ''Value too large''
                      else if powerof2 mod 2 = 1 \<and> val XOR (val - 1) \<noteq> val * 2 - 1 then Panic ''Value not power of 2''
                      else if powerof2 div 2 mod 2 = 1 \<and> val mod 8388608 \<noteq> 0 then Panic ''Value not an integral multiple''
                      else Ok val)))"

text \<open>The options of the command line, as \<open>getopt\<close> delivers them.\<close>

datatype newfs_opt = OptForce | OptLabel string | OptBoot string | OptAux string | OptVersion int | OptOther

record newfs_cfg =
  cfg_force :: bool
  cfg_labels :: "string list"
  cfg_nolabels :: bool
  cfg_boot :: u64
  cfg_aux :: u64
  cfg_version :: int

definition cfg_init :: newfs_cfg where
  "cfg_init = \<lparr>cfg_force = False, cfg_labels = [''LOCAL''], cfg_nolabels = False, cfg_boot = 0, cfg_aux = 0,
               cfg_version = -1\<rparr>"

text \<open>\<open>strcasecmp\<close> on the letters that occur: lower case of ASCII.\<close>

definition lower :: "char \<Rightarrow> char" where
  "lower c = (if 65 \<le> (of_char c :: nat) \<and> (of_char c :: nat) \<le> 90 then char_of (of_char c + 32 :: nat) else c)"

definition strcaseeq :: "string \<Rightarrow> string \<Rightarrow> bool" where
  "strcaseeq a b \<longleftrightarrow> map lower a = map lower b"

definition newfs_option :: "(string \<Rightarrow> int \<times> string) \<Rightarrow> newfs_cfg \<Rightarrow> newfs_opt \<Rightarrow> newfs_cfg outcome" where
  "newfs_option strtoll cfg opt =
     (case opt of
        OptForce \<Rightarrow> Ok (cfg\<lparr>cfg_force := True\<rparr>)
      | OptLabel l \<Rightarrow>
          if strcaseeq l ''none'' then Ok (cfg\<lparr>cfg_nolabels := True\<rparr>)
          else if length (cfg_labels cfg) \<ge> 4 then Panic ''Limit of 3 local labels''
          else if length l > 256 then Panic ''Root directory label too long''
          else Ok (cfg\<lparr>cfg_labels := cfg_labels cfg @ [l]\<rparr>)
      | OptBoot s \<Rightarrow>
          obind (getsize strtoll s 8388608 268435456 2) (\<lambda>v. Ok (cfg\<lparr>cfg_boot := word_of_int v\<rparr>))
      | OptAux s \<Rightarrow>
          obind (getsize strtoll s 8388608 1073741824 2) (\<lambda>v. Ok (cfg\<lparr>cfg_aux := word_of_int v\<rparr>))
      | OptVersion v \<Rightarrow> if v < 2 then Panic ''version'' else Ok (cfg\<lparr>cfg_version := v\<rparr>)
      | OptOther \<Rightarrow> Panic ''usage'')"

fun newfs_options :: "(string \<Rightarrow> int \<times> string) \<Rightarrow> newfs_cfg \<Rightarrow> newfs_opt list \<Rightarrow> newfs_cfg outcome" where
  "newfs_options strtoll cfg [] = Ok cfg"
| "newfs_options strtoll cfg (opt # opts) = obind (newfs_option strtoll cfg opt) (\<lambda>c. newfs_options strtoll c opts)"

definition newfs_labels :: "newfs_cfg \<Rightarrow> string list" where
  "newfs_labels cfg =
     (if cfg_nolabels cfg then take 1 (cfg_labels cfg)
      else if length (cfg_labels cfg) = 1 then cfg_labels cfg @ [''BOOT'', ''ROOT'']
      else cfg_labels cfg)"

text \<open>The size of the boot or the redo area.\<close>

function halve_while :: "u64 \<Rightarrow> u64 \<Rightarrow> u64" where
  "halve_while area limit = (if area > limit then halve_while (drop_bit 1 area) limit else area)"
  by pat_completeness auto
termination
proof (relation "measure (\<lambda>(area, _). unat area)")
  fix area limit :: u64 assume "area > limit"
  then have "0 < unat area" by (simp add: word_less_unat)
  moreover have "unat (drop_bit 1 area) = unat area div 2" by (simp add: unat_drop_bit)
  ultimately show "((drop_bit 1 area, limit), (area, limit)) \<in> measure (\<lambda>(area, _). unat area)" by simp
qed simp

declare halve_while.simps [simp del]

definition align_up :: "u64 \<Rightarrow> u64" where
  "align_up x = (x + HAMMER2_VOLUME_ALIGNMASK64) AND NOT HAMMER2_VOLUME_ALIGNMASK64"

definition area_size :: "u64 \<Rightarrow> u64 \<Rightarrow> u64 \<Rightarrow> u64 \<Rightarrow> u64" where
  "area_size area nom minb total_space =
     (let a = (if area = 0 then (let b = halve_while nom (total_space div 20) in if b < minb then minb else b)
               else if area < minb then minb else area)
      in align_up a)"

definition newfs_total :: "u64 \<Rightarrow> u64" where
  "newfs_total bufrem = bufrem AND NOT HAMMER2_VOLUME_ALIGNMASK64"

definition newfs_reserved :: "u64 \<Rightarrow> u64" where
  "newfs_reserved total_space =
     ((total_space + HAMMER2_ZONE_MASK64) div HAMMER2_ZONE_BYTES64) * HAMMER2_ZONE_SEG64"

record newfs_sizes =
  sz_total :: u64
  sz_boot :: u64
  sz_aux :: u64
  sz_reserved :: u64
  sz_free :: u64

definition newfs_size :: "newfs_cfg \<Rightarrow> u64 \<Rightarrow> newfs_sizes" where
  "newfs_size cfg bufrem =
     (let total = newfs_total bufrem;
          boot = area_size (cfg_boot cfg) HAMMER2_BOOT_NOM_BYTES HAMMER2_BOOT_MIN_BYTES total;
          aux = area_size (cfg_aux cfg) HAMMER2_REDO_NOM_BYTES HAMMER2_REDO_MIN_BYTES total;
          reserved = newfs_reserved total
      in \<lparr>sz_total = total, sz_boot = boot, sz_aux = aux, sz_reserved = reserved,
          sz_free = total - reserved - boot - aux\<rparr>)"


section \<open>The format\<close>

type_synonym device = "u64 \<Rightarrow> bytes option"

definition pwrite :: "(u64 \<Rightarrow> bool) \<Rightarrow> device \<Rightarrow> bytes \<Rightarrow> u64 \<Rightarrow> device outcome" where
  "pwrite writable dev buf off = (if writable off then Ok (dev(off \<mapsto> buf)) else Panic ''write'')"

text \<open>\<open>alloc_direct\<close>.\<close>

function direct_radix :: "nat \<Rightarrow> nat \<Rightarrow> nat \<times> nat" where
  "direct_radix nbytes radix =
     (if nbytes \<noteq> 0 \<and> nbytes mod 2 = 0 then direct_radix (nbytes div 2) (radix + 1) else (nbytes, radix))"
  by pat_completeness auto
termination by (relation "measure fst") auto

declare direct_radix.simps [simp del]

definition alloc_direct :: "u64 \<Rightarrow> nat \<Rightarrow> (u64 \<times> hammer2_blockref) outcome" where
  "alloc_direct basep nbytes =
     kkassert (nbytes \<noteq> 0) ''bytes''
       (let (b, radix0) = direct_radix nbytes 0;
            radix = (if radix0 < HAMMER2_RADIX_MIN then HAMMER2_RADIX_MIN else radix0)
        in kkassert (b = 1) ''bytes == 1''
             (Ok (basep + push_bit radix 1,
                  blockref_zero\<lparr>br_data_off := basep OR of_nat radix, br_vradix := of_nat radix\<rparr>)))"

text \<open>The directory hash of the utility; it has the loop of the kernel's.\<close>

definition newfs_dirhash :: "bytes \<Rightarrow> u64" where
  "newfs_dirhash aname =
     (let (i, j, crcx0) = dirhash_loop aname 0 0 0;
          crcx = add_field aname i j crcx0 OR 0x80000000;
          key = push_bit 32 (ucast crcx :: u64);
          crcl = iscsi_crc32 aname;
          crcl2 = crcl XOR push_bit 16 crcl
      in key OR ucast (crcl2 AND 0xFFFF0000) OR 0x8000)"

definition label_bytes :: "string \<Rightarrow> bytes" where
  "label_bytes l = map of_char l"

text \<open>
  The inode of a PFS root and its blockref.  The inode occupies a kilobyte of the zeroed
  buffer; the offsets are those of \<open>struct hammer2_inode_data\<close>.
\<close>

definition root_inode :: "u64 \<Rightarrow> bytes \<Rightarrow> bytes \<Rightarrow> string \<Rightarrow> bytes" where
  "root_inode now clid fsid label =
     stores
       [(0x00, le_split 2 (1 :: u16)),
        (0x10, le_split 8 now),
        (0x18, le_split 8 now),
        (0x28, le_split 8 now),
        (0x50, [1]),
        (0x54, le_split 4 (0x1ED :: u32)),
        (0x58, le_split 8 (1 :: u64)),
        (0x68, le_split 8 (1 :: u64)),
        (0x80, le_split 2 (of_nat (length label) :: u16)),
        (0x100, label_bytes label),
        (0x78, le_split 8 (newfs_dirhash (label_bytes label))),
        (0x83, [if strcaseeq label ''BOOT'' then 1 else 2]),
        (0x85, [2]),
        (0x90, clid),
        (0xA0, fsid),
        (0x87, [21]),
        (0x51, [2]),
        (0x88, le_split 8 (16 :: u64))]
       (replicate 1024 0)"

definition root_bref :: "hammer2_blockref \<Rightarrow> string \<Rightarrow> bytes \<Rightarrow> hammer2_blockref" where
  "root_bref bref label ip =
     bref\<lparr>br_key := newfs_dirhash (label_bytes label), br_copyid := 255, br_keybits := 0,
          br_check := (br_check bref)\<lparr>ck_icrc32 := iscsi_crc32 ip\<rparr>,
          br_type := HAMMER2_BREF_TYPE_INODE,
          br_methods := HAMMER2_ENC_CHECK HAMMER2_CHECK_ISCSI32 OR 0,
          br_mirror_tid := 16, br_flags := HAMMER2_BREF_FLAG_PFSROOT\<rparr>"

text \<open>The loop over the labels: allocation base, buffer, blockrefs so far.\<close>

fun format_labels ::
  "u64 \<Rightarrow> hammer2_blockref \<Rightarrow> (bytes \<times> bytes) list \<Rightarrow> string list \<Rightarrow> u64 \<Rightarrow> bytes
   \<Rightarrow> (u64 \<times> bytes \<times> hammer2_blockref list) outcome" where
  "format_labels now sroot (ids # uuids) (label # labels) alloc_base buf =
     obind (alloc_direct alloc_base 1024) (\<lambda>(alloc_base', bref).
       kkassert ((br_data_off sroot XOR br_data_off bref) AND NOT HAMMER2_PBUFMASK64 = 0) ''same block''
         (let ip = root_inode now (fst ids) (snd ids) label;
              buf' = store (unat (br_data_off bref AND 0xFFC0)) ip buf
          in obind (format_labels now sroot uuids labels alloc_base' buf') (\<lambda>(base, b, brefs).
               Ok (base, b, root_bref bref label ip # brefs))))"
| "format_labels now sroot uuids labels alloc_base buf = Ok (alloc_base, buf, [])"

definition sroot_inode :: "u64 \<Rightarrow> bytes \<Rightarrow> bytes \<Rightarrow> hammer2_blockref list \<Rightarrow> bytes" where
  "sroot_inode now clid fsid brefs =
     stores
       ([(0x00, le_split 2 (1 :: u16)),
         (0x10, le_split 8 now),
         (0x18, le_split 8 now),
         (0x28, le_split 8 now),
         (0x50, [1]),
         (0x54, le_split 4 (0x1C0 :: u32)),
         (0x58, le_split 8 (0 :: u64)),
         (0x68, le_split 8 (2 :: u64)),
         (0x80, le_split 2 (0 :: u16)),
         (0x78, le_split 8 (0 :: u64)),
         (0x83, [1]),
         (0x85, [2]),
         (0x90, clid),
         (0xA0, fsid),
         (0x87, [23]),
         (0x88, le_split 8 (16 :: u64))] @
        map (\<lambda>(i, b). (0x200 + 64 * i, bref_bytes b)) (enumerate 0 brefs))
       (replicate 1024 0)"

definition sroot_bref :: "hammer2_blockref \<Rightarrow> bytes \<Rightarrow> hammer2_blockref" where
  "sroot_bref bref ip =
     bref\<lparr>br_copyid := 255, br_keybits := 0, br_check := (br_check bref)\<lparr>ck_icrc32 := iscsi_crc32 ip\<rparr>,
          br_type := HAMMER2_BREF_TYPE_INODE,
          br_methods := HAMMER2_ENC_CHECK HAMMER2_CHECK_ISCSI32 OR 1, br_mirror_tid := 16\<rparr>"

definition blkrefary_cmp :: "hammer2_blockref \<Rightarrow> hammer2_blockref \<Rightarrow> int" where
  "blkrefary_cmp b1 b2 = (if br_key b1 < br_key b2 then -1 else if br_key b1 > br_key b2 then 1 else 0)"

text \<open>\<open>qsort\<close> with that comparison (of equal keys it may choose any order).\<close>

definition qsort_brefs :: "hammer2_blockref list \<Rightarrow> hammer2_blockref list" where
  "qsort_brefs brefs = sort_key br_key brefs"

text \<open>The volume header: all fields, then the three check codes in order.\<close>

record vol_ids =
  id_volfsid :: bytes
  id_fstype :: bytes
  id_supclid :: bytes
  id_supfsid :: bytes
  id_pfs :: "(bytes \<times> bytes) list"

definition volume_fields :: "newfs_cfg \<Rightarrow> newfs_sizes \<Rightarrow> vol_ids \<Rightarrow> u64 \<Rightarrow> hammer2_blockref \<Rightarrow> (nat \<times> bytes) list" where
  "volume_fields cfg sz ids alloc_base sroot =
     [(0x00, le_split 8 HAMMER2_VOLUME_ID_HBO),
      (0x08, le_split 8 HAMMER2_ZONE_SEG64),
      (0x10, le_split 8 (HAMMER2_ZONE_SEG64 + sz_boot sz)),
      (0x18, le_split 8 (HAMMER2_ZONE_SEG64 + sz_boot sz)),
      (0x20, le_split 8 (HAMMER2_ZONE_SEG64 + sz_boot sz + sz_aux sz)),
      (0x28, le_split 8 (sz_total sz)),
      (0x30, le_split 4 (word_of_int (cfg_version cfg) :: u32)),
      (0x34, le_split 4 (0 :: u32)),
      (0x40, id_volfsid ids),
      (0x50, id_fstype ids),
      (0x3A, [3]),
      (0x60, le_split 8 (sz_free sz)),
      (0x68, le_split 8 (sz_free sz)),
      (0x70, le_split 8 alloc_base),
      (0x200, bref_bytes sroot),
      (0x78, le_split 8 (16 :: u64)),
      (0x90, le_split 8 (16 :: u64))]"

definition volume_image :: "newfs_cfg \<Rightarrow> newfs_sizes \<Rightarrow> vol_ids \<Rightarrow> u64 \<Rightarrow> hammer2_blockref \<Rightarrow> bytes" where
  "volume_image cfg sz ids alloc_base sroot =
     seal_header (stores (volume_fields cfg sz ids alloc_base sroot) (replicate HAMMER2_VOLUME_BYTES 0))"

text \<open>The writes of \<open>n\<close> zero blocks, and of the header copies.\<close>

fun zero_blocks :: "(u64 \<Rightarrow> bool) \<Rightarrow> nat \<Rightarrow> device \<Rightarrow> u64 \<Rightarrow> device outcome" where
  "zero_blocks writable 0 dev base = Ok dev"
| "zero_blocks writable (Suc n) dev base =
     obind (pwrite writable dev (replicate HAMMER2_PBUFSIZE 0) base) (\<lambda>d.
       zero_blocks writable n d (base + of_nat HAMMER2_PBUFSIZE))"

fun header_copies :: "(u64 \<Rightarrow> bool) \<Rightarrow> bytes \<Rightarrow> u64 \<Rightarrow> nat list \<Rightarrow> device \<Rightarrow> device outcome" where
  "header_copies writable buf vsize [] dev = Ok dev"
| "header_copies writable buf vsize (i # rest) dev =
     (if of_nat i * HAMMER2_ZONE_BYTES64 \<ge> vsize then Ok dev
      else obind (pwrite writable dev buf (of_nat i * HAMMER2_ZONE_BYTES64)) (header_copies writable buf vsize rest))"

definition format_hammer2 ::
  "(u64 \<Rightarrow> bool) \<Rightarrow> newfs_cfg \<Rightarrow> newfs_sizes \<Rightarrow> vol_ids \<Rightarrow> u64 \<Rightarrow> device \<Rightarrow> device outcome" where
  "format_hammer2 writable cfg sz ids now dev =
     (let base0 = HAMMER2_ZONE_SEG64 + sz_boot sz + sz_aux sz;
          zbuf = replicate HAMMER2_PBUFSIZE 0
      in obind (zero_blocks writable 64 dev 0) (\<lambda>dev1.
         obind (pwrite writable dev1 zbuf (sz_total sz - of_nat HAMMER2_PBUFSIZE)) (\<lambda>dev2.
         kkassert (base0 AND HAMMER2_PBUFMASK64 = 0) ''alloc_base & PBUFMASK''
        (kkassert (base0 < HAMMER2_ZONE_BYTES64 - HAMMER2_ZONE_SEG64) ''alloc_base''
        (obind (alloc_direct (base0 AND NOT HAMMER2_PBUFMASK64) 1024) (\<lambda>(base1, sroot).
         obind (format_labels now sroot (id_pfs ids) (newfs_labels cfg) base1 zbuf) (\<lambda>(base2, buf, brefs).
           let ip = sroot_inode now (id_supclid ids) (id_supfsid ids) (qsort_brefs brefs);
               sbref = sroot_bref sroot ip;
               buf' = store (unat (br_data_off sroot AND 0xFFC0)) ip buf
           in obind (pwrite writable dev2 buf' (br_data_off sbref AND NOT HAMMER2_PBUFMASK64)) (\<lambda>dev3.
              header_copies writable (volume_image cfg sz ids base2 sbref) (sz_total sz) [0..<HAMMER2_NUM_VOLHDRS] dev3))))))))"


section \<open>Sizes: lemmas\<close>

lemma halve_while_pow2:
  assumes "n < 64"
  shows "unat (halve_while (push_bit n 1) limit) \<le> unat limit \<and>
    (unat (halve_while (push_bit n 1) limit) = 0 \<or> (\<exists>m\<le>n. unat (halve_while (push_bit n 1) limit) = 2 ^ m))"
  using assms
proof (induction n)
  case 0
  have "halve_while (0::u64) limit = 0" by (simp add: halve_while.simps)
  moreover have "halve_while (push_bit 0 1) limit = (if 1 > limit then halve_while (drop_bit 1 1) limit else 1)"
    by (subst halve_while.simps) simp
  moreover have "unat limit \<noteq> 0" if "limit \<noteq> 0" using that unat_eqI[of limit 0] by auto
  ultimately show ?case by auto
next
  case (Suc n)
  let ?a = "push_bit (Suc n) 1 :: u64"
  have u: "unat ?a = 2 ^ Suc n" by (intro unat_push1) (use Suc.prems in simp)
  have v: "unat (push_bit n 1 :: u64) = 2 ^ n" by (intro unat_push1) (use Suc.prems in simp)
  have half: "drop_bit 1 ?a = push_bit n 1"
    by (rule unat_eqI) (simp only: unat_drop_bit u v, simp)
  show ?case
  proof (cases "?a > limit")
    case True
    then have "halve_while ?a limit = halve_while (push_bit n 1) limit"
      by (subst halve_while.simps) (simp only: half if_True)
    then show ?thesis using Suc.IH Suc.prems by (metis Suc_lessD le_Suc_eq)
  next
    case False
    then have e: "halve_while ?a limit = ?a" by (subst halve_while.simps) (simp only: if_False)
    show ?thesis unfolding e u using False u by (auto simp: word_less_unat not_less)
  qed
qed

lemma alignmask: "(8388607 :: u64) = mask 23"
  by (simp add: mask_numeral)

lemma unat_align_down: "unat (x AND NOT HAMMER2_VOLUME_ALIGNMASK64) = unat x - unat x mod 8388608"
  unfolding alignmask unat_and_not_mask by simp

lemma align_up_id:
  assumes "8388608 dvd unat x" "unat x \<le> 2 ^ 63"
  shows "align_up x = x"
proof (rule unat_eqI)
  have s: "unat (x + HAMMER2_VOLUME_ALIGNMASK64) = unat x + 8388607"
    using assms(2) by (subst unat_plus_noverflow) auto
  obtain q where q: "unat x = 8388608 * q" using assms(1) by (auto elim: dvdE)
  show "unat (align_up x) = unat x"
    unfolding align_up_def unat_align_down s q by simp
qed

text \<open>A configured area is absent or valid.\<close>

definition area_ok :: "u64 \<Rightarrow> nat \<Rightarrow> bool" where
  "area_ok a maxb \<longleftrightarrow> a = 0 \<or> 8388608 \<le> unat a \<and> unat a \<le> maxb \<and> 8388608 dvd unat a"

definition cfg_ok :: "newfs_cfg \<Rightarrow> bool" where
  "cfg_ok cfg \<longleftrightarrow> area_ok (cfg_boot cfg) 268435456 \<and> area_ok (cfg_aux cfg) 1073741824 \<and>
     1 \<le> length (cfg_labels cfg) \<and> length (cfg_labels cfg) \<le> 4 \<and> (\<forall>l\<in>set (cfg_labels cfg). length l \<le> 256) \<and>
     hd (cfg_labels cfg) = ''LOCAL'' \<and> (cfg_version cfg = -1 \<or> 2 \<le> cfg_version cfg)"

lemma area_size_bounds:
  assumes "area_ok area maxb" "maxb \<le> 2 ^ 30" "unat nom = 2 ^ n" "nom = push_bit n 1" "23 \<le> n" "n \<le> 28" "2 ^ n \<le> maxb"
  shows "8388608 dvd unat (area_size area nom 8388608 total_space) \<and>
    8388608 \<le> unat (area_size area nom 8388608 total_space) \<and> unat (area_size area nom 8388608 total_space) \<le> maxb \<and>
    (area = 0 \<longrightarrow> unat (area_size area nom 8388608 total_space) = 8388608 \<or>
       unat (area_size area nom 8388608 total_space) \<le> unat total_space div 20)"
proof (cases "area = 0")
  case True
  let ?b = "halve_while nom (total_space div 20)"
  have h: "unat ?b \<le> unat (total_space div 20)" "unat ?b = 0 \<or> (\<exists>m\<le>n. unat ?b = 2 ^ m)"
    using halve_while_pow2[of n "total_space div 20"] assms(4,6) by simp_all
  have lim: "unat (total_space div 20) = unat total_space div 20" by (simp add: unat_div)
  have min: "unat (8388608 :: u64) = 8388608" by simp
  show ?thesis
  proof (cases "?b < 8388608")
    case small: True
    have "align_up 8388608 = 8388608" by (rule align_up_id) simp_all
    then have "area_size area nom 8388608 total_space = 8388608"
      using True small by (simp add: area_size_def Let_def)
    moreover have "(8388608::nat) \<le> maxb" using power_increasing[OF assms(5), of "2::nat"] assms(7) by simp
    ultimately show ?thesis using True by simp
  next
    case big: False
    then have ge: "8388608 \<le> unat ?b" by (simp add: word_less_unat)
    then obtain m where m: "m \<le> n" "unat ?b = 2 ^ m" using h(2) by auto
    have "(2::nat) ^ 23 \<le> 2 ^ m" using ge m(2) by simp
    then have m23: "23 \<le> m" by (rule power_le_imp_le_exp[rotated]) simp
    have d: "8388608 dvd unat ?b" unfolding m(2) using le_imp_power_dvd[OF m23, of "2::nat"] by simp
    have le: "unat ?b \<le> maxb" using m power_increasing[OF m(1), of "2::nat"] assms(7) by linarith
    have "align_up ?b = ?b" using d le assms(2) by (intro align_up_id) auto
    then have e: "area_size area nom 8388608 total_space = ?b" using True big by (simp add: area_size_def Let_def)
    show ?thesis unfolding e using d ge le h(1) lim by simp
  qed
next
  case False
  then have a: "8388608 \<le> unat area" "unat area \<le> maxb" "8388608 dvd unat area" using assms(1) by (auto simp: area_ok_def)
  have "align_up area = area" using a assms(2) by (intro align_up_id) auto
  moreover have "\<not> area < 8388608" using a(1) by (simp add: word_less_unat)
  ultimately have "area_size area nom 8388608 total_space = area" using False by (simp add: area_size_def Let_def)
  then show ?thesis using a False by simp
qed

lemma boot_bounds:
  assumes "cfg_ok cfg"
  shows "8388608 dvd unat (sz_boot (newfs_size cfg x)) \<and> 8388608 \<le> unat (sz_boot (newfs_size cfg x)) \<and>
    unat (sz_boot (newfs_size cfg x)) \<le> 268435456 \<and>
    (cfg_boot cfg = 0 \<longrightarrow> unat (sz_boot (newfs_size cfg x)) = 8388608 \<or> unat (sz_boot (newfs_size cfg x)) \<le> unat (newfs_total x) div 20)"
proof -
  have e: "sz_boot (newfs_size cfg x) = area_size (cfg_boot cfg) HAMMER2_BOOT_NOM_BYTES 8388608 (newfs_total x)"
    by (simp add: newfs_size_def Let_def)
  show ?thesis unfolding e
    by (rule area_size_bounds[where n = 26]) (use assms in \<open>simp_all add: cfg_ok_def\<close>)
qed

lemma aux_bounds:
  assumes "cfg_ok cfg"
  shows "8388608 dvd unat (sz_aux (newfs_size cfg x)) \<and> 8388608 \<le> unat (sz_aux (newfs_size cfg x)) \<and>
    unat (sz_aux (newfs_size cfg x)) \<le> 1073741824 \<and>
    (cfg_aux cfg = 0 \<longrightarrow> unat (sz_aux (newfs_size cfg x)) = 8388608 \<or> unat (sz_aux (newfs_size cfg x)) \<le> unat (newfs_total x) div 20)"
proof -
  have e: "sz_aux (newfs_size cfg x) = area_size (cfg_aux cfg) HAMMER2_REDO_NOM_BYTES 8388608 (newfs_total x)"
    by (simp add: newfs_size_def Let_def)
  show ?thesis unfolding e
    by (rule area_size_bounds[where n = 28]) (use assms in \<open>simp_all add: cfg_ok_def\<close>)
qed

lemma total_bounds:
  assumes "unat x < 2 ^ 63"
  shows "8388608 dvd unat (newfs_total x)" "unat (newfs_total x) \<le> unat x"
    "unat (newfs_reserved (newfs_total x)) = (unat (newfs_total x) + 2147483647) div 2147483648 * 4194304"
proof -
  have t: "unat (newfs_total x) = unat x - unat x mod 8388608" unfolding newfs_total_def by (rule unat_align_down)
  show "8388608 dvd unat (newfs_total x)" unfolding t by (rule dvd_minus_mod)
  show le: "unat (newfs_total x) \<le> unat x" unfolding t by simp
  have s: "unat (newfs_total x + HAMMER2_ZONE_MASK64) = unat (newfs_total x) + 2147483647"
    using le assms by (subst unat_plus_noverflow) auto
  have d: "unat ((newfs_total x + HAMMER2_ZONE_MASK64) div HAMMER2_ZONE_BYTES64) = (unat (newfs_total x) + 2147483647) div 2147483648"
    by (simp add: unat_div s)
  have "(unat (newfs_total x) + 2147483647) div 2147483648 * 4194304 < 2 ^ 64"
  proof -
    have "(unat (newfs_total x) + 2147483647) div 2147483648 \<le> (2 ^ 63 + 2147483647) div 2147483648"
      using le assms by (intro div_le_mono) simp
    then show ?thesis by simp
  qed
  then show "unat (newfs_reserved (newfs_total x)) = (unat (newfs_total x) + 2147483647) div 2147483648 * 4194304"
    unfolding newfs_reserved_def by (simp add: unat_word_ariths(2) d)
qed


section \<open>Sizes: properties\<close>

lemma getsize_Ok:
  assumes "getsize strtoll str lo hi 2 = Ok v"
  shows "lo \<le> v \<and> v \<le> hi \<and> v mod 8388608 = 0"
  using assms by (auto simp: getsize_def Let_def split: prod.splits list.splits option.splits if_splits)

lemma area_ok_getsize:
  assumes "getsize strtoll str 8388608 hi 2 = Ok v" "hi \<le> 2 ^ 30"
  shows "area_ok (word_of_int v) (nat hi)"
proof -
  note v = getsize_Ok[OF assms(1)]
  have u: "unat (word_of_int v :: u64) = nat v"
    using v assms(2) by (subst unsigned_of_int) (auto simp: take_bit_int_eq_self)
  have "8388608 dvd nat v"
  proof -
    have "8388608 dvd v" using v by (simp add: mod_0_imp_dvd)
    then show ?thesis using v by (metis int_dvd_int_iff int_nat_eq of_nat_numeral order_trans zero_le_numeral)
  qed
  then show ?thesis using v u by (auto simp: area_ok_def)
qed

lemma newfs_option_ok:
  assumes "cfg_ok cfg" "newfs_option strtoll cfg opt = Ok cfg'"
  shows "cfg_ok cfg'"
proof (cases opt)
  case (OptBoot s)
  then obtain v where v: "getsize strtoll s 8388608 268435456 2 = Ok v" "cfg' = cfg\<lparr>cfg_boot := word_of_int v\<rparr>"
    using assms(2) by (auto simp: newfs_option_def obind_eq_Ok)
  have "area_ok (word_of_int v) 268435456" using area_ok_getsize[OF v(1)] by simp
  then show ?thesis using assms(1) v(2) by (simp add: cfg_ok_def)
next
  case (OptAux s)
  then obtain v where v: "getsize strtoll s 8388608 1073741824 2 = Ok v" "cfg' = cfg\<lparr>cfg_aux := word_of_int v\<rparr>"
    using assms(2) by (auto simp: newfs_option_def obind_eq_Ok)
  have "area_ok (word_of_int v) 1073741824" using area_ok_getsize[OF v(1)] by simp
  then show ?thesis using assms(1) v(2) by (simp add: cfg_ok_def)
qed (use assms in \<open>auto simp: newfs_option_def cfg_ok_def hd_append Suc_le_eq split: if_splits\<close>)

lemma newfs_options_ok: "newfs_options strtoll cfg opts = Ok cfg' \<Longrightarrow> cfg_ok cfg \<Longrightarrow> cfg_ok cfg'"
proof (induction strtoll cfg opts rule: newfs_options.induct)
  case (2 strtoll cfg opt opts)
  then show ?case using newfs_option_ok by (auto simp: obind_eq_Ok)
qed simp

lemma cfg_init_ok: "cfg_ok cfg_init"
  by (simp add: cfg_ok_def cfg_init_def area_ok_def)

lemma free_sum:
  fixes t r b a :: u64
  assumes "unat r + unat b + unat a < 2 ^ 64"
  shows "unat (t - r - b - a) = (if unat r + unat b + unat a \<le> unat t then unat t - (unat r + unat b + unat a)
           else unat t + 2 ^ 64 - (unat r + unat b + unat a))"
proof -
  have e: "t - r - b - a = t - (r + b + a)" by (simp add: algebra_simps)
  have rb: "unat (r + b) = unat r + unat b" using assms by (intro unat_plus_noverflow) simp
  have s: "unat (r + b + a) = unat r + unat b + unat a"
    using assms rb by (subst unat_plus_noverflow) simp_all
  show ?thesis unfolding e unat_sub_if' s by (simp add: word_size)
qed

lemma default_fits:
  fixes T q B A :: nat
  assumes "q * 2147483648 \<le> T + 2147483647" "B = 8388608 \<or> B \<le> T div 20" "A = 8388608 \<or> A \<le> T div 20"
    "25165824 \<le> T"
  shows "q * 4194304 + B + A \<le> T"
  using assms(2,3)
proof (elim disjE)
  assume "B = 8388608" "A = 8388608" then show ?thesis using assms(1,4) by linarith
next
  assume "B = 8388608" "A \<le> T div 20" then show ?thesis using assms(1,4) by linarith
next
  assume "B \<le> T div 20" "A = 8388608" then show ?thesis using assms(1,4) by linarith
next
  assume "B \<le> T div 20" "A \<le> T div 20" then show ?thesis using assms(1,4) by linarith
qed

lemma default_overflows:
  fixes T q B A :: nat
  assumes "B \<ge> 8388608" "A \<ge> 8388608" "T < 25165824" "8388608 dvd T" "T \<noteq> 0 \<Longrightarrow> 1 \<le> q"
  shows "T < q * 4194304 + B + A"
proof -
  obtain k where k: "T = 8388608 * k" using assms(4) by (auto elim: dvdE)
  then have "k < 3" using assms(3) by simp
  then have "k = 0 \<or> k = 1 \<or> k = 2" by auto
  then show ?thesis using assms k by auto
qed

lemma newfs_free:
  assumes cfg: "cfg_ok cfg" and x: "unat x < 2 ^ 63" and def: "cfg_boot cfg = 0" "cfg_aux cfg = 0"
    and sz: "sz = newfs_size cfg x"
  shows "if 25165824 \<le> unat (sz_total sz)
        then unat (sz_free sz) + unat (sz_reserved sz) + unat (sz_boot sz) + unat (sz_aux sz) = unat (sz_total sz)
        else unat (sz_free sz) > unat (sz_total sz)"
proof -
  let ?T = "unat (newfs_total x)"
  let ?q = "(?T + 2147483647) div 2147483648"
  have f: "sz_total sz = newfs_total x" "sz_reserved sz = newfs_reserved (newfs_total x)"
    "sz_free sz = sz_total sz - sz_reserved sz - sz_boot sz - sz_aux sz"
    by (simp_all add: sz newfs_size_def Let_def)
  note t = total_bounds[OF x]
  note b = boot_bounds[OF cfg, of x, folded sz] and a = aux_bounds[OF cfg, of x, folded sz]
  have R: "unat (sz_reserved sz) = ?q * 4194304" using t(3) f(2) by simp
  have q: "?q * 2147483648 \<le> ?T + 2147483647" by simp
  have lt: "unat (sz_reserved sz) + unat (sz_boot sz) + unat (sz_aux sz) < 2 ^ 64"
  proof -
    have "?q * 2147483648 \<le> 2 ^ 63 + 2147483647" using q t(2) x by linarith
    then show ?thesis using a b unfolding R by simp
  qed
  note sum = free_sum[OF lt, of "sz_total sz", folded f(3)]
  show ?thesis
  proof (cases "25165824 \<le> ?T")
    case True
    have "?q * 4194304 + unat (sz_boot sz) + unat (sz_aux sz) \<le> ?T"
      by (rule default_fits[OF q _ _ True]) (use a b def in auto)
    then show ?thesis using True sum f(1) R by simp
  next
    case False
    have "1 \<le> ?q" if "?T \<noteq> 0" using that by simp
    then have "?T < ?q * 4194304 + unat (sz_boot sz) + unat (sz_aux sz)"
      by (intro default_overflows) (use a b False t(1) in auto)
    then show ?thesis using False sum f(1) R lt by simp
  qed
qed

lemma newfs_alloc_base:
  assumes "cfg_ok cfg" "sz = newfs_size cfg x"
  shows "unat (HAMMER2_ZONE_SEG64 + sz_boot sz + sz_aux sz) = 4194304 + unat (sz_boot sz) + unat (sz_aux sz)"
    "65536 dvd unat (HAMMER2_ZONE_SEG64 + sz_boot sz + sz_aux sz)"
    "unat (HAMMER2_ZONE_SEG64 + sz_boot sz + sz_aux sz) \<le> 1346371584"
proof -
  note b = boot_bounds[OF assms(1), of x, folded assms(2)] and a = aux_bounds[OF assms(1), of x, folded assms(2)]
  have 1: "unat (HAMMER2_ZONE_SEG64 + sz_boot sz) = 4194304 + unat (sz_boot sz)"
    using b by (subst unat_plus_noverflow) auto
  then show 2: "unat (HAMMER2_ZONE_SEG64 + sz_boot sz + sz_aux sz) = 4194304 + unat (sz_boot sz) + unat (sz_aux sz)"
    using a b by (subst unat_plus_noverflow) auto
  have "65536 dvd (8388608::nat)" by simp
  then have "65536 dvd unat (sz_boot sz)" "65536 dvd unat (sz_aux sz)" using a b dvd_trans by blast+
  then show "65536 dvd unat (HAMMER2_ZONE_SEG64 + sz_boot sz + sz_aux sz)" unfolding 2 by (intro dvd_add) simp_all
  show "unat (HAMMER2_ZONE_SEG64 + sz_boot sz + sz_aux sz) \<le> 1346371584" unfolding 2 using a b by linarith
qed

lemma pbufmask: "(65535 :: u64) = mask 16"
  by (simp add: mask_numeral)

lemma newfs_base_asserts:
  assumes "cfg_ok cfg" "sz = newfs_size cfg x"
  shows "(HAMMER2_ZONE_SEG64 + sz_boot sz + sz_aux sz) AND HAMMER2_PBUFMASK64 = 0"
    "HAMMER2_ZONE_SEG64 + sz_boot sz + sz_aux sz < HAMMER2_ZONE_BYTES64 - HAMMER2_ZONE_SEG64"
proof -
  note n = newfs_alloc_base[OF assms]
  have "unat ((HAMMER2_ZONE_SEG64 + sz_boot sz + sz_aux sz) AND mask 16) = 0"
    unfolding unat_and_mask using n(2) by (simp add: dvd_eq_mod_eq_0)
  then show "(HAMMER2_ZONE_SEG64 + sz_boot sz + sz_aux sz) AND HAMMER2_PBUFMASK64 = 0"
    unfolding pbufmask by (intro unat_eqI) simp
  have "unat (HAMMER2_ZONE_BYTES64 - HAMMER2_ZONE_SEG64) = 2143289344" by simp
  then show "HAMMER2_ZONE_SEG64 + sz_boot sz + sz_aux sz < HAMMER2_ZONE_BYTES64 - HAMMER2_ZONE_SEG64"
    unfolding word_less_unat using n(3) by simp
qed



abbreviation (input) HAMMER2_VOL_VERSION_MIN :: int where "HAMMER2_VOL_VERSION_MIN \<equiv> 1"
abbreviation (input) HAMMER2_VOL_VERSION_DEFAULT :: int where "HAMMER2_VOL_VERSION_DEFAULT \<equiv> 1"
abbreviation (input) HAMMER2_VOL_VERSION_WIP :: int where "HAMMER2_VOL_VERSION_WIP \<equiv> 2"

lemma newfs_option_version:
  "newfs_option strtoll cfg opt = Ok cfg' \<Longrightarrow> \<forall>v. opt \<noteq> OptVersion v \<Longrightarrow> cfg_version cfg' = cfg_version cfg"
  by (cases opt) (auto simp: newfs_option_def obind_eq_Ok split: if_splits)

lemma newfs_options_version:
  "newfs_options strtoll cfg opts = Ok cfg' \<Longrightarrow> \<forall>v. OptVersion v \<notin> set opts \<Longrightarrow> cfg_version cfg' = cfg_version cfg"
proof (induction opts arbitrary: cfg)
  case (Cons opt opts)
  then obtain c where c: "newfs_option strtoll cfg opt = Ok c" "newfs_options strtoll c opts = Ok cfg'" by (auto simp: obind_eq_Ok)
  then show ?case using Cons newfs_option_version[OF c(1)] by auto
qed simp

lemma newfs_options_given:
  "newfs_options strtoll cfg opts = Ok cfg' \<Longrightarrow> \<exists>v. OptVersion v \<in> set opts \<Longrightarrow> 2 \<le> cfg_version cfg'"
proof (induction opts arbitrary: cfg)
  case (Cons opt opts)
  then obtain c where c: "newfs_option strtoll cfg opt = Ok c" "newfs_options strtoll c opts = Ok cfg'" by (auto simp: obind_eq_Ok)
  show ?case
  proof (cases "\<exists>w. OptVersion w \<in> set opts")
    case True
    then show ?thesis by (rule Cons.IH[OF c(2)])
  next
    case False
    then obtain v where "opt = OptVersion v" using Cons.prems(2) by auto
    then have "2 \<le> cfg_version c" using c(1) by (auto simp: newfs_option_def split: if_splits)
    then show ?thesis using newfs_options_version[OF c(2)] False by auto
  qed
qed simp

text \<open>
  C39: what the option loop accepts.  Every command line it accepts leaves each area size absent or a multiple of 8 MB
  between 8 MB and its maximum, and between one and four labels, \<open>LOCAL\<close> first.  The version is never one of
  the production versions, which are those from \<open>HAMMER2_VOL_VERSION_MIN\<close> up to but without \<open>HAMMER2_VOL_VERSION_WIP\<close>: it stays -1
  when the option is not given (the lookup of the default is commented out) and is a
  version still in progress, or an unknown higher one, when it is given.  A further label is refused for its length exactly when it has
  more than 256 characters, the size of the name in an inode, where the message says 64.
\<close>

theorem newfs_config_typed:
  assumes "newfs_options strtoll cfg_init opts = Ok cfg"
  shows "(cfg_boot cfg = 0 \<or> 8388608 \<le> unat (cfg_boot cfg) \<and> unat (cfg_boot cfg) \<le> 268435456 \<and> 8388608 dvd unat (cfg_boot cfg)) \<and>
    (cfg_aux cfg = 0 \<or> 8388608 \<le> unat (cfg_aux cfg) \<and> unat (cfg_aux cfg) \<le> 1073741824 \<and> 8388608 dvd unat (cfg_aux cfg)) \<and>
    1 \<le> length (newfs_labels cfg) \<and> length (newfs_labels cfg) \<le> 4 \<and> hd (newfs_labels cfg) = ''LOCAL'' \<and>
    \<not> (HAMMER2_VOL_VERSION_MIN \<le> cfg_version cfg \<and> cfg_version cfg < HAMMER2_VOL_VERSION_WIP) \<and>
    (if \<exists>v. OptVersion v \<in> set opts then HAMMER2_VOL_VERSION_WIP \<le> cfg_version cfg else cfg_version cfg = -1) \<and>
    (newfs_option strtoll cfg (OptLabel l) = Panic ''Root directory label too long'' \<longleftrightarrow>
       \<not> strcaseeq l ''none'' \<and> length (cfg_labels cfg) < 4 \<and> 256 < length l)"
proof -
  have ok: "cfg_ok cfg" using newfs_options_ok[OF assms cfg_init_ok] .
  then obtain x ls where "cfg_labels cfg = x # ls" by (cases "cfg_labels cfg") (auto simp: cfg_ok_def)
  moreover have "cfg_version cfg = -1" if "\<not> (\<exists>v. OptVersion v \<in> set opts)"
    using newfs_options_version[OF assms] that by (simp add: cfg_init_def)
  moreover have "2 \<le> cfg_version cfg" if "OptVersion v \<in> set opts" for v
    using newfs_options_given[OF assms] that by blast
  ultimately show ?thesis using ok by (auto simp: cfg_ok_def area_ok_def newfs_labels_def newfs_option_def)
qed

theorem newfs_config_typed_witness:
  "newfs_options (\<lambda>_. (0, [])) cfg_init [OptLabel ''DATA'', OptVersion 2] =
     Ok (cfg_init\<lparr>cfg_labels := [''LOCAL'', ''DATA''], cfg_version := 2\<rparr>) \<and>
   length (newfs_labels (cfg_init\<lparr>cfg_labels := [''LOCAL'', ''DATA''], cfg_version := 2\<rparr>)) \<le> 4 \<and>
   HAMMER2_VOL_VERSION_WIP \<le> cfg_version (cfg_init\<lparr>cfg_labels := [''LOCAL'', ''DATA''], cfg_version := 2\<rparr>)"
proof -
  have o: "newfs_options (\<lambda>_. (0, [])) cfg_init [OptLabel ''DATA'', OptVersion 2] =
     Ok (cfg_init\<lparr>cfg_labels := [''LOCAL'', ''DATA''], cfg_version := 2\<rparr>)"
    by (simp add: newfs_option_def strcaseeq_def lower_def cfg_init_def)
  with newfs_config_typed[OF o] show ?thesis by auto
qed

end
