(* ===== verification/H2_Format.thy ===== *)
theory H2_Format
  imports H2_Newfs "HOL-Library.Multiset"
begin

unbundle bit_operations_syntax

text \<open>
  What \<open>format_hammer2\<close> leaves on the device, and that the mount code accepts it: the volume
  header passes the tests of \<open>hammer2_install_volume_header\<close> and reads back as written; the
  super-root and the PFS root inodes pass the check code test of the chain code; the
  super-root's block table is in the order the block table code requires and its keys are
  the kernel's directory hashes of the labels.
\<close>

section \<open>The volume header\<close>

definition ids_ok :: "vol_ids \<Rightarrow> nat \<Rightarrow> bool" where
  "ids_ok ids n \<longleftrightarrow> length (id_volfsid ids) = 16 \<and> length (id_fstype ids) = 16 \<and> length (id_supclid ids) = 16 \<and>
     length (id_supfsid ids) = 16 \<and> length (id_pfs ids) = n \<and>
     (\<forall>(c, f)\<in>set (id_pfs ids). length c = 16 \<and> length f = 16)"

lemma volume_fields_fit:
  "length (id_volfsid ids) = 16 \<Longrightarrow> length (id_fstype ids) = 16 \<Longrightarrow>
   \<forall>(o', b)\<in>set (volume_fields cfg sz ids base sroot). o' + length b \<le> 65536 \<and> (o' + length b \<le> 504 \<or> 512 \<le> o' \<and> o' + length b \<le> 65532)"
  by (simp add: volume_fields_def)

lemma zero_bref_bytes: "bref_bytes blockref_zero = replicate 64 0"
  by code_simp

lemma volume_image_reads:
  assumes "length (id_volfsid ids) = 16" "length (id_fstype ids) = 16"
    and vd: "vd = volume_image cfg sz ids base sroot"
  shows "volhdr_valid vd" "length vd = 65536" "vd_volu_size vd = sz_total sz" "vd_allocator_size vd = sz_free sz"
    "vd_allocator_free vd = sz_free sz" "vd_allocator_beg vd = base" "vd_mirror_tid vd = 16"
    "vd_sroot_bref vd = bref_bytes sroot"
    "iscsi_crc32 (fetch 0 65532 vd) = get32 0xFFFC vd"
    "\<forall>i\<in>{1..<8}. fetch (0x200 + 64 * i) 64 vd = bref_bytes blockref_zero"
proof -
  let ?ws = "volume_fields cfg sz ids base sroot"
  define z :: bytes where "z = replicate HAMMER2_VOLUME_BYTES 0"
  define v0 where "v0 = stores ?ws z"
  have z: "length z = 65536" unfolding z_def by (rule length_replicate)
  have fit: "\<forall>(o', b)\<in>set ?ws. o' + length b \<le> length z"
    unfolding z using volume_fields_fit[OF assms(1,2)] by fastforce
  have l0: "length v0 = 65536" unfolding v0_def using length_stores[OF fit] z by simp
  have "vd = seal_header v0" unfolding vd volume_image_def v0_def z_def ..
  note codes = seal_header_codes[OF l0 this]
  have field: "fetch off n vd = bs" if "k < 17" "?ws ! k = (off, bs)" "n = length bs"
    "\<forall>(o', b)\<in>set (drop (Suc k) ?ws). off + length bs \<le> o' \<or> o' + length b \<le> off"
    for k off n bs
  proof -
    have k: "k < length ?ws" using that(1) by (simp add: volume_fields_def)
    then have "(off, bs) \<in> set ?ws" using that(2) by (metis nth_mem)
    then have "off + n \<le> 504 \<or> 512 \<le> off \<and> off + n \<le> 65532"
      using volume_fields_fit[OF assms(1,2), of cfg sz base sroot] that(3) by fastforce
    then have "fetch off n vd = fetch off n v0" by (rule codes(5))
    also have "\<dots> = bs" unfolding v0_def by (rule stores_field[OF k that(2,3) fit that(4)])
    finally show ?thesis .
  qed
  show "length vd = 65536" by (rule codes(1))
  show "iscsi_crc32 (fetch 0 65532 vd) = get32 0xFFFC vd" by (rule codes(4))
  have "fetch 0 8 vd = le_split 8 HAMMER2_VOLUME_ID_HBO"
    by (rule field[of 0]) (simp_all add: volume_fields_def assms)
  then have m: "vd_magic vd = HAMMER2_VOLUME_ID_HBO" by (simp only: vd_magic_def get64_def) (simp add: le_join_split)
  then show "volhdr_valid vd"
    unfolding volhdr_valid_def using codes(2,3) by (simp add: vd_icrc_sect0_def vd_icrc_sect1_def)
  have "fetch 0x28 8 vd = le_split 8 (sz_total sz)" by (rule field[of 5]) (simp_all add: volume_fields_def assms)
  then show "vd_volu_size vd = sz_total sz" by (simp add: vd_volu_size_def get64_def le_join_split)
  have "fetch 0x60 8 vd = le_split 8 (sz_free sz)" by (rule field[of 11]) (simp_all add: volume_fields_def assms)
  then show "vd_allocator_size vd = sz_free sz" by (simp add: vd_allocator_size_def get64_def le_join_split)
  have "fetch 0x68 8 vd = le_split 8 (sz_free sz)" by (rule field[of 12]) (simp_all add: volume_fields_def assms)
  then show "vd_allocator_free vd = sz_free sz" by (simp add: vd_allocator_free_def get64_def le_join_split)
  have "fetch 0x70 8 vd = le_split 8 base" by (rule field[of 13]) (simp_all add: volume_fields_def assms)
  then show "vd_allocator_beg vd = base" by (simp add: vd_allocator_beg_def get64_def le_join_split)
  have "fetch 0x78 8 vd = le_split 8 (16::u64)" by (rule field[of 15]) (simp_all add: volume_fields_def assms)
  then show "vd_mirror_tid vd = 16" by (simp add: vd_mirror_tid_def get64_def le_join_split)
  have "fetch 0x200 64 vd = bref_bytes sroot" by (rule field[of 14]) (simp_all add: volume_fields_def assms)
  then show "vd_sroot_bref vd = bref_bytes sroot" by (simp add: vd_sroot_bref_def)
  have "fetch (0x200 + 64 * i) 64 vd = bref_bytes blockref_zero" if i: "1 \<le> i" "i < 8" for i :: nat
  proof -
    have "fetch (0x200 + 64 * i) 64 vd = fetch (0x200 + 64 * i) 64 v0" by (rule codes(5)) (use i in auto)
    also have "\<dots> = fetch (0x200 + 64 * i) 64 z"
      unfolding v0_def by (rule fetch_stores_other) (use i in \<open>simp add: volume_fields_def assms z\<close>)
    also have "\<dots> = replicate 64 0" unfolding z_def fetch_def drop_replicate take_replicate using i by simp
    finally show ?thesis unfolding zero_bref_bytes .
  qed
  then show "\<forall>i\<in>{1..<8}. fetch (0x200 + 64 * i) 64 vd = bref_bytes blockref_zero" by simp
qed

text \<open>The search for the super-root in the block set of the volume header.\<close>

abbreviation (input) HAMMER2_SROOT_KEY :: u64 where "HAMMER2_SROOT_KEY \<equiv> 0"

lemma find_sroot:
  assumes "core_flags vchain AND HAMMER2_CORE_COUNTEDBREFS \<noteq> 0" "core_live_zero vchain = 1"
    and "br_type b \<noteq> 0" "br_key b = HAMMER2_SROOT_KEY"
  shows "\<exists>c k. hammer2_base_find vchain (Some (b # replicate 7 blockref_zero)) 8 cache key_next HAMMER2_SROOT_KEY HAMMER2_SROOT_KEY = Ok (0, c, k)"
proof -
  have "base_find_fwd (b # replicate 7 blockref_zero) 8 1 0 0 = Some 0" using assms(3,4) by (subst base_find_fwd.simps) simp
  then show ?thesis using assms(1,2) by (auto simp: hammer2_base_find_def kkassert_def Let_def)
qed

section \<open>Direct allocation\<close>

lemma direct_radix_1024: "direct_radix 1024 0 = (1, 10)"
  by (simp add: direct_radix.simps)

lemma alloc_direct_inode:
  "alloc_direct base 1024 =
     Ok (base + 1024, blockref_zero\<lparr>br_data_off := base OR 10, br_vradix := 10\<rparr>)"
  by (simp add: alloc_direct_def direct_radix_1024)

text \<open>A 1 KB unit at place \<open>k\<close> of a 64 KB block.\<close>

lemma inode_place:
  fixes base :: u64
  assumes "unat base = 65536 * q + 1024 * k" "k < 64"
  shows "(base OR 10) AND NOT HAMMER2_PBUFMASK64 = of_nat (65536 * q)"
    "unat ((base OR 10) AND 0xFFC0) = 1024 * k"
proof -
  have d: "1024 dvd unat base" unfolding assms(1) by (intro dvd_add) auto
  note dec = data_off_decode[OF d, of 10]
  have hi: "(10 :: u64) AND NOT 65535 = 0" "(10 :: u64) AND 0xFFC0 = 0" by simp_all
  have lt: "65536 * q < 2 ^ 64" using assms(1) u64_bound[of base] by simp
  have "unat (base AND NOT (mask 16)) = 65536 * q"
    unfolding unat_and_not_mask using assms by simp
  then have "base AND NOT (mask 16) = of_nat (65536 * q)"
    by (intro unat_eqI, subst unat_of_nat_small) (use lt in simp_all)
  moreover have "(base OR 10) AND NOT HAMMER2_PBUFMASK64 = base AND NOT HAMMER2_PBUFMASK64"
    by (simp only: bit.conj_disj_distrib2 hi(1) or.right_neutral)
  ultimately show "(base OR 10) AND NOT HAMMER2_PBUFMASK64 = of_nat (65536 * q)"
    by (simp only: pbufmask)
  have e: "(0xFFC0 :: u64) = NOT 63 AND mask 16" by (simp add: mask_numeral)
  have "(base OR 10) AND 0xFFC0 = base AND mask 16"
    unfolding e using dec(1) by (simp only: and.assoc[symmetric]) simp
  then show "unat ((base OR 10) AND 0xFFC0) = 1024 * k"
    using assms by (simp only: unat_and_mask) simp
qed


section \<open>The inodes\<close>

lemma length_label_bytes [simp]: "length (label_bytes l) = length l"
  by (simp add: label_bytes_def)

lemma newfs_dirhash_eq: "newfs_dirhash aname = hammer2_dirhash aname"
  by (simp add: newfs_dirhash_def hammer2_dirhash_def Let_def or.assoc split: prod.splits)

definition inode_fields :: "u64 \<Rightarrow> bytes \<Rightarrow> bytes \<Rightarrow> string \<Rightarrow> (nat \<times> bytes) list" where
  "inode_fields now clid fsid label =
       [(0x00, le_split 2 (1 :: u16)),
        (0x10, le_split 8 now),
        (0x18, le_split 8 now),
        (0x28, le_split 8 now),
        (0x50, [1]),
        (0x54, le_split 4 (0x1ED :: u32)),
        (0x58, le_split 8 (1 :: u64)),
        (0x68, le_split 8 (1 :: u64)),
        (0x80, le_split 2 (of_nat (length label) :: u16)),
        (0x100, label_bytes label),
        (0x78, le_split 8 (newfs_dirhash (label_bytes label))),
        (0x83, [if strcaseeq label ''BOOT'' then 1 else 2]),
        (0x85, [2]),
        (0x90, clid),
        (0xA0, fsid),
        (0x87, [21]),
        (0x51, [2]),
        (0x88, le_split 8 (16 :: u64))]"

lemma root_inode_reads:
  assumes "length clid = 16" "length fsid = 16" "length label \<le> 256"
    and ip: "ip = root_inode now clid fsid label"
  shows "length ip = 1024" "fetch 0x100 (length label) ip = label_bytes label"
    "le_join (fetch 0x80 2 ip) = (of_nat (length label) :: u16)"
    "get64 0x78 ip = hammer2_dirhash (label_bytes label)"
proof -
  let ?ws = "inode_fields now clid fsid label"
  define z :: bytes where "z = replicate 1024 0"
  have z: "length z = 1024" unfolding z_def by (rule length_replicate)
  have e: "ip = stores ?ws z" unfolding ip root_inode_def inode_fields_def z_def ..
  have fit: "\<forall>(o', b)\<in>set ?ws. o' + length b \<le> length z"
    unfolding z using assms(1-3) by (auto simp: inode_fields_def)
  show "length ip = 1024" unfolding e using length_stores[OF fit] z by simp
  show "fetch 0x100 (length label) ip = label_bytes label"
    unfolding e by (rule stores_field[of 9, OF _ _ _ fit]) (simp_all add: inode_fields_def assms)
  have "fetch 0x80 2 ip = le_split 2 (of_nat (length label) :: u16)"
    unfolding e by (rule stores_field[of 8, OF _ _ _ fit]) (simp_all add: inode_fields_def assms)
  then show "le_join (fetch 0x80 2 ip) = (of_nat (length label) :: u16)" by (simp only:) (simp add: le_join_split)
  have "fetch 0x78 8 ip = le_split 8 (newfs_dirhash (label_bytes label))"
    unfolding e by (rule stores_field[of 10, OF _ _ _ fit]) (simp_all add: inode_fields_def assms)
  then show "get64 0x78 ip = hammer2_dirhash (label_bytes label)"
    by (simp only: get64_def newfs_dirhash_eq) (simp add: le_join_split)
qed

text \<open>The blockrefs stored into the super-root inode.\<close>

lemma sroot_inode_reads:
  assumes "length clid = 16" "length fsid = 16" "length brefs \<le> 8"
    and ip: "ip = sroot_inode now clid fsid brefs"
  shows "length ip = 1024" "i < length brefs \<Longrightarrow> fetch (0x200 + 64 * i) 64 ip = bref_bytes (brefs ! i)"
proof -
  define z :: bytes where "z = replicate 1024 0"
  have z: "length z = 1024" unfolding z_def by (rule length_replicate)
  let ?bs = "map (\<lambda>(i, b). (0x200 + 64 * i, bref_bytes b)) (enumerate 0 brefs)"
  obtain ws where e: "ip = stores (ws @ ?bs) z" and w: "length ws = 16" "\<forall>(o', b)\<in>set ws. o' + length b \<le> length z"
    unfolding ip sroot_inode_def z_def[symmetric]
    by atomize_elim (intro exI conjI, rule refl, simp_all add: z assms(1,2))
  have b: "\<forall>(o', b)\<in>set ?bs. o' + length b \<le> length z" unfolding z using assms(3) by (auto simp: in_set_enumerate_eq)
  have fit: "\<forall>(o', b)\<in>set (ws @ ?bs). o' + length b \<le> length z" using w(2) b by auto
  show "length ip = 1024" unfolding e using length_stores[OF fit] z by simp
  show "fetch (0x200 + 64 * i) 64 ip = bref_bytes (brefs ! i)" if i: "i < length brefs"
    unfolding e
  proof (rule stores_field[of "16 + i", OF _ _ _ fit])
    show "16 + i < length (ws @ ?bs)" using i w(1) by simp
    show "(ws @ ?bs) ! (16 + i) = (0x200 + 64 * i, bref_bytes (brefs ! i))"
      using i w(1) by (simp add: nth_append nth_enumerate_eq)
    have "drop (Suc (16 + i)) (ws @ ?bs) = drop (Suc i) ?bs" using w(1) by simp
    then show "\<forall>(o', b)\<in>set (drop (Suc (16 + i)) (ws @ ?bs)).
        512 + 64 * i + length (bref_bytes (brefs ! i)) \<le> o' \<or> o' + length b \<le> 512 + 64 * i"
      by (auto simp: set_conv_nth nth_enumerate_eq)
  qed simp
qed

text \<open>A chain for a blockref of an inode.\<close>

definition inode_chain :: "hammer2_blockref \<Rightarrow> hammer2_chain" where
  "inode_chain b = \<lparr>ch_bref = b, ch_flags = 0, ch_bytes = 1024, core_live_zero = 0, core_flags = 0, core_live_count = 0,
      core_chain_count = 0, core_generation = 0\<rparr>"

lemma testcheck_iscsi:
  assumes "HAMMER2_DEC_CHECK (br_methods b) = HAMMER2_CHECK_ISCSI32" "ck_icrc32 (br_check b) = iscsi_crc32 ip" "length ip = 1024"
  shows "hammer2_chain_testcheck hmac (inode_chain b) ip"
  using assms by (simp add: hammer2_chain_testcheck_def inode_chain_def)

lemma root_bref_check:
  assumes "length ip = 1024"
  shows "hammer2_chain_testcheck hmac (inode_chain (root_bref b label ip)) ip"
  by (rule testcheck_iscsi) (simp_all add: root_bref_def HAMMER2_DEC_CHECK_def HAMMER2_ENC_CHECK_def assms)

lemma sroot_bref_check:
  assumes "length ip = 1024"
  shows "hammer2_chain_testcheck hmac (inode_chain (sroot_bref b ip)) ip"
  by (rule testcheck_iscsi) (simp_all add: sroot_bref_def HAMMER2_DEC_CHECK_def HAMMER2_ENC_CHECK_def assms)


section \<open>The loop over the labels\<close>

text \<open>
  An entry of the super-root for a label: its key is the kernel's directory hash of the
  label, its inode lies in the block \<open>blk\<close> with contents \<open>buf\<close>, passes the check and has the name.
\<close>

definition inode_in :: "bytes \<Rightarrow> hammer2_blockref \<Rightarrow> bytes" where
  "inode_in buf b = fetch (unat (br_data_off b AND 0xFFC0)) 1024 buf"

definition root_entry :: "hmac_fn \<Rightarrow> u64 \<Rightarrow> bytes \<Rightarrow> string \<Rightarrow> hammer2_blockref \<Rightarrow> bool" where
  "root_entry hmac blk buf l b \<longleftrightarrow>
     br_type b = HAMMER2_BREF_TYPE_INODE \<and> br_keybits b = 0 \<and> br_flags b = HAMMER2_BREF_FLAG_PFSROOT \<and>
     br_key b = hammer2_dirhash (label_bytes l) \<and> br_data_off b AND NOT HAMMER2_PBUFMASK64 = blk \<and>
     hammer2_chain_testcheck hmac (inode_chain b) (inode_in buf b) \<and>
     fetch 0x100 (length l) (inode_in buf b) = label_bytes l \<and>
     get64 0x78 (inode_in buf b) = hammer2_dirhash (label_bytes l)"

lemma root_entry_cong:
  "inode_in buf' b = inode_in buf b \<Longrightarrow> root_entry hmac blk buf' l b = root_entry hmac blk buf l b"
  by (simp add: root_entry_def)

lemma root_entry_intro:
  fixes base :: u64
  assumes "unat base = 65536 * q + 1024 * k" "k < 64" "length clid = 16" "length fsid = 16" "length l \<le> 256"
    "bref = blockref_zero\<lparr>br_data_off := base OR 10, br_vradix := 10\<rparr>" "ip = root_inode now clid fsid l"
    "fetch (1024 * k) 1024 buf = ip"
  shows "root_entry hmac (of_nat (65536 * q)) buf l (root_bref bref l ip)"
proof -
  note p = inode_place[OF assms(1,2)] and r = root_inode_reads[OF assms(3-5,7)]
  have off: "br_data_off (root_bref bref l ip) = base OR 10" by (simp add: root_bref_def assms(6))
  have "inode_in buf (root_bref bref l ip) = ip" unfolding inode_in_def off p(2) by (rule assms(8))
  then show ?thesis unfolding root_entry_def off p(1) using r root_bref_check[OF r(1)]
    by (simp add: root_bref_def newfs_dirhash_eq)
qed

lemma format_labels_result:
  assumes "unat base = 65536 * q + 1024 * k" "k + length labels \<le> 64" "65536 * q + 65536 < 2 ^ 64"
    "br_data_off sroot AND NOT HAMMER2_PBUFMASK64 = of_nat (65536 * q)" "length uuids = length labels"
    "\<forall>(c, f)\<in>set uuids. length c = 16 \<and> length f = 16" "\<forall>l\<in>set labels. length l \<le> 256" "length buf = 65536"
  shows "\<exists>buf' brefs. format_labels now sroot uuids labels base buf = Ok (base + of_nat (1024 * length labels), buf', brefs) \<and>
    length buf' = 65536 \<and> (\<forall>off n. off + n \<le> 1024 * k \<longrightarrow> fetch off n buf' = fetch off n buf) \<and>
    list_all2 (\<lambda>l b. root_entry hmac (of_nat (65536 * q)) buf' l b \<and> 1024 * k \<le> unat (br_data_off b AND 0xFFC0)) labels brefs"
  using assms
proof (induction labels arbitrary: uuids base buf k)
  case Nil
  then show ?case by (cases uuids) auto
next
  case (Cons l labels)
  obtain c f us where u: "uuids = (c, f) # us" using Cons.prems(5) by (cases uuids) auto
  let ?ip = "root_inode now c f l" and ?bref = "blockref_zero\<lparr>br_data_off := base OR 10, br_vradix := 10\<rparr>"
  let ?buf = "store (1024 * k) ?ip buf"
  have k: "k < 64" using Cons.prems(2) by simp
  note p = inode_place[OF Cons.prems(1) k]
  have cf: "length c = 16" "length f = 16" "length l \<le> 256" using Cons.prems(6,7) u by auto
  have ipl: "length ?ip = 1024" by (rule root_inode_reads(1)[OF cf refl])
  have fit: "1024 * k + length ?ip \<le> length buf" using k ipl Cons.prems(8) by simp
  have bl: "length ?buf = 65536" using length_store[OF fit] Cons.prems(8) by simp
  have base': "unat (base + 1024) = 65536 * q + 1024 * Suc k"
    using Cons.prems(1,3) k by (subst unat_plus_noverflow) auto
  have "Suc k + length labels \<le> 64" "length us = length labels" "\<forall>(c, f)\<in>set us. length c = 16 \<and> length f = 16"
    "\<forall>l\<in>set labels. length l \<le> 256" using Cons.prems u by auto
  from Cons.IH[OF base' this(1) Cons.prems(3,4) this(2-4) bl] obtain buf' brefs where
    ih: "format_labels now sroot us labels (base + 1024) ?buf = Ok (base + 1024 + of_nat (1024 * length labels), buf', brefs)"
    "length buf' = 65536" "\<And>off n. off + n \<le> 1024 * Suc k \<Longrightarrow> fetch off n buf' = fetch off n ?buf"
    "list_all2 (\<lambda>l b. root_entry hmac (of_nat (65536 * q)) buf' l b \<and> 1024 * Suc k \<le> unat (br_data_off b AND 0xFFC0)) labels brefs"
    by blast
  have x: "(br_data_off sroot XOR (base OR 10)) AND NOT HAMMER2_PBUFMASK64 = 0"
    using Cons.prems(4) p(1) by (simp only: bit.conj_xor_distrib2 bit.xor_self)
  have res: "format_labels now sroot uuids (l # labels) base buf =
      Ok (base + of_nat (1024 * length (l # labels)), buf', root_bref ?bref l ?ip # brefs)"
    using ih(1) p(2) x by (simp add: u alloc_direct_inode Let_def kkassert_def algebra_simps)
  have "fetch (1024 * k) 1024 ?buf = ?ip" using fetch_store_same[OF fit] ipl by simp
  then have "fetch (1024 * k) 1024 buf' = ?ip" using ih(3)[of "1024 * k" 1024] by simp
  then have hd: "root_entry hmac (of_nat (65536 * q)) buf' l (root_bref ?bref l ?ip)"
    by (rule root_entry_intro[OF Cons.prems(1) k cf refl refl])
  have off: "br_data_off (root_bref ?bref l ?ip) = base OR 10" by (simp add: root_bref_def)
  have keep: "fetch off n buf' = fetch off n buf" if "off + n \<le> 1024 * k" for off n
    using ih(3)[of off n] fetch_store_left[OF that fit] that by simp
  have tl: "list_all2 (\<lambda>l b. root_entry hmac (of_nat (65536 * q)) buf' l b \<and> 1024 * k \<le> unat (br_data_off b AND 0xFFC0)) labels brefs"
    using ih(4) by (rule list_all2_mono) auto
  have "list_all2 (\<lambda>l b. root_entry hmac (of_nat (65536 * q)) buf' l b \<and> 1024 * k \<le> unat (br_data_off b AND 0xFFC0))
      (l # labels) (root_bref ?bref l ?ip # brefs)"
    unfolding list.rel_inject(2) list_all2_Cons off p(2) using hd tl by simp
  then show ?case using res ih(2) keep by blast
qed


section \<open>The device\<close>

lemma zero_blocks_ok:
  "(\<And>i. i < n \<Longrightarrow> writable (base + of_nat (65536 * i))) \<Longrightarrow> \<exists>d. zero_blocks writable n dev base = Ok d"
proof (induction n arbitrary: base dev)
  case (Suc n)
  have w: "writable base" using Suc.prems[of 0] by simp
  have "writable (base + of_nat HAMMER2_PBUFSIZE + of_nat (65536 * i))" if "i < n" for i
    using Suc.prems[of "Suc i"] that by (simp add: algebra_simps)
  from Suc.IH[OF this] show ?case using w by (simp add: pwrite_def)
qed simp

lemma header_copies_ok:
  "(\<And>i. i \<in> set (takeWhile (\<lambda>i. of_nat i * HAMMER2_ZONE_BYTES64 < vsize) ns) \<Longrightarrow> writable (of_nat i * HAMMER2_ZONE_BYTES64)) \<Longrightarrow>
   \<exists>dev'. header_copies writable buf vsize ns dev = Ok dev' \<and>
     (\<forall>off. dev' off = (if off \<in> (\<lambda>i. of_nat i * HAMMER2_ZONE_BYTES64) ` set (takeWhile (\<lambda>i. of_nat i * HAMMER2_ZONE_BYTES64 < vsize) ns)
        then Some buf else dev off))"
proof (induction ns arbitrary: dev)
  case (Cons i rest)
  show ?case
  proof (cases "of_nat i * HAMMER2_ZONE_BYTES64 < vsize")
    case True
    then have w: "writable (of_nat i * HAMMER2_ZONE_BYTES64)" using Cons.prems by simp
    let ?dev = "dev(of_nat i * HAMMER2_ZONE_BYTES64 \<mapsto> buf)"
    obtain dev' where ih: "header_copies writable buf vsize rest ?dev = Ok dev'"
      "\<forall>off. dev' off = (if off \<in> (\<lambda>i. of_nat i * HAMMER2_ZONE_BYTES64) ` set (takeWhile (\<lambda>i. of_nat i * HAMMER2_ZONE_BYTES64 < vsize) rest)
        then Some buf else ?dev off)"
      using Cons.IH[of ?dev] Cons.prems True by (metis (no_types, lifting) insert_iff list.set(2) takeWhile.simps(2))
    then show ?thesis using True w by (auto simp: pwrite_def not_le)
  qed (auto simp: not_less)
qed simp

lemma header_offsets:
  "set (takeWhile (\<lambda>i. of_nat i * HAMMER2_ZONE_BYTES64 < vsize) [0..<HAMMER2_NUM_VOLHDRS]) =
   {i. i < 4 \<and> of_nat i * HAMMER2_ZONE_BYTES64 < vsize}"
proof -
  have 4: "[0..<4] = [0, 1, 2, 3::nat]" by (simp add: upt_rec)
  have mono: "of_nat j * HAMMER2_ZONE_BYTES64 < vsize" if "of_nat i * HAMMER2_ZONE_BYTES64 < vsize" "j \<le> i" "i < 4" for i j
  proof -
    have m: "unat (of_nat n * HAMMER2_ZONE_BYTES64) = n * 2147483648" if "n < 4" for n
      using that by (simp add: unat_word_ariths(2) unat_of_nat_small)
    show ?thesis using that m[of i] m[of j] by (simp add: word_less_unat)
  qed
  have "{i. i < 4 \<and> of_nat i * HAMMER2_ZONE_BYTES64 < vsize} = {i \<in> set [0, 1, 2, 3]. of_nat i * HAMMER2_ZONE_BYTES64 < vsize}" by auto
  also have "\<dots> = set (takeWhile (\<lambda>i. of_nat i * HAMMER2_ZONE_BYTES64 < vsize) [0, 1, 2, 3])"
    using mono[of 1 0] mono[of 2 1] mono[of 3 2] by auto
  finally show ?thesis unfolding 4 by simp
qed

section \<open>The block table of the super-root\<close>

lemma sorted_entries:
  assumes "list_all2 (root_entry hmac blk buf) ls brefs" "sorted (map br_key brefs)"
    "distinct (map (\<lambda>l. hammer2_dirhash (label_bytes l)) ls)"
  shows "ordered_elems brefs"
proof -
  have k: "br_type b = 1" "br_keybits b = 0" if "b \<in> set brefs" for b
    using that assms(1) by (auto simp: list_all2_conv_all_nth set_conv_nth root_entry_def)
  have keys: "map br_key brefs = map (\<lambda>l. hammer2_dirhash (label_bytes l)) ls"
    using assms(1) by (auto simp: list_all2_conv_all_nth root_entry_def intro: nth_equalityI)
  have "sorted_wrt (<) (map br_key brefs)" using assms(2,3) keys by (simp add: strict_sorted_iff)
  then have "sorted_wrt (\<lambda>a b. br_key a < br_key b) brefs" by (simp add: sorted_wrt_map)
  then have "sorted_wrt bref_left brefs"
    by (rule sorted_wrt_mono_rel[rotated]) (auto simp: bref_left_def bref_hi_def word_less_unat k)
  moreover have "elems brefs = brefs" unfolding elems_def by (rule filter_True) (use k in auto)
  moreover have "bref_wf b" if "b \<in> set brefs" for b
    using k[OF that] u64_bound[of "br_key b"] by (simp add: bref_wf_def)
  ultimately show ?thesis by (simp add: ordered_elems_def)
qed

lemma qsort_entries:
  assumes "list_all2 (root_entry hmac blk buf) labels brefs"
  shows "\<exists>ls. mset ls = mset labels \<and> list_all2 (root_entry hmac blk buf) ls (qsort_brefs brefs)"
proof -
  have "list_all2 (root_entry hmac blk buf)\<inverse>\<inverse> brefs labels" using assms by (simp add: list.rel_flip)
  from list_all2_reorder_left_invariance[OF this, of "qsort_brefs brefs"] show ?thesis
    by (auto simp: qsort_brefs_def list.rel_flip)
qed

lemma install_first:
  assumes "read 0 = Some vd" "volhdr_valid vd"
  shows "hammer2_install_volume_header read = (E_OK, Some (vd, 0)) \<longleftrightarrow>
    (\<forall>i<4. \<forall>v. read i = Some v \<and> volhdr_valid v \<longrightarrow> vd_mirror_tid v \<le> vd_mirror_tid vd)"
  unfolding install_eq_best using assms by (simp add: best_copy_def good_copy_def)

section \<open>Property\<close>

lemma newfs_labels_ok:
  assumes "cfg_ok cfg"
  shows "length (newfs_labels cfg) \<le> 4" "\<forall>l\<in>set (newfs_labels cfg). length l \<le> 256"
  using assms by (auto simp: newfs_labels_def cfg_ok_def dest: in_set_takeD)

text \<open>The block of the inodes, after the loop and the super-root inode.\<close>

lemma format_block:
  fixes base0 :: u64
  assumes base: "unat base0 = 65536 * q" "65536 * q + 65536 < 2 ^ 64"
    and labels: "length labels \<le> 4" "\<forall>l\<in>set labels. length l \<le> 256" and ids: "ids_ok ids (length labels)"
    and sroot: "sroot = blockref_zero\<lparr>br_data_off := base0 OR 10, br_vradix := 10\<rparr>" and z: "length zbuf = 65536"
  shows "\<exists>buf brefs ls. format_labels now sroot (id_pfs ids) labels (base0 + 1024) zbuf =
      Ok (base0 + of_nat (1024 * Suc (length labels)), buf, brefs) \<and>
    (let ip = sroot_inode now (id_supclid ids) (id_supfsid ids) (qsort_brefs brefs);
         buf' = store (unat (br_data_off sroot AND 0xFFC0)) ip buf
     in inode_in buf' (sroot_bref sroot ip) = ip \<and> length ip = 1024 \<and>
        (\<forall>i<length labels. fetch (0x200 + 64 * i) 64 ip = bref_bytes (qsort_brefs brefs ! i)) \<and>
        mset ls = mset labels \<and> list_all2 (root_entry hmac base0 buf') ls (qsort_brefs brefs))"
proof -
  have place: "unat base0 = 65536 * q + 1024 * 0" using base(1) by simp
  note p = inode_place[OF place, simplified]
  have q: "of_nat (65536 * q) = base0"
    by (rule unat_eqI, subst unat_of_nat_small) (use base in auto)
  have hi: "br_data_off sroot AND NOT HAMMER2_PBUFMASK64 = of_nat (65536 * q)" using p(1) by (simp add: sroot)
  have lo: "unat (br_data_off sroot AND 0xFFC0) = 0" using p(2) by (simp add: sroot)
  have b1: "unat (base0 + 1024) = 65536 * q + 1024 * 1" using base by (subst unat_plus_noverflow) auto
  have "1 + length labels \<le> 64" "length (id_pfs ids) = length labels" "\<forall>(c, f)\<in>set (id_pfs ids). length c = 16 \<and> length f = 16"
    using labels(1) ids by (auto simp: ids_ok_def)
  from format_labels_result[OF b1 this(1) base(2) hi this(2,3) labels(2) z, of now hmac] obtain buf brefs where
    r: "format_labels now sroot (id_pfs ids) labels (base0 + 1024) zbuf = Ok (base0 + 1024 + of_nat (1024 * length labels), buf, brefs)"
      "length buf = 65536"
      "list_all2 (\<lambda>l b. root_entry hmac base0 buf l b \<and> 1024 * 1 \<le> unat (br_data_off b AND 0xFFC0)) labels brefs"
    unfolding q by blast
  let ?ip = "sroot_inode now (id_supclid ids) (id_supfsid ids) (qsort_brefs brefs)"
  let ?buf = "store 0 ?ip buf"
  have len: "length (qsort_brefs brefs) = length labels" using list_all2_lengthD[OF r(3)] by (simp add: qsort_brefs_def)
  have ip: "length ?ip = 1024" "\<And>i. i < length labels \<Longrightarrow> fetch (0x200 + 64 * i) 64 ?ip = bref_bytes (qsort_brefs brefs ! i)"
    using sroot_inode_reads[OF _ _ _ refl, where clid = "id_supclid ids" and fsid = "id_supfsid ids" and brefs = "qsort_brefs brefs" and now = now] ids labels(1) len
    by (auto simp: ids_ok_def)
  have fit: "0 + length ?ip \<le> length buf" using ip(1) r(2) by simp
  have so: "br_data_off (sroot_bref sroot ?ip) = br_data_off sroot" by (simp add: sroot_bref_def)
  have self: "inode_in ?buf (sroot_bref sroot ?ip) = ?ip"
    unfolding inode_in_def so lo using fetch_store_same[OF fit] ip(1) by simp
  have keep: "inode_in ?buf b = inode_in buf b" if "1024 \<le> unat (br_data_off b AND 0xFFC0)" for b
    unfolding inode_in_def by (rule fetch_store_right) (use that fit ip(1) in auto)
  have "list_all2 (root_entry hmac base0 ?buf) labels brefs"
    by (rule list_all2_mono[OF r(3)]) (use root_entry_cong[OF keep] in fastforce)
  from qsort_entries[OF this] obtain ls where "mset ls = mset labels" "list_all2 (root_entry hmac base0 ?buf) ls (qsort_brefs brefs)"
    by blast
  moreover have "format_labels now sroot (id_pfs ids) labels (base0 + 1024) zbuf = Ok (base0 + of_nat (1024 * Suc (length labels)), buf, brefs)"
    using r(1) by (simp add: algebra_simps)
  ultimately show ?thesis using ip self unfolding Let_def lo by blast
qed


text \<open>All writes of \<open>format_hammer2\<close>.\<close>

lemma format_writes:
  fixes base0 :: u64
  assumes b: "base0 = HAMMER2_ZONE_SEG64 + sz_boot sz + sz_aux sz"
    "base0 AND HAMMER2_PBUFMASK64 = 0" "base0 < HAMMER2_ZONE_BYTES64 - HAMMER2_ZONE_SEG64" "4194304 \<le> unat base0"
    and fits: "unat base0 + 65536 \<le> unat (sz_total sz)"
    and w: "\<And>off. unat off + 65536 \<le> unat (sz_total sz) \<Longrightarrow> writable off" and t: "8388608 dvd unat (sz_total sz)"
    and l: "format_labels now sroot (id_pfs ids) (newfs_labels cfg) (base0 + 1024) (replicate HAMMER2_PBUFSIZE 0) = Ok (base2, buf, brefs)"
    and d: "sroot = blockref_zero\<lparr>br_data_off := base0 OR 10, br_vradix := 10\<rparr>"
      "ip = sroot_inode now (id_supclid ids) (id_supfsid ids) (qsort_brefs brefs)"
      "buf' = store (unat (br_data_off sroot AND 0xFFC0)) ip buf" "sbref = sroot_bref sroot ip"
      "(base0 OR 10) AND NOT HAMMER2_PBUFMASK64 = base0"
      "hdr = volume_image cfg sz ids base2 sbref"
  shows "\<exists>dev'. format_hammer2 writable cfg sz ids now dev = Ok dev' \<and> dev' base0 = Some buf' \<and>
    (\<forall>i<4. of_nat i * HAMMER2_ZONE_BYTES64 < sz_total sz \<longrightarrow> dev' (of_nat i * HAMMER2_ZONE_BYTES64) = Some hdr)"
proof -
  define z :: bytes where "z = replicate HAMMER2_PBUFSIZE 0"
  have "writable (0 + of_nat (65536 * i))" if "i < 64" for i
  proof -
    have "unat (of_nat (65536 * i) :: u64) = 65536 * i" by (rule unat_of_nat_small) (use that in simp)
    then show ?thesis using that fits b(4) by (intro w) (simp del: of_nat_mult)
  qed
  from zero_blocks_ok[of 64 writable 0, OF this] obtain d1 where z1: "zero_blocks writable 64 dev 0 = Ok d1" by blast
  have "unat (sz_total sz - 65536) = unat (sz_total sz) - 65536" using fits by (subst unat_minus_le) auto
  then have w2: "writable (sz_total sz - of_nat HAMMER2_PBUFSIZE)" using fits by (intro w) simp
  define d2 where "d2 = d1(sz_total sz - of_nat HAMMER2_PBUFSIZE \<mapsto> z)"
  have "unat (of_nat i * HAMMER2_ZONE_BYTES64) + 65536 \<le> unat (sz_total sz)"
    if "i < 4" "of_nat i * HAMMER2_ZONE_BYTES64 < sz_total sz" for i
  proof -
    have "unat (of_nat i * HAMMER2_ZONE_BYTES64) = i * 2147483648"
      using that(1) by (simp add: unat_word_ariths(2) unat_of_nat_small)
    moreover have "65536 dvd unat (sz_total sz)" using t by (rule dvd_trans[rotated]) simp
    moreover have "65536 dvd i * 2147483648" by (rule dvd_mult) simp
    ultimately show ?thesis using that(2) by (metis dvd_less_add_le word_less_unat)
  qed
  then have wh: "writable (of_nat i * HAMMER2_ZONE_BYTES64)"
    if "i \<in> set (takeWhile (\<lambda>i. of_nat i * HAMMER2_ZONE_BYTES64 < sz_total sz) [0..<HAMMER2_NUM_VOLHDRS])" for i
    using that unfolding header_offsets by (intro w) blast
  obtain dev' where h: "header_copies writable hdr (sz_total sz) [0..<HAMMER2_NUM_VOLHDRS] (d2(base0 \<mapsto> buf')) = Ok dev'"
    "\<And>off. dev' off = (if off \<in> (\<lambda>i. of_nat i * HAMMER2_ZONE_BYTES64) ` {i. i < 4 \<and> of_nat i * HAMMER2_ZONE_BYTES64 < sz_total sz}
        then Some hdr else (d2(base0 \<mapsto> buf')) off)"
    using header_copies_ok[where writable = writable and vsize = "sz_total sz" and ns = "[0..<HAMMER2_NUM_VOLHDRS]", OF wh, where buf = hdr and dev = "d2(base0 \<mapsto> buf')"] unfolding header_offsets by blast
  have ne: "base0 \<noteq> of_nat i * HAMMER2_ZONE_BYTES64" if "i < 4" for i
  proof -
    have "unat (of_nat i * HAMMER2_ZONE_BYTES64) = i * 2147483648"
      using that by (simp add: unat_word_ariths(2) unat_of_nat_small)
    moreover have "unat base0 < 2143289344" using b(3) by (simp add: word_less_unat)
    ultimately show ?thesis using b(4) by (cases i) auto
  qed
  have al: "base0 AND NOT HAMMER2_PBUFMASK64 = base0"
  proof -
    have "(base0 AND HAMMER2_PBUFMASK64) OR (base0 AND NOT HAMMER2_PBUFMASK64) = base0"
      by (simp only: bit.conj_disj_distrib[symmetric] bit.disj_cancel_right and.right_neutral)
    then show ?thesis by (simp only: b(2) or.left_neutral)
  qed
  have so: "br_data_off sbref AND NOT HAMMER2_PBUFMASK64 = base0" using d(5) by (simp add: d(1,4) sroot_bref_def)
  have wb: "writable base0" using fits by (rule w)
  have "format_hammer2 writable cfg sz ids now dev = Ok dev'"
    unfolding format_hammer2_def Let_def b(1)[symmetric] z1 obind.simps z_def[symmetric] al alloc_direct_inode d(1)[symmetric] prod.case
    using l[folded z_def] w2 b(2,3) so wb h(1)
    by (simp only: simp_thms pwrite_def if_True obind.simps kkassert_True d2_def[symmetric] prod.case d(2)[symmetric] d(3)[symmetric] d(4)[symmetric] d(6)[symmetric])
  then show ?thesis using h(2) ne by auto
qed


text \<open>
  C5: a freshly formatted volume has what the mount code reads.  For all accepted options, on a device that takes
  writes up to the total size and on which the boot and redo areas and one block fit,
  \<open>format_hammer2\<close> completes; every header copy inside the volume is the same, passes the
  tests of \<open>hammer2_install_volume_header\<close> and reads back the sizes written, with
  \<open>allocator_beg\<close> just behind the inodes.  The super-root inode it points to passes the
  chain's check, its block table holds exactly one entry per label, each keyed by the
  kernel's \<open>hammer2_dirhash\<close> of the label and leading to an inode that passes the check and
  has that name, and it is in block table order when the hashes differ.  The block set of the header has one element, an
  inode under the key that the mount code looks up for the super-root, and the search of the block table code finds it.  Mounting installs
  copy 0 exactly when no other intact copy read carries a \<open>mirror_tid\<close> above 16: a header
  left over from an earlier file system at an offset beyond the truncated total is not
  overwritten and wins.
\<close>

theorem newfs_mountable:
  assumes "newfs_options strtoll cfg_init opts = Ok cfg" "unat bufrem < 2 ^ 63" "sz = newfs_size cfg bufrem"
    and ids: "ids_ok ids (length (newfs_labels cfg))"
    and fits: "4194304 + unat (sz_boot sz) + unat (sz_aux sz) + 65536 \<le> unat (sz_total sz)"
    and w: "\<And>off. unat off + 65536 \<le> unat (sz_total sz) \<Longrightarrow> writable off"
  shows "\<exists>dev' hdr sroot buf brefs ls. format_hammer2 writable cfg sz ids now dev = Ok dev' \<and>
    (\<forall>i<4. of_nat i * HAMMER2_ZONE_BYTES64 < sz_total sz \<longrightarrow> dev' (of_nat i * HAMMER2_ZONE_BYTES64) = Some hdr) \<and>
    volhdr_valid hdr \<and> vd_volu_size hdr = sz_total sz \<and> vd_allocator_free hdr = sz_free sz \<and>
    unat (vd_allocator_beg hdr) = 4194304 + unat (sz_boot sz) + unat (sz_aux sz) + 1024 * Suc (length (newfs_labels cfg)) \<and>
    (read 0 = Some hdr \<longrightarrow>
       (hammer2_install_volume_header read = (E_OK, Some (hdr, 0)) \<longleftrightarrow>
        (\<forall>i<4. \<forall>v. read i = Some v \<and> volhdr_valid v \<longrightarrow> vd_mirror_tid v \<le> 16))) \<and>
    vd_sroot_bref hdr = bref_bytes sroot \<and> (\<forall>i\<in>{1..<8}. fetch (0x200 + 64 * i) 64 hdr = bref_bytes blockref_zero) \<and>
    br_type sroot = HAMMER2_BREF_TYPE_INODE \<and> br_key sroot = HAMMER2_SROOT_KEY \<and> br_keybits sroot = 0 \<and>
    (\<forall>vchain cache key_next. core_flags vchain AND HAMMER2_CORE_COUNTEDBREFS \<noteq> 0 \<and> core_live_zero vchain = 1 \<longrightarrow>
       (\<exists>c k. hammer2_base_find vchain (Some (sroot # replicate 7 blockref_zero)) 8 cache key_next HAMMER2_SROOT_KEY HAMMER2_SROOT_KEY = Ok (0, c, k))) \<and>
    dev' (br_data_off sroot AND NOT HAMMER2_PBUFMASK64) = Some buf \<and>
    hammer2_chain_testcheck hmac (inode_chain sroot) (inode_in buf sroot) \<and>
    (\<forall>i<length ls. fetch (0x200 + 64 * i) 64 (inode_in buf sroot) = bref_bytes (brefs ! i)) \<and>
    mset ls = mset (newfs_labels cfg) \<and>
    list_all2 (root_entry hmac (br_data_off sroot AND NOT HAMMER2_PBUFMASK64) buf) ls brefs \<and>
    (distinct (map (\<lambda>l. hammer2_dirhash (label_bytes l)) ls) \<longrightarrow> ordered_elems brefs)"
proof -
  have cfg: "cfg_ok cfg" using newfs_options_ok[OF assms(1) cfg_init_ok] .
  let ?n = "length (newfs_labels cfg)"
  define base0 where "base0 = HAMMER2_ZONE_SEG64 + sz_boot sz + sz_aux sz"
  note nb = newfs_alloc_base[OF cfg assms(3), folded base0_def] and na = newfs_base_asserts[OF cfg assms(3), folded base0_def]
  obtain q where q: "unat base0 = 65536 * q" using nb(2) by (auto elim: dvdE)
  have q2: "65536 * q + 65536 < 2 ^ 64" using nb(3) q by simp
  define sroot where "sroot = blockref_zero\<lparr>br_data_off := base0 OR 10, br_vradix := 10\<rparr>"
  define z :: bytes where "z = replicate HAMMER2_PBUFSIZE 0"
  have z: "length z = 65536" unfolding z_def by (rule length_replicate)
  obtain buf0 brefs0 ls where l: "format_labels now sroot (id_pfs ids) (newfs_labels cfg) (base0 + 1024) z =
      Ok (base0 + of_nat (1024 * Suc ?n), buf0, brefs0)"
    and blk: "let ip = sroot_inode now (id_supclid ids) (id_supfsid ids) (qsort_brefs brefs0);
         buf' = store (unat (br_data_off sroot AND 0xFFC0)) ip buf0
     in inode_in buf' (sroot_bref sroot ip) = ip \<and> length ip = 1024 \<and>
        (\<forall>i<?n. fetch (0x200 + 64 * i) 64 ip = bref_bytes (qsort_brefs brefs0 ! i)) \<and>
        mset ls = mset (newfs_labels cfg) \<and> list_all2 (root_entry hmac base0 buf') ls (qsort_brefs brefs0)"
    using format_block[OF q q2 newfs_labels_ok[OF cfg] ids sroot_def z, of now hmac] by blast
  define ip where "ip = sroot_inode now (id_supclid ids) (id_supfsid ids) (qsort_brefs brefs0)"
  define buf where "buf = store (unat (br_data_off sroot AND 0xFFC0)) ip buf0"
  note blk = blk[folded ip_def, unfolded Let_def, folded buf_def]
  define sb where "sb = sroot_bref sroot ip"
  define hdr where "hdr = volume_image cfg sz ids (base0 + of_nat (1024 * Suc ?n)) sb"
  have place: "(base0 OR 10) AND NOT HAMMER2_PBUFMASK64 = base0"
  proof -
    have "(base0 OR 10) AND NOT HAMMER2_PBUFMASK64 = of_nat (65536 * q)" by (rule inode_place(1)[of _ _ 0]) (use q in auto)
    also have "\<dots> = base0" by (rule unat_eqI, subst unat_of_nat_small) (use q q2 in auto)
    finally show ?thesis .
  qed
  have t: "8388608 dvd unat (sz_total sz)" using total_bounds(1)[OF assms(2)] by (simp add: assms(3) newfs_size_def Let_def)
  obtain dev' where fmt: "format_hammer2 writable cfg sz ids now dev = Ok dev'" "dev' base0 = Some buf"
    "\<forall>i<4. of_nat i * HAMMER2_ZONE_BYTES64 < sz_total sz \<longrightarrow> dev' (of_nat i * HAMMER2_ZONE_BYTES64) = Some hdr"
    using format_writes[where writable = writable, OF base0_def na _ _ w t l[unfolded z_def] sroot_def ip_def buf_def sb_def place hdr_def] nb fits by auto
  have len: "length (id_volfsid ids) = 16" "length (id_fstype ids) = 16" using ids by (auto simp: ids_ok_def)
  note v = volume_image_reads[OF len hdr_def]
  have beg: "unat (base0 + of_nat (1024 * Suc ?n)) = 4194304 + unat (sz_boot sz) + unat (sz_aux sz) + 1024 * Suc ?n"
  proof -
    have s: "unat (of_nat (1024 * Suc ?n) :: u64) = 1024 * Suc ?n"
      by (rule unat_of_nat_small) (use newfs_labels_ok(1)[OF cfg] in simp)
    show ?thesis using nb newfs_labels_ok(1)[OF cfg] s by (subst unat_plus_noverflow) auto
  qed
  have so: "br_data_off sb AND NOT HAMMER2_PBUFMASK64 = base0" using place by (simp add: sb_def sroot_def sroot_bref_def)
  have n: "length ls = ?n" using blk by (metis size_mset)
  have chk: "hammer2_chain_testcheck hmac (inode_chain sb) (inode_in buf sb)"
    using blk sroot_bref_check[of ip hmac sroot] by (simp add: sb_def)
  have srt: "sorted (map br_key (qsort_brefs brefs0))" by (simp add: qsort_brefs_def)
  have ord: "ordered_elems (qsort_brefs brefs0)" if "distinct (map (\<lambda>l. hammer2_dirhash (label_bytes l)) ls)"
    by (rule sorted_entries[OF _ srt that]) (use blk in blast)
  have inst: "read 0 = Some hdr \<longrightarrow>
       (hammer2_install_volume_header read = (E_OK, Some (hdr, 0)) \<longleftrightarrow>
        (\<forall>i<4. \<forall>v. read i = Some v \<and> volhdr_valid v \<longrightarrow> vd_mirror_tid v \<le> 16))"
    using install_first[OF _ v(1), of read] unfolding v(7) by blast
  have tab: "\<forall>i<length ls. fetch (0x200 + 64 * i) 64 (inode_in buf sb) = bref_bytes (qsort_brefs brefs0 ! i)"
    using blk n by (simp add: sb_def)
  have sk: "br_type sb = HAMMER2_BREF_TYPE_INODE" "br_key sb = HAMMER2_SROOT_KEY" "br_keybits sb = 0"
    by (simp_all add: sb_def sroot_bref_def sroot_def blockref_zero_def)
  then have fnd: "\<forall>vchain cache key_next. core_flags vchain AND HAMMER2_CORE_COUNTEDBREFS \<noteq> 0 \<and> core_live_zero vchain = 1 \<longrightarrow>
       (\<exists>c k. hammer2_base_find vchain (Some (sb # replicate 7 blockref_zero)) 8 cache key_next HAMMER2_SROOT_KEY HAMMER2_SROOT_KEY = Ok (0, c, k))"
    using find_sroot[of _ sb] by auto
  have parts: "format_hammer2 writable cfg sz ids now dev = Ok dev' \<and>
    (\<forall>i<4. of_nat i * HAMMER2_ZONE_BYTES64 < sz_total sz \<longrightarrow> dev' (of_nat i * HAMMER2_ZONE_BYTES64) = Some hdr) \<and>
    volhdr_valid hdr \<and> vd_volu_size hdr = sz_total sz \<and> vd_allocator_free hdr = sz_free sz \<and>
    unat (vd_allocator_beg hdr) = 4194304 + unat (sz_boot sz) + unat (sz_aux sz) + 1024 * Suc ?n"
    using fmt v beg by simp
  have parts': "dev' base0 = Some buf \<and> mset ls = mset (newfs_labels cfg) \<and> list_all2 (root_entry hmac base0 buf) ls (qsort_brefs brefs0)"
    using fmt blk by blast
  show ?thesis
    by (rule exI[of _ dev'], rule exI[of _ hdr], rule exI[of _ sb], rule exI[of _ buf], rule exI[of _ "qsort_brefs brefs0"],
        rule exI[of _ ls], unfold so, intro conjI)
      (use parts parts' inst v(8,10) sk fnd chk tab ord in \<open>blast+\<close>)
qed

theorem newfs_mountable_witness:
  "\<exists>dev' hdr. format_hammer2 (\<lambda>_. True) cfg_init (newfs_size cfg_init 0x200000000)
     \<lparr>id_volfsid = replicate 16 1, id_fstype = replicate 16 2, id_supclid = replicate 16 3, id_supfsid = replicate 16 4,
      id_pfs = replicate 3 (replicate 16 5, replicate 16 6)\<rparr> 0 (\<lambda>_. None) = Ok dev' \<and>
   dev' 0 = Some hdr \<and> volhdr_valid hdr \<and> vd_volu_size hdr = 0x200000000 \<and>
   (\<exists>sroot. vd_sroot_bref hdr = bref_bytes sroot \<and> br_type sroot = HAMMER2_BREF_TYPE_INODE \<and> br_key sroot = HAMMER2_SROOT_KEY)"
proof -
  let ?ids = "\<lparr>id_volfsid = replicate 16 1, id_fstype = replicate 16 2, id_supclid = replicate 16 3, id_supfsid = replicate 16 4,
      id_pfs = replicate 3 (replicate 16 5, replicate 16 6)\<rparr> :: vol_ids"
  let ?sz = "newfs_size cfg_init 0x200000000"
  have o: "newfs_options (\<lambda>_. (0, [])) cfg_init [] = Ok cfg_init" by simp
  have u: "unat (0x200000000 :: u64) < 2 ^ 63" by simp
  have ids: "ids_ok ?ids (length (newfs_labels cfg_init))" by (simp add: ids_ok_def newfs_labels_def cfg_init_def)
  have t: "sz_total ?sz = 0x200000000" by (simp add: newfs_size_def newfs_total_def Let_def)
  have f: "4194304 + unat (sz_boot ?sz) + unat (sz_aux ?sz) + 65536 \<le> unat (sz_total ?sz)"
    unfolding t using boot_bounds[OF cfg_init_ok, of "0x200000000"] aux_bounds[OF cfg_init_ok, of "0x200000000"] by simp
  from newfs_mountable[where writable = "\<lambda>_. True" and now = 0 and dev = "\<lambda>_. None", OF o u refl ids f] obtain dev' hdr sroot where
    d: "format_hammer2 (\<lambda>_. True) cfg_init ?sz ?ids 0 (\<lambda>_. None) = Ok dev'"
    "\<forall>i<4. of_nat i * HAMMER2_ZONE_BYTES64 < sz_total ?sz \<longrightarrow> dev' (of_nat i * HAMMER2_ZONE_BYTES64) = Some hdr"
    "volhdr_valid hdr" "vd_volu_size hdr = sz_total ?sz"
    "vd_sroot_bref hdr = bref_bytes sroot" "br_type sroot = HAMMER2_BREF_TYPE_INODE" "br_key sroot = HAMMER2_SROOT_KEY" by blast
  have "dev' 0 = Some hdr" using d(2)[rule_format, of 0] by (simp add: t)
  then show ?thesis using d t by auto
qed

end
