(* ===== verification/H2_Lz4_Decode.thy ===== *)
theory H2_Lz4_Decode
  imports H2_Buffer
begin

unbundle bit_operations_syntax

text \<open>
  The decompressor \<open>LZ4_decompress_safe\<close> of \<^verbatim>\<open>hammer2_lz4.c\<close> at the level of its memory
  accesses.  Source and destination are byte lists of exactly \<open>inputSize\<close> and \<open>outputSize\<close>
  bytes, pointers are indices, and every access outside a buffer is a \<open>Fault\<close>; the copy loops
  move eight bytes at a time and run over the end of what they copy, as in the source.
  \<open>LZ4_decompress_generic\<close> is modelled for the directives of its only caller
  (\<open>endOnInputSize\<close>, \<open>noPrefix\<close>, \<open>full\<close>) on a 64-bit machine.
\<close>

section \<open>Copies\<close>

text \<open>\<open>*d = *s\<close>, \<open>A32(d) = A32(s)\<close>, \<open>A64(d) = A64(s)\<close> within one buffer.\<close>

definition copy_bytes :: "nat \<Rightarrow> bytes \<Rightarrow> nat \<Rightarrow> nat \<Rightarrow> bytes outcome" where
  "copy_bytes n out s d =
     (if s + n \<le> length out \<and> d + n \<le> length out then Ok (store d (fetch s n out) out) else Fault ''access'')"

text \<open>\<open>LZ4_WILDCOPY\<close> within the destination.\<close>

function LZ4_WILDCOPY :: "bytes \<Rightarrow> nat \<Rightarrow> nat \<Rightarrow> nat \<Rightarrow> (bytes \<times> nat \<times> nat) outcome" where
  "LZ4_WILDCOPY out s d e =
     (case copy_bytes 8 out s d of
        Ok out' \<Rightarrow> if d + 8 < e then LZ4_WILDCOPY out' (s + 8) (d + 8) e else Ok (out', s + 8, d + 8)
      | Panic m \<Rightarrow> Panic m
      | Fault m \<Rightarrow> Fault m)"
  by pat_completeness auto
termination by (relation "measure (\<lambda>(out, s, d, e). e - d)") auto

declare LZ4_WILDCOPY.simps [simp del]

text \<open>The same from the source into the destination.\<close>

definition copy8_in :: "bytes \<Rightarrow> bytes \<Rightarrow> nat \<Rightarrow> nat \<Rightarrow> bytes outcome" where
  "copy8_in src out s d =
     (if s + 8 \<le> length src \<and> d + 8 \<le> length out then Ok (store d (fetch s 8 src) out) else Fault ''access'')"

function wildcopy_in :: "bytes \<Rightarrow> bytes \<Rightarrow> nat \<Rightarrow> nat \<Rightarrow> nat \<Rightarrow> bytes outcome" where
  "wildcopy_in src out s d e =
     (case copy8_in src out s d of
        Ok out' \<Rightarrow> if d + 8 < e then wildcopy_in src out' (s + 8) (d + 8) e else Ok out'
      | Panic m \<Rightarrow> Panic m
      | Fault m \<Rightarrow> Fault m)"
  by pat_completeness auto
termination by (relation "measure (\<lambda>(src, out, s, d, e). e - d)") auto

declare wildcopy_in.simps [simp del]

text \<open>\<open>while (op < cpy) *op++ = *ref++\<close>.\<close>

function byte_copy :: "bytes \<Rightarrow> nat \<Rightarrow> nat \<Rightarrow> nat \<Rightarrow> bytes outcome" where
  "byte_copy out ref op cpy =
     (if op < cpy then
        (case copy_bytes 1 out ref op of
           Ok out' \<Rightarrow> byte_copy out' (ref + 1) (op + 1) cpy
         | Panic m \<Rightarrow> Panic m
         | Fault m \<Rightarrow> Fault m)
      else Ok out)"
  by pat_completeness auto
termination by (relation "measure (\<lambda>(out, ref, op, cpy). cpy - op)") auto

declare byte_copy.simps [simp del]

section \<open>The decompressor\<close>

definition dec32table :: "nat list" where
  "dec32table = [0, 3, 2, 3, 0, 0, 0, 0]"

definition dec64table :: "int list" where
  "dec64table = [0, 0, 0, -1, 0, 1, 2, 3]"

text \<open>The first eight bytes of a match; the pointers behind them.\<close>

definition match_start :: "bytes \<Rightarrow> nat \<Rightarrow> nat \<Rightarrow> (bytes \<times> nat \<times> nat) outcome" where
  "match_start out ref op =
     (if op - ref < 8 then
        (let k = op - ref;
             ref4 = ref + 4 - dec32table ! k
         in obind (copy_bytes 1 out ref op) (\<lambda>o1.
            obind (copy_bytes 1 o1 (ref + 1) (op + 1)) (\<lambda>o2.
            obind (copy_bytes 1 o2 (ref + 2) (op + 2)) (\<lambda>o3.
            obind (copy_bytes 1 o3 (ref + 3) (op + 3)) (\<lambda>o4.
            obind (copy_bytes 4 o4 ref4 (op + 4)) (\<lambda>o5.
              Ok (o5, nat (int ref4 - dec64table ! k), op + 8)))))))
      else obind (copy_bytes 8 out ref op) (\<lambda>o1. Ok (o1, ref + 8, op + 8)))"

text \<open>The loops that read the rest of a length.\<close>

function run_length :: "bytes \<Rightarrow> nat \<Rightarrow> nat \<Rightarrow> nat \<times> nat" where
  "run_length src ip len =
     (if ip < length src then
        (let s = unat (src ! ip)
         in if s = 255 then run_length src (ip + 1) (len + s) else (ip + 1, len + s))
      else (ip, len))"
  by pat_completeness auto
termination by (relation "measure (\<lambda>(src, ip, len). length src - ip)") auto

declare run_length.simps [simp del]

function match_length :: "bytes \<Rightarrow> nat \<Rightarrow> nat \<Rightarrow> nat \<times> nat" where
  "match_length src ip len =
     (if ip + 6 < length src then
        (let s = unat (src ! ip)
         in if s = 255 then match_length src (ip + 1) (len + s) else (ip + 1, len + s))
      else (ip, len))"
  by pat_completeness auto
termination by (relation "measure (\<lambda>(src, ip, len). length src - ip)") auto

declare match_length.simps [simp del]

text \<open>
  One pass of the main loop: it returns a result, or goes on with new positions.  An error
  is the negative value that encodes the input position.
\<close>

datatype dec_result = DecDone int bytes | DecNext nat nat bytes

definition dec_error :: "nat \<Rightarrow> bytes \<Rightarrow> dec_result outcome" where
  "dec_error ip out = Ok (DecDone (- int ip - 1) out)"

text \<open>Copying a match of \<open>len + 4\<close> bytes; \<open>ip\<close> is the position after its description.\<close>

definition dec_copy :: "nat \<Rightarrow> bytes \<Rightarrow> nat \<Rightarrow> nat \<Rightarrow> nat \<Rightarrow> dec_result outcome" where
  "dec_copy ip out ref op len =
     obind (match_start out ref op) (\<lambda>(out1, ref1, op1).
       let cpy = op1 + len - 4
       in if cpy + 8 + 4 > length out then
            (if cpy + 5 > length out then dec_error ip out1
             else obind (if op1 + 8 < length out then LZ4_WILDCOPY out1 ref1 op1 (length out - 8)
                         else Ok (out1, ref1, op1)) (\<lambda>(out2, ref2, op2).
                  obind (byte_copy out2 ref2 op2 cpy) (\<lambda>out3. Ok (DecNext ip cpy out3))))
          else obind (LZ4_WILDCOPY out1 ref1 op1 cpy) (\<lambda>(out2, ref2, op2). Ok (DecNext ip cpy out2)))"

text \<open>From the offset of a match on; \<open>op\<close> is the end of the literals.\<close>

definition dec_match :: "bytes \<Rightarrow> u8 \<Rightarrow> nat \<Rightarrow> nat \<Rightarrow> bytes \<Rightarrow> dec_result outcome" where
  "dec_match src token ip op out =
     (if ip + 2 > length src then Fault ''access''
      else let off = unat (le_join (fetch ip 2 src) :: u16); ip2 = ip + 2
           in if op < off then dec_error ip2 out
              else let (ip3, len) = (if unat (token AND 15) = 15 then match_length src ip2 15 else (ip2, unat (token AND 15)))
                   in dec_copy ip3 out (op - off) op len)"

definition dec_step :: "bytes \<Rightarrow> nat \<Rightarrow> nat \<Rightarrow> bytes \<Rightarrow> dec_result outcome" where
  "dec_step src ip op out =
     (if ip \<ge> length src then Fault ''access''
      else let token = src ! ip; ip1 = ip + 1;
               (ip2, len) = (if unat (drop_bit 4 token) = 15 then run_length src ip1 15 else (ip1, unat (drop_bit 4 token)));
               cpy = op + len
           in if cpy + 12 > length out \<or> ip2 + len + 8 > length src then
                (if ip2 + len \<noteq> length src \<or> cpy > length out then dec_error ip2 out
                 else Ok (DecDone (int (op + len)) (store op (fetch ip2 len src) out)))
              else obind (wildcopy_in src out ip2 op cpy) (\<lambda>out1. dec_match src token (ip2 + len) cpy out1))"

lemma run_length_ge: "fst (run_length src ip len) \<ge> ip"
  by (induction src ip len rule: run_length.induct) (subst run_length.simps, force simp: Let_def)

lemma match_length_ge: "fst (match_length src ip len) \<ge> ip"
  by (induction src ip len rule: match_length.induct) (subst match_length.simps, force simp: Let_def)

lemma dec_copy_ip: "dec_copy ip out ref op len = Ok (DecNext ip' op' out') \<Longrightarrow> ip' = ip"
  by (auto simp: dec_copy_def dec_error_def Let_def obind_eq_Ok split: if_splits prod.splits)

lemma dec_match_advances:
  assumes "dec_match src token ip op out = Ok (DecNext ip' op' out')"
  shows "ip < ip'"
proof -
  have "fst (match_length src (ip + 2) 15) \<ge> ip + 2" by (rule match_length_ge)
  with assms show ?thesis
    by (auto simp: dec_match_def dec_error_def Let_def dest!: dec_copy_ip split: if_splits prod.splits)
qed

lemma dec_step_advances:
  assumes "dec_step src ip op out = Ok (DecNext ip' op' out')"
  shows "ip < length src \<and> ip < ip'"
proof -
  have "fst (run_length src (ip + 1) 15) \<ge> ip + 1" by (rule run_length_ge)
  with assms show ?thesis
    by (auto simp: dec_step_def dec_error_def Let_def obind_eq_Ok dest!: dec_match_advances split: if_splits prod.splits)
qed

function dec_loop :: "bytes \<Rightarrow> nat \<Rightarrow> nat \<Rightarrow> bytes \<Rightarrow> (int \<times> bytes) outcome" where
  "dec_loop src ip op out =
     (case dec_step src ip op out of
        Ok r \<Rightarrow> (case r of
                   DecDone res out' \<Rightarrow> Ok (res, out')
                 | DecNext ip' op' out' \<Rightarrow> dec_loop src ip' op' out')
      | Panic m \<Rightarrow> Panic m
      | Fault m \<Rightarrow> Fault m)"
  by pat_completeness auto
termination
  by (relation "measure (\<lambda>(src, ip, op, out). length src - ip)") (auto dest: dec_step_advances)

declare dec_loop.simps [simp del]

definition LZ4_decompress_safe :: "bytes \<Rightarrow> bytes \<Rightarrow> (int \<times> bytes) outcome" where
  "LZ4_decompress_safe src dest =
     (if length dest = 0 then Ok (-1, dest) else dec_loop src 0 0 dest)"

section \<open>Copies: lemmas\<close>

lemma copy_bytes_Ok:
  assumes "s + n \<le> length out" "d + n \<le> length out"
  shows "copy_bytes n out s d = Ok (store d (fetch s n out) out)"
  using assms by (simp add: copy_bytes_def)

lemma copy_bytes_nth:
  assumes "s + n \<le> length out" "d + n \<le> length out" "p < length out"
  shows "store d (fetch s n out) out ! p = (if d \<le> p \<and> p < d + n then out ! (s + (p - d)) else out ! p)"
  using assms by (subst nth_store) (auto simp: length_fetch nth_fetch)

lemma copy_byte_Ok:
  assumes "s < length out" "d < length out"
  shows "copy_bytes 1 out s d = Ok (out[d := out ! s])"
proof -
  have "store d (fetch s 1 out) out = out[d := out ! s]"
    by (rule nth_equalityI)
      (use assms in \<open>auto simp: length_store length_fetch copy_bytes_nth nth_list_update\<close>)
  then show ?thesis using assms by (simp add: copy_bytes_def)
qed

text \<open>
  The wild copy stays in the buffer when its end has eight bytes to spare, leaves what is
  before its target, and repeats at the distance of its pointers when that is at least eight.
\<close>

lemma wildcopy_spec:
  assumes "s \<le> d" "d + 8 \<le> length out" "e + 7 \<le> length out"
  shows "\<exists>out' s' d'. LZ4_WILDCOPY out s d e = Ok (out', s', d') \<and> length out' = length out \<and>
    d' = s' + (d - s) \<and> s \<le> s' \<and> d + 8 \<le> d' \<and> e \<le> d' \<and> d' \<le> length out \<and> (\<forall>p<d. out' ! p = out ! p) \<and>
    (8 \<le> d - s \<longrightarrow> (\<forall>p. d \<le> p \<and> p < d' \<longrightarrow> out' ! p = out' ! (p - (d - s))))"
  using assms
proof (induction out s d e rule: LZ4_WILDCOPY.induct)
  case (1 out s d e)
  let ?o = "store d (fetch s 8 out) out"
  have ok: "copy_bytes 8 out s d = Ok ?o" using "1.prems" by (simp add: copy_bytes_Ok)
  have l: "length ?o = length out" using "1.prems" by (simp add: length_store length_fetch)
  have n: "?o ! p = (if d \<le> p \<and> p < d + 8 then out ! (s + (p - d)) else out ! p)" if "p < length out" for p
    using copy_bytes_nth[of s 8 out d p] "1.prems" that by simp
  have low: "?o ! p = out ! p" if "p < d" for p using n[of p] that "1.prems" by simp
  show ?case
  proof (cases "d + 8 < e")
    case True
    have "s + 8 \<le> d + 8" "d + 8 + 8 \<le> length ?o" "e + 7 \<le> length ?o" using True "1.prems" l by simp_all
    from "1.IH"[OF ok True this] obtain out' s' d' where
      ih: "LZ4_WILDCOPY ?o (s + 8) (d + 8) e = Ok (out', s', d')" "length out' = length out"
        "d' = s' + (d - s)" "s + 8 \<le> s'" "d + 16 \<le> d'" "e \<le> d'" "d' \<le> length out" "\<forall>p<d + 8. out' ! p = ?o ! p"
        "8 \<le> d - s \<Longrightarrow> \<forall>p. d + 8 \<le> p \<and> p < d' \<longrightarrow> out' ! p = out' ! (p - (d - s))"
      using l by auto
    have "LZ4_WILDCOPY out s d e = Ok (out', s', d')"
      by (subst LZ4_WILDCOPY.simps) (use ok True ih(1) in simp)
    moreover have "\<forall>p<d. out' ! p = out ! p" using ih(8) n "1.prems" by simp
    moreover have "out' ! p = out' ! (p - (d - s))" if "8 \<le> d - s" "d \<le> p" "p < d'" for p
    proof (cases "p < d + 8")
      case True
      have "out' ! p = out ! (s + (p - d))" using ih(8) n[of p] True that "1.prems" by simp
      moreover have "s + (p - d) = p - (d - s)" using that "1.prems" by simp
      moreover have lt: "p - (d - s) < d" using True that by arith
      moreover have "out' ! (p - (d - s)) = out ! (p - (d - s))"
        using ih(8)[rule_format, of "p - (d - s)"] low[OF lt] lt by simp
      ultimately show ?thesis by simp
    next
      case False
      then show ?thesis using ih(9) that by simp
    qed
    ultimately show ?thesis using ih(2-7) by (intro exI[of _ out'] exI[of _ s'] exI[of _ d']) simp
  next
    case False
    have ok': "LZ4_WILDCOPY out s d e = Ok (?o, s + 8, d + 8)"
      by (subst LZ4_WILDCOPY.simps) (use ok False in simp)
    have per: "?o ! p = ?o ! (p - (d - s))" if "8 \<le> d - s" "d \<le> p" "p < d + 8" for p
    proof -
      have "?o ! p = out ! (s + (p - d))" using n[of p] that "1.prems" by simp
      moreover have "s + (p - d) = p - (d - s)" using that "1.prems" by simp
      moreover have "p - (d - s) < d" using that by arith
      ultimately show ?thesis using low[of "p - (d - s)"] by simp
    qed
    show ?thesis
    proof (rule exI[of _ ?o], rule exI[of _ "s + 8"], rule exI[of _ "d + 8"], intro conjI)
      show "8 \<le> d - s \<longrightarrow> (\<forall>p. d \<le> p \<and> p < d + 8 \<longrightarrow> ?o ! p = ?o ! (p - (d - s)))" using per by blast
    qed (use ok' low False l "1.prems" in simp_all)
  qed
qed

lemma wildcopy_in_spec:
  assumes "d + 8 \<le> length out" "s + 8 \<le> length src" "e + 7 \<le> length out" "s + (e - d) + 7 \<le> length src"
  shows "\<exists>out'. wildcopy_in src out s d e = Ok out' \<and> length out' = length out \<and> (\<forall>p<d. out' ! p = out ! p) \<and>
    (\<forall>p. d \<le> p \<and> p < e \<longrightarrow> out' ! p = src ! (s + (p - d)))"
  using assms
proof (induction src out s d e rule: wildcopy_in.induct)
  case (1 src out s d e)
  let ?o = "store d (fetch s 8 src) out"
  have ok: "copy8_in src out s d = Ok ?o" using "1.prems" by (simp add: copy8_in_def)
  have l: "length ?o = length out" using "1.prems" by (simp add: length_store length_fetch)
  have n: "?o ! p = (if d \<le> p \<and> p < d + 8 then src ! (s + (p - d)) else out ! p)" if "p < length out" for p
    using "1.prems" that by (subst nth_store) (auto simp: length_fetch nth_fetch)
  show ?case
  proof (cases "d + 8 < e")
    case True
    have "d + 8 + 8 \<le> length ?o" "s + 8 + 8 \<le> length src" "e + 7 \<le> length ?o" "s + 8 + (e - (d + 8)) + 7 \<le> length src"
      using True "1.prems" l by simp_all
    from "1.IH"[OF ok True this] obtain out' where
      ih: "wildcopy_in src ?o (s + 8) (d + 8) e = Ok out'" "length out' = length out" "\<forall>p<d + 8. out' ! p = ?o ! p"
        "\<forall>p. d + 8 \<le> p \<and> p < e \<longrightarrow> out' ! p = src ! (s + 8 + (p - (d + 8)))"
      using l by auto
    have "wildcopy_in src out s d e = Ok out'" by (subst wildcopy_in.simps) (use ok True ih(1) in simp)
    moreover have "\<forall>p<d. out' ! p = out ! p" using ih(3) n "1.prems" by simp
    moreover have "out' ! p = src ! (s + (p - d))" if "d \<le> p" "p < e" for p
      using ih(3,4) n[of p] that "1.prems" by (cases "p < d + 8") auto
    ultimately show ?thesis using ih(2) by blast
  next
    case False
    have "wildcopy_in src out s d e = Ok ?o" by (subst wildcopy_in.simps) (use ok False in simp)
    moreover have "\<forall>p<d. ?o ! p = out ! p" using n "1.prems" by simp
    moreover have "\<forall>p. d \<le> p \<and> p < e \<longrightarrow> ?o ! p = src ! (s + (p - d))" using n False "1.prems" by simp
    ultimately show ?thesis using l by blast
  qed
qed

lemma byte_copy_spec:
  assumes "ref \<le> op" "op \<le> cpy \<longrightarrow> cpy \<le> length out"
  shows "\<exists>out'. byte_copy out ref op cpy = Ok out' \<and> length out' = length out \<and> (\<forall>p<op. out' ! p = out ! p) \<and>
    (ref < op \<longrightarrow> (\<forall>p. op \<le> p \<and> p < cpy \<longrightarrow> out' ! p = out' ! (p - (op - ref))))"
  using assms
proof (induction out ref op cpy rule: byte_copy.induct)
  case (1 out ref op cpy)
  show ?case
  proof (cases "op < cpy")
    case True
    let ?o = "out[op := out ! ref]"
    have ok: "copy_bytes 1 out ref op = Ok ?o" using True "1.prems" by (intro copy_byte_Ok) auto
    obtain out' where ih: "byte_copy ?o (ref + 1) (op + 1) cpy = Ok out'" "length out' = length out"
        "\<forall>p<op + 1. out' ! p = ?o ! p"
        "ref < op \<Longrightarrow> \<forall>p. op + 1 \<le> p \<and> p < cpy \<longrightarrow> out' ! p = out' ! (p - (op - ref))"
      using "1.IH"[OF True ok] "1.prems" True by auto
    have "byte_copy out ref op cpy = Ok out'" by (subst byte_copy.simps) (use ok True ih(1) in simp)
    moreover have "\<forall>p<op. out' ! p = out ! p" using ih(3) by simp
    moreover have "out' ! p = out' ! (p - (op - ref))" if "ref < op" "op \<le> p" "p < cpy" for p
    proof (cases "p = op")
      case True
      have "out' ! op = out ! ref" using ih(3) \<open>op < cpy\<close> "1.prems" by simp
      moreover have "out' ! ref = out ! ref" using ih(3) that by simp
      ultimately show ?thesis using True that by simp
    next
      case False
      then show ?thesis using ih(4) that by simp
    qed
    ultimately show ?thesis using ih(2) by blast
  next
    case False
    then have "byte_copy out ref op cpy = Ok out" by (subst byte_copy.simps) simp
    then show ?thesis using False by auto
  qed
qed

section \<open>Matches\<close>

text \<open>Repeating at a multiple of the offset repeats at the offset.\<close>

lemma periodic_extend:
  fixes f :: "nat \<Rightarrow> 'a"
  assumes off: "0 < off" "off \<le> a" and base: "\<And>p. a \<le> p \<Longrightarrow> p < b \<Longrightarrow> f p = f (p - off)"
    and ext: "\<And>p. b \<le> p \<Longrightarrow> p < c \<Longrightarrow> f p = f (p - D)" and D: "off dvd D" "0 < D" "a + D \<le> b + off"
    and p: "a \<le> p" "p < c"
  shows "f p = f (p - off)"
proof -
  let ?r = "\<lambda>p. a - off + (p - (a - off)) mod off"
  have res: "f p = f (?r p)" if "a - off \<le> p" "p < c" for p
    using that
  proof (induction p rule: less_induct)
    case (less p)
    show ?case
    proof (cases "p < a")
      case True
      then have "(p - (a - off)) mod off = p - (a - off)" using less.prems off by (intro mod_less) linarith
      then show ?thesis using less.prems by simp
    next
      case False
      define q where "q = (if p < b then p - off else p - D)"
      have q: "q < p" "a - off \<le> q" "f p = f q"
        unfolding q_def using False less.prems off D base[of p] ext[of p] by auto
      have "p - q = off \<or> p - q = D" unfolding q_def using False off D less.prems by auto
      then have "off dvd p - q" using D(1) by auto
      then obtain k where k: "p - q = off * k" by (rule dvdE)
      have "p - (a - off) = (q - (a - off)) + off * k" using k q by linarith
      then have "?r p = ?r q" by simp
      then show ?thesis using less.IH[OF q(1,2)] q(1,3) less.prems by simp
    qed
  qed
  have "p - (a - off) = (p - off - (a - off)) + off" using p off by linarith
  then have "?r p = ?r (p - off)" by simp
  then show ?thesis using res[of p] res[of "p - off"] p off by simp
qed

lemma byte_copy_obind:
  "byte_copy out r p c =
     (if p < c then obind (copy_bytes 1 out r p) (\<lambda>o'. byte_copy o' (r + 1) (p + 1) c) else Ok out)"
  by (subst byte_copy.simps) (cases "copy_bytes 1 out r p"; simp)

lemma four_bytes:
  "obind (copy_bytes 1 out r p) (\<lambda>o1. obind (copy_bytes 1 o1 (r + 1) (p + 1)) (\<lambda>o2.
     obind (copy_bytes 1 o2 (r + 2) (p + 2)) (\<lambda>o3. obind (copy_bytes 1 o3 (r + 3) (p + 3)) f))) =
   obind (byte_copy out r p (p + 4)) f"
proof -
  have e: "byte_copy o4 x c c = Ok o4" for o4 x c by (simp add: byte_copy_obind)
  have "byte_copy out r p (p + 4) =
     obind (copy_bytes 1 out r p) (\<lambda>o1. obind (copy_bytes 1 o1 (r + 1) (p + 1)) (\<lambda>o2.
     obind (copy_bytes 1 o2 (r + 2) (p + 2)) (\<lambda>o3. obind (copy_bytes 1 o3 (r + 3) (p + 3)) Ok)))"
    by (subst byte_copy_obind, simp, subst byte_copy_obind, simp, subst byte_copy_obind, simp, subst byte_copy_obind)
      (simp add: e numeral_eq_Suc)
  then show ?thesis by (simp add: obind_assoc)
qed

lemma dec_tables:
  assumes "k < 8"
  shows "dec32table ! k \<le> k + 4 \<and> dec32table ! k \<le> 4 \<and>
    (0 < k \<longrightarrow> 4 \<le> k + dec32table ! k \<and> k dvd k + dec32table ! k \<and>
       8 \<le> int (k + dec32table ! k) + 4 + dec64table ! k \<and> int k dvd int (k + dec32table ! k) + 4 + dec64table ! k \<and>
       int (k + dec32table ! k) + 4 + dec64table ! k \<le> int k + 8)"
proof -
  have "k \<in> {0, 1, 2, 3, 4, 5, 6, 7}" using assms by auto
  then show ?thesis by (auto simp: dec32table_def dec64table_def)
qed

lemma match_start_spec:
  assumes "ref \<le> op" "op + 8 \<le> length out"
  shows "\<exists>out1 ref1. match_start out ref op = Ok (out1, ref1, op + 8) \<and> length out1 = length out \<and> ref1 \<le> op + 8 \<and>
    (\<forall>p<op. out1 ! p = out ! p) \<and>
    (ref < op \<longrightarrow> 8 \<le> op + 8 - ref1 \<and> (op - ref) dvd (op + 8 - ref1) \<and> ref \<le> ref1 \<and>
       (\<forall>p. op \<le> p \<and> p < op + 8 \<longrightarrow> out1 ! p = out1 ! (p - (op - ref))))"
proof (cases "op - ref < 8")
  case False
  let ?o = "store op (fetch ref 8 out) out"
  have ok: "match_start out ref op = Ok (?o, ref + 8, op + 8)"
    using False assms by (simp add: match_start_def copy_bytes_Ok)
  have n: "?o ! p = (if op \<le> p \<and> p < op + 8 then out ! (ref + (p - op)) else out ! p)" if "p < length out" for p
    using copy_bytes_nth[of ref 8 out op p] assms that by simp
  have "?o ! p = ?o ! (p - (op - ref))" if "op \<le> p" "p < op + 8" for p
  proof -
    have "?o ! p = out ! (ref + (p - op))" using n[of p] that assms by simp
    moreover have "ref + (p - op) = p - (op - ref)" "p - (op - ref) < op" using that assms False by arith+
    ultimately show ?thesis using n[of "p - (op - ref)"] assms by simp
  qed
  moreover have "\<forall>p<op. ?o ! p = out ! p" using n assms by simp
  moreover have "length ?o = length out" using assms by (simp add: length_store length_fetch)
  ultimately show ?thesis using ok assms False
    by (intro exI[of _ ?o] exI[of _ "ref + 8"]) (auto simp del: diff_diff_right)
next
  case True
  define k where "k = op - ref"
  have k: "k < 8" "op = ref + k" using True assms by (simp_all add: k_def)
  note tab = dec_tables[OF k(1)]
  define D where "D = k + dec32table ! k"
  have r4: "ref + 4 - dec32table ! k = op + 4 - D" using k by (simp add: D_def)
  obtain o4 where o4: "byte_copy out ref op (op + 4) = Ok o4" "length o4 = length out" "\<forall>p<op. o4 ! p = out ! p"
      "ref < op \<Longrightarrow> \<forall>p. op \<le> p \<and> p < op + 4 \<longrightarrow> o4 ! p = o4 ! (p - k)"
    using byte_copy_spec[of ref op "op + 4" out] assms by (auto simp: k_def)
  let ?o = "store (op + 4) (fetch (op + 4 - D) 4 o4) o4"
  have fit: "op + 4 - D + 4 \<le> length o4" "op + 4 + 4 \<le> length o4" using assms o4(2) tab by auto
  define ref1 where "ref1 = nat (int (op + 4 - D) - dec64table ! k)"
  have ok: "match_start out ref op = Ok (?o, ref1, op + 8)"
    using True unfolding match_start_def Let_def k_def[symmetric] four_bytes o4(1) r4 ref1_def
    by (simp add: copy_bytes_Ok[OF fit])
  have l: "length ?o = length out" using fit o4(2) by (simp add: length_store length_fetch)
  have n: "?o ! p = (if op + 4 \<le> p \<and> p < op + 4 + 4 then o4 ! (op + 4 - D + (p - (op + 4))) else o4 ! p)"
    if "p < length out" for p using copy_bytes_nth[OF fit, of p] o4(2) that by simp
  have low4: "?o ! p = o4 ! p" if "p < op + 4" for p using n[of p] that assms by simp
  have low: "\<forall>p<op. ?o ! p = out ! p" using low4 o4(3) by simp
  have r1: "ref1 \<le> op + 8"
  proof -
    have "- 4 \<le> dec64table ! k" using k(1) by (auto simp: dec64table_def nth_Cons split: nat.splits)
    then show ?thesis by (simp add: ref1_def nat_le_iff)
  qed
  have pos: "8 \<le> op + 8 - ref1 \<and> k dvd (op + 8 - ref1) \<and> ref \<le> ref1 \<and> (\<forall>p. op \<le> p \<and> p < op + 8 \<longrightarrow> ?o ! p = ?o ! (p - k))"
    if lt: "ref < op"
  proof -
    have k0: "0 < k" using lt k by simp
    have D4: "4 \<le> D" "k dvd D" "D \<le> k + 4" using tab k0 by (auto simp: D_def)
    have d: "8 \<le> int D + 4 + dec64table ! k" "int k dvd int D + 4 + dec64table ! k" "int D + 4 + dec64table ! k \<le> int k + 8"
      using tab k0 by (auto simp: D_def)
    have i: "int ref1 = int op + 8 - (int D + 4 + dec64table ! k)" using d D4 k by (simp add: ref1_def)
    have "8 \<le> op + 8 - ref1" using i d by linarith
    moreover have "k dvd (op + 8 - ref1)"
    proof -
      have "int (op + 8 - ref1) = int D + 4 + dec64table ! k" using i d by linarith
      then show ?thesis using d(2) by (metis int_dvd_int_iff)
    qed
    moreover have "ref \<le> ref1" using i d k by linarith
    moreover have "?o ! p = ?o ! (p - k)" if "op \<le> p" "p < op + 8" for p
    proof (rule periodic_extend[where f = "(!) ?o" and a = op and b = "op + 4" and c = "op + 8" and D = D])
      show "0 < k" "k \<le> op" "k dvd D" "0 < D" "op + D \<le> op + 4 + k" "op \<le> p" "p < op + 8" using k0 k D4 that by auto
      show "?o ! q = ?o ! (q - k)" if "op \<le> q" "q < op + 4" for q
      proof -
        have "q - k < op + 4" using that by linarith
        then show ?thesis using low4[of q] low4[of "q - k"] o4(4)[OF lt] that by simp
      qed
      show "?o ! q = ?o ! (q - D)" if "op + 4 \<le> q" "q < op + 8" for q
      proof -
        have e: "op + 4 - D + (q - (op + 4)) = q - D" "q - D < op + 4" using that D4 k by arith+
        have "?o ! q = o4 ! (q - D)" using n[of q] e(1) that assms by simp
        moreover have "?o ! (q - D) = o4 ! (q - D)" using n[of "q - D"] e(2) assms by simp
        ultimately show ?thesis by simp
      qed
    qed
    ultimately show ?thesis by blast
  qed
  show ?thesis unfolding k_def[symmetric] using ok l r1 low pos by blast
qed

text \<open>What copying a match leaves in the destination.\<close>

definition copied :: "bytes \<Rightarrow> bytes \<Rightarrow> nat \<Rightarrow> nat \<Rightarrow> nat \<Rightarrow> bool" where
  "copied out out' op off n \<longleftrightarrow> length out' = length out \<and> (\<forall>p<op. out' ! p = out ! p) \<and>
     (0 < off \<longrightarrow> (\<forall>p. op \<le> p \<and> p < op + n \<longrightarrow> out' ! p = out' ! (p - off)))"

lemma copied_extend:
  assumes m: "length out1 = length out" "\<forall>p<op. out1 ! p = out ! p" "ref \<le> op" "op + 8 \<le> length out"
      "ref < op \<longrightarrow> 8 \<le> op + 8 - ref1 \<and> (op - ref) dvd (op + 8 - ref1) \<and> ref \<le> ref1 \<and>
         (\<forall>p. op \<le> p \<and> p < op + 8 \<longrightarrow> out1 ! p = out1 ! (p - (op - ref)))"
    and w: "length out' = length out" "\<forall>p<op + 8. out' ! p = out1 ! p"
      "ref < op \<Longrightarrow> \<forall>p. op + 8 \<le> p \<and> p < c \<longrightarrow> out' ! p = out' ! (p - (op + 8 - ref1))"
    and n: "op + n \<le> c \<or> op + n \<le> op + 8"
  shows "copied out out' op (op - ref) n"
  unfolding copied_def
proof (intro conjI impI allI)
  show "length out' = length out" by (rule w(1))
  show "out' ! p = out ! p" if "p < op" for p using that w(2) m(2) by simp
  fix p assume off: "0 < op - ref" and p: "op \<le> p \<and> p < op + n"
  then have lt: "ref < op" by simp
  let ?D = "op + 8 - ref1"
  have D: "8 \<le> ?D" "(op - ref) dvd ?D" "ref \<le> ref1"
    and per: "\<forall>p. op \<le> p \<and> p < op + 8 \<longrightarrow> out1 ! p = out1 ! (p - (op - ref))" using m(5) lt by blast+
  have base: "out' ! q = out' ! (q - (op - ref))" if "op \<le> q" "q < op + 8" for q
  proof -
    have "q - (op - ref) < op + 8" using that by linarith
    then show ?thesis using w(2) per that by simp
  qed
  show "out' ! p = out' ! (p - (op - ref))"
  proof (cases "p < op + 8")
    case True
    then show ?thesis using base p by blast
  next
    case False
    then have "p < c" using n p by linarith
    show ?thesis
    proof (rule periodic_extend[where f = "(!) out'" and a = op and b = "op + 8" and c = c and D = ?D])
      show "0 < op - ref" by (rule off)
      show "op - ref \<le> op" by simp
      show "out' ! q = out' ! (q - (op - ref))" if "op \<le> q" "q < op + 8" for q by (rule base[OF that])
      show "out' ! q = out' ! (q - ?D)" if "op + 8 \<le> q" "q < c" for q using w(3)[OF lt] that by blast
      show "(op - ref) dvd ?D" by (rule D(2))
      show "0 < ?D" using D(1) by linarith
      show "op + ?D \<le> op + 8 + (op - ref)" using D(3) by linarith
      show "op \<le> p" using p by blast
      show "p < c" by fact
    qed
  qed
qed

lemma dec_copy_spec:
  assumes "ref \<le> op" "op + 12 \<le> length out"
  shows "(\<exists>out'. dec_copy ip out ref op len = Ok (DecDone (- int ip - 1) out') \<and> length out' = length out \<and>
      length out < op + len + 9) \<or>
    (\<exists>out'. dec_copy ip out ref op len = Ok (DecNext ip (op + len + 4) out') \<and> op + len + 9 \<le> length out \<and>
      copied out out' op (op - ref) (len + 4))"
proof -
  let ?L = "length out" and ?c = "op + len + 4"
  obtain out1 ref1 where m: "match_start out ref op = Ok (out1, ref1, op + 8)" "length out1 = ?L" "ref1 \<le> op + 8"
      "\<forall>p<op. out1 ! p = out ! p"
      "ref < op \<longrightarrow> 8 \<le> op + 8 - ref1 \<and> (op - ref) dvd (op + 8 - ref1) \<and> ref \<le> ref1 \<and>
       (\<forall>p. op \<le> p \<and> p < op + 8 \<longrightarrow> out1 ! p = out1 ! (p - (op - ref)))"
    using match_start_spec[of ref op out] assms by auto
  have o8: "op + 8 \<le> ?L" using assms by simp
  have cpy: "op + 8 + len - 4 = ?c" by simp
  note ext = copied_extend[OF m(2,4) assms(1) o8 m(5)]
  consider (err) "?L < ?c + 5" | (tail) "?c + 5 \<le> ?L" "?L < ?c + 12" | (wild) "?c + 12 \<le> ?L" by linarith
  then show ?thesis
  proof cases
    case err
    then have "dec_copy ip out ref op len = Ok (DecDone (- int ip - 1) out1)"
      using m(1) by (simp add: dec_copy_def dec_error_def cpy Let_def)
    then show ?thesis using m(2) err by simp
  next
    case wild
    have "op + 8 + 8 \<le> length out1" "?c + 7 \<le> length out1" using wild m(2) by auto
    from wildcopy_spec[OF m(3) this] obtain out2 s d where w: "LZ4_WILDCOPY out1 ref1 (op + 8) ?c = Ok (out2, s, d)"
        "length out2 = ?L" "?c \<le> d" "\<forall>p<op + 8. out2 ! p = out1 ! p"
        "8 \<le> op + 8 - ref1 \<longrightarrow> (\<forall>p. op + 8 \<le> p \<and> p < d \<longrightarrow> out2 ! p = out2 ! (p - (op + 8 - ref1)))"
      using m(2) by auto
    have "dec_copy ip out ref op len = Ok (DecNext ip ?c out2)"
      using m(1) w(1) wild by (simp add: dec_copy_def cpy Let_def)
    moreover have "copied out out2 op (op - ref) (len + 4)"
      by (rule ext[OF w(2,4), of d]) (use w(3,5) m(5) in auto)
    ultimately show ?thesis using wild by auto
  next
    case tail
    obtain out2 s d where w: "(if op + 8 + 8 < ?L then LZ4_WILDCOPY out1 ref1 (op + 8) (?L - 8) else Ok (out1, ref1, op + 8)) = Ok (out2, s, d)"
        "length out2 = ?L" "op + 8 \<le> d" "d = s + (op + 8 - ref1)" "\<forall>p<op + 8. out2 ! p = out1 ! p"
        "8 \<le> op + 8 - ref1 \<longrightarrow> (\<forall>p. op + 8 \<le> p \<and> p < d \<longrightarrow> out2 ! p = out2 ! (p - (op + 8 - ref1)))"
    proof (cases "op + 8 + 8 < ?L")
      case True
      have "op + 8 + 8 \<le> length out1" "?L - 8 + 7 \<le> length out1" using True m(2) by auto
      from wildcopy_spec[OF m(3) this] True m(2) show thesis by (auto intro: that)
    next
      case False
      then show thesis using m(2,3) that[of out1 ref1 "op + 8"] by simp
    qed
    have "s \<le> d" "d \<le> ?c \<longrightarrow> ?c \<le> length out2" using w(2,4) tail by auto
    from byte_copy_spec[OF this] obtain out3 where b: "byte_copy out2 s d ?c = Ok out3" "length out3 = ?L"
        "\<forall>p<d. out3 ! p = out2 ! p" "s < d \<longrightarrow> (\<forall>p. d \<le> p \<and> p < ?c \<longrightarrow> out3 ! p = out3 ! (p - (d - s)))"
      using w(2) by auto
    have "dec_copy ip out ref op len = Ok (DecNext ip ?c out3)"
      using m(1) w(1) b(1) tail by (simp add: dec_copy_def cpy Let_def)
    moreover have "copied out out3 op (op - ref) (len + 4)"
    proof (rule ext[OF b(2), of ?c])
      show "\<forall>p<op + 8. out3 ! p = out1 ! p" using b(3) w(3,5) by simp
      show "\<forall>p. op + 8 \<le> p \<and> p < ?c \<longrightarrow> out3 ! p = out3 ! (p - (op + 8 - ref1))" if "ref < op"
      proof (intro allI impI)
        fix p assume p: "op + 8 \<le> p \<and> p < ?c"
        have D: "8 \<le> op + 8 - ref1" using m(5) that by blast
        show "out3 ! p = out3 ! (p - (op + 8 - ref1))"
        proof (cases "p < d")
          case True
          then have "p - (op + 8 - ref1) < d" by linarith
          then show ?thesis using True w(6) D p b(3) by simp
        next
          case False
          have "d - s = op + 8 - ref1" "s < d" using w(4) D by auto
          then show ?thesis using b(4) False p by (metis not_less)
        qed
      qed
    qed (use tail in auto)
    ultimately show ?thesis using tail by auto
  qed
qed

section \<open>Memory safety\<close>

lemma match_length_bound: "ip + 6 \<le> length src \<Longrightarrow> fst (match_length src ip len) + 6 \<le> length src"
  by (induction src ip len rule: match_length.induct) (subst match_length.simps, force simp: Let_def)

lemma dec_match_safe:
  assumes "ip + 8 \<le> length src" "op + 12 \<le> length out"
  shows "\<exists>r. dec_match src token ip op out = Ok r \<and>
    (case r of DecDone res out' \<Rightarrow> length out' = length out \<and> res < 0
     | DecNext ip' op' out' \<Rightarrow> length out' = length out \<and> op' \<le> length out \<and> ip' < length src)"
proof -
  define off where "off = unat (le_join (fetch ip 2 src) :: u16)"
  define il where "il = (if unat (token AND 15) = 15 then match_length src (ip + 2) 15 else (ip + 2, unat (token AND 15)))"
  have b: "fst il + 6 \<le> length src"
    using match_length_bound[of "ip + 2" src 15] assms(1) by (simp add: il_def)
  show ?thesis
  proof (cases "op < off")
    case True
    then show ?thesis using assms(1) by (simp add: dec_match_def dec_error_def off_def[symmetric])
  next
    case False
    have e: "dec_match src token ip op out = dec_copy (fst il) out (op - off) op (snd il)"
      using False assms(1) unfolding dec_match_def Let_def off_def[symmetric] il_def[symmetric] case_prod_beta by simp
    show ?thesis unfolding e using dec_copy_spec[OF _ assms(2), of "op - off" "fst il" "snd il"] b
      by (auto simp: copied_def)
  qed
qed

lemma dec_step_safe:
  assumes "ip < length src" "op \<le> length out"
  shows "\<exists>r. dec_step src ip op out = Ok r \<and>
    (case r of DecDone res out' \<Rightarrow> length out' = length out \<and> res \<le> int (length out)
     | DecNext ip' op' out' \<Rightarrow> length out' = length out \<and> op' \<le> length out \<and> ip' < length src)"
proof -
  define token where "token = src ! ip"
  define il where "il = (if unat (drop_bit 4 token) = 15 then run_length src (ip + 1) 15 else (ip + 1, unat (drop_bit 4 token)))"
  obtain ip2 len where il: "il = (ip2, len)" by (cases il)
  have e: "dec_step src ip op out =
     (if op + len + 12 > length out \<or> ip2 + len + 8 > length src then
        (if ip2 + len \<noteq> length src \<or> op + len > length out then dec_error ip2 out
         else Ok (DecDone (int (op + len)) (store op (fetch ip2 len src) out)))
      else obind (wildcopy_in src out ip2 op (op + len)) (\<lambda>out1. dec_match src token (ip2 + len) (op + len) out1))"
    using assms(1) il unfolding dec_step_def token_def[symmetric] il_def[symmetric] Let_def by simp
  show ?thesis
  proof (cases "op + len + 12 > length out \<or> ip2 + len + 8 > length src")
    case True
    show ?thesis
    proof (cases "ip2 + len \<noteq> length src \<or> op + len > length out")
      case err: True
      then have "dec_step src ip op out = Ok (DecDone (- int ip2 - 1) out)" unfolding e using True by (simp add: dec_error_def)
      then show ?thesis by simp
    next
      case fin: False
      then have "dec_step src ip op out = Ok (DecDone (int (op + len)) (store op (fetch ip2 len src) out))" unfolding e using True by simp
      moreover have "length (store op (fetch ip2 len src) out) = length out" using fin by (simp add: length_store length_fetch)
      ultimately show ?thesis using fin by simp
    qed
  next
    case False
    then obtain out1 where w: "wildcopy_in src out ip2 op (op + len) = Ok out1" "length out1 = length out"
      using wildcopy_in_spec[of op out ip2 src "op + len"] by auto
    have "ip2 + len + 8 \<le> length src" "op + len + 12 \<le> length out1" using False w(2) by auto
    from dec_match_safe[OF this, of token] obtain r where r: "dec_match src token (ip2 + len) (op + len) out1 = Ok r"
      "(case r of DecDone res out' \<Rightarrow> length out' = length out \<and> res < 0
       | DecNext ip' op' out' \<Rightarrow> length out' = length out \<and> op' \<le> length out \<and> ip' < length src)" unfolding w(2) by blast
    have "dec_step src ip op out = Ok r" unfolding e using False w(1) r(1) by simp
    then show ?thesis using r(2) by (auto split: dec_result.splits)
  qed
qed

lemma dec_loop_safe:
  "ip < length src \<Longrightarrow> op \<le> length out \<Longrightarrow>
   \<exists>res out'. dec_loop src ip op out = Ok (res, out') \<and> length out' = length out \<and> res \<le> int (length out)"
proof (induction src ip op out rule: dec_loop.induct)
  case (1 src ip op out)
  from dec_step_safe[OF "1.prems"] obtain r where r: "dec_step src ip op out = Ok r"
    "case r of DecDone res out' \<Rightarrow> length out' = length out \<and> res \<le> int (length out)
     | DecNext ip' op' out' \<Rightarrow> length out' = length out \<and> op' \<le> length out \<and> ip' < length src" by blast
  show ?case
  proof (cases r)
    case (DecDone res out')
    then show ?thesis using r by (subst dec_loop.simps) simp
  next
    case (DecNext ip' op' out')
    with "1.IH"[OF r(1) this] r show ?thesis by (subst dec_loop.simps) auto
  qed
qed

section \<open>The format\<close>

text \<open>
  A compressed block is a list of sequences, each of literals and a match (its offset back
  into the output and its length less four), and final literals.
\<close>

datatype lz_seq = LzSeq bytes nat nat

definition ext_bytes :: "nat \<Rightarrow> bytes" where
  "ext_bytes n = replicate (n div 255) 255 @ [of_nat (n mod 255)]"

definition len_ext :: "nat \<Rightarrow> bytes" where
  "len_ext n = (if n < 15 then [] else ext_bytes (n - 15))"

fun enc_seq :: "lz_seq \<Rightarrow> bytes" where
  "enc_seq (LzSeq lits off len) =
     [of_nat (16 * min (length lits) 15 + min len 15)] @ len_ext (length lits) @ lits @
     le_split 2 (of_nat off :: u16) @ len_ext len"

definition enc_last :: "bytes \<Rightarrow> bytes" where
  "enc_last lits = [of_nat (16 * min (length lits) 15)] @ len_ext (length lits) @ lits"

text \<open>The output: a match repeats the bytes \<open>off\<close> back, one after the other.\<close>

fun lz_copy :: "nat \<Rightarrow> nat \<Rightarrow> bytes \<Rightarrow> bytes" where
  "lz_copy off 0 out = out"
| "lz_copy off (Suc n) out = (let o' = lz_copy off n out in o' @ [o' ! (length o' - off)])"

fun lz_out :: "bytes \<Rightarrow> lz_seq list \<Rightarrow> bytes" where
  "lz_out out [] = out"
| "lz_out out (LzSeq lits off len # ss) = lz_out (lz_copy off (len + 4) (out @ lits)) ss"

text \<open>The end-of-block rules: matches start 12 and end 5 bytes before the end or earlier.\<close>

fun seqs_ok :: "nat \<Rightarrow> nat \<Rightarrow> lz_seq list \<Rightarrow> bool" where
  "seqs_ok n pos [] \<longleftrightarrow> True"
| "seqs_ok n pos (LzSeq lits off len # ss) \<longleftrightarrow>
     0 < off \<and> off \<le> pos + length lits \<and> off < 65536 \<and> pos + length lits + 12 \<le> n \<and>
     pos + length lits + len + 9 \<le> n \<and> seqs_ok n (pos + length lits + len + 4) ss"

lemma length_lz_copy [simp]: "length (lz_copy off n out) = length out + n"
  by (induction n) (auto simp: Let_def)

lemma copied_lz:
  assumes "copied out out' op off n" "0 < off" "off \<le> op" "op + n \<le> length out"
  shows "take (op + n) out' = lz_copy off n (take op out)"
  using assms
proof (induction n)
  case 0
  then show ?case by (auto simp: copied_def intro: nth_equalityI)
next
  case (Suc n)
  have c: "copied out out' op off n" using Suc.prems(1) by (simp add: copied_def)
  have ih: "take (op + n) out' = lz_copy off n (take op out)" by (rule Suc.IH) (use c Suc.prems in auto)
  have l: "length out' = length out" using Suc.prems(1) by (simp add: copied_def)
  have "out' ! (op + n) = out' ! (op + n - off)" using Suc.prems(1,2) by (auto simp: copied_def)
  also have "\<dots> = take (op + n) out' ! (op + n - off)" using Suc.prems by simp
  also have "\<dots> = lz_copy off n (take op out) ! (op + n - off)" by (simp only: ih)
  finally have "out' ! (op + n) = lz_copy off n (take op out) ! (op + n - off)" .
  moreover have "take (op + Suc n) out' = take (op + n) out' @ [out' ! (op + n)]"
    using Suc.prems(4) l by (simp add: take_Suc_conv_app_nth)
  ultimately show ?case using ih Suc.prems by (simp add: Let_def min_def)
qed

lemma token_nibbles:
  assumes "a \<le> 15" "b \<le> 15"
  shows "unat (drop_bit 4 (of_nat (16 * a + b) :: u8)) = a" "unat ((of_nat (16 * a + b) :: u8) AND 15) = b"
proof -
  have u: "unat (of_nat (16 * a + b) :: u8) = 16 * a + b" by (rule unat_of_nat_small) (use assms in simp)
  show "unat (drop_bit 4 (of_nat (16 * a + b) :: u8)) = a" unfolding unat_drop_bit u using assms by simp
  have m: "(15 :: u8) = mask 4" by (simp add: mask_numeral)
  show "unat ((of_nat (16 * a + b) :: u8) AND 15) = b" unfolding m unat_and_mask u using assms by simp
qed

lemma length_ext_bytes [simp]: "length (ext_bytes n) = n div 255 + 1"
  by (simp add: ext_bytes_def)

lemma ext_bytes_step: "ext_bytes (n + 255) = 255 # ext_bytes n"
proof -
  have "(n + 255) div 255 = Suc (n div 255)" "(n + 255) mod 255 = n mod 255" by simp_all
  then show ?thesis by (simp only: ext_bytes_def replicate_Suc append_Cons)
qed

lemma drop_Cons_nth: "drop ip src = b # rest \<Longrightarrow> ip < length src \<and> src ! ip = b \<and> drop (ip + 1) src = rest"
  by (metis Suc_eq_plus1 drop_all list.distinct(1) list.inject Cons_nth_drop_Suc not_le)

lemma run_length_ext:
  "drop ip src = ext_bytes n @ rest \<Longrightarrow> run_length src ip len = (ip + n div 255 + 1, len + n)"
proof (induction n arbitrary: ip len rule: less_induct)
  case (less n)
  show ?case
  proof (cases "n < 255")
    case True
    then have e: "ext_bytes n = [of_nat n]" by (simp add: ext_bytes_def)
    have d: "ip < length src" "src ! ip = of_nat n" using drop_Cons_nth[of ip src] less.prems e by auto
    have "unat (of_nat n :: u8) = n" by (rule unat_of_nat_small) (use True in simp)
    then show ?thesis using d True by (subst run_length.simps) (simp add: Let_def)
  next
    case False
    then obtain m where m: "n = m + 255" by (metis add.commute le_add_diff_inverse not_le)
    have d: "ip < length src" "src ! ip = 255" "drop (ip + 1) src = ext_bytes m @ rest"
      using drop_Cons_nth[of ip src] less.prems ext_bytes_step[of m] m by auto
    have "run_length src ip len = run_length src (ip + 1) (len + 255)" using d by (subst run_length.simps) (simp add: Let_def)
    also have "\<dots> = (ip + 1 + m div 255 + 1, len + 255 + m)" by (rule less.IH) (use m d in auto)
    finally show ?thesis using m by simp
  qed
qed

lemma match_length_ext:
  "drop ip src = ext_bytes n @ rest \<Longrightarrow> 6 \<le> length rest \<Longrightarrow> match_length src ip len = (ip + n div 255 + 1, len + n)"
proof (induction n arbitrary: ip len rule: less_induct)
  case (less n)
  have "length src - ip = n div 255 + 1 + length rest" using arg_cong[OF less.prems(1), of length] by simp
  then have lim: "ip + 6 < length src" using less.prems(2) by linarith
  show ?case
  proof (cases "n < 255")
    case True
    then have e: "ext_bytes n = [of_nat n]" by (simp add: ext_bytes_def)
    have d: "src ! ip = of_nat n" using drop_Cons_nth[of ip src] less.prems e by auto
    have "unat (of_nat n :: u8) = n" by (rule unat_of_nat_small) (use True in simp)
    then show ?thesis using d True lim by (subst match_length.simps) (simp add: Let_def)
  next
    case False
    then obtain m where m: "n = m + 255" by (metis add.commute le_add_diff_inverse not_le)
    have d: "src ! ip = 255" "drop (ip + 1) src = ext_bytes m @ rest"
      using drop_Cons_nth[of ip src] less.prems ext_bytes_step[of m] m by auto
    have "match_length src ip len = match_length src (ip + 1) (len + 255)"
      using d lim by (subst match_length.simps) (simp add: Let_def)
    also have "\<dots> = (ip + 1 + m div 255 + 1, len + 255 + m)" by (rule less.IH) (use m d less.prems in auto)
    finally show ?thesis using m by simp
  qed
qed

section \<open>Decoding well-formed blocks\<close>

lemma lit_header:
  assumes "drop ip src = [of_nat (16 * min n 15 + b)] @ len_ext n @ rest" "b \<le> 15"
    and t: "token = src ! ip"
  shows "ip < length src" "unat (token AND 15) = b" "drop (ip + 1 + length (len_ext n)) src = rest"
    "(if unat (drop_bit 4 token) = 15 then run_length src (ip + 1) 15 else (ip + 1, unat (drop_bit 4 token))) =
       (ip + 1 + length (len_ext n), n)"
proof -
  have d: "ip < length src" "src ! ip = of_nat (16 * min n 15 + b)" "drop (ip + 1) src = len_ext n @ rest"
    using drop_Cons_nth[of ip src] assms(1) by auto
  note nib = token_nibbles[of "min n 15" b, OF _ assms(2)]
  show "ip < length src" by (rule d(1))
  show "unat (token AND 15) = b" unfolding t d(2) by (rule nib(2)) simp
  show "drop (ip + 1 + length (len_ext n)) src = rest"
    using d(3) by (metis append_eq_conv_conj drop_drop add.commute)
  have tk: "unat (drop_bit 4 token) = min n 15" unfolding t d(2) by (rule nib(1)) simp
  show "(if unat (drop_bit 4 token) = 15 then run_length src (ip + 1) 15 else (ip + 1, unat (drop_bit 4 token))) =
       (ip + 1 + length (len_ext n), n)"
  proof (cases "n < 15")
    case True
    then show ?thesis unfolding tk by (simp add: len_ext_def)
  next
    case False
    then have "run_length src (ip + 1) 15 = (ip + 1 + (n - 15) div 255 + 1, 15 + (n - 15))"
      using d(3) by (intro run_length_ext[where rest = rest]) (simp add: len_ext_def)
    then show ?thesis unfolding tk using False by (simp add: len_ext_def)
  qed
qed

lemma match_header:
  assumes "drop ip src = len_ext n @ rest" "6 \<le> length rest" "unat (token AND 15) = min n 15"
  shows "(if unat (token AND 15) = 15 then match_length src ip 15 else (ip, unat (token AND 15))) =
       (ip + length (len_ext n), n)"
proof (cases "n < 15")
  case False
  then have "match_length src ip 15 = (ip + (n - 15) div 255 + 1, 15 + (n - 15))"
    using assms(1,2) by (intro match_length_ext[where rest = rest]) (simp_all add: len_ext_def)
  then show ?thesis unfolding assms(3) using False by (simp add: len_ext_def)
qed (simp add: assms(3) len_ext_def)

lemma take_append_nth:
  assumes "\<forall>p<op. out' ! p = out ! p" "\<forall>p. op \<le> p \<and> p < op + length l \<longrightarrow> out' ! p = l ! (p - op)"
    "length out' = length out" "op + length l \<le> length out"
  shows "take (op + length l) out' = take op out @ l"
proof (rule nth_equalityI)
  fix i assume "i < length (take (op + length l) out')"
  then have i: "i < op + length l" by simp
  have l: "length (take op out) = op" using assms(4) by simp
  show "take (op + length l) out' ! i = (take op out @ l) ! i"
  proof (cases "i < op")
    case True
    then show ?thesis using i assms(1) l by (simp add: nth_append)
  next
    case False
    then show ?thesis using i assms(2) l by (simp add: nth_append)
  qed
qed (use assms in simp)

lemma dec_step_seq:
  assumes src: "drop ip src = enc_seq (LzSeq l off len) @ rest" "6 \<le> length rest"
    and off: "0 < off" "off \<le> op + length l" "off < 65536"
    and lim: "op + length l + 12 \<le> length out" "op + length l + len + 9 \<le> length out"
  shows "\<exists>out'. dec_step src ip op out = Ok (DecNext (ip + length (enc_seq (LzSeq l off len))) (op + length l + len + 4) out') \<and>
    length out' = length out \<and> take (op + length l + len + 4) out' = lz_copy off (len + 4) (take op out @ l)"
proof -
  define token where "token = src ! ip"
  let ?tail = "le_split 2 (of_nat off :: u16) @ len_ext len @ rest"
  have s: "drop ip src = [of_nat (16 * min (length l) 15 + min len 15)] @ len_ext (length l) @ (l @ ?tail)"
    using src(1) by simp
  note h = lit_header[OF s _ token_def]
  define ip2 where "ip2 = ip + 1 + length (len_ext (length l))"
  have d2: "drop ip2 src = l @ ?tail" unfolding ip2_def by (rule h(3)) simp
  then have d3: "drop (ip2 + length l) src = ?tail" by (metis append_eq_conv_conj drop_drop add.commute)
  have room: "ip2 + length l + 8 \<le> length src"
    using arg_cong[OF d3, of length] src(2) by simp
  have fl: "fetch ip2 (length l) src = l" using d2 by (simp add: fetch_def)
  have nl: "src ! (ip2 + i) = l ! i" if "i < length l" for i
    using nth_fetch[of ip2 "length l" src i] fl room that by simp
  obtain out1 where w: "wildcopy_in src out ip2 op (op + length l) = Ok out1" "length out1 = length out"
      "\<forall>p<op. out1 ! p = out ! p" "\<forall>p. op \<le> p \<and> p < op + length l \<longrightarrow> out1 ! p = src ! (ip2 + (p - op))"
    using wildcopy_in_spec[of op out ip2 src "op + length l"] room lim by auto
  have t1: "take (op + length l) out1 = take op out @ l"
  proof (rule take_append_nth)
    show "\<forall>p. op \<le> p \<and> p < op + length l \<longrightarrow> out1 ! p = l ! (p - op)"
    proof (intro allI impI)
      fix p assume p: "op \<le> p \<and> p < op + length l"
      then have "out1 ! p = src ! (ip2 + (p - op))" using w(4) by blast
      also have "\<dots> = l ! (p - op)" by (rule nl) (use p in linarith)
      finally show "out1 ! p = l ! (p - op)" .
    qed
  qed (use w lim in simp_all)
  have step: "dec_step src ip op out = dec_match src token (ip2 + length l) (op + length l) out1"
    using h(1) h(4)[folded ip2_def] room lim w(1)
    unfolding dec_step_def token_def[symmetric] Let_def by simp
  let ?ip4 = "ip2 + length l + 2"
  have f2: "fetch (ip2 + length l) 2 src = le_split 2 (of_nat off :: u16)" using d3 by (simp add: fetch_def)
  have o16: "unat (of_nat off :: u16) = off" by (rule unat_of_nat_small) (use off(3) in simp)
  have roff: "unat (le_join (fetch (ip2 + length l) 2 src) :: u16) = off"
    unfolding f2 using o16 by (simp add: le_join_split)
  have d4: "drop ?ip4 src = len_ext len @ rest"
    using arg_cong[OF d3, of "drop 2"] by (simp add: add.commute)
  have tk: "unat (token AND 15) = min len 15" by (rule h(2)) simp
  have mh: "(if unat (token AND 15) = 15 then match_length src ?ip4 15 else (?ip4, unat (token AND 15))) = (?ip4 + length (len_ext len), len)"
    by (rule match_header[OF d4 src(2) tk])
  have "dec_match src token (ip2 + length l) (op + length l) out1 =
      dec_copy (?ip4 + length (len_ext len)) out1 (op + length l - off) (op + length l) len"
    unfolding dec_match_def Let_def roff using mh off(2) room by simp
  moreover have "?ip4 + length (len_ext len) = ip + length (enc_seq (LzSeq l off len))" by (simp add: ip2_def)
  ultimately have step2: "dec_step src ip op out =
      dec_copy (ip + length (enc_seq (LzSeq l off len))) out1 (op + length l - off) (op + length l) len"
    using step by (simp only:)
  have "op + length l - off \<le> op + length l" "op + length l + 12 \<le> length out1" using lim w(2) by auto
  from dec_copy_spec[OF this, of "ip + length (enc_seq (LzSeq l off len))" len] lim(2) w(2) obtain out' where
    c: "dec_step src ip op out = Ok (DecNext (ip + length (enc_seq (LzSeq l off len))) (op + length l + len + 4) out')"
      "copied out1 out' (op + length l) off (len + 4)" unfolding step2 using off(2) by auto
  have "take (op + length l + (len + 4)) out' = lz_copy off (len + 4) (take (op + length l) out1)"
    by (rule copied_lz[OF c(2) off(1,2)]) (use lim w(2) in simp)
  then show ?thesis using c w(2) t1 by (auto simp: copied_def add.assoc)
qed

lemma dec_step_last:
  assumes "drop ip src = enc_last l" "op + length l \<le> length out"
  shows "dec_step src ip op out = Ok (DecDone (int (op + length l)) (store op l out))"
proof -
  define token where "token = src ! ip"
  have s: "drop ip src = [of_nat (16 * min (length l) 15 + 0)] @ len_ext (length l) @ l"
    using assms(1) by (simp add: enc_last_def)
  note h = lit_header[OF s _ token_def]
  define ip2 where "ip2 = ip + 1 + length (len_ext (length l))"
  have d2: "drop ip2 src = l" unfolding ip2_def by (rule h(3)) simp
  have e: "ip2 + length l = length src"
  proof -
    have "length (drop ip src) = 1 + length (len_ext (length l)) + length l" unfolding s by simp
    then show ?thesis using h(1) by (simp add: ip2_def)
  qed
  have "fetch ip2 (length l) src = l" using d2 by (simp add: fetch_def)
  then show ?thesis using h(1) h(4)[folded ip2_def] e assms(2)
    unfolding dec_step_def token_def[symmetric] Let_def by simp
qed

lemma lz_out_length: "length out \<le> length (lz_out out ss)"
  by (induction out ss rule: lz_out.induct) auto

lemma dec_loop_seqs:
  assumes "drop ip src = concat (map enc_seq ss) @ enc_last l" "take op out = o'" "length o' = op"
    "n = length (lz_out o' ss) + length l" "seqs_ok n op ss" "n \<le> length out" "ss \<noteq> [] \<longrightarrow> 5 \<le> length l"
  shows "\<exists>out'. dec_loop src ip op out = Ok (int n, out') \<and> length out' = length out \<and> take n out' = lz_out o' ss @ l"
  using assms
proof (induction ss arbitrary: ip op out o')
  case Nil
  have n: "n = op + length l" using Nil.prems by simp
  have st: "dec_step src ip op out = Ok (DecDone (int n) (store op l out))"
    unfolding n by (rule dec_step_last) (use Nil.prems n in simp_all)
  have "dec_loop src ip op out = Ok (int n, store op l out)" by (subst dec_loop.simps) (simp add: st)
  moreover have "take n (store op l out) = o' @ l" unfolding n using take_store_after[of op l out] Nil.prems n by simp
  moreover have "length (store op l out) = length out" using Nil.prems n by (simp add: length_store)
  ultimately show ?case by simp
next
  case (Cons sq ss)
  obtain lits off len where sq: "sq = LzSeq lits off len" by (cases sq)
  let ?rest = "concat (map enc_seq ss) @ enc_last l"
  let ?op = "op + length lits + len + 4" and ?o = "lz_copy off (len + 4) (o' @ lits)"
  have l5: "5 \<le> length l" using Cons.prems(7) by simp
  have r6: "6 \<le> length ?rest" using l5 by (simp add: enc_last_def)
  have ok: "0 < off" "off \<le> op + length lits" "off < 65536" "op + length lits + 12 \<le> n" "op + length lits + len + 9 \<le> n"
      "seqs_ok n ?op ss" using Cons.prems(5) by (simp_all add: sq)
  have d: "drop ip src = enc_seq (LzSeq lits off len) @ ?rest" using Cons.prems(1) by (simp add: sq)
  obtain out1 where st: "dec_step src ip op out = Ok (DecNext (ip + length (enc_seq (LzSeq lits off len))) ?op out1)"
      "length out1 = length out" "take ?op out1 = ?o"
    using dec_step_seq[OF d r6 ok(1-3), of out] ok(4,5) Cons.prems(2,6) by auto
  have d': "drop (ip + length (enc_seq (LzSeq lits off len))) src = ?rest"
    using d by (metis append_eq_conv_conj drop_drop add.commute)
  have "\<exists>out'. dec_loop src (ip + length (enc_seq (LzSeq lits off len))) ?op out1 = Ok (int n, out') \<and>
      length out' = length out1 \<and> take n out' = lz_out ?o ss @ l"
    by (rule Cons.IH[OF d' st(3)]) (use Cons.prems ok(6) st(2) sq l5 in auto)
  then show ?case using st(1,2) by (subst dec_loop.simps) (auto simp: sq)
qed

section \<open>Properties\<close>

text \<open>
  C24: the decompressor is memory safe.  On any nonempty input, however corrupted, and any
  output buffer, \<open>LZ4_decompress_safe\<close> returns without reading outside the input or accessing
  anything outside the output buffer, and a result that is not an error is at most the size
  of that buffer.  On an empty input it reads the byte after it.
\<close>

theorem lz4_decompress_memory_safe:
  "if src = [] \<and> dest \<noteq> [] then LZ4_decompress_safe src dest = Fault ''access''
   else (\<exists>res out. LZ4_decompress_safe src dest = Ok (res, out) \<and> length out = length dest \<and> res \<le> int (length dest))"
proof -
  have "LZ4_decompress_safe [] dest = Fault ''access''" if "dest \<noteq> []"
    using that by (simp add: LZ4_decompress_safe_def dec_loop.simps dec_step_def)
  then show ?thesis using dec_loop_safe[of 0 src 0 dest] by (auto simp: LZ4_decompress_safe_def)
qed

end
