(* ===== verification/H2_Lz4_Encode.thy ===== *)
theory H2_Lz4_Encode
  imports H2_Lz4_Decode
begin

unbundle bit_operations_syntax

text \<open>
  The compressor \<open>LZ4_compress_limitedOutput\<close> of \<^verbatim>\<open>hammer2_lz4.c\<close> and
  \<^verbatim>\<open>hammer2_lz4_encoder.h\<close>, on a 64-bit machine.  The header is included once, without
  \<open>COMPRESS_64K\<close>, so that both compression functions are the same code with a table of 4096
  32-bit positions.  The source has \<open>inputSize\<close> bytes; the destination is a buffer whose
  length is its real capacity, \<open>omax\<close> is \<open>maxOutputSize\<close>, and a write outside the buffer is
  a \<open>Fault\<close>.  The table maps a hash to a position; all positions in it lie before the
  current one, so that the reads at \<open>ref\<close> and \<open>ip\<close> stay in the source.
\<close>

section \<open>Reading the source\<close>

definition A32 :: "bytes \<Rightarrow> nat \<Rightarrow> u32" where "A32 src p = le_join (fetch p 4 src)"
definition A64 :: "bytes \<Rightarrow> nat \<Rightarrow> u64" where "A64 src p = le_join (fetch p 8 src)"
definition A16 :: "bytes \<Rightarrow> nat \<Rightarrow> u16" where "A16 src p = le_join (fetch p 2 src)"

definition LZ4_HASHVALUE :: "bytes \<Rightarrow> nat \<Rightarrow> nat" where
  "LZ4_HASHVALUE src p = unat (drop_bit 20 (A32 src p * 2654435761))"

definition LZ4_NbCommonBytes :: "u64 \<Rightarrow> nat" where
  "LZ4_NbCommonBytes val = length (takeWhile (\<lambda>i. \<not> bit val i) [0..<64]) div 8"

type_synonym hash_table = "nat \<Rightarrow> nat"

text \<open>
  Finding a match: \<open>n\<close> attempts have been made, the hash of \<open>ip\<close> is known.  \<open>None\<close> is the
  jump to \<open>_last_literals\<close>.
\<close>

function find_match :: "bytes \<Rightarrow> hash_table \<Rightarrow> nat \<Rightarrow> nat \<Rightarrow> nat \<Rightarrow> (nat \<times> nat \<times> hash_table) option" where
  "find_match src tab h ip n =
     (let step = (2 ^ 6 + 3 + n) div 2 ^ 6; forwardIp = ip + step
      in if forwardIp > length src - 12 then None
         else let forwardH = LZ4_HASHVALUE src forwardIp; ref = tab h; tab' = tab(h := ip)
              in if ref + 65535 < ip \<or> A32 src ref \<noteq> A32 src ip
                 then find_match src tab' forwardH forwardIp (n + 1)
                 else Some (ip, ref, tab'))"
  by pat_completeness auto
termination
proof (relation "measure (\<lambda>(src, tab, h, ip, n). length src - ip)")
  fix src :: bytes and tab :: hash_table and h ip n step forwardIp
  assume s: "step = (2 ^ 6 + 3 + n) div 2 ^ 6" "forwardIp = ip + step" and f: "\<not> length src - 12 < forwardIp"
  have "1 \<le> step" unfolding s(1) by (simp add: div_greater_zero_iff Suc_le_eq)
  then have "ip < forwardIp" "ip < length src" using s(2) f by auto
  then show "((src, tab', forwardH, forwardIp, n + 1), (src, tab, h, ip, n)) \<in> measure (\<lambda>(src, tab, h, ip, n). length src - ip)"
    for tab' forwardH by simp
qed simp_all

declare find_match.simps [simp del]

fun catch_up :: "bytes \<Rightarrow> nat \<Rightarrow> nat \<Rightarrow> nat \<Rightarrow> nat \<times> nat" where
  "catch_up src anchor ip ref =
     (if ip > anchor \<and> ref > 0 \<and> src ! (ip - 1) = src ! (ref - 1)
      then catch_up src anchor (ip - 1) (ref - 1) else (ip, ref))"

declare catch_up.simps [simp del]

text \<open>Counting the bytes of a match; \<open>matchlimit\<close> is \<open>iend - LASTLITERALS\<close>.\<close>

definition count_tail :: "bytes \<Rightarrow> nat \<Rightarrow> nat \<Rightarrow> nat" where
  "count_tail src ip ref =
     (let matchlimit = length src - 5;
          (ip1, ref1) = (if ip + 3 < matchlimit \<and> A32 src ref = A32 src ip then (ip + 4, ref + 4) else (ip, ref));
          (ip2, ref2) = (if ip1 + 1 < matchlimit \<and> A16 src ref1 = A16 src ip1 then (ip1 + 2, ref1 + 2) else (ip1, ref1))
      in if ip2 < matchlimit \<and> src ! ref2 = src ! ip2 then ip2 + 1 else ip2)"

function count_match :: "bytes \<Rightarrow> nat \<Rightarrow> nat \<Rightarrow> nat" where
  "count_match src ip ref =
     (if ip + 7 < length src - 5 then
        (let diff = A64 src ref XOR A64 src ip
         in if diff = 0 then count_match src (ip + 8) (ref + 8) else ip + LZ4_NbCommonBytes diff)
      else count_tail src ip ref)"
  by pat_completeness auto
termination by (relation "measure (\<lambda>(src, ip, ref). length src - ip)") auto

declare count_match.simps [simp del]

section \<open>Writing the destination\<close>

definition put8 :: "bytes \<Rightarrow> nat \<Rightarrow> u8 \<Rightarrow> bytes outcome" where
  "put8 out op b = (if op < length out then Ok (out[op := b]) else Fault ''access'')"

definition put16 :: "bytes \<Rightarrow> nat \<Rightarrow> u16 \<Rightarrow> bytes outcome" where
  "put16 out op v = (if op + 2 \<le> length out then Ok (store op (le_split 2 v) out) else Fault ''access'')"

text \<open>\<open>for (; len >= 255; len -= 255) *op++ = 255; *op++ = (BYTE)len\<close>.\<close>

function put_run :: "bytes \<Rightarrow> nat \<Rightarrow> nat \<Rightarrow> (bytes \<times> nat) outcome" where
  "put_run out op len =
     (if len \<ge> 255 then
        (case put8 out op 255 of
           Ok out' \<Rightarrow> put_run out' (op + 1) (len - 255)
         | Panic m \<Rightarrow> Panic m
         | Fault m \<Rightarrow> Fault m)
      else obind (put8 out op (of_nat len)) (\<lambda>out'. Ok (out', op + 1)))"
  by pat_completeness auto
termination by (relation "measure (\<lambda>(out, op, len). len)") auto

declare put_run.simps [simp del]

text \<open>The same for the length of a match, two bytes at a time.\<close>

function put_run2 :: "bytes \<Rightarrow> nat \<Rightarrow> nat \<Rightarrow> (bytes \<times> nat) outcome" where
  "put_run2 out op len =
     (if len > 509 then
        (case obind (put8 out op 255) (\<lambda>o1. put8 o1 (op + 1) 255) of
           Ok out' \<Rightarrow> put_run2 out' (op + 2) (len - 510)
         | Panic m \<Rightarrow> Panic m
         | Fault m \<Rightarrow> Fault m)
      else if len \<ge> 255 then
        obind (put8 out op 255) (\<lambda>o1. obind (put8 o1 (op + 1) (of_nat (len - 255))) (\<lambda>o2. Ok (o2, op + 2)))
      else obind (put8 out op (of_nat len)) (\<lambda>o1. Ok (o1, op + 1)))"
  by pat_completeness auto
termination by (relation "measure (\<lambda>(out, op, len). len)") auto

declare put_run2.simps [simp del]

text \<open>Literal length and literals; \<open>None\<close> is \<open>return 0\<close>.\<close>

definition put_literals :: "bytes \<Rightarrow> nat \<Rightarrow> nat \<Rightarrow> nat \<Rightarrow> nat \<Rightarrow> bytes \<Rightarrow> (bytes \<times> nat) option outcome" where
  "put_literals src omax anchor ip op out =
     (let len = ip - anchor; token = op; op1 = op + 1
      in if op1 + len + (2 + 1 + 5) + len div 2 ^ 8 > omax then Ok None
         else obind (if len \<ge> 15 then obind (put8 out token 240) (\<lambda>o1. put_run o1 op1 (len - 15))
                     else obind (put8 out token (of_nat (16 * len))) (\<lambda>o1. Ok (o1, op1))) (\<lambda>(out2, op2).
              obind (wildcopy_in src out2 anchor op2 (op2 + len)) (\<lambda>out3. Ok (Some (out3, op2 + len)))))"

text \<open>
  From \<open>_next_match\<close> on: the offset, the length of the match, and what comes next: \<open>return 0\<close>,
  the last literals, another match at once, or the main loop.
\<close>

datatype match_result =
    MZero bytes
  | MLast nat nat bytes
  | MNext nat nat nat nat bytes hash_table
  | MLoop nat nat bytes hash_table

definition put_match :: "bytes \<Rightarrow> nat \<Rightarrow> nat \<Rightarrow> nat \<Rightarrow> nat \<Rightarrow> nat \<Rightarrow> bytes \<Rightarrow> (bytes + nat \<times> bytes \<times> nat) outcome" where
  "put_match src omax token ip ref op out =
     obind (put16 out op (of_nat (ip - ref))) (\<lambda>o1.
       let anchor = ip + 4; ipe = count_match src (ip + 4) (ref + 4); len = ipe - anchor; op1 = op + 2
       in if op1 + (1 + 5) + len div 2 ^ 8 > omax then Ok (Inl o1)
          else obind (if len \<ge> 15 then obind (put8 o1 token (o1 ! token + 15)) (\<lambda>o2. put_run2 o2 op1 (len - 15))
                      else obind (put8 o1 token (o1 ! token + of_nat len)) (\<lambda>o2. Ok (o2, op1))) (\<lambda>(out2, op2).
               Ok (Inr (ipe, out2, op2))))"

definition match_step ::
  "bytes \<Rightarrow> nat \<Rightarrow> nat \<Rightarrow> nat \<Rightarrow> nat \<Rightarrow> nat \<Rightarrow> bytes \<Rightarrow> hash_table \<Rightarrow> match_result outcome" where
  "match_step src omax token ip ref op out tab =
     obind (put_match src omax token ip ref op out) (\<lambda>r.
       case r of
         Inl out1 \<Rightarrow> Ok (MZero out1)
       | Inr (ipe, out2, op2) \<Rightarrow>
           if ipe > length src - 12 then Ok (MLast ipe op2 out2)
           else let tab1 = tab(LZ4_HASHVALUE src (ipe - 2) := ipe - 2);
                    h = LZ4_HASHVALUE src ipe;
                    ref2 = tab1 h;
                    tab2 = tab1(h := ipe)
                in if ref2 + 65535 \<ge> ipe \<and> A32 src ref2 = A32 src ipe
                   then obind (put8 out2 op2 0) (\<lambda>out3. Ok (MNext op2 ipe ref2 (op2 + 1) out3 tab2))
                   else Ok (MLoop ipe op2 out2 tab2))"

lemma count_tail_ge: "ip \<le> count_tail src ip ref"
  by (simp add: count_tail_def Let_def)

lemma count_match_ge: "ip \<le> count_match src ip ref"
proof (induction src ip ref rule: count_match.induct)
  case (1 src ip ref)
  then show ?case using count_tail_ge[of ip src ref] by (subst count_match.simps) (auto simp: Let_def)
qed

lemma put_match_ipe: "put_match src omax token ip ref op out = Ok (Inr (ipe, out2, op2)) \<Longrightarrow> ip + 4 \<le> ipe"
  using count_match_ge[of "ip + 4" src "ref + 4"]
  by (auto simp: put_match_def Let_def obind_eq_Ok split: if_splits)

lemma match_step_ip:
  assumes "match_step src omax token ip ref op out tab = Ok r"
  shows "case r of MNext token' ip' ref' op' out' tab' \<Rightarrow> ip + 4 \<le> ip' \<and> ip' \<le> length src - 12
    | MLoop anchor op' out' tab' \<Rightarrow> ip + 4 \<le> anchor \<and> anchor \<le> length src - 12 | _ \<Rightarrow> True"
proof -
  obtain q where q: "put_match src omax token ip ref op out = Ok q" using assms by (auto simp: match_step_def obind_eq_Ok)
  show ?thesis
  proof (cases q)
    case (Inl o1)
    then show ?thesis using assms q by (auto simp: match_step_def)
  next
    case (Inr x)
    then obtain ipe out2 op2 where x: "q = Inr (ipe, out2, op2)" by (metis prod_cases3)
    have "ip + 4 \<le> ipe" using put_match_ipe q x by simp
    then show ?thesis using assms q x by (auto simp: match_step_def Let_def obind_eq_Ok not_less split: if_splits)
  qed
qed

function match_loop ::
  "bytes \<Rightarrow> nat \<Rightarrow> nat \<Rightarrow> nat \<Rightarrow> nat \<Rightarrow> nat \<Rightarrow> bytes \<Rightarrow> hash_table \<Rightarrow> match_result outcome" where
  "match_loop src omax token ip ref op out tab =
     (case match_step src omax token ip ref op out tab of
        Ok r \<Rightarrow> (case r of
                   MNext token' ip' ref' op' out' tab' \<Rightarrow> match_loop src omax token' ip' ref' op' out' tab'
                 | _ \<Rightarrow> Ok r)
      | Panic m \<Rightarrow> Panic m
      | Fault m \<Rightarrow> Fault m)"
  by pat_completeness auto
termination
  by (relation "measure (\<lambda>(src, omax, token, ip, ref, op, out, tab). length src - ip)") (auto dest!: match_step_ip)

declare match_loop.simps [simp del]

lemma match_loop_ip:
  "match_loop src omax token ip ref op out tab = Ok r \<Longrightarrow>
   (case r of MNext token' ip' ref' op' out' tab' \<Rightarrow> False
    | MLoop anchor op' out' tab' \<Rightarrow> ip + 4 \<le> anchor \<and> anchor \<le> length src - 12 | _ \<Rightarrow> True)"
proof (induction src omax token ip ref op out tab rule: match_loop.induct)
  case (1 src omax token ip ref op out tab)
  from "1.prems" obtain q where q: "match_step src omax token ip ref op out tab = Ok q"
    by (subst (asm) match_loop.simps) (auto split: outcome.splits)
  note s = match_step_ip[OF q]
  show ?case
  proof (cases q)
    case (MNext token' ip' ref' op' out' tab')
    have "match_loop src omax token' ip' ref' op' out' tab' = Ok r"
      using "1.prems" q MNext by (subst (asm) match_loop.simps) simp
    from "1.IH"[OF q MNext this] s MNext show ?thesis by (auto split: match_result.splits)
  qed (use "1.prems" q s in \<open>(subst (asm) match_loop.simps, auto)+\<close>)
qed

section \<open>The compressor\<close>

definition last_literals :: "bytes \<Rightarrow> nat \<Rightarrow> nat \<Rightarrow> nat \<Rightarrow> bytes \<Rightarrow> (nat \<times> bytes) outcome" where
  "last_literals src omax anchor op out =
     (let lastRun = length src - anchor
      in if op + lastRun + 1 + (lastRun + 255 - 15) div 255 > omax then Ok (0, out)
         else obind (if lastRun \<ge> 15 then obind (put8 out op 240) (\<lambda>o1. put_run o1 (op + 1) (lastRun - 15))
                     else obind (put8 out op (of_nat (16 * lastRun))) (\<lambda>o1. Ok (o1, op + 1))) (\<lambda>(out2, op2).
                if op2 + lastRun \<le> length out2 then Ok (op2 + lastRun, store op2 (drop anchor src) out2)
                else Fault ''access''))"

lemma find_match_step:
  assumes "find_match src tab h ip n = Some (ip', ref', tab')"
  obtains (found) "ip' = ip" "ref' = tab h" "tab' = tab(h := ip)" "ip + 12 < length src"
      "ip \<le> tab h + 65535" "A32 src (tab h) = A32 src ip"
    | (further) f where "ip < f" "f + 12 \<le> length src" "find_match src (tab(h := ip)) (LZ4_HASHVALUE src f) f (n + 1) = Some (ip', ref', tab')"
proof -
  define f where "f = ip + (67 + n) div 64"
  have eq: "find_match src tab h ip n =
     (if f > length src - 12 then None
      else if tab h + 65535 < ip \<or> A32 src (tab h) \<noteq> A32 src ip
           then find_match src (tab(h := ip)) (LZ4_HASHVALUE src f) f (n + 1) else Some (ip, tab h, tab(h := ip)))"
    by (subst find_match.simps) (simp add: Let_def f_def)
  have f: "ip < f" unfolding f_def by (simp add: div_greater_zero_iff)
  have lim: "\<not> f > length src - 12" using assms unfolding eq by (auto split: if_splits)
  then have le: "f + 12 \<le> length src" using f by linarith
  show thesis
  proof (cases "tab h + 65535 < ip \<or> A32 src (tab h) \<noteq> A32 src ip")
    case True
    then show thesis using assms lim f le further[of f] unfolding eq by simp
  next
    case False
    then show thesis using assms lim f le found unfolding eq by auto
  qed
qed

lemma find_match_ge: "find_match src tab h ip n = Some (ip', ref', tab') \<Longrightarrow> ip \<le> ip'"
proof (induction "length src - ip" arbitrary: tab h ip n rule: less_induct)
  case less
  from less.prems show ?case
  proof (cases rule: find_match_step)
    case (further f)
    have "f \<le> ip'" by (rule less.hyps[OF _ further(3)]) (use further in linarith)
    then show ?thesis using further(1) by simp
  qed simp
qed

lemma catch_up_ge: "anchor \<le> ip \<Longrightarrow> anchor \<le> fst (catch_up src anchor ip ref)"
  by (induction src anchor ip ref rule: catch_up.induct) (subst catch_up.simps, auto)

text \<open>The main loop; \<open>ip\<close> is \<open>anchor + 1\<close> at its start.\<close>

function enc_loop :: "bytes \<Rightarrow> nat \<Rightarrow> hash_table \<Rightarrow> nat \<Rightarrow> nat \<Rightarrow> bytes \<Rightarrow> (nat \<times> bytes) outcome" where
  "enc_loop src omax tab anchor op out =
     (case find_match src tab (LZ4_HASHVALUE src (anchor + 1)) (anchor + 1) 0 of
        None \<Rightarrow> last_literals src omax anchor op out
      | Some (ip0, ref0, tab') \<Rightarrow>
          (case catch_up src anchor ip0 ref0 of (ip, ref) \<Rightarrow>
             (case put_literals src omax anchor ip op out of
                Ok (Some (out1, op1)) \<Rightarrow>
                  (case match_loop src omax op ip ref op1 out1 tab' of
                     Ok r \<Rightarrow> (case r of
                                MLast anchor' op' out' \<Rightarrow> last_literals src omax anchor' op' out'
                              | MLoop anchor' op' out' tab2 \<Rightarrow> enc_loop src omax tab2 anchor' op' out'
                              | MZero out' \<Rightarrow> Ok (0, out')
                              | MNext _ _ _ _ out' _ \<Rightarrow> Ok (0, out'))
                   | Panic m \<Rightarrow> Panic m
                   | Fault m \<Rightarrow> Fault m)
              | Ok None \<Rightarrow> Ok (0, out)
              | Panic m \<Rightarrow> Panic m
              | Fault m \<Rightarrow> Fault m)))"
  by pat_completeness auto
termination
proof (relation "measure (\<lambda>(src, omax, tab, anchor, op, out). length src - anchor)", goal_cases)
  case (2 src omax tab anchor op out x2 ip0 y ref0 tab' ip ref x1 x2a out1 op1 r anchor' op' out' tab2)
  then have "anchor + 1 \<le> ip0" by (auto dest: find_match_ge)
  then have "anchor \<le> fst (catch_up src anchor ip0 ref0)" by (intro catch_up_ge) simp
  moreover have "(ip, ref) = catch_up src anchor ip0 ref0" using 2 by auto
  ultimately have "anchor \<le> ip" by (metis fst_conv)
  moreover have "ip + 4 \<le> anchor' \<and> anchor' \<le> length src - 12" using 2 match_loop_ip by fastforce
  ultimately show ?case by auto
qed simp

declare enc_loop.simps [simp del]

definition LZ4_compress_heap_limitedOutput :: "bytes \<Rightarrow> bytes \<Rightarrow> nat \<Rightarrow> (nat \<times> bytes) outcome" where
  "LZ4_compress_heap_limitedOutput src dest omax =
     (if length src < 13 then last_literals src omax 0 0 dest
      else enc_loop src omax ((\<lambda>_. 0)(LZ4_HASHVALUE src 0 := 0)) 0 0 dest)"

definition LZ4_compress64k_heap_limitedOutput :: "bytes \<Rightarrow> bytes \<Rightarrow> nat \<Rightarrow> (nat \<times> bytes) outcome" where
  "LZ4_compress64k_heap_limitedOutput src dest omax =
     (if length src < 13 then last_literals src omax 0 0 dest
      else enc_loop src omax ((\<lambda>_. 0)(LZ4_HASHVALUE src 0 := 0)) 0 0 dest)"

text \<open>The entry point; \<open>have_ctx\<close> says whether the hash table could be allocated.\<close>

definition LZ4_compress_limitedOutput :: "bool \<Rightarrow> bytes \<Rightarrow> bytes \<Rightarrow> nat \<Rightarrow> (nat \<times> bytes) outcome" where
  "LZ4_compress_limitedOutput have_ctx src dest omax =
     (if \<not> have_ctx then Ok (0, dest)
      else if length src < 2 ^ 16 + 11 then LZ4_compress64k_heap_limitedOutput src dest omax
      else LZ4_compress_heap_limitedOutput src dest omax)"

section \<open>Matches\<close>

definition same_bytes :: "bytes \<Rightarrow> nat \<Rightarrow> nat \<Rightarrow> nat \<Rightarrow> bool" where
  "same_bytes src p q n \<longleftrightarrow> (\<forall>j<n. src ! (p + j) = src ! (q + j))"

lemma same_bytes_add: "same_bytes src p q (m + n) \<longleftrightarrow> same_bytes src p q m \<and> same_bytes src (p + m) (q + m) n"
proof
  assume a: "same_bytes src p q m \<and> same_bytes src (p + m) (q + m) n"
  have "src ! (p + j) = src ! (q + j)" if "j < m + n" for j
  proof (cases "j < m")
    case False
    define i where "i = j - m"
    have "j = m + i" "i < n" using False that by (auto simp: i_def)
    then show ?thesis using a by (simp add: same_bytes_def add.assoc)
  qed (use a in \<open>simp add: same_bytes_def\<close>)
  then show "same_bytes src p q (m + n)" by (simp add: same_bytes_def)
qed (auto simp: same_bytes_def add.assoc)

lemma join_eq_iff:
  assumes "8 * n = LENGTH('a::len)" "p + n \<le> length src" "q + n \<le> length src"
  shows "(le_join (fetch p n src) :: 'a word) = le_join (fetch q n src) \<longleftrightarrow> same_bytes src p q n"
proof
  assume "(le_join (fetch p n src) :: 'a word) = le_join (fetch q n src)"
  moreover have "le_split n (le_join (fetch r n src) :: 'a word) = fetch r n src" if "r + n \<le> length src" for r
    using le_split_join[where 'a = 'a, of "fetch r n src"] length_fetch[OF that] assms(1) by simp
  ultimately have "fetch p n src = fetch q n src" using assms(2,3) by metis
  then show "same_bytes src p q n" using assms(2,3) by (metis nth_fetch same_bytes_def)
next
  assume "same_bytes src p q n"
  then have "fetch p n src = fetch q n src"
    by (intro nth_equalityI) (use assms in \<open>auto simp: length_fetch nth_fetch same_bytes_def\<close>)
  then show "(le_join (fetch p n src) :: 'a word) = le_join (fetch q n src)" by simp
qed

lemma A_eq_iff:
  "p + 4 \<le> length src \<Longrightarrow> q + 4 \<le> length src \<Longrightarrow> A32 src p = A32 src q \<longleftrightarrow> same_bytes src p q 4"
  "p + 2 \<le> length src \<Longrightarrow> q + 2 \<le> length src \<Longrightarrow> A16 src p = A16 src q \<longleftrightarrow> same_bytes src p q 2"
  "p + 8 \<le> length src \<Longrightarrow> q + 8 \<le> length src \<Longrightarrow> A64 src p = A64 src q \<longleftrightarrow> same_bytes src p q 8"
  unfolding A32_def A16_def A64_def by (rule join_eq_iff; simp)+

lemma NbCommonBytes_spec:
  assumes "p + 8 \<le> length src" "q + 8 \<le> length src" "A64 src p XOR A64 src q \<noteq> 0"
    and nb: "nb = LZ4_NbCommonBytes (A64 src p XOR A64 src q)"
  shows "nb < 8 \<and> same_bytes src p q nb \<and> src ! (p + nb) \<noteq> src ! (q + nb)"
proof -
  let ?d = "A64 src p XOR A64 src q"
  define z where "z = length (takeWhile (\<lambda>i. \<not> bit ?d i) [0..<64])"
  obtain k where k: "bit ?d k" using assms(3) by (metis bit_eqI bit_0_eq bot_apply bot_bool_def)
  then have k64: "k < 64" using bit_imp_le_length[of ?d k] by simp
  have "z < length [0..<64]"
  proof (rule ccontr)
    assume "\<not> ?thesis"
    then have "takeWhile (\<lambda>i. \<not> bit ?d i) [0..<64] = [0..<64]"
      unfolding z_def by (metis length_takeWhile_le le_neq_implies_less takeWhile_eq_take take_all_iff linorder_not_less)
    then show False using k k64 by (metis atLeastLessThan_iff le0 set_takeWhileD set_upt)
  qed
  then have z: "z < 64" by simp
  have low: "\<not> bit ?d i" if "i < z" for i
    using nth_mem[of i "takeWhile (\<lambda>i. \<not> bit ?d i) [0..<64]"] that takeWhile_nth[of i "\<lambda>i. \<not> bit ?d i" "[0..<64]"] z
    by (auto simp: z_def dest: set_takeWhileD)
  have bz: "bit ?d z" using nth_length_takeWhile[of "\<lambda>i. \<not> bit ?d i" "[0..<64]"] z by (simp add: z_def)
  have nbz: "nb = z div 8" by (simp add: nb LZ4_NbCommonBytes_def z_def)
  have byte: "bit ?d (8 * i + t) \<longleftrightarrow> bit (src ! (p + i)) t \<noteq> bit (src ! (q + i)) t" if "i < 8" "t < 8" for i t
  proof -
    have "(8 * i + t) div 8 = i" "(8 * i + t) mod 8 = t" "8 * i + t < 64" using that by auto
    then show ?thesis using that assms(1,2)
      by (simp add: A64_def bit_xor_iff bit_le_join length_fetch nth_fetch)
  qed
  have n8: "nb < 8" using z nbz by simp
  moreover have "src ! (p + j) = src ! (q + j)" if "j < nb" for j
  proof (rule bit_word_eqI)
    fix t assume "t < LENGTH(8)"
    then have t: "t < 8" by simp
    have "8 * j + t < z" using that t nbz by linarith
    then show "bit (src ! (p + j)) t = bit (src ! (q + j)) t" using low byte[of j t] that n8 t by auto
  qed
  moreover have "src ! (p + nb) \<noteq> src ! (q + nb)"
  proof -
    have "z = 8 * nb + z mod 8" using nbz by simp
    then have "bit (src ! (p + nb)) (z mod 8) \<noteq> bit (src ! (q + nb)) (z mod 8)" using bz byte[of nb "z mod 8"] n8 by simp
    then show ?thesis by metis
  qed
  ultimately show ?thesis by (simp add: same_bytes_def)
qed

text \<open>The count is the length of the longest match before the limit.\<close>

definition counted :: "bytes \<Rightarrow> nat \<Rightarrow> nat \<Rightarrow> nat \<Rightarrow> bool" where
  "counted src ip ref res \<longleftrightarrow> ip \<le> res \<and> res + 5 \<le> length src \<and> same_bytes src ref ip (res - ip) \<and>
     (res + 5 < length src \<longrightarrow> src ! (ref + (res - ip)) \<noteq> src ! res)"

lemma counted_step:
  assumes "counted src (ip + n) (ref + n) res" "same_bytes src ref ip n"
  shows "counted src ip ref res"
proof -
  obtain k where k: "res = ip + n + k" using assms(1) by (metis counted_def le_Suc_ex)
  show ?thesis using assms same_bytes_add[of src ref ip n k] by (simp add: counted_def k add.assoc)
qed

lemma counted_here: "ip + 5 \<le> length src \<Longrightarrow> (ip + 5 < length src \<longrightarrow> src ! ref \<noteq> src ! ip) \<Longrightarrow> counted src ip ref ip"
  by (simp add: counted_def same_bytes_def)

lemma same_1: "same_bytes src p q 1 \<longleftrightarrow> src ! p = src ! q"
  by (simp add: same_bytes_def)

lemma same_less: "same_bytes src p q 2 \<longleftrightarrow> src ! p = src ! q \<and> src ! (p + 1) = src ! (q + 1)"
  by (auto simp: same_bytes_def numeral_2_eq_2 less_Suc_eq)

lemma same_4: "same_bytes src p q 4 \<longleftrightarrow> same_bytes src p q 2 \<and> same_bytes src (p + 2) (q + 2) 2"
  using same_bytes_add[of src p q 2 2] by simp

lemma count_last:
  assumes "ip + 5 \<le> length src" "ip + 6 < length src \<longrightarrow> \<not> same_bytes src ref ip 2"
  shows "counted src ip ref (if ip < length src - 5 \<and> src ! ref = src ! ip then ip + 1 else ip)"
proof (cases "ip < length src - 5 \<and> src ! ref = src ! ip")
  case True
  have "counted src (ip + 1) (ref + 1) (ip + 1)"
  proof (rule counted_here)
    show "ip + 1 + 5 \<le> length src" using True by linarith
    show "ip + 1 + 5 < length src \<longrightarrow> src ! (ref + 1) \<noteq> src ! (ip + 1)"
      using assms(2) True same_less[of src ref ip] by auto
  qed
  then have "counted src ip ref (ip + 1)" by (rule counted_step) (use True in \<open>simp only: same_1\<close>)
  then show ?thesis using True by (simp only: if_True simp_thms)
next
  case False
  then have "counted src ip ref ip" using assms(1) by (intro counted_here) auto
  then show ?thesis using False by (simp only: if_False)
qed

lemma count_two:
  assumes "ref < ip" "ip + 5 \<le> length src" "ip + 8 < length src \<longrightarrow> \<not> same_bytes src ref ip 4"
  shows "counted src ip ref
    (case (if ip + 1 < length src - 5 \<and> A16 src ref = A16 src ip then (ip + 2, ref + 2) else (ip, ref)) of
       (ip2, ref2) \<Rightarrow> if ip2 < length src - 5 \<and> src ! ref2 = src ! ip2 then ip2 + 1 else ip2)"
proof (cases "ip + 1 < length src - 5")
  case True
  then have e: "A16 src ref = A16 src ip \<longleftrightarrow> same_bytes src ref ip 2" using assms(1) by (intro A_eq_iff(2)) auto
  show ?thesis
  proof (cases "same_bytes src ref ip 2")
    case same: True
    have "counted src (ip + 2) (ref + 2)
        (if ip + 2 < length src - 5 \<and> src ! (ref + 2) = src ! (ip + 2) then ip + 2 + 1 else ip + 2)"
      by (rule count_last) (use True same assms(3) same_4[of src ref ip] in auto)
    then have "counted src ip ref
        (if ip + 2 < length src - 5 \<and> src ! (ref + 2) = src ! (ip + 2) then ip + 2 + 1 else ip + 2)"
      by (rule counted_step[OF _ same])
    then show ?thesis using True same e by (simp only: if_True simp_thms prod.case)
  next
    case False
    then have "counted src ip ref (if ip < length src - 5 \<and> src ! ref = src ! ip then ip + 1 else ip)"
      by (intro count_last) (use assms in auto)
    then show ?thesis using False e by simp
  qed
next
  case False
  have "counted src ip ref (if ip < length src - 5 \<and> src ! ref = src ! ip then ip + 1 else ip)"
    by (rule count_last) (use assms False in auto)
  then show ?thesis using False by simp
qed

lemma count_tail_spec:
  assumes "ref < ip" "ip + 5 \<le> length src" "length src \<le> ip + 12"
  shows "counted src ip ref (count_tail src ip ref)"
proof (cases "ip + 3 < length src - 5 \<and> A32 src ref = A32 src ip")
  case True
  then have same: "same_bytes src ref ip 4" using assms(1) A_eq_iff(1)[of ref src ip] by auto
  have "counted src (ip + 4) (ref + 4) (count_tail src ip ref)"
    unfolding count_tail_def Let_def using True
    by (simp only: if_True simp_thms prod.case, intro count_two) (use assms True in auto)
  then show ?thesis by (rule counted_step[OF _ same])
next
  case False
  have "ip + 8 < length src \<longrightarrow> \<not> same_bytes src ref ip 4"
    using False assms(1) A_eq_iff(1)[of ref src ip] by auto
  then have "counted src ip ref
    (case (if ip + 1 < length src - 5 \<and> A16 src ref = A16 src ip then (ip + 2, ref + 2) else (ip, ref)) of
       (ip2, ref2) \<Rightarrow> if ip2 < length src - 5 \<and> src ! ref2 = src ! ip2 then ip2 + 1 else ip2)"
    by (rule count_two[OF assms(1,2)])
  then show ?thesis unfolding count_tail_def Let_def using False by (simp only: if_False prod.case)
qed

lemma xor_zero_eq:
  assumes "a XOR b = (0 :: 'a::len word)"
  shows "a = b"
proof (rule bit_word_eqI)
  fix n
  have "bit (a XOR b) n = bit (0 :: 'a word) n" using assms by simp
  then show "bit a n = bit b n" by (simp add: bit_xor_iff)
qed

lemma count_match_spec: "ref < ip \<Longrightarrow> ip + 5 \<le> length src \<Longrightarrow> counted src ip ref (count_match src ip ref)"
proof (induction src ip ref rule: count_match.induct)
  case (1 src ip ref)
  show ?case
  proof (cases "ip + 7 < length src - 5")
    case True
    have r: "ref + 8 \<le> length src" "ip + 8 \<le> length src" using True "1.prems" by auto
    show ?thesis
    proof (cases "A64 src ref XOR A64 src ip = 0")
      case eq: True
      have "A64 src ref = A64 src ip" using eq by (rule xor_zero_eq)
      then have same: "same_bytes src ref ip 8" using A_eq_iff(3)[OF r] by simp
      have "count_match src ip ref = count_match src (ip + 8) (ref + 8)"
        by (subst count_match.simps) (use True eq in simp)
      then show ?thesis using "1.IH"[OF True refl eq] counted_step[OF _ same] True "1.prems" by simp
    next
      case False
      note nb = NbCommonBytes_spec[OF r False refl]
      have "count_match src ip ref = ip + LZ4_NbCommonBytes (A64 src ref XOR A64 src ip)"
        by (subst count_match.simps) (use True False in simp)
      then show ?thesis using nb True by (auto simp: counted_def)
    qed
  next
    case False
    then have "count_match src ip ref = count_tail src ip ref" by (subst count_match.simps) simp
    then show ?thesis using count_tail_spec[of ref ip src] False "1.prems" by auto
  qed
qed

text \<open>A count reaches at least as far as bytes are known to agree.\<close>

lemma counted_max:
  assumes "counted src ip ref res" "same_bytes src ref ip m" "ip + m + 5 \<le> length src"
  shows "ip + m \<le> res"
proof (rule ccontr)
  assume n: "\<not> ?thesis"
  have "ip \<le> res" using assms(1) by (simp add: counted_def)
  then have "res - ip < m" "res = ip + (res - ip)" using n by auto
  then have "src ! (ref + (res - ip)) = src ! res" using assms(2) by (metis same_bytes_def)
  then show False using assms(1,3) n by (auto simp: counted_def)
qed

lemma last_literals_len: "last_literals src omax anchor op out = Ok (n, out') \<Longrightarrow> n \<le> length out'"
  by (auto simp: last_literals_def Let_def obind_eq_Ok length_store split: if_splits)

lemma enc_loop_len: "enc_loop src omax tab anchor op out = Ok (n, out') \<Longrightarrow> n \<le> length out'"
proof (induction src omax tab anchor op out rule: enc_loop.induct)
  case (1 src omax tab anchor op out)
  from "1.prems" show ?case
    by (subst (asm) enc_loop.simps)
      (auto split: option.splits prod.splits outcome.splits match_result.splits
        dest: last_literals_len intro: "1.IH")
qed

lemma compress_len: "LZ4_compress_limitedOutput ctx src dest omax = Ok (n, out) \<Longrightarrow> n \<le> length out"
  by (auto simp: LZ4_compress_limitedOutput_def LZ4_compress64k_heap_limitedOutput_def
        LZ4_compress_heap_limitedOutput_def split: if_splits dest: last_literals_len enc_loop_len)

end
