(* ===== verification/H2_Lz4.thy ===== *)
theory H2_Lz4
  imports H2_Lz4_Encode
begin

unbundle bit_operations_syntax

text \<open>
  Compression and decompression together: what the compressor writes is a well-formed block
  for its input, so that the decompressor returns that input; and how far the compressor's
  writes can go beyond its output limit.
\<close>

section \<open>Finding matches\<close>

definition match_at :: "bytes \<Rightarrow> nat \<Rightarrow> nat \<Rightarrow> nat \<Rightarrow> bool" where
  "match_at src ip ref m \<longleftrightarrow> ref < ip \<and> ip \<le> ref + 65535 \<and> ip + 12 \<le> length src \<and> 4 \<le> m \<and> ip + m + 5 \<le> length src \<and>
     same_bytes src ref ip m"

lemma find_match_spec:
  "find_match src tab h ip n = Some (ip', ref', tab') \<Longrightarrow> \<forall>h. tab h < ip \<Longrightarrow>
   ip \<le> ip' \<and> match_at src ip' ref' 4 \<and> (\<forall>h. tab' h \<le> ip')"
proof (induction "length src - ip" arbitrary: tab h ip n rule: less_induct)
  case less
  from less.prems(1) show ?case
  proof (cases rule: find_match_step)
    case (further f)
    have "\<forall>k. (tab(h := ip)) k < f" using less.prems(2) further(1) by (auto intro: less_trans)
    then have "f \<le> ip' \<and> match_at src ip' ref' 4 \<and> (\<forall>h. tab' h \<le> ip')"
      by (intro less.hyps[OF _ further(3)]) (use further in linarith)
    then show ?thesis using further(1) by simp
  next
    case found
    have "tab h < ip" using less.prems(2) by blast
    moreover from this have "same_bytes src (tab h) ip 4" using found(4,6) A_eq_iff(1)[of "tab h" src ip] by simp
    ultimately show ?thesis using found less.prems(2) by (auto simp: match_at_def less_imp_le)
  qed
qed

lemma catch_up_spec:
  assumes "anchor \<le> ip" "match_at src ip ref m" "catch_up src anchor ip ref = (ip', ref')"
  shows "anchor \<le> ip' \<and> ip' \<le> ip \<and> match_at src ip' ref' (m + (ip - ip'))"
  using assms
proof (induction src anchor ip ref arbitrary: m rule: catch_up.induct)
  case (1 src anchor ip ref)
  show ?case
  proof (cases "ip > anchor \<and> ref > 0 \<and> src ! (ip - 1) = src ! (ref - 1)")
    case True
    have "same_bytes src (ref - 1) (ip - 1) (1 + m)"
      unfolding same_bytes_add using True "1.prems"(2) by (auto simp: same_bytes_def[of _ _ _ "Suc 0"] match_at_def)
    then have m: "match_at src (ip - 1) (ref - 1) (Suc m)" using True "1.prems"(2) by (auto simp: match_at_def)
    have c: "catch_up src anchor (ip - 1) (ref - 1) = (ip', ref')"
      using "1.prems"(3) True by (subst (asm) catch_up.simps) simp
    have "anchor \<le> ip - 1" using True by linarith
    from "1.IH"[OF True this m c] show ?thesis using True by (auto simp: Suc_diff_le[symmetric] Suc_diff_Suc)
  next
    case False
    have "catch_up src anchor ip ref = (ip, ref)" by (subst catch_up.simps) (simp only: False if_False)
    then show ?thesis using "1.prems" by simp
  qed
qed

text \<open>The end of a match.\<close>

lemma count_match_at:
  assumes "match_at src ip ref m"
  shows "counted src (ip + 4) (ref + 4) (count_match src (ip + 4) (ref + 4))"
    "ip + m \<le> count_match src (ip + 4) (ref + 4)"
    "same_bytes src ref ip (count_match src (ip + 4) (ref + 4) - ip)"
    "count_match src (ip + 4) (ref + 4) + 5 \<le> length src"
proof -
  let ?e = "count_match src (ip + 4) (ref + 4)"
  show c: "counted src (ip + 4) (ref + 4) ?e" using assms by (intro count_match_spec) (auto simp: match_at_def)
  have s: "same_bytes src ref ip 4" "same_bytes src (ref + 4) (ip + 4) (m - 4)"
    using assms same_bytes_add[of src ref ip 4 "m - 4"] by (auto simp: match_at_def)
  have "ip + 4 + (m - 4) \<le> ?e" by (rule counted_max[OF c s(2)]) (use assms in \<open>auto simp: match_at_def\<close>)
  then show "ip + m \<le> ?e" using assms by (simp add: match_at_def)
  have "?e - ip = 4 + (?e - (ip + 4))" using c by (auto simp: counted_def)
  then show "same_bytes src ref ip (?e - ip)" using s(1) c by (simp only: same_bytes_add) (simp add: counted_def)
  show "?e + 5 \<le> length src" using c by (simp add: counted_def)
qed

section \<open>Writing\<close>

lemma store_append:
  assumes "op + length a + length b \<le> length out"
  shows "store (op + length a) b (store op a out) = store op (a @ b) out"
  by (rule nth_equalityI)
    (use assms in \<open>auto simp: length_store nth_store nth_append less_diff_conv2\<close>)

lemma list_update_store: "op < length out \<Longrightarrow> out[op := b] = store op [b] out"
  by (rule nth_equalityI) (auto simp: length_store nth_store nth_list_update)

lemma put8_eq: "put8 out op b = (if op + 1 \<le> length out then Ok (store op [b] out) else Fault ''access'')"
  by (simp add: put8_def list_update_store)

lemma put_run_eq:
  "put_run out op len =
     (if op + length (ext_bytes len) \<le> length out
      then Ok (store op (ext_bytes len) out, op + length (ext_bytes len)) else Fault ''access'')"
proof (induction out op len rule: put_run.induct)
  case (1 out op len)
  show ?case
  proof (cases "len \<ge> 255")
    case True
    then obtain m where m: "len = m + 255" by (metis add.commute le_add_diff_inverse)
    have e: "ext_bytes len = [255] @ ext_bytes m" using ext_bytes_step[of m] by (simp add: m)
    show ?thesis
    proof (cases "op + 1 \<le> length out")
      case fit: True
      have ok: "put8 out op 255 = Ok (store op [255] out)" using fit by (simp add: put8_eq)
      have l: "length (store op [255] out) = length out" using fit by (simp add: length_store)
      have ih: "put_run (store op [255] out) (op + 1) m =
          (if op + 1 + length (ext_bytes m) \<le> length out
           then Ok (store (op + 1) (ext_bytes m) (store op [255] out), op + 1 + length (ext_bytes m)) else Fault ''access'')"
        using "1.IH"[OF True ok] l m by simp
      have "put_run out op len = put_run (store op [255] out) (op + 1) m"
        by (subst put_run.simps) (use True ok m in simp)
      then show ?thesis unfolding ih e using store_append[of op "[255]" "ext_bytes m" out] by (simp add: add.assoc)
    next
      case False
      then have "put_run out op len = Fault ''access''" by (subst put_run.simps) (use True in \<open>simp add: put8_eq\<close>)
      then show ?thesis using False by (simp add: e)
    qed
  next
    case False
    then have e: "ext_bytes len = [of_nat len]" by (simp add: ext_bytes_def)
    show ?thesis by (subst put_run.simps) (use False in \<open>simp add: put8_eq e\<close>)
  qed
qed

lemma put_run2_eq:
  "put_run2 out op len =
     (if op + length (ext_bytes len) \<le> length out
      then Ok (store op (ext_bytes len) out, op + length (ext_bytes len)) else Fault ''access'')"
proof (induction out op len rule: put_run2.induct)
  case (1 out op len)
  have two: "obind (put8 out op 255) (\<lambda>o1. put8 o1 (op + 1) b) =
      (if op + 2 \<le> length out then Ok (store op [255, b] out) else Fault ''access'')" for b
    using store_append[of op "[255]" "[b]" out] by (auto simp: put8_eq length_store)
  show ?case
  proof (cases "len > 509")
    case True
    define m where "m = len - 510"
    have m: "len = m + 255 + 255" "len - 510 = m" using True by (auto simp: m_def)
    have e: "ext_bytes len = [255, 255] @ ext_bytes m"
      unfolding m(1) using ext_bytes_step[of "m + 255"] ext_bytes_step[of m] by simp
    show ?thesis
    proof (cases "op + 2 \<le> length out")
      case fit: True
      have ok: "obind (put8 out op 255) (\<lambda>o1. put8 o1 (op + 1) 255) = Ok (store op [255, 255] out)" using fit two by simp
      have l: "length (store op [255, 255] out) = length out" using fit by (simp add: length_store)
      have ih: "put_run2 (store op [255, 255] out) (op + 2) m =
          (if op + 2 + length (ext_bytes m) \<le> length out
           then Ok (store (op + 2) (ext_bytes m) (store op [255, 255] out), op + 2 + length (ext_bytes m)) else Fault ''access'')"
        using "1.IH"[OF True ok] l m(2) by simp
      have "put_run2 out op len = put_run2 (store op [255, 255] out) (op + 2) m"
        by (subst put_run2.simps) (use True ok m(2) in simp)
      then show ?thesis unfolding ih e using store_append[of op "[255, 255]" "ext_bytes m" out]
        by (simp add: add.assoc numeral_2_eq_2)
    next
      case False
      then have "put_run2 out op len = Fault ''access''" by (subst put_run2.simps) (use True two in simp)
      then show ?thesis using False by (simp add: e)
    qed
  next
    case small: False
    show ?thesis
    proof (cases "len \<ge> 255")
      case True
      define m where "m = len - 255"
      have m: "len = m + 255" "m < 255" using True small by (auto simp: m_def)
      have e: "ext_bytes len = [255, of_nat m]" using ext_bytes_step[of m] m by (simp add: ext_bytes_def)
      have "put_run2 out op len = obind (obind (put8 out op 255) (\<lambda>o1. put8 o1 (op + 1) (of_nat m))) (\<lambda>o2. Ok (o2, op + 2))"
        by (subst put_run2.simps) (use True small m in \<open>simp add: obind_assoc\<close>)
      then show ?thesis unfolding two e by simp
    next
      case False
      then have e: "ext_bytes len = [of_nat len]" by (simp add: ext_bytes_def)
      show ?thesis by (subst put_run2.simps) (use False in \<open>simp add: put8_eq e\<close>)
    qed
  qed
qed

lemma wildcopy_in_Ok:
  "wildcopy_in src out s d e = Ok out' \<Longrightarrow>
   length out' = length out \<and> d + 8 \<le> length out \<and> e \<le> length out \<and> d + 8 * ((e - d + 7) div 8) \<le> length out \<and>
   (\<forall>p<d. out' ! p = out ! p) \<and>
   (\<forall>p. d \<le> p \<and> p < e \<longrightarrow> out' ! p = src ! (s + (p - d)))"
proof (induction src out s d e rule: wildcopy_in.induct)
  case (1 src out s d e)
  let ?o = "store d (fetch s 8 src) out"
  have ok: "copy8_in src out s d = Ok ?o" and r: "s + 8 \<le> length src" "d + 8 \<le> length out"
    using "1.prems" by (subst (asm) wildcopy_in.simps, auto simp: copy8_in_def split: if_splits)+
  have l: "length ?o = length out" using r by (simp add: length_store length_fetch)
  have n: "?o ! p = (if d \<le> p \<and> p < d + 8 then src ! (s + (p - d)) else out ! p)" if "p < length out" for p
    using r that by (subst nth_store) (auto simp: length_fetch nth_fetch)
  show ?case
  proof (cases "d + 8 < e")
    case True
    have "wildcopy_in src ?o (s + 8) (d + 8) e = Ok out'"
      using "1.prems" ok True by (subst (asm) wildcopy_in.simps) simp
    define x where "x = e - (d + 8) + 7"
    have eq: "e - d + 7 = x + 8" using True by (simp add: x_def)
    have blocks: "d + 8 * ((e - d + 7) div 8) = d + 8 + 8 * ((e - (d + 8) + 7) div 8)"
    proof -
      have "(x + 8) div 8 = x div 8 + 1" by simp
      then show ?thesis unfolding eq x_def[symmetric] by (simp only: add_mult_distrib2 mult_1_right add.assoc)
    qed
    from "1.IH"[OF ok True \<open>wildcopy_in src ?o (s + 8) (d + 8) e = Ok out'\<close>] l
    have i: "length out' = length out" "e \<le> length out" "d + 8 + 8 * ((e - (d + 8) + 7) div 8) \<le> length out"
        "\<forall>p<d + 8. out' ! p = ?o ! p" "\<forall>p. d + 8 \<le> p \<and> p < e \<longrightarrow> out' ! p = src ! (s + 8 + (p - (d + 8)))" by auto
    note ih = i(1,2) i(3)[folded blocks] i(4,5)
    have "out' ! p = src ! (s + (p - d))" if "d \<le> p" "p < e" for p
      using ih n[of p] that by (cases "p < d + 8") auto
    then show ?thesis using ih n r by simp
  next
    case False
    have "out' = ?o" using "1.prems" ok False by (subst (asm) wildcopy_in.simps) simp
    moreover have "(e - d + 7) div 8 \<le> 1" using False by linarith
    ultimately show ?thesis using n l r False by simp
  qed
qed

text \<open>A token with its length bytes.\<close>

lemma put_token:
  assumes "op \<le> length out"
  shows "(if len \<ge> 15 then obind (put8 out op 240) (\<lambda>o1. put_run o1 (op + 1) (len - 15))
          else obind (put8 out op (of_nat (16 * len))) (\<lambda>o1. Ok (o1, op + 1))) =
     (if op + 1 + length (len_ext len) \<le> length out
      then Ok (store op (of_nat (16 * min len 15) # len_ext len) out, op + 1 + length (len_ext len)) else Fault ''access'')"
proof (cases "len \<ge> 15")
  case True
  then show ?thesis
    using store_append[of op "[240]" "len_ext len" out]
    by (auto simp: put8_eq put_run_eq len_ext_def length_store min_def)
next
  case False
  then show ?thesis by (simp add: put8_eq len_ext_def min_def)
qed

lemma put_literals_Ok:
  assumes "put_literals src omax anchor ip op out = Ok (Some (out', op'))" "anchor \<le> ip" "ip \<le> length src" "op \<le> length out"
  shows "length out' = length out" "op' \<le> length out"
    "take op' out' = take op out @ [of_nat (16 * min (ip - anchor) 15)] @ len_ext (ip - anchor) @ fetch anchor (ip - anchor) src"
    "op' = op + 1 + length (len_ext (ip - anchor)) + (ip - anchor)"
proof -
  let ?L = "ip - anchor" and ?lits = "fetch anchor (ip - anchor) src"
  let ?t = "of_nat (16 * min ?L 15) # len_ext ?L"
  define op2 where "op2 = op + 1 + length (len_ext ?L)"
  have fit: "op2 \<le> length out" and w: "wildcopy_in src (store op ?t out) anchor op2 (op2 + ?L) = Ok out'" and e: "op' = op2 + ?L"
    using assms(1) unfolding put_literals_def Let_def put_token[OF assms(4)] op2_def[symmetric]
    by (auto simp: obind_eq_Ok split: if_splits)
  have len: "length ?lits = ?L" using assms(2,3) by (simp add: length_fetch)
  have l: "length (store op ?t out) = length out" using fit by (simp add: op2_def length_store)
  note wi = wildcopy_in_Ok[OF w]
  show "length out' = length out" "op' \<le> length out" "op' = op + 1 + length (len_ext ?L) + ?L"
    using wi l e op2_def by auto
  have "take (op2 + length ?lits) out' = take op2 (store op ?t out) @ ?lits"
  proof (rule take_append_nth)
    show "\<forall>p. op2 \<le> p \<and> p < op2 + length ?lits \<longrightarrow> out' ! p = ?lits ! (p - op2)"
    proof (intro allI impI)
      fix p assume p: "op2 \<le> p \<and> p < op2 + length ?lits"
      then have "p - op2 < ?L" using len by linarith
      then have "?lits ! (p - op2) = src ! (anchor + (p - op2))" using assms(2,3) by (intro nth_fetch) auto
      then show "out' ! p = ?lits ! (p - op2)" using wi p len by simp
    qed
  qed (use wi l len in auto)
  moreover have "take op2 (store op ?t out) = take op out @ ?t"
    using take_store_after[of op ?t out] fit by (simp add: op2_def add.assoc)
  ultimately show "take op' out' = take op out @ [of_nat (16 * min ?L 15)] @ len_ext ?L @ ?lits"
    using len e by simp
qed

lemma put_match_Ok:
  assumes "put_match src omax token ip ref op out = Ok (Inr (ipe, out', op'))"
    and pre: "take op out = pre @ [of_nat (16 * a)] @ mid" "token = length pre" "op \<le> length out"
  shows "ipe = count_match src (ip + 4) (ref + 4)" "length out' = length out" "op' \<le> length out"
    "op' = op + 2 + length (len_ext (ipe - (ip + 4)))" "op + 2 + 6 + (ipe - (ip + 4)) div 2 ^ 8 \<le> omax"
    "take op' out' = pre @ [of_nat (16 * a + min (ipe - (ip + 4)) 15)] @ mid @ le_split 2 (of_nat (ip - ref) :: u16) @
       len_ext (ipe - (ip + 4))"
proof -
  let ?len = "count_match src (ip + 4) (ref + 4) - (ip + 4)"
  let ?o1 = "store op (le_split 2 (of_nat (ip - ref) :: u16)) out"
  have fit: "op + 2 \<le> length out" using assms(1) by (auto simp: put_match_def put16_def obind_eq_Ok split: if_splits)
  have l1: "length ?o1 = length out" using fit by (simp add: length_store)
  have lt: "token < op"
    using arg_cong[OF pre(1), of length] pre(2,3) by simp
  have tk: "?o1 ! token = of_nat (16 * a)"
  proof -
    have "out ! token = take op out ! token" using lt by simp
    also have "\<dots> = of_nat (16 * a)" unfolding pre(1) by (simp add: pre(2) nth_append)
    finally show ?thesis using lt fit by (simp add: nth_store)
  qed
  let ?o2 = "?o1[token := of_nat (16 * a + min ?len 15)]"
  have lens: "length ?o2 = length out" using l1 by simp
  have add: "(of_nat (16 * a) :: u8) + 15 = of_nat (16 * a + 15)" by simp
  have q: "obind (if ?len \<ge> 15 then obind (put8 ?o1 token (?o1 ! token + 15)) (\<lambda>o2. put_run2 o2 (op + 2) (?len - 15))
              else obind (put8 ?o1 token (?o1 ! token + of_nat ?len)) (\<lambda>o2. Ok (o2, op + 2))) (\<lambda>(out2, op2).
               Ok (Inr (count_match src (ip + 4) (ref + 4), out2, op2))) = Ok (Inr (ipe, out', op') :: bytes + nat \<times> bytes \<times> nat)"
    and om: "\<not> op + 2 + (1 + 5) + ?len div 2 ^ 8 > omax"
    using assms(1) fit by (auto simp: put_match_def put16_def Let_def simp del: One_nat_def split: if_splits)
  have r: "ipe = count_match src (ip + 4) (ref + 4)" "out' = store (op + 2) (len_ext ?len) ?o2"
    "op' = op + 2 + length (len_ext ?len)" "op' \<le> length out"
  proof -
    have "put8 ?o1 token (?o1 ! token + 15) = Ok (?o1[token := of_nat (16 * a + 15)])"
      "put8 ?o1 token (?o1 ! token + of_nat ?len) = Ok (?o1[token := of_nat (16 * a + ?len)])"
      unfolding tk using lt fit l1 by (simp_all add: put8_def)
    then show "ipe = count_match src (ip + 4) (ref + 4)" "out' = store (op + 2) (len_ext ?len) ?o2"
      "op' = op + 2 + length (len_ext ?len)" "op' \<le> length out"
      using q l1 fit by (auto simp: put_run2_eq len_ext_def store_def min_def split: if_splits)
  qed
  show "ipe = count_match src (ip + 4) (ref + 4)" "op' \<le> length out" by (rule r)+
  show "length out' = length out" using r(2-4) lens by (simp add: length_store)
  show "op' = op + 2 + length (len_ext (ipe - (ip + 4)))" using r by simp
  show "op + 2 + 6 + (ipe - (ip + 4)) div 2 ^ 8 \<le> omax" using om r(1) by simp
  have "take op' out' = take (op + 2) ?o2 @ len_ext ?len"
    unfolding r(2,3) using take_store_after[of "op + 2" "len_ext ?len" ?o2] r(3,4) lens by simp
  also have "take (op + 2) ?o2 = (take (op + 2) ?o1)[token := of_nat (16 * a + min ?len 15)]"
    by (simp add: take_update_swap)
  also have "take (op + 2) ?o1 = take op out @ le_split 2 (of_nat (ip - ref) :: u16)"
    using take_store_after[of op "le_split 2 (of_nat (ip - ref) :: u16)" out] fit by simp
  finally show "take op' out' = pre @ [of_nat (16 * a + min (ipe - (ip + 4)) 15)] @ mid @
      le_split 2 (of_nat (ip - ref) :: u16) @ len_ext (ipe - (ip + 4))"
    unfolding pre(1,2) r(1) by (simp add: list_update_append)
qed

section \<open>What has been written\<close>

lemma lz_out_snoc: "lz_out out (ss @ [LzSeq l off len]) = lz_copy off (len + 4) (lz_out out ss @ l)"
  by (induction out ss rule: lz_out.induct) auto

lemma seqs_ok_snoc:
  "seqs_ok n (length out) (ss @ [x]) \<longleftrightarrow> seqs_ok n (length out) ss \<and> seqs_ok n (length (lz_out out ss)) [x]"
proof (induction out ss rule: lz_out.induct)
  case (2 out lits off len ss)
  have "length (lz_copy off (len + 4) (out @ lits)) = length out + length lits + len + 4" by simp
  with 2 show ?case by (simp add: add.assoc)
qed simp

lemma lz_copy_src:
  assumes "same_bytes src ref ip n" "ref < ip" "ip + n \<le> length src"
  shows "lz_copy (ip - ref) n (take ip src) = take (ip + n) src"
  using assms
proof (induction n)
  case (Suc n)
  have ih: "lz_copy (ip - ref) n (take ip src) = take (ip + n) src"
    by (rule Suc.IH) (use Suc.prems in \<open>auto simp: same_bytes_def\<close>)
  have "src ! (n + ref) = src ! (ip + n)" using Suc.prems(1) by (simp add: same_bytes_def add.commute[of n ref])
  moreover have "ip + n - (ip - ref) = n + ref" using Suc.prems(2) by simp
  ultimately show ?case unfolding lz_copy.simps Let_def ih using Suc.prems
    by (simp add: take_Suc_conv_app_nth min_def)
qed simp

text \<open>Up to \<open>op\<close> the sequences \<open>ss\<close>, which stand for the source up to \<open>anchor\<close>.\<close>

definition enc_at :: "bytes \<Rightarrow> bytes \<Rightarrow> nat \<Rightarrow> nat \<Rightarrow> lz_seq list \<Rightarrow> bool" where
  "enc_at src out op anchor ss \<longleftrightarrow> op \<le> length out \<and> take op out = concat (map enc_seq ss) \<and>
     lz_out [] ss = take anchor src \<and> anchor \<le> length src \<and> seqs_ok (length src) 0 ss"

text \<open>The same with a token and literals behind them.\<close>

definition lit_at :: "bytes \<Rightarrow> bytes \<Rightarrow> nat \<Rightarrow> nat \<Rightarrow> nat \<Rightarrow> lz_seq list \<Rightarrow> bytes \<Rightarrow> bool" where
  "lit_at src out token op ip ss lits \<longleftrightarrow> op \<le> length out \<and> token = length (concat (map enc_seq ss)) \<and>
     take op out = concat (map enc_seq ss) @ [of_nat (16 * min (length lits) 15)] @ len_ext (length lits) @ lits \<and>
     lz_out [] ss @ lits = take ip src \<and> seqs_ok (length src) 0 ss"

lemma put_match_inv:
  assumes lit: "lit_at src out token op ip ss lits" and m: "match_at src ip ref m"
    and ok: "put_match src omax token ip ref op out = Ok (Inr (ipe, out', op'))"
  shows "enc_at src out' op' ipe (ss @ [LzSeq lits (ip - ref) (ipe - (ip + 4))])" "ip + m \<le> ipe" "ipe + 5 \<le> length src"
    "length out' = length out"
proof -
  let ?len = "ipe - (ip + 4)"
  have lt: "take op out = concat (map enc_seq ss) @ [of_nat (16 * min (length lits) 15)] @ (len_ext (length lits) @ lits)"
    "token = length (concat (map enc_seq ss))" "op \<le> length out"
    and out: "lz_out [] ss @ lits = take ip src" "seqs_ok (length src) 0 ss" using lit by (auto simp: lit_at_def)
  note p = put_match_Ok[OF ok lt]
  note c = count_match_at[OF m, folded p(1)]
  show "ip + m \<le> ipe" "ipe + 5 \<le> length src" "length out' = length out" by (rule c p)+
  have mm: "ref < ip" "ip \<le> ref + 65535" "ip + 12 \<le> length src" "4 \<le> m" using m by (auto simp: match_at_def)
  have e: "?len + 4 = ipe - ip" "ip + (ipe - ip) = ipe" using c(2) mm by auto
  have "lz_out [] (ss @ [LzSeq lits (ip - ref) ?len]) = take ipe src"
    unfolding lz_out_snoc out(1) e(1) using lz_copy_src[OF c(3) mm(1)] c(4) e(2) by simp
  moreover have "seqs_ok (length src) (length ([] :: bytes)) (ss @ [LzSeq lits (ip - ref) ?len])"
  proof -
    have "length (lz_out [] ss) + length lits = ip" using arg_cong[OF out(1), of length] mm(3) by simp
    then show ?thesis unfolding seqs_ok_snoc using out(2) mm c(2,4) by simp
  qed
  ultimately show "enc_at src out' op' ipe (ss @ [LzSeq lits (ip - ref) ?len])"
    using p(2,3,6) c(4) by (simp add: enc_at_def)
qed

definition step_inv :: "bytes \<Rightarrow> nat \<Rightarrow> match_result \<Rightarrow> bool" where
  "step_inv src cap r \<longleftrightarrow> (case r of
       MZero out' \<Rightarrow> length out' = cap
     | MLast anchor op' out' \<Rightarrow> length out' = cap \<and> anchor + 5 \<le> length src \<and> (\<exists>ss. enc_at src out' op' anchor ss)
     | MNext token' ip' ref' op' out' tab' \<Rightarrow> length out' = cap \<and> match_at src ip' ref' 4 \<and> (\<forall>h. tab' h < ip' + 4) \<and>
         (\<exists>ss. lit_at src out' token' op' ip' ss [])
     | MLoop anchor op' out' tab' \<Rightarrow> length out' = cap \<and> anchor + 12 \<le> length src \<and> (\<forall>h. tab' h < anchor + 1) \<and>
         (\<exists>ss. enc_at src out' op' anchor ss))"

lemma match_step_inv:
  assumes lit: "lit_at src out token op ip ss lits" and m: "match_at src ip ref m" and tab: "\<forall>h. tab h < ip + m"
    and ok: "match_step src omax token ip ref op out tab = Ok r"
  shows "step_inv src (length out) r"
proof -
  obtain q where q: "put_match src omax token ip ref op out = Ok q" using ok by (auto simp: match_step_def obind_eq_Ok)
  show ?thesis
  proof (cases q)
    case (Inl o1)
    then have "length o1 = length out" using q by (auto simp: put_match_def put16_def Let_def obind_eq_Ok length_store split: if_splits)
    then show ?thesis using ok q Inl by (auto simp: match_step_def step_inv_def)
  next
    case (Inr x)
    then obtain ipe out2 op2 where x: "q = Inr (ipe, out2, op2)" by (metis prod_cases3)
    note p = put_match_inv[OF lit m q[unfolded x]]
    let ?ss = "ss @ [LzSeq lits (ip - ref) (ipe - (ip + 4))]"
    let ?tab1 = "tab(LZ4_HASHVALUE src (ipe - 2) := ipe - 2)"
    let ?h = "LZ4_HASHVALUE src ipe"
    have t1: "?tab1 h < ipe" for h
    proof -
      have "tab h < ip + m" "0 < m" using tab m by (auto simp: match_at_def)
      then show ?thesis using p(2) by auto
    qed
    have step: "(if ipe > length src - 12 then Ok (MLast ipe op2 out2)
         else if ?tab1 ?h + 65535 \<ge> ipe \<and> A32 src (?tab1 ?h) = A32 src ipe
              then obind (put8 out2 op2 0) (\<lambda>out3. Ok (MNext op2 ipe (?tab1 ?h) (op2 + 1) out3 (?tab1(?h := ipe))))
              else Ok (MLoop ipe op2 out2 (?tab1(?h := ipe)))) = Ok r"
      using ok unfolding match_step_def q x Let_def by (simp only: obind.simps sum.case prod.case)
    have t2: "(?tab1(?h := ipe)) h < ipe + 1" for h using t1[of h] by (simp add: less_SucI)
    consider (last) "ipe > length src - 12" "r = MLast ipe op2 out2"
      | (nxt) out3 where "\<not> ipe > length src - 12" "?tab1 ?h + 65535 \<ge> ipe" "A32 src (?tab1 ?h) = A32 src ipe"
          "put8 out2 op2 0 = Ok out3" "r = MNext op2 ipe (?tab1 ?h) (op2 + 1) out3 (?tab1(?h := ipe))"
      | (loop) "\<not> ipe > length src - 12" "r = MLoop ipe op2 out2 (?tab1(?h := ipe))"
    proof (cases "ipe > length src - 12")
      case True
      with step last show thesis by simp
    next
      case lim: False
      show thesis
      proof (cases "?tab1 ?h + 65535 \<ge> ipe \<and> A32 src (?tab1 ?h) = A32 src ipe")
        case True
        then obtain out3 where "put8 out2 op2 0 = Ok out3" "r = MNext op2 ipe (?tab1 ?h) (op2 + 1) out3 (?tab1(?h := ipe))"
          using step lim by (auto simp only: if_True if_False simp_thms obind_eq_Ok outcome.inject)
        then show thesis using nxt lim True by blast
      next
        case False
        then show thesis using step lim loop by (simp only: if_False) simp
      qed
    qed
    then show ?thesis
    proof cases
      case last
      then show ?thesis using p by (auto simp: step_inv_def)
    next
      case loop
      have "ipe + 12 \<le> length src" using loop(1) p(2) m by (auto simp: match_at_def)
      then show ?thesis using loop p(1,4) t2 unfolding step_inv_def by auto
    next
      case nxt
      have lim: "ipe + 12 \<le> length src" using nxt(1) p(2) m by (auto simp: match_at_def)
      have "same_bytes src (?tab1 ?h) ipe 4" using nxt(3) t1[of ?h] lim A_eq_iff(1)[of "?tab1 ?h" src ipe] by linarith
      then have "match_at src ipe (?tab1 ?h) 4" using nxt(2) t1[of ?h] lim by (auto simp: match_at_def)
      moreover have "lit_at src out3 op2 (op2 + 1) ipe ?ss []"
      proof -
        have o3: "op2 + 1 \<le> length out2" "out3 = store op2 [0] out2" using nxt(4) by (auto simp: put8_eq split: if_splits)
        have "take (op2 + 1) out3 = take op2 out2 @ [0]" unfolding o3(2) using take_store_after[of op2 "[0]" out2] o3(1) by simp
        moreover have "take op2 out2 = concat (map enc_seq ?ss)" "lz_out [] ?ss = take ipe src" "seqs_ok (length src) 0 ?ss"
          using p(1) by (auto simp: enc_at_def)
        moreover have "op2 = length (take op2 out2)" using o3(1) by simp
        moreover have "length out3 = length out2" using o3 by (simp add: length_store)
        ultimately show ?thesis using o3(1) unfolding lit_at_def by (simp add: len_ext_def)
      qed
      moreover have "length out3 = length out" using nxt(4) p(4) by (auto simp: put8_eq length_store split: if_splits)
      moreover have "(?tab1(?h := ipe)) h < ipe + 4" for h using t2[of h] by linarith
      ultimately show ?thesis unfolding step_inv_def nxt(5) by auto
    qed
  qed
qed

lemma match_loop_inv:
  "lit_at src out token op ip ss lits \<Longrightarrow> match_at src ip ref m \<Longrightarrow> \<forall>h. tab h < ip + m \<Longrightarrow>
   match_loop src omax token ip ref op out tab = Ok r \<Longrightarrow> step_inv src (length out) r"
proof (induction src omax token ip ref op out tab arbitrary: ss lits m rule: match_loop.induct)
  case (1 src omax token ip ref op out tab)
  from "1.prems"(4) obtain q where q: "match_step src omax token ip ref op out tab = Ok q"
    by (subst (asm) match_loop.simps) (auto split: outcome.splits)
  have inv: "step_inv src (length out) q" by (rule match_step_inv[OF "1.prems"(1-3) q])
  show ?case
  proof (cases q)
    case (MNext token' ip' ref' op' out' tab')
    have l: "match_loop src omax token' ip' ref' op' out' tab' = Ok r"
      using "1.prems"(4) q MNext by (subst (asm) match_loop.simps) simp
    obtain ss' where s: "lit_at src out' token' op' ip' ss' []" "match_at src ip' ref' 4" "\<forall>h. tab' h < ip' + 4"
        "length out' = length out" using inv MNext by (auto simp: step_inv_def)
    from "1.IH"[OF q MNext s(1-3) l] s(4) show ?thesis by simp
  qed (use "1.prems"(4) q inv in \<open>(subst (asm) match_loop.simps, auto)+\<close>)
qed

lemma last_literals_inv:
  assumes "enc_at src out op anchor ss" "last_literals src omax anchor op out = Ok (n, out')" "0 < n"
  shows "take n out' = concat (map enc_seq ss) @ enc_last (drop anchor src)" "length out' = length out"
proof -
  let ?l = "drop anchor src" and ?L = "length src - anchor"
  have e: "op \<le> length out" "take op out = concat (map enc_seq ss)" using assms(1) by (auto simp: enc_at_def)
  let ?t = "of_nat (16 * min ?L 15) # len_ext ?L"
  let ?op2 = "op + 1 + length (len_ext ?L)"
  have r: "?op2 \<le> length out" "?op2 + ?L \<le> length (store op ?t out)" "n = ?op2 + ?L" "out' = store ?op2 ?l (store op ?t out)"
    using assms(2,3) unfolding last_literals_def Let_def put_token[OF e(1)] by (auto simp: obind_eq_Ok split: if_splits)
  have l: "length (store op ?t out) = length out" using r(1) by (simp add: length_store)
  show "length out' = length out" unfolding r(4) using r(2) l by (simp add: length_store)
  have "take n out' = take ?op2 (store op ?t out) @ ?l"
    unfolding r(3,4) using take_store_after[of ?op2 ?l "store op ?t out"] r(2) by simp
  moreover have "take ?op2 (store op ?t out) = take op out @ ?t"
    using take_store_after[of op ?t out] r(1) by (simp add: add.assoc)
  ultimately show "take n out' = concat (map enc_seq ss) @ enc_last ?l"
    using e(2) by (simp add: enc_last_def)
qed

text \<open>A compressed block for a source.\<close>

definition encodes :: "bytes \<Rightarrow> bytes \<Rightarrow> bool" where
  "encodes blk src \<longleftrightarrow> (\<exists>ss l. blk = concat (map enc_seq ss) @ enc_last l \<and> lz_out [] ss @ l = src \<and>
     seqs_ok (length src) 0 ss \<and> (ss \<noteq> [] \<longrightarrow> 5 \<le> length l))"

lemma encodes_intro:
  assumes "enc_at src out op anchor ss" "last_literals src omax anchor op out = Ok (n, out')" "0 < n"
    "ss \<noteq> [] \<longrightarrow> anchor + 5 \<le> length src"
  shows "encodes (take n out') src"
  unfolding encodes_def
  by (rule exI[of _ ss], rule exI[of _ "drop anchor src"])
    (use assms last_literals_inv[OF assms(1-3)] in \<open>auto simp: enc_at_def\<close>)

lemma lit_at_intro:
  assumes "enc_at src out op anchor ss" "put_literals src omax anchor ip op out = Ok (Some (out1, op1))" "anchor \<le> ip" "ip \<le> length src"
  shows "lit_at src out1 op op1 ip ss (fetch anchor (ip - anchor) src)"
proof -
  have "op \<le> length out" using assms(1) by (simp add: enc_at_def)
  note p = put_literals_Ok[OF assms(2-4) this]
  have "take anchor src @ fetch anchor (ip - anchor) src = take ip src"
    using assms(3) by (metis fetch_def le_add_diff_inverse take_add)
  moreover have "length (fetch anchor (ip - anchor) src) = ip - anchor" using assms(3,4) by (simp add: length_fetch)
  moreover have "op = length (concat (map enc_seq ss))" using assms(1) by (metis enc_at_def length_take min.absorb2)
  ultimately show ?thesis using p assms(1) by (simp add: lit_at_def enc_at_def)
qed

lemma enc_loop_inv:
  "enc_at src out op anchor ss \<Longrightarrow> \<forall>h. tab h < anchor + 1 \<Longrightarrow> anchor + 12 \<le> length src \<Longrightarrow>
   enc_loop src omax tab anchor op out = Ok (n, out') \<Longrightarrow> 0 < n \<Longrightarrow> encodes (take n out') src"
proof (induction src omax tab anchor op out arbitrary: ss rule: enc_loop.induct)
  case (1 src omax tab anchor op out)
  let ?f = "find_match src tab (LZ4_HASHVALUE src (anchor + 1)) (anchor + 1) 0"
  show ?case
  proof (cases ?f)
    case None
    then have "last_literals src omax anchor op out = Ok (n, out')" using "1.prems"(4) by (subst (asm) enc_loop.simps) simp
    then show ?thesis using encodes_intro[OF "1.prems"(1) _ "1.prems"(5)] "1.prems"(3) by simp
  next
    case (Some a)
    then obtain ip0 ref0 tab' where f: "?f = Some (ip0, ref0, tab')" by (cases a) auto
    obtain ip ref where c: "catch_up src anchor ip0 ref0 = (ip, ref)" by (cases "catch_up src anchor ip0 ref0")
    have fm: "anchor + 1 \<le> ip0" "match_at src ip0 ref0 4" "\<forall>h. tab' h \<le> ip0"
      using find_match_spec[OF f "1.prems"(2)] by auto
    have cu: "anchor \<le> ip" "ip \<le> ip0" "match_at src ip ref (4 + (ip0 - ip))"
      using catch_up_spec[OF _ fm(2) c] fm(1) by auto
    have tab': "\<forall>h. tab' h < ip + (4 + (ip0 - ip))" using fm(3) cu(2) by (auto intro: le_less_trans)
    from "1.prems"(4) f c obtain pl where pl: "put_literals src omax anchor ip op out = Ok pl"
      by (subst (asm) enc_loop.simps) (auto split: outcome.splits)
    show ?thesis
    proof (cases pl)
      case None
      then show ?thesis using "1.prems"(4,5) f c pl by (subst (asm) enc_loop.simps) simp
    next
      case (Some b)
      then obtain out1 op1 where pl1: "put_literals src omax anchor ip op out = Ok (Some (out1, op1))" using pl by (cases b) auto
      have lit: "lit_at src out1 op op1 ip ss (fetch anchor (ip - anchor) src)"
        by (rule lit_at_intro[OF "1.prems"(1) pl1 cu(1)]) (use cu(3) in \<open>simp add: match_at_def\<close>)
      from "1.prems"(4) f c pl1 obtain r where r: "match_loop src omax op ip ref op1 out1 tab' = Ok r"
        by (subst (asm) enc_loop.simps) (auto split: outcome.splits)
      note inv = match_loop_inv[OF lit cu(3) tab' r] and fin = match_loop_ip[OF r]
      show ?thesis
      proof (cases r)
        case (MLast anchor' op' out2)
        have "last_literals src omax anchor' op' out2 = Ok (n, out')"
          using "1.prems"(4) f c pl1 r MLast by (subst (asm) enc_loop.simps) simp
        moreover obtain ss' where "enc_at src out2 op' anchor' ss'" "anchor' + 5 \<le> length src"
          using inv MLast by (auto simp: step_inv_def)
        ultimately show ?thesis using encodes_intro "1.prems"(5) by blast
      next
        case (MLoop anchor' op' out2 tab2)
        have "enc_loop src omax tab2 anchor' op' out2 = Ok (n, out')"
          using "1.prems"(4) f c pl1 r MLoop by (subst (asm) enc_loop.simps) simp
        moreover obtain ss' where "enc_at src out2 op' anchor' ss'" "\<forall>h. tab2 h < anchor' + 1" "anchor' + 12 \<le> length src"
          using inv MLoop by (auto simp: step_inv_def)
        ultimately show ?thesis using "1.IH"[OF f refl refl c[symmetric] pl1 refl refl r MLoop] "1.prems"(5) by blast
      next
        case (MZero out2)
        then show ?thesis using "1.prems"(4,5) f c pl1 r by (subst (asm) enc_loop.simps) simp
      next
        case (MNext a b c d e g)
        then show ?thesis using fin by simp
      qed
    qed
  qed
qed

lemma compress_encodes:
  assumes "LZ4_compress_limitedOutput ctx src dest omax = Ok (n, out)" "0 < n"
  shows "encodes (take n out) src"
proof -
  let ?tab = "(\<lambda>_. 0)(LZ4_HASHVALUE src 0 := 0) :: hash_table"
  have c: "(if length src < 13 then last_literals src omax 0 0 dest else enc_loop src omax ?tab 0 0 dest) = Ok (n, out)"
    using assms by (auto simp: LZ4_compress_limitedOutput_def LZ4_compress64k_heap_limitedOutput_def
        LZ4_compress_heap_limitedOutput_def split: if_splits)
  have start: "enc_at src dest 0 0 []" by (simp add: enc_at_def)
  show ?thesis
  proof (cases "length src < 13")
    case True
    then show ?thesis using encodes_intro[OF start _ assms(2)] c by simp
  next
    case False
    show ?thesis by (rule enc_loop_inv[OF start _ _ _ assms(2)]) (use False c in auto)
  qed
qed

lemma decompress_encodes:
  assumes "encodes blk src" "length src \<le> length buf" "buf \<noteq> []"
  shows "\<exists>buf'. LZ4_decompress_safe blk buf = Ok (int (length src), buf') \<and> length buf' = length buf \<and> take (length src) buf' = src"
proof -
  obtain ss l where e: "blk = concat (map enc_seq ss) @ enc_last l" "lz_out [] ss @ l = src" "seqs_ok (length src) 0 ss"
    "ss \<noteq> [] \<longrightarrow> 5 \<le> length l" using assms(1) by (auto simp: encodes_def)
  have n: "length src = length (lz_out [] ss) + length l" using arg_cong[OF e(2), of length] by simp
  obtain buf' where "dec_loop blk 0 0 buf = Ok (int (length src), buf')" "length buf' = length buf"
      "take (length src) buf' = lz_out [] ss @ l"
    using dec_loop_seqs[of 0 blk ss l 0 buf "[]" "length src"] e n assms(2) by auto
  then show ?thesis using e(2) assms(3) by (simp add: LZ4_decompress_safe_def)
qed

section \<open>Bounds of the writes\<close>

lemma len_ext_bound:
  assumes "n \<le> 65536"
  shows "length (len_ext n) \<le> n div 2 ^ 8 + 2"
proof (cases "n < 15")
  case False
  define k where "k = (n - 15) div 255"
  have "255 * k + 15 \<le> n" using False by (simp add: k_def)
  then have "256 * (k - 1) \<le> n" using assms by linarith
  then have "k - 1 \<le> n div 2 ^ 8" by (simp add: less_eq_div_iff_mult_less_eq mult.commute)
  then show ?thesis using False by (simp add: len_ext_def k_def)
qed (simp add: len_ext_def)

lemma len_ext_exact: "length (len_ext n) \<le> (n + 255 - 15) div 255"
proof (cases "n < 15")
  case False
  then have "n + 255 - 15 = (n - 15) + 255" by simp
  then show ?thesis using False by (simp add: len_ext_def)
qed (simp add: len_ext_def)

lemma put_literals_bounded:
  assumes "anchor \<le> ip" "ip + 12 \<le> length src" "length src \<le> 65536" "op \<le> omax" "omax + 1 \<le> length out"
  shows "\<exists>r. put_literals src omax anchor ip op out = Ok r \<and>
    (case r of None \<Rightarrow> True | Some (out', op') \<Rightarrow> length out' = length out \<and> op' + 6 \<le> omax)"
proof (cases "op + 1 + (ip - anchor) + 8 + (ip - anchor) div 2 ^ 8 > omax")
  case True
  then show ?thesis by (auto simp: put_literals_def Let_def)
next
  case False
  let ?L = "ip - anchor"
  let ?E = "length (len_ext ?L)"
  have E: "?E \<le> ?L div 2 ^ 8 + 2" using assms by (intro len_ext_bound) auto
  let ?o = "store op (of_nat (16 * min ?L 15) # len_ext ?L) out"
  have fit: "op + 1 + ?E \<le> length out" "op \<le> length out" using False E assms(5) by auto
  have l: "length ?o = length out" using fit by (simp add: length_store)
  have "op + 1 + ?E + 8 \<le> length ?o" "op + 1 + ?E + ?L + 7 \<le> length ?o"
  proof -
    show "op + 1 + ?E + ?L + 7 \<le> length ?o" using False E assms(5) l by linarith
    show "op + 1 + ?E + 8 \<le> length ?o"
    proof (cases "?L = 0")
      case True
      then have "?E = 0" by (simp add: len_ext_def)
      then show ?thesis using False assms(5) l by linarith
    next
      case L: False
      then show ?thesis using False E assms(5) l by linarith
    qed
  qed
  then obtain out' where w: "wildcopy_in src ?o anchor (op + 1 + ?E) (op + 1 + ?E + ?L) = Ok out'" "length out' = length ?o"
    using wildcopy_in_spec[of "op + 1 + ?E" ?o anchor src "op + 1 + ?E + ?L"] assms(1,2) by auto
  have "put_literals src omax anchor ip op out = Ok (Some (out', op + 1 + ?E + ?L))"
    using False fit w(1) unfolding put_literals_def Let_def put_token[OF fit(2)] by simp
  then show ?thesis using w(2) l False E by simp
qed

lemma put_match_bounded:
  assumes m: "match_at src ip ref k" and "length src \<le> 65536" "op + 3 \<le> omax" "omax \<le> length out" "token < op"
  shows "\<exists>r. put_match src omax token ip ref op out = Ok r \<and>
    (case r of Inl out' \<Rightarrow> length out' = length out | Inr (ipe, out', op') \<Rightarrow> length out' = length out \<and> op' + 4 \<le> omax)"
proof -
  let ?e = "count_match src (ip + 4) (ref + 4)"
  let ?len = "?e - (ip + 4)"
  let ?o1 = "store op (le_split 2 (of_nat (ip - ref) :: u16)) out"
  have fit: "op + 2 \<le> length out" using assms by simp
  have l: "length ?o1 = length out" using fit by (simp add: length_store)
  have p16: "put16 out op (of_nat (ip - ref)) = Ok ?o1" using fit by (simp add: put16_def)
  show ?thesis
  proof (cases "op + 2 + (1 + 5) + ?len div 2 ^ 8 > omax")
    case True
    then show ?thesis using p16 l by (simp add: put_match_def Let_def)
  next
    case False
    have F: "length (len_ext ?len) \<le> ?len div 2 ^ 8 + 2"
      using count_match_at(4)[OF m] assms(2) by (intro len_ext_bound) simp
    let ?o2 = "\<lambda>v. store token [v] ?o1"
    have tk: "put8 ?o1 token v = Ok (?o2 v)" "length (?o2 v) = length out" for v
      using assms(5) fit l by (simp_all add: put8_eq length_store)
    have "\<exists>out' op'. (if ?len \<ge> 15 then obind (put8 ?o1 token (?o1 ! token + 15)) (\<lambda>o2. put_run2 o2 (op + 2) (?len - 15))
              else obind (put8 ?o1 token (?o1 ! token + of_nat ?len)) (\<lambda>o2. Ok (o2, op + 2))) = Ok (out', op') \<and>
        length out' = length out \<and> op' = op + 2 + length (len_ext ?len)"
    proof (cases "?len \<ge> 15")
      case True
      then have e: "len_ext ?len = ext_bytes (?len - 15)" by (simp add: len_ext_def)
      have "op + 2 + length (ext_bytes (?len - 15)) \<le> length out" using False F assms(4) unfolding e by linarith
      then show ?thesis using True tk by (simp add: put_run2_eq e length_store)
    next
      case False
      then show ?thesis using tk by (simp add: len_ext_def)
    qed
    then obtain out' op' where q: "(if ?len \<ge> 15 then obind (put8 ?o1 token (?o1 ! token + 15)) (\<lambda>o2. put_run2 o2 (op + 2) (?len - 15))
              else obind (put8 ?o1 token (?o1 ! token + of_nat ?len)) (\<lambda>o2. Ok (o2, op + 2))) = Ok (out', op')"
        "length out' = length out" "op' = op + 2 + length (len_ext ?len)" by blast
    have "put_match src omax token ip ref op out = Ok (Inr (?e, out', op'))"
      using False unfolding put_match_def p16 obind.simps Let_def q(1) by simp
    then show ?thesis using q(2,3) False F by simp
  qed
qed

definition step_bound :: "nat \<Rightarrow> nat \<Rightarrow> match_result \<Rightarrow> bool" where
  "step_bound cap omax r \<longleftrightarrow> (case r of
       MZero out' \<Rightarrow> length out' = cap
     | MLast anchor op' out' \<Rightarrow> op' \<le> omax
     | MNext token' ip' ref' op' out' tab' \<Rightarrow> op' + 3 \<le> omax
     | MLoop anchor op' out' tab' \<Rightarrow> op' \<le> omax)"

lemma match_step_bounded:
  assumes m: "match_at src ip ref k" and b: "length src \<le> 65536" "op + 3 \<le> omax" "omax \<le> length out" "token < op"
  shows "\<exists>r. match_step src omax token ip ref op out tab = Ok r \<and> step_bound (length out) omax r"
proof -
  from put_match_bounded[OF assms] obtain r where r: "put_match src omax token ip ref op out = Ok r"
    "case r of Inl out' \<Rightarrow> length out' = length out | Inr (ipe, out', op') \<Rightarrow> length out' = length out \<and> op' + 4 \<le> omax" by blast
  show ?thesis
  proof (cases r)
    case (Inl o1)
    then show ?thesis using r by (simp add: match_step_def step_bound_def)
  next
    case (Inr x)
    then obtain ipe out2 op2 where x: "r = Inr (ipe, out2, op2)" by (metis prod_cases3)
    have o: "length out2 = length out" "op2 + 4 \<le> omax" using r(2) x by auto
    then have p8: "put8 out2 op2 0 = Ok (out2[op2 := 0])" using b(3) by (simp add: put8_def)
    have "\<exists>q. (if c then Ok (MLast ipe op2 out2)
         else if d then obind (put8 out2 op2 0) (\<lambda>out3. Ok (MNext op2 ipe rf (op2 + 1) out3 t)) else Ok (MLoop ipe op2 out2 t)) = Ok q \<and>
        step_bound (length out) omax q" for c d rf t
      using o(2) by (simp add: p8 step_bound_def)
    then show ?thesis unfolding match_step_def r(1) x Let_def by simp
  qed
qed

lemma match_loop_bounded:
  "lit_at src out token op ip ss lits \<Longrightarrow> match_at src ip ref m \<Longrightarrow> \<forall>h. tab h < ip + m \<Longrightarrow>
   length src \<le> 65536 \<Longrightarrow> op + 3 \<le> omax \<Longrightarrow> omax \<le> length out \<Longrightarrow>
   \<exists>r. match_loop src omax token ip ref op out tab = Ok r \<and> step_bound (length out) omax r"
proof (induction src omax token ip ref op out tab arbitrary: ss lits m rule: match_loop.induct)
  case (1 src omax token ip ref op out tab)
  have lt: "op \<le> length out" "token = length (concat (map enc_seq ss))"
    "take op out = concat (map enc_seq ss) @ [of_nat (16 * min (length lits) 15)] @ len_ext (length lits) @ lits"
    using "1.prems"(1) by (simp_all add: lit_at_def)
  have "token < op" using arg_cong[OF lt(3), of length] lt(1,2) by simp
  from match_step_bounded[OF "1.prems"(2,4-6) this, of tab] obtain q where
    q: "match_step src omax token ip ref op out tab = Ok q" "step_bound (length out) omax q" by blast
  have inv: "step_inv src (length out) q" by (rule match_step_inv[OF "1.prems"(1-3) q(1)])
  show ?case
  proof (cases q)
    case (MNext token' ip' ref' op' out' tab')
    obtain ss' where s: "lit_at src out' token' op' ip' ss' []" "match_at src ip' ref' 4" "\<forall>h. tab' h < ip' + 4"
        "length out' = length out" using inv MNext by (auto simp: step_inv_def)
    have "op' + 3 \<le> omax" using q(2) MNext by (simp add: step_bound_def)
    with "1.IH"[OF q(1) MNext s(1-3)] s(4) "1.prems"(4-6) q(1) MNext show ?thesis
      by (subst match_loop.simps) simp
  qed (use q in \<open>(subst match_loop.simps, simp)+\<close>)
qed

lemma last_literals_bounded:
  assumes "omax \<le> length out" "op \<le> omax" "anchor \<le> length src"
  shows "\<exists>n out'. last_literals src omax anchor op out = Ok (n, out') \<and> n \<le> omax \<and> length out' = length out"
proof (cases "op + (length src - anchor) + 1 + (length src - anchor + 255 - 15) div 255 > omax")
  case True
  then show ?thesis by (simp add: last_literals_def Let_def)
next
  case False
  let ?L = "length src - anchor"
  have E: "length (len_ext ?L) \<le> (?L + 255 - 15) div 255" by (rule len_ext_exact)
  have fit: "op + 1 + length (len_ext ?L) + ?L \<le> omax" using False E by linarith
  then have l: "length (store op (of_nat (16 * min ?L 15) # len_ext ?L) out) = length out" using assms(1) by (simp add: length_store)
  have op: "op \<le> length out" using assms by simp
  show ?thesis using False fit assms(1) l unfolding last_literals_def Let_def put_token[OF op] by (simp add: length_store)
qed

lemma enc_loop_bounded:
  "enc_at src out op anchor ss \<Longrightarrow> \<forall>h. tab h < anchor + 1 \<Longrightarrow> anchor + 12 \<le> length src \<Longrightarrow>
   length src \<le> 65536 \<Longrightarrow> op \<le> omax \<Longrightarrow> omax + 1 \<le> length out \<Longrightarrow>
   \<exists>n out'. enc_loop src omax tab anchor op out = Ok (n, out') \<and> n \<le> omax \<and> length out' = length out"
proof (induction src omax tab anchor op out arbitrary: ss rule: enc_loop.induct)
  case (1 src omax tab anchor op out)
  let ?f = "find_match src tab (LZ4_HASHVALUE src (anchor + 1)) (anchor + 1) 0"
  show ?case
  proof (cases ?f)
    case None
    then show ?thesis using last_literals_bounded[of omax out op anchor src] "1.prems"
      by (subst enc_loop.simps) simp
  next
    case (Some a)
    then obtain ip0 ref0 tab' where f: "?f = Some (ip0, ref0, tab')" by (cases a) auto
    obtain ip ref where c: "catch_up src anchor ip0 ref0 = (ip, ref)" by (cases "catch_up src anchor ip0 ref0")
    have fm: "anchor + 1 \<le> ip0" "match_at src ip0 ref0 4" "\<forall>h. tab' h \<le> ip0"
      using find_match_spec[OF f "1.prems"(2)] by auto
    have cu: "anchor \<le> ip" "ip \<le> ip0" "match_at src ip ref (4 + (ip0 - ip))"
      using catch_up_spec[OF _ fm(2) c] fm(1) by auto
    have tab': "\<forall>h. tab' h < ip + (4 + (ip0 - ip))" using fm(3) cu(2) by (auto intro: le_less_trans)
    have ip12: "ip + 12 \<le> length src" using cu(3) by (simp add: match_at_def)
    from put_literals_bounded[OF cu(1) ip12 "1.prems"(4-6)] obtain pl where
      pl: "put_literals src omax anchor ip op out = Ok pl"
        "case pl of None \<Rightarrow> True | Some (out', op') \<Rightarrow> length out' = length out \<and> op' + 6 \<le> omax" by blast
    show ?thesis
    proof (cases pl)
      case None
      then show ?thesis using f c pl by (subst enc_loop.simps) simp
    next
      case (Some b)
      then obtain out1 op1 where b: "pl = Some (out1, op1)" by (cases b) auto
      have o1: "length out1 = length out" "op1 + 6 \<le> omax" using pl(2) b by auto
      have lit: "lit_at src out1 op op1 ip ss (fetch anchor (ip - anchor) src)"
        by (rule lit_at_intro[OF "1.prems"(1) _ cu(1)]) (use pl(1) b ip12 in auto)
      from match_loop_bounded[OF lit cu(3) tab' "1.prems"(4), of omax] o1 "1.prems"(6) obtain r where
        r: "match_loop src omax op ip ref op1 out1 tab' = Ok r" "step_bound (length out1) omax r" by auto
      note inv = match_loop_inv[OF lit cu(3) tab' r(1)] and fin = match_loop_ip[OF r(1)]
      show ?thesis
      proof (cases r)
        case (MLast anchor' op' out2)
        have "\<exists>n out'. last_literals src omax anchor' op' out2 = Ok (n, out') \<and> n \<le> omax \<and> length out' = length out2"
          by (rule last_literals_bounded) (use inv r(2) MLast o1 "1.prems"(6) in \<open>auto simp: step_inv_def step_bound_def\<close>)
        moreover have "length out2 = length out" using inv MLast o1 by (auto simp: step_inv_def)
        ultimately show ?thesis using f c pl(1) b r(1) MLast by (subst enc_loop.simps) simp
      next
        case (MLoop anchor' op' out2 tab2)
        obtain ss' where s: "enc_at src out2 op' anchor' ss'" "\<forall>h. tab2 h < anchor' + 1" "anchor' + 12 \<le> length src"
            "length out2 = length out1" using inv MLoop by (auto simp: step_inv_def)
        have "op' \<le> omax" using r(2) MLoop by (simp add: step_bound_def)
        then have "\<exists>n out'. enc_loop src omax tab2 anchor' op' out2 = Ok (n, out') \<and> n \<le> omax \<and> length out' = length out"
          using "1.IH"[OF f refl refl c[symmetric] pl(1)[unfolded b] refl refl r(1) MLoop s(1-3)] "1.prems"(4,6) s(4) o1(1) by simp
        then show ?thesis using f c pl(1) b r(1) MLoop by (subst enc_loop.simps) simp
      next
        case (MZero out2)
        then show ?thesis using f c pl(1) b r o1 by (subst enc_loop.simps) (simp add: step_bound_def)
      next
        case (MNext a b c d e g)
        then show ?thesis using fin by simp
      qed
    qed
  qed
qed

lemma compress_bounded:
  assumes "length src \<le> 65536" "omax < length dest"
  shows "\<exists>n out. LZ4_compress_limitedOutput ctx src dest omax = Ok (n, out) \<and> n \<le> omax \<and> length out = length dest"
proof -
  let ?tab = "(\<lambda>_. 0)(LZ4_HASHVALUE src 0 := 0) :: hash_table"
  have "\<exists>n out. (if length src < 13 then last_literals src omax 0 0 dest else enc_loop src omax ?tab 0 0 dest) = Ok (n, out) \<and>
     n \<le> omax \<and> length out = length dest"
  proof (cases "length src < 13")
    case True
    then show ?thesis using last_literals_bounded[of omax dest 0 0 src] assms(2) by simp
  next
    case False
    then show ?thesis using enc_loop_bounded[of src dest 0 0 "[]" ?tab omax] assms by (simp add: enc_at_def)
  qed
  then show ?thesis by (auto simp: LZ4_compress_limitedOutput_def LZ4_compress64k_heap_limitedOutput_def
        LZ4_compress_heap_limitedOutput_def)
qed

lemma put_literals_overrun:
  assumes "length out = 5655"
  shows "put_literals src 5655 0 5625 0 out \<noteq> Ok r"
proof
  assume p: "put_literals src 5655 0 5625 0 out = Ok r"
  have E: "length (len_ext 5625) = 23" by (simp add: len_ext_def ext_bytes_def)
  have pt: "b = 24 \<and> length a = length out" if "put8 out 0 240 = Ok x" "put_run x (Suc 0) 5610 = Ok (a, b)" for x a b
    using put_token[of 0 out 5625] E assms that by (auto simp: length_store)
  have "\<exists>o2 o3. wildcopy_in src o2 0 24 5649 = Ok o3 \<and> length o2 = length out"
    using p pt by (fastforce simp: put_literals_def Let_def obind_eq_Ok split: if_splits)
  then show False using wildcopy_in_Ok assms by fastforce
qed

section \<open>Round trip and output limit\<close>

text \<open>
  C7: LZ4 decompression inverts compression: when the compressor accepts a block, it returns the
  number of bytes it produced, and the safe decompressor, given exactly these bytes and a buffer
  that is large enough, returns the length of the block and leaves the block in the buffer.
  This covers every literal run, match length, offset and overlapping copy the encoder emits.
\<close>

theorem lz4_roundtrip:
  assumes "LZ4_compress_limitedOutput ctx src dest omax = Ok (n, out)" "0 < n"
    and "length src \<le> length buf" "buf \<noteq> []"
  shows "\<exists>buf'. LZ4_decompress_safe (take n out) buf = Ok (int (length src), buf') \<and>
     length buf' = length buf \<and> take (length src) buf' = src"
  by (rule decompress_encodes[OF compress_encodes[OF assms(1,2)] assms(3,4)])

theorem lz4_roundtrip_witness:
  "\<exists>buf'. LZ4_decompress_safe [48, 7, 8, 9] [0, 0, 0, 0] = Ok (3, buf') \<and> length buf' = 4 \<and> take 3 buf' = [7, 8, 9]"
proof -
  have "LZ4_compress_limitedOutput True [7, 8, 9] [0, 0, 0, 0, 0, 0] 5 = Ok (4, [48, 7, 8, 9, 0, 0])"
    by (simp add: LZ4_compress_limitedOutput_def LZ4_compress64k_heap_limitedOutput_def last_literals_def put8_def store_def)
  from lz4_roundtrip[OF this, of "[0, 0, 0, 0]"] show ?thesis by (simp add: numeral_eq_Suc)
qed

text \<open>
  C25: The output limit.  For a block of at most 64 KB (the logical block size) the compressor always
  returns, reads only the block, and writes inside a buffer that has one byte more than the
  limit it was given; the length it returns is within the limit and the buffer keeps its length.
  The extra byte is needed: a run of 5625 literals that the limit check just accepts is copied in
  units of eight bytes up to one byte beyond the limit, so that a buffer of exactly the limit is
  overrun.
\<close>

theorem lz4_output_limit:
  assumes "length src \<le> 65536" "omax < length dest"
  shows "(\<exists>n out. LZ4_compress_limitedOutput ctx src dest omax = Ok (n, out) \<and> n \<le> omax \<and> length out = length dest) \<and>
    (\<forall>lits buf. length buf = 5655 \<longrightarrow> \<not> (\<exists>r. put_literals lits 5655 0 5625 0 buf = Ok r))"
  using compress_bounded[OF assms] put_literals_overrun by blast

theorem lz4_output_limit_witness:
  "\<exists>n out. LZ4_compress_limitedOutput True (replicate 100 0) (replicate 51 0) 50 = Ok (n, out) \<and> n \<le> 50 \<and> length out = 51"
  using lz4_output_limit[of "replicate 100 0" 50 "replicate 51 0" True] by simp

end
