(* ===== verification/H2_Data.thy ===== *)
theory H2_Data
  imports H2_Check H2_Subr H2_Lz4
begin

unbundle bit_operations_syntax

text \<open>
  File data on the way to the media and back: the write path of \<^verbatim>\<open>hammer2_vfsops.c\<close>
  (\<open>hammer2_write_file_core\<close>, \<open>hammer2_compress_and_write\<close>, \<open>hammer2_zero_check_and_write\<close>,
  \<open>hammer2_write_bp\<close>, \<open>zero_write\<close>, \<open>test_block_zeros\<close>) and the read path of
  \<^verbatim>\<open>hammer2_vnops.c\<close> (\<open>hammer2_strategy_read\<close>, its callback and the two decompression
  callbacks).

  A cluster is the list of its elements, each a chain with the memory its data has: the device
  buffer of a DATA chain, the embedded area of an INODE chain.  Three things are parameters:
  the chain layer's answer to \<open>hammer2_assign_physical\<close> for a block size, the compressor of
  the kernel's zlib, and the two staging buffers.  The allocation of these buffers is commented
  out in this port, so that \<open>comp_buffer\<close> is null and \<open>compressed_buffer\<close> uninitialised: \<open>None\<close>
  stands for that, \<open>Some\<close> for the buffers of 32768 and 65536 bytes whose allocation is
  prepared in \<open>hammer2_vfs_init\<close>.  Locking, counters and the kind of device write requested are
  left out.
\<close>

abbreviation (input) HAMMER2_COMP_NONE :: u8 where "HAMMER2_COMP_NONE \<equiv> 0"
abbreviation (input) HAMMER2_COMP_AUTOZERO :: u8 where "HAMMER2_COMP_AUTOZERO \<equiv> 1"
abbreviation (input) HAMMER2_COMP_LZ4 :: u8 where "HAMMER2_COMP_LZ4 \<equiv> 2"
abbreviation (input) HAMMER2_COMP_ZLIB :: u8 where "HAMMER2_COMP_ZLIB \<equiv> 3"
abbreviation (input) HAMMER2_EMBEDDED_BYTES :: nat where "HAMMER2_EMBEDDED_BYTES \<equiv> 512"

definition HAMMER2_ENC_COMP :: "u8 \<Rightarrow> u8" where "HAMMER2_ENC_COMP n = n AND 15"
definition HAMMER2_DEC_COMP :: "u8 \<Rightarrow> u8" where "HAMMER2_DEC_COMP n = n AND 15"
definition HAMMER2_DEC_ALGO :: "u8 \<Rightarrow> u8" where "HAMMER2_DEC_ALGO n = n AND 15"
definition HAMMER2_DEC_LEVEL :: "u8 \<Rightarrow> u8" where "HAMMER2_DEC_LEVEL n = drop_bit 4 n AND 15"

section \<open>Buffers, clusters, parameters\<close>

text \<open>\<open>bcopy(src, dst, n)\<close> to the start of a block, and \<open>bzero(buf + off, n)\<close>.\<close>

definition bcopy :: "bytes \<Rightarrow> bytes \<Rightarrow> nat \<Rightarrow> bytes outcome" where
  "bcopy src dst n = (if n \<le> length src \<and> n \<le> length dst then Ok (store 0 (take n src) dst) else Fault ''bcopy'')"

definition bzero :: "bytes \<Rightarrow> int \<Rightarrow> int \<Rightarrow> bytes outcome" where
  "bzero buf off n =
     (if 0 \<le> off \<and> 0 \<le> n \<and> off + n \<le> int (length buf) then Ok (store (nat off) (replicate (nat n) 0) buf)
      else if off < 0 then Fault ''write before the buffer'' else Fault ''write behind the buffer'')"

text \<open>
  An element of a cluster: the chain, the \<open>op_flags\<close> of its inode, whether \<open>chain->data\<close> is
  set, the result of the device buffer operation on it, and its data: the device buffer, or
  the embedded data of an inode.
\<close>

record wchain =
  wc_chain :: hammer2_chain
  wc_opflags :: u8
  wc_cached :: bool
  wc_ioerr :: int
  wc_data :: bytes

abbreviation wc_type :: "wchain \<Rightarrow> u8" where "wc_type wc \<equiv> br_type (ch_bref (wc_chain wc))"
abbreviation wc_methods :: "wchain \<Rightarrow> u8" where "wc_methods wc \<equiv> br_methods (ch_bref (wc_chain wc))"
abbreviation wc_bytes :: "wchain \<Rightarrow> nat" where "wc_bytes wc \<equiv> ch_bytes (wc_chain wc)"

definition set_methods :: "u8 \<Rightarrow> wchain \<Rightarrow> wchain" where
  "set_methods m wc = wc\<lparr>wc_chain := (wc_chain wc)\<lparr>ch_bref := (ch_bref (wc_chain wc))\<lparr>br_methods := m\<rparr>\<rparr>\<rparr>"

text \<open>
  zlib: \<open>z_deflate level data avail\<close> is the compressed stream when \<open>deflate\<close> returns
  \<open>Z_STREAM_END\<close>; \<open>z_inflate input avail\<close> says whether \<open>inflate\<close> reached the end of the
  stream and what it produced.
\<close>

record zlib =
  z_deflate :: "nat \<Rightarrow> bytes \<Rightarrow> nat \<Rightarrow> bytes option"
  z_inflate :: "bytes \<Rightarrow> nat \<Rightarrow> bool \<times> bytes"

text \<open>The logical buffer: \<open>b_data\<close> (of \<open>b_bufsize\<close> bytes), \<open>b_bcount\<close>, its offset, and the error.\<close>

record lbuf =
  b_data :: bytes
  b_bcount :: nat
  b_loffset :: u64
  b_error :: int

section \<open>Writing\<close>

function zeros_from :: "bytes \<Rightarrow> nat \<Rightarrow> nat \<Rightarrow> bool outcome" where
  "zeros_from buf bytes i =
     (if i < bytes
      then if i + 8 \<le> length buf
           then if fetch i 8 buf \<noteq> replicate 8 0 then Ok False else zeros_from buf bytes (i + 8)
           else Fault ''access''
      else Ok True)"
  by pat_completeness auto
termination by (relation "measure (\<lambda>(buf, bytes, i). bytes - i)") auto

declare zeros_from.simps [simp del]

definition test_block_zeros :: "bytes \<Rightarrow> nat \<Rightarrow> bool outcome" where
  "test_block_zeros buf bytes = zeros_from buf bytes 0"

text \<open>
  \<open>zero_write\<close>: what the lookup finds and whether it is the inode itself (\<open>ddflag\<close>).  The
  data embedded in the inode are cleared in the first element and copied to the others by
  \<open>hammer2_cluster_modsync\<close>; a data cluster is deleted.
\<close>

definition zero_write :: "(wchain list \<times> bool) option \<Rightarrow> wchain list option outcome" where
  "zero_write found =
     (case found of
        None \<Rightarrow> Ok None
      | Some (cluster, ddflag) \<Rightarrow>
          if ddflag
          then if list_all (\<lambda>wc. ch_flags (wc_chain wc) AND 1 \<noteq> 0) cluster
               then Ok (Some (map (\<lambda>wc. wc\<lparr>wc_data := replicate HAMMER2_EMBEDDED_BYTES 0\<rparr>) cluster))
               else Panic ''zero_write''
          else Ok None)"

text \<open>The compression attempt: \<open>comp_size\<close> and the contents of \<open>comp_buffer\<close>.\<close>

definition comp_level :: "u8 \<Rightarrow> nat" where
  "comp_level comp_algo =
     (let l = HAMMER2_DEC_LEVEL comp_algo in if l = 0 then 6 else if l < 6 then 6 else if l > 9 then 9 else unat l)"

definition compress_lz4 :: "bool \<Rightarrow> bytes option \<Rightarrow> bytes \<Rightarrow> nat \<Rightarrow> (nat \<times> bytes) outcome" where
  "compress_lz4 have_ctx comp_buffer data pblksize =
     (case comp_buffer of
        None \<Rightarrow> Fault ''comp_buffer''
      | Some cb \<Rightarrow>
          if length cb < 4 then Fault ''comp_buffer''
          else obind (LZ4_compress_limitedOutput have_ctx (take pblksize data) (drop 4 cb) (pblksize div 2 - 4)) (\<lambda>(n, out).
            Ok (if n = 0 then 0 else n + 4, le_split 4 (of_nat n :: u32) @ out)))"

definition compress_zlib :: "zlib \<Rightarrow> bytes option \<Rightarrow> u8 \<Rightarrow> bytes \<Rightarrow> nat \<Rightarrow> (nat \<times> bytes) outcome" where
  "compress_zlib z comp_buffer comp_algo data pblksize =
     (case comp_buffer of
        None \<Rightarrow> Ok (0, [])
      | Some cb \<Rightarrow>
          case z_deflate z (comp_level comp_algo) (take pblksize data) (pblksize div 2) of
            Some c \<Rightarrow> obind (bcopy c cb (length c)) (\<lambda>cb'. Ok (length c, cb'))
          | None \<Rightarrow> Ok (0, cb))"

definition comp_try :: "zlib \<Rightarrow> bool \<Rightarrow> bytes option \<Rightarrow> u8 \<Rightarrow> u8 \<Rightarrow> bytes \<Rightarrow> nat \<Rightarrow> (nat \<times> bytes) outcome" where
  "comp_try z have_ctx comp_buffer comp_heuristic comp_algo data pblksize =
     (if comp_heuristic < 8 \<or> comp_heuristic AND 7 = 0
      then let a = HAMMER2_DEC_ALGO comp_algo
           in if a = HAMMER2_COMP_LZ4 then compress_lz4 have_ctx comp_buffer data pblksize
              else if a = HAMMER2_COMP_ZLIB then compress_zlib z comp_buffer comp_algo data pblksize
              else Ok (0, [])
      else Ok (0, []))"

definition next_heuristic :: "u8 \<Rightarrow> nat \<Rightarrow> u8" where
  "next_heuristic h comp_size = (if comp_size \<noteq> 0 then 0 else if h + 1 > 128 then 8 else h + 1)"

definition comp_block_size :: "nat \<Rightarrow> nat \<Rightarrow> nat outcome" where
  "comp_block_size comp_size pblksize =
     (if comp_size = 0 then Ok pblksize
      else if comp_size \<le> 1024 then Ok 1024
      else if comp_size \<le> 2048 then Ok 2048
      else if comp_size \<le> 4096 then Ok 4096
      else if comp_size \<le> 8192 then Ok 8192
      else if comp_size \<le> 16384 then Ok 16384
      else if comp_size \<le> 32768 then Ok 32768
      else Panic ''hammer2: WRITE PATH: Weird comp_size value.'')"

text \<open>
  The loop over the elements of the cluster: \<open>put_inode\<close> stores the embedded data of an inode,
  \<open>compress_chain\<close> the block of a DATA chain, and \<open>finish_chain\<close> sets its methods and check code.
\<close>

definition put_inode :: "lbuf \<Rightarrow> wchain \<Rightarrow> wchain outcome" where
  "put_inode bp wc =
     (if wc_opflags wc AND 1 = 0 then Panic ''DIRECTDATA''
      else if b_loffset bp \<noteq> 0 then Panic ''b_loffset''
      else obind (bcopy (b_data bp) (wc_data wc) HAMMER2_EMBEDDED_BYTES) (\<lambda>d. Ok (wc\<lparr>wc_data := d\<rparr>)))"

definition finish_chain :: "hmac_fn \<Rightarrow> u8 \<Rightarrow> bytes \<Rightarrow> wchain \<Rightarrow> wchain" where
  "finish_chain hmac methods bdata wc =
     (let c = hammer2_chain_setcheck hmac (wc_chain (set_methods methods wc)) bdata
      in wc\<lparr>wc_chain := c\<lparr>ch_flags := ch_flags c AND NOT 0x20\<rparr>, wc_data := bdata\<rparr>)"

definition compress_chain ::
  "hmac_fn \<Rightarrow> lbuf \<Rightarrow> nat \<Rightarrow> u8 \<Rightarrow> u8 \<Rightarrow> nat \<Rightarrow> nat \<Rightarrow> bytes \<Rightarrow> wchain \<Rightarrow> int \<Rightarrow> (wchain \<times> int) outcome" where
  "compress_chain hmac bp pblksize comp_algo check_algo comp_size blk_size comp_buffer wc errorp =
     (if ch_flags (wc_chain wc) AND 1 = 0 then Panic ''MODIFIED''
      else if wc_type wc = HAMMER2_BREF_TYPE_INODE then obind (put_inode bp wc) (\<lambda>wc'. Ok (wc', errorp))
      else if wc_type wc = HAMMER2_BREF_TYPE_DATA
      then if wc_ioerr wc \<noteq> 0 then Ok (wc, wc_ioerr wc)
           else if comp_size \<noteq> 0
           then obind (bcopy comp_buffer (wc_data wc) comp_size) (\<lambda>bdata.
                obind (if comp_size \<noteq> blk_size then bzero bdata (int comp_size) (int blk_size - int comp_size) else Ok bdata) (\<lambda>bdata'.
                  Ok (finish_chain hmac (HAMMER2_ENC_COMP comp_algo + HAMMER2_ENC_CHECK check_algo) bdata' wc, 0)))
           else obind (bcopy (b_data bp) (wc_data wc) pblksize) (\<lambda>bdata.
                  Ok (finish_chain hmac (HAMMER2_ENC_COMP HAMMER2_COMP_NONE + HAMMER2_ENC_CHECK check_algo) bdata wc, 0))
      else Panic ''hammer2_write_bp: bad chain type'')"

fun compress_chains ::
  "(wchain \<Rightarrow> int \<Rightarrow> (wchain \<times> int) outcome) \<Rightarrow> wchain list \<Rightarrow> int \<Rightarrow> (wchain list \<times> int) outcome" where
  "compress_chains f [] errorp = Ok ([], errorp)"
| "compress_chains f (wc # wcs) errorp =
     obind (f wc errorp) (\<lambda>(wc', e). obind (compress_chains f wcs e) (\<lambda>(wcs', e'). Ok (wc' # wcs', e')))"

definition write_chain :: "hmac_fn \<Rightarrow> lbuf \<Rightarrow> u8 \<Rightarrow> wchain \<Rightarrow> wchain outcome" where
  "write_chain hmac bp check_algo wc =
     (if ch_flags (wc_chain wc) AND 1 = 0 then Panic ''MODIFIED''
      else if wc_type wc = HAMMER2_BREF_TYPE_INODE then put_inode bp wc
      else if wc_type wc = HAMMER2_BREF_TYPE_DATA
      then if wc_ioerr wc \<noteq> 0 then Panic ''error == 0''
           else obind (bcopy (b_data bp) (wc_data wc) (wc_bytes wc)) (\<lambda>bdata.
                  Ok (finish_chain hmac (HAMMER2_ENC_COMP HAMMER2_COMP_NONE + HAMMER2_ENC_CHECK check_algo) bdata wc))
      else Panic ''hammer2_write_bp: bad chain type'')"

text \<open>\<open>hammer2_write_bp\<close>: an I/O error panics, so that the error returned is 0.\<close>

fun hammer2_write_bp :: "hmac_fn \<Rightarrow> wchain list \<Rightarrow> lbuf \<Rightarrow> u8 \<Rightarrow> (wchain list \<times> int) outcome" where
  "hammer2_write_bp hmac [] bp check_algo = Ok ([], 0)"
| "hammer2_write_bp hmac (wc # wcs) bp check_algo =
     obind (write_chain hmac bp check_algo wc) (\<lambda>wc'.
       obind (hammer2_write_bp hmac wcs bp check_algo) (\<lambda>(wcs', e). Ok (wc' # wcs', e)))"

text \<open>
  What a write leaves: the cluster now found at the offset (\<open>None\<close> for a hole), the error, and
  the inode's \<open>comp_heuristic\<close>.
\<close>

type_synonym write_result = "wchain list option \<times> int \<times> u8"

definition write_plain :: "hmac_fn \<Rightarrow> (nat \<Rightarrow> int \<times> wchain list option) \<Rightarrow> lbuf \<Rightarrow> nat \<Rightarrow> u8 \<Rightarrow> u8 \<Rightarrow> write_result outcome" where
  "write_plain hmac assign bp pblksize check_algo heur =
     (case snd (assign pblksize) of
        None \<Rightarrow> Fault ''cluster''
      | Some cluster \<Rightarrow> obind (hammer2_write_bp hmac cluster bp check_algo) (\<lambda>(cl, e). Ok (Some cl, e, heur)))"

definition hammer2_zero_check_and_write ::
  "hmac_fn \<Rightarrow> (nat \<Rightarrow> int \<times> wchain list option) \<Rightarrow> (wchain list \<times> bool) option \<Rightarrow> lbuf \<Rightarrow> nat \<Rightarrow> u8 \<Rightarrow> u8 \<Rightarrow> write_result outcome" where
  "hammer2_zero_check_and_write hmac assign found bp pblksize check_algo heur =
     obind (test_block_zeros (b_data bp) pblksize) (\<lambda>zero.
       if zero then obind (zero_write found) (\<lambda>r. Ok (r, 0, heur))
       else write_plain hmac assign bp pblksize check_algo heur)"

definition hammer2_compress_and_write ::
  "hmac_fn \<Rightarrow> zlib \<Rightarrow> bool \<Rightarrow> bytes option \<Rightarrow> (nat \<Rightarrow> int \<times> wchain list option) \<Rightarrow> (wchain list \<times> bool) option \<Rightarrow>
   lbuf \<Rightarrow> nat \<Rightarrow> u8 \<Rightarrow> u8 \<Rightarrow> u8 \<Rightarrow> write_result outcome" where
  "hammer2_compress_and_write hmac z have_ctx comp_buffer assign found bp pblksize comp_algo check_algo heur =
     obind (test_block_zeros (b_data bp) pblksize) (\<lambda>zero.
       if zero then obind (zero_write found) (\<lambda>r. Ok (r, 0, heur))
       else if \<not> pblksize div 2 \<le> 32768 then Panic ''pblksize''
       else obind (comp_try z have_ctx comp_buffer heur comp_algo (b_data bp) pblksize) (\<lambda>(comp_size, cb).
         obind (comp_block_size comp_size pblksize) (\<lambda>blk_size.
           let heur' = next_heuristic heur comp_size
           in case assign blk_size of
                (errorp, cluster) \<Rightarrow>
                  if errorp \<noteq> 0
                  then if cluster = None then Ok (None, errorp, heur') else Panic ''cluster == NULL''
                  else (case cluster of
                      None \<Rightarrow> Fault ''cluster''
                    | Some cl \<Rightarrow>
                        obind (compress_chains (compress_chain hmac bp pblksize comp_algo check_algo comp_size blk_size cb) cl 0)
                          (\<lambda>(cl', e). Ok (Some cl', e, heur'))))))"

definition hammer2_write_file_core ::
  "hmac_fn \<Rightarrow> zlib \<Rightarrow> bool \<Rightarrow> bytes option \<Rightarrow> (nat \<Rightarrow> int \<times> wchain list option) \<Rightarrow> (wchain list \<times> bool) option \<Rightarrow>
   lbuf \<Rightarrow> nat \<Rightarrow> u8 \<Rightarrow> u8 \<Rightarrow> u8 \<Rightarrow> write_result outcome" where
  "hammer2_write_file_core hmac z have_ctx comp_buffer assign found bp pblksize comp_algo check_algo heur =
     (if HAMMER2_DEC_ALGO comp_algo = HAMMER2_COMP_NONE then write_plain hmac assign bp pblksize check_algo heur
      else if HAMMER2_DEC_ALGO comp_algo = HAMMER2_COMP_AUTOZERO
      then hammer2_zero_check_and_write hmac assign found bp pblksize check_algo heur
      else hammer2_compress_and_write hmac z have_ctx comp_buffer assign found bp pblksize comp_algo check_algo heur)"

section \<open>Reading\<close>

text \<open>
  The LZ4 callback.  \<open>compressed_size\<close> is a signed integer, converted to unsigned in the
  comparison with \<open>bytes - sizeof(int)\<close>.
\<close>

definition hammer2_decompress_LZ4_callback :: "bytes option \<Rightarrow> bytes \<Rightarrow> nat \<Rightarrow> lbuf \<Rightarrow> lbuf outcome" where
  "hammer2_decompress_LZ4_callback compressed_buffer data bytes bp =
     (if length (b_data bp) > 65536 then Panic ''b_bufsize''
      else let compressed_size = sint (le_join (take 4 data) :: u32)
      in if compressed_size < 0 \<or> compressed_size > int bytes - 4 then Panic ''compressed_size''
         else (case compressed_buffer of
             None \<Rightarrow> Fault ''compressed_buffer''
           | Some cb \<Rightarrow>
               obind (LZ4_decompress_safe (fetch 4 (nat compressed_size) data) (take (length (b_data bp)) cb)) (\<lambda>(result, cb').
                 let cb2 = (if result < 0 then replicate (length (b_data bp)) 0 else cb')
                 in if result > int (length (b_data bp)) then Panic ''result''
                    else obind (bcopy cb2 (b_data bp) (length (b_data bp))) (\<lambda>d.
                           obind (if result < int (length (b_data bp)) then bzero d result (int (length (b_data bp)) - result) else Ok d) (\<lambda>d'.
                             Ok (bp\<lparr>b_data := d'\<rparr>))))))"

definition hammer2_decompress_ZLIB_callback :: "zlib \<Rightarrow> bytes option \<Rightarrow> bytes \<Rightarrow> nat \<Rightarrow> lbuf \<Rightarrow> lbuf outcome" where
  "hammer2_decompress_ZLIB_callback z compressed_buffer data bytes bp =
     (if length (b_data bp) > 65536 then Panic ''b_bufsize''
      else (case compressed_buffer of
          None \<Rightarrow> Fault ''compressed_buffer''
        | Some cb \<Rightarrow>
            let bufsize = length (b_data bp); (ended, produced) = z_inflate z (take bytes data) bufsize;
                cb' = (if ended then store 0 produced cb else replicate bufsize 0 @ drop bufsize cb);
                result = length produced
            in obind (bcopy cb' (b_data bp) bufsize) (\<lambda>d.
                 obind (if result < bufsize then bzero d (int result) (int bufsize - int result) else Ok d) (\<lambda>d'.
                   Ok (bp\<lparr>b_data := d'\<rparr>)))))"

text \<open>The copy out of one element whose data are at hand.\<close>

definition read_element :: "zlib \<Rightarrow> bytes option \<Rightarrow> wchain \<Rightarrow> lbuf \<Rightarrow> lbuf outcome" where
  "read_element z compressed_buffer wc bp =
     (if wc_type wc = HAMMER2_BREF_TYPE_INODE
      then obind (bcopy (wc_data wc) (b_data bp) HAMMER2_EMBEDDED_BYTES) (\<lambda>d.
             obind (bzero d (int HAMMER2_EMBEDDED_BYTES) (int (b_bcount bp) - int HAMMER2_EMBEDDED_BYTES)) (\<lambda>d'.
               Ok (bp\<lparr>b_data := d', b_error := 0\<rparr>)))
      else if wc_type wc = HAMMER2_BREF_TYPE_DATA
      then let m = HAMMER2_DEC_COMP (wc_methods wc)
           in if m = HAMMER2_COMP_LZ4 then hammer2_decompress_LZ4_callback compressed_buffer (wc_data wc) (wc_bytes wc) bp
              else if m = HAMMER2_COMP_ZLIB then hammer2_decompress_ZLIB_callback z compressed_buffer (wc_data wc) (wc_bytes wc) bp
              else if m = HAMMER2_COMP_NONE
              then if wc_bytes wc > b_bcount bp then Panic ''chain->bytes''
                   else obind (bcopy (wc_data wc) (b_data bp) (wc_bytes wc)) (\<lambda>d.
                          obind (if wc_bytes wc < b_bcount bp then bzero d (int (wc_bytes wc)) (int (b_bcount bp) - int (wc_bytes wc)) else Ok d) (\<lambda>d'.
                            Ok (bp\<lparr>b_data := d', b_error := 0\<rparr>)))
              else Panic ''hammer2_strategy_read: unknown compression type''
      else Panic ''hammer2_strategy_read: unknown bref type'')"

text \<open>\<open>hammer2_strategy_read_callback\<close> with a device buffer: the next element is tried on an error.\<close>

fun hammer2_strategy_read_callback :: "zlib \<Rightarrow> bytes option \<Rightarrow> wchain list \<Rightarrow> lbuf \<Rightarrow> lbuf outcome" where
  "hammer2_strategy_read_callback z cb [] bp = Fault ''cluster''"
| "hammer2_strategy_read_callback z cb (wc # wcs) bp =
     (if wc_ioerr wc \<noteq> 0
      then if wcs = [] then Ok (bp\<lparr>b_error := wc_ioerr wc\<rparr>) else hammer2_strategy_read_callback z cb wcs bp
      else read_element z cb wc bp)"

text \<open>
  \<open>hammer2_chain_load_async\<close>: the first element whose data are in memory; else a cleared buffer
  for an element never written, or device reads beginning with the first element.
\<close>

definition hammer2_chain_load_async :: "zlib \<Rightarrow> bytes option \<Rightarrow> wchain list \<Rightarrow> lbuf \<Rightarrow> lbuf outcome" where
  "hammer2_chain_load_async z cb cluster bp =
     (case find wc_cached cluster of
        Some wc \<Rightarrow> read_element z cb wc bp
      | None \<Rightarrow>
          (case cluster of
             [] \<Rightarrow> Fault ''cluster''
           | wc # wcs \<Rightarrow>
               if ch_flags (wc_chain wc) AND 0x20 \<noteq> 0
               then obind (hammer2_devblksize (of_nat (wc_bytes wc))) (\<lambda>devblksize.
                      if wc_bytes wc = devblksize
                      then if wc_ioerr wc \<noteq> 0 then Panic ''error == 0''
                           else read_element z cb (wc\<lparr>wc_data := replicate (wc_bytes wc) 0\<rparr>) bp
                      else hammer2_strategy_read_callback z cb cluster bp)
               else hammer2_strategy_read_callback z cb cluster bp))"

definition hammer2_strategy_read :: "zlib \<Rightarrow> bytes option \<Rightarrow> u64 \<Rightarrow> wchain list option \<Rightarrow> lbuf \<Rightarrow> lbuf outcome" where
  "hammer2_strategy_read z cb lbase cluster bp =
     (if (ucast lbase :: u32) AND 0xffff \<noteq> 0 then Panic ''lbase''
      else (case cluster of
          None \<Rightarrow> obind (bzero (b_data bp) 0 (int (b_bcount bp))) (\<lambda>d. Ok (bp\<lparr>b_data := d, b_error := 0\<rparr>))
        | Some [] \<Rightarrow> Fault ''cluster''
        | Some (wc # wcs) \<Rightarrow>
            if wc_type wc \<noteq> HAMMER2_BREF_TYPE_INODE \<and> wc_type wc \<noteq> HAMMER2_BREF_TYPE_DATA
            then Panic ''READ PATH: hammer2_strategy_read: unknown bref type''
            else hammer2_chain_load_async z cb (wc # wcs) bp))"

section \<open>Lemmas\<close>

lemma enc_methods: "HAMMER2_DEC_COMP (HAMMER2_ENC_COMP a + HAMMER2_ENC_CHECK c) = a AND 15"
proof -
  have m: "(15 :: u8) = mask 4" by (simp add: mask_eq_exp_minus_1)
  have "HAMMER2_ENC_COMP a + HAMMER2_ENC_CHECK c = HAMMER2_ENC_COMP a OR HAMMER2_ENC_CHECK c"
    unfolding HAMMER2_ENC_COMP_def HAMMER2_ENC_CHECK_def m
    by (rule disjunctive_add_eq_or) (auto simp: bit_eq_iff bit_simps)
  also have "HAMMER2_DEC_COMP \<dots> = a AND 15"
    unfolding HAMMER2_DEC_COMP_def HAMMER2_ENC_COMP_def HAMMER2_ENC_CHECK_def m
    by (rule bit_eqI) (auto simp: bit_simps)
  finally show ?thesis .
qed

lemma finish_chain_simps [simp]:
  "wc_type (finish_chain hmac m d wc) = wc_type wc" "wc_bytes (finish_chain hmac m d wc) = wc_bytes wc"
  "wc_methods (finish_chain hmac m d wc) = m" "wc_data (finish_chain hmac m d wc) = d"
  by (simp_all add: finish_chain_def set_methods_def hammer2_chain_setcheck_def Let_def)

lemma store0: "length bs \<le> length buf \<Longrightarrow> store 0 bs buf = bs @ drop (length bs) buf"
  by (simp add: store_def)

lemma bcopy_Ok: "bcopy src dst n = Ok d \<longleftrightarrow> n \<le> length src \<and> n \<le> length dst \<and> d = take n src @ drop n dst"
  by (auto simp: bcopy_def store_def)

lemma bzero_tail: "n \<le> length buf \<Longrightarrow> bzero buf (int n) (int (length buf) - int n) = Ok (take n buf @ replicate (length buf - n) 0)"
  by (simp add: bzero_def store_def nat_diff_distrib' of_nat_diff[symmetric] del: of_nat_diff)

text \<open>
  The block read back from an element, into any buffer that is large enough: the rest of the
  buffer is cleared.
\<close>

definition reads_back :: "zlib \<Rightarrow> bytes option \<Rightarrow> wchain \<Rightarrow> bytes \<Rightarrow> bool" where
  "reads_back z cb wc data \<longleftrightarrow>
     (\<forall>bp. length data \<le> length (b_data bp) \<and> b_bcount bp = length (b_data bp) \<and> length (b_data bp) \<le> 65536 \<longrightarrow>
        (\<exists>e. read_element z cb wc bp =
           Ok (bp\<lparr>b_data := data @ replicate (length (b_data bp) - length data) 0, b_error := e\<rparr>)))"

lemma reads_back_plain:
  assumes "wc_type wc = HAMMER2_BREF_TYPE_DATA" "HAMMER2_DEC_COMP (wc_methods wc) = HAMMER2_COMP_NONE"
    and "wc_bytes wc = length data" "wc_data wc = data"
  shows "reads_back z cb wc data"
  unfolding reads_back_def
proof (intro allI impI)
  fix bp :: lbuf assume a: "length data \<le> length (b_data bp) \<and> b_bcount bp = length (b_data bp) \<and> length (b_data bp) \<le> 65536"
  let ?n = "length (b_data bp)"
  have "bcopy data (b_data bp) (length data) = Ok (data @ drop (length data) (b_data bp))" using a by (simp add: bcopy_Ok)
  moreover have "bzero (data @ drop (length data) (b_data bp)) (int (length data)) (int ?n - int (length data)) =
     Ok (data @ replicate (?n - length data) 0)"
    using bzero_tail[of "length data" "data @ drop (length data) (b_data bp)"] a by simp
  ultimately show "\<exists>e. read_element z cb wc bp = Ok (bp\<lparr>b_data := data @ replicate (?n - length data) 0, b_error := e\<rparr>)"
    using assms a by (auto simp: read_element_def Let_def)
qed

lemma reads_back_inode:
  assumes "wc_type wc = HAMMER2_BREF_TYPE_INODE" "wc_data wc = take 512 data" "512 \<le> length data"
    and "drop 512 data = replicate (length data - 512) 0"
  shows "reads_back z cb wc data"
  unfolding reads_back_def
proof (intro allI impI)
  fix bp :: lbuf assume a: "length data \<le> length (b_data bp) \<and> b_bcount bp = length (b_data bp) \<and> length (b_data bp) \<le> 65536"
  let ?n = "length (b_data bp)"
  have c: "bcopy (take 512 data) (b_data bp) 512 = Ok (take 512 data @ drop 512 (b_data bp))" using a assms(3) by (simp add: bcopy_Ok)
  have z: "bzero (take 512 data @ drop 512 (b_data bp)) (int 512) (int ?n - int 512) = Ok (take 512 data @ replicate (?n - 512) 0)"
    using bzero_tail[of 512 "take 512 data @ drop 512 (b_data bp)"] a assms(3) by simp
  have "data @ replicate (?n - length data) 0 = take 512 data @ (drop 512 data @ replicate (?n - length data) 0)" by simp
  also have "drop 512 data @ replicate (?n - length data) 0 = replicate (?n - 512) 0"
    using a assms(3) unfolding assms(4) by (simp add: replicate_add[symmetric])
  finally show "\<exists>e. read_element z cb wc bp = Ok (bp\<lparr>b_data := data @ replicate (?n - length data) 0, b_error := e\<rparr>)"
    using c z assms(1,2) a by (auto simp: read_element_def)
qed

lemma reads_back_lz4:
  assumes t: "wc_type wc = HAMMER2_BREF_TYPE_DATA" "HAMMER2_DEC_COMP (wc_methods wc) = HAMMER2_COMP_LZ4"
    and enc: "encodes blk data" "length blk < 2 ^ 31" "data \<noteq> []"
    and d: "wc_data wc = le_split 4 (of_nat (length blk) :: u32) @ blk @ rest" "length blk + 4 \<le> wc_bytes wc"
    and cb: "cb = Some cbuf" "65536 \<le> length cbuf"
  shows "reads_back z cb wc data"
  unfolding reads_back_def
proof (intro allI impI)
  fix bp :: lbuf assume a: "length data \<le> length (b_data bp) \<and> b_bcount bp = length (b_data bp) \<and> length (b_data bp) \<le> 65536"
  let ?n = "length (b_data bp)"
  have j: "le_join (take 4 (wc_data wc)) = (of_nat (length blk) :: u32)" using d(1) by (simp add: le_join_split)
  have s: "sint (of_nat (length blk) :: u32) = int (length blk)"
  proof -
    have "uint (of_nat (length blk) :: u32) = int (length blk)" using enc(2) by (simp add: unsigned_of_nat take_bit_nat_eq_self)
    then show ?thesis using enc(2) by (simp add: sint_uint signed_take_bit_int_eq_self)
  qed
  have f: "fetch 4 (nat (int (length blk))) (wc_data wc) = blk" using d(1) by (simp add: fetch_def)
  obtain buf' where b: "LZ4_decompress_safe blk (take ?n cbuf) = Ok (int (length data), buf')" "length buf' = ?n" "take (length data) buf' = data"
  proof -
    have l: "length (take ?n cbuf) = ?n" using a cb(2) by simp
    have "0 < length (take ?n cbuf)" unfolding l using a enc(3) by (cases data) auto
    then have "take ?n cbuf \<noteq> []" by (rule length_greater_0_conv[THEN iffD1])
    then show thesis using decompress_encodes[OF enc(1), of "take ?n cbuf"] that a unfolding l by blast
  qed
  have c: "bcopy buf' (b_data bp) ?n = Ok buf'" using b(2) by (simp add: bcopy_Ok)
  have z: "bzero buf' (int (length data)) (int ?n - int (length data)) = Ok (data @ replicate (?n - length data) 0)"
    using bzero_tail[of "length data" buf'] a b by simp
  have e: "buf' = data" if "length data = ?n" using that b by simp
  have "read_element z cb wc bp = Ok (bp\<lparr>b_data := data @ replicate (?n - length data) 0\<rparr>)"
    using t a j s f b(1) c z e cb(1) d(2) unfolding read_element_def hammer2_decompress_LZ4_callback_def Let_def by auto
  then show "\<exists>e. read_element z cb wc bp = Ok (bp\<lparr>b_data := data @ replicate (?n - length data) 0, b_error := e\<rparr>)"
    by (intro exI[of _ "b_error bp"]) simp
qed

lemma reads_back_zlib:
  assumes t: "wc_type wc = HAMMER2_BREF_TYPE_DATA" "HAMMER2_DEC_COMP (wc_methods wc) = HAMMER2_COMP_ZLIB"
    and inf: "\<And>m. length data \<le> m \<Longrightarrow> z_inflate z (take (wc_bytes wc) (wc_data wc)) m = (True, data)"
    and cb: "cb = Some cbuf" "65536 \<le> length cbuf"
  shows "reads_back z cb wc data"
  unfolding reads_back_def
proof (intro allI impI)
  fix bp :: lbuf assume a: "length data \<le> length (b_data bp) \<and> b_bcount bp = length (b_data bp) \<and> length (b_data bp) \<le> 65536"
  let ?n = "length (b_data bp)" and ?cb = "store 0 data cbuf"
  have l: "length ?cb = length cbuf" using a cb(2) by (simp add: length_store)
  have tk: "take (length data) ?cb = data" using a cb(2) by (simp add: store_def)
  have c: "bcopy ?cb (b_data bp) ?n = Ok (take ?n ?cb)" using a cb(2) l by (simp add: bcopy_Ok)
  have z: "bzero (take ?n ?cb) (int (length data)) (int ?n - int (length data)) = Ok (data @ replicate (?n - length data) 0)"
  proof -
    have "length (take ?n ?cb) = ?n" using a l cb(2) by simp
    then show ?thesis using bzero_tail[of "length data" "take ?n ?cb"] a tk by simp
  qed
  have e: "take ?n ?cb = data" if "length data = ?n" using that tk by simp
  have "read_element z cb wc bp = Ok (bp\<lparr>b_data := data @ replicate (?n - length data) 0\<rparr>)"
    using t a inf[of ?n] c z e cb(1) unfolding read_element_def hammer2_decompress_ZLIB_callback_def Let_def by auto
  then show "\<exists>e. read_element z cb wc bp = Ok (bp\<lparr>b_data := data @ replicate (?n - length data) 0, b_error := e\<rparr>)"
    by (intro exI[of _ "b_error bp"]) simp
qed

lemma zeros_from_eq:
  "bytes \<le> length buf \<Longrightarrow> i \<le> bytes \<Longrightarrow> 8 dvd bytes - i \<Longrightarrow>
   zeros_from buf bytes i = Ok (fetch i (bytes - i) buf = replicate (bytes - i) 0)"
proof (induction buf bytes i rule: zeros_from.induct)
  case (1 buf bytes i)
  show ?case
  proof (cases "i < bytes")
    case True
    then obtain k where k: "bytes - i = 8 + k" "8 dvd k"
      using "1.prems"(3) by (metis dvd_imp_le le_Suc_ex zero_less_diff dvd_add_right_iff dvd_refl)
    then have b: "i + 8 \<le> bytes" "bytes - (i + 8) = k" by auto
    have sp: "fetch i (8 + k) buf = fetch i 8 buf @ fetch (i + 8) k buf"
      by (simp only: fetch_def take_add drop_drop add.commute[of 8 i])
    have "length (fetch i 8 buf) = 8" using b "1.prems"(1) by (simp add: length_fetch)
    then have "(fetch i (8 + k) buf = replicate (8 + k) 0) \<longleftrightarrow> fetch i 8 buf = replicate 8 0 \<and> fetch (i + 8) k buf = replicate k 0"
      unfolding sp replicate_add by simp
    then show ?thesis using "1.IH"[OF True] b "1.prems"(1) k True by (subst zeros_from.simps) auto
  qed (use "1.prems" in \<open>subst zeros_from.simps, simp add: fetch_def\<close>)
qed

lemma test_block_zeros_eq:
  "8 dvd length data \<Longrightarrow> test_block_zeros data (length data) = Ok (data = replicate (length data) 0)"
  using zeros_from_eq[of "length data" data 0] by (simp add: test_block_zeros_def fetch_def)

text \<open>
  What zlib promises: a finished stream fits the space it was given, and inflating it, with
  whatever follows it, gives the data back.
\<close>

definition zlib_inverse :: "zlib \<Rightarrow> bool" where
  "zlib_inverse z \<longleftrightarrow> (\<forall>level data n c. z_deflate z level data n = Some c \<longrightarrow>
     c \<noteq> [] \<and> length c \<le> n \<and> (\<forall>rest m. length data \<le> m \<longrightarrow> z_inflate z (c @ rest) m = (True, data)))"

text \<open>
  What the chain layer promises of the elements it returns for a block size: each is modified
  and, with its device buffer available, either a DATA chain of that size, or the inode whose
  embedded area is to hold the block, which then is the first of the file and short.
\<close>

definition placed :: "lbuf \<Rightarrow> nat \<Rightarrow> wchain \<Rightarrow> bool" where
  "placed bp n wc \<longleftrightarrow> ch_flags (wc_chain wc) AND 1 \<noteq> 0 \<and> wc_ioerr wc = 0 \<and>
     (wc_type wc = HAMMER2_BREF_TYPE_DATA \<and> wc_bytes wc = n \<and> length (wc_data wc) = n \<or>
      wc_type wc = HAMMER2_BREF_TYPE_INODE \<and> ch_flags (wc_chain wc) AND 0x20 = 0 \<and> wc_opflags wc AND 1 \<noteq> 0 \<and> b_loffset bp = 0 \<and> length (wc_data wc) = 512 \<and>
        drop 512 (b_data bp) = replicate (length (b_data bp) - 512) 0)"

definition written :: "hmac_fn \<Rightarrow> zlib \<Rightarrow> bytes option \<Rightarrow> bytes \<Rightarrow> wchain \<Rightarrow> bool" where
  "written hmac z cb data wc \<longleftrightarrow> reads_back z cb wc data \<and> ch_flags (wc_chain wc) AND 0x20 = 0 \<and> wc_type wc \<in> {HAMMER2_BREF_TYPE_INODE, HAMMER2_BREF_TYPE_DATA} \<and>
     (wc_type wc = HAMMER2_BREF_TYPE_DATA \<longrightarrow> hammer2_chain_testcheck hmac (wc_chain wc) (wc_data wc))"

lemma finish_chain_initial [simp]: "ch_flags (wc_chain (finish_chain hmac m d wc)) AND 0x20 = 0"
proof -
  have "(x AND NOT 0x20) AND 0x20 = 0" for x :: u32 by (rule bit_eqI) (simp add: bit_simps)
  then show ?thesis by (simp add: finish_chain_def Let_def)
qed

lemma finish_chain_tests:
  assumes "\<forall>k d. length (hmac k d) = 32"
  shows "hammer2_chain_testcheck hmac (wc_chain (finish_chain hmac m d wc)) d"
  using setcheck_tests[of hmac "wc_chain (set_methods m wc)" d] assms
  by (simp add: finish_chain_def Let_def hammer2_chain_testcheck_def)

lemma put_inode_written:
  assumes "placed bp n wc" "wc_type wc = HAMMER2_BREF_TYPE_INODE" "512 \<le> length (b_data bp)"
  shows "\<exists>wc'. put_inode bp wc = Ok wc' \<and> written hmac z cb (b_data bp) wc'"
proof -
  let ?w = "wc\<lparr>wc_data := take 512 (b_data bp)\<rparr>"
  have p: "wc_opflags wc AND 1 \<noteq> 0" "b_loffset bp = 0" "length (wc_data wc) = 512"
      "drop 512 (b_data bp) = replicate (length (b_data bp) - 512) 0" "ch_flags (wc_chain wc) AND 0x20 = 0"
    using assms(1,2) by (auto simp: placed_def)
  have "put_inode bp wc = Ok ?w" using p assms(3) by (simp add: put_inode_def bcopy_def store_def)
  moreover have "reads_back z cb ?w (b_data bp)" by (rule reads_back_inode) (use assms p in auto)
  ultimately show ?thesis using assms(2) p(5) by (simp add: written_def)
qed

lemma write_chain_written:
  assumes pl: "placed bp (length (b_data bp)) wc" and n: "512 \<le> length (b_data bp)" and hmac: "\<forall>k d. length (hmac k d) = 32"
  shows "\<exists>wc'. write_chain hmac bp check_algo wc = Ok wc' \<and> written hmac z cb (b_data bp) wc'"
proof (cases "wc_type wc = HAMMER2_BREF_TYPE_INODE")
  case True
  then show ?thesis using put_inode_written[OF pl True n] pl by (auto simp: write_chain_def placed_def)
next
  case False
  let ?m = "HAMMER2_ENC_COMP HAMMER2_COMP_NONE + HAMMER2_ENC_CHECK check_algo"
  let ?w = "finish_chain hmac ?m (b_data bp) wc"
  have p: "ch_flags (wc_chain wc) AND 1 \<noteq> 0" "wc_ioerr wc = 0" "wc_type wc = HAMMER2_BREF_TYPE_DATA"
    "wc_bytes wc = length (b_data bp)" "length (wc_data wc) = length (b_data bp)"
    using pl False by (auto simp: placed_def)
  have "write_chain hmac bp check_algo wc = Ok ?w" using p by (simp add: write_chain_def bcopy_def store_def)
  moreover have "reads_back z cb ?w (b_data bp)" by (rule reads_back_plain) (use p in \<open>simp_all add: enc_methods\<close>)
  ultimately show ?thesis using p finish_chain_tests[OF hmac] by (simp add: written_def)
qed

lemma hammer2_write_bp_written:
  assumes "\<forall>wc\<in>set cl. placed bp (length (b_data bp)) wc" "512 \<le> length (b_data bp)" "\<forall>k d. length (hmac k d) = 32"
  shows "\<exists>cl'. hammer2_write_bp hmac cl bp check_algo = Ok (cl', 0) \<and> length cl' = length cl \<and>
     (\<forall>wc\<in>set cl'. written hmac z cb (b_data bp) wc)"
  using assms(1)
proof (induction cl)
  case (Cons wc cl)
  obtain wc' where w: "write_chain hmac bp check_algo wc = Ok wc'" "written hmac z cb (b_data bp) wc'"
    using write_chain_written[of bp wc hmac check_algo z cb] Cons.prems assms by auto
  then show ?case using Cons by auto
qed simp

text \<open>The three outcomes of a compression attempt.\<close>

lemma comp_try_cases:
  assumes "comp_try z ctx comp_buffer h algo data (length data) = Ok (cs, buf)" "zlib_inverse z"
  obtains (none) "cs = 0"
    | (lz4) n out where "algo AND 15 = HAMMER2_COMP_LZ4" "cs = n + 4" "0 < n" "buf = le_split 4 (of_nat n :: u32) @ out" "encodes (take n out) data" "n \<le> length out"
    | (zlib) c rest where "algo AND 15 = HAMMER2_COMP_ZLIB" "cs = length c" "0 < cs" "buf = c @ rest"
        "\<And>rest m. length data \<le> m \<Longrightarrow> z_inflate z (c @ rest) m = (True, data)"
proof -
  consider "cs = 0" | "0 < cs" "algo AND 15 = HAMMER2_COMP_LZ4" "compress_lz4 ctx comp_buffer data (length data) = Ok (cs, buf)"
    | "0 < cs" "algo AND 15 = HAMMER2_COMP_ZLIB" "compress_zlib z comp_buffer algo data (length data) = Ok (cs, buf)"
    using assms(1) by (auto simp: comp_try_def Let_def HAMMER2_DEC_ALGO_def split: if_splits)
  then show thesis
  proof cases
    case 2
    then obtain cb n out where l: "LZ4_compress_limitedOutput ctx data (drop 4 cb) (length data div 2 - 4) = Ok (n, out)"
        "cs = n + 4" "0 < n" "buf = le_split 4 (of_nat n :: u32) @ out"
      by (auto simp: compress_lz4_def obind_eq_Ok split: option.splits if_splits)
    show thesis by (rule lz4[OF 2(2) l(2-4) compress_encodes[OF l(1,3)] compress_len[OF l(1)]])
  next
    case 3
    then obtain cb c where c: "z_deflate z (comp_level algo) data (length data div 2) = Some c" "cs = length c"
        "bcopy c cb (length c) = Ok buf"
      by (auto simp: compress_zlib_def obind_eq_Ok split: option.splits)
    then show thesis using zlib[OF 3(2) c(2) 3(1), of "drop (length c) cb"] assms(2) by (auto simp: bcopy_Ok zlib_inverse_def)
  qed (rule none)
qed

lemma comp_block_size_Ok:
  "comp_block_size cs n = Ok b \<Longrightarrow> cs = 0 \<and> b = n \<or> 0 < cs \<and> cs \<le> b \<and> b \<le> 32768"
  by (auto simp: comp_block_size_def split: if_splits)

text \<open>Compressed data in an element, padded with zeros to the size of the block.\<close>

lemma put_compressed:
  assumes "cs \<le> length buf" "cs \<le> b" "length (wc_data wc) = b"
  shows "obind (bcopy buf (wc_data wc) cs) (\<lambda>bdata.
           obind (if cs \<noteq> b then bzero bdata (int cs) (int b - int cs) else Ok bdata) f) =
         f (take cs buf @ replicate (b - cs) 0)"
  using bzero_tail[of cs "take cs buf @ drop cs (wc_data wc)"] assms by (auto simp: bcopy_def store_def)

lemma compress_chain_written:
  assumes att: "comp_try z ctx comp_buffer h algo (b_data bp) (length (b_data bp)) = Ok (cs, buf)" "zlib_inverse z"
    and b: "comp_block_size cs (length (b_data bp)) = Ok b"
    and pl: "placed bp b wc" and n: "512 \<le> length (b_data bp)"
    and hmac: "\<forall>k d. length (hmac k d) = 32" and cb: "cb = Some cbuf" "65536 \<le> length cbuf"
  shows "\<exists>wc'. compress_chain hmac bp (length (b_data bp)) algo check_algo cs b buf wc 0 = Ok (wc', 0) \<and>
     written hmac z cb (b_data bp) wc'"
proof (cases "wc_type wc = HAMMER2_BREF_TYPE_INODE")
  case True
  then show ?thesis using put_inode_written[OF pl True n, of hmac z cb] pl by (auto simp: compress_chain_def placed_def obind_eq_Ok)
next
  case False
  let ?data = "b_data bp"
  let ?m = "HAMMER2_ENC_COMP algo + HAMMER2_ENC_CHECK check_algo"
  have p: "ch_flags (wc_chain wc) AND 1 \<noteq> 0" "wc_ioerr wc = 0" "wc_type wc = HAMMER2_BREF_TYPE_DATA"
    "wc_bytes wc = b" "length (wc_data wc) = b"
    using pl False by (auto simp: placed_def)
  have data: "?data \<noteq> []" using n by auto
  note bs = comp_block_size_Ok[OF b]
  have packed: "compress_chain hmac bp (length ?data) algo check_algo cs b buf wc 0 =
      Ok (finish_chain hmac ?m (take cs buf @ replicate (b - cs) 0) wc, 0)" if "cs \<noteq> 0" "cs \<le> length buf"
    using p that bs by (simp add: compress_chain_def put_compressed)
  from att show ?thesis
  proof (cases rule: comp_try_cases)
    case none
    let ?w = "finish_chain hmac (HAMMER2_ENC_COMP HAMMER2_COMP_NONE + HAMMER2_ENC_CHECK check_algo) ?data wc"
    have "compress_chain hmac bp (length ?data) algo check_algo cs b buf wc 0 = Ok (?w, 0)"
      using none p bs by (simp add: compress_chain_def bcopy_def store_def)
    moreover have "reads_back z cb ?w ?data" by (rule reads_back_plain) (use p none bs in \<open>simp_all add: enc_methods\<close>)
    ultimately show ?thesis using p finish_chain_tests[OF hmac] by (simp add: written_def)
  next
    case (lz4 k out)
    let ?d = "le_split 4 (of_nat k :: u32) @ take k out @ replicate (b - cs) 0"
    have d: "take cs buf @ replicate (b - cs) 0 = ?d" using lz4 by simp
    have k: "length (take k out) = k" using lz4 by simp
    have "reads_back z cb (finish_chain hmac ?m ?d wc) ?data"
      by (rule reads_back_lz4[OF _ _ lz4(5) _ data _ _ cb]) (use p lz4 bs k in \<open>simp_all add: enc_methods\<close>)
    moreover have "cs \<noteq> 0" "cs \<le> length buf" using lz4 by auto
    ultimately show ?thesis using packed p finish_chain_tests[OF hmac] unfolding d by (simp add: written_def)
  next
    case (zlib c rest)
    let ?d = "c @ replicate (b - cs) 0"
    have d: "take cs buf @ replicate (b - cs) 0 = ?d" using zlib by simp
    have "reads_back z cb (finish_chain hmac ?m ?d wc) ?data"
      by (rule reads_back_zlib[OF _ _ _ cb]) (use p zlib bs in \<open>simp_all add: enc_methods\<close>)
    moreover have "cs \<noteq> 0" "cs \<le> length buf" using zlib by auto
    ultimately show ?thesis using packed p finish_chain_tests[OF hmac] unfolding d by (simp add: written_def)
  qed
qed

lemma compress_chains_written:
  assumes "\<And>wc. wc \<in> set cl \<Longrightarrow> \<exists>wc'. f wc 0 = Ok (wc', 0) \<and> P wc'"
  shows "\<exists>cl'. compress_chains f cl 0 = Ok (cl', 0) \<and> length cl' = length cl \<and> (\<forall>wc\<in>set cl'. P wc)"
  using assms
proof (induction cl)
  case (Cons wc cl)
  obtain wc' where "f wc 0 = Ok (wc', 0)" "P wc'" using Cons.prems[of wc] by auto
  then show ?case using Cons by auto
qed simp

text \<open>
  The cluster found by a later read is the one that was written, but for what is in memory and
  which of its device reads fail; not all of them do.
\<close>

definition later :: "wchain list option \<Rightarrow> wchain list option \<Rightarrow> bool" where
  "later res rd \<longleftrightarrow>
     (case (res, rd) of
        (None, None) \<Rightarrow> True
      | (Some cl, Some cl') \<Rightarrow>
          list_all2 (\<lambda>a b. b = a\<lparr>wc_ioerr := wc_ioerr b, wc_cached := wc_cached b\<rparr>) cl cl' \<and> (\<exists>wc\<in>set cl'. wc_ioerr wc = 0)
      | _ \<Rightarrow> False)"

lemma read_element_update [simp]:
  "read_element z cb (wc\<lparr>wc_ioerr := e, wc_cached := c\<rparr>) bp = read_element z cb wc bp"
  by (simp add: read_element_def Let_def cong: if_cong)

lemma reads_back_update [simp]:
  "reads_back z cb (wc\<lparr>wc_ioerr := e, wc_cached := c\<rparr>) data = reads_back z cb wc data"
  by (simp add: reads_back_def)

lemma read_callback_element:
  assumes "\<exists>wc\<in>set cl. wc_ioerr wc = 0"
  shows "\<exists>wc\<in>set cl. hammer2_strategy_read_callback z cb cl bp = read_element z cb wc bp"
  using assms
proof (induction cl)
  case (Cons wc cl)
  then show ?case by (cases "wc_ioerr wc = 0") auto
qed simp

lemma load_async_element:
  assumes "\<exists>wc\<in>set cl. wc_ioerr wc = 0" "\<forall>wc\<in>set cl. ch_flags (wc_chain wc) AND 0x20 = 0"
  shows "\<exists>wc\<in>set cl. hammer2_chain_load_async z cb cl bp = read_element z cb wc bp"
proof (cases "find wc_cached cl")
  case None
  then show ?thesis using read_callback_element[OF assms(1)] assms(2) by (cases cl) (simp_all add: hammer2_chain_load_async_def)
next
  case (Some wc)
  then have "wc \<in> set cl" by (auto simp: find_Some_iff)
  then show ?thesis using Some by (auto simp: hammer2_chain_load_async_def)
qed

lemma strategy_read_written:
  assumes res: "case res of None \<Rightarrow> data = replicate (length data) 0
      | Some cl \<Rightarrow> \<forall>wc\<in>set cl. reads_back z cb wc data \<and> ch_flags (wc_chain wc) AND 0x20 = 0 \<and> wc_type wc \<in> {HAMMER2_BREF_TYPE_INODE, HAMMER2_BREF_TYPE_DATA}"
    and rd: "later res rd"
    and bp: "length data \<le> length (b_data bp)" "b_bcount bp = length (b_data bp)" "length (b_data bp) \<le> 65536"
    and lbase: "(ucast lbase :: u32) AND 0xffff = 0"
  shows "\<exists>e. hammer2_strategy_read z cb lbase rd bp =
           Ok (bp\<lparr>b_data := data @ replicate (length (b_data bp) - length data) 0, b_error := e\<rparr>)"
proof (cases res)
  case None
  then have "rd = None" using rd by (auto simp: later_def split: option.splits)
  moreover have "bzero (b_data bp) 0 (int (b_bcount bp)) = Ok (replicate (length (b_data bp)) 0)"
    using bp(2) by (simp add: bzero_def store_def)
  moreover have "data @ replicate (length (b_data bp) - length data) 0 = replicate (length (b_data bp)) 0"
  proof -
    have "data = replicate (length data) 0" using res None by simp
    then have "data @ replicate (length (b_data bp) - length data) 0 = replicate (length data) 0 @ replicate (length (b_data bp) - length data) 0"
      by simp
    then show ?thesis using bp(1) by (simp add: replicate_add[symmetric])
  qed
  ultimately show ?thesis using lbase by (auto simp: hammer2_strategy_read_def)
next
  case (Some cl)
  then obtain cl' where cl': "rd = Some cl'" "list_all2 (\<lambda>a b. b = a\<lparr>wc_ioerr := wc_ioerr b, wc_cached := wc_cached b\<rparr>) cl cl'"
    "\<exists>wc\<in>set cl'. wc_ioerr wc = 0" using rd by (auto simp: later_def split: option.splits)
  have el: "reads_back z cb b data \<and> ch_flags (wc_chain b) AND 0x20 = 0 \<and> wc_type b \<in> {HAMMER2_BREF_TYPE_INODE, HAMMER2_BREF_TYPE_DATA}" if m: "b \<in> set cl'" for b
  proof -
    obtain a where a: "a \<in> set cl" "b = a\<lparr>wc_ioerr := wc_ioerr b, wc_cached := wc_cached b\<rparr>"
      using m cl'(2) unfolding list_all2_conv_all_nth in_set_conv_nth by metis
    have r: "reads_back z cb a data" "ch_flags (wc_chain a) AND 0x20 = 0" "wc_type a \<in> {HAMMER2_BREF_TYPE_INODE, HAMMER2_BREF_TYPE_DATA}" using res Some a(1) by auto
    have "reads_back z cb (a\<lparr>wc_ioerr := wc_ioerr b, wc_cached := wc_cached b\<rparr>) data" using r(1) by simp
    moreover have "wc_type (a\<lparr>wc_ioerr := wc_ioerr b, wc_cached := wc_cached b\<rparr>) = wc_type a" by simp
    moreover have "wc_chain (a\<lparr>wc_ioerr := wc_ioerr b, wc_cached := wc_cached b\<rparr>) = wc_chain a" by simp
    ultimately show ?thesis using a(2) r(2,3) by metis
  qed
  obtain wc where wc: "wc \<in> set cl'" "hammer2_chain_load_async z cb cl' bp = read_element z cb wc bp"
    using load_async_element[OF cl'(3)] el by blast
  obtain w ws where w: "cl' = w # ws" using wc(1) by (cases cl') auto
  have "hammer2_strategy_read z cb lbase rd bp = read_element z cb wc bp"
    using wc(2) lbase el[of w] cl'(1) w by (auto simp: hammer2_strategy_read_def)
  then show ?thesis using el[OF wc(1)] bp by (auto simp: reads_back_def)
qed

lemma zero_write_reads:
  assumes "zero_write found = Ok res" "data = replicate (length data) 0" "512 \<le> length data"
    and "\<forall>cl. found = Some (cl, True) \<longrightarrow> (\<forall>wc\<in>set cl. wc_type wc = HAMMER2_BREF_TYPE_INODE \<and> ch_flags (wc_chain wc) AND 0x20 = 0)"
  shows "case res of None \<Rightarrow> data = replicate (length data) 0
    | Some cl \<Rightarrow> \<forall>wc\<in>set cl. reads_back z cb wc data \<and> ch_flags (wc_chain wc) AND 0x20 = 0 \<and> wc_type wc \<in> {HAMMER2_BREF_TYPE_INODE, HAMMER2_BREF_TYPE_DATA}"
proof (cases res)
  case (Some cl')
  then obtain cl where cl: "found = Some (cl, True)" "cl' = map (\<lambda>wc. wc\<lparr>wc_data := replicate 512 0\<rparr>) cl"
    using assms(1) by (auto simp: zero_write_def split: option.splits if_splits)
  have "reads_back z cb (wc\<lparr>wc_data := replicate 512 0\<rparr>) data" if "wc \<in> set cl" for wc
  proof (rule reads_back_inode)
    show "wc_data (wc\<lparr>wc_data := replicate 512 0\<rparr>) = take 512 data" 
    proof -
      have "take 512 (replicate (length data) (0 :: 8 word)) = replicate 512 0" using assms(3) by (simp add: min_def)
      then show ?thesis using assms(2) by simp
    qed
    show "drop 512 data = replicate (length data - 512) 0" using assms(2) by (metis drop_replicate)
  qed (use assms cl that in auto)
  then show ?thesis using Some cl assms(4) by auto
qed (use assms in simp)

lemma write_plain_written:
  assumes "snd (assign (length (b_data bp))) = Some cl" "\<forall>wc\<in>set cl. placed bp (length (b_data bp)) wc"
    and "512 \<le> length (b_data bp)" "\<forall>k d. length (hmac k d) = 32"
  shows "\<exists>cl'. write_plain hmac assign bp (length (b_data bp)) check_algo h = Ok (Some cl', 0, h) \<and>
     (\<forall>wc\<in>set cl'. written hmac z cb (b_data bp) wc)"
  using hammer2_write_bp_written[OF assms(2-4), where check_algo = check_algo and z = z and cb = cb] assms(1) by (auto simp: write_plain_def)

lemma write_zero_written:
  assumes "obind (zero_write found) (\<lambda>r. Ok (r, 0, h)) = Ok (res, e, h')" "data = replicate (length data) 0" "512 \<le> length data"
    and "\<forall>cl. found = Some (cl, True) \<longrightarrow> (\<forall>wc\<in>set cl. wc_type wc = HAMMER2_BREF_TYPE_INODE \<and> ch_flags (wc_chain wc) AND 0x20 = 0)"
  shows "e = 0 \<and> (case res of None \<Rightarrow> data = replicate (length data) 0 | Some cl \<Rightarrow> \<forall>wc\<in>set cl. written hmac z cb data wc)"
proof -
  have r: "zero_write found = Ok res" "e = 0" using assms(1) by (auto simp: obind_eq_Ok)
  have "\<forall>wc\<in>set cl. wc_type wc = HAMMER2_BREF_TYPE_INODE" if "res = Some cl" for cl
    using that r(1) assms(4) by (fastforce simp: zero_write_def split: option.splits if_splits)
  then show ?thesis using zero_write_reads[OF r(1) assms(2-4), of z cb] r(2) assms(2)
    by (auto simp: written_def split: option.splits)
qed

lemma write_core_written:
  assumes wr: "hammer2_write_file_core hmac z ctx comp_buffer assign found bp (length (b_data bp)) comp_algo check_algo h = Ok (res, e, h')"
    and n: "512 \<le> length (b_data bp)" "8 dvd length (b_data bp)"
    and zlib: "zlib_inverse z" and hmac: "\<forall>k d. length (hmac k d) = 32" and cb: "cb = Some cbuf" "65536 \<le> length cbuf"
    and assign: "\<forall>n. \<exists>cl. assign n = (0, Some cl) \<and> (\<forall>wc\<in>set cl. placed bp n wc)"
    and found: "\<forall>cl. found = Some (cl, True) \<longrightarrow> (\<forall>wc\<in>set cl. wc_type wc = HAMMER2_BREF_TYPE_INODE \<and> ch_flags (wc_chain wc) AND 0x20 = 0)"
  shows "e = 0 \<and> (case res of None \<Rightarrow> b_data bp = replicate (length (b_data bp)) 0
     | Some cl \<Rightarrow> \<forall>wc\<in>set cl. written hmac z cb (b_data bp) wc)"
proof -
  let ?n = "length (b_data bp)" and ?z = "b_data bp = replicate (length (b_data bp)) 0"
  note tz = test_block_zeros_eq[OF n(2)]
  obtain cl0 where "assign ?n = (0, Some cl0)" "\<forall>wc\<in>set cl0. placed bp ?n wc" using assign by blast
  then obtain pcl where plain: "write_plain hmac assign bp ?n check_algo h = Ok (Some pcl, 0, h)"
    "\<forall>wc\<in>set pcl. written hmac z cb (b_data bp) wc"
    using write_plain_written[of assign bp cl0 hmac check_algo h z cb] n(1) hmac by auto
  consider "write_plain hmac assign bp ?n check_algo h = Ok (res, e, h')"
    | "?z" "obind (zero_write found) (\<lambda>r. Ok (r, 0, h)) = Ok (res, e, h')"
    | "\<not> ?z" "hammer2_compress_and_write hmac z ctx comp_buffer assign found bp ?n comp_algo check_algo h = Ok (res, e, h')"
    using wr tz by (auto simp: hammer2_write_file_core_def hammer2_zero_check_and_write_def hammer2_compress_and_write_def split: if_splits)
  then show ?thesis
  proof cases
    case 1
    then show ?thesis using plain by (auto split: option.splits)
  next
    case 2
    show ?thesis by (rule write_zero_written[OF 2(2) 2(1) n(1) found])
  next
    case 3
    obtain cs buf b where c: "comp_try z ctx comp_buffer h comp_algo (b_data bp) ?n = Ok (cs, buf)" "comp_block_size cs ?n = Ok b"
      using 3 tz by (auto simp: hammer2_compress_and_write_def obind_eq_Ok split: if_splits)
    obtain cl where cl: "assign b = (0, Some cl)" "\<forall>wc\<in>set cl. placed bp b wc" using assign by blast
    obtain cl' where "compress_chains (compress_chain hmac bp ?n comp_algo check_algo cs b buf) cl 0 = Ok (cl', 0)"
        "\<forall>wc\<in>set cl'. written hmac z cb (b_data bp) wc"
      using compress_chains_written[of cl "compress_chain hmac bp ?n comp_algo check_algo cs b buf" "written hmac z cb (b_data bp)"]
        compress_chain_written[OF c(1) zlib c(2) _ n(1) hmac cb] cl(2) by blast
    then show ?thesis using 3 tz c cl(1)
      by (auto simp: hammer2_compress_and_write_def Let_def split: if_splits)
  qed
qed

lemma comp_try_total:
  assumes "comp_buffer = Some cb" "length data div 2 < length cb" "length data \<le> 65536" "1024 \<le> length data" "zlib_inverse z"
  shows "\<exists>cs buf b. comp_try z ctx comp_buffer h algo data (length data) = Ok (cs, buf) \<and> comp_block_size cs (length data) = Ok b"
proof -
  have bs: "\<exists>b. comp_block_size cs (length data) = Ok b" if "cs \<le> 32768" for cs
    using that by (simp add: comp_block_size_def)
  obtain n out where l: "LZ4_compress_limitedOutput ctx data (drop 4 cb) (length data div 2 - 4) = Ok (n, out)" "n \<le> length data div 2 - 4"
  proof -
    have "4 \<le> length data div 2" using assms(4) by linarith
    then have "length data div 2 - 4 < length (drop 4 cb)" using assms(2) by simp
    from compress_bounded[OF assms(3) this, of ctx] show thesis using that by blast
  qed
  have "\<exists>cs buf. compress_lz4 ctx comp_buffer data (length data) = Ok (cs, buf) \<and> cs \<le> 32768"
    using l assms by (auto simp: compress_lz4_def)
  moreover have "\<exists>cs buf. compress_zlib z comp_buffer algo data (length data) = Ok (cs, buf) \<and> cs \<le> 32768"
  proof (cases "z_deflate z (comp_level algo) data (length data div 2)")
    case (Some c)
    then have "length c \<le> length data div 2" using assms(5) by (auto simp: zlib_inverse_def)
    then show ?thesis using Some assms by (auto simp: compress_zlib_def bcopy_def)
  qed (use assms in \<open>auto simp: compress_zlib_def\<close>)
  ultimately have "\<exists>cs buf. comp_try z ctx comp_buffer h algo data (length data) = Ok (cs, buf) \<and> cs \<le> 32768"
    by (auto simp: comp_try_def Let_def)
  then show ?thesis using bs by blast
qed

lemma write_core_total:
  assumes cbuf: "comp_buffer = Some cb" "length (b_data bp) div 2 < length cb"
    and n: "1024 \<le> length (b_data bp)" "length (b_data bp) \<le> 65536" "8 dvd length (b_data bp)"
    and zlib: "zlib_inverse z" and hmac: "\<forall>k d. length (hmac k d) = 32"
    and assign: "\<forall>n. \<exists>cl. assign n = (0, Some cl) \<and> (\<forall>wc\<in>set cl. placed bp n wc)"
    and found: "\<forall>cl. found = Some (cl, True) \<longrightarrow> (\<forall>wc\<in>set cl. ch_flags (wc_chain wc) AND 1 \<noteq> 0)"
  shows "\<exists>r. hammer2_write_file_core hmac z ctx comp_buffer assign found bp (length (b_data bp)) comp_algo check_algo h = Ok r"
proof -
  let ?n = "length (b_data bp)"
  have n5: "512 \<le> ?n" using n(1) by simp
  obtain cl0 where "assign ?n = (0, Some cl0)" "\<forall>wc\<in>set cl0. placed bp ?n wc" using assign by blast
  then have plain: "\<exists>r. write_plain hmac assign bp ?n check_algo h = Ok r"
    using write_plain_written[of assign bp cl0 hmac check_algo h z None] n5 hmac by auto
  have zero: "\<exists>r. zero_write found = Ok r" using found by (auto simp: zero_write_def list_all_iff split: option.splits)
  obtain cs buf b where c: "comp_try z ctx comp_buffer h comp_algo (b_data bp) ?n = Ok (cs, buf)" "comp_block_size cs ?n = Ok b"
    using comp_try_total[OF cbuf n(2,1) zlib] by blast
  obtain cl where cl: "assign b = (0, Some cl)" "\<forall>wc\<in>set cl. placed bp b wc" using assign by blast
  have "\<exists>r. compress_chains (compress_chain hmac bp ?n comp_algo check_algo cs b buf) cl 0 = Ok r"
    using compress_chains_written[of cl "compress_chain hmac bp ?n comp_algo check_algo cs b buf" "\<lambda>_. True"]
      compress_chain_written[OF c(1) zlib c(2) _ n5 hmac refl, where cbuf = "replicate 65536 0"] cl(2) by fastforce
  then show ?thesis using plain zero c cl(1) n(2)
    by (auto simp: hammer2_write_file_core_def hammer2_zero_check_and_write_def hammer2_compress_and_write_def
        test_block_zeros_eq[OF n(3)] Let_def)
qed

section \<open>Write and read back\<close>

text \<open>
  C6: File data survive the trip to the media.  Whatever compression (none, zero detection only,
  LZ4, zlib) and check method the inode asks for and whatever state the heuristic is in, a
  write of a block that returns reports no error, every DATA element it wrote passes its check
  code, and a later read of the offset gives exactly the bytes written, followed by zeros
  up to the end of the buffer; also when the block was all zeros and so became a hole, when it
  is embedded in the inode, when some elements of the cluster can only be read with an
  I/O error, and when the data of one are in memory.  The write returns when the staging
  buffer has at least one byte more than half of the block.
\<close>

theorem data_write_read:
  assumes "1024 \<le> length (b_data bp)" "length (b_data bp) \<le> 65536" "8 dvd length (b_data bp)"
    and "\<forall>k d. length (hmac k d) = 32" "zlib_inverse z"
    and "\<forall>n. \<exists>cl. assign n = (0, Some cl) \<and> (\<forall>wc\<in>set cl. placed bp n wc)"
    and "\<forall>cl. found = Some (cl, True) \<longrightarrow>
           (\<forall>wc\<in>set cl. wc_type wc = HAMMER2_BREF_TYPE_INODE \<and> ch_flags (wc_chain wc) AND 1 \<noteq> 0 \<and> ch_flags (wc_chain wc) AND 0x20 = 0)"
  shows "(\<forall>res e h' rbuf.
      hammer2_write_file_core hmac z ctx comp_buffer assign found bp (length (b_data bp)) comp_algo check_algo h = Ok (res, e, h') \<and>
      65536 \<le> length rbuf \<longrightarrow>
        e = 0 \<and>
        (\<forall>cl wc. res = Some cl \<and> wc \<in> set cl \<and> wc_type wc = HAMMER2_BREF_TYPE_DATA \<longrightarrow>
           hammer2_chain_testcheck hmac (wc_chain wc) (wc_data wc)) \<and>
        (\<forall>rd bp' lbase. later res rd \<and> length (b_data bp) \<le> length (b_data bp') \<and> b_bcount bp' = length (b_data bp') \<and>
           length (b_data bp') \<le> 65536 \<and> (ucast lbase :: u32) AND 0xffff = 0 \<longrightarrow>
           (\<exists>e. hammer2_strategy_read z (Some rbuf) lbase rd bp' =
              Ok (bp'\<lparr>b_data := b_data bp @ replicate (length (b_data bp') - length (b_data bp)) 0, b_error := e\<rparr>)))) \<and>
    (\<forall>cb. comp_buffer = Some cb \<and> length (b_data bp) div 2 < length cb \<longrightarrow>
      (\<exists>r. hammer2_write_file_core hmac z ctx comp_buffer assign found bp (length (b_data bp)) comp_algo check_algo h = Ok r))"
    (is "?A \<and> ?B")
proof
  let ?w = "hammer2_write_file_core hmac z ctx comp_buffer assign found bp (length (b_data bp)) comp_algo check_algo h"
  have n: "512 \<le> length (b_data bp)" using assms(1) by simp
  have inode: "\<forall>cl. found = Some (cl, True) \<longrightarrow>
      (\<forall>wc\<in>set cl. wc_type wc = HAMMER2_BREF_TYPE_INODE \<and> ch_flags (wc_chain wc) AND 0x20 = 0)"
    and modif: "\<forall>cl. found = Some (cl, True) \<longrightarrow> (\<forall>wc\<in>set cl. ch_flags (wc_chain wc) AND 1 \<noteq> 0)" using assms(7) by blast+
  show ?B using write_core_total[OF _ _ assms(1-3,5,4,6) modif] by blast
  show ?A
  proof (intro allI impI)
    fix res e h' and rbuf :: bytes assume w: "?w = Ok (res, e, h') \<and> 65536 \<le> length rbuf"
    note wr = write_core_written[OF conjunct1[OF w] n assms(3,5,4) refl conjunct2[OF w] assms(6) inode]
    then have el: "case res of None \<Rightarrow> b_data bp = replicate (length (b_data bp)) 0
      | Some cl \<Rightarrow> \<forall>wc\<in>set cl. reads_back z (Some rbuf) wc (b_data bp) \<and> ch_flags (wc_chain wc) AND 0x20 = 0 \<and> wc_type wc \<in> {HAMMER2_BREF_TYPE_INODE, HAMMER2_BREF_TYPE_DATA}"
      by (auto simp: written_def split: option.splits)
    have chk: "hammer2_chain_testcheck hmac (wc_chain wc) (wc_data wc)"
      if "res = Some cl \<and> wc \<in> set cl \<and> wc_type wc = HAMMER2_BREF_TYPE_DATA" for cl wc
      using that wr by (auto simp: written_def)
    show "e = 0 \<and>
        (\<forall>cl wc. res = Some cl \<and> wc \<in> set cl \<and> wc_type wc = HAMMER2_BREF_TYPE_DATA \<longrightarrow>
           hammer2_chain_testcheck hmac (wc_chain wc) (wc_data wc)) \<and>
        (\<forall>rd bp' lbase. later res rd \<and> length (b_data bp) \<le> length (b_data bp') \<and> b_bcount bp' = length (b_data bp') \<and>
           length (b_data bp') \<le> 65536 \<and> (ucast lbase :: u32) AND 0xffff = 0 \<longrightarrow>
           (\<exists>e. hammer2_strategy_read z (Some rbuf) lbase rd bp' =
              Ok (bp'\<lparr>b_data := b_data bp @ replicate (length (b_data bp') - length (b_data bp)) 0, b_error := e\<rparr>)))"
      using wr chk strategy_read_written[OF el] by blast
  qed
qed

definition ex_data_chain :: "nat \<Rightarrow> wchain" where
  "ex_data_chain n =
     \<lparr>wc_chain = \<lparr>ch_bref = blockref_zero\<lparr>br_type := HAMMER2_BREF_TYPE_DATA\<rparr>, ch_flags = 1, ch_bytes = n,
                  core_live_zero = 0, core_flags = 0, core_live_count = 0,
      core_chain_count = 0, core_generation = 0\<rparr>,
      wc_opflags = 0, wc_cached = False, wc_ioerr = 0, wc_data = replicate n 0\<rparr>"

definition ex_zlib :: zlib where
  "ex_zlib = \<lparr>z_deflate = (\<lambda>level d n. if d = replicate 1024 7 \<and> 1 \<le> n then Some [1] else None),
              z_inflate = (\<lambda>s m. if take 1 s = [1] then (True, replicate 1024 7) else (False, []))\<rparr>"

text \<open>A block of 1024 bytes for an inode that asks for zlib and the iSCSI check.\<close>

theorem data_write_read_witness:
  "\<exists>r. hammer2_write_file_core (\<lambda>k d. replicate 32 1) ex_zlib True (Some (replicate 32768 0))
     (\<lambda>n. (0, Some [ex_data_chain n])) None \<lparr>b_data = replicate 1024 7, b_bcount = 1024, b_loffset = 0, b_error = 0\<rparr>
     1024 HAMMER2_COMP_ZLIB HAMMER2_CHECK_ISCSI32 0 = Ok r"
  using data_write_read[of "\<lparr>b_data = replicate 1024 7, b_bcount = 1024, b_loffset = 0, b_error = 0\<rparr>" "\<lambda>k d. replicate 32 1" ex_zlib
      "\<lambda>n. (0, Some [ex_data_chain n])" None True "Some (replicate 32768 0)" HAMMER2_COMP_ZLIB HAMMER2_CHECK_ISCSI32 0]
  by (simp add: ex_zlib_def zlib_inverse_def placed_def ex_data_chain_def)

text \<open>
  C26: Two faults of the data path.  With the allocation of the staging buffer commented out, so
  that \<open>comp_buffer\<close> is null, the write of a block that is not all zeros faults whenever an LZ4 attempt is made, which
  the heuristic allows for the first eight and then every eighth block after failures, whatever the chain layer answers.  And when LZ4
  data turn out to be corrupt, so that the decompressor returns a negative number, the callback clears the buffer
  from that negative offset on: it writes before the buffer.
\<close>

theorem data_path_faults:
  "(8 dvd length (b_data bp) \<and> b_data bp \<noteq> replicate (length (b_data bp)) 0 \<and> length (b_data bp) \<le> 65536 \<and>
    HAMMER2_DEC_ALGO comp_algo = HAMMER2_COMP_LZ4 \<and> (h < 8 \<or> h AND 7 = 0) \<longrightarrow>
    hammer2_write_file_core hmac z ctx None assign found bp (length (b_data bp)) comp_algo check_algo h = Fault ''comp_buffer'') \<and>
   (csize = sint (le_join (take 4 data) :: u32) \<and> 0 \<le> csize \<and> csize \<le> int n - 4 \<and> length (b_data rbp) \<le> 65536 \<and>
    LZ4_decompress_safe (fetch 4 (nat csize) data) (take (length (b_data rbp)) cb) = Ok (result, cb') \<and> result < 0 \<longrightarrow>
    hammer2_decompress_LZ4_callback (Some cb) data n rbp = Fault ''write before the buffer'')"
proof -
  have "hammer2_decompress_LZ4_callback (Some cb) data n rbp = Fault ''write before the buffer''"
    if "csize = sint (le_join (take 4 data) :: u32)" "0 \<le> csize" "csize \<le> int n - 4" "length (b_data rbp) \<le> 65536"
      "LZ4_decompress_safe (fetch 4 (nat csize) data) (take (length (b_data rbp)) cb) = Ok (result, cb')" "result < 0"
    using that by (simp add: hammer2_decompress_LZ4_callback_def Let_def bzero_def bcopy_def)
  then show ?thesis
    by (auto simp: hammer2_write_file_core_def hammer2_compress_and_write_def test_block_zeros_eq comp_try_def compress_lz4_def Let_def)
qed

text \<open>A block of ones with LZ4; and a compressed block whose first token asks for more literals than there are.\<close>

theorem data_path_faults_witness:
  "hammer2_write_file_core (\<lambda>k d. []) ex_zlib True None (\<lambda>n. (0, None)) None
     \<lparr>b_data = replicate 1024 1, b_bcount = 1024, b_loffset = 0, b_error = 0\<rparr> 1024 HAMMER2_COMP_LZ4 0 0 = Fault ''comp_buffer'' \<and>
   hammer2_decompress_LZ4_callback (Some (replicate 16 0)) [1, 0, 0, 0, 0x50] 5
     \<lparr>b_data = replicate 16 0, b_bcount = 16, b_loffset = 0, b_error = 0\<rparr> = Fault ''write before the buffer''"
proof -
  have s: "sint (le_join (take 4 [1, 0, 0, 0, 0x50]) :: u32) = 1" by code_simp
  have "LZ4_decompress_safe [0x50] (replicate 16 0) = Ok (-2, replicate 16 0)" by code_simp
  then have d: "LZ4_decompress_safe (fetch 4 (nat 1) [1, 0, 0, 0, 0x50]) (take 16 (replicate 16 0)) = Ok (-2, replicate 16 0)" by (simp add: fetch_def)
  show ?thesis
    using data_path_faults[of "\<lparr>b_data = replicate 1024 1, b_bcount = 1024, b_loffset = 0, b_error = 0\<rparr>" HAMMER2_COMP_LZ4 0 "\<lambda>k d. []"
      ex_zlib True "\<lambda>n. (0, None)" None 0 1 "[1, 0, 0, 0, 0x50]" 5 "\<lparr>b_data = replicate 16 0, b_bcount = 16, b_loffset = 0, b_error = 0\<rparr>"
      "replicate 16 0" "-2" "replicate 16 0"] s d
    by (simp add: HAMMER2_DEC_ALGO_def)
qed

end
