(* ===== verification/H2_Chain.thy ===== *)
theory H2_Chain
  imports H2_Blocktable
begin

unbundle bit_operations_syntax

text \<open>
  One level of the chain topology: a chain with its block table and the chains in memory below
  it.  The operations are those of \<^verbatim>\<open>hammer2_chain.c\<close> that search a level through both,
  \<open>hammer2_chain_find\<close> and \<open>hammer2_combined_find\<close>.

  The red-black tree \<open>core.rbtree\<close> is the list of its chains in key order.  In this port
  \<^verbatim>\<open>hammer2.h\<close> defines \<open>RB_SCAN\<close> as nothing and \<open>hammer2_chain_find\<close> instead calls its two
  helpers once with a null pointer as placeholder; \<open>RB_STUB\<close> stands for this build, the one of the repository.
  \<open>RB_TREE\<close> is a repaired build: \<open>RB_SCAN\<close> is the macro of the system the code comes from, which calls a
  function on every chain that a comparison accepts, in key order, and the placeholder calls with a null pointer
  (\<^verbatim>\<open>hammer2_chain.c\<close>:1392-1393, \<^verbatim>\<open>hammer2_flush.c\<close>:540) are removed.  What is proved of a search for \<open>RB_TREE\<close>
  says that the rest of the code is right; for \<open>RB_STUB\<close> the search faults.
\<close>

datatype rb_build = RB_STUB | RB_TREE

datatype ctree = CNode (cn_chain: hammer2_chain) (cn_base: "hammer2_blockref list option") (cn_kids: "ctree list")

abbreviation cn_bref :: "ctree \<Rightarrow> hammer2_blockref" where "cn_bref t \<equiv> ch_bref (cn_chain t)"

section \<open>The operations\<close>

definition hammer2_chain_cmp :: "ctree \<Rightarrow> ctree \<Rightarrow> int" where
  "hammer2_chain_cmp chain1 chain2 =
     (if bref_end (cn_bref chain1) < br_key (cn_bref chain2) then -1
      else if br_key (cn_bref chain1) > bref_end (cn_bref chain2) then 1
      else 0)"

record hammer2_chain_find_info =
  fi_best :: "ctree option"
  fi_key_beg :: u64
  fi_key_end :: u64
  fi_key_next :: u64

definition hammer2_chain_find_cmp :: "ctree \<Rightarrow> hammer2_chain_find_info \<Rightarrow> int" where
  "hammer2_chain_find_cmp child info =
     (if bref_end (cn_bref child) < fi_key_beg info then -1
      else if br_key (cn_bref child) > fi_key_end info then 1
      else 0)"

text \<open>\<open>if (key_next > k || key_next == 0) key_next = k\<close>.\<close>

definition truncate_next :: "u64 \<Rightarrow> u64 \<Rightarrow> u64" where
  "truncate_next key_next k = (if key_next > k \<or> key_next = 0 then k else key_next)"

definition hammer2_chain_find_callback :: "ctree \<Rightarrow> hammer2_chain_find_info \<Rightarrow> hammer2_chain_find_info outcome" where
  "hammer2_chain_find_callback child info =
     obind (case fi_best info of
              None \<Rightarrow> Ok (info\<lparr>fi_best := Some child\<rparr>)
            | Some best \<Rightarrow>
                if br_key (cn_bref best) \<le> fi_key_beg info \<and> br_key (cn_bref child) \<le> fi_key_beg info then Panic ''illegal overlap''
                else if br_key (cn_bref child) < br_key (cn_bref best)
                then Ok (info\<lparr>fi_best := Some child, fi_key_next := truncate_next (fi_key_next info) (br_key (cn_bref best))\<rparr>)
                else if br_key (cn_bref child) = br_key (cn_bref best) then Panic ''illegal overlap''
                else Ok (info\<lparr>fi_key_next := truncate_next (fi_key_next info) (br_key (cn_bref child))\<rparr>))
       (\<lambda>info'. let child_end = bref_next (cn_bref child)
                in Ok (if child_end \<noteq> 0 then info'\<lparr>fi_key_next := truncate_next (fi_key_next info') child_end\<rparr> else info'))"

fun rb_scan :: "('a \<Rightarrow> int) \<Rightarrow> ('a \<Rightarrow> 's \<Rightarrow> 's outcome) \<Rightarrow> 'a list \<Rightarrow> 's \<Rightarrow> 's outcome" where
  "rb_scan cmp callback [] s = Ok s"
| "rb_scan cmp callback (x # xs) s =
     (if cmp x = 0 then obind (callback x s) (rb_scan cmp callback xs) else rb_scan cmp callback xs s)"

text \<open>
  The chain found and the new \<open>*key_nextp\<close>.  The branch \<open>RB_TREE\<close> has the scan and not the two calls with a null pointer before it.
\<close>

definition hammer2_chain_find :: "rb_build \<Rightarrow> ctree \<Rightarrow> u64 \<Rightarrow> u64 \<Rightarrow> u64 \<Rightarrow> (ctree option \<times> u64) outcome" where
  "hammer2_chain_find build parent key_next key_beg key_end =
     (let info = \<lparr>fi_best = None, fi_key_beg = key_beg, fi_key_end = key_end, fi_key_next = key_next\<rparr>
      in case build of
           RB_STUB \<Rightarrow> Fault ''info''
         | RB_TREE \<Rightarrow>
             obind (rb_scan (\<lambda>child. hammer2_chain_find_cmp child info) hammer2_chain_find_callback (cn_kids parent) info)
               (\<lambda>info'. Ok (fi_best info', fi_key_next info')))"

text \<open>
  The result: the chain when it is in memory, \<open>*bresp\<close>, the new \<open>*cache_indexp\<close> and the new
  \<open>*key_nextp\<close>.
\<close>

definition hammer2_combined_find ::
  "rb_build \<Rightarrow> ctree \<Rightarrow> nat \<Rightarrow> int \<Rightarrow> u64 \<Rightarrow> u64 \<Rightarrow> (ctree option \<times> hammer2_blockref option \<times> int \<times> u64) outcome" where
  "hammer2_combined_find build parent count cache_index key_beg key_end =
     obind (hammer2_base_find (cn_chain parent) (cn_base parent) count cache_index (key_end + 1) key_beg key_end) (\<lambda>(i, cache', next1).
       obind (hammer2_chain_find build parent next1 key_beg key_end) (\<lambda>(chain, next2).
         let found = (\<lambda>chain bref. if br_key bref > key_end then Ok (None, None, cache', next2)
                                   else Ok (chain, Some bref, cache', next2))
         in case (i = count, chain) of
              (True, None) \<Rightarrow> Ok (None, None, cache', next2)
            | (True, Some c) \<Rightarrow> found (Some c) (cn_bref c)
            | (False, None) \<Rightarrow> found None (the (cn_base parent) ! i)
            | (False, Some c) \<Rightarrow>
                let e = the (cn_base parent) ! i
                in if br_key (cn_bref c) \<le> key_beg \<and> br_key e \<le> key_beg \<or> br_key (cn_bref c) = br_key e
                   then kkassert (br_key (cn_bref c) = br_key e) ''chain->bref.key == base[i].key'' (found (Some c) (cn_bref c))
                   else if br_key (cn_bref c) < br_key e then found (Some c) (cn_bref c)
                   else found None e))"

section \<open>The view of a level\<close>

text \<open>
  The elements of a level in key order: the chains in memory and the elements of the block
  table they do not shadow.
\<close>

fun merge_view :: "hammer2_blockref list \<Rightarrow> ctree list \<Rightarrow> (hammer2_blockref \<times> ctree option) list" where
  "merge_view [] ks = map (\<lambda>k. (cn_bref k, Some k)) ks"
| "merge_view (e # es) [] = map (\<lambda>e. (e, None)) (e # es)"
| "merge_view (e # es) (k # ks) =
     (if br_key (cn_bref k) = br_key e then (cn_bref k, Some k) # merge_view es ks
      else if br_key (cn_bref k) < br_key e then (cn_bref k, Some k) # merge_view (e # es) ks
      else (e, None) # merge_view es (k # ks))"

definition base_elems :: "ctree \<Rightarrow> hammer2_blockref list" where
  "base_elems t = (case cn_base t of None \<Rightarrow> [] | Some base \<Rightarrow> elems base)"

definition view :: "ctree \<Rightarrow> (hammer2_blockref \<times> ctree option) list" where
  "view t = merge_view (base_elems t) (cn_kids t)"

definition same_range :: "hammer2_blockref \<Rightarrow> hammer2_blockref \<Rightarrow> bool" where
  "same_range a b \<longleftrightarrow> br_key a = br_key b \<and> br_keybits a = br_keybits b"

text \<open>
  What holds of a level: its block table is well formed, the chains in memory are in order,
  and each has the range of an element of the table or overlaps none.
\<close>

definition kids_wf :: "ctree list \<Rightarrow> bool" where
  "kids_wf ks \<longleftrightarrow> sorted_wrt (\<lambda>a b. bref_left (cn_bref a) (cn_bref b)) ks \<and> (\<forall>k\<in>set ks. bref_wf (cn_bref k) \<and> ch_flags (cn_chain k) AND 0x10 = 0)"

definition overlay_ok :: "hammer2_blockref list \<Rightarrow> ctree list \<Rightarrow> bool" where
  "overlay_ok es ks \<longleftrightarrow> (\<forall>e\<in>set es. \<forall>k\<in>set ks. same_range e (cn_bref k) \<or> bref_left e (cn_bref k) \<or> bref_left (cn_bref k) e)"

definition level_wf :: "ctree \<Rightarrow> nat \<Rightarrow> bool" where
  "level_wf t count \<longleftrightarrow>
     (case cn_base t of None \<Rightarrow> core_flags (cn_chain t) AND HAMMER2_CORE_COUNTEDBREFS \<noteq> 0
      | Some base \<Rightarrow> blocktable_wf (cn_chain t) base count) \<and>
     kids_wf (cn_kids t) \<and> overlay_ok (base_elems t) (cn_kids t)"

section \<open>The merged view\<close>

abbreviation ends_after :: "u64 \<Rightarrow> hammer2_blockref \<Rightarrow> bool" where
  "ends_after k b \<equiv> unat k < bref_hi b"

lemma unat_u64: "unat (w :: u64) < 2 ^ 64"
  by (rule order_less_le_trans[OF unsigned_less]) simp

lemma same_range_hi: "same_range a b \<Longrightarrow> bref_hi a = bref_hi b"
  by (simp add: same_range_def bref_hi_def)

lemma same_range_key_iff:
  assumes "same_range e k \<or> bref_left e k \<or> bref_left k e"
  shows "br_key k = br_key e \<longleftrightarrow> same_range e k" "br_key k \<noteq> br_key e \<Longrightarrow> br_key k < br_key e \<longleftrightarrow> bref_left k e"
    "br_key k \<noteq> br_key e \<Longrightarrow> \<not> br_key k < br_key e \<longleftrightarrow> bref_left e k"
  using assms bref_hi_pos[of e] bref_hi_pos[of k]
  by (auto simp: same_range_def bref_left_def word_less_unat)

lemma merge_view_nil2: "merge_view es [] = map (\<lambda>e. (e, None)) es"
  by (cases es) auto

lemma set_merge_view_fst:
  "v \<in> set (merge_view es ks) \<Longrightarrow> fst v \<in> set es \<union> cn_bref ` set ks"
  by (induction es ks rule: merge_view.induct) (auto split: if_splits)

lemma merge_view_sorted:
  "sorted_wrt bref_left es \<Longrightarrow> kids_wf ks \<Longrightarrow> overlay_ok es ks \<Longrightarrow> sorted_wrt bref_left (map fst (merge_view es ks))"
proof (induction es ks rule: merge_view.induct)
  case (1 ks)
  then show ?case by (simp add: kids_wf_def sorted_wrt_map comp_def)
next
  case (2 e es)
  then show ?case by (simp add: comp_def)
next
  case (3 e es k ks)
  have o: "same_range e (cn_bref k) \<or> bref_left e (cn_bref k) \<or> bref_left (cn_bref k) e" using 3 by (simp add: overlay_ok_def)
  have es: "\<forall>b\<in>set es. bref_left e b" "sorted_wrt bref_left es" using 3 by auto
  have ks: "\<forall>c\<in>set ks. bref_left (cn_bref k) (cn_bref c)" "kids_wf ks" using 3 by (auto simp: kids_wf_def)
  have oes: "overlay_ok es (k # ks)" "overlay_ok (e # es) ks" "overlay_ok es ks" using 3 by (auto simp: overlay_ok_def)
  consider (same) "br_key (cn_bref k) = br_key e" "same_range e (cn_bref k)" | (kid) "br_key (cn_bref k) \<noteq> br_key e" "br_key (cn_bref k) < br_key e" "bref_left (cn_bref k) e"
    | (base) "br_key (cn_bref k) \<noteq> br_key e" "\<not> br_key (cn_bref k) < br_key e" "bref_left e (cn_bref k)"
    using same_range_key_iff[OF o] by blast
  then show ?case
  proof cases
    case same
    have "\<forall>b\<in>set es. bref_left (cn_bref k) b" using es(1) same_range_hi[OF same(2)] by (simp add: bref_left_def)
    then have "\<forall>v\<in>set (merge_view es ks). bref_left (cn_bref k) (fst v)" using ks(1) set_merge_view_fst[of _ es ks] by fastforce
    then show ?thesis using same 3(1) es(2) ks(2) oes(3) by simp
  next
    case kid
    have "\<forall>b\<in>set (e # es). bref_left (cn_bref k) b" using es(1) kid(3) bref_left_trans by auto
    then have "\<forall>v\<in>set (merge_view (e # es) ks). bref_left (cn_bref k) (fst v)" using ks(1) set_merge_view_fst[of _ "e # es" ks] by fastforce
    then show ?thesis using kid 3(2) 3(4) ks(2) oes(2) by simp
  next
    case base
    have "\<forall>c\<in>set (k # ks). bref_left e (cn_bref c)" using ks(1) base(3) bref_left_trans by auto
    then have "\<forall>v\<in>set (merge_view es (k # ks)). bref_left e (fst v)" using es(1) set_merge_view_fst[of _ es "k # ks"] by fastforce
    then show ?thesis using base 3(3) es(2) 3(5) oes(1) by simp
  qed
qed

lemma merge_view_dropWhile:
  "sorted_wrt bref_left es \<Longrightarrow> kids_wf ks \<Longrightarrow> overlay_ok es ks \<Longrightarrow>
   dropWhile (\<lambda>v. \<not> ends_after k (fst v)) (merge_view es ks) =
   merge_view (dropWhile (\<lambda>b. \<not> ends_after k b) es) (dropWhile (\<lambda>c. \<not> ends_after k (cn_bref c)) ks)"
proof (induction es ks rule: merge_view.induct)
  case (1 ks)
  then show ?case by (simp add: dropWhile_map comp_def)
next
  case (2 e es)
  have "dropWhile (\<lambda>v. \<not> ends_after k (fst v)) (map (\<lambda>e. (e, None :: ctree option)) (e # es)) =
      map (\<lambda>e. (e, None)) (dropWhile (\<lambda>b. \<not> ends_after k b) (e # es))" by (simp only: dropWhile_map comp_def fst_conv)
  then show ?case by (simp only: merge_view.simps dropWhile.simps(1) merge_view_nil2)
next
  case (3 e es c ks)
  have o: "same_range e (cn_bref c) \<or> bref_left e (cn_bref c) \<or> bref_left (cn_bref c) e" using 3 by (simp add: overlay_ok_def)
  have es: "sorted_wrt bref_left es" "kids_wf ks" using 3 by (auto simp: kids_wf_def)
  have oes: "overlay_ok es (c # ks)" "overlay_ok (e # es) ks" "overlay_ok es ks" using 3 by (auto simp: overlay_ok_def)
  consider (same) "br_key (cn_bref c) = br_key e" "bref_hi e = bref_hi (cn_bref c)"
    | (kid) "br_key (cn_bref c) \<noteq> br_key e" "br_key (cn_bref c) < br_key e" "bref_left (cn_bref c) e"
    | (base) "br_key (cn_bref c) \<noteq> br_key e" "\<not> br_key (cn_bref c) < br_key e" "bref_left e (cn_bref c)"
    using same_range_key_iff[OF o] same_range_hi[of e "cn_bref c"] by blast
  then show ?case
  proof cases
    case same
    then show ?thesis using 3(1)[OF same(1) es oes(3)] by simp
  next
    case kid
    have "ends_after k e" if "ends_after k (cn_bref c)" using that kid(3) bref_hi_pos[of e] by (simp add: bref_left_def)
    then show ?thesis using kid 3(2)[OF kid(1,2) 3(4) es(2) oes(2)] by simp
  next
    case base
    have "ends_after k (cn_bref c)" if "ends_after k e" using that base(3) bref_hi_pos[of "cn_bref c"] by (simp add: bref_left_def)
    then show ?thesis using base 3(3)[OF base(1,2) es(1) 3(5) oes(1)] by simp
  qed
qed

lemma find_dropWhile: "find P xs = (case dropWhile (\<lambda>x. \<not> P x) xs of [] \<Rightarrow> None | x # _ \<Rightarrow> Some x)"
  by (induction xs) auto

text \<open>The search of the block table in terms of its elements.\<close>

lemma first_ge_elems:
  "case dropWhile (\<lambda>b. \<not> ends_after k b) (elems base) of
     [] \<Rightarrow> first_ge base k = length base
   | e # _ \<Rightarrow> first_ge base k < length base \<and> base ! first_ge base k = e"
proof (induction base)
  case Nil
  then show ?case by (simp add: first_ge_def)
next
  case (Cons b base)
  then show ?case
    by (cases "br_type b = 0"; cases "ends_after k b") (simp_all add: first_ge_def del: dropWhile_eq_Nil_conv split: list.split_asm list.split)
qed

section \<open>The search of the chains in memory\<close>

lemma find_cmp_0:
  assumes "bref_wf (cn_bref c)"
  shows "hammer2_chain_find_cmp c info = 0 \<longleftrightarrow> ends_after (fi_key_beg info) (cn_bref c) \<and> br_key (cn_bref c) \<le> fi_key_end info"
  using unat_bref_end[OF assms] bref_hi_pos[of "cn_bref c"]
  by (auto simp: hammer2_chain_find_cmp_def word_less_unat word_le_unat)

text \<open>The chains after the best one change nothing.\<close>

lemma rb_scan_rest:
  assumes "kids_wf (best # ks)" "fi_best info = Some best" "fi_key_next info \<noteq> 0"
    "unat (fi_key_next info) \<le> bref_hi (cn_bref best)" "ends_after (fi_key_beg info) (cn_bref best)"
  shows "rb_scan cmp hammer2_chain_find_callback ks info = Ok info"
  using assms
proof (induction ks)
  case (Cons c ks)
  have l: "bref_left (cn_bref best) (cn_bref c)" "kids_wf (best # ks)" "bref_wf (cn_bref c)" using Cons.prems(1) by (auto simp: kids_wf_def)
  have k: "br_key (cn_bref best) < br_key (cn_bref c)" "fi_key_beg info < br_key (cn_bref c)" "fi_key_next info \<le> br_key (cn_bref c)"
    using l(1) bref_hi_pos[of "cn_bref best"] Cons.prems(4,5) by (auto simp: bref_left_def word_less_unat word_le_unat)
  have t: "truncate_next (fi_key_next info) (br_key (cn_bref c)) = fi_key_next info" using k(3) Cons.prems(3) by (auto simp: truncate_next_def dest: leD)
  have t2: "truncate_next (fi_key_next info) (bref_next (cn_bref c)) = fi_key_next info" if "bref_next (cn_bref c) \<noteq> 0"
    using bref_next_nonzero(1)[OF l(3) that] bref_hi_pos[of "cn_bref c"] k(3) Cons.prems(3)
    by (simp add: truncate_next_def word_less_unat word_le_unat)
  have "hammer2_chain_find_callback c info = Ok info"
    using k(1,2) t t2 Cons.prems(2) by (simp add: hammer2_chain_find_callback_def Let_def leD not_le less_not_sym order_less_imp_not_eq2)
  then show ?case using Cons l(2) by simp
qed simp

lemma chain_find_eq:
  assumes wf: "kids_wf (cn_kids t)"
  shows "hammer2_chain_find RB_TREE t key_next kb ke =
    (case dropWhile (\<lambda>c. \<not> ends_after kb (cn_bref c)) (cn_kids t) of
       [] \<Rightarrow> Ok (None, key_next)
     | c # _ \<Rightarrow> if br_key (cn_bref c) \<le> ke
                then Ok (Some c, if bref_next (cn_bref c) \<noteq> 0 then truncate_next key_next (bref_next (cn_bref c)) else key_next)
                else Ok (None, key_next))"
proof -
  define info where "info = \<lparr>fi_best = None, fi_key_beg = kb, fi_key_end = ke, fi_key_next = key_next\<rparr>"
  let ?cmp = "\<lambda>child. hammer2_chain_find_cmp child info"
  have "rb_scan ?cmp hammer2_chain_find_callback ks info =
    (case dropWhile (\<lambda>c. \<not> ends_after kb (cn_bref c)) ks of
       [] \<Rightarrow> Ok info
     | c # _ \<Rightarrow> if br_key (cn_bref c) \<le> ke
                then Ok (info\<lparr>fi_best := Some c, fi_key_next := if bref_next (cn_bref c) \<noteq> 0 then truncate_next key_next (bref_next (cn_bref c)) else key_next\<rparr>)
                else Ok info)" if "kids_wf ks" for ks
    using that
  proof (induction ks)
    case (Cons c ks)
    have w: "bref_wf (cn_bref c)" "kids_wf ks" using Cons.prems by (auto simp: kids_wf_def)
    note c0 = find_cmp_0[OF w(1), of info]
    show ?case
    proof (cases "ends_after kb (cn_bref c)")
      case False
      then show ?thesis using Cons w c0 by (simp add: info_def)
    next
      case True
      show ?thesis
      proof (cases "br_key (cn_bref c) \<le> ke")
        case in_range: True
        let ?i = "info\<lparr>fi_best := Some c, fi_key_next := if bref_next (cn_bref c) \<noteq> 0 then truncate_next key_next (bref_next (cn_bref c)) else key_next\<rparr>"
        have cb: "hammer2_chain_find_callback c info = Ok ?i"
          by (simp add: hammer2_chain_find_callback_def info_def Let_def)
        have rest: "rb_scan ?cmp hammer2_chain_find_callback ks ?i = Ok ?i"
        proof (cases "bref_next (cn_bref c) = 0")
          case True
          then have "bref_hi (cn_bref c) = 2 ^ 64" using bref_next_nonzero(2)[OF w(1)] by simp
          moreover have "unat (br_key (cn_bref d)) < 2 ^ 64" for d using unat_u64[of "br_key (cn_bref d)"] by simp
          ultimately have "ks = []" using Cons.prems by (cases ks) (fastforce simp: kids_wf_def bref_left_def not_le[symmetric])+
          then show ?thesis by simp
        next
          case nz: False
          have le: "truncate_next key_next (bref_next (cn_bref c)) \<noteq> 0"
            "unat (truncate_next key_next (bref_next (cn_bref c))) \<le> bref_hi (cn_bref c)"
            using nz bref_next_nonzero(1)[OF w(1) nz] by (auto simp: truncate_next_def word_less_unat not_less)
          show ?thesis by (rule rb_scan_rest[OF Cons.prems]) (use nz le True in \<open>simp_all add: info_def\<close>)
        qed
        then show ?thesis using True in_range c0 cb by (simp add: info_def)
      next
        case out: False
        have "rb_scan ?cmp hammer2_chain_find_callback ks info = Ok info"
          using Cons.prems
        proof (induction ks)
          case (Cons d ks)
          have "\<not> br_key (cn_bref d) \<le> ke" using Cons.prems out bref_hi_pos[of "cn_bref c"]
            by (auto simp: kids_wf_def bref_left_def word_le_unat)
          moreover have "bref_wf (cn_bref d)" using Cons.prems by (simp add: kids_wf_def)
          moreover have "kids_wf (c # ks)" using Cons.prems by (simp add: kids_wf_def)
          ultimately show ?case using Cons.IH find_cmp_0[of d info] by (simp add: info_def)
        qed simp
        then show ?thesis using True out c0 by (simp add: info_def)
      qed
    qed
  qed (simp add: info_def)
  from this[OF wf] show ?thesis
    unfolding hammer2_chain_find_def info_def[symmetric] Let_def
    by (cases "dropWhile (\<lambda>c. \<not> ends_after kb (cn_bref c)) (cn_kids t)") (simp_all add: info_def del: dropWhile_eq_Nil_conv)
qed

section \<open>The combined search\<close>

lemma truncate_next_le:
  "k \<noteq> 0 \<Longrightarrow> k \<le> k' \<Longrightarrow> truncate_next (truncate_next n k) k' = truncate_next n k"
  "k \<noteq> 0 \<Longrightarrow> k \<le> k' \<Longrightarrow> truncate_next (truncate_next n k') k = truncate_next n k"
  by (auto simp: truncate_next_def)

definition next_after :: "hammer2_blockref \<Rightarrow> u64 \<Rightarrow> u64" where
  "next_after b n = (if bref_next b \<noteq> 0 then truncate_next n (bref_next b) else n)"

lemma next_after_left:
  assumes "bref_left a b" "bref_wf a" "bref_wf b"
  shows "next_after b (next_after a n) = next_after a n" "next_after a (next_after b n) = next_after a n"
proof -
  have a: "bref_next a \<noteq> 0" "unat (bref_next a) = bref_hi a"
  proof -
    have "bref_hi a < 2 ^ 64" using assms(1) unat_u64[of "br_key b"] by (simp add: bref_left_def)
    then show "bref_next a \<noteq> 0" using bref_next_nonzero(2)[OF assms(2)] by simp
    then show "unat (bref_next a) = bref_hi a" by (rule bref_next_nonzero(1)[OF assms(2)])
  qed
  have "bref_next a \<le> bref_next b" if "bref_next b \<noteq> 0"
    using a bref_next_nonzero(1)[OF assms(3) that] assms(1) bref_hi_pos[of b] by (simp add: word_le_unat bref_left_def)
  then show "next_after b (next_after a n) = next_after a n" "next_after a (next_after b n) = next_after a n"
    using a(1) truncate_next_le by (auto simp: next_after_def)
qed

lemma next_after_same: "same_range a b \<Longrightarrow> next_after b (next_after a n) = next_after a n"
  by (auto simp: next_after_def same_range_def bref_next_def truncate_next_def)

lemma next_after_beyond:
  assumes "bref_wf b" "ke < br_key b"
  shows "next_after b (ke + 1) = ke + 1"
proof -
  have "unat (ke + 1) = unat ke + 1"
  proof -
    have "unat ke + unat (1 :: u64) < 2 ^ 64" using assms(2) unat_u64[of "br_key b"] by (simp add: word_less_unat)
    then show ?thesis using unat_plus_noverflow[of ke 1] by simp
  qed
  then have "ke + 1 \<noteq> 0" "\<not> ke + 1 > bref_next b" if "bref_next b \<noteq> 0"
    using bref_next_nonzero(1)[OF assms(1) that] bref_hi_pos[of b] assms(2) by (auto simp: word_less_unat)
  then show ?thesis by (auto simp: next_after_def truncate_next_def)
qed

lemma base_find_level:
  assumes "level_wf t count"
  shows "\<exists>i cache'. hammer2_base_find (cn_chain t) (cn_base t) count cache n kb ke =
      Ok (i, cache', case dropWhile (\<lambda>b. \<not> ends_after kb b) (base_elems t) of [] \<Rightarrow> n | e # _ \<Rightarrow> next_after e n) \<and>
    (case dropWhile (\<lambda>b. \<not> ends_after kb b) (base_elems t) of [] \<Rightarrow> i = count
     | e # _ \<Rightarrow> i \<noteq> count \<and> the (cn_base t) ! i = e)"
proof (cases "cn_base t")
  case None
  then show ?thesis using assms by (simp add: hammer2_base_find_def level_wf_def base_elems_def kkassert_def)
next
  case (Some base)
  then have wf: "blocktable_wf (cn_chain t) base count" using assms by (simp add: level_wf_def)
  then have len: "length base = count" by (simp add: blocktable_wf_def)
  obtain cache' where f: "hammer2_base_find (cn_chain t) (Some base) count cache n kb ke =
      Ok (first_ge base kb, cache', key_next_after base (first_ge base kb) n)"
    using base_find_eq[OF wf] by blast
  show ?thesis
  proof (cases "dropWhile (\<lambda>b. \<not> ends_after kb b) (elems base)")
    case Nil
    then have "first_ge base kb = count" using first_ge_elems[of base kb] len by (simp del: dropWhile_eq_Nil_conv)
    then show ?thesis using f Nil Some len by (simp add: base_elems_def key_next_after_def del: dropWhile_eq_Nil_conv)
  next
    case (Cons e es)
    then have "first_ge base kb < count" "base ! first_ge base kb = e" using first_ge_elems[of base kb] len by simp_all
    then show ?thesis using f Cons Some len
      by (simp add: base_elems_def key_next_after_def next_after_def truncate_next_def Let_def)
  qed
qed

lemma level_sorted:
  assumes "level_wf t count"
  shows "sorted_wrt bref_left (base_elems t)" "\<forall>b\<in>set (base_elems t). bref_wf b" "kids_wf (cn_kids t)"
    "overlay_ok (base_elems t) (cn_kids t)"
  using assms by (auto simp: level_wf_def base_elems_def blocktable_wf_def ordered_elems_def split: option.splits)

lemma set_dropWhile_hd: "dropWhile P xs = x # ys \<Longrightarrow> x \<in> set xs"
  by (metis list.set_intros(1) set_dropWhileD)

text \<open>
  The first element of the view that ends after \<open>key_beg\<close>, unless it begins after \<open>key_end\<close>.
\<close>

lemma combined_find_eq:
  assumes wf: "level_wf t count"
  shows "\<exists>cache' next. hammer2_combined_find RB_TREE t count cache kb ke =
    (case dropWhile (\<lambda>v. \<not> ends_after kb (fst v)) (view t) of
       [] \<Rightarrow> Ok (None, None, cache', next)
     | (b, c) # _ \<Rightarrow> if br_key b \<le> ke then Ok (c, Some b, cache', next_after b (ke + 1)) else Ok (None, None, cache', next))"
proof -
  note ls = level_sorted[OF wf]
  let ?E = "dropWhile (\<lambda>b. \<not> ends_after kb b) (base_elems t)" and ?K = "dropWhile (\<lambda>c. \<not> ends_after kb (cn_bref c)) (cn_kids t)"
  have v: "dropWhile (\<lambda>v. \<not> ends_after kb (fst v)) (view t) = merge_view ?E ?K"
    unfolding view_def by (rule merge_view_dropWhile[OF ls(1,3,4)])
  obtain i cache' where bf: "hammer2_base_find (cn_chain t) (cn_base t) count cache (ke + 1) kb ke =
      Ok (i, cache', case ?E of [] \<Rightarrow> ke + 1 | e # _ \<Rightarrow> next_after e (ke + 1))"
    "case ?E of [] \<Rightarrow> i = count | e # _ \<Rightarrow> i \<noteq> count \<and> the (cn_base t) ! i = e"
    using base_find_level[OF wf] by blast
  note cf = chain_find_eq[OF ls(3)]
  show ?thesis
  proof (cases ?E)
    case E: Nil
    show ?thesis
    proof (cases ?K)
      case Nil
      then show ?thesis unfolding v using bf cf E
        by (simp add: hammer2_combined_find_def Let_def del: dropWhile_eq_Nil_conv)
    next
      case (Cons k ks)
      then show ?thesis unfolding v using bf cf E
        by (auto simp: hammer2_combined_find_def Let_def next_after_def not_le simp del: dropWhile_eq_Nil_conv)
    qed
  next
    case E: (Cons e es)
    have e: "bref_wf e" "e \<in> set (base_elems t)" using set_dropWhile_hd[OF E] ls(2) by auto
    show ?thesis
    proof (cases ?K)
      case Nil
      then show ?thesis unfolding v using bf cf E
        by (auto simp: hammer2_combined_find_def Let_def not_le merge_view_nil2 simp del: dropWhile_eq_Nil_conv)
    next
      case (Cons k ks)
      have k: "k \<in> set (cn_kids t)" "bref_wf (cn_bref k)" using set_dropWhile_hd[OF Cons] ls(3) by (auto simp: kids_wf_def)
      have o: "same_range e (cn_bref k) \<or> bref_left e (cn_bref k) \<or> bref_left (cn_bref k) e"
        using ls(4) e(2) k(1) by (simp add: overlay_ok_def)
      have ek: "ends_after kb e" "ends_after kb (cn_bref k)"
        using E Cons hd_dropWhile[of "\<lambda>b. \<not> ends_after kb b" "base_elems t"] hd_dropWhile[of "\<lambda>c. \<not> ends_after kb (cn_bref c)" "cn_kids t"]
        by (simp_all del: dropWhile_eq_Nil_conv add: dropWhile_eq_Cons_conv)
      note R = same_range_key_iff[OF o]
      have flush: "br_key (cn_bref k) \<le> kb \<and> br_key e \<le> kb \<longrightarrow> br_key (cn_bref k) = br_key e"
        using R ek by (auto simp: bref_left_def word_le_unat)
      show ?thesis
      proof (cases "br_key (cn_bref k) \<le> ke")
        case True
        have f: "hammer2_chain_find RB_TREE t (next_after e (ke + 1)) kb ke = Ok (Some k, next_after (cn_bref k) (next_after e (ke + 1)))"
          using cf Cons True by (simp add: next_after_def)
        consider (same) "br_key (cn_bref k) = br_key e" | (kid) "br_key (cn_bref k) \<noteq> br_key e" "br_key (cn_bref k) < br_key e"
          | (base) "br_key (cn_bref k) \<noteq> br_key e" "\<not> br_key (cn_bref k) < br_key e" by blast
        then show ?thesis
        proof cases
          case same
          then have "next_after (cn_bref k) (next_after e (ke + 1)) = next_after (cn_bref k) (ke + 1)"
            using R(1) by (auto simp: next_after_def truncate_next_def same_range_def bref_next_def)
          then show ?thesis unfolding v using bf f E Cons same True
            by (auto simp: hammer2_combined_find_def Let_def)
        next
          case kid
          then have "next_after (cn_bref k) (next_after e (ke + 1)) = next_after (cn_bref k) (ke + 1)"
            using next_after_left(2)[OF _ k(2) e(1)] R(2) by blast
          then show ?thesis unfolding v using bf f E Cons kid True flush
            by (auto simp: hammer2_combined_find_def Let_def)
        next
          case base
          then have "next_after (cn_bref k) (next_after e (ke + 1)) = next_after e (ke + 1)" "br_key e \<le> ke"
            using next_after_left(1)[OF _ e(1) k(2)] R(3) True by auto
          then show ?thesis unfolding v using bf f E Cons base True flush
            by (auto simp: hammer2_combined_find_def Let_def)
        qed
      next
        case False
        have f: "hammer2_chain_find RB_TREE t (next_after e (ke + 1)) kb ke = Ok (None, next_after e (ke + 1))"
          using cf Cons False by simp
        have "br_key e \<le> ke \<Longrightarrow> br_key (cn_bref k) \<noteq> br_key e \<and> \<not> br_key (cn_bref k) < br_key e" using False by auto
        then show ?thesis unfolding v using bf f E Cons False
          by (auto simp: hammer2_combined_find_def Let_def not_le)
      qed
    qed
  qed
qed

section \<open>Walking a level\<close>

text \<open>
  The loops over a level search from one key to the end of the key space and go on behind
  the element found: they visit the elements of the view in order.
\<close>

lemma view_sorted:
  assumes "level_wf t count"
  shows "sorted_wrt bref_left (map fst (view t))" "\<forall>v\<in>set (view t). bref_wf (fst v)"
proof -
  show "sorted_wrt bref_left (map fst (view t))"
    unfolding view_def by (rule merge_view_sorted[OF level_sorted(1,3,4)[OF assms]])
  have "\<forall>b\<in>set (base_elems t) \<union> cn_bref ` set (cn_kids t). bref_wf b"
    using level_sorted(2,3)[OF assms] by (auto simp: kids_wf_def)
  then show "\<forall>v\<in>set (view t). bref_wf (fst v)" using set_merge_view_fst unfolding view_def by blast
qed

lemma view_kid:
  "level_wf t count \<Longrightarrow> (b, Some c) \<in> set (view t) \<Longrightarrow> b = cn_bref c \<and> c \<in> set (cn_kids t)"
proof -
  have "(b, Some c) \<in> set (merge_view es ks) \<Longrightarrow> b = cn_bref c \<and> c \<in> set ks" for es ks
    by (induction es ks rule: merge_view.induct) (auto split: if_splits)
  then show "level_wf t count \<Longrightarrow> (b, Some c) \<in> set (view t) \<Longrightarrow> b = cn_bref c \<and> c \<in> set (cn_kids t)"
    by (simp add: view_def)
qed

definition from_key :: "ctree \<Rightarrow> u64 \<Rightarrow> (hammer2_blockref \<times> ctree option) list" where
  "from_key t k = dropWhile (\<lambda>v. \<not> ends_after k (fst v)) (view t)"

lemma from_key_0: "from_key t 0 = view t"
proof -
  have "ends_after 0 b" for b using bref_hi_pos[of b] by simp
  then show ?thesis by (simp add: from_key_def)
qed

lemma from_key_next:
  assumes wf: "level_wf t count" and f: "from_key t k = (b, c) # rs"
  shows "bref_next b \<noteq> 0 \<Longrightarrow> from_key t (bref_next b) = rs" "bref_next b = 0 \<Longrightarrow> rs = []" "(b, c) \<in> set (view t)"
    "\<forall>v\<in>set rs. bref_left b (fst v)"
proof -
  show m: "(b, c) \<in> set (view t)" using set_dropWhile_hd f by (metis from_key_def)
  have bw: "bref_wf b" using view_sorted(2)[OF wf] m by auto
  define pre where "pre = takeWhile (\<lambda>v. \<not> ends_after k (fst v)) (view t)"
  have split: "view t = pre @ (b, c) # rs" using f takeWhile_dropWhile_id[of "\<lambda>v. \<not> ends_after k (fst v)" "view t"]
    by (simp add: pre_def from_key_def)
  have so: "\<forall>v\<in>set pre. bref_left (fst v) b" "\<forall>v\<in>set rs. bref_left b (fst v)"
    using view_sorted(1)[OF wf] by (auto simp: split sorted_wrt_append)
  show "\<forall>v\<in>set rs. bref_left b (fst v)" by (rule so(2))
  show "rs = []" if "bref_next b = 0"
  proof (rule ccontr)
    assume "rs \<noteq> []"
    then obtain v where "v \<in> set rs" by (cases rs) auto
    then have "bref_hi b < 2 ^ 64" using so(2) unat_u64[of "br_key (fst v)"] by (auto simp: bref_left_def)
    then show False using bref_next_nonzero(2)[OF bw] that by simp
  qed
  show "from_key t (bref_next b) = rs" if nz: "bref_next b \<noteq> 0"
  proof -
    have n: "unat (bref_next b) = bref_hi b" by (rule bref_next_nonzero(1)[OF bw nz])
    have "\<forall>v\<in>set (pre @ [(b, c)]). \<not> ends_after (bref_next b) (fst v)"
      using so(1) n bref_hi_pos[of b] by (auto simp: bref_left_def)
    moreover have "\<forall>v\<in>set rs. ends_after (bref_next b) (fst v)"
      using so(2) n bref_hi_pos by (auto simp: bref_left_def intro: le_less_trans)
    ultimately have "dropWhile (\<lambda>v. \<not> ends_after (bref_next b) (fst v)) ((pre @ [(b, c)]) @ rs) = rs"
      by (simp add: dropWhile_append2 del: append_assoc) (cases rs; simp)
    then show ?thesis by (simp add: from_key_def split)
  qed
qed

lemma combined_find_from:
  assumes "level_wf t count"
  shows "\<exists>cache'. \<exists>next. hammer2_combined_find RB_TREE t count cache k (-1) =
    (case from_key t k of [] \<Rightarrow> Ok (None, None, cache', next) | (b, c) # _ \<Rightarrow> Ok (c, Some b, cache', bref_next b))"
proof -
  obtain cache' "next" where "hammer2_combined_find RB_TREE t count cache k (-1) =
    (case from_key t k of
       [] \<Rightarrow> Ok (None, None, cache', next)
     | (b, c) # _ \<Rightarrow> if br_key b \<le> -1 then Ok (c, Some b, cache', next_after b (-1 + 1)) else Ok (None, None, cache', next))"
    using combined_find_eq[OF assms, of cache k "-1"] unfolding from_key_def by blast
  moreover have "next_after b (-1 + 1) = bref_next b" for b by (simp add: next_after_def truncate_next_def)
  moreover have "(x :: u64) \<le> -1" for x by (rule word_order.extremum)
  ultimately show ?thesis by (auto split: list.splits)
qed

text \<open>No element found in memory is marked deleted.\<close>

lemma from_key_live:
  assumes "level_wf t count" "from_key t k = (b, Some c) # rs"
  shows "ch_flags (cn_chain c) AND 0x10 = 0" "b = cn_bref c"
  using view_kid[OF assms(1), of b c] from_key_next(3)[OF assms] level_sorted(3)[OF assms(1)]
  by (auto simp: kids_wf_def)

section \<open>Properties\<close>

lemma find_skip: "find (\<lambda>x. P x \<and> R x) xs = find (\<lambda>x. P x \<and> R x) (dropWhile (\<lambda>x. \<not> P x) xs)"
  by (induction xs) auto

lemma combined_find_spec:
  assumes "level_wf t count"
  shows "\<exists>cache' next. hammer2_combined_find RB_TREE t count cache key_beg key_end =
      (case find (\<lambda>v. unat key_beg < bref_hi (fst v) \<and> br_key (fst v) \<le> key_end) (view t) of
         None \<Rightarrow> Ok (None, None, cache', next)
       | Some (b, c) \<Rightarrow> Ok (c, Some b, cache', next_after b (key_end + 1))) \<and>
    hammer2_combined_find RB_STUB t count cache key_beg key_end = Fault ''info''"
proof -
  let ?P = "\<lambda>v. unat key_beg < bref_hi (fst v) \<and> br_key (fst v) \<le> key_end" and ?D = "dropWhile (\<lambda>v. \<not> ends_after key_beg (fst v)) (view t)"
  have stub: "hammer2_combined_find RB_STUB t count cache key_beg key_end = Fault ''info''"
    using base_find_level[OF assms, of cache "key_end + 1" key_beg key_end] by (auto simp: hammer2_combined_find_def hammer2_chain_find_def)
  obtain cache' "next" where cf: "hammer2_combined_find RB_TREE t count cache key_beg key_end =
    (case ?D of
       [] \<Rightarrow> Ok (None, None, cache', next)
     | (b, c) # _ \<Rightarrow> if br_key b \<le> key_end then Ok (c, Some b, cache', next_after b (key_end + 1)) else Ok (None, None, cache', next))"
    using combined_find_eq[OF assms] by blast
  have fd: "find ?P (view t) = find ?P ?D"
    by (rule find_skip)
  show ?thesis
  proof (cases ?D)
    case Nil
    then show ?thesis using cf fd stub by (auto simp del: dropWhile_eq_Nil_conv)
  next
    case (Cons v vs)
    obtain b c where v: "v = (b, c)" by (cases v)
    have e: "ends_after key_beg b" using Cons hd_dropWhile[of "\<lambda>v. \<not> ends_after key_beg (fst v)" "view t"]
      by (simp add: v dropWhile_eq_Cons_conv del: dropWhile_eq_Nil_conv)
    show ?thesis
    proof (cases "br_key b \<le> key_end")
      case True
      then show ?thesis using cf fd stub Cons v e by auto
    next
      case False
      have "\<forall>w\<in>set vs. bref_left b (fst w)" using from_key_next(4)[OF assms] Cons v by (simp add: from_key_def)
      then have "\<forall>w\<in>set vs. br_key b \<le> br_key (fst w)" using bref_hi_pos[of b] by (auto simp: bref_left_def word_le_unat intro: less_imp_le order_trans)
      then have "find ?P ?D = None" using False Cons v by (auto simp: find_None_iff)
      then show ?thesis using cf fd stub Cons v False by auto
    qed
  qed
qed

lemma combined_find_stub: "level_wf t count \<Longrightarrow> hammer2_combined_find RB_STUB t count cache key_beg key_end = Fault ''info''"
  using combined_find_spec by blast

text \<open>
  C19: Searching a level.  In a well-formed level \<open>hammer2_combined_find\<close>, with a working scan of
  the tree, returns the first element of the merged view whose key range meets
  \<open>key_beg\<close> to \<open>key_end\<close>, with its chain when it is in memory, and moves \<open>key_next\<close> to behind that
  element; when there is none it returns a null blockref.  None of its panics is reached.  As this
  port builds it, where the scan is empty and its helpers are called with a null pointer, it never
  returns.
\<close>

theorem combined_find_correct:
  assumes "level_wf t count"
  shows "\<exists>cache' next. hammer2_combined_find RB_TREE t count cache key_beg key_end =
      (case find (\<lambda>v. unat key_beg < bref_hi (fst v) \<and> br_key (fst v) \<le> key_end) (view t) of
         None \<Rightarrow> Ok (None, None, cache', next)
       | Some (b, c) \<Rightarrow> Ok (c, Some b, cache', next_after b (key_end + 1))) \<and>
    hammer2_combined_find RB_STUB t count cache key_beg key_end = Fault ''info''"
  by (rule combined_find_spec[OF assms])

text \<open>A level for the witnesses: a volume root whose eight slots are used, by blocks of 16 kB.\<close>

definition lv_bref :: "nat \<Rightarrow> hammer2_blockref" where
  "lv_bref i = blockref_zero\<lparr>br_type := HAMMER2_BREF_TYPE_DATA, br_key := of_nat (i * 16384), br_keybits := 14, br_data_off := 14\<rparr>"

definition lv_root :: ctree where
  "lv_root = CNode \<lparr>ch_bref = blockref_zero\<lparr>br_type := 255\<rparr>, ch_flags = 0, ch_bytes = 65536, core_live_zero = 8, core_flags = 2,
      core_live_count = 8, core_chain_count = 0, core_generation = 0\<rparr> (Some (map lv_bref [0..<8])) []"

lemma lv_bref_fields:
  assumes "i < 8"
  shows "br_type (lv_bref i) = 3" "unat (br_key (lv_bref i)) = i * 16384" "br_keybits (lv_bref i) = 14" "bref_hi (lv_bref i) = (i + 1) * 16384"
proof -
  have "unat (of_nat (i * 16384) :: u64) = i * 16384" by (rule unat_of_nat_small) (use assms in simp)
  then show "unat (br_key (lv_bref i)) = i * 16384" "bref_hi (lv_bref i) = (i + 1) * 16384" by (simp_all add: lv_bref_def bref_hi_def)
qed (simp_all add: lv_bref_def)

lemma lv_elems: "elems (map lv_bref [0..<8]) = map lv_bref [0..<8]"
  by (simp add: elems_def filter_id_conv lv_bref_fields)

lemma lv_level: "level_wf lv_root 8" "view lv_root = map (\<lambda>i. (lv_bref i, None)) [0..<8]"
proof -
  have "sorted_wrt bref_left (map lv_bref [0..<8])"
    by (simp add: sorted_wrt_map sorted_wrt_iff_nth_less bref_left_def lv_bref_fields)
  then show "level_wf lv_root 8"
    by (simp add: level_wf_def lv_root_def blocktable_wf_def ordered_elems_def lv_elems kids_wf_def overlay_ok_def bref_wf_def lv_bref_fields)
  have "merge_view xs [] = map (\<lambda>e. (e, None)) xs" for xs by (cases xs) auto
  then show "view lv_root = map (\<lambda>i. (lv_bref i, None)) [0..<8]" by (simp add: view_def base_elems_def lv_root_def lv_elems)
qed

theorem combined_find_correct_witness:
  "\<exists>cache' next. hammer2_combined_find RB_TREE lv_root 8 0 40000 (-1) =
      (case find (\<lambda>v. unat (40000 :: u64) < bref_hi (fst v) \<and> br_key (fst v) \<le> -1) (view lv_root) of
         None \<Rightarrow> Ok (None, None, cache', next)
       | Some (b, c) \<Rightarrow> Ok (c, Some b, cache', next_after b (-1 + 1))) \<and>
    hammer2_combined_find RB_STUB lv_root 8 0 40000 (-1) = Fault ''info''"
  by (rule combined_find_correct[OF lv_level(1)])

end
