(* ===== verification/H2_Indkey.thy ===== *)
theory H2_Indkey
  imports H2_Chain
begin

unbundle bit_operations_syntax

text \<open>
  The key range of a new indirect block: \<open>hammer2_chain_indkey_normal\<close> and
  \<open>hammer2_chain_indkey_freemap\<close> of \<^verbatim>\<open>hammer2_chain.c\<close>.  Both walk the elements of a full level;
  the first finds the smallest binary range that holds them all and the key to be created
  and takes one half of it, the second takes the next higher level of the freemap.

  The counters \<open>maxloops\<close> are kept: a loop that reaches zero panics.
\<close>

section \<open>The operations\<close>

function widen_bits :: "u64 \<Rightarrow> u64 \<Rightarrow> nat \<Rightarrow> nat" where
  "widen_bits key bkey nkeybits =
     (if nkeybits < 64 \<and> NOT (push_bit nkeybits 1 - 1) AND (key XOR bkey) \<noteq> 0
      then widen_bits key bkey (nkeybits + 1) else nkeybits)"
  by pat_completeness auto
termination by (relation "measure (\<lambda>(key, bkey, n). 64 - n)") auto

declare widen_bits.simps [simp del]

text \<open>One element: the new \<open>keybits\<close>, \<open>locount\<close> and \<open>hicount\<close>.  A shift by -1 or by 64 and more is undefined.\<close>

definition indkey_count :: "u64 \<Rightarrow> hammer2_blockref \<Rightarrow> nat \<times> nat \<times> nat \<Rightarrow> (nat \<times> nat \<times> nat) outcome" where
  "indkey_count key b = (\<lambda>(keybits, locount, hicount).
     let n0 = (if keybits < unat (br_keybits b) then unat (br_keybits b) else keybits);
         nkeybits = widen_bits key (br_key b) n0
     in if nkeybits = 0 \<or> nkeybits > 64 then Fault ''1 << (nkeybits - 1)''
        else let top = push_bit (nkeybits - 1) 1;
                 (lo, hi) = (if keybits \<noteq> nkeybits
                             then if top AND key \<noteq> 0 then (0, hicount + locount) else (locount + hicount, 0)
                             else (locount, hicount))
             in Ok (if top AND br_key b \<noteq> 0 then (nkeybits, lo, hi + 1) else (nkeybits, lo + 1, hi)))"

fun indkey_normal_loop ::
  "rb_build \<Rightarrow> ctree \<Rightarrow> nat \<Rightarrow> u64 \<Rightarrow> nat \<Rightarrow> int \<Rightarrow> u64 \<Rightarrow> nat \<times> nat \<times> nat \<Rightarrow> (nat \<times> nat \<times> nat) outcome" where
  "indkey_normal_loop build parent count key 0 cache key_beg st = Panic ''maxloops''"
| "indkey_normal_loop build parent count key (Suc maxloops) cache key_beg st =
     (if maxloops = 0 then Panic ''maxloops''
      else obind (hammer2_combined_find build parent count cache key_beg (-1)) (\<lambda>(chain, bref, cache', key_next).
        (case bref of
           None \<Rightarrow> Ok st
         | Some b \<Rightarrow>
             if (case chain of None \<Rightarrow> False | Some c \<Rightarrow> ch_flags (cn_chain c) AND 0x10 \<noteq> 0)
             then if key_next = 0 then Ok st else indkey_normal_loop build parent count key maxloops cache' key_next st
             else obind (indkey_count key b st) (\<lambda>st'.
                    if bref_next b = 0 then Ok st'
                    else indkey_normal_loop build parent count key maxloops cache' (bref_next b) st'))))"

definition hammer2_chain_indkey_normal :: "rb_build \<Rightarrow> bool \<Rightarrow> ctree \<Rightarrow> nat \<Rightarrow> u64 \<Rightarrow> nat \<Rightarrow> (u64 \<times> nat) outcome" where
  "hammer2_chain_indkey_normal build optimize parent count key keybits =
     obind (indkey_normal_loop build parent count key 300000 0 0 (keybits, 0, 0)) (\<lambda>(bits, locount, hicount).
       if bits = 0 then Fault ''1 << -1''
       else let n = bits - 1;
                high = (if optimize then hicount < locount \<and> hicount \<noteq> 0 else hicount > locount)
            in Ok (if high then key OR push_bit n 1 else key AND push_bit n (NOT 1), n))"

text \<open>The freemap: the smallest \<open>keybits\<close> and the lowest key that has it, then the next level.\<close>

fun indkey_freemap_loop ::
  "rb_build \<Rightarrow> ctree \<Rightarrow> nat \<Rightarrow> nat \<Rightarrow> int \<Rightarrow> u64 \<Rightarrow> u64 \<times> nat \<Rightarrow> (u64 \<times> nat) outcome" where
  "indkey_freemap_loop build parent count 0 cache key_beg st = Panic ''maxloops''"
| "indkey_freemap_loop build parent count (Suc maxloops) cache key_beg st =
     (if maxloops = 0 then Panic ''maxloops''
      else obind (hammer2_combined_find build parent count cache key_beg (-1)) (\<lambda>(chain, bref, cache', key_next).
        (case bref of
           None \<Rightarrow> Ok st
         | Some b \<Rightarrow>
             if (case chain of None \<Rightarrow> False | Some c \<Rightarrow> ch_flags (cn_chain c) AND 0x10 \<noteq> 0)
             then if key_next = 0 then Ok st else indkey_freemap_loop build parent count maxloops cache' key_next st
             else let (key, keybits) = st;
                      st' = (if keybits > unat (br_keybits b) then (br_key b, unat (br_keybits b))
                             else if keybits = unat (br_keybits b) \<and> br_key b < key then (br_key b, keybits)
                             else st)
                  in if bref_next b = 0 then Ok st'
                     else indkey_freemap_loop build parent count maxloops cache' (bref_next b) st')))"

definition hammer2_chain_indkey_freemap :: "rb_build \<Rightarrow> ctree \<Rightarrow> nat \<Rightarrow> u64 \<Rightarrow> (u64 \<times> nat) outcome" where
  "hammer2_chain_indkey_freemap build parent count key =
     obind (indkey_freemap_loop build parent count 300000 0 0 (key, 64)) (\<lambda>(key', keybits).
       if keybits = 21 then Ok (key', 31)
       else if keybits = 31 then Ok (key', 41)
       else if keybits = 41 then Ok (key', 51)
       else if keybits = 51 then Ok (key', 61)
       else if keybits = 61 then Panic ''hammer2_chain_indkey_freemap: level too high''
       else Panic ''hammer2_chain_indkey_freemap: bad radix'')"

section \<open>The loops as folds over the view\<close>

fun fold_outcome :: "('a \<Rightarrow> 's \<Rightarrow> 's outcome) \<Rightarrow> 'a list \<Rightarrow> 's \<Rightarrow> 's outcome" where
  "fold_outcome f [] s = Ok s"
| "fold_outcome f (x # xs) s = obind (f x s) (fold_outcome f xs)"

lemma fold_outcome_nil: "fold_outcome f [] = Ok"
  by (rule ext) simp

lemma indkey_normal_loop_eq:
  assumes wf: "level_wf t count"
  shows "length (from_key t k) + 1 < m \<Longrightarrow>
    indkey_normal_loop RB_TREE t count key m cache k st = fold_outcome (\<lambda>v. indkey_count key (fst v)) (from_key t k) st"
proof (induction m arbitrary: cache k st)
  case (Suc m)
  obtain cache' "next" where cf: "hammer2_combined_find RB_TREE t count cache k (-1) =
      (case from_key t k of [] \<Rightarrow> Ok (None, None, cache', next) | (b, c) # _ \<Rightarrow> Ok (c, Some b, cache', bref_next b))"
    using combined_find_from[OF wf] by blast
  show ?case
  proof (cases "from_key t k")
    case Nil
    then show ?thesis using Suc.prems cf by simp
  next
    case (Cons v rs)
    obtain b c where v: "v = (b, c)" by (cases v)
    note f = Cons[unfolded v] and fn = from_key_next[OF wf Cons[unfolded v]]
    have live: "\<not> (case c of None \<Rightarrow> False | Some c \<Rightarrow> ch_flags (cn_chain c) AND 0x10 \<noteq> 0)"
      using from_key_live[OF wf] f by (auto split: option.splits)
    have m: "m \<noteq> 0" using Suc.prems Cons by simp
    show ?thesis
    proof (cases "bref_next b = 0")
      case True
      then have "rs = []" using fn by simp
      moreover have "obind x Ok = x" for x :: "(nat \<times> nat \<times> nat) outcome" by (cases x) auto
      ultimately show ?thesis using f cf live m True by (simp add: fold_outcome_nil)
    next
      case False
      have "indkey_normal_loop RB_TREE t count key m cache' (bref_next b) st' = fold_outcome (\<lambda>v. indkey_count key (fst v)) rs st'" for st'
        using Suc.IH[of "bref_next b"] Suc.prems fn(1)[OF False] Cons by simp
      then have "indkey_normal_loop RB_TREE t count key m cache' (bref_next b) = fold_outcome (\<lambda>v. indkey_count key (fst v)) rs"
        by (intro ext)
      then show ?thesis using f cf live m False by simp
    qed
  qed
qed simp

section \<open>Binary ranges\<close>

definition agree :: "nat \<Rightarrow> u64 \<Rightarrow> u64 \<Rightarrow> bool" where
  "agree n a b \<longleftrightarrow> (\<forall>i. n \<le> i \<longrightarrow> bit a i = bit b i)"

lemma agree_mono: "agree n a b \<Longrightarrow> n \<le> m \<Longrightarrow> agree m a b"
  by (auto simp: agree_def)

lemma agree_sym: "agree n a b \<longleftrightarrow> agree n b a"
  by (auto simp: agree_def)

lemma agree_trans: "agree n a b \<Longrightarrow> agree n b c \<Longrightarrow> agree n a c"
  by (auto simp: agree_def)

lemma agree_64: "agree 64 a b"
  by (auto simp: agree_def dest: bit_imp_le_length)

lemma agree_test:
  assumes "n < 64"
  shows "NOT (push_bit n 1 - 1) AND (a XOR b) = (0 :: u64) \<longleftrightarrow> agree n a b"
proof -
  have m: "push_bit n 1 - 1 = (mask n :: u64)" by (simp add: mask_eq_exp_minus_1 push_bit_eq_mult)
  have "bit (NOT (mask n) AND (a XOR b)) i \<longleftrightarrow> n \<le> i \<and> i < 64 \<and> bit a i \<noteq> bit b i" for i
    by (auto simp: bit_simps dest: bit_imp_le_length)
  then have "NOT (mask n) AND (a XOR b) = 0 \<longleftrightarrow> (\<forall>i. \<not> (n \<le> i \<and> i < 64 \<and> bit a i \<noteq> bit b i))"
    by (auto simp: bit_eq_iff)
  moreover have "bit (w :: u64) i \<Longrightarrow> i < 64" for w i by (drule bit_imp_le_length) simp
  ultimately show ?thesis unfolding m agree_def by blast
qed

lemma agree_div: "agree n a b \<longleftrightarrow> unat a div 2 ^ n = unat b div 2 ^ n"
proof -
  have "agree n a b \<longleftrightarrow> drop_bit n a = drop_bit n b"
  proof
    assume "agree n a b"
    then show "drop_bit n a = drop_bit n b" by (intro bit_eqI) (simp add: agree_def bit_drop_bit_eq)
  next
    assume d: "drop_bit n a = drop_bit n b"
    have "bit a i = bit b i" if "n \<le> i" for i
    proof -
      have "bit (drop_bit n w) (i - n) = bit w i" for w :: u64 using that by (simp add: bit_drop_bit_eq)
      then show ?thesis using d by metis
    qed
    then show "agree n a b" by (simp add: agree_def)
  qed
  also have "\<dots> \<longleftrightarrow> unat (drop_bit n a) = unat (drop_bit n b)" by (auto intro: unat_eqI)
  finally show ?thesis by (simp add: unat_drop_bit)
qed

lemma agree_0: "agree 0 a b \<longleftrightarrow> a = b"
  by (auto simp: agree_div intro: unat_eqI)

lemma widen_bits_props:
  "n \<le> 64 \<Longrightarrow> n \<le> widen_bits a b n \<and> widen_bits a b n \<le> 64 \<and> agree (widen_bits a b n) a b"
proof (induction a b n rule: widen_bits.induct)
  case (1 a b n)
  show ?case
  proof (cases "n < 64")
    case True
    then show ?thesis using 1 agree_test[OF True, of a b] by (subst (1 2 3) widen_bits.simps) auto
  next
    case False
    then show ?thesis using 1 agree_64 by (subst (1 2 3) widen_bits.simps) auto
  qed
qed

lemma widen_bits_min: "n < widen_bits a b n \<Longrightarrow> \<not> agree (widen_bits a b n - 1) a b"
proof (induction a b n rule: widen_bits.induct)
  case (1 a b n)
  define c where "c \<longleftrightarrow> n < 64 \<and> NOT (push_bit n 1 - 1) AND (a XOR b) \<noteq> 0"
  have c: "c" using 1(2) by (auto simp: widen_bits.simps[of a b n] c_def split: if_splits)
  then have w: "widen_bits a b n = widen_bits a b (n + 1)" by (simp add: widen_bits.simps[of a b n] c_def)
  show ?case
  proof (cases "n + 1 < widen_bits a b (n + 1)")
    case True
    then show ?thesis using 1(1) c w by (simp add: c_def)
  next
    case False
    then have "widen_bits a b (n + 1) = n + 1" using widen_bits_props[of "n + 1" a b] c by (simp add: c_def)
    then show ?thesis using w c agree_test[of n a b] by (simp add: c_def)
  qed
qed

section \<open>The half of the range\<close>

text \<open>
  After the elements \<open>S\<close> the range \<open>(key, keybits)\<close> holds them all, and the two counters are
  the numbers of those in its lower and in its upper half.  It is no larger than it has to be.
\<close>

definition least_bits :: "u64 \<Rightarrow> nat \<Rightarrow> hammer2_blockref list \<Rightarrow> nat \<Rightarrow> bool" where
  "least_bits key keybits S K \<longleftrightarrow> K = keybits \<or> (\<exists>b\<in>set S. K = unat (br_keybits b) \<or> \<not> agree (K - 1) key (br_key b))"

definition indkey_inv :: "u64 \<Rightarrow> nat \<Rightarrow> hammer2_blockref list \<Rightarrow> nat \<times> nat \<times> nat \<Rightarrow> bool" where
  "indkey_inv key keybits S = (\<lambda>(K, lo, hi). keybits \<le> K \<and> K \<le> 64 \<and> (S \<noteq> [] \<longrightarrow> 0 < K) \<and>
     (\<forall>b\<in>set S. unat (br_keybits b) \<le> K \<and> agree K key (br_key b)) \<and>
     least_bits key keybits S K \<and>
     lo = length (filter (\<lambda>b. \<not> bit (br_key b) (K - 1)) S) \<and> hi = length (filter (\<lambda>b. bit (br_key b) (K - 1)) S))"

lemma top_bit_test: "n < 64 \<Longrightarrow> push_bit n 1 AND (w :: u64) \<noteq> 0 \<longleftrightarrow> bit w n"
  by (simp add: bit_iff_and_push_bit_not_eq_0 and.commute)

lemma indkey_count_inv:
  assumes inv: "indkey_inv key keybits S st" and b: "bref_wf b" "br_key b \<noteq> key"
  shows "\<exists>st'. indkey_count key b st = Ok st' \<and> indkey_inv key keybits (S @ [b]) st'"
proof -
  obtain K lo hi where st: "st = (K, lo, hi)" by (cases st)
  note I = inv[unfolded indkey_inv_def st prod.case]
  define n0 where "n0 = (if K < unat (br_keybits b) then unat (br_keybits b) else K)"
  define nk where "nk = widen_bits key (br_key b) n0"
  have n0: "n0 \<le> 64" "K \<le> n0" "unat (br_keybits b) \<le> n0" using I b by (auto simp: n0_def bref_wf_def)
  have nk: "n0 \<le> nk" "nk \<le> 64" "agree nk key (br_key b)" using widen_bits_props[OF n0(1)] by (auto simp: nk_def)
  have pos: "0 < nk" using nk(3) b(2) agree_0 by (metis gr0I)
  have top: "push_bit (nk - 1) 1 AND (w :: u64) \<noteq> 0 \<longleftrightarrow> bit w (nk - 1)" for w
    by (rule top_bit_test) (use nk pos in simp)
  have old: "bit (br_key x) (nk - 1) = bit key (nk - 1)" if "x \<in> set S" "K \<noteq> nk" for x
  proof -
    have "K \<le> nk - 1" using that n0 nk by simp
    then show ?thesis using I that by (auto simp: agree_def)
  qed
  have F: "filter (\<lambda>x. bit (br_key x) (nk - 1)) S = (if bit key (nk - 1) then S else [])"
    "filter (\<lambda>x. \<not> bit (br_key x) (nk - 1)) S = (if bit key (nk - 1) then [] else S)" if "K \<noteq> nk"
    using old[OF _ that] by (auto simp: filter_id_conv filter_empty_conv)
  have sum: "hi + lo = length S" using I sum_length_filter_compl[of "\<lambda>x. bit (br_key x) (K - 1)" S] by simp
  have all: "\<forall>x\<in>set (S @ [b]). unat (br_keybits x) \<le> nk \<and> agree nk key (br_key x)"
    using I n0 nk agree_mono by fastforce
  have least: "least_bits key keybits (S @ [b]) nk"
  proof (cases "nk = K")
    case True
    then show ?thesis using I by (auto simp: least_bits_def)
  next
    case False
    show ?thesis
    proof (cases "nk = n0")
      case True
      then show ?thesis using False by (auto simp: n0_def least_bits_def split: if_splits)
    next
      case False
      then show ?thesis using widen_bits_min[of n0 key "br_key b"] nk(1) by (auto simp: nk_def least_bits_def)
    qed
  qed
  show ?thesis
    unfolding st indkey_count_def indkey_inv_def Let_def prod.case n0_def[symmetric] nk_def[symmetric] top
    using pos nk n0 all least sum I F by auto
qed

lemma indkey_fold_inv:
  "indkey_inv key keybits S st \<Longrightarrow> \<forall>v\<in>set vs. bref_wf (fst v) \<and> br_key (fst v) \<noteq> key \<Longrightarrow>
   \<exists>st'. fold_outcome (\<lambda>v. indkey_count key (fst v)) vs st = Ok st' \<and> indkey_inv key keybits (S @ map fst vs) st'"
proof (induction vs arbitrary: S st)
  case (Cons v vs)
  then obtain st' where "indkey_count key (fst v) st = Ok st'" "indkey_inv key keybits (S @ [fst v]) st'"
    using indkey_count_inv by (metis list.set_intros(1))
  then show ?case using Cons.IH[of "S @ [fst v]" st'] Cons.prems by simp
qed simp

text \<open>The range of an element and of a chain to be created.\<close>

definition bref_aligned :: "hammer2_blockref \<Rightarrow> bool" where
  "bref_aligned b \<longleftrightarrow> 2 ^ unat (br_keybits b) dvd unat (br_key b)"

definition inside :: "u64 \<Rightarrow> nat \<Rightarrow> hammer2_blockref \<Rightarrow> bool" where
  "inside key n b \<longleftrightarrow> unat (br_keybits b) \<le> n \<and> unat (br_key b) div 2 ^ n = unat key div 2 ^ n"

definition outside :: "u64 \<Rightarrow> nat \<Rightarrow> hammer2_blockref \<Rightarrow> bool" where
  "outside key n b \<longleftrightarrow> bref_hi b \<le> unat key div 2 ^ n * 2 ^ n \<or> (unat key div 2 ^ n + 1) * 2 ^ n \<le> unat (br_key b)"

text \<open>Binary ranges are nested or disjoint.\<close>

lemma agree_inside: "agree n key (br_key b) \<Longrightarrow> unat (br_keybits b) \<le> n \<Longrightarrow> inside key n b"
  by (simp add: inside_def agree_div)

lemma aligned_range_split:
  fixes k m n key :: nat
  assumes "k \<le> n" "2 ^ k dvd m" "m div 2 ^ n \<noteq> key div 2 ^ n"
  shows "m + 2 ^ k \<le> key div 2 ^ n * 2 ^ n \<or> (key div 2 ^ n + 1) * 2 ^ n \<le> m"
proof (cases "m div 2 ^ n < key div 2 ^ n")
  case True
  obtain q where q: "m = 2 ^ k * q" using assms(2) by (auto elim: dvdE)
  have "(2 :: nat) ^ n = 2 ^ k * 2 ^ (n - k)" using assms(1) by (simp flip: power_add)
  then obtain r where r: "key div 2 ^ n * 2 ^ n = 2 ^ k * r" by (metis mult.left_commute)
  have "m < key div 2 ^ n * 2 ^ n" using True by (simp add: div_less_iff_less_mult)
  then have "q < r" using q r by simp
  then have "2 ^ k * (q + 1) \<le> 2 ^ k * r" by (intro mult_le_mono2) simp
  then show ?thesis using q r by simp
next
  case False
  then have "key div 2 ^ n + 1 \<le> m div 2 ^ n" using assms(3) by simp
  then have "(key div 2 ^ n + 1) * 2 ^ n \<le> m div 2 ^ n * 2 ^ n" by (rule mult_le_mono1)
  then show ?thesis using div_times_less_eq_dividend[of m "2 ^ n"] by linarith
qed

lemma inside_or_outside:
  assumes "bref_aligned b" "unat (br_keybits b) \<le> n"
  shows "inside key n b \<or> outside key n b"
  using aligned_range_split[OF assms(2) assms(1)[unfolded bref_aligned_def], of "unat key"] assms(2)
  by (auto simp: inside_def outside_def bref_hi_def)

lemma agree_inside_iff: "unat (br_keybits b) \<le> n \<Longrightarrow> inside key n b \<longleftrightarrow> agree n key (br_key b)"
  by (auto simp: inside_def agree_div)

lemma half_bits:
  fixes key :: u64
  assumes "n < 64"
  shows "agree n (key OR push_bit n 1) w \<longleftrightarrow> agree (n + 1) key w \<and> bit w n"
    "agree n (key AND push_bit n (NOT 1)) w \<longleftrightarrow> agree (n + 1) key w \<and> \<not> bit w n"
proof -
  have "bit (key OR push_bit n 1) i \<longleftrightarrow> bit key i \<or> i = n" for i
    using assms by (auto simp: bit_or_iff bit_exp_iff)
  moreover have "bit (key AND push_bit n (NOT 1)) i \<longleftrightarrow> bit key i \<and> n < i" for i
    using assms by (auto simp: bit_and_iff bit_push_bit_iff bit_not_iff bit_1_iff dest: bit_imp_le_length)
  moreover have "(\<forall>i. n \<le> i \<longrightarrow> P i) \<longleftrightarrow> P n \<and> (\<forall>i. n + 1 \<le> i \<longrightarrow> P i)" for P
    by (auto simp: le_eq_less_or_eq[of n] Suc_le_eq)
  ultimately show "agree n (key OR push_bit n 1) w \<longleftrightarrow> agree (n + 1) key w \<and> bit w n"
    "agree n (key AND push_bit n (NOT 1)) w \<longleftrightarrow> agree (n + 1) key w \<and> \<not> bit w n"
    by (auto simp: agree_def)
qed

lemma key_same_block:
  fixes m a :: nat
  assumes "2 ^ k dvd a" "m div 2 ^ k = a div 2 ^ k"
  shows "a \<le> m" "m < a + 2 ^ k"
proof -
  have "a = m div 2 ^ k * 2 ^ k" using assms by simp
  moreover have "m = m div 2 ^ k * 2 ^ k + m mod 2 ^ k" by (rule div_mult_mod_eq[symmetric])
  moreover have "m mod 2 ^ k < 2 ^ k" by simp
  ultimately show "a \<le> m" "m < a + 2 ^ k" by linarith+
qed

definition clear_of :: "u64 \<Rightarrow> nat \<Rightarrow> hammer2_blockref \<Rightarrow> bool" where
  "clear_of key keybits b \<longleftrightarrow> bref_hi b \<le> unat key \<or> unat key + 2 ^ keybits \<le> unat (br_key b)"

lemma clear_not_agree:
  assumes "clear_of key keybits b" "bref_aligned b" "2 ^ keybits dvd unat key"
  shows "\<not> agree (unat (br_keybits b)) key (br_key b)" "\<not> agree keybits key (br_key b)"
proof -
  show "\<not> agree (unat (br_keybits b)) key (br_key b)"
  proof
    assume "agree (unat (br_keybits b)) key (br_key b)"
    then have "unat (br_key b) \<le> unat key" "unat key < bref_hi b"
      using key_same_block[of "unat (br_keybits b)" "unat (br_key b)" "unat key"] assms(2) by (auto simp: agree_div bref_hi_def bref_aligned_def)
    moreover have "(0 :: nat) < 2 ^ keybits" by simp
    ultimately show False using assms(1) unfolding clear_of_def by linarith
  qed
  show "\<not> agree keybits key (br_key b)"
  proof
    assume "agree keybits key (br_key b)"
    then have "unat key \<le> unat (br_key b)" "unat (br_key b) < unat key + 2 ^ keybits"
      using key_same_block[of keybits "unat key" "unat (br_key b)"] assms(3) by (auto simp: agree_div)
    then show False using assms(1) bref_hi_pos[of b] by (auto simp: clear_of_def)
  qed
qed

text \<open>
  The range \<open>(key', n)\<close> of the new indirect block: every element is inside it or outside it, and
  so is the range to be created; with \<open>hammer2_indirect_optimize\<close> off it holds at least half of
  the elements.
\<close>

lemma indkey_normal_result:
  assumes wf: "level_wf t count" and ne: "view t \<noteq> []" and len: "length (view t) < 299998"
    and al: "\<forall>v\<in>set (view t). bref_aligned (fst v) \<and> clear_of key keybits (fst v)"
    and k: "2 ^ keybits dvd unat key" "keybits < 64"
  obtains K where "keybits < K" "K \<le> 64" "\<forall>v\<in>set (view t). unat (br_keybits (fst v)) < K \<and> agree K key (br_key (fst v))"
    "\<exists>v\<in>set (view t). \<not> agree (K - 1) key (br_key (fst v))"
    "hammer2_chain_indkey_normal RB_TREE optimize t count key keybits =
       (let lo = length (filter (\<lambda>v. \<not> bit (br_key (fst v)) (K - 1)) (view t));
            hi = length (filter (\<lambda>v. bit (br_key (fst v)) (K - 1)) (view t))
        in Ok (if (if optimize then hi < lo \<and> hi \<noteq> 0 else hi > lo)
               then key OR push_bit (K - 1) 1 else key AND push_bit (K - 1) (NOT 1), K - 1))"
proof -
  have el: "\<forall>v\<in>set (view t). bref_wf (fst v) \<and> br_key (fst v) \<noteq> key"
    using view_sorted(2)[OF wf] al clear_not_agree(2)[OF _ _ k(1)] by (metis agree_div)
  have "indkey_inv key keybits [] (keybits, 0, 0)" using k by (simp add: indkey_inv_def least_bits_def)
  from indkey_fold_inv[OF this el] obtain K lo hi where
    fo: "fold_outcome (\<lambda>v. indkey_count key (fst v)) (view t) (keybits, 0, 0) = Ok (K, lo, hi)"
    and inv: "indkey_inv key keybits (map fst (view t)) (K, lo, hi)" by auto
  have K: "K \<le> 64" "keybits \<le> K" "0 < K" "\<forall>v\<in>set (view t). unat (br_keybits (fst v)) \<le> K \<and> agree K key (br_key (fst v))"
    "lo = length (filter (\<lambda>v. \<not> bit (br_key (fst v)) (K - 1)) (view t))"
    "hi = length (filter (\<lambda>v. bit (br_key (fst v)) (K - 1)) (view t))"
    "K = keybits \<or> (\<exists>v\<in>set (view t). K = unat (br_keybits (fst v)) \<or> \<not> agree (K - 1) key (br_key (fst v)))"
    using inv ne by (auto simp: indkey_inv_def least_bits_def filter_map comp_def)
  have lt: "\<forall>v\<in>set (view t). unat (br_keybits (fst v)) < K"
    using K(4) al clear_not_agree(1)[OF _ _ k(1)] by (metis le_neq_implies_less)
  obtain v where "v \<in> set (view t)" using ne by (cases "view t") auto
  then have "keybits \<noteq> K" using K(4) al clear_not_agree(2)[OF _ _ k(1)] by auto
  moreover have "indkey_normal_loop RB_TREE t count key 300000 0 0 (keybits, 0, 0) = Ok (K, lo, hi)"
    using indkey_normal_loop_eq[OF wf, of 0 300000 key 0 "(keybits, 0, 0)"] len fo by (simp add: from_key_0 del: indkey_normal_loop.simps)
  moreover have "\<exists>v\<in>set (view t). \<not> agree (K - 1) key (br_key (fst v))"
    using K(7) lt \<open>keybits \<noteq> K\<close> by auto
  ultimately show ?thesis using that[of K] K lt
    by (simp add: hammer2_chain_indkey_normal_def Let_def del: indkey_normal_loop.simps)
qed

text \<open>The two counters are the numbers of elements in the two halves.\<close>

lemma half_elements:
  assumes K: "K \<le> 64" "0 < K" and el: "\<forall>v\<in>set vs. unat (br_keybits (fst v)) < K \<and> agree K key (br_key (fst v))"
  shows "filter (\<lambda>v. inside (key OR push_bit (K - 1) 1) (K - 1) (fst v)) vs = filter (\<lambda>v. bit (br_key (fst v)) (K - 1)) vs"
    "filter (\<lambda>v. inside (key AND push_bit (K - 1) (NOT 1)) (K - 1) (fst v)) vs = filter (\<lambda>v. \<not> bit (br_key (fst v)) (K - 1)) vs"
proof -
  have n: "K - 1 < 64" "K - 1 + 1 = K" using K by auto
  note h = half_bits[OF n(1), unfolded n(2)]
  have e: "unat (br_keybits (fst v)) \<le> K - 1" "agree K key (br_key (fst v))" if "v \<in> set vs" for v using el that by fastforce+
  show "filter (\<lambda>v. inside (key OR push_bit (K - 1) 1) (K - 1) (fst v)) vs = filter (\<lambda>v. bit (br_key (fst v)) (K - 1)) vs"
    by (rule filter_cong[OF refl]) (use e h(1)[of key] in \<open>simp add: agree_inside_iff del: push_bit_of_1\<close>)
  show "filter (\<lambda>v. inside (key AND push_bit (K - 1) (NOT 1)) (K - 1) (fst v)) vs = filter (\<lambda>v. \<not> bit (br_key (fst v)) (K - 1)) vs"
    by (rule filter_cong[OF refl]) (use e h(2)[of key] in \<open>simp only: agree_inside_iff simp_thms\<close>)
qed

lemma indkey_normal_ok:
  assumes "level_wf t count" "view t \<noteq> []" "length (view t) < 299998"
    "\<forall>v\<in>set (view t). bref_aligned (fst v) \<and> clear_of key keybits (fst v)"
    "2 ^ keybits dvd unat key" "keybits < 64"
  obtains key' n where "hammer2_chain_indkey_normal RB_TREE optimize t count key keybits = Ok (key', n)" "keybits \<le> n" "n < 64"
    "\<forall>v\<in>set (view t). unat (br_keybits (fst v)) \<le> n"
    "agree n key' key \<longrightarrow> (\<exists>v\<in>set (view t). \<not> inside key' n (fst v))"
    "\<not> optimize \<longrightarrow> length (view t) \<le> 2 * length (filter (\<lambda>v. inside key' n (fst v)) (view t))"
    "agree (n + 1) key key'" "\<forall>v\<in>set (view t). agree (n + 1) (br_key (fst v)) key'" "\<exists>v\<in>set (view t). \<not> agree n (br_key (fst v)) key"
proof -
  obtain K where K: "keybits < K" "K \<le> 64" "\<forall>v\<in>set (view t). unat (br_keybits (fst v)) < K \<and> agree K key (br_key (fst v))"
      "\<exists>v\<in>set (view t). \<not> agree (K - 1) key (br_key (fst v))"
    and res: "hammer2_chain_indkey_normal RB_TREE optimize t count key keybits =
       (let lo = length (filter (\<lambda>v. \<not> bit (br_key (fst v)) (K - 1)) (view t));
            hi = length (filter (\<lambda>v. bit (br_key (fst v)) (K - 1)) (view t))
        in Ok (if (if optimize then hi < lo \<and> hi \<noteq> 0 else hi > lo)
               then key OR push_bit (K - 1) 1 else key AND push_bit (K - 1) (NOT 1), K - 1))"
    by (rule indkey_normal_result[OF assms])
  obtain key' where key': "hammer2_chain_indkey_normal RB_TREE optimize t count key keybits = Ok (key', K - 1)"
    using res by (simp add: Let_def)
  have k0: "0 < K" using K(1) by simp
  have "length (view t) \<le> 2 * length (filter (\<lambda>v. inside key' (K - 1) (fst v)) (view t))" if "\<not> optimize"
  proof -
    let ?hi = "filter (\<lambda>v. bit (br_key (fst v)) (K - 1)) (view t)" and ?lo = "filter (\<lambda>v. \<not> bit (br_key (fst v)) (K - 1)) (view t)"
    have "filter (\<lambda>v. inside key' (K - 1) (fst v)) (view t) = (if length ?lo < length ?hi then ?hi else ?lo)"
    proof -
      have "key' = (if length ?lo < length ?hi then key OR push_bit (K - 1) 1 else key AND push_bit (K - 1) (NOT 1))"
        using res[unfolded key' Let_def if_not_P[OF that] outcome.inject prod.inject] by blast
      then show ?thesis by (simp only: half_elements[OF K(2) k0 K(3)] split: if_split) blast
    qed
    then show ?thesis using sum_length_filter_compl[of "\<lambda>v. bit (br_key (fst v)) (K - 1)" "view t"] by simp
  qed
  moreover have le: "\<forall>v\<in>set (view t). unat (br_keybits (fst v)) \<le> K - 1" using K(3) by fastforce
  moreover have "\<exists>v\<in>set (view t). \<not> inside key' (K - 1) (fst v)" if a: "agree (K - 1) key' key"
  proof -
    obtain v where v: "v \<in> set (view t)" "\<not> agree (K - 1) key (br_key (fst v))" using K(4) by blast
    then have "\<not> agree (K - 1) key' (br_key (fst v))" using a agree_trans agree_sym by blast
    then show ?thesis using v(1) le agree_inside_iff by blast
  qed
  moreover have n: "keybits \<le> K - 1" "K - 1 < 64" "K - 1 + 1 = K" using K(1,2) by simp_all
  moreover have h: "agree (K - 1 + 1) key key'"
  proof -
    have "key' = key OR push_bit (K - 1) 1 \<or> key' = key AND push_bit (K - 1) (NOT 1)" using res unfolding key' Let_def by (auto split: if_splits)
    then show ?thesis using half_bits[OF n(2), of key key'] by (elim disjE) (metis agree_def)+
  qed
  moreover have "\<forall>v\<in>set (view t). agree (K - 1 + 1) (br_key (fst v)) key'" using K(3) h unfolding n(3) by (meson agree_sym agree_trans)
  moreover have "\<exists>v\<in>set (view t). \<not> agree (K - 1) (br_key (fst v)) key" using K(4) agree_sym by blast
  ultimately show ?thesis using that[of key' "K - 1"] key' by blast
qed

lemma indkey_normal_stub: "level_wf t count \<Longrightarrow> hammer2_chain_indkey_normal RB_STUB optimize t count key keybits = Fault ''info''"
proof -
  assume "level_wf t count"
  then have "indkey_normal_loop RB_STUB t count key (Suc 299999) 0 0 st = Fault ''info''" for st
    unfolding indkey_normal_loop.simps by (simp add: combined_find_stub)
  then show ?thesis by (simp add: hammer2_chain_indkey_normal_def del: indkey_normal_loop.simps)
qed


section \<open>The freemap\<close>

text \<open>The smallest size on the level and the lowest key that has it.\<close>

definition least_elem :: "hammer2_blockref \<times> ctree option \<Rightarrow> u64 \<times> nat \<Rightarrow> u64 \<times> nat" where
  "least_elem v = (\<lambda>(key, keybits).
     if unat (br_keybits (fst v)) < keybits then (br_key (fst v), unat (br_keybits (fst v)))
     else if keybits = unat (br_keybits (fst v)) \<and> br_key (fst v) < key then (br_key (fst v), keybits)
     else (key, keybits))"

lemma indkey_freemap_loop_eq:
  assumes wf: "level_wf t count"
  shows "length (from_key t k) + 1 < m \<Longrightarrow>
    indkey_freemap_loop RB_TREE t count m cache k st = Ok (fold least_elem (from_key t k) st)"
proof (induction m arbitrary: cache k st)
  case (Suc m)
  obtain cache' "next" where cf: "hammer2_combined_find RB_TREE t count cache k (-1) =
      (case from_key t k of [] \<Rightarrow> Ok (None, None, cache', next) | (b, c) # _ \<Rightarrow> Ok (c, Some b, cache', bref_next b))"
    using combined_find_from[OF wf] by blast
  show ?case
  proof (cases "from_key t k")
    case Nil
    then show ?thesis using Suc.prems cf by simp
  next
    case (Cons v rs)
    obtain b c where v: "v = (b, c)" by (cases v)
    note f = Cons[unfolded v] and fn = from_key_next[OF wf Cons[unfolded v]]
    have live: "\<not> (case c of None \<Rightarrow> False | Some c \<Rightarrow> ch_flags (cn_chain c) AND 0x10 \<noteq> 0)"
      using from_key_live[OF wf] f by (auto split: option.splits)
    have m: "m \<noteq> 0" using Suc.prems Cons by simp
    obtain key keybits where st: "st = (key, keybits)" by (cases st)
    show ?thesis
    proof (cases "bref_next b = 0")
      case True
      then show ?thesis using f cf live m fn(2) by (simp add: st least_elem_def)
    next
      case False
      have "indkey_freemap_loop RB_TREE t count m cache' (bref_next b) st' = Ok (fold least_elem rs st')" for st'
        using Suc.IH[of "bref_next b"] Suc.prems fn(1)[OF False] Cons by simp
      moreover have "least_elem (b, c) st = (if unat (br_keybits b) < keybits then (br_key b, unat (br_keybits b))
        else if keybits = unat (br_keybits b) \<and> br_key b < key then (br_key b, keybits) else st)"
        by (simp add: st least_elem_def)
      ultimately show ?thesis using f cf live m False by (simp add: st)
    qed
  qed
qed simp

lemma fold_least_elem:
  assumes "vs \<noteq> []" "\<forall>v\<in>set vs. unat (br_keybits (fst v)) < 64"
  shows "\<exists>k n. fold least_elem vs (key, 64) = (k, n) \<and> (\<exists>v\<in>set vs. br_key (fst v) = k \<and> unat (br_keybits (fst v)) = n) \<and>
    (\<forall>v\<in>set vs. n < unat (br_keybits (fst v)) \<or> n = unat (br_keybits (fst v)) \<and> k \<le> br_key (fst v))"
  using assms
proof (induction vs rule: rev_induct)
  case (snoc v vs)
  show ?case
  proof (cases "vs = []")
    case True
    then show ?thesis using snoc.prems by (simp add: least_elem_def)
  next
    case False
    then obtain k n where f: "fold least_elem vs (key, 64) = (k, n)" "\<exists>v\<in>set vs. br_key (fst v) = k \<and> unat (br_keybits (fst v)) = n"
      "\<forall>v\<in>set vs. n < unat (br_keybits (fst v)) \<or> n = unat (br_keybits (fst v)) \<and> k \<le> br_key (fst v)"
      using snoc by auto
    have "fold least_elem (vs @ [v]) (key, 64) = least_elem v (k, n)" using f(1) by simp
    also have "\<dots> = (if unat (br_keybits (fst v)) < n then (br_key (fst v), unat (br_keybits (fst v)))
        else if n = unat (br_keybits (fst v)) \<and> br_key (fst v) < k then (br_key (fst v), n) else (k, n))" by (simp add: least_elem_def)
    finally show ?thesis using f(2,3) by (auto intro: less_imp_le order_trans)
  qed
qed simp

text \<open>
  The range of a new freemap node.  \<open>hammer2_chain_indkey_freemap\<close> takes the lowest element
  of the smallest size on the level and returns its key with the size of the next level of the
  freemap: leaves go below level-1 nodes, nodes below nodes of the next level.  It panics exactly
  when the smallest elements are level-4 nodes or have no size of the freemap.
\<close>

theorem indkey_freemap_correct:
  assumes "level_wf t count" "view t \<noteq> []" "length (view t) < 299998"
  shows "\<exists>v\<in>set (view t). (\<forall>w\<in>set (view t). br_keybits (fst v) < br_keybits (fst w) \<or>
        br_keybits (fst v) = br_keybits (fst w) \<and> br_key (fst v) \<le> br_key (fst w)) \<and>
      hammer2_chain_indkey_freemap RB_TREE t count key =
        (if unat (br_keybits (fst v)) \<in> {21, 31, 41, 51} then Ok (br_key (fst v), unat (br_keybits (fst v)) + 10)
         else if unat (br_keybits (fst v)) = 61 then Panic ''hammer2_chain_indkey_freemap: level too high''
         else Panic ''hammer2_chain_indkey_freemap: bad radix'')"
proof -
  have "\<forall>v\<in>set (view t). unat (br_keybits (fst v)) < 64" using view_sorted(2)[OF assms(1)] by (auto simp: bref_wf_def)
  from fold_least_elem[OF assms(2) this, of key] obtain v where v: "v \<in> set (view t)"
    "fold least_elem (view t) (key, 64) = (br_key (fst v), unat (br_keybits (fst v)))"
    "\<forall>w\<in>set (view t). unat (br_keybits (fst v)) < unat (br_keybits (fst w)) \<or>
       unat (br_keybits (fst v)) = unat (br_keybits (fst w)) \<and> br_key (fst v) \<le> br_key (fst w)" by blast
  have "indkey_freemap_loop RB_TREE t count 300000 0 0 (key, 64) = Ok (br_key (fst v), unat (br_keybits (fst v)))"
    using indkey_freemap_loop_eq[OF assms(1), of 0 300000 0 "(key, 64)"] assms(3) v(2)
    by (simp add: from_key_0 del: indkey_freemap_loop.simps)
  then have "hammer2_chain_indkey_freemap RB_TREE t count key =
        (if unat (br_keybits (fst v)) \<in> {21, 31, 41, 51} then Ok (br_key (fst v), unat (br_keybits (fst v)) + 10)
         else if unat (br_keybits (fst v)) = 61 then Panic ''hammer2_chain_indkey_freemap: level too high''
         else Panic ''hammer2_chain_indkey_freemap: bad radix'')"
    by (simp add: hammer2_chain_indkey_freemap_def del: indkey_freemap_loop.simps)
  moreover have "\<forall>w\<in>set (view t). br_keybits (fst v) < br_keybits (fst w) \<or>
        br_keybits (fst v) = br_keybits (fst w) \<and> br_key (fst v) \<le> br_key (fst w)"
    using v(3) by (auto simp: word_less_unat intro: unat_eqI)
  ultimately show ?thesis using v(1) by blast
qed

text \<open>The witnesses: creating the next block behind the eight of the full root.\<close>

lemma lv_clear: "\<forall>v\<in>set (view lv_root). bref_aligned (fst v) \<and> clear_of 131072 14 (fst v)"
  by (auto simp: lv_level bref_aligned_def clear_of_def lv_bref_fields)


end
