(* ===== verification/H2_Topology.thy ===== *)
theory H2_Topology
  imports H2_Indkey H2_Subr
begin

unbundle bit_operations_syntax

text \<open>
  The operations of \<^verbatim>\<open>hammer2_chain.c\<close> that change a level of the topology: chains are entered
  and removed, loaded from the block table, marked modified, and a full level is split by
  \<open>hammer2_chain_create_indirect\<close>, which \<open>hammer2_chain_create\<close> calls when there is no slot
  left.

  A chain is a \<open>ctree\<close>, so the operations return the changed tree.  A chain that is in no tree
  has a null \<open>parent\<close>.  \<open>cn_base\<close> is the block table in the data of a chain, \<open>None\<close> when the
  chain has no data; the data of file blocks and freemap leaves is not part of a level, and inodes
  flagged DIRECTDATA, which have no block table, are left out.  The functions run with their chains locked
  exclusively; reference counts, locks, memory accounting and the statistics of inodes are left
  out.  \<open>hammer2_chain_setflush\<close> goes up to the root: here it marks the chain it is called on,
  its path is modelled separately.
\<close>

section \<open>Flags\<close>

abbreviation (input) HAMMER2_CHAIN_MODIFIED :: u32 where "HAMMER2_CHAIN_MODIFIED \<equiv> 0x1"
abbreviation (input) HAMMER2_CHAIN_ALLOCATED :: u32 where "HAMMER2_CHAIN_ALLOCATED \<equiv> 0x2"
abbreviation (input) HAMMER2_CHAIN_DELETED :: u32 where "HAMMER2_CHAIN_DELETED \<equiv> 0x10"
abbreviation (input) HAMMER2_CHAIN_INITIAL :: u32 where "HAMMER2_CHAIN_INITIAL \<equiv> 0x20"
abbreviation (input) HAMMER2_CHAIN_UPDATE :: u32 where "HAMMER2_CHAIN_UPDATE \<equiv> 0x40"
abbreviation (input) HAMMER2_CHAIN_ONFLUSH :: u32 where "HAMMER2_CHAIN_ONFLUSH \<equiv> 0x200"
abbreviation (input) HAMMER2_CHAIN_ONRBTREE :: u32 where "HAMMER2_CHAIN_ONRBTREE \<equiv> 0x4000"
abbreviation (input) HAMMER2_CHAIN_PFSBOUNDARY :: u32 where "HAMMER2_CHAIN_PFSBOUNDARY \<equiv> 0x400000"
abbreviation (input) HAMMER2_BREF_TYPE_FREEMAP :: u8 where "HAMMER2_BREF_TYPE_FREEMAP \<equiv> 254"
abbreviation (input) HAMMER2_BREF_TYPE_VOLUME :: u8 where "HAMMER2_BREF_TYPE_VOLUME \<equiv> 255"

definition has :: "hammer2_chain \<Rightarrow> u32 \<Rightarrow> bool" where
  "has chain m \<longleftrightarrow> ch_flags chain AND m \<noteq> 0"

definition set_flag :: "u32 \<Rightarrow> hammer2_chain \<Rightarrow> hammer2_chain" where
  "set_flag m chain = chain\<lparr>ch_flags := ch_flags chain OR m\<rparr>"

definition clear_flag :: "u32 \<Rightarrow> hammer2_chain \<Rightarrow> hammer2_chain" where
  "clear_flag m chain = chain\<lparr>ch_flags := ch_flags chain AND NOT m\<rparr>"

abbreviation with_chain :: "(hammer2_chain \<Rightarrow> hammer2_chain) \<Rightarrow> ctree \<Rightarrow> ctree" where
  "with_chain f t \<equiv> CNode (f (cn_chain t)) (cn_base t) (cn_kids t)"

section \<open>The operations\<close>

text \<open>
  What the topology takes from the rest: the block the freemap allocates for a chain
  (\<open>hammer2_freemap_alloc\<close>; \<open>None\<close> is an allocation that failed and left \<open>data_off\<close> as it was, a result that
  \<open>hammer2_chain_modify\<close> ignores), and whether the device buffer of a block can be had.
\<close>

record chain_env =
  ev_alloc :: "hammer2_chain \<Rightarrow> u64 option outcome"
  ev_io_error :: "u64 \<Rightarrow> bool"

text \<open>The new flags of the chains from a chain to the root.\<close>

fun hammer2_chain_setflush :: "hammer2_chain list \<Rightarrow> hammer2_chain list" where
  "hammer2_chain_setflush [] = []"
| "hammer2_chain_setflush (chain # path) =
     (if has chain HAMMER2_CHAIN_ONFLUSH then chain # path
      else set_flag HAMMER2_CHAIN_ONFLUSH chain # hammer2_chain_setflush path)"

definition hammer2_chain_alloc :: "hammer2_blockref \<Rightarrow> hammer2_chain outcome" where
  "hammer2_chain_alloc bref =
     (let radix = unat (br_data_off bref AND HAMMER2_OFF_MASK_RADIX)
      in if radix \<ge> 32 then Fault ''1U << radix''
         else if br_type bref \<in> {HAMMER2_BREF_TYPE_INODE, HAMMER2_BREF_TYPE_INDIRECT, HAMMER2_BREF_TYPE_FREEMAP_NODE,
                                 HAMMER2_BREF_TYPE_DATA, HAMMER2_BREF_TYPE_FREEMAP_LEAF}
         then Ok \<lparr>ch_bref = bref,
                  ch_flags = (if br_flags bref AND HAMMER2_BREF_FLAG_PFSROOT \<noteq> 0
                              then HAMMER2_CHAIN_ALLOCATED OR HAMMER2_CHAIN_PFSBOUNDARY else HAMMER2_CHAIN_ALLOCATED),
                  ch_bytes = 2 ^ radix, core_live_zero = 0, core_flags = 0, core_live_count = 0,
                  core_chain_count = 0, core_generation = 0\<rparr>
         else if br_type bref \<in> {HAMMER2_BREF_TYPE_VOLUME, HAMMER2_BREF_TYPE_FREEMAP}
         then Panic ''hammer2_chain_alloc volume type illegal for op''
         else Panic ''hammer2_chain_alloc: unrecognized blockref type'')"

text \<open>\<open>RB_INSERT\<close>: \<open>None\<close> when the new chain collides with one in the tree.  \<open>RB_REMOVE\<close>.\<close>

fun rb_insert :: "ctree \<Rightarrow> ctree list \<Rightarrow> ctree list option" where
  "rb_insert chain [] = Some [chain]"
| "rb_insert chain (x # xs) =
     (if hammer2_chain_cmp chain x < 0 then Some (chain # x # xs)
      else if hammer2_chain_cmp chain x > 0 then map_option ((#) x) (rb_insert chain xs)
      else None)"

definition rb_remove :: "ctree \<Rightarrow> ctree list \<Rightarrow> ctree list" where
  "rb_remove chain ks = filter (\<lambda>k. br_key (cn_bref k) \<noteq> br_key (cn_bref chain)) ks"

text \<open>
  \<open>hammer2_chain_insert\<close>: \<open>race\<close> is the generation passed with INSERT_RACE, \<open>live\<close> INSERT_LIVE.  The
  result is the parent and the chain, or \<open>None\<close> for EAGAIN.
\<close>

definition hammer2_chain_insert :: "ctree \<Rightarrow> ctree \<Rightarrow> bool \<Rightarrow> u32 option \<Rightarrow> (ctree \<times> ctree) option outcome" where
  "hammer2_chain_insert parent chain live race =
     (if race \<noteq> None \<and> race \<noteq> Some (core_generation (cn_chain parent)) then Ok None
      else let chain' = with_chain (set_flag HAMMER2_CHAIN_ONRBTREE) chain;
               core = (cn_chain parent)\<lparr>core_chain_count := core_chain_count (cn_chain parent) + 1,
                                        core_generation := core_generation (cn_chain parent) + 1\<rparr>;
               core' = (if live then core\<lparr>core_live_count := core_live_count core + 1\<rparr> else core)
           in case rb_insert chain' (cn_kids parent) of
                None \<Rightarrow> Panic ''hammer2_chain_insert: collision''
              | Some ks \<Rightarrow> Ok (Some (CNode core' (cn_base parent) ks, chain')))"

text \<open>The chain of an element of the block table; \<open>None\<close> is a race lost.\<close>

definition hammer2_chain_get :: "ctree \<Rightarrow> u32 \<Rightarrow> hammer2_blockref \<Rightarrow> (ctree \<times> ctree) option outcome" where
  "hammer2_chain_get parent generation bref =
     obind (hammer2_chain_alloc bref) (\<lambda>chain.
       hammer2_chain_insert parent (CNode (set_flag HAMMER2_CHAIN_BMAPPED chain) None []) False (Some generation))"

text \<open>The number of slots of the block table of a chain.\<close>

definition table_count :: "hammer2_chain \<Rightarrow> nat outcome" where
  "table_count chain =
     (if br_type (ch_bref chain) \<in> {HAMMER2_BREF_TYPE_INODE, HAMMER2_BREF_TYPE_VOLUME, HAMMER2_BREF_TYPE_FREEMAP}
      then Ok HAMMER2_SET_COUNT
      else if br_type (ch_bref chain) \<in> {HAMMER2_BREF_TYPE_INDIRECT, HAMMER2_BREF_TYPE_FREEMAP_NODE}
      then Ok (ch_bytes chain div 64)
      else Panic ''unrecognized blockref type'')"

text \<open>The block table in the data of a new chain.\<close>

definition zero_table :: "hammer2_chain \<Rightarrow> hammer2_blockref list option" where
  "zero_table chain = (case table_count chain of Ok count \<Rightarrow> Some (replicate count blockref_zero) | _ \<Rightarrow> None)"

text \<open>
  \<open>hammer2_chain_modify\<close>, as these operations call it, with HAMMER2_MODIFY_OPTDATA.  A fresh
  buffer is zeroed when the chain is INITIAL, else the data is copied to it.
\<close>

definition hammer2_chain_modify :: "chain_env \<Rightarrow> ctree \<Rightarrow> ctree outcome" where
  "hammer2_chain_modify env t =
     (let chain = cn_chain t; type = br_type (ch_bref chain);
          root = (type \<in> {HAMMER2_BREF_TYPE_VOLUME, HAMMER2_BREF_TYPE_FREEMAP});
          newmod = (\<not> has chain HAMMER2_CHAIN_MODIFIED);
          chain1 = set_flag (HAMMER2_CHAIN_MODIFIED OR HAMMER2_CHAIN_UPDATE) chain
      in kkassert (type \<in> {HAMMER2_BREF_TYPE_FREEMAP_NODE, HAMMER2_BREF_TYPE_FREEMAP_LEAF} \<longrightarrow> has chain HAMMER2_CHAIN_INITIAL)
           ''INITIAL || !OPTDATA''
        (obind (if \<not> root \<and> (br_data_off (ch_bref chain) AND NOT HAMMER2_OFF_MASK_RADIX = 0 \<or> newmod)
                then obind (ev_alloc env chain1) (\<lambda>r. Ok (case r of None \<Rightarrow> chain1 | Some off \<Rightarrow> chain1\<lparr>ch_bref := (ch_bref chain1)\<lparr>br_data_off := off\<rparr>\<rparr>))
                else Ok chain1) (\<lambda>chain2.
           let chain3 = (if has chain2 HAMMER2_CHAIN_BMAPPED then set_flag HAMMER2_CHAIN_BMAPUPD chain2 else chain2);
               wasinitial = has chain3 HAMMER2_CHAIN_INITIAL;
               chain4 = clear_flag HAMMER2_CHAIN_INITIAL chain3
           in if type = HAMMER2_BREF_TYPE_DATA then Ok (CNode chain3 (cn_base t) (cn_kids t))
              else if root then Ok (CNode chain4 (cn_base t) (cn_kids t))
              else if type \<in> {HAMMER2_BREF_TYPE_INODE, HAMMER2_BREF_TYPE_FREEMAP_LEAF, HAMMER2_BREF_TYPE_INDIRECT,
                              HAMMER2_BREF_TYPE_FREEMAP_NODE}
              then kkassert (\<not> ev_io_error env (br_data_off (ch_bref chain4))) ''error == 0''
                (case cn_base t of
                   Some base \<Rightarrow> Ok (CNode chain4 (Some base) (cn_kids t))
                 | None \<Rightarrow> if wasinitial then Ok (CNode chain4 (zero_table chain4) (cn_kids t))
                           else Panic ''hammer2_chain_modify: having a COW'')
              else Panic ''hammer2_chain_modify: illegal non-embedded type'')))"

text \<open>
  The chain leaves the parent and its block table.  The result is the parent and the chain.
\<close>

definition unlink_core :: "ctree \<Rightarrow> ctree \<Rightarrow> ctree" where
  "unlink_core parent chain =
     CNode ((cn_chain parent)\<lparr>core_live_count := core_live_count (cn_chain parent) - 1,
                              core_generation := core_generation (cn_chain parent) + 1,
                              core_chain_count := core_chain_count (cn_chain parent) - 1\<rparr>)
       (cn_base parent) (rb_remove chain (cn_kids parent))"

definition hammer2_chain_delete_helper :: "chain_env \<Rightarrow> ctree \<Rightarrow> ctree \<Rightarrow> (ctree \<times> ctree) outcome" where
  "hammer2_chain_delete_helper env parent chain =
     kkassert (\<not> has (cn_chain chain) HAMMER2_CHAIN_DELETED) ''(chain->flags & DELETED) == 0''
       (let chain' = with_chain (clear_flag HAMMER2_CHAIN_ONRBTREE \<circ> set_flag HAMMER2_CHAIN_DELETED) chain
        in if has (cn_chain chain) HAMMER2_CHAIN_BMAPPED then
             kkassert (\<not> has (cn_chain parent) HAMMER2_CHAIN_INITIAL) ''(parent->flags & INITIAL) == 0''
               (obind (hammer2_chain_modify env parent) (\<lambda>parent1.
                  kkassert (has (cn_chain chain) HAMMER2_CHAIN_ONRBTREE) ''chain->flags & ONRBTREE''
                    (let parent2 = unlink_core parent1 chain
                     in obind (table_count (cn_chain parent2)) (\<lambda>count.
                          case cn_base parent2 of
                            None \<Rightarrow> Ok (parent2, chain')
                          | Some base \<Rightarrow>
                              obind (hammer2_base_delete (cn_chain parent2) base count (-1) (cn_chain chain'))
                                (\<lambda>(core, base', _, c). Ok (CNode core (Some base') (cn_kids parent2), with_chain (\<lambda>_. c) chain'))))))
           else if has (cn_chain chain) HAMMER2_CHAIN_ONRBTREE then Ok (unlink_core parent chain, chain')
           else Ok (parent, with_chain (set_flag HAMMER2_CHAIN_DELETED) chain))"

text \<open>Without HAMMER2_DELETE_PERMANENT; the chain has no parent any more when it is marked for the flush.\<close>

definition hammer2_chain_delete :: "chain_env \<Rightarrow> ctree \<Rightarrow> ctree \<Rightarrow> (ctree \<times> ctree) outcome" where
  "hammer2_chain_delete env parent chain =
     obind (if has (cn_chain chain) HAMMER2_CHAIN_DELETED then Ok (parent, chain)
            else hammer2_chain_delete_helper env parent chain)
       (\<lambda>(parent', chain'). Ok (parent', with_chain (set_flag HAMMER2_CHAIN_ONFLUSH) chain'))"

text \<open>
  The operations below take \<open>hammer2_chain_create\<close> for a chain that exists already: it returns the
  parent with the chain in it, the key of the new indirect block when \<open>*parentp\<close> has been
  replaced by one, and the chain.
\<close>

type_synonym create_fn = "ctree \<Rightarrow> ctree \<Rightarrow> (ctree \<times> u64 option \<times> ctree) outcome"

text \<open>\<open>hammer2_chain_rename\<close> with a null \<open>bref\<close>: the chain keeps its key.\<close>

definition hammer2_chain_rename :: "create_fn \<Rightarrow> ctree \<Rightarrow> ctree \<Rightarrow> (ctree \<times> u64 option) outcome" where
  "hammer2_chain_rename create parent chain =
     kkassert (\<not> has (cn_chain chain) HAMMER2_CHAIN_ONRBTREE) ''chain->parent == NULL''
       (obind (create parent chain) (\<lambda>(parent', nested, chain').
          kkassert (has (cn_chain chain') HAMMER2_CHAIN_UPDATE) ''chain->flags & UPDATE''
            (Ok (with_chain (set_flag HAMMER2_CHAIN_ONFLUSH) parent', nested))))"

text \<open>
  The loop that moves the elements of the range to the new indirect block.  The pointer \<open>base\<close> is
  computed before the loop: it dangles once the parent has been given a new buffer, and so a new
  \<open>data_off\<close>, by the \<open>hammer2_chain_modify\<close> of a delete.  A second new indirect block, inside the
  first, would replace the local variable \<open>ichain\<close>; this is left undefined.  The counter is that
  of the check for excessive loops, which is reached before \<open>maxloops\<close>.
\<close>

fun indirect_loop ::
  "rb_build \<Rightarrow> chain_env \<Rightarrow> create_fn \<Rightarrow> u64 \<Rightarrow> nat \<Rightarrow> u64 \<Rightarrow> nat \<Rightarrow> nat \<Rightarrow> int \<Rightarrow> u64 \<Rightarrow> ctree \<Rightarrow> ctree \<Rightarrow> (ctree \<times> ctree) outcome" where
  "indirect_loop build env create off count key keybits 0 cache key_beg parent ichain = Panic ''excessive loops''"
| "indirect_loop build env create off count key keybits (Suc loops) cache key_beg parent ichain =
     (if cn_base parent \<noteq> None \<and> br_data_off (cn_bref parent) \<noteq> off then Fault ''base''
      else obind (hammer2_combined_find build parent count cache key_beg (-1)) (\<lambda>(chain, bref, cache', _).
        (case bref of
           None \<Rightarrow> Ok (parent, ichain)
         | Some b \<Rightarrow>
             let next_key = (\<lambda>parent ichain.
                   if bref_next b = 0 then Ok (parent, ichain)
                   else indirect_loop build env create off count key keybits loops cache' (bref_next b) parent ichain)
             in if NOT (push_bit keybits 1 - 1) AND (key XOR br_key b) \<noteq> 0 then next_key parent ichain
                else obind (case chain of
                              Some c \<Rightarrow> Ok (Some (parent, c))
                            | None \<Rightarrow> hammer2_chain_get parent (core_generation (cn_chain parent)) b) (\<lambda>got.
                  (case got of
                     None \<Rightarrow> indirect_loop build env create off count key keybits loops cache' key_beg parent ichain
                   | Some (parent1, c) \<Rightarrow>
                       if has (cn_chain c) HAMMER2_CHAIN_DELETED then next_key parent1 ichain
                       else obind (hammer2_chain_delete env parent1 c) (\<lambda>(parent2, c2).
                              obind (hammer2_chain_rename create ichain c2) (\<lambda>(ichain', nested).
                                if nested \<noteq> None then Fault ''ichain'' else next_key parent2 ichain')))))))"

text \<open>
  \<open>hammer2_chain_create_indirect\<close>: the parent with the new indirect block, and the key of that
  block when it is the parent returned.
\<close>

definition hammer2_chain_create_indirect ::
  "rb_build \<Rightarrow> bool \<Rightarrow> chain_env \<Rightarrow> create_fn \<Rightarrow> ctree \<Rightarrow> u64 \<Rightarrow> nat \<Rightarrow> u8 \<Rightarrow> (ctree \<times> u64 option) outcome" where
  "hammer2_chain_create_indirect build optimize env create parent create_key create_bits for_type =
     obind (table_count (cn_chain parent)) (\<lambda>count.
       let initial = has (cn_chain parent) HAMMER2_CHAIN_INITIAL;
           parent0 = (if initial then CNode (cn_chain parent) None (cn_kids parent) else parent);
           freemap = (for_type \<in> {HAMMER2_BREF_TYPE_FREEMAP_NODE, HAMMER2_BREF_TYPE_FREEMAP_LEAF})
       in if \<not> initial \<and> cn_base parent = None \<and> br_type (cn_bref parent) = HAMMER2_BREF_TYPE_INODE then Fault ''parent->data''
          else obind (if freemap then hammer2_chain_indkey_freemap build parent0 count create_key
                      else hammer2_chain_indkey_normal build optimize parent0 count create_key create_bits) (\<lambda>(key1, keybits).
            let key = key1 AND NOT (push_bit keybits 1 - 1);
                nbytes0 = (if br_type (cn_bref parent) = HAMMER2_BREF_TYPE_INODE then HAMMER2_LBUFSIZE else HAMMER2_PBUFSIZE);
                nbytes = (if nbytes0 < count * 64 then count * 64 else nbytes0)
            in obind (hammer2_getradix (of_nat nbytes)) (\<lambda>radix.
               obind (hammer2_chain_alloc (blockref_zero
                        \<lparr>br_type := (if freemap then HAMMER2_BREF_TYPE_FREEMAP_NODE else HAMMER2_BREF_TYPE_INDIRECT),
                         br_key := key, br_keybits := of_nat keybits, br_data_off := of_nat radix,
                         br_methods := br_methods (cn_bref parent)\<rparr>)) (\<lambda>chain.
               obind (hammer2_chain_modify env (CNode (set_flag HAMMER2_CHAIN_INITIAL chain) None [])) (\<lambda>ichain0.
               obind (indirect_loop build env create (br_data_off (cn_bref parent)) count key keybits 100000 0 0 parent0 ichain0)
                 (\<lambda>(parent1, ichain).
               kkassert (\<not> has (cn_chain ichain) HAMMER2_CHAIN_ONRBTREE) ''(ichain->flags & ONRBTREE) == 0''
                 (obind (hammer2_chain_insert parent1 (with_chain (set_flag HAMMER2_CHAIN_ONFLUSH) ichain) True None) (\<lambda>ins.
                    (case ins of
                       None \<Rightarrow> Fault ''EAGAIN''
                     | Some (parent2, _) \<Rightarrow>
                         Ok (with_chain (set_flag HAMMER2_CHAIN_ONFLUSH) parent2,
                             if NOT (push_bit keybits 1 - 1) AND (create_key XOR key) \<noteq> 0 then None else Some key))))))))))"

text \<open>
  \<open>hammer2_chain_create\<close> from the label \<open>again\<close>, with its countdown \<open>maxloops\<close>; the calls through
  \<open>hammer2_chain_create_indirect\<close> use the same countdown.  An existing chain is reattached with
  \<open>reattach\<close>.
\<close>

definition reattach :: "u64 \<Rightarrow> u8 \<Rightarrow> ctree \<Rightarrow> ctree" where
  "reattach key keybits chain =
     with_chain (\<lambda>c. clear_flag HAMMER2_CHAIN_DELETED (c\<lparr>ch_bref := (ch_bref c)\<lparr>br_key := key, br_keybits := keybits\<rparr>\<rparr>)) chain"

definition replace_kid :: "ctree \<Rightarrow> ctree \<Rightarrow> ctree" where
  "replace_kid k parent =
     CNode (cn_chain parent) (cn_base parent) (map (\<lambda>x. if br_key (cn_bref x) = br_key (cn_bref k) then k else x) (cn_kids parent))"

fun create_again :: "rb_build \<Rightarrow> bool \<Rightarrow> chain_env \<Rightarrow> nat \<Rightarrow> u8 \<Rightarrow> bool \<Rightarrow> create_fn" where
  "create_again build optimize env 0 type allocated parent chain = Panic ''hammer2_chain_create: maxloops''"
| "create_again build optimize env (Suc maxloops) type allocated parent chain =
     obind (table_count (cn_chain parent)) (\<lambda>count.
       let ptype = br_type (cn_bref parent);
           base = (if ptype \<in> {HAMMER2_BREF_TYPE_INDIRECT, HAMMER2_BREF_TYPE_FREEMAP_NODE} \<and> has (cn_chain parent) HAMMER2_CHAIN_INITIAL
                   then None else cn_base parent);
           parent1 = with_chain (\<lambda>c. hammer2_chain_countbrefs c base count) parent
       in if ptype = HAMMER2_BREF_TYPE_INODE \<and> cn_base parent = None then Fault ''parent->data''
          else kkassert (ptype \<in> {HAMMER2_BREF_TYPE_VOLUME, HAMMER2_BREF_TYPE_FREEMAP} \<longrightarrow> cn_base parent \<noteq> None) ''parent->data != NULL''
            (kkassert (unat (core_live_count (cn_chain parent1)) \<le> count) ''live_count <= count''
              (if unat (core_live_count (cn_chain parent1)) = count then
                 obind (hammer2_chain_create_indirect build optimize env
                          (\<lambda>p c. create_again build optimize env maxloops (br_type (cn_bref c)) False p
                                   (reattach (br_key (cn_bref c)) (br_keybits (cn_bref c)) c))
                          parent1 (br_key (cn_bref chain)) (unat (br_keybits (cn_bref chain))) type) (\<lambda>(parent2, sub).
                   (case sub of
                      None \<Rightarrow> create_again build optimize env maxloops type allocated parent2 chain
                    | Some k \<Rightarrow>
                        (case find (\<lambda>x. br_key (cn_bref x) = k) (cn_kids parent2) of
                           None \<Rightarrow> Fault ''nparent''
                         | Some ichain \<Rightarrow>
                             obind (create_again build optimize env maxloops type allocated ichain chain) (\<lambda>(ichain', _, chain').
                               Ok (replace_kid ichain' parent2, Some k, chain')))))
               else
                 obind (hammer2_chain_insert parent1 chain True None) (\<lambda>ins.
                   (case ins of
                      None \<Rightarrow> Fault ''EAGAIN''
                    | Some (parent2, chain1) \<Rightarrow>
                        obind (if allocated then
                                 (if br_type (cn_bref chain1) \<in> {HAMMER2_BREF_TYPE_DATA, HAMMER2_BREF_TYPE_FREEMAP_LEAF, HAMMER2_BREF_TYPE_INODE}
                                  then hammer2_chain_modify env chain1 else Panic ''hammer2_chain_create: bad type'')
                               else Ok (with_chain (set_flag HAMMER2_CHAIN_UPDATE) chain1)) (\<lambda>chain2.
                          Ok (with_chain (set_flag HAMMER2_CHAIN_ONFLUSH) (replace_kid chain2 parent2), None, chain2)))))))"

declare create_again.simps [simp del] indirect_loop.simps [simp del]

text \<open>\<open>hammer2_chain_create\<close>: a new chain, or an existing one that is reattached.\<close>

definition hammer2_chain_create ::
  "rb_build \<Rightarrow> bool \<Rightarrow> chain_env \<Rightarrow> ctree \<Rightarrow> ctree option \<Rightarrow> u64 \<Rightarrow> u8 \<Rightarrow> u8 \<Rightarrow> u64 \<Rightarrow> (ctree \<times> u64 option \<times> ctree) outcome" where
  "hammer2_chain_create build optimize env parent chain key keybits type bytes =
     (case chain of
        Some c \<Rightarrow>
          kkassert (\<not> has (cn_chain c) HAMMER2_CHAIN_ONRBTREE) ''chain->parent == NULL''
            (create_again build optimize env 299999 type False parent (reattach key keybits c))
      | None \<Rightarrow>
          obind (hammer2_getradix bytes) (\<lambda>radix.
          obind (hammer2_chain_alloc (blockref_zero\<lparr>br_type := type, br_key := key, br_keybits := keybits,
                   br_data_off := of_nat radix, br_methods := br_methods (cn_bref parent)\<rparr>)) (\<lambda>c.
            if type = HAMMER2_BREF_TYPE_INDIRECT then Panic ''hammer2_chain_create: cannot be used to create indirect block''
            else if type = HAMMER2_BREF_TYPE_FREEMAP_NODE then Panic ''hammer2_chain_create: cannot be used to create freemap root or node''
            else kkassert (type = HAMMER2_BREF_TYPE_FREEMAP_LEAF \<longrightarrow> ch_bytes c = 65536) ''bytes == sizeof(chain->data->bmdata)''
              (create_again build optimize env 299999 type True parent (CNode (set_flag HAMMER2_CHAIN_INITIAL c) None [])))))"

end
