(* ===== verification/H2_Level.thy ===== *)
theory H2_Level
  imports H2_Topology
begin

unbundle bit_operations_syntax

text \<open>
  The operations on a level in terms of its elements: \<open>brefs\<close> is the list of the block
  references of a level in key order, whether they are in memory or in the block table only.
  Loading an element leaves it unchanged, a deletion removes one, an insertion enters one.
\<close>

section \<open>Flags\<close>

named_theorems flag_simps \<open>tests of flags after changes of flags\<close>

lemma has_set_flag [flag_simps]: "has (set_flag m c) b \<longleftrightarrow> has c b \<or> m AND b \<noteq> 0"
  by (simp add: has_def set_flag_def bit.conj_disj_distrib2 word_or_eq_0)

lemma has_clear_flag [flag_simps]: "has (clear_flag m c) b \<longleftrightarrow> ch_flags c AND (NOT m AND b) \<noteq> 0"
  by (simp add: has_def clear_flag_def and.assoc)

lemma has_flags [flag_simps]: "ch_flags c AND b \<noteq> 0 \<longleftrightarrow> has c b" "ch_flags c AND b = 0 \<longleftrightarrow> \<not> has c b"
  by (simp_all add: has_def)

lemma flag_fields [simp]:
  "ch_bref (set_flag m c) = ch_bref c" "ch_bref (clear_flag m c) = ch_bref c"
  "ch_bytes (set_flag m c) = ch_bytes c" "ch_bytes (clear_flag m c) = ch_bytes c"
  "core_flags (set_flag m c) = core_flags c" "core_flags (clear_flag m c) = core_flags c"
  "core_live_zero (set_flag m c) = core_live_zero c" "core_live_zero (clear_flag m c) = core_live_zero c"
  "core_live_count (set_flag m c) = core_live_count c" "core_live_count (clear_flag m c) = core_live_count c"
  "core_generation (set_flag m c) = core_generation c" "core_generation (clear_flag m c) = core_generation c"
  by (simp_all add: set_flag_def clear_flag_def)

lemma core_updates [simp]:
  "has (c\<lparr>core_live_count := x\<rparr>) m = has c m" "has (c\<lparr>core_generation := y\<rparr>) m = has c m"
  "has (c\<lparr>core_chain_count := x\<rparr>) m = has c m" "has (c\<lparr>core_live_zero := z\<rparr>) m = has c m"
  "table_count (c\<lparr>core_live_count := x\<rparr>) = table_count c" "table_count (c\<lparr>core_generation := y\<rparr>) = table_count c"
  "table_count (c\<lparr>core_chain_count := x\<rparr>) = table_count c" "table_count (c\<lparr>core_live_zero := z\<rparr>) = table_count c"
  "table_count (c\<lparr>ch_flags := f\<rparr>) = table_count c"
  "table_count (set_flag m c) = table_count c" "table_count (clear_flag m c) = table_count c"
  by (simp_all add: has_def table_count_def)

section \<open>The elements of a level\<close>

abbreviation brefs :: "ctree \<Rightarrow> hammer2_blockref list" where "brefs t \<equiv> map fst (view t)"

lemma bref_left_key: "bref_left a b \<Longrightarrow> br_key a < br_key b"
  using bref_hi_pos[of a] by (simp add: bref_left_def word_less_unat)

lemma left_sorted_unique:
  "sorted_wrt bref_left xs \<Longrightarrow> sorted_wrt bref_left ys \<Longrightarrow> set xs = set ys \<Longrightarrow> xs = ys"
proof (induction xs arbitrary: ys)
  case (Cons x xs)
  obtain y ys' where ys: "ys = y # ys'" using Cons.prems by (cases ys) auto
  have asym: "\<not> (bref_left a b \<and> bref_left b a)" for a b using bref_left_trans bref_left_irrefl by blast
  have xy: "x = y"
  proof (rule ccontr)
    assume "x \<noteq> y"
    then have "x \<in> set ys'" "y \<in> set xs" using Cons.prems(3) ys by auto
    then show False using Cons.prems(1,2) ys asym by auto
  qed
  have "x \<notin> set xs" "y \<notin> set ys'" using Cons.prems(1,2) ys bref_left_irrefl by auto
  then have "set xs = set ys'" using Cons.prems(3) ys xy by auto
  then show ?case using Cons.IH[of ys'] Cons.prems(1,2) ys xy by simp
qed simp

lemma set_merge_view:
  "sorted_wrt bref_left es \<Longrightarrow> kids_wf ks \<Longrightarrow>
   fst ` set (merge_view es ks) = cn_bref ` set ks \<union> {e \<in> set es. \<forall>k\<in>set ks. br_key (cn_bref k) \<noteq> br_key e}"
proof (induction es ks rule: merge_view.induct)
  case (1 ks)
  then show ?case by (auto simp: image_iff)
next
  case (2 e es)
  then show ?case by (auto simp: image_iff)
next
  case (3 e es k ks)
  have es: "sorted_wrt bref_left es" "\<And>b. b \<in> set es \<Longrightarrow> br_key e < br_key b" using 3(4) bref_left_key by auto
  have ks: "kids_wf ks" "\<And>c. c \<in> set ks \<Longrightarrow> br_key (cn_bref k) < br_key (cn_bref c)"
    using 3(5) bref_left_key by (auto simp: kids_wf_def)
  show ?case
  proof (cases "br_key (cn_bref k) = br_key e")
    case True
    have "br_key (cn_bref k) \<noteq> br_key x" if "x \<in> set es" for x using es(2)[OF that] True by simp
    then have "{x \<in> set (e # es). \<forall>c\<in>set (k # ks). br_key (cn_bref c) \<noteq> br_key x} =
      {x \<in> set es. \<forall>c\<in>set ks. br_key (cn_bref c) \<noteq> br_key x}" using True by auto
    then show ?thesis using 3(1)[OF True es(1) ks(1)] True by simp
  next
    case F: False
    show ?thesis
    proof (cases "br_key (cn_bref k) < br_key e")
      case True
      have "br_key (cn_bref k) \<noteq> br_key x" if "x \<in> set (e # es)" for x using es(2)[of x] True that by auto
      then have "{x \<in> set (e # es). \<forall>c\<in>set (k # ks). br_key (cn_bref c) \<noteq> br_key x} =
        {x \<in> set (e # es). \<forall>c\<in>set ks. br_key (cn_bref c) \<noteq> br_key x}" by auto
      then show ?thesis using F True 3(2)[OF F True 3(4) ks(1)] by simp
    next
      case False
      then have "br_key e < br_key (cn_bref k)" using F by simp
      then have "\<forall>c\<in>set (k # ks). br_key (cn_bref c) \<noteq> br_key e" using ks(2) by fastforce
      then have "{x \<in> set (e # es). \<forall>c\<in>set (k # ks). br_key (cn_bref c) \<noteq> br_key x} =
        insert e {x \<in> set es. \<forall>c\<in>set (k # ks). br_key (cn_bref c) \<noteq> br_key x}" by auto
      then show ?thesis using F False 3(3)[OF F False es(1) 3(5)] by simp
    qed
  qed
qed

lemma set_brefs:
  assumes "level_wf t count"
  shows "set (brefs t) = cn_bref ` set (cn_kids t) \<union> {e \<in> set (base_elems t). \<forall>k\<in>set (cn_kids t). br_key (cn_bref k) \<noteq> br_key e}"
  using set_merge_view[OF level_sorted(1,3)[OF assms]] by (simp add: view_def)

lemma brefs_sorted: "level_wf t count \<Longrightarrow> sorted_wrt bref_left (brefs t)"
  by (rule view_sorted)

lemma brefs_eqI:
  "level_wf t count \<Longrightarrow> sorted_wrt bref_left xs \<Longrightarrow> set (brefs t) = set xs \<Longrightarrow> brefs t = xs"
  by (intro left_sorted_unique brefs_sorted)

section \<open>The tree of a level\<close>

lemma chain_cmp_left:
  assumes "bref_wf (cn_bref a)" "bref_wf (cn_bref b)"
  shows "hammer2_chain_cmp a b < 0 \<longleftrightarrow> bref_left (cn_bref a) (cn_bref b)"
    "hammer2_chain_cmp a b > 0 \<longleftrightarrow> bref_left (cn_bref b) (cn_bref a)"
proof -
  have lt: "bref_end (cn_bref x) < br_key (cn_bref y) \<longleftrightarrow> bref_left (cn_bref x) (cn_bref y)" if "bref_wf (cn_bref x)" for x y
    using unat_bref_end[OF that] bref_hi_pos[of "cn_bref x"] by (auto simp: word_less_unat bref_left_def)
  have "\<not> (bref_left (cn_bref a) (cn_bref b) \<and> bref_left (cn_bref b) (cn_bref a))"
    using bref_left_trans bref_left_irrefl by blast
  then show "hammer2_chain_cmp a b < 0 \<longleftrightarrow> bref_left (cn_bref a) (cn_bref b)"
    "hammer2_chain_cmp a b > 0 \<longleftrightarrow> bref_left (cn_bref b) (cn_bref a)"
    using lt[OF assms(1), of b] lt[OF assms(2), of a] by (auto simp: hammer2_chain_cmp_def)
qed

lemma rb_insert_ok:
  assumes "bref_wf (cn_bref c)" "\<not> has (cn_chain c) HAMMER2_CHAIN_DELETED"
  shows "kids_wf ks \<Longrightarrow> \<forall>k\<in>set ks. bref_left (cn_bref c) (cn_bref k) \<or> bref_left (cn_bref k) (cn_bref c) \<Longrightarrow>
    \<exists>ks'. rb_insert c ks = Some ks' \<and> set ks' = insert c (set ks) \<and> kids_wf ks'"
proof (induction ks)
  case Nil
  then show ?case using assms by (simp add: kids_wf_def has_def)
next
  case (Cons k ks)
  have k: "bref_wf (cn_bref k)" "kids_wf ks" "\<And>x. x \<in> set ks \<Longrightarrow> bref_left (cn_bref k) (cn_bref x)"
    using Cons.prems(1) by (auto simp: kids_wf_def)
  show ?case
  proof (cases "bref_left (cn_bref c) (cn_bref k)")
    case True
    have "\<forall>x\<in>set ks. bref_left (cn_bref c) (cn_bref x)" using True k(3) bref_left_trans by blast
    then show ?thesis using Cons.prems(1) True assms chain_cmp_left(1)[OF assms(1) k(1)] by (simp add: kids_wf_def has_def)
  next
    case False
    then have kc: "bref_left (cn_bref k) (cn_bref c)" using Cons.prems(2) by simp
    obtain ks' where ks': "rb_insert c ks = Some ks'" "set ks' = insert c (set ks)" "kids_wf ks'"
      using Cons.IH k(2) Cons.prems(2) by auto
    then have "kids_wf (k # ks')" using k kc Cons.prems(1) by (auto simp: kids_wf_def)
    then show ?thesis using ks' chain_cmp_left[OF assms(1) k(1)] False kc by auto
  qed
qed

lemma left_sorted_pair:
  "sorted_wrt bref_left xs \<Longrightarrow> a \<in> set xs \<Longrightarrow> b \<in> set xs \<Longrightarrow> a = b \<or> bref_left a b \<or> bref_left b a"
  by (induction xs) auto

lemma left_sorted_key:
  "sorted_wrt bref_left xs \<Longrightarrow> a \<in> set xs \<Longrightarrow> b \<in> set xs \<Longrightarrow> br_key a = br_key b \<Longrightarrow> a = b"
  using left_sorted_pair bref_left_key by (metis less_irrefl)

section \<open>Well-formed levels\<close>

text \<open>
  A chain in memory is flagged BMAPPED when the block table has its element; \<open>live_count\<close> is the
  number of elements.
\<close>

definition mapped_ok :: "hammer2_blockref list \<Rightarrow> ctree list \<Rightarrow> bool" where
  "mapped_ok es ks \<longleftrightarrow> (\<forall>k\<in>set ks. has (cn_chain k) HAMMER2_CHAIN_ONRBTREE \<and>
     (has (cn_chain k) HAMMER2_CHAIN_BMAPPED \<longleftrightarrow> (\<exists>e\<in>set es. br_key e = br_key (cn_bref k))))"

definition level_ok :: "ctree \<Rightarrow> nat \<Rightarrow> bool" where
  "level_ok t count \<longleftrightarrow> level_wf t count \<and> mapped_ok (base_elems t) (cn_kids t) \<and>
     unat (core_live_count (cn_chain t)) = length (view t) \<and> table_count (cn_chain t) = Ok count \<and> count < 2 ^ 31 \<and>
     (has (cn_chain t) HAMMER2_CHAIN_INITIAL \<longrightarrow> cn_base t = None)"

lemma level_okD:
  assumes "level_ok t count"
  shows "level_wf t count" "mapped_ok (base_elems t) (cn_kids t)" "unat (core_live_count (cn_chain t)) = length (view t)"
    "table_count (cn_chain t) = Ok count" "count < 2 ^ 31" "has (cn_chain t) HAMMER2_CHAIN_INITIAL \<Longrightarrow> cn_base t = None"
  using assms by (auto simp: level_ok_def)

lemma view_None:
  "sorted_wrt bref_left es \<Longrightarrow> kids_wf ks \<Longrightarrow> (b, None) \<in> set (merge_view es ks) \<Longrightarrow>
   b \<in> set es \<and> (\<forall>k\<in>set ks. br_key (cn_bref k) \<noteq> br_key b)"
proof (induction es ks rule: merge_view.induct)
  case (3 e es k ks)
  have es: "sorted_wrt bref_left es" "\<And>b. b \<in> set es \<Longrightarrow> br_key e < br_key b" using 3(4) bref_left_key by auto
  have ks: "kids_wf ks" "\<And>c. c \<in> set ks \<Longrightarrow> br_key (cn_bref k) < br_key (cn_bref c)"
    using 3(5) bref_left_key by (auto simp: kids_wf_def)
  consider (same) "br_key (cn_bref k) = br_key e" | (kid) "br_key (cn_bref k) < br_key e" | (base) "br_key e < br_key (cn_bref k)"
    by (rule linorder_cases)
  then show ?case
  proof cases
    case same
    then show ?thesis using 3(1)[OF same es(1) ks(1)] 3(6) es(2)[of b] by auto
  next
    case kid
    then have n: "br_key (cn_bref k) \<noteq> br_key e" by simp
    have "b \<in> set (e # es) \<and> (\<forall>k\<in>set ks. br_key (cn_bref k) \<noteq> br_key b)" using 3(2)[OF n kid 3(4) ks(1)] 3(6) n kid by simp
    then show ?thesis using es(2)[of b] kid by auto
  next
    case base
    then have n: "br_key (cn_bref k) \<noteq> br_key e" "\<not> br_key (cn_bref k) < br_key e" by auto
    have "b = e \<or> b \<in> set es \<and> (\<forall>k\<in>set (k # ks). br_key (cn_bref k) \<noteq> br_key b)" using 3(3)[OF n es(1) 3(5)] 3(6) n by auto
    moreover have "\<forall>c\<in>set (k # ks). br_key (cn_bref c) \<noteq> br_key e" using base ks(2) by fastforce
    ultimately show ?thesis by auto
  qed
qed auto

text \<open>The core of a parent changes, its block table does not.\<close>

lemma base_elems_core: "base_elems (CNode c base ks) = (case base of None \<Rightarrow> [] | Some bs \<Rightarrow> elems bs)"
  by (simp add: base_elems_def)

lemma level_wf_core:
  assumes "level_wf t count" "core_flags c = core_flags (cn_chain t)" "core_live_zero c = core_live_zero (cn_chain t)"
    "kids_wf ks" "overlay_ok (base_elems t) ks"
  shows "level_wf (CNode c (cn_base t) ks) count"
  using assms by (auto simp: level_wf_def blocktable_wf_def base_elems_def split: option.splits)

lemma overlay_insert:
  "overlay_ok es ks \<Longrightarrow> \<forall>e\<in>set es. same_range e (cn_bref c) \<or> bref_left e (cn_bref c) \<or> bref_left (cn_bref c) e \<Longrightarrow>
   set ks' = insert c (set ks) \<Longrightarrow> overlay_ok es ks'"
  by (auto simp: overlay_ok_def)

section \<open>Loading an element\<close>

lemma chain_alloc_fields:
  assumes "hammer2_chain_alloc b = Ok c"
  shows "ch_bref c = b" "\<not> has c HAMMER2_CHAIN_DELETED" "\<not> has c HAMMER2_CHAIN_BMAPPED" "\<not> has c HAMMER2_CHAIN_INITIAL"
    "\<not> has c HAMMER2_CHAIN_ONRBTREE" "\<not> has c HAMMER2_CHAIN_MODIFIED"
    "core_flags c = 0" "core_live_count c = 0" "ch_bytes c = 2 ^ unat (br_data_off b AND HAMMER2_OFF_MASK_RADIX)"
  using assms by (auto simp: hammer2_chain_alloc_def Let_def has_def split: if_splits)

lemma shadow_insert:
  "b \<in> E \<Longrightarrow> \<forall>x\<in>E. f b = f x \<longrightarrow> x = b \<Longrightarrow> \<forall>k\<in>K. g k \<noteq> f b \<Longrightarrow>
   insert b A \<union> {e \<in> E. f b \<noteq> f e \<and> (\<forall>k\<in>K. g k \<noteq> f e)} = A \<union> {e \<in> E. \<forall>k\<in>K. g k \<noteq> f e}"
  by auto

lemma chain_get_ok:
  assumes ok: "level_ok t count" and b: "(b, None) \<in> set (view t)" and al: "hammer2_chain_alloc b = Ok ch"
  shows "\<exists>t' c. hammer2_chain_get t (core_generation (cn_chain t)) b = Ok (Some (t', c)) \<and> level_ok t' count \<and>
    c = CNode (set_flag HAMMER2_CHAIN_ONRBTREE (set_flag HAMMER2_CHAIN_BMAPPED ch)) None [] \<and>
    brefs t' = brefs t \<and> c \<in> set (cn_kids t') \<and> cn_bref c = b \<and> \<not> has (cn_chain c) HAMMER2_CHAIN_DELETED \<and>
    cn_base t' = cn_base t \<and> ch_flags (cn_chain t') = ch_flags (cn_chain t) \<and> cn_bref t' = cn_bref t"
proof -
  note wf = level_okD(1)[OF ok] and m = level_okD(2)[OF ok]
  note ls = level_sorted[OF wf] and cf = chain_alloc_fields[OF al]
  have bE: "b \<in> set (base_elems t)" "\<forall>k\<in>set (cn_kids t). br_key (cn_bref k) \<noteq> br_key b"
    using view_None[OF ls(1,3)] b by (auto simp: view_def)
  define c where "c = CNode (set_flag HAMMER2_CHAIN_ONRBTREE (set_flag HAMMER2_CHAIN_BMAPPED ch)) None []"
  have c: "cn_bref c = b" "bref_wf (cn_bref c)" "\<not> has (cn_chain c) HAMMER2_CHAIN_DELETED"
    "has (cn_chain c) HAMMER2_CHAIN_BMAPPED" "has (cn_chain c) HAMMER2_CHAIN_ONRBTREE"
    using cf bE ls(2) by (simp_all add: c_def flag_simps)
  have "\<forall>k\<in>set (cn_kids t). bref_left (cn_bref c) (cn_bref k) \<or> bref_left (cn_bref k) (cn_bref c)"
    using ls(4) bE c(1) by (fastforce simp: overlay_ok_def same_range_def)
  from rb_insert_ok[OF c(2,3) ls(3) this] obtain ks where
    ks: "rb_insert c (cn_kids t) = Some ks" "set ks = insert c (set (cn_kids t))" "kids_wf ks" by blast
  define t' where "t' = CNode ((cn_chain t)\<lparr>core_chain_count := core_chain_count (cn_chain t) + 1,
      core_generation := core_generation (cn_chain t) + 1\<rparr>) (cn_base t) ks"
  have get: "hammer2_chain_get t (core_generation (cn_chain t)) b = Ok (Some (t', c))"
    using al ks(1) by (simp add: hammer2_chain_get_def hammer2_chain_insert_def Let_def c_def t'_def)
  have "\<forall>e\<in>set (base_elems t). same_range e (cn_bref c) \<or> bref_left e (cn_bref c) \<or> bref_left (cn_bref c) e"
    using ls(1) bE(1) c(1) left_sorted_pair by (metis same_range_def)
  then have "overlay_ok (base_elems t) ks" by (rule overlay_insert[OF ls(4) _ ks(2)])
  then have wf': "level_wf t' count" unfolding t'_def by (intro level_wf_core[OF wf]) (simp_all add: ks(3))
  have be: "base_elems t' = base_elems t" by (simp add: t'_def base_elems_def)
  have kt: "cn_kids t' = ks" by (simp add: t'_def)
  have same: "\<forall>x\<in>set (base_elems t). br_key b = br_key x \<longrightarrow> x = b"
    using left_sorted_key[OF ls(1) _ bE(1)] by fastforce
  have "set (brefs t') = set (brefs t)"
    unfolding set_brefs[OF wf'] set_brefs[OF wf] be kt ks(2) image_insert c(1) ball_simps
    by (rule shadow_insert[OF bE(1) same bE(2)])
  then have br: "brefs t' = brefs t" by (rule brefs_eqI[OF wf' brefs_sorted[OF wf]])
  have "mapped_ok (base_elems t') (cn_kids t')"
    using m bE(1) c by (auto simp: mapped_ok_def be kt ks(2))
  moreover have "length (view t') = length (view t)" using br by (metis length_map)
  moreover have "core_live_count (cn_chain t') = core_live_count (cn_chain t)" "table_count (cn_chain t') = table_count (cn_chain t)"
    "has (cn_chain t') x = has (cn_chain t) x" "cn_base t' = cn_base t" for x
    by (simp_all add: t'_def table_count_def has_def)
  ultimately have "level_ok t' count" using level_okD[OF ok] wf' by (simp add: level_ok_def)
  then show ?thesis using get br c ks(2) by (auto simp: t'_def c_def)
qed

section \<open>Deleting a chain\<close>

text \<open>The parent is a volume root, or it is modified already and its data stays where it is.\<close>

definition steady :: "chain_env \<Rightarrow> ctree \<Rightarrow> bool" where
  "steady env t \<longleftrightarrow> br_type (cn_bref t) \<in> {HAMMER2_BREF_TYPE_VOLUME, HAMMER2_BREF_TYPE_FREEMAP} \<or>
     br_type (cn_bref t) \<in> {HAMMER2_BREF_TYPE_INODE, HAMMER2_BREF_TYPE_INDIRECT} \<and>
     has (cn_chain t) HAMMER2_CHAIN_MODIFIED \<and> br_data_off (cn_bref t) AND NOT HAMMER2_OFF_MASK_RADIX \<noteq> 0 \<and>
     \<not> ev_io_error env (br_data_off (cn_bref t))"

lemma modify_steady:
  assumes "steady env t" "cn_base t = Some base" "\<not> has (cn_chain t) HAMMER2_CHAIN_INITIAL"
  shows "\<exists>f. hammer2_chain_modify env t = Ok (CNode ((cn_chain t)\<lparr>ch_flags := f\<rparr>) (cn_base t) (cn_kids t)) \<and>
    f AND HAMMER2_CHAIN_INITIAL = 0 \<and> f AND HAMMER2_CHAIN_MODIFIED \<noteq> 0"
proof -
  define c3 where "c3 = (let c = set_flag (HAMMER2_CHAIN_MODIFIED OR HAMMER2_CHAIN_UPDATE) (cn_chain t)
    in if has c HAMMER2_CHAIN_BMAPPED then set_flag HAMMER2_CHAIN_BMAPUPD c else c)"
  have c3: "has c3 HAMMER2_CHAIN_MODIFIED" "\<not> has c3 HAMMER2_CHAIN_INITIAL" "\<exists>f. c3 = (cn_chain t)\<lparr>ch_flags := f\<rparr>"
    using assms(3) by (auto simp: c3_def Let_def flag_simps) (auto simp: set_flag_def)
  have c4: "\<exists>f. clear_flag HAMMER2_CHAIN_INITIAL c3 = (cn_chain t)\<lparr>ch_flags := f\<rparr>"
    using c3(3) by (auto simp: clear_flag_def)
  have "hammer2_chain_modify env t = Ok (CNode (clear_flag HAMMER2_CHAIN_INITIAL c3) (cn_base t) (cn_kids t))"
    using assms by (auto simp: hammer2_chain_modify_def steady_def c3_def Let_def kkassert_def flag_simps)
  moreover have "ch_flags (clear_flag HAMMER2_CHAIN_INITIAL c3) AND HAMMER2_CHAIN_INITIAL = 0"
    "ch_flags (clear_flag HAMMER2_CHAIN_INITIAL c3) AND HAMMER2_CHAIN_MODIFIED \<noteq> 0"
    using c3(1) by (simp_all add: clear_flag_def has_def and.assoc)
  moreover obtain f where "clear_flag HAMMER2_CHAIN_INITIAL c3 = (cn_chain t)\<lparr>ch_flags := f\<rparr>" using c4 ..
  ultimately show ?thesis by (intro exI[of _ f]) simp
qed

lemma live_zero_self: "(c :: hammer2_chain) = c\<lparr>core_live_zero := core_live_zero c\<rparr>"
  by simp

lemma base_delete_core:
  "hammer2_base_delete parent base count cache chain = Ok (parent', base', cache', chain') \<Longrightarrow>
   \<exists>z. parent' = parent\<lparr>core_live_zero := z\<rparr>"
  by (auto simp: hammer2_base_delete_def Let_def outcome_simps split: if_splits prod.splits intro: live_zero_self)

lemma kids_wf_filter: "kids_wf ks \<Longrightarrow> kids_wf (filter P ks)"
  by (auto simp: kids_wf_def sorted_wrt_filter)

lemma overlay_filter: "overlay_ok es ks \<Longrightarrow> overlay_ok (filter P es) (filter Q ks)"
  by (auto simp: overlay_ok_def)

text \<open>What is left when a key is taken out of the tree and out of the block table.\<close>

lemma unlinked_level:
  assumes ok: "level_ok t count" and c: "c \<in> set (cn_kids t)"
    and wf': "level_wf t' count" and ks: "cn_kids t' = rb_remove c (cn_kids t)"
    and be: "base_elems t' = filter (\<lambda>e. br_key e \<noteq> br_key (cn_bref c)) (base_elems t)"
    and lc: "core_live_count (cn_chain t') = core_live_count (cn_chain t) - 1"
    and t': "table_count (cn_chain t') = Ok count" "has (cn_chain t') HAMMER2_CHAIN_INITIAL \<Longrightarrow> cn_base t' = None"
  shows "brefs t' = filter (\<lambda>b. br_key b \<noteq> br_key (cn_bref c)) (brefs t)" "level_ok t' count"
proof -
  note wf = level_okD(1)[OF ok] and m = level_okD(2)[OF ok]
  let ?k = "br_key (cn_bref c)"
  have "set (brefs t') = set (filter (\<lambda>b. br_key b \<noteq> ?k) (brefs t))"
    unfolding set_filter set_brefs[OF wf'] set_brefs[OF wf] be ks rb_remove_def by auto
  then show br: "brefs t' = filter (\<lambda>b. br_key b \<noteq> ?k) (brefs t)"
    by (rule brefs_eqI[OF wf' sorted_wrt_filter[OF brefs_sorted[OF wf]]])
  have cb: "cn_bref c \<in> set (brefs t)" using c by (simp add: set_brefs[OF wf] del: set_map)
  have "filter (\<lambda>b. br_key b = ?k) (brefs t) = [cn_bref c]"
  proof (rule left_sorted_unique)
    show "sorted_wrt bref_left (filter (\<lambda>b. br_key b = ?k) (brefs t))" by (rule sorted_wrt_filter[OF brefs_sorted[OF wf]])
    show "set (filter (\<lambda>b. br_key b = ?k) (brefs t)) = set [cn_bref c]"
      using cb left_sorted_key[OF brefs_sorted[OF wf] _ cb] by auto
  qed simp
  then have "length (brefs t) = length (filter (\<lambda>b. br_key b \<noteq> ?k) (brefs t)) + 1"
    using sum_length_filter_compl[of "\<lambda>b. br_key b = ?k" "brefs t"] by simp
  then have len: "length (view t) = length (view t') + 1" using br by (metis length_map)
  have "unat (core_live_count (cn_chain t) - 1) = length (view t')"
  proof -
    have "unat (core_live_count (cn_chain t)) = length (view t') + 1" using level_okD(3)[OF ok] len by simp
    moreover from this have "core_live_count (cn_chain t) \<noteq> 0" by auto
    ultimately show ?thesis using unat_minus_one[of "core_live_count (cn_chain t)"] by simp
  qed
  moreover have "mapped_ok (base_elems t') (cn_kids t')"
    using m by (auto simp: mapped_ok_def be ks rb_remove_def)
  ultimately show "level_ok t' count" using wf' lc t' level_okD(5)[OF ok] by (simp add: level_ok_def)
qed

text \<open>The chain deleted and its parent.\<close>

lemma chain_delete_ok:
  assumes ok: "level_ok t count" and c: "c \<in> set (cn_kids t)" and st: "steady env t"
  shows "\<exists>t' c'. hammer2_chain_delete env t c = Ok (t', c') \<and> level_ok t' count \<and> steady env t' \<and>
    brefs t' = filter (\<lambda>b. br_key b \<noteq> br_key (cn_bref c)) (brefs t) \<and> cn_bref t' = cn_bref t \<and>
    (cn_base t' = None) = (cn_base t = None) \<and>
    cn_bref c' = cn_bref c \<and> cn_base c' = cn_base c \<and> cn_kids c' = cn_kids c \<and>
    \<not> has (cn_chain c') HAMMER2_CHAIN_ONRBTREE \<and> \<not> has (cn_chain c') HAMMER2_CHAIN_BMAPPED"
proof -
  note wf = level_okD(1)[OF ok] and m = level_okD(2)[OF ok]
  note ls = level_sorted[OF wf]
  have nd: "\<not> has (cn_chain c) HAMMER2_CHAIN_DELETED" using c ls(3) by (auto simp: kids_wf_def has_def)
  have on: "has (cn_chain c) HAMMER2_CHAIN_ONRBTREE" using m c by (simp add: mapped_ok_def)
  define c1 where "c1 = clear_flag HAMMER2_CHAIN_ONRBTREE (set_flag HAMMER2_CHAIN_DELETED (cn_chain c))"
  have c1: "ch_bref c1 = cn_bref c" "\<not> has c1 HAMMER2_CHAIN_ONRBTREE"
    "has c1 HAMMER2_CHAIN_BMAPPED = has (cn_chain c) HAMMER2_CHAIN_BMAPPED" by (simp_all add: c1_def flag_simps)
  show ?thesis
  proof (cases "has (cn_chain c) HAMMER2_CHAIN_BMAPPED")
    case False
    define t' where "t' = unlink_core t c"
    have del: "hammer2_chain_delete env t c = Ok (t', CNode (set_flag HAMMER2_CHAIN_ONFLUSH c1) (cn_base c) (cn_kids c))"
      using nd on False by (simp add: hammer2_chain_delete_def hammer2_chain_delete_helper_def kkassert_def Let_def t'_def c1_def)
    have ne: "\<forall>e\<in>set (base_elems t). br_key e \<noteq> br_key (cn_bref c)" using m c False by (auto simp: mapped_ok_def)
    have be: "base_elems t' = filter (\<lambda>e. br_key e \<noteq> br_key (cn_bref c)) (base_elems t)"
      using ne by (simp add: t'_def unlink_core_def base_elems_def filter_id_conv)
    have wf': "level_wf t' count" unfolding t'_def unlink_core_def rb_remove_def
      by (rule level_wf_core[OF wf]) (use ls overlay_filter[OF ls(4), of "\<lambda>_. True"] in \<open>simp_all add: kids_wf_filter\<close>)
    note U = unlinked_level[OF ok c wf' _ be]
    have "brefs t' = filter (\<lambda>b. br_key b \<noteq> br_key (cn_bref c)) (brefs t)" "level_ok t' count"
      by (rule U; use level_okD[OF ok] in \<open>simp add: t'_def unlink_core_def\<close>)+
    moreover have "steady env t'" using st by (simp add: t'_def unlink_core_def steady_def)
    ultimately show ?thesis using del c1 False by (simp add: t'_def unlink_core_def flag_simps)
  next
    case True
    then obtain e where e: "e \<in> set (base_elems t)" "br_key e = br_key (cn_bref c)" using m c by (auto simp: mapped_ok_def)
    then obtain base where base: "cn_base t = Some base" "base_elems t = elems base" by (cases "cn_base t") (auto simp: base_elems_def)
    have ni: "\<not> has (cn_chain t) HAMMER2_CHAIN_INITIAL" using level_okD(6)[OF ok] base by auto
    obtain f where f: "hammer2_chain_modify env t = Ok (CNode ((cn_chain t)\<lparr>ch_flags := f\<rparr>) (cn_base t) (cn_kids t))"
      "f AND HAMMER2_CHAIN_INITIAL = 0" "f AND HAMMER2_CHAIN_MODIFIED \<noteq> 0" using modify_steady[OF st base(1) ni] by blast
    define u where "u = unlink_core (CNode ((cn_chain t)\<lparr>ch_flags := f\<rparr>) (cn_base t) (cn_kids t)) c"
    have u: "cn_base u = Some base" "cn_kids u = rb_remove c (cn_kids t)" "table_count (cn_chain u) = Ok count"
      "core_live_count (cn_chain u) = core_live_count (cn_chain t) - 1" "ch_flags (cn_chain u) = f" "cn_bref u = cn_bref t"
      using base(1) level_okD(4)[OF ok] by (simp_all add: u_def unlink_core_def)
    have bw: "blocktable_wf (cn_chain u) base count" using wf base(1) by (simp add: level_wf_def blocktable_wf_def u_def unlink_core_def)
    have kb: "br_keybits e = br_keybits (ch_bref c1)" using ls(4) e c c1(1) bref_left_key[of e "cn_bref c"] bref_left_key[of "cn_bref c" e]
      by (auto simp: overlay_ok_def same_range_def)
    obtain core base' cache' where d: "hammer2_base_delete (cn_chain u) base count (-1) c1 = Ok (core, base', cache',
        c1\<lparr>ch_flags := ch_flags c1 AND NOT (HAMMER2_CHAIN_BMAPPED OR HAMMER2_CHAIN_BMAPUPD)\<rparr>)"
      "blocktable_wf core base' count" "elems base' = filter (\<lambda>x. br_key x \<noteq> br_key (ch_bref c1)) (elems base)"
      using base_delete_ok[OF bw, of e c1 "-1"] e base(2) kb c1(1) by auto
    have cl: "c1\<lparr>ch_flags := ch_flags c1 AND NOT (HAMMER2_CHAIN_BMAPPED OR HAMMER2_CHAIN_BMAPUPD)\<rparr> =
      clear_flag (HAMMER2_CHAIN_BMAPPED OR HAMMER2_CHAIN_BMAPUPD) c1" by (simp add: clear_flag_def)
    obtain z where z: "core = (cn_chain u)\<lparr>core_live_zero := z\<rparr>" using base_delete_core[OF d(1)] by blast
    define t' where "t' = CNode core (Some base') (rb_remove c (cn_kids t))"
    define c' where "c' = set_flag HAMMER2_CHAIN_ONFLUSH (clear_flag (HAMMER2_CHAIN_BMAPPED OR HAMMER2_CHAIN_BMAPUPD) c1)"
    have del: "hammer2_chain_delete env t c = Ok (t', CNode c' (cn_base c) (cn_kids c))"
      using nd on True ni f(1) d(1)[unfolded cl] u(1,2,3)
      by (simp add: hammer2_chain_delete_def hammer2_chain_delete_helper_def Let_def c1_def[symmetric] u_def[symmetric] t'_def c'_def)
    have be: "base_elems t' = filter (\<lambda>e. br_key e \<noteq> br_key (cn_bref c)) (base_elems t)"
      using d(3) base(2) c1(1) by (simp add: t'_def base_elems_def)
    have "overlay_ok (base_elems t') (rb_remove c (cn_kids t))" unfolding be rb_remove_def by (rule overlay_filter[OF ls(4)])
    then have wf': "level_wf t' count" using d(2) ls(3) be
      by (simp add: level_wf_def t'_def base_elems_def kids_wf_filter rb_remove_def)
    note U = unlinked_level[OF ok c wf' _ be]
    have "brefs t' = filter (\<lambda>b. br_key b \<noteq> br_key (cn_bref c)) (brefs t)" "level_ok t' count"
      by (rule U; use u f(2) in \<open>simp add: t'_def z has_def\<close>)+
    moreover have "steady env t'" using st u f(3) by (auto simp: t'_def z steady_def has_def)
    ultimately show ?thesis using del c1 base(1) u(6) by (simp add: t'_def z c'_def flag_simps)
  qed
qed

section \<open>Entering a chain\<close>

lemma bref_insort_props:
  assumes "sorted_wrt bref_left xs" "\<forall>b\<in>set xs. bref_left b e \<or> bref_left e b"
  shows "sorted_wrt bref_left (bref_insort e xs)" "set (bref_insort e xs) = insert e (set xs)"
    "length (bref_insort e xs) = length xs + 1"
proof -
  show "set (bref_insort e xs) = insert e (set xs)" by (auto simp: bref_insort_def)
  show "length (bref_insort e xs) = length xs + 1"
    using sum_length_filter_compl[of "\<lambda>b. bref_left b e" xs] by (simp add: bref_insort_def)
  have "\<forall>b\<in>set xs. \<not> bref_left b e \<longrightarrow> bref_left e b" using assms(2) by blast
  then show "sorted_wrt bref_left (bref_insort e xs)"
    using assms(1) bref_left_trans by (auto simp: bref_insort_def sorted_wrt_append sorted_wrt_filter)
qed

lemma fresh_insert: "\<forall>e\<in>E. y \<noteq> f e \<Longrightarrow> insert x A \<union> {e \<in> E. y \<noteq> f e \<and> P e} = insert x (A \<union> {e \<in> E. P e})"
  by auto

lemma chain_insert_ok:
  assumes ok: "level_ok t count" and room: "length (view t) < count"
    and c: "bref_wf (cn_bref c)" "\<not> has (cn_chain c) HAMMER2_CHAIN_DELETED" "\<not> has (cn_chain c) HAMMER2_CHAIN_BMAPPED"
    and dis: "\<forall>b\<in>set (brefs t). bref_left b (cn_bref c) \<or> bref_left (cn_bref c) b"
  shows "\<exists>t'. hammer2_chain_insert t c True None = Ok (Some (t', with_chain (set_flag HAMMER2_CHAIN_ONRBTREE) c)) \<and> level_ok t' count \<and>
    brefs t' = bref_insort (cn_bref c) (brefs t) \<and> set (cn_kids t') = insert (with_chain (set_flag HAMMER2_CHAIN_ONRBTREE) c) (set (cn_kids t)) \<and>
    cn_base t' = cn_base t \<and> ch_flags (cn_chain t') = ch_flags (cn_chain t) \<and> cn_bref t' = cn_bref t"
proof -
  note wf = level_okD(1)[OF ok] and m = level_okD(2)[OF ok]
  note ls = level_sorted[OF wf]
  define c' where "c' = with_chain (set_flag HAMMER2_CHAIN_ONRBTREE) c"
  have c': "cn_bref c' = cn_bref c" "bref_wf (cn_bref c')" "\<not> has (cn_chain c') HAMMER2_CHAIN_DELETED"
    "\<not> has (cn_chain c') HAMMER2_CHAIN_BMAPPED" "has (cn_chain c') HAMMER2_CHAIN_ONRBTREE"
    using c by (simp_all add: c'_def flag_simps)
  have kids: "\<forall>k\<in>set (cn_kids t). cn_bref k \<in> set (brefs t)" by (simp add: set_brefs[OF wf] del: set_map)
  have dE: "bref_left e (cn_bref c) \<or> bref_left (cn_bref c) e" if e: "e \<in> set (base_elems t)" for e
  proof (cases "\<forall>k\<in>set (cn_kids t). br_key (cn_bref k) \<noteq> br_key e")
    case True
    then have "e \<in> set (brefs t)" using e by (simp add: set_brefs[OF wf] del: set_map)
    then show ?thesis using dis by blast
  next
    case False
    then obtain k where k: "k \<in> set (cn_kids t)" "br_key (cn_bref k) = br_key e" by blast
    then have sr: "same_range e (cn_bref k)"
      using ls(4) e bref_left_key[of e "cn_bref k"] bref_left_key[of "cn_bref k" e] by (auto simp: overlay_ok_def)
    have "bref_left (cn_bref k) (cn_bref c) \<or> bref_left (cn_bref c) (cn_bref k)" using dis kids k(1) by blast
    then show ?thesis using same_range_hi[OF sr] k(2) by (simp add: bref_left_def)
  qed
  have "\<forall>k\<in>set (cn_kids t). bref_left (cn_bref c') (cn_bref k) \<or> bref_left (cn_bref k) (cn_bref c')"
    unfolding c'(1) using dis kids by blast
  from rb_insert_ok[OF c'(2,3) ls(3) this] obtain ks where
    ks: "rb_insert c' (cn_kids t) = Some ks" "set ks = insert c' (set (cn_kids t))" "kids_wf ks" by blast
  define t' where "t' = CNode ((cn_chain t)\<lparr>core_chain_count := core_chain_count (cn_chain t) + 1,
      core_generation := core_generation (cn_chain t) + 1, core_live_count := core_live_count (cn_chain t) + 1\<rparr>) (cn_base t) ks"
  have ins: "hammer2_chain_insert t c True None = Ok (Some (t', c'))"
    using ks(1) by (simp add: hammer2_chain_insert_def Let_def c'_def t'_def)
  have "overlay_ok (base_elems t) ks" by (rule overlay_insert[OF ls(4) _ ks(2)]) (use dE c'(1) in auto)
  then have wf': "level_wf t' count" unfolding t'_def by (intro level_wf_core[OF wf]) (simp_all add: ks(3))
  have be: "base_elems t' = base_elems t" and kt: "cn_kids t' = ks" by (simp_all add: t'_def base_elems_def)
  note P = bref_insort_props[OF brefs_sorted[OF wf] dis]
  have nk: "br_key (cn_bref c) \<noteq> br_key e" if "e \<in> set (base_elems t)" for e
    using dE[OF that] bref_left_key[of e "cn_bref c"] bref_left_key[of "cn_bref c" e] by auto
  have "set (brefs t') = set (bref_insort (cn_bref c) (brefs t))"
    unfolding P(2) set_brefs[OF wf'] set_brefs[OF wf] be kt ks(2) image_insert c'(1) ball_simps
    by (rule fresh_insert) (use nk in blast)
  then have br: "brefs t' = bref_insort (cn_bref c) (brefs t)" by (rule brefs_eqI[OF wf' P(1)])
  have "\<not> (\<exists>e\<in>set (base_elems t). br_key e = br_key (cn_bref c'))" using nk c'(1) by metis
  then have "mapped_ok (base_elems t') (cn_kids t')" using m c'(4,5) unfolding mapped_ok_def be kt ks(2) by blast
  moreover have "length (view t') = length (view t) + 1" using br P(3) by (metis length_map)
  moreover have "unat (core_live_count (cn_chain t) + 1) = unat (core_live_count (cn_chain t)) + 1"
    using level_okD(3,5)[OF ok] room by (simp add: unat_word_ariths(1))
  ultimately have "level_ok t' count" using level_okD[OF ok] wf' by (simp add: level_ok_def t'_def)
  then show ?thesis using ins br ks(2) kt by (auto simp: t'_def c'_def)
qed

end
