(* ===== verification/H2_Split.thy ===== *)
theory H2_Split
  imports H2_Level
begin

unbundle bit_operations_syntax

text \<open>
  Splitting a full level: \<open>hammer2_chain_create_indirect\<close> follows the rules stated above it in
  \<^verbatim>\<open>hammer2_chain.c\<close>, and \<open>hammer2_chain_create\<close> enters its chain after at most one split.
\<close>

section \<open>Changing a chain in its level\<close>

lemma view_core [simp]: "view (CNode c (cn_base t) (cn_kids t)) = view t"
  by (simp add: view_def base_elems_def)

lemma level_ok_flags:
  assumes "level_ok t count" "m AND HAMMER2_CHAIN_INITIAL = 0"
  shows "level_ok (with_chain (set_flag m) t) count"
proof -
  have "level_wf (with_chain (set_flag m) t) count"
    by (rule level_wf_core[OF level_okD(1)[OF assms(1)]]) (use level_sorted[OF level_okD(1)[OF assms(1)]] in simp_all)
  moreover have "base_elems (with_chain (set_flag m) t) = base_elems t" by (simp add: base_elems_def)
  ultimately show ?thesis using level_okD[OF assms(1)] assms(2) by (simp add: level_ok_def flag_simps)
qed

text \<open>The chain at a key is replaced by one with the same range.\<close>

lemma replace_kid_ok:
  assumes ok: "level_ok t count" and c: "c \<in> set (cn_kids t)" and r: "same_range (cn_bref c) (cn_bref c')"
    and f: "\<not> has (cn_chain c') HAMMER2_CHAIN_DELETED" "has (cn_chain c') HAMMER2_CHAIN_ONRBTREE"
      "has (cn_chain c') HAMMER2_CHAIN_BMAPPED = has (cn_chain c) HAMMER2_CHAIN_BMAPPED"
  shows "level_ok (replace_kid c' t) count"
    "brefs (replace_kid c' t) = map (\<lambda>b. if br_key b = br_key (cn_bref c) then cn_bref c' else b) (brefs t)"
    "set (cn_kids (replace_kid c' t)) = insert c' {k \<in> set (cn_kids t). br_key (cn_bref k) \<noteq> br_key (cn_bref c)}"
proof -
  note wf = level_okD(1)[OF ok] and m = level_okD(2)[OF ok]
  note ls = level_sorted[OF wf]
  let ?k = "br_key (cn_bref c)" and ?t = "replace_kid c' t"
  let ?g = "\<lambda>x. if br_key (cn_bref x) = ?k then c' else x" and ?h = "\<lambda>b. if br_key b = ?k then cn_bref c' else b"
  have kids: "cn_kids ?t = map ?g (cn_kids t)" using r by (simp add: replace_kid_def same_range_def)
  show ks: "set (cn_kids ?t) = insert c' {k \<in> set (cn_kids t). br_key (cn_bref k) \<noteq> ?k}" using c by (auto simp: kids)
  have cw: "bref_wf (cn_bref c)" using c ls(3) by (simp add: kids_wf_def)
  have same: "x = c" if "x \<in> set (cn_kids t)" "br_key (cn_bref x) = ?k" for x
  proof -
    have "sorted_wrt (\<lambda>a b. bref_left (cn_bref a) (cn_bref b)) xs \<Longrightarrow> x \<in> set xs \<Longrightarrow> c \<in> set xs \<Longrightarrow> x = c" for xs
      using that(2) bref_left_key by (induction xs) fastforce+
    then show ?thesis using ls(3) c that(1) unfolding kids_wf_def by blast
  qed
  have sr: "same_range (cn_bref x) (cn_bref (?g x))" if "x \<in> set (cn_kids t)" for x
  proof (cases "br_key (cn_bref x) = ?k")
    case True
    then have "x = c" by (rule same[OF that])
    then show ?thesis using r by simp
  qed (simp add: same_range_def)
  have left: "bref_left a b = bref_left a' b'" if "same_range a a'" "same_range b b'" for a a' b b'
    using same_range_hi[OF that(1)] that(2) by (simp add: bref_left_def same_range_def)
  have kw: "kids_wf (cn_kids ?t)"
  proof -
    have "sorted_wrt (\<lambda>a b. bref_left (cn_bref a) (cn_bref b)) (map ?g (cn_kids t))"
      unfolding sorted_wrt_map using ls(3) left[OF sr sr] by (auto simp: kids_wf_def elim!: sorted_wrt_mono_rel[rotated])
    moreover have "bref_wf (cn_bref c')" using cw r by (simp add: bref_wf_def same_range_def)
    ultimately show ?thesis using ls(3) f(1) unfolding kids by (auto simp: kids_wf_def has_def)
  qed
  have be: "base_elems ?t = base_elems t" by (simp add: replace_kid_def base_elems_def)
  have ov: "overlay_ok (base_elems t) (cn_kids ?t)"
    unfolding overlay_ok_def kids
  proof (intro ballI)
    fix e x assume e: "e \<in> set (base_elems t)" and x: "x \<in> set (map ?g (cn_kids t))"
    then obtain y where y: "y \<in> set (cn_kids t)" "x = ?g y" by auto
    have s: "same_range (cn_bref y) (cn_bref x)" unfolding y(2) by (rule sr[OF y(1)])
    have "same_range e (cn_bref y) \<or> bref_left e (cn_bref y) \<or> bref_left (cn_bref y) e" using ls(4) e y(1) by (simp add: overlay_ok_def)
    moreover have "same_range e e" by (simp add: same_range_def)
    ultimately show "same_range e (cn_bref x) \<or> bref_left e (cn_bref x) \<or> bref_left (cn_bref x) e"
      using left[OF _ s, of e e] left[OF s, of e e] s by (auto simp: same_range_def)
  qed
  have wf': "level_wf ?t count"
  proof -
    have "?t = CNode (cn_chain t) (cn_base t) (cn_kids ?t)" by (simp add: replace_kid_def)
    moreover have "level_wf (CNode (cn_chain t) (cn_base t) (cn_kids ?t)) count" by (rule level_wf_core[OF wf refl refl kw ov])
    ultimately show ?thesis by metis
  qed
  have cb: "cn_bref c \<in> set (brefs t)" using c by (simp add: set_brefs[OF wf] del: set_map)
  have sb: "same_range b (?h b)" if "b \<in> set (brefs t)" for b
  proof (cases "br_key b = ?k")
    case True
    then have "b = cn_bref c" by (rule left_sorted_key[OF brefs_sorted[OF wf] that cb])
    then show ?thesis using r by simp
  qed (simp add: same_range_def)
  have "sorted_wrt bref_left (map ?h (brefs t))"
    unfolding sorted_wrt_map[of _ ?h] by (rule sorted_wrt_mono_rel[OF _ brefs_sorted[OF wf]]) (use left[OF sb sb] in blast)
  moreover have "set (brefs ?t) = set (map ?h (brefs t))"
  proof -
    have "{e \<in> set (base_elems t). \<forall>k\<in>insert c' {k \<in> set (cn_kids t). br_key (cn_bref k) \<noteq> ?k}. br_key (cn_bref k) \<noteq> br_key e} =
        {e \<in> set (base_elems t). \<forall>k\<in>set (cn_kids t). br_key (cn_bref k) \<noteq> br_key e}"
      using c r by (auto simp: same_range_def)
    moreover have "cn_bref ` insert c' {k \<in> set (cn_kids t). br_key (cn_bref k) \<noteq> ?k} = ?h ` cn_bref ` set (cn_kids t)"
      using c by (auto simp: image_iff)
    moreover have "?h ` {e \<in> set (base_elems t). \<forall>k\<in>set (cn_kids t). br_key (cn_bref k) \<noteq> br_key e} =
        {e \<in> set (base_elems t). \<forall>k\<in>set (cn_kids t). br_key (cn_bref k) \<noteq> br_key e}"
      using c by (auto simp: image_iff)
    ultimately show ?thesis
      unfolding set_map[of ?h] set_brefs[OF wf'] set_brefs[OF wf] be ks image_Un by metis
  qed
  ultimately show br: "brefs ?t = map ?h (brefs t)" by (intro brefs_eqI[OF wf'])
  have "mapped_ok (base_elems ?t) (cn_kids ?t)"
    using m f(2,3) c r unfolding mapped_ok_def be ks same_range_def by (simp add: ball_simps)
  moreover have "length (view ?t) = length (view t)" using arg_cong[OF br, of length] by simp
  ultimately show "level_ok ?t count" using level_okD[OF ok] wf' by (simp add: level_ok_def) (simp add: replace_kid_def)
qed

section \<open>Entering a chain without a split\<close>

abbreviation counted :: "nat \<Rightarrow> ctree \<Rightarrow> ctree" where
  "counted count t \<equiv> with_chain (\<lambda>c. hammer2_chain_countbrefs c (cn_base t) count) t"

lemma countbrefs_fields [simp]:
  "ch_bref (hammer2_chain_countbrefs c base count) = ch_bref c" "ch_flags (hammer2_chain_countbrefs c base count) = ch_flags c"
  "table_count (hammer2_chain_countbrefs c base count) = table_count c" "has (hammer2_chain_countbrefs c base count) m = has c m"
  by (auto simp: hammer2_chain_countbrefs_def Let_def table_count_def has_def split: option.splits)

lemma countbrefs_counted: "core_flags c AND HAMMER2_CORE_COUNTEDBREFS \<noteq> 0 \<Longrightarrow> hammer2_chain_countbrefs c base count = c"
  by (simp add: hammer2_chain_countbrefs_def)

lemma level_ok_counted: "level_ok t count \<Longrightarrow> core_flags (cn_chain t) AND HAMMER2_CORE_COUNTEDBREFS \<noteq> 0"
  by (auto simp: level_ok_def level_wf_def blocktable_wf_def split: option.splits)

text \<open>The parents that can take a chain.\<close>

definition has_table :: "ctree \<Rightarrow> bool" where
  "has_table t \<longleftrightarrow> br_type (cn_bref t) \<in> {HAMMER2_BREF_TYPE_INODE, HAMMER2_BREF_TYPE_VOLUME, HAMMER2_BREF_TYPE_FREEMAP} \<longrightarrow> cn_base t \<noteq> None"

lemma bref_insort_replace:
  assumes "\<forall>b\<in>set xs. bref_left b e \<or> bref_left e b" "same_range e e'"
  shows "map (\<lambda>b. if br_key b = br_key e then e' else b) (bref_insort e xs) = bref_insort e' xs"
proof -
  have ne: "br_key b \<noteq> br_key e" if "b \<in> set xs" for b
    using assms(1) that bref_left_key[of b e] bref_left_key[of e b] by auto
  have "bref_left b e' = bref_left b e" for b using assms(2) by (simp add: bref_left_def same_range_def)
  moreover have "map (\<lambda>b. if br_key b = br_key e then e' else b) (filter P xs) = filter P xs" for P
    by (rule map_idI) (use ne in auto)
  ultimately show ?thesis by (simp add: bref_insort_def)
qed

lemma create_link_ok:
  assumes ok: "level_ok (counted count p) count" and room: "length (view p) < count" and p: "has_table p"
    and c: "bref_wf (cn_bref c)" "\<not> has (cn_chain c) HAMMER2_CHAIN_DELETED" "\<not> has (cn_chain c) HAMMER2_CHAIN_BMAPPED"
    and dis: "\<forall>b\<in>set (brefs p). bref_left b (cn_bref c) \<or> bref_left (cn_bref c) b"
    and mod: "if allocated
      then br_type (cn_bref c) \<in> {HAMMER2_BREF_TYPE_DATA, HAMMER2_BREF_TYPE_FREEMAP_LEAF, HAMMER2_BREF_TYPE_INODE} \<and>
           hammer2_chain_modify env (with_chain (set_flag HAMMER2_CHAIN_ONRBTREE) c) = Ok c' \<and> same_range (cn_bref c) (cn_bref c') \<and>
           \<not> has (cn_chain c') HAMMER2_CHAIN_DELETED \<and> has (cn_chain c') HAMMER2_CHAIN_ONRBTREE \<and> \<not> has (cn_chain c') HAMMER2_CHAIN_BMAPPED
      else c' = with_chain (set_flag (HAMMER2_CHAIN_ONRBTREE OR HAMMER2_CHAIN_UPDATE)) c"
  shows "\<exists>p'. create_again build optimize env (Suc n) type allocated p c = Ok (p', None, c') \<and> level_ok p' count \<and>
    brefs p' = bref_insort (cn_bref c') (brefs p) \<and> c' \<in> set (cn_kids p') \<and> set (cn_kids p) \<subseteq> set (cn_kids p') \<and>
    cn_base p' = cn_base p \<and> cn_bref p' = cn_bref p \<and> ch_flags (cn_chain p') = ch_flags (cn_chain p) OR HAMMER2_CHAIN_ONFLUSH"
proof -
  define p1 where "p1 = counted count p"
  have vp: "view p1 = view p" "cn_base p1 = cn_base p" "cn_bref p1 = cn_bref p" by (simp_all add: p1_def)
  note ok1 = ok[folded p1_def]
  have tc: "table_count (cn_chain p) = Ok count" using level_okD(4)[OF ok] by simp
  have base: "(if br_type (cn_bref p) \<in> {HAMMER2_BREF_TYPE_INDIRECT, HAMMER2_BREF_TYPE_FREEMAP_NODE} \<and> has (cn_chain p) HAMMER2_CHAIN_INITIAL
      then None else cn_base p) = cn_base p" using level_okD(6)[OF ok] by auto
  define c1 where "c1 = with_chain (set_flag HAMMER2_CHAIN_ONRBTREE) c"
  obtain p2 where ins: "hammer2_chain_insert p1 c True None = Ok (Some (p2, c1))" and ok2: "level_ok p2 count"
    and br2: "brefs p2 = bref_insort (cn_bref c) (brefs p)" and k2: "set (cn_kids p2) = insert c1 (set (cn_kids p1))"
    and f2: "cn_base p2 = cn_base p1" "ch_flags (cn_chain p2) = ch_flags (cn_chain p1)" "cn_bref p2 = cn_bref p1"
    using chain_insert_ok[OF ok1 _ c] room dis unfolding vp c1_def by blast
  have c1: "cn_bref c1 = cn_bref c" by (simp add: c1_def)
  have c': "same_range (cn_bref c1) (cn_bref c')" "\<not> has (cn_chain c') HAMMER2_CHAIN_DELETED" "has (cn_chain c') HAMMER2_CHAIN_ONRBTREE"
    "has (cn_chain c') HAMMER2_CHAIN_BMAPPED = has (cn_chain c1) HAMMER2_CHAIN_BMAPPED"
    using mod c by (auto simp: c1_def flag_simps same_range_def split: if_splits)
  have m: "(if allocated
      then if br_type (cn_bref c1) \<in> {HAMMER2_BREF_TYPE_DATA, HAMMER2_BREF_TYPE_FREEMAP_LEAF, HAMMER2_BREF_TYPE_INODE}
           then hammer2_chain_modify env c1 else Panic ''hammer2_chain_create: bad type''
      else Ok (with_chain (set_flag HAMMER2_CHAIN_UPDATE) c1)) = Ok c'"
    using mod by (auto simp: c1_def set_flag_def or.assoc split: if_splits)
  have "c1 \<in> set (cn_kids p2)" using k2 by simp
  note R = replace_kid_ok[OF ok2 this c']
  define p' where "p' = with_chain (set_flag HAMMER2_CHAIN_ONFLUSH) (replace_kid c' p2)"
  have cr: "create_again build optimize env (Suc n) type allocated p c = Ok (p', None, c')"
  proof -
    have "unat (core_live_count (cn_chain p1)) = length (view p)" using level_okD(3)[OF ok1] vp by simp
    then show ?thesis unfolding create_again.simps(2) tc obind.simps Let_def base p1_def[symmetric] ins option.case prod.case m
      using p room by (auto simp: has_table_def p'_def kkassert_def)
  qed
  have "map (\<lambda>b. if br_key b = br_key (cn_bref c) then cn_bref c' else b) (bref_insort (cn_bref c) (brefs p)) = bref_insort (cn_bref c') (brefs p)"
    by (rule bref_insort_replace) (use dis c'(1) c1 in simp_all)
  then have "brefs p' = bref_insort (cn_bref c') (brefs p)" using R(2) br2 c1 by (simp add: p'_def)
  moreover have "level_ok p' count" unfolding p'_def by (rule level_ok_flags[OF R(1)]) simp
  moreover have "c' \<in> set (cn_kids p')" using R(3) by (simp add: p'_def)
  moreover have "set (cn_kids p) \<subseteq> set (cn_kids p')"
  proof
    fix k assume k: "k \<in> set (cn_kids p)"
    then have "cn_bref k \<in> set (brefs p)" using set_brefs[OF level_okD(1)[OF ok1]] vp by (auto simp: p1_def simp del: set_map)
    then have "br_key (cn_bref k) \<noteq> br_key (cn_bref c1)" using dis bref_left_key[of "cn_bref k" "cn_bref c"] bref_left_key[of "cn_bref c" "cn_bref k"] c1 by auto
    then show "k \<in> set (cn_kids p')" using R(3) k2 k by (simp add: p'_def p1_def)
  qed
  ultimately show ?thesis using cr f2 vp by (auto simp: p'_def replace_kid_def set_flag_def p1_def)
qed

section \<open>Moving the elements\<close>

abbreviation attach :: "rb_build \<Rightarrow> bool \<Rightarrow> chain_env \<Rightarrow> nat \<Rightarrow> create_fn" where
  "attach build optimize env n \<equiv> (\<lambda>p c. create_again build optimize env n (br_type (cn_bref c)) False p
     (reattach (br_key (cn_bref c)) (br_keybits (cn_bref c)) c))"

lemma bref_self: "(b :: hammer2_blockref)\<lparr>br_key := br_key b, br_keybits := br_keybits b\<rparr> = b"
  by simp

lemma rename_ok:
  assumes ok: "level_ok (counted count p) count" and room: "length (view p) < count" and p: "has_table p"
    and c: "bref_wf (cn_bref c)" "\<not> has (cn_chain c) HAMMER2_CHAIN_ONRBTREE" "\<not> has (cn_chain c) HAMMER2_CHAIN_BMAPPED"
    and dis: "\<forall>b\<in>set (brefs p). bref_left b (cn_bref c) \<or> bref_left (cn_bref c) b"
  shows "\<exists>p'. hammer2_chain_rename (attach build optimize env (Suc n)) p c = Ok (p', None) \<and> level_ok p' count \<and>
    brefs p' = bref_insort (cn_bref c) (brefs p) \<and> cn_base p' = cn_base p \<and> cn_bref p' = cn_bref p \<and>
    ch_flags (cn_chain p') = ch_flags (cn_chain p) OR HAMMER2_CHAIN_ONFLUSH"
proof -
  let ?r = "reattach (br_key (cn_bref c)) (br_keybits (cn_bref c)) c"
  have b: "cn_bref ?r = cn_bref c" by (simp add: reattach_def bref_self)
  have f: "\<not> has (cn_chain ?r) HAMMER2_CHAIN_DELETED" "\<not> has (cn_chain ?r) HAMMER2_CHAIN_BMAPPED"
    using c(3) by (simp_all add: reattach_def flag_simps)
  let ?c' = "with_chain (set_flag (HAMMER2_CHAIN_ONRBTREE OR HAMMER2_CHAIN_UPDATE)) ?r"
  obtain p1 where p1: "create_again build optimize env (Suc n) (br_type (cn_bref c)) False p ?r = Ok (p1, None, ?c')"
    "level_ok p1 count" "brefs p1 = bref_insort (cn_bref ?c') (brefs p)" "cn_base p1 = cn_base p" "cn_bref p1 = cn_bref p"
    "ch_flags (cn_chain p1) = ch_flags (cn_chain p) OR HAMMER2_CHAIN_ONFLUSH"
    using create_link_ok[OF ok room p, of ?r False env ?c' build optimize n "br_type (cn_bref c)"] c(1) f dis b by auto
  have "hammer2_chain_rename (attach build optimize env (Suc n)) p c = Ok (with_chain (set_flag HAMMER2_CHAIN_ONFLUSH) p1, None)"
    using c(2) p1(1) by (simp add: hammer2_chain_rename_def flag_simps)
  moreover have "level_ok (with_chain (set_flag HAMMER2_CHAIN_ONFLUSH) p1) count" by (rule level_ok_flags[OF p1(2)]) simp
  moreover have "ch_flags (set_flag HAMMER2_CHAIN_ONFLUSH (cn_chain p1)) = ch_flags (cn_chain p) OR HAMMER2_CHAIN_ONFLUSH"
    using p1(6) by (simp add: set_flag_def or.assoc)
  ultimately show ?thesis unfolding p1(4)[symmetric] using p1(3,5) b by (intro exI[of _ "with_chain (set_flag HAMMER2_CHAIN_ONFLUSH) p1"]) simp
qed

text \<open>A level seen from a key on.\<close>

lemma from_key_brefs: "map fst (from_key t k) = dropWhile (\<lambda>b. \<not> ends_after k b) (brefs t)"
  by (simp add: from_key_def dropWhile_map comp_def)

lemma from_key_parts:
  assumes "brefs t = pre @ R" "\<forall>b\<in>set pre. \<not> ends_after k b" "\<forall>b\<in>set R. ends_after k b"
  shows "map fst (from_key t k) = R"
  using assms by (cases R) (simp_all add: from_key_brefs dropWhile_append2)

text \<open>What is behind an element of a sorted list.\<close>

lemma behind_next:
  assumes "sorted_wrt bref_left (pre @ b # R)" "bref_wf b" "bref_next b \<noteq> 0"
  shows "\<forall>x\<in>set (pre @ [b]). \<not> ends_after (bref_next b) x" "\<forall>x\<in>set R. ends_after (bref_next b) x"
proof -
  have n: "unat (bref_next b) = bref_hi b" by (rule bref_next_nonzero(1)[OF assms(2,3)])
  show "\<forall>x\<in>set (pre @ [b]). \<not> ends_after (bref_next b) x"
    using assms(1) bref_hi_pos[of b] n by (auto simp: sorted_wrt_append bref_left_def)
  show "\<forall>x\<in>set R. ends_after (bref_next b) x"
    using assms(1) bref_hi_pos n by (auto simp: sorted_wrt_append bref_left_def intro: le_less_trans)
qed

lemma behind_last:
  assumes "sorted_wrt bref_left (pre @ b # R)" "bref_wf b" "bref_next b = 0"
  shows "R = []"
proof (rule ccontr)
  assume "R \<noteq> []"
  then obtain v where "v \<in> set R" by (cases R) auto
  then have "bref_hi b < 2 ^ 64" using assms(1) unat_u64[of "br_key v"] by (auto simp: sorted_wrt_append bref_left_def)
  then show False using bref_next_nonzero(2)[OF assms(2)] assms(3) by simp
qed

text \<open>
  One element of the range: it is loaded when it is not in memory, deleted from the parent and
  entered in the indirect block.
\<close>

definition loadable :: "hammer2_blockref \<Rightarrow> bool" where
  "loadable b \<longleftrightarrow> (case hammer2_chain_alloc b of Ok _ \<Rightarrow> True | _ \<Rightarrow> False)"

lemma move_element:
  assumes ok: "level_ok P count" "steady env P" and v: "(b, c) \<in> set (view P)" and l: "loadable b"
    and I: "level_ok (counted icount I) icount" "has_table I" "length (view I) < icount"
    and dis: "\<forall>x\<in>set (brefs I). bref_left x b \<or> bref_left b x"
  shows "\<exists>P1 c1 P2 c2 I'. (case c of Some c \<Rightarrow> Ok (Some (P, c)) | None \<Rightarrow> hammer2_chain_get P (core_generation (cn_chain P)) b) = Ok (Some (P1, c1)) \<and>
    \<not> has (cn_chain c1) HAMMER2_CHAIN_DELETED \<and> hammer2_chain_delete env P1 c1 = Ok (P2, c2) \<and>
    hammer2_chain_rename (attach build optimize env (Suc n)) I c2 = Ok (I', None) \<and>
    level_ok P2 count \<and> steady env P2 \<and> brefs P2 = filter (\<lambda>x. br_key x \<noteq> br_key b) (brefs P) \<and> cn_bref P2 = cn_bref P \<and>
    (cn_base P2 = None) = (cn_base P = None) \<and>
    level_ok I' icount \<and> brefs I' = bref_insort b (brefs I) \<and> cn_base I' = cn_base I \<and> cn_bref I' = cn_bref I \<and>
    ch_flags (cn_chain I') = ch_flags (cn_chain I) OR HAMMER2_CHAIN_ONFLUSH"
proof -
  have "\<exists>P1 c1. (case c of Some c \<Rightarrow> Ok (Some (P, c)) | None \<Rightarrow> hammer2_chain_get P (core_generation (cn_chain P)) b) = Ok (Some (P1, c1)) \<and>
    level_ok P1 count \<and> brefs P1 = brefs P \<and> c1 \<in> set (cn_kids P1) \<and> cn_bref c1 = b \<and> \<not> has (cn_chain c1) HAMMER2_CHAIN_DELETED \<and>
    cn_base P1 = cn_base P \<and> ch_flags (cn_chain P1) = ch_flags (cn_chain P) \<and> cn_bref P1 = cn_bref P"
  proof (cases c)
    case None
    obtain ch where "hammer2_chain_alloc b = Ok ch" using l by (auto simp: loadable_def split: outcome.splits)
    from chain_get_ok[OF ok(1) v[unfolded None] this] show ?thesis using None by auto
  next
    case (Some d)
    then have "d \<in> set (cn_kids P)" "cn_bref d = b" using view_kid[OF level_okD(1)[OF ok(1)]] v by auto
    moreover have "\<not> has (cn_chain d) HAMMER2_CHAIN_DELETED"
      using level_sorted(3)[OF level_okD(1)[OF ok(1)]] \<open>d \<in> set (cn_kids P)\<close> by (auto simp: kids_wf_def has_def)
    ultimately show ?thesis using Some ok(1) by auto
  qed
  then obtain P1 c1 where got: "(case c of Some c \<Rightarrow> Ok (Some (P, c)) | None \<Rightarrow> hammer2_chain_get P (core_generation (cn_chain P)) b) = Ok (Some (P1, c1))"
    and P1: "level_ok P1 count" "brefs P1 = brefs P" "c1 \<in> set (cn_kids P1)" "cn_bref c1 = b" "\<not> has (cn_chain c1) HAMMER2_CHAIN_DELETED"
      "cn_base P1 = cn_base P" "ch_flags (cn_chain P1) = ch_flags (cn_chain P)" "cn_bref P1 = cn_bref P" by blast
  have st1: "steady env P1" using ok(2) P1 by (simp add: steady_def has_def)
  obtain P2 c2 where del: "hammer2_chain_delete env P1 c1 = Ok (P2, c2)" and P2: "level_ok P2 count" "steady env P2"
      "brefs P2 = filter (\<lambda>x. br_key x \<noteq> br_key b) (brefs P)" "cn_bref P2 = cn_bref P" "(cn_base P2 = None) = (cn_base P = None)"
    and c2: "cn_bref c2 = b" "\<not> has (cn_chain c2) HAMMER2_CHAIN_ONRBTREE" "\<not> has (cn_chain c2) HAMMER2_CHAIN_BMAPPED"
    using chain_delete_ok[OF P1(1,3) st1] P1 by auto
  have "bref_wf b" using view_sorted(2)[OF level_okD(1)[OF ok(1)]] v by auto
  then obtain I' where "hammer2_chain_rename (attach build optimize env (Suc n)) I c2 = Ok (I', None)" "level_ok I' icount"
    "brefs I' = bref_insort b (brefs I)" "cn_base I' = cn_base I" "cn_bref I' = cn_bref I"
    "ch_flags (cn_chain I') = ch_flags (cn_chain I) OR HAMMER2_CHAIN_ONFLUSH"
    using rename_ok[OF I(1,3,2), of c2 build optimize env n] c2 dis by auto
  with got del P1(5) P2 show ?thesis by (intro exI[of _ P1] exI[of _ c1] exI[of _ P2] exI[of _ c2] exI[of _ I']) simp
qed

text \<open>The whole loop.\<close>

lemma filter_key_single:
  assumes "sorted_wrt bref_left (pre @ b # R)"
  shows "filter (\<lambda>x. br_key x \<noteq> br_key b) (pre @ b # R) = pre @ R"
proof -
  have "br_key x \<noteq> br_key b" if "x \<in> set pre \<union> set R" for x
    using assms that bref_left_key by (fastforce simp: sorted_wrt_append)
  then show ?thesis by (auto simp: filter_id_conv)
qed

lemma bref_insort_last: "\<forall>x\<in>set xs. bref_left x e \<Longrightarrow> bref_insort e xs = xs @ [e]"
  by (simp add: bref_insort_def filter_id_conv filter_empty_conv)

lemma counted_id: "level_ok t count \<Longrightarrow> counted count t = t"
  by (simp add: countbrefs_counted[OF level_ok_counted])

text \<open>One round of the loop.\<close>

lemma indirect_loop_step:
  assumes "\<not> (cn_base P \<noteq> None \<and> br_data_off (cn_bref P) \<noteq> off)"
    "hammer2_combined_find build P count cache k (-1) = Ok (c, Some b, cache', next)"
  shows "NOT (push_bit keybits 1 - 1) AND (key XOR br_key b) \<noteq> 0 \<Longrightarrow>
      indirect_loop build env create off count key keybits (Suc l) cache k P I =
      (if bref_next b = 0 then Ok (P, I) else indirect_loop build env create off count key keybits l cache' (bref_next b) P I)"
    "NOT (push_bit keybits 1 - 1) AND (key XOR br_key b) = 0 \<Longrightarrow>
      (case c of Some c \<Rightarrow> Ok (Some (P, c)) | None \<Rightarrow> hammer2_chain_get P (core_generation (cn_chain P)) b) = Ok (Some (P1, c1)) \<Longrightarrow>
      \<not> has (cn_chain c1) HAMMER2_CHAIN_DELETED \<Longrightarrow> hammer2_chain_delete env P1 c1 = Ok (P2, c2) \<Longrightarrow>
      hammer2_chain_rename create I c2 = Ok (I', None) \<Longrightarrow>
      indirect_loop build env create off count key keybits (Suc l) cache k P I =
      (if bref_next b = 0 then Ok (P2, I') else indirect_loop build env create off count key keybits l cache' (bref_next b) P2 I')"
  unfolding indirect_loop.simps(2) if_not_P[OF assms(1)] assms(2) obind.simps prod.case option.case Let_def by simp_all

lemma indirect_loop_ok:
  assumes n: "keybits < 64"
  shows "level_ok P count \<Longrightarrow> steady env P \<Longrightarrow> cn_base P = None \<or> br_data_off (cn_bref P) = off \<Longrightarrow>
    brefs P = pre @ R \<Longrightarrow> \<forall>b\<in>set pre. \<not> ends_after k b \<Longrightarrow> \<forall>b\<in>set R. ends_after k b \<Longrightarrow> \<forall>b\<in>set R. loadable b \<Longrightarrow>
    level_ok (counted icount I) icount \<Longrightarrow> has_table I \<Longrightarrow> \<forall>x\<in>set (brefs I). \<forall>b\<in>set R. bref_left x b \<Longrightarrow>
    length (brefs I) + length R \<le> icount \<Longrightarrow> length R < loops \<Longrightarrow>
    \<exists>P' I'. indirect_loop RB_TREE env (attach RB_TREE optimize env (Suc n)) off count key keybits loops cache k P I = Ok (P', I') \<and>
      level_ok P' count \<and> steady env P' \<and> brefs P' = pre @ filter (\<lambda>b. \<not> agree keybits key (br_key b)) R \<and> cn_bref P' = cn_bref P \<and>
      (cn_base P' = None) = (cn_base P = None) \<and>
      level_ok (counted icount I') icount \<and> brefs I' = brefs I @ filter (\<lambda>b. agree keybits key (br_key b)) R \<and>
      cn_base I' = cn_base I \<and> cn_bref I' = cn_bref I \<and>
      (\<exists>m. m AND NOT HAMMER2_CHAIN_ONFLUSH = 0 \<and> ch_flags (cn_chain I') = ch_flags (cn_chain I) OR m) \<and>
      (level_ok I icount \<or> brefs I' \<noteq> brefs I \<longrightarrow> level_ok I' icount)"
proof (induction R arbitrary: P I pre k cache loops)
  case Nil
  obtain l where l: "loops = Suc l" using Nil.prems(12) by (cases loops) auto
  have f: "from_key P k = []" using from_key_parts[OF Nil.prems(4,5,6)] by simp
  obtain cache' "next" where "hammer2_combined_find RB_TREE P count cache k (-1) = Ok (None, None, cache', next)"
    using combined_find_from[OF level_okD(1)[OF Nil.prems(1)], of cache k] f by auto
  then have "indirect_loop RB_TREE env (attach RB_TREE optimize env (Suc n)) off count key keybits loops cache k P I = Ok (P, I)"
    using Nil.prems(3) by (auto simp: l indirect_loop.simps)
  then show ?case using Nil.prems by (auto intro!: exI[of _ "0 :: u32"])
next
  case (Cons b R)
  obtain l where l: "loops = Suc l" using Cons.prems(12) by (cases loops) auto
  note wf = level_okD(1)[OF Cons.prems(1)]
  have "map fst (from_key P k) = b # R" by (rule from_key_parts[OF Cons.prems(4,5,6)])
  then obtain c rs where f: "from_key P k = (b, c) # rs" by auto
  obtain cache' where cf: "hammer2_combined_find RB_TREE P count cache k (-1) = Ok (c, Some b, cache', bref_next b)"
    using combined_find_from[OF wf, of cache k] f by auto
  have v: "(b, c) \<in> set (view P)" by (rule from_key_next(3)[OF wf f])
  have bw: "bref_wf b" using view_sorted(2)[OF wf] v by auto
  have so: "sorted_wrt bref_left (pre @ b # R)" using brefs_sorted[OF wf] Cons.prems(4) by simp
  have off: "\<not> (cn_base P \<noteq> None \<and> br_data_off (cn_bref P) \<noteq> off)" using Cons.prems(3) by auto
  show ?case
  proof (cases "agree keybits key (br_key b)")
    case False
    then have t: "NOT (push_bit keybits 1 - 1) AND (key XOR br_key b) \<noteq> 0" using agree_test[OF n, of key "br_key b"] by blast
    note step = indirect_loop_step(1)[OF off cf t, of env "attach RB_TREE optimize env (Suc n)" l I]
    show ?thesis
    proof (cases "bref_next b = 0")
      case True
      then have "R = []" using behind_last[OF so bw] by blast
      then show ?thesis using step True False Cons.prems l by (auto intro!: exI[of _ "0 :: u32"])
    next
      case nz: False
      note bn = behind_next[OF so bw nz]
      have "brefs P = (pre @ [b]) @ R" using Cons.prems(4) by simp
      from Cons.IH[OF Cons.prems(1-3) this bn _ Cons.prems(8,9), of l cache']
      show ?thesis using step nz False Cons.prems l by simp
    qed
  next
    case True
    then have t: "NOT (push_bit keybits 1 - 1) AND (key XOR br_key b) = 0" using agree_test[OF n, of key "br_key b"] by blast
    have room: "length (view I) < icount" using Cons.prems(11) by simp
    have lb: "loadable b" using Cons.prems(7) by simp
    have dis: "\<forall>x\<in>set (brefs I). bref_left x b \<or> bref_left b x" using Cons.prems(10) by (metis list.set_intros(1))
    obtain P1 c1 P2 c2 I1 where m: "(case c of Some c \<Rightarrow> Ok (Some (P, c)) | None \<Rightarrow> hammer2_chain_get P (core_generation (cn_chain P)) b) = Ok (Some (P1, c1))"
      "\<not> has (cn_chain c1) HAMMER2_CHAIN_DELETED" "hammer2_chain_delete env P1 c1 = Ok (P2, c2)"
      "hammer2_chain_rename (attach RB_TREE optimize env (Suc n)) I c2 = Ok (I1, None)"
      and P2: "level_ok P2 count" "steady env P2" "brefs P2 = filter (\<lambda>x. br_key x \<noteq> br_key b) (brefs P)" "cn_bref P2 = cn_bref P"
        "(cn_base P2 = None) = (cn_base P = None)"
      and I1: "level_ok I1 icount" "brefs I1 = bref_insort b (brefs I)" "cn_base I1 = cn_base I" "cn_bref I1 = cn_bref I"
        "ch_flags (cn_chain I1) = ch_flags (cn_chain I) OR HAMMER2_CHAIN_ONFLUSH"
      using move_element[OF Cons.prems(1,2) v lb Cons.prems(8,9) room dis, of RB_TREE optimize n] by (elim exE conjE) (rule that)
    note step = indirect_loop_step(2)[OF off cf t m, of l]
    have bP: "brefs P2 = pre @ R" using P2(3) Cons.prems(4) filter_key_single[OF so] by simp
    have bI: "brefs I1 = brefs I @ [b]" using I1(2) bref_insort_last[of "brefs I" b] Cons.prems(10) by (metis list.set_intros(1))
    have cI: "level_ok (counted icount I1) icount" using I1(1) counted_id[OF I1(1)] by simp
    have hI: "has_table I1" using Cons.prems(9) I1(3,4) by (simp add: has_table_def)
    show ?thesis
    proof (cases "bref_next b = 0")
      case nz: True
      then have "R = []" using behind_last[OF so bw] by blast
      then show ?thesis using step nz True P2 I1 bP bI cI l
        by (auto intro!: exI[of _ "HAMMER2_CHAIN_ONFLUSH"])
    next
      case nz: False
      note bn = behind_next[OF so bw nz]
      have off2: "cn_base P2 = None \<or> br_data_off (cn_bref P2) = off" using Cons.prems(3) P2(4,5) by simp
      have pre: "\<forall>x\<in>set pre. \<not> ends_after (bref_next b) x" using bn(1) by simp
      have lR: "\<forall>x\<in>set R. loadable x" using Cons.prems(7) by simp
      have dR: "\<forall>x\<in>set (brefs I1). \<forall>y\<in>set R. bref_left x y"
        using Cons.prems(10) so unfolding bI by (auto simp: sorted_wrt_append)
      have room2: "length (brefs I1) + length R \<le> icount" "length R < l" using Cons.prems(11,12) bI l by simp_all
      from Cons.IH[OF P2(1,2) off2 bP pre bn(2) lR cI hI dR room2, of cache'] obtain P' I' m' where
        L: "indirect_loop RB_TREE env (attach RB_TREE optimize env (Suc n)) off count key keybits l cache' (bref_next b) P2 I1 = Ok (P', I')"
          "level_ok P' count" "steady env P'" "brefs P' = pre @ filter (\<lambda>b. \<not> agree keybits key (br_key b)) R" "cn_bref P' = cn_bref P2"
          "(cn_base P' = None) = (cn_base P2 = None)" "level_ok (counted icount I') icount"
          "brefs I' = brefs I1 @ filter (\<lambda>b. agree keybits key (br_key b)) R" "cn_base I' = cn_base I1" "cn_bref I' = cn_bref I1"
          "m' AND NOT HAMMER2_CHAIN_ONFLUSH = 0" "ch_flags (cn_chain I') = ch_flags (cn_chain I1) OR m'" "level_ok I1 icount \<or> brefs I' \<noteq> brefs I1 \<longrightarrow> level_ok I' icount"
        by (elim exE conjE) (rule that)
      have "level_ok I' icount" using L(13) I1(1) by blast
      moreover have "ch_flags (cn_chain I') = ch_flags (cn_chain I) OR (HAMMER2_CHAIN_ONFLUSH OR m')" using L(12) I1(5) by (simp add: or.assoc)
      moreover have "(HAMMER2_CHAIN_ONFLUSH OR m') AND NOT HAMMER2_CHAIN_ONFLUSH = 0" using L(11) by (simp add: bit.conj_disj_distrib2)
      ultimately show ?thesis using step nz True L P2(4,5) I1(3,4) bI l
        by (intro exI[of _ P'] exI[of _ I'] conjI exI[of _ "HAMMER2_CHAIN_ONFLUSH OR m'"]) simp_all
    qed
  qed
qed

section \<open>The new indirect block\<close>

text \<open>The freemap has blocks left and their buffers can be had.\<close>

definition env_ok :: "chain_env \<Rightarrow> bool" where
  "env_ok env \<longleftrightarrow> (\<forall>c. \<exists>off. ev_alloc env c = Ok (Some off) \<and> \<not> ev_io_error env off)"

lemma elems_zero: "elems (replicate n blockref_zero) = []"
  by (induction n) (auto simp: blockref_zero_def)

lemma fresh_indirect:
  assumes env: "env_ok env" and b: "br_type b = HAMMER2_BREF_TYPE_INDIRECT" "br_flags b = 0" "br_data_off b = of_nat radix" "radix \<in> {14, 16}"
  obtains ch I off where "hammer2_chain_alloc b = Ok ch" "hammer2_chain_modify env (CNode (set_flag HAMMER2_CHAIN_INITIAL ch) None []) = Ok I"
    "level_ok (counted (2 ^ radix div 64) I) (2 ^ radix div 64)" "has_table I" "brefs I = []" "cn_bref I = b\<lparr>br_data_off := off\<rparr>"
    "\<not> has (cn_chain I) HAMMER2_CHAIN_DELETED" "\<not> has (cn_chain I) HAMMER2_CHAIN_BMAPPED" "\<not> has (cn_chain I) HAMMER2_CHAIN_ONRBTREE"
    "cn_base I \<noteq> None" "base_elems I = []"
proof -
  have r: "unat (br_data_off b AND 63) = radix" "br_data_off b AND NOT 63 = 0" using b(3,4) by auto
  define ch where "ch = \<lparr>ch_bref = b, ch_flags = 2, ch_bytes = 2 ^ radix, core_live_zero = 0, core_flags = 0, core_live_count = 0,
      core_chain_count = 0, core_generation = 0\<rparr>"
  have al: "hammer2_chain_alloc b = Ok ch" using b r(1) by (auto simp: hammer2_chain_alloc_def ch_def)
  define c1 where "c1 = set_flag 0x41 (set_flag HAMMER2_CHAIN_INITIAL ch)"
  obtain off where off: "ev_alloc env c1 = Ok (Some off)" "\<not> ev_io_error env off" using env by (auto simp: env_ok_def)
  define c4 where "c4 = clear_flag HAMMER2_CHAIN_INITIAL (c1\<lparr>ch_bref := b\<lparr>br_data_off := off\<rparr>\<rparr>)"
  define n :: nat where "n = 2 ^ radix div 64"
  have tc: "table_count c4 = Ok n" using b(1) by (simp add: table_count_def c4_def c1_def ch_def set_flag_def clear_flag_def n_def)
  define I where "I = CNode c4 (Some (replicate n blockref_zero)) []"
  have h1: "\<not> has (c1\<lparr>ch_bref := x\<rparr>) HAMMER2_CHAIN_BMAPPED" "has (c1\<lparr>ch_bref := x\<rparr>) HAMMER2_CHAIN_INITIAL" for x
    by (simp_all add: has_def c1_def ch_def set_flag_def)
  have md: "hammer2_chain_modify env (CNode (set_flag HAMMER2_CHAIN_INITIAL ch) None []) = Ok I"
  proof -
    have "ch_bref c1 = b" "cn_bref (CNode (set_flag HAMMER2_CHAIN_INITIAL ch) None []) = b" by (simp_all add: c1_def ch_def set_flag_def)
    moreover have "br_data_off (ch_bref c4) = off" by (simp add: c4_def clear_flag_def)
    ultimately show ?thesis using b(1) r(2) off h1 tc
      by (simp add: hammer2_chain_modify_def Let_def kkassert_def c1_def[symmetric] c4_def[symmetric] zero_table_def I_def)
  qed
  have flags: "ch_flags c4 = 0x43" by (simp add: c4_def c1_def ch_def set_flag_def clear_flag_def)
  have core: "core_flags c4 = 0" "core_live_count c4 = 0" by (simp_all add: c4_def c1_def ch_def set_flag_def clear_flag_def)
  have ez: "ordered_elems (replicate n blockref_zero)" by (simp add: ordered_elems_def elems_zero)
  have cw: "blocktable_wf (hammer2_chain_countbrefs c4 (Some (replicate n blockref_zero)) n) (replicate n blockref_zero) n"
    "core_live_count (hammer2_chain_countbrefs c4 (Some (replicate n blockref_zero)) n) = 0"
    using countbrefs_wf[OF ez, of n c4] core by (simp_all add: elems_zero)
  have "n < 2 ^ 31" using b(4) by (auto simp: n_def)
  then have ok: "level_ok (counted n I) n"
    using cw tc flags by (simp add: level_ok_def level_wf_def I_def base_elems_def elems_zero kids_wf_def overlay_ok_def mapped_ok_def view_def has_def)
  show ?thesis
  proof (rule that[OF al md])
    show "level_ok (counted (2 ^ radix div 64) I) (2 ^ radix div 64)" using ok by (simp only: n_def)
    show "cn_bref I = b\<lparr>br_data_off := off\<rparr>" by (simp add: I_def c4_def clear_flag_def)
  qed (simp_all add: I_def has_table_def view_def base_elems_def elems_zero flags has_def)
qed

section \<open>The split\<close>

lemma getradix_indirect: "hammer2_getradix (of_nat 16384) = Ok 14" "hammer2_getradix (of_nat 65536) = Ok 16"
  by (simp_all add: hammer2_getradix_def getradix_loop.simps)

text \<open>What is asked of the parent and of the range to be created.\<close>

definition splittable :: "chain_env \<Rightarrow> ctree \<Rightarrow> nat \<Rightarrow> u64 \<Rightarrow> nat \<Rightarrow> bool" where
  "splittable env t count key bits \<longleftrightarrow> env_ok env \<and> level_ok t count \<and> steady env t \<and> has_table t \<and> 0 < length (view t) \<and>
     length (view t) \<le> count \<and> count \<le> 1024 \<and>
     (\<forall>b\<in>set (brefs t). loadable b \<and> bref_aligned b \<and> clear_of key bits b) \<and> 2 ^ bits dvd unat key \<and> bits < 64"

lemma align_key:
  fixes key :: u64
  assumes "n < 64"
  shows "unat (key AND NOT (push_bit n 1 - 1)) = unat key div 2 ^ n * 2 ^ n"
    "unat key div 2 ^ n * 2 ^ n + 2 ^ n \<le> 2 ^ 64" "agree n (key AND NOT (push_bit n 1 - 1)) w = agree n key w"
proof -
  have m: "push_bit n 1 - 1 = (mask n :: u64)" by (simp add: mask_eq_exp_minus_1 push_bit_eq_mult)
  show u: "unat (key AND NOT (push_bit n 1 - 1)) = unat key div 2 ^ n * 2 ^ n"
    unfolding m unat_and_not_mask by (simp add: minus_mod_eq_div_mult)
  have "(2 :: nat) ^ 64 = 2 ^ (64 - n) * 2 ^ n" using assms by (simp flip: power_add)
  moreover from this have "unat key div 2 ^ n < 2 ^ (64 - n)" using unat_u64[of key] by (intro less_mult_imp_div_less) simp
  then have "(unat key div 2 ^ n + 1) * 2 ^ n \<le> 2 ^ (64 - n) * 2 ^ n" by (intro mult_le_mono1) simp
  ultimately show "unat key div 2 ^ n * 2 ^ n + 2 ^ n \<le> 2 ^ 64" by (simp add: algebra_simps)
  show "agree n (key AND NOT (push_bit n 1 - 1)) w = agree n key w" by (simp only: agree_div u) simp
qed

lemma create_indirect_ok:
  assumes sp: "splittable env t count key bits" and ty: "type \<notin> {HAMMER2_BREF_TYPE_FREEMAP_NODE, HAMMER2_BREF_TYPE_FREEMAP_LEAF}"
  obtains t' I ikey m icount where
    "hammer2_chain_create_indirect RB_TREE False env (attach RB_TREE False env (Suc n)) t key bits type =
       Ok (t', if agree m key ikey then Some ikey else None)"
    "level_ok t' count" "has_table t'" "I \<in> set (cn_kids t')" "level_ok I icount" "has_table I"
    "br_type (cn_bref I) = HAMMER2_BREF_TYPE_INDIRECT" "has (cn_chain I) HAMMER2_CHAIN_ONRBTREE"
    "cn_base I \<noteq> None" "base_elems I = []" "cn_bref t' = cn_bref t"
    "br_key (cn_bref I) = ikey" "unat (br_keybits (cn_bref I)) = m" "m < 64" "bits \<le> m" "2 ^ m dvd unat ikey"
    "brefs t' = bref_insort (cn_bref I) (filter (\<lambda>b. \<not> inside ikey m b) (brefs t))" "brefs I = filter (inside ikey m) (brefs t)"
    "\<forall>b\<in>set (brefs t). inside ikey m b \<or> outside ikey m b" "count \<le> icount"
    "length (brefs t) \<le> 2 * length (brefs I)" "agree m key ikey \<longrightarrow> length (brefs I) < length (brefs t)"
proof -
  note S = sp[unfolded splittable_def]
  have ok: "level_ok t count" and st: "steady env t" and ht: "has_table t" using S by auto
  note wf = level_okD(1)[OF ok]
  have ne: "view t \<noteq> []" and len: "length (view t) < 299998" using S by auto
  have el: "\<forall>v\<in>set (view t). bref_aligned (fst v) \<and> clear_of key bits (fst v)" using S by auto
  obtain key1 m where K: "hammer2_chain_indkey_normal RB_TREE False t count key bits = Ok (key1, m)" "bits \<le> m" "m < 64"
    "\<forall>v\<in>set (view t). unat (br_keybits (fst v)) \<le> m"
    "agree m key1 key \<longrightarrow> (\<exists>v\<in>set (view t). \<not> inside key1 m (fst v))"
    "\<not> False \<longrightarrow> length (view t) \<le> 2 * length (filter (\<lambda>v. inside key1 m (fst v)) (view t))"
    "agree (m + 1) key key1" "\<forall>v\<in>set (view t). agree (m + 1) (br_key (fst v)) key1" "\<exists>v\<in>set (view t). \<not> agree m (br_key (fst v)) key"
    by (rule indkey_normal_ok[OF wf ne len el]) (use S in auto)
  define ikey where "ikey = key1 AND NOT (push_bit m 1 - 1)"
  note A = align_key[OF K(3), of key1, folded ikey_def]
  have ins: "inside ikey m b \<longleftrightarrow> agree m ikey (br_key b)" if "b \<in> set (brefs t)" for b
    using agree_inside_iff K(4) that by auto
  have ins1: "inside ikey m b = inside key1 m b" for b by (simp add: inside_def A(1))
  define nb where "nb = (if br_type (cn_bref t) = HAMMER2_BREF_TYPE_INODE then 16384 else 65536 :: nat)"
  define radix where "radix = (if br_type (cn_bref t) = HAMMER2_BREF_TYPE_INODE then 14 else 16 :: nat)"
  have cnt: "\<not> nb < count * 64" "count \<le> 2 ^ radix div 64"
    using S level_okD(4)[OF ok] by (auto simp: nb_def radix_def table_count_def)
  have gr: "hammer2_getradix (of_nat nb) = Ok radix" using getradix_indirect by (simp add: nb_def radix_def)
  define b where "b = blockref_zero\<lparr>br_type := HAMMER2_BREF_TYPE_INDIRECT, br_key := ikey, br_keybits := of_nat m,
      br_data_off := of_nat radix, br_methods := br_methods (cn_bref t)\<rparr>"
  define icount where "icount = (2 :: nat) ^ radix div 64"
  have rb: "radix \<in> {14, 16}" by (simp add: radix_def)
  have "env_ok env" using S by simp
  then obtain ch I0 off where F: "hammer2_chain_alloc b = Ok ch" "hammer2_chain_modify env (CNode (set_flag HAMMER2_CHAIN_INITIAL ch) None []) = Ok I0"
    "level_ok (counted icount I0) icount" "has_table I0" "brefs I0 = []" "cn_bref I0 = b\<lparr>br_data_off := off\<rparr>"
    "\<not> has (cn_chain I0) HAMMER2_CHAIN_DELETED" "\<not> has (cn_chain I0) HAMMER2_CHAIN_BMAPPED" "\<not> has (cn_chain I0) HAMMER2_CHAIN_ONRBTREE"
    "cn_base I0 \<noteq> None" "base_elems I0 = []"
    unfolding icount_def by (rule fresh_indirect[of env b radix]) (use rb in \<open>simp_all add: b_def blockref_zero_def\<close>)
  have e0: "\<forall>x\<in>set (brefs t). ends_after 0 x" by (auto simp: bref_hi_def)
  have L: "length (brefs I0) + length (brefs t) \<le> icount" "length (brefs t) < 100000"
    using F(5) S cnt(2) by (auto simp: icount_def)
  have ld: "\<forall>b\<in>set (brefs t). loadable b" using S by blast
  have p3: "cn_base t = None \<or> br_data_off (cn_bref t) = br_data_off (cn_bref t)" and p4: "brefs t = [] @ brefs t"
    and p5: "\<forall>x\<in>set ([] :: hammer2_blockref list). \<not> ends_after 0 x" and p10: "\<forall>x\<in>set (brefs I0). \<forall>y\<in>set (brefs t). bref_left x y"
    using F(5) by simp_all
  obtain P1 I1 mm where
    Q: "indirect_loop RB_TREE env (attach RB_TREE False env (Suc n)) (br_data_off (cn_bref t)) count ikey m 100000 0 0 t I0 = Ok (P1, I1)"
      "level_ok P1 count" "steady env P1" "brefs P1 = [] @ filter (\<lambda>b. \<not> agree m ikey (br_key b)) (brefs t)" "cn_bref P1 = cn_bref t"
      "(cn_base P1 = None) = (cn_base t = None)" "level_ok (counted icount I1) icount"
      "brefs I1 = brefs I0 @ filter (\<lambda>b. agree m ikey (br_key b)) (brefs t)" "cn_base I1 = cn_base I0" "cn_bref I1 = cn_bref I0"
      "mm AND NOT HAMMER2_CHAIN_ONFLUSH = 0" "ch_flags (cn_chain I1) = ch_flags (cn_chain I0) OR mm"
      "level_ok I0 icount \<or> brefs I1 \<noteq> brefs I0 \<longrightarrow> level_ok I1 icount"
    using indirect_loop_ok[OF K(3) ok st p3 p4 p5 e0 ld F(3,4) p10 L, where optimize = False and n = n and key = ikey and cache = 0]
    by (elim exE conjE) (rule that)
  have fi: "filter (\<lambda>b. agree m ikey (br_key b)) (brefs t) = filter (inside ikey m) (brefs t)"
    "filter (\<lambda>b. \<not> agree m ikey (br_key b)) (brefs t) = filter (\<lambda>b. \<not> inside ikey m b) (brefs t)"
    using ins by (auto intro!: filter_cong)
  have bP: "brefs P1 = filter (\<lambda>b. \<not> inside ikey m b) (brefs t)" and bI: "brefs I1 = filter (inside ikey m) (brefs t)"
    using Q(4,8) F(5) fi by simp_all
  have half: "length (brefs t) \<le> 2 * length (brefs I1)" using K(6) by (simp add: bI filter_map comp_def ins1)
  then have i1: "brefs I1 \<noteq> []" using ne by auto
  then have okI: "level_ok I1 icount" using Q(13) F(5) by simp
  have hI: "has (cn_chain I1) x = has (cn_chain I0) x" if "NOT HAMMER2_CHAIN_ONFLUSH AND x = x" for x
  proof -
    have "mm AND x = (mm AND NOT HAMMER2_CHAIN_ONFLUSH) AND x" using that by (simp only: and.assoc)
    then show ?thesis using Q(11,12) by (simp add: has_def bit.conj_disj_distrib2)
  qed
  have rng: "br_key (cn_bref I1) = ikey" "unat (br_keybits (cn_bref I1)) = m"
    using Q(10) F(6) K(3) by (simp_all add: b_def unat_of_nat_small)
  have hiI: "bref_hi (cn_bref I1) = unat key1 div 2 ^ m * 2 ^ m + 2 ^ m" using rng A(1) by (simp add: bref_hi_def)
  have wI: "bref_wf (cn_bref I1)" using rng A(1,2) K(3) by (simp add: bref_wf_def)
  have io: "\<forall>x\<in>set (brefs t). inside ikey m x \<or> outside ikey m x"
    using S K(4) inside_or_outside[of _ m ikey] by auto
  have dis: "\<forall>x\<in>set (brefs P1). bref_left x (cn_bref I1) \<or> bref_left (cn_bref I1) x"
    unfolding bP using io hiI rng A(1) by (auto simp: outside_def bref_left_def)
  have room: "length (view P1) < count"
  proof -
    have "length (brefs P1) + length (brefs I1) = length (brefs t)"
      using sum_length_filter_compl[of "inside ikey m" "brefs t"] by (simp add: bP bI)
    moreover have "0 < length (brefs I1)" using i1 by simp
    moreover have "length (brefs t) \<le> count" using S by simp
    ultimately show ?thesis by (simp only: length_map)
  qed
  let ?If = "with_chain (set_flag HAMMER2_CHAIN_ONFLUSH) I1"
  let ?I = "with_chain (set_flag HAMMER2_CHAIN_ONRBTREE) ?If"
  obtain t2 where T: "hammer2_chain_insert P1 ?If True None = Ok (Some (t2, ?I))" "level_ok t2 count"
    "brefs t2 = bref_insort (cn_bref ?If) (brefs P1)" "set (cn_kids t2) = insert ?I (set (cn_kids P1))" "cn_base t2 = cn_base P1" "cn_bref t2 = cn_bref P1"
    using chain_insert_ok[OF Q(2) room, of ?If] wI F(7,8) hI dis by (auto simp: flag_simps)
  let ?t = "with_chain (set_flag HAMMER2_CHAIN_ONFLUSH) t2"
  have p0: "(if has (cn_chain t) HAMMER2_CHAIN_INITIAL then CNode (cn_chain t) None (cn_kids t) else t) = t"
    using level_okD(6)[OF ok] by (cases t) auto
  have nf: "\<not> (\<not> has (cn_chain t) HAMMER2_CHAIN_INITIAL \<and> cn_base t = None \<and> br_type (cn_bref t) = HAMMER2_BREF_TYPE_INODE)"
    using ht by (auto simp: has_table_def)
  have onI: "\<not> has (cn_chain I1) HAMMER2_CHAIN_ONRBTREE" using hI F(9) by simp
  have ag: "NOT (push_bit m 1 - 1) AND (key XOR ikey) \<noteq> 0 \<longleftrightarrow> \<not> agree m key ikey" using agree_test[OF K(3)] by blast
  have ci: "hammer2_chain_create_indirect RB_TREE False env (attach RB_TREE False env (Suc n)) t key bits type =
       Ok (?t, if agree m key ikey then Some ikey else None)"
    unfolding hammer2_chain_create_indirect_def level_okD(4)[OF ok] obind.simps Let_def p0 if_not_P[OF nf] if_not_P[OF ty] K(1) prod.case
      ikey_def[symmetric] nb_def[symmetric] if_not_P[OF cnt(1)] gr b_def[symmetric] F(1,2) Q(1) T(1) option.case ag
    using onI by simp
  show ?thesis
  proof (rule that[OF ci])
    show "level_ok ?t count" by (rule level_ok_flags[OF T(2)]) simp
    show "has_table ?t" using ht T(5,6) Q(5,6) by (simp add: has_table_def)
    show "?I \<in> set (cn_kids ?t)" using T(4) by simp
    show "level_ok ?I icount" by (intro level_ok_flags okI) simp_all
    show "has_table ?I" using F(4) Q(9,10) by (simp add: has_table_def)
    show "br_type (cn_bref ?I) = HAMMER2_BREF_TYPE_INDIRECT" using Q(10) F(6) by (simp add: b_def)
    show "has (cn_chain ?I) HAMMER2_CHAIN_ONRBTREE" by (simp add: flag_simps)
    show "cn_base ?I \<noteq> None" "base_elems ?I = []" using F(10,11) Q(9) by (simp_all add: base_elems_def)
    show "cn_bref ?t = cn_bref t" using T(6) Q(5) by simp
    show "br_key (cn_bref ?I) = ikey" "unat (br_keybits (cn_bref ?I)) = m" using rng by simp_all
    show "brefs ?t = bref_insort (cn_bref ?I) (filter (\<lambda>b. \<not> inside ikey m b) (brefs t))" using T(3) bP by simp
    show "brefs ?I = filter (inside ikey m) (brefs t)" using bI by (simp add: view_def base_elems_def)
    show "2 ^ m dvd unat ikey" by (simp add: A(1))
    show "count \<le> icount" using cnt(2) by (simp add: icount_def)
    show "length (brefs t) \<le> 2 * length (brefs ?I)" using half by (simp add: view_def base_elems_def)
    show "agree m key ikey \<longrightarrow> length (brefs ?I) < length (brefs t)"
    proof
      assume "agree m key ikey"
      then have "agree m key1 key" using A(3) agree_sym by blast
      then obtain v where "v \<in> set (view t)" "\<not> inside ikey m (fst v)" using K(5) ins1 by blast
      then have "length (filter (inside ikey m) (brefs t)) < length (brefs t)" by (intro length_filter_less[of "fst v"]) auto
      then show "length (brefs ?I) < length (brefs t)" using bI by (simp add: view_def base_elems_def)
    qed
  qed (use K io in simp_all)
qed

section \<open>Creating a chain\<close>

text \<open>A new indirect block on a level and the elements in its range.\<close>

definition in_block :: "ctree \<Rightarrow> hammer2_blockref \<Rightarrow> bool" where
  "in_block I = inside (br_key (cn_bref I)) (unat (br_keybits (cn_bref I)))"

definition new_block :: "ctree \<Rightarrow> ctree \<Rightarrow> bool" where
  "new_block t I \<longleftrightarrow> I \<in> set (cn_kids t) \<and> br_type (cn_bref I) = HAMMER2_BREF_TYPE_INDIRECT \<and> (\<exists>icount. level_ok I icount) \<and>
     cn_base I \<noteq> None \<and> base_elems I = [] \<and> bref_aligned (cn_bref I)"

text \<open>Where a chain has been entered: on the level as it was, beside a new indirect block, or in it.\<close>

definition attached :: "ctree \<Rightarrow> ctree \<Rightarrow> ctree \<Rightarrow> bool" where
  "attached t t' c \<longleftrightarrow> c \<in> set (cn_kids t') \<and> brefs t' = bref_insort (cn_bref c) (brefs t) \<or>
     (\<exists>I. new_block t' I \<and>
        (c \<in> set (cn_kids t') \<and> brefs I = filter (in_block I) (brefs t) \<and>
           brefs t' = bref_insort (cn_bref c) (bref_insort (cn_bref I) (filter (\<lambda>b. \<not> in_block I b) (brefs t))) \<or>
         c \<in> set (cn_kids I) \<and> in_block I (cn_bref c) \<and> brefs I = bref_insort (cn_bref c) (filter (in_block I) (brefs t)) \<and>
           brefs t' = bref_insort (cn_bref I) (filter (\<lambda>b. \<not> in_block I b) (brefs t))))"

lemma set_bref_insort: "set (bref_insort e xs) = insert e (set xs)"
  by (auto simp: bref_insort_def)

lemma clear_left:
  "clear_of (br_key c) (unat (br_keybits c)) b \<longleftrightarrow> bref_left b c \<or> bref_left c b"
  by (simp add: clear_of_def bref_left_def bref_hi_def)

lemma find_kid:
  assumes "kids_wf ks" "I \<in> set ks"
  shows "find (\<lambda>x. br_key (cn_bref x) = br_key (cn_bref I)) ks = Some I"
  using assms
proof (induction ks)
  case (Cons k ks)
  show ?case
  proof (cases "I = k")
    case False
    then have "I \<in> set ks" using Cons.prems by simp
    then have "br_key (cn_bref k) < br_key (cn_bref I)" using Cons.prems(1) bref_left_key by (auto simp: kids_wf_def)
    then show ?thesis using Cons \<open>I \<in> set ks\<close> by (auto simp: kids_wf_def)
  qed simp
qed simp

text \<open>The entry of a chain, with the result of \<open>hammer2_chain_modify\<close> when it is new.\<close>

definition entered :: "chain_env \<Rightarrow> bool \<Rightarrow> ctree \<Rightarrow> ctree \<Rightarrow> bool" where
  "entered env allocated c c' \<longleftrightarrow>
     (if allocated
      then br_type (cn_bref c) \<in> {HAMMER2_BREF_TYPE_DATA, HAMMER2_BREF_TYPE_FREEMAP_LEAF, HAMMER2_BREF_TYPE_INODE} \<and>
           hammer2_chain_modify env (with_chain (set_flag HAMMER2_CHAIN_ONRBTREE) c) = Ok c' \<and> same_range (cn_bref c) (cn_bref c') \<and>
           \<not> has (cn_chain c') HAMMER2_CHAIN_DELETED \<and> has (cn_chain c') HAMMER2_CHAIN_ONRBTREE \<and> \<not> has (cn_chain c') HAMMER2_CHAIN_BMAPPED
      else c' = with_chain (set_flag (HAMMER2_CHAIN_ONRBTREE OR HAMMER2_CHAIN_UPDATE)) c)"

lemma create_again_full:
  assumes "level_ok t count" "has_table t" "length (view t) = count"
  shows "create_again build optimize env (Suc n) type allocated t c =
    obind (hammer2_chain_create_indirect build optimize env (attach build optimize env n) t (br_key (cn_bref c)) (unat (br_keybits (cn_bref c))) type)
      (\<lambda>(parent2, sub).
        (case sub of
           None \<Rightarrow> create_again build optimize env n type allocated parent2 c
         | Some k \<Rightarrow>
             (case find (\<lambda>x. br_key (cn_bref x) = k) (cn_kids parent2) of
                None \<Rightarrow> Fault ''nparent''
              | Some ichain \<Rightarrow>
                  obind (create_again build optimize env n type allocated ichain c) (\<lambda>(ichain', _, chain').
                    Ok (replace_kid ichain' parent2, Some k, chain')))))"
proof -
  have base: "(if br_type (cn_bref t) \<in> {HAMMER2_BREF_TYPE_INDIRECT, HAMMER2_BREF_TYPE_FREEMAP_NODE} \<and> has (cn_chain t) HAMMER2_CHAIN_INITIAL
      then None else cn_base t) = cn_base t" using level_okD(6)[OF assms(1)] by auto
  have live: "unat (core_live_count (cn_chain t)) = count" using level_okD(3)[OF assms(1)] assms(3) by simp
  show ?thesis
    unfolding create_again.simps(2) level_okD(4)[OF assms(1)] obind.simps Let_def base counted_id[OF assms(1)] live
    using assms(2) by (auto simp: has_table_def kkassert_def)
qed

lemma create_again_ok:
  assumes ok: "level_ok t count" "has_table t"
    and full: "length (view t) < count \<or> length (view t) = count \<and> 3 \<le> count \<and> splittable env t count (br_key (cn_bref c)) (unat (br_keybits (cn_bref c)))"
    and c: "bref_wf (cn_bref c)" "bref_aligned (cn_bref c)" "\<not> has (cn_chain c) HAMMER2_CHAIN_DELETED" "\<not> has (cn_chain c) HAMMER2_CHAIN_BMAPPED"
    and dis: "\<forall>b\<in>set (brefs t). bref_left b (cn_bref c) \<or> bref_left (cn_bref c) b"
    and en: "entered env allocated c c'" and ty: "type \<notin> {HAMMER2_BREF_TYPE_FREEMAP_NODE, HAMMER2_BREF_TYPE_FREEMAP_LEAF}"
    and build: "build = RB_TREE \<or> length (view t) < count"
  shows "\<exists>t' sub. create_again build False env (Suc (Suc n)) type allocated t c = Ok (t', sub, c') \<and> level_ok t' count \<and>
    has_table t' \<and> br_type (cn_bref t') = br_type (cn_bref t) \<and> attached t t' c'"
proof -
  note link = create_link_ok[where c = c and c' = c' and allocated = allocated and type = type and build = build and optimize = False and env = env,
      OF _ _ _ c(1,3,4) _ en[unfolded entered_def]]
  have sr: "same_range (cn_bref c) (cn_bref c')" using en by (auto simp: entered_def same_range_def split: if_splits)
  show ?thesis
  proof (cases "length (view t) < count")
    case True
    have "level_ok (counted count t) count" using ok(1) counted_id[OF ok(1)] by simp
    from link[OF this True ok(2) dis, of "Suc n"] obtain t' where "create_again build False env (Suc (Suc n)) type allocated t c = Ok (t', None, c')"
      "level_ok t' count" "brefs t' = bref_insort (cn_bref c') (brefs t)" "c' \<in> set (cn_kids t')" "cn_base t' = cn_base t" "cn_bref t' = cn_bref t" by blast
    then show ?thesis using ok(2) by (intro exI[of _ t'] exI[of _ None]) (simp add: attached_def has_table_def)
  next
    case False
    then have tree: "build = RB_TREE" using build by blast
    note link = link[unfolded tree]
    from False have sp: "splittable env t count (br_key (cn_bref c)) (unat (br_keybits (cn_bref c)))" "length (view t) = count" "3 \<le> count"
      using full by auto
    let ?key = "br_key (cn_bref c)" and ?bits = "unat (br_keybits (cn_bref c))"
    obtain t1 I ikey m icount where
      ci: "hammer2_chain_create_indirect RB_TREE False env (attach RB_TREE False env (Suc n)) t ?key ?bits type =
         Ok (t1, if agree m ?key ikey then Some ikey else None)"
      and T1: "level_ok t1 count" "has_table t1" "I \<in> set (cn_kids t1)" and I: "level_ok I icount" "has_table I"
        "br_type (cn_bref I) = HAMMER2_BREF_TYPE_INDIRECT" "has (cn_chain I) HAMMER2_CHAIN_ONRBTREE"
        "br_key (cn_bref I) = ikey" "unat (br_keybits (cn_bref I)) = m" "m < 64" "?bits \<le> m" "2 ^ m dvd unat ikey"
        "cn_base I \<noteq> None" "base_elems I = []" "cn_bref t1 = cn_bref t"
      and br: "brefs t1 = bref_insort (cn_bref I) (filter (\<lambda>b. \<not> inside ikey m b) (brefs t))" "brefs I = filter (inside ikey m) (brefs t)"
      and io: "\<forall>b\<in>set (brefs t). inside ikey m b \<or> outside ikey m b" and cnt: "count \<le> icount"
        "length (brefs t) \<le> 2 * length (brefs I)" "agree m ?key ikey \<longrightarrow> length (brefs I) < length (brefs t)"
      by (rule create_indirect_ok[OF sp(1) ty, of n]) blast
    have ib: "in_block I = inside ikey m" using I(5,6) by (simp add: in_block_def)
    have al: "bref_aligned (cn_bref I)" using I(5,6,9) by (simp add: bref_aligned_def)
    note step = create_again_full[OF ok sp(2), of RB_TREE False env "Suc n" type allocated c, unfolded ci obind.simps prod.case]
    show ?thesis
    proof (cases "agree m ?key ikey")
      case False
      have "\<forall>b\<in>set (brefs t1). bref_left b (cn_bref c) \<or> bref_left (cn_bref c) b"
      proof -
        have "unat ?key div 2 ^ m \<noteq> unat ikey div 2 ^ m" using False by (simp add: agree_div)
        then have "bref_left (cn_bref c) (cn_bref I) \<or> bref_left (cn_bref I) (cn_bref c)"
          using aligned_range_split[OF I(8) c(2)[unfolded bref_aligned_def], of "unat ikey"] I(5,6,9) by (auto simp: bref_left_def bref_hi_def)
        then show ?thesis unfolding br(1) using dis by (auto simp: set_bref_insort)
      qed
      moreover have "length (view t1) < count"
      proof -
        have "length (brefs t1) = length (filter (\<lambda>b. \<not> inside ikey m b) (brefs t)) + 1"
          unfolding br(1) bref_insort_def using sum_length_filter_compl[of "\<lambda>b. bref_left b (cn_bref I)" "filter (\<lambda>b. \<not> inside ikey m b) (brefs t)"] by simp
        then show ?thesis using sum_length_filter_compl[of "inside ikey m" "brefs t"] br(2) cnt(2) sp(2,3) by simp
      qed
      moreover have "level_ok (counted count t1) count" using T1(1) counted_id[OF T1(1)] by simp
      ultimately obtain t' where t': "create_again RB_TREE False env (Suc n) type allocated t1 c = Ok (t', None, c')" "level_ok t' count"
        "brefs t' = bref_insort (cn_bref c') (brefs t1)" "set (cn_kids t1) \<subseteq> set (cn_kids t')" "c' \<in> set (cn_kids t')"
        "cn_base t' = cn_base t1" "cn_bref t' = cn_bref t1" using link[OF _ _ T1(2)] by blast
      have "new_block t' I" using t'(4) T1(3) I(1,3,10,11) al by (auto simp: new_block_def)
      then have "attached t t' c'" unfolding attached_def using t'(3,5) br ib by auto
      moreover have "has_table t'" "br_type (cn_bref t') = br_type (cn_bref t)" using T1(2) t'(6,7) I(12) by (simp_all add: has_table_def)
      ultimately show ?thesis unfolding tree using step False t' by auto
    next
      case True
      have fk: "find (\<lambda>x. br_key (cn_bref x) = ikey) (cn_kids t1) = Some I"
        using find_kid[OF level_sorted(3)[OF level_okD(1)[OF T1(1)]] T1(3)] I(5) by simp
      have "length (view I) < icount" using cnt(1,3) True sp(2) by simp
      moreover have "level_ok (counted icount I) icount" using I(1) counted_id[OF I(1)] by simp
      moreover have "\<forall>b\<in>set (brefs I). bref_left b (cn_bref c) \<or> bref_left (cn_bref c) b" using dis br(2) by (auto simp del: set_map)
      ultimately obtain I' where I': "create_again RB_TREE False env (Suc n) type allocated I c = Ok (I', None, c')" "level_ok I' icount"
        "brefs I' = bref_insort (cn_bref c') (brefs I)" "cn_bref I' = cn_bref I" "ch_flags (cn_chain I') = ch_flags (cn_chain I) OR HAMMER2_CHAIN_ONFLUSH"
        "c' \<in> set (cn_kids I')" "cn_base I' = cn_base I"
        using link[OF _ _ I(2)] by blast
      have hI: "has (cn_chain I') x = has (cn_chain I) x" if "HAMMER2_CHAIN_ONFLUSH AND x = 0" for x
        using I'(5) that by (simp add: has_def bit.conj_disj_distrib2)
      have nd: "\<not> has (cn_chain I) HAMMER2_CHAIN_DELETED"
        using level_sorted(3)[OF level_okD(1)[OF T1(1)]] T1(3) by (auto simp: kids_wf_def has_def)
      have R: "level_ok (replace_kid I' t1) count" "brefs (replace_kid I' t1) = map (\<lambda>b. if br_key b = br_key (cn_bref I) then cn_bref I' else b) (brefs t1)"
        "I' \<in> set (cn_kids (replace_kid I' t1))"
        using replace_kid_ok[OF T1(1,3), of I'] I'(4) hI nd I(4) by (simp_all add: same_range_def)
      have bt: "brefs (replace_kid I' t1) = brefs t1"
        unfolding R(2) I'(4)
      proof (rule map_idI)
        fix b assume b: "b \<in> set (brefs t1)"
        have cI: "cn_bref I \<in> set (brefs t1)" unfolding br(1) by (simp add: set_bref_insort)
        show "(if br_key b = br_key (cn_bref I) then cn_bref I else b) = b"
          using left_sorted_key[OF brefs_sorted[OF level_okD(1)[OF T1(1)]] cI b] by simp
      qed
      have "new_block (replace_kid I' t1) I'"
        using R(3) I'(2,4,7) I(3,10,11) al by (auto simp: new_block_def base_elems_def)
      moreover have "in_block I' = inside ikey m" using I'(4) ib by (simp add: in_block_def)
      moreover have "inside ikey m (cn_bref c')" using True I(8) sr by (auto simp: inside_def agree_div same_range_def)
      ultimately have "attached t (replace_kid I' t1) c'" unfolding attached_def using I'(3,4,6) br bt by auto
      moreover have "has_table (replace_kid I' t1)" "br_type (cn_bref (replace_kid I' t1)) = br_type (cn_bref t)"
        using T1(2) I(12) by (simp_all add: has_table_def replace_kid_def)
      ultimately show ?thesis unfolding tree using step True fk I'(1) R(1) by auto
    qed
  qed
qed

section \<open>Properties\<close>

lemma create_indirect_stub:
  assumes "level_ok t count" "has_table t" "type \<notin> {HAMMER2_BREF_TYPE_FREEMAP_NODE, HAMMER2_BREF_TYPE_FREEMAP_LEAF}"
  shows "hammer2_chain_create_indirect RB_STUB optimize env create t key bits type = Fault ''info''"
proof -
  have p0: "(if has (cn_chain t) HAMMER2_CHAIN_INITIAL then CNode (cn_chain t) None (cn_kids t) else t) = t"
    using level_okD(6)[OF assms(1)] by (cases t) auto
  have nf: "\<not> (\<not> has (cn_chain t) HAMMER2_CHAIN_INITIAL \<and> cn_base t = None \<and> br_type (cn_bref t) = HAMMER2_BREF_TYPE_INODE)"
    using assms(2) by (auto simp: has_table_def)
  show ?thesis
    unfolding hammer2_chain_create_indirect_def level_okD(4)[OF assms(1)] obind.simps Let_def p0 if_not_P[OF nf] if_not_P[OF assms(3)]
      indkey_normal_stub[OF level_okD(1)[OF assms(1)]] by (rule refl)
qed


text \<open>A new file block or inode: the block it is given.\<close>

lemma new_chain_entered:
  assumes "env_ok env" "hammer2_chain_alloc b = Ok ch" "br_type b \<in> {HAMMER2_BREF_TYPE_DATA, HAMMER2_BREF_TYPE_INODE}"
    "br_data_off b AND NOT HAMMER2_OFF_MASK_RADIX = 0"
  shows "\<exists>c'. entered env True (CNode (set_flag HAMMER2_CHAIN_INITIAL ch) None []) c' \<and> has (cn_chain c') HAMMER2_CHAIN_MODIFIED \<and> br_type (cn_bref c') = br_type b"
proof -
  note cf = chain_alloc_fields[OF assms(2)]
  define c1 where "c1 = set_flag 0x41 (set_flag HAMMER2_CHAIN_ONRBTREE (set_flag HAMMER2_CHAIN_INITIAL ch))"
  obtain off where off: "ev_alloc env c1 = Ok (Some off)" "\<not> ev_io_error env off" using assms(1) by (auto simp: env_ok_def)
  define c2 where "c2 = c1\<lparr>ch_bref := b\<lparr>br_data_off := off\<rparr>\<rparr>"
  have b1: "ch_bref c1 = b" using cf(1) by (simp add: c1_def)
  have flags: "ch_flags c2 = ch_flags c1" "ch_bref c2 = b\<lparr>br_data_off := off\<rparr>" by (simp_all add: c2_def)
  have h: "has c2 m = has c1 m" for m by (simp add: has_def flags)
  have f: "\<not> has c2 HAMMER2_CHAIN_BMAPPED" "has c2 HAMMER2_CHAIN_INITIAL" "\<not> has c2 HAMMER2_CHAIN_DELETED"
    "has c2 HAMMER2_CHAIN_ONRBTREE" "has c2 HAMMER2_CHAIN_MODIFIED"
    unfolding h using cf by (simp_all add: c1_def flag_simps)
  have g: "has (clear_flag HAMMER2_CHAIN_INITIAL c2) m = has c2 m" if "NOT HAMMER2_CHAIN_INITIAL AND m = m" for m
    unfolding has_clear_flag that unfolding has_def by (rule refl)
  let ?c = "CNode (set_flag HAMMER2_CHAIN_INITIAL ch) None []"
  let ?c' = "if br_type b = HAMMER2_BREF_TYPE_DATA then CNode c2 None []
             else CNode (clear_flag HAMMER2_CHAIN_INITIAL c2) (zero_table (clear_flag HAMMER2_CHAIN_INITIAL c2)) []"
  have fc: "\<not> has (cn_chain ?c') HAMMER2_CHAIN_DELETED" "has (cn_chain ?c') HAMMER2_CHAIN_ONRBTREE" "\<not> has (cn_chain ?c') HAMMER2_CHAIN_BMAPPED"
    "has (cn_chain ?c') HAMMER2_CHAIN_MODIFIED" "cn_bref ?c' = b\<lparr>br_data_off := off\<rparr>"
    using f g[of HAMMER2_CHAIN_DELETED] g[of HAMMER2_CHAIN_ONRBTREE] g[of HAMMER2_CHAIN_BMAPPED] g[of HAMMER2_CHAIN_MODIFIED] flags(2) by simp_all
  have "hammer2_chain_modify env (with_chain (set_flag HAMMER2_CHAIN_ONRBTREE) ?c) = Ok ?c'"
  proof -
    have t: "br_type b = 3 \<or> br_type b = 1 \<and> br_type b \<noteq> 3" using assms(3) by auto
    show ?thesis
      using t assms(4) off cf(1) b1 f(1,2)
      by (elim disjE conjE) (simp_all add: hammer2_chain_modify_def Let_def kkassert_def c1_def[symmetric] c2_def[symmetric] flags(2))
  qed
  moreover have "br_type (cn_bref ?c) \<in> {HAMMER2_BREF_TYPE_DATA, HAMMER2_BREF_TYPE_FREEMAP_LEAF, HAMMER2_BREF_TYPE_INODE}"
    "same_range (cn_bref ?c) (cn_bref ?c')" unfolding fc(5) using assms(3) cf(1) by (auto simp: same_range_def)
  ultimately have "entered env True ?c ?c'" unfolding entered_def if_True using fc(1-3) by blast
  moreover have "br_type (cn_bref ?c') = br_type b" unfolding fc(5) by simp
  moreover note fc(4)
  ultimately show ?thesis by blast
qed

text \<open>A call of \<open>hammer2_chain_create\<close> for a new file block or inode reaches the label \<open>again\<close>.\<close>

lemma create_new:
  assumes "type \<in> {HAMMER2_BREF_TYPE_DATA, HAMMER2_BREF_TYPE_INODE}" "bytes \<le> 65536"
  obtains b ch where "hammer2_chain_alloc b = Ok ch" "br_type b = type" "br_key b = key" "br_keybits b = keybits"
    "br_data_off b AND NOT HAMMER2_OFF_MASK_RADIX = 0"
    "\<forall>build optimize env. hammer2_chain_create build optimize env t None key keybits type bytes =
       create_again build optimize env 299999 type True t (CNode (set_flag HAMMER2_CHAIN_INITIAL ch) None [])"
proof -
  have "unat bytes \<le> 65536" using assms(2) by (simp add: word_le_unat)
  then obtain radix where radix: "hammer2_getradix bytes = Ok radix" "\<forall>m<radix. 2 ^ m < unat bytes" using hammer2_getradix_ok[of bytes] by auto
  have "radix \<le> 16"
  proof (rule ccontr)
    assume "\<not> radix \<le> 16"
    then have "2 ^ 16 < unat bytes" using radix(2)[rule_format, of 16] by simp
    then show False using \<open>unat bytes \<le> 65536\<close> by simp
  qed
  then have ur: "unat (of_nat radix :: u64) = radix" by (simp add: unat_of_nat_small)
  have or: "(of_nat radix :: u64) AND 63 = of_nat radix" "(of_nat radix :: u64) AND NOT 63 = 0"
  proof -
    have m: "(63 :: u64) = mask 6" by (simp add: mask_eq_exp_minus_1)
    have "unat ((of_nat radix :: u64) AND mask 6) = radix" "unat ((of_nat radix :: u64) AND NOT (mask 6)) = 0"
      unfolding unat_and_mask unat_and_not_mask ur using \<open>radix \<le> 16\<close> by simp_all
    then show "(of_nat radix :: u64) AND 63 = of_nat radix" "(of_nat radix :: u64) AND NOT 63 = 0"
      unfolding m using ur by (metis unat_eqI, metis unat_eq_zero)
  qed
  define b where "b = blockref_zero\<lparr>br_type := type, br_key := key, br_keybits := keybits, br_data_off := of_nat radix, br_methods := br_methods (cn_bref t)\<rparr>"
  have bf: "br_type b = type" "br_key b = key" "br_keybits b = keybits" "br_data_off b = of_nat radix" by (simp_all add: b_def)
  obtain ch where al: "hammer2_chain_alloc b = Ok ch"
    using assms(1) \<open>radix \<le> 16\<close> ur or(1) by (auto simp: hammer2_chain_alloc_def bf Let_def)
  show ?thesis
  proof (rule that[OF al bf(1-3)])
    show "br_data_off b AND NOT HAMMER2_OFF_MASK_RADIX = 0" using bf(4) or(2) by simp
    show "\<forall>build optimize env. hammer2_chain_create build optimize env t None key keybits type bytes =
       create_again build optimize env 299999 type True t (CNode (set_flag HAMMER2_CHAIN_INITIAL ch) None [])"
      using radix(1) al assms(1) by (auto simp: hammer2_chain_create_def b_def[symmetric])
  qed
qed

lemma chain_create_ok:
  assumes "level_ok t count" "has_table t" "env_ok env"
    "length (view t) < count \<or> length (view t) = count \<and> 3 \<le> count \<and> splittable env t count key (unat keybits)"
    "\<forall>b\<in>set (brefs t). clear_of key (unat keybits) b" "2 ^ unat keybits dvd unat key" "unat keybits < 64"
    "type \<in> {HAMMER2_BREF_TYPE_DATA, HAMMER2_BREF_TYPE_INODE}" "bytes \<le> 65536"
    "build = RB_TREE \<or> length (view t) < count"
  shows "\<exists>t' sub c. hammer2_chain_create build False env t None key keybits type bytes = Ok (t', sub, c) \<and> level_ok t' count \<and>
    has_table t' \<and> br_type (cn_bref t') = br_type (cn_bref t) \<and> attached t t' c \<and>
    br_key (cn_bref c) = key \<and> br_keybits (cn_bref c) = keybits \<and> br_type (cn_bref c) = type"
proof -
  obtain b ch where al: "hammer2_chain_alloc b = Ok ch" and bf: "br_type b = type" "br_key b = key" "br_keybits b = keybits" "br_data_off b AND NOT HAMMER2_OFF_MASK_RADIX = 0"
    and cr: "\<forall>build optimize env. hammer2_chain_create build optimize env t None key keybits type bytes =
      create_again build optimize env 299999 type True t (CNode (set_flag HAMMER2_CHAIN_INITIAL ch) None [])"
    by (rule create_new[OF assms(8,9), where t = t and key = key and keybits = keybits])
  note cf = chain_alloc_fields[OF al]
  let ?c = "CNode (set_flag HAMMER2_CHAIN_INITIAL ch) None []"
  obtain c' where en: "entered env True ?c c'" and tc: "br_type (cn_bref c') = type" using new_chain_entered[OF assms(3) al] assms(8) bf by auto
  have cb: "cn_bref ?c = b" using cf(1) by simp
  have wf: "bref_wf (cn_bref ?c)" "bref_aligned (cn_bref ?c)"
    using assms(6,7) align_key(2)[OF assms(7), of key] by (simp_all add: cf(1) bf bref_wf_def bref_aligned_def)
  have fl: "\<not> has (cn_chain ?c) HAMMER2_CHAIN_DELETED" "\<not> has (cn_chain ?c) HAMMER2_CHAIN_BMAPPED" using cf by (simp_all add: flag_simps)
  have dis: "\<forall>x\<in>set (brefs t). bref_left x (cn_bref ?c) \<or> bref_left (cn_bref ?c) x"
    using assms(5) clear_left[of b] unfolding cb bf by blast
  have ty: "type \<notin> {HAMMER2_BREF_TYPE_FREEMAP_NODE, HAMMER2_BREF_TYPE_FREEMAP_LEAF}" using assms(8) by auto
  have sr: "same_range b (cn_bref c')" using en cb by (simp add: entered_def)
  have full: "length (view t) < count \<or> length (view t) = count \<and> 3 \<le> count \<and>
      splittable env t count (br_key (cn_bref ?c)) (unat (br_keybits (cn_bref ?c)))" using assms(4) unfolding cb bf .
  have n: "(299999 :: nat) = Suc (Suc 299997)" by simp
  obtain t' sub where "create_again build False env 299999 type True t ?c = Ok (t', sub, c')" "level_ok t' count"
    "has_table t'" "br_type (cn_bref t') = br_type (cn_bref t)" "attached t t' c'"
    using create_again_ok[OF assms(1,2) full wf fl dis en ty assms(10), of 299997] unfolding n by blast
  then show ?thesis using sr bf tc unfolding cr[rule_format] by (auto simp: same_range_def)
qed

lemma chain_create_stub:
  assumes "level_ok t count" "has_table t" "length (view t) = count" "type \<in> {HAMMER2_BREF_TYPE_DATA, HAMMER2_BREF_TYPE_INODE}" "bytes \<le> 65536"
  shows "hammer2_chain_create RB_STUB optimize env t None key keybits type bytes = Fault ''info''"
proof -
  obtain b ch where cr: "\<forall>build optimize env. hammer2_chain_create build optimize env t None key keybits type bytes =
      create_again build optimize env 299999 type True t (CNode (set_flag HAMMER2_CHAIN_INITIAL ch) None [])"
    by (rule create_new[OF assms(4,5), where t = t and key = key and keybits = keybits])
  have n: "(299999 :: nat) = Suc 299998" by simp
  have "type \<notin> {HAMMER2_BREF_TYPE_FREEMAP_NODE, HAMMER2_BREF_TYPE_FREEMAP_LEAF}" using assms(4) by auto
  note stub = create_indirect_stub[OF assms(1,2) this]
  show ?thesis unfolding cr[rule_format] n create_again_full[OF assms(1-3)] stub by simp
qed


text \<open>The witnesses: creating the next block behind the eight of the full root.\<close>

definition lv_env :: chain_env where
  "lv_env = \<lparr>ev_alloc = (\<lambda>_. Ok (Some 0x400000000E)), ev_io_error = (\<lambda>_. False)\<rparr>"

lemma lv_ok: "level_ok lv_root 8" "has_table lv_root" "env_ok lv_env"
proof -
  have "mapped_ok (base_elems lv_root) (cn_kids lv_root)" "unat (core_live_count (cn_chain lv_root)) = 8"
    "table_count (cn_chain lv_root) = Ok 8" "\<not> has (cn_chain lv_root) HAMMER2_CHAIN_INITIAL"
    by (simp_all add: lv_root_def mapped_ok_def table_count_def has_def)
  then show "level_ok lv_root 8" by (simp add: level_ok_def lv_level)
  show "has_table lv_root" "env_ok lv_env" by (simp_all add: has_table_def lv_root_def env_ok_def lv_env_def)
qed

lemma lv_splittable: "splittable lv_env lv_root 8 131072 14"
proof -
  have "loadable (lv_bref i)" for i by (simp add: loadable_def hammer2_chain_alloc_def lv_bref_def)
  then have "\<forall>b\<in>set (brefs lv_root). loadable b" by (auto simp: lv_level)
  moreover have "\<forall>b\<in>set (brefs lv_root). bref_aligned b \<and> clear_of 131072 14 b" using lv_clear by auto
  moreover have "steady lv_env lv_root" by (simp add: steady_def lv_root_def)
  ultimately show ?thesis by (simp add: splittable_def lv_ok lv_level)
qed



end
