(* ===== verification/H2_Lookup.thy ===== *)
theory H2_Lookup
  imports H2_Split
begin

unbundle bit_operations_syntax

text \<open>
  The search of the topology: \<open>hammer2_chain_lock\<close> as far as it loads data,
  \<open>hammer2_chain_getparent\<close>, \<open>hammer2_chain_lookup\<close>, \<open>hammer2_chain_next\<close> and
  \<open>hammer2_chain_scan\<close>.

  The position of a search is the parent it is at together with the chains above it; going up puts
  the parent, with what has been loaded below it, back in its place.  \<open>load\<close> gives the block table
  stored at a block reference; a failed read leaves the chain without data, as in the code, whose
  callers do not look at the result of the lock.  A check code that does not match is only
  reported and has no effect.  Locks, reference counts and the short cut for inodes with embedded
  data are left out, so that the flags of a lookup are those that choose what data is loaded
  (ALWAYS, NODATA) and MATCHIND.
\<close>

section \<open>The operations\<close>

datatype resolve = RESOLVE_NEVER | RESOLVE_MAYBE | RESOLVE_ALWAYS

type_synonym load_fn = "hammer2_blockref \<Rightarrow> hammer2_blockref list"

definition is_indirect :: "hammer2_blockref \<Rightarrow> bool" where
  "is_indirect b \<longleftrightarrow> br_type b \<in> {HAMMER2_BREF_TYPE_INDIRECT, HAMMER2_BREF_TYPE_FREEMAP_NODE}"

definition hammer2_chain_lock :: "chain_env \<Rightarrow> load_fn \<Rightarrow> ctree \<Rightarrow> resolve \<Rightarrow> ctree outcome" where
  "hammer2_chain_lock env load t how =
     (let chain = cn_chain t; bref = ch_bref chain
      in if cn_base t \<noteq> None \<or> how = RESOLVE_NEVER \<or>
            how = RESOLVE_MAYBE \<and> (has chain HAMMER2_CHAIN_INITIAL \<or> br_type bref = HAMMER2_BREF_TYPE_DATA)
         then Ok t
         else if ev_io_error env (br_data_off bref) then Ok t
         else if br_type bref \<in> {HAMMER2_BREF_TYPE_VOLUME, HAMMER2_BREF_TYPE_FREEMAP}
         then Panic ''hammer2_chain_lock: called on unresolved volume header''
         else if has chain HAMMER2_CHAIN_INITIAL
         then Ok (CNode (clear_flag HAMMER2_CHAIN_INITIAL (chain\<lparr>ch_bref := bref\<lparr>br_flags := br_flags bref OR HAMMER2_BREF_FLAG_ZERO\<rparr>\<rparr>))
                    (zero_table chain) (cn_kids t))
         else Ok (CNode chain (case table_count chain of Ok _ \<Rightarrow> Some (load bref) | _ \<Rightarrow> None) (cn_kids t)))"

type_synonym position = "ctree \<times> ctree list"

definition hammer2_chain_getparent :: "chain_env \<Rightarrow> load_fn \<Rightarrow> position \<Rightarrow> resolve \<Rightarrow> position outcome" where
  "hammer2_chain_getparent env load pos how =
     (case snd pos of
        [] \<Rightarrow> Fault ''nparent''
      | p # ps \<Rightarrow> obind (hammer2_chain_lock env load (replace_kid (fst pos) p) how) (\<lambda>p'. Ok (p', ps)))"

text \<open>The loop at the start of a lookup, up to a parent that encloses the keys.\<close>

fun lookup_up :: "chain_env \<Rightarrow> load_fn \<Rightarrow> resolve \<Rightarrow> u64 \<Rightarrow> u64 \<Rightarrow> ctree \<Rightarrow> ctree list \<Rightarrow> position outcome" where
  "lookup_up env load how key_beg key_end parent [] =
     (if is_indirect (cn_bref parent) \<and> \<not> (key_beg \<ge> br_key (cn_bref parent) \<and> key_end \<le> bref_end (cn_bref parent))
      then Fault ''nparent'' else Ok (parent, []))"
| "lookup_up env load how key_beg key_end parent (p # ps) =
     (if is_indirect (cn_bref parent) \<and> \<not> (key_beg \<ge> br_key (cn_bref parent) \<and> key_end \<le> bref_end (cn_bref parent))
      then obind (hammer2_chain_lock env load (replace_kid parent p) how) (\<lambda>p'. lookup_up env load how key_beg key_end p' ps)
      else Ok (parent, p # ps))"

text \<open>What is found: nothing, the parent itself (MATCHIND), or a chain below it.\<close>

datatype found = FoundNone | FoundParent | FoundChain ctree

record lookup_flags =
  lk_always :: bool
  lk_nodata :: bool
  lk_matchind :: bool

definition how_maybe :: "lookup_flags \<Rightarrow> resolve" where
  "how_maybe flags = (if lk_always flags then RESOLVE_ALWAYS else RESOLVE_MAYBE)"

definition how_leaf :: "lookup_flags \<Rightarrow> resolve" where
  "how_leaf flags = (if lk_always flags then RESOLVE_ALWAYS else if lk_nodata flags then RESOLVE_NEVER else RESOLVE_MAYBE)"

text \<open>The block table a lookup reads and the number of its slots; null when the chain is INITIAL.\<close>

definition lookup_base :: "ctree \<Rightarrow> (hammer2_blockref list option \<times> nat) outcome" where
  "lookup_base parent =
     obind (table_count (cn_chain parent)) (\<lambda>count.
       if is_indirect (cn_bref parent) then
         (if has (cn_chain parent) HAMMER2_CHAIN_INITIAL then Ok (None, count)
          else if cn_base parent = None then Panic ''parent->data is NULL'' else Ok (cn_base parent, count))
       else if cn_base parent = None then Fault ''parent->data'' else Ok (cn_base parent, count))"

text \<open>The result: the position, what is found, the cache index and \<open>*key_nextp\<close>.\<close>

fun lookup_again ::
  "rb_build \<Rightarrow> chain_env \<Rightarrow> load_fn \<Rightarrow> lookup_flags \<Rightarrow> u64 \<Rightarrow> nat \<Rightarrow> int \<Rightarrow> u64 \<Rightarrow> position \<Rightarrow> (position \<times> found \<times> int \<times> u64) outcome" where
  "lookup_again build env load flags key_end 0 cache key_beg pos = Panic ''hammer2_chain_lookup: maxloops''"
| "lookup_again build env load flags key_end (Suc maxloops) cache key_beg (parent, up) =
     (if is_indirect (cn_bref parent) \<and> lk_matchind flags \<and> key_beg = br_key (cn_bref parent) \<and> key_end = bref_end (cn_bref parent)
      then obind (hammer2_chain_lock env load parent (how_maybe flags)) (\<lambda>p'. Ok ((p', up), FoundParent, cache, bref_next (cn_bref parent)))
      else obind (lookup_base parent) (\<lambda>(base, count).
        let parent1 = CNode (hammer2_chain_countbrefs (cn_chain parent) base count) (cn_base parent) (cn_kids parent)
        in obind (hammer2_combined_find build (CNode (cn_chain parent1) base (cn_kids parent1)) count cache key_beg key_end)
             (\<lambda>(chain, bref, cache', key_next).
           (case bref of
              None \<Rightarrow>
                if key_beg = key_end \<or> \<not> is_indirect (cn_bref parent) \<or> bref_next (cn_bref parent) = 0 \<or> bref_next (cn_bref parent) > key_end
                then Ok ((parent1, up), FoundNone, cache', key_next)
                else obind (hammer2_chain_getparent env load (parent1, up) (how_maybe flags)) (\<lambda>pos'.
                       lookup_again build env load flags key_end maxloops cache' (bref_next (cn_bref parent)) pos')
            | Some b \<Rightarrow>
                obind (case chain of
                         Some c \<Rightarrow> Ok (Some (parent1, c))
                       | None \<Rightarrow> hammer2_chain_get parent1 (core_generation (cn_chain parent1)) b) (\<lambda>got.
                  (case got of
                     None \<Rightarrow> lookup_again build env load flags key_end maxloops cache' key_beg (parent1, up)
                   | Some (parent2, c) \<Rightarrow>
                       obind (hammer2_chain_lock env load c (if is_indirect (cn_bref c) then how_maybe flags else how_leaf flags)) (\<lambda>c'.
                         let parent3 = replace_kid c' parent2
                         in if has (cn_chain c') HAMMER2_CHAIN_DELETED then
                              (if key_next = 0 \<or> key_next > key_end then Ok ((parent3, up), FoundNone, cache', key_next)
                               else lookup_again build env load flags key_end maxloops cache' key_next (parent3, up))
                            else if is_indirect (cn_bref c')
                            then lookup_again build env load flags key_end maxloops cache' key_beg (c', parent3 # up)
                            else Ok ((parent3, up), FoundChain c', cache', key_next))))))))"

declare lookup_again.simps [simp del]

definition hammer2_chain_lookup ::
  "rb_build \<Rightarrow> chain_env \<Rightarrow> load_fn \<Rightarrow> lookup_flags \<Rightarrow> int \<Rightarrow> u64 \<Rightarrow> u64 \<Rightarrow> position \<Rightarrow> (position \<times> found \<times> int \<times> u64) outcome" where
  "hammer2_chain_lookup build env load flags cache key_beg key_end pos =
     obind (lookup_up env load (how_maybe flags) key_beg key_end (fst pos) (snd pos))
       (lookup_again build env load flags key_end 299999 cache key_beg)"

text \<open>\<open>hammer2_chain_next\<close>: the chain found before, and the end of the keys.\<close>

definition hammer2_chain_next ::
  "rb_build \<Rightarrow> chain_env \<Rightarrow> load_fn \<Rightarrow> lookup_flags \<Rightarrow> int \<Rightarrow> found \<Rightarrow> u64 \<Rightarrow> u64 \<Rightarrow> position \<Rightarrow> (position \<times> found \<times> int \<times> u64) outcome" where
  "hammer2_chain_next build env load flags cache chain key_next key_end pos =
     (case chain of
        FoundParent \<Rightarrow> Ok (pos, FoundNone, cache, key_next)
      | FoundChain c \<Rightarrow>
          let key_beg = bref_next (cn_bref c)
          in if key_beg = 0 \<or> key_beg > key_end then Ok (pos, FoundNone, cache, key_next)
             else hammer2_chain_lookup build env load flags cache key_beg key_end pos
      | FoundNone \<Rightarrow>
          let key_beg = bref_next (cn_bref (fst pos))
          in if \<not> is_indirect (cn_bref (fst pos)) \<or> key_beg = 0 \<or> key_beg > key_end then Ok (pos, FoundNone, cache, key_next)
             else obind (hammer2_chain_getparent env load pos RESOLVE_MAYBE)
                    (hammer2_chain_lookup build env load flags cache key_beg key_end))"

text \<open>\<open>hammer2_chain_scan\<close>: the element of one level behind a chain, or the first one.\<close>

fun scan_again ::
  "rb_build \<Rightarrow> chain_env \<Rightarrow> load_fn \<Rightarrow> lookup_flags \<Rightarrow> nat \<Rightarrow> int \<Rightarrow> u64 \<Rightarrow> ctree \<Rightarrow> (ctree \<times> ctree option \<times> int) outcome" where
  "scan_again build env load flags 0 cache key parent = Panic ''hammer2_chain_scan: maxloops''"
| "scan_again build env load flags (Suc maxloops) cache key parent =
     obind (lookup_base parent) (\<lambda>(base, count).
       let parent1 = CNode (hammer2_chain_countbrefs (cn_chain parent) base count) (cn_base parent) (cn_kids parent)
       in obind (hammer2_combined_find build (CNode (cn_chain parent1) base (cn_kids parent1)) count cache key (-1))
            (\<lambda>(chain, bref, cache', key_next).
          (case bref of
             None \<Rightarrow> Ok (parent1, None, cache')
           | Some b \<Rightarrow>
               obind (case chain of
                        Some c \<Rightarrow> Ok (Some (parent1, c))
                      | None \<Rightarrow> hammer2_chain_get parent1 (core_generation (cn_chain parent1)) b) (\<lambda>got.
                 (case got of
                    None \<Rightarrow> scan_again build env load flags maxloops cache' key parent1
                  | Some (parent2, c) \<Rightarrow>
                      obind (hammer2_chain_lock env load c (how_leaf flags)) (\<lambda>c'.
                        let parent3 = replace_kid c' parent2
                        in if has (cn_chain c') HAMMER2_CHAIN_DELETED then
                             (if key_next = 0 then Ok (parent3, None, cache')
                              else scan_again build env load flags maxloops cache' key_next parent3)
                           else Ok (parent3, Some c', cache')))))))"

declare scan_again.simps [simp del]

definition hammer2_chain_scan ::
  "rb_build \<Rightarrow> chain_env \<Rightarrow> load_fn \<Rightarrow> lookup_flags \<Rightarrow> int \<Rightarrow> ctree \<Rightarrow> ctree option \<Rightarrow> (ctree \<times> ctree option \<times> int) outcome" where
  "hammer2_chain_scan build env load flags cache parent chain =
     (case chain of
        None \<Rightarrow> scan_again build env load flags 299999 cache 0 parent
      | Some c \<Rightarrow>
          if bref_next (cn_bref c) = 0 then Ok (parent, None, cache)
          else scan_again build env load flags 299999 cache (bref_next (cn_bref c)) parent)"

section \<open>Well-formed trees and their leaves\<close>

text \<open>An element with its chain, loaded when it is not in memory.\<close>

definition loaded :: "chain_env \<Rightarrow> load_fn \<Rightarrow> resolve \<Rightarrow> hammer2_blockref \<times> ctree option \<Rightarrow> ctree outcome" where
  "loaded env load how v =
     (case v of
        (b, Some c) \<Rightarrow> hammer2_chain_lock env load c how
      | (b, None) \<Rightarrow> obind (hammer2_chain_alloc b) (\<lambda>ch.
          hammer2_chain_lock env load (CNode (set_flag HAMMER2_CHAIN_ONRBTREE (set_flag HAMMER2_CHAIN_BMAPPED ch)) None []) how))"

definition within :: "hammer2_blockref \<Rightarrow> hammer2_blockref \<Rightarrow> bool" where
  "within r b \<longleftrightarrow> unat (br_key r) \<le> unat (br_key b) \<and> bref_hi b \<le> bref_hi r"

primrec tree_ok :: "chain_env \<Rightarrow> load_fn \<Rightarrow> resolve \<Rightarrow> nat \<Rightarrow> ctree \<Rightarrow> bool" where
  "tree_ok env load how 0 t \<longleftrightarrow> False"
| "tree_ok env load how (Suc d) t \<longleftrightarrow>
     (\<exists>count. lookup_base t = Ok (cn_base t, count) \<and> level_ok (counted count t) count) \<and>
     (\<forall>v\<in>set (view t). (snd v = None \<longrightarrow> loadable (fst v)) \<and>
        br_type (fst v) \<notin> {HAMMER2_BREF_TYPE_VOLUME, HAMMER2_BREF_TYPE_FREEMAP} \<and>
        (is_indirect (fst v) \<longrightarrow> (\<exists>c. loaded env load how v = Ok c \<and> tree_ok env load how d c \<and> (\<forall>b\<in>set (brefs c). within (fst v) b))))"

text \<open>The leaves of a tree in key order, in memory or on the media.\<close>

primrec leaves :: "chain_env \<Rightarrow> load_fn \<Rightarrow> resolve \<Rightarrow> nat \<Rightarrow> ctree \<Rightarrow> hammer2_blockref list" where
  "leaves env load how 0 t = []"
| "leaves env load how (Suc d) t =
     concat (map (\<lambda>v. if is_indirect (fst v) then (case loaded env load how v of Ok c \<Rightarrow> leaves env load how d c | _ \<Rightarrow> []) else [fst v]) (view t))"

lemma within_trans: "within a b \<Longrightarrow> within b c \<Longrightarrow> within a c"
  by (auto simp: within_def)

lemma leaves_within:
  "tree_ok env load how d t \<Longrightarrow> \<forall>b\<in>set (brefs t). within r b \<Longrightarrow> l \<in> set (leaves env load how d t) \<Longrightarrow> within r l"
proof (induction d arbitrary: t r)
  case (Suc d)
  obtain v where v: "v \<in> set (view t)" "l \<in> set (if is_indirect (fst v) then (case loaded env load how v of Ok c \<Rightarrow> leaves env load how d c | _ \<Rightarrow> []) else [fst v])"
    using Suc.prems(3) unfolding leaves.simps set_concat set_map by blast
  have r: "within r (fst v)" using Suc.prems(2) v(1) by simp
  show ?case
  proof (cases "is_indirect (fst v)")
    case True
    then obtain c where c: "loaded env load how v = Ok c" "tree_ok env load how d c" "\<forall>b\<in>set (brefs c). within (fst v) b"
      using Suc.prems(1) v(1) by auto
    then have "within (fst v) l" using Suc.IH[OF c(2,3)] v(2) True by simp
    then show ?thesis using within_trans[OF r] by blast
  next
    case False
    then show ?thesis using v(2) r by simp
  qed
qed simp

text \<open>The leaves below one element.\<close>

abbreviation leaves_of :: "chain_env \<Rightarrow> load_fn \<Rightarrow> resolve \<Rightarrow> nat \<Rightarrow> hammer2_blockref \<times> ctree option \<Rightarrow> hammer2_blockref list" where
  "leaves_of env load how d v \<equiv>
     (if is_indirect (fst v) then (case loaded env load how v of Ok c \<Rightarrow> leaves env load how d c | _ \<Rightarrow> []) else [fst v])"

lemma leaves_of_within:
  assumes "tree_ok env load how (Suc d) t" "v \<in> set (view t)" "l \<in> set (leaves_of env load how d v)"
  shows "within (fst v) l"
proof (cases "is_indirect (fst v)")
  case True
  then obtain c where c: "loaded env load how v = Ok c" "tree_ok env load how d c" "\<forall>b\<in>set (brefs c). within (fst v) b"
    using assms(1,2) by auto
  then show ?thesis using leaves_within[OF c(2,3)] assms(3) True by simp
next
  case False
  then show ?thesis using assms(3) by (simp add: within_def)
qed

lemma covers_within: "within r b \<Longrightarrow> bref_covers b k \<Longrightarrow> bref_covers r k"
  by (auto simp: within_def bref_covers_def)

lemma find_concat_middle:
  assumes "\<forall>x\<in>set pre \<union> set post. \<forall>y\<in>set (F x). \<not> P y"
  shows "find P (concat (map F (pre @ v # post))) = find P (F v)"
proof -
  have "find P (A @ B @ C) = find P B" if "\<forall>y\<in>set A \<union> set C. \<not> P y" for A B C
  proof -
    have "find P (xs @ ys) = (case find P xs of None \<Rightarrow> find P ys | Some x \<Rightarrow> Some x)" for xs ys by (induction xs) auto
    moreover have "find P A = None" "find P C = None" using that by (auto simp: find_None_iff)
    ultimately show ?thesis by (simp split: option.splits)
  qed
  moreover have "\<forall>y\<in>set (concat (map F pre)) \<union> set (concat (map F post)). \<not> P y" using assms by auto
  ultimately show ?thesis by simp
qed

lemma find_split_first: "find P xs = Some v \<Longrightarrow> \<exists>pre post. xs = pre @ v # post \<and> (\<forall>x\<in>set pre. \<not> P x) \<and> P v"
proof (induction xs)
  case (Cons x xs)
  show ?case
  proof (cases "P x")
    case True
    then show ?thesis using Cons.prems by (intro exI[of _ "[]"] exI[of _ xs]) auto
  next
    case False
    then obtain pre post where "xs = pre @ v # post" "\<forall>x\<in>set pre. \<not> P x" "P v" using Cons by auto
    then show ?thesis using False by (intro exI[of _ "x # pre"] exI[of _ post]) auto
  qed
qed simp

text \<open>A key is in at most one element, and then a leaf with it is below that element.\<close>

lemma find_leaves:
  assumes ok: "tree_ok env load how (Suc d) t" and so: "sorted_wrt bref_left (brefs t)"
  shows "find (\<lambda>b. bref_covers b k) (leaves env load how (Suc d) t) =
    (case find (\<lambda>v. bref_covers (fst v) k) (view t) of None \<Rightarrow> None | Some v \<Rightarrow> find (\<lambda>b. bref_covers b k) (leaves_of env load how d v))"
proof (cases "find (\<lambda>v. bref_covers (fst v) k) (view t)")
  case None
  then have n: "\<not> bref_covers (fst v) k" if "v \<in> set (view t)" for v
    using that unfolding find_None_iff by blast
  have "\<not> bref_covers l k" if "v \<in> set (view t)" "l \<in> set (leaves_of env load how d v)" for v l
    using covers_within[OF leaves_of_within[OF ok that]] n[OF that(1)] by blast
  then have "find (\<lambda>b. bref_covers b k) (leaves env load how (Suc d) t) = None"
    unfolding find_None_iff leaves.simps set_concat set_map by blast
  then show ?thesis using None by simp
next
  case (Some v)
  then obtain pre post where v: "view t = pre @ v # post" "\<forall>x\<in>set pre. \<not> bref_covers (fst x) k" "bref_covers (fst v) k"
    using find_split_first by fastforce
  have "\<not> bref_covers (fst x) k" if "x \<in> set post" for x
    using so that v by (auto simp: sorted_wrt_append bref_left_def bref_covers_def)
  then have n: "\<not> bref_covers (fst x) k" if "x \<in> set pre \<union> set post" for x using that v(2) by blast
  have "\<forall>x\<in>set pre \<union> set post. \<forall>y\<in>set (leaves_of env load how d x). \<not> bref_covers y k"
  proof (intro ballI)
    fix x y assume x: "x \<in> set pre \<union> set post" and y: "y \<in> set (leaves_of env load how d x)"
    have "x \<in> set (view t)" using x v(1) by auto
    from covers_within[OF leaves_of_within[OF ok this y]] n[OF x] show "\<not> bref_covers y k" by blast
  qed
  from find_concat_middle[OF this] show ?thesis using Some v(1) by simp
qed

section \<open>Single keys\<close>

text \<open>What a lock keeps of a chain; the flag ZERO records that its new block is zeroed.\<close>

definition same_block :: "hammer2_blockref \<Rightarrow> hammer2_blockref \<Rightarrow> bool" where
  "same_block a b \<longleftrightarrow> a\<lparr>br_flags := 0\<rparr> = b\<lparr>br_flags := 0\<rparr>"

lemma same_block_fields:
  assumes "same_block a b"
  shows "br_type a = br_type b" "br_key a = br_key b" "br_keybits a = br_keybits b" "br_data_off a = br_data_off b" "is_indirect a = is_indirect b"
proof -
  note e = assms[unfolded same_block_def]
  show t: "br_type a = br_type b" using arg_cong[OF e, of br_type] by simp
  show "br_key a = br_key b" using arg_cong[OF e, of br_key] by simp
  show "br_keybits a = br_keybits b" using arg_cong[OF e, of br_keybits] by simp
  show "br_data_off a = br_data_off b" using arg_cong[OF e, of br_data_off] by simp
  show "is_indirect a = is_indirect b" using t by (simp add: is_indirect_def)
qed

lemma lock_ok:
  assumes "br_type (cn_bref t) \<notin> {HAMMER2_BREF_TYPE_VOLUME, HAMMER2_BREF_TYPE_FREEMAP}"
  shows "\<exists>t'. hammer2_chain_lock env load t how = Ok t' \<and> same_block (cn_bref t) (cn_bref t') \<and> cn_kids t' = cn_kids t \<and>
    has (cn_chain t') HAMMER2_CHAIN_DELETED = has (cn_chain t) HAMMER2_CHAIN_DELETED \<and>
    has (cn_chain t') HAMMER2_CHAIN_ONRBTREE = has (cn_chain t) HAMMER2_CHAIN_ONRBTREE \<and>
    has (cn_chain t') HAMMER2_CHAIN_BMAPPED = has (cn_chain t) HAMMER2_CHAIN_BMAPPED"
  using assms by (auto simp: hammer2_chain_lock_def Let_def same_block_def has_clear_flag) (auto simp: has_def)

text \<open>One element of a level, as a lookup takes it.\<close>

lemma take_element:
  assumes ok: "level_ok p count" and v: "(b, c) \<in> set (view p)" and l: "c = None \<longrightarrow> loadable b" and ty: "br_type b \<notin> {HAMMER2_BREF_TYPE_VOLUME, HAMMER2_BREF_TYPE_FREEMAP}"
  shows "\<exists>p' c0 c'. (case c of Some c \<Rightarrow> Ok (Some (p, c)) | None \<Rightarrow> hammer2_chain_get p (core_generation (cn_chain p)) b) = Ok (Some (p', c0)) \<and>
    cn_bref c0 = b \<and> hammer2_chain_lock env load c0 how = Ok c' \<and> loaded env load how (b, c) = Ok c' \<and> same_block b (cn_bref c') \<and>
    \<not> has (cn_chain c') HAMMER2_CHAIN_DELETED \<and> level_ok (replace_kid c' p') count \<and>
    brefs (replace_kid c' p') = map (\<lambda>x. if br_key x = br_key b then cn_bref c' else x) (brefs p) \<and>
    cn_base p' = cn_base p \<and> ch_flags (cn_chain p') = ch_flags (cn_chain p) \<and> cn_bref p' = cn_bref p"
proof -
  have "\<exists>p' c0. (case c of Some c \<Rightarrow> Ok (Some (p, c)) | None \<Rightarrow> hammer2_chain_get p (core_generation (cn_chain p)) b) = Ok (Some (p', c0)) \<and>
    loaded env load how (b, c) = hammer2_chain_lock env load c0 how \<and> cn_bref c0 = b \<and> level_ok p' count \<and> c0 \<in> set (cn_kids p') \<and> brefs p' = brefs p \<and>
    \<not> has (cn_chain c0) HAMMER2_CHAIN_DELETED \<and> cn_base p' = cn_base p \<and> ch_flags (cn_chain p') = ch_flags (cn_chain p) \<and> cn_bref p' = cn_bref p"
  proof (cases c)
    case None
    obtain ch where ch: "hammer2_chain_alloc b = Ok ch" using l None by (auto simp: loadable_def split: outcome.splits)
    from chain_get_ok[OF ok v[unfolded None] ch] show ?thesis using None ch by (auto simp: loaded_def)
  next
    case (Some d)
    have d: "d \<in> set (cn_kids p)" "cn_bref d = b" using view_kid[OF level_okD(1)[OF ok]] v Some by auto
    moreover have "\<not> has (cn_chain d) HAMMER2_CHAIN_DELETED"
      using level_sorted(3)[OF level_okD(1)[OF ok]] d(1) by (auto simp: kids_wf_def has_def)
    ultimately show ?thesis using Some ok by (auto simp: loaded_def)
  qed
  then obtain p' c0 where g: "(case c of Some c \<Rightarrow> Ok (Some (p, c)) | None \<Rightarrow> hammer2_chain_get p (core_generation (cn_chain p)) b) = Ok (Some (p', c0))"
    "loaded env load how (b, c) = hammer2_chain_lock env load c0 how" "cn_bref c0 = b" "level_ok p' count" "c0 \<in> set (cn_kids p')" "brefs p' = brefs p"
    "\<not> has (cn_chain c0) HAMMER2_CHAIN_DELETED" "cn_base p' = cn_base p \<and> ch_flags (cn_chain p') = ch_flags (cn_chain p) \<and> cn_bref p' = cn_bref p" by blast
  obtain c' where c': "hammer2_chain_lock env load c0 how = Ok c'" "same_block b (cn_bref c')"
    "has (cn_chain c') HAMMER2_CHAIN_DELETED = has (cn_chain c0) HAMMER2_CHAIN_DELETED"
    "has (cn_chain c') HAMMER2_CHAIN_ONRBTREE = has (cn_chain c0) HAMMER2_CHAIN_ONRBTREE"
    "has (cn_chain c') HAMMER2_CHAIN_BMAPPED = has (cn_chain c0) HAMMER2_CHAIN_BMAPPED"
    using lock_ok[of c0 env load how] ty g(3) by auto
  have on: "has (cn_chain c0) HAMMER2_CHAIN_ONRBTREE" using level_okD(2)[OF g(4)] g(5) by (simp add: mapped_ok_def)
  have sr: "same_range (cn_bref c0) (cn_bref c')" using same_block_fields[OF c'(2)] g(3) by (simp add: same_range_def)
  have "\<not> has (cn_chain c') HAMMER2_CHAIN_DELETED" "has (cn_chain c') HAMMER2_CHAIN_ONRBTREE" using c'(3,4) g(7) on by simp_all
  note R = replace_kid_ok[OF g(4,5) sr this c'(5)]
  show ?thesis using g c' R(1,2) by (intro exI[of _ p'] exI[of _ c0] exI[of _ c']) simp
qed

lemma lookup_single:
  assumes fl: "\<not> lk_matchind flags"
  shows "tree_ok env load (how_maybe flags) d p \<Longrightarrow> d < n \<Longrightarrow>
    \<exists>pos' f cache' next. lookup_again RB_TREE env load flags k n cache k (p, up) = Ok (pos', f, cache', next) \<and>
      (case find (\<lambda>b. bref_covers b k) (leaves env load (how_maybe flags) d p) of
         None \<Rightarrow> f = FoundNone
       | Some b \<Rightarrow> \<exists>c. f = FoundChain c \<and> same_block b (cn_bref c) \<and> \<not> has (cn_chain c) HAMMER2_CHAIN_DELETED)"
proof (induction n arbitrary: d p up cache)
  case (Suc n)
  obtain d' where d: "d = Suc d'" using Suc.prems(1) by (cases d) auto
  note ok = Suc.prems(1)[unfolded d]
  obtain count where lb: "lookup_base p = Ok (cn_base p, count)" and lo: "level_ok (counted count p) count" using ok by auto
  define p1 where "p1 = counted count p"
  have p1: "view p1 = view p" "CNode (hammer2_chain_countbrefs (cn_chain p) (cn_base p) count) (cn_base p) (cn_kids p) = p1"
    "CNode (cn_chain p1) (cn_base p) (cn_kids p1) = p1" by (simp_all add: p1_def)
  note lo1 = lo[folded p1_def]
  have so: "sorted_wrt bref_left (brefs p)" using brefs_sorted[OF level_okD(1)[OF lo1]] p1(1) by simp
  have cov: "(\<lambda>v :: hammer2_blockref \<times> ctree option. unat k < bref_hi (fst v) \<and> br_key (fst v) \<le> k) = (\<lambda>v. bref_covers (fst v) k)"
    by (auto simp: fun_eq_iff bref_covers_def word_le_unat)
  obtain cache' "next" where cf: "hammer2_combined_find RB_TREE p1 count cache k k =
      (case find (\<lambda>v. bref_covers (fst v) k) (view p) of
         None \<Rightarrow> Ok (None, None, cache', next)
       | Some (b, c) \<Rightarrow> Ok (c, Some b, cache', next_after b (k + 1)))"
    using combined_find_spec[OF level_okD(1)[OF lo1], of cache k k] unfolding cov p1(1) by blast
  note F = find_leaves[OF ok so, of k, folded d]
  have nm: "\<not> (is_indirect (cn_bref p) \<and> lk_matchind flags \<and> k = br_key (cn_bref p) \<and> k = bref_end (cn_bref p))" using fl by blast
  note step = lookup_again.simps(2)[of RB_TREE env load flags k n cache k p up,
      unfolded if_not_P[OF nm] lb obind.simps prod.case Let_def p1(2,3) cf]
  show ?case
  proof (cases "find (\<lambda>v. bref_covers (fst v) k) (view p)")
    case None
    then show ?thesis using step F by simp
  next
    case (Some v)
    obtain b c where v: "v = (b, c)" by (cases v)
    have vm: "(b, c) \<in> set (view p)" using find_split_first[OF Some] v by auto
    have l: "c = None \<longrightarrow> loadable b" "br_type b \<notin> {HAMMER2_BREF_TYPE_VOLUME, HAMMER2_BREF_TYPE_FREEMAP}" using ok vm by force+
    let ?how = "if is_indirect b then how_maybe flags else how_leaf flags"
    obtain p' c0 c' where T: "(case c of Some c \<Rightarrow> Ok (Some (p1, c)) | None \<Rightarrow> hammer2_chain_get p1 (core_generation (cn_chain p1)) b) = Ok (Some (p', c0))"
      "cn_bref c0 = b" "hammer2_chain_lock env load c0 ?how = Ok c'" "loaded env load ?how (b, c) = Ok c'" "same_block b (cn_bref c')"
      "\<not> has (cn_chain c') HAMMER2_CHAIN_DELETED"
      using take_element[OF lo1 vm[folded p1(1)] l, of env load ?how] by blast
    have st: "lookup_again RB_TREE env load flags k (Suc n) cache k (p, up) =
      (if is_indirect b then lookup_again RB_TREE env load flags k n cache' k (c', replace_kid c' p' # up)
       else Ok ((replace_kid c' p', up), FoundChain c', cache', next_after b (k + 1)))"
      unfolding step Some v option.case prod.case obind.simps T(1) T(2) T(3) using T(6) same_block_fields(5)[OF T(5)] by simp
    show ?thesis
    proof (cases "is_indirect b")
      case True
      then obtain e where e: "loaded env load (how_maybe flags) (b, c) = Ok e" "tree_ok env load (how_maybe flags) d' e" using ok vm by force
      then have "e = c'" using T(4) True by simp
      then have "tree_ok env load (how_maybe flags) d' c'" "leaves_of env load (how_maybe flags) d' v = leaves env load (how_maybe flags) d' c'"
        using e True v by simp_all
      then show ?thesis using Suc.IH[of d' c' cache' "replace_kid c' p' # up"] Suc.prems(2) d st True F Some by simp
    next
      case False
      have "bref_covers b k" using find_split_first[OF Some] v by auto
      then have "find (\<lambda>b. bref_covers b k) (leaves env load (how_maybe flags) d p) = Some b" using F Some v False by simp
      then show ?thesis using st False T(5,6) by simp
    qed
  qed
qed simp

section \<open>Creating and looking up\<close>

lemma within_left: "bref_left a b \<Longrightarrow> within a x \<Longrightarrow> within b y \<Longrightarrow> bref_left x y"
  by (auto simp: bref_left_def within_def)

lemma sorted_concat:
  assumes "sorted_wrt R (map f vs)" "\<And>v. v \<in> set vs \<Longrightarrow> sorted_wrt R (F v)"
    "\<And>v w x y. v \<in> set vs \<Longrightarrow> w \<in> set vs \<Longrightarrow> R (f v) (f w) \<Longrightarrow> x \<in> set (F v) \<Longrightarrow> y \<in> set (F w) \<Longrightarrow> R x y"
  shows "sorted_wrt R (concat (map F vs))"
  using assms
proof (induction vs)
  case (Cons v vs)
  have "sorted_wrt R (concat (map F vs))"
    by (rule Cons.IH) (use Cons.prems(1) in simp, use Cons.prems(2) in simp, use Cons.prems(3) in \<open>meson list.set_intros(2)\<close>)
  moreover have "R x y" if "x \<in> set (F v)" "w \<in> set vs" "y \<in> set (F w)" for x w y
    using Cons.prems(1) Cons.prems(3)[of v w x y] that by simp
  ultimately show ?case using Cons.prems(2)[of v] by (auto simp: sorted_wrt_append)
qed simp

lemma leaves_sorted: "tree_ok env load how d t \<Longrightarrow> sorted_wrt bref_left (leaves env load how d t)"
proof (induction d arbitrary: t)
  case (Suc d)
  obtain count where "level_ok (counted count t) count" using Suc.prems by auto
  then have so: "sorted_wrt bref_left (brefs t)" using brefs_sorted[OF level_okD(1)] by fastforce
  show ?case unfolding leaves.simps
  proof (rule sorted_concat[OF so])
    fix v assume v: "v \<in> set (view t)"
    show "sorted_wrt bref_left (leaves_of env load how d v)"
    proof (cases "is_indirect (fst v)")
      case True
      then obtain c where "loaded env load how v = Ok c" "tree_ok env load how d c" using Suc.prems v by auto
      then show ?thesis using Suc.IH True by simp
    qed simp
  next
    fix v w x y assume "v \<in> set (view t)" "w \<in> set (view t)" "bref_left (fst v) (fst w)"
      "x \<in> set (leaves_of env load how d v)" "y \<in> set (leaves_of env load how d w)"
    then show "bref_left x y" using within_left leaves_of_within[OF Suc.prems] by blast
  qed
qed simp

lemma inside_within:
  assumes "in_block I b" "bref_aligned b" "bref_aligned (cn_bref I)"
  shows "within (cn_bref I) b"
proof -
  let ?m = "unat (br_keybits (cn_bref I))" and ?k = "unat (br_keybits b)" and ?a = "unat (br_key b)" and ?i = "unat (br_key (cn_bref I))"
  have in1: "?k \<le> ?m" "?a div 2 ^ ?m = ?i div 2 ^ ?m" using assms(1) by (auto simp: in_block_def inside_def)
  note sb = key_same_block[OF assms(3)[unfolded bref_aligned_def] in1(2)]
  obtain q where q: "?a = 2 ^ ?k * q" using assms(2) by (auto simp: bref_aligned_def elim: dvdE)
  have "(2 :: nat) ^ ?m = 2 ^ ?k * 2 ^ (?m - ?k)" using in1(1) by (simp flip: power_add)
  moreover obtain j where "?i = 2 ^ ?m * j" using assms(3) by (auto simp: bref_aligned_def elim: dvdE)
  ultimately have "?i + 2 ^ ?m = 2 ^ ?k * (2 ^ (?m - ?k) * (j + 1))" by (simp add: algebra_simps)
  then obtain r where r: "?i + 2 ^ ?m = 2 ^ ?k * r" by blast
  have "2 ^ ?k * q < 2 ^ ?k * r" using sb(2) q r by simp
  then have "2 ^ ?k * (q + 1) \<le> 2 ^ ?k * r" by (intro mult_le_mono2) simp
  then show ?thesis using sb(1) q r by (simp add: within_def bref_hi_def)
qed

lemma view_block:
  assumes ok: "level_ok t count" and I: "I \<in> set (cn_kids t)" and v: "v \<in> set (view t)" "br_key (fst v) = br_key (cn_bref I)"
  shows "v = (cn_bref I, Some I)"
proof (cases v)
  case (Pair b c)
  note ls = level_sorted[OF level_okD(1)[OF ok]]
  show ?thesis
  proof (cases c)
    case None
    then have "br_key (cn_bref I) \<noteq> br_key b" using view_None[OF ls(1,3)] v(1) Pair I by (auto simp: view_def)
    then show ?thesis using v(2) Pair by simp
  next
    case (Some x)
    then have x: "x \<in> set (cn_kids t)" "b = cn_bref x" using view_kid[OF level_okD(1)[OF ok]] v(1) Pair by auto
    then have "find (\<lambda>y. br_key (cn_bref y) = br_key (cn_bref I)) (cn_kids t) = Some x" using find_kid[OF ls(3) x(1)] v(2) Pair by simp
    then have "x = I" using find_kid[OF ls(3) I] by simp
    then show ?thesis using Pair Some x by simp
  qed
qed

text \<open>A level of leaves, and what the elements of a level have to be for it.\<close>

definition leaf_level :: "ctree \<Rightarrow> bool" where
  "leaf_level t \<longleftrightarrow> (\<forall>b\<in>set (brefs t). \<not> is_indirect b \<and> br_type b \<notin> {HAMMER2_BREF_TYPE_VOLUME, HAMMER2_BREF_TYPE_FREEMAP} \<and>
     loadable b \<and> bref_aligned b)"

lemma block_tree_ok:
  assumes nb: "new_block t I" and el: "\<forall>b\<in>set (brefs I). \<not> is_indirect b \<and> br_type b \<notin> {HAMMER2_BREF_TYPE_VOLUME, HAMMER2_BREF_TYPE_FREEMAP}"
  shows "tree_ok env load how (Suc 0) I" "leaves env load how (Suc 0) I = brefs I" "loaded env load how (cn_bref I, Some I) = Ok I"
proof -
  obtain icount where ok: "level_ok I icount" using nb by (auto simp: new_block_def)
  note ls = level_sorted[OF level_okD(1)[OF ok]]
  have ni: "\<not> has (cn_chain I) HAMMER2_CHAIN_INITIAL" using level_okD(6)[OF ok] nb by (auto simp: new_block_def)
  have lb: "lookup_base I = Ok (cn_base I, icount)"
    using level_okD(4)[OF ok] nb ni by (auto simp: lookup_base_def new_block_def is_indirect_def)
  have "snd v \<noteq> None" if "v \<in> set (view I)" for v
    using view_None[OF ls(1,3), of "fst v"] that nb by (cases v) (auto simp: view_def new_block_def)
  then have all: "\<forall>v\<in>set (view I). snd v \<noteq> None \<and> \<not> is_indirect (fst v) \<and> br_type (fst v) \<notin> {HAMMER2_BREF_TYPE_VOLUME, HAMMER2_BREF_TYPE_FREEMAP}"
    using el by simp
  then show "tree_ok env load how (Suc 0) I" using lb ok counted_id[OF ok] unfolding tree_ok.simps by (metis (no_types, lifting))
  show "leaves env load how (Suc 0) I = brefs I" 
  proof -
    have "map (leaves_of env load how 0) (view I) = map (\<lambda>v. [fst v]) (view I)" using all by (intro map_cong) simp_all
    then show ?thesis unfolding leaves.simps by (metis concat_map_singleton)
  qed
  show "loaded env load how (cn_bref I, Some I) = Ok I" using nb by (auto simp: loaded_def hammer2_chain_lock_def new_block_def)
qed

text \<open>The tree after a chain has been created on a level of leaves.\<close>

lemma attached_cases:
  assumes pl: "attached t t' c" and t: "leaf_level t" and c: "\<not> is_indirect (cn_bref c)"
    "\<forall>b\<in>set (brefs t). bref_left b (cn_bref c) \<or> bref_left (cn_bref c) b"
  obtains (flat) "c \<in> set (cn_kids t')" "brefs t' = bref_insort (cn_bref c) (brefs t)"
    | (block) I where "new_block t' I" "\<forall>b\<in>set (brefs I). in_block I b" "cn_bref c \<in> set (brefs t') \<longrightarrow> c \<in> set (cn_kids t')"
        "cn_bref I \<in> set (brefs t')" "set (brefs t') - {cn_bref I} \<union> set (brefs I) = insert (cn_bref c) (set (brefs t))"
proof -
  have nI: "cn_bref I \<noteq> cn_bref c" "cn_bref I \<notin> set (brefs t)" if "new_block t' I" for I
    using that t c(1) unfolding new_block_def is_indirect_def leaf_level_def by auto
  have nc: "cn_bref c \<notin> set (brefs t)" using c(2) bref_left_irrefl by blast
  from pl[unfolded attached_def] consider "c \<in> set (cn_kids t')" "brefs t' = bref_insort (cn_bref c) (brefs t)"
    | (beside) I where "new_block t' I" "c \<in> set (cn_kids t')" "brefs I = filter (in_block I) (brefs t)"
        "brefs t' = bref_insort (cn_bref c) (bref_insort (cn_bref I) (filter (\<lambda>b. \<not> in_block I b) (brefs t)))"
    | (below) I where "new_block t' I" "in_block I (cn_bref c)" "brefs I = bref_insort (cn_bref c) (filter (in_block I) (brefs t))"
        "brefs t' = bref_insort (cn_bref I) (filter (\<lambda>b. \<not> in_block I b) (brefs t))"
    by blast
  then show thesis
  proof cases
    case 1
    then show ?thesis by (rule flat)
  next
    case beside
    have "set (brefs t') - {cn_bref I} \<union> set (brefs I) = insert (cn_bref c) (set (brefs t))"
      unfolding beside(3,4) set_bref_insort set_filter using nI[OF beside(1)] by blast
    moreover have "cn_bref I \<in> set (brefs t')" unfolding beside(4) set_bref_insort by simp
    moreover have "\<forall>b\<in>set (brefs I). in_block I b" unfolding beside(3) by simp
    ultimately show ?thesis using block beside(1,2) by blast
  next
    case below
    have "set (brefs t') - {cn_bref I} \<union> set (brefs I) = insert (cn_bref c) (set (brefs t))"
      unfolding below(3,4) set_bref_insort set_filter using nI[OF below(1)] by blast
    moreover have "cn_bref I \<in> set (brefs t')" unfolding below(4) set_bref_insort by simp
    moreover have "cn_bref c \<notin> set (brefs t')"
      unfolding below(4) set_bref_insort set_filter using nI(1)[OF below(1), symmetric] nc by blast
    moreover have "\<forall>b\<in>set (brefs I). in_block I b" unfolding below(3) set_bref_insort using below(2) by simp
    ultimately show ?thesis using block below(1) by blast
  qed
qed

lemma attached_tree:
  assumes ok: "level_ok t' count" "has_table t'" "\<not> is_indirect (cn_bref t')"
    and t: "leaf_level t" "sorted_wrt bref_left (brefs t)" and pl: "attached t t' c"
    and c: "\<not> is_indirect (cn_bref c)" "br_type (cn_bref c) \<notin> {HAMMER2_BREF_TYPE_VOLUME, HAMMER2_BREF_TYPE_FREEMAP}" "bref_aligned (cn_bref c)"
      "\<forall>b\<in>set (brefs t). bref_left b (cn_bref c) \<or> bref_left (cn_bref c) b"
  shows "tree_ok env load how (Suc (Suc 0)) t' \<and> leaves env load how (Suc (Suc 0)) t' = bref_insort (cn_bref c) (brefs t)"
proof -
  have lb: "lookup_base t' = Ok (cn_base t', count)"
    using level_okD(4)[OF ok(1)] ok(2,3) by (auto simp: lookup_base_def has_table_def table_count_def is_indirect_def split: if_splits)
  have lv: "level_ok (counted count t') count" using ok(1) counted_id[OF ok(1)] by simp
  have some: "snd v \<noteq> None" if "k \<in> set (cn_kids t')" "v \<in> set (view t')" "fst v = cn_bref k" for k v
    using view_block[OF ok(1) that(1,2)] that(3) by simp
  have P: "sorted_wrt bref_left (bref_insort (cn_bref c) (brefs t))" by (rule bref_insort_props(1)[OF t(2) c(4)])
  have leaf: "\<not> is_indirect b \<and> br_type b \<notin> {HAMMER2_BREF_TYPE_VOLUME, HAMMER2_BREF_TYPE_FREEMAP}"
    if "b \<in> insert (cn_bref c) (set (brefs t))" for b using that t(1) c unfolding leaf_level_def by blast
  show ?thesis
    using pl t(1) c(1,4)
  proof (cases rule: attached_cases)
    case flat
    have v: "(snd v = None \<longrightarrow> loadable (fst v)) \<and> \<not> is_indirect (fst v) \<and> br_type (fst v) \<notin> {HAMMER2_BREF_TYPE_VOLUME, HAMMER2_BREF_TYPE_FREEMAP}"
      if "v \<in> set (view t')" for v
    proof -
      have "fst v \<in> set (brefs t')" using that by simp
      then have m: "fst v \<in> insert (cn_bref c) (set (brefs t))" unfolding flat(2) set_bref_insort .
      then show ?thesis using leaf[OF m] some[OF flat(1) that] t(1) unfolding leaf_level_def by blast
    qed
    have "map (leaves_of env load how (Suc 0)) (view t') = map (\<lambda>v. [fst v]) (view t')" using v by (intro map_cong) simp_all
    then have "leaves env load how (Suc (Suc 0)) t' = brefs t'" unfolding leaves.simps(2)[of env load how "Suc 0"] by (metis concat_map_singleton)
    moreover have "tree_ok env load how (Suc (Suc 0)) t'"
      unfolding tree_ok.simps(2)[of env load how "Suc 0"] using v lb lv by (metis (no_types, lifting))
    ultimately show ?thesis using flat(2) by simp
  next
    case (block I)
    have sI: "b \<in> insert (cn_bref c) (set (brefs t))" if "b \<in> set (brefs I) \<or> b \<in> set (brefs t') \<and> b \<noteq> cn_bref I" for b
      using that block(5) by blast
    have el: "\<forall>b\<in>set (brefs I). \<not> is_indirect b \<and> br_type b \<notin> {HAMMER2_BREF_TYPE_VOLUME, HAMMER2_BREF_TYPE_FREEMAP}" using sI leaf by blast
    note B = block_tree_ok[OF block(1) el, of env load how]
    have al: "bref_aligned b" if "b \<in> set (brefs I)" for b using sI[of b] that t(1) c(3) unfolding leaf_level_def by blast
    have wi: "\<forall>b\<in>set (brefs I). within (cn_bref I) b" using inside_within block(1,2) al unfolding new_block_def by blast
    have I2: "I \<in> set (cn_kids t')" "is_indirect (cn_bref I)" "br_type (cn_bref I) = 2" using block(1) by (simp_all add: new_block_def is_indirect_def)
    have vI: "v = (cn_bref I, Some I)" if "v \<in> set (view t')" "fst v = cn_bref I" for v using view_block[OF ok(1) I2(1) that(1)] that(2) by simp
    have v: "(snd v = None \<longrightarrow> loadable (fst v)) \<and> \<not> is_indirect (fst v) \<and> br_type (fst v) \<notin> {HAMMER2_BREF_TYPE_VOLUME, HAMMER2_BREF_TYPE_FREEMAP}"
      if a: "v \<in> set (view t')" "fst v \<noteq> cn_bref I" for v
    proof -
      have m: "fst v \<in> set (brefs t')" using a(1) by simp
      have m2: "fst v \<in> insert (cn_bref c) (set (brefs t))" using sI m a(2) by blast
      show ?thesis
      proof (cases "fst v = cn_bref c")
        case True
        then have "c \<in> set (cn_kids t')" using block(3) m by simp
        then show ?thesis using leaf[OF m2] some[OF _ a(1) True] by blast
      next
        case False
        then show ?thesis using leaf[OF m2] m2 t(1) unfolding leaf_level_def by blast
      qed
    qed
    have tr: "tree_ok env load how (Suc (Suc 0)) t'"
      unfolding tree_ok.simps(2)[of env load how "Suc 0"]
    proof (intro conjI exI ballI)
      show "lookup_base t' = Ok (cn_base t', count)" "level_ok (counted count t') count" by (rule lb, rule lv)
    next
      fix v assume a: "v \<in> set (view t')"
      show "snd v = None \<longrightarrow> loadable (fst v)" using v[OF a] vI[OF a] by (cases "fst v = cn_bref I") auto
      show "br_type (fst v) \<notin> {HAMMER2_BREF_TYPE_VOLUME, HAMMER2_BREF_TYPE_FREEMAP}" using v[OF a] I2(3) by (cases "fst v = cn_bref I") auto
      show "is_indirect (fst v) \<longrightarrow> (\<exists>x. loaded env load how v = Ok x \<and> tree_ok env load how (Suc 0) x \<and> (\<forall>b\<in>set (brefs x). within (fst v) b))"
        using v[OF a] vI[OF a] B(1,3) wi by (cases "fst v = cn_bref I") auto
    qed
    have "set (leaves env load how (Suc (Suc 0)) t') = set (bref_insort (cn_bref c) (brefs t))"
    proof -
      have lo: "set (leaves_of env load how (Suc 0) v) = (if fst v = cn_bref I then set (brefs I) else {fst v})" if "v \<in> set (view t')" for v
        using v[OF that] vI[OF that] B(2,3) I2(2) by (cases "fst v = cn_bref I") auto
      have "set (leaves env load how (Suc (Suc 0)) t') = (\<Union>v\<in>set (view t'). set (leaves_of env load how (Suc 0) v))"
        unfolding leaves.simps(2)[of env load how "Suc 0"] set_concat set_map by blast
      also have "\<dots> = (\<Union>v\<in>set (view t'). if fst v = cn_bref I then set (brefs I) else {fst v})" using lo by (intro SUP_cong) simp_all
      also have "\<dots> = set (brefs t') - {cn_bref I} \<union> set (brefs I)" using block(4) by auto
      finally show ?thesis unfolding set_bref_insort block(5) .
    qed
    then show ?thesis using tr left_sorted_unique[OF leaves_sorted[OF tr] P] by blast
  qed
qed

section \<open>The lookup of a key\<close>

lemma lookup_key:
  assumes "is_indirect (cn_bref p) \<longrightarrow> br_key (cn_bref p) \<le> k \<and> k \<le> bref_end (cn_bref p)"
    "tree_ok env load (how_maybe flags) d p" "d < 299999" "\<not> lk_matchind flags"
  shows "\<exists>pos' f cache' next. hammer2_chain_lookup RB_TREE env load flags cache k k (p, up) = Ok (pos', f, cache', next) \<and>
      (case find (\<lambda>b. bref_covers b k) (leaves env load (how_maybe flags) d p) of
         None \<Rightarrow> f = FoundNone
       | Some b \<Rightarrow> \<exists>c. f = FoundChain c \<and> same_block b (cn_bref c) \<and> \<not> has (cn_chain c) HAMMER2_CHAIN_DELETED)"
proof -
  have "lookup_up env load (how_maybe flags) k k p up = Ok (p, up)" using assms(1) by (cases up) auto
  then show ?thesis using lookup_single[OF assms(4,2,3), of k cache up] by (simp add: hammer2_chain_lookup_def)
qed

text \<open>In the build of the repository a lookup that reaches a well-formed level faults there.\<close>

lemma lookup_stub:
  assumes "is_indirect (cn_bref p) \<longrightarrow> br_key (cn_bref p) \<le> k \<and> k \<le> bref_end (cn_bref p)" "tree_ok env load how d p" "\<not> lk_matchind flags"
  shows "hammer2_chain_lookup RB_STUB env load flags cache k k (p, up) = Fault ''info''"
proof -
  obtain count where lb: "lookup_base p = Ok (cn_base p, count)" "level_ok (counted count p) count" using assms(2) by (cases d) auto
  have up: "lookup_up env load (how_maybe flags) k k p up = Ok (p, up)" using assms(1) by (cases up) auto
  have "lookup_again RB_STUB env load flags k (Suc m) cache k (p, up) = Fault ''info''" for m
    using combined_find_stub[OF level_okD(1)[OF lb(2)], of cache k k] lb(1) assms(3) by (simp add: lookup_again.simps(2))
  from this[of 299998] show ?thesis unfolding hammer2_chain_lookup_def fst_conv snd_conv up obind.simps by simp
qed

text \<open>
  C11: A lookup of one key in a well-formed tree of blocks, in memory or on the media, in the repaired build: it ends
  and does not panic.  It returns the chain of the leaf whose range has the key, or nothing when no leaf has it: the indirect blocks
  on the way are read in, and neither the shape of the tree nor what is cached changes the answer.  In the build of the repository every such lookup faults.
\<close>

theorem lookup_correct:
  assumes "is_indirect (cn_bref p) \<longrightarrow> br_key (cn_bref p) \<le> k \<and> k \<le> bref_end (cn_bref p)"
    "tree_ok env load (how_maybe flags) d p" "d < 299999" "\<not> lk_matchind flags"
  shows "(\<exists>pos' f cache' next. hammer2_chain_lookup RB_TREE env load flags cache k k (p, up) = Ok (pos', f, cache', next) \<and>
      (case find (\<lambda>b. bref_covers b k) (leaves env load (how_maybe flags) d p) of
         None \<Rightarrow> f = FoundNone
       | Some b \<Rightarrow> \<exists>c. f = FoundChain c \<and> same_block b (cn_bref c) \<and> \<not> has (cn_chain c) HAMMER2_CHAIN_DELETED)) \<and>
    hammer2_chain_lookup RB_STUB env load flags cache k k (p, up) = Fault ''info''"
  by (rule conjI[OF lookup_key[OF assms] lookup_stub[OF assms(1,2,4)]])

lemma find_unique:
  assumes "set ys = set xs" "\<And>x y. x \<in> set xs \<Longrightarrow> y \<in> set xs \<Longrightarrow> P x \<Longrightarrow> P y \<Longrightarrow> x = y"
  shows "find P ys = find P xs"
proof (cases "find P ys")
  case None
  then have "find P xs = None" using assms(1) by (simp add: find_None_iff)
  then show ?thesis using None by simp
next
  case (Some y)
  then have y: "y \<in> set xs" "P y" using find_split_first[OF Some] assms(1) by auto
  then obtain x where x: "find P xs = Some x" by (cases "find P xs") (auto simp: find_None_iff)
  then have "x \<in> set xs" "P x" using find_split_first[OF x] by auto
  then show ?thesis using Some x y assms(2) by simp
qed

lemma covers_unique:
  assumes "sorted_wrt bref_left xs" "a \<in> set xs" "b \<in> set xs" "bref_covers a k" "bref_covers b k"
  shows "a = b"
proof -
  have "a = b \<or> bref_left a b \<or> bref_left b a" using assms(1-3) by (induction xs) auto
  then show ?thesis using assms(4,5) by (auto simp: bref_left_def bref_covers_def)
qed

lemma find_insort:
  assumes "sorted_wrt bref_left xs" "\<forall>b\<in>set xs. bref_left b c \<or> bref_left c b"
  shows "find (\<lambda>b. bref_covers b k) (bref_insort c xs) = (if bref_covers c k then Some c else find (\<lambda>b. bref_covers b k) xs)"
proof -
  note u = covers_unique[OF bref_insort_props(1)[OF assms], of _ _ k, unfolded set_bref_insort]
  have "find (\<lambda>b. bref_covers b k) (bref_insort c xs) = find (\<lambda>b. bref_covers b k) (c # xs)"
    by (rule find_unique) (simp_all only: set_bref_insort list.set, use u in blast)
  then show ?thesis by simp
qed


section \<open>The scan of a level\<close>

text \<open>A level that can be scanned.  It stays one, with the same elements, when a scan loads an element.\<close>

definition scannable :: "nat \<Rightarrow> ctree \<Rightarrow> bool" where
  "scannable count p \<longleftrightarrow> lookup_base p = Ok (cn_base p, count) \<and> level_ok (counted count p) count \<and>
     (\<forall>b\<in>set (brefs p). loadable b \<and> br_type b \<notin> {HAMMER2_BREF_TYPE_VOLUME, HAMMER2_BREF_TYPE_FREEMAP})"

lemma same_block_simps:
  "same_block b b" "same_block a b \<Longrightarrow> same_block b c \<Longrightarrow> same_block a c" "same_block a b \<Longrightarrow> loadable a = loadable b"
  "same_block a b \<Longrightarrow> bref_hi a = bref_hi b" "same_block a b \<Longrightarrow> bref_next a = bref_next b"
  using same_block_fields[of a b]
  by (auto simp: same_block_def loadable_def hammer2_chain_alloc_def bref_hi_def bref_next_def Let_def)

lemma same_blocks_refl: "list_all2 same_block xs xs"
  by (simp add: list_all2_same same_block_simps(1))

lemma same_blocks_in: "list_all2 same_block xs ys \<Longrightarrow> y \<in> set ys \<Longrightarrow> \<exists>x\<in>set xs. same_block x y"
  by (induction rule: list_all2_induct) auto

lemma same_blocks_map:
  "\<forall>x\<in>set xs. br_key x = br_key b \<longrightarrow> same_block x b' \<Longrightarrow> list_all2 same_block xs (map (\<lambda>x. if br_key x = br_key b then b' else x) xs)"
  by (induction xs) (auto simp: same_block_simps(1))

lemma countbrefs_same:
  "ch_bref (hammer2_chain_countbrefs c base count) = ch_bref c" "ch_flags (hammer2_chain_countbrefs c base count) = ch_flags c"
  "ch_bytes (hammer2_chain_countbrefs c base count) = ch_bytes c"
  by (simp_all add: hammer2_chain_countbrefs_def Let_def split: option.split)

lemma counted_base: "lookup_base (counted count p) = lookup_base p"
  by (cases p) (simp add: lookup_base_def table_count_def has_def countbrefs_same)

lemma find_map: "find P (map f xs) = map_option f (find (\<lambda>x. P (f x)) xs)"
  by (induction xs) auto

lemma scan_step:
  assumes p: "scannable count p"
  shows "\<exists>p' r cache'. scan_again RB_TREE env load flags (Suc n) cache key p = Ok (p', r, cache') \<and> scannable count p' \<and>
    list_all2 same_block (brefs p) (brefs p') \<and>
    (case find (\<lambda>b. unat key < bref_hi b) (brefs p) of
       None \<Rightarrow> r = None
     | Some b \<Rightarrow> \<exists>c. r = Some c \<and> same_block b (cn_bref c) \<and> \<not> has (cn_chain c) HAMMER2_CHAIN_DELETED)"
proof -
  note S = p[unfolded scannable_def]
  define p1 where "p1 = counted count p"
  have p1: "view p1 = view p" "CNode (hammer2_chain_countbrefs (cn_chain p) (cn_base p) count) (cn_base p) (cn_kids p) = p1"
    "CNode (cn_chain p1) (cn_base p) (cn_kids p1) = p1" "cn_base p1 = cn_base p" by (simp_all add: p1_def)
  have lo1: "level_ok p1 count" using S p1_def by simp
  have lb1: "lookup_base p1 = lookup_base p" unfolding p1_def by (rule counted_base)
  have sc1: "scannable count p1" using S p1(1,4) counted_id[OF lo1] lo1 lb1 by (simp add: scannable_def)
  have cov: "(\<lambda>v :: hammer2_blockref \<times> ctree option. unat key < bref_hi (fst v) \<and> br_key (fst v) \<le> -1) = (\<lambda>v. unat key < bref_hi (fst v))" by simp
  obtain cache' "next" where cf: "hammer2_combined_find RB_TREE p1 count cache key (-1) =
      (case find (\<lambda>v. unat key < bref_hi (fst v)) (view p) of
         None \<Rightarrow> Ok (None, None, cache', next)
       | Some (b, c) \<Rightarrow> Ok (c, Some b, cache', next_after b (-1 + 1)))"
    using combined_find_spec[OF level_okD(1)[OF lo1], of cache key "-1"] unfolding cov p1(1) by blast
  have lb: "lookup_base p = Ok (cn_base p, count)" using S by blast
  note step = scan_again.simps(2)[of RB_TREE env load flags n cache key p, unfolded lb obind.simps prod.case Let_def p1(2,3) cf]
  have fb: "find (\<lambda>b. unat key < bref_hi b) (brefs p) = map_option fst (find (\<lambda>v. unat key < bref_hi (fst v)) (view p))"
    by (rule find_map)
  show ?thesis
  proof (cases "find (\<lambda>v. unat key < bref_hi (fst v)) (view p)")
    case None
    have "list_all2 same_block (brefs p) (brefs p1)" unfolding p1(1) by (rule same_blocks_refl)
    then show ?thesis using step None sc1 fb by simp
  next
    case (Some v)
    obtain b c where v: "v = (b, c)" by (cases v)
    have vm: "(b, c) \<in> set (view p)" using find_split_first[OF Some] v by auto
    then have bm: "b \<in> set (brefs p)" by force
    then have l: "c = None \<longrightarrow> loadable b" "br_type b \<notin> {HAMMER2_BREF_TYPE_VOLUME, HAMMER2_BREF_TYPE_FREEMAP}" using S by blast+
    from take_element[OF lo1 vm[folded p1(1)] l, of env load "how_leaf flags"] obtain p' c0 c' where
      T: "(case c of Some c \<Rightarrow> Ok (Some (p1, c)) | None \<Rightarrow> hammer2_chain_get p1 (core_generation (cn_chain p1)) b) = Ok (Some (p', c0))"
      "hammer2_chain_lock env load c0 (how_leaf flags) = Ok c'" "same_block b (cn_bref c')" "\<not> has (cn_chain c') HAMMER2_CHAIN_DELETED"
      "level_ok (replace_kid c' p') count" "brefs (replace_kid c' p') = map (\<lambda>x. if br_key x = br_key b then cn_bref c' else x) (brefs p1)"
      "cn_base p' = cn_base p1" "ch_flags (cn_chain p') = ch_flags (cn_chain p1)" "cn_bref p' = cn_bref p1" by blast
    have so: "sorted_wrt bref_left (brefs p)" using brefs_sorted[OF level_okD(1)[OF lo1]] p1(1) by simp
    have "x = b" if "x \<in> set (brefs p)" "br_key x = br_key b" for x
      using covers_unique[OF so that(1) bm, of "br_key b"] that(2) bref_hi_pos[of x] bref_hi_pos[of b] by (simp add: bref_covers_def)
    then have "list_all2 same_block (brefs p) (brefs (replace_kid c' p'))"
      unfolding T(6) p1(1) using T(3) by (intro same_blocks_map) blast
    moreover have "scannable count (replace_kid c' p')" unfolding scannable_def
    proof (intro conjI)
      have "lookup_base p1 = Ok (cn_base p1, count)" using lb lb1 p1(4) by simp
      then show "lookup_base (replace_kid c' p') = Ok (cn_base (replace_kid c' p'), count)"
        using T(7-9) level_okD(4)[OF T(5)] level_okD(4)[OF lo1]
        by (simp add: lookup_base_def replace_kid_def has_def split: if_splits)
      show "level_ok (counted count (replace_kid c' p')) count" using T(5) counted_id[OF T(5)] by simp
      show "\<forall>b\<in>set (brefs (replace_kid c' p')). loadable b \<and> br_type b \<notin> {HAMMER2_BREF_TYPE_VOLUME, HAMMER2_BREF_TYPE_FREEMAP}"
      proof
        fix y assume "y \<in> set (brefs (replace_kid c' p'))"
        then obtain x where x: "x \<in> set (brefs p)" "same_block x y" using same_blocks_in[OF calculation] by blast
        have "loadable x" "br_type x \<notin> {HAMMER2_BREF_TYPE_VOLUME, HAMMER2_BREF_TYPE_FREEMAP}" using S x(1) by blast+
        then show "loadable y \<and> br_type y \<notin> {HAMMER2_BREF_TYPE_VOLUME, HAMMER2_BREF_TYPE_FREEMAP}"
          using same_block_simps(3)[OF x(2)] same_block_fields(1)[OF x(2)] by simp
      qed
    qed
    ultimately show ?thesis using step Some v fb T(1-4) by simp
  qed
qed

text \<open>The loop of a caller that goes over a level: from no chain until a scan returns none.\<close>

fun scan_level :: "rb_build \<Rightarrow> chain_env \<Rightarrow> load_fn \<Rightarrow> lookup_flags \<Rightarrow> nat \<Rightarrow> int \<Rightarrow> ctree \<Rightarrow> ctree option \<Rightarrow> ctree list outcome" where
  "scan_level build env load flags 0 cache parent chain = Panic ''scan_level''"
| "scan_level build env load flags (Suc n) cache parent chain =
     obind (hammer2_chain_scan build env load flags cache parent chain) (\<lambda>(parent', chain', cache').
       case chain' of None \<Rightarrow> Ok [] | Some c \<Rightarrow> obind (scan_level build env load flags n cache' parent' (Some c)) (\<lambda>cs. Ok (c # cs)))"

text \<open>The scan behind a chain: the elements up to it are skipped, the ones after it are not.\<close>

lemma scan_next:
  assumes p: "scannable count p" and br: "brefs p = pre @ post" and c: "case chain of None \<Rightarrow> pre = [] | Some c \<Rightarrow> pre \<noteq> [] \<and> same_block (last pre) (cn_bref c)"
  shows "\<exists>p' r cache'. hammer2_chain_scan RB_TREE env load flags cache p chain = Ok (p', r, cache') \<and> scannable count p' \<and>
    list_all2 same_block (brefs p) (brefs p') \<and>
    (case post of [] \<Rightarrow> r = None | b # _ \<Rightarrow> \<exists>c. r = Some c \<and> same_block b (cn_bref c) \<and> \<not> has (cn_chain c) HAMMER2_CHAIN_DELETED)"
proof -
  have lo: "level_ok (counted count p) count" using p by (simp add: scannable_def)
  have so: "sorted_wrt bref_left (pre @ post)" using brefs_sorted[OF level_okD(1)[OF lo]] br by simp
  have wf: "bref_wf b" if "b \<in> set (brefs p)" for b using view_sorted(2)[OF level_okD(1)[OF lo]] that by auto
  note fin = scan_step[OF p, of env load flags 299998, simplified]
  have hd: "find (\<lambda>b. unat key < bref_hi b) (brefs p) = (case post of [] \<Rightarrow> None | b # _ \<Rightarrow> Some b)"
    if "\<forall>b\<in>set pre. bref_hi b \<le> unat key" "\<forall>b\<in>set post. unat key \<le> unat (br_key b)" for key
  proof -
    have "find (\<lambda>b. unat key < bref_hi b) (pre @ post) = find (\<lambda>b. unat key < bref_hi b) post" using that(1) by (induction pre) auto
    then show ?thesis using that(2) bref_hi_pos br by (auto split: list.split intro: le_less_trans)
  qed
  show ?thesis
  proof (cases chain)
    case None
    then show ?thesis using fin[of cache 0] hd[of 0] c by (simp add: hammer2_chain_scan_def split: list.splits)
  next
    case (Some d)
    define l where "l = last pre"
    have l: "l \<in> set pre" "same_block l (cn_bref d)" using c Some by (auto simp: l_def)
    have lw: "bref_wf l" using wf br l(1) by simp
    have post: "\<forall>b\<in>set post. bref_hi l \<le> unat (br_key b)" using so l(1) by (auto simp: sorted_wrt_append bref_left_def)
    have pre: "\<forall>b\<in>set pre. bref_hi b \<le> bref_hi l"
    proof -
      have "pre = butlast pre @ [l]" using c Some by (simp add: l_def)
      then have "sorted_wrt bref_left (butlast pre @ [l])" using so by (simp add: sorted_wrt_append)
      then have "\<forall>b\<in>set (butlast pre). bref_hi b \<le> bref_hi l" using bref_hi_pos[of l] by (auto simp: sorted_wrt_append bref_left_def)
      then show ?thesis using \<open>pre = butlast pre @ [l]\<close> by (metis (no_types, lifting) Un_iff insert_iff le_refl list.set(1,2) empty_iff set_append)
    qed
    note nx = same_block_simps(5)[OF l(2), symmetric]
    show ?thesis
    proof (cases "bref_next l = 0")
      case True
      then have "bref_hi l = 2 ^ 64" using bref_next_nonzero(2)[OF lw] by simp
      then have "\<not> bref_hi l \<le> unat (br_key b)" for b using unsigned_less[of "br_key b", where 'a=nat] by simp
      then have "post = []" using post by (cases post) auto
      then show ?thesis using True Some nx p same_blocks_refl by (simp add: hammer2_chain_scan_def)
    next
      case False
      then have "unat (bref_next l) = bref_hi l" using bref_next_nonzero(1)[OF lw] by simp
      then show ?thesis using fin[of cache "bref_next l"] hd[of "bref_next l"] pre post Some nx False
        by (simp add: hammer2_chain_scan_def split: list.splits)
    qed
  qed
qed

lemma scan_level_ok:
  "scannable count p \<Longrightarrow> brefs p = pre @ post \<Longrightarrow> (case chain of None \<Rightarrow> pre = [] | Some c \<Rightarrow> pre \<noteq> [] \<and> same_block (last pre) (cn_bref c)) \<Longrightarrow>
   length post < n \<Longrightarrow> \<exists>cs. scan_level RB_TREE env load flags n cache p chain = Ok cs \<and> list_all2 same_block post (map cn_bref cs)"
proof (induction n arbitrary: p pre post chain cache)
  case (Suc n)
  note nx = scan_next[OF Suc.prems(1-3), of env load flags cache]
  show ?case
  proof (cases post)
    case Nil
    then show ?thesis using nx by fastforce
  next
    case (Cons b bs)
    from nx obtain p' c cache' where
      s: "hammer2_chain_scan RB_TREE env load flags cache p chain = Ok (p', Some c, cache')" "scannable count p'"
        "list_all2 same_block (pre @ b # bs) (brefs p')" "same_block b (cn_bref c)" unfolding Suc.prems(2) Cons by auto
    from s(3) obtain pre' b' bs' where br: "brefs p' = (pre' @ [b']) @ bs'" "same_block b b'" "list_all2 same_block bs bs'"
      unfolding list_all2_append1 list_all2_Cons1 by auto
    have bc: "same_block b' (cn_bref c)" using br(2) s(4) by (simp add: same_block_def)
    have "length bs' < n" using Suc.prems(4) Cons list_all2_lengthD[OF br(3)] by simp
    from Suc.IH[OF s(2) br(1) _ this, of "Some c" cache'] bc obtain cs where
      cs: "scan_level RB_TREE env load flags n cache' p' (Some c) = Ok cs" "list_all2 same_block bs' (map cn_bref cs)" by auto
    have "list_all2 same_block bs (map cn_bref cs)" by (rule list_all2_trans[OF same_block_simps(2) br(3) cs(2)])
    then show ?thesis using s(1,4) cs(1) Cons by simp
  qed
qed simp

lemma scan_stub:
  assumes "scannable count p"
  shows "scan_level RB_STUB env load flags (Suc n) cache p None = Fault ''info''"
proof -
  have lb: "lookup_base p = Ok (cn_base p, count)" "level_ok (counted count p) count" using assms by (simp_all add: scannable_def)
  have "scan_again RB_STUB env load flags (Suc m) cache 0 p = Fault ''info''" for m
    using combined_find_stub[OF level_okD(1)[OF lb(2)], of cache 0 "-1"] lb(1) by (simp add: scan_again.simps(2))
  from this[of 299998] show ?thesis unfolding scan_level.simps hammer2_chain_scan_def option.case by simp
qed

text \<open>
  C18: Going over a level with the scan, as the recovery of the freemap does, in the repaired build: it ends and visits
  every element of the level, cached or not, exactly once and in key order, up to the end of the key space; the elements that are not in memory are
  loaded on the way without disturbing the scan.  In the build of the repository the first call faults.
\<close>

theorem scan_enumerates:
  assumes "scannable count p" "length (brefs p) < n"
  shows "(\<exists>cs. scan_level RB_TREE env load flags n cache p None = Ok cs \<and> list_all2 same_block (brefs p) (map cn_bref cs)) \<and>
    scan_level RB_STUB env load flags n cache p None = Fault ''info''"
proof
  show "\<exists>cs. scan_level RB_TREE env load flags n cache p None = Ok cs \<and> list_all2 same_block (brefs p) (map cn_bref cs)"
    by (rule scan_level_ok[of count p "[]" "brefs p"]) (use assms in simp_all)
  show "scan_level RB_STUB env load flags n cache p None = Fault ''info''" using scan_stub[OF assms(1)] assms(2) by (cases n) (simp_all del: scan_level.simps)
qed

text \<open>The witnesses, on the root with eight blocks.\<close>

abbreviation lv_flags :: lookup_flags where
  "lv_flags \<equiv> \<lparr>lk_always = False, lk_nodata = False, lk_matchind = False\<rparr>"

lemma lv_leaf: "leaf_level lv_root" "\<not> is_indirect (cn_bref lv_root)" "scannable 8 lv_root"
proof -
  have b: "\<not> is_indirect (lv_bref i)" "br_type (lv_bref i) \<notin> {HAMMER2_BREF_TYPE_VOLUME, HAMMER2_BREF_TYPE_FREEMAP}" "loadable (lv_bref i)" for i
    by (simp_all add: is_indirect_def lv_bref_def loadable_def hammer2_chain_alloc_def)
  show l: "leaf_level lv_root" unfolding leaf_level_def using lv_clear b by (auto simp: lv_level)
  show "\<not> is_indirect (cn_bref lv_root)" by (simp add: is_indirect_def lv_root_def)
  have "lookup_base lv_root = Ok (cn_base lv_root, 8)" by (simp add: lookup_base_def lv_root_def table_count_def is_indirect_def)
  then show "scannable 8 lv_root" using l lv_ok(1) counted_id[OF lv_ok(1)] by (simp add: scannable_def leaf_level_def del: set_map)
qed

lemma lv_tree: "tree_ok lv_env load how 1 lv_root" "leaves lv_env load how 1 lv_root = brefs lv_root"
proof -
  have ni: "\<not> is_indirect (fst v)" "loadable (fst v)" "br_type (fst v) \<notin> {HAMMER2_BREF_TYPE_VOLUME, HAMMER2_BREF_TYPE_FREEMAP}"
    if "v \<in> set (view lv_root)" for v using lv_leaf(1) that unfolding leaf_level_def by auto
  then show "tree_ok lv_env load how 1 lv_root" using lv_leaf(3) unfolding One_nat_def tree_ok.simps scannable_def by blast
  have "map (leaves_of lv_env load how 0) (view lv_root) = map (\<lambda>v. [fst v]) (view lv_root)" using ni by (intro map_cong) simp_all
  then show "leaves lv_env load how 1 lv_root = brefs lv_root" unfolding One_nat_def leaves.simps by (metis concat_map_singleton)
qed

theorem lookup_correct_witness:
  "(\<exists>pos' f cache' next. hammer2_chain_lookup RB_TREE lv_env (\<lambda>_. []) lv_flags 0 40000 40000 (lv_root, []) = Ok (pos', f, cache', next) \<and>
      (case find (\<lambda>b. bref_covers b 40000) (leaves lv_env (\<lambda>_. []) (how_maybe lv_flags) 1 lv_root) of
         None \<Rightarrow> f = FoundNone
       | Some b \<Rightarrow> \<exists>c. f = FoundChain c \<and> same_block b (cn_bref c) \<and> \<not> has (cn_chain c) HAMMER2_CHAIN_DELETED)) \<and>
    hammer2_chain_lookup RB_STUB lv_env (\<lambda>_. []) lv_flags 0 40000 40000 (lv_root, []) = Fault ''info''"
  by (rule lookup_correct) (use lv_leaf(2) lv_tree(1) in simp_all)


theorem scan_enumerates_witness:
  "(\<exists>cs. scan_level RB_TREE lv_env (\<lambda>_. []) lv_flags 9 0 lv_root None = Ok cs \<and> list_all2 same_block (brefs lv_root) (map cn_bref cs)) \<and>
    scan_level RB_STUB lv_env (\<lambda>_. []) lv_flags 9 0 lv_root None = Fault ''info''"
  by (rule scan_enumerates[OF lv_leaf(3)]) (simp add: lv_level)

end
