(* ===== verification/H2_Flush.thy ===== *)
theory H2_Flush
  imports H2_Lookup H2_Check
begin

unbundle bit_operations_syntax

text \<open>
  The flush of the topology, \<^verbatim>\<open>hammer2_flush.c\<close>: \<open>hammer2_flush\<close>, \<open>hammer2_flush_core\<close> and
  \<open>hammer2_flush_recurse\<close>.  A flush goes down from a chain along the flag ONFLUSH and writes the
  modified chains from the bottom up: it gives each of them its check code and enters its block
  reference in the block table of its parent, which becomes modified in turn.

  The chain that is flushed is a tree, its parent (if any) is given without its other chains and is
  returned with its new block table and flags.  \<open>hammer2_chain_setflush\<close> goes up from a chain: it
  is carried out on the parent, and a flag of the result says that it has to go on above it.
  Reference counts, locks, the debugging aids and the statistics of inodes are left out.  The
  volume header is sealed in \<^verbatim>\<open>H2_Sync\<close>; here its chain only gets the flag VOLUMESYNC.
\<close>

abbreviation (input) HAMMER2_CHAIN_DESTROY :: u32 where "HAMMER2_CHAIN_DESTROY \<equiv> 0x4"
abbreviation (input) HAMMER2_CHAIN_DEFERRED :: u32 where "HAMMER2_CHAIN_DEFERRED \<equiv> 0x80"
abbreviation (input) HAMMER2_CHAIN_VOLUMESYNC :: u32 where "HAMMER2_CHAIN_VOLUMESYNC \<equiv> 0x800"
abbreviation (input) HAMMER2_CHAIN_EMBEDDED :: u32 where "HAMMER2_CHAIN_EMBEDDED \<equiv> 0x10000"
abbreviation (input) HAMMER2_CHAIN_FLUSH_MASK :: u32 where "HAMMER2_CHAIN_FLUSH_MASK \<equiv> 0x241"
abbreviation (input) HAMMER2_FLUSH_DEPTH_LIMIT :: nat where "HAMMER2_FLUSH_DEPTH_LIMIT \<equiv> 10"

section \<open>The operations\<close>

text \<open>
  What the flush takes from the rest: the environment of the topology, the \<open>flush_tid\<close> of the
  mount a chain belongs to (none when \<open>chain->pmp\<close> is null), whether the volume header is
  modified, the message authentication code, and the data of a block of a type and key with its
  block table.
\<close>

record flush_env =
  fe_chain :: chain_env
  fe_load :: load_fn
  fe_tid :: "hammer2_chain \<Rightarrow> u64 option"
  fe_vmodified :: bool
  fe_hmac :: hmac_fn
  fe_data :: "u8 \<Rightarrow> u64 \<Rightarrow> hammer2_blockref list option \<Rightarrow> bytes"

text \<open>The deferrals counted and the hint of the searches, of \<open>struct hammer2_flush_info\<close>.\<close>

record hammer2_flush_info =
  fl_diddeferral :: nat
  fl_cache_index :: int

text \<open>\<open>hammer2_chain_modify\<close> without flags, as the flush calls it for a parent.\<close>

definition hammer2_chain_modify_data :: "chain_env \<Rightarrow> load_fn \<Rightarrow> ctree \<Rightarrow> ctree outcome" where
  "hammer2_chain_modify_data env load t0 =
     obind (if cn_base t0 = None \<and> br_data_off (cn_bref t0) AND NOT HAMMER2_OFF_MASK_RADIX \<noteq> 0
            then hammer2_chain_lock env load t0 RESOLVE_ALWAYS else Ok t0) (\<lambda>t.
       let chain = cn_chain t; type = br_type (ch_bref chain);
           root = (type \<in> {HAMMER2_BREF_TYPE_VOLUME, HAMMER2_BREF_TYPE_FREEMAP});
           newmod = (\<not> has chain HAMMER2_CHAIN_MODIFIED);
           chain1 = set_flag (HAMMER2_CHAIN_MODIFIED OR HAMMER2_CHAIN_UPDATE) chain
       in obind (if \<not> root \<and> (br_data_off (ch_bref chain) AND NOT HAMMER2_OFF_MASK_RADIX = 0 \<or> newmod)
                 then obind (ev_alloc env chain1) (\<lambda>r. Ok (case r of None \<Rightarrow> chain1 | Some off \<Rightarrow> chain1\<lparr>ch_bref := (ch_bref chain1)\<lparr>br_data_off := off\<rparr>\<rparr>))
                 else Ok chain1) (\<lambda>chain2.
            let chain3 = (if has chain2 HAMMER2_CHAIN_BMAPPED then set_flag HAMMER2_CHAIN_BMAPUPD chain2 else chain2);
                wasinitial = has chain3 HAMMER2_CHAIN_INITIAL;
                chain4 = clear_flag HAMMER2_CHAIN_INITIAL chain3
            in if root then Ok (CNode chain4 (cn_base t) (cn_kids t))
               else if type \<in> {HAMMER2_BREF_TYPE_INODE, HAMMER2_BREF_TYPE_FREEMAP_LEAF, HAMMER2_BREF_TYPE_DATA,
                               HAMMER2_BREF_TYPE_INDIRECT, HAMMER2_BREF_TYPE_FREEMAP_NODE}
               then kkassert (\<not> ev_io_error env (br_data_off (ch_bref chain4))) ''error == 0''
                 (case cn_base t of
                    Some base \<Rightarrow> Ok (CNode chain4 (Some base) (cn_kids t))
                  | None \<Rightarrow> if wasinitial then Ok (CNode chain4 (zero_table chain4) (cn_kids t))
                            else if type \<in> {HAMMER2_BREF_TYPE_FREEMAP_LEAF, HAMMER2_BREF_TYPE_DATA} then Ok (CNode chain4 None (cn_kids t))
                            else Panic ''hammer2_chain_modify: having a COW'')
               else Panic ''hammer2_chain_modify: illegal non-embedded type''))"

text \<open>The rest of \<open>hammer2_chain_setflush\<close> above a chain: the parent, and whether to go on.\<close>

fun setflush_up :: "bool \<Rightarrow> ctree option \<Rightarrow> ctree option \<times> bool" where
  "setflush_up True (Some p) =
     (if has (cn_chain p) HAMMER2_CHAIN_ONFLUSH then (Some p, False) else (Some (with_chain (set_flag HAMMER2_CHAIN_ONFLUSH) p), True))"
| "setflush_up _ parent = (parent, False)"

text \<open>A modified chain is written: its transaction id and check code.  The data of a file block is written elsewhere.\<close>

definition flush_modified :: "flush_env \<Rightarrow> ctree \<Rightarrow> ctree outcome" where
  "flush_modified env t =
     (let chain = cn_chain t; type = br_type (ch_bref chain);
          root = (type \<in> {HAMMER2_BREF_TYPE_VOLUME, HAMMER2_BREF_TYPE_FREEMAP});
          chain1 = clear_flag HAMMER2_CHAIN_MODIFIED chain;
          chain2 = (case fe_tid env chain of None \<Rightarrow> chain1 | Some tid \<Rightarrow> chain1\<lparr>ch_bref := (ch_bref chain1)\<lparr>br_mirror_tid := tid\<rparr>\<rparr>);
          chain3 = (if has chain2 HAMMER2_CHAIN_UPDATE \<or> root then chain2 else set_flag HAMMER2_CHAIN_UPDATE chain2);
          checked = hammer2_chain_setcheck (fe_hmac env) chain3 (fe_data env type (br_key (ch_bref chain)) (cn_base t))
      in kkassert (has chain HAMMER2_CHAIN_UPDATE \<or> type = HAMMER2_BREF_TYPE_VOLUME) ''(chain->flags & UPDATE) || chain == &hmp->vchain''
        (if type = HAMMER2_BREF_TYPE_FREEMAP
         then kkassert (fe_vmodified env) ''hmp->vchain.flags & MODIFIED'' (Ok (with_chain (\<lambda>_. chain3) t))
         else if type = HAMMER2_BREF_TYPE_VOLUME
         then kkassert (cn_base t \<noteq> None) ''chain->data != NULL'' (Ok (with_chain (\<lambda>_. set_flag HAMMER2_CHAIN_VOLUMESYNC chain3) t))
         else if type = HAMMER2_BREF_TYPE_DATA then Ok (with_chain (\<lambda>_. chain3) t)
         else if type \<in> {HAMMER2_BREF_TYPE_INDIRECT, HAMMER2_BREF_TYPE_FREEMAP_NODE, HAMMER2_BREF_TYPE_FREEMAP_LEAF}
         then kkassert (\<not> has chain3 HAMMER2_CHAIN_EMBEDDED) ''(chain->flags & EMBEDDED) == 0'' (Ok (with_chain (\<lambda>_. checked) t))
         else if type = HAMMER2_BREF_TYPE_INODE
         then if cn_base t = None then Fault ''chain->data''
              else kkassert (\<not> has chain3 HAMMER2_CHAIN_EMBEDDED) ''(chain->flags & EMBEDDED) == 0'' (Ok (with_chain (\<lambda>_. checked) t))
         else Panic ''hammer2_flush_core: unsupported embedded bref''))"

text \<open>The block reference of a chain is entered in the block table of its parent.\<close>

definition flush_update :: "flush_env \<Rightarrow> hammer2_flush_info \<Rightarrow> ctree \<Rightarrow> hammer2_chain \<Rightarrow> (hammer2_flush_info \<times> ctree \<times> hammer2_chain) outcome" where
  "flush_update env info parent chain =
     obind (hammer2_chain_lock (fe_chain env) (fe_load env) parent RESOLVE_ALWAYS) (\<lambda>parent1.
     obind (hammer2_chain_modify_data (fe_chain env) (fe_load env) parent1) (\<lambda>parent2.
     obind (table_count (cn_chain parent2)) (\<lambda>count.
       let chain1 = clear_flag HAMMER2_CHAIN_UPDATE chain
       in case cn_base parent2 of
            None \<Rightarrow> if br_type (cn_bref parent2) \<in> {HAMMER2_BREF_TYPE_VOLUME, HAMMER2_BREF_TYPE_FREEMAP} then Fault ''parent->data''
                    else Ok (info, parent2, chain1)
          | Some base \<Rightarrow>
              obind (if \<not> has chain1 HAMMER2_CHAIN_BMAPUPD then Ok (cn_chain parent2, base, fl_cache_index info, chain1)
                     else if has chain1 HAMMER2_CHAIN_BMAPPED then hammer2_base_delete (cn_chain parent2) base count (fl_cache_index info) chain1
                     else Ok (cn_chain parent2, base, fl_cache_index info, clear_flag HAMMER2_CHAIN_BMAPUPD chain1))
                (\<lambda>(core1, base1, cache1, chain2).
              obind (if has chain2 HAMMER2_CHAIN_BMAPPED then Ok (core1, base1, cache1, chain2)
                     else hammer2_base_insert core1 base1 count cache1 chain2) (\<lambda>(core2, base2, cache2, chain3).
                Ok (info\<lparr>fl_cache_index := cache2\<rparr>, CNode core2 (Some base2) (cn_kids parent2), chain3))))))"

text \<open>The bottom-up part: the info, the parent, whether the parent of the parent has to be marked, and the chain.\<close>

type_synonym flush_result = "(hammer2_flush_info \<times> ctree option \<times> bool \<times> ctree) outcome"

definition flush_up :: "flush_env \<Rightarrow> hammer2_flush_info \<Rightarrow> ctree option \<Rightarrow> ctree \<Rightarrow> flush_result" where
  "flush_up env info parent t =
     (let t1 = (if (case parent of None \<Rightarrow> False | Some p \<Rightarrow> has (cn_chain p) HAMMER2_CHAIN_DESTROY)
                then with_chain (set_flag HAMMER2_CHAIN_DESTROY) t else t)
      in obind (if has (cn_chain t1) HAMMER2_CHAIN_MODIFIED then flush_modified env t1 else Ok t1) (\<lambda>t2.
        if \<not> has (cn_chain t2) HAMMER2_CHAIN_UPDATE then Ok (info, parent, False, t2)
        else (case parent of
                None \<Rightarrow> Ok (info, None, False, with_chain (clear_flag HAMMER2_CHAIN_UPDATE) t2)
              | Some p \<Rightarrow> obind (flush_update env info p (cn_chain t2)) (\<lambda>(info', p', chain').
                            Ok (info', Some p', True, with_chain (\<lambda>_. chain') t2)))))"

text \<open>
  \<open>hammer2_flush_recurse\<close> for the chains of a parent in turn, with the flush of one chain as an
  argument.  A chain at the boundary of a mounted PFS is not flushed.
\<close>

fun flush_kids ::
  "flush_env \<Rightarrow> (hammer2_flush_info \<Rightarrow> ctree option \<Rightarrow> ctree \<Rightarrow> flush_result) \<Rightarrow> hammer2_flush_info \<Rightarrow> ctree \<Rightarrow> bool \<Rightarrow> ctree list \<Rightarrow>
   (hammer2_flush_info \<times> ctree \<times> bool \<times> ctree list) outcome" where
  "flush_kids env core info parent up [] = Ok (info, parent, up, [])"
| "flush_kids env core info parent up (child # kids) =
     obind (hammer2_chain_lock (fe_chain env) (fe_load env) child RESOLVE_MAYBE) (\<lambda>child1.
       if (\<not> has (cn_chain child1) HAMMER2_CHAIN_PFSBOUNDARY \<or> fe_tid env (cn_chain child1) = None) \<and> has (cn_chain child1) HAMMER2_CHAIN_FLUSH_MASK
       then obind (core info (Some parent) child1) (\<lambda>(info', parent', up', child2).
              (case parent' of
                 None \<Rightarrow> Fault ''info->parent''
               | Some p \<Rightarrow> obind (flush_kids env core info' p (up \<or> up') kids) (\<lambda>(info'', p'', up'', kids'). Ok (info'', p'', up'', child2 # kids'))))
       else obind (flush_kids env core info parent up kids) (\<lambda>(info'', p'', up'', kids'). Ok (info'', p'', up'', child1 # kids')))"

text \<open>
  \<open>hammer2_flush_core\<close>.  The flush of the chains below is absent at the depth limit.  The first call of
  \<open>hammer2_flush_recurse\<close>, with a null info pointer, faults in the build as it is; it is removed in the repaired build \<open>RB_TREE\<close>.
\<close>

definition flush_visit ::
  "rb_build \<Rightarrow> flush_env \<Rightarrow> (hammer2_flush_info \<Rightarrow> ctree option \<Rightarrow> ctree \<Rightarrow> flush_result) option \<Rightarrow> hammer2_flush_info \<Rightarrow> ctree option \<Rightarrow> ctree \<Rightarrow> flush_result" where
  "flush_visit build env below info parent t =
     (let chain = cn_chain t; deferred = info\<lparr>fl_diddeferral := fl_diddeferral info + 1\<rparr>
      in if \<not> has chain HAMMER2_CHAIN_FLUSH_MASK then Ok (info, parent, False, t)
         else kkassert (case fe_tid env chain of None \<Rightarrow> True | Some tid \<Rightarrow> br_mirror_tid (ch_bref chain) \<le> tid) ''mirror_tid <= flush_tid''
           (obind (if has chain HAMMER2_CHAIN_DEFERRED then Ok (deferred, False, t)
                   else (case below of
                           None \<Rightarrow> Ok (deferred, False, with_chain (set_flag HAMMER2_CHAIN_DEFERRED) t)
                         | Some core \<Rightarrow>
                             if \<not> has chain HAMMER2_CHAIN_ONFLUSH then Ok (info, False, t)
                             else if build = RB_STUB then Fault ''info''
                             else obind (flush_kids env core info (CNode (clear_flag HAMMER2_CHAIN_ONFLUSH chain) (cn_base t) []) False (cn_kids t))
                                    (\<lambda>(info', p', up, kids').
                                      let t' = CNode (cn_chain p') (cn_base p') kids'
                                      in Ok (if fl_diddeferral info' > 0 \<and> \<not> has (cn_chain t') HAMMER2_CHAIN_ONFLUSH
                                             then (info', True, with_chain (set_flag HAMMER2_CHAIN_ONFLUSH) t') else (info', up, t')))))
              (\<lambda>(info1, up1, t1).
                 let (parent1, up2) = setflush_up up1 parent
                 in if fl_diddeferral info1 > 0 then Ok (info1, parent1, up2, t1)
                    else obind (flush_up env info1 parent1 t1) (\<lambda>(info2, parent2, up3, t2). Ok (info2, parent2, up2 \<or> up3, t2)))))"

primrec hammer2_flush_core :: "rb_build \<Rightarrow> flush_env \<Rightarrow> nat \<Rightarrow> hammer2_flush_info \<Rightarrow> ctree option \<Rightarrow> ctree \<Rightarrow> flush_result" where
  "hammer2_flush_core build env 0 = flush_visit build env None"
| "hammer2_flush_core build env (Suc n) = flush_visit build env (Some (hammer2_flush_core build env n))"

text \<open>
  The deferred chains, which are flushed on their own in the order in which they were deferred,
  that of the tree.
\<close>

fun has_deferred :: "ctree \<Rightarrow> bool" where
  "has_deferred (CNode chain base kids) \<longleftrightarrow> has chain HAMMER2_CHAIN_DEFERRED \<or> (\<exists>k\<in>set kids. has_deferred k)"

fun flush_deferred ::
  "flush_env \<Rightarrow> (ctree option \<Rightarrow> ctree \<Rightarrow> (ctree option \<times> bool \<times> ctree) outcome) \<Rightarrow> ctree option \<Rightarrow> ctree \<Rightarrow> (ctree option \<times> bool \<times> ctree) outcome"
and flush_deferred_kids ::
  "flush_env \<Rightarrow> (ctree option \<Rightarrow> ctree \<Rightarrow> (ctree option \<times> bool \<times> ctree) outcome) \<Rightarrow> ctree \<Rightarrow> bool \<Rightarrow> ctree list \<Rightarrow> (ctree \<times> bool \<times> ctree list) outcome" where
  "flush_deferred env flush parent (CNode chain base kids) =
     (if has chain HAMMER2_CHAIN_DEFERRED
      then obind (hammer2_chain_lock (fe_chain env) (fe_load env) (CNode (clear_flag HAMMER2_CHAIN_DEFERRED chain) base kids) RESOLVE_MAYBE) (flush parent)
      else obind (flush_deferred_kids env flush (CNode chain base []) False kids) (\<lambda>(p', up, kids').
             let (parent', up') = setflush_up up parent in Ok (parent', up', CNode (cn_chain p') (cn_base p') kids')))"
| "flush_deferred_kids env flush parent up [] = Ok (parent, up, [])"
| "flush_deferred_kids env flush parent up (k # ks) =
     obind (flush_deferred env flush (Some parent) k) (\<lambda>(parent', up', k').
       (case parent' of
          None \<Rightarrow> Fault ''chain->parent''
        | Some p \<Rightarrow> obind (flush_deferred_kids env flush p (up \<or> up') ks) (\<lambda>(p'', up'', ks'). Ok (p'', up'', k' # ks'))))"

text \<open>
  \<open>hammer2_flush\<close>.  The first argument bounds the rounds of the loop and the nesting of the flushes
  of deferred chains.
\<close>

fun flush_loop :: "nat \<Rightarrow> rb_build \<Rightarrow> flush_env \<Rightarrow> int \<Rightarrow> bool \<Rightarrow> ctree option \<Rightarrow> ctree \<Rightarrow> (ctree option \<times> bool \<times> ctree) outcome" where
  "flush_loop 0 build env cache up parent t = Fault ''rounds''"
| "flush_loop (Suc n) build env cache up parent t =
     obind (flush_deferred env (flush_loop n build env (-1) False) parent t) (\<lambda>(parent1, up1, t1).
     obind (hammer2_flush_core build env HAMMER2_FLUSH_DEPTH_LIMIT \<lparr>fl_diddeferral = 0, fl_cache_index = cache\<rparr> parent1 t1)
       (\<lambda>(info, parent2, up2, t2).
          if has_deferred t2 then flush_loop n build env (fl_cache_index info) (up \<or> up1 \<or> up2) parent2 t2
          else Ok (parent2, up \<or> up1 \<or> up2, t2)))"

definition hammer2_flush :: "nat \<Rightarrow> rb_build \<Rightarrow> flush_env \<Rightarrow> ctree option \<Rightarrow> ctree \<Rightarrow> (ctree option \<times> bool \<times> ctree) outcome" where
  "hammer2_flush rounds build env parent t = flush_loop rounds build env (-1) False parent t"

end
