(* ===== verification/H2_Writeback.thy ===== *)
theory H2_Writeback
  imports H2_Flush
begin

unbundle bit_operations_syntax

text \<open>
  Correctness of the flush of a chain below its parent.  First, what the flush may change of the
  parent (\<open>evolves\<close>) and that \<open>flush_update\<close> replaces exactly one element of its block table; then
  the trees a flush can start from (\<open>flushable\<close>), what it makes of them (\<open>flushed\<close>, \<open>similar\<close>), and the
  induction over the recursion, whose hypothesis is the contract \<open>flush_spec\<close>.
\<close>

section \<open>What a flush changes of a parent\<close>

text \<open>
  A parent keeps its place and its level; it is either unchanged but for the flag ONFLUSH, or it is
  modified and its block reference in the table above is out of date.
\<close>

abbreviation (input) kept_flags :: "u32 set" where
  "kept_flags \<equiv> {HAMMER2_CHAIN_DELETED, HAMMER2_CHAIN_ONRBTREE, HAMMER2_CHAIN_BMAPPED, HAMMER2_CHAIN_DEFERRED,
     HAMMER2_CHAIN_PFSBOUNDARY, HAMMER2_CHAIN_EMBEDDED}"

definition radix_ok :: "u64 \<Rightarrow> bool" where
  "radix_ok off \<longleftrightarrow> unat (off AND HAMMER2_OFF_MASK_RADIX) < 32"

definition same_place :: "hammer2_chain \<Rightarrow> hammer2_chain \<Rightarrow> bool" where
  "same_place c c' \<longleftrightarrow> (ch_bref c')\<lparr>br_data_off := 0\<rparr> = (ch_bref c)\<lparr>br_data_off := 0\<rparr> \<and> ch_bytes c' = ch_bytes c \<and>
     core_live_count c' = core_live_count c \<and> (\<forall>m\<in>kept_flags. has c' m = has c m) \<and>
     (radix_ok (br_data_off (ch_bref c)) \<longrightarrow> radix_ok (br_data_off (ch_bref c')))"

definition unmarked :: "hammer2_chain \<Rightarrow> hammer2_chain \<Rightarrow> bool" where
  "unmarked c c' \<longleftrightarrow> ch_bref c' = ch_bref c \<and>
     (\<forall>m\<in>{HAMMER2_CHAIN_MODIFIED, HAMMER2_CHAIN_UPDATE, HAMMER2_CHAIN_BMAPUPD, HAMMER2_CHAIN_INITIAL}. has c' m = has c m)"

definition marked :: "hammer2_chain \<Rightarrow> bool" where
  "marked c \<longleftrightarrow> has c HAMMER2_CHAIN_MODIFIED \<and> has c HAMMER2_CHAIN_UPDATE \<and> \<not> has c HAMMER2_CHAIN_INITIAL \<and>
     (has c HAMMER2_CHAIN_BMAPPED \<longrightarrow> has c HAMMER2_CHAIN_BMAPUPD)"

definition evolves :: "hammer2_chain \<Rightarrow> hammer2_chain \<Rightarrow> bool" where
  "evolves c c' \<longleftrightarrow> same_place c c' \<and> (unmarked c c' \<or> marked c')"

lemma evolves_refl: "evolves c c"
  by (simp add: evolves_def same_place_def unmarked_def)

lemma evolves_trans:
  assumes "evolves a b" "evolves b c"
  shows "evolves a c"
proof -
  have p: "same_place a c" using assms by (simp add: evolves_def same_place_def)
  consider "marked c" | "unmarked b c" "marked b" | "unmarked b c" "unmarked a b" using assms by (auto simp: evolves_def)
  then have "unmarked a c \<or> marked c"
  proof cases
    case 2
    moreover have "has c HAMMER2_CHAIN_BMAPPED = has b HAMMER2_CHAIN_BMAPPED" using assms(2) by (simp add: evolves_def same_place_def)
    ultimately show ?thesis by (simp add: unmarked_def marked_def)
  qed (simp_all add: unmarked_def)
  then show ?thesis using p by (simp add: evolves_def)
qed

lemma evolves_fields:
  assumes "evolves c c'"
  shows "br_type (ch_bref c') = br_type (ch_bref c)" "same_range (ch_bref c) (ch_bref c')" "br_mirror_tid (ch_bref c') = br_mirror_tid (ch_bref c)"
    "br_methods (ch_bref c') = br_methods (ch_bref c)" "ch_bytes c' = ch_bytes c" "core_live_count c' = core_live_count c" "table_count c' = table_count c"
proof -
  have e: "(ch_bref c')\<lparr>br_data_off := 0\<rparr> = (ch_bref c)\<lparr>br_data_off := 0\<rparr>" and b: "ch_bytes c' = ch_bytes c" and l: "core_live_count c' = core_live_count c"
    using assms by (simp_all add: evolves_def same_place_def)
  show t: "br_type (ch_bref c') = br_type (ch_bref c)" using arg_cong[OF e, of br_type] by simp
  show "same_range (ch_bref c) (ch_bref c')" using arg_cong[OF e, of br_key] arg_cong[OF e, of br_keybits] by (simp add: same_range_def)
  show "br_mirror_tid (ch_bref c') = br_mirror_tid (ch_bref c)" using arg_cong[OF e, of br_mirror_tid] by simp
  show "br_methods (ch_bref c') = br_methods (ch_bref c)" using arg_cong[OF e, of br_methods] by simp
  show "ch_bytes c' = ch_bytes c" "core_live_count c' = core_live_count c" by (rule b, rule l)
  show "table_count c' = table_count c" using t b by (simp add: table_count_def)
qed

lemma evolves_onflush: "evolves c (set_flag HAMMER2_CHAIN_ONFLUSH c)" "evolves c (clear_flag HAMMER2_CHAIN_ONFLUSH c)"
  by (simp_all add: evolves_def same_place_def unmarked_def flag_simps)

lemma evolves_core: "evolves c c' \<Longrightarrow> evolves c (c'\<lparr>core_live_zero := z\<rparr>)"
  by (simp add: evolves_def same_place_def unmarked_def marked_def) argo

text \<open>The flush never meets a device error, and the allocator never fails.\<close>

definition devices_ok :: "flush_env \<Rightarrow> bool" where
  "devices_ok env \<longleftrightarrow> (\<forall>off. \<not> ev_io_error (fe_chain env) off) \<and> (\<forall>c. \<exists>off. ev_alloc (fe_chain env) c = Ok (Some off) \<and> radix_ok off)"

abbreviation (input) table_types :: "u8 set" where
  "table_types \<equiv> {HAMMER2_BREF_TYPE_INODE, HAMMER2_BREF_TYPE_INDIRECT, HAMMER2_BREF_TYPE_FREEMAP_NODE, HAMMER2_BREF_TYPE_VOLUME, HAMMER2_BREF_TYPE_FREEMAP}"

lemma modify_data_ok:
  assumes dev: "devices_ok env" and base: "cn_base t = Some b" and ty: "br_type (cn_bref t) \<in> table_types"
  shows "\<exists>c'. hammer2_chain_modify_data (fe_chain env) (fe_load env) t = Ok (CNode c' (Some b) (cn_kids t)) \<and> evolves (cn_chain t) c' \<and>
    core_live_zero c' = core_live_zero (cn_chain t) \<and> core_flags c' = core_flags (cn_chain t) \<and> marked c'"
proof -
  let ?c = "cn_chain t" and ?ce = "fe_chain env"
  define c1 where "c1 = set_flag (HAMMER2_CHAIN_MODIFIED OR HAMMER2_CHAIN_UPDATE) ?c"
  define m2 where "m2 = (if \<not> br_type (cn_bref t) \<in> {HAMMER2_BREF_TYPE_VOLUME, HAMMER2_BREF_TYPE_FREEMAP} \<and>
      (br_data_off (cn_bref t) AND NOT HAMMER2_OFF_MASK_RADIX = 0 \<or> \<not> has ?c HAMMER2_CHAIN_MODIFIED)
    then obind (ev_alloc ?ce c1) (\<lambda>r. Ok (case r of None \<Rightarrow> c1 | Some off \<Rightarrow> c1\<lparr>ch_bref := (ch_bref c1)\<lparr>br_data_off := off\<rparr>\<rparr>)) else Ok c1)"
  have "\<exists>off. m2 = Ok (c1\<lparr>ch_bref := (ch_bref c1)\<lparr>br_data_off := off\<rparr>\<rparr>) \<and> (radix_ok (br_data_off (ch_bref ?c)) \<longrightarrow> radix_ok off)"
  proof -
    obtain off where "ev_alloc ?ce c1 = Ok (Some off)" "radix_ok off" using dev by (auto simp: devices_ok_def)
    moreover have "c1 = c1\<lparr>ch_bref := (ch_bref c1)\<lparr>br_data_off := br_data_off (ch_bref c1)\<rparr>\<rparr>" by simp
    moreover have "br_data_off (ch_bref c1) = br_data_off (ch_bref ?c)" by (simp add: c1_def)
    ultimately show ?thesis unfolding m2_def by (metis obind.simps(1) option.simps(5))
  qed
  then obtain off where m2: "m2 = Ok (c1\<lparr>ch_bref := (ch_bref c1)\<lparr>br_data_off := off\<rparr>\<rparr>)" and ro: "radix_ok (br_data_off (ch_bref ?c)) \<longrightarrow> radix_ok off" by blast
  define c2 where "c2 = c1\<lparr>ch_bref := (ch_bref c1)\<lparr>br_data_off := off\<rparr>\<rparr>"
  define c3 where "c3 = (if has c2 HAMMER2_CHAIN_BMAPPED then set_flag HAMMER2_CHAIN_BMAPUPD c2 else c2)"
  define c4 where "c4 = clear_flag HAMMER2_CHAIN_INITIAL c3"
  have h2: "has c2 m = has c1 m" for m by (simp add: c2_def has_def)
  have "hammer2_chain_modify_data ?ce (fe_load env) t = Ok (CNode c4 (Some b) (cn_kids t))"
  proof -
    have "hammer2_chain_modify_data ?ce (fe_load env) t = obind m2 (\<lambda>c2. let c3 = (if has c2 HAMMER2_CHAIN_BMAPPED then set_flag HAMMER2_CHAIN_BMAPUPD c2 else c2);
        c4 = clear_flag HAMMER2_CHAIN_INITIAL c3 in Ok (CNode c4 (Some b) (cn_kids t)))"
    proof (cases "br_type (cn_bref t) \<in> {HAMMER2_BREF_TYPE_VOLUME, HAMMER2_BREF_TYPE_FREEMAP}")
      case True
      then show ?thesis using base unfolding hammer2_chain_modify_data_def m2_def c1_def Let_def by (elim insertE emptyE) simp_all
    next
      case False
      have io: "\<not> ev_io_error ?ce off" for off using dev by (simp add: devices_ok_def)
      show ?thesis using base ty False io unfolding hammer2_chain_modify_data_def m2_def c1_def Let_def by (elim insertE emptyE) simp_all
    qed
    then show ?thesis unfolding m2 c4_def c3_def c2_def Let_def obind.simps .
  qed
  moreover have "evolves ?c c4" "marked c4"
  proof -
    have f: "has c4 HAMMER2_CHAIN_MODIFIED" "has c4 HAMMER2_CHAIN_UPDATE" "\<not> has c4 HAMMER2_CHAIN_INITIAL"
      "has c4 HAMMER2_CHAIN_BMAPPED \<longrightarrow> has c4 HAMMER2_CHAIN_BMAPUPD" "\<forall>m\<in>kept_flags. has c4 m = has ?c m"
      unfolding c4_def c3_def by (simp_all add: h2 c1_def flag_simps)
    moreover have "br_data_off (ch_bref c4) = off" by (simp add: c4_def c3_def c2_def)
    moreover have "(ch_bref c4)\<lparr>br_data_off := 0\<rparr> = (ch_bref ?c)\<lparr>br_data_off := 0\<rparr>" "ch_bytes c4 = ch_bytes ?c" "core_live_count c4 = core_live_count ?c"
      by (simp_all add: c4_def c3_def c2_def c1_def)
    ultimately show "evolves ?c c4" using ro by (simp add: evolves_def same_place_def marked_def)
    show "marked c4" using f by (simp add: marked_def)
  qed
  moreover have "core_live_zero c4 = core_live_zero ?c" "core_flags c4 = core_flags ?c" by (simp_all add: c4_def c3_def c2_def c1_def)
  ultimately show ?thesis by blast
qed

section \<open>The block table of the parent\<close>

lemma same_range_left: "same_range a a' \<Longrightarrow> same_range b b' \<Longrightarrow> bref_left a b \<longleftrightarrow> bref_left a' b'"
  by (simp add: same_range_def bref_left_def bref_hi_def)

lemma same_range_wf: "same_range a b \<Longrightarrow> bref_wf a \<longleftrightarrow> bref_wf b"
  by (simp add: same_range_def bref_wf_def)

lemma same_range_refl: "same_range a a"
  by (simp add: same_range_def)

lemma left_sorted_distinct: "sorted_wrt bref_left xs \<Longrightarrow> distinct (map br_key xs)"
  by (induction xs) (use bref_left_key in fastforce)+

lemma level_keys:
  assumes "level_ok t count"
  shows "distinct (map br_key (brefs t))" "distinct (map br_key (base_elems t))"
    "br_key ` set (base_elems t) \<subseteq> br_key ` set (brefs t)" "cn_bref ` set (cn_kids t) \<subseteq> set (brefs t)"
proof -
  note wf = level_okD(1)[OF assms]
  show "distinct (map br_key (brefs t))" "distinct (map br_key (base_elems t))"
    using left_sorted_distinct brefs_sorted[OF wf] level_sorted(1)[OF wf] by blast+
  show k: "cn_bref ` set (cn_kids t) \<subseteq> set (brefs t)" unfolding set_brefs[OF wf] by blast
  show "br_key ` set (base_elems t) \<subseteq> br_key ` set (brefs t)"
  proof
    fix x assume "x \<in> br_key ` set (base_elems t)"
    then obtain e where e: "e \<in> set (base_elems t)" "x = br_key e" by blast
    show "x \<in> br_key ` set (brefs t)"
    proof (cases "\<exists>k\<in>set (cn_kids t). br_key (cn_bref k) = br_key e")
      case True
      then show ?thesis using k e(2) by (metis (no_types, lifting) image_eqI subsetD)
    next
      case False
      then have "e \<in> set (brefs t)" unfolding set_brefs[OF wf] using e(1) by blast
      then show ?thesis using e(2) by blast
    qed
  qed
qed

lemma unmapped_room:
  assumes ok: "level_ok t count" and k: "k \<in> set (cn_kids t)" "\<not> has (cn_chain k) HAMMER2_CHAIN_BMAPPED"
  shows "length (base_elems t) < length (view t)"
proof -
  note K = level_keys[OF ok]
  have "br_key (cn_bref k) \<notin> br_key ` set (base_elems t)" using level_okD(2)[OF ok] k by (auto simp: mapped_ok_def)
  moreover have "insert (br_key (cn_bref k)) (br_key ` set (base_elems t)) \<subseteq> br_key ` set (brefs t)" using K(3,4) k(1) by blast
  ultimately have "card (br_key ` set (base_elems t)) < card (br_key ` set (brefs t))"
    by (metis (no_types, lifting) List.finite_set finite_imageI psubsetI insert_subset psubset_card_mono)
  moreover have "card (br_key ` set (base_elems t)) = length (base_elems t)" "card (br_key ` set (brefs t)) = length (brefs t)"
    using K(1,2) by (metis distinct_card length_map set_map)+
  ultimately show ?thesis by simp
qed

lemma entered_level:
  assumes ok: "level_ok (CNode p (Some pb) (xs @ k # ys)) count"
    and k': "same_range (cn_bref k) (cn_bref k')" "\<not> has (cn_chain k') HAMMER2_CHAIN_DELETED" "has (cn_chain k') HAMMER2_CHAIN_ONRBTREE"
      "has (cn_chain k') HAMMER2_CHAIN_BMAPPED"
    and wf': "blocktable_wf p' pb' count"
    and el: "set (elems pb') = insert (cn_bref k') {e \<in> set (elems pb). br_key e \<noteq> br_key (cn_bref k)}"
    and p': "core_live_count p' = core_live_count p" "table_count p' = table_count p" "\<not> has p' HAMMER2_CHAIN_INITIAL"
  shows "level_ok (CNode p' (Some pb') (xs @ k' # ys)) count" "length (view (CNode p' (Some pb') (xs @ k' # ys))) = length (view (CNode p (Some pb) (xs @ k # ys)))"
proof -
  let ?t = "CNode p (Some pb) (xs @ k # ys)" and ?t' = "CNode p' (Some pb') (xs @ k' # ys)"
  note wf = level_okD(1)[OF ok] and m = level_okD(2)[OF ok]
  note ls = level_sorted[OF wf]
  have be: "base_elems ?t = elems pb" "base_elems ?t' = elems pb'" by (simp_all add: base_elems_def)
  have kk: "kids_wf (xs @ k # ys)" using ls(3) by simp
  have left: "bref_left (cn_bref x) (cn_bref k') \<longleftrightarrow> bref_left (cn_bref x) (cn_bref k)" "bref_left (cn_bref k') (cn_bref x) \<longleftrightarrow> bref_left (cn_bref k) (cn_bref x)" for x
    using same_range_left[OF same_range_refl k'(1)] same_range_left[OF k'(1) same_range_refl] by blast+
  have ord: "bref_left (cn_bref x) (cn_bref k) \<or> bref_left (cn_bref k) (cn_bref x)" if "x \<in> set xs \<union> set ys" for x
    using kk that by (auto simp: kids_wf_def sorted_wrt_append)
  have ne: "br_key (cn_bref x) \<noteq> br_key (cn_bref k)" if "x \<in> set xs \<union> set ys" for x using ord[OF that] bref_left_key by fastforce
  have key: "br_key (cn_bref k') = br_key (cn_bref k)" using k'(1) by (simp add: same_range_def)
  have kw: "kids_wf (xs @ k' # ys)"
    using kk k'(2) same_range_wf[OF k'(1)] left by (simp add: kids_wf_def sorted_wrt_append has_def)
  have ov: "overlay_ok (elems pb') (xs @ k' # ys)" unfolding overlay_ok_def
  proof (intro ballI)
    fix e x assume e: "e \<in> set (elems pb')" and x: "x \<in> set (xs @ k' # ys)"
    show "same_range e (cn_bref x) \<or> bref_left e (cn_bref x) \<or> bref_left (cn_bref x) e"
    proof (cases "e = cn_bref k'")
      case True
      then show ?thesis using x ord left by (auto simp: same_range_refl)
    next
      case False
      then have e2: "e \<in> set (elems pb)" using e el by blast
      have o: "same_range e (cn_bref y) \<or> bref_left e (cn_bref y) \<or> bref_left (cn_bref y) e" if "y \<in> set (xs @ k # ys)" for y
        using ls(4)[unfolded be overlay_ok_def ctree.sel] e2 that by blast
      show ?thesis
      proof (cases "x = k'")
        case True
        then show ?thesis using o[of k] k'(1) same_range_left[OF same_range_refl k'(1)] same_range_left[OF k'(1) same_range_refl]
          by (auto simp: same_range_def)
      next
        case False
        then show ?thesis using o x by auto
      qed
    qed
  qed
  have wt: "level_wf ?t' count" using wf' kw ov by (simp add: level_wf_def be)
  have mo: "mapped_ok (elems pb') (xs @ k' # ys)" unfolding mapped_ok_def
  proof (intro ballI conjI)
    fix x assume x: "x \<in> set (xs @ k' # ys)"
    show "has (cn_chain x) HAMMER2_CHAIN_ONRBTREE" using m x k'(3) by (auto simp: mapped_ok_def)
    show "has (cn_chain x) HAMMER2_CHAIN_BMAPPED \<longleftrightarrow> (\<exists>e\<in>set (elems pb'). br_key e = br_key (cn_bref x))"
    proof (cases "x = k'")
      case True
      then show ?thesis using k'(4) el by blast
    next
      case False
      then have x2: "x \<in> set xs \<union> set ys" using x by auto
      then have "(\<exists>e\<in>set (elems pb'). br_key e = br_key (cn_bref x)) \<longleftrightarrow> (\<exists>e\<in>set (elems pb). br_key e = br_key (cn_bref x))"
        unfolding el using ne[OF x2] key by auto
      then show ?thesis using m x2 be(1) by (auto simp: mapped_ok_def)
    qed
  qed
  have "br_key ` set (brefs ?t') = br_key ` set (brefs ?t)"
  proof -
    have "{e \<in> set (elems pb'). \<forall>x\<in>set (xs @ k' # ys). br_key (cn_bref x) \<noteq> br_key e} = {e \<in> set (elems pb). \<forall>x\<in>set (xs @ k # ys). br_key (cn_bref x) \<noteq> br_key e}"
      unfolding el using key by auto
    then show ?thesis unfolding set_brefs[OF wt] set_brefs[OF wf] be using key by (simp add: image_Un)
  qed
  moreover have "length (brefs t) = card (br_key ` set (brefs t))" if "level_wf t count" for t
    using left_sorted_distinct[OF brefs_sorted[OF that]] by (metis distinct_card length_map set_map)
  ultimately show lv: "length (view ?t') = length (view ?t)" using wt wf by (metis length_map)
  show "level_ok ?t' count" using wt mo lv p' ok by (simp add: level_ok_def be)
qed

lemma elems_replaced:
  assumes "sorted_wrt bref_left es" "e \<in> set es"
  shows "insert e {x \<in> set es. br_key x \<noteq> br_key e} = set es"
  using left_sorted_key[OF assms(1) _ assms(2)] assms(2) by blast

lemma flag_change:
  "\<exists>f. clear_flag m c = c\<lparr>ch_flags := f\<rparr>" "\<exists>f. set_flag m c = c\<lparr>ch_flags := f\<rparr>"
  "\<exists>f. c' = c\<lparr>ch_flags := f\<rparr> \<Longrightarrow> \<exists>f. clear_flag m c' = c\<lparr>ch_flags := f\<rparr>" "\<exists>f. c' = c\<lparr>ch_flags := f\<rparr> \<Longrightarrow> \<exists>f. set_flag m c' = c\<lparr>ch_flags := f\<rparr>"
  by (auto simp: clear_flag_def set_flag_def)

abbreviation (input) entered_flags :: "u32 set" where
  "entered_flags \<equiv> {HAMMER2_CHAIN_MODIFIED, HAMMER2_CHAIN_INITIAL, HAMMER2_CHAIN_DELETED, HAMMER2_CHAIN_ONRBTREE, HAMMER2_CHAIN_DEFERRED, HAMMER2_CHAIN_ONFLUSH,
     HAMMER2_CHAIN_PFSBOUNDARY, HAMMER2_CHAIN_EMBEDDED}"

lemma base_change_core:
  "hammer2_base_delete parent base count cache chain = Ok (parent', base', cache', chain') \<Longrightarrow> \<exists>z. parent' = parent\<lparr>core_live_zero := z\<rparr>"
  "hammer2_base_insert parent base count cache chain = Ok (parent', base', cache', chain') \<Longrightarrow> \<exists>z. parent' = parent\<lparr>core_live_zero := z\<rparr>"
  by (erule base_delete_core)
    (auto simp: hammer2_base_insert_def Let_def outcome_simps split: if_splits prod.splits slot.splits intro: live_zero_self)

lemma flush_update_ok:
  assumes dev: "devices_ok env" and ok: "level_ok (CNode p (Some pb) (xs @ k # ys)) count" "length (view (CNode p (Some pb) (xs @ k # ys))) \<le> count"
    and c: "same_range (cn_bref k) (ch_bref c)" "br_type (ch_bref c) \<noteq> 0" "has c HAMMER2_CHAIN_BMAPPED = has (cn_chain k) HAMMER2_CHAIN_BMAPPED"
      "has c HAMMER2_CHAIN_BMAPPED \<and> \<not> has c HAMMER2_CHAIN_BMAPUPD \<longrightarrow> ch_bref c \<in> set (elems pb)"
  shows "\<exists>info' p' pb' c'. flush_update env info (CNode p (Some pb) []) c = Ok (info', CNode p' (Some pb') [], c') \<and> (\<exists>f. c' = c\<lparr>ch_flags := f\<rparr>) \<and>
    fl_diddeferral info' = fl_diddeferral info \<and> evolves p p' \<and> marked p' \<and> blocktable_wf p' pb' count \<and>
    set (elems pb') = insert (ch_bref c) {e \<in> set (elems pb). br_key e \<noteq> br_key (cn_bref k)} \<and>
    has c' HAMMER2_CHAIN_BMAPPED \<and> \<not> has c' HAMMER2_CHAIN_UPDATE \<and> \<not> has c' HAMMER2_CHAIN_BMAPUPD \<and> (\<forall>m\<in>entered_flags. has c' m = has c m)"
proof -
  let ?t = "CNode p (Some pb) (xs @ k # ys)"
  note wf = level_okD(1)[OF ok(1)] and m = level_okD(2)[OF ok(1)]
  note ls = level_sorted[OF wf]
  have be: "base_elems ?t = elems pb" by (simp add: base_elems_def)
  have kin: "k \<in> set (cn_kids ?t)" by simp
  have key: "br_key (ch_bref c) = br_key (cn_bref k)" "br_keybits (ch_bref c) = br_keybits (cn_bref k)" using c(1) by (simp_all add: same_range_def)
  have tc: "table_count p = Ok count" using level_okD(4)[OF ok(1)] by simp
  have ty: "br_type (ch_bref p) \<in> table_types" using tc by (auto simp: table_count_def split: if_splits)
  from modify_data_ok[OF dev, of "CNode p (Some pb) []" pb] ty obtain p2 where
    p2: "hammer2_chain_modify_data (fe_chain env) (fe_load env) (CNode p (Some pb) []) = Ok (CNode p2 (Some pb) [])" "evolves p p2"
      "core_live_zero p2 = core_live_zero p" "core_flags p2 = core_flags p" "marked p2" by auto
  have tw: "blocktable_wf p2 pb count" using wf p2(3,4) by (simp add: level_wf_def blocktable_wf_def)
  have tc2: "table_count p2 = Ok count" using tc evolves_fields(7)[OF p2(2)] by simp
  have cw: "bref_wf (ch_bref c)" using ls(3) same_range_wf[OF c(1)] by (simp add: kids_wf_def)
  define c1 where "c1 = clear_flag HAMMER2_CHAIN_UPDATE c"
  have c1: "ch_bref c1 = ch_bref c" "has c1 HAMMER2_CHAIN_BMAPPED = has c HAMMER2_CHAIN_BMAPPED" "has c1 HAMMER2_CHAIN_BMAPUPD = has c HAMMER2_CHAIN_BMAPUPD"
    by (simp_all add: c1_def flag_simps)
  have locked: "hammer2_chain_lock (fe_chain env) (fe_load env) (CNode p (Some pb) []) RESOLVE_ALWAYS = Ok (CNode p (Some pb) [])"
    by (simp add: hammer2_chain_lock_def)
  have bt: "\<exists>e\<in>set (elems pb). br_key e = br_key (cn_bref k)" if "has c HAMMER2_CHAIN_BMAPPED" using m kin that c(3) be by (auto simp: mapped_ok_def)
  have nb: "\<forall>e\<in>set (elems pb). br_key e \<noteq> br_key (cn_bref k)" if "\<not> has c HAMMER2_CHAIN_BMAPPED" using m kin that c(3) be by (auto simp: mapped_ok_def)
  have apart: "bref_left e (ch_bref c) \<or> bref_left (ch_bref c) e" if "e \<in> set (elems pb)" "br_key e \<noteq> br_key (cn_bref k)" for e
    using ls(4) kin that be same_range_left[OF same_range_refl c(1)] same_range_left[OF c(1) same_range_refl]
    by (fastforce simp: overlay_ok_def same_range_def)
  text \<open>The insertion, into the table without the old element.\<close>
  have ins: "\<exists>z pb' cache'. hammer2_base_insert q qb count cache d = Ok (q\<lparr>core_live_zero := z\<rparr>, pb', cache', set_flag HAMMER2_CHAIN_BMAPPED d) \<and>
      blocktable_wf (q\<lparr>core_live_zero := z\<rparr>) pb' count \<and> set (elems pb') = insert (ch_bref c) {e \<in> set (elems pb). br_key e \<noteq> br_key (cn_bref k)}"
    if q: "blocktable_wf q qb count" "ch_bref d = ch_bref c" "set (elems qb) = {e \<in> set (elems pb). br_key e \<noteq> br_key (cn_bref k)}" "length (elems qb) < count"
    for q qb d cache
  proof -
    have "\<not> bref_overlap b (ch_bref c)" if "b \<in> set (elems qb)" for b using apart that q(3) by (auto simp: bref_overlap_def)
    then have "insert_ok q qb count d" using q(2,4) c(2) cw by (simp add: insert_ok_def)
    from base_insert_ok[OF q(1) this, of cache, folded set_flag_def] obtain q' pb' cache' where
      i: "hammer2_base_insert q qb count cache d = Ok (q', pb', cache', set_flag HAMMER2_CHAIN_BMAPPED d)" "blocktable_wf q' pb' count"
        "elems pb' = bref_insort (ch_bref d) (elems qb)" by blast
    obtain z where "q' = q\<lparr>core_live_zero := z\<rparr>" using base_change_core(2)[OF i(1)] by blast
    then show ?thesis using i q(2,3) by (auto simp: bref_insort_def)
  qed
  note step = flush_update_def[of env info "CNode p (Some pb) []" c, unfolded locked obind.simps p2(1) ctree.sel tc2 Let_def option.case, folded c1_def]
  have ff: "\<exists>f. c1 = c\<lparr>ch_flags := f\<rparr>" unfolding c1_def by (rule flag_change)
  have fe: "\<forall>m\<in>entered_flags. has c1 m = has c m" "\<not> has c1 HAMMER2_CHAIN_UPDATE" by (simp_all add: c1_def flag_simps)
  consider (same) "\<not> has c HAMMER2_CHAIN_BMAPUPD" "has c HAMMER2_CHAIN_BMAPPED" | (new) "\<not> has c HAMMER2_CHAIN_BMAPPED"
    | (change) "has c HAMMER2_CHAIN_BMAPUPD" "has c HAMMER2_CHAIN_BMAPPED" by blast
  then show ?thesis
  proof cases
    case same
    have "set (elems pb) = insert (ch_bref c) {e \<in> set (elems pb). br_key e \<noteq> br_key (cn_bref k)}"
      using elems_replaced[of "elems pb" "ch_bref c"] ls(1) be c(4) same key(1) by simp
    then show ?thesis using step same c1 p2(2,5) tw ff fe by auto
  next
    case new
    define d where "d = (if has c1 HAMMER2_CHAIN_BMAPUPD then clear_flag HAMMER2_CHAIN_BMAPUPD c1 else c1)"
    have d: "ch_bref d = ch_bref c" "\<not> has d HAMMER2_CHAIN_BMAPPED" "\<not> has d HAMMER2_CHAIN_BMAPUPD" "\<not> has d HAMMER2_CHAIN_UPDATE" "\<forall>m\<in>entered_flags. has d m = has c m"
      "\<exists>f. d = c\<lparr>ch_flags := f\<rparr>"
    proof -
      show "\<exists>f. d = c\<lparr>ch_flags := f\<rparr>" unfolding d_def using ff flag_change(3)[OF ff] by simp
      show "\<forall>m\<in>entered_flags. has d m = has c m" unfolding d_def using fe(1) by (simp add: flag_simps)
    qed (use new c1 fe in \<open>simp_all add: d_def flag_simps\<close>)
    have len: "length (elems pb) < count" using unmapped_room[OF ok(1) kin] new c(3) ok(2) be by simp
    have rest: "set (elems pb) = {e \<in> set (elems pb). br_key e \<noteq> br_key (cn_bref k)}" using nb[OF new] by blast
    obtain z pb' cache' where i: "hammer2_base_insert p2 pb count (fl_cache_index info) d = Ok (p2\<lparr>core_live_zero := z\<rparr>, pb', cache', set_flag HAMMER2_CHAIN_BMAPPED d)"
      "blocktable_wf (p2\<lparr>core_live_zero := z\<rparr>) pb' count" "set (elems pb') = insert (ch_bref c) {e \<in> set (elems pb). br_key e \<noteq> br_key (cn_bref k)}"
      using ins[OF tw d(1) rest len, of "fl_cache_index info"] by (elim exE conjE) (rule that)
    have "flush_update env info (CNode p (Some pb) []) c = Ok (info\<lparr>fl_cache_index := cache'\<rparr>, CNode (p2\<lparr>core_live_zero := z\<rparr>) (Some pb') [], set_flag HAMMER2_CHAIN_BMAPPED d)"
    proof -
      have "(if \<not> has c1 HAMMER2_CHAIN_BMAPUPD then Ok (p2, pb, fl_cache_index info, c1)
             else if has c1 HAMMER2_CHAIN_BMAPPED then hammer2_base_delete p2 pb count (fl_cache_index info) c1
             else Ok (p2, pb, fl_cache_index info, clear_flag HAMMER2_CHAIN_BMAPUPD c1)) = Ok (p2, pb, fl_cache_index info, d)"
        using new c1(2) by (simp add: d_def)
      then show ?thesis unfolding step using d(2) i(1) by simp
    qed
    moreover have "evolves p (p2\<lparr>core_live_zero := z\<rparr>)" "marked (p2\<lparr>core_live_zero := z\<rparr>)" using evolves_core[OF p2(2)] p2(5) by (auto simp: marked_def)
    moreover have "\<forall>m\<in>entered_flags. has (set_flag HAMMER2_CHAIN_BMAPPED d) m = has c m" using d(5) by (simp add: flag_simps)
    moreover have "has (set_flag HAMMER2_CHAIN_BMAPPED d) HAMMER2_CHAIN_BMAPPED" "\<not> has (set_flag HAMMER2_CHAIN_BMAPPED d) HAMMER2_CHAIN_UPDATE"
      "\<not> has (set_flag HAMMER2_CHAIN_BMAPPED d) HAMMER2_CHAIN_BMAPUPD" using d(3,4) by (simp_all add: flag_simps)
    ultimately show ?thesis using i(2,3) flag_change(4)[OF d(6), of HAMMER2_CHAIN_BMAPPED]
      by (intro exI[of _ "info\<lparr>fl_cache_index := cache'\<rparr>"] exI[of _ "p2\<lparr>core_live_zero := z\<rparr>"] exI[of _ pb'] exI[of _ "set_flag HAMMER2_CHAIN_BMAPPED d"] conjI) simp_all
  next
    case change
    obtain b where b: "b \<in> set (elems pb)" "br_key b = br_key (ch_bref c1)" using bt[OF change(2)] c1(1) key by auto
    have "ch_flags c1 AND HAMMER2_CHAIN_BMAPUPD \<noteq> 0" using change c1(3) by (simp add: has_def)
    then obtain q qb cache where del: "hammer2_base_delete p2 pb count (fl_cache_index info) c1 =
        Ok (q, qb, cache, c1\<lparr>ch_flags := ch_flags c1 AND NOT (HAMMER2_CHAIN_BMAPPED OR HAMMER2_CHAIN_BMAPUPD)\<rparr>)" "blocktable_wf q qb count"
      "elems qb = filter (\<lambda>e. br_key e \<noteq> br_key (ch_bref c1)) (elems pb)"
      using base_delete_ok[OF tw b, of "fl_cache_index info"] by blast
    define d where "d = clear_flag (HAMMER2_CHAIN_BMAPPED OR HAMMER2_CHAIN_BMAPUPD) c1"
    have del1: "hammer2_base_delete p2 pb count (fl_cache_index info) c1 = Ok (q, qb, cache, d)" using del(1) unfolding d_def clear_flag_def .
    obtain y where y: "q = p2\<lparr>core_live_zero := y\<rparr>" using base_change_core(1)[OF del(1)] by blast
    have d: "ch_bref d = ch_bref c" "\<not> has d HAMMER2_CHAIN_BMAPPED" "\<not> has d HAMMER2_CHAIN_BMAPUPD" "\<not> has d HAMMER2_CHAIN_UPDATE" "\<forall>m\<in>entered_flags. has d m = has c m"
      "\<exists>f. d = c\<lparr>ch_flags := f\<rparr>"
    proof -
      show "\<exists>f. d = c\<lparr>ch_flags := f\<rparr>" unfolding d_def by (rule flag_change(3)[OF ff])
      show "\<forall>m\<in>entered_flags. has d m = has c m" unfolding d_def using fe(1) by (simp add: flag_simps)
    qed (use c1 fe in \<open>simp_all add: d_def flag_simps\<close>)
    have "length (elems pb) \<le> count" using tw length_filter_le[of _ pb] by (auto simp: blocktable_wf_def elems_def)
    moreover have "length (elems qb) < length (elems pb)" unfolding del(3) using b by (auto intro: length_filter_less)
    ultimately have len: "length (elems qb) < count" by simp
    have rest: "set (elems qb) = {e \<in> set (elems pb). br_key e \<noteq> br_key (cn_bref k)}" using del(3) c1(1) key(1) by simp
    obtain z pb' cache' where i: "hammer2_base_insert q qb count cache d = Ok (q\<lparr>core_live_zero := z\<rparr>, pb', cache', set_flag HAMMER2_CHAIN_BMAPPED d)"
      "blocktable_wf (q\<lparr>core_live_zero := z\<rparr>) pb' count" "set (elems pb') = insert (ch_bref c) {e \<in> set (elems pb). br_key e \<noteq> br_key (cn_bref k)}"
      using ins[OF del(2) d(1) rest len, of cache] by (elim exE conjE) (rule that)
    have "flush_update env info (CNode p (Some pb) []) c = Ok (info\<lparr>fl_cache_index := cache'\<rparr>, CNode (q\<lparr>core_live_zero := z\<rparr>) (Some pb') [], set_flag HAMMER2_CHAIN_BMAPPED d)"
      unfolding step using d(2) i(1) change c1(2,3) del1 by simp
    moreover have "evolves p (q\<lparr>core_live_zero := z\<rparr>)" "marked (q\<lparr>core_live_zero := z\<rparr>)" using evolves_core[OF p2(2)] p2(5) y by (auto simp: marked_def)
    moreover have "\<forall>m\<in>entered_flags. has (set_flag HAMMER2_CHAIN_BMAPPED d) m = has c m" using d(5) by (simp add: flag_simps)
    moreover have "has (set_flag HAMMER2_CHAIN_BMAPPED d) HAMMER2_CHAIN_BMAPPED" "\<not> has (set_flag HAMMER2_CHAIN_BMAPPED d) HAMMER2_CHAIN_UPDATE"
      "\<not> has (set_flag HAMMER2_CHAIN_BMAPPED d) HAMMER2_CHAIN_BMAPUPD" using d(3,4) by (simp_all add: flag_simps)
    ultimately show ?thesis using i(2,3) flag_change(4)[OF d(6), of HAMMER2_CHAIN_BMAPPED]
      by (intro exI[of _ "info\<lparr>fl_cache_index := cache'\<rparr>"] exI[of _ "q\<lparr>core_live_zero := z\<rparr>"] exI[of _ pb'] exI[of _ "set_flag HAMMER2_CHAIN_BMAPPED d"] conjI) simp_all
  qed
qed

section \<open>Trees that can be flushed\<close>

text \<open>The block table of a chain, in memory or on the media, and whether its check code is right.\<close>

definition table_of :: "flush_env \<Rightarrow> ctree \<Rightarrow> hammer2_blockref list" where
  "table_of env t = (case cn_base t of Some b \<Rightarrow> b | None \<Rightarrow> fe_load env (cn_bref t))"

definition check_valid :: "flush_env \<Rightarrow> ctree \<Rightarrow> bool" where
  "check_valid env t \<longleftrightarrow> (br_type (cn_bref t) \<in> {HAMMER2_BREF_TYPE_INODE, HAMMER2_BREF_TYPE_INDIRECT, HAMMER2_BREF_TYPE_FREEMAP_NODE} \<longrightarrow>
     hammer2_chain_testcheck (fe_hmac env) (cn_chain t) (fe_data env (br_type (cn_bref t)) (br_key (cn_bref t)) (Some (table_of env t))))"

definition tid_ok :: "u64 option \<Rightarrow> hammer2_blockref \<Rightarrow> bool" where
  "tid_ok tid b \<longleftrightarrow> (case tid of None \<Rightarrow> True | Some x \<Rightarrow> br_mirror_tid b \<le> x)"

definition node_ok :: "flush_env \<Rightarrow> u64 option \<Rightarrow> ctree \<Rightarrow> bool" where
  "node_ok env tid t \<longleftrightarrow> \<not> has (cn_chain t) HAMMER2_CHAIN_DEFERRED \<and> \<not> has (cn_chain t) HAMMER2_CHAIN_EMBEDDED \<and> tid_ok tid (cn_bref t) \<and>
     (cn_kids t \<noteq> [] \<longrightarrow> (\<exists>b count. cn_base t = Some b \<and> level_ok t count \<and> length (view t) \<le> count)) \<and>
     (br_type (cn_bref t) \<in> table_types \<longrightarrow> \<not> has (cn_chain t) HAMMER2_CHAIN_INITIAL \<and> (has (cn_chain t) HAMMER2_CHAIN_MODIFIED \<longrightarrow> cn_base t \<noteq> None)) \<and>
     (\<not> has (cn_chain t) HAMMER2_CHAIN_MODIFIED \<longrightarrow> check_valid env t) \<and> radix_ok (br_data_off (cn_bref t))"

lemma node_okD:
  assumes "node_ok env tid t"
  shows "\<not> has (cn_chain t) HAMMER2_CHAIN_DEFERRED" "\<not> has (cn_chain t) HAMMER2_CHAIN_EMBEDDED" "tid_ok tid (cn_bref t)"
    "cn_kids t \<noteq> [] \<Longrightarrow> \<exists>b count. cn_base t = Some b \<and> level_ok t count \<and> length (view t) \<le> count"
    "br_type (cn_bref t) \<in> table_types \<Longrightarrow> \<not> has (cn_chain t) HAMMER2_CHAIN_INITIAL"
    "br_type (cn_bref t) \<in> table_types \<Longrightarrow> has (cn_chain t) HAMMER2_CHAIN_MODIFIED \<Longrightarrow> cn_base t \<noteq> None"
    "\<not> has (cn_chain t) HAMMER2_CHAIN_MODIFIED \<Longrightarrow> check_valid env t" "radix_ok (br_data_off (cn_bref t))"
  using assms unfolding node_ok_def by blast+

text \<open>A chain and the block table of its parent: what is out of date is flagged.\<close>

definition kid_ok :: "hammer2_blockref set \<Rightarrow> ctree \<Rightarrow> bool" where
  "kid_ok es k \<longleftrightarrow>
     br_type (cn_bref k) \<in> {HAMMER2_BREF_TYPE_INODE, HAMMER2_BREF_TYPE_INDIRECT, HAMMER2_BREF_TYPE_FREEMAP_NODE, HAMMER2_BREF_TYPE_FREEMAP_LEAF, HAMMER2_BREF_TYPE_DATA} \<and>
     (has (cn_chain k) HAMMER2_CHAIN_MODIFIED \<longrightarrow> has (cn_chain k) HAMMER2_CHAIN_UPDATE) \<and>
     (has (cn_chain k) HAMMER2_CHAIN_MODIFIED \<and> has (cn_chain k) HAMMER2_CHAIN_BMAPPED \<longrightarrow> has (cn_chain k) HAMMER2_CHAIN_BMAPUPD) \<and>
     (has (cn_chain k) HAMMER2_CHAIN_BMAPPED \<and> \<not> has (cn_chain k) HAMMER2_CHAIN_BMAPUPD \<longrightarrow> cn_bref k \<in> es) \<and>
     (\<not> has (cn_chain k) HAMMER2_CHAIN_UPDATE \<longrightarrow> has (cn_chain k) HAMMER2_CHAIN_BMAPPED \<and> \<not> has (cn_chain k) HAMMER2_CHAIN_BMAPUPD)"

text \<open>
  A flush does not cross the boundary of a mounted PFS (\<open>hammer2_flush_recurse\<close>): the chain there has nothing to be flushed, as
  after the flush of that PFS.
\<close>

definition boundary_ok :: "u64 option \<Rightarrow> ctree \<Rightarrow> bool" where
  "boundary_ok tid k \<longleftrightarrow> has (cn_chain k) HAMMER2_CHAIN_PFSBOUNDARY \<and> tid \<noteq> None \<longrightarrow> \<not> has (cn_chain k) HAMMER2_CHAIN_FLUSH_MASK"

fun flushable :: "flush_env \<Rightarrow> u64 option \<Rightarrow> ctree \<Rightarrow> bool" where
  "flushable env tid (CNode c base ks) \<longleftrightarrow> node_ok env tid (CNode c base ks) \<and>
     (\<forall>k\<in>set ks. kid_ok (set (base_elems (CNode c base ks))) k \<and> (has (cn_chain k) HAMMER2_CHAIN_FLUSH_MASK \<longrightarrow> has c HAMMER2_CHAIN_ONFLUSH) \<and>
        boundary_ok tid k \<and> flushable env tid k)"

text \<open>A chain that is clean: its block reference is the one in the block table of its parent.\<close>

definition synced :: "hammer2_blockref set \<Rightarrow> ctree \<Rightarrow> bool" where
  "synced es k \<longleftrightarrow> \<not> has (cn_chain k) HAMMER2_CHAIN_MODIFIED \<and> \<not> has (cn_chain k) HAMMER2_CHAIN_UPDATE \<and> has (cn_chain k) HAMMER2_CHAIN_BMAPPED \<and> cn_bref k \<in> es"

fun flushed :: "flush_env \<Rightarrow> u64 option \<Rightarrow> ctree \<Rightarrow> bool" where
  "flushed env tid (CNode c base ks) \<longleftrightarrow> node_ok env tid (CNode c base ks) \<and> (\<forall>k\<in>set ks. synced (set (base_elems (CNode c base ks))) k \<and> flushed env tid k)"

primrec levels :: "nat \<Rightarrow> ctree \<Rightarrow> bool" where
  "levels 0 t \<longleftrightarrow> False"
| "levels (Suc n) t \<longleftrightarrow> (\<forall>k\<in>set (cn_kids t). levels n k)"

text \<open>Two trees with the same blocks; the elements that are only on the media are the same ones.\<close>

definition same_id :: "hammer2_blockref \<Rightarrow> hammer2_blockref \<Rightarrow> bool" where
  "same_id a b \<longleftrightarrow> br_type a = br_type b \<and> same_range a b \<and> (br_type a = HAMMER2_BREF_TYPE_DATA \<longrightarrow> br_data_off a = br_data_off b)"

definition unshadowed :: "hammer2_blockref list \<Rightarrow> ctree list \<Rightarrow> hammer2_blockref set" where
  "unshadowed es ks = {e \<in> set es. \<forall>k\<in>set ks. br_key (cn_bref k) \<noteq> br_key e}"

inductive similar :: "flush_env \<Rightarrow> ctree \<Rightarrow> ctree \<Rightarrow> bool" for env where
  similarI: "same_id (cn_bref t) (cn_bref t') \<Longrightarrow> list_all2 (similar env) (cn_kids t) (cn_kids t') \<Longrightarrow>
    (br_type (cn_bref t) \<in> table_types \<Longrightarrow> unshadowed (elems (table_of env t)) (cn_kids t) = unshadowed (elems (table_of env t')) (cn_kids t')) \<Longrightarrow> similar env t t'"

lemma flush_mask:
  "has c HAMMER2_CHAIN_FLUSH_MASK \<longleftrightarrow> has c HAMMER2_CHAIN_MODIFIED \<or> has c HAMMER2_CHAIN_UPDATE \<or> has c HAMMER2_CHAIN_ONFLUSH"
proof -
  have "ch_flags c AND 0x241 = (ch_flags c AND 1) OR (ch_flags c AND 0x40) OR (ch_flags c AND 0x200)"
    by (simp flip: bit.conj_disj_distrib)
  then show ?thesis by (simp add: has_def word_or_eq_0)
qed

lemma clean_flushed: "flushable env tid t \<Longrightarrow> \<not> has (cn_chain t) HAMMER2_CHAIN_ONFLUSH \<Longrightarrow> flushed env tid t"
proof (induction t)
  case (CNode c base ks)
  have "synced (set (base_elems (CNode c base ks))) k \<and> flushed env tid k" if k: "k \<in> set ks" for k
  proof -
    have f: "kid_ok (set (base_elems (CNode c base ks))) k" "\<not> has (cn_chain k) HAMMER2_CHAIN_FLUSH_MASK" "flushable env tid k" using CNode.prems k by auto
    have "has (cn_chain k) HAMMER2_CHAIN_FLUSH_MASK \<longleftrightarrow> has (cn_chain k) HAMMER2_CHAIN_MODIFIED \<or> has (cn_chain k) HAMMER2_CHAIN_UPDATE \<or> has (cn_chain k) HAMMER2_CHAIN_ONFLUSH"
      by (rule flush_mask)
    then show ?thesis using f CNode.IH[OF k] by (auto simp: kid_ok_def synced_def)
  qed
  then show ?case using CNode.prems by simp
qed

section \<open>Steps of a flush\<close>

lemma kids_keys: "kids_wf (xs @ k # ys) \<Longrightarrow> x \<in> set xs \<union> set ys \<Longrightarrow> br_key (cn_bref x) \<noteq> br_key (cn_bref k)"
  using bref_left_key by (fastforce simp: kids_wf_def sorted_wrt_append)

lemma replaced_level:
  assumes ok: "level_ok (CNode p b (xs @ k # ys)) count" and r: "same_range (cn_bref k) (cn_bref k')"
    and f: "\<forall>m\<in>{HAMMER2_CHAIN_DELETED, HAMMER2_CHAIN_ONRBTREE, HAMMER2_CHAIN_BMAPPED}. has (cn_chain k') m = has (cn_chain k) m"
  shows "level_ok (CNode p b (xs @ k' # ys)) count" "length (view (CNode p b (xs @ k' # ys))) = length (view (CNode p b (xs @ k # ys)))"
proof -
  let ?t = "CNode p b (xs @ k # ys)"
  note wf = level_okD(1)[OF ok]
  have kw: "kids_wf (xs @ k # ys)" using level_sorted(3)[OF wf] by simp
  have kin: "k \<in> set (cn_kids ?t)" by simp
  have e: "replace_kid k' ?t = CNode p b (xs @ k' # ys)"
    using kids_keys[OF kw] r by (simp add: replace_kid_def same_range_def map_idI)
  have "has (cn_chain k) HAMMER2_CHAIN_ONRBTREE" using level_okD(2)[OF ok] by (simp add: mapped_ok_def)
  moreover have "\<not> has (cn_chain k) HAMMER2_CHAIN_DELETED" using kw by (simp add: kids_wf_def has_def)
  ultimately have g: "\<not> has (cn_chain k') HAMMER2_CHAIN_DELETED" "has (cn_chain k') HAMMER2_CHAIN_ONRBTREE"
    "has (cn_chain k') HAMMER2_CHAIN_BMAPPED = has (cn_chain k) HAMMER2_CHAIN_BMAPPED" using f by simp_all
  note R = replace_kid_ok[OF ok kin r g, unfolded e]
  show "level_ok (CNode p b (xs @ k' # ys)) count" by (rule R(1))
  show "length (view (CNode p b (xs @ k' # ys))) = length (view ?t)" using arg_cong[OF R(2), of length] by simp
qed

lemma level_chain:
  assumes "level_ok (CNode p b ks) count" "core_live_zero p' = core_live_zero p" "core_flags p' = core_flags p" "core_live_count p' = core_live_count p"
    "table_count p' = table_count p" "has p' HAMMER2_CHAIN_INITIAL = has p HAMMER2_CHAIN_INITIAL"
  shows "level_ok (CNode p' b ks) count" "view (CNode p' b ks) = view (CNode p b ks)"
  using assms by (auto simp: level_ok_def level_wf_def blocktable_wf_def base_elems_def view_def split: option.splits)

lemma marked_evolves: "marked b \<Longrightarrow> evolves b c \<Longrightarrow> marked c"
  by (auto simp: evolves_def same_place_def unmarked_def marked_def)

lemma evolves_kid_ok:
  assumes "kid_ok es k" "evolves (cn_chain k) (cn_chain k')"
  shows "kid_ok es k'"
proof -
  have "has (cn_chain k') HAMMER2_CHAIN_BMAPPED = has (cn_chain k) HAMMER2_CHAIN_BMAPPED" using assms(2) by (simp add: evolves_def same_place_def)
  moreover have "unmarked (cn_chain k) (cn_chain k') \<or> marked (cn_chain k')" using assms(2) by (simp add: evolves_def)
  ultimately show ?thesis using assms(1) evolves_fields(1)[OF assms(2)] 
    by (elim disjE) (simp add: kid_ok_def unmarked_def, unfold kid_ok_def marked_def, metis)
qed

lemma kid_ok_other:
  assumes "kid_ok es k" "\<And>e. br_key e = br_key (cn_bref k) \<Longrightarrow> e \<in> es \<Longrightarrow> e \<in> es'"
  shows "kid_ok es' k"
  using assms by (simp add: kid_ok_def)

lemma synced_other: "synced es k \<Longrightarrow> (\<And>e. br_key e = br_key (cn_bref k) \<Longrightarrow> e \<in> es \<Longrightarrow> e \<in> es') \<Longrightarrow> synced es' k"
  by (simp add: synced_def)

abbreviation (input) written_flags :: "u32 set" where
  "written_flags \<equiv> {HAMMER2_CHAIN_UPDATE, HAMMER2_CHAIN_BMAPPED, HAMMER2_CHAIN_BMAPUPD, HAMMER2_CHAIN_DELETED, HAMMER2_CHAIN_ONRBTREE, HAMMER2_CHAIN_DEFERRED,
     HAMMER2_CHAIN_EMBEDDED, HAMMER2_CHAIN_PFSBOUNDARY, HAMMER2_CHAIN_INITIAL, HAMMER2_CHAIN_ONFLUSH}"

lemma setcheck_same:
  "\<exists>f ck. hammer2_chain_setcheck h c d = c\<lparr>ch_bref := (ch_bref c)\<lparr>br_flags := f, br_check := ck\<rparr>\<rparr>"
  unfolding hammer2_chain_setcheck_def Let_def by (intro exI) (rule refl)

lemma flush_modified_ok:
  assumes n: "node_ok env tid t" and tid: "fe_tid env = (\<lambda>_. tid)" and h: "\<And>k d. length (fe_hmac env k d) = 32"
    and f: "has (cn_chain t) HAMMER2_CHAIN_MODIFIED" "has (cn_chain t) HAMMER2_CHAIN_UPDATE"
    and ty: "br_type (cn_bref t) \<in> {HAMMER2_BREF_TYPE_INODE, HAMMER2_BREF_TYPE_INDIRECT, HAMMER2_BREF_TYPE_FREEMAP_NODE, HAMMER2_BREF_TYPE_FREEMAP_LEAF, HAMMER2_BREF_TYPE_DATA}"
  shows "\<exists>c'. flush_modified env t = Ok (with_chain (\<lambda>_. c') t) \<and> \<not> has c' HAMMER2_CHAIN_MODIFIED \<and> (\<forall>m\<in>written_flags. has c' m = has (cn_chain t) m) \<and>
    same_id (cn_bref t) (ch_bref c') \<and> core_live_zero c' = core_live_zero (cn_chain t) \<and> core_flags c' = core_flags (cn_chain t) \<and>
    core_live_count c' = core_live_count (cn_chain t) \<and> table_count c' = table_count (cn_chain t) \<and> br_data_off (ch_bref c') = br_data_off (cn_bref t) \<and>
    tid_ok tid (ch_bref c') \<and> check_valid env (with_chain (\<lambda>_. c') t)"
proof -
  let ?c = "cn_chain t" and ?d = "fe_data env (br_type (cn_bref t)) (br_key (cn_bref t)) (cn_base t)"
  define c3 where "c3 = (case tid of None \<Rightarrow> clear_flag HAMMER2_CHAIN_MODIFIED ?c
    | Some x \<Rightarrow> (clear_flag HAMMER2_CHAIN_MODIFIED ?c)\<lparr>ch_bref := (ch_bref (clear_flag HAMMER2_CHAIN_MODIFIED ?c))\<lparr>br_mirror_tid := x\<rparr>\<rparr>)"
  define c' where "c' = (if br_type (cn_bref t) = HAMMER2_BREF_TYPE_DATA then c3 else hammer2_chain_setcheck (fe_hmac env) c3 ?d)"
  have h3: "has c3 m = has (clear_flag HAMMER2_CHAIN_MODIFIED ?c) m" for m by (simp add: c3_def has_def split: option.split)
  have u3: "has c3 HAMMER2_CHAIN_UPDATE" using f(2) by (simp add: h3 flag_simps)
  have e3: "\<not> has c3 HAMMER2_CHAIN_EMBEDDED" using node_okD(2)[OF n] by (simp add: h3 flag_simps)
  have b3: "same_id (cn_bref t) (ch_bref c3)" "core_live_zero c3 = core_live_zero ?c" "core_flags c3 = core_flags ?c" "core_live_count c3 = core_live_count ?c" "ch_bytes c3 = ch_bytes ?c"
    "tid_ok tid (ch_bref c3)" "br_data_off (ch_bref c3) = br_data_off (cn_bref t)"
    using node_okD(3)[OF n] by (simp_all add: c3_def same_id_def same_range_def tid_ok_def split: option.splits)
  have "\<exists>f ck. c' = c3\<lparr>ch_bref := (ch_bref c3)\<lparr>br_flags := f, br_check := ck\<rparr>\<rparr>"
  proof (cases "br_type (cn_bref t) = HAMMER2_BREF_TYPE_DATA")
    case True
    then show ?thesis by (intro exI[of _ "br_flags (ch_bref c3)"] exI[of _ "br_check (ch_bref c3)"]) (simp add: c'_def)
  qed (simp add: c'_def setcheck_same)
  then obtain fl ck where cs: "c' = c3\<lparr>ch_bref := (ch_bref c3)\<lparr>br_flags := fl, br_check := ck\<rparr>\<rparr>" by blast
  have hc: "has c' m = has c3 m" for m by (simp add: cs has_def)
  have "flush_modified env t = Ok (with_chain (\<lambda>_. c') t)"
  proof -
    have nb: "br_type (cn_bref t) = HAMMER2_BREF_TYPE_INODE \<Longrightarrow> cn_base t \<noteq> None" using node_okD(6)[OF n] f(1) by simp
    note D = flush_modified_def[of env t, unfolded tid Let_def, folded c3_def]
    show ?thesis using ty unfolding D c'_def by (elim insertE emptyE) (simp_all add: f(2) e3 u3 nb)
  qed
  moreover have "\<not> has c' HAMMER2_CHAIN_MODIFIED" "\<forall>m\<in>written_flags. has c' m = has ?c m" by (simp_all add: hc h3 flag_simps)
  moreover have "same_id (cn_bref t) (ch_bref c')" "core_live_zero c' = core_live_zero ?c" "core_flags c' = core_flags ?c" "core_live_count c' = core_live_count ?c"
    "table_count c' = table_count ?c" "br_data_off (ch_bref c') = br_data_off (cn_bref t)" "tid_ok tid (ch_bref c')"
    using b3 by (simp_all add: cs same_id_def same_range_def table_count_def tid_ok_def split: option.splits)
  moreover have "check_valid env (with_chain (\<lambda>_. c') t)"
  proof (cases "br_type (cn_bref t) \<in> {HAMMER2_BREF_TYPE_INODE, HAMMER2_BREF_TYPE_INDIRECT, HAMMER2_BREF_TYPE_FREEMAP_NODE}")
    case True
    then obtain b where b: "cn_base t = Some b" using node_okD(6)[OF n _ f(1)] by auto
    have c's: "c' = hammer2_chain_setcheck (fe_hmac env) c3 ?d" using True by (auto simp: c'_def)
    have "hammer2_chain_testcheck (fe_hmac env) c' ?d" unfolding c's by (rule setcheck_tests[OF h])
    moreover have "br_type (ch_bref c') = br_type (cn_bref t)" "br_key (ch_bref c') = br_key (cn_bref t)" using b3(1) by (simp_all add: cs same_id_def same_range_def)
    ultimately show ?thesis using b by (simp add: check_valid_def table_of_def)
  next
    case False
    have "br_type (ch_bref c') = br_type (cn_bref t)" using b3(1) by (simp add: cs same_id_def)
    then show ?thesis using False by (simp add: check_valid_def)
  qed
  ultimately show ?thesis by blast
qed

text \<open>What is needed of a chain for the node to stay in order when only the chain changes.\<close>

definition same_core :: "hammer2_chain \<Rightarrow> hammer2_chain \<Rightarrow> bool" where
  "same_core c c' \<longleftrightarrow> core_live_zero c' = core_live_zero c \<and> core_flags c' = core_flags c \<and> core_live_count c' = core_live_count c \<and>
     table_count c' = table_count c \<and> same_id (ch_bref c) (ch_bref c') \<and> br_data_off (ch_bref c') = br_data_off (ch_bref c) \<and>
     (\<forall>m\<in>{HAMMER2_CHAIN_DELETED, HAMMER2_CHAIN_ONRBTREE, HAMMER2_CHAIN_DEFERRED, HAMMER2_CHAIN_EMBEDDED, HAMMER2_CHAIN_PFSBOUNDARY, HAMMER2_CHAIN_INITIAL}. has c' m = has c m)"

lemma same_core_trans:
  assumes "same_core a b" "same_core b c"
  shows "same_core a c"
  using assms unfolding same_core_def same_id_def same_range_def by metis

lemma same_core_flag: "same_core c (set_flag HAMMER2_CHAIN_DESTROY c)"
  by (simp add: same_core_def same_id_def same_range_def flag_simps)

lemma node_ok_chain:
  assumes n: "node_ok env tid t" and c: "same_core (cn_chain t) c'" "tid_ok tid (ch_bref c')"
    "has c' HAMMER2_CHAIN_MODIFIED \<Longrightarrow> has (cn_chain t) HAMMER2_CHAIN_MODIFIED" "\<not> has c' HAMMER2_CHAIN_MODIFIED \<Longrightarrow> check_valid env (with_chain (\<lambda>_. c') t)"
  shows "node_ok env tid (with_chain (\<lambda>_. c') t)"
proof -
  note N = node_okD[OF n]
  have ty: "br_type (ch_bref c') = br_type (cn_bref t)" using c(1) by (simp add: same_core_def same_id_def)
  have lv: "\<exists>b count. cn_base (with_chain (\<lambda>_. c') t) = Some b \<and> level_ok (with_chain (\<lambda>_. c') t) count \<and> length (view (with_chain (\<lambda>_. c') t)) \<le> count"
    if k: "cn_kids (with_chain (\<lambda>_. c') t) \<noteq> []"
  proof -
    obtain b count where l: "cn_base t = Some b" "level_ok t count" "length (view t) \<le> count" using N(4) k by auto
    have "level_ok (CNode (cn_chain t) (cn_base t) (cn_kids t)) count" using l(2) by simp
    from level_chain[OF this, of c'] l c(1) show ?thesis by (cases t) (auto simp: same_core_def)
  qed
  show ?thesis unfolding node_ok_def using lv c(2-4) N(1,2,5,6,8) c(1) ty by (simp add: same_core_def)
qed

lemma check_valid_flags:
  assumes "check_valid env (CNode c b ks)" "ch_bref c' = ch_bref c" "ch_bytes c' = ch_bytes c"
  shows "check_valid env (CNode c' b ks')"
proof -
  have "hammer2_chain_testcheck h c' d = hammer2_chain_testcheck h c d" for h d
    unfolding hammer2_chain_testcheck_def assms(2,3) by (rule refl)
  moreover have "table_of env (CNode c' b ks') = table_of env (CNode c b ks)" by (simp add: table_of_def assms(2) split: option.split)
  ultimately show ?thesis using assms(1,2) by (simp add: check_valid_def)
qed

lemma flushed_chain:
  assumes "node_ok env tid (with_chain (\<lambda>_. c') t)" "\<forall>k\<in>set (cn_kids t). synced (set (base_elems t)) k \<and> flushed env tid k"
  shows "flushed env tid (with_chain (\<lambda>_. c') t)"
  using assms by (cases t) (simp add: base_elems_core)

text \<open>Everything the flush of a chain below a parent promises.\<close>

definition entered_at :: "flush_env \<Rightarrow> u64 option \<Rightarrow> hammer2_chain \<Rightarrow> hammer2_blockref list \<Rightarrow> ctree list \<Rightarrow> ctree \<Rightarrow> ctree list \<Rightarrow> nat \<Rightarrow>
    hammer2_chain \<Rightarrow> hammer2_blockref list \<Rightarrow> ctree \<Rightarrow> bool" where
  "entered_at env tid p pb xs t ys count p' pb' t' \<longleftrightarrow> evolves p p' \<and> (pb' = pb \<or> marked p') \<and>
     level_ok (CNode p' (Some pb') (xs @ t' # ys)) count \<and> length (view (CNode p' (Some pb') (xs @ t' # ys))) \<le> count \<and>
     (\<forall>e. br_key e \<noteq> br_key (cn_bref t) \<longrightarrow> (e \<in> set (elems pb') \<longleftrightarrow> e \<in> set (elems pb))) \<and>
     synced (set (elems pb')) t' \<and> flushed env tid t' \<and> same_id (cn_bref t) (cn_bref t')"

lemma flush_up_ok:
  assumes dev: "devices_ok env" and tid: "fe_tid env = (\<lambda>_. tid)" and h: "\<And>k d. length (fe_hmac env k d) = 32"
    and n: "node_ok env tid t" "\<forall>k\<in>set (cn_kids t). synced (set (base_elems t)) k \<and> flushed env tid k"
    and lv: "level_ok (CNode p (Some pb) (xs @ t # ys)) count" "length (view (CNode p (Some pb) (xs @ t # ys))) \<le> count"
    and k: "kid_ok (set (elems pb)) t"
  shows "\<exists>info' p' pb' up t'. flush_up env info (Some (CNode p (Some pb) [])) t = Ok (info', Some (CNode p' (Some pb') []), up, t') \<and>
    fl_diddeferral info' = fl_diddeferral info \<and> entered_at env tid p pb xs t ys count p' pb' t' \<and> cn_kids t' = cn_kids t \<and> cn_base t' = cn_base t \<and>
    (has (cn_chain t) HAMMER2_CHAIN_MODIFIED \<or> cn_bref t' = cn_bref t)"
proof -
  define t1 where "t1 = (if has p HAMMER2_CHAIN_DESTROY then with_chain (set_flag HAMMER2_CHAIN_DESTROY) t else t)"
  have t1: "same_core (cn_chain t) (cn_chain t1)" "cn_bref t1 = cn_bref t" "cn_kids t1 = cn_kids t" "cn_base t1 = cn_base t"
    "\<forall>m\<in>{HAMMER2_CHAIN_MODIFIED, HAMMER2_CHAIN_UPDATE, HAMMER2_CHAIN_BMAPPED, HAMMER2_CHAIN_BMAPUPD}. has (cn_chain t1) m = has (cn_chain t) m"
    "ch_bytes (cn_chain t1) = ch_bytes (cn_chain t)" "t1 = with_chain (\<lambda>_. cn_chain t1) t"
    using same_core_flag[of "cn_chain t"] by (simp_all add: t1_def flag_simps same_core_def same_id_def same_range_def)
  have n1: "node_ok env tid t1"
  proof -
    have "node_ok env tid (with_chain (\<lambda>_. cn_chain t1) t)"
    proof (rule node_ok_chain[OF n(1) t1(1)])
      show "tid_ok tid (cn_bref t1)" unfolding t1(2) by (rule node_okD(3)[OF n(1)])
      show "check_valid env (with_chain (\<lambda>_. cn_chain t1) t)" if "\<not> has (cn_chain t1) HAMMER2_CHAIN_MODIFIED"
        by (rule check_valid_flags[of env "cn_chain t" "cn_base t" "cn_kids t"]) (use node_okD(7)[OF n(1)] t1(2,5,6) that in simp_all)
    qed (use t1(5) in simp)
    then show ?thesis using t1(7) by simp
  qed
  note step = flush_up_def[of env info "Some (CNode p (Some pb) [])" t, unfolded option.case ctree.sel Let_def, folded t1_def]
  have ty: "br_type (cn_bref t1) \<in> {HAMMER2_BREF_TYPE_INODE, HAMMER2_BREF_TYPE_INDIRECT, HAMMER2_BREF_TYPE_FREEMAP_NODE, HAMMER2_BREF_TYPE_FREEMAP_LEAF, HAMMER2_BREF_TYPE_DATA}"
    using k t1(2) by (simp add: kid_ok_def)
  have sr1: "same_id (cn_bref t) (cn_bref t1)" using t1(2) by (simp add: same_id_def same_range_def)
  show ?thesis
  proof (cases "has (cn_chain t) HAMMER2_CHAIN_UPDATE")
    case False
    then have clean: "\<not> has (cn_chain t) HAMMER2_CHAIN_MODIFIED" "has (cn_chain t) HAMMER2_CHAIN_BMAPPED" "cn_bref t \<in> set (elems pb)" using k by (auto simp: kid_ok_def)
    have f: "\<forall>m\<in>{HAMMER2_CHAIN_DELETED, HAMMER2_CHAIN_ONRBTREE, HAMMER2_CHAIN_BMAPPED}. has (cn_chain t1) m = has (cn_chain t) m" using t1(1,5) by (simp add: same_core_def)
    have "same_range (cn_bref t) (cn_bref t1)" using sr1 by (simp add: same_id_def)
    note R = replaced_level[OF lv(1) this f]
    have "flush_up env info (Some (CNode p (Some pb) [])) t = Ok (info, Some (CNode p (Some pb) []), False, t1)"
      unfolding step using False clean t1(5) by simp
    moreover have "flushed env tid t1" using flushed_chain[of env tid "cn_chain t1" t] n(2) n1 t1(7) by simp
    moreover have "synced (set (elems pb)) t1" using clean False t1(2,5) by (simp add: synced_def)
    ultimately show ?thesis using R lv(2) evolves_refl sr1 t1(2-4) unfolding entered_at_def
      by (intro exI[of _ info] exI[of _ p] exI[of _ pb] exI[of _ False] exI[of _ t1]) simp
  next
    case True
    have "\<exists>c2. (if has (cn_chain t1) HAMMER2_CHAIN_MODIFIED then flush_modified env t1 else Ok t1) = Ok (with_chain (\<lambda>_. c2) t) \<and> same_core (cn_chain t) c2 \<and>
      \<not> has c2 HAMMER2_CHAIN_MODIFIED \<and> (\<forall>m\<in>{HAMMER2_CHAIN_UPDATE, HAMMER2_CHAIN_BMAPPED, HAMMER2_CHAIN_BMAPUPD}. has c2 m = has (cn_chain t) m) \<and>
      tid_ok tid (ch_bref c2) \<and> check_valid env (with_chain (\<lambda>_. c2) t) \<and>
      (has (cn_chain t) HAMMER2_CHAIN_MODIFIED \<or> ch_bref c2 = cn_bref t)"
    proof (cases "has (cn_chain t) HAMMER2_CHAIN_MODIFIED")
      case False
      have "check_valid env (with_chain (\<lambda>_. cn_chain t1) t)" using node_okD(7)[OF n1] t1(5,7) False by simp
      then show ?thesis using False t1 node_okD(3)[OF n1] by (intro exI[of _ "cn_chain t1"]) simp
    next
      case M: True
      have "has (cn_chain t1) HAMMER2_CHAIN_MODIFIED" "has (cn_chain t1) HAMMER2_CHAIN_UPDATE" using M True t1(5) by simp_all
      from flush_modified_ok[OF n1 tid h this ty] obtain c2 where
        c2: "flush_modified env t1 = Ok (with_chain (\<lambda>_. c2) t1)" "\<not> has c2 HAMMER2_CHAIN_MODIFIED" "\<forall>m\<in>written_flags. has c2 m = has (cn_chain t1) m"
          "same_id (cn_bref t1) (ch_bref c2)" "core_live_zero c2 = core_live_zero (cn_chain t1)" "core_flags c2 = core_flags (cn_chain t1)"
          "core_live_count c2 = core_live_count (cn_chain t1)" "table_count c2 = table_count (cn_chain t1)" "br_data_off (ch_bref c2) = br_data_off (cn_bref t1)"
          "tid_ok tid (ch_bref c2)" "check_valid env (with_chain (\<lambda>_. c2) t1)" by (elim exE conjE) (rule that)
      have "same_core (cn_chain t1) c2" using c2(3-9) by (simp add: same_core_def)
      then have "same_core (cn_chain t) c2" by (rule same_core_trans[OF t1(1)])
      moreover have "with_chain (\<lambda>_. c2) t1 = with_chain (\<lambda>_. c2) t" using t1(3,4) by simp
      ultimately show ?thesis using c2 M t1(5) \<open>has (cn_chain t1) HAMMER2_CHAIN_MODIFIED\<close> by (intro exI[of _ c2]) simp
    qed
    then obtain c2 where c2: "(if has (cn_chain t1) HAMMER2_CHAIN_MODIFIED then flush_modified env t1 else Ok t1) = Ok (with_chain (\<lambda>_. c2) t)" "same_core (cn_chain t) c2"
      "\<not> has c2 HAMMER2_CHAIN_MODIFIED" "\<forall>m\<in>{HAMMER2_CHAIN_UPDATE, HAMMER2_CHAIN_BMAPPED, HAMMER2_CHAIN_BMAPUPD}. has c2 m = has (cn_chain t) m"
      "tid_ok tid (ch_bref c2)" "check_valid env (with_chain (\<lambda>_. c2) t)"
      "has (cn_chain t) HAMMER2_CHAIN_MODIFIED \<or> ch_bref c2 = cn_bref t" by (elim exE conjE) (rule that)
    have id2: "same_id (cn_bref t) (ch_bref c2)" using c2(2) by (simp add: same_core_def)
    then have sr2: "same_range (cn_bref t) (ch_bref c2)" "br_type (ch_bref c2) \<noteq> 0" using k by (auto simp: same_id_def kid_ok_def)
    have el2: "has c2 HAMMER2_CHAIN_BMAPPED \<and> \<not> has c2 HAMMER2_CHAIN_BMAPUPD \<longrightarrow> ch_bref c2 \<in> set (elems pb)" using c2(4,7) k by (auto simp: kid_ok_def)
    have bm2: "has c2 HAMMER2_CHAIN_BMAPPED = has (cn_chain t) HAMMER2_CHAIN_BMAPPED" using c2(4) by simp
    from flush_update_ok[OF dev lv sr2 bm2 el2, of info] obtain info' p' pb' c' where
      u: "flush_update env info (CNode p (Some pb) []) c2 = Ok (info', CNode p' (Some pb') [], c')" "\<exists>f. c' = c2\<lparr>ch_flags := f\<rparr>"
        "fl_diddeferral info' = fl_diddeferral info" "evolves p p'" "marked p'" "blocktable_wf p' pb' count"
        "set (elems pb') = insert (ch_bref c2) {e \<in> set (elems pb). br_key e \<noteq> br_key (cn_bref t)}" "has c' HAMMER2_CHAIN_BMAPPED" "\<not> has c' HAMMER2_CHAIN_UPDATE"
        "\<not> has c' HAMMER2_CHAIN_BMAPUPD" "\<forall>m\<in>entered_flags. has c' m = has c2 m" by (elim exE conjE) (rule that, (assumption | rule exI)+)
    define t' where "t' = with_chain (\<lambda>_. c') t"
    have c': "ch_bref c' = ch_bref c2" "ch_bytes c' = ch_bytes c2" "core_live_zero c' = core_live_zero c2" "core_flags c' = core_flags c2"
      "core_live_count c' = core_live_count c2" "table_count c' = table_count c2" using u(2) by auto
    have sc: "same_core (cn_chain t) c'" using c2(2) c' u(11) by (simp add: same_core_def)
    have "flush_up env info (Some (CNode p (Some pb) [])) t = Ok (info', Some (CNode p' (Some pb') []), True, t')"
      unfolding step c2(1) obind.simps using c2(4) True u(1) by (simp add: t'_def)
    moreover have "entered_at env tid p pb xs t ys count p' pb' t'"
    proof -
      have "same_range (cn_bref t) (cn_bref t')" using sr2(1) c'(1) by (simp add: t'_def)
      moreover have "\<not> has (cn_chain t) HAMMER2_CHAIN_DELETED" "has (cn_chain t) HAMMER2_CHAIN_ONRBTREE"
        using level_sorted(3)[OF level_okD(1)[OF lv(1)]] level_okD(2)[OF lv(1)] by (auto simp: kids_wf_def mapped_ok_def has_def)
      moreover have "set (elems pb') = insert (cn_bref t') {e \<in> set (elems pb). br_key e \<noteq> br_key (cn_bref t)}" using u(7) c'(1) by (simp add: t'_def)
      moreover have "\<not> has p' HAMMER2_CHAIN_INITIAL" using u(5) by (simp add: marked_def)
      ultimately have E: "level_ok (CNode p' (Some pb') (xs @ t' # ys)) count" "length (view (CNode p' (Some pb') (xs @ t' # ys))) = length (view (CNode p (Some pb) (xs @ t # ys)))"
        using entered_level[OF lv(1), of t' p' pb'] u(6,8) sc evolves_fields(6,7)[OF u(4)] by (simp_all add: t'_def same_core_def)
      have "node_ok env tid t'" unfolding t'_def
      proof (rule node_ok_chain[OF n(1) sc])
        show "tid_ok tid (ch_bref c')" unfolding c'(1) by (rule c2(5))
        show "check_valid env (with_chain (\<lambda>_. c') t)" by (rule check_valid_flags[OF c2(6) c'(1,2)])
      qed (use u(11) c2(3) in simp)
      then have "flushed env tid t'" unfolding t'_def using flushed_chain n(2) by blast
      moreover have "synced (set (elems pb')) t'" using u(7-9,11) c2(3) c'(1) by (simp add: synced_def t'_def)
      moreover have "e \<in> set (elems pb') \<longleftrightarrow> e \<in> set (elems pb)" if "br_key e \<noteq> br_key (cn_bref t)" for e
        using u(7) that sr2(1) by (auto simp: same_range_def)
      ultimately show ?thesis using u(4,5) E lv(2) id2 c'(1) by (simp add: entered_at_def t'_def)
    qed
    ultimately show ?thesis using u(3) c2(7) c'(1) by (intro exI[of _ info'] exI[of _ p'] exI[of _ pb'] exI[of _ True] exI[of _ t']) (simp add: t'_def)
  qed
qed

section \<open>The recursion\<close>

lemma same_id_refl: "same_id a a"
  by (simp add: same_id_def same_range_def)

lemma same_id_trans: "same_id a b \<Longrightarrow> same_id b c \<Longrightarrow> same_id a c"
  by (auto simp: same_id_def same_range_def)

lemma similar_refl: "similar env t t"
proof (induction t)
  case (CNode c base ks)
  then have "list_all2 (similar env) ks ks" by (simp add: list_all2_same)
  then show ?case by (intro similarI) (simp_all add: same_id_refl)
qed

text \<open>The left tree may be replaced by one with the same chain, the same chains below and the same table.\<close>

lemma similar_left:
  assumes "similar env t1 t'" "cn_bref t = cn_bref t1" "cn_kids t = cn_kids t1" "br_type (cn_bref t) \<in> table_types \<Longrightarrow> table_of env t = table_of env t1"
  shows "similar env t t'"
  using assms(1)
proof cases
  case similarI
  then show ?thesis using assms(2-4) by (intro similar.similarI) (simp_all del: insert_iff)
qed

lemma similar_right:
  assumes "similar env t m" "same_id (cn_bref m) (cn_bref t')" "cn_kids t' = cn_kids m" "br_type (cn_bref m) \<in> table_types \<Longrightarrow> table_of env t' = table_of env m"
  shows "similar env t t'"
  using assms(1)
proof cases
  case similarI
  have "br_type (cn_bref t) = br_type (cn_bref m)" using similarI(1) by (simp add: same_id_def)
  then show ?thesis using similarI(2,3) same_id_trans[OF similarI(1) assms(2)] assms(3,4) by (intro similar.similarI) (simp_all del: insert_iff)
qed

lemma flushableD:
  assumes "flushable env tid t"
  shows "node_ok env tid t" "\<And>k. k \<in> set (cn_kids t) \<Longrightarrow> kid_ok (set (base_elems t)) k" "\<And>k. k \<in> set (cn_kids t) \<Longrightarrow> flushable env tid k"
    "\<And>k. k \<in> set (cn_kids t) \<Longrightarrow> has (cn_chain k) HAMMER2_CHAIN_FLUSH_MASK \<Longrightarrow> has (cn_chain t) HAMMER2_CHAIN_ONFLUSH"
    "\<And>k. k \<in> set (cn_kids t) \<Longrightarrow> boundary_ok tid k"
  using assms by (cases t, simp)+

lemma flushedD:
  assumes "flushed env tid t"
  shows "node_ok env tid t" "\<forall>k\<in>set (cn_kids t). synced (set (base_elems t)) k \<and> flushed env tid k"
  using assms by (cases t, simp)+

lemma flushedI: "node_ok env tid t \<Longrightarrow> \<forall>k\<in>set (cn_kids t). synced (set (base_elems t)) k \<and> flushed env tid k \<Longrightarrow> flushed env tid t"
  by (cases t) simp

text \<open>A chain below is locked, which reads its block table when it is not in memory.\<close>

lemma lock_child:
  assumes dev: "devices_ok env" and f: "flushable env tid k" and k: "kid_ok es k"
  shows "\<exists>b. hammer2_chain_lock (fe_chain env) (fe_load env) k RESOLVE_MAYBE = Ok (CNode (cn_chain k) b (cn_kids k)) \<and> flushable env tid (CNode (cn_chain k) b (cn_kids k)) \<and>
    (br_type (cn_bref k) \<in> table_types \<longrightarrow> table_of env (CNode (cn_chain k) b (cn_kids k)) = table_of env k)"
proof (cases "cn_base k \<noteq> None \<or> has (cn_chain k) HAMMER2_CHAIN_INITIAL \<or> br_type (cn_bref k) = HAMMER2_BREF_TYPE_DATA")
  case True
  then have "hammer2_chain_lock (fe_chain env) (fe_load env) k RESOLVE_MAYBE = Ok k" by (auto simp: hammer2_chain_lock_def)
  then show ?thesis using f by (intro exI[of _ "cn_base k"]) simp
next
  case False
  note N = node_okD[OF flushableD(1)[OF f]]
  have kids: "cn_kids k = []" using N(4) False by auto
  define b where "b = (case table_count (cn_chain k) of Ok _ \<Rightarrow> Some (fe_load env (cn_bref k)) | _ \<Rightarrow> None)"
  have l: "hammer2_chain_lock (fe_chain env) (fe_load env) k RESOLVE_MAYBE = Ok (CNode (cn_chain k) b (cn_kids k))"
    using False k dev by (simp add: hammer2_chain_lock_def b_def Let_def devices_ok_def kid_ok_def) auto
  have tb: "table_of env (CNode (cn_chain k) b (cn_kids k)) = table_of env k" using False by (simp add: table_of_def b_def split: outcome.splits)
  have "check_valid env (CNode (cn_chain k) b (cn_kids k)) = check_valid env k" using tb by (simp add: check_valid_def)
  moreover have "br_type (cn_bref k) \<in> table_types \<Longrightarrow> b \<noteq> None" by (auto simp: b_def table_count_def)
  ultimately have "node_ok env tid (CNode (cn_chain k) b (cn_kids k))" using N kids unfolding node_ok_def by simp
  then show ?thesis using l tb kids by (intro exI[of _ b]) simp
qed

definition flush_spec :: "flush_env \<Rightarrow> u64 option \<Rightarrow> nat \<Rightarrow> (hammer2_flush_info \<Rightarrow> ctree option \<Rightarrow> ctree \<Rightarrow> flush_result) \<Rightarrow> bool" where
  "flush_spec env tid n core \<longleftrightarrow> (\<forall>info t p pb xs ys count. flushable env tid t \<and> levels n t \<and> fl_diddeferral info = 0 \<and> kid_ok (set (elems pb)) t \<and>
     level_ok (CNode p (Some pb) (xs @ t # ys)) count \<and> length (view (CNode p (Some pb) (xs @ t # ys))) \<le> count \<longrightarrow>
     (\<exists>info' p' pb' up t'. core info (Some (CNode p (Some pb) [])) t = Ok (info', Some (CNode p' (Some pb') []), up, t') \<and> fl_diddeferral info' = 0 \<and>
        entered_at env tid p pb xs t ys count p' pb' t' \<and> similar env t t'))"

lemma flush_kids_ok:
  assumes dev: "devices_ok env" and tid: "fe_tid env = (\<lambda>_. tid)" and spec: "flush_spec env tid n core"
  shows "\<forall>k\<in>set ks. flushable env tid k \<and> boundary_ok tid k \<and> levels n k \<and> kid_ok (set (elems pb)) k \<Longrightarrow> \<forall>x\<in>set xs. synced (set (elems pb)) x \<Longrightarrow>
    level_ok (CNode p (Some pb) (xs @ ks)) count \<Longrightarrow> length (view (CNode p (Some pb) (xs @ ks))) \<le> count \<Longrightarrow> fl_diddeferral info = 0 \<Longrightarrow>
    \<exists>info' p' pb' up' ks'. flush_kids env core info (CNode p (Some pb) []) up ks = Ok (info', CNode p' (Some pb') [], up', ks') \<and>
      fl_diddeferral info' = 0 \<and> evolves p p' \<and> (pb' = pb \<or> marked p') \<and>
      level_ok (CNode p' (Some pb') (xs @ ks')) count \<and> length (view (CNode p' (Some pb') (xs @ ks'))) \<le> count \<and>
      list_all2 (similar env) ks ks' \<and> (\<forall>k\<in>set ks'. synced (set (elems pb')) k \<and> flushed env tid k) \<and> (\<forall>x\<in>set xs. synced (set (elems pb')) x) \<and>
      (\<forall>e. (\<forall>k\<in>set ks. br_key (cn_bref k) \<noteq> br_key e) \<longrightarrow> (e \<in> set (elems pb') \<longleftrightarrow> e \<in> set (elems pb)))"
proof (induction ks arbitrary: xs p pb info up)
  case Nil
  then show ?case using evolves_refl by simp
next
  case (Cons k ks)
  have k: "flushable env tid k" "levels n k" "kid_ok (set (elems pb)) k" using Cons.prems(1) by simp_all
  from lock_child[OF dev k(1,3)] obtain b where
    l: "hammer2_chain_lock (fe_chain env) (fe_load env) k RESOLVE_MAYBE = Ok (CNode (cn_chain k) b (cn_kids k))" "flushable env tid (CNode (cn_chain k) b (cn_kids k))"
      "br_type (cn_bref k) \<in> table_types \<longrightarrow> table_of env (CNode (cn_chain k) b (cn_kids k)) = table_of env k" by blast
  define k1 where "k1 = CNode (cn_chain k) b (cn_kids k)"
  have k1: "cn_chain k1 = cn_chain k" "cn_kids k1 = cn_kids k" "flushable env tid k1" "levels n k1" "kid_ok (set (elems pb)) k1"
    using l(2) k by (simp_all add: k1_def kid_ok_def) (cases n; simp)
  have sr: "same_range (cn_bref k) (cn_bref k1)" by (simp add: k1 same_range_def)
  note R = replaced_level[OF Cons.prems(3) sr, unfolded k1(1), simplified]
  have kw: "kids_wf (xs @ k # ks)" using level_sorted(3)[OF level_okD(1)[OF Cons.prems(3)]] by simp
  have pfs: "\<not> has (cn_chain k1) HAMMER2_CHAIN_PFSBOUNDARY \<or> fe_tid env (cn_chain k1) = None \<or> \<not> has (cn_chain k1) HAMMER2_CHAIN_FLUSH_MASK"
    using Cons.prems(1) k1(1) tid by (cases tid) (simp_all add: boundary_ok_def)
  have sim: "similar env k1 k' \<Longrightarrow> similar env k k'" for k'
    by (rule similar_left[of env k1 k' k]) (use k1(1,2) l(3)[folded k1_def] in simp_all)
  have "\<exists>info1 p1 pb1 up1 k2. flush_kids env core info (CNode p (Some pb) []) up (k # ks) =
      obind (flush_kids env core info1 (CNode p1 (Some pb1) []) up1 ks) (\<lambda>(info'', p'', up'', kids'). Ok (info'', p'', up'', k2 # kids')) \<and>
      fl_diddeferral info1 = 0 \<and> entered_at env tid p pb xs k ks count p1 pb1 k2 \<and> similar env k k2"
  proof (cases "has (cn_chain k1) HAMMER2_CHAIN_FLUSH_MASK")
    case True
    have "level_ok (CNode p (Some pb) (xs @ k1 # ks)) count \<and> length (view (CNode p (Some pb) (xs @ k1 # ks))) \<le> count" using R Cons.prems(4) by simp
    then obtain info1 p1 pb1 up1 k2 where c: "core info (Some (CNode p (Some pb) [])) k1 = Ok (info1, Some (CNode p1 (Some pb1) []), up1, k2)" "fl_diddeferral info1 = 0"
      "entered_at env tid p pb xs k1 ks count p1 pb1 k2" "similar env k1 k2"
      using spec[unfolded flush_spec_def, rule_format, of k1 info pb p xs ks count] k1(3-5) Cons.prems(5) by blast
    have "entered_at env tid p pb xs k ks count p1 pb1 k2" using c(3) unfolding entered_at_def k1(1) .
    then show ?thesis using c(1,2) sim[OF c(4)] l(1)[folded k1_def] pfs True
      by (intro exI[of _ info1] exI[of _ p1] exI[of _ pb1] exI[of _ "up \<or> up1"] exI[of _ k2]) simp
  next
    case False
    then have cl: "\<not> has (cn_chain k1) HAMMER2_CHAIN_MODIFIED" "\<not> has (cn_chain k1) HAMMER2_CHAIN_UPDATE" "\<not> has (cn_chain k1) HAMMER2_CHAIN_ONFLUSH" by (simp_all add: flush_mask)
    then have "synced (set (elems pb)) k1" using k1(5) by (simp add: synced_def kid_ok_def)
    moreover have "flushed env tid k1" by (rule clean_flushed[OF k1(3) cl(3)])
    ultimately have "entered_at env tid p pb xs k ks count p pb k1" using R Cons.prems(4) evolves_refl k1(1) same_id_refl by (simp add: entered_at_def)
    then show ?thesis using False sim[OF similar_refl] l(1)[folded k1_def] Cons.prems(5)
      by (intro exI[of _ info] exI[of _ p] exI[of _ pb] exI[of _ up] exI[of _ k1]) simp
  qed
  then obtain info1 p1 pb1 up1 k2 where s: "flush_kids env core info (CNode p (Some pb) []) up (k # ks) =
      obind (flush_kids env core info1 (CNode p1 (Some pb1) []) up1 ks) (\<lambda>(info'', p'', up'', kids'). Ok (info'', p'', up'', k2 # kids'))"
    "fl_diddeferral info1 = 0" "entered_at env tid p pb xs k ks count p1 pb1 k2" "similar env k k2" by (elim exE conjE) (rule that)
  note E = s(3)[unfolded entered_at_def]
  have other: "e \<in> set (elems pb1) \<longleftrightarrow> e \<in> set (elems pb)" if "br_key e \<noteq> br_key (cn_bref k)" for e using E that by blast
  have ks: "\<forall>x\<in>set ks. flushable env tid x \<and> boundary_ok tid x \<and> levels n x \<and> kid_ok (set (elems pb1)) x"
  proof
    fix x assume x: "x \<in> set ks"
    have "br_key (cn_bref x) \<noteq> br_key (cn_bref k)" using kids_keys[OF kw] x by blast
    then have "e \<in> set (elems pb) \<Longrightarrow> br_key e = br_key (cn_bref x) \<Longrightarrow> e \<in> set (elems pb1)" for e using other[of e] by metis
    moreover have "kid_ok (set (elems pb)) x" using Cons.prems(1) x by simp
    ultimately have "kid_ok (set (elems pb1)) x" by (metis kid_ok_other)
    then show "flushable env tid x \<and> boundary_ok tid x \<and> levels n x \<and> kid_ok (set (elems pb1)) x" using Cons.prems(1) x by simp
  qed
  have xs: "\<forall>x\<in>set (xs @ [k2]). synced (set (elems pb1)) x"
  proof
    fix x assume x: "x \<in> set (xs @ [k2])"
    show "synced (set (elems pb1)) x"
    proof (cases "x \<in> set xs")
      case True
      then have "br_key (cn_bref x) \<noteq> br_key (cn_bref k)" using kids_keys[OF kw] by blast
      then have "e \<in> set (elems pb) \<Longrightarrow> br_key e = br_key (cn_bref x) \<Longrightarrow> e \<in> set (elems pb1)" for e using other[of e] by metis
      moreover have "synced (set (elems pb)) x" using Cons.prems(2) True by simp
      ultimately show ?thesis by (metis synced_other)
    next
      case False
      then show ?thesis using x E by auto
    qed
  qed
  have lv: "level_ok (CNode p1 (Some pb1) ((xs @ [k2]) @ ks)) count" "length (view (CNode p1 (Some pb1) ((xs @ [k2]) @ ks))) \<le> count" using E by simp_all
  from Cons.IH[OF ks xs lv s(2), of up1] obtain info' p' pb' up' ks' where
    I: "flush_kids env core info1 (CNode p1 (Some pb1) []) up1 ks = Ok (info', CNode p' (Some pb') [], up', ks')" "fl_diddeferral info' = 0" "evolves p1 p'" "pb' = pb1 \<or> marked p'"
      "level_ok (CNode p' (Some pb') ((xs @ [k2]) @ ks')) count" "length (view (CNode p' (Some pb') ((xs @ [k2]) @ ks'))) \<le> count" "list_all2 (similar env) ks ks'"
      "\<forall>k\<in>set ks'. synced (set (elems pb')) k \<and> flushed env tid k" "\<forall>x\<in>set (xs @ [k2]). synced (set (elems pb')) x"
      "\<forall>e. (\<forall>k\<in>set ks. br_key (cn_bref k) \<noteq> br_key e) \<longrightarrow> (e \<in> set (elems pb') \<longleftrightarrow> e \<in> set (elems pb1))" by (elim exE conjE) (rule that)
  have "evolves p p'" using E I(3) evolves_trans by blast
  moreover have "pb' = pb \<or> marked p'" using E I(3,4) marked_evolves by blast
  moreover have "e \<in> set (elems pb') \<longleftrightarrow> e \<in> set (elems pb)" if "\<forall>x\<in>set (k # ks). br_key (cn_bref x) \<noteq> br_key e" for e
    using I(10)[rule_format, of e] other[of e] that by (metis list.set_intros(1,2))
  moreover have "flushed env tid k2" using E by blast
  ultimately show ?case unfolding s(1) I(1) using I(2,5-9) s(4)
    by (intro exI[of _ info'] exI[of _ p'] exI[of _ pb'] exI[of _ up'] exI[of _ "k2 # ks'"]) simp
qed

lemma evolves_kept: "evolves c c' \<Longrightarrow> m \<in> kept_flags \<Longrightarrow> has c' m = has c m"
  unfolding evolves_def same_place_def by blast

lemma evolves_unmarked: "evolves c c' \<Longrightarrow> \<not> has c' HAMMER2_CHAIN_MODIFIED \<Longrightarrow> unmarked c c'"
  by (auto simp: evolves_def marked_def)

lemma unmarked_evolves_node:
  assumes n: "node_ok env tid (CNode c b ks)" and e: "evolves c c'" and b: "b' = b \<and> \<not> has c' HAMMER2_CHAIN_MODIFIED \<or> b' \<noteq> None"
    and same: "has c' HAMMER2_CHAIN_MODIFIED \<or> b' = b"
    and lv: "ks' \<noteq> [] \<Longrightarrow> \<exists>pb count. b' = Some pb \<and> level_ok (CNode c' b' ks') count \<and> length (view (CNode c' b' ks')) \<le> count"
  shows "node_ok env tid (CNode c' b' ks')"
proof -
  note N = node_okD[OF n, simplified]
  have kept: "has c' HAMMER2_CHAIN_DEFERRED = has c HAMMER2_CHAIN_DEFERRED" "has c' HAMMER2_CHAIN_EMBEDDED = has c HAMMER2_CHAIN_EMBEDDED"
    by (rule evolves_kept[OF e]; simp)+
  have t: "tid_ok tid (ch_bref c')" using N(3) evolves_fields(3)[OF e] by (simp add: tid_ok_def split: option.splits)
  have ty: "br_type (ch_bref c') = br_type (ch_bref c)" by (rule evolves_fields(1)[OF e])
  have i: "\<not> has c' HAMMER2_CHAIN_INITIAL" if "\<not> has c HAMMER2_CHAIN_INITIAL" using e that by (auto simp: evolves_def unmarked_def marked_def)
  have cv: "check_valid env (CNode c' b' ks')" if "\<not> has c' HAMMER2_CHAIN_MODIFIED"
  proof -
    have u: "unmarked c c'" by (rule evolves_unmarked[OF e that])
    then have "check_valid env (CNode c b ks)" using node_okD(7)[OF n] that by (simp add: unmarked_def)
    then have "check_valid env (CNode c' b ks')" by (rule check_valid_flags) (use u evolves_fields(5)[OF e] in \<open>simp_all add: unmarked_def\<close>)
    then show ?thesis using same that by simp
  qed
  have "radix_ok (br_data_off (ch_bref c'))" using N(8) e by (simp add: evolves_def same_place_def)
  then show ?thesis unfolding node_ok_def ctree.sel kept ty using N(1,2,5) t i cv lv b by (simp add: ty) blast
qed

lemma similar_keys: "list_all2 (similar env) ks ks' \<Longrightarrow> map (\<lambda>k. br_key (cn_bref k)) ks' = map (\<lambda>k. br_key (cn_bref k)) ks"
  by (induction rule: list_all2_induct) (auto elim: similar.cases simp: same_id_def same_range_def)

text \<open>A chain marked ONFLUSH: the chains below it are flushed first.\<close>

lemma flush_below:
  assumes dev: "devices_ok env" and tid: "fe_tid env = (\<lambda>_. tid)" and spec: "flush_spec env tid n core"
    and t: "flushable env tid (CNode c b ks)" "levels (Suc n) (CNode c b ks)" and i: "fl_diddeferral info = 0"
  shows "\<exists>info' c' b' up ks'. flush_kids env core info (CNode (clear_flag HAMMER2_CHAIN_ONFLUSH c) b []) False ks = Ok (info', CNode c' b' [], up, ks') \<and>
    fl_diddeferral info' = 0 \<and> evolves c c' \<and> node_ok env tid (CNode c' b' ks') \<and>
    (\<forall>k\<in>set ks'. synced (set (base_elems (CNode c' b' ks'))) k \<and> flushed env tid k) \<and> similar env (CNode c b ks) (CNode c' b' ks') \<and>
    (b' = b \<or> has c' HAMMER2_CHAIN_MODIFIED)"
proof -
  let ?c = "clear_flag HAMMER2_CHAIN_ONFLUSH c"
  note n = flushableD(1)[OF t(1)]
  have e1: "evolves c ?c" by (rule evolves_onflush)
  have m1: "has ?c HAMMER2_CHAIN_MODIFIED = has c HAMMER2_CHAIN_MODIFIED" "ch_bref ?c = ch_bref c" by (simp_all add: flag_simps)
  show ?thesis
  proof (cases "ks = []")
    case True
    have "node_ok env tid (with_chain (\<lambda>_. ?c) (CNode c b ks))"
    proof (rule node_ok_chain[OF n])
      show "same_core (cn_chain (CNode c b ks)) ?c" by (simp add: same_core_def same_id_def same_range_def flag_simps)
      show "tid_ok tid (ch_bref ?c)" using node_okD(3)[OF n] by simp
      show "check_valid env (with_chain (\<lambda>_. ?c) (CNode c b ks))" if "\<not> has ?c HAMMER2_CHAIN_MODIFIED"
        using check_valid_flags[OF node_okD(7)[OF n], of ?c] that m1 by simp
    qed (use m1 in simp)
    moreover have "similar env (CNode c b ks) (CNode ?c b ks)" by (rule similar_right[OF similar_refl]) (simp_all add: same_id_refl table_of_def split: option.split)
    ultimately show ?thesis using True e1 i by (intro exI[of _ info] exI[of _ ?c] exI[of _ b] exI[of _ False] exI[of _ "[]"]) simp
  next
    case False
    then obtain pb count where lv: "b = Some pb" "level_ok (CNode c b ks) count" "length (view (CNode c b ks)) \<le> count" using node_okD(4)[OF n] by auto
    have tc: "table_count ?c = table_count c" by (rule evolves_fields(7)[OF e1])
    have lv1: "level_ok (CNode ?c (Some pb) ([] @ ks)) count" "length (view (CNode ?c (Some pb) ([] @ ks))) \<le> count"
      using level_chain[OF lv(2), of ?c] lv tc by (simp_all add: flag_simps)
    have be: "base_elems (CNode c b ks) = elems pb" using lv(1) by (simp add: base_elems_def)
    have kids: "\<forall>k\<in>set ks. flushable env tid k \<and> boundary_ok tid k \<and> levels n k \<and> kid_ok (set (elems pb)) k" using flushableD(2,3,5)[OF t(1)] t(2) be by simp
    from flush_kids_ok[OF dev tid spec kids _ lv1 i, of False] obtain info' c' pb' up ks' where
      k: "flush_kids env core info (CNode ?c (Some pb) []) False ks = Ok (info', CNode c' (Some pb') [], up, ks')" "fl_diddeferral info' = 0" "evolves ?c c'"
        "pb' = pb \<or> marked c'" "level_ok (CNode c' (Some pb') ks') count" "length (view (CNode c' (Some pb') ks')) \<le> count" "list_all2 (similar env) ks ks'"
        "\<forall>k\<in>set ks'. synced (set (elems pb')) k \<and> flushed env tid k"
        "\<forall>e. (\<forall>k\<in>set ks. br_key (cn_bref k) \<noteq> br_key e) \<longrightarrow> (e \<in> set (elems pb') \<longleftrightarrow> e \<in> set (elems pb))" by simp (elim exE conjE, rule that)
    have e: "evolves c c'" by (rule evolves_trans[OF e1 k(3)])
    have "node_ok env tid (CNode c' (Some pb') ks')"
    proof (rule unmarked_evolves_node[OF n e])
      show "has c' HAMMER2_CHAIN_MODIFIED \<or> Some pb' = b" using k(4) lv(1) by (auto simp: marked_def)
    qed (use k(5,6) in auto)
    moreover have "similar env (CNode c b ks) (CNode c' (Some pb') ks')"
    proof (rule similarI)
      have "br_type (ch_bref c) \<noteq> HAMMER2_BREF_TYPE_DATA" using level_okD(4)[OF lv(2)] by (auto simp: table_count_def split: if_splits)
      then show "same_id (cn_bref (CNode c b ks)) (cn_bref (CNode c' (Some pb') ks'))" using evolves_fields(1,2)[OF e] by (simp add: same_id_def)
      have key: "(\<lambda>k. br_key (cn_bref k)) ` set ks' = (\<lambda>k. br_key (cn_bref k)) ` set ks" using arg_cong[OF similar_keys[OF k(7)], of set] by simp
      have "(\<forall>k\<in>set ks'. br_key (cn_bref k) \<noteq> x) \<longleftrightarrow> (\<forall>k\<in>set ks. br_key (cn_bref k) \<noteq> x)" for x using key by (metis (no_types, lifting) imageE imageI)
      then show "unshadowed (elems (table_of env (CNode c b ks))) (cn_kids (CNode c b ks)) = unshadowed (elems (table_of env (CNode c' (Some pb') ks'))) (cn_kids (CNode c' (Some pb') ks'))"
        using k(9) lv(1) by (auto simp: unshadowed_def table_of_def)
    qed (use k(7) in simp)
    moreover have "Some pb' = b \<or> has c' HAMMER2_CHAIN_MODIFIED" using k(4) lv(1) by (auto simp: marked_def)
    ultimately show ?thesis using k(1,2,8) e lv(1) by (intro exI[of _ info'] exI[of _ c'] exI[of _ "Some pb'"] exI[of _ up] exI[of _ ks']) (simp add: base_elems_def)
  qed
qed

text \<open>The part of the visit of a chain before it is written itself, in both cases of ONFLUSH.\<close>

definition flush_prepared :: "flush_env \<Rightarrow> u64 option \<Rightarrow> ctree \<Rightarrow> ctree \<Rightarrow> bool" where
  "flush_prepared env tid t m \<longleftrightarrow> evolves (cn_chain t) (cn_chain m) \<and> node_ok env tid m \<and>
     (\<forall>k\<in>set (cn_kids m). synced (set (base_elems m)) k \<and> flushed env tid k) \<and> similar env t m \<and>
     (cn_base m = cn_base t \<or> has (cn_chain m) HAMMER2_CHAIN_MODIFIED)"

lemma flush_visit_step:
  assumes dev: "devices_ok env" and tid: "fe_tid env = (\<lambda>_. tid)" and spec: "flush_spec env tid n core"
    and t: "flushable env tid t" "levels (Suc n) t" and i: "fl_diddeferral info = 0" and m: "has (cn_chain t) HAMMER2_CHAIN_FLUSH_MASK"
  shows "\<exists>info1 up1 m. fl_diddeferral info1 = 0 \<and> flush_prepared env tid t m \<and> flush_visit RB_TREE env (Some core) info parent t =
    obind (flush_up env info1 (fst (setflush_up up1 parent)) m) (\<lambda>(info2, parent2, up3, t2). Ok (info2, parent2, snd (setflush_up up1 parent) \<or> up3, t2))"
proof -
  note n = flushableD(1)[OF t(1)]
  have ok: "case fe_tid env (cn_chain t) of None \<Rightarrow> True | Some x \<Rightarrow> br_mirror_tid (cn_bref t) \<le> x" using node_okD(3)[OF n] by (simp add: tid tid_ok_def)
  note D = flush_visit_def[of RB_TREE env "Some core" info parent t]
  show ?thesis
  proof (cases "has (cn_chain t) HAMMER2_CHAIN_ONFLUSH")
    case False
    have "flush_prepared env tid t t" using flushedD[OF clean_flushed[OF t(1) False]] evolves_refl similar_refl by (simp add: flush_prepared_def)
    moreover have "flush_visit RB_TREE env (Some core) info parent t =
      obind (flush_up env info (fst (setflush_up False parent)) t) (\<lambda>(info2, parent2, up3, t2). Ok (info2, parent2, snd (setflush_up False parent) \<or> up3, t2))"
      unfolding D Let_def using m ok node_okD(1)[OF n] False i by (simp add: kkassert_def split_beta)
    ultimately show ?thesis using i by blast
  next
    case True
    obtain c b ks where tt: "t = CNode c b ks" by (cases t)
    from flush_below[OF dev tid spec t[unfolded tt] i] obtain info' c' b' up ks' where
      k: "flush_kids env core info (CNode (clear_flag HAMMER2_CHAIN_ONFLUSH c) b []) False ks = Ok (info', CNode c' b' [], up, ks')" "fl_diddeferral info' = 0"
        "flush_prepared env tid t (CNode c' b' ks')" unfolding flush_prepared_def tt ctree.sel by blast
    have "flush_visit RB_TREE env (Some core) info parent t =
      obind (flush_up env info' (fst (setflush_up up parent)) (CNode c' b' ks')) (\<lambda>(info2, parent2, up3, t2). Ok (info2, parent2, snd (setflush_up up parent) \<or> up3, t2))"
      unfolding D Let_def using m ok node_okD(1)[OF n] True k(1,2) by (simp add: kkassert_def split_beta tt)
    then show ?thesis using k(2,3) by blast
  qed
qed

lemma prepared_similar:
  assumes p: "flush_prepared env tid t m" and k: "cn_kids t' = cn_kids m" "cn_base t' = cn_base m" "same_id (cn_bref m) (cn_bref t')"
    and b: "has (cn_chain m) HAMMER2_CHAIN_MODIFIED \<or> cn_bref t' = cn_bref m"
  shows "similar env t t'"
proof -
  have "similar env t m" "node_ok env tid m" using p by (simp_all add: flush_prepared_def)
  moreover have "table_of env t' = table_of env m" if "br_type (cn_bref m) \<in> table_types"
    using node_okD(6)[OF calculation(2) that] b k(2) by (auto simp: table_of_def split: option.split)
  ultimately show ?thesis using similar_right k(1,3) by blast
qed

lemma setflush_level:
  assumes "level_ok (CNode p (Some pb) ks) count" "length (view (CNode p (Some pb) ks)) \<le> count"
  shows "\<exists>p1 up1. setflush_up up (Some (CNode p (Some pb) [])) = (Some (CNode p1 (Some pb) []), up1) \<and> evolves p p1 \<and>
    level_ok (CNode p1 (Some pb) ks) count \<and> length (view (CNode p1 (Some pb) ks)) \<le> count"
proof (cases "up \<and> \<not> has p HAMMER2_CHAIN_ONFLUSH")
  case True
  let ?p = "set_flag HAMMER2_CHAIN_ONFLUSH p"
  have "table_count ?p = table_count p" by (rule evolves_fields(7)[OF evolves_onflush(1)])
  then show ?thesis using True assms level_chain[OF assms(1), of ?p] evolves_onflush(1)[of p]
    by (intro exI[of _ ?p] exI[of _ True]) (simp add: flag_simps)
next
  case False
  then show ?thesis using assms evolves_refl by (intro exI[of _ p] exI[of _ False]) (cases up; simp)
qed

lemma flush_visit_ok:
  assumes dev: "devices_ok env" and tid: "fe_tid env = (\<lambda>_. tid)" and h: "\<And>k d. length (fe_hmac env k d) = 32" and spec: "flush_spec env tid n core"
  shows "flush_spec env tid (Suc n) (flush_visit RB_TREE env (Some core))"
  unfolding flush_spec_def
proof (intro allI impI, elim conjE)
  fix info :: hammer2_flush_info and t p pb xs ys count
  assume t: "flushable env tid t" "levels (Suc n) t" and i: "fl_diddeferral info = 0" and k: "kid_ok (set (elems pb)) t"
    and lv: "level_ok (CNode p (Some pb) (xs @ t # ys)) count" "length (view (CNode p (Some pb) (xs @ t # ys))) \<le> count"
  show "\<exists>info' p' pb' up t'. flush_visit RB_TREE env (Some core) info (Some (CNode p (Some pb) [])) t = Ok (info', Some (CNode p' (Some pb') []), up, t') \<and>
    fl_diddeferral info' = 0 \<and> entered_at env tid p pb xs t ys count p' pb' t' \<and> similar env t t'"
  proof (cases "has (cn_chain t) HAMMER2_CHAIN_FLUSH_MASK")
    case False
    then have cl: "\<not> has (cn_chain t) HAMMER2_CHAIN_MODIFIED" "\<not> has (cn_chain t) HAMMER2_CHAIN_UPDATE" "\<not> has (cn_chain t) HAMMER2_CHAIN_ONFLUSH" by (simp_all add: flush_mask)
    then have "synced (set (elems pb)) t" using k by (simp add: synced_def kid_ok_def)
    then have "entered_at env tid p pb xs t ys count p pb t" using clean_flushed[OF t(1) cl(3)] lv evolves_refl same_id_refl by (simp add: entered_at_def)
    then show ?thesis using False i similar_refl
      by (intro exI[of _ info] exI[of _ p] exI[of _ pb] exI[of _ False] exI[of _ t]) (simp add: flush_visit_def Let_def)
  next
    case True
    from flush_visit_step[OF dev tid spec t i True, of "Some (CNode p (Some pb) [])"] obtain info1 up1 m where v: "fl_diddeferral info1 = 0" "flush_prepared env tid t m"
      "flush_visit RB_TREE env (Some core) info (Some (CNode p (Some pb) [])) t = obind (flush_up env info1 (fst (setflush_up up1 (Some (CNode p (Some pb) [])))) m)
        (\<lambda>(info2, parent2, up3, t2). Ok (info2, parent2, snd (setflush_up up1 (Some (CNode p (Some pb) []))) \<or> up3, t2))" by (elim exE conjE) (rule that)
    note M = v(2)[unfolded flush_prepared_def]
    have e: "evolves (cn_chain t) (cn_chain m)" using M by blast
    have sr: "same_range (cn_bref t) (cn_bref m)" by (rule evolves_fields(2)[OF e])
    have "\<forall>m'\<in>{HAMMER2_CHAIN_DELETED, HAMMER2_CHAIN_ONRBTREE, HAMMER2_CHAIN_BMAPPED}. has (cn_chain m) m' = has (cn_chain t) m'"
      using evolves_kept[OF e] by blast
    note R = replaced_level[OF lv(1) sr this]
    from setflush_level[OF R(1), of up1] R(2) lv(2) obtain p1 up2 where
      s: "setflush_up up1 (Some (CNode p (Some pb) [])) = (Some (CNode p1 (Some pb) []), up2)" "evolves p p1"
        "level_ok (CNode p1 (Some pb) (xs @ m # ys)) count" "length (view (CNode p1 (Some pb) (xs @ m # ys))) \<le> count" by auto
    have n: "node_ok env tid m" "\<forall>k\<in>set (cn_kids m). synced (set (base_elems m)) k \<and> flushed env tid k" using M by blast+
    from flush_up_ok[OF dev tid h n s(3,4) evolves_kid_ok[OF k e], of info1] obtain info' p' pb' up t' where
      u: "flush_up env info1 (Some (CNode p1 (Some pb) [])) m = Ok (info', Some (CNode p' (Some pb') []), up, t')" "fl_diddeferral info' = fl_diddeferral info1"
        "entered_at env tid p1 pb xs m ys count p' pb' t'" "cn_kids t' = cn_kids m" "cn_base t' = cn_base m"
        "has (cn_chain m) HAMMER2_CHAIN_MODIFIED \<or> cn_bref t' = cn_bref m" by (elim exE conjE) (rule that)
    have key: "br_key (cn_bref m) = br_key (cn_bref t)" using sr by (simp add: same_range_def)
    have id: "same_id (cn_bref m) (cn_bref t')" using u(3) by (simp add: entered_at_def)
    have sim: "similar env t t'" by (rule prepared_similar[OF v(2) u(4,5) id u(6)])
    then have "same_id (cn_bref t) (cn_bref t')" by cases
    then have "entered_at env tid p pb xs t ys count p' pb' t'" using u(3) evolves_trans[OF s(2)] unfolding entered_at_def key by blast
    then show ?thesis using v(1) u(1,2) sim unfolding v(3) s(1)
      by (intro exI[of _ info'] exI[of _ p'] exI[of _ pb'] exI[of _ "up2 \<or> up"] exI[of _ t']) simp
  qed
qed

lemma flush_core_ok:
  assumes "devices_ok env" "fe_tid env = (\<lambda>_. tid)" "\<And>k d. length (fe_hmac env k d) = 32"
  shows "flush_spec env tid n (hammer2_flush_core RB_TREE env n)"
proof (induction n)
  case 0
  show ?case by (simp add: flush_spec_def)
next
  case (Suc n)
  show ?case unfolding hammer2_flush_core.simps by (rule flush_visit_ok[OF assms Suc.IH])
qed

end
