(* ===== verification/H2_Durable.thy ===== *)
theory H2_Durable
  imports H2_Writeback
begin

unbundle bit_operations_syntax

text \<open>
  What a flush of the whole volume achieves: it ends, every chain is clean, and the tree that is
  read back from the media has the blocks that were in memory.
\<close>

section \<open>The flush from the volume header\<close>

lemma volume_modified_ok:
  assumes n: "node_ok env tid t" and tid: "fe_tid env = (\<lambda>_. tid)" and ty: "br_type (cn_bref t) = HAMMER2_BREF_TYPE_VOLUME"
    and m: "has (cn_chain t) HAMMER2_CHAIN_MODIFIED"
  shows "\<exists>c'. flush_modified env t = Ok (with_chain (\<lambda>_. c') t) \<and> same_core (cn_chain t) c' \<and> tid_ok tid (ch_bref c') \<and>
    \<not> has c' HAMMER2_CHAIN_MODIFIED \<and> has c' HAMMER2_CHAIN_VOLUMESYNC"
proof -
  let ?c = "cn_chain t"
  define c3 where "c3 = (case tid of None \<Rightarrow> clear_flag HAMMER2_CHAIN_MODIFIED ?c
    | Some x \<Rightarrow> (clear_flag HAMMER2_CHAIN_MODIFIED ?c)\<lparr>ch_bref := (ch_bref (clear_flag HAMMER2_CHAIN_MODIFIED ?c))\<lparr>br_mirror_tid := x\<rparr>\<rparr>)"
  have h3: "has c3 f = has (clear_flag HAMMER2_CHAIN_MODIFIED ?c) f" for f by (simp add: c3_def has_def split: option.split)
  have b: "cn_base t \<noteq> None" using node_okD(6)[OF n _ m] ty by simp
  have "flush_modified env t = Ok (with_chain (\<lambda>_. set_flag HAMMER2_CHAIN_VOLUMESYNC c3) t)"
    unfolding flush_modified_def Let_def tid using ty b by (simp add: kkassert_def c3_def)
  moreover have "same_core ?c (set_flag HAMMER2_CHAIN_VOLUMESYNC c3)"
    by (simp add: same_core_def same_id_def same_range_def table_count_def h3 flag_simps) (simp add: c3_def split: option.split)
  moreover have "tid_ok tid (ch_bref (set_flag HAMMER2_CHAIN_VOLUMESYNC c3))" by (simp add: c3_def tid_ok_def split: option.split)
  ultimately show ?thesis by (intro exI[of _ "set_flag HAMMER2_CHAIN_VOLUMESYNC c3"]) (simp add: h3 flag_simps)
qed

text \<open>What the flush of the volume promises.\<close>

definition volume_flushed :: "flush_env \<Rightarrow> u64 option \<Rightarrow> ctree \<Rightarrow> ctree \<Rightarrow> bool" where
  "volume_flushed env tid t t' \<longleftrightarrow> flushed env tid t' \<and> \<not> has (cn_chain t') HAMMER2_CHAIN_MODIFIED \<and> similar env t t' \<and>
     (cn_base t' = cn_base t \<or> has (cn_chain t') HAMMER2_CHAIN_VOLUMESYNC) \<and> (cn_base t \<noteq> None \<longrightarrow> cn_base t' \<noteq> None)"

lemma volume_check: "br_type (ch_bref c) = HAMMER2_BREF_TYPE_VOLUME \<Longrightarrow> check_valid env (CNode c b ks)"
  by (simp add: check_valid_def)

lemma flush_volume_ok:
  assumes tid: "fe_tid env = (\<lambda>_. tid)" and p: "flush_prepared env tid t m" and ty: "br_type (cn_bref t) = HAMMER2_BREF_TYPE_VOLUME"
  shows "\<exists>t'. flush_up env info None m = Ok (info, None, False, t') \<and> volume_flushed env tid t t'"
proof -
  note M = p[unfolded flush_prepared_def]
  have n: "node_ok env tid m" "\<forall>k\<in>set (cn_kids m). synced (set (base_elems m)) k \<and> flushed env tid k" using M by blast+
  have tm: "br_type (cn_bref m) = HAMMER2_BREF_TYPE_VOLUME" using M evolves_fields(1) ty by metis
  have "\<exists>c2. (if has (cn_chain m) HAMMER2_CHAIN_MODIFIED then flush_modified env m else Ok m) = Ok (with_chain (\<lambda>_. c2) m) \<and> same_core (cn_chain m) c2 \<and>
    tid_ok tid (ch_bref c2) \<and> \<not> has c2 HAMMER2_CHAIN_MODIFIED \<and> (has (cn_chain m) HAMMER2_CHAIN_MODIFIED \<and> has c2 HAMMER2_CHAIN_VOLUMESYNC \<or> c2 = cn_chain m)"
  proof (cases "has (cn_chain m) HAMMER2_CHAIN_MODIFIED")
    case True
    then show ?thesis using volume_modified_ok[OF n(1) tid tm] by auto
  next
    case False
    then show ?thesis using node_okD(3)[OF n(1)] by (intro exI[of _ "cn_chain m"]) (simp add: same_core_def same_id_refl)
  qed
  then obtain c2 where c2: "(if has (cn_chain m) HAMMER2_CHAIN_MODIFIED then flush_modified env m else Ok m) = Ok (with_chain (\<lambda>_. c2) m)" "same_core (cn_chain m) c2"
    "tid_ok tid (ch_bref c2)" "\<not> has c2 HAMMER2_CHAIN_MODIFIED" "has (cn_chain m) HAMMER2_CHAIN_MODIFIED \<and> has c2 HAMMER2_CHAIN_VOLUMESYNC \<or> c2 = cn_chain m"
    by (elim exE conjE) (rule that)
  define c' where "c' = (if has c2 HAMMER2_CHAIN_UPDATE then clear_flag HAMMER2_CHAIN_UPDATE c2 else c2)"
  have "table_count c' = table_count c2" by (simp add: c'_def table_count_def)
  then have c': "same_core (cn_chain m) c'" "ch_bref c' = ch_bref c2" "\<not> has c' HAMMER2_CHAIN_MODIFIED" "has c' HAMMER2_CHAIN_VOLUMESYNC = has c2 HAMMER2_CHAIN_VOLUMESYNC"
    using c2(2,4) by (simp_all add: c'_def same_core_def flag_simps)
  have "flush_up env info None m = Ok (info, None, False, with_chain (\<lambda>_. c') m)"
    unfolding flush_up_def Let_def option.case if_False c2(1) obind.simps by (simp add: c'_def)
  moreover have "node_ok env tid (with_chain (\<lambda>_. c') m)"
  proof (rule node_ok_chain[OF n(1) c'(1)])
    show "tid_ok tid (ch_bref c')" unfolding c'(2) by (rule c2(3))
    have "br_type (ch_bref c') = HAMMER2_BREF_TYPE_VOLUME" using c'(1) tm by (simp add: same_core_def same_id_def)
    then show "check_valid env (with_chain (\<lambda>_. c') m)" by (rule volume_check)
  qed (use c'(3) in simp)
  then have "flushed env tid (with_chain (\<lambda>_. c') m)" using flushed_chain n(2) by blast
  moreover have "similar env t (with_chain (\<lambda>_. c') m)"
    by (rule prepared_similar[OF p]) (use c'(1,2) c2(5) in \<open>auto simp: same_core_def\<close>)
  moreover have "cn_base m = cn_base t \<or> has (cn_chain m) HAMMER2_CHAIN_MODIFIED" using M by blast
  moreover have "has (cn_chain m) HAMMER2_CHAIN_MODIFIED \<longrightarrow> has c' HAMMER2_CHAIN_VOLUMESYNC" using c2(4,5) c'(4) by auto
  moreover have "has (cn_chain m) HAMMER2_CHAIN_MODIFIED \<longrightarrow> cn_base m \<noteq> None" using node_okD(6)[OF n(1)] tm by simp
  ultimately show ?thesis using c'(3) unfolding volume_flushed_def by (intro exI[of _ "with_chain (\<lambda>_. c') m"]) auto
qed

lemma flush_core_volume:
  assumes dev: "devices_ok env" and tid: "fe_tid env = (\<lambda>_. tid)" and h: "\<And>k d. length (fe_hmac env k d) = 32"
    and t: "flushable env tid t" "levels (Suc n) t" "br_type (cn_bref t) = HAMMER2_BREF_TYPE_VOLUME" and i: "fl_diddeferral info = 0"
  shows "\<exists>info' t'. hammer2_flush_core RB_TREE env (Suc n) info None t = Ok (info', None, False, t') \<and> volume_flushed env tid t t'"
proof (cases "has (cn_chain t) HAMMER2_CHAIN_FLUSH_MASK")
  case False
  then have "\<not> has (cn_chain t) HAMMER2_CHAIN_MODIFIED" "\<not> has (cn_chain t) HAMMER2_CHAIN_ONFLUSH" by (simp_all add: flush_mask)
  then have "volume_flushed env tid t t" using clean_flushed[OF t(1)] similar_refl by (simp add: volume_flushed_def)
  then show ?thesis using False by (intro exI[of _ info] exI[of _ t]) (simp add: flush_visit_def Let_def)
next
  case True
  from flush_visit_step[OF dev tid flush_core_ok[OF dev tid h] t(1,2) i True, of None, folded hammer2_flush_core.simps(2)] obtain info1 up1 m where
    v: "fl_diddeferral info1 = 0" "flush_prepared env tid t m" "hammer2_flush_core RB_TREE env (Suc n) info None t = obind (flush_up env info1 (fst (setflush_up up1 None)) m)
      (\<lambda>(info2, parent2, up3, t2). Ok (info2, parent2, snd (setflush_up up1 None) \<or> up3, t2))" by (elim exE conjE) (rule that)
  from flush_volume_ok[OF tid v(2) t(3), of info1] obtain t' where t': "flush_up env info1 None m = Ok (info1, None, False, t')" "volume_flushed env tid t t'" by blast
  have "setflush_up up1 None = (None, False)" by (cases up1) simp_all
  then show ?thesis unfolding v(3) using t' by (intro exI[of _ info1] exI[of _ t']) simp
qed

section \<open>No chain is left deferred\<close>

lemma flushable_not_deferred: "flushable env tid t \<Longrightarrow> \<not> has_deferred t"
  by (induction t) (auto simp: node_ok_def)

lemma flushed_not_deferred: "flushed env tid t \<Longrightarrow> \<not> has_deferred t"
  by (induction t) (auto simp: node_ok_def)

lemma no_deferred:
  "\<not> has_deferred t \<Longrightarrow> flush_deferred env flush parent t = Ok (parent, False, t)"
  "\<forall>k\<in>set ks. \<not> has_deferred k \<Longrightarrow> flush_deferred_kids env flush p up ks = Ok (p, up, ks)"
  by (induction env flush parent t and env flush p up ks rule: flush_deferred_flush_deferred_kids.induct) auto

text \<open>
  The first visit of the volume header, in both builds: the build of the repository faults when there is something to flush below the header,
  and else does what the repaired build does.
\<close>

lemma flush_core_build:
  assumes "flushable env tid t" "fe_tid env = (\<lambda>_. tid)"
  shows "has (cn_chain t) HAMMER2_CHAIN_ONFLUSH \<Longrightarrow> hammer2_flush_core RB_STUB env (Suc n) info parent t = Fault ''info''"
    "\<not> has (cn_chain t) HAMMER2_CHAIN_ONFLUSH \<Longrightarrow> hammer2_flush_core RB_STUB env (Suc n) info parent t = hammer2_flush_core RB_TREE env (Suc n) info parent t"
proof -
  note n = flushableD(1)[OF assms(1)]
  have ok: "case fe_tid env (cn_chain t) of None \<Rightarrow> True | Some x \<Rightarrow> br_mirror_tid (cn_bref t) \<le> x" using node_okD(3)[OF n] by (simp add: assms(2) tid_ok_def)
  show "hammer2_flush_core RB_STUB env (Suc n) info parent t = Fault ''info''" if "has (cn_chain t) HAMMER2_CHAIN_ONFLUSH"
    unfolding hammer2_flush_core.simps flush_visit_def Let_def using that ok node_okD(1)[OF n] by (simp add: kkassert_def flush_mask)
  show "hammer2_flush_core RB_STUB env (Suc n) info parent t = hammer2_flush_core RB_TREE env (Suc n) info parent t"
    if "\<not> has (cn_chain t) HAMMER2_CHAIN_ONFLUSH"
    using that unfolding hammer2_flush_core.simps flush_visit_def Let_def by simp
qed

lemma flush_volume_loop:
  assumes dev: "devices_ok env" and tid: "fe_tid env = (\<lambda>_. tid)" and h: "\<forall>k d. length (fe_hmac env k d) = 32"
    and t: "flushable env tid t" "levels HAMMER2_FLUSH_DEPTH_LIMIT t" "br_type (cn_bref t) = HAMMER2_BREF_TYPE_VOLUME"
  shows "has (cn_chain t) HAMMER2_CHAIN_ONFLUSH \<Longrightarrow> hammer2_flush (Suc r) RB_STUB env None t = Fault ''info''"
    "build = RB_TREE \<or> \<not> has (cn_chain t) HAMMER2_CHAIN_ONFLUSH \<Longrightarrow>
      \<exists>t'. hammer2_flush (Suc r) build env None t = Ok (None, False, t') \<and> volume_flushed env tid t t'"
proof -
  have ten: "HAMMER2_FLUSH_DEPTH_LIMIT = Suc 9" by simp
  note loop = hammer2_flush_def flush_loop.simps no_deferred(1)[OF flushable_not_deferred[OF t(1)]] obind.simps case_prod_conv
  show "hammer2_flush (Suc r) RB_STUB env None t = Fault ''info''" if "has (cn_chain t) HAMMER2_CHAIN_ONFLUSH"
    unfolding loop ten flush_core_build(1)[OF t(1) tid that] by simp
  from flush_core_volume[OF dev tid _ t(1) _ t(3), of 9 "\<lparr>fl_diddeferral = 0, fl_cache_index = - 1\<rparr>", folded ten] h t(2) obtain info' t' where
    c: "hammer2_flush_core RB_TREE env HAMMER2_FLUSH_DEPTH_LIMIT \<lparr>fl_diddeferral = 0, fl_cache_index = - 1\<rparr> None t = Ok (info', None, False, t')" "volume_flushed env tid t t'" by auto
  assume b: "build = RB_TREE \<or> \<not> has (cn_chain t) HAMMER2_CHAIN_ONFLUSH"
  have "hammer2_flush_core build env HAMMER2_FLUSH_DEPTH_LIMIT \<lparr>fl_diddeferral = 0, fl_cache_index = - 1\<rparr> None t = Ok (info', None, False, t')"
    using c(1) flush_core_build(2)[OF t(1) tid, of 9 "\<lparr>fl_diddeferral = 0, fl_cache_index = - 1\<rparr>" None, folded ten] b by (cases build) simp_all
  moreover have "\<not> has_deferred t'" using c(2) flushed_not_deferred by (auto simp: volume_flushed_def)
  ultimately have "hammer2_flush (Suc r) build env None t = Ok (None, False, t')" unfolding loop by simp
  then show "\<exists>t'. hammer2_flush (Suc r) build env None t = Ok (None, False, t') \<and> volume_flushed env tid t t'" using c(2) by blast
qed

section \<open>The tree on the media\<close>

text \<open>
  The paths of the blocks below a chain, in memory or read from the media: a block is known by its
  type and key range, a file block by its data as well.
\<close>

definition block_id :: "hammer2_blockref \<Rightarrow> u8 \<times> u64 \<times> u8 \<times> u64" where
  "block_id b = (br_type b, br_key b, br_keybits b, if br_type b = HAMMER2_BREF_TYPE_DATA then br_data_off b else 0)"

abbreviation (input) inner_types :: "u8 set" where
  "inner_types \<equiv> {HAMMER2_BREF_TYPE_INODE, HAMMER2_BREF_TYPE_INDIRECT, HAMMER2_BREF_TYPE_FREEMAP_NODE}"

primrec paths :: "chain_env \<Rightarrow> load_fn \<Rightarrow> nat \<Rightarrow> ctree \<Rightarrow> (u8 \<times> u64 \<times> u8 \<times> u64) list set" where
  "paths env load 0 t = {}"
| "paths env load (Suc d) t =
     (\<Union>v\<in>set (view t). insert [block_id (fst v)] (if br_type (fst v) \<in> inner_types then
        (case loaded env load RESOLVE_ALWAYS v of Ok c \<Rightarrow> (#) (block_id (fst v)) ` paths env load d c | _ \<Rightarrow> {}) else {}))"

text \<open>A chain with its block table in memory.\<close>

definition resolved :: "flush_env \<Rightarrow> ctree \<Rightarrow> ctree" where
  "resolved env t = CNode (cn_chain t) (Some (table_of env t)) (cn_kids t)"

text \<open>The media are read as they were, for the blocks that the flush has not in memory, and as they are in memory for the others.\<close>

primrec unchanged :: "load_fn \<Rightarrow> load_fn \<Rightarrow> nat \<Rightarrow> hammer2_blockref \<Rightarrow> bool" where
  "unchanged load load' 0 e \<longleftrightarrow> True"
| "unchanged load load' (Suc d) e \<longleftrightarrow> (br_type e \<in> inner_types \<longrightarrow> load' e = load e \<and> (\<forall>x\<in>set (elems (load e)). unchanged load load' d x))"

primrec reads_back :: "flush_env \<Rightarrow> load_fn \<Rightarrow> nat \<Rightarrow> ctree \<Rightarrow> bool" where
  "reads_back env load' 0 t \<longleftrightarrow> True"
| "reads_back env load' (Suc d) t \<longleftrightarrow> (\<forall>k\<in>set (cn_kids t). br_type (cn_bref k) \<in> inner_types \<longrightarrow> load' (cn_bref k) = table_of env k \<and> reads_back env load' d k) \<and>
     (\<forall>e\<in>unshadowed (elems (table_of env t)) (cn_kids t). unchanged (fe_load env) load' d e)"

text \<open>
  The media after the flush.  The data of a chain is in the buffer of its block, so the blocks that are in memory are found on the media as
  they are in memory once the device has been synchronised (\<open>VOP_FSYNC\<close> in \<open>hammer2_vfs_sync\<close>); every other block is as it was.
  A block is known by its place, the device offset without the radix bits.
\<close>

definition block_place :: "hammer2_blockref \<Rightarrow> u64" where
  "block_place b = br_data_off b AND NOT HAMMER2_OFF_MASK_RADIX"

fun buffers :: "ctree \<Rightarrow> (u64 \<times> hammer2_blockref list option) list" where
  "buffers (CNode c base ks) = concat (map (\<lambda>k. (if br_type (cn_bref k) \<in> inner_types then [(block_place (cn_bref k), cn_base k)] else []) @ buffers k) ks)"

definition written :: "flush_env \<Rightarrow> ctree \<Rightarrow> load_fn" where
  "written env t b = (case map_of (buffers t) (block_place b) of Some (Some table) \<Rightarrow> table | _ \<Rightarrow> fe_load env b)"

text \<open>The places of the blocks that are only on the media, below an element of a block table and below a chain.\<close>

primrec media_places :: "load_fn \<Rightarrow> nat \<Rightarrow> hammer2_blockref \<Rightarrow> u64 set" where
  "media_places load 0 e = {}"
| "media_places load (Suc d) e = (if br_type e \<in> inner_types then insert (block_place e) (\<Union>x\<in>set (elems (load e)). media_places load d x) else {})"

primrec kept_places :: "flush_env \<Rightarrow> nat \<Rightarrow> ctree \<Rightarrow> u64 set" where
  "kept_places env 0 t = {}"
| "kept_places env (Suc d) t = (\<Union>e\<in>unshadowed (elems (table_of env t)) (cn_kids t). media_places (fe_load env) d e) \<union>
     (\<Union>k\<in>set (cn_kids t). if br_type (cn_bref k) \<in> inner_types then kept_places env d k else {})"

text \<open>
  Different blocks have different places, as for the extents that \<open>hammer2_freemap_alloc\<close> hands out: no two chains in memory
  share a place, and no block that is only on the media has the place of one of them.
\<close>

definition places_apart :: "flush_env \<Rightarrow> nat \<Rightarrow> ctree \<Rightarrow> bool" where
  "places_apart env d t \<longleftrightarrow> distinct (map fst (buffers t)) \<and> kept_places env d t \<inter> fst ` set (buffers t) = {}"

lemma buffers_kids: "k \<in> set (cn_kids t) \<Longrightarrow> set (buffers k) \<subseteq> set (buffers t) \<and>
    (br_type (cn_bref k) \<in> inner_types \<longrightarrow> (block_place (cn_bref k), cn_base k) \<in> set (buffers t))"
  by (cases t) auto

lemma unchanged_apart: "media_places load d e \<inter> P = {} \<Longrightarrow> (\<And>b. block_place b \<notin> P \<Longrightarrow> load' b = load b) \<Longrightarrow> unchanged load load' d e"
  by (induction d arbitrary: e) (auto split: if_splits)

lemma written_reads_back:
  assumes d: "distinct (map fst (buffers root))"
  shows "set (buffers t) \<subseteq> set (buffers root) \<Longrightarrow> kept_places env d t \<inter> fst ` set (buffers root) = {} \<Longrightarrow> reads_back env (written env root) d t"
proof (induction d arbitrary: t)
  case (Suc d)
  have kid: "written env root (cn_bref k) = table_of env k \<and> reads_back env (written env root) d k"
    if k: "k \<in> set (cn_kids t)" "br_type (cn_bref k) \<in> inner_types" for k
  proof
    have "(block_place (cn_bref k), cn_base k) \<in> set (buffers root)" using buffers_kids[OF k(1)] k(2) Suc.prems(1) by blast
    then have "map_of (buffers root) (block_place (cn_bref k)) = Some (cn_base k)" by (rule map_of_is_SomeI[OF d])
    then show "written env root (cn_bref k) = table_of env k" by (simp add: written_def table_of_def)
    have "kept_places env d k \<subseteq> kept_places env (Suc d) t" using k by (auto simp del: insert_iff)
    then show "reads_back env (written env root) d k" using Suc.IH[of k] buffers_kids[OF k(1)] Suc.prems by blast
  qed
  have other: "written env root b = fe_load env b" if "block_place b \<notin> fst ` set (buffers root)" for b
    using that by (simp add: written_def map_of_eq_None_iff[symmetric] del: map_of_eq_None_iff)
  have "unchanged (fe_load env) (written env root) d e" if e: "e \<in> unshadowed (elems (table_of env t)) (cn_kids t)" for e
  proof (rule unchanged_apart[OF _ other])
    show "media_places (fe_load env) d e \<inter> fst ` set (buffers root) = {}" using Suc.prems(2) e by auto
  qed
  then show ?case using kid unfolding reads_back.simps by blast
qed simp

lemma view_Some: "sorted_wrt bref_left es \<Longrightarrow> kids_wf ks \<Longrightarrow> k \<in> set ks \<Longrightarrow> (cn_bref k, Some k) \<in> set (merge_view es ks)"
proof (induction es ks rule: merge_view.induct)
  case (3 e es k' ks)
  have "sorted_wrt bref_left es" "kids_wf ks" using 3(4,5) by (auto simp: kids_wf_def)
  then show ?case using 3 by auto
qed auto

lemma view_other: "(b, Some c) \<in> set (merge_view es ks) \<Longrightarrow> c \<in> set ks \<and> b = cn_bref c"
  by (induction es ks rule: merge_view.induct) (auto split: if_splits)

lemma resolved_view:
  assumes "node_ok env tid t"
  shows "set (view (resolved env t)) = (\<lambda>k. (cn_bref k, Some k)) ` set (cn_kids t) \<union> (\<lambda>e. (e, None)) ` unshadowed (elems (table_of env t)) (cn_kids t)"
proof (cases "cn_kids t = []")
  case True
  then show ?thesis by (simp add: resolved_def view_def base_elems_def merge_view_nil2 unshadowed_def)
next
  case False
  then obtain b count where b: "cn_base t = Some b" "level_ok t count" using node_okD(4)[OF assms] by blast
  have es: "base_elems (resolved env t) = elems (table_of env t)" "base_elems t = elems (table_of env t)" by (simp_all add: base_elems_def resolved_def table_of_def b(1))
  note ls = level_sorted[OF level_okD(1)[OF b(2)], unfolded es]
  have V: "view (resolved env t) = merge_view (elems (table_of env t)) (cn_kids t)" by (simp add: view_def es) (simp add: resolved_def)
  show ?thesis unfolding V
  proof (intro equalityI subsetI)
    fix v assume v: "v \<in> set (merge_view (elems (table_of env t)) (cn_kids t))"
    obtain b c where bc: "v = (b, c)" by (cases v)
    show "v \<in> (\<lambda>k. (cn_bref k, Some k)) ` set (cn_kids t) \<union> (\<lambda>e. (e, None)) ` unshadowed (elems (table_of env t)) (cn_kids t)"
      using v view_other view_None[OF ls(1,3)] unfolding bc by (cases c) (fastforce simp: unshadowed_def)+
  next
    fix v assume "v \<in> (\<lambda>k. (cn_bref k, Some k)) ` set (cn_kids t) \<union> (\<lambda>e. (e, None)) ` unshadowed (elems (table_of env t)) (cn_kids t)"
    then consider k where "k \<in> set (cn_kids t)" "v = (cn_bref k, Some k)" | e where "e \<in> unshadowed (elems (table_of env t)) (cn_kids t)" "v = (e, None)" by blast
    then show "v \<in> set (merge_view (elems (table_of env t)) (cn_kids t))"
    proof cases
      case 1
      then show ?thesis using view_Some[OF ls(1,3)] by blast
    next
      case 2
      then have "e \<in> fst ` set (merge_view (elems (table_of env t)) (cn_kids t))" using set_merge_view[OF ls(1,3)] by (simp add: unshadowed_def)
      then obtain c where "(e, c) \<in> set (merge_view (elems (table_of env t)) (cn_kids t))" by auto
      then show ?thesis using 2 by (cases c) (auto simp: unshadowed_def dest: view_other)
    qed
  qed
qed

definition paths_at :: "chain_env \<Rightarrow> load_fn \<Rightarrow> nat \<Rightarrow> hammer2_blockref \<times> ctree option \<Rightarrow> (u8 \<times> u64 \<times> u8 \<times> u64) list set" where
  "paths_at env load d v = insert [block_id (fst v)] (if br_type (fst v) \<in> inner_types then
     (case loaded env load RESOLVE_ALWAYS v of Ok c \<Rightarrow> (#) (block_id (fst v)) ` paths env load d c | _ \<Rightarrow> {}) else {})"

lemma paths_Suc: "paths env load (Suc d) t = (\<Union>v\<in>set (view t). paths_at env load d v)"
  by (simp add: paths_at_def)

lemma paths_media: "paths env load (Suc d) (CNode c (Some b) []) = (\<Union>e\<in>set (elems b). paths_at env load d (e, None))"
  unfolding paths_Suc by (simp add: view_def base_elems_def merge_view_nil2)

text \<open>The chain does not matter, only its block table and the chains below.\<close>

lemma paths_chain: "paths env load d (CNode c b ks) = paths env load d (CNode c' b ks)"
  by (cases d) (simp_all add: view_def base_elems_def)

lemma load_element:
  assumes "devices_ok env" "br_type e \<in> inner_types"
  shows "radix_ok (br_data_off e) \<Longrightarrow> \<exists>c. loaded (fe_chain env) load RESOLVE_ALWAYS (e, None) = Ok (CNode c (Some (load e)) [])"
    "\<not> radix_ok (br_data_off e) \<Longrightarrow> loaded (fe_chain env) load RESOLVE_ALWAYS (e, None) = Fault ''1U << radix''"
  using assms by (auto simp: loaded_def hammer2_chain_alloc_def radix_ok_def hammer2_chain_lock_def Let_def devices_ok_def table_count_def flag_simps) (auto simp: has_def)

lemma load_chain:
  assumes dev: "devices_ok env" and n: "node_ok env tid k" and ty: "br_type (cn_bref k) \<in> inner_types"
  shows "loaded (fe_chain env) (fe_load env) RESOLVE_ALWAYS (cn_bref k, Some k) = Ok (resolved env k)"
proof -
  have "\<not> has (cn_chain k) HAMMER2_CHAIN_INITIAL" using node_okD(5)[OF n] ty by auto
  moreover have "\<exists>count. table_count (cn_chain k) = Ok count" using ty by (auto simp: table_count_def)
  ultimately show ?thesis using dev ty
    by (cases k, cases "cn_base k") (auto simp: loaded_def hammer2_chain_lock_def Let_def devices_ok_def resolved_def table_of_def)
qed

lemma unchanged_paths:
  assumes "devices_ok env"
  shows "unchanged load load' d e \<Longrightarrow> paths_at (fe_chain env) load' d (e, None) = paths_at (fe_chain env) load d (e, None)"
proof (induction d arbitrary: e)
  case 0
  show ?case by (auto simp: paths_at_def split: outcome.split)
next
  case (Suc d)
  show ?case
  proof (cases "br_type e \<in> inner_types \<and> radix_ok (br_data_off e)")
    case True
    then obtain c c' where c: "loaded (fe_chain env) load RESOLVE_ALWAYS (e, None) = Ok (CNode c (Some (load e)) [])"
      "loaded (fe_chain env) load' RESOLVE_ALWAYS (e, None) = Ok (CNode c' (Some (load' e)) [])" using load_element(1)[OF assms] by meson
    have "load' e = load e" "\<forall>x\<in>set (elems (load e)). paths_at (fe_chain env) load' d (x, None) = paths_at (fe_chain env) load d (x, None)"
      using Suc.prems True Suc.IH by auto
    then have "paths (fe_chain env) load' (Suc d) (CNode c' (Some (load' e)) []) = paths (fe_chain env) load (Suc d) (CNode c (Some (load e)) [])"
      unfolding paths_media by simp
    then show ?thesis unfolding paths_at_def c outcome.case by simp
  next
    case False
    then show ?thesis using load_element(2)[OF assms, of e] by (cases "br_type e \<in> inner_types") (simp_all add: paths_at_def del: insert_iff paths.simps)
  qed
qed

lemma list_all2_UN: "list_all2 (\<lambda>x y. f x = g y) xs ys \<Longrightarrow> (\<Union>x\<in>set xs. f x) = (\<Union>y\<in>set ys. g y)"
  by (induction rule: list_all2_induct) auto

lemma paths_resolved:
  assumes "node_ok env tid t"
  shows "paths ce load (Suc d) (resolved env t) = (\<Union>k\<in>set (cn_kids t). paths_at ce load d (cn_bref k, Some k)) \<union>
    (\<Union>e\<in>unshadowed (elems (table_of env t)) (cn_kids t). paths_at ce load d (e, None))"
  unfolding paths_Suc resolved_view[OF assms] by blast

lemma same_id_block: "same_id a b \<Longrightarrow> block_id a = block_id b \<and> br_type a = br_type b"
  by (simp add: same_id_def same_range_def block_id_def)

text \<open>Trees with the same blocks have the same paths.\<close>

lemma similar_paths:
  assumes dev: "devices_ok env"
  shows "similar env t t' \<Longrightarrow> flushable env tid t \<Longrightarrow> flushed env tid t' \<Longrightarrow> br_type (cn_bref t) \<in> table_types \<Longrightarrow>
    paths (fe_chain env) (fe_load env) d (resolved env t) = paths (fe_chain env) (fe_load env) d (resolved env t')"
proof (induction d arbitrary: t t')
  case (Suc d)
  have s: "list_all2 (similar env) (cn_kids t) (cn_kids t')" "unshadowed (elems (table_of env t)) (cn_kids t) = unshadowed (elems (table_of env t')) (cn_kids t')"
    using Suc.prems(1,4) by (auto elim!: similar.cases)
  have "list_all2 (\<lambda>k k'. paths_at (fe_chain env) (fe_load env) d (cn_bref k, Some k) = paths_at (fe_chain env) (fe_load env) d (cn_bref k', Some k')) (cn_kids t) (cn_kids t')"
  proof (rule list.rel_mono_strong[OF s(1)])
    fix k k' assume k: "k \<in> set (cn_kids t)" "k' \<in> set (cn_kids t')" "similar env k k'"
    have f: "flushable env tid k" "flushed env tid k'" using flushableD(3)[OF Suc.prems(2) k(1)] flushedD(2)[OF Suc.prems(3)] k(2) by simp_all
    have "same_id (cn_bref k) (cn_bref k')" using k(3) by cases
    then have id: "block_id (cn_bref k) = block_id (cn_bref k')" "br_type (cn_bref k') = br_type (cn_bref k)" using same_id_block by auto
    show "paths_at (fe_chain env) (fe_load env) d (cn_bref k, Some k) = paths_at (fe_chain env) (fe_load env) d (cn_bref k', Some k')"
    proof (cases "br_type (cn_bref k) \<in> inner_types")
      case True
      then have ty: "br_type (cn_bref k) \<in> table_types" "br_type (cn_bref k') \<in> inner_types" using id(2) by auto
      have l: "loaded (fe_chain env) (fe_load env) RESOLVE_ALWAYS (cn_bref k, Some k) = Ok (resolved env k)"
        "loaded (fe_chain env) (fe_load env) RESOLVE_ALWAYS (cn_bref k', Some k') = Ok (resolved env k')"
        using load_chain[OF dev flushableD(1)[OF f(1)] True] load_chain[OF dev flushedD(1)[OF f(2)] ty(2)] by blast+
      have p: "paths (fe_chain env) (fe_load env) d (resolved env k) = paths (fe_chain env) (fe_load env) d (resolved env k')" by (rule Suc.IH[OF k(3) f ty(1)])
      show ?thesis unfolding paths_at_def fst_conv l id outcome.case p by (rule refl)
    next
      case False
      then show ?thesis unfolding paths_at_def fst_conv id by simp
    qed
  qed
  note kids = list_all2_UN[OF this]
  show ?case unfolding paths_resolved[OF flushableD(1)[OF Suc.prems(2)]] paths_resolved[OF flushedD(1)[OF Suc.prems(3)]] kids s(2) by (rule refl)
qed simp

text \<open>In a flushed tree the block table holds the block references of the chains, and what is read back gives the same paths.\<close>

lemma flushed_elems:
  assumes "flushed env tid t"
  shows "set (elems (table_of env t)) = cn_bref ` set (cn_kids t) \<union> unshadowed (elems (table_of env t)) (cn_kids t)"
proof (cases "cn_kids t = []")
  case False
  note F = flushedD[OF assms]
  from False obtain b count where b: "cn_base t = Some b" "level_ok t count" using node_okD(4)[OF F(1)] by blast
  have es: "base_elems t = elems (table_of env t)" by (simp add: base_elems_def table_of_def b(1))
  have kin: "cn_bref k \<in> set (elems (table_of env t))" if "k \<in> set (cn_kids t)" for k using F(2) that es by (simp add: synced_def)
  have d: "distinct (map br_key (elems (table_of env t)))" using level_keys(2)[OF b(2)] es by simp
  have "e = cn_bref k" if "e \<in> set (elems (table_of env t))" "k \<in> set (cn_kids t)" "br_key (cn_bref k) = br_key e" for e k
    using d that(1,3) kin[OF that(2)] by (auto simp: distinct_map dest: inj_onD)
  then show ?thesis using kin unfolding unshadowed_def by blast
qed (simp add: unshadowed_def)

lemma reread_paths:
  assumes dev: "devices_ok env"
  shows "flushed env tid t \<Longrightarrow> reads_back env load' d t \<Longrightarrow>
    paths (fe_chain env) load' d (CNode c (Some (table_of env t)) []) = paths (fe_chain env) (fe_load env) d (resolved env t)"
proof (induction d arbitrary: t c)
  case (Suc d)
  note F = flushedD[OF Suc.prems(1)]
  have k: "paths_at (fe_chain env) load' d (cn_bref k, None) = paths_at (fe_chain env) (fe_load env) d (cn_bref k, Some k)" if k: "k \<in> set (cn_kids t)" for k
  proof (cases "br_type (cn_bref k) \<in> inner_types")
    case True
    have f: "flushed env tid k" using F(2) k by simp
    note n = flushedD(1)[OF f]
    have r: "load' (cn_bref k) = table_of env k" "reads_back env load' d k" using Suc.prems(2) True k unfolding reads_back.simps by blast+
    obtain c where c: "loaded (fe_chain env) load' RESOLVE_ALWAYS (cn_bref k, None) = Ok (CNode c (Some (load' (cn_bref k))) [])"
      using load_element(1)[OF dev True node_okD(8)[OF n]] by blast
    show ?thesis unfolding paths_at_def fst_conv c load_chain[OF dev n True] outcome.case r(1) Suc.IH[OF f r(2)] by (rule refl)
  next
    case False
    then show ?thesis by (simp add: paths_at_def del: insert_iff)
  qed
  have u: "paths_at (fe_chain env) load' d (e, None) = paths_at (fe_chain env) (fe_load env) d (e, None)" if "e \<in> unshadowed (elems (table_of env t)) (cn_kids t)" for e
    by (rule unchanged_paths[OF dev]) (use Suc.prems(2) that in simp)
  have "paths (fe_chain env) load' (Suc d) (CNode c (Some (table_of env t)) []) =
    (\<Union>k\<in>set (cn_kids t). paths_at (fe_chain env) load' d (cn_bref k, None)) \<union> (\<Union>e\<in>unshadowed (elems (table_of env t)) (cn_kids t). paths_at (fe_chain env) load' d (e, None))"
    unfolding paths_media flushed_elems[OF Suc.prems(1)] by blast
  then show ?case unfolding paths_resolved[OF F(1)] using k u by simp
qed simp

section \<open>The flush writes everything\<close>

text \<open>
  C9: The flush of the volume ends and writes everything, once the tree macros of the port work.  For a tree of at most ten
  levels of chains whose flags say what is out of date, with one flush tid, in which a chain at the boundary of a mounted PFS has nothing to be
  flushed (a flush does not cross such a boundary), and devices and an allocator that do not fail, \<open>hammer2_flush\<close> from the volume header returns
  in the repaired build: afterwards no chain is modified, the block table of every chain in memory holds exactly the block
  references of the chains below it, the check codes of the blocks with a block table are those of their data, the tree has the same blocks, and
  the volume header is due to be written if its block table has changed.  The build of the repository, whose tree macros are stubs
  called with null pointers, does the same when nothing is to be flushed below the header and faults on a null pointer when something is.
\<close>

theorem flush_completes:
  assumes "devices_ok env" "fe_tid env = (\<lambda>_. tid)" "\<forall>k d. length (fe_hmac env k d) = 32"
    "flushable env tid t" "levels HAMMER2_FLUSH_DEPTH_LIMIT t" "br_type (cn_bref t) = HAMMER2_BREF_TYPE_VOLUME"
  shows "if build = RB_STUB \<and> has (cn_chain t) HAMMER2_CHAIN_ONFLUSH then hammer2_flush (Suc r) build env None t = Fault ''info''
    else \<exists>t'. hammer2_flush (Suc r) build env None t = Ok (None, False, t') \<and> volume_flushed env tid t t'"
  using flush_volume_loop(1)[OF assms, of r] flush_volume_loop(2)[OF assms, of build r] by (cases build) auto

text \<open>
  C8: A flush is durable.  When a flush of the volume header has returned, in either build, the device is synchronised
  and the chains in memory are dropped, the tree below the volume header that is read from the media has the same blocks along the same paths as
  the tree before the flush, to any depth; file blocks are at the same place.  The media hold the buffers of the chains in memory and are unchanged elsewhere;
  different blocks have different places.  As above, nothing is left to be flushed at the boundary of a mounted PFS.  In the build of the repository the flush
  returns only when nothing is to be flushed below the header.
\<close>

theorem flush_durable:
  assumes "devices_ok env" "fe_tid env = (\<lambda>_. tid)" "\<forall>k d. length (fe_hmac env k d) = 32"
    "flushable env tid t" "levels HAMMER2_FLUSH_DEPTH_LIMIT t" "br_type (cn_bref t) = HAMMER2_BREF_TYPE_VOLUME" "cn_base t \<noteq> None"
    "hammer2_flush (Suc r) build env None t = Ok (p, up, t')" "places_apart env d t'"
  shows "paths (fe_chain env) (written env t') d (CNode (cn_chain t') (cn_base t') []) = paths (fe_chain env) (fe_load env) d t"
proof -
  have "build = RB_TREE \<or> \<not> has (cn_chain t) HAMMER2_CHAIN_ONFLUSH" using flush_volume_loop(1)[OF assms(1-6), of r] assms(8) by (cases build) auto
  then have v: "volume_flushed env tid t t'" using flush_volume_loop(2)[OF assms(1-6), of build r] assms(8) by auto
  then have f: "flushed env tid t'" "similar env t t'" "cn_base t' \<noteq> None" using assms(7) by (simp_all add: volume_flushed_def)
  have r: "resolved env t = t" using assms(7) by (cases t) (auto simp: resolved_def table_of_def)
  have "cn_base t' = Some (table_of env t')" using f(3) by (auto simp: table_of_def)
  moreover have "reads_back env (written env t') d t'" by (rule written_reads_back) (use assms(9) in \<open>simp_all add: places_apart_def\<close>)
  ultimately have "paths (fe_chain env) (written env t') d (CNode (cn_chain t') (cn_base t') []) = paths (fe_chain env) (fe_load env) d (resolved env t')"
    using reread_paths[OF assms(1) f(1)] by simp
  also have "\<dots> = paths (fe_chain env) (fe_load env) d (resolved env t)"
    by (rule similar_paths[OF assms(1) f(2) assms(4) f(1), symmetric]) (use assms(6) in simp)
  finally show ?thesis unfolding r .
qed

section \<open>An example\<close>

text \<open>A volume with one indirect block that has been changed in memory; its block table has eight file blocks.\<close>

definition fl_bref :: hammer2_blockref where
  "fl_bref = blockref_zero\<lparr>br_type := HAMMER2_BREF_TYPE_INDIRECT, br_methods := HAMMER2_ENC_CHECK HAMMER2_CHECK_ISCSI32, br_keybits := 40, br_data_off := 0x40000A\<rparr>"

definition fl_child :: ctree where
  "fl_child = CNode \<lparr>ch_bref = fl_bref\<lparr>br_data_off := 0x80000A\<rparr>, ch_flags = 0xC4043, ch_bytes = 1024, core_live_zero = 8, core_flags = 2,
     core_live_count = 8, core_chain_count = 0, core_generation = 0\<rparr> (Some (map lv_bref [0..<8])) []"

definition fl_root :: ctree where
  "fl_root = CNode \<lparr>ch_bref = blockref_zero\<lparr>br_type := HAMMER2_BREF_TYPE_VOLUME\<rparr>, ch_flags = HAMMER2_CHAIN_ONFLUSH, ch_bytes = 65536, core_live_zero = 1,
     core_flags = 2, core_live_count = 1, core_chain_count = 1, core_generation = 0\<rparr> (Some (fl_bref # replicate 7 blockref_zero)) [fl_child]"

definition fl_env :: flush_env where
  "fl_env = \<lparr>fe_chain = lv_env, fe_load = (\<lambda>_. []), fe_tid = (\<lambda>_. Some 7), fe_vmodified = True, fe_hmac = (\<lambda>k d. replicate 32 7), fe_data = (\<lambda>_ _ _. [1, 2, 3, 4])\<rparr>"

lemma fl_level: "level_ok fl_root 8" "length (view fl_root) \<le> 8"
proof -
  have el: "elems (fl_bref # replicate 7 blockref_zero) = [fl_bref]" using elems_zero[of 7] by (simp add: elems_def fl_bref_def)
  have v: "view fl_root = [(cn_bref fl_child, Some fl_child)]" by (simp add: view_def base_elems_def fl_root_def el) (simp add: fl_child_def fl_bref_def elems_zero)
  have "blocktable_wf (cn_chain fl_root) (fl_bref # replicate 7 blockref_zero) 8"
  proof -
    have "br_type (replicate 7 blockref_zero ! (i - Suc 0)) = 0" if "Suc 0 \<le> i" "i < 8" for i using that by (cases i) (auto simp: blockref_zero_def)
    moreover have "bref_wf fl_bref" by (simp add: fl_bref_def bref_wf_def blockref_zero_def)
    ultimately show ?thesis unfolding blocktable_wf_def ordered_elems_def el by (auto simp: fl_root_def)
  qed
  moreover have "kids_wf (cn_kids fl_root)" by (simp add: kids_wf_def fl_root_def) (simp add: fl_child_def fl_bref_def bref_wf_def blockref_zero_def)
  moreover have "overlay_ok [fl_bref] (cn_kids fl_root)" "mapped_ok [fl_bref] (cn_kids fl_root)"
    by (simp_all add: overlay_ok_def mapped_ok_def fl_root_def same_range_def fl_child_def has_def)
  moreover have "base_elems fl_root = [fl_bref]" "cn_base fl_root = Some (fl_bref # replicate 7 blockref_zero)" by (simp_all add: base_elems_def fl_root_def elems_zero) (simp add: fl_bref_def)
  moreover have "table_count (cn_chain fl_root) = Ok 8" "unat (core_live_count (cn_chain fl_root)) = 1" "\<not> has (cn_chain fl_root) HAMMER2_CHAIN_INITIAL"
    by (simp_all add: fl_root_def table_count_def has_def)
  ultimately show "level_ok fl_root 8" by (simp add: level_ok_def level_wf_def v)
  show "length (view fl_root) \<le> 8" by (simp add: v)
qed

lemma fl_flushable: "flushable fl_env (Some 7) fl_root"
proof -
  have "node_ok fl_env (Some 7) fl_root" using fl_level unfolding node_ok_def
    by (auto simp: fl_root_def has_def tid_ok_def blockref_zero_def check_valid_def radix_ok_def)
  moreover have "node_ok fl_env (Some 7) fl_child"
    by (simp add: node_ok_def fl_child_def has_def tid_ok_def fl_bref_def blockref_zero_def radix_ok_def)
  moreover have "kid_ok es fl_child" for es by (simp add: kid_ok_def fl_child_def has_def fl_bref_def)
  moreover have "boundary_ok (Some 7) fl_child" by (simp add: boundary_ok_def fl_child_def has_def)
  ultimately show ?thesis by (simp add: fl_root_def fl_child_def has_def)
qed

lemma fl_devices: "devices_ok fl_env" "fe_tid fl_env = (\<lambda>_. Some 7)" "\<forall>k d. length (fe_hmac fl_env k d) = 32" "levels HAMMER2_FLUSH_DEPTH_LIMIT fl_root"
    "br_type (cn_bref fl_root) = HAMMER2_BREF_TYPE_VOLUME" "cn_base fl_root \<noteq> None"
proof -
  have "levels (Suc (Suc 8)) fl_root" by (simp only: levels.simps) (simp add: fl_root_def fl_child_def)
  then show "levels HAMMER2_FLUSH_DEPTH_LIMIT fl_root" by simp
qed (simp_all add: devices_ok_def fl_env_def lv_env_def radix_ok_def fl_root_def)

theorem flush_completes_witness:
  "(\<exists>t'. hammer2_flush (Suc 0) RB_TREE fl_env None fl_root = Ok (None, False, t') \<and> volume_flushed fl_env (Some 7) fl_root t') \<and>
    hammer2_flush (Suc 0) RB_STUB fl_env None fl_root = Fault ''info''"
proof -
  have "has (cn_chain fl_root) HAMMER2_CHAIN_ONFLUSH" by (simp add: fl_root_def has_def)
  then show ?thesis using flush_completes[OF fl_devices(1-3) fl_flushable fl_devices(4,5), of RB_TREE 0]
      flush_completes[OF fl_devices(1-3) fl_flushable fl_devices(4,5), of RB_STUB 0] by simp
qed

text \<open>The block that was written is read back from the media.\<close>

theorem flush_durable_witness:
  "\<exists>t'. hammer2_flush (Suc 0) RB_TREE fl_env None fl_root = Ok (None, False, t') \<and> places_apart fl_env 3 t' \<and>
    paths (fe_chain fl_env) (written fl_env t') 3 (CNode (cn_chain t') (cn_base t') []) = paths (fe_chain fl_env) (fe_load fl_env) 3 fl_root"
proof -
  obtain t' where t': "hammer2_flush (Suc 0) RB_TREE fl_env None fl_root = Ok (None, False, t')" "volume_flushed fl_env (Some 7) fl_root t'"
    using flush_volume_loop(2)[OF fl_devices(1-3) fl_flushable fl_devices(4,5), of RB_TREE 0] by blast
  have "similar fl_env fl_root t'" using t'(2) by (simp add: volume_flushed_def)
  then have s: "list_all2 (similar fl_env) [fl_child] (cn_kids t')"
    "unshadowed (elems (table_of fl_env t')) (cn_kids t') = unshadowed (elems (table_of fl_env fl_root)) [fl_child]"
    by (cases, simp_all add: fl_root_def)+
  then obtain k' where k': "cn_kids t' = [k']" "similar fl_env fl_child k'" by (auto simp: list_all2_Cons1)
  from k'(2) have k: "cn_kids k' = [] \<and> set (elems (table_of fl_env k')) = lv_bref ` {0..<8}"
  proof cases
    case similarI
    have c: "cn_kids fl_child = []" "br_type (cn_bref fl_child) = HAMMER2_BREF_TYPE_INDIRECT" "elems (table_of fl_env fl_child) = map lv_bref [0..<8]"
      by (simp_all only: fl_child_def ctree.sel table_of_def option.case lv_elems) (simp add: fl_bref_def)
    have kk: "cn_kids k' = []" using similarI(2) c(1) by simp
    show ?thesis using similarI(3) c kk by (simp add: unshadowed_def)
  qed
  have "elems (table_of fl_env fl_root) = [fl_bref]" using elems_zero[of 7] by (simp add: table_of_def fl_root_def elems_def fl_bref_def)
  then have u: "unshadowed (elems (table_of fl_env t')) (cn_kids t') = {}" unfolding s(2) by (simp add: unshadowed_def fl_child_def)
  have b: "buffers k' = []" using k by (cases k') simp
  have "buffers t' = (if br_type (cn_bref k') \<in> inner_types then [(block_place (cn_bref k'), cn_base k')] else [])" using k'(1) b by (cases t') simp
  moreover have "kept_places fl_env (Suc (Suc 0)) k' = {}" using k by (auto simp: unshadowed_def lv_bref_fields)
  then have "kept_places fl_env 3 t' = {}" unfolding numeral_3_eq_3 kept_places.simps(2)[of _ "Suc (Suc 0)"] k'(1) u[unfolded k'(1)] by (simp del: kept_places.simps)
  ultimately have "places_apart fl_env 3 t'" by (simp add: places_apart_def)
  then show ?thesis using t'(1) flush_durable[OF fl_devices(1-3) fl_flushable fl_devices(4-6) t'(1)] by blast
qed

end
