(* ===== verification/H2_Dmsg.thy ===== *)
theory H2_Dmsg
  imports H2_Prelude H2_System
begin

unbundle bit_operations_syntax

text \<open>
  The transactions of the cluster messages, \<^verbatim>\<open>kern_dmsg.c\<close> and \<^verbatim>\<open>dmsg.h\<close>: \<open>kdmsg_state_msgrx\<close> and
  \<open>kdmsg_state_msgtx\<close> with their cleanup functions, the allocation and queueing of messages, and the
  replies.  A transaction is a \<open>kdmsg_state\<close> on each side of a connection.  It is opened by a message
  with the flag CREATE; each side closes its direction with the flag DELETE, and the state is freed
  when both directions are closed.  Transactions are stacked: a state has a parent and a list of
  states stacked on it, and stays allocated while that list is not empty.

  The states are kept in a heap: a map from addresses to states, in which a freed state is absent;
  an access to it is a \<open>Fault\<close>, as are an access to a null pointer and the removal of an element from a tree or a
  list it is not in.  Address 0 stands for \<open>iocom->state0\<close>, which is part of the \<open>iocom\<close> and never freed.  The trees
  \<open>staterd_tree\<close> and \<open>statewr_tree\<close>, ordered by \<open>msgid\<close>, are maps from \<open>msgid\<close> to addresses; the \<open>msgid\<close> of a transaction is the
  address of its state on the side that opened it.  \<open>malloc\<close> is a parameter.  The messages themselves, their auxiliary data
  and check codes (commented out in the source) and the sockets are left out.  The assertions of
  the original are commented out in this port, so they are not in the model either.
\<close>

abbreviation (input) DMSGF_CREATE :: u32 where "DMSGF_CREATE \<equiv> 0x80000000"
abbreviation (input) DMSGF_DELETE :: u32 where "DMSGF_DELETE \<equiv> 0x40000000"
abbreviation (input) DMSGF_REPLY :: u32 where "DMSGF_REPLY \<equiv> 0x20000000"
abbreviation (input) DMSGF_ABORT :: u32 where "DMSGF_ABORT \<equiv> 0x10000000"
abbreviation (input) DMSGF_REVTRANS :: u32 where "DMSGF_REVTRANS \<equiv> 0x08000000"
abbreviation (input) DMSGF_REVCIRC :: u32 where "DMSGF_REVCIRC \<equiv> 0x04000000"
abbreviation (input) DMSGF_BASECMDMASK :: u32 where "DMSGF_BASECMDMASK \<equiv> 0x00FFFFFF"
abbreviation (input) DMSGF_CMDSWMASK :: u32 where "DMSGF_CMDSWMASK \<equiv> 0x20FFFFFF"
abbreviation (input) DMSG_LNK_ERROR :: u32 where "DMSG_LNK_ERROR \<equiv> 0x000FFF01"
abbreviation (input) KDMSG_STATE_INSERTED :: u32 where "KDMSG_STATE_INSERTED \<equiv> 0x1"
abbreviation (input) KDMSG_STATE_DYNAMIC :: u32 where "KDMSG_STATE_DYNAMIC \<equiv> 0x2"
abbreviation (input) KDMSG_STATE_ABORTING :: u32 where "KDMSG_STATE_ABORTING \<equiv> 0x8"
abbreviation (input) KDMSG_STATE_OPPOSITE :: u32 where "KDMSG_STATE_OPPOSITE \<equiv> 0x10"
abbreviation (input) KDMSG_IOCOMF_AUTOANY :: u32 where "KDMSG_IOCOMF_AUTOANY \<equiv> 0xB"
abbreviation (input) KDMSG_IOCOMF_EXITNOACC :: u32 where "KDMSG_IOCOMF_EXITNOACC \<equiv> 0x8000"
abbreviation (input) DMSG_ERR_LOSTLINK :: u32 where "DMSG_ERR_LOSTLINK \<equiv> 0x21"

definition flag :: "u32 \<Rightarrow> u32 \<Rightarrow> bool" where
  "flag x m \<longleftrightarrow> x AND m \<noteq> 0"

section \<open>States, messages and connections\<close>

record kdmsg_state =
  ks_subq :: "u64 list"
  ks_parent :: "u64 option"
  ks_icmd :: u32
  ks_txcmd :: u32
  ks_rxcmd :: u32
  ks_msgid :: u64
  ks_flags :: u32
  ks_func :: "nat option"

record dmsg_hdr =
  dh_salt :: u32
  dh_msgid :: u64
  dh_circuit :: u64
  dh_cmd :: u32
  dh_error :: u32

record kdmsg_msg =
  km_state :: u64
  km_tcmd :: u32
  km_head :: dmsg_hdr

record kdmsg_iocom =
  ic_heap :: "u64 \<rightharpoonup> kdmsg_state"
  ic_seq :: u32
  ic_flags :: u32
  ic_msgq :: "kdmsg_msg list"
  ic_freerd_state :: "u64 option"
  ic_freewr_state :: "u64 option"
  ic_staterd_tree :: "u64 \<rightharpoonup> u64"
  ic_statewr_tree :: "u64 \<rightharpoonup> u64"

type_synonym malloc_fn = "(u64 \<rightharpoonup> kdmsg_state) \<Rightarrow> u64"

text \<open>What \<open>malloc\<close> with \<open>M_ZERO\<close> gives.\<close>

definition zero_state :: kdmsg_state where
  "zero_state = \<lparr>ks_subq = [], ks_parent = None, ks_icmd = 0, ks_txcmd = 0, ks_rxcmd = 0, ks_msgid = 0, ks_flags = 0, ks_func = None\<rparr>"

definition kdmsg_iocom_init :: "u32 \<Rightarrow> kdmsg_iocom" where
  "kdmsg_iocom_init flags =
     \<lparr>ic_heap = [0 \<mapsto> zero_state\<lparr>ks_parent := Some 0\<rparr>], ic_seq = 0, ic_flags = flags, ic_msgq = [], ic_freerd_state = None,
      ic_freewr_state = None, ic_staterd_tree = Map.empty, ic_statewr_tree = Map.empty\<rparr>"

definition get_state :: "kdmsg_iocom \<Rightarrow> u64 \<Rightarrow> kdmsg_state outcome" where
  "get_state ic a = (case ic_heap ic a of None \<Rightarrow> Fault ''use after free'' | Some s \<Rightarrow> Ok s)"

definition put_state :: "u64 \<Rightarrow> kdmsg_state \<Rightarrow> kdmsg_iocom \<Rightarrow> kdmsg_iocom" where
  "put_state a s ic = ic\<lparr>ic_heap := (ic_heap ic)(a \<mapsto> s)\<rparr>"

definition kdmsg_state_free :: "u64 \<Rightarrow> kdmsg_iocom \<Rightarrow> kdmsg_iocom" where
  "kdmsg_state_free a ic = ic\<lparr>ic_heap := (ic_heap ic)(a := None)\<rparr>"

definition is_open :: "kdmsg_iocom \<Rightarrow> u64 \<Rightarrow> bool" where
  "is_open ic a \<longleftrightarrow> (case ic_heap ic a of None \<Rightarrow> False | Some s \<Rightarrow> flag (ks_flags s) KDMSG_STATE_INSERTED)"

section \<open>Receiving\<close>

text \<open>The transactional command of a message, computed at the end of \<open>kdmsg_state_msgrx\<close>.\<close>

definition msgrx_done :: "kdmsg_iocom \<Rightarrow> kdmsg_msg \<Rightarrow> u64 \<Rightarrow> errno \<Rightarrow> (kdmsg_iocom \<times> kdmsg_msg \<times> errno) outcome" where
  "msgrx_done ic msg state error =
     (let cmd = dh_cmd (km_head msg); msg1 = msg\<lparr>km_state := state\<rparr>
      in if flag cmd (DMSGF_CREATE OR DMSGF_DELETE)
         then if state \<noteq> 0
              then obind (get_state ic state) (\<lambda>s.
                     Ok (ic, msg1\<lparr>km_tcmd := (ks_icmd s AND DMSGF_BASECMDMASK) OR (cmd AND (DMSGF_CREATE OR DMSGF_DELETE OR DMSGF_REPLY))\<rparr>, error))
              else Ok (ic, msg1\<lparr>km_tcmd := 0\<rparr>, error)
         else Ok (ic, msg1\<lparr>km_tcmd := cmd AND DMSGF_CMDSWMASK\<rparr>, error))"

text \<open>The two lookups of a state, by transaction and by circuit.\<close>

definition find_state :: "kdmsg_iocom \<Rightarrow> bool \<Rightarrow> u64 \<Rightarrow> u64 option" where
  "find_state ic reversed msgid = (if reversed then ic_statewr_tree ic msgid else ic_staterd_tree ic msgid)"

text \<open>\<open>RB_INSERT\<close> on \<open>staterd_tree\<close>, whose result is not looked at: an element with the same \<open>msgid\<close> stays.\<close>

definition insert_rd :: "u64 \<Rightarrow> u64 \<Rightarrow> kdmsg_iocom \<Rightarrow> kdmsg_iocom" where
  "insert_rd msgid a ic = (if ic_staterd_tree ic msgid = None then ic\<lparr>ic_staterd_tree := (ic_staterd_tree ic)(msgid \<mapsto> a)\<rparr> else ic)"

text \<open>A new transaction of the other side.\<close>

definition msgrx_create :: "kdmsg_iocom \<Rightarrow> kdmsg_msg \<Rightarrow> u64 \<Rightarrow> u64 \<Rightarrow> (kdmsg_iocom \<times> kdmsg_msg \<times> errno) outcome" where
  "msgrx_create ic msg state new =
     (let h = km_head msg; cmd = dh_cmd h;
          pstate = (if dh_circuit h = 0 then Some 0 else find_state ic (flag cmd DMSGF_REVCIRC) (dh_circuit h))
      in if state \<noteq> 0 then msgrx_done ic msg state EINVAL
         else (case pstate of
                 None \<Rightarrow> msgrx_done ic msg state EINVAL
               | Some p \<Rightarrow>
                   obind (get_state ic new) (\<lambda>s.
                     let s1 = s\<lparr>ks_parent := Some p, ks_flags := ks_flags s OR (KDMSG_STATE_INSERTED OR KDMSG_STATE_OPPOSITE),
                                ks_icmd := cmd AND DMSGF_BASECMDMASK, ks_rxcmd := cmd AND NOT DMSGF_DELETE, ks_txcmd := DMSGF_REPLY,
                                ks_msgid := dh_msgid h\<rparr>;
                         ic1 = insert_rd (dh_msgid h) new (put_state new s1 (ic\<lparr>ic_freerd_state := None\<rparr>))
                     in obind (get_state ic1 p) (\<lambda>ps.
                          msgrx_done (put_state p (ps\<lparr>ks_subq := ks_subq ps @ [new]\<rparr>) ic1) msg new E_OK))))"

text \<open>
  A message without CREATE, or a reply.  The first test of each case is that the transaction exists,
  the second that the other side has opened its direction.
\<close>

definition msgrx_existing :: "kdmsg_iocom \<Rightarrow> kdmsg_msg \<Rightarrow> u64 \<Rightarrow> (kdmsg_iocom \<times> kdmsg_msg \<times> errno) outcome" where
  "msgrx_existing ic msg state =
     (let cmd = dh_cmd (km_head msg); abort = flag cmd DMSGF_ABORT
      in obind (get_state ic state) (\<lambda>s.
           if flag cmd DMSGF_CREATE
           then if state = 0 then msgrx_done ic msg state EINVAL
                else msgrx_done (put_state state (s\<lparr>ks_rxcmd := cmd AND NOT DMSGF_DELETE\<rparr>) ic) msg state E_OK
           else if flag cmd DMSGF_DELETE
           then if state = 0 \<or> \<not> flag (ks_rxcmd s) DMSGF_CREATE
                then msgrx_done ic msg state (if abort then EALREADY else EINVAL)
                else msgrx_done ic msg state E_OK
           else if abort \<and> (state = 0 \<or> \<not> flag (ks_rxcmd s) DMSGF_CREATE)
           then msgrx_done ic msg state EALREADY
           else msgrx_done ic msg state E_OK))"

definition kdmsg_state_msgrx :: "malloc_fn \<Rightarrow> kdmsg_iocom \<Rightarrow> kdmsg_msg \<Rightarrow> (kdmsg_iocom \<times> kdmsg_msg \<times> errno) outcome" where
  "kdmsg_state_msgrx malloc ic0 msg =
     (let (ic, new) = (case ic_freerd_state ic0 of
                         Some a \<Rightarrow> (ic0, a)
                       | None \<Rightarrow> let a = malloc (ic_heap ic0)
                                 in ((put_state a (zero_state\<lparr>ks_flags := KDMSG_STATE_DYNAMIC\<rparr>) ic0)\<lparr>ic_freerd_state := Some a\<rparr>, a));
          cmd = dh_cmd (km_head msg);
          state = (case find_state ic (flag cmd DMSGF_REVTRANS) (dh_msgid (km_head msg)) of None \<Rightarrow> 0 | Some a \<Rightarrow> a)
      in if \<not> flag cmd (DMSGF_CREATE OR DMSGF_DELETE OR DMSGF_ABORT) then msgrx_done ic msg state E_OK
         else if flag cmd DMSGF_CREATE \<and> \<not> flag cmd DMSGF_REPLY then msgrx_create ic msg state new
         else msgrx_existing ic msg state)"

text \<open>
  A transaction whose directions are both closed: it leaves its tree and the list of its parent, and
  is freed unless states are stacked on it; a parent that only waited for it is freed too.
\<close>

definition remove_rd :: "u64 \<Rightarrow> kdmsg_iocom \<Rightarrow> kdmsg_iocom outcome" where
  "remove_rd a ic = obind (get_state ic a) (\<lambda>s.
     if ic_staterd_tree ic (ks_msgid s) = Some a then Ok (ic\<lparr>ic_staterd_tree := (ic_staterd_tree ic)(ks_msgid s := None)\<rparr>) else Fault ''RB_REMOVE'')"

definition remove_wr :: "u64 \<Rightarrow> kdmsg_iocom \<Rightarrow> kdmsg_iocom outcome" where
  "remove_wr a ic = obind (get_state ic a) (\<lambda>s.
     if ic_statewr_tree ic (ks_msgid s) = Some a then Ok (ic\<lparr>ic_statewr_tree := (ic_statewr_tree ic)(ks_msgid s := None)\<rparr>) else Fault ''RB_REMOVE'')"

definition close_state :: "u64 \<Rightarrow> kdmsg_iocom \<Rightarrow> kdmsg_iocom outcome" where
  "close_state a ic =
     obind (get_state ic a) (\<lambda>s.
       (case ks_parent s of
          None \<Rightarrow> Fault ''pstate''
        | Some p \<Rightarrow>
            obind (get_state ic p) (\<lambda>ps.
              if a \<notin> set (ks_subq ps) then Fault ''TAILQ_REMOVE''
              else let ps1 = ps\<lparr>ks_subq := remove1 a (ks_subq ps)\<rparr>;
                       ic1 = put_state p ps1 ic;
                       ic2 = (if p \<noteq> 0 \<and> ks_subq ps1 = [] \<and> \<not> flag (ks_flags ps1) KDMSG_STATE_INSERTED then kdmsg_state_free p ic1 else ic1)
                   in obind (get_state ic2 a) (\<lambda>s2.
                        let s3 = s2\<lparr>ks_flags := ks_flags s2 AND NOT KDMSG_STATE_INSERTED, ks_parent := None\<rparr>;
                            ic3 = put_state a s3 ic2
                        in Ok (if ks_subq s3 = [] then kdmsg_state_free a ic3 else ic3)))))"

definition kdmsg_state_cleanuprx :: "kdmsg_iocom \<Rightarrow> kdmsg_msg \<Rightarrow> kdmsg_iocom outcome" where
  "kdmsg_state_cleanuprx ic msg =
     obind (get_state ic (km_state msg)) (\<lambda>s.
        let s1 = s\<lparr>ks_rxcmd := ks_rxcmd s OR DMSGF_DELETE\<rparr>; ic1 = put_state (km_state msg) s1 ic
        in if \<not> flag (dh_cmd (km_head msg)) DMSGF_DELETE then Ok ic
           else if \<not> flag (ks_txcmd s1) DMSGF_DELETE then Ok ic1
           else obind (if flag (ks_rxcmd s1) DMSGF_REPLY then remove_wr (km_state msg) ic1 else remove_rd (km_state msg) ic1)
                  (close_state (km_state msg)))"

section \<open>Transmitting\<close>

definition kdmsg_state_msgtx :: "malloc_fn \<Rightarrow> kdmsg_iocom \<Rightarrow> kdmsg_msg \<Rightarrow> (kdmsg_iocom \<times> errno) outcome" where
  "kdmsg_state_msgtx malloc ic0 msg =
     obind (get_state ic0 (km_state msg)) (\<lambda>_.
      let ic = (case ic_freewr_state ic0 of
                  Some a \<Rightarrow> ic0
                | None \<Rightarrow> let a = malloc (ic_heap ic0)
                          in (put_state a (zero_state\<lparr>ks_flags := KDMSG_STATE_DYNAMIC\<rparr>) ic0)\<lparr>ic_freewr_state := Some a\<rparr>);
          cmd = dh_cmd (km_head msg); state = km_state msg; abort = flag cmd DMSGF_ABORT
      in if \<not> flag cmd (DMSGF_CREATE OR DMSGF_DELETE OR DMSGF_ABORT) then Ok (ic, E_OK)
         else obind (get_state ic state) (\<lambda>s.
           if flag cmd DMSGF_CREATE \<and> \<not> flag cmd DMSGF_REPLY
           then Ok (put_state state (s\<lparr>ks_icmd := cmd AND DMSGF_BASECMDMASK, ks_txcmd := cmd AND NOT DMSGF_DELETE, ks_rxcmd := DMSGF_REPLY\<rparr>) ic, E_OK)
           else if flag cmd DMSGF_CREATE
           then if state = 0 then Ok (ic, EINVAL)
                else Ok (put_state state (s\<lparr>ks_txcmd := cmd AND NOT DMSGF_DELETE\<rparr>) ic, E_OK)
           else if flag cmd DMSGF_DELETE
           then if state = 0 \<or> \<not> flag (ks_txcmd s) DMSGF_CREATE then Ok (ic, if abort then EALREADY else EINVAL) else Ok (ic, E_OK)
           else if abort \<and> (state = 0 \<or> \<not> flag (ks_txcmd s) DMSGF_CREATE) then Ok (ic, EALREADY)
           else Ok (ic, E_OK)))"

definition kdmsg_state_cleanuptx :: "kdmsg_iocom \<Rightarrow> kdmsg_msg \<Rightarrow> kdmsg_iocom outcome" where
  "kdmsg_state_cleanuptx ic msg =
     obind (get_state ic (km_state msg)) (\<lambda>s.
        let s1 = s\<lparr>ks_txcmd := ks_txcmd s OR DMSGF_DELETE\<rparr>; ic1 = put_state (km_state msg) s1 ic
        in if \<not> flag (dh_cmd (km_head msg)) DMSGF_DELETE then Ok ic
           else if \<not> flag (ks_rxcmd s1) DMSGF_DELETE then Ok ic1
           else obind (if flag (ks_txcmd s1) DMSGF_REPLY then remove_rd (km_state msg) ic1 else remove_wr (km_state msg) ic1)
                  (close_state (km_state msg)))"

section \<open>Messages\<close>

definition kdmsg_msg_alloc :: "malloc_fn \<Rightarrow> kdmsg_iocom \<Rightarrow> u64 \<Rightarrow> u32 \<Rightarrow> nat option \<Rightarrow> (kdmsg_iocom \<times> kdmsg_msg) outcome" where
  "kdmsg_msg_alloc malloc ic state cmd func =
     obind (if flag cmd DMSGF_CREATE \<and> \<not> flag cmd DMSGF_REPLY
            then let a = malloc (ic_heap ic);
                     s = zero_state\<lparr>ks_parent := Some state, ks_flags := KDMSG_STATE_DYNAMIC OR KDMSG_STATE_INSERTED, ks_func := func, ks_msgid := a\<rparr>;
                     ic1 = put_state a s ic
                 in if ic_statewr_tree ic a \<noteq> None then Panic ''duplicate msgid allocated''
                    else obind (get_state ic1 state) (\<lambda>ps.
                           Ok (put_state state (ps\<lparr>ks_subq := ks_subq ps @ [a]\<rparr>) (ic1\<lparr>ic_statewr_tree := (ic_statewr_tree ic)(a \<mapsto> a)\<rparr>), a, state))
            else obind (get_state ic state) (\<lambda>s. (case ks_parent s of None \<Rightarrow> Fault ''pstate'' | Some p \<Rightarrow> Ok (ic, state, p))))
       (\<lambda>(ic1, st, p).
         obind (get_state ic1 st) (\<lambda>s. obind (get_state ic1 p) (\<lambda>ps.
           let cmd1 = (if flag (ks_flags s) KDMSG_STATE_OPPOSITE then cmd OR DMSGF_REVTRANS else cmd);
               cmd2 = (if flag (ks_flags ps) KDMSG_STATE_OPPOSITE then cmd1 OR DMSGF_REVCIRC else cmd1)
           in Ok (ic1, \<lparr>km_state = st, km_tcmd = 0, km_head = \<lparr>dh_salt = 0, dh_msgid = ks_msgid s, dh_circuit = ks_msgid ps, dh_cmd = cmd2, dh_error = 0\<rparr>\<rparr>))))"

definition kdmsg_msg_write :: "kdmsg_iocom \<Rightarrow> kdmsg_msg \<Rightarrow> kdmsg_iocom outcome" where
  "kdmsg_msg_write ic msg =
     obind (get_state ic (km_state msg)) (\<lambda>s.
       if flag (ic_flags ic) KDMSG_IOCOMF_EXITNOACC then Panic ''kdmsg_msg_write: Attempt to write message to terminated iocom''
       else let h = (km_head msg)\<lparr>dh_msgid := ks_msgid s, dh_salt := ic_seq ic AND 255\<rparr>
            in Ok (ic\<lparr>ic_seq := ic_seq ic + 1, ic_msgq := ic_msgq ic @ [msg\<lparr>km_head := h\<rparr>]\<rparr>))"

text \<open>Replies: the first two end a direction, the others keep it open.\<close>

definition reply_cmd :: "kdmsg_state \<Rightarrow> u32" where
  "reply_cmd s = DMSG_LNK_ERROR OR (if flag (ks_txcmd s) DMSGF_CREATE then 0 else DMSGF_CREATE) OR (if flag (ks_txcmd s) DMSGF_REPLY then DMSGF_REPLY else 0)"

definition write_error :: "malloc_fn \<Rightarrow> kdmsg_iocom \<Rightarrow> u64 \<Rightarrow> u32 \<Rightarrow> u32 \<Rightarrow> kdmsg_iocom outcome" where
  "write_error malloc ic state cmd error =
     obind (kdmsg_msg_alloc malloc ic state cmd None) (\<lambda>(ic1, msg). kdmsg_msg_write ic1 (msg\<lparr>km_head := (km_head msg)\<lparr>dh_error := error\<rparr>\<rparr>))"

definition kdmsg_state_reply :: "malloc_fn \<Rightarrow> kdmsg_iocom \<Rightarrow> u64 \<Rightarrow> u32 \<Rightarrow> kdmsg_iocom outcome" where
  "kdmsg_state_reply malloc ic state error =
     obind (get_state ic state) (\<lambda>s.
       if flag (ks_txcmd s) DMSGF_DELETE then Ok ic else write_error malloc ic state (reply_cmd s OR DMSGF_DELETE) error)"

definition kdmsg_state_result :: "malloc_fn \<Rightarrow> kdmsg_iocom \<Rightarrow> u64 \<Rightarrow> u32 \<Rightarrow> kdmsg_iocom outcome" where
  "kdmsg_state_result malloc ic state error =
     obind (get_state ic state) (\<lambda>s.
       if flag (ks_txcmd s) DMSGF_DELETE then Ok ic else write_error malloc ic state (reply_cmd s) error)"

definition kdmsg_msg_reply :: "malloc_fn \<Rightarrow> kdmsg_iocom \<Rightarrow> kdmsg_msg \<Rightarrow> u32 \<Rightarrow> kdmsg_iocom outcome" where
  "kdmsg_msg_reply malloc ic msg error =
     (if km_state msg \<noteq> 0 then kdmsg_state_reply malloc ic (km_state msg) error
      else write_error malloc ic 0 (DMSG_LNK_ERROR OR (if flag (dh_cmd (km_head msg)) DMSGF_REPLY then 0 else DMSGF_REPLY)) error)"

definition kdmsg_msg_result :: "malloc_fn \<Rightarrow> kdmsg_iocom \<Rightarrow> kdmsg_msg \<Rightarrow> u32 \<Rightarrow> kdmsg_iocom outcome" where
  "kdmsg_msg_result malloc ic msg error =
     (if km_state msg \<noteq> 0 then kdmsg_state_result malloc ic (km_state msg) error
      else write_error malloc ic 0 (DMSG_LNK_ERROR OR (if flag (dh_cmd (km_head msg)) DMSGF_REPLY then 0 else DMSGF_REPLY)) error)"

section \<open>Handling of a received message\<close>

text \<open>
  The functions of the device driver: the functions installed in states, \<open>iocom->rcvmsg\<close> and
  \<open>iocom->auto_callback\<close>.
\<close>

record callbacks =
  cb_func :: "nat \<Rightarrow> kdmsg_iocom \<Rightarrow> kdmsg_msg \<Rightarrow> (kdmsg_iocom \<times> errno) outcome"
  cb_rcvmsg :: "kdmsg_iocom \<Rightarrow> kdmsg_msg \<Rightarrow> (kdmsg_iocom \<times> errno) outcome"
  cb_auto_callback :: "(kdmsg_iocom \<Rightarrow> kdmsg_msg \<Rightarrow> kdmsg_iocom outcome) option"

abbreviation (input) DMSG_LNK_CONN :: u32 where "DMSG_LNK_CONN \<equiv> 0x1108"
abbreviation (input) DMSG_LNK_SPAN :: u32 where "DMSG_LNK_SPAN \<equiv> 0x1207"
abbreviation (input) KDMSG_IOCOMF_AUTOCONN :: u32 where "KDMSG_IOCOMF_AUTOCONN \<equiv> 0x1"
abbreviation (input) KDMSG_IOCOMF_AUTORXSPAN :: u32 where "KDMSG_IOCOMF_AUTORXSPAN \<equiv> 0x2"

definition auto_callback :: "callbacks \<Rightarrow> kdmsg_iocom \<Rightarrow> kdmsg_msg \<Rightarrow> kdmsg_iocom outcome" where
  "auto_callback cb ic msg = (case cb_auto_callback cb of None \<Rightarrow> Ok ic | Some f \<Rightarrow> f ic msg)"

definition kdmsg_autorxmsg :: "malloc_fn \<Rightarrow> callbacks \<Rightarrow> kdmsg_iocom \<Rightarrow> kdmsg_msg \<Rightarrow> (kdmsg_iocom \<times> errno) outcome" where
  "kdmsg_autorxmsg malloc cb ic msg =
     obind (get_state ic (km_state msg)) (\<lambda>s.
       let hcmd = dh_cmd (km_head msg); icmd = ks_icmd s AND DMSGF_BASECMDMASK;
           flags = hcmd AND (DMSGF_CREATE OR DMSGF_DELETE OR DMSGF_REPLY);
           autoconn = flag (ic_flags ic) KDMSG_IOCOMF_AUTOCONN; autospan = flag (ic_flags ic) KDMSG_IOCOMF_AUTORXSPAN
       in if icmd = DMSG_LNK_CONN \<and> flags = DMSGF_CREATE
          then if autoconn then obind (kdmsg_msg_result malloc ic msg 0) (\<lambda>ic1. obind (auto_callback cb ic1 msg) (\<lambda>ic2. Ok (ic2, E_OK)))
               else cb_rcvmsg cb ic msg
          else if icmd = DMSG_LNK_CONN \<and> flags \<in> {DMSGF_CREATE OR DMSGF_DELETE, DMSGF_DELETE}
          then if autoconn then obind (auto_callback cb ic msg) (\<lambda>ic1. obind (kdmsg_msg_reply malloc ic1 msg 0) (\<lambda>ic2. Ok (ic2, E_OK)))
               else cb_rcvmsg cb ic msg
          else if icmd = DMSG_LNK_SPAN \<and> flags = DMSGF_CREATE
          then if autospan then obind (auto_callback cb ic msg) (\<lambda>ic1. Ok (ic1, E_OK)) else cb_rcvmsg cb ic msg
          else if icmd = DMSG_LNK_SPAN \<and> flags \<in> {DMSGF_CREATE OR DMSGF_DELETE, DMSGF_DELETE}
          then if autospan then obind (auto_callback cb ic msg) (\<lambda>ic1. obind (kdmsg_msg_reply malloc ic1 msg 0) (\<lambda>ic2. Ok (ic2, E_OK)))
               else cb_rcvmsg cb ic msg
          else cb_rcvmsg cb ic msg)"

definition kdmsg_msg_receive_handling :: "malloc_fn \<Rightarrow> callbacks \<Rightarrow> kdmsg_iocom \<Rightarrow> kdmsg_msg \<Rightarrow> (kdmsg_iocom \<times> errno) outcome" where
  "kdmsg_msg_receive_handling malloc cb ic msg =
     obind (kdmsg_state_msgrx malloc ic msg) (\<lambda>(ic1, msg1, error).
       if error \<noteq> E_OK then Ok (ic1, if error = EALREADY then E_OK else error)
       else obind (get_state ic1 (km_state msg1)) (\<lambda>s.
            obind (case ks_func s of
                     Some f \<Rightarrow> cb_func cb f ic1 msg1
                   | None \<Rightarrow> if flag (ic_flags ic1) KDMSG_IOCOMF_AUTOANY then kdmsg_autorxmsg malloc cb ic1 msg1 else cb_rcvmsg cb ic1 msg1)
              (\<lambda>(ic2, error). obind (kdmsg_state_cleanuprx ic2 msg1) (\<lambda>ic3. Ok (ic3, error)))))"

text \<open>The simulated end of a transaction when the link is lost.\<close>

definition kdmsg_state_abort :: "malloc_fn \<Rightarrow> callbacks \<Rightarrow> kdmsg_iocom \<Rightarrow> u64 \<Rightarrow> kdmsg_iocom outcome" where
  "kdmsg_state_abort malloc cb ic state =
     obind (get_state ic state) (\<lambda>s.
       if flag (ks_flags s) KDMSG_STATE_ABORTING then Ok ic
       else obind (kdmsg_msg_alloc malloc (put_state state (s\<lparr>ks_flags := ks_flags s OR KDMSG_STATE_ABORTING\<rparr>) ic) state DMSG_LNK_ERROR None) (\<lambda>(ic1, msg).
         let h = km_head msg;
             cmd1 = (if flag (ks_rxcmd s) DMSGF_CREATE then dh_cmd h else dh_cmd h OR DMSGF_CREATE);
             cmd2 = (cmd1 OR (DMSGF_DELETE OR (ks_rxcmd s AND DMSGF_REPLY))) XOR (DMSGF_REVTRANS OR DMSGF_REVCIRC)
         in obind (kdmsg_msg_receive_handling malloc cb ic1 (msg\<lparr>km_head := h\<lparr>dh_cmd := cmd2, dh_error := DMSG_ERR_LOSTLINK\<rparr>\<rparr>)) (\<lambda>(ic2, error). Ok ic2)))"

end
