(* ===== verification/H2_Session.thy ===== *)
theory H2_Session
  imports H2_Dmsg
begin

unbundle bit_operations_syntax

text \<open>
  Memory safety of the transactions: the receiving and the transmitting thread of a connection work on the
  same states, and a state is freed by the one that closes the second direction.
\<close>

section \<open>Flags\<close>

named_theorems msg_flags \<open>tests of flags\<close>

lemma flag_or [msg_flags]: "flag (x OR y) m \<longleftrightarrow> flag x m \<or> flag y m"
  by (simp add: flag_def bit.conj_disj_distrib2 word_or_eq_0)

lemma flag_or_mask: "flag x (m OR m') \<longleftrightarrow> flag x m \<or> flag x m'"
  by (simp add: flag_def bit.conj_disj_distrib word_or_eq_0)

lemma flag_unions [msg_flags]:
  "flag x 0xC0000000 \<longleftrightarrow> flag x DMSGF_CREATE \<or> flag x DMSGF_DELETE"
  "flag x 0xD0000000 \<longleftrightarrow> flag x DMSGF_CREATE \<or> flag x DMSGF_DELETE \<or> flag x DMSGF_ABORT"
  using flag_or_mask[of x DMSGF_CREATE DMSGF_DELETE] flag_or_mask[of x "DMSGF_CREATE OR DMSGF_DELETE" DMSGF_ABORT] by simp_all

lemma flag_clear [msg_flags]:
  "flag (x AND - 0x40000001) DMSGF_DELETE \<longleftrightarrow> False" "flag (x AND - 0x40000001) DMSGF_CREATE \<longleftrightarrow> flag x DMSGF_CREATE"
  "flag (x AND - 0x40000001) DMSGF_REPLY \<longleftrightarrow> flag x DMSGF_REPLY"
  "flag (x AND - 2) KDMSG_STATE_INSERTED \<longleftrightarrow> False" "flag (x AND - 2) KDMSG_STATE_OPPOSITE \<longleftrightarrow> flag x KDMSG_STATE_OPPOSITE"
  by (simp_all add: flag_def and.assoc)

lemma flag_zero [simp]: "\<not> flag 0 m"
  by (simp add: flag_def)

section \<open>The heap of states\<close>

abbreviation inserted :: "kdmsg_state \<Rightarrow> bool" where "inserted s \<equiv> flag (ks_flags s) KDMSG_STATE_INSERTED"
abbreviation opposite :: "kdmsg_state \<Rightarrow> bool" where "opposite s \<equiv> flag (ks_flags s) KDMSG_STATE_OPPOSITE"

definition is_cache :: "kdmsg_iocom \<Rightarrow> u64 \<Rightarrow> bool" where
  "is_cache ic a \<longleftrightarrow> ic_freerd_state ic = Some a \<or> ic_freewr_state ic = Some a"

definition heap_ok :: "kdmsg_iocom \<Rightarrow> bool" where
  "heap_ok ic \<longleftrightarrow>
     (\<exists>s. ic_heap ic 0 = Some s \<and> \<not> inserted s \<and> \<not> opposite s \<and> ks_parent s = Some 0 \<and> ks_msgid s = 0) \<and>
     (\<forall>a. is_cache ic a \<longrightarrow> a \<noteq> 0 \<and> (\<exists>s. ic_heap ic a = Some s \<and> \<not> inserted s \<and> \<not> opposite s \<and> ks_subq s = [])) \<and>
     (\<forall>a. \<not> (ic_freerd_state ic = Some a \<and> ic_freewr_state ic = Some a)) \<and>
     (\<forall>a s. ic_heap ic a = Some s \<and> inserted s \<longrightarrow> (\<exists>p ps. ks_parent s = Some p \<and> p \<noteq> a \<and> ic_heap ic p = Some ps \<and> a \<in> set (ks_subq ps))) \<and>
     (\<forall>p ps a. ic_heap ic p = Some ps \<and> a \<in> set (ks_subq ps) \<longrightarrow> (\<exists>s. ic_heap ic a = Some s \<and> inserted s \<and> ks_parent s = Some p)) \<and>
     (\<forall>p ps. ic_heap ic p = Some ps \<longrightarrow> distinct (ks_subq ps)) \<and>
     (\<forall>a s. ic_heap ic a = Some s \<and> \<not> inserted s \<and> a \<noteq> 0 \<and> \<not> is_cache ic a \<longrightarrow> ks_subq s \<noteq> []) \<and>
     (\<forall>m a. ic_staterd_tree ic m = Some a \<longrightarrow> (\<exists>s. ic_heap ic a = Some s \<and> inserted s \<and> opposite s \<and> ks_msgid s = m)) \<and>
     (\<forall>m a. ic_statewr_tree ic m = Some a \<longrightarrow> a = m \<and> (\<exists>s. ic_heap ic a = Some s \<and> inserted s \<and> \<not> opposite s \<and> ks_msgid s = m)) \<and>
     (\<forall>a s. ic_heap ic a = Some s \<and> inserted s \<longrightarrow>
        (if opposite s then ic_staterd_tree ic (ks_msgid s) = Some a else ic_statewr_tree ic (ks_msgid s) = Some a))"

lemma heap_okD:
  assumes "heap_ok ic"
  shows "\<exists>s. ic_heap ic 0 = Some s \<and> \<not> inserted s \<and> \<not> opposite s \<and> ks_parent s = Some 0 \<and> ks_msgid s = 0"
    "is_cache ic a \<Longrightarrow> a \<noteq> 0 \<and> (\<exists>s. ic_heap ic a = Some s \<and> \<not> inserted s \<and> \<not> opposite s \<and> ks_subq s = [])"
    "\<not> (ic_freerd_state ic = Some a \<and> ic_freewr_state ic = Some a)"
    "ic_heap ic a = Some s \<Longrightarrow> inserted s \<Longrightarrow> \<exists>p ps. ks_parent s = Some p \<and> p \<noteq> a \<and> ic_heap ic p = Some ps \<and> a \<in> set (ks_subq ps)"
    "ic_heap ic p = Some ps \<Longrightarrow> a \<in> set (ks_subq ps) \<Longrightarrow> \<exists>s. ic_heap ic a = Some s \<and> inserted s \<and> ks_parent s = Some p"
    "ic_heap ic p = Some ps \<Longrightarrow> distinct (ks_subq ps)"
    "ic_heap ic a = Some s \<Longrightarrow> \<not> inserted s \<Longrightarrow> a \<noteq> 0 \<Longrightarrow> \<not> is_cache ic a \<Longrightarrow> ks_subq s \<noteq> []"
    "ic_staterd_tree ic m = Some a \<Longrightarrow> \<exists>s. ic_heap ic a = Some s \<and> inserted s \<and> opposite s \<and> ks_msgid s = m"
    "ic_statewr_tree ic m = Some a \<Longrightarrow> a = m \<and> (\<exists>s. ic_heap ic a = Some s \<and> inserted s \<and> \<not> opposite s \<and> ks_msgid s = m)"
    "ic_heap ic a = Some s \<Longrightarrow> inserted s \<Longrightarrow> opposite s \<Longrightarrow> ic_staterd_tree ic (ks_msgid s) = Some a"
    "ic_heap ic a = Some s \<Longrightarrow> inserted s \<Longrightarrow> \<not> opposite s \<Longrightarrow> ic_statewr_tree ic (ks_msgid s) = Some a"
  using assms unfolding heap_ok_def by (blast, blast, blast, blast, blast, blast, blast, blast, blast, metis, metis)

text \<open>What the protocol sees of an open transaction.\<close>

record core =
  co_opp :: bool
  co_txC :: bool
  co_txD :: bool
  co_txR :: bool
  co_rxC :: bool
  co_rxD :: bool
  co_rxR :: bool
  co_msgid :: u64

definition core_of :: "kdmsg_state \<Rightarrow> core" where
  "core_of s = \<lparr>co_opp = opposite s, co_txC = flag (ks_txcmd s) DMSGF_CREATE, co_txD = flag (ks_txcmd s) DMSGF_DELETE, co_txR = flag (ks_txcmd s) DMSGF_REPLY,
     co_rxC = flag (ks_rxcmd s) DMSGF_CREATE, co_rxD = flag (ks_rxcmd s) DMSGF_DELETE, co_rxR = flag (ks_rxcmd s) DMSGF_REPLY, co_msgid = ks_msgid s\<rparr>"

definition cores :: "kdmsg_iocom \<Rightarrow> u64 \<rightharpoonup> core" where
  "cores ic a = (case ic_heap ic a of None \<Rightarrow> None | Some s \<Rightarrow> if inserted s then Some (core_of s) else None)"

lemma cores_Some: "cores ic a = Some c \<longleftrightarrow> (\<exists>s. ic_heap ic a = Some s \<and> inserted s \<and> core_of s = c)"
  by (auto simp: cores_def split: option.splits)

lemma cores_zero: "heap_ok ic \<Longrightarrow> cores ic 0 = None"
  using heap_okD(1) by (fastforce simp: cores_def)

lemma get_state_Some [simp]: "ic_heap ic a = Some s \<Longrightarrow> get_state ic a = Ok s"
  by (simp add: get_state_def)

lemma put_state_heap [simp]: "ic_heap (put_state a s ic) = (ic_heap ic)(a \<mapsto> s)"
  "ic_staterd_tree (put_state a s ic) = ic_staterd_tree ic" "ic_statewr_tree (put_state a s ic) = ic_statewr_tree ic"
  "ic_freerd_state (put_state a s ic) = ic_freerd_state ic" "ic_freewr_state (put_state a s ic) = ic_freewr_state ic"
  "ic_msgq (put_state a s ic) = ic_msgq ic" "ic_flags (put_state a s ic) = ic_flags ic" "ic_seq (put_state a s ic) = ic_seq ic"
  by (simp_all add: put_state_def)

lemma free_heap [simp]: "ic_heap (kdmsg_state_free a ic) = (ic_heap ic)(a := None)"
  "ic_staterd_tree (kdmsg_state_free a ic) = ic_staterd_tree ic" "ic_statewr_tree (kdmsg_state_free a ic) = ic_statewr_tree ic"
  "ic_freerd_state (kdmsg_state_free a ic) = ic_freerd_state ic" "ic_freewr_state (kdmsg_state_free a ic) = ic_freewr_state ic"
  "ic_msgq (kdmsg_state_free a ic) = ic_msgq ic" "ic_flags (kdmsg_state_free a ic) = ic_flags ic" "ic_seq (kdmsg_state_free a ic) = ic_seq ic"
  by (simp_all add: kdmsg_state_free_def)

text \<open>Commands of a state may change freely.\<close>

definition same_links :: "kdmsg_state \<Rightarrow> kdmsg_state \<Rightarrow> bool" where
  "same_links s s' \<longleftrightarrow> ks_subq s' = ks_subq s \<and> ks_parent s' = ks_parent s \<and> ks_msgid s' = ks_msgid s \<and> ks_flags s' = ks_flags s"

lemma update_ok:
  assumes h: "heap_ok ic" and s: "ic_heap ic a = Some s" "same_links s s'"
  shows "heap_ok (put_state a s' ic)" "cores (put_state a s' ic) = (if inserted s then (cores ic)(a \<mapsto> core_of s') else cores ic)"
proof -
  let ?ic = "put_state a s' ic"
  have l: "\<And>b x. ic_heap ?ic b = Some x \<Longrightarrow> \<exists>y. ic_heap ic b = Some y \<and> same_links y x"
    using s by (auto simp: same_links_def split: if_splits)
  have l': "\<And>b y. ic_heap ic b = Some y \<Longrightarrow> \<exists>x. ic_heap ?ic b = Some x \<and> same_links y x"
    using s by (auto simp: same_links_def)
  have c: "is_cache ?ic = is_cache ic" by (simp add: is_cache_def fun_eq_iff)
  note H = heap_okD[OF h]
  show "heap_ok ?ic" unfolding heap_ok_def c
  proof (intro conjI allI impI, goal_cases)
    case 1
    then show ?case using H(1) l'[of 0] by (fastforce simp: same_links_def)
  next
    case (2 b)
    then show ?case using H(2)[of b] by blast
  next
    case (3 b)
    then obtain x where x: "ic_heap ic b = Some x" "\<not> inserted x" "\<not> opposite x" "ks_subq x = []" using H(2)[of b] by blast
    then show ?case using l'[OF x(1)] by (auto simp: same_links_def)
  next
    case (4 b)
    then show ?case using H(3)[of b] by simp
  next
    case (5 b x)
    then obtain y where y: "ic_heap ic b = Some y" "same_links y x" using l by blast
    then have "inserted y" using 5 by (simp add: same_links_def)
    then obtain p ps where p: "ks_parent y = Some p" "p \<noteq> b" "ic_heap ic p = Some ps" "b \<in> set (ks_subq ps)" using H(4)[OF y(1)] by blast
    then show ?case using l'[OF p(3)] y(2) by (auto simp: same_links_def)
  next
    case (6 p ps b)
    then obtain qs where q: "ic_heap ic p = Some qs" "b \<in> set (ks_subq qs)" using l[of p ps] by (auto simp: same_links_def)
    then obtain y where y: "ic_heap ic b = Some y" "inserted y" "ks_parent y = Some p" using H(5) by blast
    then show ?case using l'[OF y(1)] by (auto simp: same_links_def)
  next
    case (7 p ps)
    then show ?case using l[of p ps] H(6) by (auto simp: same_links_def)
  next
    case (8 b x)
    then show ?case using l[of b x] H(7)[of b] by (auto simp: same_links_def)
  next
    case (9 m b)
    then obtain y where y: "ic_heap ic b = Some y" "inserted y" "opposite y" "ks_msgid y = m" using H(8)[of m b] by auto
    then show ?case using l'[OF y(1)] by (auto simp: same_links_def)
  next
    case (10 m b)
    then show ?case using H(9)[of m b] by auto
  next
    case (11 m b)
    then obtain y where y: "ic_heap ic b = Some y" "inserted y" "\<not> opposite y" "ks_msgid y = m" using H(9)[of m b] by auto
    then show ?case using l'[OF y(1)] by (auto simp: same_links_def)
  next
    case (12 b x)
    then obtain y where y: "ic_heap ic b = Some y" "same_links y x" using l by blast
    then show ?case using 12 H(10,11)[OF y(1)] by (auto simp: same_links_def)
  qed
  show "cores ?ic = (if inserted s then (cores ic)(a \<mapsto> core_of s') else cores ic)"
    using s by (auto simp: cores_def same_links_def fun_eq_iff)
qed

text \<open>A new cache of a state.\<close>

lemma cache_ok:
  assumes h: "heap_ok ic" and a: "ic_heap ic a = None" and s: "\<not> inserted s" "\<not> opposite s" "ks_subq s = []"
    and ic': "ic' = put_state a s ic" "ic_freerd_state ic = None \<and> ic'' = ic'\<lparr>ic_freerd_state := Some a\<rparr> \<or> ic_freewr_state ic = None \<and> ic'' = ic'\<lparr>ic_freewr_state := Some a\<rparr>"
  shows "heap_ok ic''" "cores ic'' = cores ic"
proof -
  note H = heap_okD[OF h]
  have hp: "ic_heap ic'' = (ic_heap ic)(a \<mapsto> s)" "ic_staterd_tree ic'' = ic_staterd_tree ic" "ic_statewr_tree ic'' = ic_statewr_tree ic" using ic' by auto
  have c: "is_cache ic'' b \<longleftrightarrow> b = a \<or> is_cache ic b" for b using ic' by (auto simp: is_cache_def)
  have a0: "a \<noteq> 0" using H(1) a by auto
  have ne: "b \<noteq> a" if "ic_heap ic b = Some y" for b y using that a by auto
  have nc: "\<not> is_cache ic a" using H(2)[of a] a by auto
  show "heap_ok ic''" unfolding heap_ok_def hp c
  proof (intro conjI allI impI, goal_cases)
    case 1
    then show ?case using H(1) a0 by auto
  next
    case (2 b)
    then show ?case using H(2)[of b] a0 by blast
  next
    case (3 b)
    then show ?case using H(2)[of b] s by (cases "b = a") auto
  next
    case (4 b)
    then show ?case using H(3)[of b] ic' nc by (auto simp: is_cache_def)
  next
    case (5 b x)
    then have y: "ic_heap ic b = Some x" "inserted x" using s by (auto split: if_splits)
    then show ?case using H(4)[OF y] ne by fastforce
  next
    case (6 p ps b)
    then have y: "ic_heap ic p = Some ps" "b \<in> set (ks_subq ps)" using s by (auto split: if_splits)
    then show ?case using H(5)[OF y] ne by fastforce
  next
    case (7 p ps)
    then show ?case using H(6) s by (auto split: if_splits)
  next
    case (8 b x)
    then show ?case using H(7)[of b x] by (auto split: if_splits)
  next
    case (9 m b)
    then show ?case using H(8)[OF 9] ne by fastforce
  next
    case (10 m b)
    then show ?case using H(9)[OF 10] by blast
  next
    case (11 m b)
    then show ?case using H(9)[OF 11] ne by fastforce
  next
    case (12 b x)
    then have y: "ic_heap ic b = Some x" "inserted x" using s by (auto split: if_splits)
    then show ?case using H(10,11)[OF y] by simp
  qed
  show "cores ic'' = cores ic" using s a hp by (auto simp: cores_def fun_eq_iff)
qed

text \<open>A state is stacked on a parent and entered in its tree.\<close>

definition linked :: "u64 \<Rightarrow> kdmsg_state \<Rightarrow> u64 \<Rightarrow> kdmsg_state \<Rightarrow> kdmsg_iocom \<Rightarrow> kdmsg_iocom" where
  "linked a s p ps ic =
     (let ic1 = put_state a s ic
      in put_state p (ps\<lparr>ks_subq := ks_subq ps @ [a]\<rparr>)
           (if opposite s then ic1\<lparr>ic_staterd_tree := (ic_staterd_tree ic)(ks_msgid s \<mapsto> a)\<rparr>
            else ic1\<lparr>ic_statewr_tree := (ic_statewr_tree ic)(ks_msgid s \<mapsto> a)\<rparr>))"

lemma link_ok:
  assumes h: "heap_ok ic" and p: "ic_heap ic p = Some ps" "p = 0 \<or> inserted ps"
    and a: "ic_heap ic a = None \<and> ic' = ic \<or> ic_freerd_state ic = Some a \<and> ic' = ic\<lparr>ic_freerd_state := None\<rparr>"
    and s: "inserted s" "ks_parent s = Some p" "ks_subq s = []"
      "if opposite s then ic_staterd_tree ic (ks_msgid s) = None else ks_msgid s = a \<and> ic_statewr_tree ic a = None"
  shows "heap_ok (linked a s p ps ic')" "cores (linked a s p ps ic') = (cores ic)(a \<mapsto> core_of s)"
proof -
  note H = heap_okD[OF h]
  let ?i = "linked a s p ps ic'" and ?ps = "ps\<lparr>ks_subq := ks_subq ps @ [a]\<rparr>"
  have old: "\<not> inserted y \<and> ks_subq y = [] \<and> a \<noteq> 0" if "ic_heap ic a = Some y" for y
    using a H(2)[of a] that by (auto simp: is_cache_def)
  have a0: "a \<noteq> 0" using a H(1) H(2)[of a] by (auto simp: is_cache_def)
  have pa: "p \<noteq> a" using p a0 old by auto
  have hp: "ic_heap ?i = (ic_heap ic)(a \<mapsto> s, p \<mapsto> ?ps)" using a by (auto simp: linked_def Let_def)
  have c: "is_cache ?i b \<longleftrightarrow> b \<noteq> a \<and> is_cache ic b" for b
    using a H(2)[of a] H(3)[of a] by (auto simp: linked_def Let_def is_cache_def)
  have sub: "a \<notin> set (ks_subq y)" if "ic_heap ic q = Some y" for q y using H(5)[OF that, of a] old by auto
  have up: "ic_heap ?i b = Some x \<Longrightarrow> b \<noteq> a \<Longrightarrow> \<exists>y. ic_heap ic b = Some y \<and> ks_flags x = ks_flags y \<and> ks_parent x = ks_parent y \<and> ks_msgid x = ks_msgid y" for b x
    using p by (auto simp: hp split: if_splits)
  have dn: "ic_heap ic b = Some y \<Longrightarrow> b \<noteq> a \<Longrightarrow> \<exists>x. ic_heap ?i b = Some x \<and> ks_flags x = ks_flags y \<and> ks_parent x = ks_parent y \<and> ks_msgid x = ks_msgid y \<and>
      set (ks_subq y) \<subseteq> set (ks_subq x)" for b y
    using p by (auto simp: hp split: if_splits)
  have ha: "ic_heap ?i a = Some s" using pa by (simp add: hp)
  show "heap_ok ?i" unfolding heap_ok_def c
  proof (intro conjI allI impI, goal_cases)
    case 1
    obtain y where "ic_heap ic 0 = Some y" "\<not> inserted y" "\<not> opposite y" "ks_parent y = Some 0" "ks_msgid y = 0" using H(1) by blast
    then show ?case using dn[of 0 y] a0 by auto
  next
    case (2 b)
    then show ?case using H(2)[of b] by blast
  next
    case (3 b)
    then obtain y where y: "ic_heap ic b = Some y" "\<not> inserted y" "\<not> opposite y" "ks_subq y = []" "b \<noteq> 0" using H(2)[of b] by blast
    have "b \<noteq> p" using y p by auto
    then show ?case using 3 y by (auto simp: hp)
  next
    case (4 b)
    then show ?case using H(3)[of b] a by (auto simp: linked_def Let_def split: if_splits)
  next
    case (5 b x)
    show ?case
    proof (cases "b = a")
      case True
      then have "x = s" using 5 ha by simp
      moreover have "ic_heap ?i p = Some ?ps" by (simp add: hp)
      ultimately show ?thesis using True s(2) pa by auto
    next
      case False
      then obtain y where y: "ic_heap ic b = Some y" "ks_flags x = ks_flags y" "ks_parent x = ks_parent y" using up 5 by blast
      then obtain q qs where q: "ks_parent y = Some q" "q \<noteq> b" "ic_heap ic q = Some qs" "b \<in> set (ks_subq qs)" using H(4)[OF y(1)] 5 by auto
      have "q \<noteq> a" using q old by auto
      then show ?thesis using dn[OF q(3)] q y(3) by fastforce
    qed
  next
    case (6 q qs b)
    show ?case
    proof (cases "b = a")
      case True
      have "q = p"
      proof (rule ccontr)
        assume n: "q \<noteq> p"
        have "q \<noteq> a" using 6 ha s(3) by auto
        then have "ic_heap ic q = Some qs" using n 6 by (simp add: hp)
        then show False using sub 6 True by blast
      qed
      then show ?thesis using True ha s(1,2) by blast
    next
      case False
      have "q \<noteq> a" using 6 ha s(3) by auto
      then obtain y where y: "ic_heap ic q = Some y" "b \<in> set (ks_subq y)" using 6 p False by (auto simp: hp split: if_splits)
      then obtain z where z: "ic_heap ic b = Some z" "inserted z" "ks_parent z = Some q" using H(5) by blast
      then show ?thesis using dn[OF z(1) False] by auto
    qed
  next
    case (7 q qs)
    then show ?case using H(6) p s(3) sub[OF p(1)] by (auto simp: hp split: if_splits)
  next
    case (8 b x)
    then have ba: "b \<noteq> a" using ha s(1) by auto
    then obtain y where y: "ic_heap ic b = Some y" "ks_flags x = ks_flags y" using up 8 by blast
    then show ?case using 8 H(7)[OF y(1)] ba by (auto simp: hp split: if_splits)
  next
    case (9 m b)
    show ?case
    proof (cases "opposite s \<and> m = ks_msgid s")
      case True
      then have "b = a" using 9 by (auto simp: linked_def Let_def)
      then show ?thesis using True ha s(1) by blast
    next
      case False
      then have "ic_staterd_tree ic m = Some b" using 9 a by (auto simp: linked_def Let_def split: if_splits)
      then obtain y where y: "ic_heap ic b = Some y" "inserted y" "opposite y" "ks_msgid y = m" using H(8) by blast
      have "b \<noteq> a" using y old by auto
      then show ?thesis using dn[OF y(1)] y by auto
    qed
  next
    case (10 m b)
    then show ?case using H(9)[of m b] s(4) a by (auto simp: linked_def Let_def split: if_splits)
  next
    case (11 m b)
    show ?case
    proof (cases "\<not> opposite s \<and> m = a")
      case True
      then have "b = a" using 11 s(4) by (auto simp: linked_def Let_def)
      then show ?thesis using True ha s(1,4) by auto
    next
      case False
      then have "ic_statewr_tree ic m = Some b" using 11 a s(4) by (auto simp: linked_def Let_def split: if_splits)
      then obtain y where y: "ic_heap ic b = Some y" "inserted y" "\<not> opposite y" "ks_msgid y = m" using H(9) by blast
      have "b \<noteq> a" using y old by auto
      then show ?thesis using dn[OF y(1)] y by auto
    qed
  next
    case (12 b x)
    show ?case
    proof (cases "b = a")
      case True
      then show ?thesis using 12 ha s(4) a by (auto simp: linked_def Let_def)
    next
      case False
      then obtain y where y: "ic_heap ic b = Some y" "ks_flags x = ks_flags y" "ks_msgid x = ks_msgid y" using up 12 by blast
      then have "inserted y" using 12 by simp
      show ?thesis
      proof (cases "opposite y")
        case True
        then have t: "ic_staterd_tree ic (ks_msgid y) = Some b" using H(10)[OF y(1) \<open>inserted y\<close>] by blast
        then have "opposite s \<longrightarrow> ks_msgid s \<noteq> ks_msgid y" using s(4) by auto
        then have "ic_staterd_tree ?i (ks_msgid y) = Some b" using t a by (auto simp: linked_def Let_def)
        then show ?thesis using True y(2,3) by simp
      next
        case op: False
        then have t: "ic_statewr_tree ic (ks_msgid y) = Some b" using H(11)[OF y(1) \<open>inserted y\<close>] by blast
        then have "\<not> opposite s \<longrightarrow> ks_msgid s \<noteq> ks_msgid y" using s(4) by auto
        then have "ic_statewr_tree ?i (ks_msgid y) = Some b" using t a by (auto simp: linked_def Let_def)
        then show ?thesis using op y(2,3) by simp
      qed
    qed
  qed
  have "core_of ?ps = core_of ps" by (simp add: core_of_def)
  then show "cores ?i = (cores ic)(a \<mapsto> core_of s)" using p pa s(1) by (auto simp: cores_def hp fun_eq_iff)
qed

text \<open>A transaction is closed: it leaves its tree and its parent, and is freed with what only waited for it.\<close>

definition unlisted :: "u64 \<Rightarrow> kdmsg_state \<Rightarrow> kdmsg_iocom \<Rightarrow> kdmsg_iocom" where
  "unlisted a s ic = (if opposite s then ic\<lparr>ic_staterd_tree := (ic_staterd_tree ic)(ks_msgid s := None)\<rparr>
     else ic\<lparr>ic_statewr_tree := (ic_statewr_tree ic)(ks_msgid s := None)\<rparr>)"

lemma close_ok:
  assumes h: "heap_ok ic" and s: "ic_heap ic a = Some s" "inserted s"
  shows "\<exists>ic'. close_state a (unlisted a s ic) = Ok ic' \<and> heap_ok ic' \<and> cores ic' = (cores ic)(a := None) \<and>
    ic_msgq ic' = ic_msgq ic \<and> ic_flags ic' = ic_flags ic"
proof -
  note H = heap_okD[OF h]
  obtain p ps where p: "ks_parent s = Some p" "p \<noteq> a" "ic_heap ic p = Some ps" "a \<in> set (ks_subq ps)" using H(4)[OF s] by blast
  define ps1 where "ps1 = ps\<lparr>ks_subq := remove1 a (ks_subq ps)\<rparr>"
  define s3 where "s3 = s\<lparr>ks_flags := ks_flags s AND NOT KDMSG_STATE_INSERTED, ks_parent := None\<rparr>"
  define dead where "dead \<longleftrightarrow> p \<noteq> 0 \<and> ks_subq ps1 = [] \<and> \<not> inserted ps1"
  define ic1 where "ic1 = put_state p ps1 (unlisted a s ic)"
  define ic2 where "ic2 = (if dead then kdmsg_state_free p ic1 else ic1)"
  define ic3 where "ic3 = put_state a s3 ic2"
  define ic' where "ic' = (if ks_subq s = [] then kdmsg_state_free a ic3 else ic3)"
  have uh: "ic_heap (unlisted a s ic) = ic_heap ic" "ic_msgq (unlisted a s ic) = ic_msgq ic" "ic_flags (unlisted a s ic) = ic_flags ic"
    "ic_freerd_state (unlisted a s ic) = ic_freerd_state ic" "ic_freewr_state (unlisted a s ic) = ic_freewr_state ic" by (simp_all add: unlisted_def)
  have h2: "ic_heap ic2 a = Some s" using s p(2) by (simp add: ic2_def ic1_def uh)
  have "close_state a (unlisted a s ic) = Ok ic'"
    using s p h2 by (simp add: close_state_def uh Let_def ic'_def ic3_def s3_def ic2_def ic1_def dead_def ps1_def get_state_def)
  moreover have hp: "ic_heap ic' = (ic_heap ic)(p := if dead then None else Some ps1, a := if ks_subq s = [] then None else Some s3)"
    using p(2) by (auto simp: ic'_def ic3_def ic2_def ic1_def uh fun_eq_iff)
  have fields: "ic_msgq ic' = ic_msgq ic" "ic_flags ic' = ic_flags ic" "ic_freerd_state ic' = ic_freerd_state ic" "ic_freewr_state ic' = ic_freewr_state ic"
    "ic_staterd_tree ic' = ic_staterd_tree (unlisted a s ic)" "ic_statewr_tree ic' = ic_statewr_tree (unlisted a s ic)"
    by (simp_all add: ic'_def ic3_def ic2_def ic1_def uh)
  have c: "is_cache ic' = is_cache ic" by (simp add: is_cache_def fun_eq_iff fields)
  have a0: "a \<noteq> 0" using H(1) s by auto
  have na: "\<not> is_cache ic a" "\<not> is_cache ic p" using H(2) s p(3,4) by fastforce+
  have d: "distinct (ks_subq ps)" "set (ks_subq ps1) = set (ks_subq ps) - {a}" using H(6)[OF p(3)] by (simp_all add: ps1_def)
  have s3i: "\<not> inserted s3" "ks_subq s3 = ks_subq s" by (simp_all add: s3_def msg_flags)
  have up: "b \<noteq> a \<and> (\<exists>y. ic_heap ic b = Some y \<and> ks_flags x = ks_flags y \<and> ks_parent x = ks_parent y \<and> ks_msgid x = ks_msgid y)"
    if "ic_heap ic' b = Some x" "inserted x" for b x using that p(3) s3i by (auto simp: hp ps1_def split: if_splits)
  have dn: "\<exists>x. ic_heap ic' b = Some x \<and> ks_flags x = ks_flags y \<and> ks_parent x = ks_parent y \<and> ks_msgid x = ks_msgid y \<and> core_of x = core_of y"
    if "ic_heap ic b = Some y" "inserted y" "b \<noteq> a" for b y using that p(3) by (auto simp: hp dead_def ps1_def core_of_def)
  have "heap_ok ic'" unfolding heap_ok_def c
  proof (intro conjI allI impI, goal_cases)
    case 1
    show ?case using H(1) p a0 by (auto simp: hp dead_def ps1_def)
  next
    case (2 b)
    then show ?case using H(2)[of b] by blast
  next
    case (3 b)
    then have "b \<noteq> a" "b \<noteq> p" using na by auto
    then show ?case using H(2)[OF 3] by (simp add: hp)
  next
    case (4 b)
    then show ?case using H(3)[of b] by (simp add: fields)
  next
    case (5 b x)
    then obtain y where y: "b \<noteq> a" "ic_heap ic b = Some y" "ks_flags x = ks_flags y" "ks_parent x = ks_parent y" using up by blast
    then have "inserted y" using 5 by simp
    then obtain q qs where q: "ks_parent y = Some q" "q \<noteq> b" "ic_heap ic q = Some qs" "b \<in> set (ks_subq qs)" using H(4)[OF y(2)] by blast
    consider "q = a" | "q = p" "q \<noteq> a" | "q \<noteq> p" "q \<noteq> a" by blast
    then have "\<exists>qs'. ic_heap ic' q = Some qs' \<and> b \<in> set (ks_subq qs')"
    proof cases
      case 1
      then show ?thesis using q s(1) s3i by (auto simp: hp)
    next
      case 2
      then have "b \<in> set (ks_subq ps1)" using q p(3) d y(1) by auto
      then show ?thesis using 2 by (auto simp: hp dead_def)
    next
      case 3
      then show ?thesis using q by (simp add: hp)
    qed
    then show ?case using q y(4) by auto
  next
    case (6 q qs b)
    have "\<exists>ys. ic_heap ic q = Some ys \<and> b \<in> set (ks_subq ys) \<and> b \<noteq> a"
    proof (cases "q = a")
      case True
      then have "b \<in> set (ks_subq s)" using 6 s3i by (auto simp: hp split: if_splits)
      then show ?thesis using True s(1) H(5)[OF s(1), of b] p(1,2) s(1) by auto
    next
      case qa: False
      show ?thesis
      proof (cases "q = p")
        case True
        then have "b \<in> set (ks_subq ps1)" using 6 qa by (auto simp: hp split: if_splits)
        then show ?thesis using True p(3) d by auto
      next
        case False
        then have q: "ic_heap ic q = Some qs" using 6 qa by (simp add: hp)
        have "b \<noteq> a"
        proof
          assume "b = a"
          then have "ks_parent s = Some q" using H(5)[OF q, of a] 6 s(1) by auto
          then show False using p(1) False by simp
        qed
        then show ?thesis using q 6 by blast
      qed
    qed
    then obtain ys where ys: "ic_heap ic q = Some ys" "b \<in> set (ks_subq ys)" "b \<noteq> a" by blast
    then obtain y where y: "ic_heap ic b = Some y" "inserted y" "ks_parent y = Some q" using H(5) by blast
    then show ?case using dn[OF y(1,2) ys(3)] by auto
  next
    case (7 q qs)
    then show ?case using H(6) d(1) p(3) s3i H(6)[OF s(1)] by (auto simp: hp ps1_def split: if_splits)
  next
    case (8 b x)
    then show ?case using H(7)[of b x] s3i by (auto simp: hp dead_def split: if_splits)
  next
    case (9 m b)
    then have t: "ic_staterd_tree ic m = Some b" by (auto simp: fields unlisted_def split: if_splits)
    then obtain y where y: "ic_heap ic b = Some y" "inserted y" "opposite y" "ks_msgid y = m" using H(8) by blast
    have "b \<noteq> a" using 9 y s by (auto simp: fields unlisted_def split: if_splits)
    then show ?case using dn[OF y(1,2)] y by auto
  next
    case (10 m b)
    then have t: "ic_statewr_tree ic m = Some b" by (auto simp: fields unlisted_def split: if_splits)
    then show ?case using H(9) by blast
  next
    case (11 m b)
    then have t: "ic_statewr_tree ic m = Some b" by (auto simp: fields unlisted_def split: if_splits)
    then obtain y where y: "ic_heap ic b = Some y" "inserted y" "\<not> opposite y" "ks_msgid y = m" using H(9) by blast
    have "b \<noteq> a" using 11 y s by (auto simp: fields unlisted_def split: if_splits)
    then show ?case using dn[OF y(1,2)] y by auto
  next
    case (12 b x)
    then obtain y where y: "b \<noteq> a" "ic_heap ic b = Some y" "ks_flags x = ks_flags y" "ks_msgid x = ks_msgid y" using up by blast
    then have iy: "inserted y" using 12 by simp
    show ?case
    proof (cases "opposite y")
      case True
      have t: "ic_staterd_tree ic (ks_msgid y) = Some b" using H(10)[OF y(2) iy True] .
      then have "opposite s \<longrightarrow> ks_msgid s \<noteq> ks_msgid y" using H(10)[OF s] y(1) by auto
      then show ?thesis using t True y(3,4) by (auto simp: fields unlisted_def)
    next
      case False
      have t: "ic_statewr_tree ic (ks_msgid y) = Some b" using H(11)[OF y(2) iy False] .
      then have "\<not> opposite s \<longrightarrow> ks_msgid s \<noteq> ks_msgid y" using H(11)[OF s] y(1) by auto
      then show ?thesis using t False y(3,4) by (auto simp: fields unlisted_def)
    qed
  qed
  moreover have "cores ic' = (cores ic)(a := None)"
  proof
    fix b
    show "cores ic' b = ((cores ic)(a := None)) b"
      using p(3) s3i by (auto simp: cores_def hp dead_def ps1_def core_of_def)
  qed
  ultimately show ?thesis using fields by blast
qed

section \<open>The operations on open transactions\<close>

text \<open>\<open>malloc\<close> returns an address that is not in use.\<close>

definition malloc_ok :: "malloc_fn \<Rightarrow> kdmsg_iocom \<Rightarrow> bool" where
  "malloc_ok malloc ic \<longleftrightarrow> ic_heap ic (malloc (ic_heap ic)) = None"

abbreviation mC :: "dmsg_hdr \<Rightarrow> bool" where "mC h \<equiv> flag (dh_cmd h) DMSGF_CREATE"
abbreviation mD :: "dmsg_hdr \<Rightarrow> bool" where "mD h \<equiv> flag (dh_cmd h) DMSGF_DELETE"
abbreviation mR :: "dmsg_hdr \<Rightarrow> bool" where "mR h \<equiv> flag (dh_cmd h) DMSGF_REPLY"
abbreviation mA :: "dmsg_hdr \<Rightarrow> bool" where "mA h \<equiv> flag (dh_cmd h) DMSGF_ABORT"
abbreviation mV :: "dmsg_hdr \<Rightarrow> bool" where "mV h \<equiv> flag (dh_cmd h) DMSGF_REVTRANS"

lemma find_open:
  assumes "heap_ok ic" "find_state ic v m = Some a"
  shows "a \<noteq> 0 \<and> (\<exists>s. ic_heap ic a = Some s \<and> inserted s \<and> opposite s = (\<not> v) \<and> ks_msgid s = m)"
proof -
  have "\<exists>s. ic_heap ic a = Some s \<and> inserted s \<and> opposite s = (\<not> v) \<and> ks_msgid s = m"
    using assms(2) heap_okD(8,9)[OF assms(1), of m a] by (auto simp: find_state_def split: if_splits)
  then show ?thesis using heap_okD(1)[OF assms(1)] by auto
qed

lemma find_core:
  assumes "heap_ok ic"
  shows "find_state ic v m = Some a \<longleftrightarrow> (\<exists>c. cores ic a = Some c \<and> co_opp c = (\<not> v) \<and> co_msgid c = m)"
proof
  assume "find_state ic v m = Some a"
  then obtain s where "ic_heap ic a = Some s" "inserted s" "opposite s = (\<not> v)" "ks_msgid s = m" using find_open[OF assms] by blast
  then show "\<exists>c. cores ic a = Some c \<and> co_opp c = (\<not> v) \<and> co_msgid c = m"
    by (intro exI[of _ "core_of s"]) (simp add: cores_def core_of_def)
next
  assume "\<exists>c. cores ic a = Some c \<and> co_opp c = (\<not> v) \<and> co_msgid c = m"
  then show "find_state ic v m = Some a" using heap_okD(10,11)[OF assms] by (auto simp: cores_Some core_of_def find_state_def)
qed

lemma freerd_ready:
  assumes h: "heap_ok ic0" and m: "malloc_ok malloc ic0 \<or> ic_freerd_state ic0 \<noteq> None"
  shows "\<exists>ic new s. (case ic_freerd_state ic0 of Some a \<Rightarrow> (ic0, a)
      | None \<Rightarrow> let a = malloc (ic_heap ic0) in ((put_state a (zero_state\<lparr>ks_flags := KDMSG_STATE_DYNAMIC\<rparr>) ic0)\<lparr>ic_freerd_state := Some a\<rparr>, a)) = (ic, new) \<and>
    heap_ok ic \<and> cores ic = cores ic0 \<and> ic_freerd_state ic = Some new \<and> ic_msgq ic = ic_msgq ic0 \<and> ic_flags ic = ic_flags ic0 \<and>
    ic_heap ic new = Some s \<and> \<not> inserted s \<and> \<not> opposite s \<and> ks_subq s = []"
proof (cases "ic_freerd_state ic0")
  case None
  let ?a = "malloc (ic_heap ic0)" and ?s = "zero_state\<lparr>ks_flags := KDMSG_STATE_DYNAMIC\<rparr>"
  have a: "ic_heap ic0 ?a = None" using m None by (simp add: malloc_ok_def)
  have s: "\<not> inserted ?s" "\<not> opposite ?s" "ks_subq ?s = []" by (simp_all add: zero_state_def flag_def)
  note C = cache_ok[OF h a s refl, of "(put_state ?a ?s ic0)\<lparr>ic_freerd_state := Some ?a\<rparr>"]
  show ?thesis using None C s
    by (intro exI[of _ "(put_state ?a ?s ic0)\<lparr>ic_freerd_state := Some ?a\<rparr>"] exI[of _ ?a] exI[of _ ?s]) (simp add: Let_def)
next
  case (Some a)
  then have "is_cache ic0 a" by (simp add: is_cache_def)
  then show ?thesis using Some heap_okD(2)[OF h, of a] h by (intro exI[of _ ic0] exI[of _ a]) auto
qed

lemma msgrx_done_eq:
  assumes "state = 0 \<or> (\<exists>s. ic_heap ic state = Some s)"
  shows "\<exists>t. msgrx_done ic msg state e = Ok (ic, msg\<lparr>km_state := state, km_tcmd := t\<rparr>, e)"
  using assms by (auto simp: msgrx_done_def Let_def)

text \<open>A received message: it is refused, or it belongs to an open transaction, or to none, or opens one in either direction.\<close>

lemma msgrx_ok:
  assumes h: "heap_ok ic0" and m: "malloc_ok malloc ic0 \<or> ic_freerd_state ic0 \<noteq> None"
    and v: "mC (km_head msg) \<or> mD (km_head msg) \<Longrightarrow> mR (km_head msg) = mV (km_head msg)"
  shows "\<exists>ic' msg' e. kdmsg_state_msgrx malloc ic0 msg = Ok (ic', msg', e) \<and> heap_ok ic' \<and> ic_msgq ic' = ic_msgq ic0 \<and> ic_flags ic' = ic_flags ic0 \<and>
    km_head msg' = km_head msg \<and>
    (e \<noteq> E_OK \<and> cores ic' = cores ic0 \<or>
     e = E_OK \<and> cores ic' = cores ic0 \<and> km_state msg' = 0 \<and> \<not> mC (km_head msg) \<and> \<not> mD (km_head msg) \<or>
     e = E_OK \<and> cores ic' = cores ic0 \<and> \<not> mC (km_head msg) \<and>
       (\<exists>c. cores ic0 (km_state msg') = Some c \<and> co_opp c = (\<not> mV (km_head msg)) \<and> co_msgid c = dh_msgid (km_head msg) \<and> (mD (km_head msg) \<longrightarrow> co_rxC c)) \<or>
     e = E_OK \<and> mC (km_head msg) \<and> mR (km_head msg) \<and>
       (\<exists>c. cores ic0 (km_state msg') = Some c \<and> co_opp c = (\<not> mV (km_head msg)) \<and> co_msgid c = dh_msgid (km_head msg) \<and>
          cores ic' = (cores ic0)(km_state msg' \<mapsto> c\<lparr>co_rxC := True, co_rxD := False, co_rxR := True\<rparr>)) \<or>
     e = E_OK \<and> mC (km_head msg) \<and> \<not> mR (km_head msg) \<and> cores ic0 (km_state msg') = None \<and> km_state msg' \<noteq> 0 \<and>
       cores ic' = (cores ic0)(km_state msg' \<mapsto> \<lparr>co_opp = True, co_txC = False, co_txD = False, co_txR = True, co_rxC = True, co_rxD = False, co_rxR = False,
          co_msgid = dh_msgid (km_head msg)\<rparr>))"
proof -
  let ?h = "km_head msg"
  from freerd_ready[OF h m] obtain ic new s where
    f: "(case ic_freerd_state ic0 of Some a \<Rightarrow> (ic0, a)
      | None \<Rightarrow> let a = malloc (ic_heap ic0) in ((put_state a (zero_state\<lparr>ks_flags := KDMSG_STATE_DYNAMIC\<rparr>) ic0)\<lparr>ic_freerd_state := Some a\<rparr>, a)) = (ic, new)"
      "heap_ok ic" "cores ic = cores ic0" "ic_freerd_state ic = Some new" "ic_msgq ic = ic_msgq ic0" "ic_flags ic = ic_flags ic0"
      "ic_heap ic new = Some s" "\<not> inserted s" "\<not> opposite s" "ks_subq s = []" by (elim exE conjE) (rule that)
  define state where "state = (case find_state ic (mV ?h) (dh_msgid ?h) of None \<Rightarrow> 0 | Some a \<Rightarrow> a)"
  note D = kdmsg_state_msgrx_def[of malloc ic0 msg, unfolded Let_def, unfolded f(1)[unfolded Let_def] case_prod_conv, folded state_def]
  have "cores ic new = None" using f(7,8) by (simp add: cores_def)
  then have new0: "new \<noteq> 0" "cores ic0 new = None" using heap_okD(2)[OF f(2), of new] f(3,4) by (auto simp: is_cache_def)
  have st: "state = 0 \<or> (\<exists>c. cores ic0 state = Some c \<and> co_opp c = (\<not> mV ?h) \<and> co_msgid c = dh_msgid ?h)"
    using find_core[OF f(2), of "mV ?h" "dh_msgid ?h"] f(3) by (auto simp: state_def split: option.splits)
  have hs: "\<exists>x. ic_heap ic state = Some x" using st heap_okD(1)[OF f(2)] f(3) by (metis cores_Some)
  have z: "cores ic0 0 = None" by (rule cores_zero[OF h])
  consider (none) "\<not> flag (dh_cmd ?h) (DMSGF_CREATE OR DMSGF_DELETE OR DMSGF_ABORT)" | (create) "mC ?h" "\<not> mR ?h" | (exist) "\<not> (mC ?h \<and> \<not> mR ?h)" "flag (dh_cmd ?h) (DMSGF_CREATE OR DMSGF_DELETE OR DMSGF_ABORT)"
    by blast
  then show ?thesis
  proof cases
    case none
    then have n: "\<not> mC ?h" "\<not> mD ?h" by (simp_all add: msg_flags)
    obtain t where "msgrx_done ic msg state E_OK = Ok (ic, msg\<lparr>km_state := state, km_tcmd := t\<rparr>, E_OK)" using msgrx_done_eq hs by blast
    then show ?thesis unfolding D using none n st f(2,3,5,6) z by auto
  next
    case exist
    obtain x where x: "ic_heap ic state = Some x" using hs by blast
    have "cores ic0 state = (if inserted x then Some (core_of x) else None)" using x by (simp add: f(3)[symmetric] cores_def)
    then have core: "state \<noteq> 0 \<Longrightarrow> inserted x \<and> cores ic0 state = Some (core_of x)" using st by (auto split: if_splits)
    have E: "kdmsg_state_msgrx malloc ic0 msg = msgrx_existing ic msg state" unfolding D using exist by auto
    have done_ok: "\<exists>t. msgrx_done ic msg state e = Ok (ic, msg\<lparr>km_state := state, km_tcmd := t\<rparr>, e)" for e using msgrx_done_eq hs by blast
    show ?thesis
    proof (cases "mC ?h \<and> state \<noteq> 0")
      case True
      define s' where "s' = x\<lparr>ks_rxcmd := dh_cmd ?h AND NOT DMSGF_DELETE\<rparr>"
      have r: "mR ?h" using exist True by blast
      have sl: "same_links x s'" by (simp add: same_links_def s'_def)
      note U = update_ok[OF f(2) x sl]
      obtain t where t: "msgrx_done (put_state state s' ic) msg state E_OK = Ok (put_state state s' ic, msg\<lparr>km_state := state, km_tcmd := t\<rparr>, E_OK)"
        using msgrx_done_eq[of state "put_state state s' ic"] by auto
      have "core_of s' = (core_of x)\<lparr>co_rxC := True, co_rxD := False, co_rxR := True\<rparr>" using True r by (simp add: core_of_def s'_def msg_flags)
      moreover have "msgrx_existing ic msg state = msgrx_done (put_state state s' ic) msg state E_OK" using True x by (simp add: msgrx_existing_def s'_def)
      ultimately show ?thesis unfolding E using t U core True r st f(3,5,6) by auto
    next
      case False
      have "\<exists>e. msgrx_existing ic msg state = msgrx_done ic msg state e \<and>
        (e = E_OK \<longrightarrow> \<not> mC ?h \<and> (mD ?h \<longrightarrow> state \<noteq> 0 \<and> flag (ks_rxcmd x) DMSGF_CREATE))"
      proof (cases "mC ?h")
        case True
        then show ?thesis using False x by (intro exI[of _ EINVAL]) (simp add: msgrx_existing_def)
      next
        case c: False
        show ?thesis using c x
          by (cases "mD ?h \<and> (state = 0 \<or> \<not> flag (ks_rxcmd x) DMSGF_CREATE)"; cases "mA ?h")
            (auto simp: msgrx_existing_def intro: exI[of _ EALREADY] exI[of _ EINVAL] exI[of _ E_OK])
      qed
      then obtain e where e: "msgrx_existing ic msg state = msgrx_done ic msg state e" "e = E_OK \<longrightarrow> \<not> mC ?h \<and> (mD ?h \<longrightarrow> state \<noteq> 0 \<and> flag (ks_rxcmd x) DMSGF_CREATE)" by blast
      obtain t where t: "msgrx_done ic msg state e = Ok (ic, msg\<lparr>km_state := state, km_tcmd := t\<rparr>, e)" using done_ok by blast
      have rc: "mD ?h \<and> e = E_OK \<longrightarrow> co_rxC (core_of x)" using e(2) by (simp add: core_of_def)
      show ?thesis unfolding E e(1) t using e(2) st core rc f(2,3,5,6) z by (cases "e = E_OK"; cases "state = 0") auto
    qed
  next
    case create
    define ps where "ps = (if dh_circuit ?h = 0 then Some 0 else find_state ic (flag (dh_cmd ?h) DMSGF_REVCIRC) (dh_circuit ?h))"
    have E: "kdmsg_state_msgrx malloc ic0 msg = msgrx_create ic msg state new" unfolding D using create by (simp add: msg_flags)
    note K = msgrx_create_def[of ic msg state new, unfolded Let_def, folded ps_def]
    show ?thesis
    proof (cases "state = 0 \<and> ps \<noteq> None")
      case False
      have "msgrx_create ic msg state new = msgrx_done ic msg state EINVAL" unfolding K using False by auto
      moreover obtain t where "msgrx_done ic msg state EINVAL = Ok (ic, msg\<lparr>km_state := state, km_tcmd := t\<rparr>, EINVAL)" using msgrx_done_eq hs by blast
      ultimately show ?thesis unfolding E using f(2,3,5,6) by simp
    next
      case True
      then obtain p where p: "ps = Some p" by auto
      have "\<exists>q. ic_heap ic p = Some q \<and> (p = 0 \<or> inserted q)"
      proof (cases "dh_circuit ?h = 0")
        case True
        then show ?thesis using p heap_okD(1)[OF f(2)] by (auto simp: ps_def)
      next
        case False
        then have "find_state ic (flag (dh_cmd ?h) DMSGF_REVCIRC) (dh_circuit ?h) = Some p" using p by (simp add: ps_def)
        then show ?thesis using find_open[OF f(2)] by blast
      qed
      then obtain q where q: "ic_heap ic p = Some q" "p = 0 \<or> inserted q" by blast
      define s1 where "s1 = s\<lparr>ks_parent := Some p, ks_flags := ks_flags s OR (KDMSG_STATE_INSERTED OR KDMSG_STATE_OPPOSITE),
        ks_icmd := dh_cmd ?h AND DMSGF_BASECMDMASK, ks_rxcmd := dh_cmd ?h AND NOT DMSGF_DELETE, ks_txcmd := DMSGF_REPLY, ks_msgid := dh_msgid ?h\<rparr>"
      have s1: "inserted s1" "opposite s1" "ks_parent s1 = Some p" "ks_subq s1 = []" "ks_msgid s1 = dh_msgid ?h"
        using f(10) by (simp_all add: s1_def flag_or) (simp_all add: flag_def)
      have rd: "ic_staterd_tree ic (dh_msgid ?h) = None"
        using True create v find_open[OF f(2), of False "dh_msgid ?h" 0] unfolding state_def by (auto simp: find_state_def split: option.splits)
      have pn: "p \<noteq> new" using q f(7,8) new0(1) by auto
      have c1: "if opposite s1 then ic_staterd_tree ic (ks_msgid s1) = None else ks_msgid s1 = new \<and> ic_statewr_tree ic new = None" using s1 rd by simp
      have fr: "ic_heap ic new = None \<and> ic\<lparr>ic_freerd_state := None\<rparr> = ic \<or> ic_freerd_state ic = Some new \<and> ic\<lparr>ic_freerd_state := None\<rparr> = ic\<lparr>ic_freerd_state := None\<rparr>"
        using f(4) by simp
      note L = link_ok[OF f(2) q fr s1(1,3,4) c1]
      let ?i = "linked new s1 p q (ic\<lparr>ic_freerd_state := None\<rparr>)"
      have eq: "insert_rd (dh_msgid ?h) new (put_state new s1 (ic\<lparr>ic_freerd_state := None\<rparr>)) = (put_state new s1 (ic\<lparr>ic_freerd_state := None\<rparr>))\<lparr>ic_staterd_tree := (ic_staterd_tree ic)(dh_msgid ?h \<mapsto> new)\<rparr>"
        using rd by (simp add: insert_rd_def)
      let ?j = "insert_rd (dh_msgid ?h) new (put_state new s1 (ic\<lparr>ic_freerd_state := None\<rparr>))"
      have "msgrx_create ic msg state new = obind (get_state ?j p) (\<lambda>ps. msgrx_done (put_state p (ps\<lparr>ks_subq := ks_subq ps @ [new]\<rparr>) ?j) msg new E_OK)"
        unfolding K s1_def using True p f(7) by simp
      also have "\<dots> = msgrx_done ?i msg new E_OK" unfolding eq using q(1) pn s1(2,5) by (simp add: linked_def Let_def get_state_def put_state_def)
      finally have "msgrx_create ic msg state new = msgrx_done ?i msg new E_OK" .
      moreover obtain t where "msgrx_done ?i msg new E_OK = Ok (?i, msg\<lparr>km_state := new, km_tcmd := t\<rparr>, E_OK)"
        using msgrx_done_eq[of new ?i] L(2) pn by (fastforce simp: linked_def Let_def)
      moreover have "core_of s1 = \<lparr>co_opp = True, co_txC = False, co_txD = False, co_txR = True, co_rxC = True, co_rxD = False, co_rxR = False, co_msgid = dh_msgid ?h\<rparr>"
        using s1(2,5) create by (simp add: core_of_def) (simp add: s1_def msg_flags, simp add: flag_def)
      moreover have "ic_msgq ?i = ic_msgq ic0" "ic_flags ?i = ic_flags ic0" using f(5,6) by (simp_all add: linked_def Let_def)
      ultimately show ?thesis unfolding E using L f(3) create new0 by simp
    qed
  qed
qed

lemma open_state:
  assumes "cores ic a = Some c"
  obtains s where "ic_heap ic a = Some s" "inserted s" "core_of s = c"
  using assms by (auto simp: cores_Some)

lemma freewr_ready:
  assumes h: "heap_ok ic0" and m: "malloc_ok malloc ic0 \<or> ic_freewr_state ic0 \<noteq> None"
  shows "\<exists>ic. (case ic_freewr_state ic0 of Some a \<Rightarrow> ic0
      | None \<Rightarrow> let a = malloc (ic_heap ic0) in (put_state a (zero_state\<lparr>ks_flags := KDMSG_STATE_DYNAMIC\<rparr>) ic0)\<lparr>ic_freewr_state := Some a\<rparr>) = ic \<and>
    heap_ok ic \<and> cores ic = cores ic0 \<and> ic_msgq ic = ic_msgq ic0 \<and> ic_flags ic = ic_flags ic0"
proof (cases "ic_freewr_state ic0")
  case None
  let ?a = "malloc (ic_heap ic0)" and ?s = "zero_state\<lparr>ks_flags := KDMSG_STATE_DYNAMIC\<rparr>"
  have a: "ic_heap ic0 ?a = None" using m None by (simp add: malloc_ok_def)
  have s: "\<not> inserted ?s" "\<not> opposite ?s" "ks_subq ?s = []" by (simp_all add: zero_state_def flag_def)
  note C = cache_ok[OF h a s refl, of "(put_state ?a ?s ic0)\<lparr>ic_freewr_state := Some ?a\<rparr>"]
  show ?thesis using None C by (simp add: Let_def)
qed (use h in simp)

text \<open>A message that is transmitted.\<close>

lemma msgtx_ok:
  assumes h: "heap_ok ic0" and m: "malloc_ok malloc ic0 \<or> ic_freewr_state ic0 \<noteq> None"
    and st: "km_state msg = 0 \<and> \<not> mC (km_head msg) \<and> \<not> mD (km_head msg) \<and> \<not> mA (km_head msg) \<or>
      cores ic0 (km_state msg) = Some c \<and> (\<not> mC (km_head msg) \<longrightarrow> co_txC c)"
  shows "\<exists>ic'. kdmsg_state_msgtx malloc ic0 msg = Ok (ic', E_OK) \<and> heap_ok ic' \<and> ic_msgq ic' = ic_msgq ic0 \<and> ic_flags ic' = ic_flags ic0 \<and>
    cores ic' = (if \<not> mC (km_head msg) then cores ic0
      else if mR (km_head msg) then (cores ic0)(km_state msg \<mapsto> c\<lparr>co_txC := True, co_txD := False, co_txR := True\<rparr>)
      else (cores ic0)(km_state msg \<mapsto> c\<lparr>co_txC := True, co_txD := False, co_txR := False, co_rxC := False, co_rxD := False, co_rxR := True\<rparr>))"
proof -
  let ?h = "km_head msg" and ?a = "km_state msg"
  from freewr_ready[OF h m] obtain ic where f: "(case ic_freewr_state ic0 of Some a \<Rightarrow> ic0
      | None \<Rightarrow> let a = malloc (ic_heap ic0) in (put_state a (zero_state\<lparr>ks_flags := KDMSG_STATE_DYNAMIC\<rparr>) ic0)\<lparr>ic_freewr_state := Some a\<rparr>) = ic"
      "heap_ok ic" "cores ic = cores ic0" "ic_msgq ic = ic_msgq ic0" "ic_flags ic = ic_flags ic0" by (elim exE conjE) (rule that)
  have "\<exists>x. ic_heap ic0 ?a = Some x" using st heap_okD(1)[OF h] by (auto simp: cores_Some)
  then obtain x where x: "ic_heap ic0 ?a = Some x" by blast
  note D = kdmsg_state_msgtx_def[of malloc ic0 msg, unfolded Let_def, unfolded f(1)[unfolded Let_def] get_state_Some[OF x] obind.simps]
  show ?thesis
  proof (cases "mC ?h \<or> mD ?h \<or> mA ?h")
    case False
    then show ?thesis unfolding D using f by (intro exI[of _ ic]) (simp add: msg_flags)
  next
    case True
    then have o: "cores ic ?a = Some c" "\<not> mC ?h \<longrightarrow> co_txC c" using st f(3) by auto
    obtain s where s: "ic_heap ic ?a = Some s" "inserted s" "core_of s = c" by (rule open_state[OF o(1)])
    have a0: "?a \<noteq> 0" using o(1) cores_zero[OF f(2)] by auto
    show ?thesis
    proof (cases "mC ?h")
      case c: True
      define s' where "s' = (if mR ?h then s\<lparr>ks_txcmd := dh_cmd ?h AND NOT DMSGF_DELETE\<rparr>
        else s\<lparr>ks_icmd := dh_cmd ?h AND DMSGF_BASECMDMASK, ks_txcmd := dh_cmd ?h AND NOT DMSGF_DELETE, ks_rxcmd := DMSGF_REPLY\<rparr>)"
      have "kdmsg_state_msgtx malloc ic0 msg = Ok (put_state ?a s' ic, E_OK)" unfolding D using c s a0 by (simp add: s'_def msg_flags)
      moreover have "same_links s s'" by (simp add: same_links_def s'_def)
      note U = update_ok[OF f(2) s(1) this]
      moreover have "core_of s' = (if mR ?h then c\<lparr>co_txC := True, co_txD := False, co_txR := True\<rparr>
          else c\<lparr>co_txC := True, co_txD := False, co_txR := False, co_rxC := False, co_rxD := False, co_rxR := True\<rparr>)"
        using c s(3) by (auto simp: core_of_def s'_def msg_flags) (simp_all add: flag_def)
      ultimately show ?thesis using U c s(2) f(3-5) by auto
    next
      case nc: False
      have "flag (ks_txcmd s) DMSGF_CREATE" using o(2) nc s(3) by (auto simp: core_of_def)
      then have "kdmsg_state_msgtx malloc ic0 msg = Ok (ic, E_OK)" unfolding D using nc True s a0 by (simp add: msg_flags)
      then show ?thesis using nc f by auto
    qed
  qed
qed

text \<open>The end of a direction.\<close>

lemma remove_ok:
  assumes h: "heap_ok ic" and s: "ic_heap ic a = Some s" "inserted s"
  shows "opposite s \<Longrightarrow> remove_rd a ic = Ok (unlisted a s ic)" "\<not> opposite s \<Longrightarrow> remove_wr a ic = Ok (unlisted a s ic)"
  using heap_okD(10,11)[OF h s] s by (simp_all add: remove_rd_def remove_wr_def unlisted_def)

lemma finish_ok:
  assumes h: "heap_ok ic" and s: "ic_heap ic a = Some s" "inserted s" and s1: "same_links s s1" and r: "r = opposite s"
  shows "\<exists>ic'. obind (if r then remove_rd a (put_state a s1 ic) else remove_wr a (put_state a s1 ic)) (close_state a) = Ok ic' \<and> heap_ok ic' \<and>
    cores ic' = (cores ic)(a := None) \<and> ic_msgq ic' = ic_msgq ic \<and> ic_flags ic' = ic_flags ic"
proof -
  note U = update_ok[OF h s(1) s1]
  have i: "inserted s1" "opposite s1 = opposite s" using s1 s(2) by (simp_all add: same_links_def)
  have p: "ic_heap (put_state a s1 ic) a = Some s1" by simp
  have "(if r then remove_rd a (put_state a s1 ic) else remove_wr a (put_state a s1 ic)) = Ok (unlisted a s1 (put_state a s1 ic))"
    using remove_ok[OF U(1) p i(1)] r i(2) by simp
  moreover have "(cores (put_state a s1 ic))(a := None) = (cores ic)(a := None)" using U(2) by auto
  ultimately show ?thesis using close_ok[OF U(1) p i(1)] by (auto)
qed

lemma cleanuptx_ok:
  assumes h: "heap_ok ic" and st: "km_state msg = 0 \<and> \<not> mD (km_head msg) \<or> cores ic (km_state msg) = Some c \<and> co_txR c = co_opp c"
  shows "\<exists>ic'. kdmsg_state_cleanuptx ic msg = Ok ic' \<and> heap_ok ic' \<and> ic_msgq ic' = ic_msgq ic \<and> ic_flags ic' = ic_flags ic \<and>
    cores ic' = (if \<not> mD (km_head msg) then cores ic else if co_rxD c then (cores ic)(km_state msg := None) else (cores ic)(km_state msg \<mapsto> c\<lparr>co_txD := True\<rparr>))"
proof (cases "mD (km_head msg)")
  case False
  have "\<exists>x. ic_heap ic (km_state msg) = Some x" using st heap_okD(1)[OF h] by (auto simp: cores_Some)
  then show ?thesis using False h by (auto simp: kdmsg_state_cleanuptx_def Let_def)
next
  case True
  then obtain s where s: "ic_heap ic (km_state msg) = Some s" "inserted s" "core_of s = c" using st open_state by blast
  define s1 where "s1 = s\<lparr>ks_txcmd := ks_txcmd s OR DMSGF_DELETE\<rparr>"
  have sl: "same_links s s1" by (simp add: same_links_def s1_def)
  have e: "flag (ks_rxcmd s1) DMSGF_DELETE = co_rxD c" "flag (ks_txcmd s1) DMSGF_REPLY = opposite s" "core_of s1 = c\<lparr>co_txD := True\<rparr>"
    using s(3) st True by (auto simp: s1_def core_of_def msg_flags flag_def[of DMSGF_DELETE])
  note D = kdmsg_state_cleanuptx_def[of ic msg, unfolded get_state_Some[OF s(1)] obind.simps Let_def, folded s1_def]
  show ?thesis
  proof (cases "co_rxD c")
    case rx: True
    show ?thesis unfolding D using finish_ok[OF h s(1,2) sl e(2)] True rx e(1) by auto
  next
    case rx: False
    show ?thesis unfolding D using update_ok[OF h s(1) sl] s(2) True rx e by auto
  qed
qed

lemma cleanuprx_ok:
  assumes h: "heap_ok ic" and st: "km_state msg = 0 \<and> \<not> mD (km_head msg) \<or> cores ic (km_state msg) = Some c \<and> co_rxR c = (\<not> co_opp c)"
  shows "\<exists>ic'. kdmsg_state_cleanuprx ic msg = Ok ic' \<and> heap_ok ic' \<and> ic_msgq ic' = ic_msgq ic \<and> ic_flags ic' = ic_flags ic \<and>
    cores ic' = (if \<not> mD (km_head msg) then cores ic else if co_txD c then (cores ic)(km_state msg := None) else (cores ic)(km_state msg \<mapsto> c\<lparr>co_rxD := True\<rparr>))"
proof (cases "mD (km_head msg)")
  case False
  have "\<exists>x. ic_heap ic (km_state msg) = Some x" using st heap_okD(1)[OF h] by (auto simp: cores_Some)
  then show ?thesis using False h by (auto simp: kdmsg_state_cleanuprx_def Let_def)
next
  case True
  then obtain s where s: "ic_heap ic (km_state msg) = Some s" "inserted s" "core_of s = c" using st open_state by blast
  define s1 where "s1 = s\<lparr>ks_rxcmd := ks_rxcmd s OR DMSGF_DELETE\<rparr>"
  have sl: "same_links s s1" by (simp add: same_links_def s1_def)
  have e: "flag (ks_txcmd s1) DMSGF_DELETE = co_txD c" "(\<not> flag (ks_rxcmd s1) DMSGF_REPLY) = opposite s" "core_of s1 = c\<lparr>co_rxD := True\<rparr>"
    using s(3) st True by (auto simp: s1_def core_of_def msg_flags flag_def[of DMSGF_DELETE])
  note D = kdmsg_state_cleanuprx_def[of ic msg, unfolded get_state_Some[OF s(1)] obind.simps Let_def, folded s1_def]
  show ?thesis
  proof (cases "co_txD c")
    case tx: True
    have "(if flag (ks_rxcmd s1) DMSGF_REPLY then remove_wr (km_state msg) (put_state (km_state msg) s1 ic) else remove_rd (km_state msg) (put_state (km_state msg) s1 ic)) =
      (if \<not> flag (ks_rxcmd s1) DMSGF_REPLY then remove_rd (km_state msg) (put_state (km_state msg) s1 ic) else remove_wr (km_state msg) (put_state (km_state msg) s1 ic))" by simp
    then show ?thesis unfolding D using finish_ok[OF h s(1,2) sl e(2)] True tx e(1) by auto
  next
    case tx: False
    show ?thesis unfolding D using update_ok[OF h s(1) sl] s(2) True tx e by auto
  qed
qed

end
