(* ===== verification/H2_Endpoint.thy ===== *)
theory H2_Endpoint
  imports H2_Session
begin

unbundle bit_operations_syntax

text \<open>
  One end of a connection: the driver opens transactions and writes messages, the writing thread
  takes them from the queue, the reading thread handles what arrives, and all three interleave.
\<close>

section \<open>Writing\<close>

lemma heap_ok_seq [simp]: "heap_ok (ic\<lparr>ic_seq := n\<rparr>) = heap_ok ic" "heap_ok (ic\<lparr>ic_msgq := q\<rparr>) = heap_ok ic"
  "cores (ic\<lparr>ic_seq := n\<rparr>) = cores ic" "cores (ic\<lparr>ic_msgq := q\<rparr>) = cores ic"
  by (simp_all add: heap_ok_def cores_def is_cache_def fun_eq_iff)

lemma write_ok:
  assumes "ic_heap ic (km_state msg) = Some s" "\<not> flag (ic_flags ic) KDMSG_IOCOMF_EXITNOACC"
  shows "\<exists>ic' h. kdmsg_msg_write ic msg = Ok ic' \<and> heap_ok ic' = heap_ok ic \<and> cores ic' = cores ic \<and> ic_flags ic' = ic_flags ic \<and>
    ic_msgq ic' = ic_msgq ic @ [msg\<lparr>km_head := h\<rparr>] \<and> dh_cmd h = dh_cmd (km_head msg)"
  using assms by (auto simp: kdmsg_msg_write_def Let_def intro!: exI[of _ "(km_head msg)\<lparr>dh_msgid := ks_msgid s, dh_salt := ic_seq ic AND 255\<rparr>"])

definition send :: "malloc_fn \<Rightarrow> kdmsg_iocom \<Rightarrow> u64 \<Rightarrow> u32 \<Rightarrow> nat option \<Rightarrow> kdmsg_iocom outcome" where
  "send malloc ic state cmd func = obind (kdmsg_msg_alloc malloc ic state cmd func) (\<lambda>(ic1, msg). kdmsg_msg_write ic1 msg)"

text \<open>The flags of a command that \<open>kdmsg_msg_alloc\<close> keeps.\<close>

definition same_cmd :: "u32 \<Rightarrow> u32 \<Rightarrow> bool" where
  "same_cmd x y \<longleftrightarrow> flag x DMSGF_CREATE = flag y DMSGF_CREATE \<and> flag x DMSGF_DELETE = flag y DMSGF_DELETE \<and>
     flag x DMSGF_REPLY = flag y DMSGF_REPLY \<and> flag x DMSGF_ABORT = flag y DMSGF_ABORT"

lemma same_cmd_rev: "same_cmd (if b' then (if b then cmd OR DMSGF_REVTRANS else cmd) OR DMSGF_REVCIRC else (if b then cmd OR DMSGF_REVTRANS else cmd)) cmd"
  by (simp add: same_cmd_def flag_or) (simp add: flag_def)

text \<open>A message on an open transaction, or on none.\<close>

lemma alloc_on:
  assumes h: "heap_ok ic" and c: "\<not> (flag cmd DMSGF_CREATE \<and> \<not> flag cmd DMSGF_REPLY)" and st: "state = 0 \<or> cores ic state \<noteq> None"
  shows "\<exists>msg s. kdmsg_msg_alloc malloc ic state cmd func = Ok (ic, msg) \<and> km_state msg = state \<and> same_cmd (dh_cmd (km_head msg)) cmd \<and> ic_heap ic state = Some s"
proof -
  have "\<exists>s p ps. ic_heap ic state = Some s \<and> ks_parent s = Some p \<and> ic_heap ic p = Some ps"
    using st heap_okD(1)[OF h] heap_okD(4)[OF h, of state] by (auto simp: cores_Some)
  then obtain s p ps where s: "ic_heap ic state = Some s" "ks_parent s = Some p" "ic_heap ic p = Some ps" by blast
  show ?thesis using c s same_cmd_rev[of "opposite ps" "opposite s" cmd] by (auto simp: kdmsg_msg_alloc_def Let_def)
qed

lemma send_on:
  assumes "heap_ok ic" "\<not> (flag cmd DMSGF_CREATE \<and> \<not> flag cmd DMSGF_REPLY)" "state = 0 \<or> cores ic state \<noteq> None" "\<not> flag (ic_flags ic) KDMSG_IOCOMF_EXITNOACC"
  shows "\<exists>ic' msg. send malloc ic state cmd func = Ok ic' \<and> heap_ok ic' \<and> cores ic' = cores ic \<and> ic_flags ic' = ic_flags ic \<and>
    ic_msgq ic' = ic_msgq ic @ [msg] \<and> km_state msg = state \<and> same_cmd (dh_cmd (km_head msg)) cmd"
proof -
  obtain msg s where a: "kdmsg_msg_alloc malloc ic state cmd func = Ok (ic, msg)" "km_state msg = state" "same_cmd (dh_cmd (km_head msg)) cmd" "ic_heap ic state = Some s"
    using alloc_on[OF assms(1-3)] by blast
  show ?thesis using write_ok[of ic msg s] a assms(1,4) by (auto simp: send_def)
qed

lemma write_error_on:
  assumes "heap_ok ic" "\<not> (flag cmd DMSGF_CREATE \<and> \<not> flag cmd DMSGF_REPLY)" "state = 0 \<or> cores ic state \<noteq> None" "\<not> flag (ic_flags ic) KDMSG_IOCOMF_EXITNOACC"
  shows "\<exists>ic' msg. write_error malloc ic state cmd error = Ok ic' \<and> heap_ok ic' \<and> cores ic' = cores ic \<and> ic_flags ic' = ic_flags ic \<and>
    ic_msgq ic' = ic_msgq ic @ [msg] \<and> km_state msg = state \<and> same_cmd (dh_cmd (km_head msg)) cmd"
proof -
  obtain msg s where a: "kdmsg_msg_alloc malloc ic state cmd None = Ok (ic, msg)" "km_state msg = state" "same_cmd (dh_cmd (km_head msg)) cmd" "ic_heap ic state = Some s"
    using alloc_on[OF assms(1-3)] by blast
  show ?thesis using write_ok[of ic "msg\<lparr>km_head := (km_head msg)\<lparr>dh_error := error\<rparr>\<rparr>" s] a assms(1,4) by (auto simp: write_error_def)
qed

text \<open>A new transaction.\<close>

lemma send_open:
  assumes h: "heap_ok ic" and m: "malloc_ok malloc ic" and c: "flag cmd DMSGF_CREATE" "\<not> flag cmd DMSGF_REPLY"
    and p: "p = 0 \<or> cores ic p \<noteq> None" and x: "\<not> flag (ic_flags ic) KDMSG_IOCOMF_EXITNOACC"
  shows "\<exists>ic' msg a. send malloc ic p cmd func = Ok ic' \<and> heap_ok ic' \<and> a \<noteq> 0 \<and> cores ic a = None \<and> ic_flags ic' = ic_flags ic \<and>
    cores ic' = (cores ic)(a \<mapsto> \<lparr>co_opp = False, co_txC = False, co_txD = False, co_txR = False, co_rxC = False, co_rxD = False, co_rxR = False, co_msgid = a\<rparr>) \<and>
    ic_msgq ic' = ic_msgq ic @ [msg] \<and> km_state msg = a \<and> same_cmd (dh_cmd (km_head msg)) cmd"
proof -
  define a where "a = malloc (ic_heap ic)"
  define s where "s = zero_state\<lparr>ks_parent := Some p, ks_flags := KDMSG_STATE_DYNAMIC OR KDMSG_STATE_INSERTED, ks_func := func, ks_msgid := a\<rparr>"
  have a: "ic_heap ic a = None" using m by (simp add: a_def malloc_ok_def)
  have s: "inserted s" "\<not> opposite s" "ks_parent s = Some p" "ks_subq s = []" "ks_msgid s = a" by (simp_all add: s_def zero_state_def flag_def)
  have wr: "ic_statewr_tree ic a = None"
  proof (rule ccontr)
    assume "ic_statewr_tree ic a \<noteq> None"
    then show False using heap_okD(9)[OF h, of a] a by auto
  qed
  obtain ps where ps: "ic_heap ic p = Some ps" "p = 0 \<or> inserted ps" using p heap_okD(1)[OF h] by (auto simp: cores_Some)
  have pa: "p \<noteq> a" using ps a by auto
  let ?i = "linked a s p ps ic"
  have "if opposite s then ic_staterd_tree ic (ks_msgid s) = None else ks_msgid s = a \<and> ic_statewr_tree ic a = None" using s wr by simp
  note L = link_ok[OF h ps disjI1[OF conjI[OF a refl]] s(1,3,4) this]
  have i: "ic_heap ?i a = Some s" "ic_heap ?i p = Some (ps\<lparr>ks_subq := ks_subq ps @ [a]\<rparr>)" using pa s(2) by (simp_all add: linked_def Let_def)
  have "\<exists>msg. kdmsg_msg_alloc malloc ic p cmd func = Ok (?i, msg) \<and> km_state msg = a \<and> same_cmd (dh_cmd (km_head msg)) cmd"
    using c wr pa ps(1) same_cmd_rev[of True False cmd, simplified] same_cmd_rev[of False False cmd, simplified]
    by (simp add: kdmsg_msg_alloc_def Let_def a_def[symmetric] s_def linked_def get_state_def put_state_def flag_def[of 3])
  then obtain msg where msg: "kdmsg_msg_alloc malloc ic p cmd func = Ok (?i, msg)" "km_state msg = a" "same_cmd (dh_cmd (km_head msg)) cmd" by blast
  have q: "ic_msgq ?i = ic_msgq ic" "ic_flags ?i = ic_flags ic" by (simp_all add: linked_def Let_def)
  have "a \<noteq> 0" using a heap_okD(1)[OF h] by auto
  moreover have "core_of s = \<lparr>co_opp = False, co_txC = False, co_txD = False, co_txR = False, co_rxC = False, co_rxD = False, co_rxR = False, co_msgid = a\<rparr>"
    using s(2,5) by (simp add: core_of_def) (simp add: s_def zero_state_def)
  moreover have "cores ic a = None" using a by (simp add: cores_def)
  moreover have "same_cmd (dh_cmd h) cmd" if "dh_cmd h = dh_cmd (km_head msg)" for h using that msg(3) by simp
  ultimately show ?thesis using write_ok[of ?i msg s] i(1) msg L q x by (auto simp: send_def)
qed


section \<open>The endpoint\<close>

text \<open>
  \<open>d_tx\<close> is the message between \<open>kdmsg_state_msgtx\<close> and \<open>kdmsg_state_cleanuptx\<close> in the writing thread, \<open>d_rx\<close> the one between
  \<open>kdmsg_state_msgrx\<close> and \<open>kdmsg_state_cleanuprx\<close> in the reading thread (the driver's function runs meanwhile); \<open>d_error\<close>
  is set when the writing thread leaves its loop.
\<close>

record dsys =
  d_ic :: kdmsg_iocom
  d_tx :: "kdmsg_msg option"
  d_rx :: "kdmsg_msg option"
  d_error :: errno

datatype dop = Open u64 u32 "nat option" | Send u64 u32 | Reply u64 u32 | Result u64 u32 | TxBegin | TxEnd | RxBegin kdmsg_msg | RxEnd

fun dexec :: "malloc_fn \<Rightarrow> dop \<Rightarrow> dsys \<Rightarrow> dsys outcome" where
  "dexec malloc (Open p cmd func) d = obind (send malloc (d_ic d) p cmd func) (\<lambda>ic. Ok (d\<lparr>d_ic := ic\<rparr>))"
| "dexec malloc (Send a cmd) d = obind (send malloc (d_ic d) a cmd None) (\<lambda>ic. Ok (d\<lparr>d_ic := ic\<rparr>))"
| "dexec malloc (Reply a e) d = obind (kdmsg_state_reply malloc (d_ic d) a e) (\<lambda>ic. Ok (d\<lparr>d_ic := ic\<rparr>))"
| "dexec malloc (Result a e) d = obind (kdmsg_state_result malloc (d_ic d) a e) (\<lambda>ic. Ok (d\<lparr>d_ic := ic\<rparr>))"
| "dexec malloc TxBegin d =
     (case ic_msgq (d_ic d) of
        [] \<Rightarrow> Ok d
      | msg # q \<Rightarrow> obind (kdmsg_state_msgtx malloc ((d_ic d)\<lparr>ic_msgq := q\<rparr>) msg) (\<lambda>(ic, error).
          Ok (if error = E_OK then d\<lparr>d_ic := ic, d_tx := Some msg\<rparr>
              else if error = EALREADY then d\<lparr>d_ic := ic\<rparr>
              else d\<lparr>d_ic := ic, d_error := error\<rparr>)))"
| "dexec malloc TxEnd d =
     (case d_tx d of None \<Rightarrow> Ok d | Some msg \<Rightarrow> obind (kdmsg_state_cleanuptx (d_ic d) msg) (\<lambda>ic. Ok (d\<lparr>d_ic := ic, d_tx := None\<rparr>)))"
| "dexec malloc (RxBegin msg) d =
     obind (kdmsg_state_msgrx malloc (d_ic d) msg) (\<lambda>(ic, msg1, error). Ok (d\<lparr>d_ic := ic, d_rx := (if error = E_OK then Some msg1 else None)\<rparr>))"
| "dexec malloc RxEnd d =
     (case d_rx d of None \<Rightarrow> Ok d | Some msg \<Rightarrow> obind (kdmsg_state_cleanuprx (d_ic d) msg) (\<lambda>ic. Ok (d\<lparr>d_ic := ic, d_rx := None\<rparr>)))"

text \<open>
  The rules that the driver and the other side keep to.  They are stricter than the protocol that the comments of
  \<^verbatim>\<open>kern_dmsg.c\<close> describe, because the code is not safe for all of it.

  The driver writes on a transaction only while its own direction is open and it has not queued a DELETE, so that it never aborts a
  direction it has closed itself; it opens its direction before other messages, which the reply functions do
  for it in a transaction of the other side but not in its own until the writing thread has sent the CREATE.  It may reply again once the
  first reply is transmitted, not before.  It does not close its direction while a message on the closed direction of
  the other side is being handled.

  The other side sets the flag REPLY in a message with CREATE or DELETE exactly when it sets REVTRANS, does not answer a transaction
  before it has seen it, and sends messages without CREATE, as ABORT and DELETE, on a direction it has closed only while this side has not
  queued the DELETE of its own direction.  ABORT is allowed in every other message.
\<close>

definition queued :: "dsys \<Rightarrow> u64 \<Rightarrow> kdmsg_msg list" where
  "queued d a = filter (\<lambda>m. km_state m = a) (ic_msgq (d_ic d))"

definition tx_of :: "dsys \<Rightarrow> u64 \<Rightarrow> kdmsg_msg option" where
  "tx_of d a = (case d_tx d of None \<Rightarrow> None | Some m \<Rightarrow> if km_state m = a then Some m else None)"

text \<open>\<open>quiet\<close>: no DELETE of this side waits or is being transmitted; \<open>may_close\<close>: no message on a closed direction is being handled.\<close>

definition quiet :: "dsys \<Rightarrow> u64 \<Rightarrow> bool" where
  "quiet d a \<longleftrightarrow> (\<forall>m \<in> set (queued d a). \<not> mD (km_head m)) \<and> (case tx_of d a of None \<Rightarrow> True | Some m \<Rightarrow> \<not> mD (km_head m))"

definition may_send :: "dsys \<Rightarrow> u64 \<Rightarrow> bool" where
  "may_send d a \<longleftrightarrow> \<not> flag (ic_flags (d_ic d)) KDMSG_IOCOMF_EXITNOACC \<and>
     (case cores (d_ic d) a of None \<Rightarrow> False | Some c \<Rightarrow> \<not> co_txD c) \<and> quiet d a"

definition may_close :: "dsys \<Rightarrow> u64 \<Rightarrow> bool" where
  "may_close d a \<longleftrightarrow> (case d_rx d of None \<Rightarrow> True | Some m \<Rightarrow> km_state m \<noteq> a \<or> (case cores (d_ic d) a of None \<Rightarrow> True | Some c \<Rightarrow> \<not> co_rxD c))"

fun denabled :: "malloc_fn \<Rightarrow> dsys \<Rightarrow> dop \<Rightarrow> bool" where
  "denabled malloc d (Open p cmd func) \<longleftrightarrow> flag cmd DMSGF_CREATE \<and> \<not> flag cmd DMSGF_REPLY \<and>
     (p = 0 \<or> is_open (d_ic d) p) \<and> malloc_ok malloc (d_ic d) \<and> \<not> flag (ic_flags (d_ic d)) KDMSG_IOCOMF_EXITNOACC"
| "denabled malloc d (Send a cmd) \<longleftrightarrow> \<not> flag cmd DMSGF_CREATE \<and>
     (if a = 0 then \<not> flag cmd DMSGF_DELETE \<and> \<not> flag cmd DMSGF_ABORT \<and> \<not> flag (ic_flags (d_ic d)) KDMSG_IOCOMF_EXITNOACC
      else may_send d a \<and> (flag cmd DMSGF_DELETE \<longrightarrow> may_close d a) \<and> (queued d a \<noteq> [] \<or> (case cores (d_ic d) a of None \<Rightarrow> False | Some c \<Rightarrow> co_txC c)))"
| "denabled malloc d (Reply a e) \<longleftrightarrow> (case cores (d_ic d) a of None \<Rightarrow> False | Some c \<Rightarrow> co_txD c \<or> may_send d a \<and> may_close d a \<and> (co_opp c \<or> co_txC c))"
| "denabled malloc d (Result a e) \<longleftrightarrow> (case cores (d_ic d) a of None \<Rightarrow> False | Some c \<Rightarrow> co_txD c \<or> may_send d a \<and> (co_opp c \<or> co_txC c))"
| "denabled malloc d TxBegin \<longleftrightarrow> d_tx d = None \<and> d_error d = E_OK \<and> ic_msgq (d_ic d) \<noteq> [] \<and> (malloc_ok malloc (d_ic d) \<or> ic_freewr_state (d_ic d) \<noteq> None)"
| "denabled malloc d TxEnd \<longleftrightarrow> d_tx d \<noteq> None"
| "denabled malloc d (RxBegin msg) \<longleftrightarrow> d_rx d = None \<and> (malloc_ok malloc (d_ic d) \<or> ic_freerd_state (d_ic d) \<noteq> None) \<and>
     (mC (km_head msg) \<or> mD (km_head msg) \<longrightarrow> mR (km_head msg) = mV (km_head msg)) \<and>
     (case find_state (d_ic d) (mV (km_head msg)) (dh_msgid (km_head msg)) of
        None \<Rightarrow> True
      | Some a \<Rightarrow> (case cores (d_ic d) a of None \<Rightarrow> False | Some c \<Rightarrow> (co_opp c \<or> co_txC c) \<and> (co_rxD c \<longrightarrow> \<not> mC (km_head msg) \<and> quiet d a)))"
| "denabled malloc d RxEnd \<longleftrightarrow> d_rx d \<noteq> None"

definition dinit :: "dsys \<Rightarrow> bool" where
  "dinit d \<longleftrightarrow> (\<exists>flags. d = \<lparr>d_ic = kdmsg_iocom_init flags, d_tx = None, d_rx = None, d_error = E_OK\<rparr>)"

definition dstep :: "dsys \<Rightarrow> dsys \<Rightarrow> bool" where
  "dstep d d' \<longleftrightarrow> (\<exists>malloc dop. denabled malloc d dop \<and> dexec malloc dop d = Ok d')"

abbreviation dreach :: "dsys \<Rightarrow> bool" where "dreach \<equiv> reachable dinit dstep"

text \<open>A sequence of operations, without the rules above.\<close>

fun drun :: "malloc_fn \<Rightarrow> dop list \<Rightarrow> dsys \<Rightarrow> dsys outcome" where
  "drun malloc [] d = Ok d"
| "drun malloc (x # xs) d = obind (dexec malloc x d) (drun malloc xs)"

text \<open>
  The queue is emptied when the connection goes down.  Each round takes the first message that is then in the queue; the lock is
  released in it, so the other threads run: between \<open>kdmsg_state_msgtx\<close> and \<open>kdmsg_state_cleanuptx\<close>, and before the next round.
  \<open>rounds\<close> says what they do in each round, and bounds the number of rounds.
\<close>

fun kdmsg_drain_msgq :: "malloc_fn \<Rightarrow> (dop list \<times> dop list) list \<Rightarrow> dsys \<Rightarrow> dsys outcome" where
  "kdmsg_drain_msgq malloc [] d = (if ic_msgq (d_ic d) = [] then Ok d else Fault ''rounds'')"
| "kdmsg_drain_msgq malloc ((others, others') # rounds) d =
     (case ic_msgq (d_ic d) of
        [] \<Rightarrow> Ok d
      | msg # q \<Rightarrow>
          obind (kdmsg_state_msgtx malloc ((d_ic d)\<lparr>ic_msgq := q\<rparr>) msg) (\<lambda>(ic, error).
          obind (drun malloc others (d\<lparr>d_ic := ic, d_tx := (if error = E_OK then Some msg else None)\<rparr>)) (\<lambda>d1.
          obind (case d_tx d1 of
                   None \<Rightarrow> Ok d1
                 | Some msg1 \<Rightarrow> obind (kdmsg_state_cleanuptx (d_ic d1) msg1) (\<lambda>ic1. Ok (d1\<lparr>d_ic := ic1, d_tx := None\<rparr>))) (\<lambda>d2.
          obind (drun malloc others' d2) (kdmsg_drain_msgq malloc rounds)))))"

section \<open>The invariant\<close>

definition core_ok :: "core \<Rightarrow> bool" where
  "core_ok c \<longleftrightarrow> \<not> (co_txD c \<and> co_rxD c) \<and> (co_opp c \<longrightarrow> co_txR c \<and> \<not> co_rxR c) \<and>
     (\<not> co_opp c \<longrightarrow> \<not> co_txR c \<and> (co_txC c \<longrightarrow> co_rxR c) \<and> (\<not> co_txC c \<longrightarrow> \<not> co_txD c \<and> \<not> co_rxD c))"

text \<open>The messages that wait for the writing thread, per transaction.\<close>

definition queue_ok :: "core \<Rightarrow> dmsg_hdr list \<Rightarrow> bool" where
  "queue_ok c q \<longleftrightarrow>
     (\<forall>h \<in> set q. mC h \<longrightarrow> mR h = co_opp c) \<and> (\<not> co_txC c \<and> q \<noteq> [] \<longrightarrow> mC (hd q)) \<and>
     (\<not> co_opp c \<longrightarrow> (if co_txC c then (\<forall>h \<in> set q. \<not> mC h) else q \<noteq> [] \<and> (\<forall>h \<in> set (tl q). \<not> mC h))) \<and>
     (co_txD c \<longrightarrow> q = []) \<and> (\<forall>h \<in> set (butlast q). \<not> mD h)"

lemma queue_ok_append:
  assumes "queue_ok c q" "\<forall>h \<in> set q. \<not> mD h" "\<not> co_txD c" "mC h \<longrightarrow> mR h \<and> co_opp c" "\<not> co_txC c \<and> q = [] \<longrightarrow> mC h"
  shows "queue_ok c (q @ [h])"
proof (cases "co_opp c"; cases "co_txC c"; cases "mC h"; cases "q = []")
qed (use assms in \<open>simp_all add: queue_ok_def\<close>)

definition transmitted :: "dmsg_hdr \<Rightarrow> core \<Rightarrow> core" where
  "transmitted h c = (if \<not> mC h then c else if mR h then c\<lparr>co_txC := True, co_txD := False, co_txR := True\<rparr>
     else c\<lparr>co_txC := True, co_txD := False, co_txR := False, co_rxC := False, co_rxD := False, co_rxR := True\<rparr>)"

lemma queue_ok_pop:
  assumes q: "queue_ok c (h # q)" and c: "core_ok c"
  shows "queue_ok (transmitted h c) q" "core_ok (transmitted h c)" "co_txC (transmitted h c)" "\<not> co_txD (transmitted h c)"
    "mD h \<Longrightarrow> q = []" "co_opp (transmitted h c) = co_opp c" "co_rxD (transmitted h c) = co_rxD c" "\<not> mC h \<longrightarrow> co_txC c"
proof -
  have d: "mD h \<Longrightarrow> q = []" using q by (cases q) (simp_all add: queue_ok_def)
  have n: "\<forall>x \<in> set (butlast q). \<not> mD x" using q by (cases q) (simp_all add: queue_ok_def)
  have C: "\<not> co_txD c" "\<not> mC h \<Longrightarrow> co_txC c" "mC h \<Longrightarrow> mR h = co_opp c" "\<not> co_opp c \<Longrightarrow> \<forall>x \<in> set q. \<not> mC x" "\<not> co_opp c \<Longrightarrow> mC h \<Longrightarrow> \<not> co_txC c"
    using q by (cases "co_opp c"; cases "co_txC c"; simp add: queue_ok_def)+
  show "queue_ok (transmitted h c) q" using q n C by (cases "co_opp c"; cases "co_txC c"; cases "mC h"; cases "mR h"; simp add: queue_ok_def transmitted_def)
  show "core_ok (transmitted h c)" using c C by (cases "co_opp c"; cases "co_txC c"; cases "mC h"; cases "mR h"; simp add: core_ok_def transmitted_def)
  show "co_rxD (transmitted h c) = co_rxD c" using c C by (cases "co_opp c"; cases "co_txC c"; cases "mC h"; cases "mR h"; simp add: core_ok_def transmitted_def)
  show "co_txC (transmitted h c)" "\<not> co_txD (transmitted h c)" "co_opp (transmitted h c) = co_opp c" using C(1,2) by (simp_all add: transmitted_def)
  show "mD h \<Longrightarrow> q = []" "\<not> mC h \<longrightarrow> co_txC c" using d C(2) by blast+
qed

definition one_off :: "kdmsg_msg \<Rightarrow> bool" where
  "one_off m \<longleftrightarrow> km_state m = 0 \<and> \<not> mC (km_head m) \<and> \<not> mD (km_head m) \<and> \<not> mA (km_head m)"

definition heads :: "dsys \<Rightarrow> u64 \<Rightarrow> dmsg_hdr list" where
  "heads d a = map km_head (queued d a)"

definition tx_ok :: "dsys \<Rightarrow> kdmsg_msg \<Rightarrow> bool" where
  "tx_ok d m \<longleftrightarrow> one_off m \<or>
     (\<exists>c. cores (d_ic d) (km_state m) = Some c \<and> co_txC c \<and> \<not> co_txD c \<and> (mD (km_head m) \<longrightarrow> heads d (km_state m) = []))"

definition rx_ok :: "dsys \<Rightarrow> kdmsg_msg \<Rightarrow> bool" where
  "rx_ok d m \<longleftrightarrow> km_state m = 0 \<and> \<not> mD (km_head m) \<or> (\<exists>c. cores (d_ic d) (km_state m) = Some c \<and> (co_opp c \<or> co_txC c) \<and> (co_rxD c \<longrightarrow> quiet d (km_state m)))"

definition dinv :: "dsys \<Rightarrow> bool" where
  "dinv d \<longleftrightarrow> heap_ok (d_ic d) \<and> d_error d = E_OK \<and>
     (\<forall>a c. cores (d_ic d) a = Some c \<longrightarrow> core_ok c \<and> queue_ok c (heads d a)) \<and>
     (\<forall>m \<in> set (ic_msgq (d_ic d)). one_off m \<or> cores (d_ic d) (km_state m) \<noteq> None) \<and>
     (\<forall>m. d_tx d = Some m \<longrightarrow> tx_ok d m) \<and> (\<forall>m. d_rx d = Some m \<longrightarrow> rx_ok d m)"

lemma dinvI:
  assumes "heap_ok (d_ic d)" "d_error d = E_OK" "\<And>a c. cores (d_ic d) a = Some c \<Longrightarrow> core_ok c \<and> queue_ok c (heads d a)"
    "\<And>m. m \<in> set (ic_msgq (d_ic d)) \<Longrightarrow> one_off m \<or> cores (d_ic d) (km_state m) \<noteq> None"
    "\<And>m. d_tx d = Some m \<Longrightarrow> tx_ok d m" "\<And>m. d_rx d = Some m \<Longrightarrow> rx_ok d m"
  shows "dinv d"
  using assms by (simp add: dinv_def)

lemma dinvD:
  assumes "dinv d"
  shows "heap_ok (d_ic d)" "d_error d = E_OK" "cores (d_ic d) a = Some c \<Longrightarrow> core_ok c" "cores (d_ic d) a = Some c \<Longrightarrow> queue_ok c (heads d a)"
    "m \<in> set (ic_msgq (d_ic d)) \<Longrightarrow> one_off m \<or> cores (d_ic d) (km_state m) \<noteq> None" "d_tx d = Some m \<Longrightarrow> tx_ok d m" "d_rx d = Some m \<Longrightarrow> rx_ok d m"
  using assms unfolding dinv_def by blast+

lemma heads_append: "ic_msgq (d_ic d') = ic_msgq (d_ic d) @ [m] \<Longrightarrow> heads d' a = (if km_state m = a then heads d a @ [km_head m] else heads d a)"
  by (simp add: heads_def queued_def)

lemma heads_same: "ic_msgq (d_ic d') = ic_msgq (d_ic d) \<Longrightarrow> heads d' = heads d"
  by (simp add: heads_def queued_def fun_eq_iff)

lemma heads_pop: "ic_msgq (d_ic d) = m # q \<Longrightarrow> ic_msgq (d_ic d') = q \<Longrightarrow> heads d a = (if km_state m = a then km_head m # heads d' a else heads d' a)"
  by (simp add: heads_def queued_def)

lemma heads_closed:
  assumes "dinv d" "cores (d_ic d) a = None" "a \<noteq> 0"
  shows "heads d a = []"
  using assms dinvD(5)[OF assms(1)] by (force simp: heads_def queued_def filter_empty_conv one_off_def)

lemma quiet_iff: "quiet d a \<longleftrightarrow> (\<forall>h \<in> set (heads d a). \<not> mD h) \<and> (\<forall>m. d_tx d = Some m \<and> km_state m = a \<longrightarrow> \<not> mD (km_head m))"
  by (auto simp: quiet_def heads_def tx_of_def split: option.splits)

lemma quiet_tx: "d_tx d = Some m \<Longrightarrow> quiet d a \<longleftrightarrow> (\<forall>h \<in> set (heads d a). \<not> mD h) \<and> (km_state m = a \<longrightarrow> \<not> mD (km_head m))"
  by (simp add: quiet_def heads_def tx_of_def)

lemma may_sendD:
  assumes "may_send d a"
  obtains c where "cores (d_ic d) a = Some c" "\<not> co_txD c" "\<forall>h \<in> set (heads d a). \<not> mD h" "\<And>m. d_tx d = Some m \<Longrightarrow> km_state m = a \<Longrightarrow> \<not> mD (km_head m)"
    "\<not> flag (ic_flags (d_ic d)) KDMSG_IOCOMF_EXITNOACC"
  using assms by (auto simp: may_send_def quiet_iff split: option.splits if_splits)

section \<open>The operations\<close>

text \<open>A message is appended to the queue of a transaction.\<close>

lemma append_inv:
  assumes i: "dinv d" and f: "heap_ok ic" "cores ic = cores (d_ic d)" "ic_msgq ic = ic_msgq (d_ic d) @ [msg]"
    and s: "one_off msg \<or> may_send d (km_state msg) \<and> (mD (km_head msg) \<longrightarrow> may_close d (km_state msg)) \<and>
      (\<exists>c. cores (d_ic d) (km_state msg) = Some c \<and> (mC (km_head msg) \<longrightarrow> mR (km_head msg) \<and> co_opp c) \<and>
        (\<not> co_txC c \<and> heads d (km_state msg) = [] \<longrightarrow> mC (km_head msg)))"
  shows "dinv (d\<lparr>d_ic := ic\<rparr>)"
proof -
  let ?d = "d\<lparr>d_ic := ic\<rparr>"
  note I = dinvD[OF i]
  have h: "heads ?d a = (if km_state msg = a then heads d a @ [km_head msg] else heads d a)" for a using f(3) by (intro heads_append) simp
  have z: "cores (d_ic d) 0 = None" by (rule cores_zero[OF I(1)])
  show ?thesis
  proof (rule dinvI)
    fix a c assume c: "cores (d_ic ?d) a = Some c"
    then have o: "cores (d_ic d) a = Some c" using f(2) by simp
    show "core_ok c \<and> queue_ok c (heads ?d a)"
    proof (cases "km_state msg = a")
      case True
      then have t: "may_send d a" "mC (km_head msg) \<longrightarrow> mR (km_head msg) \<and> co_opp c" "\<not> co_txC c \<and> heads d a = [] \<longrightarrow> mC (km_head msg)"
        using s o z by (auto simp: one_off_def)
      show ?thesis using I(3)[OF o] queue_ok_append[OF I(4)[OF o] _ _ t(2,3)] may_sendD[OF t(1)] o h True by (metis option.inject)
    qed (use I(3,4)[OF o] h in auto)
  next
    fix m assume "m \<in> set (ic_msgq (d_ic ?d))"
    then show "one_off m \<or> cores (d_ic ?d) (km_state m) \<noteq> None" using I(5)[of m] f s by auto
  next
    fix m assume m: "d_tx ?d = Some m"
    have "one_off m \<or> km_state m \<noteq> km_state msg \<or> \<not> mD (km_head m)"
    proof (cases "one_off msg")
      case True
      then show ?thesis using I(6)[of m] m z by (auto simp: tx_ok_def one_off_def)
    next
      case False
      then have "may_send d (km_state msg)" using s by blast
      then show ?thesis using m by (auto elim!: may_sendD)
    qed
    then show "tx_ok ?d m" using I(6)[of m] m f(2) h by (auto simp: tx_ok_def)
  next
    fix m assume m: "d_rx ?d = Some m"
    have "quiet ?d (km_state m)" if q: "quiet d (km_state m)" "cores (d_ic d) (km_state m) = Some c" "co_rxD c" for c
    proof -
      have "\<not> mD (km_head msg)" if "km_state msg = km_state m" using s q m that z by (auto simp: one_off_def may_close_def)
      then show ?thesis using q(1) h by (auto simp: quiet_iff)
    qed
    then show "rx_ok ?d m" using I(7)[of m] m f(2) by (auto simp: rx_ok_def)
  qed (use I(2) f in simp_all)
qed


lemma send_step:
  assumes i: "dinv d" and e: "denabled malloc d (Send a cmd)"
  shows "\<exists>d'. dexec malloc (Send a cmd) d = Ok d' \<and> dinv d'"
proof -
  note I = dinvD[OF i]
  have c: "\<not> flag cmd DMSGF_CREATE" using e by simp
  have o: "a = 0 \<and> \<not> flag cmd DMSGF_DELETE \<and> \<not> flag cmd DMSGF_ABORT \<or> may_send d a \<and> (flag cmd DMSGF_DELETE \<longrightarrow> may_close d a) \<and> (\<exists>c. cores (d_ic d) a = Some c \<and> (heads d a \<noteq> [] \<or> co_txC c))"
    using e by (auto simp: heads_def elim!: may_sendD split: if_splits)
  have x: "\<not> flag (ic_flags (d_ic d)) KDMSG_IOCOMF_EXITNOACC" using e by (auto simp: may_send_def split: if_splits)
  obtain ic msg where s: "send malloc (d_ic d) a cmd None = Ok ic" "heap_ok ic" "cores ic = cores (d_ic d)" "ic_msgq ic = ic_msgq (d_ic d) @ [msg]"
    "km_state msg = a" "same_cmd (dh_cmd (km_head msg)) cmd"
    using send_on[OF I(1), of cmd a malloc None] c o x by (auto elim!: may_sendD)
  have "dinv (d\<lparr>d_ic := ic\<rparr>)" by (rule append_inv[OF i s(2-4)]) (use s(5,6) c o in \<open>auto simp: same_cmd_def one_off_def\<close>)
  then show ?thesis using s(1) by simp
qed

text \<open>The replies.\<close>

lemma reply_flags:
  assumes "core_of s = c"
  shows "flag (reply_cmd s) DMSGF_CREATE = (\<not> co_txC c)" "flag (reply_cmd s) DMSGF_REPLY = co_txR c" "\<not> flag (reply_cmd s) DMSGF_ABORT" "\<not> flag (reply_cmd s) DMSGF_DELETE"
  using assms by (auto simp: reply_cmd_def core_of_def flag_or) (auto simp: flag_def)

lemma error_step:
  assumes i: "dinv d" and m: "may_send d a" and s: "ic_heap (d_ic d) a = Some s" "core_of s = c" "cores (d_ic d) a = Some c" and c: "co_opp c \<or> co_txC c"
    and cmd: "cmd = reply_cmd s \<or> cmd = reply_cmd s OR DMSGF_DELETE \<and> may_close d a"
  shows "\<exists>ic. write_error malloc (d_ic d) a cmd e = Ok ic \<and> dinv (d\<lparr>d_ic := ic\<rparr>)"
proof -
  note I = dinvD[OF i]
  have f: "flag cmd DMSGF_CREATE = (\<not> co_txC c)" "flag cmd DMSGF_REPLY = co_txR c" "flag cmd DMSGF_DELETE \<longrightarrow> may_close d a"
    using cmd reply_flags[OF s(2)] by (auto simp: flag_or) (simp_all add: flag_def)
  have r: "\<not> co_txC c \<Longrightarrow> co_opp c \<and> co_txR c" using c I(3)[OF s(3)] by (auto simp: core_ok_def)
  have x: "\<not> flag (ic_flags (d_ic d)) KDMSG_IOCOMF_EXITNOACC" using m by (simp add: may_send_def)
  obtain ic msg where w: "write_error malloc (d_ic d) a cmd e = Ok ic" "heap_ok ic" "cores ic = cores (d_ic d)" "ic_msgq ic = ic_msgq (d_ic d) @ [msg]"
    "km_state msg = a" "same_cmd (dh_cmd (km_head msg)) cmd"
    using write_error_on[OF I(1), of cmd a malloc e] f r s(3) x by auto
  have "dinv (d\<lparr>d_ic := ic\<rparr>)" by (rule append_inv[OF i w(2-4)]) (use w(5,6) f r s(3) m in \<open>auto simp: same_cmd_def\<close>)
  then show ?thesis using w(1) by blast
qed

lemma reply_step:
  assumes i: "dinv d" and e: "dop = Reply a err \<or> dop = Result a err" "denabled malloc d dop"
  shows "\<exists>d'. dexec malloc dop d = Ok d' \<and> dinv d'"
proof -
  obtain c where c: "cores (d_ic d) a = Some c" using e by (auto split: option.splits)
  obtain s where s: "ic_heap (d_ic d) a = Some s" "core_of s = c" using c by (rule open_state)
  show ?thesis
  proof (cases "co_txD c")
    case True
    then have "flag (ks_txcmd s) DMSGF_DELETE" using s(2) by (auto simp: core_of_def)
    then show ?thesis using e(1) s(1) i by (auto simp: kdmsg_state_reply_def kdmsg_state_result_def)
  next
    case False
    then have m: "may_send d a" "co_opp c \<or> co_txC c" "dop = Reply a err \<Longrightarrow> may_close d a" using e c by auto
    note E = error_step[OF i m(1) s c m(2), of _ malloc err]
    have n: "\<not> flag (ks_txcmd s) DMSGF_DELETE" using False s(2) by (auto simp: core_of_def)
    show ?thesis using e(1)
    proof
      assume r: "dop = Reply a err"
      then show ?thesis using E[OF disjI2[OF conjI[OF refl m(3)]]] s(1) n by (auto simp: kdmsg_state_reply_def)
    next
      assume "dop = Result a err"
      then show ?thesis using E[OF disjI1[OF refl]] s(1) n by (auto simp: kdmsg_state_result_def)
    qed
  qed
qed

text \<open>A new transaction.\<close>

lemma open_step:
  assumes i: "dinv d" and e: "denabled malloc d (Open p cmd func)"
  shows "\<exists>d'. dexec malloc (Open p cmd func) d = Ok d' \<and> dinv d'"
proof -
  note I = dinvD[OF i]
  have c: "flag cmd DMSGF_CREATE" "\<not> flag cmd DMSGF_REPLY" "malloc_ok malloc (d_ic d)" "\<not> flag (ic_flags (d_ic d)) KDMSG_IOCOMF_EXITNOACC" using e by simp_all
  have p: "p = 0 \<or> cores (d_ic d) p \<noteq> None" using e by (auto simp: is_open_def cores_def split: option.splits)
  let ?c = "\<lambda>a. \<lparr>co_opp = False, co_txC = False, co_txD = False, co_txR = False, co_rxC = False, co_rxD = False, co_rxR = False, co_msgid = a\<rparr>"
  obtain ic msg a where s: "send malloc (d_ic d) p cmd func = Ok ic" "heap_ok ic" "a \<noteq> 0" "cores (d_ic d) a = None" "cores ic = (cores (d_ic d))(a \<mapsto> ?c a)"
    "ic_msgq ic = ic_msgq (d_ic d) @ [msg]" "km_state msg = a" "same_cmd (dh_cmd (km_head msg)) cmd"
    using send_open[OF I(1) c(3,1,2) p c(4)] by blast
  let ?d = "d\<lparr>d_ic := ic\<rparr>"
  have h: "heads ?d b = (if a = b then [km_head msg] else heads d b)" for b
    using heads_append[of ?d d msg b] heads_closed[OF i s(4,3)] s(6,7) by auto
  have "queue_ok (?c a) [km_head msg]" "core_ok (?c a)" using s(8) c by (simp_all add: queue_ok_def same_cmd_def core_ok_def)
  then have "dinv ?d"
  proof (intro dinvI, goal_cases)
    case (3 b x)
    then show ?case using I(3,4)[of b x] s(5) h by (auto split: if_splits)
  next
    case (4 x)
    then show ?case using I(5)[of x] s(5-7) by auto
  next
    case (5 x)
    then show ?case using I(6)[of x] s(3,4,5) h by (auto simp: tx_ok_def)
  next
    case (6 x)
    then show ?case using I(7)[of x] s(4,5) h by (auto simp: rx_ok_def quiet_iff)
  qed (use I(2) s(2) in simp_all)
  then show ?thesis using s(1) by simp
qed


text \<open>The writing thread.\<close>

lemma txbegin_step:
  assumes i: "dinv d" and e: "denabled malloc d TxBegin"
  shows "\<exists>d'. dexec malloc TxBegin d = Ok d' \<and> dinv d'"
proof -
  note I = dinvD[OF i]
  obtain msg q where q: "ic_msgq (d_ic d) = msg # q" using e by (cases "ic_msgq (d_ic d)") auto
  let ?ic = "(d_ic d)\<lparr>ic_msgq := q\<rparr>" and ?h = "km_head msg" and ?a = "km_state msg"
  have h: "heap_ok ?ic" "malloc_ok malloc ?ic \<or> ic_freewr_state ?ic \<noteq> None" using I(1) e by (simp_all add: malloc_ok_def)
  have hd: "heads d a = (if ?a = a then ?h # heads d' a else heads d' a)" if "ic_msgq (d_ic d') = q" for a d' using heads_pop[OF q that] .
  have z: "cores (d_ic d) 0 = None" by (rule cores_zero[OF I(1)])
  have msgs: "x \<in> set q \<Longrightarrow> one_off x \<or> cores (d_ic d) (km_state x) \<noteq> None" for x using I(5)[of x] q by simp
  consider (one) "one_off msg" | (st) c where "cores (d_ic d) ?a = Some c" using I(5)[of msg] q by auto
  then show ?thesis
  proof cases
    case one
    then obtain ic where t: "kdmsg_state_msgtx malloc ?ic msg = Ok (ic, E_OK)" "heap_ok ic" "ic_msgq ic = q" "cores ic = cores (d_ic d)"
      using msgtx_ok[OF h(1) h(2), of msg] by (auto simp: one_off_def)
    let ?d = "d\<lparr>d_ic := ic, d_tx := Some msg\<rparr>"
    have "heads ?d a = heads d a" if "cores (d_ic d) a = Some c" for a c using hd[of ?d a] t(3) one that z by (auto simp: one_off_def)
    then have "dinv ?d" using I(2,3,4,7) msgs t(2-4) one z by (intro dinvI) (auto simp: tx_ok_def rx_ok_def quiet_iff one_off_def)
    then show ?thesis using t(1) q by simp
  next
    case st
    let ?c = "transmitted ?h c"
    obtain w where w: "heads d ?a = ?h # w" using hd[of "d\<lparr>d_ic := ?ic\<rparr>" ?a] by auto
    note P = queue_ok_pop[OF I(4)[OF st, unfolded w] I(3)[OF st]]
    have eq: "(if \<not> mC ?h then cores ?ic
        else if mR ?h then (cores ?ic)(?a \<mapsto> c\<lparr>co_txC := True, co_txD := False, co_txR := True\<rparr>)
        else (cores ?ic)(?a \<mapsto> c\<lparr>co_txC := True, co_txD := False, co_txR := False, co_rxC := False, co_rxD := False, co_rxR := True\<rparr>)) = (cores (d_ic d))(?a \<mapsto> ?c)"
      using st by (simp add: transmitted_def fun_upd_idem)
    have "km_state msg = 0 \<and> \<not> mC ?h \<and> \<not> mD ?h \<and> \<not> mA ?h \<or> cores ?ic ?a = Some c \<and> (\<not> mC ?h \<longrightarrow> co_txC c)" using st P(8) by simp
    from msgtx_ok[OF h(1) h(2) this, unfolded eq]
    obtain ic where t: "kdmsg_state_msgtx malloc ?ic msg = Ok (ic, E_OK)" "heap_ok ic" "ic_msgq ic = q" "cores ic = (cores (d_ic d))(?a \<mapsto> ?c)" by auto
    let ?d = "d\<lparr>d_ic := ic, d_tx := Some msg\<rparr>"
    have hs: "heads ?d ?a = w" "b \<noteq> ?a \<Longrightarrow> heads ?d b = heads d b" for b using hd[of ?d] t(3) w by auto
    have "dinv ?d"
    proof (rule dinvI)
      fix b x assume "cores (d_ic ?d) b = Some x"
      then show "core_ok x \<and> queue_ok x (heads ?d b)" using P(1,2) I(3,4)[of b x] hs t(4) by (cases "b = ?a") auto
    next
      fix x assume "x \<in> set (ic_msgq (d_ic ?d))"
      then show "one_off x \<or> cores (d_ic ?d) (km_state x) \<noteq> None" using msgs[of x] t by auto
    next
      fix x assume "d_tx ?d = Some x"
      then show "tx_ok ?d x" using P(3-5) hs t(4) by (auto simp: tx_ok_def)
    next
      fix x assume "d_rx ?d = Some x"
      moreover have "quiet ?d b" if q: "quiet d b" for b
      proof (cases "b = ?a")
        case True
        have "\<forall>h \<in> set (?h # w). \<not> mD h" using q w by (simp add: quiet_iff True)
        then show ?thesis using hs(1) by (simp add: quiet_tx True)
      next
        case False
        then have "heads ?d b = heads d b" by (rule hs(2))
        then show ?thesis using q False by (simp add: quiet_tx) (simp add: quiet_iff)
      qed
      ultimately show "rx_ok ?d x" using I(7)[of x] P(3,7) st t(4) by (auto simp: rx_ok_def)
    qed (use I(2) t in simp_all)
    then show ?thesis using t(1) q by simp
  qed
qed

lemma txend_step:
  assumes i: "dinv d" and e: "denabled malloc d TxEnd"
  shows "\<exists>d'. dexec malloc TxEnd d = Ok d' \<and> dinv d'"
proof -
  note I = dinvD[OF i]
  obtain msg where t: "d_tx d = Some msg" using e by auto
  let ?a = "km_state msg"
  have z: "cores (d_ic d) 0 = None" by (rule cores_zero[OF I(1)])
  have k: "km_state x = ?a \<Longrightarrow> x \<in> set (ic_msgq (d_ic d)) \<Longrightarrow> heads d ?a \<noteq> []" for x by (auto simp: heads_def queued_def filter_empty_conv)
  consider (no) "\<not> mD (km_head msg)" | (del) c where "mD (km_head msg)" "cores (d_ic d) ?a = Some c" "co_txC c" "\<not> co_txD c" "heads d ?a = []"
    using I(6)[OF t] by (auto simp: tx_ok_def one_off_def)
  then show ?thesis
  proof cases
    case no
    obtain ic where s: "kdmsg_state_cleanuptx (d_ic d) msg = Ok ic" "heap_ok ic" "ic_msgq ic = ic_msgq (d_ic d)" "cores ic = cores (d_ic d)"
    proof (cases "cores (d_ic d) ?a")
      case None
      then show ?thesis using that cleanuptx_ok[OF I(1), of msg] no I(6)[OF t] by (auto simp: tx_ok_def one_off_def)
    next
      case (Some c)
      then show ?thesis using that cleanuptx_ok[OF I(1), of msg c] no I(3)[OF Some] by (auto simp: core_ok_def)
    qed
    then have "dinv (d\<lparr>d_ic := ic, d_tx := None\<rparr>)" using I heads_same[of "d\<lparr>d_ic := ic, d_tx := None\<rparr>" d] by (intro dinvI) (auto simp: rx_ok_def quiet_iff)
    then show ?thesis using s(1) t by simp
  next
    case del
    have "co_txR c = co_opp c" using I(3)[OF del(2)] by (auto simp: core_ok_def)
    then obtain ic where s: "kdmsg_state_cleanuptx (d_ic d) msg = Ok ic" "heap_ok ic" "ic_msgq ic = ic_msgq (d_ic d)"
        "cores ic = (if co_rxD c then (cores (d_ic d))(?a := None) else (cores (d_ic d))(?a \<mapsto> c\<lparr>co_txD := True\<rparr>))"
      using cleanuptx_ok[OF I(1), of msg c] del(1,2) by auto
    let ?d = "d\<lparr>d_ic := ic, d_tx := None\<rparr>"
    have hs: "heads ?d = heads d" using s(3) by (intro heads_same) simp
    have "core_ok (c\<lparr>co_txD := True\<rparr>)" "queue_ok (c\<lparr>co_txD := True\<rparr>) []" if "\<not> co_rxD c"
      using I(3,4)[OF del(2)] del(3,5) that by (simp_all add: core_ok_def queue_ok_def)
    then have "dinv ?d"
    proof (intro dinvI, goal_cases)
      case (3 b x)
      then show ?case using I(3,4)[of b x] s(4) hs del(5) by (auto split: if_splits)
    next
      case (4 x)
      then show ?case using I(5)[of x] k[of x] del(5) s(3,4) by auto
    next
      case (6 x)
      then show ?case using I(7)[of x] s(4) del(1,2) z t hs by (auto simp: rx_ok_def quiet_iff)
    qed (use I(2) s(2) in simp_all)
    then show ?thesis using s(1) t by simp
  qed
qed


text \<open>The reading thread.\<close>

lemma core_find: "heap_ok ic \<Longrightarrow> cores ic a = Some c \<Longrightarrow> find_state ic (\<not> co_opp c) (co_msgid c) = Some a"
  using heap_okD(10,11) by (fastforce simp: cores_Some find_state_def core_of_def)

lemma rxbegin_step:
  assumes i: "dinv d" and e: "denabled malloc d (RxBegin msg)"
  shows "\<exists>d'. dexec malloc (RxBegin msg) d = Ok d' \<and> dinv d'"
proof -
  note I = dinvD[OF i]
  let ?h = "km_head msg"
  have z: "cores (d_ic d) 0 = None" by (rule cores_zero[OF I(1)])
  have l: "(co_opp c \<or> co_txC c) \<and> (co_rxD c \<longrightarrow> \<not> mC ?h \<and> quiet d a)" if "cores (d_ic d) a = Some c" "co_opp c = (\<not> mV ?h)" "co_msgid c = dh_msgid ?h" for a c
    using core_find[OF I(1) that(1)] that e by (auto split: option.splits)
  have v: "mC ?h \<or> mD ?h \<Longrightarrow> mR ?h = mV ?h" and hm: "malloc_ok malloc (d_ic d) \<or> ic_freerd_state (d_ic d) \<noteq> None" using e by auto
  obtain ic msg' err where s: "kdmsg_state_msgrx malloc (d_ic d) msg = Ok (ic, msg', err)" "heap_ok ic" "ic_msgq ic = ic_msgq (d_ic d)" "km_head msg' = ?h"
    and c: "err \<noteq> E_OK \<and> cores ic = cores (d_ic d) \<or>
     err = E_OK \<and> cores ic = cores (d_ic d) \<and> km_state msg' = 0 \<and> \<not> mC ?h \<and> \<not> mD ?h \<or>
     err = E_OK \<and> cores ic = cores (d_ic d) \<and> \<not> mC ?h \<and>
       (\<exists>c. cores (d_ic d) (km_state msg') = Some c \<and> co_opp c = (\<not> mV ?h) \<and> co_msgid c = dh_msgid ?h \<and> (mD ?h \<longrightarrow> co_rxC c)) \<or>
     err = E_OK \<and> mC ?h \<and> mR ?h \<and>
       (\<exists>c. cores (d_ic d) (km_state msg') = Some c \<and> co_opp c = (\<not> mV ?h) \<and> co_msgid c = dh_msgid ?h \<and>
          cores ic = (cores (d_ic d))(km_state msg' \<mapsto> c\<lparr>co_rxC := True, co_rxD := False, co_rxR := True\<rparr>)) \<or>
     err = E_OK \<and> mC ?h \<and> \<not> mR ?h \<and> cores (d_ic d) (km_state msg') = None \<and> km_state msg' \<noteq> 0 \<and>
       cores ic = (cores (d_ic d))(km_state msg' \<mapsto> \<lparr>co_opp = True, co_txC = False, co_txD = False, co_txR = True, co_rxC = True, co_rxD = False, co_rxR = False,
          co_msgid = dh_msgid ?h\<rparr>)"
    using msgrx_ok[OF I(1) hm v] by blast
  let ?d = "d\<lparr>d_ic := ic, d_rx := (if err = E_OK then Some msg' else None)\<rparr>"
  have hs: "heads ?d = heads d" using s(3) by (intro heads_same) simp
  have qs: "quiet ?d b = quiet d b" for b using hs by (simp add: quiet_iff)
  have up: "dinv ?d" if u: "err = E_OK" "a = km_state msg'" "a \<noteq> 0" "cores ic = (cores (d_ic d))(a \<mapsto> c')" "core_ok c'" "queue_ok c' (heads d a)" "\<not> co_rxD c'" "co_opp c' \<or> co_txC c'"
    "\<And>c. cores (d_ic d) a = Some c \<Longrightarrow> co_txC c' = co_txC c \<and> co_txD c' = co_txD c" for a c'
  proof (rule dinvI)
    show "core_ok x \<and> queue_ok x (heads ?d b)" if "cores (d_ic ?d) b = Some x" for b x
      using that I(3,4)[of b x] u(4-6) hs by (auto split: if_splits)
    show "one_off x \<or> cores (d_ic ?d) (km_state x) \<noteq> None" if "x \<in> set (ic_msgq (d_ic ?d))" for x
      using that I(5)[of x] s(3) u(4) by auto
    show "tx_ok ?d x" if "d_tx ?d = Some x" for x
      using I(6)[of x] that u(4,9) hs by (auto simp: tx_ok_def)
    show "rx_ok ?d x" if "d_rx ?d = Some x" for x using that u by (auto simp: rx_ok_def split: if_splits)
  qed (use I(2) s(2) in simp_all)
  have keep: "dinv ?d" if "cores ic = cores (d_ic d)" "err = E_OK \<Longrightarrow> rx_ok ?d msg'"
    using I(2-6) s(2,3) hs that by (intro dinvI) (auto simp: tx_ok_def split: if_splits)
  have "dinv ?d"
  proof -
    consider (keep) "cores ic = cores (d_ic d)" "err = E_OK \<Longrightarrow> rx_ok ?d msg'"
      | (reply) c where "err = E_OK" "mC ?h" "mR ?h" "cores (d_ic d) (km_state msg') = Some c" "co_opp c = (\<not> mV ?h)" "co_msgid c = dh_msgid ?h"
          "cores ic = (cores (d_ic d))(km_state msg' \<mapsto> c\<lparr>co_rxC := True, co_rxD := False, co_rxR := True\<rparr>)"
      | (new) "err = E_OK" "cores (d_ic d) (km_state msg') = None" "km_state msg' \<noteq> 0"
          "cores ic = (cores (d_ic d))(km_state msg' \<mapsto> \<lparr>co_opp = True, co_txC = False, co_txD = False, co_txR = True, co_rxC = True, co_rxD = False, co_rxR = False, co_msgid = dh_msgid ?h\<rparr>)"
      using c l s(4) qs by (fastforce simp: rx_ok_def)
    then show ?thesis
    proof cases
      case keep
      then show ?thesis using \<open>cores ic = cores (d_ic d) \<Longrightarrow> (err = E_OK \<Longrightarrow> rx_ok ?d msg') \<Longrightarrow> dinv ?d\<close> by blast
    next
      case reply
      then have "km_state msg' \<noteq> 0" "\<not> co_opp c" "co_txC c" using z v l[OF reply(4-6)] by auto
      then show ?thesis using up[OF reply(1) refl _ reply(7)] I(3,4)[OF reply(4)] reply(4) by (auto simp: core_ok_def queue_ok_def)
    next
      case new
      then show ?thesis using up[OF new(1) refl new(3,4)] heads_closed[OF i new(2,3)] by (simp add: core_ok_def queue_ok_def)
    qed
  qed
  then show ?thesis using s(1) by simp
qed

lemma rxend_step:
  assumes i: "dinv d" and e: "denabled malloc d RxEnd"
  shows "\<exists>d'. dexec malloc RxEnd d = Ok d' \<and> dinv d'"
proof -
  note I = dinvD[OF i]
  obtain msg where t: "d_rx d = Some msg" using e by auto
  let ?a = "km_state msg"
  have z: "cores (d_ic d) 0 = None" by (rule cores_zero[OF I(1)])
  consider (one) "?a = 0" "\<not> mD (km_head msg)" | (st) c where "cores (d_ic d) ?a = Some c" "co_opp c \<or> co_txC c"
    using I(7)[OF t] by (auto simp: rx_ok_def)
  then show ?thesis
  proof cases
    case one
    obtain ic where s: "kdmsg_state_cleanuprx (d_ic d) msg = Ok ic" "heap_ok ic" "ic_msgq ic = ic_msgq (d_ic d)" "cores ic = cores (d_ic d)"
      using cleanuprx_ok[OF I(1), of msg] one by auto
    then have "dinv (d\<lparr>d_ic := ic, d_rx := None\<rparr>)" using I heads_same[of "d\<lparr>d_ic := ic, d_rx := None\<rparr>" d] by (intro dinvI) (auto simp: tx_ok_def)
    then show ?thesis using s(1) t by simp
  next
    case st
    have r: "co_rxR c = (\<not> co_opp c)" using I(3)[OF st(1)] st(2) by (auto simp: core_ok_def)
    obtain ic where s: "kdmsg_state_cleanuprx (d_ic d) msg = Ok ic" "heap_ok ic" "ic_msgq ic = ic_msgq (d_ic d)"
        "cores ic = (if \<not> mD (km_head msg) then cores (d_ic d) else if co_txD c then (cores (d_ic d))(?a := None) else (cores (d_ic d))(?a \<mapsto> c\<lparr>co_rxD := True\<rparr>))"
      using cleanuprx_ok[OF I(1), of msg c] st(1) r by auto
    let ?d = "d\<lparr>d_ic := ic, d_rx := None\<rparr>"
    have hs: "heads ?d = heads d" using s(3) by (intro heads_same) simp
    have n: "core_ok (c\<lparr>co_rxD := True\<rparr>)" "queue_ok (c\<lparr>co_rxD := True\<rparr>) (heads d ?a)" if "\<not> co_txD c"
      using I(3,4)[OF st(1)] st(2) that by (auto simp: core_ok_def queue_ok_def)
    have k: "km_state x = ?a \<Longrightarrow> x \<in> set (ic_msgq (d_ic d)) \<Longrightarrow> \<not> co_txD c" for x
      using I(4)[OF st(1)] by (auto simp: queue_ok_def heads_def queued_def filter_empty_conv)
    have "dinv ?d"
    proof (rule dinvI)
      fix b x assume "cores (d_ic ?d) b = Some x"
      then show "core_ok x \<and> queue_ok x (heads ?d b)" using I(3,4)[of b x] s(4) hs n by (auto split: if_splits)
    next
      fix x assume "x \<in> set (ic_msgq (d_ic ?d))"
      then show "one_off x \<or> cores (d_ic ?d) (km_state x) \<noteq> None" using I(5)[of x] k[of x] s(3,4) by auto
    next
      fix x assume "d_tx ?d = Some x"
      then show "tx_ok ?d x" using I(6)[of x] s(4) st(1) z hs by (auto simp: tx_ok_def)
    qed (use I(2) s(2) in simp_all)
    then show ?thesis using s(1) t by simp
  qed
qed


lemma dexec_ok:
  assumes "dinv d" "denabled malloc d dop"
  shows "\<exists>d'. dexec malloc dop d = Ok d' \<and> dinv d'"
proof (cases dop)
  case Open
  then show ?thesis using open_step assms by blast
next
  case Send
  then show ?thesis using send_step assms by blast
next
  case Reply
  then show ?thesis using reply_step assms by blast
next
  case Result
  then show ?thesis using reply_step assms by blast
next
  case TxBegin
  then show ?thesis using txbegin_step assms by blast
next
  case TxEnd
  then show ?thesis using txend_step assms by blast
next
  case RxBegin
  then show ?thesis using rxbegin_step assms by blast
next
  case RxEnd
  then show ?thesis using rxend_step assms by blast
qed

lemma init_ok: "dinit d \<Longrightarrow> dinv d"
  by (auto simp: dinit_def dinv_def kdmsg_iocom_init_def heap_ok_def is_cache_def cores_def zero_state_def split: if_splits)

interpretation dmsg: invariant_system dinit dstep dinv
proof
  show "dinit d \<Longrightarrow> dinv d" for d by (rule init_ok)
  show "dstep d d' \<Longrightarrow> dinv d \<Longrightarrow> dinv d'" for d d' using dexec_ok[of d] by (fastforce simp: dstep_def)
qed

lemma dreach_exec:
  assumes "dreach d" "denabled malloc d dop" "dexec malloc dop d = Ok d'"
  shows "dreach d'"
proof -
  have "dstep d d'" unfolding dstep_def using assms(2,3) by blast
  then show ?thesis by (rule reachable_step[OF assms(1)])
qed

text \<open>A sequence of operations that keeps to the rules.\<close>

fun lawful :: "malloc_fn \<Rightarrow> dop list \<Rightarrow> dsys \<Rightarrow> bool" where
  "lawful malloc [] d \<longleftrightarrow> True"
| "lawful malloc (x # xs) d \<longleftrightarrow> denabled malloc d x \<and> (case dexec malloc x d of Ok d' \<Rightarrow> lawful malloc xs d' | _ \<Rightarrow> True)"

lemma lawful_reach: "lawful malloc xs d \<Longrightarrow> dreach d \<Longrightarrow> \<exists>d'. drun malloc xs d = Ok d' \<and> dreach d'"
proof (induction xs arbitrary: d)
  case (Cons x xs)
  have e: "denabled malloc d x" using Cons.prems(1) by simp
  obtain d1 where d1: "dexec malloc x d = Ok d1" using dexec_ok[OF dmsg.reachable_inv[OF Cons.prems(2)] e] by blast
  have "dreach d1" by (rule dreach_exec[OF Cons.prems(2) e d1])
  then show ?case using Cons.IH[of d1] Cons.prems(1) d1 by simp
qed simp

section \<open>Properties\<close>

text \<open>
  C12: an endpoint that is used by the rules above never faults.  In every state that is reachable by them, whatever the
  interleaving of the driver, the writing and the reading thread, an operation that keeps to them succeeds: no state is used after it was freed or through a null pointer,
  no element is removed from a tree or list it is not in, nothing panics, and the writing thread does not stop with an error.
\<close>

theorem dmsg_memory_safe:
  assumes "dreach d" "denabled malloc d dop"
  shows "\<exists>d'. dexec malloc dop d = Ok d' \<and> d_error d' = E_OK \<and> dreach d'"
proof -
  obtain d' where e: "dexec malloc dop d = Ok d'" "dinv d'" using dexec_ok[OF dmsg.reachable_inv[OF assms(1)] assms(2)] by blast
  then show ?thesis using dreach_exec[OF assms] dinvD(2) by blast
qed

text \<open>
  C13: no state leaks at an endpoint that is used by the rules above.  In every state that is reachable by them, an allocated state is \<open>state0\<close>, one of the two spare
  ones, an open transaction with at least one open direction, or one on which open transactions are stacked.
\<close>

theorem dmsg_no_leak:
  assumes "dreach d" "ic_heap (d_ic d) a = Some s"
  shows "a = 0 \<or> is_cache (d_ic d) a \<or>
    is_open (d_ic d) a \<and> \<not> (flag (ks_txcmd s) DMSGF_DELETE \<and> flag (ks_rxcmd s) DMSGF_DELETE) \<or>
    (\<exists>b \<in> set (ks_subq s). is_open (d_ic d) b)"
proof -
  have i: "dinv d" by (rule dmsg.reachable_inv[OF assms(1)])
  note H = heap_okD[OF dinvD(1)[OF i]]
  show ?thesis
  proof (cases "inserted s")
    case True
    then have "cores (d_ic d) a = Some (core_of s)" using assms(2) by (simp add: cores_def)
    then have "core_ok (core_of s)" by (rule dinvD(3)[OF i])
    then show ?thesis using True assms(2) by (simp add: core_ok_def core_of_def is_open_def)
  next
    case False
    show ?thesis
    proof (cases "ks_subq s")
      case Nil
      then show ?thesis using H(7)[OF assms(2) False] by blast
    next
      case (Cons b q)
      then have "b \<in> set (ks_subq s)" by simp
      moreover have "is_open (d_ic d) b" using H(5)[OF assms(2) calculation] by (auto simp: is_open_def)
      ultimately show ?thesis by blast
    qed
  qed
qed

text \<open>The end of the writing thread.\<close>

lemma msgtx_freewr: "kdmsg_state_msgtx malloc ic msg = Ok (ic1, e) \<Longrightarrow> ic_freewr_state ic1 \<noteq> None \<and> ic_msgq ic1 = ic_msgq ic"
  by (auto simp: kdmsg_state_msgtx_def Let_def obind_eq_Ok split: if_splits option.splits)

lemma close_freewr: "close_state a ic = Ok ic1 \<Longrightarrow> ic_freewr_state ic1 = ic_freewr_state ic \<and> ic_msgq ic1 = ic_msgq ic"
  by (auto simp: close_state_def Let_def obind_eq_Ok split: if_splits option.splits)

lemma cleanuptx_freewr: "kdmsg_state_cleanuptx ic msg = Ok ic1 \<Longrightarrow> ic_freewr_state ic1 = ic_freewr_state ic \<and> ic_msgq ic1 = ic_msgq ic"
  by (auto simp: kdmsg_state_cleanuptx_def remove_rd_def remove_wr_def Let_def obind_eq_Ok dest!: close_freewr split: if_splits)

lemma msgrx_done_flags: "msgrx_done ic msg a e0 = Ok (ic1, msg1, e) \<Longrightarrow> ic1 = ic"
  by (auto simp: msgrx_done_def Let_def obind_eq_Ok split: if_splits)

lemma msgrx_existing_flags: "msgrx_existing ic msg a = Ok (ic1, msg1, e) \<Longrightarrow> ic_flags ic1 = ic_flags ic"
  by (auto simp: msgrx_existing_def Let_def obind_eq_Ok dest!: msgrx_done_flags split: if_splits)

lemma msgrx_create_flags: "msgrx_create ic msg a new = Ok (ic1, msg1, e) \<Longrightarrow> ic_flags ic1 = ic_flags ic"
  by (auto simp: msgrx_create_def insert_rd_def Let_def obind_eq_Ok dest!: msgrx_done_flags split: if_splits option.splits)

lemma msgrx_flags:
  assumes "kdmsg_state_msgrx malloc ic msg = Ok (ic1, msg1, e)"
  shows "ic_flags ic1 = ic_flags ic"
proof -
  obtain ic0 new where n: "(case ic_freerd_state ic of Some a \<Rightarrow> (ic, a)
      | None \<Rightarrow> let a = malloc (ic_heap ic) in ((put_state a (zero_state\<lparr>ks_flags := KDMSG_STATE_DYNAMIC\<rparr>) ic)\<lparr>ic_freerd_state := Some a\<rparr>, a)) = (ic0, new)" by fastforce
  then have "ic_flags ic0 = ic_flags ic" by (auto simp: Let_def split: option.splits)
  moreover have "ic_flags ic1 = ic_flags ic0" using assms unfolding kdmsg_state_msgrx_def[unfolded Let_def] n[unfolded Let_def] case_prod_conv
    by (auto dest: msgrx_done_flags msgrx_existing_flags msgrx_create_flags split: if_splits)
  ultimately show ?thesis by simp
qed

lemma alloc_msgq: "kdmsg_msg_alloc malloc ic a cmd func = Ok (ic1, msg) \<Longrightarrow> ic_msgq ic1 = ic_msgq ic"
  by (auto simp: kdmsg_msg_alloc_def Let_def obind_eq_Ok split: if_splits option.splits)

lemma write_msgq: "kdmsg_msg_write ic msg = Ok ic1 \<Longrightarrow> length (ic_msgq ic1) = length (ic_msgq ic) + 1"
  by (auto simp: kdmsg_msg_write_def Let_def obind_eq_Ok split: if_splits)

lemma write_error_msgq: "write_error malloc ic a cmd error = Ok ic1 \<Longrightarrow> length (ic_msgq ic1) = length (ic_msgq ic) + 1"
  by (auto simp: write_error_def obind_eq_Ok dest!: alloc_msgq write_msgq)

lemma msgrx_existing_msgq: "msgrx_existing ic msg a = Ok (ic1, msg1, e) \<Longrightarrow> ic_msgq ic1 = ic_msgq ic"
  by (auto simp: msgrx_existing_def Let_def obind_eq_Ok dest!: msgrx_done_flags split: if_splits)

lemma msgrx_create_msgq: "msgrx_create ic msg a new = Ok (ic1, msg1, e) \<Longrightarrow> ic_msgq ic1 = ic_msgq ic"
  by (auto simp: msgrx_create_def insert_rd_def Let_def obind_eq_Ok dest!: msgrx_done_flags split: if_splits option.splits)

lemma msgrx_msgq:
  assumes "kdmsg_state_msgrx malloc ic msg = Ok (ic1, msg1, e)"
  shows "ic_msgq ic1 = ic_msgq ic"
proof -
  obtain ic0 new where n: "(case ic_freerd_state ic of Some a \<Rightarrow> (ic, a)
      | None \<Rightarrow> let a = malloc (ic_heap ic) in ((put_state a (zero_state\<lparr>ks_flags := KDMSG_STATE_DYNAMIC\<rparr>) ic)\<lparr>ic_freerd_state := Some a\<rparr>, a)) = (ic0, new)" by fastforce
  then have "ic_msgq ic0 = ic_msgq ic" by (auto simp: Let_def split: option.splits)
  moreover have "ic_msgq ic1 = ic_msgq ic0" using assms unfolding kdmsg_state_msgrx_def[unfolded Let_def] n[unfolded Let_def] case_prod_conv
    by (auto dest: msgrx_done_flags msgrx_existing_msgq msgrx_create_msgq split: if_splits)
  ultimately show ?thesis by simp
qed

lemma cleanuprx_msgq: "kdmsg_state_cleanuprx ic msg = Ok ic1 \<Longrightarrow> ic_msgq ic1 = ic_msgq ic"
  by (auto simp: kdmsg_state_cleanuprx_def remove_rd_def remove_wr_def Let_def obind_eq_Ok dest!: close_freewr split: if_splits)

text \<open>The operations of the driver put at most one message in the queue, those of the reading thread none.\<close>

fun queues :: "dop \<Rightarrow> bool" where
  "queues (Open _ _ _) \<longleftrightarrow> True"
| "queues (Send _ _) \<longleftrightarrow> True"
| "queues (Reply _ _) \<longleftrightarrow> True"
| "queues (Result _ _) \<longleftrightarrow> True"
| "queues _ \<longleftrightarrow> False"

lemma dexec_queue:
  assumes "dexec malloc x d = Ok d'" "x \<noteq> TxBegin" "x \<noteq> TxEnd"
  shows "length (ic_msgq (d_ic d')) \<le> length (ic_msgq (d_ic d)) + (if queues x then 1 else 0) \<and> d_tx d' = d_tx d"
  using assms
  by (cases x) (auto simp: send_def obind_eq_Ok kdmsg_state_reply_def kdmsg_state_result_def
      dest!: alloc_msgq write_msgq write_error_msgq msgrx_msgq cleanuprx_msgq split: option.splits if_splits)

lemma drun_queue:
  "drun malloc xs d = Ok d' \<Longrightarrow> TxBegin \<notin> set xs \<Longrightarrow> TxEnd \<notin> set xs \<Longrightarrow>
   length (ic_msgq (d_ic d')) \<le> length (ic_msgq (d_ic d)) + length (filter queues xs) \<and> d_tx d' = d_tx d"
proof (induction xs arbitrary: d)
  case (Cons x xs)
  obtain d1 where d1: "dexec malloc x d = Ok d1" "drun malloc xs d1 = Ok d'" using Cons.prems(1) by (auto simp: obind_eq_Ok)
  then show ?case using dexec_queue[OF d1(1)] Cons.IH[OF d1(2)] Cons.prems(2,3) by auto
qed simp

text \<open>
  What the other threads do in the rounds of a drain keeps to the rules, when they get to it.
\<close>

definition others_ok :: "malloc_fn \<Rightarrow> dop list \<Rightarrow> dsys \<Rightarrow> bool" where
  "others_ok malloc xs d \<longleftrightarrow> lawful malloc xs d \<and> TxBegin \<notin> set xs \<and> TxEnd \<notin> set xs"

definition when_ok :: "('a \<Rightarrow> bool) \<Rightarrow> 'a outcome \<Rightarrow> bool" where
  "when_ok P r \<longleftrightarrow> (case r of Ok x \<Rightarrow> P x | _ \<Rightarrow> True)"

fun rounds_ok :: "malloc_fn \<Rightarrow> (dop list \<times> dop list) list \<Rightarrow> dsys \<Rightarrow> bool" where
  "rounds_ok malloc [] d \<longleftrightarrow> True"
| "rounds_ok malloc ((x, y) # rounds) d \<longleftrightarrow> ic_msgq (d_ic d) = [] \<or>
     (malloc_ok malloc (d_ic d) \<or> ic_freewr_state (d_ic d) \<noteq> None) \<and>
     when_ok (\<lambda>d1. others_ok malloc x d1 \<and> when_ok (when_ok (\<lambda>d3. others_ok malloc y d3 \<and> when_ok (rounds_ok malloc rounds) (drun malloc y d3)) \<circ> dexec malloc TxEnd)
       (drun malloc x d1)) (dexec malloc TxBegin d)"

definition queued_by :: "(dop list \<times> dop list) list \<Rightarrow> nat" where
  "queued_by rounds = sum_list (map (\<lambda>(x, y). length (filter queues x) + length (filter queues y)) rounds)"

text \<open>The two steps of the writing thread in a round, on an endpoint that is reachable.\<close>

lemma drain_begin:
  assumes r: "dreach d" "d_tx d = None" and m: "malloc_ok malloc (d_ic d) \<or> ic_freewr_state (d_ic d) \<noteq> None" and q: "ic_msgq (d_ic d) = msg # q"
  shows "\<exists>ic error d1. kdmsg_state_msgtx malloc ((d_ic d)\<lparr>ic_msgq := q\<rparr>) msg = Ok (ic, error) \<and>
    d1 = d\<lparr>d_ic := ic, d_tx := (if error = E_OK then Some msg else None)\<rparr> \<and> dexec malloc TxBegin d = Ok d1 \<and> dreach d1 \<and> ic_msgq (d_ic d1) = q"
proof -
  have i: "dinv d" by (rule dmsg.reachable_inv[OF r(1)])
  have e: "denabled malloc d TxBegin" using r(2) m q dinvD(2)[OF i] by simp
  obtain d1 where d1: "dexec malloc TxBegin d = Ok d1" "dinv d1" using txbegin_step[OF i e] by blast
  obtain ic error where t: "kdmsg_state_msgtx malloc ((d_ic d)\<lparr>ic_msgq := q\<rparr>) msg = Ok (ic, error)"
    and d1': "d1 = (if error = E_OK then d\<lparr>d_ic := ic, d_tx := Some msg\<rparr> else if error = EALREADY then d\<lparr>d_ic := ic\<rparr> else d\<lparr>d_ic := ic, d_error := error\<rparr>)"
    using d1(1) q by (auto simp: obind_eq_Ok)
  have "d1 = d\<lparr>d_ic := ic, d_tx := (if error = E_OK then Some msg else None)\<rparr>" using d1' dinvD(2)[OF d1(2)] r(2) by (auto split: if_splits)
  moreover have "ic_msgq ic = q" using msgtx_freewr[OF t] by simp
  ultimately show ?thesis using t d1(1) dreach_exec[OF r(1) e d1(1)] by auto
qed

lemma drain_end:
  assumes "dreach d"
  shows "\<exists>d1. (case d_tx d of None \<Rightarrow> Ok d | Some msg \<Rightarrow> obind (kdmsg_state_cleanuptx (d_ic d) msg) (\<lambda>ic. Ok (d\<lparr>d_ic := ic, d_tx := None\<rparr>))) = Ok d1 \<and>
    dexec malloc TxEnd d = Ok d1 \<and> dreach d1 \<and> d_tx d1 = None \<and> ic_msgq (d_ic d1) = ic_msgq (d_ic d)"
proof (cases "d_tx d")
  case None
  then show ?thesis using assms by simp
next
  case (Some msg)
  then have e: "denabled malloc d TxEnd" by simp
  obtain d1 where d1: "dexec malloc TxEnd d = Ok d1" using txend_step[OF dmsg.reachable_inv[OF assms] e] by blast
  then obtain ic where c: "kdmsg_state_cleanuptx (d_ic d) msg = Ok ic" "d1 = d\<lparr>d_ic := ic, d_tx := None\<rparr>" using Some by (auto simp: obind_eq_Ok)
  then show ?thesis using d1 Some dreach_exec[OF assms e d1] cleanuptx_freewr[OF c(1)] by simp
qed

lemma drain_ok:
  "dreach d \<Longrightarrow> d_tx d = None \<Longrightarrow> rounds_ok malloc rounds d \<Longrightarrow> length (ic_msgq (d_ic d)) + queued_by rounds \<le> length rounds \<Longrightarrow>
   \<exists>d'. kdmsg_drain_msgq malloc rounds d = Ok d' \<and> ic_msgq (d_ic d') = [] \<and> d_tx d' = None \<and> dreach d'"
proof (induction rounds arbitrary: d)
  case (Cons r rounds)
  obtain x y where r: "r = (x, y)" by (cases r)
  show ?case
  proof (cases "ic_msgq (d_ic d)")
    case (Cons msg q)
    have m: "malloc_ok malloc (d_ic d) \<or> ic_freewr_state (d_ic d) \<noteq> None" using Cons.prems(3) Cons r by simp
    from drain_begin[OF Cons.prems(1,2) m Cons] obtain ic error d1 where
      b: "kdmsg_state_msgtx malloc ((d_ic d)\<lparr>ic_msgq := q\<rparr>) msg = Ok (ic, error)" "d1 = d\<lparr>d_ic := ic, d_tx := (if error = E_OK then Some msg else None)\<rparr>"
        "dexec malloc TxBegin d = Ok d1" "dreach d1" "ic_msgq (d_ic d1) = q" by blast
    have R: "others_ok malloc x d1" "when_ok (when_ok (\<lambda>d3. others_ok malloc y d3 \<and> when_ok (rounds_ok malloc rounds) (drun malloc y d3)) \<circ> dexec malloc TxEnd) (drun malloc x d1)"
      using Cons.prems(3) Cons r b(3) by (simp_all add: when_ok_def del: dexec.simps)
    obtain d2 where d2: "drun malloc x d1 = Ok d2" "dreach d2" using lawful_reach[OF _ b(4)] R(1) by (auto simp: others_ok_def)
    from drain_end[OF d2(2), of malloc] obtain d3 where
      e: "(case d_tx d2 of None \<Rightarrow> Ok d2 | Some msg \<Rightarrow> obind (kdmsg_state_cleanuptx (d_ic d2) msg) (\<lambda>ic. Ok (d2\<lparr>d_ic := ic, d_tx := None\<rparr>))) = Ok d3"
        "dexec malloc TxEnd d2 = Ok d3" "dreach d3" "d_tx d3 = None" "ic_msgq (d_ic d3) = ic_msgq (d_ic d2)" by blast
    have S: "others_ok malloc y d3" "when_ok (rounds_ok malloc rounds) (drun malloc y d3)" using R(2) d2(1) e(2) by (simp_all add: when_ok_def del: dexec.simps)
    obtain d4 where d4: "drun malloc y d3 = Ok d4" "dreach d4" using lawful_reach[OF _ e(3)] S(1) by (auto simp: others_ok_def)
    have l: "length (ic_msgq (d_ic d2)) \<le> length q + length (filter queues x)" "length (ic_msgq (d_ic d4)) \<le> length (ic_msgq (d_ic d3)) + length (filter queues y)" "d_tx d4 = None"
      using drun_queue[OF d2(1)] drun_queue[OF d4(1)] R(1) S(1) b(5) e(4) by (auto simp: others_ok_def)
    have "length (ic_msgq (d_ic d4)) + queued_by rounds \<le> length rounds" using l(1,2) e(5) Cons.prems(4) Cons r by (simp add: queued_by_def)
    moreover have "rounds_ok malloc rounds d4" using S(2) d4(1) by (simp add: when_ok_def)
    ultimately obtain d' where "kdmsg_drain_msgq malloc rounds d4 = Ok d'" "ic_msgq (d_ic d') = []" "d_tx d' = None" "dreach d'"
      using Cons.IH[OF d4(2) l(3)] by blast
    then show ?thesis using r Cons b(1) d2(1)[unfolded b(2)] e(1) d4(1) by simp
  qed (use Cons.prems r in simp)
qed simp

text \<open>
  C14: the drain of the transmit queue ends.  In each round it takes the first message that is then in the queue, while the
  driver and the reading thread go on under the rules and may queue further messages.  When they queue only finitely many, the
  drain ends after at most as many rounds as there were messages plus the messages they queue, without a fault,
  with an empty queue and a reachable endpoint.
\<close>

theorem dmsg_drain:
  assumes "dreach d" "d_tx d = None" "rounds_ok malloc rounds d" "length (ic_msgq (d_ic d)) + queued_by rounds \<le> length rounds"
  shows "\<exists>d'. kdmsg_drain_msgq malloc rounds d = Ok d' \<and> ic_msgq (d_ic d') = [] \<and> d_tx d' = None \<and> dreach d'"
  by (rule drain_ok[OF assms])

text \<open>
  The handling of a received message is the two steps of the reading thread with the function of the driver between
  them.  A driver keeps to the rules if what it does in that function takes a reachable endpoint to a reachable one.
\<close>

definition driver_ok :: "(kdmsg_iocom \<Rightarrow> kdmsg_msg \<Rightarrow> (kdmsg_iocom \<times> errno) outcome) \<Rightarrow> bool" where
  "driver_ok f \<longleftrightarrow> (\<forall>d msg. dreach d \<and> d_rx d = Some msg \<longrightarrow> (\<exists>ic e. f (d_ic d) msg = Ok (ic, e) \<and> dreach (d\<lparr>d_ic := ic\<rparr>)))"

text \<open>
  With a driver that keeps to the rules, the whole handling of a message that keeps to them ends without a fault and leaves
  a reachable endpoint.
\<close>

lemma receive_ok:
  assumes "dreach d" "denabled malloc d (RxBegin msg)" "\<not> flag (ic_flags (d_ic d)) KDMSG_IOCOMF_AUTOANY"
    and cb: "\<And>n. driver_ok (cb_func cb n)" "driver_ok (cb_rcvmsg cb)"
  shows "\<exists>ic e. kdmsg_msg_receive_handling malloc cb (d_ic d) msg = Ok (ic, e) \<and> dreach (d\<lparr>d_ic := ic\<rparr>)"
proof -
  obtain d1 where d1: "dexec malloc (RxBegin msg) d = Ok d1" "dinv d1" using rxbegin_step[OF dmsg.reachable_inv[OF assms(1)] assms(2)] by blast
  have r1: "dreach d1" by (rule dreach_exec[OF assms(1,2) d1(1)])
  obtain ic1 msg1 err where m: "kdmsg_state_msgrx malloc (d_ic d) msg = Ok (ic1, msg1, err)"
    and d1': "d1 = d\<lparr>d_ic := ic1, d_rx := (if err = E_OK then Some msg1 else None)\<rparr>" using d1(1) by (auto simp: obind_eq_Ok)
  have rx: "d_rx d = None" using assms(2) by simp
  show ?thesis
  proof (cases "err = E_OK")
    case False
    then have "d1 = d\<lparr>d_ic := ic1\<rparr>" using d1' rx by simp
    then show ?thesis using r1 m False by (simp add: kdmsg_msg_receive_handling_def)
  next
    case True
    then have x1: "d_rx d1 = Some msg1" "d_ic d1 = ic1" using d1' by simp_all
    have fl: "\<not> flag (ic_flags ic1) KDMSG_IOCOMF_AUTOANY" using msgrx_flags[OF m] assms(3) by simp
    have "\<exists>s. ic_heap ic1 (km_state msg1) = Some s"
      using dinvD(7)[OF d1(2) x1(1)] heap_okD(1)[OF dinvD(1)[OF d1(2)]] x1(2) by (auto simp: rx_ok_def cores_Some)
    then obtain s where s: "ic_heap ic1 (km_state msg1) = Some s" by blast
    let ?f = "case ks_func s of Some f \<Rightarrow> cb_func cb f | None \<Rightarrow> cb_rcvmsg cb"
    have "driver_ok ?f" using cb by (cases "ks_func s") simp_all
    then obtain ic2 e where f: "?f ic1 msg1 = Ok (ic2, e)" "dreach (d1\<lparr>d_ic := ic2\<rparr>)" using r1 x1 unfolding driver_ok_def by blast
    let ?d2 = "d1\<lparr>d_ic := ic2\<rparr>"
    have x2: "denabled malloc ?d2 RxEnd" using x1(1) by simp
    obtain d3 where d3: "dexec malloc RxEnd ?d2 = Ok d3" using rxend_step[OF dmsg.reachable_inv[OF f(2)] x2] by blast
    obtain ic3 where c: "kdmsg_state_cleanuprx ic2 msg1 = Ok ic3" and d3': "d3 = d\<lparr>d_ic := ic3\<rparr>" using d3 d1' True rx by (auto simp: obind_eq_Ok)
    have "kdmsg_msg_receive_handling malloc cb (d_ic d) msg = Ok (ic3, e)"
      using m True s fl f(1) c by (cases "ks_func s") (simp_all add: kdmsg_msg_receive_handling_def)
    then show ?thesis using dreach_exec[OF f(2) x2 d3] d3' by blast
  qed
qed

definition first_free :: malloc_fn where
  "first_free h = (if h 1 = None then 1 else if h 2 = None then 2 else if h 3 = None then 3 else 4)"

definition endpoint0 :: dsys where
  "endpoint0 = \<lparr>d_ic = kdmsg_iocom_init 0, d_tx = None, d_rx = None, d_error = E_OK\<rparr>"

definition peer_msg :: "u64 \<Rightarrow> u32 \<Rightarrow> kdmsg_msg" where
  "peer_msg msgid cmd = \<lparr>km_state = 0, km_tcmd = 0, km_head = \<lparr>dh_salt = 0, dh_msgid = msgid, dh_circuit = 0, dh_cmd = cmd, dh_error = 0\<rparr>\<rparr>"

section \<open>Why the rules are needed\<close>

lemma close_frees:
  assumes "close_state a ic = Ok ic1" "ic_heap ic a = Some s" "ks_subq s = []"
  shows "ic_heap ic1 a = None"
  using assms by (auto simp: close_state_def Let_def obind_eq_Ok get_state_def split: if_splits option.splits)

lemma cleanuptx_frees:
  assumes "kdmsg_state_cleanuptx ic msg = Ok ic1" "mD (km_head msg)" "ic_heap ic (km_state msg) = Some s" "flag (ks_rxcmd s) DMSGF_DELETE" "ks_subq s = []"
  shows "ic_heap ic1 (km_state msg) = None"
  using assms by (auto simp: kdmsg_state_cleanuptx_def remove_rd_def remove_wr_def Let_def obind_eq_Ok
      dest!: close_frees[where s = "s\<lparr>ks_txcmd := ks_txcmd s OR DMSGF_DELETE\<rparr>"] split: if_splits)

text \<open>A second reply before the first is transmitted.\<close>

lemma write_error_heap:
  assumes h: "heap_ok ic" and c: "\<not> (flag cmd DMSGF_CREATE \<and> \<not> flag cmd DMSGF_REPLY)" and st: "cores ic a \<noteq> None" and x: "\<not> flag (ic_flags ic) KDMSG_IOCOMF_EXITNOACC"
  shows "\<exists>ic' msg. write_error malloc ic a cmd e = Ok ic' \<and> ic_heap ic' = ic_heap ic \<and> heap_ok ic' \<and> cores ic' = cores ic \<and> ic_flags ic' = ic_flags ic \<and>
    ic_freewr_state ic' = ic_freewr_state ic \<and> ic_msgq ic' = ic_msgq ic @ [msg] \<and> km_state msg = a \<and> same_cmd (dh_cmd (km_head msg)) cmd"
proof -
  obtain msg s where a: "kdmsg_msg_alloc malloc ic a cmd None = Ok (ic, msg)" "km_state msg = a" "same_cmd (dh_cmd (km_head msg)) cmd" "ic_heap ic a = Some s"
    using alloc_on[OF h c] st by blast
  show ?thesis using a h x by (auto simp: write_error_def kdmsg_msg_write_def Let_def)
qed

lemma msgtx_heap:
  assumes "kdmsg_state_msgtx malloc ic msg = Ok (ic1, e)" "ic_heap ic (km_state msg) = Some s" "malloc_ok malloc ic" "mC (km_head msg) \<longrightarrow> mR (km_head msg)"
  shows "\<exists>s'. ic_heap ic1 (km_state msg) = Some s' \<and> ks_subq s' = ks_subq s \<and> ks_rxcmd s' = ks_rxcmd s"
proof -
  have "malloc (ic_heap ic) \<noteq> km_state msg" using assms(2,3) by (auto simp: malloc_ok_def)
  then show ?thesis using assms(1,2,4)
    by (auto simp: kdmsg_state_msgtx_def Let_def obind_eq_Ok split: if_splits option.splits)
qed

lemma reply_twice:
  assumes i: "dinv d" and m: "malloc_ok malloc (d_ic d)" and s: "ic_heap (d_ic d) a = Some s" "inserted s" "ks_subq s = []"
    and f: "flag (ks_rxcmd s) DMSGF_DELETE" "\<not> flag (ks_txcmd s) DMSGF_DELETE"
    and t: "d_tx d = None" "ic_msgq (d_ic d) = []" "\<not> flag (ic_flags (d_ic d)) KDMSG_IOCOMF_EXITNOACC"
  shows "drun malloc [Reply a e, Reply a e', TxBegin, TxEnd, TxBegin] d = Fault ''use after free''"
proof -
  let ?cmd = "reply_cmd s OR DMSGF_DELETE" and ?ic = "d_ic d"
  define c where "c = core_of s"
  have c: "cores ?ic a = Some c" using s(1,2) by (simp add: cores_def c_def)
  note C = dinvD(3)[OF i c]
  have rx: "co_rxD c" "\<not> co_txD c" using f by (simp_all add: c_def core_of_def)
  then have oc: "co_opp c \<or> co_txC c" "co_txR c = co_opp c" using C by (auto simp: core_ok_def)
  have fl: "flag ?cmd DMSGF_CREATE = (\<not> co_txC c)" "flag ?cmd DMSGF_REPLY = co_txR c" "flag ?cmd DMSGF_DELETE"
    using reply_flags[OF c_def[symmetric]] by (simp_all add: flag_or) (simp_all add: flag_def)
  have nc: "\<not> (flag ?cmd DMSGF_CREATE \<and> \<not> flag ?cmd DMSGF_REPLY)" using fl oc by auto
  obtain ic1 m1 where w1: "write_error malloc ?ic a ?cmd e = Ok ic1" "ic_heap ic1 = ic_heap ?ic" "heap_ok ic1" "cores ic1 = cores ?ic" "ic_flags ic1 = ic_flags ?ic"
    "ic_msgq ic1 = [m1]" "km_state m1 = a" "same_cmd (dh_cmd (km_head m1)) ?cmd"
    using write_error_heap[OF dinvD(1)[OF i] nc _ t(3), of a malloc e] c t(2) by auto
  obtain ic2 m2 where w2: "write_error malloc ic1 a ?cmd e' = Ok ic2" "ic_heap ic2 = ic_heap ?ic" "heap_ok ic2" "cores ic2 = cores ?ic"
    "ic_msgq ic2 = [m1, m2]" "km_state m2 = a"
    using write_error_heap[OF w1(3) nc, of a malloc e'] c t(3) w1 by auto
  have r: "kdmsg_state_reply malloc ?ic a e = Ok ic1" "kdmsg_state_reply malloc ic1 a e' = Ok ic2"
    using w1(1,2) w2(1) s(1) f(2) by (simp_all add: kdmsg_state_reply_def)
  let ?q = "ic2\<lparr>ic_msgq := [m2]\<rparr>"
  have q: "heap_ok ?q" "malloc_ok malloc ?q" "cores ?q a = Some c" using w2 m c by (simp_all add: malloc_ok_def)
  have m1: "mC (km_head m1) = (\<not> co_txC c)" "mR (km_head m1) = co_txR c" "mD (km_head m1)" using w1(8) fl by (simp_all add: same_cmd_def)
  obtain ic3 where t3: "kdmsg_state_msgtx malloc ?q m1 = Ok (ic3, E_OK)" "heap_ok ic3" "ic_msgq ic3 = [m2]"
      "cores ic3 = (if \<not> mC (km_head m1) then cores ?q else if mR (km_head m1) then (cores ?q)(a \<mapsto> c\<lparr>co_txC := True, co_txD := False, co_txR := True\<rparr>)
        else (cores ?q)(a \<mapsto> c\<lparr>co_txC := True, co_txD := False, co_txR := False, co_rxC := False, co_rxD := False, co_rxR := True\<rparr>))"
    using msgtx_ok[OF q(1), of malloc m1 c] q(2,3) m1 w1(7) by auto
  obtain s3 where s3: "ic_heap ic3 a = Some s3" "ks_subq s3 = []" "flag (ks_rxcmd s3) DMSGF_DELETE"
    using msgtx_heap[OF t3(1), of s] w1(7) w2(2) s(1,3) f(1) q(2) m1 oc by auto
  obtain c3 where c3: "cores ic3 a = Some c3" "co_txR c3 = co_opp c3" using t3(4) q(3) m1 oc by (auto split: if_splits)
  obtain ic4 where t4: "kdmsg_state_cleanuptx ic3 m1 = Ok ic4" "ic_msgq ic4 = [m2]" using cleanuptx_ok[OF t3(2), of m1 c3] c3 w1(7) t3(3) by auto
  have "ic_heap ic4 a = None" using cleanuptx_frees[OF t4(1) m1(3)] s3 w1(7) by simp
  then have "kdmsg_state_msgtx malloc (ic4\<lparr>ic_msgq := []\<rparr>) m2 = Fault ''use after free''" using w2(6) by (simp add: kdmsg_state_msgtx_def get_state_def)
  then show ?thesis using r w2(5) t3(1) t4 by simp
qed

text \<open>A message on a closed direction, also an ABORT with DELETE, while the DELETE of the other direction is being transmitted.\<close>

lemma abort_race:
  assumes i: "dinv d" and m: "malloc_ok malloc (d_ic d)" and s: "ic_heap (d_ic d) a = Some s" "inserted s" "ks_subq s = []" "flag (ks_rxcmd s) DMSGF_DELETE"
    and t: "d_tx d = Some tx" "km_state tx = a" "mD (km_head tx)"
    and r: "find_state (d_ic d) (mV (km_head msg)) (dh_msgid (km_head msg)) = Some a" "\<not> mC (km_head msg)" "mD (km_head msg) \<longrightarrow> mR (km_head msg) = mV (km_head msg)"
      "flag (ks_rxcmd s) DMSGF_CREATE"
  shows "drun malloc [RxBegin msg, TxEnd, RxEnd] d = Fault ''use after free''"
proof -
  let ?ic = "d_ic d" and ?h = "km_head msg"
  define c where "c = core_of s"
  have c: "cores ?ic a = Some c" using s(1,2) by (simp add: cores_def c_def)
  have "a \<noteq> 0" using c cores_zero[OF dinvD(1)[OF i]] by auto
  have "co_txR c = co_opp c" using dinvD(3)[OF i c] s(4) by (auto simp: core_ok_def c_def core_of_def)
  obtain ic0 new where n: "(case ic_freerd_state ?ic of Some a \<Rightarrow> (?ic, a)
      | None \<Rightarrow> let a = malloc (ic_heap ?ic) in ((put_state a (zero_state\<lparr>ks_flags := KDMSG_STATE_DYNAMIC\<rparr>) ?ic)\<lparr>ic_freerd_state := Some a\<rparr>, a)) = (ic0, new)" by fastforce
  have h0: "ic_heap ic0 a = Some s" "find_state ic0 = find_state ?ic" using n s(1) m by (auto simp: Let_def malloc_ok_def find_state_def fun_eq_iff split: option.splits)
  have "\<exists>msg1. kdmsg_state_msgrx malloc ?ic msg = Ok (ic0, msg1, E_OK) \<and> km_state msg1 = a \<and> km_head msg1 = ?h"
    unfolding kdmsg_state_msgrx_def[unfolded Let_def] n[unfolded Let_def] case_prod_conv h0(2) r(1) option.case
    using r(2,4) h0(1) \<open>a \<noteq> 0\<close> by (simp add: msgrx_existing_def msgrx_done_def Let_def)
  then obtain msg1 where x: "kdmsg_state_msgrx malloc ?ic msg = Ok (ic0, msg1, E_OK)" "km_state msg1 = a" by blast
  have ok: "heap_ok ic0" "cores ic0 = cores ?ic" using msgrx_ok[OF dinvD(1)[OF i] disjI1[OF m], of msg] x r(2,3) by auto
  obtain ic1 where k: "kdmsg_state_cleanuptx ic0 tx = Ok ic1" using cleanuptx_ok[OF ok(1), of tx c] ok(2) c t(2) \<open>co_txR c = co_opp c\<close> by auto
  have "ic_heap ic1 a = None" using cleanuptx_frees[OF k t(3)] h0(1) s(3,4) t(2) by simp
  then have "kdmsg_state_cleanuprx ic1 msg1 = Fault ''use after free''" using x(2) by (simp add: kdmsg_state_cleanuprx_def get_state_def)
  then show ?thesis using x(1) k t(1) by simp
qed

text \<open>A message with CREATE, REPLY and DELETE in a transaction of the other side itself.\<close>

lemma wrong_tree:
  assumes i: "dinv d" and m: "malloc_ok malloc (d_ic d)" and s: "ic_heap (d_ic d) a = Some s" "inserted s" "opposite s" "flag (ks_txcmd s) DMSGF_DELETE"
    and r: "find_state (d_ic d) (mV (km_head msg)) (dh_msgid (km_head msg)) = Some a" "mC (km_head msg)" "mR (km_head msg)" "mD (km_head msg)"
  shows "drun malloc [RxBegin msg, RxEnd] d = Fault ''RB_REMOVE''"
proof -
  let ?ic = "d_ic d" and ?h = "km_head msg"
  have "cores ?ic a = Some (core_of s)" using s(1,2) by (simp add: cores_def)
  then have "a \<noteq> 0" using cores_zero[OF dinvD(1)[OF i]] by auto
  obtain ic0 new where n: "(case ic_freerd_state ?ic of Some a \<Rightarrow> (?ic, a)
      | None \<Rightarrow> let a = malloc (ic_heap ?ic) in ((put_state a (zero_state\<lparr>ks_flags := KDMSG_STATE_DYNAMIC\<rparr>) ?ic)\<lparr>ic_freerd_state := Some a\<rparr>, a)) = (ic0, new)" by fastforce
  have h0: "ic_heap ic0 a = Some s" "find_state ic0 = find_state ?ic" "ic_statewr_tree ic0 = ic_statewr_tree ?ic"
    using n s(1) m by (auto simp: Let_def malloc_ok_def find_state_def fun_eq_iff split: option.splits)
  let ?s = "s\<lparr>ks_rxcmd := dh_cmd ?h AND NOT DMSGF_DELETE\<rparr>"
  have "\<exists>msg1. kdmsg_state_msgrx malloc ?ic msg = Ok (put_state a ?s ic0, msg1, E_OK) \<and> km_state msg1 = a \<and> km_head msg1 = ?h"
    unfolding kdmsg_state_msgrx_def[unfolded Let_def] n[unfolded Let_def] case_prod_conv h0(2) r(1) option.case
    using r(2,3) h0(1) \<open>a \<noteq> 0\<close> by (simp add: msgrx_existing_def msgrx_done_def Let_def msg_flags)
  then obtain msg1 where x: "kdmsg_state_msgrx malloc ?ic msg = Ok (put_state a ?s ic0, msg1, E_OK)" "km_state msg1 = a" "km_head msg1 = ?h" by blast
  have "ic_statewr_tree ?ic (ks_msgid s) \<noteq> Some a" using heap_okD(9)[OF dinvD(1)[OF i], of "ks_msgid s" a] s(1,3) by auto
  moreover have "flag (dh_cmd ?h AND NOT DMSGF_DELETE OR DMSGF_DELETE) DMSGF_REPLY" using r(3) by (simp add: flag_or) (simp add: flag_def and.assoc)
  ultimately have "kdmsg_state_cleanuprx (put_state a ?s ic0) msg1 = Fault ''RB_REMOVE''"
    using x(2,3) s(4) r(4) h0(3) by (simp add: kdmsg_state_cleanuprx_def Let_def remove_wr_def)
  then show ?thesis using x(1) by simp
qed


section \<open>Instances\<close>

lemma endpoint0_reach: "dreach endpoint0"
  by (rule reachable_init) (auto simp: dinit_def endpoint0_def)

definition after :: "dop list \<Rightarrow> dsys" where
  "after xs = (case drun first_free xs endpoint0 of Ok d \<Rightarrow> d | _ \<Rightarrow> endpoint0)"

lemma after_reach: "lawful first_free xs endpoint0 \<Longrightarrow> dreach (after xs)"
  using lawful_reach[OF _ endpoint0_reach] by (fastforce simp: after_def)

text \<open>
  The other side opens a transaction and closes its direction; the driver replies, and opens a transaction on top of it.
\<close>

definition dialogue :: "dop list" where
  "dialogue = [RxBegin (peer_msg 5 0x80000001), Reply 1 0, Open 1 0x80000002 None, TxBegin, RxEnd, TxEnd, RxBegin (peer_msg 5 0x40000001), TxBegin]"

lemma dialogue_lawful: "lawful first_free dialogue endpoint0" "lawful first_free (dialogue @ [RxEnd]) endpoint0"
  by code_simp+

text \<open>The other side opens and closes a transaction at once; or it opens it and the driver closes its own direction first.\<close>

definition half_closed :: "dop list" where
  "half_closed = [RxBegin (peer_msg 5 0xC0000001), RxEnd]"

definition replied :: "dop list" where
  "replied = [RxBegin (peer_msg 5 0x80000001), RxEnd, Reply 1 0, TxBegin, TxEnd]"

definition aborted_msg :: kdmsg_msg where
  "aborted_msg = peer_msg 5 0x50000001"


theorem dmsg_memory_safe_witness:
  "denabled first_free (after dialogue) RxEnd \<and>
   (\<exists>d'. dexec first_free RxEnd (after dialogue) = Ok d' \<and> d_error d' = E_OK \<and> dreach d')"
proof -
  have "denabled first_free (after dialogue) RxEnd" by code_simp
  then show ?thesis using dmsg_memory_safe[OF after_reach[OF dialogue_lawful(1)]] by blast
qed

theorem dmsg_no_leak_witness:
  "\<exists>s. ic_heap (d_ic (after (dialogue @ [RxEnd]))) 1 = Some s \<and> \<not> is_open (d_ic (after (dialogue @ [RxEnd]))) 1 \<and>
     (\<exists>b \<in> set (ks_subq s). is_open (d_ic (after (dialogue @ [RxEnd]))) b)"
proof -
  have "ic_heap (d_ic (after (dialogue @ [RxEnd]))) 1 \<noteq> None" by code_simp
  then obtain s where s: "ic_heap (d_ic (after (dialogue @ [RxEnd]))) 1 = Some s" by blast
  have n: "\<not> is_open (d_ic (after (dialogue @ [RxEnd]))) 1" "\<not> is_cache (d_ic (after (dialogue @ [RxEnd]))) 1" by code_simp+
  show ?thesis using dmsg_no_leak[OF after_reach[OF dialogue_lawful(2)] s] n s by auto
qed


text \<open>
  Two messages are queued; during the first round the other side closes its direction and the driver queues a third message.
\<close>

definition drain_rounds :: "(dop list \<times> dop list) list" where
  "drain_rounds = [([RxEnd, RxBegin (peer_msg 5 0x40000001)], [RxEnd, Send 0 7]), ([], []), ([], [])]"

theorem dmsg_drain_witness:
  "length (ic_msgq (d_ic (after (take 3 dialogue)))) = 2 \<and>
   (\<exists>d'. kdmsg_drain_msgq first_free drain_rounds (after (take 3 dialogue)) = Ok d' \<and> ic_msgq (d_ic d') = [] \<and> d_tx d' = None \<and> dreach d')"
proof -
  have l: "lawful first_free (take 3 dialogue) endpoint0" by code_simp
  have n: "d_tx (after (take 3 dialogue)) = None" "rounds_ok first_free drain_rounds (after (take 3 dialogue))"
    "length (ic_msgq (d_ic (after (take 3 dialogue)))) + queued_by drain_rounds \<le> length drain_rounds" "length (ic_msgq (d_ic (after (take 3 dialogue)))) = 2"
    by code_simp+
  show ?thesis using dmsg_drain[OF after_reach[OF l] n(1-3)] n(4) by blast
qed


end
