(* ===== verification/Spec2Isabelle.thy ===== *)
theory Spec2Isabelle
  imports H2_Table H2_Check H2_Reserve H2_Alloc H2_Trans H2_Ccms H2_Io H2_Sync H2_Format H2_Data H2_Durable H2_Endpoint
begin

text \<open>
  HAMMER2 for OpenBSD: a verification library.

  HAMMER2 is a copy-on-write file system.  Its kernel code is in \<^verbatim>\<open>src/sys/hammer2\<close>, the formatting
  utility in \<^verbatim>\<open>src/sbin/newfs_hammer2\<close>, the cluster messages in \<^verbatim>\<open>src/sys/kern\<close>; the repository ports it from DragonFly to OpenBSD, and
  parts of the port are unfinished.  The library models the code as it is written, with its assertions,
  null pointers and machine integers, and states what holds of it.

  \<^bold>\<open>The parts and how they interact.\<close>  All blocks of a volume hang below the volume header.  A block is
  named by a \<^emph>\<open>blockref\<close> (type, key range, device offset with the size in its low bits, transaction ids,
  check code); the blockrefs below a block form its \<^emph>\<open>block table\<close>.  A block in memory is a \<^emph>\<open>chain\<close>; the
  chains below a chain overlay its block table.  A change goes through the following stages.  A transaction is
  entered (\<open>hammer2_trans_init\<close>).  The chain is found or created in the topology (\<open>hammer2_chain_lookup\<close>,
  \<open>hammer2_chain_create\<close>, which splits a full table with \<open>hammer2_chain_create_indirect\<close>).  New storage
  comes from the freemap (\<open>hammer2_freemap_alloc\<close>), file data is compressed and checked on its way to a
  device buffer (\<open>hammer2_io_getblk\<close>).  A flush writes the modified chains from the bottom up
  (\<open>hammer2_flush\<close>) and seals a new volume header, which the sync code writes to the next of four
  copies; mounting chooses the newest intact copy.  \<open>newfs_hammer2\<close> makes the first one.  Beside all this, a mount exchanges
  messages with the cluster over a connection with a reading and a writing thread.

  \<^bold>\<open>Theories, in the order of the layers.\<close>

  \<^item> \<^verbatim>\<open>H2_Prelude\<close>: the type \<open>outcome\<close> of C functions (a value, a panic, an undefined access), words, lists, bytes.
  \<^item> \<^verbatim>\<open>H2_Disk\<close>: blockrefs and chains (\<^verbatim>\<open>hammer2_disk.h\<close>, \<^verbatim>\<open>hammer2.h\<close>), the order of key ranges.
  \<^item> \<^verbatim>\<open>H2_Blocktable\<close>, \<^verbatim>\<open>H2_Table\<close>: \<open>hammer2_base_find\<close>, \<open>hammer2_base_insert\<close>, \<open>hammer2_base_delete\<close>,
    \<open>hammer2_chain_countbrefs\<close> of \<^verbatim>\<open>hammer2_chain.c\<close>.  The locale \<open>key_table\<close> is the contract of an ordered
    collection of disjoint key ranges; its interpretation \<open>h2\<close> is the array code, whose insertion moves elements
    between free slots.  Every branch of the operations, the panics included, is covered.
  \<^item> \<^verbatim>\<open>H2_Icrc\<close>, \<^verbatim>\<open>H2_Check\<close>: the CRC of \<^verbatim>\<open>icrc32.c\<close> with its table, equal to the bit-serial CRC-32C, and the check
    codes of chains (\<open>hammer2_chain_setcheck\<close>, \<open>hammer2_chain_testcheck\<close>).
  \<^item> \<^verbatim>\<open>H2_Subr\<close>: \<^verbatim>\<open>hammer2_subr.c\<close>: directory hash, radices, block sizes, times, types.
  \<^item> \<^verbatim>\<open>H2_Bmap\<close>, \<^verbatim>\<open>H2_Freemap\<close>, \<^verbatim>\<open>H2_Alloc\<close>, \<^verbatim>\<open>H2_Reserve\<close>: \<^verbatim>\<open>hammer2_freemap.c\<close>: the allocator of a 2 MB segment, the
    search over segments and zones, the rotation of the freemap's own blocks, the adjustment by recovery and
    bulk free.  The invariant ties the bitmaps to the set of bytes handed out: no byte is ever allocated twice.
  \<^item> \<^verbatim>\<open>H2_Trans\<close>: the transaction manager of \<^verbatim>\<open>hammer2_flush.c\<close> as a step relation, its isolation and progress.
  \<^item> \<^verbatim>\<open>H2_Ccms\<close>: the locks of \<^verbatim>\<open>hammer2_ccms.c\<close> with the wrappers for inodes and mounts, as steps of threads.  A step is atomic, also where
    the code changes the count without the spin lock, so lost updates there are not covered.
  \<^item> \<^verbatim>\<open>H2_Io\<close>: the device buffers of \<^verbatim>\<open>hammer2_io.c\<close>, whose reference word changes by atomic steps.
  \<^item> \<^verbatim>\<open>H2_Buffer\<close>, \<^verbatim>\<open>H2_Volume\<close>, \<^verbatim>\<open>H2_Sync\<close>: stores and fetches in byte buffers, the volume header and its choice at mount
    (\<^verbatim>\<open>hammer2_vfsops.c\<close>), its sealing in \<open>hammer2_flush_core\<close> and the rotation of its copies, with crashes that leave anything in the copy being written.
  \<^item> \<^verbatim>\<open>H2_Newfs\<close>, \<^verbatim>\<open>H2_Format\<close>: \<^verbatim>\<open>newfs_hammer2.c\<close>: options, sizes, the image, and that the mount code accepts it.
  \<^item> \<^verbatim>\<open>H2_Lz4_Decode\<close>, \<^verbatim>\<open>H2_Lz4_Encode\<close>, \<^verbatim>\<open>H2_Lz4\<close>: \<^verbatim>\<open>hammer2_lz4.c\<close> and \<^verbatim>\<open>hammer2_lz4_encoder.h\<close> at the level of memory
    accesses: memory safety of the decompressor, the round trip, the limit of the compressor.
  \<^item> \<^verbatim>\<open>H2_Data\<close>: the write and read paths of file blocks in \<^verbatim>\<open>hammer2_vfsops.c\<close> and \<^verbatim>\<open>hammer2_vnops.c\<close>.
  \<^item> \<^verbatim>\<open>H2_Chain\<close>, \<^verbatim>\<open>H2_Indkey\<close>, \<^verbatim>\<open>H2_Topology\<close>, \<^verbatim>\<open>H2_Level\<close>, \<^verbatim>\<open>H2_Split\<close>, \<^verbatim>\<open>H2_Lookup\<close>: the topology in \<^verbatim>\<open>hammer2_chain.c\<close>.  A chain
    is a tree (\<open>ctree\<close>) of the chain, its block table if it is in memory, and the chains below it in key order;
    \<open>view\<close> merges table and chains, and \<open>level_ok\<close> is the invariant of a level.  The searches are shown equal to searches
    in the view, creation and deletion to insertion into and removal from it; a split moves exactly the elements inside
    the range of the new indirect block; a lookup returns the leaf that has the key.
  \<^item> \<^verbatim>\<open>H2_Flush\<close>, \<^verbatim>\<open>H2_Writeback\<close>, \<^verbatim>\<open>H2_Durable\<close>: the recursive flush.  \<open>flushable\<close> says that whatever is out of date in a block
    table is flagged, \<open>flushed\<close> that nothing is; \<open>flush_spec\<close> is the contract of the flush of one chain below a parent, which every
    level of the recursion keeps; what is read back from the media after a flush has the blocks that were in memory.  The flush does not
    cross the boundary of a mounted PFS, so the theorems ask that nothing is left to be flushed there; the media hold the buffers of the chains in memory and are
    unchanged elsewhere, with different blocks at different places.
  \<^item> \<^verbatim>\<open>H2_System\<close>: reachable states and the locale \<open>invariant_system\<close>, the contract of a component whose threads
    interleave; \<^verbatim>\<open>H2_Trans\<close>, \<^verbatim>\<open>H2_Ccms\<close>, \<^verbatim>\<open>H2_Io\<close>, \<^verbatim>\<open>H2_Sync\<close> and \<^verbatim>\<open>H2_Endpoint\<close> interpret it with their steps and invariants.
  \<^item> \<^verbatim>\<open>H2_Dmsg\<close>, \<^verbatim>\<open>H2_Session\<close>, \<^verbatim>\<open>H2_Endpoint\<close>: the cluster messages of \<^verbatim>\<open>src/sys/kern/kern_dmsg.c\<close>.  Transactions are states in a heap, in which
    the use of a freed state is a fault; \<open>heap_ok\<close> ties the heap to the trees and the lists of stacked transactions, \<open>dinv\<close> to the
    queue and to what the two threads hold.  Under rules for the driver and the other side that are stricter than the comments of the
    code, an endpoint never faults and leaks no state, and the drain of its queue ends when only finitely many messages are queued beside it; from
    every reachable state, three sequences that the comments allow or the code does not refuse lead to a fault.

  \<^bold>\<open>Bounds and fuel.\<close>  Loops that the code bounds keep its bounds: the counters \<open>maxloops\<close> of the chain searches
  (300000 and 100000, whose exhaustion panics; the proofs need a depth below 299999), the 10 levels after which a flush
  defers a chain, the 28 bits of the reference count of a device buffer (the protocol assumes fewer than \<open>2 ^ 28 - 1\<close> holders).  The
  allocator's loop over the volume has fuel \<open>alloc_fuel\<close>, which is shown to be enough for every state of the iterator; the loop of
  \<open>newq_mask\<close> runs at most 32 times and has fuel 33.  \<open>hammer2_flush\<close> takes the number of rounds; one
  is enough when nothing is deferred, which holds for trees of at most ten levels.  In \<open>create_again\<close> the countdown is shared
  by the levels a lookup passes, as in the code.  The directory and data loops are structural.

  \<^bold>\<open>What is abstracted.\<close>  The freemap's own chains are a map from zones to leaves.  LZ4 is the 64-bit little-endian
  instance.  The message authentication code, zlib, the allocator as seen by the topology, the block tables on the media (\<open>load\<close>), device errors, the
  identifiers of \<open>uuidgen\<close>, the staging buffers of the port and the transaction id of a mount are parameters; what is assumed of them is a hypothesis
  of the property.  The red-black tree of chains is the list in key order; the port defines \<open>RB_SCAN\<close> as nothing and
  calls the scan functions with null pointers, so each search has two builds: \<open>RB_STUB\<close>, the code of the repository, which faults, and \<open>RB_TREE\<close>,
  a repaired one, with the macro of the original and without those calls.  The theorems of the topology and of the flush state what each build does.  Locks and reference counts of chains are left out of the topology; the lock itself is in
  \<^verbatim>\<open>H2_Ccms\<close>.  Inodes with embedded data (DIRECTDATA), the statistics of inodes and the debugging output are left out.

  \<^bold>\<open>Not modelled.\<close>  Clusters (\<^verbatim>\<open>hammer2_cluster.c\<close>) are lists of chains on which each operation is repeated; the data path treats
  them so, the rest is a loop around the chain operations.  Inodes and vnode operations (\<^verbatim>\<open>hammer2_inode.c\<close>,
  \<^verbatim>\<open>hammer2_vnops.c\<close> apart from its data path) combine chain operations with the vnode layer of the kernel, whose
  interfaces the port stubs out.  Mount and unmount, ioctls and \<^verbatim>\<open>mount_hammer2\<close> are calls of the kernel and of system
  calls.  Of the cluster messages the reconnection, the automatic initiation of links, the shutdown loop of the threads and the sockets are left
  out, as is \<^verbatim>\<open>libdmsg\<close>, its counterpart in user space.  The \<^verbatim>\<open>hammer2\<close> utility prints and issues ioctls.  The rest of the repository is the OpenBSD kernel.
\<close>

unbundle bit_operations_syntax

section \<open>Allocation and device buffers\<close>

lemma blk_placed_in_buffer:
  assumes "blk_placed radix off" "radix \<le> 16"
  shows "off mod 2 ^ hammer2_devblkradix radix + 2 ^ radix \<le> 2 ^ hammer2_devblkradix radix"
proof (cases "radix < 14")
  case True
  then show ?thesis using assms(1) by (simp add: blk_placed_def hammer2_devblkradix_def)
next
  case False
  let ?k = "hammer2_devblkradix radix"
  have k: "radix \<le> ?k" using devblksize_pow2 [OF assms(2)] by simp
  have d: "2 ^ radix dvd off mod 2 ^ ?k" "(2::nat) ^ radix dvd 2 ^ ?k"
    using assms(1) False k by (auto simp: blk_placed_def le_imp_power_dvd dvd_mod_iff)
  have "off mod 2 ^ ?k < 2 ^ ?k" by simp
  from dvd_less_add_le [OF d this] show ?thesis .
qed

text \<open>
  C3: what the freemap hands out, the device layer accepts.  Every block that
  \<open>hammer2_freemap_alloc\<close> allocates on a consistent freemap lies inside one device buffer
  of 16 KB or 64 KB, so that \<open>hammer2_io_getblk\<close> on the blockref's \<open>data_off\<close> fails none of its
  assertions and finds the whole block in the buffer.
\<close>

theorem allocated_block_has_buffer:
  assumes "freemap_inv hmp lvs allocs" "vol_ok hmp" "tr_flags tr AND HAMMER2_TRANS_FREEBATCH = 0"
    and "br_type bref \<noteq> HAMMER2_BREF_TYPE_FREEMAP_NODE" "br_type bref \<noteq> HAMMER2_BREF_TYPE_FREEMAP_LEAF"
    and "HAMMER2_RADIX_MIN \<le> radix" "radix \<le> HAMMER2_RADIX_MAX"
  shows "\<exists>e hmp' lvs' bref'. hammer2_freemap_alloc tr methods hmp lvs bref (push_bit radix 1) =
      Ok (e, tr, hmp', lvs', bref') \<and>
    (e = ENOSPC \<or> e = E_OK \<and>
     (\<exists>lb pb psize. io_pbase (br_data_off bref') (push_bit radix 1) = Ok (lb, pb, psize) \<and>
        bref_extent bref' = extent (unat lb) radix \<and> (psize = 16384 \<or> psize = 65536) \<and>
        psize dvd unat pb \<and> extent (unat lb) radix \<subseteq> {unat pb..<unat pb + psize}))"
proof -
  have r: "radix \<le> 16" using assms(7) by simp
  have "\<exists>lb pb psize. io_pbase (br_data_off bref') (push_bit radix 1) = Ok (lb, pb, psize) \<and>
        bref_extent bref' = extent (unat lb) radix \<and> (psize = 16384 \<or> psize = 65536) \<and>
        psize dvd unat pb \<and> extent (unat lb) radix \<subseteq> {unat pb..<unat pb + psize}"
    if s: "alloc_success hmp allocs bref radix hmp' lvs' bref'" for hmp' lvs' bref'
  proof -
    obtain off where off: "bref' = bref\<lparr>br_data_off := off OR of_nat radix\<rparr>"
        "4194304 \<le> unat off mod 2 ^ 31" "1024 dvd unat off" "blk_placed radix (unat off)"
      using s by (auto simp: alloc_success_def)
    have "65536 \<le> unat off" using off(2) mod_less_eq_dividend [of "unat off" "2 ^ 31"] by linarith
    then have big: "2 ^ 16 \<le> unat off" by simp
    obtain pb psize where io: "io_pbase (off OR of_nat radix) (push_bit radix 1) = Ok (off, pb, psize)"
        "psize = 16384 \<or> psize = 65536" "psize dvd unat pb" "unat pb \<le> unat off"
        "unat off + 2 ^ radix \<le> unat pb + psize"
      using block_buffer [OF r off(3) big blk_placed_in_buffer [OF off(4) r]] by blast
    moreover have "bref_extent bref' = extent (unat off) radix"
      unfolding off(1) by (rule bref_extent_decode [OF off(3)]) (use r in simp)
    moreover have "extent (unat off) radix \<subseteq> {unat pb..<unat pb + psize}"
      using io(4,5) by (auto simp: extent_def)
    ultimately show ?thesis unfolding off(1) by auto
  qed
  then show ?thesis using freemap_alloc_ok [OF assms, of methods] by blast
qed

theorem allocated_block_has_buffer_witness:
  "\<exists>e hmp' lvs' bref'. hammer2_freemap_alloc ex_trans 0 ex_mount Map.empty ex_data (push_bit 14 1) =
      Ok (e, ex_trans, hmp', lvs', bref') \<and>
    (e = ENOSPC \<or> e = E_OK \<and>
     (\<exists>lb pb psize. io_pbase (br_data_off bref') (push_bit 14 1) = Ok (lb, pb, psize) \<and> psize dvd unat pb))"
  using allocated_block_has_buffer [OF ex_freemap, of ex_trans ex_data 14 0]
  by (auto simp: ex_trans_def ex_data_def)

end
